(* ===== verification/Prelude.thy ===== *)
theory Prelude
  imports Main "HOL-Library.Word" "HOL-Library.Multiset" "HOL-Library.Monad_Syntax"
begin

text \<open>
  Shared vocabulary of the Xvisor development: the C integer types of
  \<^verbatim>\<open>core/include/vmm_types.h\<close>, the error codes of
  \<^verbatim>\<open>core/include/vmm_error.h\<close>, byte memory with explicit faults, and the generic
  lemmas on lists, words and options that the component theories share.

  The model is the 64-bit build: \<^verbatim>\<open>unsigned long\<close>, \<^verbatim>\<open>physical_addr_t\<close> and
  \<^verbatim>\<open>u64\<close> are all \<^typ>\<open>64 word\<close>. A C \<^verbatim>\<open>int\<close> that carries an error code is an
  \<^typ>\<open>int\<close>. A pointer that the code compares with \<^verbatim>\<open>NULL\<close> is an \<^verbatim>\<open>option\<close>.
\<close>

unbundle bit_operations_syntax

section \<open>Types and constants\<close>

type_synonym u8 = "8 word"
type_synonym u16 = "16 word"
type_synonym u32 = "32 word"
type_synonym u64 = "64 word"
type_synonym ulong = "64 word"

definition VMM_OK :: int where [simp]: "VMM_OK = 0"
definition VMM_EFAIL :: int where [simp]: "VMM_EFAIL = -1"
definition VMM_ENOTAVAIL :: int where [simp]: "VMM_ENOTAVAIL = -3"
definition VMM_EINVALID :: int where [simp]: "VMM_EINVALID = -5"
definition VMM_ENOMEM :: int where [simp]: "VMM_ENOMEM = -7"
definition VMM_ENODEV :: int where [simp]: "VMM_ENODEV = -8"
definition VMM_ETIMEDOUT :: int where [simp]: "VMM_ETIMEDOUT = -11"
definition VMM_ENOENT :: int where [simp]: "VMM_ENOENT = -14"
definition VMM_ENOSPC :: int where [simp]: "VMM_ENOSPC = -21"

section \<open>Collections of facts\<close>

named_theorems inv_simps \<open>definitions of the components' invariants\<close>
named_theorems frame_simps \<open>fields an operation leaves alone\<close>

section \<open>Byte memory\<close>

text \<open>
  A C object is a list of bytes. An access outside the object is undefined behaviour in C;
  the model returns \<^const>\<open>None\<close> for it, so that memory safety is a theorem and not an
  artefact of a total read.
\<close>

definition mem_read :: "u8 list \<Rightarrow> nat \<Rightarrow> nat \<Rightarrow> u8 list option" where
  "mem_read m off n = (if off + n \<le> length m then Some (take n (drop off m)) else None)"

definition mem_write :: "u8 list \<Rightarrow> nat \<Rightarrow> u8 list \<Rightarrow> u8 list option" where
  "mem_write m off bs =
     (if off + length bs \<le> length m
      then Some (take off m @ bs @ drop (off + length bs) m) else None)"

lemma mem_read_Some [simp]:
  "off + n \<le> length m \<Longrightarrow> mem_read m off n = Some (take n (drop off m))"
  by (simp add: mem_read_def)

lemma mem_write_Some [simp]:
  "off + length bs \<le> length m \<Longrightarrow>
     mem_write m off bs = Some (take off m @ bs @ drop (off + length bs) m)"
  by (simp add: mem_write_def)

lemma mem_write_same:
  assumes "off + length bs \<le> length m" and "mem_write m off bs = Some m'"
  shows "take (length bs) (drop off m') = bs" and "length m' = length m"
  using assms by auto

lemma mem_write_other:
  assumes "mem_write m off bs = Some m'" and "off' + n \<le> off \<or> off + length bs \<le> off'"
  shows "take n (drop off' m') = take n (drop off' m)"
proof -
  from assms(1) have len: "off + length bs \<le> length m"
    and m': "m' = take off m @ bs @ drop (off + length bs) m"
    by (auto simp: mem_write_def split: if_splits)
  from assms(2) show ?thesis
  proof
    assume "off' + n \<le> off"
    then have "drop off' m' = drop off' (take off m) @ bs @ drop (off + length bs) m"
      and "n \<le> length (drop off' (take off m))"
      using len by (simp_all add: m')
    then have "take n (drop off' m') = take n (drop off' (take off m))"
      by simp
    with \<open>off' + n \<le> off\<close> show ?thesis
      by (simp add: drop_take)
  next
    assume "off + length bs \<le> off'"
    then show ?thesis
      using len by (simp add: m')
  qed
qed

section \<open>Words and naturals\<close>

lemma unat_Suc_bounded:
  fixes x y :: "'a::len word"
  assumes "unat x < unat y"
  shows "unat (x + 1) = Suc (unat x)"
proof -
  have "unat y < 2 ^ LENGTH('a)" by simp
  with assms have "unat x + 1 < 2 ^ LENGTH('a)" by linarith
  then show ?thesis by (simp add: unat_word_ariths(1))
qed

lemma unat_minus_1: "x \<noteq> 0 \<Longrightarrow> unat (x - 1 :: 'a::len word) = unat x - 1"
  by (metis unat_minus_one)

lemma image_minus_unique: "(\<And>c. c \<in> E \<Longrightarrow> f c = f a \<Longrightarrow> c = a) \<Longrightarrow> f ` (E - {a}) = f ` E - {f a}"
  by (intro set_eqI iffI) (auto 0 3)

lemma unat_mult_small: "unat (x::u64) * unat y < 2 ^ 64 \<Longrightarrow> unat (x * y) = unat x * unat y"
  by (simp add: unat_word_ariths)

lemma unat_add_small: "unat (x::u64) + unat y < 2 ^ 64 \<Longrightarrow> unat (x + y) = unat x + unat y"
  by (simp add: unat_word_ariths)

end
