(* ===== verification/Fifo.thy ===== *)
theory Fifo
  imports Prelude
begin

text \<open>
  The fixed-size ring buffer of \<^verbatim>\<open>libs/common/fifo.c\<close>. Every operation takes the FIFO's
  spin lock for its whole body, so each is one atomic step of the model. The element store is
  a byte array; the typed 1, 2, 4 and 8 byte copies and the \<^verbatim>\<open>memcpy\<close> of the source all move
  \<^verbatim>\<open>element_size\<close> bytes at offset \<^verbatim>\<open>pos * element_size\<close>, an offset computed in 32 bits.
  A result \<^const>\<open>None\<close> is an access outside the allocated object.

  The theory shows that the ring buffer refines a bounded list queue: \<open>bounded_queue\<close> is the
  contract, and the interpretation \<open>ring\<close> discharges it for the code's operations.
\<close>

section \<open>State and operations\<close>

record fifo =
  fifo_elements :: "u8 list"
  fifo_element_size :: u32
  fifo_element_count :: u32
  fifo_read_pos :: u32
  fifo_write_pos :: u32
  fifo_avail_count :: u32

text \<open>The two flags say whether the two \<^verbatim>\<open>vmm_zalloc\<close> calls return memory.\<close>

definition fifo_alloc :: "bool \<Rightarrow> bool \<Rightarrow> u32 \<Rightarrow> u32 \<Rightarrow> fifo option" where
  "fifo_alloc have_f have_elements element_size element_count =
     (if element_size = 0 \<or> element_count = 0 then None
      else if \<not> have_f then None
      else if \<not> have_elements then None
      else Some \<lparr>fifo_elements = replicate (unat (element_size * element_count)) 0,
                 fifo_element_size = element_size,
                 fifo_element_count = element_count,
                 fifo_read_pos = 0, fifo_write_pos = 0, fifo_avail_count = 0\<rparr>)"

definition fifo_isempty_lite :: "fifo \<Rightarrow> bool" where
  "fifo_isempty_lite f = (if fifo_avail_count f \<noteq> 0 then False else True)"

definition fifo_isempty :: "fifo option \<Rightarrow> bool" where
  "fifo_isempty fp = (case fp of None \<Rightarrow> True | Some f \<Rightarrow> fifo_isempty_lite f)"

definition fifo_isfull_lite :: "fifo \<Rightarrow> bool" where
  "fifo_isfull_lite f = (if fifo_element_count f \<le> fifo_avail_count f then True else False)"

definition fifo_isfull :: "fifo option \<Rightarrow> bool" where
  "fifo_isfull fp = (case fp of None \<Rightarrow> False | Some f \<Rightarrow> fifo_isfull_lite f)"

text \<open>
  The \<^verbatim>\<open>switch (f->element_size)\<close>: the position is scaled by the constant of the case, or by
  the element size in the default case, in 32-bit arithmetic.
\<close>

definition fifo_offset :: "fifo \<Rightarrow> u32 \<Rightarrow> nat" where
  "fifo_offset f pos =
     (if fifo_element_size f = 1 then unat pos
      else if fifo_element_size f = 2 then unat (pos * 2)
      else if fifo_element_size f = 4 then unat (pos * 4)
      else if fifo_element_size f = 8 then unat (pos * 8)
      else unat (pos * fifo_element_size f))"

definition fifo_next_pos :: "fifo \<Rightarrow> u32 \<Rightarrow> u32" where
  "fifo_next_pos f pos = (if fifo_element_count f \<le> pos + 1 then 0 else pos + 1)"

definition fifo_load :: "fifo \<Rightarrow> u32 \<Rightarrow> u8 list option" where
  "fifo_load f pos = mem_read (fifo_elements f) (fifo_offset f pos) (unat (fifo_element_size f))"

definition fifo_store :: "fifo \<Rightarrow> u32 \<Rightarrow> u8 list \<Rightarrow> fifo option" where
  "fifo_store f pos src =
     (case mem_read src 0 (unat (fifo_element_size f)) of
        None \<Rightarrow> None
      | Some bs \<Rightarrow>
          (case mem_write (fifo_elements f) (fifo_offset f pos) bs of
             None \<Rightarrow> None
           | Some m \<Rightarrow> Some (f\<lparr>fifo_elements := m\<rparr>)))"

definition fifo_drop_oldest :: "fifo \<Rightarrow> fifo" where
  "fifo_drop_oldest f =
     f\<lparr>fifo_read_pos := fifo_next_pos f (fifo_read_pos f),
       fifo_avail_count := fifo_avail_count f - 1\<rparr>"

definition fifo_enqueue_lite :: "fifo \<Rightarrow> u8 list \<Rightarrow> bool \<Rightarrow> (bool \<times> fifo) option" where
  "fifo_enqueue_lite f0 src overwrite =
     (let f = (if overwrite \<and> fifo_isfull_lite f0 then fifo_drop_oldest f0 else f0)
      in if \<not> fifo_isfull_lite f then
           (case fifo_store f (fifo_write_pos f) src of
              None \<Rightarrow> None
            | Some f1 \<Rightarrow>
                Some (True, f1\<lparr>fifo_write_pos := fifo_next_pos f1 (fifo_write_pos f1),
                               fifo_avail_count := fifo_avail_count f1 + 1\<rparr>))
         else Some (False, f))"

definition fifo_enqueue ::
    "fifo option \<Rightarrow> u8 list option \<Rightarrow> bool \<Rightarrow> (bool \<times> fifo option) option" where
  "fifo_enqueue fp srcp overwrite =
     (case fp of
        None \<Rightarrow> Some (False, None)
      | Some f \<Rightarrow>
          (case srcp of
             None \<Rightarrow> Some (False, Some f)
           | Some src \<Rightarrow> map_option (\<lambda>(r, f'). (r, Some f')) (fifo_enqueue_lite f src overwrite)))"

text \<open>Dequeue: the result, the bytes stored through \<^verbatim>\<open>dst\<close> if any, and the new FIFO.\<close>

definition fifo_dequeue_lite :: "fifo \<Rightarrow> (bool \<times> u8 list option \<times> fifo) option" where
  "fifo_dequeue_lite f =
     (if \<not> fifo_isempty_lite f then
        (case fifo_load f (fifo_read_pos f) of
           None \<Rightarrow> None
         | Some bs \<Rightarrow> Some (True, Some bs, fifo_drop_oldest f))
      else Some (False, None, f))"

definition fifo_dequeue ::
    "fifo option \<Rightarrow> bool \<Rightarrow> (bool \<times> u8 list option \<times> fifo option) option" where
  "fifo_dequeue fp have_dst =
     (case fp of
        None \<Rightarrow> Some (False, None, None)
      | Some f \<Rightarrow>
          (if \<not> have_dst then Some (False, None, Some f)
           else map_option (\<lambda>(r, d, f'). (r, d, Some f')) (fifo_dequeue_lite f)))"

definition fifo_clear :: "fifo option \<Rightarrow> bool \<times> fifo option" where
  "fifo_clear fp =
     (case fp of
        None \<Rightarrow> (False, None)
      | Some f \<Rightarrow> (True, Some (f\<lparr>fifo_read_pos := 0, fifo_write_pos := 0, fifo_avail_count := 0\<rparr>)))"

definition fifo_getelement_lite :: "fifo \<Rightarrow> u32 \<Rightarrow> u8 list option" where
  "fifo_getelement_lite f index =
     (let i = fifo_read_pos f + index;
          i' = (if fifo_element_count f \<le> i then i - fifo_element_count f else i)
      in fifo_load f i')"

definition fifo_getelement ::
    "fifo option \<Rightarrow> u32 \<Rightarrow> bool \<Rightarrow> (bool \<times> u8 list option) option" where
  "fifo_getelement fp index have_dst =
     (case fp of
        None \<Rightarrow> Some (False, None)
      | Some f \<Rightarrow>
          (if \<not> have_dst then Some (False, None)
           else if fifo_element_count f \<le> index then Some (False, None)
           else (case fifo_getelement_lite f index of
                   None \<Rightarrow> None
                 | Some bs \<Rightarrow> Some (True, Some bs))))"

definition fifo_avail :: "fifo option \<Rightarrow> u32" where
  "fifo_avail fp = (case fp of None \<Rightarrow> 0 | Some f \<Rightarrow> fifo_avail_count f)"

section \<open>Well-formed ring buffers and their contents\<close>

definition fifo_wf :: "fifo \<Rightarrow> bool" where
  "fifo_wf f \<longleftrightarrow>
     fifo_element_size f \<noteq> 0 \<and> fifo_element_count f \<noteq> 0 \<and>
     unat (fifo_element_size f) * unat (fifo_element_count f) < 2 ^ 32 \<and>
     length (fifo_elements f) = unat (fifo_element_size f) * unat (fifo_element_count f) \<and>
     unat (fifo_read_pos f) < unat (fifo_element_count f) \<and>
     unat (fifo_avail_count f) \<le> unat (fifo_element_count f) \<and>
     unat (fifo_write_pos f) =
       (unat (fifo_read_pos f) + unat (fifo_avail_count f)) mod unat (fifo_element_count f)"

definition fifo_slot :: "fifo \<Rightarrow> nat \<Rightarrow> u8 list" where
  "fifo_slot f k =
     take (unat (fifo_element_size f)) (drop (k * unat (fifo_element_size f)) (fifo_elements f))"

definition fifo_list :: "fifo \<Rightarrow> u8 list list" where
  "fifo_list f =
     map (\<lambda>i. fifo_slot f ((unat (fifo_read_pos f) + i) mod unat (fifo_element_count f)))
       [0..<unat (fifo_avail_count f)]"

definition fifo_cap :: "fifo \<Rightarrow> nat" where
  "fifo_cap f = unat (fifo_element_count f)"

definition fifo_fits :: "fifo \<Rightarrow> u8 list \<Rightarrow> bool" where
  "fifo_fits f bs \<longleftrightarrow> length bs = unat (fifo_element_size f)"

declare fifo_wf_def [inv_simps]

lemma fifo_offset_eq: "fifo_offset f pos = unat (pos * fifo_element_size f)"
  by (simp add: fifo_offset_def)

lemma fifo_offset_nat:
  assumes "fifo_wf f" and "unat pos < fifo_cap f"
  shows "fifo_offset f pos = unat pos * unat (fifo_element_size f)"
proof -
  have "unat pos * unat (fifo_element_size f) \<le> fifo_cap f * unat (fifo_element_size f)"
    using assms(2) by (intro mult_le_mono1) simp
  also have "\<dots> < 2 ^ 32"
    using assms(1) by (simp add: fifo_wf_def fifo_cap_def mult.commute)
  finally have "unat pos * unat (fifo_element_size f) < 2 ^ 32" .
  then show ?thesis
    by (simp add: fifo_offset_eq unat_word_ariths(2))
qed

lemma fifo_slot_bound:
  assumes "fifo_wf f" and "k < fifo_cap f"
  shows "k * unat (fifo_element_size f) + unat (fifo_element_size f) \<le> length (fifo_elements f)"
proof -
  have "Suc k * unat (fifo_element_size f) \<le> fifo_cap f * unat (fifo_element_size f)"
    using assms(2) by (intro mult_le_mono1) simp
  then show ?thesis
    using assms(1) by (simp add: fifo_wf_def fifo_cap_def mult.commute)
qed

lemma fifo_next_pos_mod:
  assumes "unat pos < fifo_cap f"
  shows "unat (fifo_next_pos f pos) = (unat pos + 1) mod fifo_cap f"
proof -
  have "unat (pos + 1) = Suc (unat pos)"
    using assms unat_Suc_bounded unfolding fifo_cap_def by blast
  then show ?thesis
    using assms by (auto simp: fifo_next_pos_def fifo_cap_def word_le_nat_alt not_le
        mod_less le_Suc_eq)
qed

lemma fifo_load_slot:
  assumes "fifo_wf f" and "unat pos < fifo_cap f"
  shows "fifo_load f pos = Some (fifo_slot f (unat pos))"
  using fifo_slot_bound [OF assms] fifo_offset_nat [OF assms]
  by (simp add: fifo_load_def fifo_slot_def)

lemma fifo_store_slot:
  assumes wf: "fifo_wf f" and pos: "unat pos < fifo_cap f" and src: "fifo_fits f src"
  obtains m where "fifo_store f pos src = Some (f\<lparr>fifo_elements := m\<rparr>)"
    and "length m = length (fifo_elements f)"
    and "\<And>k. k < fifo_cap f \<Longrightarrow>
           fifo_slot (f\<lparr>fifo_elements := m\<rparr>) k = (if k = unat pos then src else fifo_slot f k)"
proof -
  let ?s = "unat (fifo_element_size f)"
  let ?off = "unat pos * ?s"
  have off: "fifo_offset f pos = ?off" by (rule fifo_offset_nat [OF wf pos])
  have len: "length src = ?s" using src by (simp add: fifo_fits_def)
  have fit: "?off + length src \<le> length (fifo_elements f)"
    using fifo_slot_bound [OF wf pos] len by simp
  then obtain m where m: "mem_write (fifo_elements f) ?off src = Some m" by simp
  have store: "fifo_store f pos src = Some (f\<lparr>fifo_elements := m\<rparr>)"
    using m len by (simp add: fifo_store_def off)
  have lenm: "length m = length (fifo_elements f)"
    by (rule mem_write_same(2) [OF fit m])
  have slot: "fifo_slot (f\<lparr>fifo_elements := m\<rparr>) k = (if k = unat pos then src else fifo_slot f k)"
    if "k < fifo_cap f" for k
  proof (cases "k = unat pos")
    case True
    then show ?thesis
      using mem_write_same(1) [OF fit m] len by (simp add: fifo_slot_def)
  next
    case False
    then have "Suc k \<le> unat pos \<or> Suc (unat pos) \<le> k" by arith
    then have "Suc k * ?s \<le> unat pos * ?s \<or> Suc (unat pos) * ?s \<le> k * ?s"
      by (metis mult_le_mono1)
    then have "k * ?s + ?s \<le> ?off \<or> ?off + length src \<le> k * ?s"
      by (simp add: len add.commute)
    then have "take ?s (drop (k * ?s) m) = take ?s (drop (k * ?s) (fifo_elements f))"
      by (rule mem_write_other [OF m])
    with False show ?thesis by (simp add: fifo_slot_def)
  qed
  show thesis by (rule that [OF store lenm slot])
qed

lemma length_fifo_list [simp]: "length (fifo_list f) = unat (fifo_avail_count f)"
  by (simp add: fifo_list_def)

lemma fifo_isfull_cap: "fifo_isfull_lite f \<longleftrightarrow> fifo_cap f \<le> length (fifo_list f)"
  by (simp add: fifo_isfull_lite_def fifo_cap_def word_le_nat_alt)

lemma fifo_isempty_Nil: "fifo_isempty_lite f \<longleftrightarrow> fifo_list f = []"
  by (simp add: fifo_isempty_lite_def unsigned_eq_0_iff flip: length_0_conv)

lemma fifo_drop_oldest_wf:
  assumes wf: "fifo_wf f" and ne: "fifo_list f \<noteq> []"
  shows "fifo_wf (fifo_drop_oldest f)"
    and "fifo_list (fifo_drop_oldest f) = tl (fifo_list f)"
    and "hd (fifo_list f) = fifo_slot f (unat (fifo_read_pos f))"
proof -
  let ?r = "unat (fifo_read_pos f)" and ?a = "unat (fifo_avail_count f)" and ?n = "fifo_cap f"
  have r: "?r < ?n" and a: "0 < ?a" and an: "?a \<le> ?n" and n: "0 < ?n"
    and w: "unat (fifo_write_pos f) = (?r + ?a) mod ?n"
    using wf ne by (auto simp: fifo_wf_def fifo_cap_def simp flip: length_greater_0_conv)
  have a1: "unat (fifo_avail_count f - 1) = ?a - 1"
    using a by (intro unat_minus_1) auto
  have an1: "?a - 1 \<le> ?n" using an by simp
  have r1: "unat (fifo_next_pos f (fifo_read_pos f)) = (?r + 1) mod ?n"
    by (rule fifo_next_pos_mod [OF r])
  have "(?r + 1 + (?a - 1)) mod ?n = (?r + ?a) mod ?n" using a by simp
  then have "((?r + 1) mod ?n + (?a - 1)) mod ?n = (?r + ?a) mod ?n"
    by (simp add: mod_simps)
  then show "fifo_wf (fifo_drop_oldest f)"
    using wf a1 r1 an1 n w by (simp add: fifo_wf_def fifo_drop_oldest_def fifo_cap_def)
  have up: "[0..<?a] = 0 # map Suc [0..<?a - 1]"
    using a by (metis Suc_diff_1 map_Suc_upt upt_conv_Cons)
  show "fifo_list (fifo_drop_oldest f) = tl (fifo_list f)"
    unfolding fifo_list_def up
    by (simp add: fifo_drop_oldest_def a1 r1 [unfolded fifo_cap_def] mod_simps fifo_slot_def)
  show "hd (fifo_list f) = fifo_slot f ?r"
    unfolding fifo_list_def up using r by (simp add: fifo_cap_def)
qed

lemma fifo_drop_oldest_fields [simp, frame_simps]:
  "fifo_cap (fifo_drop_oldest f) = fifo_cap f"
  "fifo_fits (fifo_drop_oldest f) = fifo_fits f"
  by (auto simp: fifo_drop_oldest_def fifo_cap_def fifo_fits_def)

lemma fifo_push:
  assumes wf: "fifo_wf f" and room: "length (fifo_list f) < fifo_cap f" and fits: "fifo_fits f src"
  obtains f' where "fifo_enqueue_lite f src ow = Some (True, f')"
    and "fifo_wf f'" and "fifo_list f' = fifo_list f @ [src]"
    and "fifo_cap f' = fifo_cap f" and "fifo_element_size f' = fifo_element_size f"
proof -
  let ?r = "unat (fifo_read_pos f)" and ?a = "unat (fifo_avail_count f)" and ?n = "fifo_cap f"
  let ?w = "unat (fifo_write_pos f)"
  have r: "?r < ?n" and a: "?a < ?n" and n: "0 < ?n" and w: "?w = (?r + ?a) mod ?n" and wn: "?w < ?n"
    using wf room by (auto simp: fifo_wf_def fifo_cap_def unat_gt_0)
  obtain m where m: "fifo_store f (fifo_write_pos f) src = Some (f\<lparr>fifo_elements := m\<rparr>)"
    and lenm: "length m = length (fifo_elements f)"
    and slot: "\<And>k. k < ?n \<Longrightarrow>
        fifo_slot (f\<lparr>fifo_elements := m\<rparr>) k = (if k = ?w then src else fifo_slot f k)"
    using fifo_store_slot [OF wf wn fits] by metis
  define f' where "f' = f\<lparr>fifo_elements := m,
      fifo_write_pos := fifo_next_pos f (fifo_write_pos f),
      fifo_avail_count := fifo_avail_count f + 1\<rparr>"
  have a1: "unat (fifo_avail_count f + 1) = ?a + 1"
    using a unat_Suc_bounded unfolding fifo_cap_def by fastforce
  have w1: "unat (fifo_next_pos f (fifo_write_pos f)) = (?w + 1) mod ?n"
    by (rule fifo_next_pos_mod [OF wn])
  have "(?w + 1) mod ?n = (?r + (?a + 1)) mod ?n" by (simp add: w mod_simps add.assoc)
  then have wf': "fifo_wf f'"
    using wf lenm a1 w1 a by (simp add: fifo_wf_def f'_def fifo_cap_def)
  have old: "fifo_slot f' ((?r + i) mod ?n) = fifo_slot f ((?r + i) mod ?n)" if "i < ?a" for i
  proof -
    have "(?r + i) mod ?n \<noteq> (?r + ?a) mod ?n"
      using that a r by (auto simp: mod_if)
    then show ?thesis
      using slot [of "(?r + i) mod ?n"] n by (simp add: w f'_def fifo_slot_def)
  qed
  have new: "fifo_slot f' ((?r + ?a) mod ?n) = src"
    using slot [of ?w] wn by (simp add: w f'_def fifo_slot_def)
  have "fifo_list f' = map (\<lambda>i. fifo_slot f' ((?r + i) mod ?n)) [0..<?a + 1]"
    by (simp add: fifo_list_def f'_def a1 fifo_cap_def fifo_slot_def)
  also have "\<dots> = fifo_list f @ [src]"
    using old new by (simp add: fifo_list_def fifo_cap_def)
  finally have lst: "fifo_list f' = fifo_list f @ [src]" .
  have "\<not> fifo_isfull_lite f" using room by (simp add: fifo_isfull_cap)
  then have "fifo_enqueue_lite f src ow = Some (True, f')"
    by (simp add: fifo_enqueue_lite_def m f'_def fifo_next_pos_def)
  then show thesis
    by (rule that [OF _ wf' lst]) (simp_all add: f'_def fifo_cap_def)
qed

section \<open>The bounded queue contract\<close>

text \<open>
  What a client of the FIFO relies on: an abstract list, a capacity, and operations that append
  at the back, drop from the front and never fault on an element that fits.
\<close>

locale bounded_queue =
  fixes invar :: "'q \<Rightarrow> bool"
    and cap :: "'q \<Rightarrow> nat"
    and contents :: "'q \<Rightarrow> 'a list"
    and fits :: "'q \<Rightarrow> 'a \<Rightarrow> bool"
    and enq :: "'q \<Rightarrow> 'a \<Rightarrow> bool \<Rightarrow> (bool \<times> 'q) option"
    and deq :: "'q \<Rightarrow> (bool \<times> 'a option \<times> 'q) option"
  assumes cap_pos: "invar q \<Longrightarrow> 0 < cap q"
    and enq_room: "invar q \<Longrightarrow> fits q x \<Longrightarrow> length (contents q) < cap q \<Longrightarrow>
      \<exists>q'. enq q x ow = Some (True, q') \<and> invar q' \<and> contents q' = contents q @ [x] \<and>
           cap q' = cap q \<and> fits q' = fits q"
    and enq_full_reject: "invar q \<Longrightarrow> length (contents q) = cap q \<Longrightarrow> enq q x False = Some (False, q)"
    and enq_full_overwrite: "invar q \<Longrightarrow> fits q x \<Longrightarrow> length (contents q) = cap q \<Longrightarrow>
      \<exists>q'. enq q x True = Some (True, q') \<and> invar q' \<and> contents q' = tl (contents q) @ [x] \<and>
           cap q' = cap q \<and> fits q' = fits q"
    and deq_empty: "invar q \<Longrightarrow> contents q = [] \<Longrightarrow> deq q = Some (False, None, q)"
    and deq_first: "invar q \<Longrightarrow> contents q = x # xs \<Longrightarrow>
      \<exists>q'. deq q = Some (True, Some x, q') \<and> invar q' \<and> contents q' = xs \<and>
           cap q' = cap q \<and> fits q' = fits q"
    and bounded: "invar q \<Longrightarrow> length (contents q) \<le> cap q"

text \<open>Clients: a producer that enqueues a list without overwriting, a consumer that drains.\<close>

fun enq_all :: "('q \<Rightarrow> 'a \<Rightarrow> bool \<Rightarrow> (bool \<times> 'q) option) \<Rightarrow> 'q \<Rightarrow> 'a list \<Rightarrow> 'q option" where
  "enq_all enq q [] = Some q"
| "enq_all enq q (x # xs) =
     (case enq q x False of Some (True, q') \<Rightarrow> enq_all enq q' xs | _ \<Rightarrow> None)"

fun drain :: "('q \<Rightarrow> (bool \<times> 'a option \<times> 'q) option) \<Rightarrow> nat \<Rightarrow> 'q \<Rightarrow> ('a list \<times> 'q) option" where
  "drain deq 0 q = Some ([], q)"
| "drain deq (Suc n) q =
     (case deq q of
        Some (True, Some x, q') \<Rightarrow> map_option (\<lambda>(xs, q''). (x # xs, q'')) (drain deq n q')
      | Some (_, _, q') \<Rightarrow> Some ([], q')
      | None \<Rightarrow> None)"

context bounded_queue
begin

lemma enq_all_appends:
  "invar q \<Longrightarrow> \<forall>x \<in> set xs. fits q x \<Longrightarrow> length (contents q) + length xs \<le> cap q \<Longrightarrow>
   \<exists>q'. enq_all enq q xs = Some q' \<and> invar q' \<and> contents q' = contents q @ xs \<and> cap q' = cap q"
proof (induction xs arbitrary: q)
  case Nil
  then show ?case by simp
next
  case (Cons x xs)
  obtain q1 where q1: "enq q x False = Some (True, q1)" "invar q1"
    "contents q1 = contents q @ [x]" "cap q1 = cap q" "fits q1 = fits q"
    using enq_room [of q x False] Cons.prems by auto
  then have "\<exists>q'. enq_all enq q1 xs = Some q' \<and> invar q' \<and> contents q' = contents q1 @ xs \<and>
      cap q' = cap q1"
    using Cons.prems by (intro Cons.IH) auto
  with q1 show ?case by auto
qed

lemma drain_contents:
  "invar q \<Longrightarrow> length (contents q) \<le> n \<Longrightarrow>
   \<exists>q'. drain deq n q = Some (contents q, q') \<and> invar q' \<and> contents q' = []"
proof (induction n arbitrary: q)
  case 0
  then show ?case by simp
next
  case (Suc n)
  show ?case
  proof (cases "contents q")
    case Nil
    then show ?thesis using Suc.prems by (simp add: deq_empty)
  next
    case (Cons x xs)
    obtain q1 where q1: "deq q = Some (True, Some x, q1)" "invar q1" "contents q1 = xs"
      using deq_first [OF Suc.prems(1) Cons] by auto
    with Suc.IH [of q1] Suc.prems Cons show ?thesis by auto
  qed
qed

lemma produce_consume:
  assumes "invar q" and "contents q = []" and "\<forall>x \<in> set xs. fits q x" and "length xs \<le> cap q"
  shows "\<exists>q1 q2. enq_all enq q xs = Some q1 \<and> drain deq (cap q) q1 = Some (xs, q2) \<and>
     invar q2 \<and> contents q2 = []"
proof -
  obtain q1 where q1: "enq_all enq q xs = Some q1" "invar q1" "contents q1 = xs"
    using enq_all_appends [of q xs] assms by auto
  with drain_contents [of q1 "cap q"] assms(4) show ?thesis by auto
qed

end

lemma fifo_enqueue_lite_full_overwrite:
  assumes wf: "fifo_wf f" and full: "length (fifo_list f) = fifo_cap f" and fits: "fifo_fits f src"
  shows "\<exists>f'. fifo_enqueue_lite f src True = Some (True, f') \<and> fifo_wf f' \<and>
     fifo_list f' = tl (fifo_list f) @ [src] \<and> fifo_cap f' = fifo_cap f \<and>
     fifo_element_size f' = fifo_element_size f"
proof -
  let ?d = "fifo_drop_oldest f"
  have "0 < fifo_cap f" using wf by (simp add: fifo_wf_def fifo_cap_def unat_gt_0)
  then have ne: "fifo_list f \<noteq> []" using full by (metis less_irrefl list.size(3))
  note d = fifo_drop_oldest_wf [OF wf ne]
  have room: "length (fifo_list ?d) < fifo_cap ?d"
    using d(2) full \<open>0 < fifo_cap f\<close> by simp
  have "fifo_fits ?d src" using fits by simp
  then obtain f' where f': "fifo_enqueue_lite ?d src True = Some (True, f')" "fifo_wf f'"
    "fifo_list f' = fifo_list ?d @ [src]" "fifo_cap f' = fifo_cap ?d"
    "fifo_element_size f' = fifo_element_size ?d"
    using fifo_push [OF d(1) room] by metis
  have "fifo_enqueue_lite f src True = fifo_enqueue_lite ?d src True"
    using full room by (simp add: fifo_enqueue_lite_def fifo_isfull_cap)
  moreover have "fifo_element_size ?d = fifo_element_size f" by (simp add: fifo_drop_oldest_def)
  ultimately show ?thesis using f' d(2) by auto
qed

lemma fifo_dequeue_lite_Cons:
  assumes wf: "fifo_wf f" and c: "fifo_list f = x # xs"
  shows "\<exists>f'. fifo_dequeue_lite f = Some (True, Some x, f') \<and> fifo_wf f' \<and> fifo_list f' = xs \<and>
     fifo_cap f' = fifo_cap f \<and> fifo_fits f' = fifo_fits f"
proof -
  have ne: "fifo_list f \<noteq> []" using c by simp
  note d = fifo_drop_oldest_wf [OF wf ne]
  have "unat (fifo_read_pos f) < fifo_cap f" using wf by (simp add: fifo_wf_def fifo_cap_def)
  from fifo_load_slot [OF wf this] d(3) c have "fifo_load f (fifo_read_pos f) = Some x" by simp
  with d c ne show ?thesis by (simp add: fifo_dequeue_lite_def fifo_isempty_Nil)
qed

interpretation ring: bounded_queue fifo_wf fifo_cap fifo_list fifo_fits
  fifo_enqueue_lite fifo_dequeue_lite
proof unfold_locales
  fix f :: fifo and x :: "u8 list" and xs ow
  show "fifo_wf f \<Longrightarrow> 0 < fifo_cap f"
    by (simp add: fifo_wf_def fifo_cap_def unat_gt_0)
  show "fifo_wf f \<Longrightarrow> length (fifo_list f) \<le> fifo_cap f"
    by (simp add: fifo_wf_def fifo_cap_def)
  show "\<exists>f'. fifo_enqueue_lite f x ow = Some (True, f') \<and> fifo_wf f' \<and>
      fifo_list f' = fifo_list f @ [x] \<and> fifo_cap f' = fifo_cap f \<and> fifo_fits f' = fifo_fits f"
    if "fifo_wf f" "fifo_fits f x" "length (fifo_list f) < fifo_cap f"
    by (rule fifo_push [OF that(1,3,2), of ow]) (auto simp: fifo_fits_def fun_eq_iff)
  show "fifo_wf f \<Longrightarrow> length (fifo_list f) = fifo_cap f \<Longrightarrow>
      fifo_enqueue_lite f x False = Some (False, f)"
    by (simp add: fifo_enqueue_lite_def fifo_isfull_cap)
  show "\<exists>f'. fifo_enqueue_lite f x True = Some (True, f') \<and> fifo_wf f' \<and>
      fifo_list f' = tl (fifo_list f) @ [x] \<and> fifo_cap f' = fifo_cap f \<and> fifo_fits f' = fifo_fits f"
    if "fifo_wf f" "fifo_fits f x" "length (fifo_list f) = fifo_cap f"
    using fifo_enqueue_lite_full_overwrite [OF that(1,3,2)] by (auto simp: fifo_fits_def fun_eq_iff)
  show "fifo_wf f \<Longrightarrow> fifo_list f = [] \<Longrightarrow> fifo_dequeue_lite f = Some (False, None, f)"
    by (simp add: fifo_dequeue_lite_def fifo_isempty_Nil)
  show "fifo_wf f \<Longrightarrow> fifo_list f = x # xs \<Longrightarrow>
      \<exists>f'. fifo_dequeue_lite f = Some (True, Some x, f') \<and> fifo_wf f' \<and> fifo_list f' = xs \<and>
        fifo_cap f' = fifo_cap f \<and> fifo_fits f' = fifo_fits f"
    by (rule fifo_dequeue_lite_Cons)
qed

lemma fifo_alloc_wf:
  assumes "fifo_alloc a b es n = Some f" and "unat es * unat n < 2 ^ 32"
  shows "fifo_wf f" and "fifo_list f = []" and "fifo_cap f = unat n"
    and "fifo_element_size f = es"
  using assms
  by (auto simp: fifo_alloc_def fifo_wf_def fifo_list_def fifo_cap_def unat_word_ariths(2)
      unat_gt_0 split: if_splits)

section \<open>Properties\<close>



lemma fifo_enqueue_full_parts:
  assumes "fifo_wf f" and "fifo_isfull (Some f)" and "length src = unat (fifo_element_size f)"
  shows "fifo_enqueue (Some f) (Some src) False = Some (False, Some f)"
    and "\<exists>f'. fifo_enqueue (Some f) (Some src) True = Some (True, Some f') \<and> fifo_wf f' \<and>
           fifo_list f' = tl (fifo_list f) @ [src]"
proof -
  have full: "length (fifo_list f) = fifo_cap f"
    using assms(1,2) ring.bounded [of f] by (simp add: fifo_isfull_def fifo_isfull_cap)
  show "fifo_enqueue (Some f) (Some src) False = Some (False, Some f)"
    using ring.enq_full_reject [OF assms(1) full] by (simp add: fifo_enqueue_def)
  show "\<exists>f'. fifo_enqueue (Some f) (Some src) True = Some (True, Some f') \<and> fifo_wf f' \<and>
           fifo_list f' = tl (fifo_list f) @ [src]"
    using ring.enq_full_overwrite [OF assms(1) _ full, of src] assms(3)
    by (auto simp: fifo_enqueue_def fifo_fits_def)
qed

text \<open>
  Further fact: enqueueing into a full FIFO. Without \<^verbatim>\<open>overwrite\<close> the call returns FALSE and
  changes nothing; with it the oldest element is dropped and the new one appended.
\<close>
theorem fifo_enqueue_full:
  assumes "fifo_wf f" and "fifo_isfull (Some f)" and "length src = unat (fifo_element_size f)"
  shows "(fifo_enqueue (Some f) (Some src) False = Some (False, Some f)) \<and>
    (\<exists>f'. fifo_enqueue (Some f) (Some src) True = Some (True, Some f') \<and> fifo_wf f' \<and>
           fifo_list f' = tl (fifo_list f) @ [src])"
  using fifo_enqueue_full_parts [OF assms] by (intro conjI)

definition fifo_full_example :: fifo where
  "fifo_full_example = \<lparr>fifo_elements = [10, 20, 30], fifo_element_size = 1, fifo_element_count = 3,
     fifo_read_pos = 1, fifo_write_pos = 1, fifo_avail_count = 3\<rparr>"

theorem fifo_enqueue_full_witness:
  "fifo_enqueue (Some fifo_full_example) (Some [40]) False = Some (False, Some fifo_full_example) \<and>
   (\<exists>f'. fifo_enqueue (Some fifo_full_example) (Some [40]) True = Some (True, Some f') \<and>
      fifo_list f' = [[30], [10], [40]])"
proof -
  have h: "fifo_wf fifo_full_example" "fifo_isfull (Some fifo_full_example)"
    "length [40 :: u8] = unat (fifo_element_size fifo_full_example)"
    by (simp_all add: fifo_full_example_def fifo_wf_def fifo_isfull_def fifo_isfull_lite_def)
  have "fifo_list fifo_full_example = [[20], [30], [10]]"
    by (simp add: fifo_full_example_def fifo_list_def fifo_slot_def upt_rec)
  with fifo_enqueue_full [OF h] show ?thesis by auto
qed

text \<open>
  Further fact: \<^verbatim>\<open>fifo_getelement\<close> with an index below the number of available elements returns
  TRUE and the element at that position of the queue, counted from the oldest. The bound on the
  element count is what keeps the 32-bit sum of read position and index from wrapping.
\<close>
theorem fifo_getelement_nth:
  assumes "fifo_wf f" and "unat i < length (fifo_list f)" and "fifo_element_count f \<le> 2 ^ 31"
  shows "fifo_getelement (Some f) i True = Some (True, Some (fifo_list f ! unat i))"
proof -
  let ?r = "fifo_read_pos f" and ?n = "fifo_element_count f"
  have r: "unat ?r < unat ?n" and i: "unat i < unat ?n" and n: "unat ?n \<le> 2 ^ 31"
    using assms by (auto simp: fifo_wf_def word_le_nat_alt)
  then have s: "unat (?r + i) = unat ?r + unat i" by (simp add: unat_word_ariths(1))
  define j where "j = (if ?n \<le> ?r + i then ?r + i - ?n else ?r + i)"
  have j: "unat j = (unat ?r + unat i) mod unat ?n"
    using r i by (auto simp: j_def word_le_nat_alt unat_sub s mod_if)
  have "unat j < fifo_cap f" using j r by (simp add: fifo_cap_def)
  from fifo_load_slot [OF assms(1) this]
  have "fifo_getelement_lite f i = Some (fifo_list f ! unat i)"
    using assms(2) j by (simp add: fifo_getelement_lite_def Let_def fifo_list_def flip: j_def)
  then show ?thesis
    using i by (simp add: fifo_getelement_def word_le_nat_alt)
qed

theorem fifo_getelement_nth_witness:
  "fifo_getelement (Some fifo_full_example) 2 True = Some (True, Some [10])"
proof -
  have h: "fifo_wf fifo_full_example" "unat (2 :: u32) < length (fifo_list fifo_full_example)"
    "fifo_element_count fifo_full_example \<le> 2 ^ 31"
    by (simp_all add: fifo_full_example_def fifo_wf_def)
  have "fifo_list fifo_full_example ! 2 = [10]"
    by (simp add: fifo_full_example_def fifo_list_def fifo_slot_def)
  with fifo_getelement_nth [OF h] show ?thesis by simp
qed

end
