(* ===== verification/Clock.thy ===== *)
theory Clock
  imports Prelude
begin

text \<open>
  Clocksources and clockchips, \<^verbatim>\<open>core/vmm_clocksource.c\<close> and \<^verbatim>\<open>core/vmm_clockchip.c\<close>: the
  nanosecond counter built on a free-running cycle counter, the programming of one-shot events,
  and the two registries with their choice of the best device.

  A device is a C object that the code compares by address; the model names it by a number and
  keeps the objects in a store. The driver callbacks are hardware: a counter read is an argument of
  the function that makes it, and the callbacks of a clockchip leave a trace in its record.
\<close>

section \<open>State\<close>

record clocksource =
  cs_name :: string
  cs_rating :: int
  cs_mask :: u64
  cs_freq :: u32
  cs_mult :: u32
  cs_shift :: u32
  cs_enable :: bool
  cs_disable :: bool
  cs_running :: bool

text \<open>
  \<^verbatim>\<open>cs_enable\<close> and \<^verbatim>\<open>cs_disable\<close> say that the callback is not \<^verbatim>\<open>NULL\<close>, and \<^verbatim>\<open>cs_running\<close> which of
  the two ran last.
\<close>

record timecounter =
  tc_cs :: "nat option"
  tc_cycles_last :: u64
  tc_nsec :: u64

datatype clockchip_mode =
    VMM_CLOCKCHIP_MODE_UNUSED
  | VMM_CLOCKCHIP_MODE_SHUTDOWN
  | VMM_CLOCKCHIP_MODE_PERIODIC
  | VMM_CLOCKCHIP_MODE_ONESHOT
  | VMM_CLOCKCHIP_MODE_RESUME

record clockchip =
  cc_rating :: int
  cc_cpumask :: "nat set"
  cc_freq :: u32
  cc_mult :: u32
  cc_shift :: u32
  cc_max_delta_ns :: u64
  cc_min_delta_ns :: u64
  cc_mode :: clockchip_mode
  cc_bound_on :: "nat option"
  cc_next_event :: u64
  cc_set_next_event :: "u64 \<Rightarrow> int"
  cc_evt :: "u64 option"
  cc_affinity :: "nat option"

text \<open>
  \<^verbatim>\<open>bound_on\<close> is \<^const>\<open>None\<close> for \<^verbatim>\<open>UINT_MAX\<close>. \<^verbatim>\<open>cc_set_next_event\<close> is the driver's return code for
  a value, \<^verbatim>\<open>cc_evt\<close> the last value it was given, \<^verbatim>\<open>cc_affinity\<close> the CPU the interrupt was routed to.
\<close>

record clk_sys =
  css :: "nat \<Rightarrow> clocksource"
  clksrc_list :: "nat list"
  chips :: "nat \<Rightarrow> clockchip"
  clkchip_list :: "nat list"

section \<open>The nanosecond counter\<close>

definition vmm_clocksource_delta2nsecs :: "u64 \<Rightarrow> u32 \<Rightarrow> u32 \<Rightarrow> u64" where
  "vmm_clocksource_delta2nsecs cycles mul shift = drop_bit (unat shift) (cycles * ucast mul)"

definition vmm_timecounter_clocksource_frequency :: "(nat \<Rightarrow> clocksource) \<Rightarrow> timecounter \<Rightarrow> u32" where
  "vmm_timecounter_clocksource_frequency st tc =
     (case tc_cs tc of Some i \<Rightarrow> cs_freq (st i) | None \<Rightarrow> 0)"

text \<open>\<open>now\<close> is the value \<^verbatim>\<open>tc->cs->read(tc->cs)\<close> returns.\<close>

definition vmm_timecounter_read ::
  "(nat \<Rightarrow> clocksource) \<Rightarrow> u64 \<Rightarrow> timecounter \<Rightarrow> u64 \<times> timecounter" where
  "vmm_timecounter_read st now tc =
     (case tc_cs tc of
        None \<Rightarrow> (0, tc)
      | Some i \<Rightarrow>
          let cycles_delta = (now - tc_cycles_last tc) AND cs_mask (st i);
              ns_offset = vmm_clocksource_delta2nsecs cycles_delta (cs_mult (st i)) (cs_shift (st i));
              tc' = tc\<lparr>tc_cycles_last := now, tc_nsec := tc_nsec tc + ns_offset\<rparr>
          in (tc_nsec tc', tc'))"

definition vmm_timecounter_read_for_profile :: "(nat \<Rightarrow> clocksource) \<Rightarrow> u64 \<Rightarrow> timecounter \<Rightarrow> u64" where
  "vmm_timecounter_read_for_profile st now tc =
     (case tc_cs tc of
        None \<Rightarrow> 0
      | Some i \<Rightarrow>
          let cycles_delta = (now - tc_cycles_last tc) AND cs_mask (st i)
          in tc_nsec tc + vmm_clocksource_delta2nsecs cycles_delta (cs_mult (st i)) (cs_shift (st i)))"

definition vmm_timecounter_start :: "timecounter \<Rightarrow> ('z) clk_sys_scheme \<Rightarrow> int \<times> ('z) clk_sys_scheme" where
  "vmm_timecounter_start tc s =
     (case tc_cs tc of
        None \<Rightarrow> (VMM_EFAIL, s)
      | Some i \<Rightarrow>
          (VMM_OK, if cs_enable (css s i)
                   then s\<lparr>css := (css s)(i := (css s i)\<lparr>cs_running := True\<rparr>)\<rparr> else s))"

definition vmm_timecounter_stop :: "timecounter \<Rightarrow> ('z) clk_sys_scheme \<Rightarrow> int \<times> ('z) clk_sys_scheme" where
  "vmm_timecounter_stop tc s =
     (case tc_cs tc of
        None \<Rightarrow> (VMM_EFAIL, s)
      | Some i \<Rightarrow>
          (VMM_OK, if cs_disable (css s i)
                   then s\<lparr>css := (css s)(i := (css s i)\<lparr>cs_running := False\<rparr>)\<rparr> else s))"

definition vmm_timecounter_init ::
  "nat option \<Rightarrow> u64 \<Rightarrow> u64 \<Rightarrow> timecounter \<Rightarrow> int \<times> timecounter" where
  "vmm_timecounter_init cs now start_nsec tc =
     (case cs of
        None \<Rightarrow> (VMM_EFAIL, tc)
      | Some i \<Rightarrow> (VMM_OK, tc\<lparr>tc_cs := Some i, tc_cycles_last := now, tc_nsec := start_nsec\<rparr>))"

section \<open>The clocksource registry\<close>

text \<open>
  The registry tests look for a registered source of the same name; \<^verbatim>\<open>vmm_clocksource_unregister\<close>
  then unlinks the object it was given, which is a fault when that object is not in the list.
\<close>

definition vmm_clocksource_register ::
  "nat option \<Rightarrow> ('z) clk_sys_scheme \<Rightarrow> int \<times> ('z) clk_sys_scheme" where
  "vmm_clocksource_register cs s =
     (case cs of
        None \<Rightarrow> (VMM_EFAIL, s)
      | Some i \<Rightarrow>
          if list_ex (\<lambda>k. cs_name (css s k) = cs_name (css s i)) (clksrc_list s) then (VMM_EFAIL, s)
          else (VMM_OK, s\<lparr>clksrc_list := clksrc_list s @ [i]\<rparr>))"

definition vmm_clocksource_unregister ::
  "nat option \<Rightarrow> ('z) clk_sys_scheme \<Rightarrow> (int \<times> ('z) clk_sys_scheme) option" where
  "vmm_clocksource_unregister cs s =
     (case cs of
        None \<Rightarrow> Some (VMM_EFAIL, s)
      | Some i \<Rightarrow>
          if clksrc_list s = [] then Some (VMM_EFAIL, s)
          else if \<not> list_ex (\<lambda>k. cs_name (css s k) = cs_name (css s i)) (clksrc_list s)
          then Some (VMM_ENOTAVAIL, s)
          else if i \<in> set (clksrc_list s)
          then Some (VMM_OK, s\<lparr>clksrc_list := remove1 i (clksrc_list s)\<rparr>)
          else None)"

text \<open>\<^verbatim>\<open>if (cs->rating > rating) { best_cs = cs; rating = cs->rating; }\<close> over a list.\<close>

fun best_rated :: "(nat \<Rightarrow> int) \<Rightarrow> (nat \<Rightarrow> bool) \<Rightarrow> int \<Rightarrow> nat option \<Rightarrow> nat list \<Rightarrow> nat option" where
  "best_rated rate ok r best [] = best"
| "best_rated rate ok r best (i # ys) =
     (if rate i > r \<and> ok i then best_rated rate ok (rate i) (Some i) ys
      else best_rated rate ok r best ys)"

definition vmm_clocksource_best :: "('z) clk_sys_scheme \<Rightarrow> nat option" where
  "vmm_clocksource_best s = best_rated (\<lambda>i. cs_rating (css s i)) (\<lambda>i. True) 0 None (clksrc_list s)"

definition vmm_clocksource_find :: "string option \<Rightarrow> ('z) clk_sys_scheme \<Rightarrow> nat option" where
  "vmm_clocksource_find nm s =
     (case nm of None \<Rightarrow> None | Some n \<Rightarrow> find (\<lambda>i. cs_name (css s i) = n) (clksrc_list s))"

definition list_get :: "int \<Rightarrow> nat list \<Rightarrow> nat option" where
  "list_get index xs = (if index < 0 then None else if nat index < length xs then Some (xs ! nat index) else None)"

definition vmm_clocksource_get :: "int \<Rightarrow> ('z) clk_sys_scheme \<Rightarrow> nat option" where
  "vmm_clocksource_get index s = list_get index (clksrc_list s)"

definition vmm_clocksource_count :: "('z) clk_sys_scheme \<Rightarrow> u32" where
  "vmm_clocksource_count s = of_nat (length (clksrc_list s))"

section \<open>Clockchips\<close>

definition vmm_clockchip_program_event :: "clockchip \<Rightarrow> u64 \<Rightarrow> u64 \<Rightarrow> int \<times> clockchip" where
  "vmm_clockchip_program_event cc now_ns expires_ns =
     (if expires_ns < now_ns then (VMM_EFAIL, cc)
      else if cc_mode cc \<noteq> VMM_CLOCKCHIP_MODE_ONESHOT then (0, cc)
      else let delta = expires_ns - now_ns;
               delta = (if cc_max_delta_ns cc < delta then cc_max_delta_ns cc else delta);
               delta = (if delta < cc_min_delta_ns cc then cc_min_delta_ns cc else delta);
               clc = drop_bit (unat (cc_shift cc)) (delta * ucast (cc_mult cc))
           in (cc_set_next_event cc clc, cc\<lparr>cc_next_event := expires_ns, cc_evt := Some clc\<rparr>))"

text \<open>\<^const>\<open>None\<close> is the \<^verbatim>\<open>vmm_panic\<close> on a multiplier of 0.\<close>

definition vmm_clockchip_set_mode :: "clockchip \<Rightarrow> clockchip_mode \<Rightarrow> clockchip option" where
  "vmm_clockchip_set_mode cc mode =
     (if cc_mode cc \<noteq> mode then
        if mode = VMM_CLOCKCHIP_MODE_ONESHOT \<and> cc_mult cc = 0 then None
        else Some (cc\<lparr>cc_mode := mode\<rparr>)
      else Some cc)"

definition vmm_clockchip_register ::
  "nat option \<Rightarrow> ('z) clk_sys_scheme \<Rightarrow> int \<times> ('z) clk_sys_scheme" where
  "vmm_clockchip_register cc s =
     (case cc of
        None \<Rightarrow> (VMM_EFAIL, s)
      | Some i \<Rightarrow>
          if i \<in> set (clkchip_list s) then (VMM_EFAIL, s)
          else (VMM_OK, s\<lparr>chips := (chips s)(i := (chips s i)\<lparr>cc_bound_on := None\<rparr>),
                          clkchip_list := clkchip_list s @ [i]\<rparr>))"

definition vmm_clockchip_unregister ::
  "nat option \<Rightarrow> ('z) clk_sys_scheme \<Rightarrow> int \<times> ('z) clk_sys_scheme" where
  "vmm_clockchip_unregister cc s =
     (case cc of
        None \<Rightarrow> (VMM_EFAIL, s)
      | Some i \<Rightarrow>
          if clkchip_list s = [] then (VMM_EFAIL, s)
          else if i \<notin> set (clkchip_list s) then (VMM_ENOTAVAIL, s)
          else (VMM_OK, s\<lparr>clkchip_list := remove1 i (clkchip_list s)\<rparr>))"

text \<open>\<open>cpus\<close> is \<^verbatim>\<open>CONFIG_CPU_COUNT\<close>.\<close>

definition vmm_clockchip_bind_best ::
  "nat \<Rightarrow> nat \<Rightarrow> ('z) clk_sys_scheme \<Rightarrow> nat option \<times> ('z) clk_sys_scheme" where
  "vmm_clockchip_bind_best cpus hcpu s =
     (if cpus \<le> hcpu then (None, s)
      else case best_rated (\<lambda>i. cc_rating (chips s i))
                  (\<lambda>i. cc_bound_on (chips s i) = None \<and> hcpu \<in> cc_cpumask (chips s i)) 0 None
                  (clkchip_list s) of
             None \<Rightarrow> (None, s)
           | Some i \<Rightarrow>
               (Some i, s\<lparr>chips := (chips s)(i := (chips s i)\<lparr>cc_affinity := Some hcpu,
                                                              cc_bound_on := Some hcpu\<rparr>)\<rparr>))"

definition vmm_clockchip_unbind :: "nat option \<Rightarrow> ('z) clk_sys_scheme \<Rightarrow> int \<times> ('z) clk_sys_scheme" where
  "vmm_clockchip_unbind cc s =
     (case cc of
        None \<Rightarrow> (VMM_EINVALID, s)
      | Some i \<Rightarrow> (VMM_OK, s\<lparr>chips := (chips s)(i := (chips s i)\<lparr>cc_bound_on := None\<rparr>)\<rparr>))"

definition vmm_clockchip_get :: "int \<Rightarrow> ('z) clk_sys_scheme \<Rightarrow> nat option" where
  "vmm_clockchip_get index s = list_get index (clkchip_list s)"

definition vmm_clockchip_count :: "('z) clk_sys_scheme \<Rightarrow> u32" where
  "vmm_clockchip_count s = of_nat (length (clkchip_list s))"

section \<open>Choice of the best device\<close>

lemma best_rated_start: "0 \<le> r \<Longrightarrow> (best = None \<longrightarrow> r = 0) \<Longrightarrow>
    (case best_rated rate ok r best ys of
       None \<Rightarrow> best = None \<and> (\<forall>i \<in> set ys. ok i \<longrightarrow> rate i \<le> r)
     | Some b \<Rightarrow> (best = Some b \<and> (\<forall>i \<in> set ys. ok i \<longrightarrow> rate i \<le> r)) \<or>
         (b \<in> set ys \<and> ok b \<and> r < rate b \<and> (\<forall>i \<in> set ys. ok i \<longrightarrow> rate i \<le> rate b)))"
proof (induction ys arbitrary: r best)
  case Nil
  then show ?case by (auto split: option.splits)
next
  case (Cons i ys)
  show ?case
  proof (cases "rate i > r \<and> ok i")
    case True
    then have "0 \<le> rate i" using Cons.prems by simp
    with Cons.IH [of "rate i" "Some i"] True show ?thesis
      by (auto split: option.splits)
  next
    case False
    with Cons.IH [of r best] Cons.prems show ?thesis by (auto split: option.splits)
  qed
qed

lemma best_rated_max:
  "case best_rated rate ok 0 None ys of
     None \<Rightarrow> \<forall>i \<in> set ys. ok i \<longrightarrow> rate i \<le> 0
   | Some b \<Rightarrow> b \<in> set ys \<and> ok b \<and> 0 < rate b \<and> (\<forall>i \<in> set ys. ok i \<longrightarrow> rate i \<le> rate b)"
  using best_rated_start [where r = 0 and best = None and rate = rate and ok = ok and ys = ys] by (auto split: option.splits)

lemma take_bit_sub_word: "take_bit k (take_bit k a - take_bit k b :: u64) = take_bit k (a - b)"
  by transfer (simp add: take_bit_diff)

section \<open>Properties\<close>

text \<open>
  Property C40: on a counter of \<open>k\<close> bits that advanced by \<open>n\<close> cycles since the last read, with
  \<open>n\<close> less than a full turn, \<^verbatim>\<open>vmm_timecounter_read\<close> adds exactly \<open>n * mult / 2 ^ shift\<close>
  nanoseconds, also when the counter wrapped, as long as the product fits 64 bits.
\<close>
theorem timecounter_read_exact:
  assumes "tc_cs tc = Some i" and "k \<le> 64" and "cs_mask (st i) = mask k" and "n < 2 ^ k"
    and "now = take_bit k (tc_cycles_last tc + of_nat n)" and "take_bit k (tc_cycles_last tc) = tc_cycles_last tc"
    and "n * unat (cs_mult (st i)) < 2 ^ 64"
    and "unat (tc_nsec tc) + n * unat (cs_mult (st i)) div 2 ^ unat (cs_shift (st i)) < 2 ^ 64"
  shows "\<exists>t tc'. vmm_timecounter_read st now tc = (t, tc') \<and> tc_nsec tc' = t \<and> tc_cycles_last tc' = now \<and>
    unat t = unat (tc_nsec tc) + n * unat (cs_mult (st i)) div 2 ^ unat (cs_shift (st i)) \<and>
    tc_nsec tc \<le> t"
proof -
  have n64: "n < 2 ^ 64"
    using assms(2,4) power_increasing [of k 64 "2 :: nat"] by simp
  have "take_bit k (now - tc_cycles_last tc) = take_bit k (of_nat n :: u64)"
  proof -
    have "take_bit k (now - tc_cycles_last tc) =
        take_bit k (take_bit k now - take_bit k (tc_cycles_last tc))"
      by (simp only: take_bit_sub_word)
    also have "\<dots> = take_bit k (tc_cycles_last tc + of_nat n - tc_cycles_last tc)"
      unfolding assms(5) by (simp only: take_bit_take_bit take_bit_sub_word min.idem)
    finally show ?thesis by simp
  qed
  also have "\<dots> = of_nat n"
    using assms(4) by (metis of_nat_take_bit take_bit_nat_eq_self)
  finally have d: "(now - tc_cycles_last tc) AND cs_mask (st i) = of_nat n"
    by (simp add: assms(3) take_bit_eq_mask)
  let ?off = "n * unat (cs_mult (st i)) div 2 ^ unat (cs_shift (st i))"
  have "of_nat n * ucast (cs_mult (st i)) = (of_nat (n * unat (cs_mult (st i))) :: u64)"
    by simp
  then have "unat (of_nat n * ucast (cs_mult (st i)) :: u64) = n * unat (cs_mult (st i))"
    using assms(7) by (simp only: unsigned_of_nat) (simp add: take_bit_nat_eq_self_iff)
  then have o: "unat (vmm_clocksource_delta2nsecs (of_nat n) (cs_mult (st i)) (cs_shift (st i))) = ?off"
    unfolding vmm_clocksource_delta2nsecs_def unat_drop_bit_eq by (simp add: drop_bit_eq_div)
  have r: "vmm_timecounter_read st now tc = (let t = tc_nsec tc +
      vmm_clocksource_delta2nsecs (of_nat n) (cs_mult (st i)) (cs_shift (st i))
      in (t, tc\<lparr>tc_cycles_last := now, tc_nsec := t\<rparr>))"
    using assms(1) by (simp add: vmm_timecounter_read_def d Let_def)
  have "unat (tc_nsec tc + vmm_clocksource_delta2nsecs (of_nat n) (cs_mult (st i)) (cs_shift (st i))) =
      unat (tc_nsec tc) + ?off"
    using assms(8) by (simp add: unat_word_ariths(1) o)
  then show ?thesis by (simp add: r Let_def word_le_nat_alt)
qed

definition example_cs :: "nat \<Rightarrow> clocksource" where
  "example_cs i = \<lparr>cs_name = ''arch-timer'', cs_rating = 400, cs_mask = 0xFF, cs_freq = 1000,
     cs_mult = 0x300, cs_shift = 8, cs_enable = False, cs_disable = False, cs_running = False\<rparr>"

theorem timecounter_read_exact_witness:
  "\<exists>t tc'. vmm_timecounter_read example_cs 4 \<lparr>tc_cs = Some 0, tc_cycles_last = 0xFA, tc_nsec = 100\<rparr> = (t, tc') \<and>
    unat t = 130"
proof -
  let ?tc = "\<lparr>tc_cs = Some 0, tc_cycles_last = 0xFA, tc_nsec = 100\<rparr>"
  have h: "tc_cs ?tc = Some 0" "(8 :: nat) \<le> 64" "cs_mask (example_cs 0) = mask 8" "(10 :: nat) < 2 ^ 8"
    "4 = take_bit 8 (tc_cycles_last ?tc + of_nat 10)"
    "take_bit 8 (tc_cycles_last ?tc) = tc_cycles_last ?tc"
    "10 * unat (cs_mult (example_cs 0)) < 2 ^ 64"
    "unat (tc_nsec ?tc) + 10 * unat (cs_mult (example_cs 0)) div 2 ^ unat (cs_shift (example_cs 0)) < 2 ^ 64"
    by (simp_all add: example_cs_def mask_eq_exp_minus_1)
  from timecounter_read_exact [where st = example_cs and tc = ?tc and i = 0 and k = 8 and n = 10, OF h] show ?thesis by (auto simp: example_cs_def)
qed

text \<open>
  Further fact: \<^verbatim>\<open>vmm_clockchip_program_event\<close> refuses an event in the past without touching the
  hardware; in one-shot mode it hands the driver the distance to the event, clamped to the
  chip's range, converted to cycles.
\<close>
theorem clockchip_program_event_clamps:
  assumes "cc_mode cc = VMM_CLOCKCHIP_MODE_ONESHOT" and "cc_min_delta_ns cc \<le> cc_max_delta_ns cc"
    and "unat (cc_max_delta_ns cc) * unat (cc_mult cc) < 2 ^ 64"
  shows "(expires < now \<longrightarrow> vmm_clockchip_program_event cc now expires = (VMM_EFAIL, cc)) \<and>
    (now \<le> expires \<longrightarrow> (\<exists>d clc. d = max (cc_min_delta_ns cc) (min (cc_max_delta_ns cc) (expires - now)) \<and>
       unat clc = unat d * unat (cc_mult cc) div 2 ^ unat (cc_shift cc) \<and>
       vmm_clockchip_program_event cc now expires =
         (cc_set_next_event cc clc, cc\<lparr>cc_next_event := expires, cc_evt := Some clc\<rparr>)))"
proof (intro conjI impI)
  show "vmm_clockchip_program_event cc now expires = (VMM_EFAIL, cc)" if "expires < now"
    using that by (simp add: vmm_clockchip_program_event_def)
  assume le: "now \<le> expires"
  let ?d = "max (cc_min_delta_ns cc) (min (cc_max_delta_ns cc) (expires - now))"
  let ?clc = "drop_bit (unat (cc_shift cc)) (?d * ucast (cc_mult cc))"
  have "?d \<le> cc_max_delta_ns cc" using assms(2) by simp
  then have "unat ?d * unat (cc_mult cc) \<le> unat (cc_max_delta_ns cc) * unat (cc_mult cc)"
    by (simp add: word_le_nat_alt)
  then have l: "unat ?d * unat (cc_mult cc) < 2 ^ 64" using assms(3) by (rule le_less_trans)
  have "?d * ucast (cc_mult cc) = of_nat (unat ?d * unat (cc_mult cc))" by simp
  then have "unat (?d * ucast (cc_mult cc)) = unat ?d * unat (cc_mult cc)"
    using l by (simp only: unsigned_of_nat) (simp add: take_bit_nat_eq_self_iff)
  then have "unat ?clc = unat ?d * unat (cc_mult cc) div 2 ^ unat (cc_shift cc)"
    unfolding unat_drop_bit_eq by (simp add: drop_bit_eq_div)
  moreover have "vmm_clockchip_program_event cc now expires =
      (cc_set_next_event cc ?clc, cc\<lparr>cc_next_event := expires, cc_evt := Some ?clc\<rparr>)"
    using assms(1,2) le
    by (auto simp: vmm_clockchip_program_event_def Let_def max_def min_def not_less)
  ultimately show "\<exists>d clc. d = max (cc_min_delta_ns cc) (min (cc_max_delta_ns cc) (expires - now)) \<and>
       unat clc = unat d * unat (cc_mult cc) div 2 ^ unat (cc_shift cc) \<and>
       vmm_clockchip_program_event cc now expires =
         (cc_set_next_event cc clc, cc\<lparr>cc_next_event := expires, cc_evt := Some clc\<rparr>)"
    by blast
qed

definition example_chip :: clockchip where
  "example_chip = \<lparr>cc_rating = 300, cc_cpumask = {0, 1}, cc_freq = 1000, cc_mult = 512, cc_shift = 8,
     cc_max_delta_ns = 1000, cc_min_delta_ns = 10, cc_mode = VMM_CLOCKCHIP_MODE_ONESHOT,
     cc_bound_on = None, cc_next_event = 0, cc_set_next_event = (\<lambda>v. 0), cc_evt = None,
     cc_affinity = None\<rparr>"

theorem clockchip_program_event_clamps_witness:
  "\<exists>clc. unat clc = 2000 \<and> vmm_clockchip_program_event example_chip 5 7000 =
     (cc_set_next_event example_chip clc, example_chip\<lparr>cc_next_event := 7000, cc_evt := Some clc\<rparr>)"
proof -
  have h: "cc_mode example_chip = VMM_CLOCKCHIP_MODE_ONESHOT"
    "cc_min_delta_ns example_chip \<le> cc_max_delta_ns example_chip"
    "unat (cc_max_delta_ns example_chip) * unat (cc_mult example_chip) < 2 ^ 64"
    by (simp_all add: example_chip_def)
  from clockchip_program_event_clamps [OF h, of 7000 5] show ?thesis
    by (auto simp: example_chip_def max_def min_def)
qed

text \<open>
  Further fact: \<^verbatim>\<open>vmm_clockchip_bind_best\<close> gives a CPU the best rated registered chip that serves it
  and is not bound, and binds it; it finds none only when no such chip has a positive rating. A
  chip bound to one CPU is never given to another until it is unbound.
\<close>
theorem clockchip_bind_best_exclusive:
  assumes "hcpu < cpus" and "vmm_clockchip_bind_best cpus hcpu s = (r, s')"
  shows "(\<forall>i. r = Some i \<longrightarrow>
      i \<in> set (clkchip_list s) \<and> cc_bound_on (chips s i) = None \<and> hcpu \<in> cc_cpumask (chips s i) \<and>
      (\<forall>k \<in> set (clkchip_list s). cc_bound_on (chips s k) = None \<and> hcpu \<in> cc_cpumask (chips s k) \<longrightarrow>
         cc_rating (chips s k) \<le> cc_rating (chips s i)) \<and>
      cc_bound_on (chips s' i) = Some hcpu \<and> (\<forall>k. k \<noteq> i \<longrightarrow> chips s' k = chips s k) \<and>
      (\<forall>cpu2 n. fst (vmm_clockchip_bind_best n cpu2 s') \<noteq> Some i)) \<and>
    (r = None \<longrightarrow> s' = s \<and> (\<forall>k \<in> set (clkchip_list s). cc_bound_on (chips s k) = None \<and>
       hcpu \<in> cc_cpumask (chips s k) \<longrightarrow> cc_rating (chips s k) \<le> 0))"
proof -
  let ?ok = "\<lambda>i. cc_bound_on (chips s i) = None \<and> hcpu \<in> cc_cpumask (chips s i)"
  note m = best_rated_max [where rate = "\<lambda>i. cc_rating (chips s i)" and ok = ?ok and ys = "clkchip_list s"]
  have other: "fst (vmm_clockchip_bind_best n cpu2 s2) \<noteq> Some i" if "cc_bound_on (chips s2 i) \<noteq> None"
    for n cpu2 i and s2 :: "('a) clk_sys_scheme"
    using best_rated_max [where rate = "\<lambda>i. cc_rating (chips s2 i)" and ys = "clkchip_list s2"
        and ok = "\<lambda>i. cc_bound_on (chips s2 i) = None \<and> cpu2 \<in> cc_cpumask (chips s2 i)"] that
    by (auto simp: vmm_clockchip_bind_best_def split: option.splits)
  show ?thesis
  proof (cases r)
    case None
    then show ?thesis using assms m
      by (auto simp: vmm_clockchip_bind_best_def split: option.splits)
  next
    case (Some i)
    then have b: "best_rated (\<lambda>i. cc_rating (chips s i)) ?ok 0 None (clkchip_list s) = Some i"
      and s': "s' = s\<lparr>chips := (chips s)(i := (chips s i)\<lparr>cc_affinity := Some hcpu, cc_bound_on := Some hcpu\<rparr>)\<rparr>"
      using assms by (auto simp: vmm_clockchip_bind_best_def split: option.splits)
    show ?thesis using m Some other [of s' i] unfolding b by (simp add: s')
  qed
qed

theorem clockchip_bind_best_exclusive_witness:
  "\<exists>s'. vmm_clockchip_bind_best 2 1 \<lparr>css = example_cs, clksrc_list = [],
      chips = (\<lambda>i. example_chip\<lparr>cc_rating := int i\<rparr>), clkchip_list = [3, 7, 5]\<rparr> = (Some 7, s') \<and>
    cc_bound_on (chips s' 7) = Some 1"
proof -
  let ?s = "\<lparr>css = example_cs, clksrc_list = [],
      chips = (\<lambda>i. example_chip\<lparr>cc_rating := int i\<rparr>), clkchip_list = [3, 7, 5]\<rparr>"
  obtain s' where s': "vmm_clockchip_bind_best 2 1 ?s = (Some 7, s')"
    by (simp add: vmm_clockchip_bind_best_def example_chip_def)
  have "(1 :: nat) < 2" by simp
  from clockchip_bind_best_exclusive [OF this s'] s' show ?thesis by auto
qed

end
