(* ===== verification/Timer.thy ===== *)
theory Timer
  imports Clock
begin

text \<open>
  The timer subsystem, \<^verbatim>\<open>core/vmm_timer.c\<close>: per host CPU a list of active timer events sorted by
  expiry, and a clockchip programmed for the first of them. \<^verbatim>\<open>__timer_schedule_next_event\<close> and
  \<^verbatim>\<open>__timer_event_stop\<close> are \<open>timer_schedule_next_event\<close> and \<open>timer_event_stop_raw\<close>; other names are the
  source's.

  Timer events are C objects embedded in others; the model names them by a type \<open>'e\<close> that the client
  chooses. The circular list of \<^verbatim>\<open>libs/list.h\<close> is an Isabelle list. Successive reads of the hardware
  counter are the values of \<open>hw\<close>, and \<open>hw_reads\<close> counts them, so that two reads may differ.
  An operation runs with the event list lock held and interrupts off: it is one step, except for the
  interrupt handler, which drops the lock around each callback. The callback is a parameter that
  may change the whole state.
\<close>

section \<open>State\<close>

record timer_event =
  expiry_tstamp :: u64
  duration_nsecs :: u64
  active_state :: bool
  active_hcpu :: nat

record 'e timer_local_ctrl =
  tl_tc :: timecounter
  tl_cc :: "nat option"
  started :: bool
  inprocess :: bool
  next_event :: u64
  curr_event :: "'e option"
  event_list :: "'e list"

record 'e timer_sys = clk_sys +
  hw :: "nat \<Rightarrow> u64"
  hw_reads :: nat
  tlc :: "nat \<Rightarrow> 'e timer_local_ctrl"
  events :: "'e \<Rightarrow> timer_event"
  ref_tc :: timecounter

definition upd_tlc ::
  "nat \<Rightarrow> ('e timer_local_ctrl \<Rightarrow> 'e timer_local_ctrl) \<Rightarrow> ('e, 'z) timer_sys_scheme \<Rightarrow> ('e, 'z) timer_sys_scheme" where
  "upd_tlc cpu f s = s\<lparr>tlc := (tlc s)(cpu := f (tlc s cpu))\<rparr>"

definition upd_event ::
  "'e \<Rightarrow> (timer_event \<Rightarrow> timer_event) \<Rightarrow> ('e, 'z) timer_sys_scheme \<Rightarrow> ('e, 'z) timer_sys_scheme" where
  "upd_event e f s = s\<lparr>events := (events s)(e := f (events s e))\<rparr>"

definition INIT_TIMER_EVENT :: timer_event where
  "INIT_TIMER_EVENT = \<lparr>expiry_tstamp = 0, duration_nsecs = 0, active_state = False, active_hcpu = 0\<rparr>"

definition cs_read :: "('e, 'z) timer_sys_scheme \<Rightarrow> u64 \<times> ('e, 'z) timer_sys_scheme" where
  "cs_read s = (hw s (hw_reads s), s\<lparr>hw_reads := Suc (hw_reads s)\<rparr>)"

section \<open>Time\<close>

definition vmm_timer_clocksource_frequency :: "nat \<Rightarrow> ('e, 'z) timer_sys_scheme \<Rightarrow> u32" where
  "vmm_timer_clocksource_frequency cpu s =
     vmm_timecounter_clocksource_frequency (css s) (tl_tc (tlc s cpu))"

definition vmm_timer_cycles_to_ns :: "nat \<Rightarrow> u64 \<Rightarrow> ('e, 'z) timer_sys_scheme \<Rightarrow> u64 option" where
  "vmm_timer_cycles_to_ns cpu cycles s = do {
     i \<leftarrow> tc_cs (tl_tc (tlc s cpu));
     Some (vmm_clocksource_delta2nsecs (cycles AND cs_mask (css s i)) (cs_mult (css s i)) (cs_shift (css s i))) }"

definition vmm_timer_delta_cycles_to_ns ::
  "nat \<Rightarrow> u64 \<Rightarrow> ('e, 'z) timer_sys_scheme \<Rightarrow> (u64 \<times> ('e, 'z) timer_sys_scheme) option" where
  "vmm_timer_delta_cycles_to_ns cpu cycles s = do {
     i \<leftarrow> tc_cs (tl_tc (tlc s cpu));
     let (cycles_now, s') = cs_read s;
     let delta = (if cycles > cycles_now then (cycles - cycles_now) AND cs_mask (css s i) else 0);
     Some (vmm_clocksource_delta2nsecs delta (cs_mult (css s i)) (cs_shift (css s i)), s') }"

definition vmm_timer_timestamp ::
  "nat \<Rightarrow> ('e, 'z) timer_sys_scheme \<Rightarrow> u64 \<times> ('e, 'z) timer_sys_scheme" where
  "vmm_timer_timestamp cpu s =
     (case tc_cs (tl_tc (tlc s cpu)) of
        None \<Rightarrow> (0, s)
      | Some i \<Rightarrow>
          let (now, s1) = cs_read s;
              (t, tc') = vmm_timecounter_read (css s) now (tl_tc (tlc s cpu))
          in (t, upd_tlc cpu (\<lambda>l. l\<lparr>tl_tc := tc'\<rparr>) s1))"

section \<open>Events\<close>

definition program_chip ::
  "nat \<Rightarrow> u64 \<Rightarrow> u64 \<Rightarrow> ('e, 'z) timer_sys_scheme \<Rightarrow> ('e, 'z) timer_sys_scheme" where
  "program_chip c now expires s =
     s\<lparr>chips := (chips s)(c := snd (vmm_clockchip_program_event (chips s c) now expires))\<rparr>"

text \<open>A started CPU has a clockchip; this is part of the invariant below.\<close>

definition timer_schedule_next_event ::
  "nat \<Rightarrow> ('e, 'z) timer_sys_scheme \<Rightarrow> ('e, 'z) timer_sys_scheme" where
  "timer_schedule_next_event cpu s =
     (if \<not> started (tlc s cpu) \<or> inprocess (tlc s cpu) then s
      else case event_list (tlc s cpu) of
        [] \<Rightarrow> s
      | e # rest \<Rightarrow>
          let s1 = upd_tlc cpu (\<lambda>l. l\<lparr>curr_event := Some e\<rparr>) s;
              (tstamp, s2) = vmm_timer_timestamp cpu s1;
              next_ev = (if tstamp < expiry_tstamp (events s2 e) then expiry_tstamp (events s2 e) else tstamp);
              s3 = upd_tlc cpu (\<lambda>l. l\<lparr>next_event := next_ev\<rparr>) s2
          in case tl_cc (tlc s3 cpu) of
               None \<Rightarrow> s3
             | Some c \<Rightarrow> program_chip c tstamp next_ev s3)"

definition timer_event_stop_raw :: "'e \<Rightarrow> ('e, 'z) timer_sys_scheme \<Rightarrow> ('e, 'z) timer_sys_scheme" where
  "timer_event_stop_raw e s =
     (if \<not> active_state (events s e) then s
      else upd_event e (\<lambda>v. v\<lparr>active_state := False, expiry_tstamp := 0\<rparr>)
             (upd_tlc (active_hcpu (events s e)) (\<lambda>l. l\<lparr>event_list := remove1 e (event_list l)\<rparr>) s))"

definition vmm_timer_event_pending :: "'e option \<Rightarrow> ('e, 'z) timer_sys_scheme \<Rightarrow> bool" where
  "vmm_timer_event_pending ev s =
     (case ev of None \<Rightarrow> False | Some e \<Rightarrow> active_state (events s e))"

definition vmm_timer_event_expiry_time :: "'e option \<Rightarrow> ('e, 'z) timer_sys_scheme \<Rightarrow> u64" where
  "vmm_timer_event_expiry_time ev s =
     (case ev of None \<Rightarrow> 0 | Some e \<Rightarrow> expiry_tstamp (events s e))"

text \<open>
  \<^verbatim>\<open>list_for_each_entry\<close> stops at the first event that expires later, and the new event goes before it;
  without one it goes to the end.
\<close>

fun insert_event :: "('e \<Rightarrow> u64) \<Rightarrow> 'e \<Rightarrow> 'e list \<Rightarrow> 'e list" where
  "insert_event ex ev [] = [ev]"
| "insert_event ex ev (e # es) = (if ex ev < ex e then ev # e # es else e # insert_event ex ev es)"

definition vmm_timer_event_start2 ::
  "nat \<Rightarrow> 'e option \<Rightarrow> u64 \<Rightarrow> ('e, 'z) timer_sys_scheme \<Rightarrow> int \<times> u64 option \<times> ('e, 'z) timer_sys_scheme" where
  "vmm_timer_event_start2 hcpu evp dur s =
     (case evp of
        None \<Rightarrow> (VMM_EFAIL, None, s)
      | Some ev \<Rightarrow>
          let (tstamp, s1) = vmm_timer_timestamp hcpu s;
              s2 = timer_event_stop_raw ev s1;
              s3 = upd_event ev (\<lambda>v. v\<lparr>expiry_tstamp := tstamp + dur, duration_nsecs := dur,
                                       active_state := True, active_hcpu := hcpu\<rparr>) s2;
              s4 = upd_tlc hcpu (\<lambda>l. l\<lparr>event_list :=
                     insert_event (\<lambda>e. expiry_tstamp (events s3 e)) ev (event_list l)\<rparr>) s3
          in (VMM_OK, Some (tstamp + dur), timer_schedule_next_event hcpu s4))"

definition vmm_timer_event_start ::
  "nat \<Rightarrow> 'e option \<Rightarrow> u64 \<Rightarrow> ('e, 'z) timer_sys_scheme \<Rightarrow> int \<times> ('e, 'z) timer_sys_scheme" where
  "vmm_timer_event_start hcpu ev dur s =
     (let (rc, t, s') = vmm_timer_event_start2 hcpu ev dur s in (rc, s'))"

definition vmm_timer_event_restart ::
  "nat \<Rightarrow> 'e option \<Rightarrow> ('e, 'z) timer_sys_scheme \<Rightarrow> int \<times> ('e, 'z) timer_sys_scheme" where
  "vmm_timer_event_restart hcpu ev s =
     (case ev of None \<Rightarrow> (VMM_EFAIL, s)
      | Some e \<Rightarrow> vmm_timer_event_start hcpu ev (duration_nsecs (events s e)) s)"

definition vmm_timer_event_stop ::
  "'e option \<Rightarrow> ('e, 'z) timer_sys_scheme \<Rightarrow> int \<times> ('e, 'z) timer_sys_scheme" where
  "vmm_timer_event_stop ev s =
     (case ev of None \<Rightarrow> (VMM_EFAIL, s) | Some e \<Rightarrow> (VMM_OK, timer_event_stop_raw e s))"

section \<open>The interrupt handler\<close>

text \<open>
  \<open>H\<close> is the callback \<^verbatim>\<open>e->handler(e)\<close>; its \<^const>\<open>None\<close> is a panic. The loop itself is
  \<^const>\<open>None\<close> also when it never ends, as it does for a callback that restarts its event with no delay.
\<close>

partial_function (option) timer_process_expired ::
  "('e \<Rightarrow> ('e, 'z) timer_sys_scheme \<Rightarrow> ('e, 'z) timer_sys_scheme option) \<Rightarrow> nat \<Rightarrow>
     ('e, 'z) timer_sys_scheme \<Rightarrow> ('e, 'z) timer_sys_scheme option" where
  "timer_process_expired H cpu s =
     (if event_list (tlc s cpu) = [] then Some s
      else if expiry_tstamp (events s (hd (event_list (tlc s cpu)))) \<le> fst (vmm_timer_timestamp cpu s)
      then Option.bind
             (H (hd (event_list (tlc s cpu)))
                (timer_event_stop_raw (hd (event_list (tlc s cpu)))
                   (upd_tlc cpu (\<lambda>l. l\<lparr>curr_event := None\<rparr>) (snd (vmm_timer_timestamp cpu s)))))
             (timer_process_expired H cpu)
      else Some (snd (vmm_timer_timestamp cpu s)))"

definition timer_clockchip_event_handler ::
  "('e \<Rightarrow> ('e, 'z) timer_sys_scheme \<Rightarrow> ('e, 'z) timer_sys_scheme option) \<Rightarrow> nat \<Rightarrow>
     ('e, 'z) timer_sys_scheme \<Rightarrow> ('e, 'z) timer_sys_scheme option" where
  "timer_clockchip_event_handler H cpu s = do {
     s1 \<leftarrow> timer_process_expired H cpu (upd_tlc cpu (\<lambda>l. l\<lparr>inprocess := True\<rparr>) s);
     Some (timer_schedule_next_event cpu (upd_tlc cpu (\<lambda>l. l\<lparr>inprocess := False\<rparr>) s1)) }"

section \<open>Start, stop and initialisation\<close>

definition vmm_timer_started :: "nat \<Rightarrow> ('e, 'z) timer_sys_scheme \<Rightarrow> bool" where
  "vmm_timer_started cpu s = started (tlc s cpu)"

definition vmm_timer_start :: "nat \<Rightarrow> ('e, 'z) timer_sys_scheme \<Rightarrow> ('e, 'z) timer_sys_scheme option" where
  "vmm_timer_start cpu s = do {
     c \<leftarrow> tl_cc (tlc s cpu);
     chip \<leftarrow> vmm_clockchip_set_mode (chips s c) VMM_CLOCKCHIP_MODE_ONESHOT;
     let s1 = s\<lparr>chips := (chips s)(c := chip)\<rparr>;
     let (tstamp, s2) = vmm_timer_timestamp cpu s1;
     let nxt = tstamp + cc_min_delta_ns (chips s2 c);
     let s3 = upd_tlc cpu (\<lambda>l. l\<lparr>next_event := nxt, started := True\<rparr>) s2;
     Some (program_chip c tstamp nxt s3) }"

definition vmm_timer_stop :: "nat \<Rightarrow> ('e, 'z) timer_sys_scheme \<Rightarrow> ('e, 'z) timer_sys_scheme" where
  "vmm_timer_stop cpu s =
     (let s1 = (case tl_cc (tlc s cpu) of
                  None \<Rightarrow> s
                | Some c \<Rightarrow>
                    (case vmm_clockchip_set_mode (chips s c) VMM_CLOCKCHIP_MODE_SHUTDOWN of
                       None \<Rightarrow> s
                     | Some chip \<Rightarrow> s\<lparr>chips := (chips s)(c := chip)\<rparr>))
      in upd_tlc cpu (\<lambda>l. l\<lparr>started := False\<rparr>) s1)"

text \<open>\<open>cpus\<close> is \<^verbatim>\<open>CONFIG_CPU_COUNT\<close>. The reference counter is read before the CPU's own.\<close>

definition timer_startup :: "nat \<Rightarrow> nat \<Rightarrow> ('e, 'z) timer_sys_scheme \<Rightarrow> int \<times> ('e, 'z) timer_sys_scheme" where
  "timer_startup cpus cpu s =
     (let s1 = upd_tlc cpu (\<lambda>l. \<lparr>tl_tc = \<lparr>tc_cs = None, tc_cycles_last = 0, tc_nsec = 0\<rparr>, tl_cc = None,
                                  started = False, inprocess = False, next_event = 0,
                                  curr_event = None, event_list = []\<rparr>) s;
          (cc, s2) = vmm_clockchip_bind_best cpus cpu s1;
          s3 = upd_tlc cpu (\<lambda>l. l\<lparr>tl_cc := cc\<rparr>) s2
      in case cc of
           None \<Rightarrow> (VMM_ENODEV, s3)
         | Some c \<Rightarrow>
             (case tc_cs (ref_tc s3) of
                None \<Rightarrow> (VMM_EFAIL, s3)
              | Some i \<Rightarrow>
                  let (now, s4) = cs_read s3;
                      (t, rtc) = vmm_timecounter_read (css s4) now (ref_tc s4);
                      s5 = s4\<lparr>ref_tc := rtc\<rparr>;
                      (now2, s6) = cs_read s5;
                      (rc, tc') = vmm_timecounter_init (Some i) now2 t (tl_tc (tlc s6 cpu))
                  in (rc, upd_tlc cpu (\<lambda>l. l\<lparr>tl_tc := tc'\<rparr>) s6)))"

text \<open>\<open>register\<close> is \<^verbatim>\<open>vmm_cpuhp_register(&timer_cpuhp, TRUE)\<close>, of the CPU hotplug component.\<close>

definition vmm_timer_init ::
  "(('e, 'z) timer_sys_scheme \<Rightarrow> int \<times> ('e, 'z) timer_sys_scheme) \<Rightarrow> ('e, 'z) timer_sys_scheme \<Rightarrow>
     int \<times> ('e, 'z) timer_sys_scheme" where
  "vmm_timer_init register s =
     (case vmm_clocksource_best s of
        None \<Rightarrow> (VMM_ENODEV, s)
      | Some i \<Rightarrow>
          let (now, s1) = cs_read s;
              (rc, tc') = vmm_timecounter_init (Some i) now 0 (ref_tc s1);
              s2 = s1\<lparr>ref_tc := tc'\<rparr>
          in if rc \<noteq> 0 then (rc, s2)
             else let (rc, s3) = vmm_timecounter_start (ref_tc s2) s2
                  in if rc \<noteq> 0 then (rc, s3) else register s3)"

section \<open>Invariant\<close>

definition expiry :: "('e, 'z) timer_sys_scheme \<Rightarrow> 'e \<Rightarrow> u64" where
  "expiry s e = expiry_tstamp (events s e)"

definition timer_inv :: "('e, 'z) timer_sys_scheme \<Rightarrow> bool" where
  "timer_inv s \<longleftrightarrow>
     (\<forall>cpu. sorted (map (expiry s) (event_list (tlc s cpu))) \<and> distinct (event_list (tlc s cpu)) \<and>
        (\<forall>e. e \<in> set (event_list (tlc s cpu)) \<longleftrightarrow> active_state (events s e) \<and> active_hcpu (events s e) = cpu) \<and>
        (started (tlc s cpu) \<longrightarrow> tl_cc (tlc s cpu) \<noteq> None))"

section \<open>Frames\<close>

lemma upd_tlc_simps [simp]:
  "events (upd_tlc cpu f s) = events s" "chips (upd_tlc cpu f s) = chips s" "css (upd_tlc cpu f s) = css s"
  "hw (upd_tlc cpu f s) = hw s" "hw_reads (upd_tlc cpu f s) = hw_reads s"
  "tlc (upd_tlc cpu f s) c = (if c = cpu then f (tlc s cpu) else tlc s c)"
  "timer_sys.more (upd_tlc cpu f s) = timer_sys.more s"
  by (simp_all add: upd_tlc_def)

lemma upd_event_simps [simp]:
  "tlc (upd_event e f s) = tlc s" "chips (upd_event e f s) = chips s" "css (upd_event e f s) = css s"
  "hw (upd_event e f s) = hw s" "hw_reads (upd_event e f s) = hw_reads s"
  "events (upd_event e f s) x = (if x = e then f (events s e) else events s x)"
  "timer_sys.more (upd_event e f s) = timer_sys.more s"
  by (simp_all add: upd_event_def)

lemma program_chip_simps [simp]:
  "events (program_chip c a b s) = events s" "tlc (program_chip c a b s) = tlc s"
  "css (program_chip c a b s) = css s" "hw_reads (program_chip c a b s) = hw_reads s"
  "timer_sys.more (program_chip c a b s) = timer_sys.more s"
  by (simp_all add: program_chip_def)

text \<open>Everything but the time counters survives a timestamp.\<close>

lemma timestamp_simps [simp]:
  "events (snd (vmm_timer_timestamp cpu s)) = events s"
  "chips (snd (vmm_timer_timestamp cpu s)) = chips s"
  "css (snd (vmm_timer_timestamp cpu s)) = css s"
  "event_list (tlc (snd (vmm_timer_timestamp cpu s)) c) = event_list (tlc s c)"
  "started (tlc (snd (vmm_timer_timestamp cpu s)) c) = started (tlc s c)"
  "inprocess (tlc (snd (vmm_timer_timestamp cpu s)) c) = inprocess (tlc s c)"
  "tl_cc (tlc (snd (vmm_timer_timestamp cpu s)) c) = tl_cc (tlc s c)"
  "curr_event (tlc (snd (vmm_timer_timestamp cpu s)) c) = curr_event (tlc s c)"
  "next_event (tlc (snd (vmm_timer_timestamp cpu s)) c) = next_event (tlc s c)"
  "timer_sys.more (snd (vmm_timer_timestamp cpu s)) = timer_sys.more s"
  by (simp_all add: vmm_timer_timestamp_def cs_read_def split: option.splits prod.splits)

lemma schedule_next_simps [simp]:
  "events (timer_schedule_next_event cpu s) = events s"
  "css (timer_schedule_next_event cpu s) = css s"
  "event_list (tlc (timer_schedule_next_event cpu s) c) = event_list (tlc s c)"
  "started (tlc (timer_schedule_next_event cpu s) c) = started (tlc s c)"
  "inprocess (tlc (timer_schedule_next_event cpu s) c) = inprocess (tlc s c)"
  "tl_cc (tlc (timer_schedule_next_event cpu s) c) = tl_cc (tlc s c)"
  "timer_sys.more (timer_schedule_next_event cpu s) = timer_sys.more s"
  by (simp_all add: timer_schedule_next_event_def Let_def case_prod_beta split: list.splits option.splits)

lemma stop_raw_simps [simp]:
  "started (tlc (timer_event_stop_raw e s) c) = started (tlc s c)"
  "inprocess (tlc (timer_event_stop_raw e s) c) = inprocess (tlc s c)"
  "tl_cc (tlc (timer_event_stop_raw e s) c) = tl_cc (tlc s c)"
  "tl_tc (tlc (timer_event_stop_raw e s) c) = tl_tc (tlc s c)"
  "chips (timer_event_stop_raw e s) = chips s"
  "css (timer_event_stop_raw e s) = css s"
  "timer_sys.more (timer_event_stop_raw e s) = timer_sys.more s"
  by (simp_all add: timer_event_stop_raw_def)

section \<open>The invariant is preserved\<close>

lemma timer_inv_cong:
  assumes "events s' = events s" and "\<And>c. event_list (tlc s' c) = event_list (tlc s c)"
    and "\<And>c. started (tlc s' c) \<Longrightarrow> tl_cc (tlc s' c) \<noteq> None" and "timer_inv s"
  shows "timer_inv s'"
proof -
  have "expiry s' = expiry s" by (rule ext) (simp add: expiry_def assms(1))
  with assms show ?thesis by (simp add: timer_inv_def)
qed

lemma timer_inv_cc: "timer_inv s \<Longrightarrow> started (tlc s c) \<Longrightarrow> tl_cc (tlc s c) \<noteq> None"
  by (simp add: timer_inv_def)

lemma timer_inv_list:
  assumes "timer_inv s"
  shows "sorted (map (expiry s) (event_list (tlc s cpu)))" and "distinct (event_list (tlc s cpu))"
    and "e \<in> set (event_list (tlc s cpu)) \<longleftrightarrow> active_state (events s e) \<and> active_hcpu (events s e) = cpu"
  using assms by (auto simp: timer_inv_def)

lemma timestamp_inv [simp]: "timer_inv s \<Longrightarrow> timer_inv (snd (vmm_timer_timestamp cpu s))"
  by (rule timer_inv_cong [of _ s]) (simp_all add: timer_inv_cc)

lemma schedule_next_inv [simp]: "timer_inv s \<Longrightarrow> timer_inv (timer_schedule_next_event cpu s)"
  by (rule timer_inv_cong [of _ s]) (simp_all add: timer_inv_cc)

lemma stop_raw_events:
  "events (timer_event_stop_raw e s) x =
     (if x = e \<and> active_state (events s e)
      then (events s e)\<lparr>active_state := False, expiry_tstamp := 0\<rparr> else events s x)"
  by (simp add: timer_event_stop_raw_def)

lemma stop_raw_list:
  assumes "timer_inv s"
  shows "event_list (tlc (timer_event_stop_raw e s) cpu) = remove1 e (event_list (tlc s cpu))"
  using timer_inv_list(3) [OF assms, of e cpu]
  by (auto simp: timer_event_stop_raw_def remove1_idem)

lemma stop_raw_inactive: "\<not> active_state (events (timer_event_stop_raw e s) e)"
  by (simp add: stop_raw_events)

lemma stop_raw_inv:
  assumes "timer_inv s"
  shows "timer_inv (timer_event_stop_raw e s)"
  unfolding timer_inv_def
proof (intro allI conjI impI)
  fix cpu
  let ?s = "timer_event_stop_raw e s" and ?l = "event_list (tlc s cpu)"
  note l = timer_inv_list [OF assms, where cpu = cpu]
  have "map (expiry ?s) (remove1 e ?l) = map (expiry s) (remove1 e ?l)"
    using l(2) by (auto simp: expiry_def stop_raw_events)
  moreover have "sorted (map (expiry s) (remove1 e ?l))"
    using l(1) by (rule sorted_map_remove1)
  ultimately show "sorted (map (expiry ?s) (event_list (tlc ?s cpu)))"
    by (simp only: stop_raw_list [OF assms])
  show "distinct (event_list (tlc ?s cpu))" using l(2) by (simp add: stop_raw_list [OF assms])
  show "x \<in> set (event_list (tlc ?s cpu)) \<longleftrightarrow> active_state (events ?s x) \<and> active_hcpu (events ?s x) = cpu" for x
    using l(2) l(3) [of x] by (auto simp: stop_raw_list [OF assms] stop_raw_events)
next
  fix cpu assume "started (tlc (timer_event_stop_raw e s) cpu)"
  then show "tl_cc (tlc (timer_event_stop_raw e s) cpu) \<noteq> None"
    using timer_inv_cc [OF assms] by simp
qed

lemma insert_event_set [simp]: "set (insert_event ex ev es) = insert ev (set es)"
  by (induction es) auto

lemma insert_event_distinct [simp]: "distinct (insert_event ex ev es) \<longleftrightarrow> ev \<notin> set es \<and> distinct es"
  by (induction es) auto

lemma insert_event_remove1: "ev \<notin> set es \<Longrightarrow> remove1 ev (insert_event ex ev es) = es"
  by (induction es) auto

lemma insert_event_sorted: "sorted (map ex es) \<Longrightarrow> sorted (map ex (insert_event ex ev es))"
proof (induction es)
  case (Cons e es)
  then show ?case by (auto simp: not_less dest: order_trans)
qed simp

text \<open>The list and the events after \<^verbatim>\<open>vmm_timer_event_start2\<close>, before the chip is programmed.\<close>

definition start_event ::
  "nat \<Rightarrow> 'e \<Rightarrow> u64 \<Rightarrow> u64 \<Rightarrow> ('e, 'z) timer_sys_scheme \<Rightarrow> ('e, 'z) timer_sys_scheme" where
  "start_event hcpu ev tstamp dur s =
     (let s3 = upd_event ev (\<lambda>v. v\<lparr>expiry_tstamp := tstamp + dur, duration_nsecs := dur,
                                 active_state := True, active_hcpu := hcpu\<rparr>) s
      in upd_tlc hcpu (\<lambda>l. l\<lparr>event_list :=
           insert_event (\<lambda>e. expiry_tstamp (events s3 e)) ev (event_list l)\<rparr>) s3)"

lemma start2_unfold:
  "vmm_timer_event_start2 hcpu (Some ev) dur s =
     (let (t, s1) = vmm_timer_timestamp hcpu s
      in (VMM_OK, Some (t + dur),
          timer_schedule_next_event hcpu (start_event hcpu ev t dur (timer_event_stop_raw ev s1))))"
  by (simp add: vmm_timer_event_start2_def start_event_def Let_def)

lemma start_event_inv:
  assumes "timer_inv s" and "\<not> active_state (events s ev)"
  shows "timer_inv (start_event hcpu ev t dur s)"
  unfolding timer_inv_def
proof (intro allI conjI impI)
  fix cpu
  let ?s = "start_event hcpu ev t dur s" and ?l = "event_list (tlc s cpu)"
  note l = timer_inv_list [OF assms(1), where cpu = cpu]
  have fresh: "ev \<notin> set ?l" using l(3) [of ev] assms(2) by simp
  have ev: "events ?s x = (if x = ev then (events s ev)\<lparr>expiry_tstamp := t + dur, duration_nsecs := dur,
      active_state := True, active_hcpu := hcpu\<rparr> else events s x)" for x
    by (simp add: start_event_def Let_def)
  have li: "event_list (tlc ?s cpu) = (if cpu = hcpu then insert_event (expiry ?s) ev ?l else ?l)"
    by (simp add: start_event_def Let_def expiry_def [abs_def])
  have same: "map (expiry ?s) ?l = map (expiry s) ?l"
    using fresh by (auto simp: expiry_def ev)
  have so: "sorted (map (expiry ?s) ?l)" unfolding same by (rule l(1))
  show "sorted (map (expiry ?s) (event_list (tlc ?s cpu)))"
    using so insert_event_sorted [OF so] by (auto simp: li)
  show "distinct (event_list (tlc ?s cpu))" using l(2) fresh by (auto simp: li)
  show "x \<in> set (event_list (tlc ?s cpu)) \<longleftrightarrow> active_state (events ?s x) \<and> active_hcpu (events ?s x) = cpu" for x
    using l(3) [of x] assms(2) by (auto simp: li ev)
next
  fix cpu assume "started (tlc (start_event hcpu ev t dur s) cpu)"
  then show "tl_cc (tlc (start_event hcpu ev t dur s) cpu) \<noteq> None"
    using timer_inv_cc [OF assms(1)] by (simp add: start_event_def Let_def split: if_splits)
qed

lemma start2_inv: "timer_inv s \<Longrightarrow> timer_inv (snd (snd (vmm_timer_event_start2 hcpu ev dur s)))"
  by (cases ev)
    (simp_all add: start2_unfold case_prod_beta stop_raw_inv stop_raw_inactive start_event_inv
      vmm_timer_event_start2_def [of _ None])

lemma event_start_inv: "timer_inv s \<Longrightarrow> timer_inv (snd (vmm_timer_event_start hcpu ev dur s))"
  using start2_inv [of s hcpu ev dur] by (simp add: vmm_timer_event_start_def case_prod_beta)

lemma event_restart_inv: "timer_inv s \<Longrightarrow> timer_inv (snd (vmm_timer_event_restart hcpu ev s))"
  by (cases ev) (simp_all add: vmm_timer_event_restart_def event_start_inv)

lemma event_stop_inv: "timer_inv s \<Longrightarrow> timer_inv (snd (vmm_timer_event_stop ev s))"
  by (cases ev) (simp_all add: vmm_timer_event_stop_def stop_raw_inv)

section \<open>The interrupt handler\<close>

lemma expired_step_inv:
  "timer_inv s \<Longrightarrow> timer_inv (timer_event_stop_raw e (upd_tlc cpu (\<lambda>l. l\<lparr>curr_event := None\<rparr>)
     (snd (vmm_timer_timestamp cpu s))))"
  by (rule stop_raw_inv, rule timer_inv_cong [of _ s]) (auto dest: timer_inv_cc split: if_splits)

lemma process_expired_inv:
  assumes "timer_process_expired H cpu s = Some s'"
  shows "(\<forall>e s1 s2. timer_inv s1 \<longrightarrow> H e s1 = Some s2 \<longrightarrow> timer_inv s2) \<longrightarrow> timer_inv s \<longrightarrow> timer_inv s'"
proof (rule timer_process_expired.raw_induct [where P = "\<lambda>H cpu s s'.
    (\<forall>e s1 s2. timer_inv s1 \<longrightarrow> H e s1 = Some s2 \<longrightarrow> timer_inv s2) \<longrightarrow> timer_inv s \<longrightarrow> timer_inv s'",
    OF _ assms], goal_cases)
  case (1 f H cpu s s')
  let ?e = "hd (event_list (tlc s cpu))"
  let ?s1 = "timer_event_stop_raw ?e (upd_tlc cpu (\<lambda>l. l\<lparr>curr_event := None\<rparr>) (snd (vmm_timer_timestamp cpu s)))"
  show ?case
  proof (intro impI)
    assume H: "\<forall>e s1 s2. timer_inv s1 \<longrightarrow> H e s1 = Some s2 \<longrightarrow> timer_inv s2" and s: "timer_inv s"
    from 1(2) consider "s' = s" | "s' = snd (vmm_timer_timestamp cpu s)"
      | s2 where "H ?e ?s1 = Some s2" "f H cpu s2 = Some s'"
      by (auto split: if_splits bind_splits)
    then show "timer_inv s'"
    proof cases
      case 3
      with H s expired_step_inv [of s ?e cpu] have "timer_inv s2" by blast
      with 1(1) [OF 3(2)] H show ?thesis by blast
    qed (use s in auto)
  qed
qed

text \<open>The timestamp read last on a CPU.\<close>

definition last_tstamp :: "('e, 'z) timer_sys_scheme \<Rightarrow> nat \<Rightarrow> u64" where
  "last_tstamp s cpu = (if tc_cs (tl_tc (tlc s cpu)) = None then 0 else tc_nsec (tl_tc (tlc s cpu)))"

lemma last_tstamp_read: "last_tstamp (snd (vmm_timer_timestamp cpu s)) cpu = fst (vmm_timer_timestamp cpu s)"
  by (auto simp: last_tstamp_def vmm_timer_timestamp_def cs_read_def vmm_timecounter_read_def Let_def
      split: option.splits)

lemma last_tstamp_simps [simp]:
  "last_tstamp (program_chip c now ex s) k = last_tstamp s k"
  "last_tstamp (upd_tlc cpu (\<lambda>l. l\<lparr>next_event := n\<rparr>) s) k = last_tstamp s k"
  "last_tstamp (upd_tlc cpu (\<lambda>l. l\<lparr>curr_event := e\<rparr>) s) k = last_tstamp s k"
  "last_tstamp (upd_tlc cpu (\<lambda>l. l\<lparr>inprocess := b\<rparr>) s) k = last_tstamp s k"
  by (auto simp: last_tstamp_def)

lemma program_chip_next:
  "now \<le> ex \<Longrightarrow> cc_mode (chips (program_chip c now ex s) c) = VMM_CLOCKCHIP_MODE_ONESHOT \<Longrightarrow>
     cc_next_event (chips (program_chip c now ex s) c) = ex"
  by (auto simp: program_chip_def vmm_clockchip_program_event_def Let_def split: if_splits)

text \<open>
  \<open>timer_armed s cpu\<close>: the CPU waits for its first event, and a chip in one-shot mode is programmed
  for it, or for now when the event has expired already.
\<close>

definition timer_armed :: "('e, 'z) timer_sys_scheme \<Rightarrow> nat \<Rightarrow> bool" where
  "timer_armed s cpu \<longleftrightarrow>
     (started (tlc s cpu) \<and> \<not> inprocess (tlc s cpu) \<and> event_list (tlc s cpu) \<noteq> [] \<longrightarrow>
        (let e = hd (event_list (tlc s cpu)) in
         curr_event (tlc s cpu) = Some e \<and>
         next_event (tlc s cpu) = max (last_tstamp s cpu) (expiry s e) \<and>
         (\<forall>c. tl_cc (tlc s cpu) = Some c \<and> cc_mode (chips s c) = VMM_CLOCKCHIP_MODE_ONESHOT \<longrightarrow>
            cc_next_event (chips s c) = next_event (tlc s cpu))))"

lemma schedule_next_armed: "timer_armed (timer_schedule_next_event cpu s) cpu"
proof (cases "started (tlc s cpu) \<and> \<not> inprocess (tlc s cpu) \<and> event_list (tlc s cpu) \<noteq> []")
  case False
  then show ?thesis by (auto simp: timer_armed_def)
next
  case True
  then obtain e es where l: "event_list (tlc s cpu) = e # es" by (cases "event_list (tlc s cpu)") auto
  let ?s1 = "upd_tlc cpu (\<lambda>l. l\<lparr>curr_event := Some e\<rparr>) s"
  let ?t = "fst (vmm_timer_timestamp cpu ?s1)" and ?s2 = "snd (vmm_timer_timestamp cpu ?s1)"
  let ?n = "max ?t (expiry s e)"
  let ?s3 = "upd_tlc cpu (\<lambda>l. l\<lparr>next_event := ?n\<rparr>) ?s2"
  have n: "(if ?t < expiry_tstamp (events ?s2 e) then expiry_tstamp (events ?s2 e) else ?t) = ?n"
    by (auto simp: expiry_def max_def)
  have r: "timer_schedule_next_event cpu s = (case tl_cc (tlc ?s3 cpu) of None \<Rightarrow> ?s3
      | Some c \<Rightarrow> program_chip c ?t ?n ?s3)"
    using True
    by (simp only: timer_schedule_next_event_def l list.case Let_def case_prod_beta n) simp
  have lt: "last_tstamp ?s2 cpu = ?t" by (rule last_tstamp_read)
  have le: "\<not> ?n < ?t" by simp
  show ?thesis
    using True l lt le
    by (auto simp: timer_armed_def Let_def r expiry_def program_chip_next split: option.splits)
qed

lemma process_expired_terminates:
  assumes "timer_inv s"
    and "\<And>e s1. timer_inv s1 \<Longrightarrow> \<exists>s2. H e s1 = Some s2 \<and> timer_inv s2 \<and>
      event_list (tlc s2 cpu) = event_list (tlc s1 cpu)"
  shows "\<exists>s'. timer_process_expired H cpu s = Some s'"
  using assms(1)
proof (induction "length (event_list (tlc s cpu))" arbitrary: s rule: less_induct)
  case less
  let ?e = "hd (event_list (tlc s cpu))"
  let ?s1 = "upd_tlc cpu (\<lambda>l. l\<lparr>curr_event := None\<rparr>) (snd (vmm_timer_timestamp cpu s))"
  show ?case
  proof (cases "event_list (tlc s cpu) = [] \<or> \<not> expiry_tstamp (events s ?e) \<le> fst (vmm_timer_timestamp cpu s)")
    case True
    then show ?thesis by (subst timer_process_expired.simps) auto
  next
    case False
    have inv1: "timer_inv ?s1"
      by (rule timer_inv_cong [of _ s]) (use less(2) in \<open>auto dest: timer_inv_cc split: if_splits\<close>)
    from assms(2) [OF expired_step_inv [OF less(2)]] obtain s2 where
      s2: "H ?e (timer_event_stop_raw ?e ?s1) = Some s2" "timer_inv s2"
        "event_list (tlc s2 cpu) = event_list (tlc (timer_event_stop_raw ?e ?s1) cpu)" by blast
    have "event_list (tlc s2 cpu) = tl (event_list (tlc s cpu))"
      using False by (cases "event_list (tlc s cpu)") (simp_all add: s2(3) stop_raw_list [OF inv1])
    with False less(1) [of s2] s2(2) obtain s' where "timer_process_expired H cpu s2 = Some s'" by auto
    with False s2(1) show ?thesis by (subst timer_process_expired.simps) auto
  qed
qed

text \<open>A callback that only records the event, in a state extended by the record.\<close>

definition log_handler :: "'e \<Rightarrow> ('e, 'e list) timer_sys_scheme \<Rightarrow> ('e, 'e list) timer_sys_scheme option" where
  "log_handler e s = Some (timer_sys.more_update (\<lambda>l. l @ [e]) s)"

lemma log_handler_inv: "timer_inv s1 \<Longrightarrow> \<exists>s2. log_handler e s1 = Some s2 \<and> timer_inv s2 \<and>
    event_list (tlc s2 cpu) = event_list (tlc s1 cpu)"
  by (simp add: log_handler_def) (rule timer_inv_cong [of _ s1], auto dest: timer_inv_cc)

lemma process_expired_prefix:
  assumes "timer_inv s"
  shows "\<exists>k s'. timer_process_expired log_handler cpu s = Some s' \<and> timer_inv s' \<and>
     timer_sys.more s' = timer_sys.more s @ take k (event_list (tlc s cpu)) \<and>
     event_list (tlc s' cpu) = drop k (event_list (tlc s cpu)) \<and>
     (\<forall>e \<in> set (event_list (tlc s' cpu)). last_tstamp s' cpu < expiry s' e \<and> expiry s' e = expiry s e)"
  using assms
proof (induction "length (event_list (tlc s cpu))" arbitrary: s rule: less_induct)
  case less
  let ?L = "event_list (tlc s cpu)"
  let ?e = "hd ?L" and ?t = "vmm_timer_timestamp cpu s"
  show ?case
  proof (cases "?L = [] \<or> \<not> expiry_tstamp (events s ?e) \<le> fst ?t")
    case True
    let ?s' = "if ?L = [] then s else snd ?t"
    have r: "timer_process_expired log_handler cpu s = Some ?s'"
      using True by (subst timer_process_expired.simps) auto
    have "last_tstamp ?s' cpu < expiry s e" if "e \<in> set ?L" for e
    proof -
      have ne: "?L \<noteq> []" using that by auto
      then have "last_tstamp ?s' cpu < expiry s ?e"
        using True by (simp add: last_tstamp_read expiry_def not_le)
      moreover have "expiry s ?e \<le> expiry s e"
        using that ne timer_inv_list(1) [OF less(2), of cpu] by (cases ?L) auto
      ultimately show ?thesis by (rule less_le_trans)
    qed
    moreover have "expiry ?s' = expiry s" by (rule ext) (simp add: expiry_def)
    moreover have "timer_inv ?s'" using less(2) by simp
    ultimately show ?thesis using r by (intro exI [of _ 0] exI [of _ ?s']) auto
  next
    case False
    let ?s1 = "upd_tlc cpu (\<lambda>l. l\<lparr>curr_event := None\<rparr>) (snd ?t)"
    let ?s2 = "timer_sys.more_update (\<lambda>l. l @ [?e]) (timer_event_stop_raw ?e ?s1)"
    have inv1: "timer_inv ?s1"
      by (rule timer_inv_cong [of _ s]) (use less(2) in \<open>auto dest: timer_inv_cc split: if_splits\<close>)
    have h: "log_handler ?e (timer_event_stop_raw ?e ?s1) = Some ?s2" by (simp add: log_handler_def)
    have inv2: "timer_inv ?s2"
      using log_handler_inv [OF stop_raw_inv [OF inv1]] h by (metis option.inject)
    obtain L' where L: "?L = ?e # L'" using False by (cases ?L) auto
    have l2: "event_list (tlc ?s2 cpu) = L'"
      using stop_raw_list [OF inv1, of ?e cpu] L by simp (metis remove1.simps(2))
    have len: "length (event_list (tlc ?s2 cpu)) < length ?L"
      unfolding l2 by (metis L length_Cons lessI)
    obtain k s' where ih: "timer_process_expired log_handler cpu ?s2 = Some s'" "timer_inv s'"
      "timer_sys.more s' = timer_sys.more ?s2 @ take k L'" "event_list (tlc s' cpu) = drop k L'"
      "\<forall>e \<in> set (event_list (tlc s' cpu)). last_tstamp s' cpu < expiry s' e \<and> expiry s' e = expiry ?s2 e"
      using less(1) [OF len inv2] unfolding l2 by blast
    have "?e \<notin> set L'"
      using timer_inv_list(2) [OF less(2), of cpu] L by (metis distinct.simps(2))
    then have "expiry ?s2 e = expiry s e" if "e \<in> set L'" for e
      using that by (auto simp: expiry_def stop_raw_events)
    then have "\<forall>e \<in> set (event_list (tlc s' cpu)). last_tstamp s' cpu < expiry s' e \<and> expiry s' e = expiry s e"
      using ih(4,5) by (auto dest: in_set_dropD)
    moreover have "timer_process_expired log_handler cpu s = Some s'"
      using False h ih(1) by (subst timer_process_expired.simps) simp
    moreover have "timer_sys.more s' = timer_sys.more s @ take (Suc k) ?L"
      using ih(3) by (simp add: L [symmetric]) (metis L take_Suc_Cons)
    moreover have "event_list (tlc s' cpu) = drop (Suc k) ?L"
      using ih(4) L by (metis drop_Suc_Cons)
    ultimately show ?thesis using ih(2) by blast
  qed
qed

section \<open>Properties\<close>

text \<open>
  Property C33: \<^verbatim>\<open>vmm_timer_event_start2\<close> keeps every CPU's event list sorted by expiry and equal to
  the set of its active events. It (re)activates the event on the calling CPU with expiry
  \<open>timestamp + duration\<close>, touches no other event, keeps the order of the others, and leaves the
  clockchip programmed for the first event of the list.
\<close>
theorem timer_event_start2_sorted:
  assumes "timer_inv s" and "vmm_timer_event_start2 hcpu (Some ev) dur s = (rc, ex, s')"
  shows "rc = VMM_OK \<and> timer_inv s' \<and> timer_armed s' hcpu \<and>
    ex = Some (expiry s' ev) \<and> expiry s' ev = fst (vmm_timer_timestamp hcpu s) + dur \<and>
    active_state (events s' ev) \<and> active_hcpu (events s' ev) = hcpu \<and>
    (\<forall>e. e \<noteq> ev \<longrightarrow> events s' e = events s e) \<and>
    (\<forall>cpu. remove1 ev (event_list (tlc s' cpu)) = remove1 ev (event_list (tlc s cpu)))"
proof -
  let ?t = "fst (vmm_timer_timestamp hcpu s)"
  let ?s2 = "timer_event_stop_raw ev (snd (vmm_timer_timestamp hcpu s))"
  have s': "s' = timer_schedule_next_event hcpu (start_event hcpu ev ?t dur ?s2)" "rc = VMM_OK"
    "ex = Some (?t + dur)"
    using assms(2) by (auto simp: start2_unfold case_prod_beta)
  have inv: "timer_inv s'"
    using start2_inv [OF assms(1), of hcpu "Some ev" dur] assms(2) by simp
  have ev: "events s' e = (if e = ev then (events ?s2 ev)\<lparr>expiry_tstamp := ?t + dur, duration_nsecs := dur,
      active_state := True, active_hcpu := hcpu\<rparr> else events s e)" for e
    by (simp add: s'(1) start_event_def Let_def stop_raw_events)
  have l2: "event_list (tlc ?s2 cpu) = remove1 ev (event_list (tlc s cpu))" for cpu
    using stop_raw_list [of "snd (vmm_timer_timestamp hcpu s)" ev cpu] assms(1) by simp
  have fresh: "ev \<notin> set (event_list (tlc ?s2 cpu))" for cpu
    using timer_inv_list(2) [OF assms(1), of cpu] by (simp add: l2)
  have li: "remove1 ev (event_list (tlc s' cpu)) = event_list (tlc ?s2 cpu)" for cpu
    using fresh [of cpu] fresh [of hcpu]
    by (simp add: s'(1) start_event_def Let_def insert_event_remove1 remove1_idem)
  show ?thesis
    using s' inv schedule_next_armed [of hcpu "start_event hcpu ev ?t dur ?s2"] ev li l2
    by (simp add: expiry_def)
qed

definition example_timer :: "(nat, nat list) timer_sys_scheme" where
  "example_timer = \<lparr>css = example_cs, clksrc_list = [0], chips = (\<lambda>i. example_chip), clkchip_list = [0],
     hw = (\<lambda>k. of_nat (10 * k)), hw_reads = 0,
     tlc = (\<lambda>c. \<lparr>tl_tc = \<lparr>tc_cs = Some 0, tc_cycles_last = 0, tc_nsec = 0\<rparr>, tl_cc = Some c, started = True,
       inprocess = False, next_event = 0, curr_event = None, event_list = (if c = 0 then [5, 3] else [])\<rparr>),
     events = (\<lambda>e. \<lparr>expiry_tstamp = (if e = 5 then 10 else 200), duration_nsecs = 0,
       active_state = (e = 5 \<or> e = 3), active_hcpu = 0\<rparr>),
     ref_tc = \<lparr>tc_cs = Some 0, tc_cycles_last = 0, tc_nsec = 0\<rparr>, \<dots> = []\<rparr>"

lemma example_timer_inv: "timer_inv example_timer"
  by (auto simp: timer_inv_def example_timer_def expiry_def)

theorem timer_event_start2_sorted_witness:
  "\<exists>s'. vmm_timer_event_start2 0 (Some 7) 100 example_timer = (VMM_OK, Some 100, s') \<and> timer_inv s' \<and>
     timer_armed s' 0 \<and> expiry s' 7 = 100"
proof -
  have t: "fst (vmm_timer_timestamp 0 example_timer) = 0"
    by (simp add: example_timer_def vmm_timer_timestamp_def cs_read_def vmm_timecounter_read_def
        vmm_clocksource_delta2nsecs_def)
  obtain rc ex s' where r: "vmm_timer_event_start2 0 (Some 7) 100 example_timer = (rc, ex, s')"
    by (metis prod_cases3)
  from timer_event_start2_sorted [OF example_timer_inv r] r t show ?thesis by auto
qed

text \<open>
  Further fact: stopping an event removes it from the list of the CPU it is active on, and only
  it; the invariant is kept and the event is not pending afterwards.
\<close>
theorem timer_event_stop_removes:
  assumes "timer_inv s" and "vmm_timer_event_stop (Some ev) s = (rc, s')"
  shows "rc = VMM_OK \<and> timer_inv s' \<and> \<not> vmm_timer_event_pending (Some ev) s' \<and>
    (\<forall>e. e \<noteq> ev \<longrightarrow> events s' e = events s e) \<and>
    (\<forall>cpu. event_list (tlc s' cpu) = remove1 ev (event_list (tlc s cpu)))"
  using assms stop_raw_inv [OF assms(1)] stop_raw_inactive [of ev s] stop_raw_list [OF assms(1)]
  by (auto simp: vmm_timer_event_stop_def vmm_timer_event_pending_def stop_raw_events)

theorem timer_event_stop_removes_witness:
  "event_list (tlc (snd (vmm_timer_event_stop (Some 5) example_timer)) 0) = [3]"
proof -
  obtain rc s' where r: "vmm_timer_event_stop (Some 5) example_timer = (rc, s')" by fastforce
  from timer_event_stop_removes [OF example_timer_inv r] r show ?thesis
    by (simp add: example_timer_def)
qed



text \<open>
  Further fact: the handler calls back the expired events in the order of their expiry, each once,
  and leaves exactly the others: every event that stays in the list expires after the last
  timestamp the loop read.
\<close>
theorem timer_dispatch_in_order:
  assumes "timer_inv s"
  shows "\<exists>k s'. timer_process_expired log_handler cpu s = Some s' \<and>
    timer_sys.more s' = timer_sys.more s @ take k (event_list (tlc s cpu)) \<and>
    sorted (map (expiry s) (take k (event_list (tlc s cpu)))) \<and>
    event_list (tlc s' cpu) = drop k (event_list (tlc s cpu)) \<and>
    (\<forall>e \<in> set (event_list (tlc s' cpu)). last_tstamp s' cpu < expiry s' e) \<and>
    (\<forall>e \<in> set (take k (event_list (tlc s cpu))). e \<notin> set (event_list (tlc s' cpu)))"
proof -
  obtain k s' where r: "timer_process_expired log_handler cpu s = Some s'"
    "timer_sys.more s' = timer_sys.more s @ take k (event_list (tlc s cpu))"
    "event_list (tlc s' cpu) = drop k (event_list (tlc s cpu))"
    "\<forall>e \<in> set (event_list (tlc s' cpu)). last_tstamp s' cpu < expiry s' e \<and> expiry s' e = expiry s e"
    using process_expired_prefix [OF assms, of cpu] by blast
  have "sorted (map (expiry s) (take k (event_list (tlc s cpu))))"
    using timer_inv_list(1) [OF assms, of cpu] by (simp add: take_map [symmetric] sorted_wrt_take)
  moreover have "e \<notin> set (drop k (event_list (tlc s cpu)))" if "e \<in> set (take k (event_list (tlc s cpu)))" for e
    using set_take_disj_set_drop_if_distinct [OF timer_inv_list(2) [OF assms, of cpu], of k k] that by auto
  ultimately show ?thesis using r by (intro exI [of _ k] exI [of _ s']) auto
qed

theorem timer_dispatch_in_order_witness:
  "\<exists>k s'. timer_process_expired log_handler 0 example_timer = Some s' \<and>
    timer_sys.more s' = take k [5, 3] \<and> event_list (tlc s' 0) = drop k [5, 3]"
  using timer_dispatch_in_order [OF example_timer_inv, of 0] by (auto simp: example_timer_def)

end
