(* ===== verification/Vcpu.thy ===== *)
theory Vcpu
  imports Prelude
begin

text \<open>
  The virtual CPU of \<^verbatim>\<open>core/include/vmm_manager.h\<close>: its states with the masks that classify them,
  the virtual interrupt context, and the scheduling and wait-queue fields of
  \<^verbatim>\<open>struct vmm_vcpu\<close>. VCPUs, wait queues and host CPUs are objects compared by address or by
  number; the model names each by a natural number.
\<close>

datatype vcpu_state =
    VMM_VCPU_STATE_UNKNOWN
  | VMM_VCPU_STATE_RESET
  | VMM_VCPU_STATE_READY
  | VMM_VCPU_STATE_RUNNING
  | VMM_VCPU_STATE_PAUSED
  | VMM_VCPU_STATE_HALTED

fun state_bits :: "vcpu_state \<Rightarrow> u32" where
  "state_bits VMM_VCPU_STATE_UNKNOWN = 0x01"
| "state_bits VMM_VCPU_STATE_RESET = 0x02"
| "state_bits VMM_VCPU_STATE_READY = 0x04"
| "state_bits VMM_VCPU_STATE_RUNNING = 0x08"
| "state_bits VMM_VCPU_STATE_PAUSED = 0x10"
| "state_bits VMM_VCPU_STATE_HALTED = 0x20"

definition VMM_VCPU_STATE_SAVEABLE :: u32 where
  "VMM_VCPU_STATE_SAVEABLE = state_bits VMM_VCPU_STATE_RUNNING OR state_bits VMM_VCPU_STATE_PAUSED OR
     state_bits VMM_VCPU_STATE_HALTED"

definition VMM_VCPU_STATE_INTERRUPTIBLE :: u32 where
  "VMM_VCPU_STATE_INTERRUPTIBLE = state_bits VMM_VCPU_STATE_RUNNING OR state_bits VMM_VCPU_STATE_READY OR
     state_bits VMM_VCPU_STATE_PAUSED"

definition in_mask :: "vcpu_state \<Rightarrow> u32 \<Rightarrow> bool" where
  "in_mask st m \<longleftrightarrow> state_bits st AND m \<noteq> 0"

lemma saveable_states: "in_mask st VMM_VCPU_STATE_SAVEABLE \<longleftrightarrow>
    st \<in> {VMM_VCPU_STATE_RUNNING, VMM_VCPU_STATE_PAUSED, VMM_VCPU_STATE_HALTED}"
  by (cases st) (simp_all add: in_mask_def VMM_VCPU_STATE_SAVEABLE_def)

lemma interruptible_states: "in_mask st VMM_VCPU_STATE_INTERRUPTIBLE \<longleftrightarrow>
    st \<in> {VMM_VCPU_STATE_RUNNING, VMM_VCPU_STATE_READY, VMM_VCPU_STATE_PAUSED}"
  by (cases st) (simp_all add: in_mask_def VMM_VCPU_STATE_INTERRUPTIBLE_def)

definition VMM_VCPU_MIN_PRIORITY :: nat where [simp]: "VMM_VCPU_MIN_PRIORITY = 0"
definition VMM_VCPU_MAX_PRIORITY :: nat where [simp]: "VMM_VCPU_MAX_PRIORITY = 7"

section \<open>Virtual interrupts\<close>

datatype irq_assert = DEASSERTED | ASSERTED | PENDING

record vcpu_irq =
  irq_assert :: irq_assert
  irq_reason :: u64

text \<open>\<open>irq\<close> is \<^const>\<open>None\<close> for a NULL array; \<open>wfi_priv\<close> says that the timeout event is allocated.\<close>

record vcpu_irqs =
  irq_count :: u32
  irq :: "vcpu_irq list option"
  execute_pending :: int
  assert_count :: u64
  execute_count :: u64
  clear_count :: u64
  deassert_count :: u64
  wfi_yield_count :: u32
  wfi_state :: bool
  wfi_priv :: bool

section \<open>The VCPU\<close>

text \<open>
  \<open>sched_priv\<close> says that the ready-queue entry is allocated. \<open>wq_priv\<close> is the
  \<^verbatim>\<open>struct vmm_waitqueue_priv\<close> on the sleeper's stack: the wait queue and whether a timeout
  event is attached. \<open>wq_cleanup\<close> says that the callback is set; the only function ever stored there
  is \<^verbatim>\<open>waitqueue_cleanup\<close>. \<open>vres\<close> is the list of resources released when the VCPU is destroyed.
\<close>

datatype vcpu_res = Res_mutex nat | Res_semaphore nat

record vcpu =
  is_normal :: bool
  hcpu :: nat
  cpu_affinity :: "nat set"
  vstate :: vcpu_state
  state_tstamp :: u64
  state_ready_nsecs :: u64
  state_running_nsecs :: u64
  state_paused_nsecs :: u64
  state_halted_nsecs :: u64
  system_nsecs :: u64
  reset_count :: u32
  reset_tstamp :: u64
  preempt_count :: u32
  resumed :: bool
  sched_priv :: bool
  priority :: u8
  time_slice :: u64
  deadline :: u64
  periodicity :: u64
  irqs :: vcpu_irqs
  wq_lock :: "nat option"
  wq_priv :: "(nat \<times> bool) option"
  wq_cleanup :: bool
  vres :: "vcpu_res list"

end
