(* ===== verification/Schedalgo.thy ===== *)
theory Schedalgo
  imports Vcpu
begin

text \<open>
  The priority round-robin ready queue, \<^verbatim>\<open>core/schedalgo/vmm_schedalgo_prr.c\<close>: one list of VCPUs per
  priority. A queue entry is allocated per VCPU and links it into one list; the model stores the
  VCPU itself. \<^const>\<open>None\<close> is an access outside the array of lists. \<open>vs\<close> is the store of VCPUs.

  The contract of a ready queue is the locale \<open>ready_queue\<close>; the interpretation \<open>prr\<close> discharges it for
  the code's operations.
\<close>

section \<open>Operations\<close>

type_synonym rq = "nat list list"

definition vmm_schedalgo_vcpu_setup :: "bool \<Rightarrow> nat option \<Rightarrow> (nat \<Rightarrow> vcpu) \<Rightarrow> int \<times> (nat \<Rightarrow> vcpu)" where
  "vmm_schedalgo_vcpu_setup have_mem vp vs =
     (case vp of
        None \<Rightarrow> (VMM_EFAIL, vs)
      | Some v \<Rightarrow> if \<not> have_mem then (VMM_EFAIL, vs) else (VMM_OK, vs(v := (vs v)\<lparr>sched_priv := True\<rparr>)))"

definition vmm_schedalgo_vcpu_cleanup :: "nat option \<Rightarrow> (nat \<Rightarrow> vcpu) \<Rightarrow> int \<times> (nat \<Rightarrow> vcpu)" where
  "vmm_schedalgo_vcpu_cleanup vp vs =
     (case vp of
        None \<Rightarrow> (VMM_EFAIL, vs)
      | Some v \<Rightarrow> (VMM_OK, if sched_priv (vs v) then vs(v := (vs v)\<lparr>sched_priv := False\<rparr>) else vs))"

definition vmm_schedalgo_rq_length :: "rq option \<Rightarrow> nat \<Rightarrow> int option" where
  "vmm_schedalgo_rq_length rqp p =
     (case rqp of
        None \<Rightarrow> Some (- 1)
      | Some r \<Rightarrow> if p < length r then Some (int (length (r ! p))) else None)"

definition vmm_schedalgo_rq_enqueue ::
  "(nat \<Rightarrow> vcpu) \<Rightarrow> rq option \<Rightarrow> nat option \<Rightarrow> (int \<times> rq option) option" where
  "vmm_schedalgo_rq_enqueue vs rqp vp =
     (case (rqp, vp) of
        (Some r, Some v) \<Rightarrow>
          if \<not> sched_priv (vs v) then Some (VMM_EFAIL, rqp)
          else let p = unat (priority (vs v))
               in if p < length r then Some (VMM_OK, Some (r[p := r ! p @ [v]])) else None
      | _ \<Rightarrow> Some (VMM_EFAIL, rqp))"

text \<open>\<^verbatim>\<open>while (p) { if (!list_empty(&rqi->list[p-1])) break; p--; }\<close>\<close>

fun rq_top :: "rq \<Rightarrow> nat \<Rightarrow> nat" where
  "rq_top r 0 = 0"
| "rq_top r (Suc p) = (if r ! p \<noteq> [] then Suc p else rq_top r p)"

definition vmm_schedalgo_rq_dequeue ::
  "(nat \<Rightarrow> vcpu) \<Rightarrow> rq option \<Rightarrow> (int \<times> (nat \<times> u64) option \<times> rq option) option" where
  "vmm_schedalgo_rq_dequeue vs rqp =
     (case rqp of
        None \<Rightarrow> Some (VMM_EFAIL, None, None)
      | Some r \<Rightarrow>
          if length r \<le> VMM_VCPU_MAX_PRIORITY then None
          else let p = rq_top r (VMM_VCPU_MAX_PRIORITY + 1)
               in if p = 0 then Some (VMM_ENOTAVAIL, None, rqp)
                  else let v = hd (r ! (p - 1))
                       in Some (VMM_OK, Some (v, time_slice (vs v)), Some (r[p - 1 := tl (r ! (p - 1))])))"

text \<open>
  \<^verbatim>\<open>list_del_init\<close> unlinks the entry from the list it is in, and does nothing to an unlinked entry.
\<close>

definition vmm_schedalgo_rq_detach ::
  "(nat \<Rightarrow> vcpu) \<Rightarrow> rq option \<Rightarrow> nat option \<Rightarrow> int \<times> rq option" where
  "vmm_schedalgo_rq_detach vs rqp vp =
     (case vp of
        None \<Rightarrow> (VMM_EFAIL, rqp)
      | Some v \<Rightarrow>
          if \<not> sched_priv (vs v) then (VMM_EFAIL, rqp)
          else (VMM_OK, map_option (map (remove1 v)) rqp))"

text \<open>\<^verbatim>\<open>while (p > current->priority) { if (!list_empty(&rqi->list[p])) ...; p--; }\<close>\<close>

fun rq_higher :: "rq \<Rightarrow> nat \<Rightarrow> nat \<Rightarrow> bool" where
  "rq_higher r 0 cur = False"
| "rq_higher r (Suc p) cur =
     (if Suc p > cur then (if r ! Suc p \<noteq> [] then True else rq_higher r p cur) else False)"

definition vmm_schedalgo_rq_prempt_needed :: "(nat \<Rightarrow> vcpu) \<Rightarrow> rq option \<Rightarrow> nat option \<Rightarrow> bool option" where
  "vmm_schedalgo_rq_prempt_needed vs rqp cur =
     (case (rqp, cur) of
        (Some r, Some v) \<Rightarrow>
          if length r \<le> VMM_VCPU_MAX_PRIORITY then None
          else Some (rq_higher r VMM_VCPU_MAX_PRIORITY (unat (priority (vs v))))
      | _ \<Rightarrow> Some False)"

definition vmm_schedalgo_rq_create :: "bool \<Rightarrow> rq option" where
  "vmm_schedalgo_rq_create have_mem =
     (if have_mem then Some (replicate (VMM_VCPU_MAX_PRIORITY + 1) []) else None)"

definition vmm_schedalgo_rq_destroy :: "rq option \<Rightarrow> int" where
  "vmm_schedalgo_rq_destroy rqp = (case rqp of Some r \<Rightarrow> VMM_OK | None \<Rightarrow> VMM_EFAIL)"

section \<open>The contract of a ready queue\<close>

text \<open>
  \<open>level q p\<close> is the list of elements waiting at priority \<open>p\<close>, \<open>ok v\<close> that \<open>v\<close> can be queued. Enqueue appends at the element's
  level, dequeue takes the first element of the highest level in use.
\<close>

locale ready_queue =
  fixes wf :: "'q \<Rightarrow> bool" and level :: "'q \<Rightarrow> nat \<Rightarrow> 'v list"
    and prio :: "'v \<Rightarrow> nat" and ok :: "'v \<Rightarrow> bool"
    and enq :: "'q \<Rightarrow> 'v \<Rightarrow> 'q" and deq :: "'q \<Rightarrow> ('v \<times> 'q) option" and higher :: "'q \<Rightarrow> nat \<Rightarrow> bool"
  assumes enq_wf: "wf q \<Longrightarrow> ok v \<Longrightarrow> wf (enq q v)"
    and enq_level: "wf q \<Longrightarrow> ok v \<Longrightarrow>
      level (enq q v) p = (if p = prio v then level q p @ [v] else level q p)"
    and deq_None: "wf q \<Longrightarrow> deq q = None \<longleftrightarrow> (\<forall>p. level q p = [])"
    and deq_Some: "wf q \<Longrightarrow> deq q = Some (v, q') \<Longrightarrow>
      wf q' \<and> (\<exists>p. level q p = v # level q' p \<and> (\<forall>p'. p' \<noteq> p \<longrightarrow> level q' p' = level q p') \<and>
        (\<forall>p' > p. level q p' = []))"
    and higher_iff: "wf q \<Longrightarrow> higher q c \<longleftrightarrow> (\<exists>p > c. level q p \<noteq> [])"
begin

definition sorted_levels :: "'q \<Rightarrow> bool" where
  "sorted_levels q \<longleftrightarrow> (\<forall>p v. v \<in> set (level q p) \<longrightarrow> prio v = p \<and> ok v)"

lemma deq_highest:
  assumes "wf q" and "sorted_levels q" and "deq q = Some (v, q')" and "w \<in> set (level q p)"
  shows "prio w \<le> prio v"
proof -
  obtain k where k: "level q k = v # level q' k" "\<forall>p' > k. level q p' = []"
    using deq_Some [OF assms(1,3)] by blast
  then have "prio v = k" using assms(2) by (metis list.set_intros(1) sorted_levels_def)
  moreover have "p \<le> k" using k(2) assms(4) by (metis list.set_cases list.distinct(1) not_le)
  moreover have "prio w = p" using assms(2,4) by (simp add: sorted_levels_def)
  ultimately show ?thesis by simp
qed

text \<open>Preemption is asked for exactly when dequeue would return something of higher priority.\<close>

lemma higher_deq:
  assumes "wf q" and "sorted_levels q"
  shows "higher q c \<longleftrightarrow> (\<exists>v q'. deq q = Some (v, q') \<and> c < prio v)"
proof
  assume "higher q c"
  then obtain p where p: "c < p" "level q p \<noteq> []" using higher_iff [OF assms(1)] by blast
  then obtain v q' where d: "deq q = Some (v, q')" using deq_None [OF assms(1)] by (metis option.exhaust surj_pair)
  obtain w where "w \<in> set (level q p)" using p(2) by (cases "level q p") auto
  then have "p \<le> prio v" using deq_highest [OF assms d] assms(2) by (metis sorted_levels_def)
  with d p(1) show "\<exists>v q'. deq q = Some (v, q') \<and> c < prio v" by auto
next
  assume "\<exists>v q'. deq q = Some (v, q') \<and> c < prio v"
  then obtain v q' where d: "deq q = Some (v, q')" "c < prio v" by blast
  obtain k where "level q k = v # level q' k" using deq_Some [OF assms(1) d(1)] by blast
  moreover from this have "prio v = k" using assms(2) by (metis list.set_intros(1) sorted_levels_def)
  ultimately show "higher q c" using higher_iff [OF assms(1)] d(2) by (metis list.distinct(1))
qed

text \<open>One round of the scheduler: take the first element and put it back.\<close>

fun rounds :: "nat \<Rightarrow> 'q \<Rightarrow> ('v list \<times> 'q) option" where
  "rounds 0 q = Some ([], q)"
| "rounds (Suc n) q = (case deq q of None \<Rightarrow> None
     | Some (v, q') \<Rightarrow> (case rounds n (enq q' v) of None \<Rightarrow> None | Some (vs, q'') \<Rightarrow> Some (v # vs, q'')))"

text \<open>Round robin: the elements of the highest level are served in turn.\<close>

lemma rounds_fair:
  assumes "wf q" and "sorted_levels q" and "level q k = xs @ ys" and "\<forall>p > k. level q p = []"
  shows "\<exists>q'. rounds (length xs) q = Some (xs, q') \<and> wf q' \<and> sorted_levels q' \<and> level q' k = ys @ xs \<and>
    (\<forall>p. p \<noteq> k \<longrightarrow> level q' p = level q p)"
  using assms
proof (induction xs arbitrary: q ys)
  case Nil
  then show ?case by simp
next
  case (Cons x xs)
  have "deq q \<noteq> None" using deq_None [OF Cons.prems(1)] Cons.prems(3) by (metis append_Cons list.distinct(1))
  then obtain v q1 where d: "deq q = Some (v, q1)" by (metis option.exhaust surj_pair)
  obtain p where p: "wf q1" "level q p = v # level q1 p" "\<forall>p'. p' \<noteq> p \<longrightarrow> level q1 p' = level q p'"
    "\<forall>p' > p. level q p' = []"
    using deq_Some [OF Cons.prems(1) d] by blast
  have "p = k" using p(2,4) Cons.prems(3,4)
    by (metis append_Cons list.distinct(1) linorder_neqE_nat)
  then have v: "v = x" and l1: "level q1 k = xs @ ys" using p(2) Cons.prems(3) by auto
  have px: "prio x = k" using Cons.prems(2,3) by (simp add: sorted_levels_def)
  let ?q2 = "enq q1 x"
  have le: "ok x" using Cons.prems(2,3) by (metis append_Cons list.set_intros(1) sorted_levels_def)
  have w2: "wf ?q2" by (rule enq_wf [OF p(1) le])
  have l2: "level ?q2 p' = (if p' = k then xs @ (ys @ [x]) else level q p')" for p'
    using enq_level [OF p(1) le, of p'] px l1 p(3) \<open>p = k\<close> by simp
  have s2: "sorted_levels ?q2"
    unfolding sorted_levels_def
  proof (intro allI impI)
    fix p' w assume w: "w \<in> set (level ?q2 p')"
    then have "w \<in> set (level q p')" using Cons.prems(3) by (auto simp: l2 split: if_splits)
    then show "prio w = p' \<and> ok w" using Cons.prems(2) by (simp add: sorted_levels_def)
  qed
  have e2: "\<forall>p > k. level ?q2 p = []" using Cons.prems(4) by (simp add: l2)
  from Cons.IH [OF w2 s2 _ e2, of "ys @ [x]"] l2 obtain q' where
    q': "rounds (length xs) ?q2 = Some (xs, q')" "wf q'" "sorted_levels q'" "level q' k = ys @ x # xs"
      "\<forall>p. p \<noteq> k \<longrightarrow> level q' p = level ?q2 p"
    by auto
  with d v l2 show ?case by auto
qed

end

section \<open>The code fulfils the contract\<close>

definition rq_wf :: "rq \<Rightarrow> bool" where
  "rq_wf r \<longleftrightarrow> length r = VMM_VCPU_MAX_PRIORITY + 1"

definition rq_level :: "rq \<Rightarrow> nat \<Rightarrow> nat list" where
  "rq_level r p = (if p < length r then r ! p else [])"

definition rq_prio :: "(nat \<Rightarrow> vcpu) \<Rightarrow> nat \<Rightarrow> nat" where
  "rq_prio vs v = unat (priority (vs v))"

definition rq_ok :: "(nat \<Rightarrow> vcpu) \<Rightarrow> nat \<Rightarrow> bool" where
  "rq_ok vs v \<longleftrightarrow> sched_priv (vs v) \<and> rq_prio vs v \<le> VMM_VCPU_MAX_PRIORITY"

definition rq_enq :: "(nat \<Rightarrow> vcpu) \<Rightarrow> rq \<Rightarrow> nat \<Rightarrow> rq" where
  "rq_enq vs r v = (case vmm_schedalgo_rq_enqueue vs (Some r) (Some v) of Some (rc, Some r') \<Rightarrow> r' | _ \<Rightarrow> r)"

definition rq_deq :: "(nat \<Rightarrow> vcpu) \<Rightarrow> rq \<Rightarrow> (nat \<times> rq) option" where
  "rq_deq vs r = (case vmm_schedalgo_rq_dequeue vs (Some r) of
      Some (rc, Some (v, ts), Some r') \<Rightarrow> Some (v, r') | _ \<Rightarrow> None)"

definition rq_wants :: "rq \<Rightarrow> nat \<Rightarrow> bool" where
  "rq_wants r c = rq_higher r VMM_VCPU_MAX_PRIORITY c"

lemma rq_enqueue_ok:
  assumes "rq_wf r" and "rq_ok vs v"
  shows "vmm_schedalgo_rq_enqueue vs (Some r) (Some v) = Some (VMM_OK, Some (rq_enq vs r v))"
  using assms by (simp add: rq_enq_def vmm_schedalgo_rq_enqueue_def rq_ok_def rq_wf_def rq_prio_def Let_def)

lemma rq_enq_level:
  assumes "rq_wf r" and "rq_ok vs v"
  shows "rq_wf (rq_enq vs r v)"
    and "rq_level (rq_enq vs r v) p = (if p = rq_prio vs v then rq_level r p @ [v] else rq_level r p)"
  using assms
  by (auto simp: rq_enq_def vmm_schedalgo_rq_enqueue_def rq_ok_def rq_wf_def rq_prio_def rq_level_def
      Let_def nth_list_update)

lemma rq_top_spec:
  "rq_top r n = 0 \<and> (\<forall>p < n. r ! p = []) \<or>
   (\<exists>p. rq_top r n = Suc p \<and> p < n \<and> r ! p \<noteq> [] \<and> (\<forall>p'. p < p' \<and> p' < n \<longrightarrow> r ! p' = []))"
proof (induction n)
  case (Suc n)
  then show ?case by (auto simp: less_Suc_eq)
qed simp

lemma rq_dequeue_cases:
  assumes "rq_wf r"
  obtains (empty) "vmm_schedalgo_rq_dequeue vs (Some r) = Some (VMM_ENOTAVAIL, None, Some r)"
      "\<forall>p. rq_level r p = []" "rq_deq vs r = None"
  | (first) p v r' where "vmm_schedalgo_rq_dequeue vs (Some r) = Some (VMM_OK, Some (v, time_slice (vs v)), Some r')"
      "rq_deq vs r = Some (v, r')" "rq_wf r'" "rq_level r p = v # rq_level r' p"
      "\<forall>p'. p' \<noteq> p \<longrightarrow> rq_level r' p' = rq_level r p'" "\<forall>p' > p. rq_level r p' = []"
proof -
  have len: "length r = 8" using assms by (simp add: rq_wf_def)
  from rq_top_spec [of r 8] show ?thesis
  proof (elim disjE exE conjE)
    assume z: "rq_top r 8 = 0" and "\<forall>p < 8. r ! p = []"
    then show ?thesis
      using len by (intro empty) (simp_all add: vmm_schedalgo_rq_dequeue_def rq_deq_def rq_level_def)
  next
    fix p assume t: "rq_top r 8 = Suc p" "p < 8" "r ! p \<noteq> []" "\<forall>p'. p < p' \<and> p' < 8 \<longrightarrow> r ! p' = []"
    show ?thesis
      using t len
      by (intro first [of "hd (r ! p)" "r[p := tl (r ! p)]" p])
        (auto simp: vmm_schedalgo_rq_dequeue_def rq_deq_def rq_level_def rq_wf_def Let_def nth_list_update)
  qed
qed

lemma rq_higher_iff: "n < length r \<Longrightarrow> rq_higher r n c \<longleftrightarrow> (\<exists>p. c < p \<and> p \<le> n \<and> r ! p \<noteq> [])"
proof (induction n)
  case (Suc n)
  then show ?case by (auto simp: le_Suc_eq)
qed simp

interpretation prr: ready_queue rq_wf rq_level "rq_prio vs" "rq_ok vs" "rq_enq vs" "rq_deq vs" rq_wants
  for vs :: "nat \<Rightarrow> vcpu"
proof (unfold_locales, goal_cases)
  case (1 r v)
  then show ?case by (rule rq_enq_level(1))
next
  case (2 r v p)
  then show ?case by (rule rq_enq_level(2))
next
  case (3 r)
  from this show ?case
  proof (cases rule: rq_dequeue_cases [of r vs])
    case (first p v r')
    then show ?thesis by (metis list.distinct(1) option.distinct(1))
  qed simp
next
  case (4 r v r')
  from 4(1) show ?case
  proof (cases rule: rq_dequeue_cases [of r vs])
    case (first p w r1)
    then have "w = v" "r1 = r'" using 4(2) by auto
    with first show ?thesis by blast
  qed (use 4(2) in simp)
next
  case (5 r c)
  then have l: "length r = 8" by (simp add: rq_wf_def)
  have "rq_wants r c \<longleftrightarrow> (\<exists>p. c < p \<and> p \<le> 7 \<and> r ! p \<noteq> [])"
    using rq_higher_iff [of 7 r c] l by (simp add: rq_wants_def)
  moreover have "rq_level r p \<noteq> [] \<longleftrightarrow> p \<le> 7 \<and> r ! p \<noteq> []" for p
    using l by (simp add: rq_level_def less_Suc_eq_le [symmetric])
  ultimately show ?case by blast
qed

section \<open>Properties\<close>

text \<open>
  Property C32: dequeue of the ready queue never fails on a non-empty queue and returns the VCPU that
  waits longest among those of the highest priority, with its own time slice; preemption of a VCPU
  is asked for exactly when that VCPU has a strictly higher priority.
\<close>
theorem schedalgo_highest_priority_first:
  assumes "rq_wf r" and "\<forall>p v. v \<in> set (rq_level r p) \<longrightarrow> rq_prio vs v = p \<and> rq_ok vs v"
    and "w \<in> set (rq_level r p)"
  shows "\<exists>v r'. vmm_schedalgo_rq_dequeue vs (Some r) = Some (VMM_OK, Some (v, time_slice (vs v)), Some r') \<and>
    rq_wf r' \<and> rq_prio vs w \<le> rq_prio vs v \<and>
    rq_level r (rq_prio vs v) = v # rq_level r' (rq_prio vs v) \<and>
    (\<forall>p'. p' \<noteq> rq_prio vs v \<longrightarrow> rq_level r' p' = rq_level r p') \<and>
    (\<forall>c. vmm_schedalgo_rq_prempt_needed vs (Some r) (Some c) = Some (rq_prio vs c < rq_prio vs v))"
  using assms(1)
proof (cases rule: rq_dequeue_cases [of r vs])
  case empty
  with assms(3) show ?thesis by simp
next
  case (first p v r')
  have s: "prr.sorted_levels vs r" using assms(2) by (simp add: prr.sorted_levels_def)
  have "rq_prio vs v = p" using assms(2) first(4) by (metis list.set_intros(1))
  moreover have "rq_prio vs w \<le> rq_prio vs v"
    using prr.deq_highest [OF assms(1) s first(2) assms(3)] .
  moreover have "vmm_schedalgo_rq_prempt_needed vs (Some r) (Some c) = Some (rq_prio vs c < rq_prio vs v)" for c
    using prr.higher_deq [OF assms(1) s, of "rq_prio vs c"] first(2) assms(1)
    by (simp add: vmm_schedalgo_rq_prempt_needed_def rq_wants_def rq_wf_def rq_prio_def)
  ultimately show ?thesis using first by auto
qed

definition example_vcpu :: vcpu where
  "example_vcpu = \<lparr>is_normal = True, hcpu = 0, cpu_affinity = {0, 1}, vstate = VMM_VCPU_STATE_READY,
     state_tstamp = 0, state_ready_nsecs = 0, state_running_nsecs = 0, state_paused_nsecs = 0,
     state_halted_nsecs = 0, system_nsecs = 0, reset_count = 0, reset_tstamp = 0, preempt_count = 0,
     resumed = False, sched_priv = True, priority = 3, time_slice = 1000, deadline = 1000, periodicity = 1000,
     irqs = \<lparr>irq_count = 0, irq = None, execute_pending = 0, assert_count = 0, execute_count = 0,
       clear_count = 0, deassert_count = 0, wfi_yield_count = 0, wfi_state = False, wfi_priv = False\<rparr>,
     wq_lock = None, wq_priv = None, wq_cleanup = False, vres = []\<rparr>"

definition example_rq :: rq where
  "example_rq = [[], [], [], [4, 5], [], [9], [], []]"

definition example_vcpus :: "nat \<Rightarrow> vcpu" where
  "example_vcpus v = (if v = 9 then example_vcpu\<lparr>priority := 5\<rparr> else example_vcpu)"

lemma example_rq_levels:
  "rq_wf example_rq" "\<forall>p v. v \<in> set (rq_level example_rq p) \<longrightarrow> rq_prio example_vcpus v = p \<and> rq_ok example_vcpus v"
  by (auto simp: example_rq_def rq_wf_def rq_level_def rq_prio_def rq_ok_def example_vcpus_def
      example_vcpu_def nth_Cons' split: if_splits)

theorem schedalgo_highest_priority_first_witness:
  "\<exists>v r'. vmm_schedalgo_rq_dequeue example_vcpus (Some example_rq) =
      Some (VMM_OK, Some (v, time_slice (example_vcpus v)), Some r') \<and> rq_prio example_vcpus 4 \<le> rq_prio example_vcpus v"
proof -
  have "4 \<in> set (rq_level example_rq 3)" by (simp add: rq_level_def example_rq_def)
  from schedalgo_highest_priority_first [OF example_rq_levels this] show ?thesis by blast
qed

text \<open>
  Further fact: round robin. When the VCPUs \<open>xs\<close> are at the head of the highest level in use, taking and
  re-queueing the first VCPU \<open>length xs\<close> times serves each of them once, in order, and puts them
  behind the others of their level; no other level changes. (\<open>prr.rounds\<close> iterates
  \<^verbatim>\<open>vmm_schedalgo_rq_dequeue\<close> and \<^verbatim>\<open>vmm_schedalgo_rq_enqueue\<close>.)
\<close>
theorem schedalgo_round_robin:
  assumes "rq_wf r" and "\<forall>p v. v \<in> set (rq_level r p) \<longrightarrow> rq_prio vs v = p \<and> rq_ok vs v"
    and "rq_level r k = xs @ ys" and "\<forall>p > k. rq_level r p = []"
  shows "\<exists>r'. prr.rounds vs (length xs) r = Some (xs, r') \<and> rq_wf r' \<and> rq_level r' k = ys @ xs \<and>
    (\<forall>p. p \<noteq> k \<longrightarrow> rq_level r' p = rq_level r p)"
proof -
  have s: "prr.sorted_levels vs r" using assms(2) by (simp add: prr.sorted_levels_def)
  from prr.rounds_fair [OF assms(1) s assms(3,4)] show ?thesis by blast
qed

theorem schedalgo_round_robin_witness:
  "\<exists>r'. prr.rounds example_vcpus 1 example_rq = Some ([9], r') \<and> rq_level r' 5 = [9] \<and> rq_level r' 3 = [4, 5]"
proof -
  have l: "rq_level example_rq 5 = [9] @ []" and e: "\<forall>p > 5. rq_level example_rq p = []"
    by (auto simp: rq_level_def example_rq_def nth_Cons')
  from schedalgo_round_robin [OF example_rq_levels l e] obtain r' where
    r': "prr.rounds example_vcpus 1 example_rq = Some ([9], r')" "rq_level r' 5 = [9]"
      "\<forall>p. p \<noteq> 5 \<longrightarrow> rq_level r' p = rq_level example_rq p"
    by auto
  moreover have "rq_level example_rq 3 = [4, 5]" by (simp add: rq_level_def example_rq_def)
  ultimately show ?thesis by (intro exI [of _ r']) simp
qed

text \<open>
  Further fact: detaching a VCPU takes it out of the queue whatever its priority and keeps the order of
  all others.
\<close>
theorem schedalgo_detach_removes:
  assumes "rq_wf r" and "sched_priv (vs v)" and "\<forall>p. distinct (rq_level r p)"
  shows "\<exists>r'. vmm_schedalgo_rq_detach vs (Some r) (Some v) = (VMM_OK, Some r') \<and> rq_wf r' \<and>
    (\<forall>p. rq_level r' p = filter (\<lambda>w. w \<noteq> v) (rq_level r p))"
proof -
  have "remove1 v (rq_level r p) = filter (\<lambda>w. w \<noteq> v) (rq_level r p)" for p
    using assms(3) by (simp add: distinct_remove1_removeAll removeAll_filter_not_eq) (metis (mono_tags) filter_cong)
  moreover have "rq_level (map (remove1 v) r) p = remove1 v (rq_level r p)" for p
    by (simp add: rq_level_def)
  ultimately show ?thesis
    using assms(1,2) by (simp add: vmm_schedalgo_rq_detach_def rq_wf_def)
qed

theorem schedalgo_detach_removes_witness:
  "\<exists>r'. vmm_schedalgo_rq_detach example_vcpus (Some example_rq) (Some 4) = (VMM_OK, Some r') \<and> rq_wf r' \<and>
    (\<forall>p. rq_level r' p = filter (\<lambda>w. w \<noteq> 4) (rq_level example_rq p))"
  by (rule schedalgo_detach_removes [OF example_rq_levels(1)])
    (auto simp: example_vcpus_def example_vcpu_def rq_level_def example_rq_def nth_Cons')

end
