(* ===== verification/Sched_State.thy ===== *)
theory Sched_State
  imports Timer Schedalgo
begin

text \<open>
  The state the scheduler, the wait queues and the virtual interrupts share: the timer system extended
  by the VCPUs, the per-CPU scheduler control of \<^verbatim>\<open>core/vmm_scheduler.c\<close>, the wait queues of
  \<^verbatim>\<open>core/vmm_waitqueue.c\<close>, and what leaves the model: inter-processor calls waiting at their target CPU and
  the trace of context switches handed to the architecture.

  The timer events of this part of the core are the per-CPU scheduler and sampling events, the timeout
  of a sleeping VCPU and the wait-for-interrupt timeout of a VCPU.

  Also here are the wait-queue clean-up that the scheduler calls back, and the preemption counter that
  every spin lock moves.
\<close>

datatype ev_id = Ev_sched nat | Ev_sample nat | Ev_wake nat | Ev_wfi nat

record waitqueue =
  wq_vcpu_list :: "nat list"
  wq_vcpu_count :: u32

text \<open>
  \<open>rq_resched_triggered\<close> is \<^verbatim>\<open>rq_resched_state == VMM_SCHEDULER_RESCHED_TRIGGERED\<close>; \<open>irq_regs\<close> says that the
  register pointer is not NULL.
\<close>

record sched_ctrl =
  srq :: "rq option"
  rq_resched_triggered :: bool
  current_vcpu_irq_ns :: u64
  current_vcpu_exp_ns :: u64
  current_vcpu :: "nat option"
  idle_vcpu :: "nat option"
  irq_context :: bool
  irq_regs :: bool
  irq_enter_tstamp :: u64
  irq_process_ns :: u64
  exp_process_ns :: u64
  yield_on_irq_exit :: bool
  sample_period_ns :: u64
  sample_idle_ns :: u64
  sample_idle_last_ns :: u64
  sample_irq_ns :: u64
  sample_irq_last_ns :: u64

text \<open>The calls that \<^verbatim>\<open>vmm_smp_ipi_sync_call\<close> and \<^verbatim>\<open>vmm_smp_ipi_async_call\<close> send to another CPU.\<close>

datatype ipi =
    Ipi_resched
  | Ipi_time_sync
  | Ipi_migrate nat nat
  | Ipi_wfi_resume nat bool

record sched_sys = "ev_id timer_sys" +
  vcpus :: "nat \<Rightarrow> vcpu"
  sched :: "nat \<Rightarrow> sched_ctrl"
  wqs :: "nat \<Rightarrow> waitqueue"
  cpu_online :: "nat \<Rightarrow> bool"
  ipis :: "nat \<Rightarrow> ipi list"
  switches :: "(nat \<times> nat option \<times> nat) list"
  arch_calls :: nat

text \<open>
  The platform: the number of host CPUs and the architecture's callbacks, which are hardware or
  assembly. A callback that may answer differently each time also gets the number of such calls made
  before.
\<close>

record arch_ops =
  cpu_count :: nat
  arch_vcpu_init :: "nat \<Rightarrow> nat \<Rightarrow> int"
  arch_vcpu_irq_count :: "nat \<Rightarrow> u32"
  arch_vcpu_irq_priority :: "nat \<Rightarrow> nat \<Rightarrow> u32"
  arch_vcpu_irq_assert :: "nat \<Rightarrow> nat \<Rightarrow> nat \<Rightarrow> int"
  arch_vcpu_irq_execute :: "nat \<Rightarrow> nat \<Rightarrow> nat \<Rightarrow> int"
  arch_vcpu_irq_clear :: "nat \<Rightarrow> nat \<Rightarrow> nat \<Rightarrow> int"
  arch_vcpu_irq_deassert :: "nat \<Rightarrow> nat \<Rightarrow> nat \<Rightarrow> int"
  arch_vcpu_irq_pending :: "nat \<Rightarrow> nat \<Rightarrow> bool"
  arch_vcpu_irq_can_execute_multiple :: "nat \<Rightarrow> bool"
  have_memory :: "nat \<Rightarrow> bool"

definition upd_vcpu :: "nat \<Rightarrow> (vcpu \<Rightarrow> vcpu) \<Rightarrow> sched_sys \<Rightarrow> sched_sys" where
  "upd_vcpu v f s = s\<lparr>vcpus := (vcpus s)(v := f (vcpus s v))\<rparr>"

definition upd_sched :: "nat \<Rightarrow> (sched_ctrl \<Rightarrow> sched_ctrl) \<Rightarrow> sched_sys \<Rightarrow> sched_sys" where
  "upd_sched c f s = s\<lparr>sched := (sched s)(c := f (sched s c))\<rparr>"

definition upd_wq :: "nat \<Rightarrow> (waitqueue \<Rightarrow> waitqueue) \<Rightarrow> sched_sys \<Rightarrow> sched_sys" where
  "upd_wq q f s = s\<lparr>wqs := (wqs s)(q := f (wqs s q))\<rparr>"

text \<open>A fallible architecture callback: its answer and the state with the call counted.\<close>

definition arch_call :: "(nat \<Rightarrow> 'a) \<Rightarrow> sched_sys \<Rightarrow> 'a \<times> sched_sys" where
  "arch_call f s = (f (arch_calls s), s\<lparr>arch_calls := Suc (arch_calls s)\<rparr>)"

section \<open>Preemption counter\<close>

definition vmm_scheduler_preempt_disable :: "nat \<Rightarrow> sched_sys \<Rightarrow> sched_sys" where
  "vmm_scheduler_preempt_disable cpu s =
     (if \<not> irq_context (sched s cpu) then
        (case current_vcpu (sched s cpu) of
           Some v \<Rightarrow> upd_vcpu v (\<lambda>x. x\<lparr>preempt_count := preempt_count x + 1\<rparr>) s
         | None \<Rightarrow> s)
      else s)"

definition vmm_scheduler_preempt_enable :: "nat \<Rightarrow> sched_sys \<Rightarrow> sched_sys" where
  "vmm_scheduler_preempt_enable cpu s =
     (if \<not> irq_context (sched s cpu) then
        (case current_vcpu (sched s cpu) of
           Some v \<Rightarrow>
             if preempt_count (vcpus s v) \<noteq> 0
             then upd_vcpu v (\<lambda>x. x\<lparr>preempt_count := preempt_count x - 1\<rparr>) s else s
         | None \<Rightarrow> s)
      else s)"

section \<open>Wait-queue clean-up\<close>

definition waitqueue_cleanup :: "nat \<Rightarrow> sched_sys \<Rightarrow> sched_sys" where
  "waitqueue_cleanup v s =
     (case wq_priv (vcpus s v) of
        None \<Rightarrow> s
      | Some (q, ev) \<Rightarrow>
          let s1 = (if ev then snd (vmm_timer_event_stop (Some (Ev_wake v)) s) else s);
              s2 = upd_wq q (\<lambda>w. w\<lparr>wq_vcpu_list := remove1 v (wq_vcpu_list w),
                                  wq_vcpu_count := (if wq_vcpu_count w \<noteq> 0 then wq_vcpu_count w - 1
                                                    else wq_vcpu_count w)\<rparr>) s1
          in upd_vcpu v (\<lambda>x. x\<lparr>wq_cleanup := False\<rparr>) s2)"

text \<open>\<^verbatim>\<open>if (vcpu->wq_cleanup) vcpu->wq_cleanup(vcpu);\<close>\<close>

definition call_wq_cleanup :: "nat \<Rightarrow> sched_sys \<Rightarrow> sched_sys" where
  "call_wq_cleanup v s = (if wq_cleanup (vcpus s v) then waitqueue_cleanup v s else s)"

section \<open>Frames\<close>

lemma upd_vcpu_simps [simp]:
  "vcpus (upd_vcpu v f s) x = (if x = v then f (vcpus s v) else vcpus s x)"
  "sched (upd_vcpu v f s) = sched s" "wqs (upd_vcpu v f s) = wqs s" "ipis (upd_vcpu v f s) = ipis s"
  "switches (upd_vcpu v f s) = switches s" "tlc (upd_vcpu v f s) = tlc s" "events (upd_vcpu v f s) = events s"
  "cpu_online (upd_vcpu v f s) = cpu_online s" "arch_calls (upd_vcpu v f s) = arch_calls s"
  by (simp_all add: upd_vcpu_def)

lemma upd_sched_simps [simp]:
  "sched (upd_sched c f s) x = (if x = c then f (sched s c) else sched s x)"
  "vcpus (upd_sched c f s) = vcpus s" "wqs (upd_sched c f s) = wqs s" "ipis (upd_sched c f s) = ipis s"
  "switches (upd_sched c f s) = switches s" "tlc (upd_sched c f s) = tlc s" "events (upd_sched c f s) = events s"
  "cpu_online (upd_sched c f s) = cpu_online s" "arch_calls (upd_sched c f s) = arch_calls s"
  by (simp_all add: upd_sched_def)

lemma upd_wq_simps [simp]:
  "wqs (upd_wq q f s) x = (if x = q then f (wqs s q) else wqs s x)"
  "vcpus (upd_wq q f s) = vcpus s" "sched (upd_wq q f s) = sched s" "ipis (upd_wq q f s) = ipis s"
  "switches (upd_wq q f s) = switches s" "tlc (upd_wq q f s) = tlc s" "events (upd_wq q f s) = events s"
  "cpu_online (upd_wq q f s) = cpu_online s" "arch_calls (upd_wq q f s) = arch_calls s"
  by (simp_all add: upd_wq_def)

text \<open>
  \<open>sched_part\<close> is what the timer operations leave alone: everything of the extension.
\<close>

lemma sched_part_eq:
  fixes s s' :: sched_sys
  assumes "timer_sys.more s' = timer_sys.more s"
  shows "vcpus s' = vcpus s" "sched s' = sched s" "wqs s' = wqs s" "cpu_online s' = cpu_online s"
    "ipis s' = ipis s" "switches s' = switches s" "arch_calls s' = arch_calls s"
  using assms by (cases s, cases s', simp)+

lemma upd_event_part [simp]:
  fixes s :: sched_sys
  shows "vcpus (upd_event e f s) = vcpus s" "sched (upd_event e f s) = sched s"
    "wqs (upd_event e f s) = wqs s" "cpu_online (upd_event e f s) = cpu_online s"
    "ipis (upd_event e f s) = ipis s" "switches (upd_event e f s) = switches s"
    "arch_calls (upd_event e f s) = arch_calls s"
  by (rule sched_part_eq; simp)+

lemma timestamp_part [simp]:
  fixes s :: sched_sys
  shows "vcpus (snd (vmm_timer_timestamp c s)) = vcpus s" "sched (snd (vmm_timer_timestamp c s)) = sched s"
    "wqs (snd (vmm_timer_timestamp c s)) = wqs s" "cpu_online (snd (vmm_timer_timestamp c s)) = cpu_online s"
    "ipis (snd (vmm_timer_timestamp c s)) = ipis s" "switches (snd (vmm_timer_timestamp c s)) = switches s"
    "arch_calls (snd (vmm_timer_timestamp c s)) = arch_calls s"
  by (rule sched_part_eq; simp)+

lemma start2_more: "timer_sys.more (snd (snd (vmm_timer_event_start2 c e d s))) = timer_sys.more s"
  by (cases e) (simp_all add: start2_unfold case_prod_beta start_event_def Let_def vmm_timer_event_start2_def [of _ None])

lemma start_part [simp]:
  fixes s :: sched_sys
  shows "vcpus (snd (vmm_timer_event_start c e d s)) = vcpus s" "sched (snd (vmm_timer_event_start c e d s)) = sched s"
    "wqs (snd (vmm_timer_event_start c e d s)) = wqs s"
    "cpu_online (snd (vmm_timer_event_start c e d s)) = cpu_online s"
    "ipis (snd (vmm_timer_event_start c e d s)) = ipis s"
    "switches (snd (vmm_timer_event_start c e d s)) = switches s"
    "arch_calls (snd (vmm_timer_event_start c e d s)) = arch_calls s"
  by (rule sched_part_eq; simp add: vmm_timer_event_start_def case_prod_beta start2_more)+

lemma restart_part [simp]:
  fixes s :: sched_sys
  shows "vcpus (snd (vmm_timer_event_restart c e s)) = vcpus s" "sched (snd (vmm_timer_event_restart c e s)) = sched s"
    "wqs (snd (vmm_timer_event_restart c e s)) = wqs s"
    "cpu_online (snd (vmm_timer_event_restart c e s)) = cpu_online s"
    "ipis (snd (vmm_timer_event_restart c e s)) = ipis s"
    "switches (snd (vmm_timer_event_restart c e s)) = switches s"
    "arch_calls (snd (vmm_timer_event_restart c e s)) = arch_calls s"
  by (cases e; simp add: vmm_timer_event_restart_def)+

lemma stop_part [simp]:
  fixes s :: sched_sys
  shows "vcpus (snd (vmm_timer_event_stop e s)) = vcpus s" "sched (snd (vmm_timer_event_stop e s)) = sched s"
    "wqs (snd (vmm_timer_event_stop e s)) = wqs s" "cpu_online (snd (vmm_timer_event_stop e s)) = cpu_online s"
    "ipis (snd (vmm_timer_event_stop e s)) = ipis s" "switches (snd (vmm_timer_event_stop e s)) = switches s"
    "arch_calls (snd (vmm_timer_event_stop e s)) = arch_calls s"
  by (rule sched_part_eq; cases e; simp add: vmm_timer_event_stop_def)+

text \<open>Scheduler updates leave the timers alone.\<close>

lemma timer_inv_upd [simp]:
  "timer_inv (upd_vcpu v f s) = timer_inv s" "timer_inv (upd_sched c g s) = timer_inv s"
  "timer_inv (upd_wq q h s) = timer_inv s"
  by (simp_all add: timer_inv_def expiry_def [abs_def])

lemma waitqueue_cleanup_part [simp]:
  "sched (waitqueue_cleanup v s) = sched s" "ipis (waitqueue_cleanup v s) = ipis s"
  "switches (waitqueue_cleanup v s) = switches s" "cpu_online (waitqueue_cleanup v s) = cpu_online s"
  by (simp_all add: waitqueue_cleanup_def Let_def split: option.splits)

lemma waitqueue_cleanup_vcpus:
  "vcpus (waitqueue_cleanup v s) x =
     (if x = v \<and> wq_priv (vcpus s v) \<noteq> None then (vcpus s v)\<lparr>wq_cleanup := False\<rparr> else vcpus s x)"
  by (simp add: waitqueue_cleanup_def Let_def split: option.splits)

lemma waitqueue_cleanup_inv: "timer_inv s \<Longrightarrow> timer_inv (waitqueue_cleanup v s)"
  by (auto simp: waitqueue_cleanup_def Let_def event_stop_inv split: option.splits)

lemma call_wq_cleanup_part [simp]:
  "sched (call_wq_cleanup v s) = sched s" "ipis (call_wq_cleanup v s) = ipis s"
  "switches (call_wq_cleanup v s) = switches s" "cpu_online (call_wq_cleanup v s) = cpu_online s"
  by (simp_all add: call_wq_cleanup_def)

lemma call_wq_cleanup_vcpus:
  "vcpus (call_wq_cleanup v s) x = (vcpus s x)\<lparr>wq_cleanup := wq_cleanup (vcpus (call_wq_cleanup v s) x)\<rparr>"
  by (simp add: call_wq_cleanup_def waitqueue_cleanup_vcpus)

lemma call_wq_cleanup_inv: "timer_inv s \<Longrightarrow> timer_inv (call_wq_cleanup v s)"
  by (simp add: call_wq_cleanup_def waitqueue_cleanup_inv)

end
