(* ===== verification/Vcpu_irq.thy ===== *)
theory Vcpu_irq
  imports Sched_State
begin

text \<open>
  Virtual interrupts of a VCPU, \<^verbatim>\<open>core/vmm_vcpu_irq.c\<close>, the part that does not call the scheduler: the
  assert state of every line, the count of pending executions, the choice of the interrupt to
  inject, and initialisation. Waiting for interrupts is in theory \<open>Vcpu_wfi\<close>.

  \<^verbatim>\<open>__\<close> and \<^verbatim>\<open>static\<close> names are kept without the underscores. A result \<^const>\<open>None\<close> is an access outside the
  array of lines (or through a NULL array), a \<^verbatim>\<open>BUG_ON\<close>, or a loop that does not end.
\<close>

section \<open>Lines\<close>

definition irq_at :: "nat \<Rightarrow> nat \<Rightarrow> sched_sys \<Rightarrow> vcpu_irq option" where
  "irq_at v n s = do {
     l \<leftarrow> irq (irqs (vcpus s v));
     if n < length l then Some (l ! n) else None }"

definition upd_irqs :: "nat \<Rightarrow> (vcpu_irqs \<Rightarrow> vcpu_irqs) \<Rightarrow> sched_sys \<Rightarrow> sched_sys" where
  "upd_irqs v f s = upd_vcpu v (\<lambda>x. x\<lparr>irqs := f (irqs x)\<rparr>) s"

definition upd_irq :: "nat \<Rightarrow> nat \<Rightarrow> (vcpu_irq \<Rightarrow> vcpu_irq) \<Rightarrow> sched_sys \<Rightarrow> sched_sys" where
  "upd_irq v n f s =
     upd_irqs v (\<lambda>x. x\<lparr>irq := map_option (\<lambda>l. l[n := f (l ! n)]) (irq x)\<rparr>) s"

section \<open>Execution\<close>

text \<open>
  The search of \<^verbatim>\<open>vcpu_irq_process_one\<close>: the asserted line of highest priority, the first one among
  equals; a line of priority 0 is never chosen.
\<close>

fun irq_pick :: "(nat \<Rightarrow> u32) \<Rightarrow> vcpu_irq list \<Rightarrow> nat \<Rightarrow> nat \<Rightarrow> nat option \<Rightarrow> u32 \<Rightarrow> nat option option" where
  "irq_pick pr l i 0 irq_no irq_prio = Some irq_no"
| "irq_pick pr l i (Suc n) irq_no irq_prio =
     (if length l \<le> i then None
      else if irq_assert (l ! i) = ASSERTED \<and> pr i > irq_prio
      then irq_pick pr l (Suc i) n (Some i) (pr i)
      else irq_pick pr l (Suc i) n irq_no irq_prio)"

definition vcpu_irq_process_one :: "arch_ops \<Rightarrow> nat \<Rightarrow> sched_sys \<Rightarrow> (bool \<times> sched_sys) option" where
  "vcpu_irq_process_one A v s =
     (if execute_pending (irqs (vcpus s v)) > 0 then do {
        let s1 = upd_irqs v (\<lambda>x. x\<lparr>execute_pending := execute_pending x - 1\<rparr>) s;
        l \<leftarrow> (if irq_count (irqs (vcpus s v)) = 0 then Some [] else irq (irqs (vcpus s v)));
        r \<leftarrow> irq_pick (arch_vcpu_irq_priority A v) l 0 (unat (irq_count (irqs (vcpus s v)))) None 0;
        (case r of
           None \<Rightarrow> Some (False, s1)
         | Some n \<Rightarrow>
             let (rc, s2) = arch_call (\<lambda>k. arch_vcpu_irq_execute A k v n) s1
             in if rc = VMM_OK
                then Some (True, upd_irqs v (\<lambda>x. x\<lparr>execute_count := execute_count x + 1\<rparr>)
                                   (upd_irq v n (\<lambda>q. q\<lparr>irq_assert := DEASSERTED\<rparr>) s2))
                else Some (True, upd_irqs v (\<lambda>x. x\<lparr>execute_pending := execute_pending x + 1\<rparr>)
                                   (upd_irq v n (\<lambda>q. q\<lparr>irq_assert := ASSERTED\<rparr>) s2))) }
      else Some (False, s))"

partial_function (option) irq_process_all :: "arch_ops \<Rightarrow> nat \<Rightarrow> sched_sys \<Rightarrow> sched_sys option" where
  "irq_process_all A v s =
     Option.bind (vcpu_irq_process_one A v s) (\<lambda>r. if fst r then irq_process_all A v (snd r) else Some (snd r))"

definition vmm_vcpu_irq_process :: "arch_ops \<Rightarrow> nat option \<Rightarrow> sched_sys \<Rightarrow> sched_sys option" where
  "vmm_vcpu_irq_process A vp s =
     (case vp of
        None \<Rightarrow> Some s
      | Some v \<Rightarrow>
          if \<not> is_normal (vcpus s v) then Some s
          else if \<not> in_mask (vstate (vcpus s v)) VMM_VCPU_STATE_INTERRUPTIBLE then Some s
          else if arch_vcpu_irq_can_execute_multiple A v then irq_process_all A v s
          else map_option snd (vcpu_irq_process_one A v s))"

section \<open>Assert, clear and deassert\<close>

text \<open>
  \<^verbatim>\<open>vmm_vcpu_irq_assert\<close> up to the wake-up: whether the line was raised, and the state.
\<close>

definition irq_assert_line ::
  "arch_ops \<Rightarrow> nat option \<Rightarrow> nat \<Rightarrow> u64 \<Rightarrow> sched_sys \<Rightarrow> (bool \<times> sched_sys) option" where
  "irq_assert_line A vp n reason s =
     (case vp of
        None \<Rightarrow> Some (False, s)
      | Some v \<Rightarrow>
          if \<not> is_normal (vcpus s v) then Some (False, s)
          else if \<not> in_mask (vstate (vcpus s v)) VMM_VCPU_STATE_INTERRUPTIBLE then Some (False, s)
          else if n > unat (irq_count (irqs (vcpus s v))) then Some (False, s)
          else do {
            q \<leftarrow> irq_at v n s;
            if irq_assert q = DEASSERTED then
              let s1 = upd_irq v n (\<lambda>q. q\<lparr>irq_assert := ASSERTED\<rparr>) s;
                  (rc, s2) = arch_call (\<lambda>k. arch_vcpu_irq_assert A k v n) s1
              in if rc = VMM_OK
                 then Some (True, upd_irqs v (\<lambda>x. x\<lparr>execute_pending := execute_pending x + 1,
                                                    assert_count := assert_count x + 1\<rparr>)
                                    (upd_irq v n (\<lambda>q. q\<lparr>irq_reason := reason\<rparr>) s2))
                 else Some (False, upd_irq v n (\<lambda>q. q\<lparr>irq_assert := DEASSERTED\<rparr>) s2)
            else Some (False, s) })"

definition vmm_vcpu_irq_clear :: "arch_ops \<Rightarrow> nat \<Rightarrow> nat option \<Rightarrow> nat \<Rightarrow> sched_sys \<Rightarrow> sched_sys option" where
  "vmm_vcpu_irq_clear A cpu vp n s =
     (case vp of
        None \<Rightarrow> Some s
      | Some v \<Rightarrow>
          if \<not> is_normal (vcpus s v) then Some s
          else if n > unat (irq_count (irqs (vcpus s v))) then Some s
          else if current_vcpu (sched s cpu) \<noteq> Some v then None
          else do {
            q \<leftarrow> irq_at v n s;
            let (rc, s1) = arch_call (\<lambda>k. arch_vcpu_irq_clear A k v n) s;
            let s2 = (if rc = VMM_OK then upd_irqs v (\<lambda>x. x\<lparr>clear_count := clear_count x + 1\<rparr>) s1 else s1);
            Some (upd_irq v n (\<lambda>q. q\<lparr>irq_assert := DEASSERTED, irq_reason := 0\<rparr>) s2) })"

definition vmm_vcpu_irq_deassert :: "arch_ops \<Rightarrow> nat option \<Rightarrow> nat \<Rightarrow> sched_sys \<Rightarrow> sched_sys option" where
  "vmm_vcpu_irq_deassert A vp n s =
     (case vp of
        None \<Rightarrow> Some s
      | Some v \<Rightarrow>
          if \<not> is_normal (vcpus s v) then Some s
          else if n > unat (irq_count (irqs (vcpus s v))) then Some s
          else do {
            q \<leftarrow> irq_at v n s;
            let (rc, s1) = arch_call (\<lambda>k. arch_vcpu_irq_deassert A k v n) s;
            let s2 = (if rc = VMM_OK then upd_irqs v (\<lambda>x. x\<lparr>deassert_count := deassert_count x + 1\<rparr>) s1 else s1);
            Some (upd_irq v n (\<lambda>q. q\<lparr>irq_assert := DEASSERTED, irq_reason := 0\<rparr>) s2) })"

text \<open>\<^verbatim>\<open>VMM_EFAIL\<close> is returned as a \<^verbatim>\<open>bool\<close>, which is TRUE.\<close>

definition vmm_vcpu_irq_wait_state :: "nat option \<Rightarrow> sched_sys \<Rightarrow> bool" where
  "vmm_vcpu_irq_wait_state vp s =
     (case vp of
        None \<Rightarrow> VMM_EFAIL \<noteq> 0
      | Some v \<Rightarrow> if \<not> is_normal (vcpus s v) then VMM_EFAIL \<noteq> 0 else wfi_state (irqs (vcpus s v)))"

section \<open>Initialisation\<close>

definition zero_irqs :: vcpu_irqs where
  "zero_irqs = \<lparr>irq_count = 0, irq = None, execute_pending = 0, assert_count = 0, execute_count = 0,
     clear_count = 0, deassert_count = 0, wfi_yield_count = 0, wfi_state = False, wfi_priv = False\<rparr>"

text \<open>The allocations of \<^verbatim>\<open>vmm_vcpu_irq_init\<close> at the first initialisation of a VCPU.\<close>

definition irq_init_first :: "arch_ops \<Rightarrow> nat \<Rightarrow> sched_sys \<Rightarrow> int \<times> sched_sys" where
  "irq_init_first A v s =
     (let s1 = upd_irqs v (\<lambda>x. zero_irqs) s;
          (m1, s2) = arch_call (have_memory A) s1
      in if \<not> m1 then (VMM_ENOMEM, s2)
         else let s3 = upd_irqs v (\<lambda>x. x\<lparr>irq := Some (replicate (unat (arch_vcpu_irq_count A v))
                         \<lparr>irq_assert = DEASSERTED, irq_reason = 0\<rparr>)\<rparr>) s2;
                  (m2, s4) = arch_call (have_memory A) s3
              in if \<not> m2 then (VMM_ENOMEM, upd_irqs v (\<lambda>x. x\<lparr>irq := None\<rparr>) s4)
                 else (VMM_OK, upd_event (Ev_wfi v) (\<lambda>e. INIT_TIMER_EVENT)
                                 (upd_irqs v (\<lambda>x. x\<lparr>wfi_priv := True\<rparr>) s4)))"

definition vmm_vcpu_irq_init :: "arch_ops \<Rightarrow> nat option \<Rightarrow> sched_sys \<Rightarrow> (int \<times> sched_sys) option" where
  "vmm_vcpu_irq_init A vp s =
     (case vp of
        None \<Rightarrow> Some (VMM_EFAIL, s)
      | Some v \<Rightarrow>
          if \<not> is_normal (vcpus s v) then Some (VMM_OK, s)
          else let count = arch_vcpu_irq_count A v;
                   (rc, s1) = (if reset_count (vcpus s v) = 0 then irq_init_first A v s else (VMM_OK, s))
               in if rc \<noteq> VMM_OK then Some (rc, s1)
                  else do {
                    l \<leftarrow> (if count = 0 then Some [] else irq (irqs (vcpus s1 v)));
                    if length l < unat count then None
                    else let s2 = upd_irqs v (\<lambda>x. x\<lparr>irq_count := count, execute_pending := 0, assert_count := 0,
                                    execute_count := 0, clear_count := 0, deassert_count := 0,
                                    irq := map_option (\<lambda>l. map (\<lambda>q. \<lparr>irq_assert = DEASSERTED, irq_reason = 0\<rparr>)
                                              (take (unat count) l) @ drop (unat count) l) (irq x),
                                    wfi_yield_count := 0, wfi_state := False\<rparr>) s1;
                             (rc, s3) = vmm_timer_event_stop
                                (if wfi_priv (irqs (vcpus s2 v)) then Some (Ev_wfi v) else None) s2
                         in if rc \<noteq> VMM_OK
                            then Some (rc, upd_irqs v (\<lambda>x. x\<lparr>irq := None, wfi_priv := False\<rparr>) s3)
                            else Some (rc, s3) })"

definition vmm_vcpu_irq_deinit :: "nat option \<Rightarrow> sched_sys \<Rightarrow> int \<times> sched_sys" where
  "vmm_vcpu_irq_deinit vp s =
     (case vp of
        None \<Rightarrow> (VMM_EFAIL, s)
      | Some v \<Rightarrow>
          if \<not> is_normal (vcpus s v) then (VMM_OK, s)
          else let s1 = snd (vmm_timer_event_stop
                   (if wfi_priv (irqs (vcpus s v)) then Some (Ev_wfi v) else None) s)
               in (VMM_OK, upd_irqs v (\<lambda>x. x\<lparr>wfi_priv := False, irq := None\<rparr>) s1))"

section \<open>Frames\<close>

lemma upd_irqs_vcpus: "vcpus (upd_irqs v f s) x = (if x = v then (vcpus s v)\<lparr>irqs := f (irqs (vcpus s v))\<rparr> else vcpus s x)"
  by (simp add: upd_irqs_def)

lemma upd_irqs_simps [simp]:
  "sched (upd_irqs v f s) = sched s" "wqs (upd_irqs v f s) = wqs s" "ipis (upd_irqs v f s) = ipis s"
  "switches (upd_irqs v f s) = switches s" "tlc (upd_irqs v f s) = tlc s" "events (upd_irqs v f s) = events s"
  "cpu_online (upd_irqs v f s) = cpu_online s" "arch_calls (upd_irqs v f s) = arch_calls s"
  "irqs (vcpus (upd_irqs v f s) v) = f (irqs (vcpus s v))"
  "vstate (vcpus (upd_irqs v f s) x) = vstate (vcpus s x)"
  "timer_inv (upd_irqs v f s) = timer_inv s"
  by (simp_all add: upd_irqs_def)

lemma arch_call_simps [simp]:
  "fst (arch_call f s) = f (arch_calls s)" "arch_calls (snd (arch_call f s)) = Suc (arch_calls s)"
  "vcpus (snd (arch_call f s)) = vcpus s"
  "sched (snd (arch_call f s)) = sched s" "wqs (snd (arch_call f s)) = wqs s" "ipis (snd (arch_call f s)) = ipis s"
  "switches (snd (arch_call f s)) = switches s" "tlc (snd (arch_call f s)) = tlc s"
  "events (snd (arch_call f s)) = events s" "cpu_online (snd (arch_call f s)) = cpu_online s"
  "timer_inv (snd (arch_call f s)) = timer_inv s"
  by (simp_all add: arch_call_def timer_inv_def expiry_def [abs_def])

text \<open>
  The scheduling view of a VCPU: everything but its interrupt lines. The operations above never
  change it.
\<close>

definition sched_view :: "vcpu \<Rightarrow> vcpu" where
  "sched_view x = x\<lparr>irqs := zero_irqs\<rparr>"

definition irq_only :: "sched_sys \<Rightarrow> sched_sys \<Rightarrow> bool" where
  "irq_only s s' \<longleftrightarrow> sched s' = sched s \<and> wqs s' = wqs s \<and> ipis s' = ipis s \<and> switches s' = switches s \<and>
     cpu_online s' = cpu_online s \<and> (\<forall>x. sched_view (vcpus s' x) = sched_view (vcpus s x)) \<and>
     tlc s' = tlc s \<and> events s' = events s"

lemma irq_only_refl [simp]: "irq_only s s" by (simp add: irq_only_def)

lemma irq_only_trans: "irq_only s s' \<Longrightarrow> irq_only s' s'' \<Longrightarrow> irq_only s s''"
  by (simp add: irq_only_def)

lemma sched_view_upd_irqs [simp]: "sched_view (vcpus (upd_irqs v f s) x) = sched_view (vcpus s x)"
  by (simp add: upd_irqs_vcpus sched_view_def)

lemma irq_only_upd [simp]:
  "irq_only s (upd_irqs v f s') = irq_only s s'" "irq_only s (upd_irq v n g s') = irq_only s s'"
  "irq_only s (snd (arch_call h s')) = irq_only s s'"
  by (simp_all add: irq_only_def upd_irq_def)

lemma process_one_irq_only: "vcpu_irq_process_one A v s = Some (b, s') \<Longrightarrow> irq_only s s'"
  by (auto simp: vcpu_irq_process_one_def Let_def case_prod_beta split: if_splits bind_splits option.splits)

lemma process_all_irq_only: "irq_process_all A v s = Some s' \<Longrightarrow> irq_only s s'"
proof (rule irq_process_all.raw_induct [where P = "\<lambda>A v s s'. irq_only s s'"], goal_cases)
  case (1 f A v s s')
  from 1(3) obtain r where p: "vcpu_irq_process_one A v s = Some r"
    and r: "(if fst r then f A v (snd r) else Some (snd r)) = Some s'"
    by (cases "vcpu_irq_process_one A v s") auto
  have "irq_only s (snd r)" using process_one_irq_only [of A v s "fst r" "snd r"] p by simp
  then show ?case using r 1(2) irq_only_trans by (cases "fst r") auto
qed

lemma irq_process_irq_only: "vmm_vcpu_irq_process A vp s = Some s' \<Longrightarrow> irq_only s s'"
  by (auto simp: vmm_vcpu_irq_process_def process_one_irq_only
      split: option.splits if_splits intro: process_all_irq_only)

section \<open>No asserted interrupt is forgotten\<close>

text \<open>
  The invariant: every line has a slot, and the pending count is at least the number of asserted
  lines, so that \<^verbatim>\<open>vcpu_irq_process_one\<close> looks for a line whenever one is asserted.
\<close>

definition n_asserted :: "vcpu_irq list \<Rightarrow> nat" where
  "n_asserted l = length (filter (\<lambda>q. irq_assert q = ASSERTED) l)"

definition irq_inv :: "vcpu_irqs \<Rightarrow> bool" where
  "irq_inv x \<longleftrightarrow> (\<exists>l. irq x = Some l \<and> length l = unat (irq_count x) \<and>
     int (n_asserted l) \<le> execute_pending x)"

lemma n_asserted_update:
  "i < length l \<Longrightarrow> n_asserted (l[i := q]) + (if irq_assert (l ! i) = ASSERTED then 1 else 0) =
     n_asserted l + (if irq_assert q = ASSERTED then 1 else 0)"
proof (induction l arbitrary: i)
  case (Cons x l)
  then show ?case by (cases i) (auto simp: n_asserted_def)
qed simp

lemma n_asserted_pos: "i < length l \<Longrightarrow> irq_assert (l ! i) = ASSERTED \<Longrightarrow> 0 < n_asserted l"
  by (auto simp: n_asserted_def filter_empty_conv)

definition best_line :: "(nat \<Rightarrow> u32) \<Rightarrow> vcpu_irq list \<Rightarrow> nat \<Rightarrow> bool" where
  "best_line pr l n \<longleftrightarrow> n < length l \<and> irq_assert (l ! n) = ASSERTED \<and> 0 < pr n \<and>
     (\<forall>i < length l. irq_assert (l ! i) = ASSERTED \<longrightarrow> pr i \<le> pr n) \<and>
     (\<forall>i < n. irq_assert (l ! i) = ASSERTED \<longrightarrow> pr i < pr n)"

lemma irq_pick_best:
  assumes "i + m = length l"
    and "case best of None \<Rightarrow> bp = 0 \<and> (\<forall>k < i. irq_assert (l ! k) = ASSERTED \<longrightarrow> pr k = 0)
      | Some b \<Rightarrow> bp = pr b \<and> b < i \<and> irq_assert (l ! b) = ASSERTED \<and> 0 < pr b \<and>
          (\<forall>k < i. irq_assert (l ! k) = ASSERTED \<longrightarrow> pr k \<le> pr b) \<and>
          (\<forall>k < b. irq_assert (l ! k) = ASSERTED \<longrightarrow> pr k < pr b)"
  shows "\<exists>r. irq_pick pr l i m best bp = Some r \<and>
    (case r of None \<Rightarrow> \<forall>k < length l. irq_assert (l ! k) = ASSERTED \<longrightarrow> pr k = 0 | Some n \<Rightarrow> best_line pr l n)"
  using assms
proof (induction m arbitrary: i best bp)
  case 0
  then show ?case by (auto simp: best_line_def split: option.splits)
next
  case (Suc m)
  have i: "i < length l" using Suc.prems(1) by simp
  show ?case
  proof (cases "irq_assert (l ! i) = ASSERTED \<and> pr i > bp")
    case True
    have "0 < pr i" using True by (metis word_gt_0 not_less_zero word_not_simps(1))
    have "\<forall>k < i. irq_assert (l ! k) = ASSERTED \<longrightarrow> pr k < pr i"
      using Suc.prems(2) True by (auto split: option.splits)
    with Suc.IH [where i = "Suc i" and best = "Some i" and bp = "pr i"] Suc.prems(1) True \<open>0 < pr i\<close> show ?thesis
      using i by (auto simp: less_Suc_eq intro: less_imp_le)
  next
    case False
    have "case best of None \<Rightarrow> bp = 0 \<and> (\<forall>k < Suc i. irq_assert (l ! k) = ASSERTED \<longrightarrow> pr k = 0)
      | Some b \<Rightarrow> bp = pr b \<and> b < Suc i \<and> irq_assert (l ! b) = ASSERTED \<and> 0 < pr b \<and>
          (\<forall>k < Suc i. irq_assert (l ! k) = ASSERTED \<longrightarrow> pr k \<le> pr b) \<and>
          (\<forall>k < b. irq_assert (l ! k) = ASSERTED \<longrightarrow> pr k < pr b)"
      using Suc.prems(2) False by (auto simp: less_Suc_eq not_less split: option.splits)
    with Suc.IH [where i = "Suc i" and best = best and bp = bp] Suc.prems(1) False i show ?thesis by auto
  qed
qed

lemma irq_pick_start:
  "\<exists>r. irq_pick pr l 0 (length l) None 0 = Some r \<and>
    (case r of None \<Rightarrow> \<forall>k < length l. irq_assert (l ! k) = ASSERTED \<longrightarrow> pr k = 0 | Some n \<Rightarrow> best_line pr l n)"
  by (rule irq_pick_best) simp_all

lemma upd_irq_irqs:
  "irqs (vcpus (upd_irq v n f s) v) = (irqs (vcpus s v))\<lparr>irq := map_option (\<lambda>l. l[n := f (l ! n)]) (irq (irqs (vcpus s v)))\<rparr>"
  by (simp add: upd_irq_def)

section \<open>Properties\<close>

text \<open>
  Further fact: asserting an in-range line of an interruptible normal VCPU whose line is free either
  records it (the line is asserted with the given reason and an execution is pending) or, when the
  architecture refuses, leaves the line free; in both cases the pending count still covers every
  asserted line. An asserted or executing line is left alone.
\<close>
theorem vcpu_irq_assert_recorded:
  assumes "is_normal (vcpus s v)" and "in_mask (vstate (vcpus s v)) VMM_VCPU_STATE_INTERRUPTIBLE"
    and "irq_inv (irqs (vcpus s v))" and "irq (irqs (vcpus s v)) = Some l" and "n < length l"
  shows "\<exists>b s' l'. irq_assert_line A (Some v) n reason s = Some (b, s') \<and> irq_inv (irqs (vcpus s' v)) \<and>
    irq_only s s' \<and> irq (irqs (vcpus s' v)) = Some l' \<and>
    (b \<longrightarrow> irq_assert (l ! n) = DEASSERTED \<and> l' = l[n := \<lparr>irq_assert = ASSERTED, irq_reason = reason\<rparr>] \<and>
       0 < execute_pending (irqs (vcpus s' v))) \<and>
    (\<not> b \<longrightarrow> l' = l)"
proof -
  let ?x = "irqs (vcpus s v)"
  have len: "length l = unat (irq_count ?x)" and pend: "int (n_asserted l) \<le> execute_pending ?x"
    using assms(3,4) by (auto simp: irq_inv_def)
  have at: "irq_at v n s = Some (l ! n)" using assms(4,5) by (simp add: irq_at_def)
  have g: "\<not> unat (irq_count ?x) < n" using assms(5) len by simp
  note simps = irq_assert_line_def assms(1,2) at g upd_irq_irqs Let_def case_prod_beta assms(4)
  show ?thesis
  proof (cases "irq_assert (l ! n) = DEASSERTED")
    case False
    then show ?thesis using assms(3,4) by (auto simp: simps irq_inv_def)
  next
    case free: True
    have q: "(l ! n)\<lparr>irq_assert := ASSERTED, irq_reason := reason\<rparr> = \<lparr>irq_assert = ASSERTED, irq_reason = reason\<rparr>"
      "(l ! n)\<lparr>irq_assert := DEASSERTED\<rparr> = l ! n"
      using free by (cases "l ! n"; simp)+
    show ?thesis
    proof (cases "arch_vcpu_irq_assert A (arch_calls s) v n = VMM_OK")
      case True
      have "n_asserted (l[n := \<lparr>irq_assert = ASSERTED, irq_reason = reason\<rparr>]) = Suc (n_asserted l)"
        using n_asserted_update [OF assms(5), of "\<lparr>irq_assert = ASSERTED, irq_reason = reason\<rparr>"] free by simp
      with True free pend len assms(5) show ?thesis
        by (intro exI [of _ True]) (simp add: simps irq_inv_def upd_irq_def q(1))
    next
      case False
      with free pend len assms(5) show ?thesis
        by (intro exI [of _ False]) (simp add: simps irq_inv_def upd_irq_def q(2))
    qed
  qed
qed

definition example_arch :: arch_ops where
  "example_arch = \<lparr>cpu_count = 2, arch_vcpu_init = (\<lambda>k v. 0), arch_vcpu_irq_count = (\<lambda>v. 3),
     arch_vcpu_irq_priority = (\<lambda>v n. if n = 1 then 5 else 2), arch_vcpu_irq_assert = (\<lambda>k v n. 0),
     arch_vcpu_irq_execute = (\<lambda>k v n. 0), arch_vcpu_irq_clear = (\<lambda>k v n. 0),
     arch_vcpu_irq_deassert = (\<lambda>k v n. 0), arch_vcpu_irq_pending = (\<lambda>k v. False),
     arch_vcpu_irq_can_execute_multiple = (\<lambda>v. False), have_memory = (\<lambda>k. True)\<rparr>"

definition example_lines :: "irq_assert list \<Rightarrow> vcpu_irq list" where
  "example_lines = map (\<lambda>a. \<lparr>irq_assert = a, irq_reason = 0\<rparr>)"

definition example_sched :: sched_ctrl where
  "example_sched = \<lparr>srq = Some (replicate 8 []), rq_resched_triggered = False, current_vcpu_irq_ns = 0,
     current_vcpu_exp_ns = 0, current_vcpu = None, idle_vcpu = None, irq_context = False, irq_regs = False,
     irq_enter_tstamp = 0, irq_process_ns = 0, exp_process_ns = 0, yield_on_irq_exit = False,
     sample_period_ns = 0, sample_idle_ns = 0, sample_idle_last_ns = 0, sample_irq_ns = 0,
     sample_irq_last_ns = 0\<rparr>"

text \<open>A system with the VCPUs, the queues and the current VCPUs given; no timer event is active.\<close>

definition example_sys :: "(nat \<Rightarrow> vcpu) \<Rightarrow> (nat \<Rightarrow> sched_ctrl) \<Rightarrow> sched_sys" where
  "example_sys vs sc = \<lparr>css = example_cs, clksrc_list = [0], chips = (\<lambda>i. example_chip), clkchip_list = [0],
     hw = (\<lambda>k. of_nat k), hw_reads = 0,
     tlc = (\<lambda>c. \<lparr>tl_tc = \<lparr>tc_cs = Some 0, tc_cycles_last = 0, tc_nsec = 0\<rparr>, tl_cc = Some c, started = True,
       inprocess = False, next_event = 0, curr_event = None, event_list = []\<rparr>),
     events = (\<lambda>e. INIT_TIMER_EVENT), ref_tc = \<lparr>tc_cs = Some 0, tc_cycles_last = 0, tc_nsec = 0\<rparr>,
     vcpus = vs, sched = sc, wqs = (\<lambda>q. \<lparr>wq_vcpu_list = [], wq_vcpu_count = 0\<rparr>), cpu_online = (\<lambda>c. c < 2),
     ipis = (\<lambda>c. []), switches = [], arch_calls = 0\<rparr>"

definition irq_example :: "irq_assert list \<Rightarrow> int \<Rightarrow> sched_sys" where
  "irq_example ls p = example_sys (\<lambda>v. example_vcpu\<lparr>irqs := zero_irqs\<lparr>irq_count := of_nat (length ls),
     irq := Some (example_lines ls), execute_pending := p\<rparr>\<rparr>) (\<lambda>c. example_sched)"

lemma irq_example_simps:
  "vcpus (irq_example ls p) v = example_vcpu\<lparr>irqs := zero_irqs\<lparr>irq_count := of_nat (length ls),
     irq := Some (example_lines ls), execute_pending := p\<rparr>\<rparr>"
  by (simp add: irq_example_def example_sys_def)

theorem vcpu_irq_assert_recorded_witness:
  "\<exists>b s' l'. irq_assert_line example_arch (Some 0) 1 42 (irq_example [ASSERTED, DEASSERTED, DEASSERTED] 1) = Some (b, s') \<and>
    irq_inv (irqs (vcpus s' 0)) \<and> irq (irqs (vcpus s' 0)) = Some l'"
proof -
  let ?s = "irq_example [ASSERTED, DEASSERTED, DEASSERTED] 1"
  have h: "is_normal (vcpus ?s 0)" "in_mask (vstate (vcpus ?s 0)) VMM_VCPU_STATE_INTERRUPTIBLE"
    "irq_inv (irqs (vcpus ?s 0))" "irq (irqs (vcpus ?s 0)) = Some (example_lines [ASSERTED, DEASSERTED, DEASSERTED])"
    "1 < length (example_lines [ASSERTED, DEASSERTED, DEASSERTED])"
    by (simp_all add: irq_example_simps example_vcpu_def interruptible_states irq_inv_def example_lines_def
        n_asserted_def zero_irqs_def)
  from vcpu_irq_assert_recorded [OF h, of example_arch 42] show ?thesis by blast
qed

text \<open>
  Further fact: when a line of positive priority is asserted, \<^verbatim>\<open>vcpu_irq_process_one\<close> injects the asserted line
  of highest priority, the lowest numbered among equals, and only that one. If the architecture
  takes it the line is free again; otherwise it stays asserted and pending. Either way the pending count
  still covers every asserted line.
\<close>
theorem vcpu_irq_process_highest:
  assumes "irq_inv (irqs (vcpus s v))" and "irq (irqs (vcpus s v)) = Some l"
    and "k < length l" and "irq_assert (l ! k) = ASSERTED"
    and "\<forall>i < length l. 0 < arch_vcpu_irq_priority A v i"
  shows "\<exists>n s'. best_line (arch_vcpu_irq_priority A v) l n \<and>
    vcpu_irq_process_one A v s = Some (True, s') \<and> irq_inv (irqs (vcpus s' v)) \<and>
    irq (irqs (vcpus s' v)) = Some (if arch_vcpu_irq_execute A (arch_calls s) v n = VMM_OK
      then l[n := (l ! n)\<lparr>irq_assert := DEASSERTED\<rparr>] else l)"
proof -
  let ?x = "irqs (vcpus s v)"
  have len: "unat (irq_count ?x) = length l" and pend: "int (n_asserted l) \<le> execute_pending ?x"
    using assms(1,2) by (auto simp: irq_inv_def)
  have "0 < n_asserted l" by (rule n_asserted_pos [OF assms(3,4)])
  with pend have p: "0 < execute_pending ?x" by linarith
  have c0: "irq_count ?x \<noteq> 0" using assms(3) len by auto
  obtain r where r: "irq_pick (arch_vcpu_irq_priority A v) l 0 (length l) None 0 = Some r"
    "case r of None \<Rightarrow> \<forall>k < length l. irq_assert (l ! k) = ASSERTED \<longrightarrow> arch_vcpu_irq_priority A v k = 0
     | Some n \<Rightarrow> best_line (arch_vcpu_irq_priority A v) l n"
    using irq_pick_start by blast
  obtain n where n: "r = Some n" "best_line (arch_vcpu_irq_priority A v) l n"
    using r(2) assms(3,4,5) by (cases r) auto
  have nl: "n < length l" "irq_assert (l ! n) = ASSERTED" using n(2) by (simp_all add: best_line_def)
  have same: "l[n := (l ! n)\<lparr>irq_assert := ASSERTED\<rparr>] = l"
  proof -
    have "(l ! n)\<lparr>irq_assert := ASSERTED\<rparr> = l ! n" using nl(2) by (cases "l ! n") simp
    then show ?thesis by simp
  qed
  note simps = vcpu_irq_process_one_def p c0 assms(2) len r(1) n(1) Let_def case_prod_beta upd_irq_irqs
  show ?thesis
  proof (cases "arch_vcpu_irq_execute A (arch_calls s) v n = VMM_OK")
    case True
    have "Suc (n_asserted (l[n := (l ! n)\<lparr>irq_assert := DEASSERTED\<rparr>])) = n_asserted l"
      using n_asserted_update [OF nl(1), of "(l ! n)\<lparr>irq_assert := DEASSERTED\<rparr>"] nl(2) by simp
    with True pend len n(2) show ?thesis
      by (intro exI [of _ n]) (auto simp: simps irq_inv_def)
  next
    case False
    with pend len n(2) same show ?thesis
      by (intro exI [of _ n]) (auto simp: simps irq_inv_def)
  qed
qed

theorem vcpu_irq_process_highest_witness:
  "\<exists>n s'. best_line (arch_vcpu_irq_priority example_arch 0) (example_lines [ASSERTED, ASSERTED, DEASSERTED]) n \<and>
    vcpu_irq_process_one example_arch 0 (irq_example [ASSERTED, ASSERTED, DEASSERTED] 2) = Some (True, s')"
proof -
  let ?s = "irq_example [ASSERTED, ASSERTED, DEASSERTED] 2" and ?l = "example_lines [ASSERTED, ASSERTED, DEASSERTED]"
  have h: "irq_inv (irqs (vcpus ?s 0))" "irq (irqs (vcpus ?s 0)) = Some ?l"
    "0 < length ?l" "irq_assert (?l ! 0) = ASSERTED" "\<forall>i < length ?l. 0 < arch_vcpu_irq_priority example_arch 0 i"
    by (simp_all add: irq_example_simps irq_inv_def example_lines_def n_asserted_def zero_irqs_def example_arch_def)
  from vcpu_irq_process_highest [OF h] show ?thesis by blast
qed

text \<open>
  Further fact: the range checks \<^verbatim>\<open>irq_no > irq_count\<close> let the number \<^verbatim>\<open>irq_count\<close> through, one past the last
  line: assert, deassert and clear then leave the array of lines.
\<close>
theorem vcpu_irq_off_by_one:
  assumes "is_normal (vcpus s v)" and "in_mask (vstate (vcpus s v)) VMM_VCPU_STATE_INTERRUPTIBLE"
    and "irq (irqs (vcpus s v)) = Some l" and "length l = unat (irq_count (irqs (vcpus s v)))"
    and "current_vcpu (sched s cpu) = Some v"
  shows "irq_assert_line A (Some v) (length l) reason s = None \<and>
    vmm_vcpu_irq_deassert A (Some v) (length l) s = None \<and>
    vmm_vcpu_irq_clear A cpu (Some v) (length l) s = None"
  using assms by (simp add: irq_assert_line_def vmm_vcpu_irq_deassert_def vmm_vcpu_irq_clear_def irq_at_def)

theorem vcpu_irq_off_by_one_witness:
  "irq_assert_line example_arch (Some 0) 3 7
     (upd_sched 0 (\<lambda>c. c\<lparr>current_vcpu := Some 0\<rparr>) (irq_example [DEASSERTED, DEASSERTED, DEASSERTED] 0)) = None"
proof -
  let ?s = "upd_sched 0 (\<lambda>c. c\<lparr>current_vcpu := Some 0\<rparr>) (irq_example [DEASSERTED, DEASSERTED, DEASSERTED] 0)"
  let ?l = "example_lines [DEASSERTED, DEASSERTED, DEASSERTED]"
  have h: "is_normal (vcpus ?s 0)" "in_mask (vstate (vcpus ?s 0)) VMM_VCPU_STATE_INTERRUPTIBLE"
    "irq (irqs (vcpus ?s 0)) = Some ?l" "length ?l = unat (irq_count (irqs (vcpus ?s 0)))"
    "current_vcpu (sched ?s 0) = Some 0"
    by (simp_all add: irq_example_simps example_vcpu_def interruptible_states example_lines_def)
  have "length ?l = 3" by (simp add: example_lines_def)
  with vcpu_irq_off_by_one [OF h, of example_arch 7] show ?thesis by (simp only:)
qed

text \<open>
  Further fact: initialisation of a normal VCPU with memory available, or a later one with its
  array in place, leaves every line free, nothing pending, no wait in progress and the timeout
  event stopped.
\<close>
theorem vcpu_irq_init_clean:
  assumes "is_normal (vcpus s v)"
    and "reset_count (vcpus s v) = 0 \<longrightarrow> have_memory A (arch_calls s) \<and> have_memory A (Suc (arch_calls s))"
    and "reset_count (vcpus s v) \<noteq> 0 \<longrightarrow> wfi_priv (irqs (vcpus s v)) \<and>
      (\<exists>l. irq (irqs (vcpus s v)) = Some l \<and> length l = unat (arch_vcpu_irq_count A v))"
  shows "\<exists>s' l. vmm_vcpu_irq_init A (Some v) s = Some (VMM_OK, s') \<and> irq_inv (irqs (vcpus s' v)) \<and>
    irq (irqs (vcpus s' v)) = Some l \<and> length l = unat (arch_vcpu_irq_count A v) \<and>
    (\<forall>n < length l. irq_assert (l ! n) = DEASSERTED) \<and> execute_pending (irqs (vcpus s' v)) = 0 \<and>
    \<not> vmm_vcpu_irq_wait_state (Some v) s' \<and> \<not> vmm_timer_event_pending (Some (Ev_wfi v)) s'"
proof -
  let ?n = "unat (arch_vcpu_irq_count A v)"
  define s1 where "s1 = snd (if reset_count (vcpus s v) = 0 then irq_init_first A v s else (VMM_OK, s))"
  have first: "(if reset_count (vcpus s v) = 0 then irq_init_first A v s else (VMM_OK, s)) = (VMM_OK, s1)"
    using assms(2) by (simp add: s1_def irq_init_first_def Let_def case_prod_beta)
  obtain l where l: "irq (irqs (vcpus s1 v)) = Some l" "length l = ?n" and p: "wfi_priv (irqs (vcpus s1 v))"
    using assms(2,3) by (cases "reset_count (vcpus s v) = 0") (auto simp: s1_def irq_init_first_def Let_def case_prod_beta)
  have nrm: "is_normal (vcpus s1 v)"
    using assms(1) by (simp add: s1_def irq_init_first_def Let_def case_prod_beta upd_irqs_vcpus)
  define s2 where "s2 = upd_irqs v (\<lambda>x. x\<lparr>irq_count := arch_vcpu_irq_count A v, execute_pending := 0, assert_count := 0,
      execute_count := 0, clear_count := 0, deassert_count := 0,
      irq := map_option (\<lambda>l. map (\<lambda>q. \<lparr>irq_assert = DEASSERTED, irq_reason = 0\<rparr>) (take ?n l) @ drop ?n l) (irq x),
      wfi_yield_count := 0, wfi_state := False\<rparr>) s1"
  have p2: "wfi_priv (irqs (vcpus s2 v))" using p by (simp add: s2_def)
  have r: "vmm_vcpu_irq_init A (Some v) s = Some (VMM_OK, snd (vmm_timer_event_stop (Some (Ev_wfi v)) s2))"
  proof -
    have "(if arch_vcpu_irq_count A v = 0 then Some [] else irq (irqs (vcpus s1 v))) = Some (if ?n = 0 then [] else l)"
      using l by (auto simp: unat_eq_0)
    then show ?thesis
      using assms(1) first l(2) p2
      by (simp add: vmm_vcpu_irq_init_def Let_def s2_def [symmetric] case_prod_beta vmm_timer_event_stop_def)
  qed
  let ?s' = "snd (vmm_timer_event_stop (Some (Ev_wfi v)) s2)"
  let ?l = "map (\<lambda>q. \<lparr>irq_assert = DEASSERTED, irq_reason = 0 :: u64\<rparr>) l"
  have i: "irq (irqs (vcpus ?s' v)) = Some ?l" using l by (simp add: s2_def)
  have "irq_inv (irqs (vcpus ?s' v))"
    using l by (simp add: irq_inv_def s2_def n_asserted_def comp_def)
  moreover have "\<not> vmm_vcpu_irq_wait_state (Some v) ?s'"
    using nrm by (simp add: vmm_vcpu_irq_wait_state_def s2_def upd_irqs_vcpus)
  moreover have "\<not> vmm_timer_event_pending (Some (Ev_wfi v)) ?s'"
    by (simp add: vmm_timer_event_pending_def vmm_timer_event_stop_def stop_raw_inactive)
  moreover have "execute_pending (irqs (vcpus ?s' v)) = 0" by (simp add: s2_def)
  ultimately show ?thesis using r i l(2) by (intro exI [of _ ?s'] exI [of _ ?l]) simp
qed

theorem vcpu_irq_init_clean_witness:
  "\<exists>s' l. vmm_vcpu_irq_init example_arch (Some 0) (irq_example [] 0) = Some (VMM_OK, s') \<and>
    irq (irqs (vcpus s' 0)) = Some l \<and> length l = 3"
proof -
  let ?s = "irq_example [] 0"
  have h: "is_normal (vcpus ?s 0)"
    "reset_count (vcpus ?s 0) = 0 \<longrightarrow> have_memory example_arch (arch_calls ?s) \<and> have_memory example_arch (Suc (arch_calls ?s))"
    "reset_count (vcpus ?s 0) \<noteq> 0 \<longrightarrow> wfi_priv (irqs (vcpus ?s 0)) \<and>
      (\<exists>l. irq (irqs (vcpus ?s 0)) = Some l \<and> length l = unat (arch_vcpu_irq_count example_arch 0))"
    by (simp_all add: irq_example_simps example_vcpu_def example_arch_def)
  from vcpu_irq_init_clean [OF h] show ?thesis by (auto simp: example_arch_def)
qed

end
