(* ===== verification/Scheduler.thy ===== *)
theory Scheduler
  imports Vcpu_irq
begin

text \<open>
  The scheduler, \<^verbatim>\<open>core/vmm_scheduler.c\<close>: the context switch, the VCPU state machine, preemption,
  interrupt entry and exit, migration and accounting. \<^verbatim>\<open>__vmm_scheduler_next1\<close>, \<^verbatim>\<open>__vmm_scheduler_next2\<close> and
  \<^verbatim>\<open>__vmm_scheduler_sync_system_time\<close> lose their underscores; every other name is the source's.

  Each function runs with interrupts off and the VCPU's scheduling lock held, and is one step of the
  model on the CPU given as its argument. A result \<^const>\<open>None\<close> is \<^verbatim>\<open>vmm_panic\<close> or a fault. An inter-processor
  call to another CPU is appended to that CPU's queue and runs later as a step of its own; a call to
  the own CPU runs at once, as in \<^verbatim>\<open>core/vmm_smp.c\<close>. \<^verbatim>\<open>arch_vcpu_switch\<close> is an entry of the trace \<open>switches\<close>:
  the CPU, the VCPU whose registers are saved if any, and the VCPU that runs next.

  \<^verbatim>\<open>arch_vcpu_preempt_orphan\<close> traps into \<^verbatim>\<open>vmm_scheduler_preempt_orphan\<close>. It returns when the VCPU runs
  again; what the caller does then is a later step (\<open>resume_relock\<close> is the rest of
  \<^verbatim>\<open>vmm_scheduler_state_change\<close>).
\<close>

section \<open>Ready queue of a CPU\<close>

definition rq_dequeue :: "nat \<Rightarrow> sched_sys \<Rightarrow> (int \<times> (nat \<times> u64) option \<times> sched_sys) option" where
  "rq_dequeue cpu s = do {
     (rc, r, q) \<leftarrow> vmm_schedalgo_rq_dequeue (vcpus s) (srq (sched s cpu));
     Some (rc, r, upd_sched cpu (\<lambda>c. c\<lparr>srq := q\<rparr>) s) }"

definition rq_enqueue :: "nat \<Rightarrow> nat \<Rightarrow> sched_sys \<Rightarrow> (int \<times> sched_sys) option" where
  "rq_enqueue cpu v s = do {
     (rc, q) \<leftarrow> vmm_schedalgo_rq_enqueue (vcpus s) (srq (sched s cpu)) (Some v);
     Some (rc, upd_sched cpu (\<lambda>c. c\<lparr>srq := q\<rparr>) s) }"

definition rq_detach :: "nat \<Rightarrow> nat \<Rightarrow> sched_sys \<Rightarrow> int \<times> sched_sys" where
  "rq_detach cpu v s =
     (let (rc, q) = vmm_schedalgo_rq_detach (vcpus s) (srq (sched s cpu)) (Some v)
      in (rc, upd_sched cpu (\<lambda>c. c\<lparr>srq := q\<rparr>) s))"

definition rq_prempt_needed :: "nat \<Rightarrow> sched_sys \<Rightarrow> bool option" where
  "rq_prempt_needed cpu s =
     vmm_schedalgo_rq_prempt_needed (vcpus s) (srq (sched s cpu)) (current_vcpu (sched s cpu))"

definition rq_length :: "nat \<Rightarrow> nat \<Rightarrow> sched_sys \<Rightarrow> u32 option" where
  "rq_length cpu prio s = map_option of_int (vmm_schedalgo_rq_length (srq (sched s cpu)) prio)"

section \<open>Context switch\<close>

text \<open>The common end of the two switch functions: \<open>v\<close> becomes the running VCPU of the CPU.\<close>

definition sched_run :: "nat \<Rightarrow> nat \<Rightarrow> u64 \<Rightarrow> u64 \<Rightarrow> sched_sys \<Rightarrow> sched_sys" where
  "sched_run cpu v tstamp tslice s =
     (let s1 = upd_vcpu v (\<lambda>x. x\<lparr>state_ready_nsecs := state_ready_nsecs x + (tstamp - state_tstamp x),
                                vstate := VMM_VCPU_STATE_RUNNING, resumed := False, state_tstamp := tstamp\<rparr>) s;
          s2 = upd_sched cpu (\<lambda>c. c\<lparr>current_vcpu := Some v, current_vcpu_irq_ns := irq_process_ns c,
                                   current_vcpu_exp_ns := exp_process_ns c\<rparr>) s1
      in snd (vmm_timer_event_start cpu (Some (Ev_sched cpu)) tslice s2))"

definition arch_vcpu_switch :: "nat \<Rightarrow> nat option \<Rightarrow> nat \<Rightarrow> sched_sys \<Rightarrow> sched_sys" where
  "arch_vcpu_switch cpu tcurrent v s = s\<lparr>switches := switches s @ [(cpu, tcurrent, v)]\<rparr>"

definition vmm_scheduler_next1 :: "nat \<Rightarrow> sched_sys \<Rightarrow> (nat \<times> sched_sys) option" where
  "vmm_scheduler_next1 cpu s = do {
     let (tstamp, s0) = vmm_timer_timestamp cpu s;
     (rc, r, s1) \<leftarrow> rq_dequeue cpu s0;
     (v, tslice) \<leftarrow> r;
     Some (v, sched_run cpu v tstamp tslice (arch_vcpu_switch cpu None v s1)) }"

definition vmm_scheduler_sync_system_time :: "nat \<Rightarrow> nat \<Rightarrow> sched_sys \<Rightarrow> sched_sys" where
  "vmm_scheduler_sync_system_time cpu cur s =
     (let c = sched s cpu;
          t = (irq_process_ns c - current_vcpu_irq_ns c) + (exp_process_ns c - current_vcpu_exp_ns c)
      in upd_sched cpu (\<lambda>c. c\<lparr>current_vcpu_irq_ns := irq_process_ns c, current_vcpu_exp_ns := exp_process_ns c\<rparr>)
           (upd_vcpu cur (\<lambda>x. x\<lparr>system_nsecs := system_nsecs x + t\<rparr>) s))"

text \<open>
  \<^verbatim>\<open>dequeue_again\<close>: a dequeued VCPU that another CPU has reset, paused or halted in between is dropped.
\<close>

partial_function (option) dequeue_again ::
  "nat \<Rightarrow> nat \<Rightarrow> sched_sys \<Rightarrow> (nat \<times> u64 \<times> sched_sys) option" where
  "dequeue_again cpu cur s =
     Option.bind (rq_dequeue cpu s) (\<lambda>(rc, r, s1).
       Option.bind r (\<lambda>(v, tslice).
         if v \<noteq> cur \<and> vstate (vcpus s1 v) \<noteq> VMM_VCPU_STATE_READY then dequeue_again cpu cur s1
         else Some (v, tslice, s1)))"

text \<open>What \<^verbatim>\<open>__vmm_scheduler_next2\<close> does with the VCPU that runs, and the VCPU it saves.\<close>

definition sched_put_current :: "nat \<Rightarrow> nat \<Rightarrow> u64 \<Rightarrow> sched_sys \<Rightarrow> (nat option \<times> sched_sys) option" where
  "sched_put_current cpu cur tstamp s =
     (if in_mask (vstate (vcpus s cur)) VMM_VCPU_STATE_SAVEABLE then
        if vstate (vcpus s cur) = VMM_VCPU_STATE_RUNNING then do {
          let s1 = vmm_scheduler_sync_system_time cpu cur s;
          let s2 = upd_vcpu cur (\<lambda>x. x\<lparr>state_running_nsecs := state_running_nsecs x + (tstamp - state_tstamp x),
                                      vstate := VMM_VCPU_STATE_READY, state_tstamp := tstamp\<rparr>) s1;
          (rc, s3) \<leftarrow> rq_enqueue cpu cur s2;
          Some (Some cur, s3) }
        else Some (Some cur, s)
      else Some (None, s))"

definition vmm_scheduler_next2 :: "nat \<Rightarrow> nat \<Rightarrow> sched_sys \<Rightarrow> (nat option \<times> sched_sys) option" where
  "vmm_scheduler_next2 cpu cur s = do {
     let (tstamp, s0) = vmm_timer_timestamp cpu s;
     (tcurrent, s1) \<leftarrow> sched_put_current cpu cur tstamp s0;
     (v, tslice, s2) \<leftarrow> dequeue_again cpu cur s1;
     let s3 = (if v \<noteq> cur then arch_vcpu_switch cpu tcurrent v s2 else s2);
     Some (if v \<noteq> cur then Some v else None, sched_run cpu v tstamp tslice s3) }"

text \<open>
  \<open>regs\<close> says that the register pointer is not NULL. The final \<^verbatim>\<open>arch_vcpu_post_switch\<close> only touches the
  registers. The lock of the wait queue is released by the switch itself.
\<close>

definition vmm_scheduler_switch :: "nat \<Rightarrow> bool \<Rightarrow> sched_sys \<Rightarrow> sched_sys option" where
  "vmm_scheduler_switch cpu regs s =
     (if \<not> regs then None
      else case current_vcpu (sched s cpu) of
        Some cur \<Rightarrow>
          let preempt_min = (if wq_lock (vcpus s cur) \<noteq> None then 1 else 0)
          in if preempt_count (vcpus s cur) = preempt_min then do {
               (nxt, s1) \<leftarrow> vmm_scheduler_next2 cpu cur s;
               Some (if nxt \<noteq> Some cur \<and> wq_lock (vcpus s1 cur) \<noteq> None \<and> preempt_count (vcpus s1 cur) \<noteq> 0
                     then upd_vcpu cur (\<lambda>x. x\<lparr>preempt_count := preempt_count x - 1\<rparr>) s1 else s1) }
             else Some (snd (vmm_timer_event_restart cpu (Some (Ev_sched cpu)) s))
      | None \<Rightarrow> map_option snd (vmm_scheduler_next1 cpu s))"

definition scheduler_timer_event :: "nat \<Rightarrow> sched_sys \<Rightarrow> sched_sys option" where
  "scheduler_timer_event cpu s =
     (if irq_regs (sched s cpu) then vmm_scheduler_switch cpu True s else Some s)"

definition vmm_scheduler_preempt_orphan :: "nat \<Rightarrow> sched_sys \<Rightarrow> sched_sys option" where
  "vmm_scheduler_preempt_orphan cpu s = vmm_scheduler_switch cpu True s"

section \<open>Calls to other CPUs\<close>

definition ipi_send :: "nat \<Rightarrow> ipi \<Rightarrow> sched_sys \<Rightarrow> sched_sys" where
  "ipi_send dst i s = (if cpu_online s dst then s\<lparr>ipis := (ipis s)(dst := ipis s dst @ [i])\<rparr> else s)"

definition scheduler_ipi_resched :: "nat \<Rightarrow> sched_sys \<Rightarrow> sched_sys option" where
  "scheduler_ipi_resched cpu s = do {
     let s1 = upd_sched cpu (\<lambda>c. c\<lparr>rq_resched_triggered := False\<rparr>) s;
     if irq_regs (sched s1 cpu) then do {
       p \<leftarrow> rq_prempt_needed cpu s1;
       if p then vmm_scheduler_switch cpu True s1 else Some s1 }
     else Some s1 }"

definition vmm_scheduler_force_resched :: "arch_ops \<Rightarrow> nat \<Rightarrow> nat \<Rightarrow> sched_sys \<Rightarrow> int \<times> sched_sys" where
  "vmm_scheduler_force_resched A cpu target s =
     (if cpu_count A \<le> target then (VMM_EINVALID, s)
      else if \<not> cpu_online s target then (VMM_ENOTAVAIL, s)
      else if target = cpu then (VMM_OK, s)
      else if \<not> rq_resched_triggered (sched s target)
      then (VMM_OK, ipi_send target Ipi_resched (upd_sched target (\<lambda>c. c\<lparr>rq_resched_triggered := True\<rparr>) s))
      else (VMM_OK, s))"

definition scheduler_system_time_sync :: "nat \<Rightarrow> sched_sys \<Rightarrow> sched_sys" where
  "scheduler_system_time_sync cpu s =
     (case current_vcpu (sched s cpu) of
        None \<Rightarrow> s
      | Some cur \<Rightarrow> vmm_scheduler_sync_system_time cpu cur s)"

section \<open>State changes\<close>

text \<open>
  The switch over the requested state: error code, whether to preempt, whether to skip the rest
  (\<^verbatim>\<open>goto skip_state_change\<close>), and the state.
\<close>

definition sc_reset :: "arch_ops \<Rightarrow> nat \<Rightarrow> sched_sys \<Rightarrow> (int \<times> bool \<times> bool \<times> sched_sys) option" where
  "sc_reset A v s =
     (let x = vcpus s v; cpu = hcpu x; is_cur = (current_vcpu (sched s cpu) = Some v) in
      if vstate x = VMM_VCPU_STATE_UNKNOWN then
        let (m, s1) = arch_call (have_memory A) s;
            (rc, vs) = vmm_schedalgo_vcpu_setup m (Some v) (vcpus s1)
        in Some (rc, False, False, s1\<lparr>vcpus := vs\<rparr>)
      else if vstate x \<noteq> VMM_VCPU_STATE_RESET then
        let s1 = upd_vcpu v (\<lambda>x. x\<lparr>resumed := False\<rparr>) s;
            (rc, s2) = (if \<not> is_cur \<and> vstate x = VMM_VCPU_STATE_READY then rq_detach cpu v s1 else (VMM_OK, s1))
        in if rc \<noteq> VMM_OK then Some (rc, False, False, s2)
           else let preempt = (is_cur \<and> vstate x = VMM_VCPU_STATE_RUNNING);
                    s3 = upd_vcpu v (\<lambda>x. x\<lparr>reset_count := reset_count x + 1\<rparr>) s2;
                    (rc, s4) = arch_call (\<lambda>k. arch_vcpu_init A k v) s3
                in if rc \<noteq> VMM_OK then Some (rc, preempt, False, s4)
                   else map_option (\<lambda>(rc, s5). (rc, preempt, False, s5)) (vmm_vcpu_irq_init A (Some v) s4)
      else Some (VMM_OK, False, True, s))"

definition sc_ready :: "nat \<Rightarrow> sched_sys \<Rightarrow> (int \<times> bool \<times> bool \<times> sched_sys) option" where
  "sc_ready v s =
     (let x = vcpus s v; cpu = hcpu x; is_cur = (current_vcpu (sched s cpu) = Some v) in
      if vstate x = VMM_VCPU_STATE_RESET \<or> vstate x = VMM_VCPU_STATE_PAUSED then do {
        (rc, s1) \<leftarrow> rq_enqueue cpu v s;
        preempt \<leftarrow> (if rc = VMM_OK \<and> \<not> is_cur then rq_prempt_needed cpu s1 else Some False);
        Some (rc, preempt, False, call_wq_cleanup v s1) }
      else if vstate x = VMM_VCPU_STATE_RUNNING then
        Some (VMM_OK, True, True, upd_vcpu v (\<lambda>x. x\<lparr>resumed := True\<rparr>) s)
      else if vstate x = VMM_VCPU_STATE_READY then Some (VMM_OK, False, True, s)
      else Some (VMM_EINVALID, False, False, s))"

definition sc_pause :: "nat \<Rightarrow> vcpu_state \<Rightarrow> sched_sys \<Rightarrow> (int \<times> bool \<times> bool \<times> sched_sys) option" where
  "sc_pause v new_state s =
     (let x = vcpus s v; cpu = hcpu x; is_cur = (current_vcpu (sched s cpu) = Some v) in
      if new_state = VMM_VCPU_STATE_PAUSED \<and> vstate x = VMM_VCPU_STATE_PAUSED then Some (VMM_OK, False, True, s)
      else if vstate x = VMM_VCPU_STATE_READY \<or> vstate x = VMM_VCPU_STATE_RUNNING then
        let s1 = upd_vcpu v (\<lambda>x. x\<lparr>resumed := False\<rparr>) s
        in if resumed x \<and> new_state = VMM_VCPU_STATE_PAUSED then Some (VMM_OK, False, True, call_wq_cleanup v s1)
           else if is_cur then Some (VMM_OK, True, False, s1)
           else if vstate x = VMM_VCPU_STATE_READY then
             let (rc, s2) = rq_detach cpu v s1 in Some (rc, False, False, s2)
           else Some (VMM_OK, False, False, s1)
      else Some (VMM_EINVALID, False, False, call_wq_cleanup v s))"

definition sc_request ::
  "arch_ops \<Rightarrow> nat \<Rightarrow> vcpu_state \<Rightarrow> sched_sys \<Rightarrow> (int \<times> bool \<times> bool \<times> sched_sys) option" where
  "sc_request A v new_state s =
     (case new_state of
        VMM_VCPU_STATE_UNKNOWN \<Rightarrow>
          let (rc, vs) = vmm_schedalgo_vcpu_cleanup (Some v) (vcpus s) in Some (rc, False, False, s\<lparr>vcpus := vs\<rparr>)
      | VMM_VCPU_STATE_RESET \<Rightarrow> sc_reset A v s
      | VMM_VCPU_STATE_READY \<Rightarrow> sc_ready v s
      | VMM_VCPU_STATE_RUNNING \<Rightarrow> Some (VMM_EINVALID, False, False, s)
      | VMM_VCPU_STATE_PAUSED \<Rightarrow> sc_pause v new_state s
      | VMM_VCPU_STATE_HALTED \<Rightarrow> sc_pause v new_state s)"

text \<open>The accounting of the state that ends; \<open>st\<close> is the state read at the start of the change.\<close>

definition sc_account :: "vcpu_state \<Rightarrow> u64 \<Rightarrow> vcpu \<Rightarrow> vcpu" where
  "sc_account st tstamp x =
     (case st of
        VMM_VCPU_STATE_READY \<Rightarrow> x\<lparr>state_ready_nsecs := state_ready_nsecs x + (tstamp - state_tstamp x)\<rparr>
      | VMM_VCPU_STATE_RUNNING \<Rightarrow> x\<lparr>state_running_nsecs := state_running_nsecs x + (tstamp - state_tstamp x)\<rparr>
      | VMM_VCPU_STATE_PAUSED \<Rightarrow> x\<lparr>state_paused_nsecs := state_paused_nsecs x + (tstamp - state_tstamp x)\<rparr>
      | VMM_VCPU_STATE_HALTED \<Rightarrow> x\<lparr>state_halted_nsecs := state_halted_nsecs x + (tstamp - state_tstamp x)\<rparr>
      | _ \<Rightarrow> x)"

definition sc_commit :: "nat \<Rightarrow> nat \<Rightarrow> vcpu_state \<Rightarrow> vcpu_state \<Rightarrow> sched_sys \<Rightarrow> sched_sys" where
  "sc_commit chcpu v st new_state s =
     (let (tstamp, s1) = vmm_timer_timestamp chcpu s;
          s2 = upd_vcpu v (sc_account st tstamp) s1;
          s3 = (if new_state = VMM_VCPU_STATE_RESET
                then upd_vcpu v (\<lambda>x. x\<lparr>state_ready_nsecs := 0, state_running_nsecs := 0, state_paused_nsecs := 0,
                       state_halted_nsecs := 0, system_nsecs := 0, reset_tstamp := tstamp\<rparr>) s2 else s2)
      in upd_vcpu v (\<lambda>x. x\<lparr>vstate := new_state, state_tstamp := tstamp\<rparr>) s3)"

text \<open>The end of \<^verbatim>\<open>vmm_scheduler_state_change\<close>: preempt the CPU of the VCPU.\<close>

definition sc_preempt :: "arch_ops \<Rightarrow> nat \<Rightarrow> nat \<Rightarrow> int \<Rightarrow> sched_sys \<Rightarrow> (int \<times> sched_sys) option" where
  "sc_preempt A chcpu vhcpu rc s =
     (case current_vcpu (sched s vhcpu) of
        None \<Rightarrow> Some (rc, s)
      | Some cur \<Rightarrow>
          if chcpu = vhcpu then
            if is_normal (vcpus s cur) then
              Some (rc, upd_sched vhcpu (\<lambda>c. c\<lparr>yield_on_irq_exit := True\<rparr>) s)
            else if irq_context (sched s vhcpu) then
              map_option (Pair rc) (vmm_scheduler_switch vhcpu (irq_regs (sched s vhcpu)) s)
            else map_option (Pair rc) (vmm_scheduler_preempt_orphan vhcpu s)
          else Some (vmm_scheduler_force_resched A chcpu vhcpu s))"

definition vmm_scheduler_state_change ::
  "arch_ops \<Rightarrow> nat \<Rightarrow> nat option \<Rightarrow> vcpu_state \<Rightarrow> sched_sys \<Rightarrow> (int \<times> sched_sys) option" where
  "vmm_scheduler_state_change A chcpu vp new_state s =
     (case vp of
        None \<Rightarrow> Some (VMM_EFAIL, s)
      | Some v \<Rightarrow> do {
          let vhcpu = hcpu (vcpus s v);
          (rc, preempt, skip, s1) \<leftarrow> sc_request A v new_state s;
          let s2 = (if rc = VMM_OK \<and> \<not> skip then sc_commit chcpu v (vstate (vcpus s v)) new_state s1 else s1);
          if preempt then sc_preempt A chcpu vhcpu rc s2 else Some (rc, s2) })"

text \<open>What follows \<^verbatim>\<open>arch_vcpu_preempt_orphan()\<close> when the VCPU runs again: it takes back the wait-queue lock.\<close>

definition resume_relock :: "nat \<Rightarrow> sched_sys \<Rightarrow> sched_sys" where
  "resume_relock cpu s =
     (case current_vcpu (sched s cpu) of
        None \<Rightarrow> s
      | Some cur \<Rightarrow> if wq_lock (vcpus s cur) \<noteq> None then vmm_scheduler_preempt_disable cpu s else s)"

section \<open>Host CPU of a VCPU\<close>

definition vmm_scheduler_get_hcpu :: "nat option \<Rightarrow> sched_sys \<Rightarrow> int \<times> nat option" where
  "vmm_scheduler_get_hcpu vp s =
     (case vp of None \<Rightarrow> (VMM_EFAIL, None) | Some v \<Rightarrow> (VMM_OK, Some (hcpu (vcpus s v))))"

definition vmm_scheduler_check_current_hcpu :: "nat \<Rightarrow> nat option \<Rightarrow> sched_sys \<Rightarrow> bool" where
  "vmm_scheduler_check_current_hcpu cpu vp s =
     (case vp of None \<Rightarrow> False | Some v \<Rightarrow> hcpu (vcpus s v) = cpu)"

definition scheduler_ipi_migrate_vcpu ::
  "arch_ops \<Rightarrow> nat \<Rightarrow> nat \<Rightarrow> nat \<Rightarrow> sched_sys \<Rightarrow> sched_sys option" where
  "scheduler_ipi_migrate_vcpu A old_hcpu v new_hcpu s =
     (if vstate (vcpus s v) \<noteq> VMM_VCPU_STATE_READY \<or> hcpu (vcpus s v) \<noteq> old_hcpu \<or> hcpu (vcpus s v) = new_hcpu
      then Some s
      else do {
        let s1 = snd (rq_detach old_hcpu v s);
        let s2 = upd_vcpu v (\<lambda>x. x\<lparr>hcpu := new_hcpu\<rparr>) s1;
        (rc, s3) \<leftarrow> rq_enqueue new_hcpu v s2;
        Some (snd (vmm_scheduler_force_resched A old_hcpu new_hcpu s3)) })"

definition vmm_scheduler_set_hcpu ::
  "arch_ops \<Rightarrow> nat \<Rightarrow> nat option \<Rightarrow> nat \<Rightarrow> sched_sys \<Rightarrow> (int \<times> sched_sys) option" where
  "vmm_scheduler_set_hcpu A cpu vp new_hcpu s =
     (case vp of
        None \<Rightarrow> Some (VMM_EFAIL, s)
      | Some v \<Rightarrow>
          let old_hcpu = hcpu (vcpus s v) in
          if old_hcpu = new_hcpu then Some (VMM_OK, s)
          else if new_hcpu \<notin> cpu_affinity (vcpus s v) then Some (VMM_EINVALID, s)
          else if vstate (vcpus s v) = VMM_VCPU_STATE_READY \<or> vstate (vcpus s v) = VMM_VCPU_STATE_RUNNING then
            if old_hcpu = cpu
            then map_option (Pair VMM_OK) (scheduler_ipi_migrate_vcpu A cpu v new_hcpu s)
            else Some (VMM_OK, ipi_send old_hcpu (Ipi_migrate v new_hcpu) s)
          else Some (VMM_OK, upd_vcpu v (\<lambda>x. x\<lparr>hcpu := new_hcpu\<rparr>) s))"

section \<open>Interrupt entry and exit\<close>

definition vmm_scheduler_irq_enter :: "nat \<Rightarrow> bool \<Rightarrow> bool \<Rightarrow> sched_sys \<Rightarrow> sched_sys" where
  "vmm_scheduler_irq_enter cpu regs vcpu_context s =
     (let (t, s1) = vmm_timer_timestamp cpu s
      in upd_sched cpu (\<lambda>c. c\<lparr>irq_enter_tstamp := t, irq_context := \<not> vcpu_context, irq_regs := regs,
                             yield_on_irq_exit := False\<rparr>) s1)"

definition vmm_scheduler_irq_exit :: "arch_ops \<Rightarrow> nat \<Rightarrow> sched_sys \<Rightarrow> sched_sys option" where
  "vmm_scheduler_irq_exit A cpu s =
     (case current_vcpu (sched s cpu) of
        None \<Rightarrow> Some s
      | Some v \<Rightarrow> do {
          s1 \<leftarrow> (if vstate (vcpus s v) \<noteq> VMM_VCPU_STATE_RUNNING \<or> yield_on_irq_exit (sched s cpu)
                then map_option (upd_sched cpu (\<lambda>c. c\<lparr>yield_on_irq_exit := False\<rparr>))
                       (vmm_scheduler_switch cpu (irq_regs (sched s cpu)) s)
                else Some s);
          s2 \<leftarrow> vmm_vcpu_irq_process A (current_vcpu (sched s1 cpu)) s1;
          let (t, s3) = vmm_timer_timestamp cpu s2;
          Some (upd_sched cpu (\<lambda>c. (if irq_context c
                  then c\<lparr>irq_process_ns := irq_process_ns c + (t - irq_enter_tstamp c)\<rparr>
                  else c\<lparr>exp_process_ns := exp_process_ns c + (t - irq_enter_tstamp c)\<rparr>)
                \<lparr>irq_context := False, irq_regs := False\<rparr>) s3) })"

definition vmm_scheduler_irq_context :: "nat \<Rightarrow> sched_sys \<Rightarrow> bool" where
  "vmm_scheduler_irq_context cpu s = irq_context (sched s cpu)"

definition vmm_scheduler_orphan_context :: "nat \<Rightarrow> sched_sys \<Rightarrow> bool" where
  "vmm_scheduler_orphan_context cpu s =
     (case current_vcpu (sched s cpu) of
        Some v \<Rightarrow> \<not> irq_context (sched s cpu) \<and> \<not> is_normal (vcpus s v) | None \<Rightarrow> False)"

definition vmm_scheduler_normal_context :: "nat \<Rightarrow> sched_sys \<Rightarrow> bool" where
  "vmm_scheduler_normal_context cpu s =
     (case current_vcpu (sched s cpu) of
        Some v \<Rightarrow> \<not> irq_context (sched s cpu) \<and> is_normal (vcpus s v) | None \<Rightarrow> False)"

definition vmm_scheduler_ready_count :: "arch_ops \<Rightarrow> nat \<Rightarrow> u8 \<Rightarrow> sched_sys \<Rightarrow> u32 option" where
  "vmm_scheduler_ready_count A target prio s =
     (if cpu_count A \<le> target \<or> \<not> cpu_online s target \<or> unat prio < VMM_VCPU_MIN_PRIORITY \<or>
         VMM_VCPU_MAX_PRIORITY < unat prio then Some 0
      else rq_length target (unat prio) s)"

definition vmm_scheduler_current_vcpu :: "nat \<Rightarrow> sched_sys \<Rightarrow> nat option" where
  "vmm_scheduler_current_vcpu cpu s = current_vcpu (sched s cpu)"

definition vmm_scheduler_current_priority :: "nat \<Rightarrow> sched_sys \<Rightarrow> u8" where
  "vmm_scheduler_current_priority cpu s =
     (case current_vcpu (sched s cpu) of Some v \<Rightarrow> priority (vcpus s v) | None \<Rightarrow> of_nat VMM_VCPU_MAX_PRIORITY)"

definition vmm_scheduler_yield :: "arch_ops \<Rightarrow> nat \<Rightarrow> sched_sys \<Rightarrow> sched_sys option" where
  "vmm_scheduler_yield A cpu s =
     (if irq_context (sched s cpu) then None
      else case current_vcpu (sched s cpu) of
        None \<Rightarrow> None
      | Some v \<Rightarrow>
          if vstate (vcpus s v) = VMM_VCPU_STATE_RUNNING
          then map_option snd (vmm_scheduler_state_change A cpu (Some v) VMM_VCPU_STATE_READY s)
          else Some s)"

section \<open>Statistics\<close>

definition sc_sync_stats :: "u64 \<Rightarrow> vcpu \<Rightarrow> vcpu" where
  "sc_sync_stats t x =
     (if vstate x \<in> {VMM_VCPU_STATE_READY, VMM_VCPU_STATE_RUNNING, VMM_VCPU_STATE_PAUSED, VMM_VCPU_STATE_HALTED}
      then (sc_account (vstate x) t x)\<lparr>state_tstamp := t\<rparr> else x)"

text \<open>
  The result holds the VCPU record the output pointers are filled from, and \<^verbatim>\<open>last_reset_nsecs\<close>.
\<close>

definition vmm_scheduler_stats ::
  "nat \<Rightarrow> nat option \<Rightarrow> sched_sys \<Rightarrow> int \<times> (vcpu \<times> u64) option \<times> sched_sys" where
  "vmm_scheduler_stats cpu vp s =
     (case vp of
        None \<Rightarrow> (VMM_EFAIL, None, s)
      | Some v \<Rightarrow>
          let vh = hcpu (vcpus s v);
              s1 = (if vh = cpu then scheduler_system_time_sync cpu s else ipi_send vh Ipi_time_sync s);
              (t, s2) = vmm_timer_timestamp cpu s1;
              s3 = upd_vcpu v (sc_sync_stats t) s2
          in (VMM_OK, Some (vcpus s3 v, t - reset_tstamp (vcpus s3 v)), s3))"

definition scheduler_sample_event :: "nat \<Rightarrow> sched_sys \<Rightarrow> sched_sys" where
  "scheduler_sample_event cpu s =
     (let (rc, st, s1) = vmm_scheduler_stats cpu (idle_vcpu (sched s cpu)) s;
          idle_ns = (case st of None \<Rightarrow> 0 | Some (x, t) \<Rightarrow> state_running_nsecs x);
          irq_ns = irq_process_ns (sched s1 cpu);
          s2 = upd_sched cpu (\<lambda>c. c\<lparr>sample_idle_ns := idle_ns - sample_idle_last_ns c, sample_idle_last_ns := idle_ns,
                                   sample_irq_ns := irq_ns - sample_irq_last_ns c, sample_irq_last_ns := irq_ns\<rparr>) s1
      in snd (vmm_timer_event_start cpu (Some (Ev_sample cpu)) (sample_period_ns (sched s2 cpu)) s2))"

definition online_sched :: "arch_ops \<Rightarrow> nat \<Rightarrow> sched_sys \<Rightarrow> sched_ctrl option" where
  "online_sched A target s =
     (if cpu_count A \<le> target \<or> \<not> cpu_online s target then None else Some (sched s target))"

text \<open>\<open>dflt\<close> is \<^verbatim>\<open>SAMPLE_EVENT_PERIOD\<close>, a build constant.\<close>

definition vmm_scheduler_get_sample_period :: "arch_ops \<Rightarrow> u64 \<Rightarrow> nat \<Rightarrow> sched_sys \<Rightarrow> u64" where
  "vmm_scheduler_get_sample_period A dflt target s =
     (case online_sched A target s of None \<Rightarrow> dflt | Some c \<Rightarrow> sample_period_ns c)"

definition vmm_scheduler_set_sample_period :: "arch_ops \<Rightarrow> nat \<Rightarrow> u64 \<Rightarrow> sched_sys \<Rightarrow> sched_sys" where
  "vmm_scheduler_set_sample_period A target period s =
     (case online_sched A target s of None \<Rightarrow> s
      | Some c \<Rightarrow> upd_sched target (\<lambda>c. c\<lparr>sample_period_ns := period\<rparr>) s)"

definition vmm_scheduler_irq_time :: "arch_ops \<Rightarrow> nat \<Rightarrow> sched_sys \<Rightarrow> u64" where
  "vmm_scheduler_irq_time A target s =
     (case online_sched A target s of None \<Rightarrow> 0 | Some c \<Rightarrow> sample_irq_ns c)"

definition vmm_scheduler_idle_time :: "arch_ops \<Rightarrow> nat \<Rightarrow> sched_sys \<Rightarrow> u64" where
  "vmm_scheduler_idle_time A target s =
     (case online_sched A target s of None \<Rightarrow> 0 | Some c \<Rightarrow> sample_idle_ns c)"

definition vmm_scheduler_idle_vcpu :: "arch_ops \<Rightarrow> nat \<Rightarrow> sched_sys \<Rightarrow> nat option" where
  "vmm_scheduler_idle_vcpu A target s =
     (case online_sched A target s of None \<Rightarrow> None | Some c \<Rightarrow> idle_vcpu c)"

section \<open>Start of a CPU\<close>

text \<open>
  \<open>create\<close> is \<^verbatim>\<open>vmm_manager_vcpu_orphan_create\<close> for the idle VCPU, of the VCPU manager;
  \<open>period\<close> is \<^verbatim>\<open>SAMPLE_EVENT_PERIOD\<close>.
\<close>

definition scheduler_startup ::
  "arch_ops \<Rightarrow> (sched_sys \<Rightarrow> nat option \<times> sched_sys) \<Rightarrow> u64 \<Rightarrow> nat \<Rightarrow> sched_sys \<Rightarrow> (int \<times> sched_sys) option" where
  "scheduler_startup A create period cpu s =
     (let (m, s0) = arch_call (have_memory A) s;
          q = vmm_schedalgo_rq_create m;
          s1 = upd_sched cpu (\<lambda>c. \<lparr>srq = q, rq_resched_triggered = False, current_vcpu_irq_ns = 0,
                 current_vcpu_exp_ns = 0, current_vcpu = None, idle_vcpu = None, irq_context = False,
                 irq_regs = False, irq_enter_tstamp = 0, irq_process_ns = 0, exp_process_ns = 0,
                 yield_on_irq_exit = False, sample_period_ns = (if q = None then 0 else period), sample_idle_ns = 0,
                 sample_idle_last_ns = 0, sample_irq_ns = 0, sample_irq_last_ns = 0\<rparr>) s0
      in if q = None then Some (VMM_EFAIL, s1)
         else let s2 = upd_event (Ev_sample cpu) (\<lambda>e. INIT_TIMER_EVENT)
                         (upd_event (Ev_sched cpu) (\<lambda>e. INIT_TIMER_EVENT) s1);
                  s3 = s2\<lparr>cpu_online := (cpu_online s2)(cpu := True)\<rparr>;
                  (iv, s4) = create s3;
                  s5 = upd_sched cpu (\<lambda>c. c\<lparr>idle_vcpu := iv\<rparr>) s4
              in if iv = None then Some (VMM_EFAIL, s5)
                 else do {
                   (rc, s6) \<leftarrow> vmm_scheduler_state_change A cpu iv VMM_VCPU_STATE_READY s5;
                   if rc \<noteq> VMM_OK then Some (rc, s6)
                   else let s7 = snd (vmm_timer_event_start cpu (Some (Ev_sched cpu)) 0 s6)
                        in Some (VMM_OK, snd (vmm_timer_event_start cpu (Some (Ev_sample cpu)) period s7)) })"

end
