(* ===== verification/Sched_Inv.thy ===== *)
theory Sched_Inv
  imports Scheduler
begin

text \<open>
  The scheduler invariant and its preservation. The invariant relates the VCPUs, the ready queues and
  the current VCPUs of all host CPUs: a queue holds exactly the READY VCPUs of its CPU, once each and at
  their priority, and a RUNNING VCPU is the current VCPU of its own CPU. It is stated over these three
  parts alone, so that every operation reduces to four moves: put a VCPU in a queue, run the head of a
  queue, take a VCPU out of a queue, and change the state of a VCPU that is in no queue.
\<close>

section \<open>Invariant\<close>

definition sched_ok :: "(nat \<Rightarrow> vcpu) \<Rightarrow> (nat \<Rightarrow> rq option) \<Rightarrow> (nat \<Rightarrow> nat option) \<Rightarrow> bool" where
  "sched_ok vs Q C \<longleftrightarrow>
     (\<forall>c r. Q c = Some r \<longrightarrow> rq_wf r \<and> (\<forall>p. distinct (rq_level r p) \<and>
        (\<forall>v \<in> set (rq_level r p). hcpu (vs v) = c \<and> vstate (vs v) = VMM_VCPU_STATE_READY \<and> rq_prio vs v = p))) \<and>
     (\<forall>v. vstate (vs v) = VMM_VCPU_STATE_READY \<longrightarrow>
        (\<exists>r. Q (hcpu (vs v)) = Some r \<and> v \<in> set (rq_level r (rq_prio vs v)))) \<and>
     (\<forall>v. vstate (vs v) = VMM_VCPU_STATE_RUNNING \<longrightarrow> C (hcpu (vs v)) = Some v) \<and>
     (\<forall>v. vstate (vs v) \<noteq> VMM_VCPU_STATE_UNKNOWN \<longrightarrow> rq_ok vs v) \<and>
     (\<forall>c v. C c = Some v \<longrightarrow> hcpu (vs v) = c \<and> Q c \<noteq> None \<and> vstate (vs v) \<noteq> VMM_VCPU_STATE_UNKNOWN)"

definition queues :: "sched_sys \<Rightarrow> nat \<Rightarrow> rq option" where
  "queues s c = srq (sched s c)"

definition currents :: "sched_sys \<Rightarrow> nat \<Rightarrow> nat option" where
  "currents s c = current_vcpu (sched s c)"

definition sched_inv :: "sched_sys \<Rightarrow> bool" where
  "sched_inv s \<longleftrightarrow> timer_inv s \<and> sched_ok (vcpus s) (queues s) (currents s)"

text \<open>\<open>moved vs vs' v st\<close>: only the state of \<open>v\<close> changes, to \<open>st\<close>, as far as the invariant reads VCPUs.\<close>

definition moved :: "(nat \<Rightarrow> vcpu) \<Rightarrow> (nat \<Rightarrow> vcpu) \<Rightarrow> nat \<Rightarrow> vcpu_state \<Rightarrow> bool" where
  "moved vs vs' v st \<longleftrightarrow> (\<forall>x. hcpu (vs' x) = hcpu (vs x) \<and> priority (vs' x) = priority (vs x) \<and>
     sched_priv (vs' x) = sched_priv (vs x) \<and> vstate (vs' x) = (if x = v then st else vstate (vs x)))"

definition unmoved :: "(nat \<Rightarrow> vcpu) \<Rightarrow> (nat \<Rightarrow> vcpu) \<Rightarrow> bool" where
  "unmoved vs vs' \<longleftrightarrow> (\<forall>x. hcpu (vs' x) = hcpu (vs x) \<and> priority (vs' x) = priority (vs x) \<and>
     sched_priv (vs' x) = sched_priv (vs x) \<and> vstate (vs' x) = vstate (vs x))"

lemma moved_prio: "moved vs vs' v st \<Longrightarrow> rq_prio vs' x = rq_prio vs x \<and> rq_ok vs' x = rq_ok vs x"
  by (simp add: moved_def rq_prio_def rq_ok_def)

lemma unmoved_prio: "unmoved vs vs' \<Longrightarrow> rq_prio vs' x = rq_prio vs x \<and> rq_ok vs' x = rq_ok vs x"
  by (simp add: unmoved_def rq_prio_def rq_ok_def)

lemma moved_enq: "moved vs vs' v st \<Longrightarrow> rq_enq vs' r x = rq_enq vs r x"
  by (simp add: rq_enq_def vmm_schedalgo_rq_enqueue_def moved_def)

lemma rq_deq_cong: "rq_deq vs' r = rq_deq vs r"
  by (simp add: rq_deq_def vmm_schedalgo_rq_dequeue_def Let_def split: option.splits)

lemma unmoved_ok: "unmoved vs vs' \<Longrightarrow> sched_ok vs' Q C = sched_ok vs Q C"
  using unmoved_prio [of vs vs'] unfolding sched_ok_def by (simp add: unmoved_def)

lemma sched_okI:
  assumes "\<And>c r. Q c = Some r \<Longrightarrow> rq_wf r" and "\<And>c r p. Q c = Some r \<Longrightarrow> distinct (rq_level r p)"
    and "\<And>c r p v. Q c = Some r \<Longrightarrow> v \<in> set (rq_level r p) \<Longrightarrow>
      hcpu (vs v) = c \<and> vstate (vs v) = VMM_VCPU_STATE_READY \<and> rq_prio vs v = p"
    and "\<And>v. vstate (vs v) = VMM_VCPU_STATE_READY \<Longrightarrow> \<exists>r. Q (hcpu (vs v)) = Some r \<and> v \<in> set (rq_level r (rq_prio vs v))"
    and "\<And>v. vstate (vs v) = VMM_VCPU_STATE_RUNNING \<Longrightarrow> C (hcpu (vs v)) = Some v"
    and "\<And>v. vstate (vs v) \<noteq> VMM_VCPU_STATE_UNKNOWN \<Longrightarrow> rq_ok vs v"
    and "\<And>c v. C c = Some v \<Longrightarrow> hcpu (vs v) = c \<and> Q c \<noteq> None \<and> vstate (vs v) \<noteq> VMM_VCPU_STATE_UNKNOWN"
  shows "sched_ok vs Q C"
  using assms unfolding sched_ok_def by blast

lemma sched_okD:
  assumes "sched_ok vs Q C"
  shows "vstate (vs v) = VMM_VCPU_STATE_READY \<Longrightarrow> \<exists>r. Q (hcpu (vs v)) = Some r \<and> v \<in> set (rq_level r (rq_prio vs v))"
    and "vstate (vs v) = VMM_VCPU_STATE_RUNNING \<Longrightarrow> C (hcpu (vs v)) = Some v"
    and "vstate (vs v) \<noteq> VMM_VCPU_STATE_UNKNOWN \<Longrightarrow> rq_ok vs v"
    and "C c = Some v \<Longrightarrow> hcpu (vs v) = c \<and> Q c \<noteq> None \<and> vstate (vs v) \<noteq> VMM_VCPU_STATE_UNKNOWN"
  using assms unfolding sched_ok_def by blast+

lemma sched_ok_queue:
  assumes "sched_ok vs Q C" and "Q c = Some r"
  shows "rq_wf r" "distinct (rq_level r p)"
    "v \<in> set (rq_level r p) \<Longrightarrow> hcpu (vs v) = c \<and> vstate (vs v) = VMM_VCPU_STATE_READY \<and> rq_prio vs v = p \<and> rq_ok vs v"
proof -
  show "rq_wf r" "distinct (rq_level r p)" using assms unfolding sched_ok_def by blast+
  assume "v \<in> set (rq_level r p)"
  with assms have "hcpu (vs v) = c \<and> vstate (vs v) = VMM_VCPU_STATE_READY \<and> rq_prio vs v = p"
    unfolding sched_ok_def by blast
  with sched_okD(3) [OF assms(1), of v] show "hcpu (vs v) = c \<and> vstate (vs v) = VMM_VCPU_STATE_READY \<and>
      rq_prio vs v = p \<and> rq_ok vs v" by simp
qed

section \<open>Moves\<close>

lemma enqueue_move:
  assumes ok: "sched_ok vs Q C" and st: "vstate (vs v) \<noteq> VMM_VCPU_STATE_READY" and rq: "rq_ok vs v"
    and q: "Q (hcpu (vs v)) = Some r" and m: "moved vs vs' v VMM_VCPU_STATE_READY"
  shows "sched_ok vs' (Q(hcpu (vs v) := Some (rq_enq vs r v))) C"
proof -
  note wf = sched_ok_queue [OF ok]
  have lv: "rq_wf (rq_enq vs r v)"
    "\<And>p. rq_level (rq_enq vs r v) p = (if p = rq_prio vs v then rq_level r p @ [v] else rq_level r p)"
    using rq_enq_level [OF wf(1) [OF q] rq] by blast+
  have new: "v \<notin> set (rq_level r' p)" if "Q c = Some r'" for c r' p
    using wf(3) [OF that, of v p] st by blast
  note M = moved_prio [OF m] m [unfolded moved_def]
  show ?thesis
  proof (rule sched_okI, goal_cases)
    case (1 c r') then show ?case using lv wf(1) by (simp split: if_splits)
  next
    case (2 c r' p) then show ?case using lv new [OF q] wf(2) q by (auto split: if_splits)
  next
    case (3 c r' p w)
    show ?case
    proof (cases "w = v")
      case True then show ?thesis using 3 M lv(2) new new [OF q] by (auto split: if_splits)
    next
      case False then show ?thesis using 3 M lv(2) wf(3) q by (auto split: if_splits)
    qed
  next
    case (4 w)
    show ?case
    proof (cases "w = v")
      case True then show ?thesis using M lv by simp
    next
      case False
      then show ?thesis using 4 M lv q sched_okD(1) [OF ok, of w] by (cases "hcpu (vs w) = hcpu (vs v)") auto
    qed
  next
    case (5 w) then show ?case using M sched_okD(2) [OF ok, of w] by (simp split: if_splits)
  next
    case (6 w) then show ?case using M sched_okD(3) [OF ok, of w] rq by (simp split: if_splits)
  next
    case (7 c w) then show ?case using M sched_okD(4) [OF ok, of c w] by simp
  qed
qed

lemma run_move:
  assumes ok: "sched_ok vs Q C" and q: "Q c = Some r" and d: "rq_deq vs r = Some (v, r')"
    and cur: "\<forall>w. C c = Some w \<longrightarrow> vstate (vs w) \<noteq> VMM_VCPU_STATE_RUNNING"
    and m: "moved vs vs' v VMM_VCPU_STATE_RUNNING"
  shows "sched_ok vs' (Q(c := Some r')) (C(c := Some v))"
proof -
  note wf = sched_ok_queue [OF ok]
  obtain p where p: "rq_wf r'" "rq_level r p = v # rq_level r' p" "\<And>p'. p' \<noteq> p \<Longrightarrow> rq_level r' p' = rq_level r p'"
    using wf(1) [OF q] d by (cases rule: rq_dequeue_cases [of r vs]) auto
  have v: "hcpu (vs v) = c" "vstate (vs v) = VMM_VCPU_STATE_READY" "rq_prio vs v = p" "rq_ok vs v"
    using wf(3) [OF q, of v p] p(2) by auto
  have sub: "set (rq_level r' p') = set (rq_level r p') - {v}" "distinct (rq_level r' p')" for p'
    using p(2,3) wf(2) [OF q, of p] wf(2) [OF q, of p'] wf(3) [OF q, of v p'] v(3) by (cases "p' = p"; auto)+
  note M = moved_prio [OF m] m [unfolded moved_def]
  have Cv: "w = v \<or> vstate (vs w) \<noteq> VMM_VCPU_STATE_RUNNING \<or> hcpu (vs w) \<noteq> c" for w
    using cur sched_okD(2) [OF ok, of w] by auto
  show ?thesis
  proof (rule sched_okI, goal_cases)
    case (1 c' r1) then show ?case using p(1) wf(1) by (simp split: if_splits)
  next
    case (2 c' r1 p') then show ?case using sub wf(2) by (simp split: if_splits)
  next
    case (3 c' r1 p' w) then show ?case
      using sub M wf(3) v(1) q by (auto split: if_splits)
  next
    case (4 w)
    then have "w \<noteq> v" using M by auto
    then show ?case using 4 M q sub sched_okD(1) [OF ok, of w] by (cases "hcpu (vs w) = c") auto
  next
    case (5 w) then show ?case using M sched_okD(2) [OF ok, of w] v Cv [of w] by (auto split: if_splits)
  next
    case (6 w) then show ?case using M sched_okD(3) [OF ok, of w] v by (simp split: if_splits)
  next
    case (7 c' w) then show ?case using M sched_okD(4) [OF ok, of c' w] v by (auto split: if_splits)
  qed
qed

text \<open>A VCPU that is in no queue takes a state other than READY and RUNNING.\<close>

lemma stop_move:
  assumes ok: "sched_ok vs Q C" and st: "vstate (vs v) \<noteq> VMM_VCPU_STATE_READY"
    and new: "st \<noteq> VMM_VCPU_STATE_READY" "st \<noteq> VMM_VCPU_STATE_RUNNING"
    and known: "st \<noteq> VMM_VCPU_STATE_UNKNOWN \<longrightarrow> rq_ok vs' v"
    and cur: "st = VMM_VCPU_STATE_UNKNOWN \<longrightarrow> C (hcpu (vs v)) \<noteq> Some v"
    and m: "\<forall>x. x \<noteq> v \<longrightarrow> vs' x = vs x" "vstate (vs' v) = st" "hcpu (vs' v) = hcpu (vs v)"
  shows "sched_ok vs' Q C"
proof -
  note wf = sched_ok_queue [OF ok]
  have o: "rq_prio vs' x = rq_prio vs x" "rq_ok vs' x = rq_ok vs x" if "x \<noteq> v" for x
    using m(1) that by (simp_all add: rq_prio_def rq_ok_def)
  have notin: "w \<noteq> v" if "Q c = Some r" "w \<in> set (rq_level r p)" for c r p w
    using wf(3) [OF that] st by auto
  show ?thesis
  proof (rule sched_okI, goal_cases)
    case (1 c r) then show ?case by (rule wf(1))
  next
    case (2 c r p) then show ?case by (rule wf(2))
  next
    case (3 c r p w) then show ?case using wf(3) [OF 3] notin [OF 3] m(1) o by simp
  next
    case (4 w)
    then have "w \<noteq> v" using m(2) new by auto
    then show ?case using 4 sched_okD(1) [OF ok, of w] m(1) o by simp
  next
    case (5 w)
    then have "w \<noteq> v" using m(2) new by auto
    then show ?case using 5 sched_okD(2) [OF ok, of w] m(1) by simp
  next
    case (6 w) then show ?case using sched_okD(3) [OF ok, of w] m known o by (cases "w = v") auto
  next
    case (7 c w) then show ?case using sched_okD(4) [OF ok 7] m cur by (cases "w = v") auto
  qed
qed

text \<open>A READY VCPU leaves its queue.\<close>

lemma detach_move:
  assumes ok: "sched_ok vs Q C" and q: "Q (hcpu (vs v)) = Some r"
    and new: "st \<notin> {VMM_VCPU_STATE_READY, VMM_VCPU_STATE_RUNNING, VMM_VCPU_STATE_UNKNOWN}"
    and known: "vstate (vs v) = VMM_VCPU_STATE_READY"
    and m: "moved vs vs' v st"
  shows "sched_ok vs' (Q(hcpu (vs v) := Some (map (remove1 v) r))) C"
proof -
  note wf = sched_ok_queue [OF ok]
  have lv: "rq_level (map (remove1 v) r) p = remove1 v (rq_level r p)" for p by (simp add: rq_level_def)
  have w: "rq_wf (map (remove1 v) r)" using wf(1) [OF q] by (simp add: rq_wf_def)
  have sub: "set (rq_level (map (remove1 v) r) p) = set (rq_level r p) - {v}"
    "distinct (rq_level (map (remove1 v) r) p)" for p
    using wf(2) [OF q, of p] by (simp_all add: lv)
  note M = moved_prio [OF m] m [unfolded moved_def]
  show ?thesis
  proof (rule sched_okI, goal_cases)
    case (1 c' r1) then show ?case using w wf(1) by (simp split: if_splits)
  next
    case (2 c' r1 p') then show ?case using sub wf(2) by (simp split: if_splits)
  next
    case (3 c' r1 p' w) then show ?case
      using sub M wf(3) [of c' _ w p'] q by (auto split: if_splits)
  next
    case (4 w)
    then have "w \<noteq> v" using M new by auto
    then show ?case using 4 M q sub sched_okD(1) [OF ok, of w] by (cases "hcpu (vs w) = hcpu (vs v)") auto
  next
    case (5 w) then show ?case using M sched_okD(2) [OF ok, of w] new by (auto split: if_splits)
  next
    case (6 w) then show ?case using M sched_okD(3) [OF ok, of w] known by (simp split: if_splits)
  next
    case (7 c' w) then show ?case using M sched_okD(4) [OF ok 7] new by (simp split: if_splits)
  qed
qed

text \<open>A VCPU that is neither queued nor current changes its host CPU.\<close>

lemma rehost_move:
  assumes ok: "sched_ok vs Q C" and st: "vstate (vs v) \<notin> {VMM_VCPU_STATE_READY, VMM_VCPU_STATE_RUNNING}"
    and cur: "C (hcpu (vs v)) \<noteq> Some v"
    and m: "vs' = vs(v := (vs v)\<lparr>hcpu := c\<rparr>)"
  shows "sched_ok vs' Q C"
proof -
  note wf = sched_ok_queue [OF ok]
  have o: "rq_prio vs' x = rq_prio vs x" "rq_ok vs' x = rq_ok vs x" "vstate (vs' x) = vstate (vs x)"
    "x \<noteq> v \<Longrightarrow> hcpu (vs' x) = hcpu (vs x)" for x
    using m by (simp_all add: rq_prio_def rq_ok_def)
  have notin: "w \<noteq> v" if "Q c = Some r" "w \<in> set (rq_level r p)" for c r p w
    using wf(3) [OF that] st by auto
  show ?thesis
  proof (rule sched_okI, goal_cases)
    case (1 c r) then show ?case by (rule wf(1))
  next
    case (2 c r p) then show ?case by (rule wf(2))
  next
    case (3 c r p w) then show ?case using wf(3) [OF 3] notin [OF 3] o by simp
  next
    case (4 w)
    then have "w \<noteq> v" using o st by auto
    then show ?case using 4 sched_okD(1) [OF ok, of w] o by simp
  next
    case (5 w)
    then have "w \<noteq> v" using o st by auto
    then show ?case using 5 sched_okD(2) [OF ok, of w] o by simp
  next
    case (6 w) then show ?case using sched_okD(3) [OF ok, of w] o by simp
  next
    case (7 c w) then show ?case using sched_okD(4) [OF ok 7] o cur by (cases "w = v") auto
  qed
qed

section \<open>Frames\<close>

lemma queues_simps [simp]:
  "queues (upd_vcpu v f s) = queues s" "queues (upd_sched c g s) = (queues s)(c := srq (g (sched s c)))"
  "queues (snd (vmm_timer_timestamp c s)) = queues s" "queues (snd (vmm_timer_event_start c e d s)) = queues s"
  "queues (snd (vmm_timer_event_restart c e s)) = queues s" "queues (call_wq_cleanup v s) = queues s"
  "queues (arch_vcpu_switch c t v s) = queues s" "queues (s\<lparr>ipis := i\<rparr>) = queues s"
  "queues (s\<lparr>vcpus := vs\<rparr>) = queues s" "queues (snd (arch_call h s)) = queues s"
  "(queues s)(c := srq (sched s c)) = queues s"
  by (auto simp: queues_def [abs_def] arch_vcpu_switch_def)

lemma currents_simps [simp]:
  "currents (upd_vcpu v f s) = currents s" "currents (upd_sched c g s) = (currents s)(c := current_vcpu (g (sched s c)))"
  "currents (snd (vmm_timer_timestamp c s)) = currents s" "currents (snd (vmm_timer_event_start c e d s)) = currents s"
  "currents (snd (vmm_timer_event_restart c e s)) = currents s" "currents (call_wq_cleanup v s) = currents s"
  "currents (arch_vcpu_switch c t v s) = currents s" "currents (s\<lparr>ipis := i\<rparr>) = currents s"
  "currents (s\<lparr>vcpus := vs\<rparr>) = currents s" "currents (snd (arch_call h s)) = currents s"
  "(currents s)(c := current_vcpu (sched s c)) = currents s"
  by (auto simp: currents_def [abs_def] arch_vcpu_switch_def)

lemma arch_vcpu_switch_simps [simp]:
  "vcpus (arch_vcpu_switch c t v s) = vcpus s" "sched (arch_vcpu_switch c t v s) = sched s"
  "ipis (arch_vcpu_switch c t v s) = ipis s" "switches (arch_vcpu_switch c t v s) = switches s @ [(c, t, v)]"
  "cpu_online (arch_vcpu_switch c t v s) = cpu_online s" "wqs (arch_vcpu_switch c t v s) = wqs s"
  "timer_inv (arch_vcpu_switch c t v s) = timer_inv s"
  by (simp_all add: arch_vcpu_switch_def timer_inv_def expiry_def [abs_def])

lemma timer_inv_ext [simp]:
  fixes s :: sched_sys
  shows "timer_inv (s\<lparr>ipis := i\<rparr>) = timer_inv s" "timer_inv (s\<lparr>vcpus := vs\<rparr>) = timer_inv s"
  by (simp_all add: timer_inv_def expiry_def [abs_def])

lemma sched_inv_unmoved:
  assumes "sched_inv s" and "timer_inv s'" and "queues s' = queues s" and "currents s' = currents s"
    and "unmoved (vcpus s) (vcpus s')"
  shows "sched_inv s'"
  using assms by (simp add: sched_inv_def unmoved_ok)

lemma queues_cong: "sched s' = sched s \<Longrightarrow> queues s' = queues s" by (simp add: queues_def [abs_def])

lemma currents_cong: "sched s' = sched s \<Longrightarrow> currents s' = currents s" by (simp add: currents_def [abs_def])

lemma currents_upd [simp]: "current_vcpu (sched s c) = currents s c" by (simp add: currents_def)

lemma queues_upd [simp]: "srq (sched s c) = queues s c" by (simp add: queues_def)

lemma sched_run_simps [simp]:
  "queues (sched_run c v t d s) = queues s" "currents (sched_run c v t d s) = (currents s)(c := Some v)"
  "switches (sched_run c v t d s) = switches s" "ipis (sched_run c v t d s) = ipis s"
  "cpu_online (sched_run c v t d s) = cpu_online s" "wqs (sched_run c v t d s) = wqs s"
  by (simp_all add: sched_run_def Let_def)

lemma sched_run_vcpus:
  "vcpus (sched_run c v t d s) x = (if x = v then (vcpus s v)\<lparr>state_ready_nsecs := state_ready_nsecs (vcpus s v) +
      (t - state_tstamp (vcpus s v)), vstate := VMM_VCPU_STATE_RUNNING, resumed := False, state_tstamp := t\<rparr>
    else vcpus s x)"
  by (simp add: sched_run_def Let_def)

lemma sched_run_timer [simp]: "timer_inv s \<Longrightarrow> timer_inv (sched_run c v t d s)"
  by (simp add: sched_run_def Let_def event_start_inv)

section \<open>The switch\<close>

text \<open>The fields of a VCPU that a switch leaves alone, and the timer events of others.\<close>

definition wq_view :: "vcpu \<Rightarrow> bool \<times> nat option \<times> (nat \<times> bool) option \<times> bool \<times> vcpu_res list \<times> nat \<times> u8 \<times> vcpu_irqs" where
  "wq_view x = (is_normal x, wq_lock x, wq_priv x, wq_cleanup x, vres x, hcpu x, priority x, irqs x)"

lemma sched_run_wq_view [simp]: "wq_view (vcpus (sched_run c v t d s) x) = wq_view (vcpus s x)"
  by (simp add: sched_run_vcpus wq_view_def)

lemma start_events:
  fixes s :: sched_sys
  shows "e' \<noteq> e \<Longrightarrow> events (snd (vmm_timer_event_start c (Some e) d s)) e' = events s e'"
  by (simp add: vmm_timer_event_start_def start2_unfold case_prod_beta start_event_def Let_def stop_raw_events)

lemma timestamp_events [simp]:
  fixes s :: sched_sys
  shows "events (snd (vmm_timer_timestamp c s)) = events s"
  by simp

lemma sched_run_events: "e \<noteq> Ev_sched c \<Longrightarrow> events (sched_run c v t d s) e = events s e"
  by (simp add: sched_run_def Let_def start_events)

lemma arch_vcpu_switch_events [simp]: "events (arch_vcpu_switch c t v s) = events s"
  by (simp add: arch_vcpu_switch_def)

lemma enqueue_inv:
  assumes "sched_inv s" and "vstate (vcpus s v) \<notin> {VMM_VCPU_STATE_READY, VMM_VCPU_STATE_UNKNOWN}"
    and "queues s (hcpu (vcpus s v)) = Some r"
  shows "rq_enqueue (hcpu (vcpus s v)) v s =
      Some (VMM_OK, upd_sched (hcpu (vcpus s v)) (\<lambda>c. c\<lparr>srq := Some (rq_enq (vcpus s) r v)\<rparr>) s)"
proof -
  have ok: "sched_ok (vcpus s) (queues s) (currents s)" using assms(1) by (simp add: sched_inv_def)
  have "rq_ok (vcpus s) v" using sched_okD(3) [OF ok, of v] assms(2) by blast
  from rq_enqueue_ok [OF sched_ok_queue(1) [OF ok assms(3)] this] assms(3) show ?thesis
    by (simp add: rq_enqueue_def)
qed

lemma put_current_spec:
  assumes inv: "sched_inv s" and cur: "currents s c = Some cur"
  obtains s1 where
    "sched_put_current c cur t s =
       Some (if in_mask (vstate (vcpus s cur)) VMM_VCPU_STATE_SAVEABLE then Some cur else None, s1)"
    "sched_inv s1" "currents s1 = currents s" "switches s1 = switches s" "ipis s1 = ipis s"
    "cpu_online s1 = cpu_online s" "wqs s1 = wqs s"
    "\<forall>x. x \<noteq> cur \<longrightarrow> vcpus s1 x = vcpus s x" "wq_lock (vcpus s1 cur) = wq_lock (vcpus s cur)"
    "preempt_count (vcpus s1 cur) = preempt_count (vcpus s cur)"
    "moved (vcpus s) (vcpus s1) cur (if vstate (vcpus s cur) = VMM_VCPU_STATE_RUNNING then VMM_VCPU_STATE_READY
       else vstate (vcpus s cur))"
    "vstate (vcpus s cur) \<noteq> VMM_VCPU_STATE_RUNNING \<Longrightarrow> s1 = s"
    "\<forall>x. wq_view (vcpus s1 x) = wq_view (vcpus s x)" "events s1 = events s"
proof (cases "vstate (vcpus s cur) = VMM_VCPU_STATE_RUNNING")
  case False
  then show ?thesis
    by (intro that [of s]) (auto simp: sched_put_current_def moved_def inv)
next
  case True
  have ok: "sched_ok (vcpus s) (queues s) (currents s)" using inv by (simp add: sched_inv_def)
  obtain r where h: "hcpu (vcpus s cur) = c" and r: "queues s c = Some r"
    using sched_okD(4) [OF ok cur] by auto
  have rq: "rq_ok (vcpus s) cur" using sched_okD(3) [OF ok] True by simp
  let ?sy = "vmm_scheduler_sync_system_time c cur s"
  let ?s2 = "upd_vcpu cur (\<lambda>x. x\<lparr>state_running_nsecs := state_running_nsecs x + (t - state_tstamp x),
      vstate := VMM_VCPU_STATE_READY, state_tstamp := t\<rparr>) ?sy"
  let ?s3 = "upd_sched c (\<lambda>x. x\<lparr>srq := Some (rq_enq (vcpus s) r cur)\<rparr>) ?s2"
  have q2: "queues ?s2 = queues s" "currents ?s2 = currents s" "timer_inv ?s2"
    using inv by (simp_all add: vmm_scheduler_sync_system_time_def Let_def sched_inv_def)
  have m: "moved (vcpus s) (vcpus ?s2) cur VMM_VCPU_STATE_READY"
    by (auto simp: moved_def vmm_scheduler_sync_system_time_def Let_def)
  have pr: "rq_ok (vcpus ?s2) cur" "rq_enq (vcpus ?s2) r cur = rq_enq (vcpus s) r cur"
    using moved_prio [OF m, of cur] rq moved_enq [OF m] by blast+
  have e: "rq_enqueue c cur ?s2 = Some (VMM_OK, ?s3)"
    using rq_enqueue_ok [OF sched_ok_queue(1) [OF ok r] pr(1)] pr(2) q2(1) r by (simp add: rq_enqueue_def)
  have "sched_ok (vcpus ?s3) (queues ?s3) (currents ?s3)"
    using enqueue_move [OF ok _ rq _ m] True h r q2 by simp
  moreover have "timer_inv ?s3" using q2(3) by simp
  ultimately have i3: "sched_inv ?s3" by (simp add: sched_inv_def)
  show ?thesis
    by (rule that [of ?s3])
      (use e True m i3 in \<open>auto simp: sched_put_current_def saveable_states
        vmm_scheduler_sync_system_time_def Let_def wq_view_def\<close>)
qed

text \<open>A CPU whose current VCPU runs, or whose queue is not empty, finds a VCPU; with the invariant at the first attempt.\<close>

definition runnable :: "sched_sys \<Rightarrow> nat \<Rightarrow> nat \<Rightarrow> bool" where
  "runnable s c v \<longleftrightarrow> hcpu (vcpus s v) = c \<and> (vstate (vcpus s v) = VMM_VCPU_STATE_READY \<or>
     vstate (vcpus s v) = VMM_VCPU_STATE_RUNNING)"

lemma dequeue_spec:
  assumes inv: "sched_inv s" and w: "hcpu (vcpus s w) = c" "vstate (vcpus s w) = VMM_VCPU_STATE_READY"
  obtains r v r' where "queues s c = Some r" "rq_deq (vcpus s) r = Some (v, r')"
    "rq_dequeue c s = Some (VMM_OK, Some (v, time_slice (vcpus s v)), upd_sched c (\<lambda>x. x\<lparr>srq := Some r'\<rparr>) s)"
    "vstate (vcpus s v) = VMM_VCPU_STATE_READY" "hcpu (vcpus s v) = c"
    "\<And>w. hcpu (vcpus s w) = c \<Longrightarrow> vstate (vcpus s w) = VMM_VCPU_STATE_READY \<Longrightarrow>
       rq_prio (vcpus s) w \<le> rq_prio (vcpus s) v"
proof -
  have ok: "sched_ok (vcpus s) (queues s) (currents s)" using inv by (simp add: sched_inv_def)
  obtain r where r: "queues s c = Some r" and wr: "w \<in> set (rq_level r (rq_prio (vcpus s) w))"
    using sched_okD(1) [OF ok, of w] w by auto
  note wf = sched_ok_queue [OF ok r]
  from wf(1) show ?thesis
  proof (cases rule: rq_dequeue_cases [of r "vcpus s"])
    case empty
    then show ?thesis using wr by simp
  next
    case (first p v r')
    have v: "hcpu (vcpus s v) = c" "vstate (vcpus s v) = VMM_VCPU_STATE_READY" "rq_prio (vcpus s) v = p"
      using wf(3) [of v p] first(4) by auto
    have top: "rq_prio (vcpus s) x \<le> p" if "hcpu (vcpus s x) = c" "vstate (vcpus s x) = VMM_VCPU_STATE_READY" for x
    proof (rule ccontr)
      assume "\<not> rq_prio (vcpus s) x \<le> p"
      then have "rq_level r (rq_prio (vcpus s) x) = []" using first(6) by simp
      then show False using sched_okD(1) [OF ok that(2)] that(1) r by auto
    qed
    show ?thesis
      by (rule that [OF r first(2)]) (use first(1) r v top in \<open>auto simp: rq_dequeue_def\<close>)
  qed
qed

text \<open>What a switch from \<open>cur\<close> to \<open>v\<close> does.\<close>

definition switched :: "sched_sys \<Rightarrow> nat \<Rightarrow> nat \<Rightarrow> nat \<Rightarrow> sched_sys \<Rightarrow> bool" where
  "switched s c cur v s' \<longleftrightarrow> runnable s c v \<and> (\<forall>w. runnable s c w \<longrightarrow> rq_prio (vcpus s) w \<le> rq_prio (vcpus s) v) \<and>
     currents s' = (currents s)(c := Some v) \<and> vstate (vcpus s' v) = VMM_VCPU_STATE_RUNNING \<and>
     \<not> resumed (vcpus s' v) \<and>
     (v \<noteq> cur \<longrightarrow> vstate (vcpus s' cur) = (if vstate (vcpus s cur) = VMM_VCPU_STATE_RUNNING
        then VMM_VCPU_STATE_READY else vstate (vcpus s cur))) \<and>
     (\<forall>x. x \<noteq> v \<and> x \<noteq> cur \<longrightarrow> vcpus s' x = vcpus s x) \<and>
     switches s' = switches s @ (if v = cur then [] else
       [(c, if in_mask (vstate (vcpus s cur)) VMM_VCPU_STATE_SAVEABLE then Some cur else None, v)]) \<and>
     ipis s' = ipis s \<and> cpu_online s' = cpu_online s \<and> wqs s' = wqs s \<and>
     (\<forall>x. wq_view (vcpus s' x) = wq_view (vcpus s x)) \<and> (\<forall>e. e \<noteq> Ev_sched c \<longrightarrow> events s' e = events s e)"

lemma next2_spec:
  assumes inv: "sched_inv s" and cur: "currents s c = Some cur" and w: "runnable s c w"
  obtains v s' where "vmm_scheduler_next2 c cur s = Some (if v \<noteq> cur then Some v else None, s')"
    "sched_inv s'" "switched s c cur v s'" "wq_lock (vcpus s' cur) = wq_lock (vcpus s cur)"
    "preempt_count (vcpus s' cur) = preempt_count (vcpus s cur)"
proof -
  define t s0 where "t = fst (vmm_timer_timestamp c s)" and "s0 = snd (vmm_timer_timestamp c s)"
  have f0: "vcpus s0 = vcpus s" "queues s0 = queues s" "currents s0 = currents s" "switches s0 = switches s"
    "ipis s0 = ipis s" "cpu_online s0 = cpu_online s" "wqs s0 = wqs s" by (simp_all add: s0_def)
  have inv0: "sched_inv s0" using inv f0 by (simp add: sched_inv_def s0_def)
  have ok: "sched_ok (vcpus s) (queues s) (currents s)" using inv by (simp add: sched_inv_def)
  obtain s1 where p: "sched_put_current c cur t s0 =
       Some (if in_mask (vstate (vcpus s cur)) VMM_VCPU_STATE_SAVEABLE then Some cur else None, s1)"
    and i1: "sched_inv s1" and f1: "currents s1 = currents s" "switches s1 = switches s" "ipis s1 = ipis s"
      "cpu_online s1 = cpu_online s" "wqs s1 = wqs s" "\<forall>x. x \<noteq> cur \<longrightarrow> vcpus s1 x = vcpus s x"
      "wq_lock (vcpus s1 cur) = wq_lock (vcpus s cur)" "preempt_count (vcpus s1 cur) = preempt_count (vcpus s cur)"
    and m1: "moved (vcpus s) (vcpus s1) cur (if vstate (vcpus s cur) = VMM_VCPU_STATE_RUNNING then VMM_VCPU_STATE_READY
       else vstate (vcpus s cur))"
    and w1: "\<forall>x. wq_view (vcpus s1 x) = wq_view (vcpus s x)" "events s1 = events s0"
    using put_current_spec [OF inv0, of c cur t] cur unfolding f0 by metis
  have run1: "runnable s c x \<longleftrightarrow> hcpu (vcpus s1 x) = c \<and> vstate (vcpus s1 x) = VMM_VCPU_STATE_READY" for x
    using m1 sched_okD(2) [OF ok, of x] cur unfolding runnable_def moved_def by (auto split: if_splits)
  obtain r v r' where d: "queues s1 c = Some r" "rq_deq (vcpus s1) r = Some (v, r')"
    "rq_dequeue c s1 = Some (VMM_OK, Some (v, time_slice (vcpus s1 v)), upd_sched c (\<lambda>x. x\<lparr>srq := Some r'\<rparr>) s1)"
    "vstate (vcpus s1 v) = VMM_VCPU_STATE_READY" "hcpu (vcpus s1 v) = c"
    "\<And>w. hcpu (vcpus s1 w) = c \<Longrightarrow> vstate (vcpus s1 w) = VMM_VCPU_STATE_READY \<Longrightarrow>
       rq_prio (vcpus s1) w \<le> rq_prio (vcpus s1) v"
    using dequeue_spec [OF i1, of w c] w run1 by metis
  let ?s2 = "upd_sched c (\<lambda>x. x\<lparr>srq := Some r'\<rparr>) s1"
  let ?s3 = "if v \<noteq> cur then arch_vcpu_switch c (if in_mask (vstate (vcpus s cur)) VMM_VCPU_STATE_SAVEABLE
     then Some cur else None) v ?s2 else ?s2"
  let ?s4 = "sched_run c v t (time_slice (vcpus s1 v)) ?s3"
  have da: "dequeue_again c cur s1 = Some (v, time_slice (vcpus s1 v), ?s2)"
    using d(3,4) by (subst dequeue_again.simps) simp
  have n2: "vmm_scheduler_next2 c cur s = Some (if v \<noteq> cur then Some v else None, ?s4)"
    using p da by (simp add: vmm_scheduler_next2_def t_def s0_def case_prod_beta Let_def)
  have f3: "vcpus ?s3 = vcpus s1" "queues ?s3 = (queues s1)(c := Some r')" "currents ?s3 = currents s1"
    "timer_inv ?s3" using i1 by (auto simp: sched_inv_def)
  have m4: "moved (vcpus s1) (vcpus ?s4) v VMM_VCPU_STATE_RUNNING"
    using f3(1) by (simp add: moved_def sched_run_vcpus)
  have cur1: "\<forall>w. currents s1 c = Some w \<longrightarrow> vstate (vcpus s1 w) \<noteq> VMM_VCPU_STATE_RUNNING"
    using cur f1(1) m1 by (auto simp: moved_def)
  have ok1: "sched_ok (vcpus s1) (queues s1) (currents s1)" using i1 by (simp add: sched_inv_def)
  have i4: "sched_inv ?s4"
    using run_move [OF ok1 d(1,2) cur1 m4] f3 by (simp add: sched_inv_def)
  have top: "\<forall>w. runnable s c w \<longrightarrow> rq_prio (vcpus s) w \<le> rq_prio (vcpus s) v"
    using d(6) run1 moved_prio [OF m1] by metis
  have "switched s c cur v ?s4"
    unfolding switched_def using run1 [of v] d(4,5) top f1 m1 f3 w1
    by (auto simp: sched_run_vcpus moved_def sched_run_events s0_def wq_view_def)
  moreover have "wq_lock (vcpus ?s4 cur) = wq_lock (vcpus s cur)" "preempt_count (vcpus ?s4 cur) = preempt_count (vcpus s cur)"
    unfolding sched_run_vcpus f3(1) using f1(7,8) by auto
  ultimately show ?thesis by (rule that [OF n2 i4])
qed

text \<open>The preemption count at which the current VCPU may be switched out.\<close>

definition preemptible :: "sched_sys \<Rightarrow> nat \<Rightarrow> bool" where
  "preemptible s v \<longleftrightarrow> preempt_count (vcpus s v) = (if wq_lock (vcpus s v) \<noteq> None then 1 else 0)"

lemma sched_inv_preempt_count:
  "sched_inv s \<Longrightarrow> sched_inv (upd_vcpu v (\<lambda>x. x\<lparr>preempt_count := n x\<rparr>) s)"
  by (rule sched_inv_unmoved [of s]) (simp_all add: sched_inv_def unmoved_def)

lemma switch_spec:
  assumes inv: "sched_inv s" and cur: "currents s c = Some cur" and pre: "preemptible s cur" and w: "runnable s c w"
  obtains v s' where "vmm_scheduler_switch c True s = Some s'" "sched_inv s'" "switched s c cur v s'"
    "preempt_count (vcpus s' cur) = 0"
proof -
  obtain v s1 where n: "vmm_scheduler_next2 c cur s = Some (if v \<noteq> cur then Some v else None, s1)"
    "sched_inv s1" "switched s c cur v s1" "wq_lock (vcpus s1 cur) = wq_lock (vcpus s cur)"
    "preempt_count (vcpus s1 cur) = preempt_count (vcpus s cur)"
    by (rule next2_spec [OF inv cur w])
  let ?b = "wq_lock (vcpus s1 cur) \<noteq> None \<and> preempt_count (vcpus s1 cur) \<noteq> 0"
  let ?s' = "if ?b then upd_vcpu cur (\<lambda>x. x\<lparr>preempt_count := preempt_count x - 1\<rparr>) s1 else s1"
  have "vmm_scheduler_switch c True s = Some ?s'"
    using n(1) cur pre by (auto simp: vmm_scheduler_switch_def preemptible_def Let_def)
  moreover have "sched_inv ?s'" using n(2) sched_inv_preempt_count by auto
  moreover have "switched s c cur v ?s'" using n(3) by (auto simp: switched_def wq_view_def)
  moreover have "preempt_count (vcpus ?s' cur) = 0" using n(4,5) pre by (auto simp: preemptible_def)
  ultimately show ?thesis by (rule that)
qed

lemma switch_blocked:
  assumes "currents s c = Some cur" and "\<not> preemptible s cur"
  shows "vmm_scheduler_switch c True s = Some (snd (vmm_timer_event_restart c (Some (Ev_sched c)) s))"
  using assms by (simp add: vmm_scheduler_switch_def preemptible_def Let_def)

lemma sched_inv_restart: "sched_inv s \<Longrightarrow> sched_inv (snd (vmm_timer_event_restart c e s))"
  by (rule sched_inv_unmoved [of s]) (simp_all add: sched_inv_def unmoved_def event_restart_inv)

lemma next1_spec:
  assumes inv: "sched_inv s" and cur: "currents s c = None" and w: "runnable s c w"
  obtains v s' where "vmm_scheduler_next1 c s = Some (v, s')" "sched_inv s'" "runnable s c v"
    "\<forall>w. runnable s c w \<longrightarrow> rq_prio (vcpus s) w \<le> rq_prio (vcpus s) v"
    "currents s' = (currents s)(c := Some v)" "\<forall>x. x \<noteq> v \<longrightarrow> vcpus s' x = vcpus s x"
    "vstate (vcpus s' v) = VMM_VCPU_STATE_RUNNING" "switches s' = switches s @ [(c, None, v)]"
proof -
  define t s0 where "t = fst (vmm_timer_timestamp c s)" and "s0 = snd (vmm_timer_timestamp c s)"
  have f0: "vcpus s0 = vcpus s" "queues s0 = queues s" "currents s0 = currents s" "switches s0 = switches s"
    by (simp_all add: s0_def)
  have inv0: "sched_inv s0" using inv f0 by (simp add: sched_inv_def s0_def)
  have ok: "sched_ok (vcpus s) (queues s) (currents s)" using inv by (simp add: sched_inv_def)
  have run: "runnable s c x \<longleftrightarrow> hcpu (vcpus s0 x) = c \<and> vstate (vcpus s0 x) = VMM_VCPU_STATE_READY" for x
    using sched_okD(2) [OF ok, of x] cur f0 by (auto simp: runnable_def)
  obtain r v r' where d: "queues s0 c = Some r" "rq_deq (vcpus s0) r = Some (v, r')"
    "rq_dequeue c s0 = Some (VMM_OK, Some (v, time_slice (vcpus s0 v)), upd_sched c (\<lambda>x. x\<lparr>srq := Some r'\<rparr>) s0)"
    "vstate (vcpus s0 v) = VMM_VCPU_STATE_READY" "hcpu (vcpus s0 v) = c"
    "\<And>w. hcpu (vcpus s0 w) = c \<Longrightarrow> vstate (vcpus s0 w) = VMM_VCPU_STATE_READY \<Longrightarrow>
       rq_prio (vcpus s0) w \<le> rq_prio (vcpus s0) v"
    using dequeue_spec [OF inv0, of w c] w run by metis
  let ?s3 = "arch_vcpu_switch c None v (upd_sched c (\<lambda>x. x\<lparr>srq := Some r'\<rparr>) s0)"
  let ?s4 = "sched_run c v t (time_slice (vcpus s0 v)) ?s3"
  have n1: "vmm_scheduler_next1 c s = Some (v, ?s4)"
    using d(3) by (simp add: vmm_scheduler_next1_def t_def s0_def case_prod_beta Let_def)
  have m4: "moved (vcpus s0) (vcpus ?s4) v VMM_VCPU_STATE_RUNNING"
    by (simp add: moved_def sched_run_vcpus)
  have ok0: "sched_ok (vcpus s0) (queues s0) (currents s0)" using inv0 by (simp add: sched_inv_def)
  have i4: "sched_inv ?s4"
    using run_move [OF ok0 d(1,2) _ m4] inv0 cur f0 by (auto simp: sched_inv_def)
  have top: "\<forall>w. runnable s c w \<longrightarrow> rq_prio (vcpus s) w \<le> rq_prio (vcpus s) v"
    using d(6) run f0 by metis
  show ?thesis
    by (rule that [OF n1 i4 _ top]) (use run [of v] d(4,5) f0 in \<open>auto simp: sched_run_vcpus\<close>)
qed

text \<open>Whatever the switch does, if it returns the invariant holds.\<close>

lemma switch_inv:
  assumes inv: "sched_inv s" and w: "runnable s c w"
  shows "\<exists>s'. vmm_scheduler_switch c True s = Some s' \<and> sched_inv s'"
proof (cases "currents s c")
  case None
  obtain v s' where "vmm_scheduler_next1 c s = Some (v, s')" "sched_inv s'" by (rule next1_spec [OF inv None w])
  with None show ?thesis by (simp add: vmm_scheduler_switch_def)
next
  case (Some cur)
  show ?thesis
  proof (cases "preemptible s cur")
    case True
    then show ?thesis using switch_spec [OF inv Some True w] by metis
  next
    case False
    then show ?thesis using switch_blocked [OF Some False] sched_inv_restart [OF inv] by blast
  qed
qed

text \<open>With no VCPU to run the switch panics.\<close>

lemma dequeue_none:
  assumes inv: "sched_inv s" and w: "\<forall>w. hcpu (vcpus s w) = c \<longrightarrow> vstate (vcpus s w) \<noteq> VMM_VCPU_STATE_READY"
  shows "\<exists>rc s'. rq_dequeue c s = Some (rc, None, s')"
proof (cases "queues s c")
  case None
  then show ?thesis by (simp add: rq_dequeue_def vmm_schedalgo_rq_dequeue_def)
next
  case (Some r)
  have ok: "sched_ok (vcpus s) (queues s) (currents s)" using inv by (simp add: sched_inv_def)
  note wf = sched_ok_queue [OF ok Some]
  have "rq_level r p = []" for p using wf(3) [of "hd (rq_level r p)" p] w by (cases "rq_level r p") auto
  with wf(1) have "vmm_schedalgo_rq_dequeue (vcpus s) (Some r) = Some (VMM_ENOTAVAIL, None, Some r)"
    by - (rule rq_dequeue_cases [of r "vcpus s"], simp_all)
  with Some show ?thesis by (simp add: rq_dequeue_def)
qed

lemma switch_panics:
  assumes inv: "sched_inv s" and w: "\<forall>w. \<not> runnable s c w" and pre: "\<forall>cur. currents s c = Some cur \<longrightarrow> preemptible s cur"
  shows "vmm_scheduler_switch c b s = None"
proof (cases "currents s c")
  case None
  let ?s0 = "snd (vmm_timer_timestamp c s)"
  have "sched_inv ?s0" using inv by (simp add: sched_inv_def)
  moreover have "\<forall>w. hcpu (vcpus ?s0 w) = c \<longrightarrow> vstate (vcpus ?s0 w) \<noteq> VMM_VCPU_STATE_READY"
    using w by (auto simp: runnable_def)
  ultimately obtain rc s' where "rq_dequeue c ?s0 = Some (rc, None, s')" using dequeue_none by blast
  then show ?thesis
    using None by (simp add: vmm_scheduler_switch_def vmm_scheduler_next1_def case_prod_beta Let_def)
next
  case (Some cur)
  let ?s0 = "snd (vmm_timer_timestamp c s)" and ?t = "fst (vmm_timer_timestamp c s)"
  have i0: "sched_inv ?s0" "currents ?s0 c = Some cur" using inv Some by (simp_all add: sched_inv_def)
  have ok: "sched_ok (vcpus s) (queues s) (currents s)" using inv by (simp add: sched_inv_def)
  have nr: "vstate (vcpus ?s0 cur) \<noteq> VMM_VCPU_STATE_RUNNING"
    using w sched_okD(4) [OF ok Some] by (auto simp: runnable_def)
  obtain s1 tc where p: "sched_put_current c cur ?t ?s0 = Some (tc, s1)"
    and nr_s1: "vstate (vcpus ?s0 cur) \<noteq> VMM_VCPU_STATE_RUNNING \<Longrightarrow> s1 = ?s0"
    using put_current_spec [OF i0, of ?t] by metis
  have [simp]: "s1 = ?s0" by (rule nr_s1 [OF nr])
  have "\<forall>w. hcpu (vcpus ?s0 w) = c \<longrightarrow> vstate (vcpus ?s0 w) \<noteq> VMM_VCPU_STATE_READY"
    using w by (auto simp: runnable_def)
  then obtain rc s' where "rq_dequeue c ?s0 = Some (rc, None, s')" using dequeue_none [OF i0(1)] by blast
  then have "dequeue_again c cur s1 = None" by (subst dequeue_again.simps) simp
  with p Some pre show ?thesis
    by (simp add: vmm_scheduler_switch_def vmm_scheduler_next2_def case_prod_beta Let_def preemptible_def)
qed

lemma switch_keeps:
  assumes inv: "sched_inv s" and r: "vmm_scheduler_switch c b s = Some s'"
  shows "sched_inv s'"
proof -
  have b: "b" using r by (cases b) (simp_all add: vmm_scheduler_switch_def)
  show ?thesis
  proof (cases "\<exists>w. runnable s c w")
    case True
    then show ?thesis using switch_inv [OF inv] b r by fastforce
  next
    case False
    then obtain cur where cur: "currents s c = Some cur" "\<not> preemptible s cur"
      using switch_panics [OF inv, of c b] r by auto
    then show ?thesis using switch_blocked [OF cur] sched_inv_restart [OF inv, of c "Some (Ev_sched c)"] b r by simp
  qed
qed

section \<open>State changes\<close>

lemma account_simps [simp]:
  "hcpu (sc_account st t x) = hcpu x" "priority (sc_account st t x) = priority x"
  "sched_priv (sc_account st t x) = sched_priv x" "vstate (sc_account st t x) = vstate x"
  by (cases st; simp add: sc_account_def)+

lemma commit_simps [simp]:
  "queues (sc_commit h v st n s) = queues s" "currents (sc_commit h v st n s) = currents s"
  "timer_inv s \<Longrightarrow> timer_inv (sc_commit h v st n s)" "ipis (sc_commit h v st n s) = ipis s"
  "switches (sc_commit h v st n s) = switches s" "cpu_online (sc_commit h v st n s) = cpu_online s"
  by (simp_all add: sc_commit_def Let_def case_prod_beta)

lemma commit_vcpus:
  "x \<noteq> v \<Longrightarrow> vcpus (sc_commit h v st n s) x = vcpus s x" "vstate (vcpus (sc_commit h v st n s) v) = n"
  "hcpu (vcpus (sc_commit h v st n s) v) = hcpu (vcpus s v)"
  "priority (vcpus (sc_commit h v st n s) v) = priority (vcpus s v)"
  "sched_priv (vcpus (sc_commit h v st n s) v) = sched_priv (vcpus s v)"
  by (simp_all add: sc_commit_def Let_def case_prod_beta)

lemma commit_moved: "unmoved (vcpus s0) (vcpus s) \<Longrightarrow> moved (vcpus s0) (vcpus (sc_commit h v st n s)) v n"
  unfolding moved_def
proof (intro allI)
  fix x assume "unmoved (vcpus s0) (vcpus s)"
  then show "hcpu (vcpus (sc_commit h v st n s) x) = hcpu (vcpus s0 x) \<and>
      priority (vcpus (sc_commit h v st n s) x) = priority (vcpus s0 x) \<and>
      sched_priv (vcpus (sc_commit h v st n s) x) = sched_priv (vcpus s0 x) \<and>
      vstate (vcpus (sc_commit h v st n s) x) = (if x = v then n else vstate (vcpus s0 x))"
    by (cases "x = v") (simp_all add: commit_vcpus unmoved_def)
qed

lemma unmoved_iff: "unmoved vs vs' \<longleftrightarrow>
    (\<forall>x. (hcpu (vs' x), priority (vs' x), sched_priv (vs' x), vstate (vs' x)) =
         (hcpu (vs x), priority (vs x), sched_priv (vs x), vstate (vs x)))"
  by (simp add: unmoved_def)

lemma unmoved_cong:
  assumes "unmoved vs1 vs2"
  shows "unmoved vs vs2 = unmoved vs vs1"
  using assms unfolding unmoved_iff by simp

lemma unmoved_simps [simp]:
  "unmoved vs vs" "unmoved vs (vcpus (upd_sched c f s)) = unmoved vs (vcpus s)"
  "unmoved vs (vcpus (call_wq_cleanup v s)) = unmoved vs (vcpus s)"
  "unmoved vs (vcpus (upd_vcpu v (\<lambda>x. x\<lparr>resumed := b\<rparr>) s)) = unmoved vs (vcpus s)"
  "unmoved vs (vcpus (upd_vcpu v (\<lambda>x. x\<lparr>reset_count := g x\<rparr>) s)) = unmoved vs (vcpus s)"
  "unmoved vs (vcpus (snd (arch_call h s))) = unmoved vs (vcpus s)"
       apply (simp add: unmoved_def)
      apply simp
     apply (rule unmoved_cong, simp add: unmoved_def call_wq_cleanup_def waitqueue_cleanup_vcpus)
    apply (rule unmoved_cong, simp add: unmoved_def)
   apply (rule unmoved_cong, simp add: unmoved_def)
  apply simp
  done

text \<open>An operation that only touches what the invariant does not read.\<close>

definition aside :: "sched_sys \<Rightarrow> sched_sys \<Rightarrow> bool" where
  "aside s s' \<longleftrightarrow> unmoved (vcpus s) (vcpus s') \<and> queues s' = queues s \<and> currents s' = currents s \<and>
     (timer_inv s \<longrightarrow> timer_inv s')"

lemma aside_inv: "aside s s' \<Longrightarrow> sched_inv s \<Longrightarrow> sched_inv s'"
  by (auto simp: aside_def sched_inv_def unmoved_ok)

lemma aside_upd_irqs [simp]: "aside s (upd_irqs v f s') = aside s s'"
proof -
  have "unmoved (vcpus s') (vcpus (upd_irqs v f s'))" by (simp add: unmoved_def upd_irqs_vcpus)
  from unmoved_cong [OF this, of "vcpus s"] show ?thesis
    using queues_cong [of "upd_irqs v f s'" s'] currents_cong [of "upd_irqs v f s'" s'] by (simp add: aside_def)
qed

lemma aside_event_stop [simp]: "aside s s' \<Longrightarrow> aside s (snd (vmm_timer_event_stop e s'))"
  using queues_cong [of "snd (vmm_timer_event_stop e s')" s'] currents_cong [of "snd (vmm_timer_event_stop e s')" s']
  by (simp add: aside_def event_stop_inv)

lemma irq_stop_aside:
  assumes "(case vmm_timer_event_stop e (upd_irqs v f s) of (rc, s3) \<Rightarrow>
      if rc \<noteq> 0 then Some (rc, upd_irqs v g s3) else Some (rc, s3)) = Some (rc', s')"
  shows "aside s s'"
proof -
  have "aside s s" by (simp add: aside_def)
  then have "aside s (snd (vmm_timer_event_stop e (upd_irqs v f s)))" by simp
  then show ?thesis using assms by (auto simp: case_prod_beta split: if_splits)
qed

lemma irq_init_aside:
  assumes "vmm_vcpu_irq_init A (Some v) s = Some (rc, s')" and "reset_count (vcpus s v) \<noteq> 0"
  shows "aside s s'"
proof (cases "is_normal (vcpus s v)")
  case False
  then show ?thesis using assms by (simp add: vmm_vcpu_irq_init_def aside_def)
next
  case True
  with assms show ?thesis
    by (simp add: vmm_vcpu_irq_init_def)
      (simp only: Let_def [of "arch_vcpu_irq_count A v"] bind_eq_Some_conv split: if_split_asm,
       auto dest: irq_stop_aside)
qed

text \<open>
  The requests the invariant admits. \<open>settled\<close>: a VCPU that was taken off its CPU has been switched out,
  that is, a current VCPU is RUNNING. A VCPU is destroyed only when it neither waits nor runs; a new
  VCPU has a valid priority; the reset counter does not wrap.
\<close>

definition settled :: "sched_sys \<Rightarrow> nat \<Rightarrow> bool" where
  "settled s v \<longleftrightarrow> (currents s (hcpu (vcpus s v)) = Some v \<longrightarrow> vstate (vcpus s v) = VMM_VCPU_STATE_RUNNING)"

definition request_ok :: "sched_sys \<Rightarrow> nat \<Rightarrow> vcpu_state \<Rightarrow> bool" where
  "request_ok s v new_state \<longleftrightarrow> settled s v \<and>
     (new_state = VMM_VCPU_STATE_UNKNOWN \<longrightarrow>
        vstate (vcpus s v) \<notin> {VMM_VCPU_STATE_READY, VMM_VCPU_STATE_RUNNING}) \<and>
     (new_state = VMM_VCPU_STATE_RESET \<longrightarrow>
        rq_prio (vcpus s) v \<le> VMM_VCPU_MAX_PRIORITY \<and> reset_count (vcpus s v) + 1 \<noteq> 0)"

text \<open>The state after the switch statement and the update of the VCPU that follows it.\<close>

definition sc_result :: "nat \<Rightarrow> nat \<Rightarrow> vcpu_state \<Rightarrow> sched_sys \<Rightarrow> int \<times> bool \<times> bool \<times> sched_sys \<Rightarrow> sched_sys" where
  "sc_result h v new_state s = (\<lambda>(rc, preempt, skip, s1).
     if rc = VMM_OK \<and> \<not> skip then sc_commit h v (vstate (vcpus s v)) new_state s1 else s1)"

lemma rq_detach_inv:
  assumes "sched_inv s" and "vstate (vcpus s v) = VMM_VCPU_STATE_READY"
    and "unmoved (vcpus s) (vcpus s1)" and "queues s1 = queues s" and "sched s1 = sched s"
  obtains r where "queues s (hcpu (vcpus s v)) = Some r"
    "rq_detach (hcpu (vcpus s v)) v s1 =
       (VMM_OK, upd_sched (hcpu (vcpus s v)) (\<lambda>c. c\<lparr>srq := Some (map (remove1 v) r)\<rparr>) s1)"
proof -
  have ok: "sched_ok (vcpus s) (queues s) (currents s)" using assms(1) by (simp add: sched_inv_def)
  obtain r where r: "queues s (hcpu (vcpus s v)) = Some r" using sched_okD(1) [OF ok assms(2)] by auto
  have "rq_ok (vcpus s) v" using sched_okD(3) [OF ok, of v] assms(2) by simp
  then have "sched_priv (vcpus s1 v)" using assms(3) by (simp add: unmoved_def rq_ok_def)
  then show ?thesis
    using r assms(4) by (intro that [OF r]) (simp add: rq_detach_def vmm_schedalgo_rq_detach_def)
qed

lemma commit_stop:
  assumes "sched_inv s" and "aside s s1" and "vstate (vcpus s v) \<notin> {VMM_VCPU_STATE_READY, VMM_VCPU_STATE_UNKNOWN}"
    and "n \<notin> {VMM_VCPU_STATE_READY, VMM_VCPU_STATE_RUNNING, VMM_VCPU_STATE_UNKNOWN}"
  shows "sched_inv (sc_commit h v st n s1)"
proof -
  have i1: "sched_inv s1" using aside_inv assms by blast
  then have ok1: "sched_ok (vcpus s1) (queues s1) (currents s1)" by (simp add: sched_inv_def)
  have st1: "vstate (vcpus s1 v) \<notin> {VMM_VCPU_STATE_READY, VMM_VCPU_STATE_UNKNOWN}"
    using assms(2,3) by (simp add: aside_def unmoved_def)
  have "rq_ok (vcpus s1) v" using sched_okD(3) [OF ok1, of v] st1 by simp
  then have "rq_ok (vcpus (sc_commit h v st n s1)) v"
    by (simp add: rq_ok_def rq_prio_def commit_vcpus)
  then have "sched_ok (vcpus (sc_commit h v st n s1)) (queues s1) (currents s1)"
    using st1 assms(4) by (intro stop_move [OF ok1, of v n]) (auto simp: commit_vcpus)
  with i1 show ?thesis by (simp add: sched_inv_def)
qed

lemma commit_detach:
  assumes "sched_inv s" and "aside s s1" and "vstate (vcpus s v) = VMM_VCPU_STATE_READY"
    and "n \<notin> {VMM_VCPU_STATE_READY, VMM_VCPU_STATE_RUNNING, VMM_VCPU_STATE_UNKNOWN}"
    and "queues s (hcpu (vcpus s v)) = Some r"
    and "unmoved (vcpus s1) (vcpus s2)" and "timer_inv s2" and "currents s2 = currents s1"
    and "queues s2 = (queues s)(hcpu (vcpus s v) := Some (map (remove1 v) r))"
  shows "sched_inv (sc_commit h v st n s2)"
proof -
  have ok: "sched_ok (vcpus s) (queues s) (currents s)" using assms(1) by (simp add: sched_inv_def)
  have "unmoved (vcpus s) (vcpus s2)" using assms(2,6) by (simp add: aside_def unmoved_def)
  from detach_move [OF ok assms(5) assms(4) assms(3) commit_moved [OF this]] show ?thesis
    using assms(2,7,8,9) by (simp add: sched_inv_def aside_def)
qed

lemma commit_enqueue:
  assumes "sched_inv s" and "vstate (vcpus s v) \<notin> {VMM_VCPU_STATE_READY, VMM_VCPU_STATE_UNKNOWN}"
    and "queues s (hcpu (vcpus s v)) = Some r"
    and "unmoved (vcpus s) (vcpus s2)" and "timer_inv s2" and "currents s2 = currents s"
    and "queues s2 = (queues s)(hcpu (vcpus s v) := Some (rq_enq (vcpus s) r v))"
  shows "sched_inv (sc_commit h v st VMM_VCPU_STATE_READY s2)"
proof -
  have ok: "sched_ok (vcpus s) (queues s) (currents s)" using assms(1) by (simp add: sched_inv_def)
  have "rq_ok (vcpus s) v" using sched_okD(3) [OF ok, of v] assms(2) by simp
  from enqueue_move [OF ok _ this assms(3) commit_moved [OF assms(4)]] show ?thesis
    using assms by (simp add: sched_inv_def)
qed

lemma ready_inv:
  assumes inv: "sched_inv s" and r: "sc_ready v s = Some x"
  shows "sched_inv (sc_result h v VMM_VCPU_STATE_READY s x)"
proof -
  let ?c = "hcpu (vcpus s v)"
  consider (stopped) "vstate (vcpus s v) \<in> {VMM_VCPU_STATE_RESET, VMM_VCPU_STATE_PAUSED}"
    | (running) "vstate (vcpus s v) = VMM_VCPU_STATE_RUNNING"
    | (other) "vstate (vcpus s v) \<in> {VMM_VCPU_STATE_READY, VMM_VCPU_STATE_UNKNOWN, VMM_VCPU_STATE_HALTED}"
    by (cases "vstate (vcpus s v)") auto
  then show ?thesis
  proof cases
    case stopped
    show ?thesis
    proof (cases "queues s ?c")
      case None
      have "(queues s)(?c := None) = queues s" using None by (simp add: fun_upd_idem)
      then have "aside s (call_wq_cleanup v (upd_sched ?c (\<lambda>c. c\<lparr>srq := None\<rparr>) s))"
        by (simp add: aside_def call_wq_cleanup_inv)
      moreover have "snd (snd (snd x)) = call_wq_cleanup v (upd_sched ?c (\<lambda>c. c\<lparr>srq := None\<rparr>) s)" "fst x \<noteq> VMM_OK"
        using r stopped None
        by (auto simp: sc_ready_def Let_def rq_enqueue_def vmm_schedalgo_rq_enqueue_def split: if_splits)
      ultimately show ?thesis
        using aside_inv inv by (simp add: sc_result_def case_prod_beta)
    next
      case (Some q)
      have e: "rq_enqueue ?c v s = Some (VMM_OK, upd_sched ?c (\<lambda>c. c\<lparr>srq := Some (rq_enq (vcpus s) q v)\<rparr>) s)"
        using enqueue_inv [OF inv _ Some] stopped by auto
      then obtain p where x: "x = (VMM_OK, p, False,
          call_wq_cleanup v (upd_sched ?c (\<lambda>c. c\<lparr>srq := Some (rq_enq (vcpus s) q v)\<rparr>) s))"
        using r stopped by (auto simp: sc_ready_def Let_def split: bind_splits if_splits)
      show ?thesis
        using stopped inv unfolding x sc_result_def
        by (simp, intro commit_enqueue [OF inv _ Some]) (auto simp: call_wq_cleanup_inv sched_inv_def)
    qed
  next
    case running
    then have "x = (VMM_OK, True, True, upd_vcpu v (\<lambda>x. x\<lparr>resumed := True\<rparr>) s)" using r by (simp add: sc_ready_def)
    moreover have "aside s (upd_vcpu v (\<lambda>x. x\<lparr>resumed := True\<rparr>) s)" by (simp add: aside_def)
    ultimately show ?thesis using aside_inv inv by (simp add: sc_result_def)
  next
    case other
    then have "snd (snd (snd x)) = s \<and> (fst x \<noteq> VMM_OK \<or> fst (snd (snd x)))" using r by (auto simp: sc_ready_def)
    then show ?thesis using inv by (auto simp: sc_result_def case_prod_beta)
  qed
qed

lemma pause_inv:
  assumes inv: "sched_inv s" and set: "settled s v" and n: "n \<in> {VMM_VCPU_STATE_PAUSED, VMM_VCPU_STATE_HALTED}"
    and r: "sc_pause v n s = Some x"
  shows "sched_inv (sc_result h v n s x)"
proof -
  let ?c = "hcpu (vcpus s v)" and ?s1 = "upd_vcpu v (\<lambda>x. x\<lparr>resumed := False\<rparr>) s"
  have a1: "aside s ?s1" "aside s (call_wq_cleanup v ?s1)" "aside s (call_wq_cleanup v s)"
    by (simp_all add: aside_def call_wq_cleanup_inv)
  consider (skip) "fst (snd (snd x)) \<or> fst x \<noteq> VMM_OK" "aside s (snd (snd (snd x)))"
    | (current) "vstate (vcpus s v) = VMM_VCPU_STATE_RUNNING" "x = (VMM_OK, fst (snd x), False, ?s1)"
    | (queued) "vstate (vcpus s v) = VMM_VCPU_STATE_READY"
        "x = (fst (rq_detach ?c v ?s1), False, False, snd (rq_detach ?c v ?s1))"
    using r set a1 inv
    by (cases "vstate (vcpus s v)")
      (auto simp: sc_pause_def Let_def settled_def aside_def case_prod_beta split: if_splits)
  then show ?thesis
  proof cases
    case skip
    then show ?thesis using aside_inv inv by (auto simp: sc_result_def case_prod_beta)
  next
    case current
    have "sched_inv (sc_commit h v (vstate (vcpus s v)) n ?s1)"
      using commit_stop [OF inv a1(1)] current(1) n by auto
    then show ?thesis by (subst current(2)) (simp add: sc_result_def)
  next
    case queued
    obtain q where q: "queues s ?c = Some q"
      "rq_detach ?c v ?s1 = (VMM_OK, upd_sched ?c (\<lambda>c. c\<lparr>srq := Some (map (remove1 v) q)\<rparr>) ?s1)"
      by (rule rq_detach_inv [OF inv queued(1), of ?s1]) simp_all
    have "sched_inv (sc_commit h v (vstate (vcpus s v)) n (upd_sched ?c (\<lambda>c. c\<lparr>srq := Some (map (remove1 v) q)\<rparr>) ?s1))"
      by (rule commit_detach [OF inv a1(1) queued(1) _ q(1)]) (use n inv in \<open>auto simp: sched_inv_def\<close>)
    then show ?thesis by (subst queued(2)) (simp add: sc_result_def q(2))
  qed
qed

lemma unknown_inv:
  assumes inv: "sched_inv s" and req: "request_ok s v VMM_VCPU_STATE_UNKNOWN"
    and r: "sc_request A v VMM_VCPU_STATE_UNKNOWN s = Some x"
  shows "sched_inv (sc_result h v VMM_VCPU_STATE_UNKNOWN s x)"
proof -
  let ?vs = "if sched_priv (vcpus s v) then (vcpus s)(v := (vcpus s v)\<lparr>sched_priv := False\<rparr>) else vcpus s"
  have ok: "sched_ok (vcpus s) (queues s) (currents s)" using inv by (simp add: sched_inv_def)
  let ?s' = "sc_commit h v (vstate (vcpus s v)) VMM_VCPU_STATE_UNKNOWN (s\<lparr>vcpus := ?vs\<rparr>)"
  have x: "sc_result h v VMM_VCPU_STATE_UNKNOWN s x = ?s'"
    using r by (auto simp: sc_request_def sc_result_def vmm_schedalgo_vcpu_cleanup_def)
  have cur: "currents s (hcpu (vcpus s v)) \<noteq> Some v"
    using req by (auto simp: request_ok_def settled_def)
  have "sched_ok (vcpus ?s') (queues s) (currents s)"
    by (rule stop_move [OF ok, of v VMM_VCPU_STATE_UNKNOWN])
      (use req cur in \<open>auto simp: request_ok_def commit_vcpus\<close>)
  then show ?thesis unfolding x using inv by (simp add: sched_inv_def)
qed

text \<open>The second half of a reset, after the VCPU has left its queue.\<close>

lemma reset_tail:
  assumes x: "x = (let s3 = upd_vcpu v (\<lambda>x. x\<lparr>reset_count := reset_count x + 1\<rparr>) s2;
      (rc, s4) = arch_call (\<lambda>k. arch_vcpu_init A k v) s3
    in if rc \<noteq> VMM_OK then Some (rc, p, False, s4)
       else map_option (\<lambda>(rc, s5). (rc, p, False, s5)) (vmm_vcpu_irq_init A (Some v) s4))"
    and "x = Some y" and "reset_count (vcpus s2 v) + 1 \<noteq> 0"
  shows "aside s2 (snd (snd (snd y)))" "\<not> fst (snd (snd y))"
proof -
  let ?s4 = "snd (arch_call (\<lambda>k. arch_vcpu_init A k v) (upd_vcpu v (\<lambda>x. x\<lparr>reset_count := reset_count x + 1\<rparr>) s2))"
  have a4: "aside s2 ?s4" by (simp add: aside_def)
  have n4: "reset_count (vcpus ?s4 v) \<noteq> 0" using assms(3) by simp
  have "aside s2 (snd (snd (snd y))) \<and> \<not> fst (snd (snd y))"
  proof (cases "fst (arch_call (\<lambda>k. arch_vcpu_init A k v) (upd_vcpu v (\<lambda>x. x\<lparr>reset_count := reset_count x + 1\<rparr>) s2)) = VMM_OK")
    case True
    then have "map_option (\<lambda>(rc, s5). (rc, p, False, s5)) (vmm_vcpu_irq_init A (Some v) ?s4) = Some y"
      using assms(1,2) by (simp add: Let_def case_prod_beta)
    then obtain rc s5 where i: "vmm_vcpu_irq_init A (Some v) ?s4 = Some (rc, s5)" and y: "y = (rc, p, False, s5)"
      by auto
    have "aside ?s4 s5" by (rule irq_init_aside [OF i n4])
    with a4 have "aside s2 s5" by (auto simp: aside_def unmoved_def)
    with y show ?thesis by simp
  next
    case False
    then show ?thesis using assms(1,2) a4 by (auto simp: Let_def case_prod_beta)
  qed
  then show "aside s2 (snd (snd (snd y)))" "\<not> fst (snd (snd y))" by blast+
qed

lemma reset_inv:
  assumes inv: "sched_inv s" and req: "request_ok s v VMM_VCPU_STATE_RESET"
    and r: "sc_reset A v s = Some x"
    and fail: "vstate (vcpus s v) = VMM_VCPU_STATE_READY \<longrightarrow> fst x = VMM_OK"
  shows "sched_inv (sc_result h v VMM_VCPU_STATE_RESET s x)"
proof -
  let ?c = "hcpu (vcpus s v)" and ?s1 = "upd_vcpu v (\<lambda>x. x\<lparr>resumed := False\<rparr>) s"
  have ok: "sched_ok (vcpus s) (queues s) (currents s)" using inv by (simp add: sched_inv_def)
  have a1: "aside s ?s1" by (simp add: aside_def)
  consider (new) "vstate (vcpus s v) = VMM_VCPU_STATE_UNKNOWN" | (same) "vstate (vcpus s v) = VMM_VCPU_STATE_RESET"
    | (queued) "vstate (vcpus s v) = VMM_VCPU_STATE_READY"
    | (other) "vstate (vcpus s v) \<notin> {VMM_VCPU_STATE_UNKNOWN, VMM_VCPU_STATE_RESET, VMM_VCPU_STATE_READY}" by blast
  then show ?thesis
  proof cases
    case new
    let ?s2 = "snd (arch_call (have_memory A) s)"
    let ?s' = "sc_commit h v (vstate (vcpus s v)) VMM_VCPU_STATE_RESET
        (?s2\<lparr>vcpus := (vcpus s)(v := (vcpus s v)\<lparr>sched_priv := True\<rparr>)\<rparr>)"
    have cur: "currents s (hcpu (vcpus s v)) \<noteq> Some v" using req new by (auto simp: request_ok_def settled_def)
    have "sched_ok (vcpus ?s') (queues s) (currents s)"
      by (rule stop_move [OF ok, of v VMM_VCPU_STATE_RESET])
        (use req new cur in \<open>auto simp: request_ok_def commit_vcpus rq_ok_def rq_prio_def\<close>)
    then have "sched_inv ?s'" using inv by (simp add: sched_inv_def)
    moreover have "sched_inv (?s2\<lparr>vcpus := vcpus s\<rparr>)" by (rule aside_inv [OF _ inv]) (simp add: aside_def)
    ultimately show ?thesis
      using r new by (auto simp: sc_reset_def sc_result_def vmm_schedalgo_vcpu_setup_def Let_def case_prod_beta
          split: if_splits)
  next
    case same
    then show ?thesis using r inv by (auto simp: sc_reset_def sc_result_def)
  next
    case queued
    then have nc: "currents s ?c \<noteq> Some v" using req by (auto simp: request_ok_def settled_def)
    obtain q where q: "queues s ?c = Some q"
      "rq_detach ?c v ?s1 = (VMM_OK, upd_sched ?c (\<lambda>c. c\<lparr>srq := Some (map (remove1 v) q)\<rparr>) ?s1)"
      by (rule rq_detach_inv [OF inv queued, of ?s1]) simp_all
    let ?s2 = "upd_sched ?c (\<lambda>c. c\<lparr>srq := Some (map (remove1 v) q)\<rparr>) ?s1"
    have t: "aside ?s2 (snd (snd (snd x)))" "\<not> fst (snd (snd x))"
      by (rule reset_tail [where ?s2.0 = ?s2 and v = v and A = A and p = False, OF _ r];
          use queued nc q req in \<open>simp add: sc_reset_def Let_def request_ok_def\<close>)+
    have "sched_inv (sc_commit h v (vstate (vcpus s v)) VMM_VCPU_STATE_RESET (snd (snd (snd x))))"
      by (rule commit_detach [OF inv a1 queued _ q(1)])
        (use t inv in \<open>auto simp: aside_def sched_inv_def unmoved_def\<close>)
    then show ?thesis using t fail queued by (auto simp: sc_result_def case_prod_beta)
  next
    case other
    have t: "aside ?s1 (snd (snd (snd x)))" "\<not> fst (snd (snd x))"
      by (rule reset_tail [where ?s2.0 = ?s1 and v = v and A = A and
            p = "currents s ?c = Some v \<and> vstate (vcpus s v) = VMM_VCPU_STATE_RUNNING", OF _ r];
          use other req in \<open>simp add: sc_reset_def Let_def request_ok_def\<close>)+
    have a: "aside s (snd (snd (snd x)))" using t(1) a1 by (auto simp: aside_def unmoved_def)
    have "sched_inv (sc_commit h v (vstate (vcpus s v)) VMM_VCPU_STATE_RESET (snd (snd (snd x))))"
      using commit_stop [OF inv a] other by auto
    then show ?thesis using t a aside_inv [OF a inv] by (auto simp: sc_result_def case_prod_beta)
  qed
qed

lemma request_inv:
  assumes "sched_inv s" and "request_ok s v n" and "sc_request A v n s = Some x"
    and "n = VMM_VCPU_STATE_RESET \<and> vstate (vcpus s v) = VMM_VCPU_STATE_READY \<longrightarrow> fst x = VMM_OK"
  shows "sched_inv (sc_result h v n s x)"
proof (cases n)
  case VMM_VCPU_STATE_UNKNOWN
  then show ?thesis using unknown_inv assms by blast
next
  case VMM_VCPU_STATE_RESET
  then show ?thesis using reset_inv [OF assms(1)] assms(2-4) by (simp add: sc_request_def)
next
  case VMM_VCPU_STATE_READY
  then show ?thesis using ready_inv [OF assms(1)] assms(3) by (simp add: sc_request_def)
next
  case VMM_VCPU_STATE_RUNNING
  then show ?thesis using assms(1,3) by (auto simp: sc_request_def sc_result_def)
next
  case VMM_VCPU_STATE_PAUSED
  then show ?thesis using pause_inv [OF assms(1)] assms(2,3) by (simp add: sc_request_def request_ok_def)
next
  case VMM_VCPU_STATE_HALTED
  then show ?thesis using pause_inv [OF assms(1)] assms(2,3) by (simp add: sc_request_def request_ok_def)
qed

lemma ipi_send_simps [simp]:
  "vcpus (ipi_send d i s) = vcpus s" "sched (ipi_send d i s) = sched s" "queues (ipi_send d i s) = queues s"
  "currents (ipi_send d i s) = currents s" "switches (ipi_send d i s) = switches s"
  "timer_inv (ipi_send d i s) = timer_inv s"
  by (simp_all add: ipi_send_def)

lemma force_resched_aside: "aside s (snd (vmm_scheduler_force_resched A c t s))"
  by (simp add: vmm_scheduler_force_resched_def aside_def)

lemma upd_flag_aside:
  "aside s (upd_sched c (\<lambda>x. x\<lparr>yield_on_irq_exit := b\<rparr>) s)" "aside s (upd_sched c (\<lambda>x. x\<lparr>rq_resched_triggered := b\<rparr>) s)"
  by (simp_all add: aside_def)

lemma preempt_keeps:
  assumes "sched_inv s" and "sc_preempt A ch vh rc s = Some (rc', s')"
  shows "sched_inv s'"
proof (cases "currents s vh")
  case None
  then show ?thesis using assms by (simp add: sc_preempt_def)
next
  case (Some cur)
  show ?thesis
  proof (cases "ch = vh")
    case True
    then show ?thesis
      using assms Some aside_inv [OF upd_flag_aside(1) assms(1)]
      by (auto simp: sc_preempt_def vmm_scheduler_preempt_orphan_def split: if_splits intro: switch_keeps)
  next
    case False
    then show ?thesis
      using assms Some aside_inv [OF force_resched_aside assms(1), of A ch vh] by (simp add: sc_preempt_def)
  qed
qed

lemma state_change_unfold:
  "vmm_scheduler_state_change A h (Some v) n s = Option.bind (sc_request A v n s)
     (\<lambda>x. if fst (snd x) then sc_preempt A h (hcpu (vcpus s v)) (fst x) (sc_result h v n s x)
          else Some (fst x, sc_result h v n s x))"
  by (cases "sc_request A v n s") (auto simp: vmm_scheduler_state_change_def sc_result_def Let_def)

lemma state_change_keeps:
  assumes "sched_inv s" and "request_ok s v n" and "vmm_scheduler_state_change A h (Some v) n s = Some (rc, s')"
    and "n = VMM_VCPU_STATE_RESET \<and> vstate (vcpus s v) = VMM_VCPU_STATE_READY \<longrightarrow> rc = VMM_OK"
  shows "sched_inv s'"
proof -
  obtain x where x: "sc_request A v n s = Some x"
    and y: "(if fst (snd x) then sc_preempt A h (hcpu (vcpus s v)) (fst x) (sc_result h v n s x)
          else Some (fst x, sc_result h v n s x)) = Some (rc, s')"
    using assms(3) by (auto simp: state_change_unfold bind_eq_Some_conv)
  have np: "\<not> fst (snd x)" if "n = VMM_VCPU_STATE_RESET" "vstate (vcpus s v) = VMM_VCPU_STATE_READY"
    using x that by (auto simp: sc_request_def sc_reset_def Let_def case_prod_beta split: if_splits)
  have "n = VMM_VCPU_STATE_RESET \<and> vstate (vcpus s v) = VMM_VCPU_STATE_READY \<longrightarrow> fst x = VMM_OK"
    using assms(4) y np by auto
  then have "sched_inv (sc_result h v n s x)" by (rule request_inv [OF assms(1,2) x])
  then show ?thesis using y preempt_keeps by (auto split: if_splits)
qed

section \<open>The other operations\<close>

lemma migrate_keeps:
  assumes inv: "sched_inv s" and set: "settled s v" and q: "queues s new \<noteq> None"
    and r: "scheduler_ipi_migrate_vcpu A old v new s = Some s'"
  shows "sched_inv s'"
proof (cases "vstate (vcpus s v) \<noteq> VMM_VCPU_STATE_READY \<or> hcpu (vcpus s v) \<noteq> old \<or> hcpu (vcpus s v) = new")
  case True
  then show ?thesis using r inv by (simp add: scheduler_ipi_migrate_vcpu_def)
next
  case False
  then have st: "vstate (vcpus s v) = VMM_VCPU_STATE_READY" and h: "hcpu (vcpus s v) = old" and ne: "old \<noteq> new" by auto
  have ok: "sched_ok (vcpus s) (queues s) (currents s)" using inv by (simp add: sched_inv_def)
  obtain qo where qo: "queues s old = Some qo"
    "rq_detach old v s = (VMM_OK, upd_sched old (\<lambda>c. c\<lparr>srq := Some (map (remove1 v) qo)\<rparr>) s)"
    using rq_detach_inv [OF inv st, of s] h by auto
  obtain qn where qn: "queues s new = Some qn" using q by auto
  have rq: "rq_ok (vcpus s) v" using sched_okD(3) [OF ok, of v] st by simp
  define vs1 where "vs1 = (vcpus s)(v := (vcpus s v)\<lparr>vstate := VMM_VCPU_STATE_PAUSED\<rparr>)"
  define vs2 where "vs2 = vs1(v := (vs1 v)\<lparr>hcpu := new\<rparr>)"
  let ?Q = "(queues s)(old := Some (map (remove1 v) qo))"
  have ok1: "sched_ok vs1 ?Q (currents s)"
    using detach_move [OF ok, of v qo VMM_VCPU_STATE_PAUSED vs1] qo(1) h st by (auto simp: moved_def vs1_def)
  have ok2: "sched_ok vs2 ?Q (currents s)"
    by (rule rehost_move [OF ok1, of v]) (use set st h in \<open>auto simp: vs1_def vs2_def settled_def\<close>)
  let ?s2 = "upd_vcpu v (\<lambda>x. x\<lparr>hcpu := new\<rparr>) (upd_sched old (\<lambda>c. c\<lparr>srq := Some (map (remove1 v) qo)\<rparr>) s)"
  have m: "moved vs2 (vcpus ?s2) v VMM_VCPU_STATE_READY" using st by (auto simp: moved_def vs2_def vs1_def)
  have rq2: "rq_ok vs2 v" using rq by (simp add: rq_ok_def rq_prio_def vs2_def vs1_def)
  have "sched_ok (vcpus ?s2) (?Q(new := Some (rq_enq vs2 qn v))) (currents s)"
    using enqueue_move [OF ok2 _ rq2 _ m, of qn] qn ne by (simp add: vs2_def vs1_def)
  moreover have "rq_enqueue new v ?s2 = Some (VMM_OK, upd_sched new (\<lambda>c. c\<lparr>srq := Some (rq_enq vs2 qn v)\<rparr>) ?s2)"
    using rq_enqueue_ok [OF sched_ok_queue(1) [OF ok qn], of "vcpus ?s2" v] moved_prio [OF m, of v] moved_enq [OF m, of qn v]
      rq2 qn ne by (simp add: rq_enqueue_def)
  ultimately show ?thesis
    using r False qo(2) h inv
      aside_inv [OF force_resched_aside, of "upd_sched new (\<lambda>c. c\<lparr>srq := Some (rq_enq vs2 qn v)\<rparr>) ?s2" A old new]
    by (simp add: scheduler_ipi_migrate_vcpu_def sched_inv_def)
qed

lemma set_hcpu_keeps:
  assumes inv: "sched_inv s" and set: "settled s v" and q: "queues s new \<noteq> None"
    and r: "vmm_scheduler_set_hcpu A c (Some v) new s = Some (rc, s')"
  shows "sched_inv s'"
proof -
  have ok: "sched_ok (vcpus s) (queues s) (currents s)" using inv by (simp add: sched_inv_def)
  have i: "sched_inv (ipi_send d i s)" for d i by (rule aside_inv [OF _ inv]) (simp add: aside_def)
  have h: "sched_inv (upd_vcpu v (\<lambda>x. x\<lparr>hcpu := new\<rparr>) s)"
    if "vstate (vcpus s v) \<noteq> VMM_VCPU_STATE_READY" "vstate (vcpus s v) \<noteq> VMM_VCPU_STATE_RUNNING"
  proof -
    have "sched_ok (vcpus (upd_vcpu v (\<lambda>x. x\<lparr>hcpu := new\<rparr>) s)) (queues s) (currents s)"
      by (rule rehost_move [OF ok, of v]) (use that set in \<open>auto simp: settled_def upd_vcpu_def\<close>)
    with inv show ?thesis by (simp add: sched_inv_def)
  qed
  show ?thesis
    using r inv i h migrate_keeps [OF inv set q] by (auto simp: vmm_scheduler_set_hcpu_def Let_def split: if_splits)
qed

lemma irq_enter_aside: "aside s (vmm_scheduler_irq_enter c regs vc s)"
  by (simp add: vmm_scheduler_irq_enter_def aside_def case_prod_beta)

lemma irq_only_aside: "irq_only s s' \<Longrightarrow> aside s s'"
proof -
  assume i: "irq_only s s'"
  have "hcpu (sched_view x) = hcpu x" "priority (sched_view x) = priority x" "sched_priv (sched_view x) = sched_priv x"
    "vstate (sched_view x) = vstate x" for x by (simp_all add: sched_view_def)
  then have "unmoved (vcpus s) (vcpus s')" using i unfolding irq_only_def unmoved_def by metis
  moreover have "timer_inv s \<Longrightarrow> timer_inv s'"
    by (rule timer_inv_cong [of s' s]) (use i in \<open>simp_all add: irq_only_def timer_inv_cc\<close>)
  ultimately show ?thesis
    using i queues_cong [of s' s] currents_cong [of s' s] by (simp add: aside_def irq_only_def)
qed

lemma irq_exit_keeps:
  assumes inv: "sched_inv s" and r: "vmm_scheduler_irq_exit A c s = Some s'"
  shows "sched_inv s'"
proof (cases "currents s c")
  case None
  then show ?thesis using r inv by (simp add: vmm_scheduler_irq_exit_def)
next
  case (Some v)
  let ?e = "\<lambda>(t, s3). upd_sched c (\<lambda>x. (if irq_context x
        then x\<lparr>irq_process_ns := irq_process_ns x + (t - irq_enter_tstamp x)\<rparr>
        else x\<lparr>exp_process_ns := exp_process_ns x + (t - irq_enter_tstamp x)\<rparr>)
      \<lparr>irq_context := False, irq_regs := False\<rparr>) s3"
  obtain s1 s2 where s1: "(if vstate (vcpus s v) \<noteq> VMM_VCPU_STATE_RUNNING \<or> yield_on_irq_exit (sched s c)
        then map_option (upd_sched c (\<lambda>x. x\<lparr>yield_on_irq_exit := False\<rparr>)) (vmm_scheduler_switch c (irq_regs (sched s c)) s)
        else Some s) = Some s1"
    and s2: "vmm_vcpu_irq_process A (currents s1 c) s1 = Some s2" and s': "s' = ?e (vmm_timer_timestamp c s2)"
    using r Some by (auto simp: vmm_scheduler_irq_exit_def case_prod_beta Let_def split: bind_splits)
  have "sched_inv s1"
    using s1 inv aside_inv [OF upd_flag_aside(1)] switch_keeps [OF inv] by (fastforce split: if_splits)
  then have "sched_inv s2" using aside_inv irq_only_aside irq_process_irq_only [OF s2] by blast
  moreover have "aside s2 s'" by (simp add: s' aside_def case_prod_beta)
  ultimately show ?thesis using aside_inv by blast
qed

lemma timer_event_keeps: "sched_inv s \<Longrightarrow> scheduler_timer_event c s = Some s' \<Longrightarrow> sched_inv s'"
  by (auto simp: scheduler_timer_event_def split: if_splits intro: switch_keeps)

lemma ipi_resched_keeps:
  assumes "sched_inv s" and "scheduler_ipi_resched c s = Some s'"
  shows "sched_inv s'"
proof -
  have "sched_inv (upd_sched c (\<lambda>x. x\<lparr>rq_resched_triggered := False\<rparr>) s)"
    by (rule aside_inv [OF upd_flag_aside(2) assms(1)])
  then show ?thesis
    using assms(2) by (auto simp: scheduler_ipi_resched_def Let_def split: if_splits bind_splits intro: switch_keeps)
qed

lemma time_sync_aside: "aside s (scheduler_system_time_sync c s)"
  by (auto simp: scheduler_system_time_sync_def vmm_scheduler_sync_system_time_def Let_def aside_def unmoved_def
      split: option.splits)

lemma aside_trans: "aside s s1 \<Longrightarrow> aside s1 s2 \<Longrightarrow> aside s s2"
  by (auto simp: aside_def unmoved_def)

lemma stats_aside: "aside s (snd (snd (vmm_scheduler_stats c vp s)))"
proof (cases vp)
  case None
  then show ?thesis by (simp add: vmm_scheduler_stats_def aside_def)
next
  case (Some v)
  have a: "aside s (ipi_send d i s)" for d i by (simp add: aside_def)
  have b: "aside s (upd_vcpu v (sc_sync_stats t) (snd (vmm_timer_timestamp c s)))" for s t
    by (simp add: aside_def unmoved_def sc_sync_stats_def)
  show ?thesis
    using aside_trans [OF a b] aside_trans [OF time_sync_aside b] Some
    by (auto simp: vmm_scheduler_stats_def Let_def case_prod_beta)
qed

lemma sample_aside: "aside s (scheduler_sample_event c s)"
proof -
  have "aside s (snd (vmm_timer_event_start c e d (upd_sched c f s)))"
    if "\<And>x. srq (f x) = srq x" "\<And>x. current_vcpu (f x) = current_vcpu x" for f e d s
    using that by (simp add: aside_def event_start_inv)
  from aside_trans [OF stats_aside this] show ?thesis
    by (simp add: scheduler_sample_event_def Let_def case_prod_beta)
qed

lemma preempt_count_aside:
  "aside s (vmm_scheduler_preempt_disable c s)" "aside s (vmm_scheduler_preempt_enable c s)" "aside s (resume_relock c s)"
  by (auto simp: resume_relock_def vmm_scheduler_preempt_disable_def vmm_scheduler_preempt_enable_def aside_def
      unmoved_def split: option.splits)

end
