(* ===== verification/Sched_Reach.thy ===== *)
theory Sched_Reach
  imports Sched_Inv
begin

text \<open>
  The scheduler as a state machine: the step relation \<open>sched_step\<close> of all CPUs, its reachable states,
  and the properties of the scheduler that rest on the invariant.
\<close>

section \<open>Start of a CPU\<close>

lemma new_queue_move:
  assumes ok: "sched_ok vs Q C" and q: "Q c = None"
  shows "sched_ok vs (Q(c := Some (replicate (VMM_VCPU_MAX_PRIORITY + 1) []))) C"
proof -
  let ?r = "replicate (VMM_VCPU_MAX_PRIORITY + 1) [] :: rq"
  have l: "rq_level ?r p = []" for p by (simp add: rq_level_def)
  have w: "rq_wf ?r" by (simp add: rq_wf_def)
  note wf = sched_ok_queue [OF ok]
  show ?thesis
  proof (rule sched_okI, goal_cases)
    case (1 c' r) then show ?case using w wf(1) by (simp split: if_splits)
  next
    case (2 c' r p) then show ?case using l wf(2) by (auto split: if_splits)
  next
    case (3 c' r p v) then show ?case using l wf(3) by (auto split: if_splits)
  next
    case (4 v) then show ?case using sched_okD(1) [OF ok 4] q by auto
  next
    case (5 v) then show ?case by (rule sched_okD(2) [OF ok])
  next
    case (6 v) then show ?case by (rule sched_okD(3) [OF ok])
  next
    case (7 c' v) then show ?case using sched_okD(4) [OF ok 7] by simp
  qed
qed

text \<open>Initialising a timer event that is not queued keeps the timer invariant.\<close>

lemma timer_inv_init:
  fixes s :: "('e, 'z) timer_sys_scheme"
  assumes "timer_inv s" and "\<not> active_state (events s e)"
  shows "timer_inv (upd_event e (\<lambda>_. INIT_TIMER_EVENT) s)"
proof -
  let ?s = "upd_event e (\<lambda>_. INIT_TIMER_EVENT) s"
  have "map (expiry ?s) (event_list (tlc s c)) = map (expiry s) (event_list (tlc s c))" for c
    using assms by (intro map_cong refl) (auto simp: timer_inv_def expiry_def)
  then have "sorted (map (expiry ?s) (event_list (tlc s c)))" for c using assms(1) by (simp only: timer_inv_def)
  then show ?thesis using assms by (auto simp: timer_inv_def INIT_TIMER_EVENT_def)
qed

lemma startup_keeps:
  assumes inv: "sched_inv s" and q: "queues s c = None"
    and ev: "\<not> active_state (events s (Ev_sched c))" "\<not> active_state (events s (Ev_sample c))"
    and create: "\<And>s3 iv s4. create s3 = (iv, s4) \<Longrightarrow> sched_inv s3 \<Longrightarrow> sched_inv s4 \<and> currents s4 = currents s3 \<and>
      (\<forall>i. iv = Some i \<longrightarrow> settled s4 i)"
    and r: "scheduler_startup A create period c s = Some (rc, s')"
  shows "sched_inv s'"
proof -
  have ok: "sched_ok (vcpus s) (queues s) (currents s)" using inv by (simp add: sched_inv_def)
  have cur: "currents s c = None" using sched_okD(4) [OF ok, of c] q by (cases "currents s c") auto
  define m s0 where "m = fst (arch_call (have_memory A) s)" and "s0 = snd (arch_call (have_memory A) s)"
  have f0: "vcpus s0 = vcpus s" "queues s0 = queues s" "currents s0 = currents s" "events s0 = events s" "timer_inv s0"
    using inv by (simp_all add: s0_def sched_inv_def)
  define s1 where "s1 = upd_sched c (\<lambda>x. \<lparr>srq = vmm_schedalgo_rq_create m, rq_resched_triggered = False,
      current_vcpu_irq_ns = 0, current_vcpu_exp_ns = 0, current_vcpu = None, idle_vcpu = None, irq_context = False,
      irq_regs = False, irq_enter_tstamp = 0, irq_process_ns = 0, exp_process_ns = 0, yield_on_irq_exit = False,
      sample_period_ns = (if vmm_schedalgo_rq_create m = None then 0 else period), sample_idle_ns = 0,
      sample_idle_last_ns = 0, sample_irq_ns = 0, sample_irq_last_ns = 0\<rparr>) s0"
  have f1: "vcpus s1 = vcpus s" "queues s1 = (queues s)(c := vmm_schedalgo_rq_create m)" "currents s1 = currents s"
    "events s1 = events s" "timer_inv s1"
    using f0 cur by (simp_all add: s1_def fun_upd_idem)
  have i1: "sched_inv s1"
    using f1 ok new_queue_move [OF ok q] q
    by (cases m) (simp_all add: sched_inv_def vmm_schedalgo_rq_create_def fun_upd_idem)
  define s3 where "s3 = (upd_event (Ev_sample c) (\<lambda>e. INIT_TIMER_EVENT) (upd_event (Ev_sched c) (\<lambda>e. INIT_TIMER_EVENT) s1))
      \<lparr>cpu_online := (cpu_online s1)(c := True)\<rparr>"
  have t3: "timer_inv (upd_event (Ev_sample c) (\<lambda>e. INIT_TIMER_EVENT) (upd_event (Ev_sched c) (\<lambda>e. INIT_TIMER_EVENT) s1))"
    using timer_inv_init [OF timer_inv_init [OF f1(5)]] ev f1(4) by simp
  then have "timer_inv s3" unfolding s3_def by (simp add: timer_inv_def expiry_def [abs_def])
  moreover have "sched s3 = sched s1" "vcpus s3 = vcpus s1" by (simp_all add: s3_def)
  ultimately have i3: "sched_inv s3" "currents s3 = currents s1"
    using i1 queues_cong [of s3 s1] currents_cong [of s3 s1] by (simp_all add: sched_inv_def)
  obtain iv s4 where c4: "create s3 = (iv, s4)" by fastforce
  let ?s5 = "upd_sched c (\<lambda>x. x\<lparr>idle_vcpu := iv\<rparr>) s4"
  have i5: "sched_inv ?s5"
    by (rule aside_inv [of s4]) (use create [OF c4 i3(1)] in \<open>simp_all add: aside_def\<close>)
  show ?thesis
  proof (cases "m \<and> iv \<noteq> None")
    case False
    then have "s' = s1 \<or> s' = ?s5"
      using r c4 unfolding scheduler_startup_def case_prod_beta Let_def m_def [symmetric] s0_def [symmetric]
        s1_def [symmetric] s3_def [symmetric]
      by (auto simp: vmm_schedalgo_rq_create_def s3_def split: if_splits)
    then show ?thesis using i1 i5 by blast
  next
    case True
    then obtain i where i: "iv = Some i" by auto
    obtain rc6 s6 where r6: "vmm_scheduler_state_change A c (Some i) VMM_VCPU_STATE_READY ?s5 = Some (rc6, s6)"
      and s': "s' = s6 \<or> s' = snd (vmm_timer_event_start c (Some (Ev_sample c)) period
        (snd (vmm_timer_event_start c (Some (Ev_sched c)) 0 s6)))"
      using r c4 True i unfolding scheduler_startup_def case_prod_beta Let_def m_def [symmetric] s0_def [symmetric]
        s1_def [symmetric]
      by (auto simp: vmm_schedalgo_rq_create_def s3_def [symmetric] split: if_splits bind_splits)
    have "request_ok ?s5 i VMM_VCPU_STATE_READY"
      using create [OF c4 i3(1)] i by (simp add: request_ok_def settled_def)
    then have "sched_inv s6" using state_change_keeps [OF i5 _ r6] by simp
    moreover have "aside s6 (snd (vmm_timer_event_start c e d (snd (vmm_timer_event_start c e' d' s6))))" for e d e' d'
      by (simp add: aside_def event_start_inv)
    ultimately show ?thesis using s' aside_inv by blast
  qed
qed

section \<open>Steps\<close>

text \<open>
  One step of the system: an operation of the scheduler on some CPU, a delivered inter-processor call,
  or anything else (\<open>Other\<close>) that leaves the VCPU states, host CPUs, priorities, queues and current
  VCPUs alone and keeps the timer invariant. An operation that panics has no step.
\<close>

inductive sched_step :: "arch_ops \<Rightarrow> sched_sys \<Rightarrow> sched_sys \<Rightarrow> bool" for A where
  Change: "request_ok s v n \<Longrightarrow> vmm_scheduler_state_change A c (Some v) n s = Some (rc, s') \<Longrightarrow>
    (n = VMM_VCPU_STATE_RESET \<and> vstate (vcpus s v) = VMM_VCPU_STATE_READY \<longrightarrow> rc = VMM_OK) \<Longrightarrow> sched_step A s s'"
| Yield: "vmm_scheduler_yield A c s = Some s' \<Longrightarrow> sched_step A s s'"
| Tick: "scheduler_timer_event c s = Some s' \<Longrightarrow> sched_step A s s'"
| Irq_enter: "sched_step A s (vmm_scheduler_irq_enter c regs vc s)"
| Irq_exit: "vmm_scheduler_irq_exit A c s = Some s' \<Longrightarrow> sched_step A s s'"
| Resched: "ipis s c = Ipi_resched # rest \<Longrightarrow>
    scheduler_ipi_resched c (s\<lparr>ipis := (ipis s)(c := rest)\<rparr>) = Some s' \<Longrightarrow> sched_step A s s'"
| Time_sync: "ipis s c = Ipi_time_sync # rest \<Longrightarrow>
    sched_step A s (scheduler_system_time_sync c (s\<lparr>ipis := (ipis s)(c := rest)\<rparr>))"
| Migrate: "ipis s c = Ipi_migrate v new # rest \<Longrightarrow> settled s v \<Longrightarrow> srq (sched s new) \<noteq> None \<Longrightarrow>
    scheduler_ipi_migrate_vcpu A c v new (s\<lparr>ipis := (ipis s)(c := rest)\<rparr>) = Some s' \<Longrightarrow> sched_step A s s'"
| Set_hcpu: "settled s v \<Longrightarrow> srq (sched s new) \<noteq> None \<Longrightarrow>
    vmm_scheduler_set_hcpu A c (Some v) new s = Some (rc, s') \<Longrightarrow> sched_step A s s'"
| Stats: "sched_step A s (snd (snd (vmm_scheduler_stats c vp s)))"
| Sample: "sched_step A s (scheduler_sample_event c s)"
| Other: "aside s s' \<Longrightarrow> sched_step A s s'"

definition sched_init :: "sched_sys \<Rightarrow> bool" where
  "sched_init s \<longleftrightarrow> timer_inv s \<and> (\<forall>c. current_vcpu (sched s c) = None) \<and>
     (\<forall>c. srq (sched s c) = None \<or> srq (sched s c) = Some (replicate (VMM_VCPU_MAX_PRIORITY + 1) [])) \<and>
     (\<forall>v. vstate (vcpus s v) = VMM_VCPU_STATE_UNKNOWN)"

inductive sched_reachable :: "arch_ops \<Rightarrow> sched_sys \<Rightarrow> bool" for A where
  Init: "sched_init s \<Longrightarrow> sched_reachable A s"
| Step: "sched_reachable A s \<Longrightarrow> sched_step A s s' \<Longrightarrow> sched_reachable A s'"

lemma yield_keeps:
  assumes "sched_inv s" and "vmm_scheduler_yield A c s = Some s'"
  shows "sched_inv s'"
proof -
  from assms(2) obtain v where v: "currents s c = Some v"
    by (cases "currents s c") (auto simp: vmm_scheduler_yield_def split: if_splits)
  show ?thesis
  proof (cases "vstate (vcpus s v) = VMM_VCPU_STATE_RUNNING")
    case True
    then obtain rc where "vmm_scheduler_state_change A c (Some v) VMM_VCPU_STATE_READY s = Some (rc, s')"
      using assms(2) v by (auto simp: vmm_scheduler_yield_def split: if_splits)
    then show ?thesis
      using True by (intro state_change_keeps [OF assms(1), of v VMM_VCPU_STATE_READY]) (auto simp: request_ok_def settled_def)
  next
    case False
    then show ?thesis using assms v by (auto simp: vmm_scheduler_yield_def split: if_splits)
  qed
qed

lemma init_inv: "sched_init s \<Longrightarrow> sched_inv s"
proof -
  assume i: "sched_init s"
  have "rq_level (replicate (VMM_VCPU_MAX_PRIORITY + 1) []) p = []" for p by (simp add: rq_level_def)
  then have "queues s c = Some r \<Longrightarrow> rq_wf r \<and> (\<forall>p. rq_level r p = [])" for c r
    using i unfolding sched_init_def rq_wf_def queues_def by (metis length_replicate option.distinct(1) option.inject)
  then have "sched_ok (vcpus s) (queues s) (currents s)"
    using i by (intro sched_okI) (auto simp: sched_init_def)
  then show ?thesis using i by (simp add: sched_inv_def sched_init_def)
qed

lemma step_inv: "sched_step A s s' \<Longrightarrow> sched_inv s \<Longrightarrow> sched_inv s'"
proof (induction rule: sched_step.induct)
  case (Resched s c rest s')
  have "sched_inv (s\<lparr>ipis := (ipis s)(c := rest)\<rparr>)" by (rule aside_inv [OF _ Resched(3)]) (simp add: aside_def)
  then show ?case using Resched(2) ipi_resched_keeps by blast
next
  case (Time_sync s c rest)
  have "aside s (s\<lparr>ipis := (ipis s)(c := rest)\<rparr>)" by (simp add: aside_def)
  then show ?case using aside_trans time_sync_aside aside_inv Time_sync(2) by blast
next
  case (Migrate s c v new rest s')
  have "sched_inv (s\<lparr>ipis := (ipis s)(c := rest)\<rparr>)" by (rule aside_inv [OF _ Migrate(5)]) (simp add: aside_def)
  then show ?case using Migrate migrate_keeps by (auto simp: settled_def)
next
  case (Change s v n c rc s') then show ?case by (intro state_change_keeps [OF _ Change(1,2)])
next
  case (Set_hcpu s v new c rc s') then show ?case by (intro set_hcpu_keeps [OF _ _ _ Set_hcpu(3)]) simp_all
next
  case (Irq_enter s c regs vc) then show ?case by (rule aside_inv [OF irq_enter_aside])
next
  case (Stats s c vp) then show ?case by (rule aside_inv [OF stats_aside])
next
  case (Sample s c) then show ?case by (rule aside_inv [OF sample_aside])
qed (blast intro: yield_keeps timer_event_keeps irq_exit_keeps aside_inv)+

lemma reachable_inv: "sched_reachable A s \<Longrightarrow> sched_inv s"
  by (induction rule: sched_reachable.induct) (auto intro: init_inv step_inv)

section \<open>Requests\<close>

text \<open>The changes of state that \<^verbatim>\<open>vmm_scheduler_state_change\<close> carries out, and the requests it accepts without one.\<close>

fun legal_change :: "vcpu_state \<Rightarrow> vcpu_state \<Rightarrow> bool" where
  "legal_change st VMM_VCPU_STATE_UNKNOWN = True"
| "legal_change st VMM_VCPU_STATE_RESET = (st \<noteq> VMM_VCPU_STATE_RESET)"
| "legal_change st VMM_VCPU_STATE_READY = (st \<in> {VMM_VCPU_STATE_RESET, VMM_VCPU_STATE_PAUSED})"
| "legal_change st VMM_VCPU_STATE_RUNNING = False"
| "legal_change st VMM_VCPU_STATE_PAUSED = (st \<in> {VMM_VCPU_STATE_READY, VMM_VCPU_STATE_RUNNING})"
| "legal_change st VMM_VCPU_STATE_HALTED = (st \<in> {VMM_VCPU_STATE_READY, VMM_VCPU_STATE_RUNNING})"

definition no_change :: "vcpu_state \<Rightarrow> vcpu_state \<Rightarrow> bool" where
  "no_change st n \<longleftrightarrow> st = n \<and> n \<in> {VMM_VCPU_STATE_RESET, VMM_VCPU_STATE_READY, VMM_VCPU_STATE_PAUSED} \<or>
     st = VMM_VCPU_STATE_RUNNING \<and> n = VMM_VCPU_STATE_READY"

definition same_states :: "sched_sys \<Rightarrow> sched_sys \<Rightarrow> bool" where
  "same_states s s' \<longleftrightarrow> (\<forall>x. vstate (vcpus s' x) = vstate (vcpus s x)) \<and> currents s' = currents s"

lemma aside_same_states: "aside s s1 \<Longrightarrow> same_states s s1"
  by (simp add: aside_def unmoved_def same_states_def)

lemma vstate_frames:
  "vstate (vcpus (upd_vcpu v (\<lambda>x. x\<lparr>resumed := b\<rparr>) s) x) = vstate (vcpus s x)"
  "vstate (vcpus (call_wq_cleanup v s) x) = vstate (vcpus s x)"
  by (simp_all add: call_wq_cleanup_def waitqueue_cleanup_vcpus)

lemma same_states_simps [simp]:
  "same_states s s" "same_states s (upd_sched c (\<lambda>x. x\<lparr>srq := q\<rparr>) s') = same_states s s'"
  "same_states s (upd_vcpu v (\<lambda>x. x\<lparr>resumed := b\<rparr>) s') = same_states s s'"
  "same_states s (call_wq_cleanup v s') = same_states s s'"
  by (simp_all add: same_states_def vstate_frames del: upd_vcpu_simps(1))

lemma rq_ops_same_states [simp]:
  "same_states s (snd (rq_detach c v s')) = same_states s s'"
  "rq_enqueue c v s' = Some (rc, s1) \<Longrightarrow> same_states s s1 = same_states s s'"
  by (auto simp: rq_detach_def case_prod_beta rq_enqueue_def split: bind_splits)

lemma reset_states:
  assumes "sc_reset A v s = Some x" and "reset_count (vcpus s v) + 1 \<noteq> 0"
  shows "same_states s (snd (snd (snd x)))" "\<not> legal_change (vstate (vcpus s v)) VMM_VCPU_STATE_RESET \<Longrightarrow> fst (snd (snd x))"
proof -
  let ?c = "hcpu (vcpus s v)" and ?s1 = "upd_vcpu v (\<lambda>x. x\<lparr>resumed := False\<rparr>) s"
  define d where "d = (if currents s ?c \<noteq> Some v \<and> vstate (vcpus s v) = VMM_VCPU_STATE_READY then rq_detach ?c v ?s1 else (VMM_OK, ?s1))"
  have d: "same_states s (snd d)" "reset_count (vcpus (snd d) v) = reset_count (vcpus s v)"
    by (auto simp: d_def rq_detach_def case_prod_beta)
  have "same_states s (snd (snd (snd x)))"
  proof (cases "vstate (vcpus s v) \<in> {VMM_VCPU_STATE_UNKNOWN, VMM_VCPU_STATE_RESET} \<or> fst d \<noteq> VMM_OK")
    case True
    then show ?thesis using assms(1) d(1)
      by (auto simp: sc_reset_def d_def Let_def case_prod_beta vmm_schedalgo_vcpu_setup_def same_states_def
          split: if_splits)
  next
    case False
    have "aside (snd d) (snd (snd (snd x)))"
      by (rule reset_tail(1) [where ?s2.0 = "snd d" and v = v and A = A and
            p = "currents s ?c = Some v \<and> vstate (vcpus s v) = VMM_VCPU_STATE_RUNNING", OF _ assms(1)])
        (use False d(2) assms(2) in \<open>auto simp: sc_reset_def d_def Let_def case_prod_beta\<close>)
    then show ?thesis using d(1) aside_same_states unfolding same_states_def by metis
  qed
  then show "same_states s (snd (snd (snd x)))" .
  assume "\<not> legal_change (vstate (vcpus s v)) VMM_VCPU_STATE_RESET"
  then show "fst (snd (snd x))" using assms(1) by (auto simp: sc_reset_def)
qed

lemma request_states:
  assumes "sc_request A v n s = Some x" and "reset_count (vcpus s v) + 1 \<noteq> 0"
  shows "same_states s (snd (snd (snd x)))"
    and "\<not> legal_change (vstate (vcpus s v)) n \<Longrightarrow> fst x \<noteq> VMM_OK \<or> fst (snd (snd x))"
    and "\<not> legal_change (vstate (vcpus s v)) n \<Longrightarrow> \<not> no_change (vstate (vcpus s v)) n \<Longrightarrow>
      fst x = VMM_EINVALID \<and> \<not> fst (snd x)"
proof -
  have "same_states s (snd (snd (snd x)))"
  proof (cases n)
    case VMM_VCPU_STATE_UNKNOWN
    then show ?thesis
      using assms by (auto simp: sc_request_def vmm_schedalgo_vcpu_cleanup_def same_states_def split: if_splits)
  next
    case VMM_VCPU_STATE_RESET
    then show ?thesis using assms reset_states by (simp add: sc_request_def)
  qed (use assms in \<open>auto simp: sc_request_def sc_ready_def sc_pause_def Let_def case_prod_beta
      split: if_splits bind_splits\<close>)
  moreover have "fst x \<noteq> VMM_OK \<or> fst (snd (snd x))" if "\<not> legal_change (vstate (vcpus s v)) n"
    using assms that reset_states(2) [of A v s x]
    by (cases n) (auto simp: sc_request_def sc_ready_def sc_pause_def Let_def case_prod_beta split: if_splits bind_splits)
  moreover have "fst x = VMM_EINVALID \<and> \<not> fst (snd x)"
    if "\<not> legal_change (vstate (vcpus s v)) n" "\<not> no_change (vstate (vcpus s v)) n"
    using assms that
    by (cases n) (auto simp: sc_request_def sc_ready_def sc_pause_def no_change_def Let_def case_prod_beta
        split: if_splits bind_splits)
  ultimately show "same_states s (snd (snd (snd x)))"
    "\<not> legal_change (vstate (vcpus s v)) n \<Longrightarrow> fst x \<noteq> VMM_OK \<or> fst (snd (snd x))"
    "\<not> legal_change (vstate (vcpus s v)) n \<Longrightarrow> \<not> no_change (vstate (vcpus s v)) n \<Longrightarrow>
      fst x = VMM_EINVALID \<and> \<not> fst (snd x)" by blast+
qed

section \<open>Properties\<close>


text \<open>Examples: VCPU 1 is current on CPU 0 in state \<open>st\<close>, VCPU 2 of higher priority waits there.\<close>

definition example_store :: "vcpu_state \<Rightarrow> nat \<Rightarrow> vcpu" where
  "example_store st v = (if v = 1 then example_vcpu\<lparr>vstate := st\<rparr>
     else if v = 2 then example_vcpu\<lparr>priority := 5\<rparr> else example_vcpu\<lparr>vstate := VMM_VCPU_STATE_UNKNOWN\<rparr>)"

definition example_queue :: "vcpu_state \<Rightarrow> rq" where
  "example_queue st = [[], [], [], if st = VMM_VCPU_STATE_READY then [1] else [], [], [2], [], []]"

definition sched_example :: "vcpu_state \<Rightarrow> sched_sys" where
  "sched_example st = example_sys (example_store st)
     (\<lambda>c. if c = 0 then example_sched\<lparr>srq := Some (example_queue st), current_vcpu := Some 1, irq_regs := True\<rparr> else example_sched)"

lemma sched_example_simps:
  "vcpus (sched_example st) = example_store st"
  "sched (sched_example st) c = (if c = 0 then example_sched\<lparr>srq := Some (example_queue st), current_vcpu := Some 1, irq_regs := True\<rparr>
     else example_sched)"
  "cpu_online (sched_example st) = (\<lambda>c. c < 2)" "ipis (sched_example st) = (\<lambda>c. [])" "switches (sched_example st) = []"
  by (simp_all add: sched_example_def example_sys_def)

lemma sched_example_inv:
  assumes "st \<noteq> VMM_VCPU_STATE_UNKNOWN"
  shows "sched_inv (sched_example st)"
proof -
  have t: "timer_inv (sched_example st)"
    by (auto simp: timer_inv_def sched_example_def example_sys_def INIT_TIMER_EVENT_def)
  have q: "queues (sched_example st) c = (if c = 0 then Some (example_queue st)
      else Some (replicate 8 []))" for c
    by (simp add: queues_def sched_example_simps example_sched_def)
  have c: "currents (sched_example st) c = (if c = 0 then Some 1 else None)" for c
    by (simp add: currents_def sched_example_simps example_sched_def)
  have l0: "rq_level (example_queue st) p =
      (if p = 5 then [2] else if p = 3 \<and> st = VMM_VCPU_STATE_READY then [1] else [])" "rq_wf (example_queue st)" for p
    by (auto simp: rq_level_def example_queue_def rq_wf_def nth_Cons' split: if_splits)
  have l1: "rq_level (replicate 8 []) p = []" "rq_wf (replicate 8 [])" for p by (simp_all add: rq_level_def rq_wf_def)
  have v: "hcpu (example_store st w) = 0" "vstate (example_store st w) = (if w = 1 then st else if w = 2
      then VMM_VCPU_STATE_READY else VMM_VCPU_STATE_UNKNOWN)" "rq_prio (example_store st) w = (if w = 2 then 5 else 3)"
      "rq_ok (example_store st) w" for w
    by (simp_all add: example_store_def example_vcpu_def rq_prio_def rq_ok_def)
  have "sched_ok (vcpus (sched_example st)) (queues (sched_example st)) (currents (sched_example st))"
    by (rule sched_okI)
      (use assms in \<open>auto simp: sched_example_simps(1) q c l0 l1 v split: if_splits\<close>)
  with t show ?thesis by (simp add: sched_inv_def)
qed

definition example_boot :: sched_sys where
  "example_boot = example_sys (\<lambda>v. example_vcpu\<lparr>vstate := VMM_VCPU_STATE_UNKNOWN, sched_priv := False\<rparr>) (\<lambda>c. example_sched)"


text \<open>
  Property C2: the context switch. When the current VCPU of a CPU may be preempted and some VCPU can run there, the
  switch returns (it does not panic), runs the VCPU of highest priority among the READY ones and the current one
  if that is RUNNING, puts a RUNNING current VCPU back as READY, leaves every other VCPU alone, and saves the registers
  of the old VCPU whenever its state is RUNNING, PAUSED or HALTED. The invariant is kept.
\<close>
theorem scheduler_switch_highest:
  assumes "sched_inv s" and "current_vcpu (sched s c) = Some cur"
    and "preempt_count (vcpus s cur) = (if wq_lock (vcpus s cur) \<noteq> None then 1 else 0)"
    and "runnable s c w"
  shows "\<exists>v s'. vmm_scheduler_switch c True s = Some s' \<and> sched_inv s' \<and>
    runnable s c v \<and> (\<forall>w. runnable s c w \<longrightarrow> rq_prio (vcpus s) w \<le> rq_prio (vcpus s) v) \<and>
    current_vcpu (sched s' c) = Some v \<and> vstate (vcpus s' v) = VMM_VCPU_STATE_RUNNING \<and>
    (v \<noteq> cur \<and> vstate (vcpus s cur) = VMM_VCPU_STATE_RUNNING \<longrightarrow> vstate (vcpus s' cur) = VMM_VCPU_STATE_READY) \<and>
    (\<forall>x. x \<noteq> v \<and> x \<noteq> cur \<longrightarrow> vcpus s' x = vcpus s x) \<and>
    switches s' = switches s @ (if v = cur then [] else [(c, if vstate (vcpus s cur) \<in>
      {VMM_VCPU_STATE_RUNNING, VMM_VCPU_STATE_PAUSED, VMM_VCPU_STATE_HALTED} then Some cur else None, v)])"
proof -
  obtain v s' where sw: "vmm_scheduler_switch c True s = Some s'" "sched_inv s'" "switched s c cur v s'"
    using switch_spec [OF assms(1) _ _ assms(4)] assms(2,3) unfolding preemptible_def by (metis currents_def)
  then show ?thesis
    by (intro exI [of _ v] exI [of _ s']) (auto simp: switched_def saveable_states)
qed

theorem scheduler_switch_highest_witness:
  "\<exists>s'. vmm_scheduler_switch 0 True (sched_example VMM_VCPU_STATE_RUNNING) = Some s' \<and>
     current_vcpu (sched s' 0) = Some 2 \<and> switches s' = [(0, Some 1, 2)]"
proof -
  let ?s = "sched_example VMM_VCPU_STATE_RUNNING"
  have v: "hcpu (example_store VMM_VCPU_STATE_RUNNING w) = 0" "vstate (example_store VMM_VCPU_STATE_RUNNING w) =
      (if w = 1 then VMM_VCPU_STATE_RUNNING else if w = 2 then VMM_VCPU_STATE_READY else VMM_VCPU_STATE_UNKNOWN)"
      "rq_prio (example_store VMM_VCPU_STATE_RUNNING) w = (if w = 2 then 5 else 3)" for w
    by (simp_all add: example_store_def example_vcpu_def rq_prio_def)
  have h: "sched_inv ?s" "current_vcpu (sched ?s 0) = Some 1"
    "preempt_count (vcpus ?s 1) = (if wq_lock (vcpus ?s 1) \<noteq> None then 1 else 0)" "runnable ?s 0 2"
    using sched_example_inv [of VMM_VCPU_STATE_RUNNING] v
    by (simp_all add: sched_example_simps example_store_def example_vcpu_def runnable_def
        del: currents_upd queues_upd)
  from scheduler_switch_highest [OF h] obtain w s' where
    w: "vmm_scheduler_switch 0 True ?s = Some s'" "runnable ?s 0 w"
      "\<forall>x. runnable ?s 0 x \<longrightarrow> rq_prio (vcpus ?s) x \<le> rq_prio (vcpus ?s) w" "current_vcpu (sched s' 0) = Some w"
      "switches s' = switches ?s @ (if w = 1 then [] else [(0, if vstate (vcpus ?s 1) \<in>
        {VMM_VCPU_STATE_RUNNING, VMM_VCPU_STATE_PAUSED, VMM_VCPU_STATE_HALTED} then Some 1 else None, w)])"
    by blast
  have "w = 2" using w(2) w(3) [rule_format, OF h(4)]
    by (auto simp: runnable_def sched_example_simps v split: if_splits)
  with w show ?thesis by (simp add: sched_example_simps v)
qed

text \<open>
  Further fact: while the current VCPU holds a lock (its preemption count is not the one at which it may sleep), the
  switch changes no VCPU, queue or current VCPU, saves no registers, and starts the scheduler's timer event
  of the CPU again.
\<close>
theorem scheduler_no_preemption:
  assumes "current_vcpu (sched s c) = Some cur"
    and "preempt_count (vcpus s cur) \<noteq> (if wq_lock (vcpus s cur) \<noteq> None then 1 else 0)"
  shows "\<exists>s'. vmm_scheduler_switch c True s = Some s' \<and> vcpus s' = vcpus s \<and> sched s' = sched s \<and>
    switches s' = switches s \<and> active_state (events s' (Ev_sched c)) \<and> active_hcpu (events s' (Ev_sched c)) = c"
proof -
  have "vmm_scheduler_switch c True s = Some (snd (vmm_timer_event_restart c (Some (Ev_sched c)) s))"
    by (rule switch_blocked) (use assms in \<open>simp_all add: preemptible_def\<close>)
  moreover have "active_state (events (snd (vmm_timer_event_restart c (Some (Ev_sched c)) s)) (Ev_sched c))"
    "active_hcpu (events (snd (vmm_timer_event_restart c (Some (Ev_sched c)) s)) (Ev_sched c)) = c"
    by (simp_all add: vmm_timer_event_restart_def vmm_timer_event_start_def start2_unfold case_prod_beta start_event_def Let_def)
  ultimately show ?thesis by simp
qed

definition locked_example :: sched_sys where
  "locked_example = upd_vcpu 1 (\<lambda>x. x\<lparr>preempt_count := 2\<rparr>) (sched_example VMM_VCPU_STATE_RUNNING)"

theorem scheduler_no_preemption_witness:
  "\<exists>s'. vmm_scheduler_switch 0 True locked_example = Some s' \<and> vcpus s' = vcpus locked_example \<and> switches s' = []"
proof -
  have "current_vcpu (sched locked_example 0) = Some 1"
    "preempt_count (vcpus locked_example 1) \<noteq> (if wq_lock (vcpus locked_example 1) \<noteq> None then 1 else 0)"
    "switches locked_example = []"
    by (simp_all add: locked_example_def sched_example_simps example_store_def example_vcpu_def del: currents_upd queues_upd)
  with scheduler_no_preemption [of locked_example 0 1] show ?thesis by auto
qed





text \<open>
  Further fact: a VCPU that is paused on its CPU and resumed from another CPU before the pending switch of its own CPU
  is READY at the switch, which is not one of the states whose registers are saved: when a VCPU of higher priority
  takes over, \<^verbatim>\<open>arch_vcpu_switch\<close> gets NULL for the old VCPU, and its registers at the pause are lost although
  it is queued to run again.
\<close>
theorem scheduler_resume_before_switch:
  assumes "sched_inv s" and "current_vcpu (sched s c) = Some v" and "vstate (vcpus s v) = VMM_VCPU_STATE_PAUSED"
    and "preempt_count (vcpus s v) = (if wq_lock (vcpus s v) \<noteq> None then 1 else 0)"
    and "runnable s c w" and "rq_prio (vcpus s) v < rq_prio (vcpus s) w"
    and "vmm_scheduler_state_change A h (Some v) VMM_VCPU_STATE_READY s = Some (rc, s1)"
  shows "\<exists>u s2. vmm_scheduler_switch c True s1 = Some s2 \<and> u \<noteq> v \<and> switches s2 = switches s1 @ [(c, None, u)] \<and>
    vstate (vcpus s2 v) = VMM_VCPU_STATE_READY \<and> current_vcpu (sched s2 c) = Some u"
proof -
  have ok: "sched_ok (vcpus s) (queues s) (currents s)" using assms(1) by (simp add: sched_inv_def)
  obtain q where h: "hcpu (vcpus s v) = c" and q: "queues s c = Some q"
    using sched_okD(4) [OF ok, of c v] assms(2) by auto
  let ?e = "call_wq_cleanup v (upd_sched c (\<lambda>x. x\<lparr>srq := Some (rq_enq (vcpus s) q v)\<rparr>) s)"
  have e: "rq_enqueue c v s = Some (VMM_OK, upd_sched c (\<lambda>x. x\<lparr>srq := Some (rq_enq (vcpus s) q v)\<rparr>) s)"
    using enqueue_inv [OF assms(1), of v q] assms(3) h q by simp
  have x: "sc_ready v s = Some (VMM_OK, False, False, ?e)"
    using e assms(2,3) h by (simp add: sc_ready_def Let_def)
  have s1: "s1 = sc_commit h v VMM_VCPU_STATE_PAUSED VMM_VCPU_STATE_READY ?e"
    using assms(3,7) x by (simp add: state_change_unfold sc_request_def sc_result_def)
  have m: "moved (vcpus s) (vcpus s1) v VMM_VCPU_STATE_READY" unfolding s1 by (rule commit_moved) simp
  have c1: "currents s1 c = Some v" using assms(2) by (simp add: s1)
  have i1: "sched_inv s1"
    using ready_inv [OF assms(1) x, of h] assms(3) s1 by (simp add: sc_result_def)
  have "preempt_count (vcpus s1 v) = preempt_count (vcpus s v)" "wq_lock (vcpus s1 v) = wq_lock (vcpus s v)"
    by (simp_all add: s1 sc_commit_def sc_account_def Let_def case_prod_beta call_wq_cleanup_def waitqueue_cleanup_vcpus)
  then have p1: "preemptible s1 v" using assms(4) by (simp add: preemptible_def)
  have w1: "runnable s1 c w" using assms(5,6) m by (auto simp: runnable_def moved_def)
  obtain u s2 where u: "vmm_scheduler_switch c True s1 = Some s2" "switched s1 c v u s2"
    by (rule switch_spec [OF i1 c1 p1 w1])
  have "u \<noteq> v" using u(2) w1 assms(6) moved_prio [OF m] unfolding switched_def by fastforce
  moreover have "vstate (vcpus s1 v) = VMM_VCPU_STATE_READY" using m by (simp add: moved_def)
  ultimately show ?thesis
    using u by (intro exI [of _ u] exI [of _ s2]) (auto simp: switched_def saveable_states)
qed

theorem scheduler_resume_before_switch_witness:
  "\<exists>rc s1 u s2. vmm_scheduler_state_change example_arch 1 (Some 1) VMM_VCPU_STATE_READY (sched_example VMM_VCPU_STATE_PAUSED)
      = Some (rc, s1) \<and> vmm_scheduler_switch 0 True s1 = Some s2 \<and> switches s2 = switches s1 @ [(0, None, u)] \<and>
      vstate (vcpus s2 1) = VMM_VCPU_STATE_READY"
proof -
  let ?s = "sched_example VMM_VCPU_STATE_PAUSED"
  have v: "vstate (vcpus ?s 1) = VMM_VCPU_STATE_PAUSED" "preempt_count (vcpus ?s 1) = (if wq_lock (vcpus ?s 1) \<noteq> None then 1 else 0)"
    "runnable ?s 0 2" "rq_prio (vcpus ?s) 1 < rq_prio (vcpus ?s) 2" "current_vcpu (sched ?s 0) = Some 1"
    by (simp_all add: sched_example_simps example_store_def example_vcpu_def runnable_def rq_prio_def
        del: currents_upd queues_upd)
  obtain rc s1 where r: "vmm_scheduler_state_change example_arch 1 (Some 1) VMM_VCPU_STATE_READY ?s = Some (rc, s1)"
    using v by (simp add: state_change_unfold sc_request_def sc_ready_def rq_enqueue_def vmm_schedalgo_rq_enqueue_def
        sched_example_simps example_store_def example_vcpu_def example_queue_def del: currents_upd queues_upd)
  have inv: "sched_inv ?s" by (rule sched_example_inv) simp
  from scheduler_resume_before_switch [OF inv v(5,1,2,3,4) r] r show ?thesis by blast
qed

text \<open>
  Further fact: pausing, from another CPU, a VCPU that is READY but still current on its CPU (resumed before the pending
  switch) succeeds without taking it out of the ready queue: a PAUSED VCPU stays queued.
\<close>
theorem scheduler_pause_leaves_queued:
  assumes "sched_inv s" and "current_vcpu (sched s c) = Some v" and "vstate (vcpus s v) = VMM_VCPU_STATE_READY"
    and "\<not> resumed (vcpus s v)" and "h \<noteq> c"
    and "vmm_scheduler_state_change A h (Some v) VMM_VCPU_STATE_PAUSED s = Some (rc, s1)"
  shows "vstate (vcpus s1 v) = VMM_VCPU_STATE_PAUSED \<and>
    (\<exists>r. srq (sched s1 c) = Some r \<and> v \<in> set (rq_level r (rq_prio (vcpus s1) v)))"
proof -
  have ok: "sched_ok (vcpus s) (queues s) (currents s)" using assms(1) by (simp add: sched_inv_def)
  have h: "hcpu (vcpus s v) = c" using sched_okD(4) [OF ok, of c v] assms(2) by auto
  let ?u = "sc_commit h v VMM_VCPU_STATE_READY VMM_VCPU_STATE_PAUSED (upd_vcpu v (\<lambda>x. x\<lparr>resumed := False\<rparr>) s)"
  have s1: "s1 = snd (vmm_scheduler_force_resched A h c ?u)"
    using assms(2-6) h
    by (simp add: state_change_unfold sc_request_def sc_pause_def sc_preempt_def sc_result_def Let_def)
  have m: "moved (vcpus s) (vcpus ?u) v VMM_VCPU_STATE_PAUSED" by (rule commit_moved) simp
  have f: "unmoved (vcpus ?u) (vcpus s1)" "queues s1 = queues s"
    using force_resched_aside [of ?u A h c] by (simp_all add: s1 aside_def)
  have "vstate (vcpus s1 v) = VMM_VCPU_STATE_PAUSED" "rq_prio (vcpus s1) v = rq_prio (vcpus s) v"
    using f(1) m moved_prio [OF m, of v] unmoved_prio [OF f(1), of v] by (simp_all add: unmoved_def moved_def)
  then show ?thesis using sched_okD(1) [OF ok assms(3)] h f(2) by simp
qed

theorem scheduler_pause_leaves_queued_witness:
  "\<exists>rc s1 r. vmm_scheduler_state_change example_arch 1 (Some 1) VMM_VCPU_STATE_PAUSED (sched_example VMM_VCPU_STATE_READY)
      = Some (rc, s1) \<and> vstate (vcpus s1 1) = VMM_VCPU_STATE_PAUSED \<and> srq (sched s1 0) = Some r \<and>
      1 \<in> set (rq_level r (rq_prio (vcpus s1) 1))"
proof -
  let ?s = "sched_example VMM_VCPU_STATE_READY"
  have v: "current_vcpu (sched ?s 0) = Some 1" "vstate (vcpus ?s 1) = VMM_VCPU_STATE_READY" "\<not> resumed (vcpus ?s 1)"
    "hcpu (vcpus ?s 1) = 0"
    by (simp_all add: sched_example_simps example_store_def example_vcpu_def del: currents_upd)
  have inv: "sched_inv ?s" by (rule sched_example_inv) simp
  obtain rc s1 where r: "vmm_scheduler_state_change example_arch 1 (Some 1) VMM_VCPU_STATE_PAUSED ?s = Some (rc, s1)"
    using v by (simp add: state_change_unfold sc_request_def sc_pause_def Let_def sc_preempt_def sc_result_def)
      (metis surj_pair)
  from scheduler_pause_leaves_queued [OF inv v(1-3) _ r] r show ?thesis by auto
qed

end
