(* ===== verification/Waitqueue.thy ===== *)
theory Waitqueue
  imports Sched_Reach
begin

text \<open>
  Wait queues of orphan VCPUs, \<^verbatim>\<open>core/vmm_waitqueue.c\<close>. Functions named \<^verbatim>\<open>__vmm_x\<close> in the source, which run with
  the lock of the wait queue held, are \<open>vmm_x_raw\<close> here. Taking and releasing the lock moves the preemption
  count of the current VCPU; waiting for the lock itself is not modelled, a step starts when the lock is
  free.

  A sleep spans two steps. The first ends in the context switch of \<^verbatim>\<open>vmm_scheduler_state_change\<close> and releases the lock
  with it (\<open>Asleep\<close>); the second, \<open>waitqueue_sleep_resume\<close>, runs when the VCPU is current again and takes
  the lock back. A pause that a pending resume cancels does not switch, and the sleep returns at
  once (\<open>Returned\<close>). The timeout is a value: what is left of it is part of the result. \<^const>\<open>None\<close> is a
  \<^verbatim>\<open>BUG_ON\<close>, a panic, or the VCPU waiting for a lock it holds itself.
\<close>

section \<open>Sleep\<close>

datatype sleep_out =
    Returned int "u64 option"
  | Asleep "u64 option"

definition vmm_waitqueue_count :: "nat option \<Rightarrow> sched_sys \<Rightarrow> u32 option" where
  "vmm_waitqueue_count q s = map_option (\<lambda>q. wq_vcpu_count (wqs s q)) q"

text \<open>The end of \<^verbatim>\<open>__vmm_waitqueue_sleep\<close>, after the pause; \<open>exp_at\<close> is present when there is a timeout.\<close>

definition waitqueue_sleep_end ::
  "nat \<Rightarrow> nat \<Rightarrow> int \<Rightarrow> u64 option \<Rightarrow> u64 option \<Rightarrow> sched_sys \<Rightarrow> int \<times> u64 option \<times> sched_sys" where
  "waitqueue_sleep_end cpu v rc timeout exp_at s =
     (let s1 = upd_vcpu v (\<lambda>x. x\<lparr>wq_lock := None, wq_priv := None\<rparr>) s in
      case exp_at of
        None \<Rightarrow> (rc, None, s1)
      | Some ex \<Rightarrow>
          if rc = VMM_OK then
            let (now, s2) = vmm_timer_timestamp cpu s1;
                left = (if now > ex then 0 else ex - now)
            in (if left = 0 then VMM_ETIMEDOUT else rc, Some left, s2)
          else (rc, timeout, s1))"

definition waitqueue_timer ::
  "nat \<Rightarrow> nat \<Rightarrow> nat \<Rightarrow> u64 option \<Rightarrow> sched_sys \<Rightarrow> u64 option \<times> sched_sys" where
  "waitqueue_timer cpu q v timeout s =
     (case timeout of
        None \<Rightarrow> (None, s)
      | Some t \<Rightarrow>
          let s1 = upd_vcpu v (\<lambda>x. x\<lparr>wq_priv := Some (q, True)\<rparr>) (upd_event (Ev_wake v) (\<lambda>e. INIT_TIMER_EVENT) s);
              (rc, ex, s2) = vmm_timer_event_start2 cpu (Some (Ev_wake v)) t s1
          in (Some (case ex of None \<Rightarrow> 0 | Some x \<Rightarrow> x), s2))"

definition vmm_waitqueue_sleep_raw ::
  "arch_ops \<Rightarrow> nat \<Rightarrow> nat \<Rightarrow> u64 option \<Rightarrow> sched_sys \<Rightarrow> (sleep_out \<times> sched_sys) option" where
  "vmm_waitqueue_sleep_raw A cpu q timeout s =
     (if \<not> vmm_scheduler_orphan_context cpu s then None
      else if timeout = Some 0 then Some (Returned VMM_ETIMEDOUT timeout, s)
      else do {
        v \<leftarrow> vmm_scheduler_current_vcpu cpu s;
        let s1 = upd_vcpu v (\<lambda>x. x\<lparr>wq_lock := Some q, wq_priv := Some (q, False)\<rparr>) s;
        let s2 = upd_wq q (\<lambda>w. w\<lparr>wq_vcpu_list := wq_vcpu_list w @ [v], wq_vcpu_count := wq_vcpu_count w + 1\<rparr>) s1;
        let (exp_at, s3) = waitqueue_timer cpu q v timeout s2;
        let s4 = upd_vcpu v (\<lambda>x. x\<lparr>wq_cleanup := True\<rparr>) s3;
        (rc, s5) \<leftarrow> vmm_scheduler_state_change A cpu (Some v) VMM_VCPU_STATE_PAUSED s4;
        if vmm_scheduler_current_vcpu cpu s5 \<noteq> Some v then Some (Asleep exp_at, s5)
        else if vstate (vcpus s5 v) = VMM_VCPU_STATE_PAUSED then None
        else let (rc', left, s6) = waitqueue_sleep_end cpu v rc timeout exp_at s5
             in Some (Returned rc' left, s6) })"

definition waitqueue_sleep_resume ::
  "nat \<Rightarrow> u64 option \<Rightarrow> sched_sys \<Rightarrow> (int \<times> u64 option \<times> sched_sys) option" where
  "waitqueue_sleep_resume cpu exp_at s = do {
     v \<leftarrow> vmm_scheduler_current_vcpu cpu s;
     Some (waitqueue_sleep_end cpu v VMM_OK None exp_at (resume_relock cpu s)) }"

text \<open>
  \<^verbatim>\<open>vmm_waitqueue_sleep\<close> (no timeout) and \<^verbatim>\<open>vmm_waitqueue_sleep_timeout\<close>, up to the switch, and what
  either does when the VCPU runs again.
\<close>

definition vmm_waitqueue_sleep ::
  "arch_ops \<Rightarrow> nat \<Rightarrow> nat option \<Rightarrow> u64 option \<Rightarrow> sched_sys \<Rightarrow> (sleep_out \<times> sched_sys) option" where
  "vmm_waitqueue_sleep A cpu qp timeout s = do {
     q \<leftarrow> qp;
     (out, s1) \<leftarrow> vmm_waitqueue_sleep_raw A cpu q timeout (vmm_scheduler_preempt_disable cpu s);
     Some (out, case out of Returned rc left \<Rightarrow> vmm_scheduler_preempt_enable cpu s1 | Asleep ex \<Rightarrow> s1) }"

definition vmm_waitqueue_sleep_return ::
  "nat \<Rightarrow> u64 option \<Rightarrow> sched_sys \<Rightarrow> (int \<times> u64 option \<times> sched_sys) option" where
  "vmm_waitqueue_sleep_return cpu exp_at s = do {
     (rc, left, s1) \<leftarrow> waitqueue_sleep_resume cpu exp_at s;
     Some (rc, left, vmm_scheduler_preempt_enable cpu s1) }"

section \<open>Wake\<close>

definition vmm_waitqueue_forced_remove :: "nat \<Rightarrow> nat \<Rightarrow> sched_sys \<Rightarrow> int \<times> sched_sys" where
  "vmm_waitqueue_forced_remove cpu v s =
     (case wq_priv (vcpus s v) of
        None \<Rightarrow> (VMM_EFAIL, s)
      | Some p \<Rightarrow>
          let s1 = vmm_scheduler_preempt_disable cpu s;
              s2 = call_wq_cleanup v s1;
              s3 = upd_vcpu v (\<lambda>x. x\<lparr>wq_lock := None, wq_priv := None\<rparr>) s2
          in (VMM_OK, vmm_scheduler_preempt_enable cpu s3))"

definition vmm_waitqueue_wake_raw :: "arch_ops \<Rightarrow> nat \<Rightarrow> nat \<Rightarrow> sched_sys \<Rightarrow> (int \<times> sched_sys) option" where
  "vmm_waitqueue_wake_raw A cpu v s = vmm_scheduler_state_change A cpu (Some v) VMM_VCPU_STATE_READY s"

text \<open>\<^verbatim>\<open>vcpu->wq_priv\<close> is read before the check for NULL.\<close>

definition vmm_waitqueue_wake :: "arch_ops \<Rightarrow> nat \<Rightarrow> nat option \<Rightarrow> sched_sys \<Rightarrow> (int \<times> sched_sys) option" where
  "vmm_waitqueue_wake A cpu vp s = do {
     v \<leftarrow> vp;
     if is_normal (vcpus s v) \<or> wq_priv (vcpus s v) = None then Some (VMM_EFAIL, s)
     else do {
       (rc, s1) \<leftarrow> vmm_waitqueue_wake_raw A cpu v (vmm_scheduler_preempt_disable cpu s);
       Some (rc, vmm_scheduler_preempt_enable cpu s1) } }"

definition waitqueue_timeout :: "arch_ops \<Rightarrow> nat \<Rightarrow> nat \<Rightarrow> sched_sys \<Rightarrow> sched_sys option" where
  "waitqueue_timeout A cpu v s = map_option snd (vmm_waitqueue_wake A cpu (Some v) s)"

definition vmm_waitqueue_wakefirst_raw :: "arch_ops \<Rightarrow> nat \<Rightarrow> nat \<Rightarrow> sched_sys \<Rightarrow> (int \<times> sched_sys) option" where
  "vmm_waitqueue_wakefirst_raw A cpu q s =
     (case wq_vcpu_list (wqs s q) of
        [] \<Rightarrow> Some (VMM_ENOENT, s)
      | v # _ \<Rightarrow> vmm_waitqueue_wake_raw A cpu v s)"

definition vmm_waitqueue_wakefirst :: "arch_ops \<Rightarrow> nat \<Rightarrow> nat option \<Rightarrow> sched_sys \<Rightarrow> (int \<times> sched_sys) option" where
  "vmm_waitqueue_wakefirst A cpu qp s = do {
     q \<leftarrow> qp;
     (rc, s1) \<leftarrow> vmm_waitqueue_wakefirst_raw A cpu q (vmm_scheduler_preempt_disable cpu s);
     Some (rc, vmm_scheduler_preempt_enable cpu s1) }"

text \<open>
  \<^verbatim>\<open>list_for_each_entry_safe\<close>: the next VCPU is read before the wake-up takes the present one out, so the loop
  visits the list as it was at the start.
\<close>

fun wake_each :: "arch_ops \<Rightarrow> nat \<Rightarrow> nat list \<Rightarrow> sched_sys \<Rightarrow> (int \<times> sched_sys) option" where
  "wake_each A cpu [] s = Some (VMM_OK, s)"
| "wake_each A cpu (v # vs) s = do {
     (rc, s1) \<leftarrow> vmm_waitqueue_wake_raw A cpu v s;
     if rc \<noteq> VMM_OK then Some (rc, s1) else wake_each A cpu vs s1 }"

definition vmm_waitqueue_wakeall_raw :: "arch_ops \<Rightarrow> nat \<Rightarrow> nat \<Rightarrow> sched_sys \<Rightarrow> (int \<times> sched_sys) option" where
  "vmm_waitqueue_wakeall_raw A cpu q s =
     (if wq_vcpu_list (wqs s q) = [] then Some (VMM_ENOENT, s)
      else wake_each A cpu (wq_vcpu_list (wqs s q)) s)"

definition vmm_waitqueue_wakeall :: "arch_ops \<Rightarrow> nat \<Rightarrow> nat option \<Rightarrow> sched_sys \<Rightarrow> (int \<times> sched_sys) option" where
  "vmm_waitqueue_wakeall A cpu qp s = do {
     q \<leftarrow> qp;
     (rc, s1) \<leftarrow> vmm_waitqueue_wakeall_raw A cpu q (vmm_scheduler_preempt_disable cpu s);
     Some (rc, vmm_scheduler_preempt_enable cpu s1) }"

section \<open>Invariant\<close>

text \<open>
  The list of a wait queue holds exactly the VCPUs whose clean-up callback is armed for it, once each, and
  the counter is its length.
\<close>

definition wq_ok :: "sched_sys \<Rightarrow> nat \<Rightarrow> bool" where
  "wq_ok s q \<longleftrightarrow> distinct (wq_vcpu_list (wqs s q)) \<and> unat (wq_vcpu_count (wqs s q)) = length (wq_vcpu_list (wqs s q)) \<and>
     (\<forall>v. v \<in> set (wq_vcpu_list (wqs s q)) \<longleftrightarrow> wq_cleanup (vcpus s v) \<and> (\<exists>b. wq_priv (vcpus s v) = Some (q, b)))"

text \<open>
  No switch can happen on a CPU inside a step: its current VCPU is a guest VCPU, or an orphan VCPU that holds a
  lock outside interrupts.
\<close>

definition locked :: "sched_sys \<Rightarrow> nat \<Rightarrow> bool" where
  "locked s cpu \<longleftrightarrow> (\<forall>cur. currents s cpu = Some cur \<longrightarrow>
     is_normal (vcpus s cur) \<or> \<not> irq_context (sched s cpu) \<and> \<not> preemptible s cur)"

text \<open>The host CPU of the VCPU takes rescheduling requests, and has a ready queue.\<close>

definition hosted :: "arch_ops \<Rightarrow> sched_sys \<Rightarrow> nat \<Rightarrow> bool" where
  "hosted A s v \<longleftrightarrow> hcpu (vcpus s v) < cpu_count A \<and> cpu_online s (hcpu (vcpus s v)) \<and> queues s (hcpu (vcpus s v)) \<noteq> None"

section \<open>Frames\<close>

lemma locked_cong:
  assumes "currents s' cpu = currents s cpu" and "\<And>cur. currents s cpu = Some cur \<Longrightarrow> vcpus s' cur = vcpus s cur"
    and "irq_context (sched s' cpu) = irq_context (sched s cpu)"
  shows "locked s' cpu = locked s cpu"
  unfolding locked_def preemptible_def using assms by (metis (full_types))

lemma force_resched_simps [simp]:
  "vcpus (snd (vmm_scheduler_force_resched A c t s)) = vcpus s" "wqs (snd (vmm_scheduler_force_resched A c t s)) = wqs s"
  "events (snd (vmm_scheduler_force_resched A c t s)) = events s"
  "switches (snd (vmm_scheduler_force_resched A c t s)) = switches s"
  "cpu_online (snd (vmm_scheduler_force_resched A c t s)) = cpu_online s"
  "irq_context (sched (snd (vmm_scheduler_force_resched A c t s)) c') = irq_context (sched s c')"
  by (simp_all add: vmm_scheduler_force_resched_def ipi_send_def)

lemma restart_events:
  fixes s :: sched_sys
  shows "e' \<noteq> e \<Longrightarrow> events (snd (vmm_timer_event_restart c (Some e) s)) e' = events s e'"
  by (simp add: vmm_timer_event_restart_def start_events)

lemma commit_frame [simp]:
  "wqs (sc_commit h v st n s) = wqs s" "events (sc_commit h v st n s) = events s"
  "sched (sc_commit h v st n s) = sched s" "wq_view (vcpus (sc_commit h v st n s) x) = wq_view (vcpus s x)"
  "preempt_count (vcpus (sc_commit h v st n s) x) = preempt_count (vcpus s x)"
  by (auto simp: sc_commit_def Let_def case_prod_beta wq_view_def sc_account_def split: vcpu_state.splits)

lemma preempt_locked:
  assumes "locked s cpu"
  obtains rc' s' where "sc_preempt A cpu h rc s = Some (rc', s')" "vcpus s' = vcpus s" "wqs s' = wqs s" "aside s s'"
    "switches s' = switches s" "cpu_online s' = cpu_online s" "\<forall>c. irq_context (sched s' c) = irq_context (sched s c)"
    "\<forall>e. e \<noteq> Ev_sched cpu \<longrightarrow> events s' e = events s e"
    "h < cpu_count A \<and> cpu_online s h \<and> rc = VMM_OK \<longrightarrow> rc' = VMM_OK"
proof (cases "currents s h")
  case None
  then show ?thesis by (intro that [of rc s]) (simp_all add: sc_preempt_def aside_def)
next
  case (Some cur)
  consider (remote) "cpu \<noteq> h" | (guest) "cpu = h" "is_normal (vcpus s cur)"
    | (orphan) "cpu = h" "\<not> is_normal (vcpus s cur)" by blast
  then show ?thesis
  proof cases
    case remote
    let ?r = "vmm_scheduler_force_resched A cpu h s"
    have rc: "h < cpu_count A \<Longrightarrow> cpu_online s h \<Longrightarrow> fst ?r = VMM_OK"
      by (simp add: vmm_scheduler_force_resched_def)
    show ?thesis
      by (rule that [of "fst ?r" "snd ?r"])
        (use Some remote force_resched_aside [of s A cpu h] rc in \<open>simp_all add: sc_preempt_def\<close>)
  next
    case guest
    then show ?thesis
      using Some upd_flag_aside(1) [of s h True]
      by (intro that [of rc "upd_sched h (\<lambda>c. c\<lparr>yield_on_irq_exit := True\<rparr>) s"]) (auto simp: sc_preempt_def)
  next
    case orphan
    with assms Some have l: "\<not> irq_context (sched s h)" "\<not> preemptible s cur" by (auto simp: locked_def)
    have r: "aside s (snd (vmm_timer_event_restart h (Some (Ev_sched h)) s))"
      by (simp add: aside_def event_restart_inv)
    show ?thesis
      by (rule that [of rc "snd (vmm_timer_event_restart h (Some (Ev_sched h)) s)"])
        (use Some orphan l r switch_blocked [OF Some l(2)] in
          \<open>auto simp: sc_preempt_def vmm_scheduler_preempt_orphan_def restart_events\<close>)
  qed
qed

lemma cleanup_events:
  "e \<noteq> Ev_wake v \<Longrightarrow> events (call_wq_cleanup v s) e = events s e"
  "wq_cleanup (vcpus s v) \<Longrightarrow> wq_priv (vcpus s v) = Some (q, True) \<Longrightarrow> \<not> active_state (events (call_wq_cleanup v s) (Ev_wake v))"
  by (auto simp: call_wq_cleanup_def waitqueue_cleanup_def Let_def vmm_timer_event_stop_def stop_raw_events stop_raw_inactive
      split: option.splits)

section \<open>Waking a VCPU\<close>

text \<open>What waking \<open>v\<close> does to the rest of the system.\<close>

definition woken :: "nat \<Rightarrow> sched_sys \<Rightarrow> nat \<Rightarrow> sched_sys \<Rightarrow> bool" where
  "woken cpu s v s' \<longleftrightarrow> sched_inv s' \<and> vstate (vcpus s' v) = VMM_VCPU_STATE_READY \<and>
     (\<forall>x. x \<noteq> v \<longrightarrow> vcpus s' x = vcpus s x) \<and> wqs s' = wqs (call_wq_cleanup v s) \<and>
     wq_view (vcpus s' v) = wq_view (vcpus (call_wq_cleanup v s) v) \<and> currents s' = currents s \<and>
     switches s' = switches s \<and> cpu_online s' = cpu_online s \<and> (\<forall>c. queues s' c = None \<longleftrightarrow> queues s c = None) \<and>
     (\<forall>c. irq_context (sched s' c) = irq_context (sched s c)) \<and>
     (\<forall>e. e \<noteq> Ev_sched cpu \<longrightarrow> events s' e = events (call_wq_cleanup v s) e)"

text \<open>A request to make a paused VCPU READY succeeds; what follows is at most a preemption of its CPU.\<close>

lemma ready_request:
  assumes inv: "sched_inv s" and st: "vstate (vcpus s v) = VMM_VCPU_STATE_PAUSED"
    and cur: "\<forall>c. currents s c \<noteq> Some v" and host: "hosted A s v"
  obtains p s2 where "vmm_scheduler_state_change A cpu (Some v) VMM_VCPU_STATE_READY s =
      (if p then sc_preempt A cpu (hcpu (vcpus s v)) VMM_OK s2 else Some (VMM_OK, s2))"
    "woken cpu s v s2" "\<forall>c. irq_regs (sched s2 c) = irq_regs (sched s c)"
proof -
  let ?c = "hcpu (vcpus s v)"
  obtain q where q: "queues s ?c = Some q" using host by (auto simp: hosted_def)
  let ?e = "upd_sched ?c (\<lambda>c. c\<lparr>srq := Some (rq_enq (vcpus s) q v)\<rparr>) s"
  have e: "rq_enqueue ?c v s = Some (VMM_OK, ?e)" using enqueue_inv [OF inv _ q] st by simp
  have ok: "sched_ok (vcpus s) (queues s) (currents s)" using inv by (simp add: sched_inv_def)
  have "rq_ok (vcpus s) v" using sched_okD(3) [OF ok, of v] st by simp
  then have wf: "rq_wf (rq_enq (vcpus s) q v)" using rq_enq_level(1) sched_ok_queue(1) [OF ok q] by blast
  obtain p where p: "rq_prempt_needed ?c ?e = Some p"
    using wf by (cases "currents s ?c") (auto simp: rq_prempt_needed_def vmm_schedalgo_rq_prempt_needed_def rq_wf_def)
  have x: "sc_ready v s = Some (VMM_OK, p, False, call_wq_cleanup v ?e)"
    using e p st cur by (simp add: sc_ready_def Let_def)
  define s2 where "s2 = sc_commit cpu v VMM_VCPU_STATE_PAUSED VMM_VCPU_STATE_READY (call_wq_cleanup v ?e)"
  have i2: "sched_inv s2" using ready_inv [OF inv x, of cpu] st by (simp add: sc_result_def s2_def)
  have cl: "wqs (call_wq_cleanup v ?e) = wqs (call_wq_cleanup v s)"
    "wq_view (vcpus (call_wq_cleanup v ?e) x) = wq_view (vcpus (call_wq_cleanup v s) x)"
    "events (call_wq_cleanup v ?e) = events (call_wq_cleanup v s)" for x
    by (auto simp: call_wq_cleanup_def waitqueue_cleanup_def Let_def vmm_timer_event_stop_def timer_event_stop_raw_def
        upd_tlc_def upd_event_def wq_view_def upd_sched_def upd_wq_def upd_vcpu_def split: option.splits)
  have f1: "x \<noteq> v \<Longrightarrow> vcpus s2 x = vcpus s x" for x
    by (simp add: s2_def commit_vcpus call_wq_cleanup_def waitqueue_cleanup_vcpus)
  have f2: "wqs s2 = wqs (call_wq_cleanup v s)"
    "wq_view (vcpus s2 v) = wq_view (vcpus (call_wq_cleanup v s) v)"
    "currents s2 = currents s" "switches s2 = switches s" "cpu_online s2 = cpu_online s"
    "queues s2 = (queues s)(?c := Some (rq_enq (vcpus s) q v))" "events s2 = events (call_wq_cleanup v s)"
    "irq_context (sched s2 c) = irq_context (sched s c)" "vstate (vcpus s2 v) = VMM_VCPU_STATE_READY"
    "irq_regs (sched s2 c) = irq_regs (sched s c)" for c
    using cl by (simp_all add: s2_def commit_vcpus)
  have "vmm_scheduler_state_change A cpu (Some v) VMM_VCPU_STATE_READY s =
      (if p then sc_preempt A cpu ?c VMM_OK s2 else Some (VMM_OK, s2))"
    using x st by (simp add: state_change_unfold sc_request_def sc_result_def s2_def)
  moreover have "woken cpu s v s2" using i2 f1 f2 q by (auto simp: woken_def)
  ultimately show ?thesis using that f2(10) by blast
qed

lemma wake_spec:
  assumes inv: "sched_inv s" and lock: "locked s cpu" and st: "vstate (vcpus s v) = VMM_VCPU_STATE_PAUSED"
    and cur: "\<forall>c. currents s c \<noteq> Some v" and host: "hosted A s v"
  obtains s' where "vmm_waitqueue_wake_raw A cpu v s = Some (VMM_OK, s')" "woken cpu s v s'"
proof -
  let ?c = "hcpu (vcpus s v)"
  obtain p s2 where x: "vmm_waitqueue_wake_raw A cpu v s = (if p then sc_preempt A cpu ?c VMM_OK s2 else Some (VMM_OK, s2))"
    and w2: "woken cpu s v s2"
    unfolding vmm_waitqueue_wake_raw_def by (rule ready_request [OF inv st cur host])
  have "vcpus s2 w = vcpus s w" if "currents s cpu = Some w" for w using that cur w2 by (cases "w = v") (auto simp: woken_def)
  then have l2: "locked s2 cpu" using lock w2 locked_cong [of s2 cpu s] by (simp add: woken_def)
  show ?thesis
  proof (cases p)
    case False
    then show ?thesis using x w2 by (intro that) auto
  next
    case True
    obtain rc' s' where pr: "sc_preempt A cpu ?c VMM_OK s2 = Some (rc', s')" "vcpus s' = vcpus s2" "wqs s' = wqs s2" "aside s2 s'"
      "switches s' = switches s2" "cpu_online s' = cpu_online s2" "\<forall>c. irq_context (sched s' c) = irq_context (sched s2 c)"
      "\<forall>e. e \<noteq> Ev_sched cpu \<longrightarrow> events s' e = events s2 e"
      "?c < cpu_count A \<and> cpu_online s2 ?c \<and> VMM_OK = VMM_OK \<longrightarrow> rc' = VMM_OK"
      by (rule preempt_locked [OF l2, of A ?c VMM_OK])
    have "rc' = VMM_OK" using pr(9) host w2 by (simp add: hosted_def woken_def)
    moreover have "woken cpu s v s'"
      using w2 pr(2-8) aside_inv [OF pr(4)] by (auto simp: woken_def aside_def)
    ultimately show ?thesis using that x True pr(1) by simp
  qed
qed

text \<open>Waking keeps the invariant of every wait queue.\<close>

lemma cleanup_wqs:
  assumes "wq_ok s q" and "wq_priv (vcpus s v) = Some (q, b)" and "wq_cleanup (vcpus s v)"
  shows "wq_vcpu_list (wqs (call_wq_cleanup v s) q) = remove1 v (wq_vcpu_list (wqs s q))"
    "wq_vcpu_count (wqs (call_wq_cleanup v s) q) = wq_vcpu_count (wqs s q) - 1"
    "q' \<noteq> q \<Longrightarrow> wqs (call_wq_cleanup v s) q' = wqs s q'"
proof -
  have "v \<in> set (wq_vcpu_list (wqs s q))" using assms by (auto simp: wq_ok_def)
  then have "wq_vcpu_count (wqs s q) \<noteq> 0" using assms(1) by (auto simp: wq_ok_def unat_eq_0 [symmetric])
  then show "wq_vcpu_list (wqs (call_wq_cleanup v s) q) = remove1 v (wq_vcpu_list (wqs s q))"
    "wq_vcpu_count (wqs (call_wq_cleanup v s) q) = wq_vcpu_count (wqs s q) - 1"
    "q' \<noteq> q \<Longrightarrow> wqs (call_wq_cleanup v s) q' = wqs s q'"
    using assms(2,3) by (simp_all add: call_wq_cleanup_def waitqueue_cleanup_def Let_def)
qed

lemma woken_wq_ok:
  assumes ok: "wq_ok s q" and v: "v \<in> set (wq_vcpu_list (wqs s q))" and w: "woken cpu s v s'"
  shows "wq_ok s' q" "wq_vcpu_list (wqs s' q) = remove1 v (wq_vcpu_list (wqs s q))"
proof -
  obtain b where b: "wq_cleanup (vcpus s v)" "wq_priv (vcpus s v) = Some (q, b)" using ok v by (auto simp: wq_ok_def)
  note cl = cleanup_wqs [OF ok b(2,1)]
  have l: "wq_vcpu_list (wqs s' q) = remove1 v (wq_vcpu_list (wqs s q))"
    "wq_vcpu_count (wqs s' q) = wq_vcpu_count (wqs s q) - 1"
    using w cl by (simp_all add: woken_def)
  have "\<not> wq_cleanup (vcpus s' v)"
    using w b by (simp add: woken_def wq_view_def call_wq_cleanup_def waitqueue_cleanup_vcpus)
  then have m: "wq_cleanup (vcpus s' x) \<and> (\<exists>b. wq_priv (vcpus s' x) = Some (q, b)) \<longleftrightarrow>
      x \<noteq> v \<and> x \<in> set (wq_vcpu_list (wqs s q))" for x
    using w ok by (cases "x = v") (auto simp: woken_def wq_ok_def)
  have "wq_vcpu_count (wqs s q) \<noteq> 0" using ok v by (auto simp: wq_ok_def unat_eq_0 [symmetric])
  then have "unat (wq_vcpu_count (wqs s q) - 1) = length (wq_vcpu_list (wqs s q)) - 1"
    using ok by (simp add: wq_ok_def unat_minus_one)
  then show "wq_ok s' q" using ok v m l by (auto simp: wq_ok_def length_remove1)
  show "wq_vcpu_list (wqs s' q) = remove1 v (wq_vcpu_list (wqs s q))" by (rule l(1))
qed

text \<open>VCPUs that sleep: paused, switched out, on a CPU that runs.\<close>

definition sleeping :: "arch_ops \<Rightarrow> sched_sys \<Rightarrow> nat \<Rightarrow> bool" where
  "sleeping A s v \<longleftrightarrow> vstate (vcpus s v) = VMM_VCPU_STATE_PAUSED \<and> (\<forall>c. currents s c \<noteq> Some v) \<and> hosted A s v"

lemma woken_sleeping: "woken cpu s v s' \<Longrightarrow> x \<noteq> v \<Longrightarrow> sleeping A s' x = sleeping A s x"
  by (simp add: woken_def sleeping_def hosted_def)

lemma woken_locked: "woken cpu s v s' \<Longrightarrow> sleeping A s v \<Longrightarrow> locked s' cpu = locked s cpu"
  by (rule locked_cong) (auto simp: woken_def sleeping_def)

lemma wake_each_spec:
  assumes "sched_inv s" and "locked s cpu" and "distinct vs" and "\<forall>v \<in> set vs. sleeping A s v"
    and "wq_ok s q" and "wq_vcpu_list (wqs s q) = vs @ ws"
  shows "\<exists>s'. wake_each A cpu vs s = Some (VMM_OK, s') \<and> sched_inv s' \<and> wq_ok s' q \<and> wq_vcpu_list (wqs s' q) = ws \<and>
    (\<forall>v \<in> set vs. vstate (vcpus s' v) = VMM_VCPU_STATE_READY) \<and> (\<forall>x. x \<notin> set vs \<longrightarrow> vcpus s' x = vcpus s x)"
  using assms
proof (induction vs arbitrary: s)
  case (Cons v vs)
  have sl: "sleeping A s v" using Cons.prems(4) by simp
  obtain s1 where w: "vmm_waitqueue_wake_raw A cpu v s = Some (VMM_OK, s1)" "woken cpu s v s1"
    using wake_spec [OF Cons.prems(1,2), of v A] sl unfolding sleeping_def by metis
  have q1: "wq_ok s1 q" "wq_vcpu_list (wqs s1 q) = vs @ ws"
    using woken_wq_ok [OF Cons.prems(5) _ w(2)] Cons.prems(6) by simp_all
  have "\<exists>s'. wake_each A cpu vs s1 = Some (VMM_OK, s') \<and> sched_inv s' \<and> wq_ok s' q \<and> wq_vcpu_list (wqs s' q) = ws \<and>
    (\<forall>v \<in> set vs. vstate (vcpus s' v) = VMM_VCPU_STATE_READY) \<and> (\<forall>x. x \<notin> set vs \<longrightarrow> vcpus s' x = vcpus s1 x)"
  proof (rule Cons.IH [OF _ _ _ _ q1])
    show "sched_inv s1" using w(2) by (simp add: woken_def)
    show "locked s1 cpu" using woken_locked [OF w(2) sl] Cons.prems(2) by simp
    show "\<forall>v \<in> set vs. sleeping A s1 v" using woken_sleeping [OF w(2), of _ A] Cons.prems(3,4) by (metis distinct.simps(2) list.set_intros(2))
  qed (use Cons.prems(3) in simp)
  moreover have "vstate (vcpus s1 v) = VMM_VCPU_STATE_READY" "\<forall>x. x \<noteq> v \<longrightarrow> vcpus s1 x = vcpus s x" "v \<notin> set vs"
    using w(2) Cons.prems(3) by (simp_all add: woken_def)
  ultimately show ?case using w(1) by fastforce
qed simp

section \<open>Going to sleep\<close>

lemma start2_fst: "fst (snd (vmm_timer_event_start2 c (Some e) d s)) = Some (fst (vmm_timer_timestamp c s) + d)"
  by (simp add: start2_unfold case_prod_beta)

lemma start2_events:
  "events (snd (snd (vmm_timer_event_start2 c (Some e) d s))) e' =
     (if e' = e then (events (snd (snd (vmm_timer_event_start2 c (Some e) d s))) e)
        \<lparr>active_state := True, active_hcpu := c, expiry_tstamp := fst (vmm_timer_timestamp c s) + d\<rparr>
      else events s e')"
  by (simp add: start2_unfold case_prod_beta start_event_def Let_def stop_raw_events)

text \<open>The state just before the pause: only the sleeper's wait-queue fields, the queue and the timer are touched.\<close>

lemma sleep_prepare:
  assumes inv: "sched_inv s" and ev: "\<not> active_state (events s (Ev_wake v))"
    and s4: "s4 = upd_vcpu v (\<lambda>x. x\<lparr>wq_cleanup := True\<rparr>) (snd (waitqueue_timer cpu q v timeout
        (upd_wq q f (upd_vcpu v (\<lambda>x. x\<lparr>wq_lock := Some q, wq_priv := Some (q, False)\<rparr>) s))))"
  shows "aside s s4" "vcpus s4 = (vcpus s)(v := (vcpus s v)\<lparr>wq_lock := Some q, wq_priv := Some (q, timeout \<noteq> None), wq_cleanup := True\<rparr>)"
    "wqs s4 = (wqs s)(q := f (wqs s q))" "sched s4 = sched s" "switches s4 = switches s"
    "timeout = Some t \<Longrightarrow> active_state (events s4 (Ev_wake v)) \<and> active_hcpu (events s4 (Ev_wake v)) = cpu \<and>
       fst (waitqueue_timer cpu q v timeout (upd_wq q f (upd_vcpu v (\<lambda>x. x\<lparr>wq_lock := Some q, wq_priv := Some (q, False)\<rparr>) s)))
         = Some (expiry_tstamp (events s4 (Ev_wake v)))"
proof -
  let ?s2 = "upd_wq q f (upd_vcpu v (\<lambda>x. x\<lparr>wq_lock := Some q, wq_priv := Some (q, False)\<rparr>) s)"
  let ?s3 = "upd_vcpu v (\<lambda>x. x\<lparr>wq_priv := Some (q, True)\<rparr>) (upd_event (Ev_wake v) (\<lambda>e. INIT_TIMER_EVENT) ?s2)"
  have t3: "timer_inv ?s3"
    using inv timer_inv_init [of ?s2 "Ev_wake v"] ev by (simp add: sched_inv_def)
  have m: "timer_sys.more (snd (snd (vmm_timer_event_start2 cpu (Some (Ev_wake v)) d ?s3))) = timer_sys.more ?s3" for d
    by (rule start2_more)
  note part = sched_part_eq [OF m]
  have w: "waitqueue_timer cpu q v (Some d) ?s2 =
      (Some (fst (vmm_timer_timestamp cpu ?s3) + d), snd (snd (vmm_timer_event_start2 cpu (Some (Ev_wake v)) d ?s3)))" for d
    by (simp add: waitqueue_timer_def Let_def case_prod_beta start2_fst)
  show v4: "vcpus s4 = (vcpus s)(v := (vcpus s v)\<lparr>wq_lock := Some q, wq_priv := Some (q, timeout \<noteq> None), wq_cleanup := True\<rparr>)"
    by (cases timeout) (auto simp: s4 w part waitqueue_timer_def [of _ _ _ None] fun_eq_iff)
  show q4: "wqs s4 = (wqs s)(q := f (wqs s q))" "switches s4 = switches s"
    by (cases timeout; auto simp: s4 w part waitqueue_timer_def [of _ _ _ None] fun_eq_iff)+
  show sc4: "sched s4 = sched s" by (cases timeout) (auto simp: s4 w part waitqueue_timer_def [of _ _ _ None])
  have t4: "timer_inv s4"
    using inv start2_inv [OF t3] by (cases timeout) (simp_all add: s4 w waitqueue_timer_def [of _ _ _ None] sched_inv_def)
  have "unmoved (vcpus s) (vcpus s4)" by (simp add: v4 unmoved_def)
  then show "aside s s4" using t4 queues_cong [OF sc4] currents_cong [OF sc4] by (simp add: aside_def)
  show "timeout = Some t \<Longrightarrow> active_state (events s4 (Ev_wake v)) \<and> active_hcpu (events s4 (Ev_wake v)) = cpu \<and>
       fst (waitqueue_timer cpu q v timeout ?s2) = Some (expiry_tstamp (events s4 (Ev_wake v)))"
    by (simp add: s4 w) (subst (1 2 3) start2_events, simp)
qed

lemma sleep_spec:
  assumes inv: "sched_inv s" and ok: "wq_ok s q" and cur: "currents s cpu = Some v"
    and st: "vstate (vcpus s v) = VMM_VCPU_STATE_RUNNING" "\<not> resumed (vcpus s v)" "\<not> is_normal (vcpus s v)"
    and lock: "\<not> irq_context (sched s cpu)" "preempt_count (vcpus s v) = 1"
    and out: "\<not> wq_cleanup (vcpus s v)" "\<not> active_state (events s (Ev_wake v))"
    and t: "timeout \<noteq> Some 0" and w: "w \<noteq> v" "runnable s cpu w"
    and len: "length (wq_vcpu_list (wqs s q)) < 2 ^ 32 - 1"
  obtains ex u s' where "vmm_waitqueue_sleep_raw A cpu q timeout s = Some (Asleep ex, s')" "sched_inv s'" "wq_ok s' q"
    "wq_vcpu_list (wqs s' q) = wq_vcpu_list (wqs s q) @ [v]" "vstate (vcpus s' v) = VMM_VCPU_STATE_PAUSED"
    "\<forall>c. currents s' c \<noteq> Some v" "preempt_count (vcpus s' v) = 0" "currents s' cpu = Some u"
    "switches s' = switches s @ [(cpu, Some v, u)]"
    "\<forall>t. timeout = Some t \<longrightarrow> active_state (events s' (Ev_wake v)) \<and> active_hcpu (events s' (Ev_wake v)) = cpu \<and>
       ex = Some (expiry_tstamp (events s' (Ev_wake v)))"
proof -
  let ?f = "\<lambda>x. x\<lparr>wq_vcpu_list := wq_vcpu_list x @ [v], wq_vcpu_count := wq_vcpu_count x + 1\<rparr>"
  define p where "p = waitqueue_timer cpu q v timeout
      (upd_wq q ?f (upd_vcpu v (\<lambda>x. x\<lparr>wq_lock := Some q, wq_priv := Some (q, False)\<rparr>) s))"
  define s4 where "s4 = upd_vcpu v (\<lambda>x. x\<lparr>wq_cleanup := True\<rparr>) (snd p)"
  note pr = sleep_prepare [OF inv out(2) s4_def [unfolded p_def], folded p_def]
  have i4: "sched_inv s4" by (rule aside_inv [OF pr(1) inv])
  have ok4: "sched_ok (vcpus s) (queues s) (currents s)" using inv by (simp add: sched_inv_def)
  have h: "hcpu (vcpus s v) = cpu" using sched_okD(4) [OF ok4 cur] by simp
  have c4: "currents s4 = currents s" using pr(1) by (simp add: aside_def)
  define s5 where "s5 = sc_commit cpu v VMM_VCPU_STATE_RUNNING VMM_VCPU_STATE_PAUSED (upd_vcpu v (\<lambda>x. x\<lparr>resumed := False\<rparr>) s4)"
  have x: "sc_pause v VMM_VCPU_STATE_PAUSED s4 = Some (VMM_OK, True, False, upd_vcpu v (\<lambda>x. x\<lparr>resumed := False\<rparr>) s4)"
    using st h c4 cur pr(2) by (simp add: sc_pause_def Let_def)
  have "settled s4 v" using st pr(2) by (simp add: settled_def)
  then have i5: "sched_inv s5"
    using pause_inv [OF i4 _ _ x, of cpu] st pr(2) by (simp add: sc_result_def s5_def)
  have f5: "currents s5 = currents s" "sched s5 = sched s" "wqs s5 = (wqs s)(q := ?f (wqs s q))"
    "switches s5 = switches s" "events s5 = events s4" "vstate (vcpus s5 v) = VMM_VCPU_STATE_PAUSED"
    using pr c4 by (simp_all add: s5_def commit_vcpus)
  have o5: "x \<noteq> v \<Longrightarrow> vcpus s5 x = vcpus s x" for x using pr(2) by (simp add: s5_def commit_vcpus)
  have v5: "wq_view (vcpus s5 v) = wq_view ((vcpus s v)\<lparr>wq_lock := Some q, wq_priv := Some (q, timeout \<noteq> None), wq_cleanup := True\<rparr>)"
    "preempt_count (vcpus s5 v) = 1"
    using pr(2) lock(2) by (simp_all add: s5_def wq_view_def [of "_\<lparr>resumed := _\<rparr>"]) (simp add: wq_view_def)
  have p5: "preemptible s5 v" using v5 by (simp add: preemptible_def wq_view_def)
  have w5: "runnable s5 cpu w" using w o5 by (simp add: runnable_def)
  obtain u s' where sw: "vmm_scheduler_switch cpu True s5 = Some s'" "sched_inv s'" "switched s5 cpu v u s'"
    "preempt_count (vcpus s' v) = 0"
    by (rule switch_spec [OF i5 _ p5 w5]) (use f5(1) cur in simp)
  have uv: "u \<noteq> v" using sw(3) f5(6) by (auto simp: switched_def runnable_def)
  have n5: "\<not> is_normal (vcpus s5 v)" using v5(1) st(3) by (simp add: wq_view_def)
  have sc: "vmm_scheduler_state_change A cpu (Some v) VMM_VCPU_STATE_PAUSED s4 = Some (VMM_OK, s')"
    using x sw(1) n5 lock(1) f5 cur h pr(2) st
    by (simp add: state_change_unfold sc_request_def sc_result_def s5_def [symmetric] sc_preempt_def vmm_scheduler_preempt_orphan_def)
  have orphan: "vmm_scheduler_orphan_context cpu s"
    using cur lock(1) st(3) by (simp add: vmm_scheduler_orphan_context_def)
  have cu: "currents s' cpu = Some u" using sw(3) by (simp add: switched_def)
  have sl: "vmm_waitqueue_sleep_raw A cpu q timeout s = Some (Asleep (fst p), s')"
    using orphan t cur sc cu uv
    by (simp add: vmm_waitqueue_sleep_raw_def vmm_scheduler_current_vcpu_def p_def [symmetric] s4_def [symmetric]
        case_prod_beta Let_def)
  have cs: "currents s' = (currents s)(cpu := Some u)" using sw(3) f5(1) by (simp add: switched_def)
  have "currents s' c \<noteq> Some v" for c
    using uv sched_okD(4) [OF ok4, of c v] h by (cases "c = cpu") (auto simp: cs)
  then have nc: "\<forall>c. currents s' c \<noteq> Some v" by blast
  have sw3: "wqs s' = wqs s5" "\<And>x. wq_view (vcpus s' x) = wq_view (vcpus s5 x)"
    "\<And>e. e \<noteq> Ev_sched cpu \<Longrightarrow> events s' e = events s5 e" "vstate (vcpus s' v) = VMM_VCPU_STATE_PAUSED"
    "switches s' = switches s @ [(cpu, Some v, u)]"
    using sw(3) uv f5 by (auto simp: switched_def saveable_states)
  have l': "wqs s' q = ?f (wqs s q)" using sw3(1) f5(3) by simp
  have "v \<notin> set (wq_vcpu_list (wqs s q))" using ok out(1) by (simp add: wq_ok_def)
  moreover have "unat (wq_vcpu_count (wqs s q) + 1) = Suc (length (wq_vcpu_list (wqs s q)))"
    using ok len by (subst unat_plus_if') (auto simp: wq_ok_def)
  moreover have "wq_cleanup (vcpus s' x) \<and> (\<exists>b. wq_priv (vcpus s' x) = Some (q, b)) \<longleftrightarrow>
      x = v \<or> x \<in> set (wq_vcpu_list (wqs s q))" for x
    using ok sw3(2) [of x] v5(1) o5 [of x] by (cases "x = v") (auto simp: wq_ok_def wq_view_def)
  ultimately have ok': "wq_ok s' q" using ok l' unfolding wq_ok_def by simp
  show ?thesis
    by (rule that [OF sl sw(2) ok' _ sw3(4) nc sw(4) cu sw3(5)])
      (use l' pr(6) sw3(3) [of "Ev_wake v"] f5(5) in auto)
qed

section \<open>Properties\<close>

text \<open>
  Property C5: going to sleep. An orphan VCPU that holds the lock of the wait queue and nothing else, with another VCPU
  to run on its CPU, is appended to the queue, paused and switched out with its registers saved; with the switch
  its preemption count is zero, that is, the lock is released. The scheduler and wait-queue invariants hold, and
  with a timeout the wake-up timer is active on this CPU.
\<close>
theorem waitqueue_sleep_parks:
  assumes "sched_inv s" and "wq_ok s q" and "current_vcpu (sched s cpu) = Some v"
    and "vstate (vcpus s v) = VMM_VCPU_STATE_RUNNING" and "\<not> resumed (vcpus s v)" and "\<not> is_normal (vcpus s v)"
    and "\<not> irq_context (sched s cpu)" and "preempt_count (vcpus s v) = 1"
    and "\<not> wq_cleanup (vcpus s v)" and "\<not> active_state (events s (Ev_wake v))"
    and "timeout \<noteq> Some 0" and "w \<noteq> v" and "runnable s cpu w"
    and "length (wq_vcpu_list (wqs s q)) < 2 ^ 32 - 1"
  shows "\<exists>ex u s'. vmm_waitqueue_sleep_raw A cpu q timeout s = Some (Asleep ex, s') \<and> sched_inv s' \<and> wq_ok s' q \<and>
    wq_vcpu_list (wqs s' q) = wq_vcpu_list (wqs s q) @ [v] \<and> vstate (vcpus s' v) = VMM_VCPU_STATE_PAUSED \<and>
    current_vcpu (sched s' cpu) = Some u \<and> u \<noteq> v \<and> preempt_count (vcpus s' v) = 0 \<and>
    switches s' = switches s @ [(cpu, Some v, u)] \<and>
    (\<forall>t. timeout = Some t \<longrightarrow> active_state (events s' (Ev_wake v)) \<and> active_hcpu (events s' (Ev_wake v)) = cpu \<and>
       ex = Some (expiry_tstamp (events s' (Ev_wake v))))"
proof -
  have cur: "currents s cpu = Some v" using assms(3) by simp
  obtain ex u s' where r: "vmm_waitqueue_sleep_raw A cpu q timeout s = Some (Asleep ex, s')" "sched_inv s'" "wq_ok s' q"
    "wq_vcpu_list (wqs s' q) = wq_vcpu_list (wqs s q) @ [v]" "vstate (vcpus s' v) = VMM_VCPU_STATE_PAUSED"
    "\<forall>c. currents s' c \<noteq> Some v" "preempt_count (vcpus s' v) = 0" "currents s' cpu = Some u"
    "switches s' = switches s @ [(cpu, Some v, u)]"
    "\<forall>t. timeout = Some t \<longrightarrow> active_state (events s' (Ev_wake v)) \<and> active_hcpu (events s' (Ev_wake v)) = cpu \<and>
       ex = Some (expiry_tstamp (events s' (Ev_wake v)))"
    by (rule sleep_spec [OF assms(1,2) cur assms(4-14)])
  moreover have "u \<noteq> v" using r(6,8) by auto
  ultimately show ?thesis by (intro exI [of _ ex] exI [of _ u] exI [of _ s']) simp
qed

text \<open>VCPU 1 runs on CPU 0 and holds one lock; the VCPUs of \<open>ps\<close> sleep in wait queue 0.\<close>

definition wq_example :: "nat list \<Rightarrow> sched_sys" where
  "wq_example ps = (sched_example VMM_VCPU_STATE_RUNNING)\<lparr>
     vcpus := (\<lambda>v. if v = 1 then (example_store VMM_VCPU_STATE_RUNNING 1)\<lparr>is_normal := False, preempt_count := 1\<rparr>
       else if v \<in> set ps then example_vcpu\<lparr>is_normal := False, vstate := VMM_VCPU_STATE_PAUSED, wq_priv := Some (0, False), wq_cleanup := True\<rparr>
       else example_store VMM_VCPU_STATE_RUNNING v),
     wqs := (\<lambda>q. if q = 0 then \<lparr>wq_vcpu_list = ps, wq_vcpu_count = of_nat (length ps)\<rparr>
       else \<lparr>wq_vcpu_list = [], wq_vcpu_count = 0\<rparr>)\<rparr>"

lemma wq_example_simps:
  "sched (wq_example ps) = sched (sched_example VMM_VCPU_STATE_RUNNING)" "cpu_online (wq_example ps) = (\<lambda>c. c < 2)"
  "queues (wq_example ps) 0 = Some (example_queue VMM_VCPU_STATE_RUNNING)"
  "currents (wq_example ps) c = (if c = 0 then Some 1 else None)" "irq_context (sched (wq_example ps) c) = False"
  "wq_vcpu_list (wqs (wq_example ps) 0) = ps" "events (wq_example ps) e = INIT_TIMER_EVENT"
  by (simp_all add: wq_example_def sched_example_def example_sys_def example_sched_def queues_def currents_def
      del: currents_upd queues_upd)

lemma wq_example_ok:
  assumes "distinct ps" and "1 \<notin> set ps" and "2 \<notin> set ps" and "length ps < 2 ^ 32"
  shows "sched_inv (wq_example ps)" "wq_ok (wq_example ps) 0"
proof -
  let ?s = "sched_example VMM_VCPU_STATE_RUNNING" and ?w = "wq_example ps"
  have i: "sched_inv ?s" by (rule sched_example_inv) simp
  then have ok: "sched_ok (vcpus ?s) (queues ?s) (currents ?s)" by (simp add: sched_inv_def)
  have st: "vstate (vcpus ?w x) = (if x \<in> set ps then VMM_VCPU_STATE_PAUSED else vstate (vcpus ?s x))"
    "hcpu (vcpus ?w x) = hcpu (vcpus ?s x)" "priority (vcpus ?w x) = priority (vcpus ?s x)" "rq_ok (vcpus ?w) x" for x
    using assms(2,3) by (auto simp: wq_example_def sched_example_simps example_store_def example_vcpu_def rq_ok_def rq_prio_def)
  have u: "vstate (vcpus ?s x) = VMM_VCPU_STATE_UNKNOWN" if "x \<in> set ps" for x
    using assms(2,3) that by (auto simp: sched_example_simps example_store_def example_vcpu_def)
  have pr: "rq_prio (vcpus ?w) x = rq_prio (vcpus ?s) x" for x using st by (simp add: rq_prio_def)
  have q: "queues ?w = queues ?s" "currents ?w = currents ?s" "timer_inv ?w"
    using i queues_cong [OF wq_example_simps(1)] currents_cong [OF wq_example_simps(1)]
    by (simp_all add: sched_inv_def) (simp add: wq_example_def timer_inv_def expiry_def [abs_def])
  have "sched_ok (vcpus ?w) (queues ?s) (currents ?s)"
  proof (rule sched_okI, goal_cases)
    case (1 c r) then show ?case by (rule sched_ok_queue(1) [OF ok])
  next
    case (2 c r p) then show ?case by (rule sched_ok_queue(2) [OF ok])
  next
    case (3 c r p v) then show ?case using sched_ok_queue(3) [OF ok 3] st pr u [of v] by auto
  next
    case (4 v) then show ?case using sched_okD(1) [OF ok, of v] st pr by (simp split: if_splits)
  next
    case (5 v) then show ?case using sched_okD(2) [OF ok, of v] st by (simp split: if_splits)
  next
    case (6 v) show ?case by (rule st(4))
  next
    case (7 c v) then show ?case using sched_okD(4) [OF ok 7] st by simp
  qed
  with q show "sched_inv ?w" by (simp add: sched_inv_def)
  show "wq_ok ?w 0"
    using assms by (auto simp: wq_ok_def wq_example_def example_store_def example_vcpu_def unat_of_nat)
qed

theorem waitqueue_sleep_parks_witness:
  "\<exists>ex u s'. vmm_waitqueue_sleep_raw example_arch 0 0 (Some 500) (wq_example []) = Some (Asleep ex, s') \<and>
     wq_vcpu_list (wqs s' 0) = [1] \<and> vstate (vcpus s' 1) = VMM_VCPU_STATE_PAUSED \<and> switches s' = [(0, Some 1, u)]"
proof -
  let ?s = "wq_example []"
  have a: "sched_inv ?s" "wq_ok ?s 0" by (rule wq_example_ok; simp)+
  have b: "current_vcpu (sched ?s 0) = Some 1" using wq_example_simps(4) [of "[]" 0] by simp
  have v: "vstate (vcpus ?s 1) = VMM_VCPU_STATE_RUNNING" "\<not> resumed (vcpus ?s 1)" "\<not> is_normal (vcpus ?s 1)"
    "\<not> irq_context (sched ?s 0)" "preempt_count (vcpus ?s 1) = 1" "\<not> wq_cleanup (vcpus ?s 1)"
    "\<not> active_state (events ?s (Ev_wake 1))" "Some 500 \<noteq> Some (0::u64)" "(2::nat) \<noteq> 1" "runnable ?s 0 2"
    "length (wq_vcpu_list (wqs ?s 0)) < 2 ^ 32 - 1" "switches ?s = []"
    by (simp_all add: wq_example_simps INIT_TIMER_EVENT_def)
      (simp_all add: wq_example_def example_store_def example_vcpu_def runnable_def sched_example_simps example_sched_def)
  from waitqueue_sleep_parks [OF a b v(1-11), of example_arch] v(12) show ?thesis
    by (auto simp: wq_example_simps)
qed

text \<open>
  Property C6: waking the first sleeper. With sleepers in the queue, the one that waits longest becomes READY and leaves the
  queue, the other sleepers and every other VCPU stay as they are, its timeout is stopped, and nothing is switched
  under the lock.
\<close>
theorem waitqueue_wakefirst_fifo:
  assumes "sched_inv s" and "wq_ok s q" and "locked s cpu" and "wq_vcpu_list (wqs s q) = v # vs" and "sleeping A s v"
  shows "\<exists>s'. vmm_waitqueue_wakefirst_raw A cpu q s = Some (VMM_OK, s') \<and> sched_inv s' \<and> wq_ok s' q \<and>
    wq_vcpu_list (wqs s' q) = vs \<and> vstate (vcpus s' v) = VMM_VCPU_STATE_READY \<and>
    (\<forall>x. x \<noteq> v \<longrightarrow> vcpus s' x = vcpus s x) \<and> switches s' = switches s \<and>
    (wq_priv (vcpus s v) = Some (q, True) \<longrightarrow> \<not> active_state (events s' (Ev_wake v)))"
proof -
  obtain s' where w: "vmm_waitqueue_wake_raw A cpu v s = Some (VMM_OK, s')" "woken cpu s v s'"
    using wake_spec [OF assms(1,3), of v A] assms(5) unfolding sleeping_def by metis
  have cl: "wq_cleanup (vcpus s v)" using assms(2,4) by (auto simp: wq_ok_def)
  show ?thesis
    using w woken_wq_ok [OF assms(2) _ w(2)] assms(4) cleanup_events(2) [OF cl, of q]
    by (intro exI [of _ s']) (auto simp: vmm_waitqueue_wakefirst_raw_def woken_def)
qed

lemma wq_example_locked:
  "locked (wq_example ps) 0" "v \<in> set ps \<Longrightarrow> v \<noteq> 1 \<Longrightarrow> sleeping example_arch (wq_example ps) v"
proof -
  show "locked (wq_example ps) 0"
    by (simp add: locked_def wq_example_simps(4,5) preemptible_def)
      (simp add: wq_example_def example_store_def example_vcpu_def)
  have "vstate (vcpus (wq_example ps) v) = VMM_VCPU_STATE_PAUSED \<and> hcpu (vcpus (wq_example ps) v) = 0"
    if "v \<in> set ps" "v \<noteq> 1" using that by (simp add: wq_example_def example_vcpu_def)
  then show "v \<in> set ps \<Longrightarrow> v \<noteq> 1 \<Longrightarrow> sleeping example_arch (wq_example ps) v"
    by (simp add: sleeping_def hosted_def wq_example_simps example_arch_def)
qed

theorem waitqueue_wakefirst_fifo_witness:
  "\<exists>s'. vmm_waitqueue_wakefirst_raw example_arch 0 0 (wq_example [3, 4]) = Some (VMM_OK, s') \<and>
     wq_vcpu_list (wqs s' 0) = [4] \<and> vstate (vcpus s' 3) = VMM_VCPU_STATE_READY"
proof -
  have a: "sched_inv (wq_example [3, 4])" "wq_ok (wq_example [3, 4]) 0" by (rule wq_example_ok; simp)+
  have l: "locked (wq_example [3, 4]) 0" "sleeping example_arch (wq_example [3, 4]) 3"
    by (rule wq_example_locked; simp)+
  have q: "wq_vcpu_list (wqs (wq_example [3, 4]) 0) = 3 # [4]" by (simp add: wq_example_simps)
  from waitqueue_wakefirst_fifo [OF a l(1) q l(2)] show ?thesis by blast
qed

text \<open>
  Further fact: waking all. Every sleeper of the queue becomes READY, the queue is empty afterwards, and no other VCPU is
  touched.
\<close>
theorem waitqueue_wakeall_all:
  assumes "sched_inv s" and "wq_ok s q" and "locked s cpu" and "wq_vcpu_list (wqs s q) \<noteq> []"
    and "\<forall>v \<in> set (wq_vcpu_list (wqs s q)). sleeping A s v"
  shows "\<exists>s'. vmm_waitqueue_wakeall_raw A cpu q s = Some (VMM_OK, s') \<and> sched_inv s' \<and> wq_ok s' q \<and>
    wq_vcpu_list (wqs s' q) = [] \<and>
    (\<forall>v \<in> set (wq_vcpu_list (wqs s q)). vstate (vcpus s' v) = VMM_VCPU_STATE_READY) \<and>
    (\<forall>x. x \<notin> set (wq_vcpu_list (wqs s q)) \<longrightarrow> vcpus s' x = vcpus s x)"
proof -
  have d: "distinct (wq_vcpu_list (wqs s q))" using assms(2) by (simp add: wq_ok_def)
  from wake_each_spec [OF assms(1,3) d assms(5,2), of "[]"] assms(4) show ?thesis
    by (simp add: vmm_waitqueue_wakeall_raw_def)
qed

theorem waitqueue_wakeall_all_witness:
  "\<exists>s'. vmm_waitqueue_wakeall_raw example_arch 0 0 (wq_example [3, 4]) = Some (VMM_OK, s') \<and>
     wq_vcpu_list (wqs s' 0) = [] \<and> vstate (vcpus s' 4) = VMM_VCPU_STATE_READY"
proof -
  have a: "sched_inv (wq_example [3, 4])" "wq_ok (wq_example [3, 4]) 0" by (rule wq_example_ok; simp)+
  have q: "wq_vcpu_list (wqs (wq_example [3, 4]) 0) = [3, 4]" by (simp add: wq_example_simps)
  then have "\<forall>v \<in> set (wq_vcpu_list (wqs (wq_example [3, 4]) 0)). sleeping example_arch (wq_example [3, 4]) v"
    using wq_example_locked(2) [of _ "[3, 4]"] by simp
  from waitqueue_wakeall_all [OF a wq_example_locked(1) _ this] q show ?thesis by auto
qed

end
