(* ===== verification/Sync.thy ===== *)
theory Sync
  imports Waitqueue
begin

text \<open>
  Semaphores, mutexes and completions, \<^verbatim>\<open>core/vmm_semaphore.c\<close>, \<^verbatim>\<open>core/vmm_mutex.c\<close>, \<^verbatim>\<open>core/vmm_completion.c\<close>, and the list of
  resources of a VCPU from \<^verbatim>\<open>core/vmm_manager.c\<close>. Each object is a record with the number of its wait queue; every
  operation holds the lock of that queue. An operation that may sleep returns a \<^typ>\<open>sleep_out\<close>; its
  second half, which runs when the VCPU is current again, has the suffix \<open>resume\<close>. With the operation of the source
  the model takes the CPU it runs on; the VCPU that calls is the current one of that CPU.
\<close>

section \<open>Resources of a VCPU\<close>

definition vmm_manager_vcpu_resource_add :: "nat option \<Rightarrow> vcpu_res \<Rightarrow> sched_sys \<Rightarrow> int \<times> sched_sys" where
  "vmm_manager_vcpu_resource_add vp r s =
     (case vp of None \<Rightarrow> (VMM_EINVALID, s)
      | Some v \<Rightarrow> (VMM_OK, upd_vcpu v (\<lambda>x. x\<lparr>vres := vres x @ [r]\<rparr>) s))"

definition vmm_manager_vcpu_resource_remove :: "nat option \<Rightarrow> vcpu_res \<Rightarrow> sched_sys \<Rightarrow> int \<times> sched_sys" where
  "vmm_manager_vcpu_resource_remove vp r s =
     (case vp of None \<Rightarrow> (VMM_EINVALID, s)
      | Some v \<Rightarrow> (VMM_OK, upd_vcpu v (\<lambda>x. x\<lparr>vres := remove1 r (vres x)\<rparr>) s))"

section \<open>Semaphore\<close>

text \<open>
  \<open>res_list\<close> holds, per VCPU, how many units it has; the list of the source links one allocated record per VCPU.
\<close>

record semaphore =
  sem_id :: nat
  sem_limit :: u32
  sem_value :: u32
  res_list :: "(nat \<times> u32) list"
  sem_wq :: nat

definition INIT_SEMAPHORE :: "nat \<Rightarrow> u32 \<Rightarrow> u32 \<Rightarrow> nat \<Rightarrow> semaphore" where
  "INIT_SEMAPHORE i lim val q = \<lparr>sem_id = i, sem_limit = lim, sem_value = val, res_list = [], sem_wq = q\<rparr>"

definition semaphore_find_resource :: "semaphore \<Rightarrow> nat option \<Rightarrow> (nat \<times> u32) option" where
  "semaphore_find_resource sem vp = List.find (\<lambda>r. Some (fst r) = vp) (res_list sem)"

definition semaphore_first_resource :: "semaphore \<Rightarrow> (nat \<times> u32) option" where
  "semaphore_first_resource sem = (case res_list sem of [] \<Rightarrow> None | r # _ \<Rightarrow> Some r)"

definition vmm_semaphore_avail :: "semaphore \<Rightarrow> u32" where
  "vmm_semaphore_avail sem = sem_value sem"

definition vmm_semaphore_limit :: "semaphore \<Rightarrow> u32" where
  "vmm_semaphore_limit sem = sem_limit sem"

definition set_count :: "nat \<Rightarrow> u32 \<Rightarrow> (nat \<times> u32) list \<Rightarrow> (nat \<times> u32) list" where
  "set_count v n = map (\<lambda>r. if fst r = v then (v, n) else r)"

text \<open>\<^verbatim>\<open>if (sres->count) sres->count--; if (!sres->count) ...\<close>\<close>

definition semaphore_put :: "nat \<times> u32 \<Rightarrow> semaphore \<Rightarrow> sched_sys \<Rightarrow> semaphore \<times> sched_sys" where
  "semaphore_put r sem s =
     (let v = fst r; n = (if snd r \<noteq> 0 then snd r - 1 else snd r) in
      if n = 0
      then (sem\<lparr>res_list := filter (\<lambda>r. fst r \<noteq> v) (res_list sem)\<rparr>,
            snd (vmm_manager_vcpu_resource_remove (Some v) (Res_semaphore (sem_id sem)) s))
      else (sem\<lparr>res_list := set_count v n (res_list sem)\<rparr>, s))"

definition vmm_semaphore_up ::
  "arch_ops \<Rightarrow> nat \<Rightarrow> semaphore \<Rightarrow> sched_sys \<Rightarrow> (int \<times> semaphore \<times> sched_sys) option" where
  "vmm_semaphore_up A cpu sem s =
     (if sem_limit sem = 0 then None
      else let s0 = vmm_scheduler_preempt_disable cpu s; cur = vmm_scheduler_current_vcpu cpu s in
        if sem_value sem < sem_limit sem then do {
          let sem1 = sem\<lparr>sem_value := sem_value sem + 1\<rparr>;
          let (sem2, s1) = (case semaphore_find_resource sem cur of
              Some r \<Rightarrow> semaphore_put r sem1 s0
            | None \<Rightarrow> (case semaphore_first_resource sem of Some r \<Rightarrow> semaphore_put r sem1 s0 | None \<Rightarrow> (sem1, s0)));
          (rc, s2) \<leftarrow> vmm_waitqueue_wakefirst_raw A cpu (sem_wq sem) s1;
          Some (if rc = VMM_ENOENT then VMM_OK else rc, sem2, vmm_scheduler_preempt_enable cpu s2) }
        else Some (VMM_EINVALID, sem, vmm_scheduler_preempt_enable cpu s0))"

text \<open>A unit is taken by the current VCPU; \<^verbatim>\<open>BUG_ON\<close> when there is no memory for its record.\<close>

definition semaphore_take :: "arch_ops \<Rightarrow> nat \<Rightarrow> semaphore \<Rightarrow> sched_sys \<Rightarrow> (semaphore \<times> sched_sys) option" where
  "semaphore_take A cpu sem s = do {
     v \<leftarrow> vmm_scheduler_current_vcpu cpu s;
     (case semaphore_find_resource sem (Some v) of
        Some r \<Rightarrow> Some (sem\<lparr>res_list := set_count v (snd r + 1) (res_list sem), sem_value := sem_value sem - 1\<rparr>, s)
      | None \<Rightarrow>
          let (m, s1) = arch_call (have_memory A) s in
          if \<not> m then None
          else Some (sem\<lparr>res_list := res_list sem @ [(v, 1)], sem_value := sem_value sem - 1\<rparr>,
                     snd (vmm_manager_vcpu_resource_add (Some v) (Res_semaphore (sem_id sem)) s1))) }"

text \<open>\<^verbatim>\<open>while (!sem->value)\<close>, with the lock held.\<close>

partial_function (option) semaphore_down_loop ::
  "arch_ops \<Rightarrow> nat \<Rightarrow> semaphore \<Rightarrow> u64 option \<Rightarrow> sched_sys \<Rightarrow> (sleep_out \<times> semaphore \<times> sched_sys) option" where
  "semaphore_down_loop A cpu sem timeout s =
     (if sem_value sem \<noteq> 0
      then map_option (\<lambda>(sem', s'). (Returned VMM_OK timeout, sem', s')) (semaphore_take A cpu sem s)
      else Option.bind (vmm_waitqueue_sleep_raw A cpu (sem_wq sem) timeout s) (\<lambda>(out, s1).
        case out of
          Asleep ex \<Rightarrow> Some (Asleep ex, sem, s1)
        | Returned rc left \<Rightarrow>
            if rc \<noteq> VMM_OK then Some (Returned rc left, sem, s1) else semaphore_down_loop A cpu sem left s1))"

definition unlock_returned :: "nat \<Rightarrow> sleep_out \<times> 'a \<times> sched_sys \<Rightarrow> sleep_out \<times> 'a \<times> sched_sys" where
  "unlock_returned cpu = (\<lambda>(out, x, s). (out, x, case out of Returned rc left \<Rightarrow> vmm_scheduler_preempt_enable cpu s | Asleep ex \<Rightarrow> s))"

definition semaphore_down_common ::
  "arch_ops \<Rightarrow> nat \<Rightarrow> semaphore \<Rightarrow> u64 option \<Rightarrow> sched_sys \<Rightarrow> (sleep_out \<times> semaphore \<times> sched_sys) option" where
  "semaphore_down_common A cpu sem timeout s =
     (if sem_limit sem = 0 \<or> \<not> vmm_scheduler_orphan_context cpu s then None
      else map_option (unlock_returned cpu)
             (semaphore_down_loop A cpu sem timeout (vmm_scheduler_preempt_disable cpu s)))"

definition semaphore_down_resume ::
  "arch_ops \<Rightarrow> nat \<Rightarrow> semaphore \<Rightarrow> u64 option \<Rightarrow> sched_sys \<Rightarrow> (sleep_out \<times> semaphore \<times> sched_sys) option" where
  "semaphore_down_resume A cpu sem ex s = do {
     (rc, left, s1) \<leftarrow> waitqueue_sleep_resume cpu ex s;
     map_option (unlock_returned cpu)
       (if rc \<noteq> VMM_OK then Some (Returned rc left, sem, s1) else semaphore_down_loop A cpu sem left s1) }"

text \<open>\<^verbatim>\<open>__vmm_semaphore_cleanup\<close>: the VCPU that holds \<open>r\<close> is destroyed.\<close>

definition vmm_semaphore_cleanup ::
  "arch_ops \<Rightarrow> nat \<Rightarrow> nat \<times> u32 \<Rightarrow> semaphore \<Rightarrow> sched_sys \<Rightarrow> (semaphore \<times> sched_sys) option" where
  "vmm_semaphore_cleanup A cpu r sem s =
     (let s0 = vmm_scheduler_preempt_disable cpu s;
          val = sem_value sem + snd r;
          sem1 = (if snd r \<noteq> 0 then sem\<lparr>sem_value := (if val > sem_limit sem then sem_limit sem else val)\<rparr> else sem);
          sem2 = sem1\<lparr>res_list := filter (\<lambda>x. fst x \<noteq> fst r) (res_list sem1)\<rparr>
      in do {
        s1 \<leftarrow> (if snd r \<noteq> 0 then map_option snd (vmm_waitqueue_wakeall_raw A cpu (sem_wq sem) s0) else Some s0);
        Some (sem2, vmm_scheduler_preempt_enable cpu s1) })"

section \<open>Mutex\<close>

record mutex =
  mut_id :: nat
  mut_lock :: u32
  mut_owner :: "nat option"
  mut_wq :: nat

definition INIT_MUTEX :: "nat \<Rightarrow> nat \<Rightarrow> mutex" where
  "INIT_MUTEX i q = \<lparr>mut_id = i, mut_lock = 0, mut_owner = None, mut_wq = q\<rparr>"

definition vmm_mutex_avail :: "mutex \<Rightarrow> bool" where
  "vmm_mutex_avail m = (mut_lock m = 0)"

definition vmm_mutex_cleanup :: "arch_ops \<Rightarrow> nat \<Rightarrow> nat option \<Rightarrow> mutex \<Rightarrow> sched_sys \<Rightarrow> (mutex \<times> sched_sys) option" where
  "vmm_mutex_cleanup A cpu vp m s =
     (case vp of
        None \<Rightarrow> Some (m, s)
      | Some v \<Rightarrow>
          let s0 = vmm_scheduler_preempt_disable cpu s in
          if mut_lock m \<noteq> 0 \<and> mut_owner m = Some v then do {
            (rc, s1) \<leftarrow> vmm_waitqueue_wakeall_raw A cpu (mut_wq m) s0;
            Some (m\<lparr>mut_lock := 0, mut_owner := None\<rparr>, vmm_scheduler_preempt_enable cpu s1) }
          else Some (m, vmm_scheduler_preempt_enable cpu s0))"

definition vmm_mutex_unlock :: "arch_ops \<Rightarrow> nat \<Rightarrow> mutex \<Rightarrow> sched_sys \<Rightarrow> (int \<times> mutex \<times> sched_sys) option" where
  "vmm_mutex_unlock A cpu m s =
     (if \<not> vmm_scheduler_orphan_context cpu s then None
      else let s0 = vmm_scheduler_preempt_disable cpu s; cur = vmm_scheduler_current_vcpu cpu s in
        if mut_lock m \<noteq> 0 \<and> mut_owner m = cur then
          if mut_lock m - 1 = 0 then do {
            let s1 = snd (vmm_manager_vcpu_resource_remove cur (Res_mutex (mut_id m)) s0);
            (rc, s2) \<leftarrow> vmm_waitqueue_wakefirst_raw A cpu (mut_wq m) s1;
            Some (if rc = VMM_ENOENT then VMM_OK else rc, m\<lparr>mut_lock := 0, mut_owner := None\<rparr>,
                  vmm_scheduler_preempt_enable cpu s2) }
          else Some (VMM_OK, m\<lparr>mut_lock := mut_lock m - 1\<rparr>, vmm_scheduler_preempt_enable cpu s0)
        else Some (VMM_EINVALID, m, vmm_scheduler_preempt_enable cpu s0))"

definition vmm_mutex_trylock :: "nat \<Rightarrow> mutex \<Rightarrow> sched_sys \<Rightarrow> (int \<times> mutex \<times> sched_sys) option" where
  "vmm_mutex_trylock cpu m s =
     (if \<not> vmm_scheduler_orphan_context cpu s then None
      else let s0 = vmm_scheduler_preempt_disable cpu s; cur = vmm_scheduler_current_vcpu cpu s in
        if mut_lock m = 0 then
          Some (1, m\<lparr>mut_lock := mut_lock m + 1, mut_owner := cur\<rparr>, vmm_scheduler_preempt_enable cpu
             (snd (vmm_manager_vcpu_resource_add cur (Res_mutex (mut_id m)) s0)))
        else if mut_owner m = cur then
          Some (1, m\<lparr>mut_lock := mut_lock m + 1\<rparr>, vmm_scheduler_preempt_enable cpu s0)
        else Some (0, m, vmm_scheduler_preempt_enable cpu s0))"

text \<open>\<^verbatim>\<open>while (mut->lock)\<close> and what follows, with the lock of the wait queue held.\<close>

partial_function (option) mutex_lock_loop ::
  "arch_ops \<Rightarrow> nat \<Rightarrow> mutex \<Rightarrow> u64 option \<Rightarrow> sched_sys \<Rightarrow> (sleep_out \<times> mutex \<times> sched_sys) option" where
  "mutex_lock_loop A cpu m timeout s =
     (if mut_lock m = 0
      then Some (Returned VMM_OK timeout, m\<lparr>mut_lock := 1, mut_owner := vmm_scheduler_current_vcpu cpu s\<rparr>,
             snd (vmm_manager_vcpu_resource_add (vmm_scheduler_current_vcpu cpu s) (Res_mutex (mut_id m)) s))
      else if mut_owner m = vmm_scheduler_current_vcpu cpu s
      then Some (Returned VMM_OK timeout, m\<lparr>mut_lock := mut_lock m + 1\<rparr>, s)
      else Option.bind (vmm_waitqueue_sleep_raw A cpu (mut_wq m) timeout s) (\<lambda>(out, s1).
        case out of
          Asleep ex \<Rightarrow> Some (Asleep ex, m, s1)
        | Returned rc left \<Rightarrow>
            if rc \<noteq> VMM_OK then Some (Returned rc left, m, s1) else mutex_lock_loop A cpu m left s1))"

definition mutex_lock_common ::
  "arch_ops \<Rightarrow> nat \<Rightarrow> mutex \<Rightarrow> u64 option \<Rightarrow> sched_sys \<Rightarrow> (sleep_out \<times> mutex \<times> sched_sys) option" where
  "mutex_lock_common A cpu m timeout s =
     (if \<not> vmm_scheduler_orphan_context cpu s then None
      else map_option (unlock_returned cpu) (mutex_lock_loop A cpu m timeout (vmm_scheduler_preempt_disable cpu s)))"

definition mutex_lock_resume ::
  "arch_ops \<Rightarrow> nat \<Rightarrow> mutex \<Rightarrow> u64 option \<Rightarrow> sched_sys \<Rightarrow> (sleep_out \<times> mutex \<times> sched_sys) option" where
  "mutex_lock_resume A cpu m ex s = do {
     (rc, left, s1) \<leftarrow> waitqueue_sleep_resume cpu ex s;
     map_option (unlock_returned cpu)
       (if rc \<noteq> VMM_OK then Some (Returned rc left, m, s1) else mutex_lock_loop A cpu m left s1) }"

section \<open>Completion\<close>

record completion =
  cmpl_done :: u32
  cmpl_wq :: nat

definition INIT_COMPLETION :: "nat \<Rightarrow> completion" where
  "INIT_COMPLETION q = \<lparr>cmpl_done = 0, cmpl_wq = q\<rparr>"

definition vmm_completion_done :: "completion \<Rightarrow> bool" where
  "vmm_completion_done c = (cmpl_done c \<noteq> 0)"

definition completion_take :: "completion \<Rightarrow> completion" where
  "completion_take c = (if cmpl_done c \<noteq> 0 then c\<lparr>cmpl_done := cmpl_done c - 1\<rparr> else c)"

definition completion_wait_common ::
  "arch_ops \<Rightarrow> nat \<Rightarrow> completion \<Rightarrow> u64 option \<Rightarrow> sched_sys \<Rightarrow> (sleep_out \<times> completion \<times> sched_sys) option" where
  "completion_wait_common A cpu c timeout s =
     (if \<not> vmm_scheduler_orphan_context cpu s then None
      else let s0 = vmm_scheduler_preempt_disable cpu s in
        map_option (unlock_returned cpu)
          (if cmpl_done c \<noteq> 0 then Some (Returned VMM_OK timeout, completion_take c, s0)
           else map_option (\<lambda>(out, s1). (out, case out of Returned rc left \<Rightarrow> completion_take c | Asleep ex \<Rightarrow> c, s1))
                  (vmm_waitqueue_sleep_raw A cpu (cmpl_wq c) timeout s0)))"

definition completion_wait_resume ::
  "nat \<Rightarrow> completion \<Rightarrow> u64 option \<Rightarrow> sched_sys \<Rightarrow> (int \<times> u64 option \<times> completion \<times> sched_sys) option" where
  "completion_wait_resume cpu c ex s = do {
     (rc, left, s1) \<leftarrow> waitqueue_sleep_resume cpu ex s;
     Some (rc, left, completion_take c, vmm_scheduler_preempt_enable cpu s1) }"

definition completion_signal ::
  "(nat \<Rightarrow> sched_sys \<Rightarrow> (int \<times> sched_sys) option) \<Rightarrow> nat \<Rightarrow> completion \<Rightarrow> sched_sys \<Rightarrow> (int \<times> completion \<times> sched_sys) option" where
  "completion_signal wake cpu c s = do {
     (rc, s1) \<leftarrow> wake (cmpl_wq c) (vmm_scheduler_preempt_disable cpu s);
     Some (rc, c, vmm_scheduler_preempt_enable cpu s1) }"

definition vmm_completion_complete ::
  "arch_ops \<Rightarrow> nat \<Rightarrow> completion \<Rightarrow> sched_sys \<Rightarrow> (int \<times> completion \<times> sched_sys) option" where
  "vmm_completion_complete A cpu c s =
     completion_signal (vmm_waitqueue_wakefirst_raw A cpu) cpu (c\<lparr>cmpl_done := cmpl_done c + 1\<rparr>) s"

definition vmm_completion_complete_once ::
  "arch_ops \<Rightarrow> nat \<Rightarrow> completion \<Rightarrow> sched_sys \<Rightarrow> (int \<times> completion \<times> sched_sys) option" where
  "vmm_completion_complete_once A cpu c s =
     (if cmpl_done c = 0
      then completion_signal (vmm_waitqueue_wakefirst_raw A cpu) cpu (c\<lparr>cmpl_done := cmpl_done c + 1\<rparr>) s
      else Some (VMM_OK, c, vmm_scheduler_preempt_enable cpu (vmm_scheduler_preempt_disable cpu s)))"

definition vmm_completion_complete_all ::
  "arch_ops \<Rightarrow> nat \<Rightarrow> completion \<Rightarrow> sched_sys \<Rightarrow> (int \<times> completion \<times> sched_sys) option" where
  "vmm_completion_complete_all A cpu c s =
     completion_signal (vmm_waitqueue_wakeall_raw A cpu) cpu (c\<lparr>cmpl_done := cmpl_done c + 0xFFFFFFFF div 2\<rparr>) s"

section \<open>Units of a semaphore\<close>

lemma unat_inc: "unat (x + 1) = unat x + 1" if "x < y" for x y :: u32
proof -
  have "unat x < unat y" using that by (simp add: word_less_nat_alt)
  moreover have "unat y < 2 ^ LENGTH(32)" by (rule unsigned_less)
  ultimately show ?thesis by (subst unat_plus_if') auto
qed

definition held :: "(nat \<times> u32) list \<Rightarrow> nat" where
  "held l = sum_list (map (\<lambda>r. unat (snd r)) l)"

text \<open>Every listed VCPU holds a unit, and units held and units free are never more than the limit.\<close>

definition sem_inv :: "semaphore \<Rightarrow> bool" where
  "sem_inv sem \<longleftrightarrow> distinct (map fst (res_list sem)) \<and> (\<forall>r \<in> set (res_list sem). snd r \<noteq> 0) \<and>
     unat (sem_value sem) + held (res_list sem) \<le> unat (sem_limit sem)"

lemma set_count_fst [simp]: "map fst (set_count v n l) = map fst l"
  by (auto simp: set_count_def)

lemma set_count_notin: "v \<notin> fst ` set l \<Longrightarrow> set_count v n l = l"
  by (induction l) (auto simp: set_count_def)

lemma held_set_count:
  "distinct (map fst l) \<Longrightarrow> (v, k) \<in> set l \<Longrightarrow> held (set_count v n l) + unat k = held l + unat n"
proof (induction l)
  case (Cons r l)
  show ?case
  proof (cases "fst r = v")
    case True
    then have "r = (v, k)" and "set_count v n l = l"
      using Cons.prems set_count_notin [of v l n] by (auto simp: rev_image_eqI)
    then show ?thesis by (simp add: held_def set_count_def)
  next
    case False
    then show ?thesis using Cons by (auto simp: held_def set_count_def)
  qed
qed simp

lemma filter_fst_id: "v \<notin> fst ` set l \<Longrightarrow> filter (\<lambda>r. fst r \<noteq> v) l = l"
  by (induction l) auto

lemma held_filter:
  "distinct (map fst l) \<Longrightarrow> (v, k) \<in> set l \<Longrightarrow> held (filter (\<lambda>r. fst r \<noteq> v) l) + unat k = held l"
proof (induction l)
  case (Cons r l)
  show ?case
  proof (cases "fst r = v")
    case True
    then have "r = (v, k)" and "filter (\<lambda>r. fst r \<noteq> v) l = l"
      using Cons.prems filter_fst_id [of v l] by (auto simp: rev_image_eqI)
    then show ?thesis by (simp add: held_def)
  next
    case False
    then show ?thesis using Cons by (auto simp: held_def)
  qed
qed simp

lemma find_resource:
  "semaphore_find_resource sem vp = Some r \<Longrightarrow> r \<in> set (res_list sem) \<and> vp = Some (fst r)"
  by (auto simp: semaphore_find_resource_def find_Some_iff)

lemma find_resource_None:
  "semaphore_find_resource sem (Some v) = None \<Longrightarrow> v \<notin> fst ` set (res_list sem)"
  by (auto simp: semaphore_find_resource_def find_None_iff)

lemma first_resource: "semaphore_first_resource sem = Some r \<Longrightarrow> r \<in> set (res_list sem)"
  by (auto simp: semaphore_first_resource_def split: list.splits)

lemma held_member: "r \<in> set l \<Longrightarrow> unat (snd r) \<le> held l"
  by (induction l) (auto simp: held_def)

lemma take_inv:
  assumes inv: "sem_inv sem" and v: "sem_value sem \<noteq> 0" and r: "semaphore_take A cpu sem s = Some (sem', s')"
  shows "sem_inv sem' \<and> unat (sem_value sem') + 1 = unat (sem_value sem) \<and>
    held (res_list sem') = held (res_list sem) + 1 \<and> sem_limit sem' = sem_limit sem"
proof -
  obtain c where c: "vmm_scheduler_current_vcpu cpu s = Some c"
    using r by (auto simp: semaphore_take_def split: bind_splits)
  have val: "unat (sem_value sem - 1) + 1 = unat (sem_value sem)" using v by (simp add: unat_minus_one unat_gt_0)
  show ?thesis
  proof (cases "semaphore_find_resource sem (Some c)")
    case None
    then show ?thesis
      using r c inv val find_resource_None [OF None]
      by (auto simp: semaphore_take_def sem_inv_def held_def Let_def case_prod_beta split: if_splits)
  next
    case (Some p)
    then have p: "p \<in> set (res_list sem)" "c = fst p" using find_resource by blast+
    then have m: "(c, snd p) \<in> set (res_list sem)" by simp
    have le: "unat (snd p) + 1 \<le> unat (sem_limit sem)"
      using held_member [OF p(1)] inv val by (auto simp: sem_inv_def)
    have "unat (sem_limit sem) < 2 ^ LENGTH(32)" by (rule unsigned_less)
    then have cnt: "unat (snd p + 1) = unat (snd p) + 1" using le by (subst unat_plus_if') auto
    then have nz: "snd p + 1 \<noteq> 0" by (metis add_eq_0_iff_both_eq_0 one_neq_zero unat_0)
    have h: "held (set_count c (snd p + 1) (res_list sem)) = held (res_list sem) + 1"
      using held_set_count [OF _ m, of "snd p + 1"] inv cnt by (simp add: sem_inv_def)
    have "\<forall>x \<in> set (set_count c (snd p + 1) (res_list sem)). snd x \<noteq> 0"
      using inv nz by (auto simp: sem_inv_def set_count_def)
    then show ?thesis
      using r c Some inv val h by (auto simp: semaphore_take_def sem_inv_def)
  qed
qed

lemma down_loop_result:
  assumes "semaphore_down_loop A cpu sem timeout s = Some (out, sem', s')"
  shows "(\<exists>left s1 s2. out = Returned VMM_OK left \<and> sem_value sem \<noteq> 0 \<and> semaphore_take A cpu sem s1 = Some (sem', s2)) \<or>
    sem' = sem \<and> (\<forall>left. out \<noteq> Returned VMM_OK left)"
proof -
  define P where "P = (\<lambda>A cpu sem (timeout :: u64 option) (s :: sched_sys) (r :: sleep_out \<times> semaphore \<times> sched_sys).
    (\<exists>left s1 s2. fst r = Returned VMM_OK left \<and> sem_value sem \<noteq> 0 \<and> semaphore_take A cpu sem s1 = Some (fst (snd r), s2)) \<or>
    fst (snd r) = sem \<and> (\<forall>left. fst r \<noteq> Returned VMM_OK left))"
  have "P A cpu sem timeout s (out, sem', s')"
  proof (rule semaphore_down_loop.raw_induct [OF _ assms], goal_cases)
    case (1 f A cpu sem timeout s r)
    show ?case
    proof (cases "sem_value sem = 0")
      case False
      then obtain a b where "semaphore_take A cpu sem s = Some (a, b)" "r = (Returned VMM_OK timeout, a, b)"
        using 1(2) by auto
      with False show ?thesis unfolding P_def by (intro disjI1) (metis fst_conv snd_conv)
    next
      case True
      then obtain out s1 where o: "vmm_waitqueue_sleep_raw A cpu (sem_wq sem) timeout s = Some (out, s1)"
        and r: "(case out of Asleep ex \<Rightarrow> Some (Asleep ex, sem, s1) | Returned rc left \<Rightarrow>
            if rc \<noteq> VMM_OK then Some (Returned rc left, sem, s1) else f A cpu sem left s1) = Some r"
        using 1(2) by (auto simp: bind_eq_Some_conv)
      show ?thesis
      proof (cases out)
        case (Returned rc left)
        then show ?thesis using r 1(1) [of A cpu sem left s1 r] by (auto simp: P_def split: if_splits)
      next
        case (Asleep ex)
        then show ?thesis using r by (auto simp: P_def)
      qed
    qed
  qed
  then show ?thesis by (simp add: P_def)
qed

lemma put_inv:
  assumes inv: "sem_inv sem" and r: "r \<in> set (res_list sem)" and lt: "sem_value sem < sem_limit sem"
  shows "sem_inv (fst (semaphore_put r (sem\<lparr>sem_value := sem_value sem + 1\<rparr>) s)) \<and>
    sem_value (fst (semaphore_put r (sem\<lparr>sem_value := sem_value sem + 1\<rparr>) s)) = sem_value sem + 1 \<and>
    sem_limit (fst (semaphore_put r (sem\<lparr>sem_value := sem_value sem + 1\<rparr>) s)) = sem_limit sem"
proof -
  have val: "unat (sem_value sem + 1) = unat (sem_value sem) + 1"
    by (rule unat_inc [OF lt])
  have nz: "snd r \<noteq> 0" using inv r by (simp add: sem_inv_def)
  then have one: "unat (snd r - 1) + 1 = unat (snd r)" by (simp add: unat_minus_one unat_gt_0)
  have m: "(fst r, snd r) \<in> set (res_list sem)" using r by simp
  have d: "distinct (map fst (res_list sem))" using inv by (simp add: sem_inv_def)
  show ?thesis
  proof (cases "snd r = 1")
    case True
    have "held (filter (\<lambda>x. fst x \<noteq> fst r) (res_list sem)) + 1 = held (res_list sem)"
      using held_filter [OF d m] True by simp
    moreover have "distinct (map fst (filter (\<lambda>x. fst x \<noteq> fst r) (res_list sem)))" using d by (rule distinct_map_filter)
    ultimately show ?thesis
      using inv val True by (simp add: semaphore_put_def Let_def sem_inv_def)
  next
    case False
    then have n: "snd r - 1 \<noteq> 0" by (simp add: eq_iff_diff_eq_0 [symmetric])
    have "held (set_count (fst r) (snd r - 1) (res_list sem)) + 1 = held (res_list sem)"
      using held_set_count [OF d m, of "snd r - 1"] one by simp
    moreover have "\<forall>x \<in> set (set_count (fst r) (snd r - 1) (res_list sem)). snd x \<noteq> 0"
      using inv n by (auto simp: sem_inv_def set_count_def)
    ultimately show ?thesis
      using inv val n nz by (simp add: semaphore_put_def Let_def sem_inv_def)
  qed
qed

text \<open>The state of the semaphore after \<^verbatim>\<open>up\<close>; the rest of the call only wakes a sleeper.\<close>

definition up_put :: "semaphore \<Rightarrow> nat option \<Rightarrow> sched_sys \<Rightarrow> semaphore \<times> sched_sys" where
  "up_put sem cur s0 = (case semaphore_find_resource sem cur of
       Some r \<Rightarrow> semaphore_put r (sem\<lparr>sem_value := sem_value sem + 1\<rparr>) s0
     | None \<Rightarrow> (case semaphore_first_resource sem of
         Some r \<Rightarrow> semaphore_put r (sem\<lparr>sem_value := sem_value sem + 1\<rparr>) s0
       | None \<Rightarrow> (sem\<lparr>sem_value := sem_value sem + 1\<rparr>, s0)))"

lemma up_unfold:
  "vmm_semaphore_up A cpu sem s =
     (if sem_limit sem = 0 then None
      else if sem_value sem < sem_limit sem then
        Option.bind (vmm_waitqueue_wakefirst_raw A cpu (sem_wq sem)
            (snd (up_put sem (vmm_scheduler_current_vcpu cpu s) (vmm_scheduler_preempt_disable cpu s))))
          (\<lambda>(rc, s2). Some (if rc = VMM_ENOENT then VMM_OK else rc,
             fst (up_put sem (vmm_scheduler_current_vcpu cpu s) (vmm_scheduler_preempt_disable cpu s)),
             vmm_scheduler_preempt_enable cpu s2))
      else Some (VMM_EINVALID, sem, vmm_scheduler_preempt_enable cpu (vmm_scheduler_preempt_disable cpu s)))"
  by (simp add: vmm_semaphore_up_def up_put_def Let_def case_prod_beta)

lemma up_put_inv:
  assumes inv: "sem_inv sem" and lt: "sem_value sem < sem_limit sem"
  shows "sem_inv (fst (up_put sem cur s0)) \<and> sem_value (fst (up_put sem cur s0)) = sem_value sem + 1 \<and>
    sem_limit (fst (up_put sem cur s0)) = sem_limit sem"
proof -
  consider (own) r where "semaphore_find_resource sem cur = Some r" "r \<in> set (res_list sem)"
    | (first) r where "semaphore_find_resource sem cur = None" "semaphore_first_resource sem = Some r" "r \<in> set (res_list sem)"
    | (none) "semaphore_find_resource sem cur = None" "semaphore_first_resource sem = None" "res_list sem = []"
    using find_resource first_resource
    by (cases "semaphore_find_resource sem cur"; cases "semaphore_first_resource sem")
      (fastforce simp: semaphore_first_resource_def split: list.splits)+
  then show ?thesis
  proof cases
    case own
    then show ?thesis using put_inv [OF inv own(2) lt] by (simp add: up_put_def)
  next
    case first
    then show ?thesis using put_inv [OF inv first(3) lt] by (simp add: up_put_def)
  next
    case none
    have "unat (sem_value sem + 1) = unat (sem_value sem) + 1"
      by (rule unat_inc [OF lt])
    moreover have "unat (sem_value sem) < unat (sem_limit sem)" using lt by (simp add: word_less_nat_alt)
    ultimately show ?thesis using none by (simp add: up_put_def sem_inv_def held_def)
  qed
qed

lemma cleanup_inv:
  assumes inv: "sem_inv sem" and r: "r \<in> set (res_list sem)" and c: "vmm_semaphore_cleanup A cpu r sem s = Some (sem', s')"
  shows "sem_inv sem' \<and> sem_limit sem' = sem_limit sem"
proof -
  have d: "distinct (map fst (res_list sem))" and nz: "snd r \<noteq> 0" using inv r by (auto simp: sem_inv_def)
  have h: "held (filter (\<lambda>x. fst x \<noteq> fst r) (res_list sem)) + unat (snd r) = held (res_list sem)"
    using held_filter [OF d, of "fst r" "snd r"] r by simp
  have le: "unat (sem_value sem) + unat (snd r) + held (filter (\<lambda>x. fst x \<noteq> fst r) (res_list sem)) \<le> unat (sem_limit sem)"
    using inv h by (simp add: sem_inv_def)
  moreover have "unat (sem_limit sem) < 2 ^ LENGTH(32)" by (rule unsigned_less)
  ultimately have v: "unat (sem_value sem + snd r) = unat (sem_value sem) + unat (snd r)"
    by (subst unat_plus_if') auto
  then have "\<not> sem_limit sem < sem_value sem + snd r" using le by (simp add: word_less_nat_alt)
  moreover have "distinct (map fst (filter (\<lambda>x. fst x \<noteq> fst r) (res_list sem)))" using d by (rule distinct_map_filter)
  ultimately have "sem_inv (sem\<lparr>sem_value := sem_value sem + snd r, res_list := filter (\<lambda>x. fst x \<noteq> fst r) (res_list sem)\<rparr>)"
    using inv v le by (simp add: sem_inv_def)
  then show ?thesis
    using c nz \<open>\<not> sem_limit sem < _\<close> by (auto simp: vmm_semaphore_cleanup_def Let_def split: bind_splits if_splits)
qed

section \<open>Runs of a semaphore\<close>

text \<open>
  The operations on one semaphore, by any VCPU on any CPU in any state of the rest of the system, in any order.
\<close>

inductive sem_step :: "arch_ops \<Rightarrow> semaphore \<Rightarrow> semaphore \<Rightarrow> bool" for A where
  Sem_up: "vmm_semaphore_up A cpu sem s = Some (rc, sem', s') \<Longrightarrow> sem_step A sem sem'"
| Sem_down: "semaphore_down_common A cpu sem timeout s = Some (out, sem', s') \<Longrightarrow> sem_step A sem sem'"
| Sem_resume: "semaphore_down_resume A cpu sem ex s = Some (out, sem', s') \<Longrightarrow> sem_step A sem sem'"
| Sem_cleanup: "r \<in> set (res_list sem) \<Longrightarrow> vmm_semaphore_cleanup A cpu r sem s = Some (sem', s') \<Longrightarrow> sem_step A sem sem'"

lemma down_loop_inv:
  assumes "semaphore_down_loop A cpu sem timeout s = Some (out, sem', s')" and "sem_inv sem"
  shows "sem_inv sem' \<and> sem_limit sem' = sem_limit sem"
  using down_loop_result [OF assms(1)] take_inv [OF assms(2)] assms(2) by fastforce

lemma sem_step_inv: "sem_step A sem sem' \<Longrightarrow> sem_inv sem \<Longrightarrow> sem_inv sem' \<and> sem_limit sem' = sem_limit sem"
proof (induction rule: sem_step.induct)
  case (Sem_up cpu sem s rc sem' s')
  then show ?case using up_put_inv [OF Sem_up(2)] by (auto simp: up_unfold split: if_splits bind_splits)
next
  case (Sem_down cpu sem timeout s out sem' s')
  then obtain o1 s1 where "semaphore_down_loop A cpu sem timeout (vmm_scheduler_preempt_disable cpu s) = Some (o1, sem', s1)"
    by (auto simp: semaphore_down_common_def unlock_returned_def split: if_splits)
  then show ?case using down_loop_inv Sem_down(2) by blast
next
  case (Sem_resume cpu sem ex s out sem' s')
  then show ?case
    using down_loop_inv
    by (fastforce simp: semaphore_down_resume_def unlock_returned_def split: if_splits bind_splits)
next
  case (Sem_cleanup r sem cpu s sem' s')
  then show ?case using cleanup_inv by blast
qed

lemma sem_steps_inv: "(sem_step A)\<^sup>*\<^sup>* sem sem' \<Longrightarrow> sem_inv sem \<Longrightarrow> sem_inv sem' \<and> sem_limit sem' = sem_limit sem"
  by (induction rule: rtranclp_induct) (auto dest: sem_step_inv)

section \<open>Frames\<close>

text \<open>Changes of preemption counts and resource lists only.\<close>

definition quiet :: "sched_sys \<Rightarrow> sched_sys \<Rightarrow> bool" where
  "quiet s s' \<longleftrightarrow> aside s s' \<and> sched s' = sched s \<and> wqs s' = wqs s \<and> cpu_online s' = cpu_online s \<and>
     switches s' = switches s \<and> events s' = events s \<and>
     (\<forall>x. wq_priv (vcpus s' x) = wq_priv (vcpus s x) \<and> wq_cleanup (vcpus s' x) = wq_cleanup (vcpus s x) \<and>
        wq_lock (vcpus s' x) = wq_lock (vcpus s x) \<and> is_normal (vcpus s' x) = is_normal (vcpus s x))"

lemma quiet_refl [simp]: "quiet s s" by (simp add: quiet_def aside_def)

lemma quiet_trans: "quiet s s1 \<Longrightarrow> quiet s1 s2 \<Longrightarrow> quiet s s2"
  by (auto simp: quiet_def intro: aside_trans)

lemma quiet_preempt: "quiet s (vmm_scheduler_preempt_disable c s)" "quiet s (vmm_scheduler_preempt_enable c s)"
  using preempt_count_aside(1,2) [of s c]
  by (auto simp: quiet_def vmm_scheduler_preempt_disable_def vmm_scheduler_preempt_enable_def split: option.splits)

lemma quiet_resource:
  "quiet s (snd (vmm_manager_vcpu_resource_add vp r s))" "quiet s (snd (vmm_manager_vcpu_resource_remove vp r s))"
  by (auto simp: quiet_def aside_def unmoved_def vmm_manager_vcpu_resource_add_def vmm_manager_vcpu_resource_remove_def
      split: option.splits)

lemma quiet_wq_ok: "quiet s s' \<Longrightarrow> wq_ok s' q = wq_ok s q"
  by (simp add: quiet_def wq_ok_def)

lemma quiet_sleeping: "quiet s s' \<Longrightarrow> sleeping A s' v = sleeping A s v"
  by (simp add: quiet_def sleeping_def hosted_def aside_def unmoved_def)

lemma quiet_orphan: "quiet s s' \<Longrightarrow> vmm_scheduler_orphan_context c s' = vmm_scheduler_orphan_context c s"
  by (simp add: quiet_def vmm_scheduler_orphan_context_def cong: option.case_cong)

lemma quiet_inv: "quiet s s' \<Longrightarrow> sched_inv s \<Longrightarrow> sched_inv s'"
  by (auto simp: quiet_def intro: aside_inv)

lemma up_put_quiet: "quiet s0 (snd (up_put sem cur s0))"
  by (auto simp: up_put_def semaphore_put_def Let_def quiet_resource split: option.splits)

lemma resource_preempt_count:
  "preempt_count (vcpus (snd (up_put sem cur s0)) x) = preempt_count (vcpus s0 x)"
  by (auto simp: up_put_def semaphore_put_def Let_def vmm_manager_vcpu_resource_remove_def split: option.splits)

text \<open>A VCPU that calls with interrupts handled and no wait queue set holds the CPU once it has the lock.\<close>

definition may_lock :: "sched_sys \<Rightarrow> nat \<Rightarrow> bool" where
  "may_lock s cpu \<longleftrightarrow> \<not> irq_context (sched s cpu) \<and>
     (\<forall>cur. currents s cpu = Some cur \<longrightarrow> wq_lock (vcpus s cur) = None \<and> preempt_count (vcpus s cur) + 1 \<noteq> 0)"

lemma may_lock_locked:
  assumes "may_lock s cpu" and "quiet (vmm_scheduler_preempt_disable cpu s) s1"
    and "\<forall>x. preempt_count (vcpus s1 x) = preempt_count (vcpus (vmm_scheduler_preempt_disable cpu s) x)"
  shows "locked s1 cpu"
proof -
  have q: "quiet s s1" using quiet_trans [OF quiet_preempt(1) assms(2)] .
  then have f: "currents s1 = currents s" "sched s1 = sched s" "\<And>x. wq_lock (vcpus s1 x) = wq_lock (vcpus s x)"
    by (simp_all add: quiet_def aside_def)
  have "preempt_count (vcpus s1 cur) = preempt_count (vcpus s cur) + 1" if "currents s cpu = Some cur" for cur
    using assms(1,3) that by (simp add: may_lock_def vmm_scheduler_preempt_disable_def)
  then show ?thesis using assms(1) f by (simp add: locked_def may_lock_def preemptible_def)
qed

section \<open>Owner of a mutex\<close>

definition mut_inv :: "mutex \<Rightarrow> bool" where
  "mut_inv m \<longleftrightarrow> (mut_lock m = 0 \<longleftrightarrow> mut_owner m = None)"

lemma sleep_end_current [simp]:
  "vmm_scheduler_current_vcpu c (snd (snd (waitqueue_sleep_end cpu v rc t ex s))) = vmm_scheduler_current_vcpu c s"
  by (auto simp: waitqueue_sleep_end_def vmm_scheduler_current_vcpu_def Let_def case_prod_beta split: option.splits)

lemma sleep_returned_current:
  assumes "vmm_waitqueue_sleep_raw A cpu q t s = Some (Returned rc left, s1)"
  shows "vmm_scheduler_current_vcpu cpu s1 = vmm_scheduler_current_vcpu cpu s"
  using assms
  by (auto simp: vmm_waitqueue_sleep_raw_def Let_def case_prod_beta split: if_splits bind_splits)

lemma sleep_resume_current:
  "waitqueue_sleep_resume cpu ex s = Some (rc, left, s1) \<Longrightarrow>
     vmm_scheduler_current_vcpu cpu s1 = vmm_scheduler_current_vcpu cpu s"
  by (auto simp: waitqueue_sleep_resume_def resume_relock_def vmm_scheduler_preempt_disable_def
      vmm_scheduler_current_vcpu_def waitqueue_sleep_end_def Let_def case_prod_beta split: bind_splits option.splits if_splits)

definition mutex_taken :: "mutex \<Rightarrow> nat option \<Rightarrow> mutex \<Rightarrow> bool" where
  "mutex_taken m v m' \<longleftrightarrow> mut_lock m = 0 \<and> m' = m\<lparr>mut_lock := 1, mut_owner := v\<rparr> \<or>
     mut_lock m \<noteq> 0 \<and> mut_owner m = v \<and> m' = m\<lparr>mut_lock := mut_lock m + 1\<rparr>"

lemma lock_loop_result:
  assumes "mutex_lock_loop A cpu m timeout s = Some (out, m', s')"
  shows "(\<exists>left. out = Returned VMM_OK left) \<and> mutex_taken m (vmm_scheduler_current_vcpu cpu s) m' \<or>
    m' = m \<and> (\<forall>left. out \<noteq> Returned VMM_OK left)"
proof -
  define P where "P = (\<lambda>(A :: arch_ops) cpu m (timeout :: u64 option) s (r :: sleep_out \<times> mutex \<times> sched_sys).
    (\<exists>left. fst r = Returned VMM_OK left) \<and> mutex_taken m (vmm_scheduler_current_vcpu cpu s) (fst (snd r)) \<or>
    fst (snd r) = m \<and> (\<forall>left. fst r \<noteq> Returned VMM_OK left))"
  have "P A cpu m timeout s (out, m', s')"
  proof (rule mutex_lock_loop.raw_induct [OF _ assms], goal_cases)
    case (1 f A cpu m timeout s r)
    show ?case
    proof (cases "mut_lock m = 0 \<or> mut_owner m = vmm_scheduler_current_vcpu cpu s")
      case True
      then show ?thesis using 1(2) by (auto simp: P_def mutex_taken_def split: if_splits)
    next
      case False
      then obtain out s1 where o: "vmm_waitqueue_sleep_raw A cpu (mut_wq m) timeout s = Some (out, s1)"
        and r: "(case out of Asleep ex \<Rightarrow> Some (Asleep ex, m, s1) | Returned rc left \<Rightarrow>
            if rc \<noteq> VMM_OK then Some (Returned rc left, m, s1) else f A cpu m left s1) = Some r"
        using 1(2) by (auto simp: bind_eq_Some_conv)
      show ?thesis
      proof (cases out)
        case (Returned rc left)
        then show ?thesis using r o 1(1) [of A cpu m left s1 r] sleep_returned_current
          by (fastforce simp: P_def split: if_splits)
      next
        case (Asleep ex)
        then show ?thesis using r by (auto simp: P_def)
      qed
    qed
  qed
  then show ?thesis by (simp add: P_def)
qed

section \<open>Runs of a mutex\<close>

text \<open>
  What a recursive mutex promises: it is free (\<^const>\<open>None\<close>) or held by one VCPU to some depth. Calls carry the
  VCPU that makes them and what they return.
\<close>

datatype mutex_call =
    Call_lock nat sleep_out
  | Call_resume nat sleep_out
  | Call_trylock nat int
  | Call_unlock nat int
  | Call_cleanup nat

definition acquired :: "nat \<Rightarrow> (nat \<times> nat) option \<Rightarrow> (nat \<times> nat) option \<Rightarrow> bool" where
  "acquired v a a' \<longleftrightarrow> a = None \<and> a' = Some (v, 1) \<or> (\<exists>n. a = Some (v, n) \<and> a' = Some (v, Suc n))"

definition contended :: "nat \<Rightarrow> (nat \<times> nat) option \<Rightarrow> bool" where
  "contended v a \<longleftrightarrow> (\<exists>w n. a = Some (w, n) \<and> w \<noteq> v)"

fun mutex_spec :: "(nat \<times> nat) option \<Rightarrow> mutex_call \<Rightarrow> (nat \<times> nat) option \<Rightarrow> bool" where
  "mutex_spec a (Call_lock v out) a' =
     (if \<exists>left. out = Returned VMM_OK left then acquired v a a' else a' = a \<and> contended v a)"
| "mutex_spec a (Call_resume v out) a' =
     (if \<exists>left. out = Returned VMM_OK left then acquired v a a' else a' = a)"
| "mutex_spec a (Call_trylock v rc) a' =
     (rc = 1 \<and> acquired v a a' \<or> rc = 0 \<and> a' = a \<and> contended v a)"
| "mutex_spec a (Call_unlock v rc) a' =
     (case a of
        Some (w, n) \<Rightarrow> if w \<noteq> v then rc = VMM_EINVALID \<and> a' = a else a' = (if n = 1 then None else Some (v, n - 1))
      | None \<Rightarrow> rc = VMM_EINVALID \<and> a' = a)"
| "mutex_spec a (Call_cleanup v) a' = (if \<exists>n. a = Some (v, n) then a' = None else a' = a)"

definition mutex_abs :: "mutex \<Rightarrow> (nat \<times> nat) option" where
  "mutex_abs m = map_option (\<lambda>v. (v, unat (mut_lock m))) (mut_owner m)"

inductive mut_step :: "arch_ops \<Rightarrow> mutex \<Rightarrow> mutex_call \<Rightarrow> mutex \<Rightarrow> bool" for A where
  Mut_lock: "vmm_scheduler_current_vcpu cpu s = Some v \<Longrightarrow> mutex_lock_common A cpu m timeout s = Some (out, m', s') \<Longrightarrow>
    mut_step A m (Call_lock v out) m'"
| Mut_resume: "vmm_scheduler_current_vcpu cpu s = Some v \<Longrightarrow> mutex_lock_resume A cpu m ex s = Some (out, m', s') \<Longrightarrow>
    mut_step A m (Call_resume v out) m'"
| Mut_trylock: "vmm_scheduler_current_vcpu cpu s = Some v \<Longrightarrow> vmm_mutex_trylock cpu m s = Some (rc, m', s') \<Longrightarrow>
    mut_step A m (Call_trylock v rc) m'"
| Mut_unlock: "vmm_scheduler_current_vcpu cpu s = Some v \<Longrightarrow> vmm_mutex_unlock A cpu m s = Some (rc, m', s') \<Longrightarrow>
    mut_step A m (Call_unlock v rc) m'"
| Mut_cleanup: "vmm_mutex_cleanup A cpu (Some v) m s = Some (m', s') \<Longrightarrow> mut_step A m (Call_cleanup v) m'"

lemma preempt_current [simp]:
  "vmm_scheduler_current_vcpu c (vmm_scheduler_preempt_disable cpu s) = vmm_scheduler_current_vcpu c s"
  "vmm_scheduler_current_vcpu c (vmm_scheduler_preempt_enable cpu s) = vmm_scheduler_current_vcpu c s"
  using quiet_preempt [of s cpu] by (simp_all add: quiet_def vmm_scheduler_current_vcpu_def)

lemma unat_suc: "unat x + 1 < 2 ^ 32 \<Longrightarrow> unat (x + 1) = Suc (unat x)" for x :: u32
  by (subst unat_plus_if') simp

lemma taken_acquired:
  assumes "mutex_taken m (Some v) m'" and "mut_inv m" and "unat (mut_lock m) + 1 < 2 ^ 32"
  shows "acquired v (mutex_abs m) (mutex_abs m') \<and> mut_inv m'"
proof -
  have s: "unat (mut_lock m + 1) = Suc (unat (mut_lock m))" by (rule unat_suc [OF assms(3)])
  then have "mut_lock m + 1 \<noteq> 0" by (metis unat_0 nat.distinct(1))
  then show ?thesis using assms s by (auto simp: mutex_taken_def acquired_def mutex_abs_def mut_inv_def)
qed

lemma lock_loop_contended:
  assumes "mutex_lock_loop A cpu m timeout s = Some (out, m', s')" and "\<forall>left. out \<noteq> Returned VMM_OK left"
  shows "mut_lock m \<noteq> 0 \<and> mut_owner m \<noteq> vmm_scheduler_current_vcpu cpu s"
  using assms by (subst (asm) mutex_lock_loop.simps) (auto split: if_splits)

lemma abs_contended: "mut_inv m \<Longrightarrow> mut_lock m \<noteq> 0 \<Longrightarrow> mut_owner m \<noteq> Some v \<Longrightarrow> contended v (mutex_abs m)"
  by (auto simp: mut_inv_def contended_def mutex_abs_def)

lemma unlock_result:
  assumes "vmm_mutex_unlock A cpu m s = Some (rc, m', s')"
  shows "(if mut_lock m \<noteq> 0 \<and> mut_owner m = vmm_scheduler_current_vcpu cpu s
    then m' = (if mut_lock m = 1 then m\<lparr>mut_lock := 0, mut_owner := None\<rparr> else m\<lparr>mut_lock := mut_lock m - 1\<rparr>)
    else rc = VMM_EINVALID \<and> m' = m)"
  using assms by (auto simp: vmm_mutex_unlock_def Let_def split: if_splits bind_splits)

lemma unat_pred: "x \<noteq> 0 \<Longrightarrow> unat (x - 1) = unat x - 1" for x :: u32
  by (simp add: unat_minus_one)

lemma unlock_abs:
  assumes "vmm_mutex_unlock A cpu m s = Some (rc, m', s')" and "vmm_scheduler_current_vcpu cpu s = Some v" and "mut_inv m"
  shows "mutex_spec (mutex_abs m) (Call_unlock v rc) (mutex_abs m') \<and> mut_inv m'"
proof (cases "mut_lock m \<noteq> 0 \<and> mut_owner m = Some v")
  case True
  have "unat (mut_lock m) = 1 \<longleftrightarrow> mut_lock m = 1" by (simp add: word_unat_eq_iff)
  moreover have "mut_lock m - 1 = 0 \<longleftrightarrow> mut_lock m = 1" by simp
  ultimately show ?thesis
    using unlock_result [OF assms(1)] assms(2) True unat_pred [of "mut_lock m"]
    by (auto simp: mutex_abs_def mut_inv_def split: if_splits)
next
  case False
  then show ?thesis
    using unlock_result [OF assms(1)] assms(2,3) by (auto simp: mutex_abs_def mut_inv_def split: option.splits)
qed

lemma trylock_result:
  assumes "vmm_mutex_trylock cpu m s = Some (rc, m', s')"
  shows "rc = 1 \<and> mutex_taken m (vmm_scheduler_current_vcpu cpu s) m' \<or>
    rc = 0 \<and> m' = m \<and> mut_lock m \<noteq> 0 \<and> mut_owner m \<noteq> vmm_scheduler_current_vcpu cpu s"
  using assms by (auto simp: vmm_mutex_trylock_def mutex_taken_def Let_def split: if_splits)

section \<open>Properties\<close>

text \<open>
  Property C7: mutual exclusion. Every call on a mutex, from any VCPU on any CPU and in any state of the rest of the
  system, is a step of the recursive-mutex specification: a lock or trylock succeeds only when the mutex is free or
  the caller already holds it, and then adds one to the depth; it fails only while another VCPU is the owner; an
  unlock by a VCPU that is not the owner is refused with \<open>VMM_EINVALID\<close> and changes nothing; the destruction of the
  owner frees the mutex. The 32-bit depth must not be at its maximum.
\<close>
theorem mutex_refines:
  assumes "mut_step A m e m'" and "mut_inv m" and "unat (mut_lock m) + 1 < 2 ^ 32"
  shows "mutex_spec (mutex_abs m) e (mutex_abs m') \<and> mut_inv m'"
  using assms
proof (induction rule: mut_step.induct)
  case (Mut_lock cpu s v m timeout out m' s')
  then obtain s1 where l: "mutex_lock_loop A cpu m timeout (vmm_scheduler_preempt_disable cpu s) = Some (out, m', s1)"
    by (auto simp: mutex_lock_common_def unlock_returned_def split: if_splits)
  then show ?case
    using lock_loop_result [OF l] lock_loop_contended [OF l] taken_acquired abs_contended Mut_lock by fastforce
next
  case (Mut_resume cpu s v m ex out m' s')
  then obtain rc left s1 o1 s2 where r: "waitqueue_sleep_resume cpu ex s = Some (rc, left, s1)"
    "out = o1" "if rc \<noteq> VMM_OK then o1 = Returned rc left \<and> m' = m else mutex_lock_loop A cpu m left s1 = Some (o1, m', s2)"
    by (auto simp: mutex_lock_resume_def unlock_returned_def split: if_splits bind_splits)
  then show ?case
    using sleep_resume_current [OF r(1)] lock_loop_result [of A cpu m left s1 o1 m' s2] taken_acquired Mut_resume
    by (fastforce split: if_splits)
next
  case (Mut_trylock cpu s v m rc m' s')
  then show ?case using trylock_result [OF Mut_trylock(2)] taken_acquired abs_contended by fastforce
next
  case (Mut_unlock cpu s v m rc m' s')
  then show ?case using unlock_abs by blast
next
  case (Mut_cleanup cpu v m s m' s')
  then show ?case
    by (auto simp: vmm_mutex_cleanup_def mutex_abs_def mut_inv_def Let_def split: if_splits bind_splits)
qed

lemma wq_example_orphan:
  "vmm_scheduler_orphan_context 0 (wq_example ps)" "vmm_scheduler_current_vcpu 0 (wq_example ps) = Some 1"
proof -
  have "current_vcpu (sched (wq_example ps) 0) = Some 1" using wq_example_simps(4) [of ps 0] by simp
  moreover have "\<not> is_normal (vcpus (wq_example ps) 1)" by (simp add: wq_example_def)
  ultimately show "vmm_scheduler_orphan_context 0 (wq_example ps)" "vmm_scheduler_current_vcpu 0 (wq_example ps) = Some 1"
    using wq_example_simps(5) [of ps 0] by (simp_all add: vmm_scheduler_orphan_context_def vmm_scheduler_current_vcpu_def)
qed

theorem mutex_refines_witness:
  "\<exists>m. mut_step example_arch (INIT_MUTEX 7 0) (Call_trylock 1 1) m \<and> mutex_abs m = Some (1, 1)"
proof -
  obtain m s' where t: "vmm_mutex_trylock 0 (INIT_MUTEX 7 0) (wq_example []) = Some (1, m, s')"
    using wq_example_orphan by (simp add: vmm_mutex_trylock_def INIT_MUTEX_def Let_def)
  then have st: "mut_step example_arch (INIT_MUTEX 7 0) (Call_trylock 1 1) m"
    by (rule Mut_trylock [OF wq_example_orphan(2)])
  have "mut_inv (INIT_MUTEX 7 0)" "unat (mut_lock (INIT_MUTEX 7 0)) + 1 < 2 ^ 32"
    by (simp_all add: mut_inv_def INIT_MUTEX_def)
  from mutex_refines [OF st this] st show ?thesis by (auto simp: acquired_def mutex_abs_def INIT_MUTEX_def)
qed





text \<open>
  Further fact: up hands over. With sleepers in the queue and room under the limit, \<^verbatim>\<open>vmm_semaphore_up\<close> adds one free
  unit and makes the VCPU that waits longest READY; it leaves the wait queue, the others keep their place, and the
  scheduler and wait-queue invariants hold.
\<close>
theorem semaphore_up_wakes:
  assumes "sem_inv sem" and "sem_limit sem \<noteq> 0" and "sem_value sem < sem_limit sem" and "sched_inv s" and "wq_ok s (sem_wq sem)"
    and "may_lock s cpu" and "wq_vcpu_list (wqs s (sem_wq sem)) = v # vs" and "sleeping A s v"
  shows "\<exists>sem' s'. vmm_semaphore_up A cpu sem s = Some (VMM_OK, sem', s') \<and> sem_inv sem' \<and>
    sem_value sem' = sem_value sem + 1 \<and> sched_inv s' \<and> wq_ok s' (sem_wq sem) \<and>
    wq_vcpu_list (wqs s' (sem_wq sem)) = vs \<and> vstate (vcpus s' v) = VMM_VCPU_STATE_READY"
proof -
  let ?cur = "vmm_scheduler_current_vcpu cpu s" and ?s0 = "vmm_scheduler_preempt_disable cpu s"
  let ?s1 = "snd (up_put sem ?cur ?s0)"
  have q: "quiet s ?s1" by (rule quiet_trans [OF quiet_preempt(1) up_put_quiet])
  have l: "locked ?s1 cpu"
    by (rule may_lock_locked [OF assms(6) up_put_quiet]) (simp add: resource_preempt_count)
  have list: "wq_vcpu_list (wqs ?s1 (sem_wq sem)) = v # vs" using q assms(7) by (simp add: quiet_def)
  have sl: "sleeping A ?s1 v" using quiet_sleeping [OF q] assms(8) by simp
  obtain s2 where w: "vmm_waitqueue_wake_raw A cpu v ?s1 = Some (VMM_OK, s2)" "woken cpu ?s1 v s2"
    using wake_spec [OF quiet_inv [OF q assms(4)] l, of v A] sl unfolding sleeping_def by metis
  have wk: "sched_inv s2" "wq_ok s2 (sem_wq sem)" "wq_vcpu_list (wqs s2 (sem_wq sem)) = vs" "vstate (vcpus s2 v) = VMM_VCPU_STATE_READY"
    using w(2) woken_wq_ok [OF _ _ w(2), of "sem_wq sem"] list assms(5) quiet_wq_ok [OF q, of "sem_wq sem"]
    by (auto simp: woken_def)
  let ?s' = "vmm_scheduler_preempt_enable cpu s2"
  have u: "vmm_semaphore_up A cpu sem s = Some (VMM_OK, fst (up_put sem ?cur ?s0), ?s')"
    using assms(2,3) w(1) list by (simp add: up_unfold vmm_waitqueue_wakefirst_raw_def)
  have e: "quiet s2 ?s'" by (rule quiet_preempt(2))
  then have "vstate (vcpus ?s' v) = vstate (vcpus s2 v)" "wqs ?s' = wqs s2"
    by (simp_all add: quiet_def aside_def unmoved_def)
  then show ?thesis
    using u wk up_put_inv [OF assms(1,3)] quiet_inv [OF e wk(1)] quiet_wq_ok [OF e] by simp
qed

theorem semaphore_up_wakes_witness:
  "\<exists>sem' s'. vmm_semaphore_up example_arch 0 (INIT_SEMAPHORE 7 2 0 0) (wq_example [3, 4]) = Some (VMM_OK, sem', s') \<and>
     sem_value sem' = 1 \<and> wq_vcpu_list (wqs s' 0) = [4] \<and> vstate (vcpus s' 3) = VMM_VCPU_STATE_READY"
proof -
  let ?i = "INIT_SEMAPHORE 7 2 0 0" and ?s = "wq_example [3, 4]"
  have a: "sem_inv ?i" "sem_limit ?i \<noteq> 0" "sem_value ?i < sem_limit ?i"
    by (simp_all add: sem_inv_def INIT_SEMAPHORE_def held_def)
  have b: "sched_inv ?s" "wq_ok ?s (sem_wq ?i)" using wq_example_ok [of "[3, 4]"] by (simp_all add: INIT_SEMAPHORE_def)
  have m: "may_lock ?s 0"
    using wq_example_simps(4,5) [of "[3, 4]" 0] unfolding may_lock_def
    by (simp add: wq_example_def example_store_def example_vcpu_def)
  have q: "wq_vcpu_list (wqs ?s (sem_wq ?i)) = 3 # [4]" by (simp add: wq_example_simps INIT_SEMAPHORE_def)
  have l: "sleeping example_arch ?s 3" by (rule wq_example_locked; simp)
  from semaphore_up_wakes [OF a b m q l] show ?thesis by (auto simp: INIT_SEMAPHORE_def)
qed

text \<open>
  A completion that is signalled once while a VCPU sleeps on it lets two waits return \<open>VMM_OK\<close>: the waiter that was
  woken does not test \<^verbatim>\<open>done\<close> again, so another VCPU that waits before it runs takes the signal as well.
\<close>
lemma completion_stolen:
  assumes "cmpl_done c = 0" and "vmm_completion_complete A cpu c s = Some (rc, c1, s1)"
    and "vmm_scheduler_orphan_context cpu2 s2" and "vmm_scheduler_current_vcpu cpu3 s4 = Some w"
  shows "cmpl_done c1 = 1 \<and> (\<exists>s3 s5. completion_wait_common A cpu2 c1 None s2 = Some (Returned VMM_OK None, c, s3) \<and>
     completion_wait_resume cpu3 c None s4 = Some (VMM_OK, None, c, s5))"
  using assms
  by (auto simp: vmm_completion_complete_def completion_signal_def completion_wait_common_def completion_take_def
      completion_wait_resume_def waitqueue_sleep_resume_def waitqueue_sleep_end_def unlock_returned_def Let_def case_prod_beta
      split: bind_splits)

end
