(* ===== verification/Vcpu_wfi.thy ===== *)
theory Vcpu_wfi
  imports Waitqueue
begin

text \<open>
  Waiting for interrupts, the part of \<^verbatim>\<open>core/vmm_vcpu_irq.c\<close> that calls the scheduler: a guest VCPU that executes its
  wait-for-interrupt instruction yields a number of times, then pauses with a timeout, and an interrupt, an explicit
  resume or the timeout wakes it. The call of a function on the host CPU of a VCPU,
  \<^verbatim>\<open>vmm_manager_vcpu_hcpu_func\<close> of \<^verbatim>\<open>core/vmm_manager.c\<close>, is here for the one function this file passes to it.

  A call to another CPU is queued and delivered as a step of its own (\<^const>\<open>Ipi_wfi_resume\<close>); with a timeout of 0
  \<^verbatim>\<open>vmm_smp_ipi_sync_call\<close> does not wait for it. The lock of the wait state is taken and released within each
  function.
\<close>

definition WFI_YIELD_THRESHOLD :: u32 where "WFI_YIELD_THRESHOLD = 100"

section \<open>Resuming\<close>

definition vmm_manager_vcpu_get_state :: "nat option \<Rightarrow> sched_sys \<Rightarrow> vcpu_state" where
  "vmm_manager_vcpu_get_state vp s = (case vp of None \<Rightarrow> VMM_VCPU_STATE_UNKNOWN | Some v \<Rightarrow> vstate (vcpus s v))"

definition wfi_event :: "nat \<Rightarrow> sched_sys \<Rightarrow> ev_id option" where
  "wfi_event v s = (if wfi_priv (irqs (vcpus s v)) then Some (Ev_wfi v) else None)"

text \<open>\<open>data\<close> says that the argument is not NULL, as from the timeout.\<close>

definition vcpu_irq_wfi_resume :: "arch_ops \<Rightarrow> nat \<Rightarrow> nat \<Rightarrow> bool \<Rightarrow> sched_sys \<Rightarrow> sched_sys option" where
  "vcpu_irq_wfi_resume A cpu v data s =
     (let s1 = (if \<not> data then upd_irqs v (\<lambda>x. x\<lparr>wfi_yield_count := 0\<rparr>) s else s) in
      if wfi_state (irqs (vcpus s1 v)) then
        let s2 = upd_irqs v (\<lambda>x. x\<lparr>wfi_state := False\<rparr>) s1;
            s3 = snd (vmm_timer_event_stop (wfi_event v s2) s2)
        in map_option snd (vmm_scheduler_state_change A cpu (Some v) VMM_VCPU_STATE_READY s3)
      else Some s1)"

text \<open>\<^verbatim>\<open>vmm_manager_vcpu_hcpu_func\<close> with \<^verbatim>\<open>vcpu_irq_wfi_resume\<close> and without \<^verbatim>\<open>use_async\<close>.\<close>

definition vmm_manager_vcpu_hcpu_func ::
  "arch_ops \<Rightarrow> nat \<Rightarrow> nat option \<Rightarrow> u32 \<Rightarrow> bool \<Rightarrow> sched_sys \<Rightarrow> (int \<times> sched_sys) option" where
  "vmm_manager_vcpu_hcpu_func A cpu vp state_mask data s =
     (case vp of
        None \<Rightarrow> Some (VMM_EINVALID, s)
      | Some v \<Rightarrow>
          if in_mask (vstate (vcpus s v)) state_mask then
            if hcpu (vcpus s v) = cpu then map_option (Pair VMM_OK) (vcpu_irq_wfi_resume A cpu v data s)
            else Some (VMM_OK, ipi_send (hcpu (vcpus s v)) (Ipi_wfi_resume v data) s)
          else Some (VMM_OK, s))"

text \<open>The queued call at the head of the queue of a CPU.\<close>

definition ipi_wfi_resume :: "arch_ops \<Rightarrow> nat \<Rightarrow> nat \<Rightarrow> bool \<Rightarrow> ipi list \<Rightarrow> sched_sys \<Rightarrow> sched_sys option" where
  "ipi_wfi_resume A cpu v data rest s = vcpu_irq_wfi_resume A cpu v data (s\<lparr>ipis := (ipis s)(cpu := rest)\<rparr>)"

definition vcpu_irq_wfi_timeout :: "arch_ops \<Rightarrow> nat \<Rightarrow> nat \<Rightarrow> sched_sys \<Rightarrow> sched_sys option" where
  "vcpu_irq_wfi_timeout A cpu v s =
     map_option snd (vmm_manager_vcpu_hcpu_func A cpu (Some v) VMM_VCPU_STATE_INTERRUPTIBLE True s)"

definition vmm_vcpu_irq_assert :: "arch_ops \<Rightarrow> nat \<Rightarrow> nat option \<Rightarrow> nat \<Rightarrow> u64 \<Rightarrow> sched_sys \<Rightarrow> sched_sys option" where
  "vmm_vcpu_irq_assert A cpu vp n reason s = do {
     (asserted, s1) \<leftarrow> irq_assert_line A vp n reason s;
     if asserted then map_option snd (vmm_manager_vcpu_hcpu_func A cpu vp VMM_VCPU_STATE_INTERRUPTIBLE False s1)
     else Some s1 }"

definition vmm_vcpu_irq_wait_resume :: "arch_ops \<Rightarrow> nat \<Rightarrow> nat option \<Rightarrow> sched_sys \<Rightarrow> (int \<times> sched_sys) option" where
  "vmm_vcpu_irq_wait_resume A cpu vp s =
     (case vp of
        None \<Rightarrow> Some (VMM_EFAIL, s)
      | Some v \<Rightarrow>
          if \<not> is_normal (vcpus s v) then Some (VMM_EFAIL, s)
          else vmm_manager_vcpu_hcpu_func A cpu (Some v) VMM_VCPU_STATE_INTERRUPTIBLE False s)"

section \<open>Waiting\<close>

definition wfi_have_irq :: "arch_ops \<Rightarrow> nat \<Rightarrow> sched_sys \<Rightarrow> bool \<times> sched_sys" where
  "wfi_have_irq A v s =
     (if execute_pending (irqs (vcpus s v)) \<noteq> 0 then (True, s) else arch_call (\<lambda>k. arch_vcpu_irq_pending A k v) s)"

text \<open>The state to wait in, and the timeout; 0 stands for the configured default \<open>dflt\<close>.\<close>

definition wfi_enter :: "nat \<Rightarrow> u64 \<Rightarrow> nat \<Rightarrow> u64 \<Rightarrow> sched_sys \<Rightarrow> sched_sys" where
  "wfi_enter cpu dflt v nsecs s =
     (let s1 = upd_irqs v (\<lambda>x. x\<lparr>wfi_state := True\<rparr>) s
      in snd (vmm_timer_event_start cpu (wfi_event v s1) (if nsecs = 0 then dflt else nsecs) s1))"

definition wfi_leave :: "nat \<Rightarrow> sched_sys \<Rightarrow> sched_sys" where
  "wfi_leave v s =
     (let s1 = upd_irqs v (\<lambda>x. x\<lparr>wfi_yield_count := 0, wfi_state := False\<rparr>) s
      in snd (vmm_timer_event_stop (wfi_event v s1) s1))"

definition vmm_vcpu_irq_wait_timeout ::
  "arch_ops \<Rightarrow> u64 \<Rightarrow> nat \<Rightarrow> nat option \<Rightarrow> u64 \<Rightarrow> sched_sys \<Rightarrow> (int \<times> sched_sys) option" where
  "vmm_vcpu_irq_wait_timeout A dflt cpu vp nsecs s =
     (case vp of
        None \<Rightarrow> Some (VMM_EFAIL, s)
      | Some v \<Rightarrow>
          if \<not> is_normal (vcpus s v) then Some (VMM_EFAIL, s)
          else if current_vcpu (sched s cpu) \<noteq> Some v then None
          else let (have_irq, s1) = wfi_have_irq A v s; w = irqs (vcpus s1 v) in
            if have_irq then Some (VMM_OK, upd_irqs v (\<lambda>x. x\<lparr>wfi_yield_count := 0\<rparr>) s1)
            else if wfi_yield_count w < WFI_YIELD_THRESHOLD then
              map_option (Pair VMM_OK)
                (vmm_scheduler_yield A cpu (upd_irqs v (\<lambda>x. x\<lparr>wfi_yield_count := wfi_yield_count x + 1\<rparr>) s1))
            else if wfi_state w then Some (VMM_OK, s1)
            else let (again, s2) = wfi_have_irq A v (wfi_enter cpu dflt v nsecs s1) in
              if \<not> again then
                map_option (Pair VMM_OK \<circ> snd) (vmm_scheduler_state_change A cpu (Some v) VMM_VCPU_STATE_PAUSED s2)
              else Some (VMM_OK, wfi_leave v s2))"

section \<open>Frames\<close>

lemma upd_irqs_sched [simp]:
  "queues (upd_irqs v f s) = queues s" "currents (upd_irqs v f s) = currents s"
  by (rule queues_cong currents_cong, simp)+

lemma arch_call_sched [simp]:
  "queues (snd (arch_call f s)) = queues s" "currents (snd (arch_call f s)) = currents s"
  by (rule queues_cong currents_cong, simp)+

lemma timestamp_frame [simp]:
  "fst (vmm_timer_timestamp c (upd_irqs v f s)) = fst (vmm_timer_timestamp c s)"
  "fst (vmm_timer_timestamp c (snd (arch_call g s))) = fst (vmm_timer_timestamp c s)"
  by (simp_all add: vmm_timer_timestamp_def cs_read_def Let_def case_prod_beta upd_irqs_def upd_vcpu_def arch_call_def
      split: option.split)

lemma start_armed:
  fixes s :: sched_sys
  shows "active_state (events (snd (vmm_timer_event_start c (Some e) d s)) e)"
    "active_hcpu (events (snd (vmm_timer_event_start c (Some e) d s)) e) = c"
    "expiry_tstamp (events (snd (vmm_timer_event_start c (Some e) d s)) e) = fst (vmm_timer_timestamp c s) + d"
  by (simp_all add: vmm_timer_event_start_def start2_unfold case_prod_beta start_event_def Let_def)

section \<open>Waking a VCPU\<close>

lemma switched_runnable:
  assumes "switched s c cur v s'" and "runnable s d x"
  shows "runnable s' d x"
proof -
  have "hcpu (vcpus s' x) = d" using assms by (simp add: switched_def wq_view_def runnable_def)
  moreover have "vstate (vcpus s' x) \<in> {VMM_VCPU_STATE_READY, VMM_VCPU_STATE_RUNNING}"
    using assms by (cases "x = v"; cases "x = cur") (auto simp: switched_def runnable_def split: if_splits)
  ultimately show ?thesis by (auto simp: runnable_def)
qed

text \<open>
  The preemption at the end of a state change: with a VCPU to run it returns, and no runnable VCPU is lost.
\<close>

lemma preempt_result:
  assumes inv: "sched_inv s" and w: "runnable s h w" and regs: "irq_context (sched s cpu) \<longrightarrow> irq_regs (sched s cpu)"
    and host: "h < cpu_count A" "cpu_online s h"
  obtains s' where "sc_preempt A cpu h VMM_OK s = Some (VMM_OK, s')" "sched_inv s'"
    "\<forall>x. irqs (vcpus s' x) = irqs (vcpus s x)" "\<forall>d x. runnable s d x \<longrightarrow> runnable s' d x"
    "\<forall>e. e \<noteq> Ev_sched cpu \<longrightarrow> events s' e = events s e"
proof (cases "currents s h")
  case None
  then show ?thesis using inv by (intro that [of s]) (auto simp: sc_preempt_def)
next
  case (Some cur)
  consider (remote) "cpu \<noteq> h" | (guest) "cpu = h" "is_normal (vcpus s cur)" | (orphan) "cpu = h" "\<not> is_normal (vcpus s cur)"
    by blast
  then show ?thesis
  proof cases
    case remote
    have "fst (vmm_scheduler_force_resched A cpu h s) = VMM_OK"
      using host by (simp add: vmm_scheduler_force_resched_def)
    then have "sc_preempt A cpu h VMM_OK s = Some (VMM_OK, snd (vmm_scheduler_force_resched A cpu h s))"
      using remote Some by (simp add: sc_preempt_def prod_eq_iff)
    then show ?thesis
      using preempt_keeps [OF inv] by (intro that) (auto simp: runnable_def)
  next
    case guest
    then have "sc_preempt A cpu h VMM_OK s = Some (VMM_OK, upd_sched h (\<lambda>c. c\<lparr>yield_on_irq_exit := True\<rparr>) s)"
      using Some by (simp add: sc_preempt_def)
    then show ?thesis using preempt_keeps [OF inv] by (intro that) (auto simp: runnable_def)
  next
    case orphan
    then have p: "sc_preempt A cpu h VMM_OK s = map_option (Pair VMM_OK) (vmm_scheduler_switch h True s)"
      using Some regs by (auto simp: sc_preempt_def vmm_scheduler_preempt_orphan_def)
    show ?thesis
    proof (cases "preemptible s cur")
      case True
      obtain v s' where sw: "vmm_scheduler_switch h True s = Some s'" "sched_inv s'" "switched s h cur v s'"
        by (rule switch_spec [OF inv Some True w])
      show ?thesis
        using p sw switched_runnable [OF sw(3)] orphan(1) by (intro that [of s']) (auto simp: switched_def wq_view_def)
    next
      case False
      then show ?thesis
        using p switch_blocked [OF Some False] sched_inv_restart [OF inv, of h "Some (Ev_sched h)"] orphan(1)
        by (intro that) (auto simp: runnable_def restart_events)
    qed
  qed
qed

text \<open>A paused VCPU that no CPU still holds becomes READY, or runs at once.\<close>

lemma resume_paused:
  assumes inv: "sched_inv s" and st: "vstate (vcpus s v) = VMM_VCPU_STATE_PAUSED" and cur: "\<forall>c. currents s c \<noteq> Some v"
    and host: "hosted A s v" and regs: "irq_context (sched s cpu) \<longrightarrow> irq_regs (sched s cpu)"
  obtains s' where "vmm_scheduler_state_change A cpu (Some v) VMM_VCPU_STATE_READY s = Some (VMM_OK, s')" "sched_inv s'"
    "irqs (vcpus s' v) = irqs (vcpus s v)" "runnable s' (hcpu (vcpus s v)) v"
    "events s' (Ev_wfi v) = events s (Ev_wfi v)"
proof -
  let ?c = "hcpu (vcpus s v)"
  obtain p s2 where x: "vmm_scheduler_state_change A cpu (Some v) VMM_VCPU_STATE_READY s =
      (if p then sc_preempt A cpu ?c VMM_OK s2 else Some (VMM_OK, s2))"
    and w: "woken cpu s v s2" "\<forall>c. irq_regs (sched s2 c) = irq_regs (sched s c)"
    by (rule ready_request [OF inv st cur host])
  have v: "wq_view (vcpus s2 v) = wq_view (vcpus (call_wq_cleanup v s) v)" using w(1) by (simp add: woken_def)
  have i: "irqs (vcpus s2 v) = irqs (vcpus s v)" "hcpu (vcpus s2 v) = ?c"
    using v by (simp_all add: wq_view_def call_wq_cleanup_def waitqueue_cleanup_vcpus)
  have r: "runnable s2 ?c v" using w(1) i(2) by (simp add: woken_def runnable_def)
  have e: "events s2 (Ev_wfi v) = events s (Ev_wfi v)"
    using w(1) by (simp add: woken_def cleanup_events)
  have h: "?c < cpu_count A" "cpu_online s2 ?c" using host w(1) by (simp_all add: hosted_def woken_def)
  have g: "irq_context (sched s2 cpu) \<longrightarrow> irq_regs (sched s2 cpu)" using regs w by (simp add: woken_def)
  have i2: "sched_inv s2" using w(1) by (simp add: woken_def)
  show ?thesis
  proof (cases p)
    case False
    then show ?thesis using x i2 i r e by (intro that [of s2]) auto
  next
    case True
    obtain s' where "sc_preempt A cpu ?c VMM_OK s2 = Some (VMM_OK, s')" "sched_inv s'"
      "\<forall>x. irqs (vcpus s' x) = irqs (vcpus s2 x)" "\<forall>d x. runnable s2 d x \<longrightarrow> runnable s' d x"
      "\<forall>e. e \<noteq> Ev_sched cpu \<longrightarrow> events s' e = events s2 e"
      by (rule preempt_result [OF i2 r g h])
    then show ?thesis using x True i r e by (intro that [of s']) auto
  qed
qed

section \<open>The wait state\<close>

text \<open>A VCPU that waits: paused, off every CPU, with its timeout event. One that has been woken can run again.\<close>

definition waits :: "sched_sys \<Rightarrow> nat \<Rightarrow> bool" where
  "waits s v \<longleftrightarrow> vstate (vcpus s v) = VMM_VCPU_STATE_PAUSED \<and> (\<forall>c. current_vcpu (sched s c) \<noteq> Some v) \<and>
     wfi_state (irqs (vcpus s v)) \<and> wfi_priv (irqs (vcpus s v))"

definition awake :: "sched_sys \<Rightarrow> nat \<Rightarrow> bool" where
  "awake s v \<longleftrightarrow> runnable s (hcpu (vcpus s v)) v \<and> \<not> wfi_state (irqs (vcpus s v)) \<and> \<not> active_state (events s (Ev_wfi v))"

text \<open>The steps of the wait state outside the scheduler move no VCPU.\<close>

lemma ipis_aside: "aside s (s\<lparr>ipis := q\<rparr>)"
  by (simp add: aside_def)

lemma hosted_cong:
  "hcpu (vcpus s' v) = hcpu (vcpus s v) \<Longrightarrow> cpu_online s' = cpu_online s \<Longrightarrow> queues s' = queues s \<Longrightarrow> hosted A s' v = hosted A s v"
  by (simp add: hosted_def)

lemma wfi_resume_spec:
  assumes inv: "sched_inv s" and w: "waits s v" and host: "hosted A s v"
    and regs: "irq_context (sched s cpu) \<longrightarrow> irq_regs (sched s cpu)"
  obtains s' where "vcpu_irq_wfi_resume A cpu v data s = Some s'" "sched_inv s'" "awake s' v"
    "irq (irqs (vcpus s' v)) = irq (irqs (vcpus s v))" "execute_pending (irqs (vcpus s' v)) = execute_pending (irqs (vcpus s v))"
proof -
  let ?s1 = "if \<not> data then upd_irqs v (\<lambda>x. x\<lparr>wfi_yield_count := 0\<rparr>) s else s"
  let ?s2 = "upd_irqs v (\<lambda>x. x\<lparr>wfi_state := False\<rparr>) ?s1"
  let ?s3 = "snd (vmm_timer_event_stop (Some (Ev_wfi v)) ?s2)"
  have f: "vcpus ?s3 = vcpus ?s2" "sched ?s3 = sched s" "cpu_online ?s3 = cpu_online s" by simp_all
  have v2: "hcpu (vcpus ?s2 x) = hcpu (vcpus s x)" "vstate (vcpus ?s2 x) = vstate (vcpus s x)" for x
    by (simp_all add: upd_irqs_vcpus)
  have q: "queues ?s3 = queues s" "currents ?s3 = currents s" by (rule queues_cong currents_cong, simp)+
  have "aside s s" by (simp add: aside_def unmoved_def)
  then have a: "aside s ?s2" by (simp add: aside_upd_irqs)
  have i3: "sched_inv ?s3" using aside_inv [OF aside_event_stop [OF a] inv] .
  have st: "vstate (vcpus ?s3 v) = VMM_VCPU_STATE_PAUSED" "\<forall>c. currents ?s3 c \<noteq> Some v"
    using w unfolding f(1) v2 q by (simp_all add: waits_def)
  have h3: "hosted A ?s3 v" using host unfolding hosted_def f(1,3) v2 q .
  have g: "irq_context (sched ?s3 cpu) \<longrightarrow> irq_regs (sched ?s3 cpu)" using regs f by simp
  obtain s' where r: "vmm_scheduler_state_change A cpu (Some v) VMM_VCPU_STATE_READY ?s3 = Some (VMM_OK, s')" "sched_inv s'"
    "irqs (vcpus s' v) = irqs (vcpus ?s3 v)" "runnable s' (hcpu (vcpus ?s3 v)) v" "events s' (Ev_wfi v) = events ?s3 (Ev_wfi v)"
    by (rule resume_paused [OF i3 st h3 g])
  have e: "wfi_event v ?s2 = Some (Ev_wfi v)" "wfi_state (irqs (vcpus ?s1 v))" using w by (simp_all add: wfi_event_def waits_def)
  have "vcpu_irq_wfi_resume A cpu v data s = Some s'"
    using r(1) e unfolding vcpu_irq_wfi_resume_def Let_def by (simp only: if_True option.map snd_conv)
  moreover have "\<not> active_state (events ?s3 (Ev_wfi v))" by (simp add: vmm_timer_event_stop_def stop_raw_inactive)
  then have "awake s' v" using r(3-5) by (simp add: awake_def runnable_def)
  ultimately show ?thesis using r(2,3) by (intro that [of s']) simp_all
qed

lemma hcpu_func_spec:
  assumes inv: "sched_inv s" and w: "waits s v" and host: "hosted A s v"
    and regs: "irq_context (sched s cpu) \<longrightarrow> irq_regs (sched s cpu)"
  obtains s' where "vmm_manager_vcpu_hcpu_func A cpu (Some v) VMM_VCPU_STATE_INTERRUPTIBLE data s = Some (VMM_OK, s')" "sched_inv s'"
    "irq (irqs (vcpus s' v)) = irq (irqs (vcpus s v))" "execute_pending (irqs (vcpus s' v)) = execute_pending (irqs (vcpus s v))"
    "hcpu (vcpus s v) = cpu \<longrightarrow> awake s' v"
    "hcpu (vcpus s v) \<noteq> cpu \<longrightarrow> waits s' v \<and> hosted A s' v \<and> ipis s' (hcpu (vcpus s v)) = ipis s (hcpu (vcpus s v)) @ [Ipi_wfi_resume v data]"
proof (cases "hcpu (vcpus s v) = cpu")
  case True
  obtain s' where r: "vcpu_irq_wfi_resume A cpu v data s = Some s'" "sched_inv s'" "awake s' v"
    "irq (irqs (vcpus s' v)) = irq (irqs (vcpus s v))" "execute_pending (irqs (vcpus s' v)) = execute_pending (irqs (vcpus s v))"
    by (rule wfi_resume_spec [OF inv w host regs])
  then show ?thesis
    using True w by (intro that [of s']) (simp_all add: vmm_manager_vcpu_hcpu_func_def interruptible_states waits_def)
next
  case False
  let ?s = "ipi_send (hcpu (vcpus s v)) (Ipi_wfi_resume v data) s"
  have "aside s ?s" by (simp add: aside_def ipi_send_def)
  then have "sched_inv ?s" using aside_inv inv by blast
  moreover have "waits ?s v" "hosted A ?s v" using w host by (simp_all add: ipi_send_def waits_def hosted_def)
  moreover have "ipis ?s (hcpu (vcpus s v)) = ipis s (hcpu (vcpus s v)) @ [Ipi_wfi_resume v data]"
    using host by (simp add: hosted_def ipi_send_def)
  moreover have "vmm_manager_vcpu_hcpu_func A cpu (Some v) VMM_VCPU_STATE_INTERRUPTIBLE data s = Some (VMM_OK, ?s)"
    using False w by (simp add: vmm_manager_vcpu_hcpu_func_def interruptible_states waits_def)
  ultimately show ?thesis using False by (intro that [of ?s]) (assumption | simp only: ipi_send_simps simp_thms)+
qed

section \<open>Pausing and yielding\<close>

text \<open>A guest VCPU that runs: a pause or a yield only leaves a request for the end of the exception it is in.\<close>

definition runs_guest :: "sched_sys \<Rightarrow> nat \<Rightarrow> nat \<Rightarrow> bool" where
  "runs_guest s cpu v \<longleftrightarrow> sched_inv s \<and> current_vcpu (sched s cpu) = Some v \<and>
     vstate (vcpus s v) = VMM_VCPU_STATE_RUNNING \<and> is_normal (vcpus s v) \<and> \<not> irq_context (sched s cpu)"

lemma runs_guest_aside:
  assumes "runs_guest s cpu v" and "aside s s'" and "\<And>x. is_normal (vcpus s' x) = is_normal (vcpus s x)"
    and "irq_context (sched s' cpu) = irq_context (sched s cpu)"
  shows "runs_guest s' cpu v"
  using assms aside_inv [OF assms(2)] by (simp add: runs_guest_def) (simp add: aside_def unmoved_def)

lemma runs_guestD:
  assumes "runs_guest s cpu v"
  shows "hcpu (vcpus s v) = cpu" "currents s cpu = Some v" "settled s v"
proof -
  have "sched_ok (vcpus s) (queues s) (currents s)" "currents s cpu = Some v" using assms by (simp_all add: runs_guest_def sched_inv_def)
  then show "hcpu (vcpus s v) = cpu" "currents s cpu = Some v" using sched_okD(4) by blast+
  show "settled s v" using assms by (simp add: settled_def runs_guest_def)
qed

lemma pause_guest:
  assumes r: "runs_guest s cpu v"
  obtains s' where "vmm_scheduler_state_change A cpu (Some v) VMM_VCPU_STATE_PAUSED s = Some (VMM_OK, s')" "sched_inv s'"
    "irqs (vcpus s' v) = irqs (vcpus s v)" "events s' (Ev_wfi v) = events s (Ev_wfi v)"
    "vstate (vcpus s' v) = (if resumed (vcpus s v) then VMM_VCPU_STATE_RUNNING else VMM_VCPU_STATE_PAUSED)"
    "\<not> resumed (vcpus s v) \<longrightarrow> yield_on_irq_exit (sched s' cpu)"
proof -
  note d = runs_guestD [OF r]
  let ?s1 = "upd_vcpu v (\<lambda>x. x\<lparr>resumed := False\<rparr>) s"
  let ?c = "sc_commit cpu v VMM_VCPU_STATE_RUNNING VMM_VCPU_STATE_PAUSED ?s1"
  let ?s' = "if resumed (vcpus s v) then call_wq_cleanup v ?s1 else upd_sched cpu (\<lambda>c. c\<lparr>yield_on_irq_exit := True\<rparr>) ?c"
  have st: "vstate (vcpus s v) = VMM_VCPU_STATE_RUNNING" "is_normal (vcpus s v)" "sched_inv s" using r by (simp_all add: runs_guest_def)
  have w: "wq_view (vcpus ?c v) = wq_view (vcpus ?s1 v)" by (rule commit_frame(4))
  then have c: "is_normal (vcpus ?c v)" "irqs (vcpus ?c v) = irqs (vcpus s v)" using st by (simp_all add: wq_view_def)
  have e: "vmm_scheduler_state_change A cpu (Some v) VMM_VCPU_STATE_PAUSED s = Some (VMM_OK, ?s')"
    using st d c by (simp add: state_change_unfold sc_request_def sc_pause_def Let_def sc_result_def sc_preempt_def)
  moreover have "sched_inv ?s'"
    by (rule state_change_keeps [OF st(3) _ e]) (use d(3) in \<open>simp_all add: request_ok_def\<close>)
  moreover have "vstate (vcpus (call_wq_cleanup v ?s1) v) = VMM_VCPU_STATE_RUNNING" "irqs (vcpus (call_wq_cleanup v ?s1) v) = irqs (vcpus s v)"
    using st by (simp_all add: call_wq_cleanup_def waitqueue_cleanup_vcpus)
  ultimately show ?thesis using c by (intro that [of ?s']) (simp_all add: commit_vcpus cleanup_events)
qed

lemma yield_guest:
  assumes r: "runs_guest s cpu v"
  shows "vmm_scheduler_yield A cpu s =
      Some (upd_sched cpu (\<lambda>c. c\<lparr>yield_on_irq_exit := True\<rparr>) (upd_vcpu v (\<lambda>x. x\<lparr>resumed := True\<rparr>) s))"
  using r runs_guestD [OF r]
  by (simp add: runs_guest_def vmm_scheduler_yield_def state_change_unfold sc_request_def sc_ready_def sc_result_def sc_preempt_def)

lemma have_irq_spec:
  obtains s1 where "wfi_have_irq A v s = (execute_pending (irqs (vcpus s v)) \<noteq> 0 \<or> arch_vcpu_irq_pending A (arch_calls s) v, s1)"
    "aside s s1" "vcpus s1 = vcpus s" "sched s1 = sched s" "events s1 = events s"
    "\<forall>c. fst (vmm_timer_timestamp c s1) = fst (vmm_timer_timestamp c s)" "execute_pending (irqs (vcpus s v)) = 0 \<longrightarrow> arch_calls s1 = Suc (arch_calls s)"
proof (cases "execute_pending (irqs (vcpus s v)) = 0")
  case True
  have "aside s (snd (arch_call (\<lambda>k. arch_vcpu_irq_pending A k v) s))"
    by (rule irq_only_aside) (simp add: irq_only_def)
  then show ?thesis using True by (intro that [of "snd (arch_call (\<lambda>k. arch_vcpu_irq_pending A k v) s)"]) (simp_all add: wfi_have_irq_def prod_eq_iff)
next
  case False
  then show ?thesis by (intro that [of s]) (simp_all add: wfi_have_irq_def aside_def unmoved_def)
qed

section \<open>Properties\<close>

text \<open>
  Property C30: an interrupt wakes a waiting VCPU. When a guest VCPU waits for interrupts and a free line is raised that the
  architecture accepts, the line is recorded with its reason and one more execution is pending. On the CPU of the
  VCPU the VCPU can run again, its wait state is cleared and its timeout stopped; from another CPU the wake-up is
  queued there, and delivering it has the same effect. The invariant of the scheduler is kept.
\<close>
theorem wfi_interrupt_wakes:
  assumes "sched_inv s" and "waits s v" and "is_normal (vcpus s v)" and "hosted A s v"
    and "irq_context (sched s cpu) \<longrightarrow> irq_regs (sched s cpu)"
    and "irq (irqs (vcpus s v)) = Some l" and "n < length l" and "length l = unat (irq_count (irqs (vcpus s v)))"
    and "irq_assert (l ! n) = DEASSERTED" and "arch_vcpu_irq_assert A (arch_calls s) v n = VMM_OK"
  shows "\<exists>s'. vmm_vcpu_irq_assert A cpu (Some v) n reason s = Some s' \<and> sched_inv s' \<and>
    irq (irqs (vcpus s' v)) = Some (l[n := \<lparr>irq_assert = ASSERTED, irq_reason = reason\<rparr>]) \<and>
    execute_pending (irqs (vcpus s' v)) = execute_pending (irqs (vcpus s v)) + 1 \<and>
    (if hcpu (vcpus s v) = cpu then awake s' v
     else ipis s' (hcpu (vcpus s v)) = ipis s (hcpu (vcpus s v)) @ [Ipi_wfi_resume v False] \<and> waits s' v \<and>
       (\<forall>rest. (irq_context (sched s' (hcpu (vcpus s v))) \<longrightarrow> irq_regs (sched s' (hcpu (vcpus s v)))) \<longrightarrow>
          (\<exists>s''. ipi_wfi_resume A (hcpu (vcpus s v)) v False rest s' = Some s'' \<and> sched_inv s'' \<and> awake s'' v)))"
proof -
  define s1 where "s1 = upd_irqs v (\<lambda>x. x\<lparr>execute_pending := execute_pending x + 1, assert_count := assert_count x + 1\<rparr>)
    (upd_irq v n (\<lambda>q. q\<lparr>irq_reason := reason\<rparr>)
      (snd (arch_call (\<lambda>k. arch_vcpu_irq_assert A k v n) (upd_irq v n (\<lambda>q. q\<lparr>irq_assert := ASSERTED\<rparr>) s))))"
  have a: "irq_assert_line A (Some v) n reason s = Some (True, s1)"
    using assms by (simp add: irq_assert_line_def interruptible_states waits_def irq_at_def arch_call_def Let_def s1_def upd_irq_def)
  have o: "irq_only s s1" by (simp add: s1_def irq_only_upd upd_irq_def)
  have i: "irq (irqs (vcpus s1 v)) = Some (l[n := \<lparr>irq_assert = ASSERTED, irq_reason = reason\<rparr>])"
    "execute_pending (irqs (vcpus s1 v)) = execute_pending (irqs (vcpus s v)) + 1"
    "wfi_state (irqs (vcpus s1 v)) = wfi_state (irqs (vcpus s v))" "wfi_priv (irqs (vcpus s1 v)) = wfi_priv (irqs (vcpus s v))"
    using assms(6,7) by (cases "l ! n"; simp add: s1_def upd_irq_irqs)+
  have v1: "hcpu (vcpus s1 v) = hcpu (vcpus s v)" "vstate (vcpus s1 v) = vstate (vcpus s v)"
    using irq_only_aside [OF o] by (simp_all add: aside_def unmoved_def)
  have inv1: "sched_inv s1" using aside_inv [OF irq_only_aside [OF o] assms(1)] .
  have w1: "waits s1 v" using assms(2) o i v1 by (simp add: waits_def irq_only_def)
  have "queues s1 = queues s" using irq_only_aside [OF o] by (simp add: aside_def)
  then have h1: "hosted A s1 v" using assms(4) o v1 by (simp add: hosted_def irq_only_def)
  have g1: "irq_context (sched s1 cpu) \<longrightarrow> irq_regs (sched s1 cpu)" using assms(5) o by (simp add: irq_only_def)
  obtain s' where r: "vmm_manager_vcpu_hcpu_func A cpu (Some v) VMM_VCPU_STATE_INTERRUPTIBLE False s1 = Some (VMM_OK, s')" "sched_inv s'"
    "irq (irqs (vcpus s' v)) = irq (irqs (vcpus s1 v))" "execute_pending (irqs (vcpus s' v)) = execute_pending (irqs (vcpus s1 v))"
    "hcpu (vcpus s1 v) = cpu \<longrightarrow> awake s' v"
    "hcpu (vcpus s1 v) \<noteq> cpu \<longrightarrow> waits s' v \<and> hosted A s' v \<and> ipis s' (hcpu (vcpus s1 v)) = ipis s1 (hcpu (vcpus s1 v)) @ [Ipi_wfi_resume v False]"
    by (rule hcpu_func_spec [OF inv1 w1 h1 g1, where data = False])
  have d: "\<exists>s''. ipi_wfi_resume A h v False rest s' = Some s'' \<and> sched_inv s'' \<and> awake s'' v"
    if "waits s' v" "hosted A s' v" "irq_context (sched s' h) \<longrightarrow> irq_regs (sched s' h)" for h rest
  proof -
    let ?t = "s'\<lparr>ipis := (ipis s')(h := rest)\<rparr>"
    have "sched_inv ?t" using aside_inv [OF ipis_aside r(2)] .
    moreover have "waits ?t v" "hosted A ?t v" "irq_context (sched ?t h) \<longrightarrow> irq_regs (sched ?t h)"
      using that by (simp_all add: waits_def hosted_def)
    ultimately show ?thesis unfolding ipi_wfi_resume_def using wfi_resume_spec by metis
  qed
  have "vmm_vcpu_irq_assert A cpu (Some v) n reason s = Some s'" using a r(1) by (simp add: vmm_vcpu_irq_assert_def)
  moreover have "ipis s1 = ipis s" using o by (simp add: irq_only_def)
  ultimately show ?thesis
    using r(2-6) i(1,2) v1(1) d by (cases "hcpu (vcpus s v) = cpu") auto
qed

definition wfi_example :: sched_sys where
  "wfi_example = upd_irqs 5 (\<lambda>x. x\<lparr>irq := Some (example_lines [DEASSERTED, DEASSERTED]), irq_count := 2, wfi_state := True, wfi_priv := True\<rparr>)
     (upd_vcpu 5 (\<lambda>x. x\<lparr>is_normal := True\<rparr>) (wq_example [5]))"

lemma wfi_example_facts:
  "sched_inv wfi_example" "waits wfi_example 5" "is_normal (vcpus wfi_example 5)" "hosted example_arch wfi_example 5"
  "irq (irqs (vcpus wfi_example 5)) = Some (example_lines [DEASSERTED, DEASSERTED])" "irq_count (irqs (vcpus wfi_example 5)) = 2"
  "\<not> irq_context (sched wfi_example 0)" "hcpu (vcpus wfi_example 5) = 0"
proof -
  have "aside (wq_example [5]) (upd_vcpu 5 (\<lambda>x. x\<lparr>is_normal := True\<rparr>) (wq_example [5]))" by (simp add: aside_def unmoved_def)
  then have "aside (wq_example [5]) wfi_example" unfolding wfi_example_def by (simp only: aside_upd_irqs)
  then show "sched_inv wfi_example" using aside_inv wq_example_ok(1) [of "[5]"] by simp
  have e: "current_vcpu (sched wfi_example c) \<noteq> Some 5" for c
    using wq_example_simps(4) [of "[5]" c] by (simp add: wfi_example_def split: if_splits)
  have v: "vcpus (wq_example [5]) 5 = example_vcpu\<lparr>is_normal := False, vstate := VMM_VCPU_STATE_PAUSED, wq_priv := Some (0, False), wq_cleanup := True\<rparr>"
    by (simp add: wq_example_def)
  show "waits wfi_example 5" using e v by (simp add: waits_def wfi_example_def upd_irqs_vcpus)
  show "is_normal (vcpus wfi_example 5)" "irq (irqs (vcpus wfi_example 5)) = Some (example_lines [DEASSERTED, DEASSERTED])"
    "irq_count (irqs (vcpus wfi_example 5)) = 2" by (simp_all add: wfi_example_def upd_irqs_vcpus)
  show h: "hcpu (vcpus wfi_example 5) = 0" using v by (simp add: wfi_example_def upd_irqs_vcpus example_vcpu_def)
  show "\<not> irq_context (sched wfi_example 0)" using wq_example_simps(5) [of "[5]" 0] by (simp add: wfi_example_def)
  show "hosted example_arch wfi_example 5"
    using h wq_example_simps(2,3) [of "[5]"] by (simp add: hosted_def wfi_example_def example_arch_def)
qed

theorem wfi_interrupt_wakes_witness:
  "\<exists>s'. vmm_vcpu_irq_assert example_arch 0 (Some 5) 1 42 wfi_example = Some s' \<and> awake s' 5"
proof -
  have "example_lines [DEASSERTED, DEASSERTED] ! 1 = \<lparr>irq_assert = DEASSERTED, irq_reason = 0\<rparr>"
    "length (example_lines [DEASSERTED, DEASSERTED]) = 2" by (simp_all add: example_lines_def)
  then show ?thesis
    using wfi_interrupt_wakes [OF wfi_example_facts(1-4), of 0 "example_lines [DEASSERTED, DEASSERTED]" 1 42] wfi_example_facts(5-8)
    by (auto simp: example_arch_def)
qed

text \<open>
  Property C31: executing a wait for interrupts. A running guest VCPU that waits keeps running while an interrupt is pending,
  with its count of yields cleared. Otherwise it first asks to be descheduled, up to the threshold. After that it
  enters the wait state with its timeout armed on its CPU and pauses, unless a resume has come in since it last started
  to run; an interrupt that becomes pending in between takes it out of the wait state again and stops the timeout.
\<close>
theorem wfi_wait_outcome:
  assumes "runs_guest s cpu v" and "wfi_priv (irqs (vcpus s v))"
  shows "\<exists>s'. vmm_vcpu_irq_wait_timeout A dflt cpu (Some v) nsecs s = Some (VMM_OK, s') \<and> sched_inv s' \<and>
    (let w = irqs (vcpus s v); w' = irqs (vcpus s' v); ev = events s' (Ev_wfi v) in
     if execute_pending w \<noteq> 0 \<or> arch_vcpu_irq_pending A (arch_calls s) v
     then vstate (vcpus s' v) = VMM_VCPU_STATE_RUNNING \<and> wfi_yield_count w' = 0 \<and> wfi_state w' = wfi_state w
     else if wfi_yield_count w < WFI_YIELD_THRESHOLD
     then vstate (vcpus s' v) = VMM_VCPU_STATE_RUNNING \<and> wfi_yield_count w' = wfi_yield_count w + 1 \<and> yield_on_irq_exit (sched s' cpu)
     else if wfi_state w then vcpus s' = vcpus s
     else if arch_vcpu_irq_pending A (Suc (arch_calls s)) v
     then vstate (vcpus s' v) = VMM_VCPU_STATE_RUNNING \<and> wfi_yield_count w' = 0 \<and> \<not> wfi_state w' \<and> \<not> active_state ev
     else wfi_state w' \<and> active_state ev \<and> active_hcpu ev = cpu \<and>
       expiry_tstamp ev = fst (vmm_timer_timestamp cpu s) + (if nsecs = 0 then dflt else nsecs) \<and>
       (if resumed (vcpus s v) then vstate (vcpus s' v) = VMM_VCPU_STATE_RUNNING
        else vstate (vcpus s' v) = VMM_VCPU_STATE_PAUSED \<and> yield_on_irq_exit (sched s' cpu)))"
proof -
  let ?w = "irqs (vcpus s v)" and ?n = "if nsecs = 0 then dflt else nsecs"
  note r = assms(1)
  have n: "is_normal (vcpus s v)" "current_vcpu (sched s cpu) = Some v" "vstate (vcpus s v) = VMM_VCPU_STATE_RUNNING"
    using r by (simp_all add: runs_guest_def)
  obtain s1 where h: "wfi_have_irq A v s = (execute_pending ?w \<noteq> 0 \<or> arch_vcpu_irq_pending A (arch_calls s) v, s1)"
    and f: "aside s s1" "vcpus s1 = vcpus s" "sched s1 = sched s" "events s1 = events s"
      "\<forall>c. fst (vmm_timer_timestamp c s1) = fst (vmm_timer_timestamp c s)" "execute_pending ?w = 0 \<longrightarrow> arch_calls s1 = Suc (arch_calls s)"
    by (rule have_irq_spec)
  have r1: "runs_guest s1 cpu v" by (rule runs_guest_aside [OF r f(1)]) (simp_all add: f)
  note def = vmm_vcpu_irq_wait_timeout_def option.case n h Let_def case_prod_conv f(2)
  consider (pending) "execute_pending ?w \<noteq> 0 \<or> arch_vcpu_irq_pending A (arch_calls s) v"
    | (yield) "execute_pending ?w = 0" "\<not> arch_vcpu_irq_pending A (arch_calls s) v" "wfi_yield_count ?w < WFI_YIELD_THRESHOLD"
    | (busy) "execute_pending ?w = 0" "\<not> arch_vcpu_irq_pending A (arch_calls s) v" "\<not> wfi_yield_count ?w < WFI_YIELD_THRESHOLD" "wfi_state ?w"
    | (enter) "execute_pending ?w = 0" "\<not> arch_vcpu_irq_pending A (arch_calls s) v" "\<not> wfi_yield_count ?w < WFI_YIELD_THRESHOLD" "\<not> wfi_state ?w"
    by blast
  then show ?thesis
  proof cases
    case pending
    have "sched_inv (upd_irqs v (\<lambda>x. x\<lparr>wfi_yield_count := 0\<rparr>) s1)"
      using aside_inv [of s] f(1) r by (simp add: runs_guest_def)
    then show ?thesis using pending n f(2) by (simp add: def)
  next
    case yield
    let ?s2 = "upd_irqs v (\<lambda>x. x\<lparr>wfi_yield_count := wfi_yield_count x + 1\<rparr>) s1"
    have r2: "runs_guest ?s2 cpu v" by (rule runs_guest_aside [OF r]) (simp_all add: f upd_irqs_vcpus)
    have "sched_inv (upd_sched cpu (\<lambda>c. c\<lparr>yield_on_irq_exit := True\<rparr>) (upd_vcpu v (\<lambda>x. x\<lparr>resumed := True\<rparr>) ?s2))"
      using yield_keeps [OF _ yield_guest [OF r2]] r2 by (simp add: runs_guest_def)
    then show ?thesis using yield n f(2) by (simp add: def yield_guest [OF r2] upd_irqs_vcpus)
  next
    case busy
    moreover have "sched_inv s1" using r1 by (simp add: runs_guest_def)
    ultimately show ?thesis using f(2) n by (simp add: def)
  next
    case enter
    let ?s2 = "upd_irqs v (\<lambda>x. x\<lparr>wfi_state := True\<rparr>) s1"
    let ?s3 = "snd (vmm_timer_event_start cpu (Some (Ev_wfi v)) ?n ?s2)"
    have s3: "wfi_enter cpu dflt v nsecs s1 = ?s3" using assms(2) f(2) by (simp add: wfi_enter_def wfi_event_def)
    have "aside s ?s2" using f(1) by simp
    then have a3: "aside s ?s3" by (simp add: aside_def event_start_inv)
    have e3: "active_state (events ?s3 (Ev_wfi v))" "active_hcpu (events ?s3 (Ev_wfi v)) = cpu"
      "expiry_tstamp (events ?s3 (Ev_wfi v)) = fst (vmm_timer_timestamp cpu s) + ?n"
      using f(5) by (simp_all add: start_armed)
    have v3: "vcpus ?s3 = vcpus ?s2" "arch_calls ?s3 = Suc (arch_calls s)" "sched ?s3 = sched s" using f enter(1) by simp_all
    have i2: "irqs (vcpus ?s2 v) = ?w\<lparr>wfi_state := True\<rparr>" using f(2) by simp
    obtain s4 where h4: "wfi_have_irq A v ?s3 = (arch_vcpu_irq_pending A (Suc (arch_calls s)) v, s4)"
      and f4: "aside ?s3 s4" "vcpus s4 = vcpus ?s2" "sched s4 = sched s" "events s4 = events ?s3"
    proof -
      have "execute_pending (irqs (vcpus ?s3 v)) = 0" using enter(1) i2 v3(1) by simp
      moreover obtain s4 where "wfi_have_irq A v ?s3 =
          (execute_pending (irqs (vcpus ?s3 v)) \<noteq> 0 \<or> arch_vcpu_irq_pending A (arch_calls ?s3) v, s4)"
        "aside ?s3 s4" "vcpus s4 = vcpus ?s3" "sched s4 = sched ?s3" "events s4 = events ?s3"
        by (rule have_irq_spec)
      ultimately show ?thesis using that v3 by presburger
    qed
    have a4: "aside s s4" using aside_trans [OF a3 f4(1)] .
    show ?thesis
    proof (cases "arch_vcpu_irq_pending A (Suc (arch_calls s)) v")
      case True
      let ?s5 = "upd_irqs v (\<lambda>x. x\<lparr>wfi_yield_count := 0, wfi_state := False\<rparr>) s4"
      have l: "wfi_leave v s4 = snd (vmm_timer_event_stop (Some (Ev_wfi v)) ?s5)"
        using assms(2) f(2) f4(2) by (simp add: wfi_leave_def wfi_event_def)
      have "aside s ?s5" using a4 by simp
      then have "sched_inv (wfi_leave v s4)" using aside_inv [OF aside_event_stop] r by (simp add: l runs_guest_def)
      moreover have "\<not> active_state (events (wfi_leave v s4) (Ev_wfi v))"
        by (simp add: l vmm_timer_event_stop_def stop_raw_inactive)
      ultimately show ?thesis using enter True n f4(2) f(2) by (simp add: def s3 h4 l)
    next
      case False
      have r4: "runs_guest s4 cpu v"
        by (rule runs_guest_aside [OF r a4]) (simp_all add: f4 f upd_irqs_vcpus)
      obtain s' where p: "vmm_scheduler_state_change A cpu (Some v) VMM_VCPU_STATE_PAUSED s4 = Some (VMM_OK, s')" "sched_inv s'"
        "irqs (vcpus s' v) = irqs (vcpus s4 v)" "events s' (Ev_wfi v) = events s4 (Ev_wfi v)"
        "vstate (vcpus s' v) = (if resumed (vcpus s4 v) then VMM_VCPU_STATE_RUNNING else VMM_VCPU_STATE_PAUSED)"
        "\<not> resumed (vcpus s4 v) \<longrightarrow> yield_on_irq_exit (sched s' cpu)"
        by (rule pause_guest [OF r4])
      have "resumed (vcpus s4 v) = resumed (vcpus s v)" using f4(2) f(2) by (simp add: upd_irqs_vcpus)
      then show ?thesis using enter False n f4(2,4) f(2) e3 i2 p by (simp add: def s3 h4)
    qed
  qed
qed

theorem wfi_wait_outcome_witness:
  "\<exists>s'. vmm_vcpu_irq_wait_timeout example_arch 1000 0 (Some 1) 0
       (upd_irqs 1 (\<lambda>x. x\<lparr>wfi_yield_count := 100, wfi_priv := True\<rparr>) (sched_example VMM_VCPU_STATE_RUNNING)) = Some (VMM_OK, s') \<and>
     vstate (vcpus s' 1) = VMM_VCPU_STATE_PAUSED \<and> active_state (events s' (Ev_wfi 1))"
proof -
  let ?e = "sched_example VMM_VCPU_STATE_RUNNING"
  let ?s = "upd_irqs 1 (\<lambda>x. x\<lparr>wfi_yield_count := 100, wfi_priv := True\<rparr>) ?e"
  have v: "vcpus ?e 1 = example_vcpu\<lparr>vstate := VMM_VCPU_STATE_RUNNING\<rparr>" by (simp add: sched_example_simps example_store_def)
  have i: "sched_inv ?e" by (rule sched_example_inv) simp
  then have "sched_inv ?s" by (rule aside_inv [rotated]) (simp add: aside_def unmoved_def upd_irqs_vcpus)
  moreover have "current_vcpu (sched ?s 0) = Some 1" "\<not> irq_context (sched ?s 0)"
    using sched_example_simps(2) [of VMM_VCPU_STATE_RUNNING 0] by (simp_all add: example_sched_def del: currents_def)
  ultimately have "runs_guest ?s 0 1" using v by (simp add: runs_guest_def upd_irqs_vcpus example_vcpu_def)
  from wfi_wait_outcome [OF this, of example_arch 1000 0] v show ?thesis
    by (auto simp: Let_def upd_irqs_vcpus example_vcpu_def example_arch_def WFI_YIELD_THRESHOLD_def)
qed

end
