(* ===== verification/Rbtree.thy ===== *)
theory Rbtree
  imports Prelude
begin

text \<open>
  Red-black trees, \<^verbatim>\<open>libs/common/rbtree.c\<close> and \<^verbatim>\<open>libs/include/libs/rbtree_augmented.h\<close>. A node with its children is a
  tree; a pointer to a node inside a tree is the subtree at the node with the way up to the root, one
  \<open>rb_up\<close> per ancestor, which is what the code reads through the parent pointers. Writing the fields of a node and of
  its ancestors becomes building a new subtree and closing it with the rest of the way up. \<^const>\<open>None\<close> is the
  dereference of a null pointer.

  The interface that users of the trees rely on is the locale \<open>ordered_store\<close>, interpreted as \<open>rb\<close> on these operations.
\<close>

section \<open>Nodes and positions\<close>

datatype rb_color = RB_RED | RB_BLACK

datatype 'a rb_tree = RB_NULL | Rb_node rb_color "'a rb_tree" 'a "'a rb_tree"

datatype 'a rb_up = At_left rb_color 'a "'a rb_tree" | At_right rb_color "'a rb_tree" 'a

fun rb_is_red :: "'a rb_tree \<Rightarrow> bool" where
  "rb_is_red (Rb_node c l v r) = (c = RB_RED)"
| "rb_is_red RB_NULL = False"

text \<open>\<^verbatim>\<open>if (tmp) rb_set_parent_color(tmp, ..., color)\<close>\<close>

fun rb_set_color :: "rb_color \<Rightarrow> 'a rb_tree \<Rightarrow> 'a rb_tree" where
  "rb_set_color c (Rb_node c' l v r) = Rb_node c l v r"
| "rb_set_color c RB_NULL = RB_NULL"

fun up_color :: "'a rb_up \<Rightarrow> rb_color" where
  "up_color (At_left c v r) = c"
| "up_color (At_right c l v) = c"

fun rb_change_child :: "'a rb_up \<Rightarrow> 'a rb_tree \<Rightarrow> 'a rb_tree" where
  "rb_change_child (At_left c v r) t = Rb_node c t v r"
| "rb_change_child (At_right c l v) t = Rb_node c l v t"

fun rb_zip :: "'a rb_tree \<Rightarrow> 'a rb_up list \<Rightarrow> 'a rb_tree" where
  "rb_zip t [] = t"
| "rb_zip t (u # us) = rb_zip (rb_change_child u t) us"

section \<open>Insertion\<close>

text \<open>
  \<^verbatim>\<open>__rb_insert\<close>: \<open>n\<close> is the red node, \<open>us\<close> the way up. Case 1 recurses at the grandparent; cases 2 and 3 end the loop.
\<close>

fun rb_insert_raw :: "'a rb_tree \<Rightarrow> 'a rb_up list \<Rightarrow> 'a rb_tree option" where
  "rb_insert_raw n [] = Some (rb_set_color RB_BLACK n)"
| "rb_insert_raw n [p] = (if up_color p = RB_BLACK then Some (rb_zip n [p]) else None)"
| "rb_insert_raw n (p # g # gs) =
     (if up_color p = RB_BLACK then Some (rb_zip n (p # g # gs))
      else case g of
        At_left gc gv u \<Rightarrow>
          if rb_is_red u
          then rb_insert_raw (Rb_node RB_RED (rb_set_color RB_BLACK (rb_change_child p n)) gv (rb_set_color RB_BLACK u)) gs
          else (case (p, n) of
              (At_right pc pl pv, Rb_node nc nl nv nr) \<Rightarrow>
                Some (rb_zip (Rb_node gc (Rb_node RB_RED pl pv (rb_set_color RB_BLACK nl)) nv
                  (Rb_node RB_RED (rb_set_color RB_BLACK nr) gv u)) gs)
            | (At_right pc pl pv, RB_NULL) \<Rightarrow> None
            | (At_left pc pv pr, _) \<Rightarrow> Some (rb_zip (Rb_node gc n pv (Rb_node RB_RED (rb_set_color RB_BLACK pr) gv u)) gs))
      | At_right gc u gv \<Rightarrow>
          if rb_is_red u
          then rb_insert_raw (Rb_node RB_RED (rb_set_color RB_BLACK u) gv (rb_set_color RB_BLACK (rb_change_child p n))) gs
          else (case (p, n) of
              (At_left pc pv pr, Rb_node nc nl nv nr) \<Rightarrow>
                Some (rb_zip (Rb_node gc (Rb_node RB_RED u gv (rb_set_color RB_BLACK nl)) nv
                  (Rb_node RB_RED (rb_set_color RB_BLACK nr) pv pr)) gs)
            | (At_left pc pv pr, RB_NULL) \<Rightarrow> None
            | (At_right pc pl pv, _) \<Rightarrow> Some (rb_zip (Rb_node gc (Rb_node RB_RED u gv (rb_set_color RB_BLACK pl)) pv n) gs)))"

text \<open>\<^verbatim>\<open>rb_link_node\<close> at the null link with way up \<open>us\<close>, then \<^verbatim>\<open>rb_insert_color\<close>.\<close>

definition rb_link_node :: "'a \<Rightarrow> 'a rb_tree" where
  "rb_link_node x = Rb_node RB_RED RB_NULL x RB_NULL"

definition rb_insert_color :: "'a rb_tree \<Rightarrow> 'a rb_up list \<Rightarrow> 'a rb_tree option" where
  "rb_insert_color n us = rb_insert_raw n us"

section \<open>Removal\<close>

text \<open>
  Cases 2 to 4 of \<^verbatim>\<open>____rb_erase_color\<close> for a node that is a left child: parent colour and value, the node, the sibling.
  The flag asks for another round at the parent.
\<close>

fun rb_erase_left :: "rb_color \<Rightarrow> 'a \<Rightarrow> 'a rb_tree \<Rightarrow> 'a rb_tree \<Rightarrow> ('a rb_tree \<times> bool) option" where
  "rb_erase_left pc pv n RB_NULL = None"
| "rb_erase_left pc pv n (Rb_node sc sl sv sr) =
     (if \<not> rb_is_red sr then
        (if \<not> rb_is_red sl then
           (if pc = RB_RED then Some (Rb_node RB_BLACK n pv (Rb_node RB_RED sl sv sr), False)
            else Some (Rb_node pc n pv (Rb_node RB_RED sl sv sr), True))
         else (case sl of
             Rb_node c2 a x b \<Rightarrow>
               Some (Rb_node pc (Rb_node RB_BLACK n pv a) x (Rb_node RB_BLACK (rb_set_color RB_BLACK b) sv sr), False)
           | RB_NULL \<Rightarrow> None))
      else Some (Rb_node pc (Rb_node RB_BLACK n pv sl) sv (rb_set_color RB_BLACK sr), False))"

fun rb_erase_right :: "rb_color \<Rightarrow> 'a \<Rightarrow> 'a rb_tree \<Rightarrow> 'a rb_tree \<Rightarrow> ('a rb_tree \<times> bool) option" where
  "rb_erase_right pc pv n RB_NULL = None"
| "rb_erase_right pc pv n (Rb_node sc sl sv sr) =
     (if \<not> rb_is_red sl then
        (if \<not> rb_is_red sr then
           (if pc = RB_RED then Some (Rb_node RB_BLACK (Rb_node RB_RED sl sv sr) pv n, False)
            else Some (Rb_node pc (Rb_node RB_RED sl sv sr) pv n, True))
         else (case sr of
             Rb_node c2 a x b \<Rightarrow>
               Some (Rb_node pc (Rb_node RB_BLACK sl sv (rb_set_color RB_BLACK a)) x (Rb_node RB_BLACK b pv n), False)
           | RB_NULL \<Rightarrow> None))
      else Some (Rb_node pc (rb_set_color RB_BLACK sl) sv (Rb_node RB_BLACK sr pv n), False))"

text \<open>
  \<^verbatim>\<open>____rb_erase_color\<close>, with case 1 (a red sibling) in front of the others. When both children of the parent are
  null the code takes the branch of the right child and reads the null sibling; the model has \<^const>\<open>None\<close> there too.
\<close>

fun rb_erase_color :: "'a rb_tree \<Rightarrow> 'a rb_up list \<Rightarrow> 'a rb_tree option" where
  "rb_erase_color n [] = Some n"
| "rb_erase_color n (At_left pc pv s # us) =
     (case s of
        Rb_node RB_RED RB_NULL sv sr \<Rightarrow> None
      | Rb_node RB_RED sl sv sr \<Rightarrow> do {
          (t, again) \<leftarrow> rb_erase_left RB_RED pv n (rb_set_color RB_BLACK sl);
          Some (rb_zip t (At_left pc sv sr # us)) }
      | _ \<Rightarrow> do {
          (t, again) \<leftarrow> rb_erase_left pc pv n s;
          if again then rb_erase_color t us else Some (rb_zip t us) })"
| "rb_erase_color n (At_right pc s pv # us) =
     (case s of
        Rb_node RB_RED sl sv RB_NULL \<Rightarrow> None
      | Rb_node RB_RED sl sv sr \<Rightarrow> do {
          (t, again) \<leftarrow> rb_erase_right RB_RED pv n (rb_set_color RB_BLACK sr);
          Some (rb_zip t (At_right pc sl sv # us)) }
      | _ \<Rightarrow> do {
          (t, again) \<leftarrow> rb_erase_right pc pv n s;
          if again then rb_erase_color t us else Some (rb_zip t us) })"

fun rb_leftmost :: "'a rb_tree \<Rightarrow> 'a rb_up list \<Rightarrow> 'a rb_tree \<times> 'a rb_up list" where
  "rb_leftmost RB_NULL us = (RB_NULL, us)"
| "rb_leftmost (Rb_node c l v r) us = (if l = RB_NULL then (Rb_node c l v r, us) else rb_leftmost l (At_left c v r # us))"

fun rb_rightmost :: "'a rb_tree \<Rightarrow> 'a rb_up list \<Rightarrow> 'a rb_tree \<times> 'a rb_up list" where
  "rb_rightmost RB_NULL us = (RB_NULL, us)"
| "rb_rightmost (Rb_node c l v r) us = (if r = RB_NULL then (Rb_node c l v r, us) else rb_rightmost r (At_right c l v # us))"

text \<open>
  \<^verbatim>\<open>__rb_erase_augmented\<close>: the position that the removed node leaves, what is put there, and whether to rebalance.
\<close>

definition rb_erase_augmented :: "'a rb_tree \<Rightarrow> 'a rb_up list \<Rightarrow> ('a rb_tree \<times> 'a rb_up list \<times> bool) option" where
  "rb_erase_augmented node us =
     (case node of
        RB_NULL \<Rightarrow> None
      | Rb_node c l v r \<Rightarrow>
          if l = RB_NULL then
            (if r \<noteq> RB_NULL then Some (rb_set_color c r, us, False) else Some (RB_NULL, us, c = RB_BLACK \<and> us \<noteq> []))
          else if r = RB_NULL then Some (rb_set_color c l, us, False)
          else (case rb_leftmost r [] of
              (Rb_node sc sl sv child2, vs) \<Rightarrow>
                (let ws = vs @ At_right c l sv # us in
                 if child2 \<noteq> RB_NULL then Some (rb_set_color RB_BLACK child2, ws, False)
                 else Some (RB_NULL, ws, sc = RB_BLACK))
            | (RB_NULL, vs) \<Rightarrow> None))"

definition rb_erase :: "'a rb_tree \<Rightarrow> 'a rb_up list \<Rightarrow> 'a rb_tree option" where
  "rb_erase node us = do {
     (t, ws, rebalance) \<leftarrow> rb_erase_augmented node us;
     if rebalance then rb_erase_color t ws else Some (rb_zip t ws) }"

section \<open>Traversal\<close>

definition rb_first :: "'a rb_tree \<Rightarrow> ('a rb_tree \<times> 'a rb_up list) option" where
  "rb_first root = (if root = RB_NULL then None else Some (rb_leftmost root []))"

definition rb_last :: "'a rb_tree \<Rightarrow> ('a rb_tree \<times> 'a rb_up list) option" where
  "rb_last root = (if root = RB_NULL then None else Some (rb_rightmost root []))"

text \<open>\<^verbatim>\<open>while ((parent = rb_parent(node)) && node == parent->rb_right) node = parent;\<close>\<close>

fun climb_right :: "'a rb_tree \<Rightarrow> 'a rb_up list \<Rightarrow> ('a rb_tree \<times> 'a rb_up list) option" where
  "climb_right n [] = None"
| "climb_right n (At_right c l v # us) = climb_right (Rb_node c l v n) us"
| "climb_right n (At_left c v r # us) = Some (Rb_node c n v r, us)"

fun climb_left :: "'a rb_tree \<Rightarrow> 'a rb_up list \<Rightarrow> ('a rb_tree \<times> 'a rb_up list) option" where
  "climb_left n [] = None"
| "climb_left n (At_left c v r # us) = climb_left (Rb_node c n v r) us"
| "climb_left n (At_right c l v # us) = Some (Rb_node c l v n, us)"

fun rb_next :: "'a rb_tree \<times> 'a rb_up list \<Rightarrow> ('a rb_tree \<times> 'a rb_up list) option" where
  "rb_next (RB_NULL, us) = None"
| "rb_next (Rb_node c l v r, us) =
     (if r \<noteq> RB_NULL then Some (rb_leftmost r (At_right c l v # us)) else climb_right (Rb_node c l v r) us)"

fun rb_prev :: "'a rb_tree \<times> 'a rb_up list \<Rightarrow> ('a rb_tree \<times> 'a rb_up list) option" where
  "rb_prev (RB_NULL, us) = None"
| "rb_prev (Rb_node c l v r, us) =
     (if l \<noteq> RB_NULL then Some (rb_rightmost l (At_left c v r # us)) else climb_left (Rb_node c l v r) us)"

fun rb_replace_node :: "'a \<Rightarrow> 'a rb_tree \<Rightarrow> 'a rb_up list \<Rightarrow> 'a rb_tree" where
  "rb_replace_node w (Rb_node c l v r) us = rb_zip (Rb_node c l w r) us"
| "rb_replace_node w RB_NULL us = rb_zip RB_NULL us"

fun rb_left_deepest_node :: "'a rb_tree \<Rightarrow> 'a rb_up list \<Rightarrow> 'a rb_tree \<times> 'a rb_up list" where
  "rb_left_deepest_node RB_NULL us = (RB_NULL, us)"
| "rb_left_deepest_node (Rb_node c l v r) us =
     (if l \<noteq> RB_NULL then rb_left_deepest_node l (At_left c v r # us)
      else if r \<noteq> RB_NULL then rb_left_deepest_node r (At_right c l v # us)
      else (Rb_node c l v r, us))"

fun rb_next_postorder :: "'a rb_tree \<times> 'a rb_up list \<Rightarrow> ('a rb_tree \<times> 'a rb_up list) option" where
  "rb_next_postorder (n, []) = None"
| "rb_next_postorder (n, At_left c v r # us) =
     (if r \<noteq> RB_NULL then Some (rb_left_deepest_node r (At_right c n v # us)) else Some (Rb_node c n v r, us))"
| "rb_next_postorder (n, At_right c l v # us) = Some (Rb_node c l v n, us)"

definition rb_first_postorder :: "'a rb_tree \<Rightarrow> ('a rb_tree \<times> 'a rb_up list) option" where
  "rb_first_postorder root = (if root = RB_NULL then None else Some (rb_left_deepest_node root []))"

section \<open>Elements\<close>

fun elems :: "'a rb_tree \<Rightarrow> 'a list" where
  "elems RB_NULL = []"
| "elems (Rb_node c l v r) = elems l @ v # elems r"

text \<open>The elements left and right of a position.\<close>

fun before :: "'a rb_up list \<Rightarrow> 'a list" where
  "before [] = []"
| "before (At_left c v r # us) = before us"
| "before (At_right c l v # us) = before us @ elems l @ [v]"

fun after :: "'a rb_up list \<Rightarrow> 'a list" where
  "after [] = []"
| "after (At_left c v r # us) = v # elems r @ after us"
| "after (At_right c l v # us) = after us"

lemma elems_set_color [simp]: "elems (rb_set_color c t) = elems t"
  by (cases t) auto

lemma elems_zip [simp]: "elems (rb_zip t us) = before us @ elems t @ after us"
  by (induction us arbitrary: t rule: before.induct) auto

lemma before_append [simp]: "before (us @ vs) = before vs @ before us"
  by (induction us rule: before.induct) auto

lemma after_append [simp]: "after (us @ vs) = after us @ after vs"
  by (induction us rule: after.induct) auto

lemma zip_append: "rb_zip t (us @ vs) = rb_zip (rb_zip t us) vs"
  by (induction us arbitrary: t) auto

lemma elems_Nil_iff [simp]: "elems t = [] \<longleftrightarrow> t = RB_NULL"
  by (cases t) auto

lemma insert_elems: "rb_insert_raw n us = Some t \<Longrightarrow> elems t = before us @ elems n @ after us"
proof (induction n us rule: rb_insert_raw.induct)
  case (2 n p)
  then show ?case by (cases p) (auto split: if_splits)
next
  case (3 n p g gs)
  then show ?case by (cases p; cases g; cases n) (auto split: if_splits)
qed auto

lemma erase_left_elems: "rb_erase_left pc pv n s = Some (t, again) \<Longrightarrow> elems t = elems n @ pv # elems s"
  by (cases s) (auto split: if_splits rb_tree.splits)

lemma erase_right_elems: "rb_erase_right pc pv n s = Some (t, again) \<Longrightarrow> elems t = elems s @ pv # elems n"
  by (cases s) (auto split: if_splits rb_tree.splits)

lemma erase_color_elems: "rb_erase_color n us = Some t \<Longrightarrow> elems t = before us @ elems n @ after us"
proof (induction n us rule: rb_erase_color.induct)
  case (2 n pc pv s us)
  then show ?case
    by (auto split: rb_tree.splits rb_color.splits bind_splits if_splits dest!: erase_left_elems)
next
  case (3 n pc s pv us)
  then show ?case
    by (auto split: rb_tree.splits rb_color.splits bind_splits if_splits dest!: erase_right_elems)
qed simp

lemma leftmost_spec:
  "t \<noteq> RB_NULL \<Longrightarrow> \<exists>c v r vs. rb_leftmost t us = (Rb_node c RB_NULL v r, vs @ us) \<and>
     before vs = [] \<and> elems t = v # elems r @ after vs \<and> rb_zip (Rb_node c RB_NULL v r) vs = t"
proof (induction t arbitrary: us)
  case (Rb_node c l v r)
  show ?case
  proof (cases "l = RB_NULL")
    case False
    then obtain c' v' r' vs where "rb_leftmost l (At_left c v r # us) = (Rb_node c' RB_NULL v' r', vs @ At_left c v r # us)"
      "before vs = []" "elems l = v' # elems r' @ after vs" "rb_zip (Rb_node c' RB_NULL v' r') vs = l"
      using Rb_node.IH(1) by metis
    with False show ?thesis
      by (intro exI [of _ c'] exI [of _ v'] exI [of _ r'] exI [of _ "vs @ [At_left c v r]"]) (simp add: zip_append)
  qed auto
qed simp

lemma rightmost_spec:
  "t \<noteq> RB_NULL \<Longrightarrow> \<exists>c l v vs. rb_rightmost t us = (Rb_node c l v RB_NULL, vs @ us) \<and>
     after vs = [] \<and> elems t = before vs @ elems l @ [v] \<and> rb_zip (Rb_node c l v RB_NULL) vs = t"
proof (induction t arbitrary: us)
  case (Rb_node c l v r)
  show ?case
  proof (cases "r = RB_NULL")
    case False
    then obtain c' v' l' vs where "rb_rightmost r (At_right c l v # us) = (Rb_node c' l' v' RB_NULL, vs @ At_right c l v # us)"
      "after vs = []" "elems r = before vs @ elems l' @ [v']" "rb_zip (Rb_node c' l' v' RB_NULL) vs = r"
      using Rb_node.IH(2) by metis
    with False show ?thesis
      by (intro exI [of _ c'] exI [of _ l'] exI [of _ v'] exI [of _ "vs @ [At_right c l v]"]) (simp add: zip_append)
  qed auto
qed simp

lemma erase_augmented_elems:
  assumes "rb_erase_augmented (Rb_node c l v r) us = Some (t, ws, b)"
  shows "before ws @ elems t @ after ws = before us @ elems l @ elems r @ after us"
proof (cases "l = RB_NULL \<or> r = RB_NULL")
  case True
  then show ?thesis using assms by (auto simp: rb_erase_augmented_def split: if_splits)
next
  case False
  then obtain sc sv child2 vs where s: "rb_leftmost r [] = (Rb_node sc RB_NULL sv child2, vs)"
    "before vs = []" "elems r = sv # elems child2 @ after vs"
    using leftmost_spec [of r "[]"] by auto
  then show ?thesis using assms False by (auto simp: rb_erase_augmented_def Let_def split: if_splits)
qed

lemma erase_elems:
  assumes "rb_erase (Rb_node c l v r) us = Some t"
  shows "elems t = before us @ elems l @ elems r @ after us"
  using assms erase_augmented_elems [of c l v r us]
  by (fastforce simp: rb_erase_def split: bind_splits if_splits dest: erase_color_elems)

section \<open>Balance\<close>

text \<open>
  \<open>rb_ok t n\<close>: no red node of \<open>t\<close> has a red child, and every path to a leaf has \<open>n\<close> black nodes. \<open>up_ok us n red\<close>: a tree of black
  height \<open>n\<close> that is red if \<open>red\<close> can stand at the end of \<open>us\<close>.
\<close>

fun rb_ok :: "'a rb_tree \<Rightarrow> nat \<Rightarrow> bool" where
  "rb_ok RB_NULL n = (n = 0)"
| "rb_ok (Rb_node RB_RED l v r) n = (rb_ok l n \<and> rb_ok r n \<and> \<not> rb_is_red l \<and> \<not> rb_is_red r)"
| "rb_ok (Rb_node RB_BLACK l v r) n = (0 < n \<and> rb_ok l (n - 1) \<and> rb_ok r (n - 1))"

fun up_ok :: "'a rb_up list \<Rightarrow> nat \<Rightarrow> bool \<Rightarrow> bool" where
  "up_ok [] n red = (\<not> red)"
| "up_ok (At_left RB_RED v r # us) n red = (rb_ok r n \<and> \<not> red \<and> \<not> rb_is_red r \<and> up_ok us n True)"
| "up_ok (At_left RB_BLACK v r # us) n red = (rb_ok r n \<and> up_ok us (Suc n) False)"
| "up_ok (At_right RB_RED l v # us) n red = (rb_ok l n \<and> \<not> red \<and> \<not> rb_is_red l \<and> up_ok us n True)"
| "up_ok (At_right RB_BLACK l v # us) n red = (rb_ok l n \<and> up_ok us (Suc n) False)"

definition rb_root_ok :: "'a rb_tree \<Rightarrow> bool" where
  "rb_root_ok t \<longleftrightarrow> \<not> rb_is_red t \<and> (\<exists>n. rb_ok t n)"

lemma up_ok_mono: "up_ok us n red \<Longrightarrow> up_ok us n False"
  by (induction us n red rule: up_ok.induct) auto

lemma zip_ok: "rb_ok t n \<Longrightarrow> up_ok us n (rb_is_red t) \<Longrightarrow> rb_root_ok (rb_zip t us)"
proof (induction us n "rb_is_red t" arbitrary: t rule: up_ok.induct)
  case (1 n) then show ?case by (auto simp: rb_root_ok_def)
qed auto

lemma unzip_ok: "rb_root_ok (rb_zip t us) \<Longrightarrow> \<exists>n. rb_ok t n \<and> up_ok us n (rb_is_red t)"
proof (induction us arbitrary: t)
  case (Cons u us)
  then obtain n where "rb_ok (rb_change_child u t) n" "up_ok us n (rb_is_red (rb_change_child u t))" by fastforce
  then show ?case
    by (cases u; cases "up_color u"; cases n) auto
qed (auto simp: rb_root_ok_def)

lemma set_black_id [simp]: "\<not> rb_is_red t \<Longrightarrow> rb_set_color RB_BLACK t = t"
  by (cases t rule: rb_is_red.cases) (auto intro: rb_color.exhaust)

lemma red_set_black: "rb_ok t n \<Longrightarrow> rb_is_red t \<Longrightarrow> rb_ok (rb_set_color RB_BLACK t) (Suc n)"
  by (cases t rule: rb_is_red.cases) auto

lemma set_color_red [simp]: "rb_is_red (rb_set_color c t) \<longleftrightarrow> c = RB_RED \<and> t \<noteq> RB_NULL"
  by (cases t) auto

lemma insert_ok:
  "rb_ok n k \<Longrightarrow> rb_is_red n \<Longrightarrow> up_ok us k False \<Longrightarrow> \<exists>t. rb_insert_raw n us = Some t \<and> rb_root_ok t"
proof (induction n us arbitrary: k rule: rb_insert_raw.induct)
  case (1 n)
  then show ?case by (auto simp: rb_root_ok_def intro: red_set_black)
next
  case (2 n p)
  then show ?case by (cases p; cases "up_color p"; cases n rule: rb_is_red.cases) (auto simp: rb_root_ok_def intro!: exI)
next
  case (3 n p g gs)
  obtain nl nv nr where n: "n = Rb_node RB_RED nl nv nr" using "3.prems"(2) by (cases n) auto
  show ?case
  proof (cases "up_color p")
    case RB_BLACK
    have "rb_root_ok (rb_zip n (p # g # gs))"
      by (rule zip_ok [OF "3.prems"(1)]) (use "3.prems" RB_BLACK in \<open>cases p; auto\<close>)
    then show ?thesis using RB_BLACK by simp
  next
    case RB_RED
    have gb: "up_color g = RB_BLACK"
      using "3.prems"(3) RB_RED by (cases p; cases g; cases "up_color g") auto
    show ?thesis
    proof (cases g)
      case (At_left gc gv u)
      then have gc: "gc = RB_BLACK" using gb by simp
      have up: "rb_ok u k" "up_ok gs (Suc k) False"
        using "3.prems"(3) RB_RED At_left gc by (cases p; simp)+
      show ?thesis
      proof (cases "rb_is_red u")
        case True
        let ?m = "Rb_node RB_RED (rb_set_color RB_BLACK (rb_change_child p n)) gv (rb_set_color RB_BLACK u)"
        have "rb_ok ?m (Suc k)"
          using "3.prems" RB_RED True red_set_black [OF up(1) True] by (cases p) auto
        then have "\<exists>t. rb_insert_raw ?m gs = Some t \<and> rb_root_ok t"
          using "3.IH"(1) [OF _ At_left True _ _ up(2)] RB_RED by simp
        then show ?thesis using True At_left RB_RED by simp
      next
        case False
        then show ?thesis
          using "3.prems" RB_RED At_left gc n up
          by (cases p) (auto intro!: zip_ok [where n = "Suc k"])
      qed
    next
      case (At_right gc u gv)
      then have gc: "gc = RB_BLACK" using gb by simp
      have up: "rb_ok u k" "up_ok gs (Suc k) False"
        using "3.prems"(3) RB_RED At_right gc by (cases p; simp)+
      show ?thesis
      proof (cases "rb_is_red u")
        case True
        let ?m = "Rb_node RB_RED (rb_set_color RB_BLACK u) gv (rb_set_color RB_BLACK (rb_change_child p n))"
        have "rb_ok ?m (Suc k)"
          using "3.prems" RB_RED True red_set_black [OF up(1) True] by (cases p) auto
        then have "\<exists>t. rb_insert_raw ?m gs = Some t \<and> rb_root_ok t"
          using "3.IH"(2) [OF _ At_right True _ _ up(2)] RB_RED by simp
        then show ?thesis using True At_right RB_RED by simp
      next
        case False
        then show ?thesis
          using "3.prems" RB_RED At_right gc n up
          by (cases p) (auto intro!: zip_ok [where n = "Suc k"])
      qed
    qed
  qed
qed

lemma black_cases:
  assumes "rb_ok s (Suc k)" and "\<not> rb_is_red s"
  obtains l v r where "s = Rb_node RB_BLACK l v r" "rb_ok l k" "rb_ok r k"
  using assms by (cases "(s, Suc k)" rule: rb_ok.cases) auto

lemma red_cases:
  assumes "rb_ok s k" and "rb_is_red s"
  obtains l v r where "s = Rb_node RB_RED l v r" "rb_ok l k" "rb_ok r k" "\<not> rb_is_red l" "\<not> rb_is_red r"
  using assms by (cases "(s, k)" rule: rb_ok.cases) auto

definition erased :: "rb_color \<Rightarrow> nat \<Rightarrow> ('a rb_tree \<times> bool) option \<Rightarrow> bool" where
  "erased pc k res \<longleftrightarrow> (\<exists>t again. res = Some (t, again) \<and>
     (if again then pc = RB_BLACK \<and> rb_ok t (Suc k) \<and> \<not> rb_is_red t
      else rb_ok t (if pc = RB_RED then Suc k else Suc (Suc k)) \<and> (rb_is_red t \<longrightarrow> pc = RB_RED)))"

lemma erase_left_ok:
  assumes "rb_ok n k" and "\<not> rb_is_red n" and "rb_ok s (Suc k)" and "\<not> rb_is_red s"
  shows "erased pc k (rb_erase_left pc pv n s)"
proof -
  obtain sl sv sr where s: "s = Rb_node RB_BLACK sl sv sr" "rb_ok sl k" "rb_ok sr k"
    using assms(3,4) by (rule black_cases)
  show ?thesis
  proof (cases "\<not> rb_is_red sr \<and> rb_is_red sl")
    case True
    obtain a x b where "sl = Rb_node RB_RED a x b" "rb_ok a k" "rb_ok b k" "\<not> rb_is_red a" "\<not> rb_is_red b"
      using s(2) True by (auto elim: red_cases)
    then show ?thesis using s True assms by (cases pc) (auto simp: erased_def)
  next
    case False
    then show ?thesis using s assms red_set_black [OF s(3)] by (cases pc) (auto simp: erased_def)
  qed
qed

lemma erase_right_ok:
  assumes "rb_ok n k" and "\<not> rb_is_red n" and "rb_ok s (Suc k)" and "\<not> rb_is_red s"
  shows "erased pc k (rb_erase_right pc pv n s)"
proof -
  obtain sl sv sr where s: "s = Rb_node RB_BLACK sl sv sr" "rb_ok sl k" "rb_ok sr k"
    using assms(3,4) by (rule black_cases)
  show ?thesis
  proof (cases "\<not> rb_is_red sl \<and> rb_is_red sr")
    case True
    obtain a x b where "sr = Rb_node RB_RED a x b" "rb_ok a k" "rb_ok b k" "\<not> rb_is_red a" "\<not> rb_is_red b"
      using s(3) True by (auto elim: red_cases)
    then show ?thesis using s True assms by (cases pc) (auto simp: erased_def)
  next
    case False
    then show ?thesis using s assms red_set_black [OF s(2)] by (cases pc) (auto simp: erased_def)
  qed
qed

lemma erased_zip:
  assumes e: "erased pc k res" and up: "up_ok us (if pc = RB_RED then Suc k else Suc (Suc k)) (pc = RB_RED)"
    and again: "\<And>t. pc = RB_BLACK \<Longrightarrow> res = Some (t, True) \<Longrightarrow> rb_ok t (Suc k) \<Longrightarrow> \<not> rb_is_red t \<Longrightarrow>
      \<exists>t'. rb_erase_color t us = Some t' \<and> rb_root_ok t'"
  shows "\<exists>t'. do { (t, again) \<leftarrow> res; if again then rb_erase_color t us else Some (rb_zip t us) } = Some t' \<and> rb_root_ok t'"
proof -
  obtain t b where r: "res = Some (t, b)" using e by (auto simp: erased_def)
  show ?thesis
  proof (cases b)
    case True
    then show ?thesis using e again [of t] r by (auto simp: erased_def)
  next
    case False
    then have t: "rb_ok t (if pc = RB_RED then Suc k else Suc (Suc k))" "rb_is_red t \<longrightarrow> pc = RB_RED"
      using e r by (auto simp: erased_def)
    have "rb_root_ok (rb_zip t us)"
      by (rule zip_ok [OF t(1)]) (use up up_ok_mono [OF up] t(2) in \<open>cases "rb_is_red t"; simp\<close>)
    then show ?thesis using r False by simp
  qed
qed

lemma erased_zip_red:
  assumes e: "erased RB_RED k res" and up: "up_ok us (Suc k) True"
  shows "\<exists>t'. do { (t, again) \<leftarrow> res; Some (rb_zip t us) } = Some t' \<and> rb_root_ok t'"
proof -
  obtain t where r: "res = Some (t, False)" "rb_ok t (Suc k)" using e by (auto simp: erased_def split: if_splits)
  have "rb_root_ok (rb_zip t us)"
    by (rule zip_ok [OF r(2)]) (use up up_ok_mono [OF up] in \<open>cases "rb_is_red t"; simp\<close>)
  then show ?thesis using r(1) by simp
qed

lemma erase_color_ok:
  "rb_ok n k \<Longrightarrow> \<not> rb_is_red n \<Longrightarrow> up_ok us (Suc k) False \<Longrightarrow> \<exists>t. rb_erase_color n us = Some t \<and> rb_root_ok t"
proof (induction us arbitrary: n k)
  case Nil
  then show ?case by (auto simp: rb_root_ok_def)
next
  case (Cons u us)
  show ?case
  proof (cases u)
    case (At_left pc pv s)
    have s: "rb_ok s (Suc k)" and pcs: "pc = RB_RED \<Longrightarrow> \<not> rb_is_red s"
      and up: "up_ok us (if pc = RB_RED then Suc k else Suc (Suc k)) (pc = RB_RED)"
      using Cons.prems(3) At_left by (cases pc; simp)+
    show ?thesis
    proof (cases "rb_is_red s")
      case True
      obtain sl sv sr where r: "s = Rb_node RB_RED sl sv sr" "rb_ok sl (Suc k)" "rb_ok sr (Suc k)" "\<not> rb_is_red sl" "\<not> rb_is_red sr"
        using s True by (rule red_cases)
      have pc: "pc = RB_BLACK" using pcs True by (cases pc) auto
      have "erased RB_RED k (rb_erase_left RB_RED pv n sl)" by (rule erase_left_ok [OF Cons.prems(1,2) r(2,4)])
      from erased_zip_red [OF this, of "At_left pc sv sr # us"] show ?thesis
        using At_left r up pc by (cases sl) auto
    next
      case False
      have e: "erased pc k (rb_erase_left pc pv n s)" by (rule erase_left_ok [OF Cons.prems(1,2) s False])
      have "\<exists>t'. do { (t, again) \<leftarrow> rb_erase_left pc pv n s; if again then rb_erase_color t us else Some (rb_zip t us) } = Some t' \<and> rb_root_ok t'"
        by (rule erased_zip [OF e up]) (use Cons.IH up in auto)
      then show ?thesis using At_left False by (auto split: rb_tree.splits rb_color.splits)
    qed
  next
    case (At_right pc s pv)
    have s: "rb_ok s (Suc k)" and pcs: "pc = RB_RED \<Longrightarrow> \<not> rb_is_red s"
      and up: "up_ok us (if pc = RB_RED then Suc k else Suc (Suc k)) (pc = RB_RED)"
      using Cons.prems(3) At_right by (cases pc; simp)+
    show ?thesis
    proof (cases "rb_is_red s")
      case True
      obtain sl sv sr where r: "s = Rb_node RB_RED sl sv sr" "rb_ok sl (Suc k)" "rb_ok sr (Suc k)" "\<not> rb_is_red sl" "\<not> rb_is_red sr"
        using s True by (rule red_cases)
      have pc: "pc = RB_BLACK" using pcs True by (cases pc) auto
      have "erased RB_RED k (rb_erase_right RB_RED pv n sr)" by (rule erase_right_ok [OF Cons.prems(1,2) r(3,5)])
      from erased_zip_red [OF this, of "At_right pc sl sv # us"] show ?thesis
        using At_right r up pc by (cases sr) auto
    next
      case False
      have e: "erased pc k (rb_erase_right pc pv n s)" by (rule erase_right_ok [OF Cons.prems(1,2) s False])
      have "\<exists>t'. do { (t, again) \<leftarrow> rb_erase_right pc pv n s; if again then rb_erase_color t us else Some (rb_zip t us) } = Some t' \<and> rb_root_ok t'"
        by (rule erased_zip [OF e up]) (use Cons.IH up in auto)
      then show ?thesis using At_right False by (auto split: rb_tree.splits rb_color.splits)
    qed
  qed
qed

lemma only_child: "rb_ok t 0 \<Longrightarrow> t = RB_NULL \<or> (\<exists>v. t = Rb_node RB_RED RB_NULL v RB_NULL)"
proof (induction t "0 :: nat" rule: rb_ok.induct)
  case (2 l v r) then show ?case by (cases l; cases r) auto
qed auto

lemma erase_ok:
  assumes ok: "rb_root_ok (rb_zip (Rb_node c l v r) us)"
  shows "\<exists>t. rb_erase (Rb_node c l v r) us = Some t \<and> rb_root_ok t"
proof -
  obtain k where k: "rb_ok (Rb_node c l v r) k" "up_ok us k (c = RB_RED)" using unzip_ok [OF ok] by auto
  consider (leaf) "l = RB_NULL" "r = RB_NULL" | (right) "l = RB_NULL" "r \<noteq> RB_NULL" | (left) "l \<noteq> RB_NULL" "r = RB_NULL"
    | (both) "l \<noteq> RB_NULL" "r \<noteq> RB_NULL" by blast
  then show ?thesis
  proof cases
    case leaf
    show ?thesis
    proof (cases "c = RB_BLACK \<and> us \<noteq> []")
      case True
      then have "k = Suc 0" using leaf k by auto
      then show ?thesis
        using leaf k True erase_color_ok [of RB_NULL 0 us] by (simp add: rb_erase_def rb_erase_augmented_def)
    next
      case False
      then have "rb_root_ok (rb_zip RB_NULL us)"
        using leaf k zip_ok [of RB_NULL 0 us] up_ok_mono [of us 0] by (cases c) (auto simp: rb_root_ok_def)
      then show ?thesis using leaf False by (auto simp: rb_erase_def rb_erase_augmented_def)
    qed
  next
    case right
    have "rb_root_ok (rb_zip (rb_set_color c r) us)"
      using right k only_child [of r] by (cases c) (auto intro!: zip_ok [where n = k])
    then show ?thesis using right by (simp add: rb_erase_def rb_erase_augmented_def)
  next
    case left
    have "rb_root_ok (rb_zip (rb_set_color c l) us)"
      using left k only_child [of l] by (cases c) (auto intro!: zip_ok [where n = k])
    then show ?thesis using left by (simp add: rb_erase_def rb_erase_augmented_def)
  next
    case both
    obtain sc sv ch vs where s: "rb_leftmost r [] = (Rb_node sc RB_NULL sv ch, vs)" "rb_zip (Rb_node sc RB_NULL sv ch) vs = r"
      using leftmost_spec [of r "[]"] both by auto
    let ?ws = "vs @ At_right c l sv # us"
    have "rb_root_ok (rb_zip (Rb_node sc RB_NULL sv ch) ?ws)"
    proof -
      have "rb_root_ok (rb_zip (Rb_node c l sv r) us)" by (rule zip_ok) (use k in \<open>cases c; auto\<close>)+
      then show ?thesis using s(2) by (simp add: zip_append)
    qed
    then obtain m where m: "rb_ok (Rb_node sc RB_NULL sv ch) m" "up_ok ?ws m (sc = RB_RED)" using unzip_ok by fastforce
    show ?thesis
    proof (cases "ch = RB_NULL")
      case True
      show ?thesis
      proof (cases sc)
        case RB_RED
        then have "rb_root_ok (rb_zip RB_NULL ?ws)" using m True by (auto intro!: zip_ok [where n = 0] dest: up_ok_mono)
        then show ?thesis using both s(1) True RB_RED by (simp add: rb_erase_def rb_erase_augmented_def)
      next
        case RB_BLACK
        then have "m = Suc 0" using True m by auto
        with RB_BLACK show ?thesis
          using both s(1) True m erase_color_ok [of RB_NULL 0 ?ws] by (simp add: rb_erase_def rb_erase_augmented_def)
      qed
    next
      case False
      have "rb_root_ok (rb_zip (rb_set_color RB_BLACK ch) ?ws)"
        using m False only_child [of ch] by (cases sc) (auto intro!: zip_ok [where n = m])
      then show ?thesis using both s(1) False by (simp add: rb_erase_def rb_erase_augmented_def Let_def)
    qed
  qed
qed

text \<open>The height is at most twice the logarithm of the number of nodes.\<close>

fun rb_height :: "'a rb_tree \<Rightarrow> nat" where
  "rb_height RB_NULL = 0"
| "rb_height (Rb_node c l v r) = Suc (max (rb_height l) (rb_height r))"

lemma ok_height: "rb_ok t n \<Longrightarrow> rb_height t \<le> 2 * n + (if rb_is_red t then 1 else 0)"
proof (induction t n rule: rb_ok.induct)
  case (3 l v r n)
  then show ?case by (cases n) (auto split: if_splits)
qed (auto split: if_splits)

lemma ok_size: "rb_ok t n \<Longrightarrow> 2 ^ n \<le> Suc (length (elems t))"
proof (induction t n rule: rb_ok.induct)
  case (3 l v r n)
  then show ?case by (cases n) auto
qed auto

section \<open>Search\<close>

text \<open>
  The loop every user writes: go left, go right or stop at a node. \<open>rb_descend\<close> ends at the null link where a new node
  belongs, or at the node where the search stopped.
\<close>

datatype rb_dir = Go_left | Go_right | Stop

fun rb_descend :: "('a \<Rightarrow> rb_dir) \<Rightarrow> 'a rb_tree \<Rightarrow> 'a rb_up list \<Rightarrow> 'a rb_tree \<times> 'a rb_up list" where
  "rb_descend cmp RB_NULL us = (RB_NULL, us)"
| "rb_descend cmp (Rb_node c l v r) us =
     (case cmp v of
        Go_left \<Rightarrow> rb_descend cmp l (At_left c v r # us)
      | Go_right \<Rightarrow> rb_descend cmp r (At_right c l v # us)
      | Stop \<Rightarrow> (Rb_node c l v r, us))"

definition rb_search :: "('a \<Rightarrow> rb_dir) \<Rightarrow> 'a rb_tree \<Rightarrow> 'a option" where
  "rb_search cmp t = (case fst (rb_descend cmp t []) of Rb_node c l v r \<Rightarrow> Some v | RB_NULL \<Rightarrow> None)"

text \<open>Link a new node where the descent ends; \<^const>\<open>Inl\<close> when it stops at a node.\<close>

definition rb_insert_by :: "('a \<Rightarrow> rb_dir) \<Rightarrow> 'a \<Rightarrow> 'a rb_tree \<Rightarrow> ('a + 'a rb_tree) option" where
  "rb_insert_by cmp x t =
     (case rb_descend cmp t [] of
        (RB_NULL, us) \<Rightarrow> map_option Inr (rb_insert_color (rb_link_node x) us)
      | (Rb_node c l v r, us) \<Rightarrow> Some (Inl v))"

text \<open>The position of the node that holds an element: what a pointer to the node gives the code.\<close>

fun rb_locate :: "'a \<Rightarrow> 'a rb_tree \<Rightarrow> 'a rb_up list \<Rightarrow> ('a rb_tree \<times> 'a rb_up list) option" where
  "rb_locate x RB_NULL us = None"
| "rb_locate x (Rb_node c l v r) us =
     (if v = x then Some (Rb_node c l v r, us)
      else case rb_locate x l (At_left c v r # us) of
        Some p \<Rightarrow> Some p
      | None \<Rightarrow> rb_locate x r (At_right c l v # us))"

definition rb_remove :: "'a \<Rightarrow> 'a rb_tree \<Rightarrow> 'a rb_tree option" where
  "rb_remove x t = do { (n, us) \<leftarrow> rb_locate x t []; rb_erase n us }"

definition rb_min :: "'a rb_tree \<Rightarrow> 'a option" where
  "rb_min t = (case rb_first t of Some (Rb_node c l v r, us) \<Rightarrow> Some v | _ \<Rightarrow> None)"

lemma descend_zip: "rb_descend cmp t us = (n, vs) \<Longrightarrow> rb_zip n vs = rb_zip t us"
  by (induction cmp t us rule: rb_descend.induct) (auto split: rb_dir.splits)

lemma locate_zip: "rb_locate x t us = Some (n, vs) \<Longrightarrow> rb_zip n vs = rb_zip t us \<and> (\<exists>c l r. n = Rb_node c l x r)"
  by (induction x t us rule: rb_locate.induct) (auto split: if_splits option.splits)

lemma locate_None: "rb_locate x t us = None \<longleftrightarrow> x \<notin> set (elems t)"
  by (induction x t us rule: rb_locate.induct) (auto split: option.splits)

text \<open>
  A comparison that splits a list: first the elements it goes right of, then at most one where it stops, then those it
  goes left of.
\<close>

definition splits :: "('a \<Rightarrow> rb_dir) \<Rightarrow> 'a list \<Rightarrow> 'a list \<Rightarrow> 'a list \<Rightarrow> bool" where
  "splits cmp as bs cs \<longleftrightarrow> (\<forall>a \<in> set as. cmp a = Go_right) \<and> (\<forall>b \<in> set bs. cmp b = Stop) \<and> (\<forall>c \<in> set cs. cmp c = Go_left)"

lemma append_split_left: "xs @ v # ys = as @ zs \<Longrightarrow> v \<notin> set zs \<Longrightarrow> \<exists>as1. as = xs @ v # as1 \<and> ys = as1 @ zs"
  by (fastforce simp: append_eq_append_conv2 append_eq_Cons_conv Cons_eq_append_conv)

lemma append_split_right: "xs @ v # ys = as @ zs \<Longrightarrow> v \<notin> set as \<Longrightarrow> \<exists>zs1. xs = as @ zs1 \<and> zs = zs1 @ v # ys"
  by (fastforce simp: append_eq_append_conv2 append_eq_Cons_conv Cons_eq_append_conv)

lemma descend_spec:
  assumes "rb_descend cmp t us = (n, vs)" and "elems t = as @ bs @ cs" and "splits cmp as bs cs"
  shows "(case n of RB_NULL \<Rightarrow> bs = [] \<and> before vs = before us @ as \<and> after vs = cs @ after us
     | Rb_node c l v r \<Rightarrow> v \<in> set bs)"
  using assms
proof (induction cmp t us arbitrary: as cs rule: rb_descend.induct)
  case (1 cmp us)
  then show ?case by auto
next
  case (2 cmp c l v r us)
  have e: "elems l @ v # elems r = as @ bs @ cs" using "2.prems"(2) by simp
  show ?case
  proof (cases "cmp v")
    case Go_left
    have "v \<notin> set (as @ bs)" using Go_left "2.prems"(3) by (auto simp: splits_def)
    then obtain cs1 where "elems l = as @ bs @ cs1" "cs = cs1 @ v # elems r"
      using append_split_right [of "elems l" v "elems r" "as @ bs" cs] e by auto
    then show ?thesis using "2.IH"(1) [OF Go_left, of as cs1] "2.prems" Go_left by (auto simp: splits_def split: rb_tree.splits)
  next
    case Go_right
    have "v \<notin> set (bs @ cs)" using Go_right "2.prems"(3) by (auto simp: splits_def)
    then obtain as1 where "elems r = as1 @ bs @ cs" "as = elems l @ v # as1"
      using append_split_left [OF e] by auto
    then show ?thesis using "2.IH"(2) [OF Go_right, of as1 cs] "2.prems" Go_right by (auto simp: splits_def split: rb_tree.splits)
  next
    case Stop
    have "v \<in> set (as @ bs @ cs)" using e [symmetric] by simp
    then show ?thesis using Stop "2.prems" by (auto simp: splits_def)
  qed
qed

section \<open>The interface to users\<close>

text \<open>Along the list the comparison first goes right, then stops, then goes left.\<close>

definition mono_cmp :: "('a \<Rightarrow> rb_dir) \<Rightarrow> 'a list \<Rightarrow> bool" where
  "mono_cmp cmp xs \<longleftrightarrow> sorted_wrt (\<lambda>y z. (cmp y = Go_left \<longrightarrow> cmp z = Go_left) \<and> (cmp z = Go_right \<longrightarrow> cmp y = Go_right)) xs"

lemma mono_cmp_Cons:
  "mono_cmp cmp (x # xs) \<longleftrightarrow> mono_cmp cmp xs \<and>
     (\<forall>y \<in> set xs. (cmp x = Go_left \<longrightarrow> cmp y = Go_left) \<and> (cmp y = Go_right \<longrightarrow> cmp x = Go_right))"
  by (auto simp: mono_cmp_def)

lemma mono_cmp_splits:
  "mono_cmp cmp xs \<Longrightarrow>
     xs = filter (\<lambda>y. cmp y = Go_right) xs @ filter (\<lambda>y. cmp y = Stop) xs @ filter (\<lambda>y. cmp y = Go_left) xs"
proof (induction xs)
  case (Cons x xs)
  have IH: "filter (\<lambda>y. cmp y = Go_right) xs @ filter (\<lambda>y. cmp y = Stop) xs @ filter (\<lambda>y. cmp y = Go_left) xs = xs"
    by (rule sym, rule Cons.IH) (use Cons.prems in \<open>simp add: mono_cmp_Cons\<close>)
  show ?case
  proof (cases "cmp x")
    case Go_left
    then have l: "\<forall>y \<in> set xs. cmp y = Go_left" using Cons.prems by (simp add: mono_cmp_Cons)
    have "filter (\<lambda>y. cmp y = Go_right) xs = []" "filter (\<lambda>y. cmp y = Stop) xs = []"
      unfolding filter_empty_conv using l by fastforce+
    moreover have "filter (\<lambda>y. cmp y = Go_left) xs = xs" using l by (rule filter_True)
    ultimately show ?thesis using Go_left by simp
  next
    case Stop
    then have "filter (\<lambda>y. cmp y = Go_right) xs = []" unfolding filter_empty_conv using Cons.prems by (fastforce simp: mono_cmp_Cons)
    then show ?thesis using Stop IH by simp
  next
    case Go_right
    then show ?thesis using IH by simp
  qed
qed simp

lemma splits_filter:
  "splits cmp (filter (\<lambda>y. cmp y = Go_right) xs) (filter (\<lambda>y. cmp y = Stop) xs) (filter (\<lambda>y. cmp y = Go_left) xs)"
  by (simp add: splits_def)

locale ordered_store =
  fixes inv :: "'t \<Rightarrow> bool" and elements :: "'t \<Rightarrow> 'a list"
    and ins :: "('a \<Rightarrow> rb_dir) \<Rightarrow> 'a \<Rightarrow> 't \<Rightarrow> ('a + 't) option" and del :: "'a \<Rightarrow> 't \<Rightarrow> 't option"
    and search :: "('a \<Rightarrow> rb_dir) \<Rightarrow> 't \<Rightarrow> 'a option" and least :: "'t \<Rightarrow> 'a option"
  assumes ins_free: "inv t \<Longrightarrow> mono_cmp cmp (elements t) \<Longrightarrow> \<forall>y \<in> set (elements t). cmp y \<noteq> Stop \<Longrightarrow>
      \<exists>t'. ins cmp x t = Some (Inr t') \<and> inv t' \<and>
        elements t' = filter (\<lambda>y. cmp y = Go_right) (elements t) @ x # filter (\<lambda>y. cmp y = Go_left) (elements t)"
    and ins_taken: "inv t \<Longrightarrow> mono_cmp cmp (elements t) \<Longrightarrow> \<exists>y \<in> set (elements t). cmp y = Stop \<Longrightarrow>
      \<exists>y \<in> set (elements t). cmp y = Stop \<and> ins cmp x t = Some (Inl y)"
    and del_in: "inv t \<Longrightarrow> distinct (elements t) \<Longrightarrow> x \<in> set (elements t) \<Longrightarrow>
      \<exists>t'. del x t = Some t' \<and> inv t' \<and> elements t' = remove1 x (elements t)"
    and search_None: "inv t \<Longrightarrow> mono_cmp cmp (elements t) \<Longrightarrow> search cmp t = None \<longleftrightarrow> (\<forall>y \<in> set (elements t). cmp y \<noteq> Stop)"
    and search_Some: "inv t \<Longrightarrow> mono_cmp cmp (elements t) \<Longrightarrow> search cmp t = Some y \<Longrightarrow> y \<in> set (elements t) \<and> cmp y = Stop"
    and least_hd: "inv t \<Longrightarrow> least t = (case elements t of [] \<Rightarrow> None | y # _ \<Rightarrow> Some y)"
begin

text \<open>A queue ordered by a key: equal keys stay in the order of insertion.\<close>

lemma ins_key:
  fixes key :: "'a \<Rightarrow> 'k::linorder"
  assumes "inv t" and s: "sorted (map key (elements t))"
  shows "\<exists>t'. ins (\<lambda>y. if key x < key y then Go_left else Go_right) x t = Some (Inr t') \<and> inv t' \<and>
    elements t' = filter (\<lambda>y. key y \<le> key x) (elements t) @ x # filter (\<lambda>y. key x < key y) (elements t) \<and>
    sorted (map key (elements t'))"
proof -
  let ?c = "\<lambda>y. if key x < key y then Go_left else Go_right"
  have "mono_cmp ?c (elements t)"
    using s unfolding mono_cmp_def sorted_map by (rule sorted_wrt_mono_rel [rotated]) auto
  moreover have "\<forall>y \<in> set (elements t). ?c y \<noteq> Stop" by simp
  ultimately obtain t' where t': "ins ?c x t = Some (Inr t')" "inv t'"
    "elements t' = filter (\<lambda>y. ?c y = Go_right) (elements t) @ x # filter (\<lambda>y. ?c y = Go_left) (elements t)"
    using ins_free [OF assms(1)] by blast
  moreover have "(?c y = Go_right) = (key y \<le> key x)" "(?c y = Go_left) = (key x < key y)" for y by auto
  ultimately have e: "elements t' = filter (\<lambda>y. key y \<le> key x) (elements t) @ x # filter (\<lambda>y. key x < key y) (elements t)"
    by simp
  moreover have "sorted (map key (filter P (elements t)))" for P using s by (rule sorted_filter)
  ultimately have "sorted (map key (elements t'))" by (fastforce simp: sorted_append)
  then show ?thesis using t' e by blast
qed

lemma del_least:
  assumes "inv t" and "distinct (elements t)" and "least t = Some x"
  shows "\<exists>t'. del x t = Some t' \<and> inv t' \<and> elements t = x # elements t'"
  using assms least_hd [OF assms(1)] del_in [OF assms(1,2), of x] by (cases "elements t") auto

text \<open>Disjoint ranges in ascending order.\<close>

definition ranges :: "('a \<Rightarrow> 'k::linorder) \<Rightarrow> ('a \<Rightarrow> 'k) \<Rightarrow> 't \<Rightarrow> bool" where
  "ranges lo hi t \<longleftrightarrow> sorted_wrt (\<lambda>a b. hi a \<le> lo b) (elements t) \<and> (\<forall>a \<in> set (elements t). lo a < hi a)"

lemma ranges_mono:
  assumes r: "ranges lo hi t" and "b \<le> e"
  shows "mono_cmp (\<lambda>y. if e \<le> lo y then Go_left else if hi y \<le> b then Go_right else Stop) (elements t)"
proof -
  have "sorted_wrt (\<lambda>a b. hi a \<le> lo b) (elements t)" using r by (simp add: ranges_def)
  then show ?thesis unfolding mono_cmp_def
  proof (rule sorted_wrt_mono_rel [rotated], goal_cases)
    case (1 x y)
    then have "lo x < hi x" "lo y < hi y" using r by (auto simp: ranges_def)
    with 1 show ?case using \<open>b \<le> e\<close> by (auto split: if_splits)
  qed
qed

lemma ins_range:
  assumes i: "inv t" and r: "ranges lo hi t" and x: "lo x < hi x"
    and free: "\<forall>y \<in> set (elements t). hi x \<le> lo y \<or> hi y \<le> lo x"
  shows "\<exists>t'. ins (\<lambda>y. if hi x \<le> lo y then Go_left else if hi y \<le> lo x then Go_right else Stop) x t = Some (Inr t') \<and>
    inv t' \<and> ranges lo hi t' \<and> set (elements t') = insert x (set (elements t))"
proof -
  let ?c = "\<lambda>y. if hi x \<le> lo y then Go_left else if hi y \<le> lo x then Go_right else Stop"
  have m: "mono_cmp ?c (elements t)" by (rule ranges_mono [OF r less_imp_le [OF x]])
  have ns: "\<forall>y \<in> set (elements t). ?c y \<noteq> Stop" using free by auto
  obtain t' where t': "ins ?c x t = Some (Inr t')" "inv t'"
    "elements t' = filter (\<lambda>y. ?c y = Go_right) (elements t) @ x # filter (\<lambda>y. ?c y = Go_left) (elements t)"
    using ins_free [OF i m] ns by blast
  have s: "sorted_wrt (\<lambda>a b. hi a \<le> lo b) (filter P (elements t))" for P
    using r by (simp add: ranges_def sorted_wrt_filter)
  have "ranges lo hi t'"
    using s r x unfolding ranges_def t'(3) sorted_wrt_append by (fastforce split: if_splits)
  moreover have "set (elements t') = insert x (set (elements t))"
    using free unfolding t'(3) by (auto split: if_splits)
  ultimately show ?thesis using t' by blast
qed

lemma ins_range_taken:
  assumes i: "inv t" and r: "ranges lo hi t" and x: "lo x < hi x"
    and taken: "y \<in> set (elements t)" "lo y < hi x" "lo x < hi y"
  shows "\<exists>y. ins (\<lambda>y. if hi x \<le> lo y then Go_left else if hi y \<le> lo x then Go_right else Stop) x t = Some (Inl y)"
proof -
  let ?c = "\<lambda>y. if hi x \<le> lo y then Go_left else if hi y \<le> lo x then Go_right else Stop"
  have "?c y = Stop" using taken by (simp add: not_le)
  then show ?thesis using ins_taken [OF i ranges_mono [OF r less_imp_le [OF x]]] taken(1) by blast
qed

lemma search_range:
  assumes i: "inv t" and r: "ranges lo hi t" and "b \<le> e"
  shows "(case search (\<lambda>y. if e \<le> lo y then Go_left else if hi y \<le> b then Go_right else Stop) t of
      None \<Rightarrow> \<forall>y \<in> set (elements t). e \<le> lo y \<or> hi y \<le> b
    | Some y \<Rightarrow> y \<in> set (elements t) \<and> lo y < e \<and> b < hi y)"
proof -
  note m = ranges_mono [OF r \<open>b \<le> e\<close>]
  show ?thesis
  proof (cases "search (\<lambda>y. if e \<le> lo y then Go_left else if hi y \<le> b then Go_right else Stop) t")
    case None
    then show ?thesis using search_None [OF i m] by (auto split: if_splits)
  next
    case (Some y)
    then show ?thesis using search_Some [OF i m Some] by (auto split: if_splits)
  qed
qed

lemma search_point:
  assumes i: "inv t" and r: "ranges lo hi t"
  shows "(case search (\<lambda>y. if a < lo y then Go_left else if hi y \<le> a then Go_right else Stop) t of
      None \<Rightarrow> \<forall>y \<in> set (elements t). a < lo y \<or> hi y \<le> a
    | Some y \<Rightarrow> y \<in> set (elements t) \<and> lo y \<le> a \<and> a < hi y)"
proof -
  let ?c = "\<lambda>y. if a < lo y then Go_left else if hi y \<le> a then Go_right else Stop"
  have "sorted_wrt (\<lambda>a b. hi a \<le> lo b) (elements t)" using r by (simp add: ranges_def)
  then have m: "mono_cmp ?c (elements t)" unfolding mono_cmp_def
  proof (rule sorted_wrt_mono_rel [rotated], goal_cases)
    case (1 x y)
    then have "lo x < hi x" "lo y < hi y" using r by (auto simp: ranges_def)
    with 1 show ?case by (auto split: if_splits)
  qed
  show ?thesis
  proof (cases "search ?c t")
    case None
    then show ?thesis using search_None [OF i m] by (auto split: if_splits)
  next
    case (Some y)
    then show ?thesis using search_Some [OF i m Some] by (auto split: if_splits)
  qed
qed

lemma range_unique:
  assumes r: "ranges lo hi t" and y: "y \<in> set (elements t)" "lo y \<le> a" "a < hi y"
    and z: "z \<in> set (elements t)" "lo z \<le> a" "a < hi z"
  shows "y = z"
proof (rule ccontr)
  assume "y \<noteq> z"
  obtain i j where ij: "i < length (elements t)" "elements t ! i = y" "j < length (elements t)" "elements t ! j = z"
    using y(1) z(1) by (auto simp: in_set_conv_nth)
  have "hi y \<le> lo z \<or> hi z \<le> lo y"
    using r ij \<open>y \<noteq> z\<close> unfolding ranges_def sorted_wrt_iff_nth_less by (metis linorder_neqE_nat)
  then show False using y z by auto
qed

lemma ranges_remove1:
  assumes "ranges lo hi t" and "elements t' = remove1 x (elements t)"
  shows "ranges lo hi t'"
proof -
  have "sorted_wrt P (remove1 x l)" if "sorted_wrt P l" for P l
    using that by (induction l) (auto dest: in_set_remove1 [THEN iffD1, rotated] notin_set_remove1 [rotated])
  then show ?thesis using assms by (auto simp: ranges_def dest: notin_set_remove1)
qed

lemma ranges_cong:
  assumes "\<And>x. x \<in> set (elements t) \<Longrightarrow> lo x = lo' x \<and> hi x = hi' x"
  shows "ranges lo hi t = ranges lo' hi' t"
proof -
  have "sorted_wrt (\<lambda>a b. hi a \<le> lo b) (elements t) = sorted_wrt (\<lambda>a b. hi' a \<le> lo' b) (elements t)"
    using assms by (auto intro: sorted_wrt_mono_rel [rotated])
  then show ?thesis using assms by (auto simp: ranges_def)
qed

lemma ranges_apart:
  assumes "ranges lo hi t" "x \<in> set (elements t)" "y \<in> set (elements t)" "x \<noteq> y"
  shows "hi x \<le> lo y \<or> hi y \<le> lo x"
proof -
  have "sorted_wrt P l \<Longrightarrow> x \<in> set l \<Longrightarrow> y \<in> set l \<Longrightarrow> P x y \<or> P y x" for P l using assms(4) by (induction l) auto
  from this [of "\<lambda>a b. hi a \<le> lo b" "elements t"] show ?thesis using assms(1-3) by (simp add: ranges_def)
qed

lemma ranges_distinct: "ranges lo hi t \<Longrightarrow> distinct (elements t)"
proof -
  assume r: "ranges lo hi t"
  have "x \<noteq> y" if "hi x \<le> lo y" "x \<in> set (elements t)" for x y using that r by (auto simp: ranges_def)
  then have "sorted_wrt (\<noteq>) (elements t)"
    using r sorted_wrt_mono_rel [of "elements t" "\<lambda>a b. hi a \<le> lo b" "(\<noteq>)"] by (simp add: ranges_def)
  then show ?thesis by (simp add: strict_sorted_iff distinct_conv_nth sorted_wrt_iff_nth_less) (metis linorder_neqE_nat)
qed

end

lemma insert_at_link:
  assumes "rb_root_ok (rb_zip RB_NULL us)"
  shows "\<exists>t. rb_insert_color (rb_link_node x) us = Some t \<and> rb_root_ok t \<and> elems t = before us @ x # after us"
proof -
  have "up_ok us 0 False" using unzip_ok [OF assms] by auto
  then obtain t where t: "rb_insert_raw (rb_link_node x) us = Some t" "rb_root_ok t"
    using insert_ok [of "rb_link_node x" 0 us] by (auto simp: rb_link_node_def)
  then show ?thesis using insert_elems [OF t(1)] by (simp add: rb_insert_color_def rb_link_node_def)
qed

lemma remove_ok:
  assumes "rb_root_ok t" and "distinct (elems t)" and "x \<in> set (elems t)"
  shows "\<exists>t'. rb_remove x t = Some t' \<and> rb_root_ok t' \<and> elems t' = remove1 x (elems t)"
proof -
  obtain c l r us where p: "rb_locate x t [] = Some (Rb_node c l x r, us)" "rb_zip (Rb_node c l x r) us = t"
    using assms(3) locate_None [of x t "[]"] locate_zip [of x t "[]"] by fastforce
  obtain t' where t': "rb_erase (Rb_node c l x r) us = Some t'" "rb_root_ok t'"
    using erase_ok [of c l x r us] p(2) assms(1) by auto
  have e: "elems t = (before us @ elems l) @ x # elems r @ after us" using p(2) [symmetric] by simp
  then have "x \<notin> set (before us @ elems l)" using assms(2) by auto
  then have "remove1 x (elems t) = before us @ elems l @ elems r @ after us" by (simp add: e remove1_append)
  then show ?thesis using p(1) t' erase_elems [OF t'(1)] by (simp add: rb_remove_def)
qed

interpretation rb: ordered_store rb_root_ok elems rb_insert_by rb_remove rb_search rb_min
proof (unfold_locales, goal_cases)
  case (1 t cmp x)
  obtain n us where d: "rb_descend cmp t [] = (n, us)" by (cases "rb_descend cmp t []")
  note s = descend_spec [OF d mono_cmp_splits [OF 1(2)] splits_filter]
  have "filter (\<lambda>y. cmp y = Stop) (elems t) = []" unfolding filter_empty_conv using 1(3) by blast
  with s have n: "n = RB_NULL" "before us = filter (\<lambda>y. cmp y = Go_right) (elems t)" "after us = filter (\<lambda>y. cmp y = Go_left) (elems t)"
    by (auto split: rb_tree.splits)
  then show ?case using insert_at_link [of us x] descend_zip [OF d] 1(1) d by (auto simp: rb_insert_by_def)
next
  case (2 t cmp x)
  obtain n us where d: "rb_descend cmp t [] = (n, us)" by (cases "rb_descend cmp t []")
  have "filter (\<lambda>y. cmp y = Stop) (elems t) \<noteq> []" unfolding filter_empty_conv using 2(3) by blast
  then show ?case
    using descend_spec [OF d mono_cmp_splits [OF 2(2)] splits_filter] d by (auto simp: rb_insert_by_def split: rb_tree.splits)
next
  case (3 t x)
  then show ?case by (rule remove_ok)
next
  case (4 t cmp)
  obtain n us where d: "rb_descend cmp t [] = (n, us)" by (cases "rb_descend cmp t []")
  show ?case
    using descend_spec [OF d mono_cmp_splits [OF 4(2)] splits_filter] d
    by (auto simp: rb_search_def filter_empty_conv split: rb_tree.splits)
next
  case (5 t cmp y)
  obtain n us where d: "rb_descend cmp t [] = (n, us)" by (cases "rb_descend cmp t []")
  show ?case
    using descend_spec [OF d mono_cmp_splits [OF 5(2)] splits_filter] d 5(3)
    by (auto simp: rb_search_def split: rb_tree.splits)
next
  case (6 t)
  then show ?case
    using leftmost_spec [of t "[]"] by (cases t) (auto simp: rb_min_def rb_first_def split: rb_tree.splits list.splits)
qed

section \<open>Iteration\<close>

lemma climb_right_spec:
  "case climb_right n us of
     None \<Rightarrow> after us = []
   | Some (m, vs) \<Rightarrow> rb_zip m vs = rb_zip n us \<and> (\<exists>c l v r. m = Rb_node c l v r \<and> before vs @ elems l = before us @ elems n)"
  by (induction n us rule: climb_right.induct) (auto split: option.splits)

lemma next_spec:
  "case rb_next (Rb_node c l v r, us) of
     None \<Rightarrow> elems r @ after us = []
   | Some (m, vs) \<Rightarrow> rb_zip m vs = rb_zip (Rb_node c l v r) us \<and>
       (\<exists>c' l' v' r'. m = Rb_node c' l' v' r' \<and> before vs @ elems l' = before us @ elems l @ [v])"
proof (cases "r = RB_NULL")
  case True
  then show ?thesis using climb_right_spec [where n = "Rb_node c l v r" and us = us] by (auto split: option.splits)
next
  case False
  then obtain c' v' r' vs where "rb_leftmost r (At_right c l v # us) = (Rb_node c' RB_NULL v' r', vs @ At_right c l v # us)"
    "before vs = []" "rb_zip (Rb_node c' RB_NULL v' r') vs = r"
    using leftmost_spec [of r "At_right c l v # us"] by auto
  then show ?thesis using False by (simp add: zip_append)
qed

text \<open>\<^verbatim>\<open>for (n = rb_first(root); n; n = rb_next(n))\<close>, with a bound on the number of steps.\<close>

fun rb_walk :: "('a rb_tree \<times> 'a rb_up list \<Rightarrow> ('a rb_tree \<times> 'a rb_up list) option) \<Rightarrow> nat \<Rightarrow>
    ('a rb_tree \<times> 'a rb_up list) option \<Rightarrow> 'a list" where
  "rb_walk nxt 0 p = []"
| "rb_walk nxt (Suc k) p =
     (case p of Some (Rb_node c l v r, us) \<Rightarrow> v # rb_walk nxt k (nxt (Rb_node c l v r, us)) | _ \<Rightarrow> [])"

lemma walk_next:
  "length (elems r @ after us) < k \<Longrightarrow> rb_walk rb_next k (Some (Rb_node c l v r, us)) = v # elems r @ after us"
proof (induction k arbitrary: c l v r us)
  case (Suc k)
  show ?case
  proof (cases "rb_next (Rb_node c l v r, us)")
    case None
    then show ?thesis using next_spec [where c = c and l = l and v = v and r = r and us = us] by (cases k) auto
  next
    case (Some p)
    then obtain c' l' v' r' vs where p: "p = (Rb_node c' l' v' r', vs)" "rb_zip (Rb_node c' l' v' r') vs = rb_zip (Rb_node c l v r) us"
      "before vs @ elems l' = before us @ elems l @ [v]"
      using next_spec [where c = c and l = l and v = v and r = r and us = us] by (cases p) auto
    have "elems (rb_zip (Rb_node c' l' v' r') vs) = elems (rb_zip (Rb_node c l v r) us)" using p(2) by simp
    then have "(before vs @ elems l') @ v' # elems r' @ after vs = (before us @ elems l @ [v]) @ elems r @ after us"
      by simp
    then have e: "elems r @ after us = v' # elems r' @ after vs" unfolding p(3) by (simp only: same_append_eq)
    then have "length (elems r' @ after vs) < k" using Suc.prems by simp
    then show ?thesis using Suc.IH [of r' vs c' l' v'] Some p(1) e by simp
  qed
qed simp

fun post_elems :: "'a rb_tree \<Rightarrow> 'a list" where
  "post_elems RB_NULL = []"
| "post_elems (Rb_node c l v r) = post_elems l @ post_elems r @ [v]"

fun post_after :: "'a rb_up list \<Rightarrow> 'a list" where
  "post_after [] = []"
| "post_after (At_left c v r # us) = post_elems r @ v # post_after us"
| "post_after (At_right c l v # us) = v # post_after us"

lemma left_deepest_spec:
  "t \<noteq> RB_NULL \<Longrightarrow> \<exists>c v vs. rb_left_deepest_node t us = (Rb_node c RB_NULL v RB_NULL, vs) \<and>
     post_elems t @ post_after us = v # post_after vs"
proof (induction t us rule: rb_left_deepest_node.induct)
  case (2 c l v r us)
  show ?case
  proof (cases "l = RB_NULL")
    case True
    then show ?thesis using 2(2) by (cases "r = RB_NULL") auto
  next
    case False
    then show ?thesis using 2(1) by auto
  qed
qed simp

lemma walk_postorder:
  "length (post_after us) < k \<Longrightarrow> rb_walk rb_next_postorder k (Some (Rb_node c l v r, us)) = v # post_after us"
proof (induction k arbitrary: c l v r us)
  case (Suc k)
  show ?case
  proof (cases "rb_next_postorder (Rb_node c l v r, us)")
    case None
    then show ?thesis by (cases us rule: post_after.cases; cases k) (auto split: if_splits)
  next
    case (Some p)
    have "\<exists>c' l' v' r' vs. p = (Rb_node c' l' v' r', vs) \<and> post_after us = v' # post_after vs"
    proof (cases us rule: post_after.cases)
      case (2 c' v' r' vs)
      then show ?thesis
        using Some left_deepest_spec [of r' "At_right c' (Rb_node c l v r) v' # vs"] by (cases "r' = RB_NULL") auto
    qed (use Some in auto)
    then show ?thesis using Suc Some by auto
  qed
qed simp

lemma length_post: "length (post_elems t) = length (elems t)"
  by (induction t) auto

section \<open>Properties\<close>

lemma root_ok_height: "rb_root_ok t \<Longrightarrow> 2 ^ (rb_height t div 2) \<le> Suc (length (elems t))"
proof -
  assume "rb_root_ok t"
  then obtain n where n: "rb_ok t n" "\<not> rb_is_red t" by (auto simp: rb_root_ok_def)
  then have "rb_height t div 2 \<le> n" using ok_height [OF n(1)] by simp
  then have "(2::nat) ^ (rb_height t div 2) \<le> 2 ^ n" by (rule power_increasing) simp
  then show ?thesis using ok_size [OF n(1)] by (rule order_trans)
qed

text \<open>
  Property C27: insertion into a red-black tree. Linking a new node at any null link of a tree that satisfies the
  red-black rules and calling \<^verbatim>\<open>rb_insert_color\<close> always returns; the node stands between the elements left and right of
  the link, no other element moves, the rules hold again, and the height is at most twice the logarithm of the size.
\<close>
theorem rb_insert_balanced:
  assumes "rb_root_ok (rb_zip RB_NULL us)"
  shows "\<exists>t. rb_insert_color (rb_link_node x) us = Some t \<and> rb_root_ok t \<and> elems t = before us @ x # after us \<and>
    2 ^ (rb_height t div 2) \<le> Suc (length (elems t))"
  using insert_at_link [OF assms] root_ok_height by blast

definition rb_example :: "nat rb_tree" where
  "rb_example = Rb_node RB_BLACK (Rb_node RB_RED RB_NULL 2 RB_NULL) 5 (Rb_node RB_RED RB_NULL 8 RB_NULL)"

theorem rb_insert_balanced_witness:
  "\<exists>t. rb_insert_color (rb_link_node 3) [At_right RB_RED RB_NULL 2, At_left RB_BLACK 5 (Rb_node RB_RED RB_NULL 8 RB_NULL)] = Some t \<and>
     elems t = [2, 3, 5, 8 :: nat] \<and> rb_root_ok t"
proof -
  have "rb_root_ok (rb_zip RB_NULL [At_right RB_RED RB_NULL 2, At_left RB_BLACK 5 (Rb_node RB_RED RB_NULL (8::nat) RB_NULL)])"
    by (auto simp: rb_root_ok_def)
  from rb_insert_balanced [OF this, of 3] show ?thesis by auto
qed

text \<open>
  Property C28: removal from a red-black tree. \<^verbatim>\<open>rb_erase\<close> of any node of a tree that satisfies the red-black rules always
  returns: it never follows a null sibling or child. Exactly that element is gone, the order of the others is kept,
  and the rules hold again.
\<close>
theorem rb_erase_balanced:
  assumes "rb_root_ok (rb_zip (Rb_node c l v r) us)"
  shows "\<exists>t. rb_erase (Rb_node c l v r) us = Some t \<and> rb_root_ok t \<and>
    elems (rb_zip (Rb_node c l v r) us) = before us @ elems l @ v # elems r @ after us \<and>
    elems t = before us @ elems l @ elems r @ after us"
  using erase_ok [OF assms] erase_elems [of c l v r us] by auto

theorem rb_erase_balanced_witness:
  "\<exists>t. rb_erase rb_example [] = Some t \<and> rb_root_ok t \<and> elems t = [2, 8]"
proof -
  have "rb_root_ok (rb_zip rb_example [])" by (auto simp: rb_root_ok_def rb_example_def)
  from rb_erase_balanced [OF this [unfolded rb_example_def]] show ?thesis by (simp add: rb_example_def)
qed

text \<open>
  Further fact: iteration. Walking with \<^verbatim>\<open>rb_next\<close> from \<^verbatim>\<open>rb_first\<close> visits every node once in the order of the tree and
  ends; walking with \<^verbatim>\<open>rb_next_postorder\<close> from \<^verbatim>\<open>rb_first_postorder\<close> visits every node once, after both its subtrees.
\<close>
theorem rb_iteration:
  "rb_walk rb_next (Suc (length (elems t))) (rb_first t) = elems t \<and>
   rb_walk rb_next_postorder (Suc (length (elems t))) (rb_first_postorder t) = post_elems t"
proof (cases "t = RB_NULL")
  case True
  then show ?thesis by (simp add: rb_first_def rb_first_postorder_def)
next
  case False
  obtain c v r vs where f: "rb_first t = Some (Rb_node c RB_NULL v r, vs)" "elems t = v # elems r @ after vs"
    using leftmost_spec [OF False, of "[]"] False by (auto simp: rb_first_def)
  obtain c' v' ws where g: "rb_first_postorder t = Some (Rb_node c' RB_NULL v' RB_NULL, ws)" "post_elems t = v' # post_after ws"
    using left_deepest_spec [OF False, of "[]"] False by (auto simp: rb_first_postorder_def)
  have "length (post_after ws) < Suc (length (elems t))" using g(2) length_post [of t] by simp
  then have "rb_walk rb_next_postorder (Suc (length (elems t))) (rb_first_postorder t) = post_elems t"
    unfolding g by (rule walk_postorder)
  moreover have "rb_walk rb_next (Suc (length (elems t))) (rb_first t) = elems t"
    unfolding f(1) by (subst walk_next) (use f(2) in auto)
  ultimately show ?thesis by simp
qed

end
