(* ===== verification/Schedalgo_prm.thy ===== *)
theory Schedalgo_prm
  imports Schedalgo Rbtree
begin

text \<open>
  The rate-monotonic ready queue, \<^verbatim>\<open>core/schedalgo/vmm_schedalgo_prm.c\<close>, the other algorithm the scheduler can be built with:
  per priority a red-black tree of entries ordered by period, and a counter. An entry is the VCPU with the period that
  was stored at enqueue. \<^const>\<open>None\<close> is an access outside the arrays or \<^verbatim>\<open>rb_erase\<close> of a node that is in no tree.
  The names carry the suffix \<open>prm\<close>, since both algorithms define the same functions.
\<close>

type_synonym rq_entry = "nat \<times> u64"

record rq_prm =
  prm_count :: "u32 list"
  prm_root :: "rq_entry rb_tree list"

section \<open>Operations\<close>

definition vmm_schedalgo_rq_length_prm :: "rq_prm option \<Rightarrow> nat \<Rightarrow> int option" where
  "vmm_schedalgo_rq_length_prm rqp p =
     (case rqp of
        None \<Rightarrow> Some (- 1)
      | Some r \<Rightarrow> if p < length (prm_count r) then Some (sint (prm_count r ! p)) else None)"

definition prm_cmp :: "u64 \<Rightarrow> rq_entry \<Rightarrow> rb_dir" where
  "prm_cmp per parent_e = (if per < snd parent_e then Go_left else if snd parent_e \<le> per then Go_right else Stop)"

definition vmm_schedalgo_rq_enqueue_prm ::
  "(nat \<Rightarrow> vcpu) \<Rightarrow> rq_prm option \<Rightarrow> nat option \<Rightarrow> (int \<times> rq_prm option) option" where
  "vmm_schedalgo_rq_enqueue_prm vs rqp vp =
     (case (rqp, vp) of
        (Some r, Some v) \<Rightarrow>
          if \<not> sched_priv (vs v) then Some (VMM_EFAIL, rqp)
          else let p = unat (priority (vs v)); per = periodicity (vs v)
               in if p < length (prm_root r) \<and> p < length (prm_count r) then do {
                    res \<leftarrow> rb_insert_by (prm_cmp per) (v, per) (prm_root r ! p);
                    Some (case res of
                        Inl e \<Rightarrow> (VMM_EFAIL, rqp)
                      | Inr t \<Rightarrow> (VMM_OK, Some (r\<lparr>prm_root := (prm_root r)[p := t],
                          prm_count := (prm_count r)[p := prm_count r ! p + 1]\<rparr>))) }
                  else None
      | _ \<Rightarrow> Some (VMM_EFAIL, rqp))"

text \<open>\<^verbatim>\<open>while (p) { if (rqi->count[p-1]) break; p--; }\<close>\<close>

fun prm_top :: "u32 list \<Rightarrow> nat \<Rightarrow> nat" where
  "prm_top cs 0 = 0"
| "prm_top cs (Suc p) = (if cs ! p \<noteq> 0 then Suc p else prm_top cs p)"

definition vmm_schedalgo_rq_dequeue_prm ::
  "(nat \<Rightarrow> vcpu) \<Rightarrow> rq_prm option \<Rightarrow> (int \<times> (nat \<times> u64) option \<times> rq_prm option) option" where
  "vmm_schedalgo_rq_dequeue_prm vs rqp =
     (case rqp of
        None \<Rightarrow> Some (VMM_EFAIL, None, None)
      | Some r \<Rightarrow>
          if length (prm_count r) \<le> VMM_VCPU_MAX_PRIORITY \<or> length (prm_root r) \<le> VMM_VCPU_MAX_PRIORITY then None
          else let p = prm_top (prm_count r) (VMM_VCPU_MAX_PRIORITY + 1)
               in if p = 0 then Some (VMM_ENOTAVAIL, None, rqp)
                  else (case rb_min (prm_root r ! (p - 1)) of
                      None \<Rightarrow> Some (VMM_ENOTAVAIL, None, rqp)
                    | Some e \<Rightarrow> do {
                        t \<leftarrow> rb_remove e (prm_root r ! (p - 1));
                        Some (VMM_OK, Some (fst e, time_slice (vs (fst e))),
                          Some (r\<lparr>prm_root := (prm_root r)[p - 1 := t],
                            prm_count := (prm_count r)[p - 1 := prm_count r ! (p - 1) - 1]\<rparr>)) }))"

definition vmm_schedalgo_rq_detach_prm ::
  "(nat \<Rightarrow> vcpu) \<Rightarrow> rq_prm option \<Rightarrow> nat option \<Rightarrow> (int \<times> rq_prm option) option" where
  "vmm_schedalgo_rq_detach_prm vs rqp vp =
     (case (rqp, vp) of
        (Some r, Some v) \<Rightarrow>
          if \<not> sched_priv (vs v) then Some (VMM_EFAIL, rqp)
          else let p = unat (priority (vs v))
               in if p < length (prm_root r) \<and> p < length (prm_count r) then do {
                    e \<leftarrow> List.find (\<lambda>e. fst e = v) (elems (prm_root r ! p));
                    t \<leftarrow> rb_remove e (prm_root r ! p);
                    Some (VMM_OK, Some (r\<lparr>prm_root := (prm_root r)[p := t],
                      prm_count := (prm_count r)[p := prm_count r ! p - 1]\<rparr>)) }
                  else None
      | _ \<Rightarrow> Some (VMM_EFAIL, rqp))"

text \<open>\<^verbatim>\<open>while (p > current->priority) { if (rqi->count[p]) ...; p--; }\<close>\<close>

fun prm_higher :: "u32 list \<Rightarrow> nat \<Rightarrow> nat \<Rightarrow> bool" where
  "prm_higher cs 0 cur = False"
| "prm_higher cs (Suc p) cur = (if Suc p > cur then (if cs ! Suc p \<noteq> 0 then True else prm_higher cs p cur) else False)"

definition vmm_schedalgo_rq_prempt_needed_prm :: "(nat \<Rightarrow> vcpu) \<Rightarrow> rq_prm option \<Rightarrow> nat option \<Rightarrow> bool option" where
  "vmm_schedalgo_rq_prempt_needed_prm vs rqp cur =
     (case (rqp, cur) of
        (Some r, Some v) \<Rightarrow>
          if length (prm_count r) \<le> VMM_VCPU_MAX_PRIORITY then None
          else Some (prm_higher (prm_count r) VMM_VCPU_MAX_PRIORITY (unat (priority (vs v))))
      | _ \<Rightarrow> Some False)"

definition vmm_schedalgo_rq_create_prm :: "bool \<Rightarrow> rq_prm option" where
  "vmm_schedalgo_rq_create_prm have_mem =
     (if have_mem then Some \<lparr>prm_count = replicate (VMM_VCPU_MAX_PRIORITY + 1) 0,
        prm_root = replicate (VMM_VCPU_MAX_PRIORITY + 1) RB_NULL\<rparr> else None)"

section \<open>Invariant\<close>

definition prm_wf :: "rq_prm \<Rightarrow> bool" where
  "prm_wf r \<longleftrightarrow> length (prm_count r) = 8 \<and> length (prm_root r) = 8 \<and>
     (\<forall>p < 8. rb_root_ok (prm_root r ! p) \<and> sorted (map snd (elems (prm_root r ! p))) \<and>
        distinct (map fst (elems (prm_root r ! p))) \<and> unat (prm_count r ! p) = length (elems (prm_root r ! p)))"

lemma prm_wfD:
  assumes "prm_wf r" and "p < 8"
  shows "rb_root_ok (prm_root r ! p)" "sorted (map snd (elems (prm_root r ! p)))" "distinct (map fst (elems (prm_root r ! p)))"
    "unat (prm_count r ! p) = length (elems (prm_root r ! p))"
  using assms by (simp_all add: prm_wf_def)

lemma prm_create_wf: "vmm_schedalgo_rq_create_prm True = Some r \<Longrightarrow> prm_wf r"
  by (auto simp: vmm_schedalgo_rq_create_prm_def prm_wf_def rb_root_ok_def)

lemma prm_update_wf:
  assumes "prm_wf r" and "p < 8" and "rb_root_ok t" and "sorted (map snd (elems t))" and "distinct (map fst (elems t))"
    and "unat c = length (elems t)"
  shows "prm_wf (r\<lparr>prm_root := (prm_root r)[p := t], prm_count := (prm_count r)[p := c]\<rparr>)"
  using assms by (auto simp: prm_wf_def nth_list_update)

lemma prm_cmp_eq: "prm_cmp per = (\<lambda>e. if per < snd e then Go_left else Go_right)"
  by (auto simp: prm_cmp_def fun_eq_iff not_less)

lemma prm_top_spec:
  "prm_top cs n = 0 \<and> (\<forall>p < n. cs ! p = 0) \<or>
   (\<exists>p. prm_top cs n = Suc p \<and> p < n \<and> cs ! p \<noteq> 0 \<and> (\<forall>p'. p < p' \<and> p' < n \<longrightarrow> cs ! p' = 0))"
proof (induction n)
  case (Suc n)
  then show ?case by (auto simp: less_Suc_eq)
qed simp

lemma prm_count_0: "prm_wf r \<Longrightarrow> p < 8 \<Longrightarrow> prm_count r ! p = 0 \<longleftrightarrow> elems (prm_root r ! p) = []"
  using prm_wfD(4) [of r p] by (metis length_0_conv unat_eq_zero)

section \<open>Properties\<close>

text \<open>
  Further fact: rate-monotonic order. Enqueue keeps the queue of the VCPU's priority sorted by period and puts the VCPU
  behind those of the same period; the tree stays balanced and the counter exact.
\<close>
theorem prm_enqueue_sorted:
  assumes "prm_wf r" and "rq_ok vs v" and "\<forall>e \<in> set (elems (prm_root r ! rq_prio vs v)). fst e \<noteq> v"
    and "length (elems (prm_root r ! rq_prio vs v)) < 2 ^ 32 - 1"
  shows "\<exists>r'. vmm_schedalgo_rq_enqueue_prm vs (Some r) (Some v) = Some (VMM_OK, Some r') \<and> prm_wf r' \<and>
    elems (prm_root r' ! rq_prio vs v) =
      filter (\<lambda>e. snd e \<le> periodicity (vs v)) (elems (prm_root r ! rq_prio vs v)) @ (v, periodicity (vs v)) #
      filter (\<lambda>e. periodicity (vs v) < snd e) (elems (prm_root r ! rq_prio vs v))"
proof -
  let ?p = "rq_prio vs v" and ?per = "periodicity (vs v)"
  let ?l = "elems (prm_root r ! ?p)"
  have p: "?p < 8" "sched_priv (vs v)" using assms(2) by (simp_all add: rq_ok_def)
  note wf = prm_wfD [OF assms(1) p(1)]
  obtain t where t: "rb_insert_by (prm_cmp ?per) (v, ?per) (prm_root r ! ?p) = Some (Inr t)" "rb_root_ok t"
    "elems t = filter (\<lambda>e. snd e \<le> ?per) ?l @ (v, ?per) # filter (\<lambda>e. ?per < snd e) ?l" "sorted (map snd (elems t))"
    using rb.ins_key [OF wf(1,2), of "(v, ?per)"] by (auto simp: prm_cmp_eq)
  have "mset (elems t) = add_mset (v, ?per) (mset ?l)"
    by (simp add: t(3) multiset_filter_mono not_le [symmetric] flip: multiset_partition)
  then have len: "length (elems t) = Suc (length ?l)" and fm: "mset (map fst (elems t)) = add_mset v (mset (map fst ?l))"
    by (metis size_add_mset size_mset, simp)
  have "distinct (v # map fst ?l)" using wf(3) assms(3) by auto
  then have d: "distinct (map fst (elems t))" using fm by (metis mset.simps(2) mset_eq_imp_distinct_iff)
  have c: "unat (prm_count r ! ?p + 1) = length (elems t)"
    using wf(4) assms(4) len by (subst unat_plus_if') auto
  show ?thesis
    using t p assms(1) prm_update_wf [OF assms(1) p(1) t(2,4) d c]
    by (auto simp: vmm_schedalgo_rq_enqueue_prm_def rq_prio_def Let_def prm_wf_def)
qed

definition prm_example :: rq_prm where
  "prm_example = \<lparr>prm_count = [0, 0, 0, 2, 0, 0, 0, 0],
     prm_root = [RB_NULL, RB_NULL, RB_NULL,
       Rb_node RB_BLACK (Rb_node RB_RED RB_NULL (4, 500) RB_NULL) (5, 1000) RB_NULL, RB_NULL, RB_NULL, RB_NULL, RB_NULL]\<rparr>"

lemma all_less_8: "(\<forall>p < 8. P p) \<longleftrightarrow> P 0 \<and> P 1 \<and> P 2 \<and> P 3 \<and> P 4 \<and> P 5 \<and> P 6 \<and> P (7 :: nat)"
  by (simp add: numeral_eq_Suc All_less_Suc) blast

lemma prm_example_wf: "prm_wf prm_example"
proof -
  have "rb_root_ok (Rb_node RB_BLACK (Rb_node RB_RED RB_NULL (4, 500) RB_NULL) (5, 1000) RB_NULL :: rq_entry rb_tree)"
    unfolding rb_root_ok_def by (intro conjI exI [of _ 1]) simp_all
  moreover have "rb_root_ok RB_NULL" by (simp add: rb_root_ok_def)
  ultimately show ?thesis unfolding prm_wf_def all_less_8 by (simp add: prm_example_def)
qed

theorem prm_enqueue_sorted_witness:
  "\<exists>r'. vmm_schedalgo_rq_enqueue_prm (\<lambda>v. example_vcpu) (Some prm_example) (Some 7) = Some (VMM_OK, Some r') \<and>
     elems (prm_root r' ! 3) = [(4, 500), (5, 1000), (7, 1000)]"
proof -
  have p: "rq_prio (\<lambda>v. example_vcpu) 7 = 3" "rq_ok (\<lambda>v. example_vcpu) 7"
    by (simp_all add: rq_prio_def rq_ok_def example_vcpu_def)
  have e: "elems (prm_root prm_example ! 3) = [(4, 500), (5, 1000)]" by (simp add: prm_example_def)
  have per: "periodicity example_vcpu = 1000" by (simp add: example_vcpu_def)
  from prm_enqueue_sorted [OF prm_example_wf p(2)] show ?thesis unfolding p(1) e per by auto
qed

text \<open>
  Property C29: dequeue under rate-monotonic scheduling. With VCPUs in the queue, dequeue returns and takes out the VCPU of
  the highest priority in use that has the shortest period, the longest waiting one among equals.
\<close>
theorem prm_dequeue_shortest_period:
  assumes "prm_wf r" and "q < 8" and "e \<in> set (elems (prm_root r ! q))"
  shows "\<exists>v per p r'. vmm_schedalgo_rq_dequeue_prm vs (Some r) = Some (VMM_OK, Some (v, time_slice (vs v)), Some r') \<and>
    prm_wf r' \<and> p < 8 \<and> elems (prm_root r ! p) = (v, per) # elems (prm_root r' ! p) \<and>
    (\<forall>p'. p' \<noteq> p \<longrightarrow> prm_root r' ! p' = prm_root r ! p') \<and> q \<le> p \<and> (q = p \<longrightarrow> per \<le> snd e)"
proof -
  have len: "length (prm_count r) = 8" "length (prm_root r) = 8" using assms(1) by (simp_all add: prm_wf_def)
  have "prm_count r ! q \<noteq> 0" using prm_count_0 [OF assms(1,2)] assms(3) by auto
  then obtain p where p: "prm_top (prm_count r) 8 = Suc p" "p < 8" "prm_count r ! p \<noteq> 0"
    "\<forall>p'. p < p' \<and> p' < 8 \<longrightarrow> prm_count r ! p' = 0"
    using prm_top_spec [of "prm_count r" 8] assms(2) by auto
  note wf = prm_wfD [OF assms(1) p(2)]
  have "elems (prm_root r ! p) \<noteq> []" using prm_count_0 [OF assms(1) p(2)] p(3) by simp
  then obtain x where x: "rb_min (prm_root r ! p) = Some x" using rb.least_hd [OF wf(1)] by (auto split: list.splits)
  have "distinct (elems (prm_root r ! p))" using wf(3) by (simp add: distinct_map)
  then obtain t where t: "rb_remove x (prm_root r ! p) = Some t" "rb_root_ok t" "elems (prm_root r ! p) = x # elems t"
    using rb.del_least [OF wf(1) _ x] by blast
  have c: "unat (prm_count r ! p - 1) = length (elems t)"
    using wf(4) t(3) p(3) by (simp add: unat_minus_1)
  let ?r = "r\<lparr>prm_root := (prm_root r)[p := t], prm_count := (prm_count r)[p := prm_count r ! p - 1]\<rparr>"
  have w: "prm_wf ?r" using prm_update_wf [OF assms(1) p(2) t(2) _ _ c] wf(2,3) t(3) by simp
  have d: "vmm_schedalgo_rq_dequeue_prm vs (Some r) = Some (VMM_OK, Some (fst x, time_slice (vs (fst x))), Some ?r)"
    using len p(1) x t(1) by (simp add: vmm_schedalgo_rq_dequeue_prm_def)
  have q: "q \<le> p" using p(4) assms(2) \<open>prm_count r ! q \<noteq> 0\<close> by (meson not_le)
  have "q = p \<longrightarrow> snd x \<le> snd e" using assms(3) wf(2) t(3) by auto
  then show ?thesis
    using d w p(2) t(3) q len(2)
    by (intro exI [of _ "fst x"] exI [of _ "snd x"] exI [of _ p] exI [of _ ?r]) (simp add: nth_list_update)
qed

theorem prm_dequeue_shortest_period_witness:
  "\<exists>v per p r'. vmm_schedalgo_rq_dequeue_prm (\<lambda>v. example_vcpu) (Some prm_example) = Some (VMM_OK, Some (v, 1000), Some r') \<and>
     3 \<le> p \<and> elems (prm_root prm_example ! p) = (v, per) # elems (prm_root r' ! p)"
proof -
  have "(5, 1000) \<in> set (elems (prm_root prm_example ! 3))" by (simp add: prm_example_def)
  moreover have "time_slice example_vcpu = 1000" by (simp add: example_vcpu_def)
  ultimately show ?thesis using prm_dequeue_shortest_period [OF prm_example_wf, of 3 "(5, 1000)" "\<lambda>v. example_vcpu"] by force
qed

end
