(* ===== verification/Bitmap.thy ===== *)
theory Bitmap
  imports Prelude "HOL-Library.Monad_Syntax"
begin

text \<open>
  Bit arrays over \<^verbatim>\<open>unsigned long\<close> words: \<^verbatim>\<open>libs/common/bitmap.c\<close> and the inline
  functions of \<^verbatim>\<open>libs/include/libs/bitmap.h\<close> that the host RAM allocator uses. A bitmap
  is the list of its words and an access outside it is \<^const>\<open>None\<close>. The C \<^verbatim>\<open>int\<close> sizes and
  positions are naturals: the callers pass non-negative values far below \<^verbatim>\<open>INT_MAX\<close>.
  A function whose name starts with two underscores in C carries the suffix \<open>_raw\<close> here.

  Each operation is characterised by its effect on the single bits (\<open>bm_bit\<close>), which is the
  level at which the clients reason.
\<close>

section \<open>Words and masks\<close>

type_synonym bitmap = "ulong list"

definition BITS_PER_LONG :: nat where [simp]: "BITS_PER_LONG = 64"

definition BITS_TO_LONGS :: "nat \<Rightarrow> nat" where
  "BITS_TO_LONGS nbits = (nbits + BITS_PER_LONG - 1) div BITS_PER_LONG"

definition BIT_WORD :: "nat \<Rightarrow> nat" where
  "BIT_WORD n = n div BITS_PER_LONG"

definition BIT_WORD_OFFSET :: "nat \<Rightarrow> nat" where
  "BIT_WORD_OFFSET n = n mod BITS_PER_LONG"

definition BITMAP_LAST_WORD_MASK :: "nat \<Rightarrow> ulong" where
  "BITMAP_LAST_WORD_MASK nbits =
     (if nbits mod BITS_PER_LONG \<noteq> 0 then push_bit (nbits mod BITS_PER_LONG) 1 - 1 else NOT 0)"

definition bm_rd :: "bitmap \<Rightarrow> nat \<Rightarrow> ulong option" where
  "bm_rd b k = (if k < length b then Some (b ! k) else None)"

definition bm_wr :: "bitmap \<Rightarrow> nat \<Rightarrow> ulong \<Rightarrow> bitmap option" where
  "bm_wr b k w = (if k < length b then Some (b[k := w]) else None)"

section \<open>Inline operations\<close>

definition bitmap_estimate_size :: "nat \<Rightarrow> nat" where
  "bitmap_estimate_size nbits = BITS_TO_LONGS nbits * 8"

definition bitmap_isset :: "bitmap \<Rightarrow> nat \<Rightarrow> bool option" where
  "bitmap_isset b n = do {
     w \<leftarrow> bm_rd b (BIT_WORD n);
     Some (if w AND push_bit (BIT_WORD_OFFSET n) 1 \<noteq> 0 then True else False) }"

definition bitmap_setbit :: "bitmap \<Rightarrow> nat \<Rightarrow> bitmap option" where
  "bitmap_setbit b n = do {
     w \<leftarrow> bm_rd b (BIT_WORD n);
     bm_wr b (BIT_WORD n) (w OR push_bit (BIT_WORD_OFFSET n) 1) }"

definition bitmap_clearbit :: "bitmap \<Rightarrow> nat \<Rightarrow> bitmap option" where
  "bitmap_clearbit b n = do {
     w \<leftarrow> bm_rd b (BIT_WORD n);
     bm_wr b (BIT_WORD n) (w AND NOT (push_bit (BIT_WORD_OFFSET n) 1)) }"

fun bitmap_set :: "bitmap \<Rightarrow> nat \<Rightarrow> nat \<Rightarrow> bitmap option" where
  "bitmap_set b start 0 = Some b"
| "bitmap_set b start (Suc len) = do {
     b' \<leftarrow> bitmap_setbit b start;
     bitmap_set b' (Suc start) len }"

fun bitmap_clear :: "bitmap \<Rightarrow> nat \<Rightarrow> nat \<Rightarrow> bitmap option" where
  "bitmap_clear b start 0 = Some b"
| "bitmap_clear b start (Suc len) = do {
     b' \<leftarrow> bitmap_clearbit b start;
     bitmap_clear b' (Suc start) len }"

definition bitmap_zero :: "bitmap \<Rightarrow> nat \<Rightarrow> bitmap option" where
  "bitmap_zero dst nbits =
     (let n = BITS_TO_LONGS nbits
      in if n \<le> length dst then Some (replicate n 0 @ drop n dst) else None)"

definition bitmap_fill :: "bitmap \<Rightarrow> nat \<Rightarrow> bitmap option" where
  "bitmap_fill dst nbits =
     (let n = BITS_TO_LONGS nbits
      in if 0 < n \<and> n \<le> length dst
         then Some ((replicate (n - 1) (NOT 0) @ drop (n - 1) dst)[n - 1 := BITMAP_LAST_WORD_MASK nbits])
         else None)"

section \<open>Scans\<close>

text \<open>
  \<^verbatim>\<open>for (k = 0; k < lim; ++k) if (...) return\<close>: \<open>scan p k n\<close> looks at \<open>n\<close> words from \<open>k\<close>
  on and stops at the first that fails \<open>p\<close>.
\<close>

fun scan :: "(nat \<Rightarrow> bool option) \<Rightarrow> nat \<Rightarrow> nat \<Rightarrow> bool option" where
  "scan p k 0 = Some True"
| "scan p k (Suc n) = do { ok \<leftarrow> p k; if ok then scan p (Suc k) n else Some False }"

definition scan_words :: "(nat \<Rightarrow> bool option) \<Rightarrow> (nat \<Rightarrow> bool option) \<Rightarrow> nat \<Rightarrow> bool option" where
  "scan_words p p_last bits = do {
     ok \<leftarrow> scan p 0 (bits div BITS_PER_LONG);
     if \<not> ok then Some False
     else if bits mod BITS_PER_LONG \<noteq> 0 then p_last (bits div BITS_PER_LONG)
     else Some True }"

definition bitmap_empty_raw :: "bitmap \<Rightarrow> nat \<Rightarrow> bool option" where
  "bitmap_empty_raw b bits =
     scan_words (\<lambda>k. do { w \<leftarrow> bm_rd b k; Some (w = 0) })
       (\<lambda>k. do { w \<leftarrow> bm_rd b k; Some (w AND BITMAP_LAST_WORD_MASK bits = 0) }) bits"

definition bitmap_full_raw :: "bitmap \<Rightarrow> nat \<Rightarrow> bool option" where
  "bitmap_full_raw b bits =
     scan_words (\<lambda>k. do { w \<leftarrow> bm_rd b k; Some (NOT w = 0) })
       (\<lambda>k. do { w \<leftarrow> bm_rd b k; Some (NOT w AND BITMAP_LAST_WORD_MASK bits = 0) }) bits"

definition bitmap_equal_raw :: "bitmap \<Rightarrow> bitmap \<Rightarrow> nat \<Rightarrow> bool option" where
  "bitmap_equal_raw b1 b2 bits =
     scan_words (\<lambda>k. do { w1 \<leftarrow> bm_rd b1 k; w2 \<leftarrow> bm_rd b2 k; Some (w1 = w2) })
       (\<lambda>k. do { w1 \<leftarrow> bm_rd b1 k; w2 \<leftarrow> bm_rd b2 k;
                 Some ((w1 XOR w2) AND BITMAP_LAST_WORD_MASK bits = 0) }) bits"

definition bitmap_intersects_raw :: "bitmap \<Rightarrow> bitmap \<Rightarrow> nat \<Rightarrow> bool option" where
  "bitmap_intersects_raw b1 b2 bits =
     map_option Not
       (scan_words (\<lambda>k. do { w1 \<leftarrow> bm_rd b1 k; w2 \<leftarrow> bm_rd b2 k; Some (w1 AND w2 = 0) })
         (\<lambda>k. do { w1 \<leftarrow> bm_rd b1 k; w2 \<leftarrow> bm_rd b2 k;
                   Some ((w1 AND w2) AND BITMAP_LAST_WORD_MASK bits = 0) }) bits)"

definition bitmap_subset_raw :: "bitmap \<Rightarrow> bitmap \<Rightarrow> nat \<Rightarrow> bool option" where
  "bitmap_subset_raw b1 b2 bits =
     scan_words (\<lambda>k. do { w1 \<leftarrow> bm_rd b1 k; w2 \<leftarrow> bm_rd b2 k; Some (w1 AND NOT w2 = 0) })
       (\<lambda>k. do { w1 \<leftarrow> bm_rd b1 k; w2 \<leftarrow> bm_rd b2 k;
                 Some ((w1 AND NOT w2) AND BITMAP_LAST_WORD_MASK bits = 0) }) bits"

section \<open>Word-wise logic\<close>

text \<open>
  \<^verbatim>\<open>for (k = 0; k < nr; k++) result |= (dst[k] = f(bitmap1[k], bitmap2[k]))\<close>, from word \<open>k\<close>
  for \<open>n\<close> words.
\<close>

fun zip_words :: "(ulong \<Rightarrow> ulong \<Rightarrow> ulong) \<Rightarrow> bitmap \<Rightarrow> bitmap \<Rightarrow> bitmap \<Rightarrow> ulong \<Rightarrow> nat \<Rightarrow> nat
    \<Rightarrow> (ulong \<times> bitmap) option" where
  "zip_words f dst b1 b2 acc k 0 = Some (acc, dst)"
| "zip_words f dst b1 b2 acc k (Suc n) = do {
     w1 \<leftarrow> bm_rd b1 k; w2 \<leftarrow> bm_rd b2 k;
     dst' \<leftarrow> bm_wr dst k (f w1 w2);
     zip_words f dst' b1 b2 (acc OR f w1 w2) (Suc k) n }"

definition bitmap_and_raw :: "bitmap \<Rightarrow> bitmap \<Rightarrow> bitmap \<Rightarrow> nat \<Rightarrow> (bool \<times> bitmap) option" where
  "bitmap_and_raw dst b1 b2 bits = do {
     (r, d) \<leftarrow> zip_words (AND) dst b1 b2 0 0 (BITS_TO_LONGS bits); Some (r \<noteq> 0, d) }"

definition bitmap_or_raw :: "bitmap \<Rightarrow> bitmap \<Rightarrow> bitmap \<Rightarrow> nat \<Rightarrow> bitmap option" where
  "bitmap_or_raw dst b1 b2 bits = do {
     (r, d) \<leftarrow> zip_words (OR) dst b1 b2 0 0 (BITS_TO_LONGS bits); Some d }"

definition bitmap_xor_raw :: "bitmap \<Rightarrow> bitmap \<Rightarrow> bitmap \<Rightarrow> nat \<Rightarrow> bitmap option" where
  "bitmap_xor_raw dst b1 b2 bits = do {
     (r, d) \<leftarrow> zip_words (XOR) dst b1 b2 0 0 (BITS_TO_LONGS bits); Some d }"

definition bitmap_andnot_raw :: "bitmap \<Rightarrow> bitmap \<Rightarrow> bitmap \<Rightarrow> nat \<Rightarrow> (bool \<times> bitmap) option" where
  "bitmap_andnot_raw dst b1 b2 bits = do {
     (r, d) \<leftarrow> zip_words (\<lambda>x y. x AND NOT y) dst b1 b2 0 0 (BITS_TO_LONGS bits); Some (r \<noteq> 0, d) }"

fun complement_words :: "bitmap \<Rightarrow> bitmap \<Rightarrow> nat \<Rightarrow> nat \<Rightarrow> bitmap option" where
  "complement_words dst src k 0 = Some dst"
| "complement_words dst src k (Suc n) = do {
     w \<leftarrow> bm_rd src k; dst' \<leftarrow> bm_wr dst k (NOT w); complement_words dst' src (Suc k) n }"

definition bitmap_complement_raw :: "bitmap \<Rightarrow> bitmap \<Rightarrow> nat \<Rightarrow> bitmap option" where
  "bitmap_complement_raw dst src bits = do {
     d \<leftarrow> complement_words dst src 0 (bits div BITS_PER_LONG);
     if bits mod BITS_PER_LONG \<noteq> 0 then do {
       w \<leftarrow> bm_rd src (bits div BITS_PER_LONG);
       bm_wr d (bits div BITS_PER_LONG) (NOT w AND BITMAP_LAST_WORD_MASK bits) }
     else Some d }"

section \<open>Population count\<close>

text \<open>The variant without \<^verbatim>\<open>ARCH_HAS_FAST_MULTIPLIER\<close>.\<close>

definition bitmap_sw_hweight32 :: "u32 \<Rightarrow> u32" where
  "bitmap_sw_hweight32 w =
     (let res = w - (drop_bit 1 w AND 0x55555555);
          res = (res AND 0x33333333) + (drop_bit 2 res AND 0x33333333);
          res = (res + drop_bit 4 res) AND 0x0F0F0F0F;
          res = res + drop_bit 8 res
      in (res + drop_bit 16 res) AND 0x000000FF)"

text \<open>
  The argument of \<^verbatim>\<open>__bitmap_sw_hweight32\<close> is a \<^verbatim>\<open>u32\<close>, so the \<^verbatim>\<open>unsigned long\<close> word is
  converted to its low 32 bits.
\<close>

fun weight_words :: "bitmap \<Rightarrow> nat \<Rightarrow> nat \<Rightarrow> nat \<Rightarrow> nat option" where
  "weight_words b w k 0 = Some w"
| "weight_words b w k (Suc n) = do {
     x \<leftarrow> bm_rd b k;
     weight_words b (w + unat (bitmap_sw_hweight32 (ucast x))) (Suc k) n }"

definition bitmap_weight_raw :: "bitmap \<Rightarrow> nat \<Rightarrow> nat option" where
  "bitmap_weight_raw b bits = do {
     w \<leftarrow> weight_words b 0 0 (bits div BITS_PER_LONG);
     if bits mod BITS_PER_LONG \<noteq> 0 then do {
       x \<leftarrow> bm_rd b (bits div BITS_PER_LONG);
       Some (w + unat (bitmap_sw_hweight32 (ucast (x AND BITMAP_LAST_WORD_MASK bits)))) }
     else Some w }"

section \<open>Regions\<close>

datatype reg_op = REG_OP_ISFREE | REG_OP_ALLOC | REG_OP_RELEASE

definition reg_mask :: "nat \<Rightarrow> nat \<Rightarrow> ulong" where
  "reg_mask pos order =
     (let nbits_reg = 2 ^ order;
          index = pos div BITS_PER_LONG;
          offset = pos - index * BITS_PER_LONG;
          nbitsinlong = min nbits_reg BITS_PER_LONG;
          m = push_bit (nbitsinlong - 1) 1;
          m = m + (m - 1)
      in push_bit offset m)"

fun reg_words :: "(ulong \<Rightarrow> ulong) \<Rightarrow> bitmap \<Rightarrow> nat \<Rightarrow> nat \<Rightarrow> bitmap option" where
  "reg_words f b k 0 = Some b"
| "reg_words f b k (Suc n) = do {
     w \<leftarrow> bm_rd b k; b' \<leftarrow> bm_wr b k (f w); reg_words f b' (Suc k) n }"

definition reg_op_raw :: "bitmap \<Rightarrow> nat \<Rightarrow> nat \<Rightarrow> reg_op \<Rightarrow> (bool \<times> bitmap) option" where
  "reg_op_raw b pos order op =
     (let nlongs_reg = BITS_TO_LONGS (2 ^ order);
          index = pos div BITS_PER_LONG;
          mask = reg_mask pos order
      in case op of
           REG_OP_ISFREE \<Rightarrow> do {
             r \<leftarrow> scan (\<lambda>k. do { w \<leftarrow> bm_rd b k; Some (w AND mask = 0) }) index nlongs_reg;
             Some (r, b) }
         | REG_OP_ALLOC \<Rightarrow> do { b' \<leftarrow> reg_words (\<lambda>w. w OR mask) b index nlongs_reg; Some (False, b') }
         | REG_OP_RELEASE \<Rightarrow> do { b' \<leftarrow> reg_words (\<lambda>w. w AND NOT mask) b index nlongs_reg; Some (False, b') })"

text \<open>The search visits \<^verbatim>\<open>pos = 0, 2^order, 2 * 2^order, ...\<close> while the region fits.\<close>

function find_free_from :: "bitmap \<Rightarrow> nat \<Rightarrow> nat \<Rightarrow> nat \<Rightarrow> (int \<times> bitmap) option" where
  "find_free_from b bits order pos =
     (if pos + 2 ^ order \<le> bits then
        (case map_option fst (reg_op_raw b pos order REG_OP_ISFREE) of
           None \<Rightarrow> None
         | Some free \<Rightarrow>
             if \<not> free then find_free_from b bits order (pos + 2 ^ order)
             else do { (r, b') \<leftarrow> reg_op_raw b pos order REG_OP_ALLOC; Some (int pos, b') })
      else Some (VMM_ENOMEM, b))"
  by pat_completeness auto
termination
  by (relation "measure (\<lambda>(b, bits, order, pos). bits - pos)") (auto simp: less_diff_conv2)

declare find_free_from.simps [simp del]

definition bitmap_find_free_region :: "bitmap \<Rightarrow> nat \<Rightarrow> nat \<Rightarrow> (int \<times> bitmap) option" where
  "bitmap_find_free_region b bits order = find_free_from b bits order 0"

definition bitmap_release_region :: "bitmap \<Rightarrow> nat \<Rightarrow> nat \<Rightarrow> bitmap option" where
  "bitmap_release_region b pos order = map_option snd (reg_op_raw b pos order REG_OP_RELEASE)"

definition bitmap_allocate_region :: "bitmap \<Rightarrow> nat \<Rightarrow> nat \<Rightarrow> (int \<times> bitmap) option" where
  "bitmap_allocate_region b pos order = do {
     (free, b0) \<leftarrow> reg_op_raw b pos order REG_OP_ISFREE;
     if \<not> free then Some (VMM_ENOTAVAIL, b)
     else do { (r, b') \<leftarrow> reg_op_raw b pos order REG_OP_ALLOC; Some (0, b') } }"

section \<open>Single bits\<close>

definition bm_bit :: "bitmap \<Rightarrow> nat \<Rightarrow> bool" where
  "bm_bit b i = bit (b ! (i div 64)) (i mod 64)"

lemma bm_rd_Some [simp]: "k < length b \<Longrightarrow> bm_rd b k = Some (b ! k)"
  by (simp add: bm_rd_def)

lemma bm_wr_Some [simp]: "k < length b \<Longrightarrow> bm_wr b k w = Some (b[k := w])"
  by (simp add: bm_wr_def)

lemma bm_bit_word: "j < 64 \<Longrightarrow> bm_bit b (64 * k + j) = bit (b ! k) j"
  by (simp add: bm_bit_def)

lemma word_index_less: "i < 64 * n \<Longrightarrow> i div 64 < (n :: nat)"
  by (simp add: less_mult_imp_div_less mult.commute)

lemma bm_bit_update:
  assumes "k < length b"
  shows "bm_bit (b[k := w]) i = (if i div 64 = k then bit w (i mod 64) else bm_bit b i)"
  using assms by (simp add: bm_bit_def nth_list_update)

lemma bit_exp_ulong [simp]: "bit (2 ^ k :: ulong) j \<longleftrightarrow> j = k \<and> j < 64"
  by (auto simp: bit_exp_iff)

lemma bitmap_isset_bit [simp]:
  "n < 64 * length b \<Longrightarrow> bitmap_isset b n = Some (bm_bit b n)"
  by (simp add: bitmap_isset_def BIT_WORD_def BIT_WORD_OFFSET_def word_index_less bm_bit_def
      bit_iff_and_push_bit_not_eq_0)

lemma bitmap_setbit_bits:
  assumes "n < 64 * length b"
  shows "\<exists>b'. bitmap_setbit b n = Some b' \<and> length b' = length b \<and>
     (\<forall>i. bm_bit b' i \<longleftrightarrow> i = n \<or> bm_bit b i)"
proof -
  have k: "n div 64 < length b" using assms by (rule word_index_less)
  have "i = n" if "i div 64 = n div 64" "i mod 64 = n mod 64" for i
    using that by (metis div_mult_mod_eq)
  with k show ?thesis
    by (auto simp: bitmap_setbit_def BIT_WORD_def BIT_WORD_OFFSET_def bm_bit_update bit_or_iff
        bm_bit_def [of b])
qed

lemma bitmap_clearbit_bits:
  assumes "n < 64 * length b"
  shows "\<exists>b'. bitmap_clearbit b n = Some b' \<and> length b' = length b \<and>
     (\<forall>i. bm_bit b' i \<longleftrightarrow> i \<noteq> n \<and> bm_bit b i)"
proof -
  have k: "n div 64 < length b" using assms by (rule word_index_less)
  have "i = n" if "i div 64 = n div 64" "i mod 64 = n mod 64" for i
    using that by (metis div_mult_mod_eq)
  with k show ?thesis
    by (auto simp: bitmap_clearbit_def BIT_WORD_def BIT_WORD_OFFSET_def bm_bit_update bit_and_iff
        bit_not_iff bm_bit_def [of b])
qed

lemma bitmap_set_bits:
  "start + len \<le> 64 * length b \<Longrightarrow>
   \<exists>b'. bitmap_set b start len = Some b' \<and> length b' = length b \<and>
     (\<forall>i. bm_bit b' i \<longleftrightarrow> start \<le> i \<and> i < start + len \<or> bm_bit b i)"
proof (induction len arbitrary: b start)
  case 0
  then show ?case by auto
next
  case (Suc len)
  obtain b1 where b1: "bitmap_setbit b start = Some b1" "length b1 = length b"
    "\<And>i. bm_bit b1 i \<longleftrightarrow> i = start \<or> bm_bit b i"
    using bitmap_setbit_bits [of start b] Suc.prems by auto
  from Suc.IH [of "Suc start" b1] Suc.prems b1(2) obtain b2 where
    b2: "bitmap_set b1 (Suc start) len = Some b2" "length b2 = length b"
    "\<And>i. bm_bit b2 i \<longleftrightarrow> Suc start \<le> i \<and> i < Suc start + len \<or> bm_bit b1 i"
    by auto
  have "bm_bit b2 i \<longleftrightarrow> start \<le> i \<and> i < start + Suc len \<or> bm_bit b i" for i
    unfolding b2(3) b1(3) by auto
  with b1(1) b2(1,2) show ?case by simp
qed

lemma bitmap_clear_bits:
  "start + len \<le> 64 * length b \<Longrightarrow>
   \<exists>b'. bitmap_clear b start len = Some b' \<and> length b' = length b \<and>
     (\<forall>i. bm_bit b' i \<longleftrightarrow> \<not> (start \<le> i \<and> i < start + len) \<and> bm_bit b i)"
proof (induction len arbitrary: b start)
  case 0
  then show ?case by auto
next
  case (Suc len)
  obtain b1 where b1: "bitmap_clearbit b start = Some b1" "length b1 = length b"
    "\<And>i. bm_bit b1 i \<longleftrightarrow> i \<noteq> start \<and> bm_bit b i"
    using bitmap_clearbit_bits [of start b] Suc.prems by auto
  from Suc.IH [of "Suc start" b1] Suc.prems b1(2) obtain b2 where
    b2: "bitmap_clear b1 (Suc start) len = Some b2" "length b2 = length b"
    "\<And>i. bm_bit b2 i \<longleftrightarrow> \<not> (Suc start \<le> i \<and> i < Suc start + len) \<and> bm_bit b1 i"
    by auto
  have "bm_bit b2 i \<longleftrightarrow> \<not> (start \<le> i \<and> i < start + Suc len) \<and> bm_bit b i" for i
    unfolding b2(3) b1(3) by auto
  with b1(1) b2(1,2) show ?case by simp
qed

lemma bitmap_zero_bits:
  assumes "BITS_TO_LONGS nbits \<le> length b"
  shows "\<exists>b'. bitmap_zero b nbits = Some b' \<and> length b' = length b \<and>
     (\<forall>i < nbits. \<not> bm_bit b' i)"
proof -
  have "i div 64 < BITS_TO_LONGS nbits" if "i < nbits" for i
    using that unfolding BITS_TO_LONGS_def BITS_PER_LONG_def by simp
  with assms show ?thesis
    by (auto simp: bitmap_zero_def Let_def bm_bit_def nth_append)
qed

section \<open>Scans decide bit-level predicates\<close>

lemma scan_forall:
  "(\<And>i. k \<le> i \<Longrightarrow> i < k + n \<Longrightarrow> p i = Some (q i)) \<Longrightarrow>
   scan p k n = Some (\<forall>i. k \<le> i \<and> i < k + n \<longrightarrow> q i)"
proof (induction n arbitrary: k)
  case 0
  then show ?case by auto
next
  case (Suc n)
  have "scan p (Suc k) n = Some (\<forall>i. Suc k \<le> i \<and> i < Suc k + n \<longrightarrow> q i)"
    using Suc.prems by (intro Suc.IH) auto
  moreover have "(\<forall>i. k \<le> i \<and> i < k + Suc n \<longrightarrow> q i) \<longleftrightarrow>
      q k \<and> (\<forall>i. Suc k \<le> i \<and> i < Suc k + n \<longrightarrow> q i)"
    by (metis Suc_leD Suc_le_eq add_Suc_right add_Suc_shift le_add1 le_neq_implies_less lessI
        less_le_trans order_refl add_Suc)
  ultimately show ?case using Suc.prems [of k] by simp
qed

lemma split_words: "(\<forall>i < bits. q i) \<longleftrightarrow>
    (\<forall>k < bits div 64. \<forall>j < 64. q (64 * k + j)) \<and> (\<forall>j < bits mod 64. q (64 * (bits div 64) + j))"
    (is "?l \<longleftrightarrow> ?r") for bits :: nat
proof
  assume ?l
  then show ?r
  proof (intro conjI allI impI)
    fix k j :: nat assume "k < bits div 64" "j < 64"
    then have "64 * k + j < bits" by linarith
    with \<open>?l\<close> show "q (64 * k + j)" by blast
  next
    fix j assume "j < bits mod 64"
    then have "64 * (bits div 64) + j < bits"
      by (metis add_less_cancel_left mult_div_mod_eq)
    with \<open>?l\<close> show "q (64 * (bits div 64) + j)" by blast
  qed
next
  assume r: ?r
  show ?l
  proof (intro allI impI)
    fix i assume i: "i < bits"
    have "q (64 * (i div 64) + i mod 64)"
    proof (cases "i div 64 < bits div 64")
      case True
      show ?thesis by (rule r [THEN conjunct1, rule_format, OF True]) simp
    next
      case False
      with i have "i div 64 = bits div 64" by (meson div_le_mono less_imp_le_nat linorder_neqE_nat not_le)
      moreover from this i have "i mod 64 < bits mod 64"
        by (metis add_less_cancel_left mult_div_mod_eq)
      ultimately show ?thesis using r by metis
    qed
    then show "q i" by simp
  qed
qed

lemma scan_words_forall:
  assumes "\<And>k. k < bits div 64 \<Longrightarrow> p k = Some (\<forall>j < 64. q (64 * k + j))"
    and "bits mod 64 \<noteq> 0 \<Longrightarrow> pl (bits div 64) = Some (\<forall>j < bits mod 64. q (64 * (bits div 64) + j))"
  shows "scan_words p pl bits = Some (\<forall>i < bits. q i)"
proof -
  have "scan p 0 (bits div 64) = Some (\<forall>k < bits div 64. \<forall>j < 64. q (64 * k + j))"
    using scan_forall [of 0 "bits div 64" p "\<lambda>k. \<forall>j < 64. q (64 * k + j)"] assms(1) by simp
  then show ?thesis
    using assms(2) by (auto simp: scan_words_def split_words [of bits q])
qed

lemma word_zero_bits: "w = 0 \<longleftrightarrow> (\<forall>j < 64. \<not> bit w j)" for w :: ulong
proof
  assume z: "\<forall>j < 64. \<not> bit w j"
  show "w = 0"
  proof (rule bit_eqI)
    fix n assume "possible_bit TYPE(ulong) n"
    then have "n < 64" by simp
    with z show "bit w n \<longleftrightarrow> bit (0 :: ulong) n" by simp
  qed
qed simp

lemma word_eq_bits: "w1 = w2 \<longleftrightarrow> (\<forall>j < 64. bit w1 j = bit w2 j)" for w1 w2 :: ulong
proof
  assume z: "\<forall>j < 64. bit w1 j = bit w2 j"
  show "w1 = w2"
    by (rule bit_eqI) (use z in simp)
qed simp

lemma bit_last_mask: "j < 64 \<Longrightarrow> bits mod 64 \<noteq> 0 \<Longrightarrow>
    bit (BITMAP_LAST_WORD_MASK bits) j \<longleftrightarrow> j < bits mod 64"
  by (simp add: BITMAP_LAST_WORD_MASK_def bit_mask_iff flip: mask_eq_exp_minus_1)

lemma last_word_zero_bits:
  "bits mod 64 \<noteq> 0 \<Longrightarrow> w AND BITMAP_LAST_WORD_MASK bits = 0 \<longleftrightarrow> (\<forall>j < bits mod 64. \<not> bit w j)"
proof -
  assume h: "bits mod 64 \<noteq> 0"
  have "j < 64" if "j < bits mod 64" for j
    using that by (meson less_trans mod_less_divisor zero_less_numeral)
  with h show ?thesis
    by (auto simp: word_zero_bits bit_and_iff bit_last_mask)
qed

section \<open>Regions cover exactly their bits\<close>

lemma reg_mask_eq:
  "reg_mask pos order = push_bit (pos mod 64) (mask (min (2 ^ order) 64))"
proof -
  have "push_bit (n - 1) 1 + (push_bit (n - 1) 1 - 1) = (mask n :: ulong)" if "0 < n" for n
  proof -
    have "(2 :: ulong) ^ (n - 1) + 2 ^ (n - 1) = 2 ^ n"
      using that by (metis mult_2 power_eq_if not_gr_zero)
    then show ?thesis
      by (simp add: mask_eq_exp_minus_1)
  qed
  moreover have "pos - pos div 64 * 64 = pos mod 64"
    by (simp add: minus_div_mult_eq_mod)
  ultimately show ?thesis
    by (simp add: reg_mask_def Let_def)
qed

lemma reg_words_index:
  assumes "2 ^ order dvd pos" and "pos + 2 ^ order \<le> 64 * n"
  shows "pos div 64 + BITS_TO_LONGS (2 ^ order) \<le> n"
    and "j < 64 \<Longrightarrow> pos div 64 \<le> k \<Longrightarrow> k < pos div 64 + BITS_TO_LONGS (2 ^ order) \<Longrightarrow>
      bit (reg_mask pos order) j \<longleftrightarrow> pos \<le> 64 * k + j \<and> 64 * k + j < pos + 2 ^ order"
    and "pos \<le> i \<Longrightarrow> i < pos + 2 ^ order \<Longrightarrow>
      pos div 64 \<le> i div 64 \<and> i div 64 < pos div 64 + BITS_TO_LONGS (2 ^ order)"
proof (atomize (full), cases "order \<le> 6")
  case True
  then have le: "(2 :: nat) ^ order \<le> 64"
    using power_increasing [of order 6 "2 :: nat"] by simp
  have "(2 :: nat) ^ order dvd 64"
    using le_imp_power_dvd [OF True, of "2 :: nat"] by simp
  then have d: "2 ^ order dvd pos mod 64" using assms(1) by (simp add: dvd_mod)
  have fit: "pos mod 64 + 2 ^ order \<le> 64"
  proof -
    obtain a c where a: "pos mod 64 = 2 ^ order * a" and c: "(64 :: nat) = 2 ^ order * c"
      using d \<open>2 ^ order dvd 64\<close> by (auto elim!: dvdE)
    have "2 ^ order * a < 2 ^ order * c" using a c by (metis mod_less_divisor zero_less_numeral)
    then have "a < c" by simp
    then have "2 ^ order * (a + 1) \<le> 2 ^ order * c" by (intro mult_le_mono2) simp
    with a c show ?thesis by simp
  qed
  have one: "BITS_TO_LONGS (2 ^ order) = 1"
  proof -
    have "(1 :: nat) \<le> 2 ^ order" by simp
    with le have "64 \<le> (2 :: nat) ^ order + 63 \<and> (2 :: nat) ^ order + 63 < 128" by linarith
    then show ?thesis by (auto simp: BITS_TO_LONGS_def intro!: div_nat_eqI)
  qed
  have pos: "pos = 64 * (pos div 64) + pos mod 64" by simp
  show "pos div 64 + BITS_TO_LONGS (2 ^ order) \<le> n \<and>
    (j < 64 \<longrightarrow> pos div 64 \<le> k \<longrightarrow> k < pos div 64 + BITS_TO_LONGS (2 ^ order) \<longrightarrow>
      bit (reg_mask pos order) j = (pos \<le> 64 * k + j \<and> 64 * k + j < pos + 2 ^ order)) \<and>
    (pos \<le> i \<longrightarrow> i < pos + 2 ^ order \<longrightarrow>
      pos div 64 \<le> i div 64 \<and> i div 64 < pos div 64 + BITS_TO_LONGS (2 ^ order))"
  proof (intro conjI impI)
    have "1 \<le> (2 :: nat) ^ order" by simp
    with assms(2) have "pos < 64 * n" by linarith
    then show "pos div 64 + BITS_TO_LONGS (2 ^ order) \<le> n"
      using one word_index_less by simp
  next
    assume "j < 64" and k: "pos div 64 \<le> k" "k < pos div 64 + BITS_TO_LONGS (2 ^ order)"
    then have k: "k = pos div 64" using one by simp
    have "bit (reg_mask pos order) j \<longleftrightarrow> pos mod 64 \<le> j \<and> j < pos mod 64 + 2 ^ order"
      using \<open>j < 64\<close> le fit by (auto simp: reg_mask_eq bit_push_bit_iff bit_mask_iff min_def)
    moreover have "pos mod 64 \<le> j \<longleftrightarrow> pos \<le> 64 * k + j" using pos k by linarith
    moreover have "j < pos mod 64 + 2 ^ order \<longleftrightarrow> 64 * k + j < pos + 2 ^ order"
      using pos k by linarith
    ultimately show "bit (reg_mask pos order) j = (pos \<le> 64 * k + j \<and> 64 * k + j < pos + 2 ^ order)"
      by blast
  next
    assume "pos \<le> i"
    then show "pos div 64 \<le> i div 64" by (rule div_le_mono)
  next
    assume "i < pos + 2 ^ order"
    then have "i < 64 * (pos div 64) + (pos mod 64 + 2 ^ order)" by simp
    also have "\<dots> \<le> 64 * (pos div 64) + 64" using fit by (rule add_left_mono)
    finally have "i < 64 * (pos div 64 + 1)" by simp
    then show "i div 64 < pos div 64 + BITS_TO_LONGS (2 ^ order)"
      using one word_index_less by simp
  qed
next
  case False
  then obtain m where m: "order = 6 + m" using le_Suc_ex by (metis nat_le_linear)
  then have p: "(2 :: nat) ^ order = 64 * 2 ^ m" by (simp add: power_add)
  have nl: "BITS_TO_LONGS (2 ^ order) = 2 ^ m"
    by (auto simp: BITS_TO_LONGS_def p intro!: div_nat_eqI)
  have al: "64 dvd pos" using assms(1) p by (metis dvd_mult_left)
  then have pos: "pos = 64 * (pos div 64)" by simp
  have full: "bit (reg_mask pos order) j" if "j < 64" for j
  proof -
    have "(64 :: nat) \<le> 2 ^ order" by (simp add: p)
    then have "min ((2 :: nat) ^ order) 64 = 64" by (simp add: min_def)
    then show ?thesis using that al by (simp add: reg_mask_eq bit_mask_iff)
  qed
  show "pos div 64 + BITS_TO_LONGS (2 ^ order) \<le> n \<and>
    (j < 64 \<longrightarrow> pos div 64 \<le> k \<longrightarrow> k < pos div 64 + BITS_TO_LONGS (2 ^ order) \<longrightarrow>
      bit (reg_mask pos order) j = (pos \<le> 64 * k + j \<and> 64 * k + j < pos + 2 ^ order)) \<and>
    (pos \<le> i \<longrightarrow> i < pos + 2 ^ order \<longrightarrow>
      pos div 64 \<le> i div 64 \<and> i div 64 < pos div 64 + BITS_TO_LONGS (2 ^ order))"
  proof (intro conjI impI)
    show "pos div 64 + BITS_TO_LONGS (2 ^ order) \<le> n" using assms(2) pos nl p by simp
  next
    assume "j < 64" and k: "pos div 64 \<le> k" "k < pos div 64 + BITS_TO_LONGS (2 ^ order)"
    then show "bit (reg_mask pos order) j = (pos \<le> 64 * k + j \<and> 64 * k + j < pos + 2 ^ order)"
      using full [of j] pos nl p by simp
  next
    assume "pos \<le> i"
    then show "pos div 64 \<le> i div 64" by (rule div_le_mono)
  next
    assume "i < pos + 2 ^ order"
    then have "i < 64 * (pos div 64 + 2 ^ m)" using pos p by simp
    then show "i div 64 < pos div 64 + BITS_TO_LONGS (2 ^ order)"
      using nl word_index_less by simp
  qed
qed

lemma reg_isfree:
  assumes "2 ^ order dvd pos" and "pos + 2 ^ order \<le> 64 * length b"
  shows "reg_op_raw b pos order REG_OP_ISFREE =
     Some (\<forall>i. pos \<le> i \<and> i < pos + 2 ^ order \<longrightarrow> \<not> bm_bit b i, b)"
proof -
  let ?ix = "pos div 64" and ?nl = "BITS_TO_LONGS (2 ^ order)" and ?m = "reg_mask pos order"
  note ri = reg_words_index [OF assms]
  have "scan (\<lambda>k. do { w \<leftarrow> bm_rd b k; Some (w AND ?m = 0) }) ?ix ?nl =
      Some (\<forall>k. ?ix \<le> k \<and> k < ?ix + ?nl \<longrightarrow> b ! k AND ?m = 0)"
    using ri(1) by (intro scan_forall) auto
  moreover have "(\<forall>k. ?ix \<le> k \<and> k < ?ix + ?nl \<longrightarrow> b ! k AND ?m = 0) \<longleftrightarrow>
      (\<forall>i. pos \<le> i \<and> i < pos + 2 ^ order \<longrightarrow> \<not> bm_bit b i)" (is "?l \<longleftrightarrow> ?r")
  proof
    assume ?l
    show ?r
    proof (intro allI impI)
      fix i assume i: "pos \<le> i \<and> i < pos + 2 ^ order"
      with ri(3) [of i] \<open>?l\<close> have "\<not> bit (b ! (i div 64) AND ?m) (i mod 64)" by simp
      moreover have "bit ?m (i mod 64)" using ri(2) [of "i mod 64" "i div 64"] ri(3) [of i] i by simp
      ultimately show "\<not> bm_bit b i" by (simp add: bm_bit_def bit_and_iff)
    qed
  next
    assume r: ?r
    show ?l
    proof (intro allI impI)
      fix k assume k: "?ix \<le> k \<and> k < ?ix + ?nl"
      have "\<not> bit (b ! k AND ?m) j" if "j < 64" for j
        using r ri(2) [OF that] k bm_bit_word [OF that, of b k] by (auto simp: bit_and_iff)
      then show "b ! k AND ?m = 0" by (simp add: word_zero_bits)
    qed
  qed
  ultimately show ?thesis by (simp add: reg_op_raw_def Let_def)
qed

lemma reg_words_update:
  "k + n \<le> length b \<Longrightarrow>
   \<exists>b'. reg_words f b k n = Some b' \<and> length b' = length b \<and>
     (\<forall>i. b' ! i = (if k \<le> i \<and> i < k + n then f (b ! i) else b ! i))"
proof (induction n arbitrary: b k)
  case 0
  then show ?case by auto
next
  case (Suc n)
  then obtain b' where b': "reg_words f (b[k := f (b ! k)]) (Suc k) n = Some b'"
    "length b' = length b"
    "\<And>i. b' ! i = (if Suc k \<le> i \<and> i < Suc k + n then f (b[k := f (b ! k)] ! i)
        else b[k := f (b ! k)] ! i)"
    using Suc.IH [of "Suc k" "b[k := f (b ! k)]"] by auto
  have "b' ! i = (if k \<le> i \<and> i < k + Suc n then f (b ! i) else b ! i)" for i
    unfolding b'(3) using Suc.prems by (auto simp: nth_list_update not_less_eq_eq)
  with b' Suc.prems show ?case by simp
qed

lemma reg_alloc_release:
  assumes "2 ^ order dvd pos" and "pos + 2 ^ order \<le> 64 * length b"
  shows "\<exists>b'. reg_op_raw b pos order REG_OP_ALLOC = Some (False, b') \<and> length b' = length b \<and>
      (\<forall>i < 64 * length b. bm_bit b' i \<longleftrightarrow> pos \<le> i \<and> i < pos + 2 ^ order \<or> bm_bit b i)"
    and "\<exists>b'. reg_op_raw b pos order REG_OP_RELEASE = Some (False, b') \<and> length b' = length b \<and>
      (\<forall>i < 64 * length b. bm_bit b' i \<longleftrightarrow> \<not> (pos \<le> i \<and> i < pos + 2 ^ order) \<and> bm_bit b i)"
proof -
  let ?ix = "pos div 64" and ?nl = "BITS_TO_LONGS (2 ^ order)" and ?m = "reg_mask pos order"
  note ri = reg_words_index [OF assms]
  have in_reg: "(?ix \<le> i div 64 \<and> i div 64 < ?ix + ?nl) \<and> bit ?m (i mod 64) \<longleftrightarrow>
      pos \<le> i \<and> i < pos + 2 ^ order" for i
    using ri(2) [of "i mod 64" "i div 64"] ri(3) [of i] by auto
  obtain b1 where "reg_words (\<lambda>w. w OR ?m) b ?ix ?nl = Some b1" "length b1 = length b"
    "\<And>i. b1 ! i = (if ?ix \<le> i \<and> i < ?ix + ?nl then b ! i OR ?m else b ! i)"
    using reg_words_update [OF ri(1)] by metis
  then show "\<exists>b'. reg_op_raw b pos order REG_OP_ALLOC = Some (False, b') \<and> length b' = length b \<and>
      (\<forall>i < 64 * length b. bm_bit b' i \<longleftrightarrow> pos \<le> i \<and> i < pos + 2 ^ order \<or> bm_bit b i)"
    by (auto simp: reg_op_raw_def Let_def bm_bit_def bit_or_iff simp flip: in_reg)
  obtain b2 where "reg_words (\<lambda>w. w AND NOT ?m) b ?ix ?nl = Some b2" "length b2 = length b"
    "\<And>i. b2 ! i = (if ?ix \<le> i \<and> i < ?ix + ?nl then b ! i AND NOT ?m else b ! i)"
    using reg_words_update [OF ri(1)] by metis
  then show "\<exists>b'. reg_op_raw b pos order REG_OP_RELEASE = Some (False, b') \<and> length b' = length b \<and>
      (\<forall>i < 64 * length b. bm_bit b' i \<longleftrightarrow> \<not> (pos \<le> i \<and> i < pos + 2 ^ order) \<and> bm_bit b i)"
    by (auto simp: reg_op_raw_def Let_def bm_bit_def bit_and_iff bit_not_iff simp flip: in_reg)
qed

text \<open>The region starting at \<open>pos\<close> is free.\<close>

definition region_free :: "bitmap \<Rightarrow> nat \<Rightarrow> nat \<Rightarrow> bool" where
  "region_free b pos order \<longleftrightarrow> (\<forall>i. pos \<le> i \<and> i < pos + 2 ^ order \<longrightarrow> \<not> bm_bit b i)"

lemma find_free_from_spec:
  assumes "2 ^ order dvd pos" and "bits \<le> 64 * length b"
    and "find_free_from b bits order pos = Some (r, b')"
  shows "(r = VMM_ENOMEM \<and> b' = b \<and>
       (\<forall>p \<ge> pos. 2 ^ order dvd p \<longrightarrow> p + 2 ^ order \<le> bits \<longrightarrow> \<not> region_free b p order)) \<or>
     (\<exists>p \<ge> pos. r = int p \<and> 2 ^ order dvd p \<and> p + 2 ^ order \<le> bits \<and> region_free b p order \<and>
       (\<forall>p' \<ge> pos. 2 ^ order dvd p' \<longrightarrow> p' < p \<longrightarrow> \<not> region_free b p' order) \<and>
       length b' = length b \<and>
       (\<forall>i < 64 * length b. bm_bit b' i \<longleftrightarrow> p \<le> i \<and> i < p + 2 ^ order \<or> bm_bit b i))"
  using assms
proof (induction b bits order pos rule: find_free_from.induct)
  case (1 b bits order pos)
  show ?case
  proof (cases "pos + 2 ^ order \<le> bits")
    case False
    with 1 show ?thesis
      by (subst (asm) (2) find_free_from.simps) auto
  next
    case True
    then have fit: "pos + 2 ^ order \<le> 64 * length b" using 1 by simp
    note free = reg_isfree [OF 1(2) fit, folded region_free_def]
    show ?thesis
    proof (cases "region_free b pos order")
      case True
      obtain b1 where b1: "reg_op_raw b pos order REG_OP_ALLOC = Some (False, b1)"
        "length b1 = length b"
        "\<forall>i < 64 * length b. bm_bit b1 i \<longleftrightarrow> pos \<le> i \<and> i < pos + 2 ^ order \<or> bm_bit b i"
        using reg_alloc_release(1) [OF 1(2) fit] by auto
      have "find_free_from b bits order pos = Some (int pos, b1)"
        using \<open>pos + 2 ^ order \<le> bits\<close> free True b1(1)
        by (subst find_free_from.simps) (simp add: region_free_def)
      with 1(4) have "r = int pos" "b' = b1" by auto
      with b1 \<open>pos + 2 ^ order \<le> bits\<close> True 1(2) show ?thesis by auto
    next
      case False
      have step: "find_free_from b bits order pos = find_free_from b bits order (pos + 2 ^ order)"
        using \<open>pos + 2 ^ order \<le> bits\<close> free False
        by (subst find_free_from.simps) (simp add: region_free_def)
      have next_pos: "p = pos \<or> pos + 2 ^ order \<le> p" if "pos \<le> p" "2 ^ order dvd p" for p
      proof -
        from that(2) 1(2) obtain u v where "p = 2 ^ order * u" "pos = 2 ^ order * v"
          by (auto elim!: dvdE)
        moreover from this that(1) have "v \<le> u" by simp
        then have "u = v \<or> v + 1 \<le> u" by arith
        then have "u = v \<or> 2 ^ order * (v + 1) \<le> 2 ^ order * u"
          by (metis mult_le_mono2)
        ultimately show ?thesis by auto
      qed
      have "(r = VMM_ENOMEM \<and> b' = b \<and>
         (\<forall>p \<ge> pos + 2 ^ order. 2 ^ order dvd p \<longrightarrow> p + 2 ^ order \<le> bits \<longrightarrow> \<not> region_free b p order)) \<or>
         (\<exists>p \<ge> pos + 2 ^ order. r = int p \<and> 2 ^ order dvd p \<and> p + 2 ^ order \<le> bits \<and>
           region_free b p order \<and>
           (\<forall>p' \<ge> pos + 2 ^ order. 2 ^ order dvd p' \<longrightarrow> p' < p \<longrightarrow> \<not> region_free b p' order) \<and>
           length b' = length b \<and>
           (\<forall>i < 64 * length b. bm_bit b' i \<longleftrightarrow> p \<le> i \<and> i < p + 2 ^ order \<or> bm_bit b i))"
        using 1(1) [OF \<open>pos + 2 ^ order \<le> bits\<close>, of False] free False 1(2,3,4) step by simp
      then show ?thesis
        using next_pos False by (metis add_leD1)
    qed
  qed
qed

lemma find_free_from_total:
  assumes "2 ^ order dvd pos" and "bits \<le> 64 * length b"
  shows "find_free_from b bits order pos \<noteq> None"
  using assms
proof (induction b bits order pos rule: find_free_from.induct)
  case (1 b bits order pos)
  show ?case
  proof (cases "pos + 2 ^ order \<le> bits")
    case False
    then show ?thesis by (subst find_free_from.simps) simp
  next
    case True
    then have fit: "pos + 2 ^ order \<le> 64 * length b" using 1 by simp
    obtain b1 where b1: "reg_op_raw b pos order REG_OP_ALLOC = Some (False, b1)"
      using reg_alloc_release(1) [OF 1(2) fit] by auto
    have "find_free_from b bits order (pos + 2 ^ order) \<noteq> None"
      if "\<not> (\<forall>i. pos \<le> i \<and> i < pos + 2 ^ order \<longrightarrow> \<not> bm_bit b i)"
      using 1(1) [OF True, of False] reg_isfree [OF 1(2) fit] that 1(2,3) by simp
    then show ?thesis
      using True b1 by (subst find_free_from.simps) (auto simp: reg_isfree [OF 1(2) fit])
  qed
qed

lemma bits_div_longs: "k < bits div 64 \<Longrightarrow> k < BITS_TO_LONGS bits"
  using div_le_mono [of bits "bits + 63" 64] by (simp add: BITS_TO_LONGS_def)

lemma bits_last_long:
  assumes "bits mod 64 \<noteq> 0"
  shows "bits div 64 < BITS_TO_LONGS bits"
proof -
  define q where "q = bits div 64"
  have "64 * q < bits"
    using assms div_mult_mod_eq [of bits 64] unfolding q_def by linarith
  then have "64 * q + 64 \<le> bits + 63" by simp
  from div_le_mono [OF this, of 64] have "q + 1 \<le> (bits + 63) div 64" by simp
  then show ?thesis by (simp add: BITS_TO_LONGS_def q_def [symmetric])
qed

lemma mod_64_less: "j < bits mod 64 \<Longrightarrow> j < (64 :: nat)"
  by (meson less_trans mod_less_divisor zero_less_numeral)

section \<open>Properties\<close>

lemma bitmap_tests_decide_bits_parts:
  assumes "BITS_TO_LONGS bits \<le> length b1" and "BITS_TO_LONGS bits \<le> length b2"
  shows "bitmap_empty_raw b1 bits = Some (\<forall>i < bits. \<not> bm_bit b1 i)"
    and "bitmap_full_raw b1 bits = Some (\<forall>i < bits. bm_bit b1 i)"
    and "bitmap_equal_raw b1 b2 bits = Some (\<forall>i < bits. bm_bit b1 i = bm_bit b2 i)"
    and "bitmap_intersects_raw b1 b2 bits = Some (\<exists>i < bits. bm_bit b1 i \<and> bm_bit b2 i)"
    and "bitmap_subset_raw b1 b2 bits = Some (\<forall>i < bits. bm_bit b1 i \<longrightarrow> bm_bit b2 i)"
proof -
  have in1: "k < length b1" "k < length b2" if "k < bits div 64" for k
    using bits_div_longs [OF that] assms by auto
  have in2: "bits div 64 < length b1" "bits div 64 < length b2" if "bits mod 64 \<noteq> 0"
    using bits_last_long [OF that] assms by auto
  note w1 = in1 bm_bit_word bit_simps
  note w2 = in2 mod_64_less bm_bit_word last_word_zero_bits bit_simps
  show "bitmap_empty_raw b1 bits = Some (\<forall>i < bits. \<not> bm_bit b1 i)"
    unfolding bitmap_empty_raw_def
    by (rule scan_words_forall) (simp add: w1 word_zero_bits, simp add: w2)
  show "bitmap_full_raw b1 bits = Some (\<forall>i < bits. bm_bit b1 i)"
    unfolding bitmap_full_raw_def
    by (rule scan_words_forall) (simp add: w1 word_zero_bits, simp add: w2)
  show "bitmap_equal_raw b1 b2 bits = Some (\<forall>i < bits. bm_bit b1 i = bm_bit b2 i)"
    unfolding bitmap_equal_raw_def
    by (rule scan_words_forall) (simp add: w1 word_eq_bits, simp add: w2)
  have "scan_words (\<lambda>k. do { w1 \<leftarrow> bm_rd b1 k; w2 \<leftarrow> bm_rd b2 k; Some (w1 AND w2 = 0) })
       (\<lambda>k. do { w1 \<leftarrow> bm_rd b1 k; w2 \<leftarrow> bm_rd b2 k;
                 Some ((w1 AND w2) AND BITMAP_LAST_WORD_MASK bits = 0) }) bits =
     Some (\<forall>i < bits. \<not> (bm_bit b1 i \<and> bm_bit b2 i))"
    by (rule scan_words_forall) (simp add: w1 word_zero_bits, simp add: w2)
  then show "bitmap_intersects_raw b1 b2 bits = Some (\<exists>i < bits. bm_bit b1 i \<and> bm_bit b2 i)"
    by (auto simp: bitmap_intersects_raw_def)
  show "bitmap_subset_raw b1 b2 bits = Some (\<forall>i < bits. bm_bit b1 i \<longrightarrow> bm_bit b2 i)"
    unfolding bitmap_subset_raw_def
    by (rule scan_words_forall) (simp add: w1 word_zero_bits, simp add: w2)
qed

text \<open>
  Further fact: the word-wise tests decide the bit-level predicates on the first \<^verbatim>\<open>bits\<close> bits
  exactly, whatever the unused bits of the last word hold, and never read outside the arrays.
\<close>
theorem bitmap_tests_decide_bits:
  assumes "BITS_TO_LONGS bits \<le> length b1" and "BITS_TO_LONGS bits \<le> length b2"
  shows "(bitmap_empty_raw b1 bits = Some (\<forall>i < bits. \<not> bm_bit b1 i)) \<and>
    (bitmap_full_raw b1 bits = Some (\<forall>i < bits. bm_bit b1 i)) \<and>
    (bitmap_equal_raw b1 b2 bits = Some (\<forall>i < bits. bm_bit b1 i = bm_bit b2 i)) \<and>
    (bitmap_intersects_raw b1 b2 bits = Some (\<exists>i < bits. bm_bit b1 i \<and> bm_bit b2 i)) \<and>
    (bitmap_subset_raw b1 b2 bits = Some (\<forall>i < bits. bm_bit b1 i \<longrightarrow> bm_bit b2 i))"
  using bitmap_tests_decide_bits_parts [OF assms] by (intro conjI)

theorem bitmap_tests_decide_bits_witness:
  "bitmap_intersects_raw [0, 5] [7, 8] 67 = Some (\<exists>i < 67. bm_bit [0, 5] i \<and> bm_bit [7, 8] i)"
proof -
  have h: "BITS_TO_LONGS 67 \<le> length [0 :: ulong, 5]" "BITS_TO_LONGS 67 \<le> length [7 :: ulong, 8]"
    by (simp_all add: BITS_TO_LONGS_def)
  show ?thesis using bitmap_tests_decide_bits [OF h] by (elim conjE)
qed



text \<open>
  Further fact: releasing a region after allocating it gives back the bits it had: the region is
  free again and every other bit is as before.
\<close>
theorem bitmap_allocate_release_roundtrip:
  assumes "2 ^ order dvd pos" and "pos + 2 ^ order \<le> 64 * length b" and "region_free b pos order"
  shows "\<exists>b1 b2. bitmap_allocate_region b pos order = Some (0, b1) \<and>
     bitmap_release_region b1 pos order = Some b2 \<and> length b2 = length b \<and>
     (\<forall>i < 64 * length b. bm_bit b2 i = bm_bit b i)"
proof -
  obtain b1 where b1: "reg_op_raw b pos order REG_OP_ALLOC = Some (False, b1)"
    "length b1 = length b"
    "\<forall>i < 64 * length b. bm_bit b1 i \<longleftrightarrow> pos \<le> i \<and> i < pos + 2 ^ order \<or> bm_bit b i"
    using reg_alloc_release(1) [OF assms(1,2)] by auto
  have fit: "pos + 2 ^ order \<le> 64 * length b1" using assms(2) b1(2) by simp
  obtain b2 where b2: "reg_op_raw b1 pos order REG_OP_RELEASE = Some (False, b2)"
    "length b2 = length b1"
    "\<forall>i < 64 * length b1. bm_bit b2 i \<longleftrightarrow> \<not> (pos \<le> i \<and> i < pos + 2 ^ order) \<and> bm_bit b1 i"
    using reg_alloc_release(2) [OF assms(1) fit] by auto
  have "\<forall>i < 64 * length b. bm_bit b2 i = bm_bit b i"
    using b1(2,3) b2(3) assms(3) by (auto simp: region_free_def)
  moreover have "bitmap_allocate_region b pos order = Some (0, b1)"
    using reg_isfree [OF assms(1,2)] b1(1) assms(3)
    by (simp add: bitmap_allocate_region_def region_free_def)
  moreover have "bitmap_release_region b1 pos order = Some b2"
    using b2(1) by (simp add: bitmap_release_region_def)
  ultimately show ?thesis
    using b1(2) b2(2) by auto
qed

theorem bitmap_allocate_release_roundtrip_witness:
  "\<exists>b1 b2. bitmap_allocate_region [1, 0] 64 6 = Some (0, b1) \<and>
     bitmap_release_region b1 64 6 = Some b2 \<and> length b2 = 2 \<and>
     (\<forall>i < 128. bm_bit b2 i = bm_bit [1, 0] i)"
proof -
  have h: "2 ^ 6 dvd (64 :: nat)" "64 + 2 ^ 6 \<le> 64 * length [1 :: ulong, 0]"
    by simp_all
  have "i div 64 = 1" if "64 \<le> i" "i < 128" for i :: nat using that by (intro div_nat_eqI) auto
  then have "region_free [1, 0] 64 6" by (simp add: region_free_def bm_bit_def)
  from bitmap_allocate_release_roundtrip [OF h this] show ?thesis by (simp add: numeral_2_eq_2)
qed

lemma bitmap_weight_ignores_high_half_parts:
  shows "bitmap_weight_raw (map (\<lambda>w. w AND 0xFFFFFFFF) b) bits = bitmap_weight_raw b bits"
    and "bm_bit [0x100000000] 32 \<and> bitmap_weight_raw [0x100000000] 64 = Some 0"
proof -
  have low: "ucast (w AND 0xFFFFFFFF :: ulong) = (ucast w :: u32)" for w
  proof (rule bit_eqI)
    fix n assume "possible_bit TYPE(u32) n"
    then have "n < 32" by simp
    have m: "(0xFFFFFFFF :: ulong) = mask 32" by (simp add: mask_eq_exp_minus_1)
    have "bit (0xFFFFFFFF :: ulong) n"
      unfolding m using \<open>n < 32\<close> by (subst bit_mask_iff) simp
    then show "bit (ucast (w AND 0xFFFFFFFF :: ulong) :: u32) n = bit (ucast w :: u32) n"
      by (simp add: bit_simps)
  qed
  have lowm: "ucast ((w AND 0xFFFFFFFF) AND m :: ulong) = (ucast (w AND m) :: u32)" for w m
  proof -
    have "(w AND 0xFFFFFFFF) AND m = (w AND m) AND 0xFFFFFFFF" by (simp add: ac_simps)
    then show ?thesis by (simp only: low)
  qed
  have ww: "weight_words (map (\<lambda>w. w AND 0xFFFFFFFF) b) a k n = weight_words b a k n" for a k n
    by (induction n arbitrary: a k) (simp_all add: bm_rd_def low)
  show "bitmap_weight_raw (map (\<lambda>w. w AND 0xFFFFFFFF) b) bits = bitmap_weight_raw b bits"
    by (cases "bits div 64 < length b")
      (simp_all add: bitmap_weight_raw_def ww bm_rd_def lowm cong: if_cong)
  show "bm_bit [0x100000000] 32 \<and> bitmap_weight_raw [0x100000000] 64 = Some 0"
    by (simp add: bm_bit_def bitmap_weight_raw_def bitmap_sw_hweight32_def bm_rd_def One_nat_def)
qed

text \<open>
  Further fact: \<^verbatim>\<open>__bitmap_weight\<close> hands each \<^verbatim>\<open>unsigned long\<close> to a 32-bit population count, so
  on a 64-bit host the upper half of every word is ignored: clearing those bits never changes the
  result, and a bitmap with only bit 32 set has weight 0.
\<close>
theorem bitmap_weight_ignores_high_half:
  shows "(bitmap_weight_raw (map (\<lambda>w. w AND 0xFFFFFFFF) b) bits = bitmap_weight_raw b bits) \<and>
    (bm_bit [0x100000000] 32 \<and> bitmap_weight_raw [0x100000000] 64 = Some 0)"
  by (intro conjI [OF bitmap_weight_ignores_high_half_parts])

end
