(* ===== verification/Host_ram.thy ===== *)
theory Host_ram
  imports Bitmap
begin

text \<open>
  The host RAM allocator, \<^verbatim>\<open>core/vmm_host_ram.c\<close>: banks of page frames, each with a bitmap of
  used frames and a free counter. \<^verbatim>\<open>__host_ram_alloc\<close> is \<open>host_ram_alloc_raw\<close>; every other name is
  the source's. Counters keep their C width (\<^verbatim>\<open>u32\<close> frame numbers, 64-bit addresses). The device
  tree queries and \<^verbatim>\<open>vmm_request_resource\<close> are parameters, and so are the colour callbacks.

  A result \<^const>\<open>None\<close> means that the call does not return: it touched memory outside the bank's
  bitmap, or its search loop does not end. The bitmap functions take an \<^verbatim>\<open>int\<close>, so a frame number
  of \<open>2 ^ 31\<close> or more is a negative index, outside the bitmap.
\<close>

section \<open>Sizes and alignment\<close>

definition VMM_PAGE_SHIFT :: nat where [simp]: "VMM_PAGE_SHIFT = 12"

definition order_size :: "nat \<Rightarrow> u64" where
  "order_size order = push_bit order 1"

definition order_mask :: "nat \<Rightarrow> u64" where
  "order_mask order = order_size order - 1"

definition order_align :: "u64 \<Rightarrow> nat \<Rightarrow> u64" where
  "order_align x order = x AND NOT (order_mask order)"

definition roundup2_order_size :: "u64 \<Rightarrow> nat \<Rightarrow> u64" where
  "roundup2_order_size x order =
     (if x AND order_mask order \<noteq> 0 then order_align x order + order_size order else x)"

definition size_to_order :: "u64 \<Rightarrow> nat \<Rightarrow> u64" where
  "size_to_order x order = drop_bit order x + (if x AND order_mask order \<noteq> 0 then 1 else 0)"

definition VMM_SIZE_TO_PAGE :: "u64 \<Rightarrow> u64" where
  "VMM_SIZE_TO_PAGE x = size_to_order x VMM_PAGE_SHIFT"

section \<open>State\<close>

record color_ops =
  co_name :: string
  co_num_colors :: "(u64 \<Rightarrow> u32) option"
  co_color_order :: "(u64 \<Rightarrow> u32) option"
  co_color_match :: "(u64 \<Rightarrow> u64 \<Rightarrow> u32 \<Rightarrow> u64 \<Rightarrow> bool) option"

record host_ram_bank =
  bank_start :: u64
  bank_size :: u64
  frame_count :: u32
  bmap :: bitmap
  bmap_sz :: u32
  bmap_free :: u32

record host_ram_ctrl =
  ram_ops :: color_ops
  ops_priv :: u64
  bank_count :: u32
  banks :: "host_ram_bank list"

definition bank_at :: "host_ram_ctrl \<Rightarrow> nat \<Rightarrow> host_ram_bank option" where
  "bank_at c bn = (if bn < length (banks c) then Some (banks c ! bn) else None)"

definition set_bank :: "host_ram_ctrl \<Rightarrow> nat \<Rightarrow> host_ram_bank \<Rightarrow> host_ram_ctrl" where
  "set_bank c bn b = c\<lparr>banks := (banks c)[bn := b]\<rparr>"

section \<open>Frame runs\<close>

definition int_arg :: "u32 \<Rightarrow> nat option" where
  "int_arg i = (if unat i < 2 ^ 31 then Some (unat i) else None)"

text \<open>\<^verbatim>\<open>for (i = bpos; i < (bpos + bcnt); i++) { if (bitmap_isset(...)) break; bfree++; }\<close>\<close>

function count_free :: "bitmap \<Rightarrow> u32 \<Rightarrow> u32 \<Rightarrow> u32 \<Rightarrow> u32 option" where
  "count_free bm i lim bfree =
     (if i < lim then do {
        k \<leftarrow> int_arg i;
        used \<leftarrow> bitmap_isset bm k;
        if used then Some bfree else count_free bm (i + 1) lim (bfree + 1) }
      else Some bfree)"
  by pat_completeness auto
termination
proof (relation "measure (\<lambda>(bm, i, lim, bfree). unat lim - unat i)", simp, simp)
  fix i lim :: u32
  assume "i < lim"
  then have l: "unat i < unat lim" by (simp add: word_less_nat_alt)
  from unat_Suc_bounded [OF this] l show "unat lim - unat (i + 1) < unat lim - unat i" by simp
qed

declare count_free.simps [simp del]

definition mark_used :: "host_ram_bank \<Rightarrow> u32 \<Rightarrow> u32 \<Rightarrow> host_ram_bank option" where
  "mark_used b bpos bcnt = do {
     p \<leftarrow> int_arg bpos;
     n \<leftarrow> int_arg bcnt;
     bm \<leftarrow> bitmap_set (bmap b) p n;
     Some (b\<lparr>bmap := bm, bmap_free := bmap_free b - bcnt\<rparr>) }"

definition mark_unused :: "host_ram_bank \<Rightarrow> u32 \<Rightarrow> u32 \<Rightarrow> host_ram_bank option" where
  "mark_unused b bpos bcnt = do {
     p \<leftarrow> int_arg bpos;
     n \<leftarrow> int_arg bcnt;
     bm \<leftarrow> bitmap_clear (bmap b) p n;
     Some (b\<lparr>bmap := bm, bmap_free := bmap_free b + bcnt\<rparr>) }"

section \<open>Allocation\<close>

definition first_bpos :: "host_ram_bank \<Rightarrow> nat \<Rightarrow> u32" where
  "first_bpos b align_order =
     (let bpos = ucast (bank_start b AND order_mask align_order) :: u32
      in if bpos \<noteq> 0 then ucast (VMM_SIZE_TO_PAGE (order_size align_order - ucast bpos)) else bpos)"

text \<open>
  The search over \<^verbatim>\<open>bpos\<close> in one bank. \<open>cm\<close> is the colour test
  \<^verbatim>\<open>ops && !ops->color_match(p, sz, color, ops_priv)\<close>, negated; the inner result is
  \<^const>\<open>None\<close> when the loop runs off the bank.
\<close>

partial_function (option) alloc_search ::
  "(u64 \<Rightarrow> bool) \<Rightarrow> host_ram_bank \<Rightarrow> u32 \<Rightarrow> u32 \<Rightarrow> u32 \<Rightarrow> (u64 \<times> host_ram_bank) option option" where
  "alloc_search cm b bcnt binc bpos =
     (if ucast bpos < drop_bit VMM_PAGE_SHIFT (bank_size b) then do {
        bfree \<leftarrow> count_free (bmap b) bpos (bpos + bcnt) 0;
        if bfree \<noteq> bcnt then alloc_search cm b bcnt binc (bpos + binc)
        else if \<not> cm (bank_start b + ucast bpos * order_size VMM_PAGE_SHIFT)
        then alloc_search cm b bcnt binc (bpos + binc)
        else do {
          b' \<leftarrow> mark_used b bpos bcnt;
          Some (Some (bank_start b + ucast bpos * order_size VMM_PAGE_SHIFT, b')) } }
      else Some None)"

fun alloc_banks ::
  "(u64 \<Rightarrow> bool) \<Rightarrow> u64 \<Rightarrow> nat \<Rightarrow> u32 \<Rightarrow> host_ram_ctrl \<Rightarrow> nat \<Rightarrow> nat \<Rightarrow>
     (u64 \<times> u64 option \<times> host_ram_ctrl) option" where
  "alloc_banks cm sz align_order bcnt c bn 0 = Some (0, None, c)"
| "alloc_banks cm sz align_order bcnt c bn (Suc n) = do {
     b \<leftarrow> bank_at c bn;
     if bmap_free b < bcnt then alloc_banks cm sz align_order bcnt c (Suc bn) n
     else do {
       r \<leftarrow> alloc_search cm b bcnt (ucast (drop_bit VMM_PAGE_SHIFT (order_size align_order)))
              (first_bpos b align_order);
       case r of
         None \<Rightarrow> alloc_banks cm sz align_order bcnt c (Suc bn) n
       | Some (p, b') \<Rightarrow> Some (sz, Some p, set_bank c bn b') } }"

text \<open>
  The result is the size allocated (0 on failure), the value stored to \<^verbatim>\<open>*pa\<close> if any, and the
  new state. \<open>cm p sz\<close> stands for the optional colour callback.
\<close>

definition host_ram_alloc_raw ::
  "host_ram_ctrl \<Rightarrow> u64 \<Rightarrow> u32 \<Rightarrow> (u64 \<Rightarrow> u64 \<Rightarrow> bool) option \<Rightarrow>
     (u64 \<times> u64 option \<times> host_ram_ctrl) option" where
  "host_ram_alloc_raw c sz align_order ops =
     (if sz = 0 \<or> unat align_order < VMM_PAGE_SHIFT \<or> BITS_PER_LONG \<le> unat align_order
      then Some (0, None, c)
      else let sz = roundup2_order_size sz (unat align_order);
               bcnt = ucast (VMM_SIZE_TO_PAGE sz)
           in alloc_banks (\<lambda>p. case ops of None \<Rightarrow> True | Some m \<Rightarrow> m p sz) sz (unat align_order) bcnt
                c 0 (unat (bank_count c)))"

definition vmm_host_ram_alloc ::
  "host_ram_ctrl \<Rightarrow> u64 \<Rightarrow> u32 \<Rightarrow> (u64 \<times> u64 option \<times> host_ram_ctrl) option" where
  "vmm_host_ram_alloc c sz align_order = host_ram_alloc_raw c sz align_order None"

section \<open>Cache colouring\<close>

definition default_ops :: color_ops where
  "default_ops = \<lparr>co_name = ''default'', co_num_colors = Some (\<lambda>priv. - 1),
     co_color_order = Some (\<lambda>priv. 16), co_color_match = Some (\<lambda>pa sz color priv. True)\<rparr>"

definition vmm_host_ram_set_color_ops ::
  "host_ram_ctrl \<Rightarrow> color_ops option \<Rightarrow> u64 \<Rightarrow> host_ram_ctrl" where
  "vmm_host_ram_set_color_ops c ops priv =
     (case ops of
        Some co \<Rightarrow>
          (case (co_num_colors co, co_color_order co, co_color_match co) of
             (Some nc, Some ord, Some cm) \<Rightarrow>
               if nc priv = 0 \<or> unat (ord priv) < VMM_PAGE_SHIFT \<or> BITS_PER_LONG \<le> unat (ord priv)
               then c else c\<lparr>ram_ops := co, ops_priv := priv\<rparr>
           | _ \<Rightarrow> c)
      | None \<Rightarrow> c\<lparr>ram_ops := default_ops, ops_priv := 0\<rparr>)"

definition vmm_host_ram_color_count :: "host_ram_ctrl \<Rightarrow> u32 option" where
  "vmm_host_ram_color_count c = map_option (\<lambda>f. f (ops_priv c)) (co_num_colors (ram_ops c))"

definition vmm_host_ram_color_order :: "host_ram_ctrl \<Rightarrow> u32 option" where
  "vmm_host_ram_color_order c = map_option (\<lambda>f. f (ops_priv c)) (co_color_order (ram_ops c))"

definition vmm_host_ram_color_alloc ::
  "host_ram_ctrl \<Rightarrow> u32 \<Rightarrow> (u64 \<times> u64 option \<times> host_ram_ctrl) option" where
  "vmm_host_ram_color_alloc c color = do {
     order \<leftarrow> vmm_host_ram_color_order c;
     n \<leftarrow> vmm_host_ram_color_count c;
     cm \<leftarrow> co_color_match (ram_ops c);
     if n \<le> color then Some (0, None, c)
     else host_ram_alloc_raw c (push_bit (unat order) 1) order
            (Some (\<lambda>p sz. cm p sz color (ops_priv c))) }"

section \<open>Reserve, free and queries\<close>

definition in_bank :: "host_ram_bank \<Rightarrow> u64 \<Rightarrow> u64 \<Rightarrow> bool" where
  "in_bank b pa sz \<longleftrightarrow> \<not> (pa < bank_start b \<or> bank_start b + bank_size b < pa + sz)"

definition range_pos :: "host_ram_bank \<Rightarrow> u64 \<Rightarrow> u32" where
  "range_pos b pa = ucast (drop_bit VMM_PAGE_SHIFT (pa - bank_start b))"

definition range_cnt :: "u64 \<Rightarrow> u32" where
  "range_cnt sz = ucast (VMM_SIZE_TO_PAGE sz)"

fun reserve_banks :: "u64 \<Rightarrow> u64 \<Rightarrow> host_ram_ctrl \<Rightarrow> nat \<Rightarrow> nat \<Rightarrow> (int \<times> host_ram_ctrl) option" where
  "reserve_banks pa sz c bn 0 = Some (VMM_EINVALID, c)"
| "reserve_banks pa sz c bn (Suc n) = do {
     b \<leftarrow> bank_at c bn;
     if \<not> in_bank b pa sz then reserve_banks pa sz c (Suc bn) n
     else let bpos = range_pos b pa; bcnt = range_cnt sz
          in if bmap_free b < bcnt then Some (VMM_ENOSPC, c)
             else do {
               bfree \<leftarrow> count_free (bmap b) bpos (bpos + bcnt) 0;
               if bfree \<noteq> bcnt then Some (VMM_ENOSPC, c)
               else do { b' \<leftarrow> mark_used b bpos bcnt; Some (VMM_OK, set_bank c bn b') } } }"

definition vmm_host_ram_reserve :: "host_ram_ctrl \<Rightarrow> u64 \<Rightarrow> u64 \<Rightarrow> (int \<times> host_ram_ctrl) option" where
  "vmm_host_ram_reserve c pa sz = reserve_banks pa sz c 0 (unat (bank_count c))"

fun free_banks :: "u64 \<Rightarrow> u64 \<Rightarrow> host_ram_ctrl \<Rightarrow> nat \<Rightarrow> nat \<Rightarrow> (int \<times> host_ram_ctrl) option" where
  "free_banks pa sz c bn 0 = Some (VMM_EINVALID, c)"
| "free_banks pa sz c bn (Suc n) = do {
     b \<leftarrow> bank_at c bn;
     if \<not> in_bank b pa sz then free_banks pa sz c (Suc bn) n
     else do {
       b' \<leftarrow> mark_unused b (range_pos b pa) (range_cnt sz);
       Some (VMM_OK, set_bank c bn b') } }"

definition vmm_host_ram_free :: "host_ram_ctrl \<Rightarrow> u64 \<Rightarrow> u64 \<Rightarrow> (int \<times> host_ram_ctrl) option" where
  "vmm_host_ram_free c pa sz = free_banks pa sz c 0 (unat (bank_count c))"

fun isfree_banks :: "u64 \<Rightarrow> host_ram_ctrl \<Rightarrow> nat \<Rightarrow> nat \<Rightarrow> bool option" where
  "isfree_banks pa c bn 0 = Some False"
| "isfree_banks pa c bn (Suc n) = do {
     b \<leftarrow> bank_at c bn;
     if pa < bank_start b \<or> bank_start b + bank_size b \<le> pa then isfree_banks pa c (Suc bn) n
     else do {
       k \<leftarrow> int_arg (range_pos b pa);
       used \<leftarrow> bitmap_isset (bmap b) k;
       Some (\<not> used) } }"

definition vmm_host_ram_frame_isfree :: "host_ram_ctrl \<Rightarrow> u64 \<Rightarrow> bool option" where
  "vmm_host_ram_frame_isfree c pa = isfree_banks pa c 0 (unat (bank_count c))"

definition active_banks :: "host_ram_ctrl \<Rightarrow> host_ram_bank list" where
  "active_banks c = take (unat (bank_count c)) (banks c)"

definition vmm_host_ram_total_free_frames :: "host_ram_ctrl \<Rightarrow> u32" where
  "vmm_host_ram_total_free_frames c = fold (\<lambda>b ret. ret + bmap_free b) (active_banks c) 0"

definition vmm_host_ram_total_frame_count :: "host_ram_ctrl \<Rightarrow> u32" where
  "vmm_host_ram_total_frame_count c = fold (\<lambda>b ret. ret + frame_count b) (active_banks c) 0"

definition vmm_host_ram_start :: "host_ram_ctrl \<Rightarrow> u64" where
  "vmm_host_ram_start c =
     fold (\<lambda>b ret. if bank_start b \<le> ret then bank_start b else ret) (active_banks c) (0 - 1)"

definition vmm_host_ram_end :: "host_ram_ctrl \<Rightarrow> u64" where
  "vmm_host_ram_end c =
     fold (\<lambda>b ret. let e = bank_start b + bank_size b - 1 in if ret \<le> e then e else ret)
       (active_banks c) 0"

definition vmm_host_ram_total_size :: "host_ram_ctrl \<Rightarrow> u64" where
  "vmm_host_ram_total_size c = fold (\<lambda>b ret. ret + bank_size b) (active_banks c) 0"

definition bank_query :: "host_ram_ctrl \<Rightarrow> (host_ram_bank \<Rightarrow> 'a :: zero) \<Rightarrow> u32 \<Rightarrow> 'a option" where
  "bank_query c f bn = (if bn < bank_count c then map_option f (bank_at c (unat bn)) else Some 0)"

definition vmm_host_ram_bank_start :: "host_ram_ctrl \<Rightarrow> u32 \<Rightarrow> u64 option" where
  "vmm_host_ram_bank_start c bn = bank_query c bank_start bn"

definition vmm_host_ram_bank_size :: "host_ram_ctrl \<Rightarrow> u32 \<Rightarrow> u64 option" where
  "vmm_host_ram_bank_size c bn = bank_query c bank_size bn"

definition vmm_host_ram_bank_frame_count :: "host_ram_ctrl \<Rightarrow> u32 \<Rightarrow> u32 option" where
  "vmm_host_ram_bank_frame_count c bn = bank_query c frame_count bn"

definition vmm_host_ram_bank_free_frames :: "host_ram_ctrl \<Rightarrow> u32 \<Rightarrow> u32 option" where
  "vmm_host_ram_bank_free_frames c bn = bank_query c bmap_free bn"

section \<open>Initialisation\<close>

text \<open>
  The device tree and the resource tree are parameters: each query returns its error code and the
  value it stores. \<open>hk bn\<close> is the memory at \<^verbatim>\<open>hkbase\<close> from the bitmap of bank \<open>bn\<close> on, with
  whatever it holds before.
\<close>

record ram_devtree =
  ram_bank_count :: "int \<times> u32"
  ram_bank_start :: "nat \<Rightarrow> int \<times> u64"
  ram_bank_size :: "nat \<Rightarrow> int \<times> u64"
  request_resource :: "u64 \<Rightarrow> u64 \<Rightarrow> int"

definition CONFIG_MAX_RAM_BANK_COUNT :: nat where "CONFIG_MAX_RAM_BANK_COUNT = 16"

definition empty_bank :: host_ram_bank where
  "empty_bank = \<lparr>bank_start = 0, bank_size = 0, frame_count = 0, bmap = [], bmap_sz = 0,
     bmap_free = 0\<rparr>"

fun estimate_banks :: "ram_devtree \<Rightarrow> u64 \<Rightarrow> nat \<Rightarrow> nat \<Rightarrow> u64" where
  "estimate_banks dt ret bn 0 = ret"
| "estimate_banks dt ret bn (Suc n) =
     (let (rc, size) = ram_bank_size dt bn
      in if rc \<noteq> 0 then ret
         else estimate_banks dt
                (ret + of_nat (bitmap_estimate_size (unat (ucast (drop_bit VMM_PAGE_SHIFT size) :: u32)))) (Suc bn) n)"

definition vmm_host_ram_estimate_hksize :: "ram_devtree \<Rightarrow> u64" where
  "vmm_host_ram_estimate_hksize dt =
     (let (rc, count) = ram_bank_count dt
      in if rc \<noteq> 0 then 0
         else if count = 0 \<or> CONFIG_MAX_RAM_BANK_COUNT < unat count then 0
         else estimate_banks dt 0 0 (unat count))"

fun init_banks ::
  "ram_devtree \<Rightarrow> (nat \<Rightarrow> bitmap) \<Rightarrow> host_ram_ctrl \<Rightarrow> nat \<Rightarrow> nat \<Rightarrow> (int \<times> host_ram_ctrl) option" where
  "init_banks dt hk c bn 0 = Some (VMM_OK, c)"
| "init_banks dt hk c bn (Suc n) = do {
     b \<leftarrow> bank_at c bn;
     let (rc, st) = ram_bank_start dt bn;
     if rc \<noteq> 0 then Some (rc, c) else do {
     let b = b\<lparr>bank_start := st\<rparr>;
     if st AND order_mask VMM_PAGE_SHIFT \<noteq> 0 then Some (VMM_EINVALID, set_bank c bn b) else do {
     let (rc, sz) = ram_bank_size dt bn;
     if rc \<noteq> 0 then Some (rc, set_bank c bn b) else do {
     let b = b\<lparr>bank_size := sz\<rparr>;
     if sz AND order_mask VMM_PAGE_SHIFT \<noteq> 0 then Some (VMM_EINVALID, set_bank c bn b) else do {
     let frames = (ucast (drop_bit VMM_PAGE_SHIFT sz) :: u32);
     bits \<leftarrow> int_arg frames;
     bm \<leftarrow> bitmap_zero (hk bn) bits;
     let b = b\<lparr>frame_count := frames, bmap := bm, bmap_sz := of_nat (bitmap_estimate_size bits),
               bmap_free := frames\<rparr>;
     let rc = request_resource dt st (st + sz - 1);
     if rc \<noteq> 0 then Some (rc, set_bank c bn b)
     else init_banks dt hk (set_bank c bn b) (Suc bn) n }}}}}"

definition vmm_host_ram_init :: "ram_devtree \<Rightarrow> (nat \<Rightarrow> bitmap) \<Rightarrow> (int \<times> host_ram_ctrl) option" where
  "vmm_host_ram_init dt hk =
     (let c = \<lparr>ram_ops = default_ops, ops_priv = 0, bank_count = 0,
               banks = replicate CONFIG_MAX_RAM_BANK_COUNT empty_bank\<rparr>;
          (rc, count) = ram_bank_count dt;
          c' = c\<lparr>bank_count := count\<rparr>
      in if rc \<noteq> 0 then Some (rc, c')
         else if count = 0 then Some (VMM_ENODEV, c')
         else if CONFIG_MAX_RAM_BANK_COUNT < unat count then Some (VMM_EINVALID, c')
         else init_banks dt hk c' 0 (unat count))"

section \<open>Well-formed banks\<close>

definition frames :: "host_ram_bank \<Rightarrow> nat" where
  "frames b = unat (frame_count b)"

definition frames_free :: "host_ram_bank \<Rightarrow> nat \<Rightarrow> nat \<Rightarrow> bool" where
  "frames_free b p n \<longleftrightarrow> (\<forall>i. p \<le> i \<and> i < p + n \<longrightarrow> \<not> bm_bit (bmap b) i)"

definition frames_used :: "host_ram_bank \<Rightarrow> nat \<Rightarrow> nat \<Rightarrow> bool" where
  "frames_used b p n \<longleftrightarrow> (\<forall>i. p \<le> i \<and> i < p + n \<longrightarrow> bm_bit (bmap b) i)"

text \<open>
  The invariant of a bank: it is page aligned and does not wrap, the bitmap has a bit for every
  frame, and \<^verbatim>\<open>bmap_free\<close> is the number of clear bits.
\<close>

definition bank_wf :: "host_ram_bank \<Rightarrow> bool" where
  "bank_wf b \<longleftrightarrow> 4096 dvd unat (bank_start b) \<and> unat (bank_size b) = frames b * 4096 \<and>
     unat (bank_start b) + unat (bank_size b) < 2 ^ 64 \<and> frames b < 2 ^ 31 \<and>
     length (bmap b) = BITS_TO_LONGS (frames b) \<and>
     unat (bmap_free b) = card {i. i < frames b \<and> \<not> bm_bit (bmap b) i}"

definition ram_wf :: "host_ram_ctrl \<Rightarrow> bool" where
  "ram_wf c \<longleftrightarrow> unat (bank_count c) \<le> length (banks c) \<and> (\<forall>b \<in> set (active_banks c). bank_wf b)"

lemma frames_in_bitmap: "bank_wf b \<Longrightarrow> frames b \<le> 64 * length (bmap b)"
  by (simp add: bank_wf_def BITS_TO_LONGS_def)

lemma int_arg_Some [simp]: "unat i < 2 ^ 31 \<Longrightarrow> int_arg i = Some (unat i)"
  by (simp add: int_arg_def)

lemma size_frames: "bank_wf b \<Longrightarrow> unat (drop_bit 12 (bank_size b)) = frames b"
  by (simp add: bank_wf_def drop_bit_eq_div unat_div)

lemma count_free_total:
  "unat lim \<le> 64 * length bm \<Longrightarrow> unat lim \<le> 2 ^ 31 \<Longrightarrow> unat i \<le> unat lim \<Longrightarrow>
   \<exists>m. count_free bm i lim f = Some (f + of_nat m) \<and> m \<le> unat lim - unat i \<and>
     (m = unat lim - unat i \<longleftrightarrow> (\<forall>k. unat i \<le> k \<and> k < unat lim \<longrightarrow> \<not> bm_bit bm k))"
proof (induction bm i lim f rule: count_free.induct)
  case (1 bm i lim f)
  show ?case
  proof (cases "i < lim")
    case False
    with 1(4) show ?thesis
      by (subst count_free.simps) (auto simp: word_less_nat_alt intro!: exI [of _ 0])
  next
    case True
    then have l: "unat i < unat lim" by (simp add: word_less_nat_alt)
    have s: "unat (i + 1) = Suc (unat i)" by (rule unat_Suc_bounded [OF l])
    have k: "int_arg i = Some (unat i)" using l 1(3) by simp
    have b: "bitmap_isset bm (unat i) = Some (bm_bit bm (unat i))" using l 1(2) by simp
    show ?thesis
    proof (cases "bm_bit bm (unat i)")
      case True
      then show ?thesis using \<open>i < lim\<close> k b l
        by (subst count_free.simps) (auto intro!: exI [of _ 0])
    next
      case False
      from 1(1) [OF \<open>i < lim\<close> k b False 1(2,3)] s l obtain m where
        m: "count_free bm (i + 1) lim (f + 1) = Some (f + 1 + of_nat m)" "m \<le> unat lim - Suc (unat i)"
          "m = unat lim - Suc (unat i) \<longleftrightarrow> (\<forall>k. Suc (unat i) \<le> k \<and> k < unat lim \<longrightarrow> \<not> bm_bit bm k)"
        by auto
      have "(\<forall>k. unat i \<le> k \<and> k < unat lim \<longrightarrow> \<not> bm_bit bm k) \<longleftrightarrow>
          (\<forall>k. Suc (unat i) \<le> k \<and> k < unat lim \<longrightarrow> \<not> bm_bit bm k)"
        using False by (metis Suc_leD le_neq_implies_less Suc_leI)
      then show ?thesis using \<open>i < lim\<close> k b l m False
        by (subst count_free.simps) (auto intro!: exI [of _ "Suc m"] simp: algebra_simps)
    qed
  qed
qed

text \<open>The run test of \<^verbatim>\<open>__host_ram_alloc\<close> and \<^verbatim>\<open>vmm_host_ram_reserve\<close> decides that a run is free.\<close>

lemma count_free_run:
  assumes "bank_wf b" and "unat bpos + unat bcnt \<le> frames b"
  shows "\<exists>r. count_free (bmap b) bpos (bpos + bcnt) 0 = Some r \<and>
     (r = bcnt \<longleftrightarrow> frames_free b (unat bpos) (unat bcnt))"
proof -
  have f: "frames b < 2 ^ 31" using assms(1) by (simp add: bank_wf_def)
  have e: "unat (bpos + bcnt) = unat bpos + unat bcnt"
    using assms(2) f by (simp add: unat_word_ariths(1))
  have "unat (bpos + bcnt) \<le> 64 * length (bmap b)" "unat (bpos + bcnt) \<le> 2 ^ 31"
    "unat bpos \<le> unat (bpos + bcnt)"
    using frames_in_bitmap [OF assms(1)] assms(2) f e by auto
  from count_free_total [OF this, of 0] e obtain m where
    m: "count_free (bmap b) bpos (bpos + bcnt) 0 = Some (of_nat m)" "m \<le> unat bcnt"
      "m = unat bcnt \<longleftrightarrow> frames_free b (unat bpos) (unat bcnt)"
    by (auto simp: frames_free_def)
  have "unat (of_nat m :: u32) = m"
    using m(2) unsigned_less [of bcnt, where 'a = nat] by (simp add: unsigned_of_nat take_bit_nat_eq_self_iff)
  then have "of_nat m = bcnt \<longleftrightarrow> m = unat bcnt" by auto
  with m show ?thesis by auto
qed

lemma mark_used_run:
  assumes "bank_wf b" and "unat bpos + unat bcnt \<le> frames b"
    and "frames_free b (unat bpos) (unat bcnt)"
  shows "\<exists>b'. mark_used b bpos bcnt = Some b' \<and> bank_wf b' \<and>
     bank_start b' = bank_start b \<and> bank_size b' = bank_size b \<and> frame_count b' = frame_count b \<and>
     unat (bmap_free b) = unat (bmap_free b') + unat bcnt \<and>
     (\<forall>i. bm_bit (bmap b') i \<longleftrightarrow> unat bpos \<le> i \<and> i < unat bpos + unat bcnt \<or> bm_bit (bmap b) i)"
proof -
  let ?p = "unat bpos" and ?n = "unat bcnt"
  have wf: "frames b < 2 ^ 31" "unat (bmap_free b) = card {i. i < frames b \<and> \<not> bm_bit (bmap b) i}"
    "length (bmap b) = BITS_TO_LONGS (frames b)"
    using assms(1) by (simp_all add: bank_wf_def)
  obtain bm where bm: "bitmap_set (bmap b) ?p ?n = Some bm" "length bm = length (bmap b)"
    "\<forall>i. bm_bit bm i \<longleftrightarrow> ?p \<le> i \<and> i < ?p + ?n \<or> bm_bit (bmap b) i"
    using bitmap_set_bits [of ?p ?n "bmap b"] frames_in_bitmap [OF assms(1)] assms(2) by auto
  note bits = bm(3) [rule_format]
  have split: "{i. i < frames b \<and> \<not> bm_bit (bmap b) i} =
      {i. i < frames b \<and> \<not> bm_bit bm i} \<union> {?p ..< ?p + ?n}"
    using assms(2,3) unfolding bits frames_free_def by auto
  have "card {i. i < frames b \<and> \<not> bm_bit (bmap b) i} = card {i. i < frames b \<and> \<not> bm_bit bm i} + ?n"
  proof -
    have "{i. i < frames b \<and> \<not> bm_bit bm i} \<inter> {?p ..< ?p + ?n} = {}"
      unfolding bits by auto
    then show ?thesis unfolding split by (subst card_Un_disjoint) simp_all
  qed
  then have c: "unat (bmap_free b) = card {i. i < frames b \<and> \<not> bm_bit bm i} + ?n"
    using wf(2) by simp
  then have "bcnt \<le> bmap_free b" by (simp add: word_le_nat_alt)
  then have d: "unat (bmap_free b - bcnt) = card {i. i < frames b \<and> \<not> bm_bit bm i}"
    using c by (simp add: unat_sub)
  let ?b = "b\<lparr>bmap := bm, bmap_free := bmap_free b - bcnt\<rparr>"
  have "mark_used b bpos bcnt = Some ?b"
    using assms(2) wf(1) bm(1) by (simp add: mark_used_def)
  moreover have "bank_wf ?b"
    using assms(1) bm(2) d by (simp add: bank_wf_def frames_def)
  ultimately show ?thesis
    using c d bm(3) by simp
qed

lemma mark_unused_run:
  assumes "bank_wf b" and "unat bpos + unat bcnt \<le> frames b"
    and "frames_used b (unat bpos) (unat bcnt)"
  shows "\<exists>b'. mark_unused b bpos bcnt = Some b' \<and> bank_wf b' \<and>
     bank_start b' = bank_start b \<and> bank_size b' = bank_size b \<and> frame_count b' = frame_count b \<and>
     unat (bmap_free b') = unat (bmap_free b) + unat bcnt \<and>
     (\<forall>i. bm_bit (bmap b') i \<longleftrightarrow>
        \<not> (unat bpos \<le> i \<and> i < unat bpos + unat bcnt) \<and> bm_bit (bmap b) i)"
proof -
  let ?p = "unat bpos" and ?n = "unat bcnt"
  have wf: "frames b < 2 ^ 31" "unat (bmap_free b) = card {i. i < frames b \<and> \<not> bm_bit (bmap b) i}"
    "length (bmap b) = BITS_TO_LONGS (frames b)"
    using assms(1) by (simp_all add: bank_wf_def)
  obtain bm where bm: "bitmap_clear (bmap b) ?p ?n = Some bm" "length bm = length (bmap b)"
    "\<forall>i. bm_bit bm i \<longleftrightarrow> \<not> (?p \<le> i \<and> i < ?p + ?n) \<and> bm_bit (bmap b) i"
    using bitmap_clear_bits [of ?p ?n "bmap b"] frames_in_bitmap [OF assms(1)] assms(2) by auto
  note bits = bm(3) [rule_format]
  have split: "{i. i < frames b \<and> \<not> bm_bit bm i} =
      {i. i < frames b \<and> \<not> bm_bit (bmap b) i} \<union> {?p ..< ?p + ?n}"
    using assms(2,3) unfolding bits frames_used_def by auto
  have c: "card {i. i < frames b \<and> \<not> bm_bit bm i} = unat (bmap_free b) + ?n"
  proof -
    have "{i. i < frames b \<and> \<not> bm_bit (bmap b) i} \<inter> {?p ..< ?p + ?n} = {}"
      using assms(3) by (auto simp: frames_used_def)
    then show ?thesis unfolding split wf(2) by (subst card_Un_disjoint) simp_all
  qed
  have "card {i. i < frames b \<and> \<not> bm_bit bm i} \<le> card {..< frames b}"
    by (rule card_mono) auto
  then have d: "unat (bmap_free b + bcnt) = unat (bmap_free b) + ?n"
    using c wf(1) by (simp add: unat_word_ariths(1))
  let ?b = "b\<lparr>bmap := bm, bmap_free := bmap_free b + bcnt\<rparr>"
  have "mark_unused b bpos bcnt = Some ?b"
    using assms(2) wf(1) bm(1) by (simp add: mark_unused_def)
  moreover have "bank_wf ?b"
    using assms(1) bm(2) c d by (simp add: bank_wf_def frames_def)
  ultimately show ?thesis
    using d bm(3) by simp
qed

section \<open>The search for one aligned chunk\<close>

definition frame_addr :: "host_ram_bank \<Rightarrow> nat \<Rightarrow> u64" where
  "frame_addr b p = bank_start b + of_nat p * 4096"

definition chunk_fits :: "(u64 \<Rightarrow> bool) \<Rightarrow> host_ram_bank \<Rightarrow> nat \<Rightarrow> nat \<Rightarrow> bool" where
  "chunk_fits cm b n p \<longleftrightarrow>
     n dvd p \<and> p + n \<le> frames b \<and> frames_free b p n \<and> cm (frame_addr b p)"

lemma page_size [simp]: "order_size 12 = 4096"
  by (simp add: order_size_def)

lemma unat_ucast_u32 [simp]: "unat (ucast (x :: u32) :: u64) = unat x"
  using unsigned_less [of x, where 'a = nat] by (simp add: unsigned_ucast_eq take_bit_nat_eq_self_iff)

lemma dvd_step:
  fixes n p f :: nat
  assumes "n dvd p" and "n dvd f" and "p < f"
  shows "p + n \<le> f"
proof -
  obtain i j where "p = n * i" "f = n * j" using assms(1,2) by (auto elim!: dvdE)
  with assms(3) have "i < j" by auto
  then have "n * Suc i \<le> n * j" by (intro mult_le_mono) simp_all
  with \<open>p = n * i\<close> \<open>f = n * j\<close> show ?thesis by simp
qed

lemma alloc_search_chunk:
  assumes "bank_wf b" and "unat bcnt dvd frames b" and "0 < unat bcnt"
  shows "unat bcnt dvd unat bpos \<Longrightarrow> unat bpos \<le> frames b \<Longrightarrow>
    (alloc_search cm b bcnt bcnt bpos = Some None \<and>
       (\<forall>p \<ge> unat bpos. \<not> chunk_fits cm b (unat bcnt) p)) \<or>
    (\<exists>pos b'. unat bpos \<le> unat pos \<and> chunk_fits cm b (unat bcnt) (unat pos) \<and>
       (\<forall>p. unat bpos \<le> p \<and> p < unat pos \<longrightarrow> \<not> chunk_fits cm b (unat bcnt) p) \<and>
       mark_used b pos bcnt = Some b' \<and>
       alloc_search cm b bcnt bcnt bpos = Some (Some (frame_addr b (unat pos), b')))"
proof (induction "frames b - unat bpos" arbitrary: bpos rule: less_induct)
  case less
  let ?n = "unat bcnt" and ?p = "unat bpos"
  have g: "ucast bpos < drop_bit 12 (bank_size b) \<longleftrightarrow> ?p < frames b"
    by (simp only: word_less_nat_alt size_frames [OF assms(1)] unat_ucast_u32)
  show ?case
  proof (cases "?p < frames b")
    case False
    then have "\<forall>p \<ge> ?p. \<not> chunk_fits cm b ?n p"
      using assms(3) by (auto simp: chunk_fits_def)
    moreover have "alloc_search cm b bcnt bcnt bpos = Some None"
      using False g by (subst alloc_search.simps) simp
    ultimately show ?thesis by simp
  next
    case True
    have fit: "?p + ?n \<le> frames b" by (rule dvd_step [OF less(2) assms(2) True])
    obtain r where r: "count_free (bmap b) bpos (bpos + bcnt) 0 = Some r"
      "r = bcnt \<longleftrightarrow> frames_free b ?p ?n"
      using count_free_run [OF assms(1) fit] by auto
    have e: "unat (bpos + bcnt) = ?p + ?n"
      using fit assms(1) by (simp add: unat_word_ariths(1) bank_wf_def)
    have addr: "bank_start b + ucast bpos * order_size 12 = frame_addr b ?p"
      by (simp add: frame_addr_def)
    show ?thesis
    proof (cases "chunk_fits cm b ?n ?p")
      case fits: True
      obtain b' where b': "mark_used b bpos bcnt = Some b'"
        using mark_used_run [OF assms(1) fit] fits by (auto simp: chunk_fits_def)
      have "alloc_search cm b bcnt bcnt bpos = Some (Some (frame_addr b ?p, b'))"
        using True g r b' fits addr by (subst alloc_search.simps) (simp add: chunk_fits_def)
      with b' fits show ?thesis by (auto intro!: exI [of _ bpos])
    next
      case nofit: False
      have step: "alloc_search cm b bcnt bcnt bpos = alloc_search cm b bcnt bcnt (bpos + bcnt)"
        using True g r nofit addr fit less(2)
        by (subst alloc_search.simps) (auto simp: chunk_fits_def)
      have skip: "\<not> chunk_fits cm b ?n p" if "?p \<le> p" "p < ?p + ?n" for p
      proof
        assume c: "chunk_fits cm b ?n p"
        then have "p \<noteq> ?p" using nofit by auto
        with that(1) have "?p + ?n \<le> p"
          using c less(2) by (intro dvd_step) (auto simp: chunk_fits_def)
        with that(2) show False by simp
      qed
      have ind: "(alloc_search cm b bcnt bcnt (bpos + bcnt) = Some None \<and>
           (\<forall>p \<ge> ?p + ?n. \<not> chunk_fits cm b ?n p)) \<or>
        (\<exists>pos b'. ?p + ?n \<le> unat pos \<and> chunk_fits cm b ?n (unat pos) \<and>
           (\<forall>p. ?p + ?n \<le> p \<and> p < unat pos \<longrightarrow> \<not> chunk_fits cm b ?n p) \<and>
           mark_used b pos bcnt = Some b' \<and>
           alloc_search cm b bcnt bcnt (bpos + bcnt) = Some (Some (frame_addr b (unat pos), b')))"
        using less(1) [of "bpos + bcnt"] e fit assms(3) less(2) True by simp
      show ?thesis
        unfolding step using ind skip by (metis add_leD1 not_le_imp_less)
    qed
  qed
qed

lemma and_order_mask: "x AND order_mask k = take_bit k x"
  by (simp add: order_mask_def order_size_def take_bit_eq_mask mask_eq_exp_minus_1)

lemma take_bit_u64_zero: "k \<le> 64 \<Longrightarrow> take_bit k (x :: u64) = 0 \<longleftrightarrow> 2 ^ k dvd unat x"
proof -
  have "take_bit k x = 0 \<longleftrightarrow> unat (take_bit k x) = 0" by (simp add: unat_eq_zero)
  then show ?thesis
    unfolding unsigned_take_bit_eq by (simp add: take_bit_eq_mod dvd_eq_mod_eq_0)
qed

lemma unat_order_size: "k < 64 \<Longrightarrow> unat (order_size k) = 2 ^ k"
proof -
  assume k: "k < 64"
  moreover have "order_size k = of_nat (2 ^ k)" by (simp add: order_size_def)
  ultimately show ?thesis by (simp only: unsigned_of_nat) (simp add: take_bit_nat_eq_self_iff)
qed

lemma unat_drop_bit_u64: "unat (drop_bit k (x :: u64)) = unat x div 2 ^ k"
  unfolding unat_drop_bit_eq by (simp add: drop_bit_eq_div)

lemma roundup_one_chunk:
  assumes "0 < unat sz" and "unat sz \<le> 2 ^ k" and "k < 64"
  shows "roundup2_order_size sz k = order_size k"
proof (cases "unat sz = 2 ^ k")
  case True
  then have "take_bit k sz = 0" using assms(3) by (simp add: take_bit_u64_zero)
  moreover have "sz = order_size k" using True assms(3) by (simp add: word_unat_eq_iff unat_order_size)
  ultimately show ?thesis by (simp add: roundup2_order_size_def and_order_mask)
next
  case False
  then have l: "unat sz < 2 ^ k" using assms(2) by simp
  then have t: "take_bit k sz = sz"
    by (simp only: word_unat_eq_iff unsigned_take_bit_eq) (simp add: take_bit_nat_eq_self_iff)
  have "order_align sz k = 0"
  proof -
    have "order_align sz k = (sz AND order_mask k) AND NOT (order_mask k)"
      by (simp only: order_align_def and_order_mask t)
    also have "\<dots> = 0" by (simp add: and.assoc)
    finally show ?thesis .
  qed
  moreover have "sz \<noteq> 0" using assms(1) by auto
  ultimately show ?thesis using t by (simp add: roundup2_order_size_def and_order_mask)
qed

lemma pages_of_order: 
  assumes "12 \<le> k" and "k < 64"
  shows "VMM_SIZE_TO_PAGE (order_size k) = drop_bit 12 (order_size k)"
    and "unat (drop_bit 12 (order_size k)) = 2 ^ (k - 12)"
proof -
  have "(2 :: nat) ^ 12 dvd 2 ^ k" using assms(1) by (rule le_imp_power_dvd)
  then have "take_bit 12 (order_size k) = 0"
    using take_bit_u64_zero [of 12 "order_size k"] assms(2) by (simp add: unat_order_size)
  then show "VMM_SIZE_TO_PAGE (order_size k) = drop_bit 12 (order_size k)"
    by (simp add: VMM_SIZE_TO_PAGE_def size_to_order_def and_order_mask)
  show "unat (drop_bit 12 (order_size k)) = 2 ^ (k - 12)"
    using assms by (simp add: unat_drop_bit_u64 unat_order_size power_diff)
qed

lemma unat_chunk_frames:
  assumes "12 \<le> k" and "k < 44"
  shows "unat (ucast (drop_bit 12 (order_size k)) :: u32) = 2 ^ (k - 12)"
proof -
  have "(2 :: nat) ^ (k - 12) < 2 ^ 32" using assms by (intro power_strict_increasing) simp_all
  then show ?thesis
    using assms pages_of_order(2) [of k]
    by (simp only: unsigned_ucast_eq) (simp add: take_bit_nat_eq_self_iff)
qed

lemma first_bpos_aligned: "2 ^ k dvd unat (bank_start b) \<Longrightarrow> k \<le> 64 \<Longrightarrow> first_bpos b k = 0"
  by (simp add: first_bpos_def and_order_mask take_bit_u64_zero [THEN iffD2])

definition bank_aligned :: "nat \<Rightarrow> host_ram_bank \<Rightarrow> bool" where
  "bank_aligned k b \<longleftrightarrow> 2 ^ k dvd unat (bank_start b) \<and> 2 ^ k dvd unat (bank_size b)"

lemma chunk_dvd_frames:
  assumes "bank_wf b" and "bank_aligned k b" and "12 \<le> k"
  shows "2 ^ (k - 12) dvd frames b"
proof -
  have "(2 :: nat) ^ k = 2 ^ (k - 12) * 4096"
    using assms(3) power_add [of "2 :: nat" "k - 12" 12] by simp
  then have "2 ^ (k - 12) * 4096 dvd frames b * 4096"
    using assms(1,2) by (simp add: bank_wf_def bank_aligned_def)
  then show ?thesis by (rule dvd_times_right_cancel_iff [THEN iffD1, rotated]) simp
qed

lemma few_free_no_chunk:
  assumes "bank_wf b" and "unat (bmap_free b) < n"
  shows "\<not> chunk_fits cm b n p"
proof
  assume "chunk_fits cm b n p"
  then have "{p ..< p + n} \<subseteq> {i. i < frames b \<and> \<not> bm_bit (bmap b) i}"
    by (auto simp: chunk_fits_def frames_free_def)
  then have "card {p ..< p + n} \<le> unat (bmap_free b)"
    using assms(1) by (simp only: bank_wf_def) (rule card_mono, auto)
  with assms(2) show False by simp
qed

lemma alloc_bank_step:
  assumes n_def: "n = ucast (drop_bit 12 (order_size k))"
    and "bank_wf b" and "bank_aligned k b" and "12 \<le> k" and "k < 44"
  shows "(alloc_search cm b n n (first_bpos b k) = Some None \<and> (\<forall>p. \<not> chunk_fits cm b (2 ^ (k - 12)) p)) \<or>
    (\<exists>pos b'. chunk_fits cm b (2 ^ (k - 12)) (unat pos) \<and>
       (\<forall>p < unat pos. \<not> chunk_fits cm b (2 ^ (k - 12)) p) \<and> mark_used b pos n = Some b' \<and>
       alloc_search cm b n n (first_bpos b k) = Some (Some (frame_addr b (unat pos), b')))"
proof -
  have f: "first_bpos b k = 0" using assms by (intro first_bpos_aligned) (simp_all add: bank_aligned_def)
  have n: "unat n = 2 ^ (k - 12)" unfolding n_def by (rule unat_chunk_frames [OF assms(4,5)])
  from alloc_search_chunk [OF assms(2), of n 0 cm] chunk_dvd_frames [OF assms(2,3,4)] n
  show ?thesis unfolding f by simp
qed

lemma active_bank_at:
  assumes "ram_wf c" and "bn < unat (bank_count c)"
  shows "bank_at c bn = Some (banks c ! bn)" and "bank_wf (banks c ! bn)"
    and "banks c ! bn \<in> set (active_banks c)"
proof -
  have l: "bn < length (banks c)" using assms by (simp add: ram_wf_def)
  then show "bank_at c bn = Some (banks c ! bn)" by (simp add: bank_at_def)
  show m: "banks c ! bn \<in> set (active_banks c)"
    using assms(2) l by (auto simp: active_banks_def in_set_conv_nth intro!: exI [of _ bn])
  then show "bank_wf (banks c ! bn)" using assms(1) by (simp add: ram_wf_def)
qed

lemma set_bank_wf:
  assumes "ram_wf c" and "bank_wf b"
  shows "ram_wf (set_bank c bn b)"
proof -
  have "set (take k (xs[bn := b])) \<subseteq> insert b (set (take k xs))" for k and xs :: "host_ram_bank list"
    by (metis set_update_subset_insert take_update_swap)
  with assms show ?thesis by (fastforce simp: ram_wf_def set_bank_def active_banks_def)
qed

text \<open>
  The contract of a one-chunk allocation over all banks: \<open>chunk_alloc cm c n bn0 r c'\<close> relates the
  state before and the result, looking at the banks from \<open>bn0\<close> on.
\<close>

definition chunk_alloc ::
  "(u64 \<Rightarrow> bool) \<Rightarrow> nat \<Rightarrow> nat \<Rightarrow> host_ram_ctrl \<Rightarrow> u64 option \<Rightarrow> host_ram_ctrl \<Rightarrow> bool" where
  "chunk_alloc cm n bn0 c pa c' \<longleftrightarrow>
     (pa = None \<and> c' = c \<and>
        (\<forall>bn p. bn0 \<le> bn \<and> bn < unat (bank_count c) \<longrightarrow> \<not> chunk_fits cm (banks c ! bn) n p)) \<or>
     (\<exists>bn p b'. bn0 \<le> bn \<and> bn < unat (bank_count c) \<and> chunk_fits cm (banks c ! bn) n p \<and>
        (\<forall>bn' p'. bn0 \<le> bn' \<and> (bn' < bn \<or> bn' = bn \<and> p' < p) \<longrightarrow>
           \<not> chunk_fits cm (banks c ! bn') n p') \<and>
        pa = Some (frame_addr (banks c ! bn) p) \<and> c' = set_bank c bn b' \<and> bank_wf b' \<and>
        bank_start b' = bank_start (banks c ! bn) \<and> bank_size b' = bank_size (banks c ! bn) \<and>
        frame_count b' = frame_count (banks c ! bn) \<and>
        (\<forall>i. bm_bit (bmap b') i \<longleftrightarrow> p \<le> i \<and> i < p + n \<or> bm_bit (bmap (banks c ! bn)) i))"

lemma chunk_alloc_skip:
  assumes "chunk_alloc cm n (Suc bn) c pa c'" and "\<forall>p. \<not> chunk_fits cm (banks c ! bn) n p"
  shows "chunk_alloc cm n bn c pa c'"
  using assms(1) unfolding chunk_alloc_def
proof (elim disjE exE conjE, goal_cases)
  case 1
  have "\<not> chunk_fits cm (banks c ! k) n p" if "bn \<le> k" "k < unat (bank_count c)" for k p
    using that 1(3) assms(2) by (cases "k = bn") auto
  with 1 show ?case by (intro disjI1) auto
next
  case (2 k p b')
  have "\<not> chunk_fits cm (banks c ! k') n p'" if "bn \<le> k' \<and> (k' < k \<or> k' = k \<and> p' < p)" for k' p'
    using that 2(4) assms(2) by (cases "k' = bn") auto
  with 2 show ?case by (intro disjI2 exI [of _ k] exI [of _ p] exI [of _ b']) auto
qed

lemma alloc_banks_chunk:
  assumes "ram_wf c" and "\<forall>b \<in> set (active_banks c). bank_aligned k b" and "12 \<le> k" and "k < 44"
  shows "bn + m = unat (bank_count c) \<Longrightarrow>
    \<exists>r pa c'. alloc_banks cm sz k (ucast (drop_bit 12 (order_size k))) c bn m = Some (r, pa, c') \<and>
      r = (if pa = None then 0 else sz) \<and> chunk_alloc cm (2 ^ (k - 12)) bn c pa c'"
proof (induction m arbitrary: bn)
  case 0
  then show ?case by (auto simp: chunk_alloc_def)
next
  case (Suc m)
  let ?n = "ucast (drop_bit 12 (order_size k)) :: u32" and ?b = "banks c ! bn"
  have n: "unat ?n = 2 ^ (k - 12)" by (rule unat_chunk_frames [OF assms(3,4)])
  have bn: "bn < unat (bank_count c)" using Suc.prems by simp
  note b = active_bank_at [OF assms(1) bn]
  have al: "bank_aligned k ?b" using b(3) assms(2) by blast
  obtain r pa c' where rest: "alloc_banks cm sz k ?n c (Suc bn) m = Some (r, pa, c')"
    "r = (if pa = None then 0 else sz)" "chunk_alloc cm (2 ^ (k - 12)) (Suc bn) c pa c'"
    using Suc.IH [of "Suc bn"] Suc.prems by auto
  show ?case
  proof (cases "bmap_free ?b < ?n")
    case True
    then have "unat (bmap_free ?b) < 2 ^ (k - 12)" using n by (simp only: word_less_nat_alt)
    then have "\<forall>p. \<not> chunk_fits cm ?b (2 ^ (k - 12)) p"
      using few_free_no_chunk [OF b(2)] by blast
    from chunk_alloc_skip [OF rest(3) this] True rest(1,2) b(1) show ?thesis by auto
  next
    case False
    from alloc_bank_step [OF refl b(2) al assms(3,4), of cm] show ?thesis
    proof (elim disjE exE conjE)
      assume none: "alloc_search cm ?b ?n ?n (first_bpos ?b k) = Some None"
        and "\<forall>p. \<not> chunk_fits cm ?b (2 ^ (k - 12)) p"
      from chunk_alloc_skip [OF rest(3) this(2)] False rest(1,2) b(1) none show ?thesis by auto
    next
      fix pos b' assume fits: "chunk_fits cm ?b (2 ^ (k - 12)) (unat pos)"
        and first: "\<forall>p < unat pos. \<not> chunk_fits cm ?b (2 ^ (k - 12)) p"
        and b': "mark_used ?b pos ?n = Some b'"
        and s: "alloc_search cm ?b ?n ?n (first_bpos ?b k) = Some (Some (frame_addr ?b (unat pos), b'))"
      have "unat pos + unat ?n \<le> frames ?b" "frames_free ?b (unat pos) (unat ?n)"
        using fits n by (simp_all add: chunk_fits_def)
      from mark_used_run [OF b(2) this] b'
      have m: "bank_wf b'" "bank_start b' = bank_start ?b" "bank_size b' = bank_size ?b"
        "frame_count b' = frame_count ?b"
        "\<forall>i. bm_bit (bmap b') i \<longleftrightarrow> unat pos \<le> i \<and> i < unat pos + 2 ^ (k - 12) \<or> bm_bit (bmap ?b) i"
        by (auto simp: n)
      have "chunk_alloc cm (2 ^ (k - 12)) bn c (Some (frame_addr ?b (unat pos))) (set_bank c bn b')"
        unfolding chunk_alloc_def
        by (rule disjI2, intro exI [of _ bn] exI [of _ "unat pos"] exI [of _ b'])
          (use bn fits first m in auto)
      with False b(1) s show ?thesis by auto
    qed
  qed
qed

section \<open>Reserve and free\<close>

text \<open>The bank that \<^verbatim>\<open>vmm_host_ram_reserve\<close> and \<^verbatim>\<open>vmm_host_ram_free\<close> pick for a range.\<close>

definition bank_of :: "host_ram_ctrl \<Rightarrow> u64 \<Rightarrow> u64 \<Rightarrow> nat \<Rightarrow> bool" where
  "bank_of c pa sz bn \<longleftrightarrow> unat pa + unat sz < 2 ^ 64 \<and> bn < unat (bank_count c) \<and>
     in_bank (banks c ! bn) pa sz \<and> (\<forall>k < bn. \<not> in_bank (banks c ! k) pa sz)"

lemma unat_size_to_page: "unat (VMM_SIZE_TO_PAGE sz) = (unat sz + 4095) div 4096"
proof -
  have z: "take_bit 12 sz = 0 \<longleftrightarrow> unat sz mod 4096 = 0"
    using take_bit_u64_zero [of 12 sz] by (simp add: dvd_eq_mod_eq_0)
  have "(unat sz + 4095) div 4096 = unat sz div 4096 + (if unat sz mod 4096 = 0 then 0 else 1)"
  proof -
    have "unat sz + 4095 = (unat sz mod 4096 + 4095) + unat sz div 4096 * 4096" by simp
    then have "(unat sz + 4095) div 4096 = (unat sz mod 4096 + 4095) div 4096 + unat sz div 4096"
      by (metis div_mult_self3 add.commute zero_neq_numeral)
    moreover have "(unat sz mod 4096 + 4095) div 4096 = (if unat sz mod 4096 = 0 then 0 else 1)"
      using mod_less_divisor [of 4096 "unat sz"] by (auto intro!: div_nat_eqI)
    ultimately show ?thesis by simp
  qed
  moreover have "unat sz div 4096 + 1 < 2 ^ 64"
    using unsigned_less [of sz, where 'a = nat] div_le_dividend [of "unat sz" 4096]
    by (simp add: less_mult_imp_div_less)
  ultimately show ?thesis
    by (simp add: VMM_SIZE_TO_PAGE_def size_to_order_def and_order_mask z unat_drop_bit_u64
        unat_word_ariths(1) del: drop_bit_numeral_minus_bit1)
qed

lemma page_split:
  fixes d s f :: nat
  assumes "d + s \<le> f * 4096"
  shows "d div 4096 + (s + 4095) div 4096 \<le> f"
proof -
  have "d div 4096 * 4096 \<le> d" "(s + 4095) div 4096 * 4096 \<le> s + 4095" by simp_all
  with assms have "(d div 4096 + (s + 4095) div 4096) * 4096 \<le> f * 4096 + 4095"
    unfolding add_mult_distrib by linarith
  then have "(d div 4096 + (s + 4095) div 4096) * 4096 < Suc f * 4096" by simp
  then have "d div 4096 + (s + 4095) div 4096 < Suc f" by (rule mult_less_cancel2 [THEN iffD1, THEN conjunct2])
  then show ?thesis by simp
qed

lemma range_in_bank:
  assumes "bank_wf b" and "in_bank b pa sz" and "unat pa + unat sz < 2 ^ 64"
  shows "unat (range_pos b pa) = (unat pa - unat (bank_start b)) div 4096"
    and "unat (range_cnt sz) = (unat sz + 4095) div 4096"
    and "unat (range_pos b pa) + unat (range_cnt sz) \<le> frames b"
proof -
  let ?d = "unat pa - unat (bank_start b)"
  have wf: "unat (bank_size b) = frames b * 4096" "unat (bank_start b) + unat (bank_size b) < 2 ^ 64"
    "frames b < 2 ^ 31"
    using assms(1) by (simp_all add: bank_wf_def)
  have ge: "unat (bank_start b) \<le> unat pa"
    and le: "unat pa + unat sz \<le> unat (bank_start b) + unat (bank_size b)"
    using assms(2,3) wf(2)
    by (simp_all add: in_bank_def not_less word_le_nat_alt unat_word_ariths(1) del: not_less_iff_gr_or_eq)
  have s: "?d + unat sz \<le> frames b * 4096" using ge le wf(1) by simp
  note fit = page_split [OF s]
  have d: "unat (pa - bank_start b) = ?d"
    using ge by (simp add: unat_sub word_le_nat_alt)
  have small: "?d div 4096 < 2 ^ 32" "(unat sz + 4095) div 4096 < 2 ^ 32" using fit wf(3) by simp_all
  show p: "unat (range_pos b pa) = ?d div 4096"
    using small(1) unfolding range_pos_def VMM_PAGE_SHIFT_def unsigned_ucast_eq unat_drop_bit_u64 d
    by (simp add: take_bit_nat_eq_self_iff)
  show c: "unat (range_cnt sz) = (unat sz + 4095) div 4096"
    using small(2) unfolding range_cnt_def unsigned_ucast_eq unat_size_to_page
    by (simp add: take_bit_nat_eq_self_iff)
  show "unat (range_pos b pa) + unat (range_cnt sz) \<le> frames b"
    unfolding p c by (rule fit)
qed

lemma reserve_banks_at:
  assumes "ram_wf c" and "bank_of c pa sz bn"
  shows "k \<le> bn \<Longrightarrow> k + m = unat (bank_count c) \<Longrightarrow> reserve_banks pa sz c k m =
    (let b = banks c ! bn in
     if frames_free b (unat (range_pos b pa)) (unat (range_cnt sz))
     then map_option (\<lambda>b'. (VMM_OK, set_bank c bn b')) (mark_used b (range_pos b pa) (range_cnt sz))
     else Some (VMM_ENOSPC, c))"
proof (induction m arbitrary: k)
  case 0
  then show ?case using assms(2) by (simp add: bank_of_def)
next
  case (Suc m)
  have k: "k < unat (bank_count c)" using Suc.prems by simp
  note b = active_bank_at [OF assms(1) k]
  show ?case
  proof (cases "k = bn")
    case False
    then have "\<not> in_bank (banks c ! k) pa sz" using Suc.prems assms(2) by (simp add: bank_of_def)
    then show ?thesis using b(1) False Suc.prems Suc.IH [of "Suc k"] by simp
  next
    case True
    let ?b = "banks c ! bn"
    have i: "in_bank ?b pa sz" "unat pa + unat sz < 2 ^ 64" using assms(2) by (simp_all add: bank_of_def)
    have wf: "bank_wf ?b" using b(2) True by simp
    note r = range_in_bank [OF wf i]
    obtain bf where bf: "count_free (bmap ?b) (range_pos ?b pa) (range_pos ?b pa + range_cnt sz) 0 = Some bf"
      "bf = range_cnt sz \<longleftrightarrow> frames_free ?b (unat (range_pos ?b pa)) (unat (range_cnt sz))"
      using count_free_run [OF wf r(3)] by auto
    have low: "\<not> frames_free ?b (unat (range_pos ?b pa)) (unat (range_cnt sz))"
      if "bmap_free ?b < range_cnt sz"
    proof
      assume "frames_free ?b (unat (range_pos ?b pa)) (unat (range_cnt sz))"
      from mark_used_run [OF wf r(3) this] have "unat (range_cnt sz) \<le> unat (bmap_free ?b)" by auto
      with that show False by (simp add: word_less_nat_alt)
    qed
    show ?thesis
      using b(1) True i(1) bf low
      by (auto simp: Let_def map_conv_bind_option comp_def)
  qed
qed

lemma free_banks_at:
  assumes "ram_wf c" and "bank_of c pa sz bn"
  shows "k \<le> bn \<Longrightarrow> k + m = unat (bank_count c) \<Longrightarrow> free_banks pa sz c k m =
    map_option (\<lambda>b'. (VMM_OK, set_bank c bn b'))
      (mark_unused (banks c ! bn) (range_pos (banks c ! bn) pa) (range_cnt sz))"
proof (induction m arbitrary: k)
  case 0
  then show ?case using assms(2) by (simp add: bank_of_def)
next
  case (Suc m)
  have k: "k < unat (bank_count c)" using Suc.prems by simp
  note b = active_bank_at [OF assms(1) k]
  have "in_bank (banks c ! k) pa sz \<longleftrightarrow> k = bn"
    using Suc.prems assms(2) by (cases "k = bn") (auto simp: bank_of_def)
  then show ?case using b(1) Suc.prems Suc.IH [of "Suc k"]
    by (auto simp: map_conv_bind_option comp_def)
qed

section \<open>Initialisation\<close>

definition devtree_bank_ok :: "ram_devtree \<Rightarrow> (nat \<Rightarrow> bitmap) \<Rightarrow> nat \<Rightarrow> bool" where
  "devtree_bank_ok dt hk bn \<longleftrightarrow>
     (case (ram_bank_start dt bn, ram_bank_size dt bn) of ((rc1, st), (rc2, sz)) \<Rightarrow>
        rc1 = 0 \<and> rc2 = 0 \<and> 4096 dvd unat st \<and> 4096 dvd unat sz \<and> unat st + unat sz < 2 ^ 64 \<and>
        unat sz div 4096 < 2 ^ 31 \<and> request_resource dt st (st + sz - 1) = 0 \<and>
        length (hk bn) = BITS_TO_LONGS (unat sz div 4096))"

definition fresh_bank :: "ram_devtree \<Rightarrow> nat \<Rightarrow> host_ram_bank \<Rightarrow> bool" where
  "fresh_bank dt bn b \<longleftrightarrow> bank_wf b \<and> bank_start b = snd (ram_bank_start dt bn) \<and>
     bank_size b = snd (ram_bank_size dt bn) \<and> bmap_free b = frame_count b \<and>
     frames_free b 0 (frames b)"

lemma init_bank_fresh:
  assumes "devtree_bank_ok dt hk bn"
  defines "frm \<equiv> ucast (drop_bit 12 (snd (ram_bank_size dt bn))) :: u32"
  shows "\<exists>bm. bitmap_zero (hk bn) (unat frm) = Some bm \<and> unat frm < 2 ^ 31 \<and>
    (\<forall>b sz. fresh_bank dt bn (b\<lparr>bank_start := snd (ram_bank_start dt bn),
      bank_size := snd (ram_bank_size dt bn), frame_count := frm, bmap := bm, bmap_sz := sz,
      bmap_free := frm\<rparr>))"
proof -
  obtain st sz' where dt: "ram_bank_start dt bn = (0, st)" "ram_bank_size dt bn = (0, sz')"
    and st: "4096 dvd unat st" and sz: "4096 dvd unat sz'" and lim: "unat st + unat sz' < 2 ^ 64"
    and fr: "unat sz' div 4096 < 2 ^ 31" and hk: "length (hk bn) = BITS_TO_LONGS (unat sz' div 4096)"
    using assms(1) by (auto simp: devtree_bank_ok_def split: prod.splits)
  have f: "unat frm = unat sz' div 4096"
    using fr unfolding frm_def dt snd_conv unsigned_ucast_eq unat_drop_bit_u64
    by (simp add: take_bit_nat_eq_self_iff)
  obtain bm where bm: "bitmap_zero (hk bn) (unat frm) = Some bm" "length bm = length (hk bn)"
    "\<forall>i < unat frm. \<not> bm_bit bm i"
    using bitmap_zero_bits [of "unat frm" "hk bn"] f hk by auto
  have "{i. i < unat frm \<and> \<not> bm_bit bm i} = {..< unat frm}" using bm(3) by auto
  with st sz lim fr hk bm f show ?thesis
    by (simp add: fresh_bank_def bank_wf_def frames_def frames_free_def dt)
qed

lemma init_banks_fresh:
  "\<forall>k. bn \<le> k \<and> k < bn + n \<longrightarrow> devtree_bank_ok dt hk k \<Longrightarrow> bn + n \<le> length (banks c) \<Longrightarrow>
   \<exists>c'. init_banks dt hk c bn n = Some (VMM_OK, c') \<and> bank_count c' = bank_count c \<and>
     length (banks c') = length (banks c) \<and> (\<forall>k < bn. banks c' ! k = banks c ! k) \<and>
     (\<forall>k. bn \<le> k \<and> k < bn + n \<longrightarrow> fresh_bank dt k (banks c' ! k))"
proof (induction n arbitrary: bn c)
  case 0
  then show ?case by auto
next
  case (Suc n)
  have ok: "devtree_bank_ok dt hk bn" using Suc.prems(1) by simp
  let ?b = "banks c ! bn" and ?st = "snd (ram_bank_start dt bn)" and ?sz = "snd (ram_bank_size dt bn)"
  let ?frm = "ucast (drop_bit 12 ?sz) :: u32"
  obtain bm where bm: "bitmap_zero (hk bn) (unat ?frm) = Some bm" "unat ?frm < 2 ^ 31"
    and fresh: "\<And>sz. fresh_bank dt bn (?b\<lparr>bank_start := ?st, bank_size := ?sz, frame_count := ?frm,
      bmap := bm, bmap_sz := sz, bmap_free := ?frm\<rparr>)"
    using init_bank_fresh [OF ok] by blast
  define b' where "b' = ?b\<lparr>bank_start := ?st, bank_size := ?sz, frame_count := ?frm,
      bmap := bm, bmap_sz := of_nat (bitmap_estimate_size (unat ?frm)), bmap_free := ?frm\<rparr>"
  have at: "bank_at c bn = Some ?b" using Suc.prems(2) by (simp add: bank_at_def)
  have step: "init_banks dt hk c bn (Suc n) = init_banks dt hk (set_bank c bn b') (Suc bn) n"
    using ok at bm
    by (auto simp: devtree_bank_ok_def b'_def Let_def and_order_mask take_bit_u64_zero [of 12, simplified]
        split: prod.splits)
  obtain c' where c': "init_banks dt hk (set_bank c bn b') (Suc bn) n = Some (VMM_OK, c')"
    "bank_count c' = bank_count c" "length (banks c') = length (banks c)"
    "\<forall>k < Suc bn. banks c' ! k = banks (set_bank c bn b') ! k"
    "\<forall>k. Suc bn \<le> k \<and> k < Suc bn + n \<longrightarrow> fresh_bank dt k (banks c' ! k)"
    using Suc.IH [of "Suc bn" "set_bank c bn b'"] Suc.prems by (auto simp: set_bank_def)
  have at_bn: "fresh_bank dt bn (banks c' ! bn)"
    using c'(4) Suc.prems(2) fresh by (simp add: set_bank_def b'_def)
  have "fresh_bank dt k (banks c' ! k)" if "bn \<le> k" "k < bn + Suc n" for k
    using that c'(5) at_bn by (cases "k = bn") auto
  moreover have "\<forall>k < bn. banks c' ! k = banks c ! k"
    using c'(4) by (simp add: set_bank_def)
  ultimately show ?case
    using c'(1-3) unfolding step by blast
qed

section \<open>Properties\<close>

text \<open>
  Further fact: \<^verbatim>\<open>vmm_host_ram_init\<close> succeeds on every device tree with page-aligned banks and leaves
  a well-formed allocator in which each bank has the device tree's range and every frame is free.
\<close>
theorem host_ram_init_all_free:
  assumes "ram_bank_count dt = (0, cnt)" and "cnt \<noteq> 0" and "unat cnt \<le> CONFIG_MAX_RAM_BANK_COUNT"
    and "\<forall>bn < unat cnt. devtree_bank_ok dt hk bn"
  shows "\<exists>c. vmm_host_ram_init dt hk = Some (VMM_OK, c) \<and> bank_count c = cnt \<and> ram_wf c \<and>
    (\<forall>bn < unat cnt. fresh_bank dt bn (banks c ! bn))"
proof -
  let ?c = "\<lparr>ram_ops = default_ops, ops_priv = 0, bank_count = cnt,
      banks = replicate CONFIG_MAX_RAM_BANK_COUNT empty_bank\<rparr>"
  obtain c where c: "init_banks dt hk ?c 0 (unat cnt) = Some (VMM_OK, c)" "bank_count c = cnt"
    "length (banks c) = CONFIG_MAX_RAM_BANK_COUNT" "\<forall>k < unat cnt. fresh_bank dt k (banks c ! k)"
    using init_banks_fresh [of 0 "unat cnt" dt hk ?c] assms by auto
  have "vmm_host_ram_init dt hk = Some (VMM_OK, c)"
    using c(1) assms by (simp add: vmm_host_ram_init_def)
  moreover have "ram_wf c"
    using c assms(3) by (auto simp: ram_wf_def active_banks_def in_set_conv_nth fresh_bank_def)
  ultimately show ?thesis using c by blast
qed

definition example_devtree :: ram_devtree where
  "example_devtree = \<lparr>ram_bank_count = (0, 1), ram_bank_start = (\<lambda>bn. (0, 0x80000000)),
     ram_bank_size = (\<lambda>bn. (0, 0x3000)), request_resource = (\<lambda>s e. 0)\<rparr>"

theorem host_ram_init_all_free_witness:
  "\<exists>c. vmm_host_ram_init example_devtree (\<lambda>bn. [7]) = Some (VMM_OK, c) \<and> bank_count c = 1 \<and> ram_wf c \<and>
    (\<forall>bn < unat (1 :: u32). fresh_bank example_devtree bn (banks c ! bn))"
  by (rule host_ram_init_all_free)
    (simp_all add: example_devtree_def devtree_bank_ok_def CONFIG_MAX_RAM_BANK_COUNT_def
      BITS_TO_LONGS_def)

text \<open>
  Property C35: a request of at most one aligned chunk (\<^verbatim>\<open>sz\<close> up to \<open>2 ^ align_order\<close>, the page
  and colour allocations of the callers) on banks aligned to that order always returns. It takes
  the first chunk, in bank order, all of whose frames are free, lies inside its bank and is
  aligned; it marks exactly those frames and keeps the free counters exact; and it returns 0 and
  changes nothing only when no chunk is free.
\<close>
theorem host_ram_alloc_chunk:
  assumes "ram_wf c" and "\<forall>b \<in> set (active_banks c). bank_aligned (unat align_order) b"
    and "12 \<le> unat align_order" and "unat align_order < 44"
    and "0 < unat sz" and "unat sz \<le> 2 ^ unat align_order"
  shows "\<exists>r pa c'. vmm_host_ram_alloc c sz align_order = Some (r, pa, c') \<and>
    r = (if pa = None then 0 else order_size (unat align_order)) \<and> ram_wf c' \<and>
    chunk_alloc (\<lambda>p. True) (2 ^ (unat align_order - 12)) 0 c pa c'"
proof -
  let ?k = "unat align_order"
  have k: "?k < 64" using assms(4) by simp
  have g: "\<not> (sz = 0 \<or> ?k < VMM_PAGE_SHIFT \<or> BITS_PER_LONG \<le> ?k)"
    using assms(3,4,5) by auto
  have r: "roundup2_order_size sz ?k = order_size ?k"
    by (rule roundup_one_chunk [OF assms(5,6) k])
  obtain r pa c' where a:
    "alloc_banks (\<lambda>p. True) (order_size ?k) ?k (ucast (drop_bit 12 (order_size ?k))) c 0
       (unat (bank_count c)) = Some (r, pa, c')"
    "r = (if pa = None then 0 else order_size ?k)" "chunk_alloc (\<lambda>p. True) (2 ^ (?k - 12)) 0 c pa c'"
    using alloc_banks_chunk [OF assms(1-4), of 0 "unat (bank_count c)" "\<lambda>p. True" "order_size ?k"]
    by (simp only: add_0 refl simp_thms) blast
  have "vmm_host_ram_alloc c sz align_order = Some (r, pa, c')"
    using a(1) g
    by (simp only: vmm_host_ram_alloc_def host_ram_alloc_raw_def if_False Let_def r
        pages_of_order(1) [OF assms(3) k] option.case)
  moreover have "ram_wf c'"
    using a(3) assms(1) unfolding chunk_alloc_def by (auto intro: set_bank_wf)
  ultimately show ?thesis using a(2,3) by blast
qed

definition example_ram :: "ulong \<Rightarrow> u32 \<Rightarrow> host_ram_ctrl" where
  "example_ram bits free = \<lparr>ram_ops = default_ops, ops_priv = 0, bank_count = 1,
     banks = [\<lparr>bank_start = 0x80000000, bank_size = 0x3000, frame_count = 3, bmap = [bits],
       bmap_sz = 8, bmap_free = free\<rparr>]\<rparr>"

lemma example_ram_wf: "ram_wf (example_ram 0b010 2)"
proof -
  have "{i. i < 3 \<and> \<not> bm_bit [0b010] i} = {0, 2}"
    by (auto simp: bm_bit_def less_Suc_eq numeral_3_eq_3 bit_simps)
  then have "card {i. i < 3 \<and> \<not> bm_bit [0b010] i} = 2" by simp
  then show ?thesis
    by (simp add: ram_wf_def active_banks_def example_ram_def bank_wf_def frames_def BITS_TO_LONGS_def)
qed

theorem host_ram_alloc_chunk_witness:
  "\<exists>r pa c'. vmm_host_ram_alloc (example_ram 0b010 2) 100 12 = Some (r, pa, c') \<and>
    r = (if pa = None then 0 else order_size (unat (12 :: u32))) \<and> ram_wf c' \<and>
    chunk_alloc (\<lambda>p. True) (2 ^ (unat (12 :: u32) - 12)) 0 (example_ram 0b010 2) pa c'"
  by (rule host_ram_alloc_chunk [OF example_ram_wf])
    (simp_all add: example_ram_def active_banks_def bank_aligned_def)

lemma host_ram_reserve_free_parts:
  assumes "ram_wf c" and "bank_of c pa sz bn"
    and b: "b = banks c ! bn" and p: "p = unat (range_pos b pa)" and n: "n = unat (range_cnt sz)"
  shows "\<not> frames_free b p n \<Longrightarrow> vmm_host_ram_reserve c pa sz = Some (VMM_ENOSPC, c)"
    and "frames_free b p n \<Longrightarrow> \<exists>b1 b2.
      vmm_host_ram_reserve c pa sz = Some (VMM_OK, set_bank c bn b1) \<and> ram_wf (set_bank c bn b1) \<and>
      frames_used b1 p n \<and> unat (bmap_free b) = unat (bmap_free b1) + n \<and>
      vmm_host_ram_free (set_bank c bn b1) pa sz = Some (VMM_OK, set_bank c bn b2) \<and>
      ram_wf (set_bank c bn b2) \<and> bmap_free b2 = bmap_free b \<and>
      (\<forall>i. bm_bit (bmap b2) i = bm_bit (bmap b) i)"
proof -
  note at = reserve_banks_at [OF assms(1,2), of 0 "unat (bank_count c)", simplified]
  have bn: "bn < unat (bank_count c)" "in_bank b pa sz" "unat pa + unat sz < 2 ^ 64"
    using assms(2) by (simp_all add: bank_of_def b)
  have wf: "bank_wf b" using active_bank_at(2) [OF assms(1) bn(1)] by (simp add: b)
  note fit = range_in_bank(3) [OF wf bn(2,3)]
  show "vmm_host_ram_reserve c pa sz = Some (VMM_ENOSPC, c)" if "\<not> frames_free b p n"
    using at that by (simp add: vmm_host_ram_reserve_def b p n Let_def)
  assume fr: "frames_free b p n"
  obtain b1 where m: "mark_used b (range_pos b pa) (range_cnt sz) = Some b1" and wf1: "bank_wf b1"
    and same: "bank_start b1 = bank_start b" "bank_size b1 = bank_size b" "frame_count b1 = frame_count b"
    and cnt: "unat (bmap_free b) = unat (bmap_free b1) + n"
    and bits: "\<forall>i. bm_bit (bmap b1) i \<longleftrightarrow> p \<le> i \<and> i < p + n \<or> bm_bit (bmap b) i"
    using mark_used_run [OF wf fit] fr by (auto simp: p n)
  have used: "frames_used b1 p n" using bits by (simp add: frames_used_def)
  let ?c1 = "set_bank c bn b1"
  have c1: "ram_wf ?c1" by (rule set_bank_wf [OF assms(1) wf1])
  have len: "bn < length (banks c)" using bn(1) assms(1) by (simp add: ram_wf_def)
  have get: "banks ?c1 ! bn = b1" and oth: "\<And>k. k < bn \<Longrightarrow> banks ?c1 ! k = banks c ! k"
    using len by (simp_all add: set_bank_def)
  have in1: "in_bank b1 pa sz = in_bank b pa sz" by (simp add: in_bank_def same)
  have bo: "bank_of ?c1 pa sz bn"
    using assms(2) bn in1 get oth by (auto simp: bank_of_def set_bank_def b)
  have pos: "range_pos b1 pa = range_pos b pa" by (simp add: range_pos_def same)
  have fit1: "unat (range_pos b1 pa) + unat (range_cnt sz) \<le> frames b1"
    using fit by (simp add: pos frames_def same)
  obtain b2 where m2: "mark_unused b1 (range_pos b1 pa) (range_cnt sz) = Some b2" and wf2: "bank_wf b2"
    and cnt2: "unat (bmap_free b2) = unat (bmap_free b1) + n"
    and bits2: "\<forall>i. bm_bit (bmap b2) i \<longleftrightarrow> \<not> (p \<le> i \<and> i < p + n) \<and> bm_bit (bmap b1) i"
    using mark_unused_run [OF wf1 fit1] used by (auto simp: p n pos)
  have "vmm_host_ram_free ?c1 pa sz = Some (VMM_OK, set_bank ?c1 bn b2)"
    using free_banks_at [OF c1 bo, of 0 "unat (bank_count ?c1)"] m2 get
    by (simp add: vmm_host_ram_free_def)
  moreover have "set_bank ?c1 bn b2 = set_bank c bn b2" by (simp add: set_bank_def)
  moreover have "vmm_host_ram_reserve c pa sz = Some (VMM_OK, ?c1)"
    using at m fr by (simp add: vmm_host_ram_reserve_def b p n Let_def)
  moreover have "bm_bit (bmap b2) i = bm_bit (bmap b) i" for i
    using bits bits2 fr by (auto simp: frames_free_def)
  moreover have "bmap_free b2 = bmap_free b" using cnt cnt2 by (simp add: word_unat_eq_iff)
  ultimately show "\<exists>b1 b2.
      vmm_host_ram_reserve c pa sz = Some (VMM_OK, set_bank c bn b1) \<and> ram_wf (set_bank c bn b1) \<and>
      frames_used b1 p n \<and> unat (bmap_free b) = unat (bmap_free b1) + n \<and>
      vmm_host_ram_free (set_bank c bn b1) pa sz = Some (VMM_OK, set_bank c bn b2) \<and>
      ram_wf (set_bank c bn b2) \<and> bmap_free b2 = bmap_free b \<and>
      (\<forall>i. bm_bit (bmap b2) i = bm_bit (bmap b) i)"
    using c1 used cnt set_bank_wf [OF assms(1) wf2] by metis
qed



lemma host_ram_alloc_past_bank_end_parts:
  shows "\<exists>c'. vmm_host_ram_alloc (example_ram 0b010 2) 0x2000 12 = Some (0x2000, Some 0x80002000, c') \<and>
      0x80000000 + 0x3000 < (0x80002000 + 0x2000 :: u64)"
    and "vmm_host_ram_alloc (example_ram 0b010 2) 0x100000000000 12 =
      Some (0x100000000000, Some 0x80000000, example_ram 0b010 2)"
proof -
  note defs = vmm_host_ram_alloc_def host_ram_alloc_raw_def example_ram_def roundup2_order_size_def
    order_mask_def order_size_def VMM_SIZE_TO_PAGE_def size_to_order_def bank_at_def first_bpos_def
    alloc_search.simps count_free.simps bitmap_isset_def BIT_WORD_def BIT_WORD_OFFSET_def
    mark_used_def set_bank_def int_arg_def
  have two: "bitmap_set [0b010] 2 2 = Some [0b1110]"
  proof -
    have "bitmap_set [0b010] 2 (Suc (Suc 0)) = Some [0b1110]"
      by (simp add: bitmap_setbit_def BIT_WORD_def BIT_WORD_OFFSET_def)
    then show ?thesis by (simp only: numeral_2_eq_2)
  qed
  show "\<exists>c'. vmm_host_ram_alloc (example_ram 0b010 2) 0x2000 12 = Some (0x2000, Some 0x80002000, c') \<and>
      0x80000000 + 0x3000 < (0x80002000 + 0x2000 :: u64)"
    by (simp add: defs two)
  show "vmm_host_ram_alloc (example_ram 0b010 2) 0x100000000000 12 =
      Some (0x100000000000, Some 0x80000000, example_ram 0b010 2)"
    by (simp add: defs)
qed


end
