(* ===== verification/Shmem.thy ===== *)
theory Shmem
  imports Host_ram
begin

text \<open>
  Named shared memory, \<^verbatim>\<open>core/vmm_shmem.c\<close>: reference-counted chunks of host RAM that several guests map. Instances are kept
  in a store by number; \<open>shm_list\<close> is the list of the source, whose mutex makes every operation one step. Calls of
  \<^verbatim>\<open>vmm_host_memory_read\<close> and its siblings are a parameter; \<^const>\<open>None\<close> is a fault of the host RAM allocator.
\<close>

definition VMM_FIELD_NAME_SIZE :: nat where [simp]: "VMM_FIELD_NAME_SIZE = 64"
definition VMM_EEXIST :: int where [simp]: "VMM_EEXIST = -10"

record shmem =
  ref_count :: int
  shm_name :: string
  shm_addr :: u64
  shm_size :: u64
  shm_align_order :: u32

record shm_sys =
  shmems :: "nat \<Rightarrow> shmem"
  shm_list :: "nat list"
  ram :: host_ram_ctrl

text \<open>\<^verbatim>\<open>strncmp(a, b, sizeof(shm->name))\<close> finds no difference.\<close>

definition same_name :: "string \<Rightarrow> string \<Rightarrow> bool" where
  "same_name a b \<longleftrightarrow> take VMM_FIELD_NAME_SIZE a = take VMM_FIELD_NAME_SIZE b"

section \<open>Access\<close>

definition vmm_shmem_read :: "(u64 \<Rightarrow> u32 \<Rightarrow> u32) \<Rightarrow> shmem option \<Rightarrow> u64 \<Rightarrow> bool \<Rightarrow> u32 \<Rightarrow> u32" where
  "vmm_shmem_read host_read shm off dst len =
     (case shm of
        None \<Rightarrow> 0
      | Some m \<Rightarrow> if \<not> dst then 0 else if shm_size m < off + ucast len then 0 else host_read (shm_addr m + off) len)"

definition vmm_shmem_write :: "(u64 \<Rightarrow> u32 \<Rightarrow> u32) \<Rightarrow> shmem option \<Rightarrow> u64 \<Rightarrow> bool \<Rightarrow> u32 \<Rightarrow> u32" where
  "vmm_shmem_write host_write shm off src len =
     (case shm of
        None \<Rightarrow> 0
      | Some m \<Rightarrow> if \<not> src then 0 else if shm_size m < off + ucast len then 0 else host_write (shm_addr m + off) len)"

definition vmm_shmem_set :: "(u64 \<Rightarrow> u8 \<Rightarrow> u32 \<Rightarrow> u32) \<Rightarrow> shmem option \<Rightarrow> u64 \<Rightarrow> u8 \<Rightarrow> u32 \<Rightarrow> u32" where
  "vmm_shmem_set host_set shm off byte len =
     (case shm of
        None \<Rightarrow> 0
      | Some m \<Rightarrow> if shm_size m < off + ucast len then 0 else host_set (shm_addr m + off) byte len)"

section \<open>References\<close>

definition vmm_shmem_ref :: "nat \<Rightarrow> shm_sys \<Rightarrow> shm_sys" where
  "vmm_shmem_ref i s = s\<lparr>shmems := (shmems s)(i := (shmems s i)\<lparr>ref_count := ref_count (shmems s i) + 1\<rparr>)\<rparr>"

text \<open>\<^verbatim>\<open>vmm_shmem_iterate(iter, priv)\<close>: the callback may change the system; a result other than zero ends the loop.\<close>

fun vmm_shmem_iterate :: "(nat \<Rightarrow> 'p \<times> shm_sys \<Rightarrow> int \<times> 'p \<times> shm_sys) \<Rightarrow> nat list \<Rightarrow> 'p \<times> shm_sys \<Rightarrow> int \<times> 'p \<times> shm_sys" where
  "vmm_shmem_iterate iter [] ps = (VMM_OK, ps)"
| "vmm_shmem_iterate iter (i # is) ps =
     (let (rc, ps') = iter i ps in if rc \<noteq> 0 then (rc, ps') else vmm_shmem_iterate iter is ps')"

definition shmem_count :: "nat \<Rightarrow> u32 \<times> shm_sys \<Rightarrow> int \<times> u32 \<times> shm_sys" where
  "shmem_count i = (\<lambda>(n, s). (VMM_OK, n + 1, s))"

definition vmm_shmem_count :: "shm_sys \<Rightarrow> u32" where
  "vmm_shmem_count s = (let (rc, n, s') = vmm_shmem_iterate shmem_count (shm_list s) (0, s) in if rc = 0 then n else 0)"

definition shmem_find_byname :: "string \<Rightarrow> nat \<Rightarrow> nat option \<times> shm_sys \<Rightarrow> int \<times> nat option \<times> shm_sys" where
  "shmem_find_byname name i = (\<lambda>(found, s).
     if found = None \<and> same_name (shm_name (shmems s i)) name then (VMM_OK, Some i, vmm_shmem_ref i s)
     else (VMM_OK, found, s))"

definition vmm_shmem_find_byname :: "string option \<Rightarrow> shm_sys \<Rightarrow> nat option \<times> shm_sys" where
  "vmm_shmem_find_byname name s =
     (case name of
        None \<Rightarrow> (None, s)
      | Some n \<Rightarrow> let (rc, found, s') = vmm_shmem_iterate (shmem_find_byname n) (shm_list s) (None, s)
                in (if rc = 0 then found else None, s'))"

text \<open>\<^verbatim>\<open>__shmem_free\<close>; the result of \<^verbatim>\<open>vmm_host_ram_free\<close> is ignored.\<close>

definition shmem_free :: "nat \<Rightarrow> shm_sys \<Rightarrow> shm_sys option" where
  "shmem_free i s = do {
     (rc, c) \<leftarrow> vmm_host_ram_free (ram s) (shm_addr (shmems s i)) (shm_size (shmems s i));
     Some (s\<lparr>shm_list := remove1 i (shm_list s), ram := c\<rparr>) }"

definition vmm_shmem_dref :: "nat \<Rightarrow> shm_sys \<Rightarrow> shm_sys option" where
  "vmm_shmem_dref i s =
     (let s1 = s\<lparr>shmems := (shmems s)(i := (shmems s i)\<lparr>ref_count := ref_count (shmems s i) - 1\<rparr>)\<rparr>
      in if ref_count (shmems s1 i) \<noteq> 0 then Some s1 else shmem_free i s1)"

section \<open>Creation\<close>

text \<open>\<open>i\<close> is the number of the allocated instance, \<open>have_mem\<close> whether there is memory for it; \<^const>\<open>Inl\<close> is an error pointer.\<close>

definition vmm_shmem_create ::
  "bool \<Rightarrow> nat \<Rightarrow> string option \<Rightarrow> u64 \<Rightarrow> u32 \<Rightarrow> shm_sys \<Rightarrow> ((int + nat) \<times> shm_sys) option" where
  "vmm_shmem_create have_mem i name len align_order s =
     (case name of
        None \<Rightarrow> Some (Inl VMM_EINVALID, s)
      | Some n \<Rightarrow>
          if len = 0 then Some (Inl VMM_EINVALID, s)
          else let sz = roundup2_order_size len VMM_PAGE_SHIFT
               in if \<exists>j \<in> set (shm_list s). same_name (shm_name (shmems s j)) n then Some (Inl VMM_EEXIST, s)
                  else if \<not> have_mem then Some (Inl VMM_ENOMEM, s)
                  else do {
                    (got, pa, c) \<leftarrow> vmm_host_ram_alloc (ram s) sz align_order;
                    Some (if got = 0 then (Inl VMM_ENOMEM, s\<lparr>ram := c\<rparr>)
                      else (Inr i, s\<lparr>ram := c, shm_list := shm_list s @ [i],
                        shmems := (shmems s)(i := \<lparr>ref_count = 1, shm_name = take VMM_FIELD_NAME_SIZE n,
                          shm_addr = (case pa of Some a \<Rightarrow> a | None \<Rightarrow> 0), shm_size = got, shm_align_order = align_order\<rparr>)\<rparr>)) })"

definition vmm_shmem_init :: "host_ram_ctrl \<Rightarrow> (nat \<Rightarrow> shmem) \<Rightarrow> int \<times> shm_sys" where
  "vmm_shmem_init c m = (VMM_OK, \<lparr>shmems = m, shm_list = [], ram = c\<rparr>)"

section \<open>Lemmas\<close>

text \<open>Instances are listed once, under different names, and each is referenced.\<close>

definition shm_inv :: "shm_sys \<Rightarrow> bool" where
  "shm_inv s \<longleftrightarrow> distinct (shm_list s) \<and> (\<forall>i \<in> set (shm_list s). 0 < ref_count (shmems s i)) \<and>
     (\<forall>i \<in> set (shm_list s). \<forall>j \<in> set (shm_list s). same_name (shm_name (shmems s i)) (shm_name (shmems s j)) \<longrightarrow> i = j)"

lemma ref_inv: "shm_inv s \<Longrightarrow> shm_inv (vmm_shmem_ref i s)"
  by (auto simp: shm_inv_def vmm_shmem_ref_def)

lemma find_iterate_Some [simp]: "vmm_shmem_iterate (shmem_find_byname n) is (Some i, s) = (VMM_OK, Some i, s)"
  by (induction "is") (auto simp: shmem_find_byname_def)

lemma find_iterate:
  "vmm_shmem_iterate (shmem_find_byname n) is (None, s) =
     (VMM_OK, case List.find (\<lambda>i. same_name (shm_name (shmems s i)) n) is of None \<Rightarrow> (None, s) | Some i \<Rightarrow> (Some i, vmm_shmem_ref i s))"
proof (induction "is")
  case (Cons i "is")
  have "shmem_find_byname n i (None, s) =
      (if same_name (shm_name (shmems s i)) n then (VMM_OK, Some i, vmm_shmem_ref i s) else (VMM_OK, None, s))"
    by (simp add: shmem_find_byname_def)
  then show ?case using Cons by simp
qed simp

lemma find_byname:
  "vmm_shmem_find_byname (Some n) s =
     (case List.find (\<lambda>i. same_name (shm_name (shmems s i)) n) (shm_list s) of
        None \<Rightarrow> (None, s) | Some i \<Rightarrow> (Some i, vmm_shmem_ref i s))"
  by (simp add: vmm_shmem_find_byname_def find_iterate split: option.splits)

lemma find_inv: "shm_inv s \<Longrightarrow> shm_inv (snd (vmm_shmem_find_byname (Some n) s))"
  by (auto simp: find_byname ref_inv split: option.splits)

lemma count_iterate: "vmm_shmem_iterate shmem_count is (n, s) = (VMM_OK, n + of_nat (length is), s)"
  by (induction "is" arbitrary: n) (auto simp: shmem_count_def)

lemma count_list: "vmm_shmem_count s = of_nat (length (shm_list s))"
  by (simp add: vmm_shmem_count_def count_iterate)

lemma dref_inv:
  assumes "shm_inv s" and "i \<in> set (shm_list s)" and "vmm_shmem_dref i s = Some s'"
  shows "shm_inv s'"
proof -
  have "0 < ref_count (shmems s i)" using assms(1,2) by (simp add: shm_inv_def)
  then have "ref_count (shmems s i) \<noteq> 1 \<longleftrightarrow> 1 < ref_count (shmems s i)" by auto
  then show ?thesis
    using assms by (auto simp: shm_inv_def vmm_shmem_dref_def shmem_free_def Let_def split: if_splits bind_splits)
qed

lemma create_inv:
  assumes "shm_inv s" and "i \<notin> set (shm_list s)" and "vmm_shmem_create m i name len order s = Some (r, s')"
  shows "shm_inv s'"
  using assms
  by (auto simp: shm_inv_def vmm_shmem_create_def same_name_def Let_def split: option.splits if_splits bind_splits; blast)

text \<open>The sum of offset and length wraps: an access just below the chunk is accepted.\<close>

lemma shmem_read_wraps:
  "vmm_shmem_read (\<lambda>a n. if a = 0x7FFFFFFF then n else 0)
     (Some \<lparr>ref_count = 1, shm_name = ''x'', shm_addr = 0x80000000, shm_size = 4096, shm_align_order = 12\<rparr>) (- 1) True 2 = 2"
  by (simp add: vmm_shmem_read_def)

end
