(* ===== verification/Guest_aspace.thy ===== *)
theory Guest_aspace
  imports Shmem Rbtree
begin

text \<open>
  The physical address space of a guest, \<^verbatim>\<open>core/vmm_guest_aspace.c\<close>. Regions are objects of a store, known by number; the two
  red-black trees hold those numbers and are searched by the addresses in the store. The attributes of a device tree
  node are a record, an absent attribute is \<^const>\<open>None\<close>. The device emulation framework, the architecture hooks,
  memory for a region and the accesses to host memory are parameters (\<open>aspace_ops\<close>, \<open>host\<close>); calls of them are entries
  of a log. Operations hold the lock of the tree they change, so each is one step. \<^const>\<open>None\<close> is a null dereference, an
  index outside the mappings, a shift by the width of the type or more, a fault of the host RAM allocator, or a loop
  that does not end.
\<close>

section \<open>Regions\<close>

definition VMM_REGION_REAL :: u32 where "VMM_REGION_REAL = 0x1"
definition VMM_REGION_VIRTUAL :: u32 where "VMM_REGION_VIRTUAL = 0x2"
definition VMM_REGION_ALIAS :: u32 where "VMM_REGION_ALIAS = 0x4"
definition VMM_REGION_MEMORY :: u32 where "VMM_REGION_MEMORY = 0x8"
definition VMM_REGION_IO :: u32 where "VMM_REGION_IO = 0x10"
definition VMM_REGION_CACHEABLE :: u32 where "VMM_REGION_CACHEABLE = 0x20"
definition VMM_REGION_BUFFERABLE :: u32 where "VMM_REGION_BUFFERABLE = 0x40"
definition VMM_REGION_READONLY :: u32 where "VMM_REGION_READONLY = 0x80"
definition VMM_REGION_ISRAM :: u32 where "VMM_REGION_ISRAM = 0x100"
definition VMM_REGION_ISROM :: u32 where "VMM_REGION_ISROM = 0x200"
definition VMM_REGION_ISDEVICE :: u32 where "VMM_REGION_ISDEVICE = 0x400"
definition VMM_REGION_ISRESERVED :: u32 where "VMM_REGION_ISRESERVED = 0x800"
definition VMM_REGION_ISALLOCED :: u32 where "VMM_REGION_ISALLOCED = 0x1000"
definition VMM_REGION_ISCOLORED :: u32 where "VMM_REGION_ISCOLORED = 0x2000"
definition VMM_REGION_ISSHARED :: u32 where "VMM_REGION_ISSHARED = 0x4000"
definition VMM_REGION_ISDYNAMIC :: u32 where "VMM_REGION_ISDYNAMIC = 0x8000"
definition VMM_REGION_MAPPING_ISHOSTRAM :: u32 where "VMM_REGION_MAPPING_ISHOSTRAM = 0x1"

lemmas region_flags =
  VMM_REGION_REAL_def VMM_REGION_VIRTUAL_def VMM_REGION_ALIAS_def VMM_REGION_MEMORY_def VMM_REGION_IO_def
  VMM_REGION_CACHEABLE_def VMM_REGION_BUFFERABLE_def VMM_REGION_READONLY_def VMM_REGION_ISRAM_def VMM_REGION_ISROM_def
  VMM_REGION_ISDEVICE_def VMM_REGION_ISRESERVED_def VMM_REGION_ISALLOCED_def VMM_REGION_ISCOLORED_def
  VMM_REGION_ISSHARED_def VMM_REGION_ISDYNAMIC_def VMM_REGION_MAPPING_ISHOSTRAM_def

definition VMM_REGION_MANIFEST_MASK :: u32 where
  "VMM_REGION_MANIFEST_MASK = VMM_REGION_REAL OR VMM_REGION_VIRTUAL OR VMM_REGION_ALIAS"

record region_mapping =
  map_hphys :: u64
  map_flags :: u32

record region =
  reg_node :: nat
  reg_flags :: u32
  gphys_addr :: u64
  aphys_addr :: u64
  phys_size :: u64
  first_color :: u32
  num_colors :: u32
  reg_shm :: "nat option"
  align_order :: u32
  map_order :: u32
  maps_count :: u32
  maps :: "region_mapping list"

definition VMM_REGION_GPHYS_END :: "region \<Rightarrow> u64" where
  "VMM_REGION_GPHYS_END r = gphys_addr r + phys_size r"

definition VMM_REGION_GPHYS_TO_APHYS :: "region \<Rightarrow> u64 \<Rightarrow> u64" where
  "VMM_REGION_GPHYS_TO_APHYS r g = aphys_addr r + (g - gphys_addr r)"

definition has :: "region \<Rightarrow> u32 \<Rightarrow> bool" where
  "has r f \<longleftrightarrow> reg_flags r AND f \<noteq> 0"

text \<open>The attributes of a region node.\<close>

record region_node =
  manifest_type :: "string option"
  address_type :: "string option"
  device_type :: "string option"
  guest_physical_addr :: "u64 option"
  host_physical_addr :: "u64 option"
  alias_physical_addr :: "u64 option"
  physical_size :: "u64 option"
  align_order_attr :: "u32 option"
  map_order_attr :: "u32 option"
  first_color_attr :: "u32 option"
  num_colors_attr :: "u32 option"
  shared_memory :: "string option"

datatype aspace_event = VMM_GUEST_ASPACE_EVENT_INIT | VMM_GUEST_ASPACE_EVENT_DEINIT | VMM_GUEST_ASPACE_EVENT_RESET

datatype aspace_call =
    Devemu_probe nat | Devemu_remove nat | Devemu_reset nat
  | Arch_add nat | Arch_del nat
  | Host_memory_set u64 u64
  | Notify aspace_event
  | Devemu_init_context | Devemu_reset_context | Devemu_deinit_context

record aspace_ops =
  region_attrs :: "nat \<Rightarrow> region_node"
  region_mem :: "nat \<Rightarrow> bool"
  maps_mem :: "u32 \<Rightarrow> bool"
  probe_region :: "region \<Rightarrow> int"
  arch_guest_add_region :: "region \<Rightarrow> int"
  arch_guest_del_region :: "region \<Rightarrow> int"
  init_context :: int
  reset_context :: int
  deinit_context :: int

record guest_aspace =
  shm_ctrl :: shm_sys
  regs :: "nat \<Rightarrow> region"
  next_reg :: nat
  reg_iotree :: "nat rb_tree"
  reg_memtree :: "nat rb_tree"
  reg_ioprobe_list :: "nat list"
  reg_memprobe_list :: "nat list"
  aspace_node :: bool
  aspace_initialized :: bool
  node_ref :: "nat \<Rightarrow> int"
  log :: "aspace_call list"

section \<open>Finding regions\<close>

definition reg_tree :: "u32 \<Rightarrow> guest_aspace \<Rightarrow> nat rb_tree" where
  "reg_tree fl g = (if fl AND VMM_REGION_IO \<noteq> 0 then reg_iotree g else reg_memtree g)"

definition find_cmp :: "guest_aspace \<Rightarrow> u64 \<Rightarrow> nat \<Rightarrow> rb_dir" where
  "find_cmp g a i =
     (if a < gphys_addr (regs g i) then Go_left else if VMM_REGION_GPHYS_END (regs g i) \<le> a then Go_right else Stop)"

text \<open>The search loop; a region without the flags ends it without a result.\<close>

definition tree_lookup :: "guest_aspace \<Rightarrow> u32 \<Rightarrow> u32 \<Rightarrow> u64 \<Rightarrow> nat option" where
  "tree_lookup g fl cmp_flags a =
     (case rb_search (find_cmp g a) (reg_tree fl g) of
        None \<Rightarrow> None
      | Some i \<Rightarrow> if reg_flags (regs g i) AND cmp_flags = cmp_flags then Some i else None)"

partial_function (option) resolve_alias :: "guest_aspace \<Rightarrow> u32 \<Rightarrow> u32 \<Rightarrow> nat \<Rightarrow> u64 \<Rightarrow> nat option option" where
  "resolve_alias g fl cmp_flags i a =
     (if has (regs g i) VMM_REGION_ALIAS then
        let a' = VMM_REGION_GPHYS_TO_APHYS (regs g i) a in
        case tree_lookup g fl cmp_flags a' of
          None \<Rightarrow> Some None
        | Some j \<Rightarrow> resolve_alias g fl cmp_flags j a'
      else Some (Some i))"

definition vmm_guest_find_region :: "guest_aspace \<Rightarrow> u64 \<Rightarrow> u32 \<Rightarrow> bool \<Rightarrow> nat option option" where
  "vmm_guest_find_region g a fl resolve =
     (let cmp_flags = fl AND NOT VMM_REGION_MANIFEST_MASK in
      case tree_lookup g fl cmp_flags a of
        None \<Rightarrow> Some None
      | Some i \<Rightarrow> do {
          found \<leftarrow> (if resolve then resolve_alias g fl cmp_flags i a else Some (Some i));
          Some (case found of
              None \<Rightarrow> None
            | Some j \<Rightarrow> let mf = fl AND VMM_REGION_MANIFEST_MASK
                      in if reg_flags (regs g j) AND mf \<noteq> mf then None else Some j) })"

text \<open>
  \<^verbatim>\<open>vmm_guest_iterate_region\<close>: the regions the callback is called for, in the order of the post-order walk.
\<close>

definition vmm_guest_iterate_region :: "guest_aspace \<Rightarrow> u32 \<Rightarrow> nat list" where
  "vmm_guest_iterate_region g fl =
     (let t = reg_tree fl g
      in filter (\<lambda>i. reg_flags (regs g i) AND fl = fl)
           (rb_walk rb_next_postorder (Suc (length (elems t))) (rb_first_postorder t)))"

section \<open>Mappings\<close>

definition mapping_gphys_offset :: "region \<Rightarrow> u32 \<Rightarrow> u64" where
  "mapping_gphys_offset r i = (if maps_count r \<le> i then phys_size r else push_bit (unat (map_order r)) (ucast i))"

definition mapping_phys_size :: "region \<Rightarrow> u32 \<Rightarrow> u64" where
  "mapping_phys_size r i =
     (if maps_count r \<le> i then 0
      else let map_size = push_bit (unat (map_order r)) 1; sz = phys_size r - mapping_gphys_offset r i
           in if sz < map_size then sz else map_size)"

definition mapping_find :: "region \<Rightarrow> u64 \<Rightarrow> u32 option" where
  "mapping_find r a =
     (if a < gphys_addr r \<or> VMM_REGION_GPHYS_END r \<le> a then None
      else Some (ucast (drop_bit (unat (map_order r)) (a - gphys_addr r))))"

text \<open>Host address and size available from there; the dereference of \<^verbatim>\<open>map\<close> may be outside the array.\<close>

definition vmm_guest_find_mapping :: "region option \<Rightarrow> u64 \<Rightarrow> (u64 \<times> u64) option" where
  "vmm_guest_find_mapping rp a =
     (case rp of
        None \<Rightarrow> Some (0, 0)
      | Some r \<Rightarrow> (case mapping_find r a of
          None \<Rightarrow> Some (0, 0)
        | Some i \<Rightarrow>
            if unat i < length (maps r) then
              let m = maps r ! unat i; hphys = map_hphys m + (a - (gphys_addr r + mapping_gphys_offset r i))
              in Some (hphys, map_hphys m + mapping_phys_size r i - hphys)
            else None))"

definition vmm_guest_iterate_mapping :: "region \<Rightarrow> (u64 \<times> u64 \<times> u64) list option" where
  "vmm_guest_iterate_mapping r =
     (if unat (maps_count r) \<le> length (maps r)
      then Some (map (\<lambda>i. (gphys_addr r + mapping_gphys_offset r (of_nat i), map_hphys (maps r ! i), mapping_phys_size r (of_nat i)))
        [0..<unat (maps_count r)])
      else None)"

definition vmm_guest_overwrite_real_device_mapping ::
  "nat option \<Rightarrow> u64 \<Rightarrow> u64 \<Rightarrow> guest_aspace \<Rightarrow> (int \<times> guest_aspace) option" where
  "vmm_guest_overwrite_real_device_mapping rp a h g =
     (case rp of
        None \<Rightarrow> Some (VMM_EINVALID, g)
      | Some i \<Rightarrow> let r = regs g i in
          if \<not> has r VMM_REGION_REAL \<or> \<not> has r VMM_REGION_ISDEVICE then Some (VMM_EINVALID, g)
          else (case mapping_find r a of
              None \<Rightarrow> Some (VMM_EINVALID, g)
            | Some k \<Rightarrow>
                if unat k < length (maps r)
                then Some (VMM_OK, g\<lparr>regs := (regs g)(i := r\<lparr>maps := (maps r)[unat k := (maps r ! unat k)\<lparr>map_hphys := h\<rparr>]\<rparr>)\<rparr>)
                else None))"

section \<open>Access to guest memory\<close>

definition access_size :: "u64 \<Rightarrow> u32 \<Rightarrow> u32" where
  "access_size avail left = (let n = (if avail < 0xFFFFFFFF then ucast avail else 0xFFFFFFFF) in if left < n then left else n)"

text \<open>\<open>host h n\<close> are the bytes \<^verbatim>\<open>vmm_host_memory_read\<close> delivers.\<close>

partial_function (option) memory_read_loop ::
  "(u64 \<Rightarrow> u32 \<Rightarrow> u8 list) \<Rightarrow> guest_aspace \<Rightarrow> u64 \<Rightarrow> u32 \<Rightarrow> u32 \<Rightarrow> u8 list \<Rightarrow> u8 list option" where
  "memory_read_loop host g a len bytes_read dst =
     (if bytes_read < len then do {
        found \<leftarrow> vmm_guest_find_region g a (VMM_REGION_REAL OR VMM_REGION_MEMORY) True;
        (case found of
           None \<Rightarrow> Some dst
         | Some i \<Rightarrow> do {
             (hphys, avail) \<leftarrow> vmm_guest_find_mapping (Some (regs g i)) a;
             (let bs = host hphys (access_size avail (len - bytes_read)) in
              if bs = [] then Some dst
              else memory_read_loop host g (a + of_nat (length bs)) len (bytes_read + of_nat (length bs)) (dst @ bs)) }) }
      else Some dst)"

definition vmm_guest_memory_read :: "(u64 \<Rightarrow> u32 \<Rightarrow> u8 list) \<Rightarrow> guest_aspace \<Rightarrow> u64 \<Rightarrow> u32 \<Rightarrow> u8 list option" where
  "vmm_guest_memory_read host g a len = (if len = 0 then Some [] else memory_read_loop host g a len 0 [])"

text \<open>\<open>host h bs m\<close> writes to the host memory \<open>m\<close> and returns how many bytes.\<close>

partial_function (option) memory_write_loop ::
  "(u64 \<Rightarrow> u8 list \<Rightarrow> 'm \<Rightarrow> u32 \<times> 'm) \<Rightarrow> guest_aspace \<Rightarrow> u64 \<Rightarrow> u8 list \<Rightarrow> u32 \<Rightarrow> u32 \<Rightarrow> 'm \<Rightarrow> (u32 \<times> 'm) option" where
  "memory_write_loop host g a src len bytes_written m =
     (if bytes_written < len then do {
        found \<leftarrow> vmm_guest_find_region g a (VMM_REGION_REAL OR VMM_REGION_MEMORY) True;
        (case found of
           None \<Rightarrow> Some (bytes_written, m)
         | Some i \<Rightarrow> do {
             (hphys, avail) \<leftarrow> vmm_guest_find_mapping (Some (regs g i)) a;
             (let (n, m') = host hphys (take (unat (access_size avail (len - bytes_written))) src) m in
              if n = 0 then Some (bytes_written, m')
              else memory_write_loop host g (a + ucast n) (drop (unat n) src) len (bytes_written + n) m') }) }
      else Some (bytes_written, m))"

definition vmm_guest_memory_write ::
  "(u64 \<Rightarrow> u8 list \<Rightarrow> 'm \<Rightarrow> u32 \<times> 'm) \<Rightarrow> guest_aspace \<Rightarrow> u64 \<Rightarrow> u8 list \<Rightarrow> u32 \<Rightarrow> 'm \<Rightarrow> (u32 \<times> 'm) option" where
  "vmm_guest_memory_write host g a src len m =
     (if len = 0 then Some (0, m) else memory_write_loop host g a src len 0 m)"

partial_function (option) physical_resolve :: "guest_aspace \<Rightarrow> nat \<Rightarrow> u64 \<Rightarrow> (nat \<times> u64) option option" where
  "physical_resolve g i a =
     (if has (regs g i) VMM_REGION_ALIAS then
        let a' = VMM_REGION_GPHYS_TO_APHYS (regs g i) a in
        Option.bind (vmm_guest_find_region g a' VMM_REGION_MEMORY False) (\<lambda>found.
          case found of None \<Rightarrow> Some None | Some j \<Rightarrow> physical_resolve g j a')
      else Some (Some (i, a)))"

definition vmm_guest_physical_map ::
  "guest_aspace \<Rightarrow> u64 \<Rightarrow> u64 \<Rightarrow> (int \<times> (u64 \<times> u64 \<times> u32) option) option" where
  "vmm_guest_physical_map g a gsize = do {
     found \<leftarrow> vmm_guest_find_region g a VMM_REGION_MEMORY False;
     (case found of
        None \<Rightarrow> Some (VMM_EFAIL, None)
      | Some i \<Rightarrow> do {
          res \<leftarrow> physical_resolve g i a;
          (case res of
             None \<Rightarrow> Some (VMM_EFAIL, None)
           | Some (j, a') \<Rightarrow> do {
               (hphys, sz) \<leftarrow> vmm_guest_find_mapping (Some (regs g j)) a';
               Some (VMM_OK, Some (hphys, if gsize < sz then gsize else sz, reg_flags (regs g j))) }) }) }"

definition vmm_guest_physical_unmap :: "u64 \<Rightarrow> u64 \<Rightarrow> int" where
  "vmm_guest_physical_unmap a sz = VMM_OK"

section \<open>Invariant\<close>

text \<open>
  The regions of a tree are disjoint ranges in ascending order, none wraps around the end of the address space, and all
  are of the tree's kind.
\<close>

definition reg_lo :: "guest_aspace \<Rightarrow> nat \<Rightarrow> u64" where
  "reg_lo g i = gphys_addr (regs g i)"

definition reg_hi :: "guest_aspace \<Rightarrow> nat \<Rightarrow> u64" where
  "reg_hi g i = VMM_REGION_GPHYS_END (regs g i)"

definition tree_ok :: "guest_aspace \<Rightarrow> bool \<Rightarrow> nat rb_tree \<Rightarrow> bool" where
  "tree_ok g io t \<longleftrightarrow> rb_root_ok t \<and> rb.ranges (reg_lo g) (reg_hi g) t \<and>
     (\<forall>i \<in> set (elems t). has (regs g i) VMM_REGION_IO = io \<and> i < next_reg g)"

definition aspace_inv :: "guest_aspace \<Rightarrow> bool" where
  "aspace_inv g \<longleftrightarrow> tree_ok g True (reg_iotree g) \<and> tree_ok g False (reg_memtree g) \<and>
     distinct (reg_ioprobe_list g) \<and> distinct (reg_memprobe_list g) \<and>
     set (reg_ioprobe_list g) \<subseteq> set (elems (reg_iotree g)) \<and> set (reg_memprobe_list g) \<subseteq> set (elems (reg_memtree g))"

text \<open>The region that covers an address.\<close>

definition covers :: "guest_aspace \<Rightarrow> u64 \<Rightarrow> nat \<Rightarrow> bool" where
  "covers g a i \<longleftrightarrow> reg_lo g i \<le> a \<and> a < reg_hi g i"

lemma find_cmp_eq: "find_cmp g a = (\<lambda>y. if a < reg_lo g y then Go_left else if reg_hi g y \<le> a then Go_right else Stop)"
  by (simp add: fun_eq_iff find_cmp_def reg_lo_def reg_hi_def)

lemma tree_search:
  assumes "tree_ok g io t"
  shows "rb_search (find_cmp g a) t = Some i \<longleftrightarrow> i \<in> set (elems t) \<and> covers g a i"
proof -
  have r: "rb_root_ok t" "rb.ranges (reg_lo g) (reg_hi g) t" using assms by (simp_all add: tree_ok_def)
  have s: "case rb_search (find_cmp g a) t of None \<Rightarrow> \<forall>y \<in> set (elems t). \<not> covers g a y
      | Some y \<Rightarrow> y \<in> set (elems t) \<and> covers g a y"
    using rb.search_point [OF r, of a] by (auto simp: find_cmp_eq covers_def split: option.splits)
  moreover have "y = i" if "y \<in> set (elems t)" "covers g a y" "i \<in> set (elems t)" "covers g a i" for y
    using rb.range_unique [OF r(2)] that unfolding covers_def by metis
  ultimately show ?thesis by (auto split: option.splits)
qed

lemma inv_tree: "aspace_inv g \<Longrightarrow> tree_ok g (fl AND VMM_REGION_IO \<noteq> 0) (reg_tree fl g)"
  by (auto simp: aspace_inv_def reg_tree_def)

lemma tree_lookup_iff:
  assumes "aspace_inv g"
  shows "tree_lookup g fl cf a = Some i \<longleftrightarrow>
    i \<in> set (elems (reg_tree fl g)) \<and> covers g a i \<and> reg_flags (regs g i) AND cf = cf"
proof -
  have "tree_lookup g fl cf a = Some i \<longleftrightarrow> rb_search (find_cmp g a) (reg_tree fl g) = Some i \<and> reg_flags (regs g i) AND cf = cf"
    by (auto simp: tree_lookup_def split: option.splits if_splits)
  then show ?thesis using tree_search [OF inv_tree [OF assms, of fl], of a i] by simp
qed

lemma mask_split: "(x AND (f AND NOT m) = f AND NOT m) \<and> (x AND (f AND m) = f AND m) \<longleftrightarrow> x AND f = f" for x f m :: u32
  by (auto simp: bit_eq_iff bit_simps)

text \<open>
  A region that reaches the end of the address space is never found: its end wraps to zero, which is below every address.
\<close>

lemma search_stop: "rb_search cmp t = Some v \<Longrightarrow> cmp v = Stop"
proof -
  have "rb_descend cmp t us = (Rb_node c l v r, vs) \<Longrightarrow> cmp v = Stop" for us vs c l r
    by (induction cmp t us rule: rb_descend.induct) (auto split: rb_dir.splits)
  then show "rb_search cmp t = Some v \<Longrightarrow> cmp v = Stop"
    by (cases "rb_descend cmp t []") (auto simp: rb_search_def split: rb_tree.splits)
qed

lemma region_at_top_lost:
  "VMM_REGION_GPHYS_END (regs g i) = 0 \<Longrightarrow> tree_lookup g fl cf a \<noteq> Some i"
  using search_stop [of "find_cmp g a" "reg_tree fl g" i]
  by (auto simp: tree_lookup_def find_cmp_def split: option.splits if_splits)

section \<open>Translation\<close>

text \<open>What \<^verbatim>\<open>region_add\<close> sets up: the mappings cover the region, which ends before the end of the address space.\<close>

definition region_wf :: "region \<Rightarrow> bool" where
  "region_wf r \<longleftrightarrow> unat (map_order r) < 64 \<and> 0 < unat (phys_size r) \<and> unat (gphys_addr r) + unat (phys_size r) < 2 ^ 64 \<and>
     length (maps r) = unat (maps_count r) \<and> unat (phys_size r) \<le> unat (maps_count r) * 2 ^ unat (map_order r)"

definition map_index :: "region \<Rightarrow> nat \<Rightarrow> nat" where
  "map_index r off = off div 2 ^ unat (map_order r)"

definition map_avail :: "region \<Rightarrow> nat \<Rightarrow> nat" where
  "map_avail r off = min (2 ^ unat (map_order r)) (unat (phys_size r) - map_index r off * 2 ^ unat (map_order r)) -
     off mod 2 ^ unat (map_order r)"

text \<open>The host address of the byte at offset \<open>off\<close> of a region.\<close>

definition host_addr :: "region \<Rightarrow> nat \<Rightarrow> u64" where
  "host_addr r off = map_hphys (maps r ! map_index r off) + of_nat (off mod 2 ^ unat (map_order r))"

lemma div_mod_add:
  fixes m :: nat
  assumes "off mod m + k < m"
  shows "(off + k) div m = off div m" "(off + k) mod m = off mod m + k"
proof -
  have e: "off + k = (off mod m + k) + off div m * m" by (metis add.assoc add.commute div_mult_mod_eq)
  have z: "m \<noteq> 0" using assms by auto
  show "(off + k) div m = off div m"
    using arg_cong [OF e, of "\<lambda>x. x div m"] div_less [OF assms] by (simp only: div_mult_self1 [OF z] add_0)
  show "(off + k) mod m = off mod m + k"
    using arg_cong [OF e, of "\<lambda>x. x mod m"] mod_less [OF assms] by (simp only: mod_mult_self1)
qed

lemma map_index_bound: "region_wf r \<Longrightarrow> off < unat (phys_size r) \<Longrightarrow> map_index r off < unat (maps_count r)"
  by (auto simp: region_wf_def map_index_def less_mult_imp_div_less)

lemma map_avail_pos: "off < unat (phys_size r) \<Longrightarrow> 0 < map_avail r off"
proof -
  assume "off < unat (phys_size r)"
  then have "map_index r off * 2 ^ unat (map_order r) + off mod 2 ^ unat (map_order r) < unat (phys_size r)"
    unfolding map_index_def div_mult_mod_eq .
  then show ?thesis by (simp add: map_avail_def)
qed

lemma host_addr_add:
  assumes "off < unat (phys_size r)" and "k < map_avail r off"
  shows "host_addr r (off + k) = host_addr r off + of_nat k" "off + k < unat (phys_size r)"
proof -
  let ?m = "2 ^ unat (map_order r) :: nat"
  have k: "off mod ?m + k < ?m" using assms(2) by (simp add: map_avail_def)
  show "host_addr r (off + k) = host_addr r off + of_nat k"
    unfolding host_addr_def map_index_def div_mod_add [OF k] by (simp add: add.assoc)
  have "off = map_index r off * ?m + off mod ?m" unfolding map_index_def by (rule div_mult_mod_eq [symmetric])
  then show "off + k < unat (phys_size r)" using assms(2) by (simp add: map_avail_def)
qed

lemma unat_of_nat_id: "x < 2 ^ LENGTH('a) \<Longrightarrow> unat (of_nat x :: 'a::len word) = x"
  by (simp add: unat_of_nat)

lemma region_offset:
  assumes "region_wf r" and "off < unat (phys_size r)"
  shows "unat (gphys_addr r + of_nat off) = unat (gphys_addr r) + off" "unat (VMM_REGION_GPHYS_END r) = unat (gphys_addr r) + unat (phys_size r)"
    "mapping_find r (gphys_addr r + of_nat off) = Some (of_nat (map_index r off))" "unat (of_nat (map_index r off) :: u32) = map_index r off"
proof -
  have w: "unat (gphys_addr r) + unat (phys_size r) < 2 ^ 64" using assms(1) by (simp add: region_wf_def)
  have o: "unat (of_nat off :: u64) = off" using less_trans [OF assms(2) unsigned_less] by (simp add: unat_of_nat_id)
  show a: "unat (gphys_addr r + of_nat off) = unat (gphys_addr r) + off"
    using w assms(2) o by (subst unat_plus_if') auto
  show e: "unat (VMM_REGION_GPHYS_END r) = unat (gphys_addr r) + unat (phys_size r)"
    using w unfolding VMM_REGION_GPHYS_END_def by (subst unat_plus_if') auto
  have "map_index r off < 2 ^ LENGTH(32)" by (rule less_trans [OF map_index_bound [OF assms] unsigned_less])
  then have i: "map_index r off < 2 ^ 32" by simp
  show "unat (of_nat (map_index r off) :: u32) = map_index r off" using i by (simp add: unat_of_nat_id)
  have "unat (ucast (drop_bit (unat (map_order r)) (of_nat off :: u64)) :: u32) = map_index r off"
    using o i unfolding unsigned_ucast_eq unat_drop_bit_u64 by (simp add: map_index_def take_bit_nat_eq_self)
  then have "ucast (drop_bit (unat (map_order r)) (of_nat off :: u64)) = (of_nat (map_index r off) :: u32)"
    using i by (simp add: word_unat_eq_iff unat_of_nat_id)
  then show "mapping_find r (gphys_addr r + of_nat off) = Some (of_nat (map_index r off))"
    using a e assms(2) by (simp add: mapping_find_def word_less_nat_alt word_le_nat_alt)
qed

lemma of_nat_min:
  "x < 2 ^ LENGTH('a) \<Longrightarrow> m < 2 ^ LENGTH('a) \<Longrightarrow>
     (if (of_nat x :: 'a::len word) < of_nat m then of_nat x else of_nat m) = (of_nat (min m x) :: 'a word)"
  by (simp add: word_less_nat_alt unat_of_nat_id min_def)

lemma map_start:
  assumes "region_wf r" and "off < unat (phys_size r)"
  shows "mapping_gphys_offset r (of_nat (map_index r off)) = of_nat (map_index r off * 2 ^ unat (map_order r))"
    "mapping_phys_size r (of_nat (map_index r off)) =
       of_nat (min (2 ^ unat (map_order r)) (unat (phys_size r) - map_index r off * 2 ^ unat (map_order r)))"
proof -
  let ?i = "map_index r off" and ?m = "2 ^ unat (map_order r) :: nat"
  have i: "\<not> maps_count r \<le> of_nat ?i"
    using map_index_bound [OF assms] region_offset(4) [OF assms] by (simp add: word_le_nat_alt)
  have u: "(ucast w :: u64) = of_nat (unat w)" for w :: u32 by (simp add: word_eq_iff_unsigned)
  have p: "push_bit (unat (map_order r)) x = x * of_nat ?m" for x :: u64 by (simp add: push_bit_eq_mult)
  show o: "mapping_gphys_offset r (of_nat ?i) = of_nat (?i * ?m)"
    using i region_offset(4) [OF assms] by (simp add: mapping_gphys_offset_def p u)
  have le: "?i * ?m \<le> off" by (simp add: map_index_def)
  have s: "phys_size r - of_nat (?i * ?m) = of_nat (unat (phys_size r) - ?i * ?m)"
    using le assms(2) by (simp add: of_nat_diff)
  have x: "unat (phys_size r) - ?i * ?m < 2 ^ LENGTH(64)" by (meson diff_le_self le_less_trans unsigned_less)
  have "unat (map_order r) < 64" using assms(1) by (simp add: region_wf_def)
  then have m: "?m < 2 ^ LENGTH(64)" by (intro power_strict_increasing) simp_all
  show "mapping_phys_size r (of_nat ?i) = of_nat (min ?m (unat (phys_size r) - ?i * ?m))"
    using i unfolding mapping_phys_size_def Let_def o s p mult_1 by (simp only: of_nat_min [OF x m] if_False)
qed

lemma find_mapping_spec:
  assumes "region_wf r" and "off < unat (phys_size r)"
  shows "vmm_guest_find_mapping (Some r) (gphys_addr r + of_nat off) = Some (host_addr r off, of_nat (map_avail r off))"
proof -
  let ?i = "map_index r off" and ?m = "2 ^ unat (map_order r) :: nat"
  have i: "unat (of_nat ?i :: u32) < length (maps r)"
    using map_index_bound [OF assms] region_offset(4) [OF assms] assms(1) by (simp add: region_wf_def)
  have e: "off = ?i * ?m + off mod ?m" unfolding map_index_def by (rule div_mult_mod_eq [symmetric])
  then have "(of_nat off :: u64) = of_nat (?i * ?m) + of_nat (off mod ?m)" by (metis of_nat_add)
  then have h: "map_hphys (maps r ! ?i) + (gphys_addr r + of_nat off - (gphys_addr r + of_nat (?i * ?m))) = host_addr r off"
    by (simp only: host_addr_def add_diff_cancel_left add_diff_cancel_left')
  have le: "off mod ?m \<le> min ?m (unat (phys_size r) - ?i * ?m)" using map_avail_pos [OF assms(2)] by (simp add: map_avail_def)
  have "map_hphys (maps r ! ?i) + of_nat (min ?m (unat (phys_size r) - ?i * ?m)) - host_addr r off = of_nat (map_avail r off)"
    unfolding map_avail_def of_nat_diff [OF le] host_addr_def by (simp only: add_diff_cancel_left)
  then show ?thesis
    using i h region_offset(3,4) [OF assms] map_start [OF assms]
    by (simp only: vmm_guest_find_mapping_def option.case Let_def if_True)
qed

section \<open>Reading and writing guest memory\<close>

definition mem_flags :: u32 where "mem_flags = VMM_REGION_REAL OR VMM_REGION_MEMORY"

text \<open>Region \<open>i\<close> is plain guest memory: real, not an alias, and in the tree.\<close>

definition plain_memory :: "guest_aspace \<Rightarrow> nat \<Rightarrow> bool" where
  "plain_memory g i \<longleftrightarrow> i \<in> set (elems (reg_memtree g)) \<and> reg_flags (regs g i) AND mem_flags = mem_flags \<and>
     \<not> has (regs g i) VMM_REGION_ALIAS \<and> region_wf (regs g i)"

lemma find_plain:
  assumes "aspace_inv g" and "plain_memory g i" and "off < unat (phys_size (regs g i))"
  shows "vmm_guest_find_region g (gphys_addr (regs g i) + of_nat off) (VMM_REGION_REAL OR VMM_REGION_MEMORY) True = Some (Some i)"
proof -
  let ?a = "gphys_addr (regs g i) + of_nat off" and ?f = "reg_flags (regs g i)"
  have wf: "region_wf (regs g i)" "i \<in> set (elems (reg_memtree g))" "\<not> has (regs g i) VMM_REGION_ALIAS"
    and fl: "?f AND mem_flags = mem_flags" using assms(2) by (simp_all add: plain_memory_def)
  have c: "covers g ?a i"
    using region_offset(1,2) [OF wf(1) assms(3)] assms(3)
    by (simp add: covers_def reg_lo_def reg_hi_def word_le_nat_alt word_less_nat_alt)
  have t: "reg_tree mem_flags g = reg_memtree g" by (simp add: reg_tree_def mem_flags_def region_flags)
  have m: "?f AND (mem_flags AND NOT VMM_REGION_MANIFEST_MASK) = mem_flags AND NOT VMM_REGION_MANIFEST_MASK"
    "?f AND (mem_flags AND VMM_REGION_MANIFEST_MASK) = mem_flags AND VMM_REGION_MANIFEST_MASK"
    using mask_split [of ?f mem_flags VMM_REGION_MANIFEST_MASK] fl by blast+
  have "tree_lookup g mem_flags (mem_flags AND NOT VMM_REGION_MANIFEST_MASK) ?a = Some i"
    unfolding tree_lookup_iff [OF assms(1)] t using wf(2) c m(1) by blast
  moreover have "resolve_alias g mem_flags (mem_flags AND NOT VMM_REGION_MANIFEST_MASK) i ?a = Some (Some i)"
    using wf(3) by (simp add: resolve_alias.simps)
  ultimately show ?thesis
    unfolding vmm_guest_find_region_def mem_flags_def [symmetric] Let_def using m(2) by (simp only: option.case if_True bind.simps simp_thms if_False)
qed

text \<open>Host memory that delivers every byte asked for.\<close>

definition mem_host :: "(u64 \<Rightarrow> u8) \<Rightarrow> u64 \<Rightarrow> u32 \<Rightarrow> u8 list" where
  "mem_host mem h n = map (\<lambda>k. mem (h + of_nat k)) [0..<unat n]"

lemma access_size: "unat (access_size avail left) = min (unat avail) (unat left)" for avail :: u64 and left :: u32
proof (cases "avail < 0xFFFFFFFF")
  case True
  then have "unat avail < 2 ^ 32" by (simp add: word_less_nat_alt)
  then have "unat (ucast avail :: u32) = unat avail" by (simp add: unsigned_ucast_eq take_bit_nat_eq_self)
  then show ?thesis using True by (simp add: access_size_def Let_def word_less_nat_alt min_def)
next
  case False
  then have "4294967295 \<le> unat avail" by (simp add: word_less_nat_alt)
  moreover have "unat left < 2 ^ LENGTH(32)" by (rule unsigned_less)
  moreover have "\<not> left < 0xFFFFFFFF \<Longrightarrow> unat left = 4294967295"
    using calculation(2) by (simp add: word_less_nat_alt)
  ultimately show ?thesis using False by (simp add: access_size_def Let_def min_def)
qed

lemma word_step:
  fixes len br :: u32
  assumes "unat (len - br) = n" and "br < len" and "m \<le> n"
  shows "unat (len - (br + of_nat m)) = n - m" "\<not> br + of_nat m < len \<longleftrightarrow> n = m"
proof -
  have n: "n = unat len - unat br" "unat br < unat len"
    using assms(1,2) by (simp_all add: word_less_nat_alt unat_sub_if' split: if_splits)
  have len: "unat len < 2 ^ LENGTH(32)" by (rule unsigned_less)
  have m: "unat (of_nat m :: u32) = m" using n assms(3) len by (intro unat_of_nat_id) simp
  have b: "unat (br + of_nat m) = unat br + m" using n assms(3) m len by (subst unat_plus_if') simp
  show "unat (len - (br + of_nat m)) = n - m" using n assms(3) b by (simp add: unat_sub_if')
  show "\<not> br + of_nat m < len \<longleftrightarrow> n = m" using n assms(3) b by (auto simp: word_less_nat_alt)
qed

lemma read_loop:
  assumes "aspace_inv g" and "plain_memory g i"
  shows "n = unat (len - br) \<Longrightarrow> (n = 0 \<longrightarrow> \<not> br < len) \<Longrightarrow> (n \<noteq> 0 \<longrightarrow> br < len) \<Longrightarrow> off + n \<le> unat (phys_size (regs g i)) \<Longrightarrow>
    memory_read_loop (mem_host mem) g (gphys_addr (regs g i) + of_nat off) len br dst =
      Some (dst @ map (\<lambda>k. mem (host_addr (regs g i) (off + k))) [0..<n])"
proof (induction n arbitrary: br off dst rule: less_induct)
  case (less n)
  let ?r = "regs g i"
  show ?case
  proof (cases "n = 0")
    case True
    then show ?thesis using less.prems by (simp add: memory_read_loop.simps)
  next
    case False
    then have br: "br < len" and off: "off < unat (phys_size ?r)" using less.prems by auto
    have wf: "region_wf ?r" using assms(2) by (simp add: plain_memory_def)
    define m where "m = min (map_avail ?r off) n"
    have mo: "map_avail ?r off \<le> 2 ^ unat (map_order ?r)" "unat (map_order ?r) < 64"
      using wf by (simp_all add: map_avail_def region_wf_def)
    have "(2::nat) ^ unat (map_order ?r) < 2 ^ LENGTH(64)" using mo(2) by (intro power_strict_increasing) simp_all
    with mo(1) have "map_avail ?r off < 2 ^ LENGTH(64)" by (rule le_less_trans)
    then have av: "unat (of_nat (map_avail ?r off) :: u64) = map_avail ?r off" by (rule unat_of_nat_id)
    have sz: "unat (access_size (of_nat (map_avail ?r off)) (len - br)) = m"
      unfolding access_size av m_def less.prems(1) [symmetric] ..
    have m: "0 < m" "m \<le> n" "m \<le> map_avail ?r off" using False map_avail_pos [OF off] by (auto simp: m_def)
    let ?bs = "mem_host mem (host_addr ?r off) (access_size (of_nat (map_avail ?r off)) (len - br))"
    have bs: "?bs = map (\<lambda>k. mem (host_addr ?r (off + k))) [0..<m]" "length ?bs = m" "?bs \<noteq> []"
      using m by (auto simp: mem_host_def sz host_addr_add(1) [OF off])
    have a: "gphys_addr ?r + of_nat off + of_nat m = gphys_addr ?r + of_nat (off + m)" by simp
    note st = word_step [OF less.prems(1) [symmetric] br m(2)]
    have "memory_read_loop (mem_host mem) g (gphys_addr ?r + of_nat off) len br dst =
        memory_read_loop (mem_host mem) g (gphys_addr ?r + of_nat (off + m)) len (br + of_nat m) (dst @ ?bs)"
      using br find_plain [OF assms off] find_mapping_spec [OF wf off] bs(2,3)
      by (subst memory_read_loop.simps) (simp add: Let_def a [symmetric] del: of_nat_add)
    also have "\<dots> = Some ((dst @ ?bs) @ map (\<lambda>k. mem (host_addr ?r (off + m + k))) [0..<n - m])"
      by (rule less.IH) (use m st less.prems(4) in auto)
    also have "(dst @ ?bs) @ map (\<lambda>k. mem (host_addr ?r (off + m + k))) [0..<n - m] =
        dst @ map (\<lambda>k. mem (host_addr ?r (off + k))) [0..<n]"
    proof -
      have "[0..<n] = [0..<m] @ [m..<n]" using upt_add_eq_append [of 0 m "n - m"] m(2) by simp
      moreover have "[m..<n] = map (\<lambda>k. k + m) [0..<n - m]" using m(2) by (simp add: map_add_upt)
      ultimately show ?thesis unfolding bs(1) by (simp add: ac_simps)
    qed
    finally show ?thesis .
  qed
qed

lemma resolve_result:
  assumes "resolve_alias g fl cf i a = Some (Some j)"
  shows "\<not> has (regs g j) VMM_REGION_ALIAS \<and> (j = i \<or> (\<exists>b. tree_lookup g fl cf b = Some j))"
proof -
  define P where "P = (\<lambda>g fl cf i (a :: u64) (res :: nat option). \<forall>j. res = Some j \<longrightarrow>
    \<not> has (regs g j) VMM_REGION_ALIAS \<and> (j = i \<or> (\<exists>b. tree_lookup g fl cf b = Some j)))"
  have "P g fl cf i a (Some j)"
  proof (rule resolve_alias.raw_induct [OF _ assms], goal_cases)
    case (1 f g fl cf i a res)
    show ?case
    proof (cases "has (regs g i) VMM_REGION_ALIAS")
      case True
      let ?a = "VMM_REGION_GPHYS_TO_APHYS (regs g i) a"
      show ?thesis
      proof (cases "tree_lookup g fl cf ?a")
        case None
        then show ?thesis using 1(2) True by (auto simp: P_def Let_def)
      next
        case (Some k)
        then show ?thesis using 1(2) 1(1) [of g fl cf k ?a res] True by (auto simp: P_def Let_def)
      qed
    next
      case False
      then show ?thesis using 1(2) by (auto simp: P_def)
    qed
  qed
  then show ?thesis by (simp add: P_def)
qed

lemma find_resolved:
  assumes "vmm_guest_find_region g a fl True = Some (Some j)"
  shows "\<not> has (regs g j) VMM_REGION_ALIAS \<and> (\<exists>b. tree_lookup g fl (fl AND NOT VMM_REGION_MANIFEST_MASK) b = Some j)"
proof -
  obtain i where i: "tree_lookup g fl (fl AND NOT VMM_REGION_MANIFEST_MASK) a = Some i"
    "resolve_alias g fl (fl AND NOT VMM_REGION_MANIFEST_MASK) i a = Some (Some j)"
    using assms unfolding vmm_guest_find_region_def Let_def if_True
    by (cases "tree_lookup g fl (fl AND NOT VMM_REGION_MANIFEST_MASK) a") (auto split: bind_splits option.splits if_splits)
  then show ?thesis using resolve_result [OF i(2)] by blast
qed

section \<open>Properties\<close>

text \<open>
  Further fact: region lookup. In an address space whose regions are disjoint, \<^verbatim>\<open>vmm_guest_find_region\<close> without resolving
  aliases returns; the result is the region of the right tree that covers the address, provided that it has all the
  flags asked for, and NULL exactly when there is no such region.
\<close>
theorem guest_find_region_exact:
  assumes "aspace_inv g"
  shows "\<exists>res. vmm_guest_find_region g a fl False = Some res \<and>
    (\<forall>i. res = Some i \<longleftrightarrow> i \<in> set (elems (reg_tree fl g)) \<and> covers g a i \<and> reg_flags (regs g i) AND fl = fl)"
proof (cases "tree_lookup g fl (fl AND NOT VMM_REGION_MANIFEST_MASK) a")
  case None
  then have "\<not> (i \<in> set (elems (reg_tree fl g)) \<and> covers g a i \<and> reg_flags (regs g i) AND fl = fl)" for i
    using tree_lookup_iff [OF assms, of fl "fl AND NOT VMM_REGION_MANIFEST_MASK" a i] mask_split [of "reg_flags (regs g i)" fl VMM_REGION_MANIFEST_MASK] by auto
  then show ?thesis using None by (simp add: vmm_guest_find_region_def)
next
  case (Some j)
  then have j: "j \<in> set (elems (reg_tree fl g))" "covers g a j"
    "reg_flags (regs g j) AND (fl AND NOT VMM_REGION_MANIFEST_MASK) = fl AND NOT VMM_REGION_MANIFEST_MASK"
    using tree_lookup_iff [OF assms] by blast+
  have u: "i = j" if "i \<in> set (elems (reg_tree fl g))" "covers g a i" for i
    using tree_search [OF inv_tree [OF assms, of fl], of a] j that by (metis option.inject)
  have e: "reg_flags (regs g j) AND (fl AND VMM_REGION_MANIFEST_MASK) = fl AND VMM_REGION_MANIFEST_MASK \<longleftrightarrow> reg_flags (regs g j) AND fl = fl"
    using mask_split [of "reg_flags (regs g j)" fl VMM_REGION_MANIFEST_MASK] j(3) by blast
  have "vmm_guest_find_region g a fl False = Some (if reg_flags (regs g j) AND fl = fl then Some j else None)"
    unfolding vmm_guest_find_region_def Let_def Some
    by (simp only: e option.case bind.simps if_False simp_thms if_not_P split: if_split) blast
  then show ?thesis using j(1,2) by (auto dest: u)
qed


text \<open>One region of memory, its alias, and a second region of memory with two mappings.\<close>

definition aspace_example :: guest_aspace where
  "aspace_example = \<lparr>shm_ctrl = \<lparr>shmems = (\<lambda>i. \<lparr>ref_count = 0, shm_name = [], shm_addr = 0, shm_size = 0, shm_align_order = 0\<rparr>),
       shm_list = [], ram = \<lparr>ram_ops = default_ops, ops_priv = 0, bank_count = 0, banks = []\<rparr>\<rparr>,
     regs = (\<lambda>i. if i = 0 then \<lparr>reg_node = 10, reg_flags = 0x109, gphys_addr = 0x1000, aphys_addr = 0x1000, phys_size = 0x2000,
         first_color = 0, num_colors = 0, reg_shm = None, align_order = 12, map_order = 12, maps_count = 2,
         maps = [\<lparr>map_hphys = 0x80000000, map_flags = 1\<rparr>, \<lparr>map_hphys = 0x90000000, map_flags = 1\<rparr>]\<rparr>
       else \<lparr>reg_node = 11, reg_flags = 0x10C, gphys_addr = 0x5000, aphys_addr = 0x1000, phys_size = 0x1000,
         first_color = 0, num_colors = 0, reg_shm = None, align_order = 0, map_order = 12, maps_count = 1,
         maps = [\<lparr>map_hphys = 0x5000, map_flags = 0\<rparr>]\<rparr>),
     next_reg = 2, reg_iotree = RB_NULL, reg_memtree = Rb_node RB_BLACK RB_NULL 0 (Rb_node RB_RED RB_NULL 1 RB_NULL),
     reg_ioprobe_list = [], reg_memprobe_list = [0, 1], aspace_node = True, aspace_initialized = True, node_ref = (\<lambda>n. 1), log = []\<rparr>"

lemma aspace_example_inv: "aspace_inv aspace_example"
proof -
  have "rb_root_ok (RB_NULL :: nat rb_tree)" by (simp add: rb_root_ok_def)
  moreover have "rb_root_ok (Rb_node RB_BLACK RB_NULL (0::nat) (Rb_node RB_RED RB_NULL 1 RB_NULL))"
    unfolding rb_root_ok_def by (intro conjI exI [of _ 1]) simp_all
  ultimately show ?thesis
    by (simp add: aspace_inv_def aspace_example_def tree_ok_def rb.ranges_def reg_lo_def reg_hi_def VMM_REGION_GPHYS_END_def
        has_def region_flags)
qed

lemma aspace_example_plain: "plain_memory aspace_example 0"
  by (simp add: plain_memory_def aspace_example_def has_def region_flags mem_flags_def region_wf_def)

theorem guest_find_region_exact_witness:
  "\<exists>res. vmm_guest_find_region aspace_example 0x5800 VMM_REGION_MEMORY False = Some res \<and> res = Some 1"
proof -
  obtain res where r: "vmm_guest_find_region aspace_example 0x5800 VMM_REGION_MEMORY False = Some res"
    "\<forall>i. res = Some i \<longleftrightarrow> i \<in> set (elems (reg_tree VMM_REGION_MEMORY aspace_example)) \<and> covers aspace_example 0x5800 i \<and>
       reg_flags (regs aspace_example i) AND VMM_REGION_MEMORY = VMM_REGION_MEMORY"
    using guest_find_region_exact [OF aspace_example_inv, of "0x5800" VMM_REGION_MEMORY] by blast
  have "res = Some 1"
    using r(2) by (simp add: aspace_example_def reg_tree_def region_flags covers_def reg_lo_def reg_hi_def VMM_REGION_GPHYS_END_def)
  then show ?thesis using r(1) by blast
qed

text \<open>
  Property C11: reading guest memory. When host memory delivers the bytes asked for, a read inside one region of real memory
  returns exactly the requested number of bytes, each taken from the host address its guest address is mapped to,
  also where the read crosses from one mapping of the region to the next.
\<close>
theorem guest_memory_read_exact:
  assumes "aspace_inv g" and "plain_memory g i" and "unat off + unat len \<le> unat (phys_size (regs g i))"
  shows "vmm_guest_memory_read (mem_host mem) g (gphys_addr (regs g i) + off) len =
    Some (map (\<lambda>k. mem (host_addr (regs g i) (unat off + k))) [0..<unat len])"
proof (cases "len = 0")
  case False
  then have "memory_read_loop (mem_host mem) g (gphys_addr (regs g i) + of_nat (unat off)) len 0 [] =
      Some ([] @ map (\<lambda>k. mem (host_addr (regs g i) (unat off + k))) [0..<unat len])"
    by (intro read_loop [OF assms(1,2)]) (use assms(3) False in \<open>auto simp: word_less_nat_alt unat_gt_0\<close>)
  then show ?thesis using False by (simp add: vmm_guest_memory_read_def)
qed (simp add: vmm_guest_memory_read_def)

theorem guest_memory_read_exact_witness:
  "vmm_guest_memory_read (mem_host (\<lambda>h. if h = 0x80000FFF then 7 else if h = 0x90000000 then 9 else 0)) aspace_example 0x1FFF 2 =
     Some [7, 9]"
proof -
  let ?r = "regs aspace_example 0"
  have "unat (0xFFF::u64) + unat (2::u32) \<le> unat (phys_size ?r)" by (simp add: aspace_example_def)
  note th = guest_memory_read_exact [OF aspace_example_inv aspace_example_plain this]
  have "gphys_addr ?r + 0xFFF = 0x1FFF" by (simp add: aspace_example_def)
  moreover have "host_addr ?r (0xFFF + 0) = 0x80000FFF" "host_addr ?r (0xFFF + 1) = 0x90000000"
    by (simp_all add: host_addr_def map_index_def aspace_example_def)
  ultimately show ?thesis using th by (simp add: upt_rec)
qed

text \<open>
  Further fact: memory behind an alias region cannot be read. \<^verbatim>\<open>vmm_guest_memory_read\<close> resolves the alias to the region of
  real memory, but looks up the mapping with the unresolved address, which lies outside that region: whatever the length,
  no byte is read.
\<close>
theorem guest_memory_read_alias_empty:
  assumes "aspace_inv g" and "i \<in> set (elems (reg_memtree g))" and "covers g a i" and "has (regs g i) VMM_REGION_ALIAS"
    and "vmm_guest_find_region g a (VMM_REGION_REAL OR VMM_REGION_MEMORY) True = Some (Some j)" and "\<forall>h. host h 0 = []"
  shows "vmm_guest_memory_read host g a len = Some []"
proof -
  have t: "reg_tree mem_flags g = reg_memtree g" by (simp add: reg_tree_def mem_flags_def region_flags)
  have j: "\<not> has (regs g j) VMM_REGION_ALIAS" "j \<in> set (elems (reg_memtree g))"
    using find_resolved [OF assms(5)] tree_lookup_iff [OF assms(1)] t unfolding mem_flags_def [symmetric] by auto
  then have "j \<noteq> i" using assms(4) by auto
  have "rb.ranges (reg_lo g) (reg_hi g) (reg_memtree g)" using assms(1) by (simp add: aspace_inv_def tree_ok_def)
  then have "\<not> covers g a j"
    using rb.range_unique [of "reg_lo g" "reg_hi g" "reg_memtree g" i a j] assms(2,3) j(2) \<open>j \<noteq> i\<close> unfolding covers_def by blast
  then have "mapping_find (regs g j) a = None"
    by (auto simp: mapping_find_def covers_def reg_lo_def reg_hi_def not_le not_less)
  then have "vmm_guest_find_mapping (Some (regs g j)) a = Some (0, 0)" by (simp add: vmm_guest_find_mapping_def)
  moreover have "access_size 0 n = 0" for n using access_size [of 0 n] by (simp add: unat_eq_0)
  ultimately show ?thesis
    using assms(5,6) by (simp add: vmm_guest_memory_read_def memory_read_loop.simps [of host g a len 0])
qed

theorem guest_memory_read_alias_empty_witness:
  "vmm_guest_memory_read (mem_host (\<lambda>h. 7)) aspace_example 0x5000 4 = Some []"
proof (rule guest_memory_read_alias_empty [OF aspace_example_inv, of 1 _ 0])
  show "1 \<in> set (elems (reg_memtree aspace_example))" by (simp add: aspace_example_def)
  show "covers aspace_example 0x5000 1"
    by (simp add: covers_def reg_lo_def reg_hi_def VMM_REGION_GPHYS_END_def aspace_example_def)
  show "has (regs aspace_example 1) VMM_REGION_ALIAS" by (simp add: has_def aspace_example_def region_flags)
  show "vmm_guest_find_region aspace_example 0x5000 (VMM_REGION_REAL OR VMM_REGION_MEMORY) True = Some (Some 0)"
    by (simp add: vmm_guest_find_region_def tree_lookup_def rb_search_def find_cmp_def resolve_alias.simps aspace_example_def
        reg_tree_def has_def region_flags VMM_REGION_GPHYS_END_def VMM_REGION_GPHYS_TO_APHYS_def VMM_REGION_MANIFEST_MASK_def Let_def)
  show "\<forall>h. mem_host (\<lambda>h. 7) h 0 = []" by (simp add: mem_host_def)
qed

end
