(* ===== verification/Guest_region.thy ===== *)
theory Guest_region
  imports Guest_aspace
begin

text \<open>
  Adding and deleting regions of a guest and the life cycle of its address space, the second half of
  \<^verbatim>\<open>core/vmm_guest_aspace.c\<close>. The steps of \<^verbatim>\<open>region_add\<close> are separate definitions, each with the error exits of its part;
  the labels of the source that undo the earlier steps are \<open>free_maps\<close>, \<open>drop_shm\<close> and \<open>region_fail\<close>.
\<close>

section \<open>Region nodes\<close>

definition is_alloced :: "string \<Rightarrow> bool" where "is_alloced dt \<longleftrightarrow> dt = ''alloced_ram'' \<or> dt = ''alloced_rom''"
definition is_colored :: "string \<Rightarrow> bool" where "is_colored dt \<longleftrightarrow> dt = ''colored_ram'' \<or> dt = ''colored_rom''"
definition is_shared :: "string \<Rightarrow> bool" where "is_shared dt \<longleftrightarrow> dt = ''shared_ram'' \<or> dt = ''shared_rom''"

text \<open>Size and alignment of the shared memory a node names; the reference is dropped again.\<close>

definition peek_shmem :: "string option \<Rightarrow> shm_sys \<Rightarrow> ((u64 \<times> u32) option \<times> shm_sys) option" where
  "peek_shmem name s =
     (case name of
        None \<Rightarrow> Some (None, s)
      | Some nm \<Rightarrow>
          let (found, s1) = vmm_shmem_find_byname (Some nm) s in
          (case found of
             None \<Rightarrow> Some (None, s1)
           | Some i \<Rightarrow> do {
               s2 \<leftarrow> vmm_shmem_dref i s1;
               Some (Some (shm_size (shmems s1 i), shm_align_order (shmems s1 i)), s2) }))"

definition aligned :: "nat \<Rightarrow> u64 \<Rightarrow> bool" where
  "aligned order x \<longleftrightarrow> x AND order_mask order = 0"

definition the_or :: "'a \<Rightarrow> 'a option \<Rightarrow> 'a" where
  "the_or d x = (case x of None \<Rightarrow> d | Some y \<Rightarrow> y)"

definition is_region_node_valid :: "region_node \<Rightarrow> shm_sys \<Rightarrow> (bool \<times> shm_sys) option" where
  "is_region_node_valid n s =
     (case (manifest_type n, address_type n, device_type n, guest_physical_addr n, physical_size n) of
        (Some mt, Some at, Some dt, Some gphys, Some sz) \<Rightarrow>
          (let real = (mt = ''real''); alias = (mt = ''alias'');
               fixed = (real \<and> \<not> is_alloced dt \<and> \<not> is_colored dt \<and> \<not> is_shared dt);
               hphys = (if fixed then the_or 0 (host_physical_addr n) else 0);
               aphys = (if alias then the_or 0 (alias_physical_addr n) else 0);
               fc = the_or 0 (first_color_attr n); nc = the_or 0 (num_colors_attr n) in
           if mt \<notin> {''real'', ''virtual'', ''alias''} \<or> at \<notin> {''io'', ''memory''} \<or>
              fixed \<and> host_physical_addr n = None \<or> alias \<and> alias_physical_addr n = None then Some (False, s)
           else do {
             (shm, s1) \<leftarrow> peek_shmem (shared_memory n) s;
             colors \<leftarrow> (if is_colored dt then vmm_host_ram_color_count (ram s1) else Some 0);
             corder \<leftarrow> (if is_colored dt then vmm_host_ram_color_order (ram s1) else Some 0);
             let order = (if is_colored dt then corder
                          else if is_shared dt then (case shm of Some (z, o') \<Rightarrow> o' | None \<Rightarrow> 0)
                          else the_or 0 (align_order_attr n));
             Some (\<not> (is_colored dt \<and> (nc = 0 \<or> colors \<le> fc \<or> colors < fc + nc)) \<and>
                   \<not> (is_shared dt \<and> (case shm of None \<Rightarrow> True | Some (z, o') \<Rightarrow> z < sz)) \<and>
                   unat order < BITS_PER_LONG \<and> aligned (unat order) sz \<and> aligned (unat order) gphys \<and>
                   aligned (unat order) hphys \<and> aligned (unat order) aphys, s1) })
      | _ \<Rightarrow> Some (False, s))"

definition region_type_flags :: "string \<Rightarrow> string \<Rightarrow> string \<Rightarrow> u32" where
  "region_type_flags mt at dt =
     (let m = (if mt = ''real'' then VMM_REGION_REAL else if mt = ''alias'' then VMM_REGION_ALIAS else VMM_REGION_VIRTUAL);
          a = (if at = ''io'' then VMM_REGION_IO else VMM_REGION_MEMORY);
          isram = dt \<in> {''ram'', ''alloced_ram'', ''colored_ram'', ''shared_ram''};
          isrom = dt \<in> {''rom'', ''alloced_rom'', ''colored_rom'', ''shared_rom''};
          d = (if isram then VMM_REGION_ISRAM else if isrom then VMM_REGION_READONLY OR VMM_REGION_ISROM else VMM_REGION_ISDEVICE);
          rs = (if dt = ''ram'' \<or> dt = ''rom'' then VMM_REGION_ISRESERVED else 0);
          al = (if is_alloced dt then VMM_REGION_ISALLOCED else 0);
          co = (if is_colored dt then VMM_REGION_ISCOLORED else 0);
          sh = (if is_shared dt then VMM_REGION_ISSHARED else 0);
          cb = (if mt = ''real'' \<and> at \<noteq> ''io'' \<and> isram then VMM_REGION_CACHEABLE OR VMM_REGION_BUFFERABLE else 0)
      in m OR a OR d OR rs OR al OR co OR sh OR cb)"

text \<open>\<^verbatim>\<open>for (i = VMM_PAGE_SHIFT; i < 64; i++) if (reg->phys_size <= ((u64)1 << i)) break;\<close>\<close>

fun default_map_order :: "u64 \<Rightarrow> nat \<Rightarrow> nat \<Rightarrow> nat option" where
  "default_map_order sz i 0 = None"
| "default_map_order sz i (Suc n) = (if sz \<le> push_bit i 1 then Some i else default_map_order sz (Suc i) n)"

text \<open>RAM or ROM that is neither an alias nor virtual.\<close>

definition backed :: "region \<Rightarrow> bool" where
  "backed r \<longleftrightarrow> \<not> has r (VMM_REGION_ALIAS OR VMM_REGION_VIRTUAL) \<and> has r (VMM_REGION_ISRAM OR VMM_REGION_ISROM)"

definition region_map_order :: "region_node \<Rightarrow> region \<Rightarrow> u32 \<Rightarrow> u32" where
  "region_map_order n r mo =
     (let m1 = (if backed r \<and> has r VMM_REGION_ISALLOCED then
                  let m = (if VMM_PAGE_SHIFT \<le> unat (align_order r) \<and> align_order r < mo then align_order r else mo)
                  in (case map_order_attr n of Some i \<Rightarrow> if VMM_PAGE_SHIFT \<le> unat i then i else m | None \<Rightarrow> m)
                else mo)
      in if backed r \<and> has r VMM_REGION_ISCOLORED then align_order r else m1)"

definition region_maps :: "region \<Rightarrow> region_mapping list" where
  "region_maps r = map (\<lambda>i. \<lparr>map_hphys = gphys_addr r + mapping_gphys_offset r (of_nat i), map_flags = 0\<rparr>) [0..<unat (maps_count r)]"

definition drop_shm :: "region \<Rightarrow> shm_sys \<Rightarrow> shm_sys option" where
  "drop_shm r s = (case reg_shm r of None \<Rightarrow> Some s | Some i \<Rightarrow> vmm_shmem_dref i s)"

text \<open>The mappings: their order, number and first values. No memory is \<open>VMM_ENOMEM\<close>, also for no mappings at all.\<close>

definition region_setup_maps :: "aspace_ops \<Rightarrow> region_node \<Rightarrow> region \<Rightarrow> (int + region) option" where
  "region_setup_maps E n r =
     (case default_map_order (phys_size r) VMM_PAGE_SHIFT (64 - VMM_PAGE_SHIFT) of
        None \<Rightarrow> Some (Inl VMM_EINVALID)
      | Some mo0 \<Rightarrow>
          let mo = region_map_order n r (of_nat mo0) in
          if 64 \<le> unat mo then None
          else let c = ucast (drop_bit (unat mo) (phys_size r)) :: u32;
                   c' = (if push_bit (unat mo) (ucast c) < phys_size r then c + 1 else c);
                   r1 = r\<lparr>map_order := mo, maps_count := c'\<rparr>
               in Some (if c' = 0 \<or> \<not> maps_mem E c' then Inl VMM_ENOMEM else Inr (r1\<lparr>maps := region_maps r1\<rparr>)))"

definition region_fill :: "aspace_ops \<Rightarrow> nat \<Rightarrow> shm_sys \<Rightarrow> ((int + region) \<times> shm_sys) option" where
  "region_fill E node s =
     (let n = region_attrs E node in
      case (manifest_type n, address_type n, device_type n) of
        (Some mt, Some at, Some dt) \<Rightarrow>
          (let fl = region_type_flags mt at dt in
           case (guest_physical_addr n, if mt = ''alias'' then alias_physical_addr n else guest_physical_addr n, physical_size n,
                 if is_colored dt then first_color_attr n else Some 0, if is_colored dt then num_colors_attr n else Some 0) of
             (Some gp, Some ap, Some sz, Some fc, Some nc) \<Rightarrow> do {
               (shm, s1) \<leftarrow> Some (if is_shared dt then vmm_shmem_find_byname (shared_memory n) s else (None, s));
               let r = \<lparr>reg_node = node, reg_flags = fl, gphys_addr = gp, aphys_addr = ap, phys_size = sz, first_color = fc,
                 num_colors = nc, reg_shm = shm, align_order = 0, map_order = 0, maps_count = 0, maps = []\<rparr>;
               if is_shared dt \<and> shm = None then Some (Inl VMM_EINVALID, s1)
               else if is_shared dt \<and> (case shm of Some i \<Rightarrow> shm_size (shmems s1 i) < sz | None \<Rightarrow> False)
               then map_option (\<lambda>s2. (Inl VMM_EINVALID, s2)) (drop_shm r s1)
               else do {
                 ao \<leftarrow> (if is_colored dt then vmm_host_ram_color_order (ram s1)
                        else Some (case shm of Some i \<Rightarrow> shm_align_order (shmems s1 i) | None \<Rightarrow> the_or 0 (align_order_attr n)));
                 res \<leftarrow> region_setup_maps E n (r\<lparr>align_order := ao\<rparr>);
                 (case res of
                    Inl rc \<Rightarrow> map_option (\<lambda>s2. (Inl rc, s2)) (drop_shm r s1)
                  | Inr r1 \<Rightarrow> Some (Inr r1, s1)) } }
           | _ \<Rightarrow> Some (Inl VMM_EINVALID, s))
      | _ \<Rightarrow> Some (Inl VMM_ENOTAVAIL, s))"

section \<open>Host RAM behind a region\<close>

fun each_map ::
  "(nat \<Rightarrow> region \<Rightarrow> 's \<Rightarrow> (int \<times> region \<times> 's) option) \<Rightarrow> nat list \<Rightarrow> region \<Rightarrow> 's \<Rightarrow> (int \<times> region \<times> 's) option" where
  "each_map f [] r s = Some (VMM_OK, r, s)"
| "each_map f (i # is) r s = do {
     (rc, r', s') \<leftarrow> f i r s;
     if rc \<noteq> 0 then Some (rc, r', s') else each_map f is r' s' }"

definition set_map :: "nat \<Rightarrow> u64 \<Rightarrow> u32 \<Rightarrow> region \<Rightarrow> region" where
  "set_map i h fl r = r\<lparr>maps := (maps r)[i := \<lparr>map_hphys = h, map_flags = fl\<rparr>]\<rparr>"

definition reserve_map :: "nat \<Rightarrow> region \<Rightarrow> host_ram_ctrl \<times> aspace_call list \<Rightarrow> (int \<times> region \<times> host_ram_ctrl \<times> aspace_call list) option" where
  "reserve_map i r = (\<lambda>(c, l). do {
     let m = maps r ! i;
     (rc, c') \<leftarrow> vmm_host_ram_reserve c (map_hphys m) (mapping_phys_size r (of_nat i));
     Some (rc, if rc \<noteq> 0 then r else set_map i (map_hphys m) (map_flags m OR VMM_REGION_MAPPING_ISHOSTRAM) r, c', l) })"

text \<open>What follows both kinds of allocation: a size of zero is \<open>VMM_ENOMEM\<close>, and ROM is cleared.\<close>

definition got_map ::
  "nat \<Rightarrow> region \<Rightarrow> aspace_call list \<Rightarrow> u64 \<times> u64 option \<times> host_ram_ctrl \<Rightarrow> int \<times> region \<times> host_ram_ctrl \<times> aspace_call list" where
  "got_map i r l = (\<lambda>(got, pa, c).
     if got = 0 then (VMM_ENOMEM, r, c, l)
     else let h = the_or (map_hphys (maps r ! i)) pa;
              r' = set_map i h (map_flags (maps r ! i) OR VMM_REGION_MAPPING_ISHOSTRAM) r
          in (VMM_OK, r', c, if has r VMM_REGION_ISROM then l @ [Host_memory_set h (mapping_phys_size r (of_nat i))] else l))"

definition alloc_map :: "nat \<Rightarrow> region \<Rightarrow> host_ram_ctrl \<times> aspace_call list \<Rightarrow> (int \<times> region \<times> host_ram_ctrl \<times> aspace_call list) option" where
  "alloc_map i r = (\<lambda>(c, l). map_option (got_map i r l) (vmm_host_ram_alloc c (mapping_phys_size r (of_nat i)) (align_order r)))"

definition color_map :: "nat \<Rightarrow> region \<Rightarrow> host_ram_ctrl \<times> aspace_call list \<Rightarrow> (int \<times> region \<times> host_ram_ctrl \<times> aspace_call list) option" where
  "color_map i r = (\<lambda>(c, l).
     if num_colors r = 0 then None
     else map_option (got_map i r l) (vmm_host_ram_color_alloc c (first_color r + of_nat i mod num_colors r)))"

definition map_indices :: "region \<Rightarrow> nat list" where
  "map_indices r = [0..<unat (maps_count r)]"

text \<open>The three loops that back a region with host RAM; the first that fails ends the call.\<close>

definition region_backing ::
  "region \<Rightarrow> host_ram_ctrl \<times> aspace_call list \<Rightarrow> (int \<times> region \<times> host_ram_ctrl \<times> aspace_call list) option" where
  "region_backing r s = do {
     (rc, r1, s1) \<leftarrow> (if backed r \<and> has r VMM_REGION_ISRESERVED then each_map reserve_map (map_indices r) r s else Some (VMM_OK, r, s));
     if rc \<noteq> 0 then Some (rc, r1, s1)
     else do {
       (rc, r2, s2) \<leftarrow> (if backed r \<and> has r VMM_REGION_ISALLOCED then each_map alloc_map (map_indices r) r1 s1 else Some (VMM_OK, r1, s1));
       if rc \<noteq> 0 then Some (rc, r2, s2)
       else (if backed r \<and> has r VMM_REGION_ISCOLORED then each_map color_map (map_indices r) r2 s2 else Some (VMM_OK, r2, s2)) } }"

text \<open>The last result of \<^verbatim>\<open>vmm_host_ram_free\<close> is kept; \<^verbatim>\<open>region_del\<close> returns it.\<close>

fun free_maps :: "nat list \<Rightarrow> int \<Rightarrow> region \<Rightarrow> host_ram_ctrl \<Rightarrow> (int \<times> region \<times> host_ram_ctrl) option" where
  "free_maps [] rc r c = Some (rc, r, c)"
| "free_maps (i # is) rc r c =
     (let m = maps r ! i in
      if map_flags m AND VMM_REGION_MAPPING_ISHOSTRAM = 0 then free_maps is rc r c
      else do {
        (rc', c') \<leftarrow> vmm_host_ram_free c (map_hphys m) (mapping_phys_size r (of_nat i));
        free_maps is rc' (set_map i (map_hphys m) (map_flags m AND NOT VMM_REGION_MAPPING_ISHOSTRAM) r) c' })"

definition region_free_ram :: "int \<Rightarrow> region \<Rightarrow> host_ram_ctrl \<Rightarrow> (int \<times> region \<times> host_ram_ctrl) option" where
  "region_free_ram rc r c = (if backed r then free_maps (map_indices r) rc r c else Some (rc, r, c))"

section \<open>Adding a region\<close>

definition overlap_cmp :: "guest_aspace \<Rightarrow> region \<Rightarrow> nat \<Rightarrow> rb_dir" where
  "overlap_cmp g r i =
     (if VMM_REGION_GPHYS_END r \<le> gphys_addr (regs g i) then Go_left
      else if VMM_REGION_GPHYS_END (regs g i) \<le> gphys_addr r then Go_right else Stop)"

definition is_region_overlapping :: "guest_aspace \<Rightarrow> region \<Rightarrow> nat option" where
  "is_region_overlapping g r = rb_search (overlap_cmp g r) (reg_tree (reg_flags r) g)"

definition region_fail :: "int \<Rightarrow> nat \<Rightarrow> guest_aspace \<Rightarrow> int \<times> nat option \<times> guest_aspace" where
  "region_fail rc node g = (rc, None, g\<lparr>node_ref := (node_ref g)(node := node_ref g node - 1)\<rparr>)"

text \<open>\<^verbatim>\<open>region_ram_free_fail\<close> and the labels after it.\<close>

definition region_undo :: "int \<Rightarrow> region \<Rightarrow> guest_aspace \<Rightarrow> (int \<times> nat option \<times> guest_aspace) option" where
  "region_undo rc r g = do {
     (rc', r', c) \<leftarrow> region_free_ram rc r (ram (shm_ctrl g));
     s \<leftarrow> drop_shm r ((shm_ctrl g)\<lparr>ram := c\<rparr>);
     Some (region_fail rc (reg_node r) (g\<lparr>shm_ctrl := s\<rparr>)) }"

definition emulated :: "region \<Rightarrow> bool" where
  "emulated r \<longleftrightarrow> has r VMM_REGION_ISDEVICE \<and> \<not> has r VMM_REGION_ALIAS"

definition region_unprobe :: "nat \<Rightarrow> region \<Rightarrow> guest_aspace \<Rightarrow> guest_aspace" where
  "region_unprobe i r g = (if emulated r then g\<lparr>log := log g @ [Devemu_remove i]\<rparr> else g)"

text \<open>Mapping 0 of a region with a fixed host address, or of shared memory.\<close>

definition region_map0 :: "aspace_ops \<Rightarrow> region \<Rightarrow> shm_sys \<Rightarrow> int + region" where
  "region_map0 E r s =
     (let r1 = (if has r VMM_REGION_REAL \<and> \<not> has r VMM_REGION_ISALLOCED \<and> \<not> has r VMM_REGION_ISCOLORED \<and> \<not> has r VMM_REGION_ISSHARED
                then (case host_physical_addr (region_attrs E (reg_node r)) of
                    None \<Rightarrow> Inl VMM_EINVALID
                  | Some h \<Rightarrow> Inr (r\<lparr>maps := (maps r)[0 := (maps r ! 0)\<lparr>map_hphys := h\<rparr>]\<rparr>))
                else Inr r)
      in case r1 of
           Inl rc \<Rightarrow> Inl rc
         | Inr r2 \<Rightarrow> (case reg_shm r of
             Some k \<Rightarrow> if backed r \<and> has r VMM_REGION_ISSHARED
               then Inr (r2\<lparr>maps := (maps r2)[0 := (maps r2 ! 0)\<lparr>map_hphys := shm_addr (shmems s k)\<rparr>]\<rparr>) else Inr r2
           | None \<Rightarrow> Inr r2))"

text \<open>Insertion into the tree and the probe list.\<close>

definition region_link :: "nat \<Rightarrow> region \<Rightarrow> bool \<Rightarrow> guest_aspace \<Rightarrow> guest_aspace option option" where
  "region_link i r add_probe_list g = do {
     res \<leftarrow> rb_insert_by (overlap_cmp g r) i (reg_tree (reg_flags r) g);
     Some (case res of
         Inl j \<Rightarrow> None
       | Inr t \<Rightarrow> Some (if has r VMM_REGION_IO
           then g\<lparr>reg_iotree := t, reg_ioprobe_list := (if add_probe_list then reg_ioprobe_list g @ [i] else reg_ioprobe_list g)\<rparr>
           else g\<lparr>reg_memtree := t, reg_memprobe_list := (if add_probe_list then reg_memprobe_list g @ [i] else reg_memprobe_list g)\<rparr>)) }"

text \<open>From the probe of the device emulator to the end.\<close>

definition region_attach :: "aspace_ops \<Rightarrow> nat \<Rightarrow> region \<Rightarrow> bool \<Rightarrow> guest_aspace \<Rightarrow> (int \<times> nat option \<times> guest_aspace) option" where
  "region_attach E i r add_probe_list g =
     (let g1 = (if emulated r then g\<lparr>log := log g @ [Devemu_probe i]\<rparr> else g) in
      if emulated r \<and> probe_region E r \<noteq> 0 then region_undo (probe_region E r) r g1
      else let g2 = g1\<lparr>log := log g1 @ [Arch_add i]\<rparr>; rc = arch_guest_add_region E r in
        if rc \<noteq> 0 then region_undo rc r (region_unprobe i r g2)
        else do {
          linked \<leftarrow> region_link i r add_probe_list g2;
          (case linked of
             None \<Rightarrow> region_undo VMM_EINVALID r (region_unprobe i r (g2\<lparr>log := log g2 @ [Arch_del i]\<rparr>))
           | Some g3 \<Rightarrow> Some (VMM_OK, Some i, g3)) })"

text \<open>From the check for an overlap on, for a filled-in region.\<close>

definition region_install :: "aspace_ops \<Rightarrow> nat \<Rightarrow> region \<Rightarrow> bool \<Rightarrow> guest_aspace \<Rightarrow> (int \<times> nat option \<times> guest_aspace) option" where
  "region_install E i r add_probe_list g =
     (let free_maps_fail = (\<lambda>rc. map_option (\<lambda>s. region_fail rc (reg_node r) (g\<lparr>shm_ctrl := s\<rparr>)) (drop_shm r (shm_ctrl g))) in
      if is_region_overlapping g r \<noteq> None then free_maps_fail VMM_EINVALID
      else (case region_map0 E r (shm_ctrl g) of
          Inl rc \<Rightarrow> free_maps_fail rc
        | Inr r1 \<Rightarrow> do {
            (rc, r2, c, l) \<leftarrow> region_backing r1 (ram (shm_ctrl g), log g);
            let g1 = g\<lparr>shm_ctrl := (shm_ctrl g)\<lparr>ram := c\<rparr>, log := l, regs := (regs g)(i := r2)\<rparr>;
            if rc \<noteq> 0 then region_undo rc r2 g1 else region_attach E i r2 add_probe_list g1 }))"

definition region_add :: "aspace_ops \<Rightarrow> nat \<Rightarrow> bool \<Rightarrow> guest_aspace \<Rightarrow> (int \<times> nat option \<times> guest_aspace) option" where
  "region_add E node add_probe_list g0 = do {
     let g = g0\<lparr>node_ref := (node_ref g0)(node := node_ref g0 node + 1)\<rparr>;
     (valid, s1) \<leftarrow> is_region_node_valid (region_attrs E node) (shm_ctrl g);
     if \<not> valid then Some (region_fail VMM_EINVALID node (g\<lparr>shm_ctrl := s1\<rparr>))
     else if \<not> region_mem E node then None
     else do {
       (res, s2) \<leftarrow> region_fill E node s1;
       let g2 = g\<lparr>shm_ctrl := s2, next_reg := Suc (next_reg g)\<rparr>;
       (case res of
          Inl rc \<Rightarrow> Some (region_fail rc node g2)
        | Inr r \<Rightarrow> region_install E (next_reg g) r add_probe_list g2) } }"

section \<open>Deleting a region\<close>

definition unlink_tree :: "nat \<Rightarrow> guest_aspace \<Rightarrow> guest_aspace option" where
  "unlink_tree i g =
     (if has (regs g i) VMM_REGION_IO
      then map_option (\<lambda>t. g\<lparr>reg_iotree := t\<rparr>) (rb_remove i (reg_iotree g))
      else map_option (\<lambda>t. g\<lparr>reg_memtree := t\<rparr>) (rb_remove i (reg_memtree g)))"

definition unlink_probe :: "nat \<Rightarrow> guest_aspace \<Rightarrow> guest_aspace" where
  "unlink_probe i g =
     (if has (regs g i) VMM_REGION_IO
      then g\<lparr>reg_ioprobe_list := remove1 i (reg_ioprobe_list g)\<rparr>
      else g\<lparr>reg_memprobe_list := remove1 i (reg_memprobe_list g)\<rparr>)"

definition region_del :: "aspace_ops \<Rightarrow> nat \<Rightarrow> bool \<Rightarrow> bool \<Rightarrow> guest_aspace \<Rightarrow> (int \<times> guest_aspace) option" where
  "region_del E i del_reg_tree del_probe_list g = do {
     let r = regs g i;
     g1 \<leftarrow> (if del_reg_tree then unlink_tree i g else Some g);
     let g2 = (if del_probe_list then unlink_probe i g1 else g1);
     let g3 = region_unprobe i r (g2\<lparr>log := log g2 @ [Arch_del i]\<rparr>);
     (rc, r', c) \<leftarrow> region_free_ram (arch_guest_del_region E r) r (ram (shm_ctrl g3));
     s \<leftarrow> drop_shm r ((shm_ctrl g3)\<lparr>ram := c\<rparr>);
     Some (rc, g3\<lparr>shm_ctrl := s, node_ref := (node_ref g3)(reg_node r := node_ref g3 (reg_node r) - 1)\<rparr>) }"

definition vmm_guest_add_region_from_node :: "aspace_ops \<Rightarrow> nat option \<Rightarrow> guest_aspace \<Rightarrow> (int \<times> guest_aspace) option" where
  "vmm_guest_add_region_from_node E node g =
     (case node of
        None \<Rightarrow> Some (VMM_EINVALID, g)
      | Some n \<Rightarrow>
          if \<not> aspace_node g then Some (VMM_EINVALID, g)
          else do {
            (rc, reg, g') \<leftarrow> region_add E n False g;
            (case reg of
               None \<Rightarrow> Some (rc, g')
             | Some i \<Rightarrow> Some (VMM_OK, g'\<lparr>regs := (regs g')(i := (regs g' i)\<lparr>reg_flags := reg_flags (regs g' i) OR VMM_REGION_ISDYNAMIC\<rparr>)\<rparr>)) })"

text \<open>The second result says that the device tree node is deleted too.\<close>

definition vmm_guest_del_region :: "aspace_ops \<Rightarrow> nat option \<Rightarrow> bool \<Rightarrow> guest_aspace \<Rightarrow> (int \<times> bool \<times> guest_aspace) option" where
  "vmm_guest_del_region E rp del_node g =
     (case rp of
        None \<Rightarrow> Some (VMM_EINVALID, False, g)
      | Some i \<Rightarrow>
          if \<not> has (regs g i) VMM_REGION_ISDYNAMIC then Some (VMM_EINVALID, False, g)
          else do {
            (rc, g') \<leftarrow> region_del E i True False g;
            Some (if rc \<noteq> 0 then (rc, False, g') else (VMM_OK, del_node, g')) })"

section \<open>Life cycle\<close>

definition reset_regions :: "guest_aspace \<Rightarrow> nat rb_tree \<Rightarrow> aspace_call list" where
  "reset_regions g t = map Devemu_reset (filter (\<lambda>i. emulated (regs g i))
     (rb_walk rb_next_postorder (Suc (length (elems t))) (rb_first_postorder t)))"

definition vmm_guest_aspace_reset :: "aspace_ops \<Rightarrow> guest_aspace \<Rightarrow> int \<times> guest_aspace" where
  "vmm_guest_aspace_reset E g =
     (reset_context E, g\<lparr>log := log g @ reset_regions g (reg_iotree g) @ reset_regions g (reg_memtree g) @
        [Notify VMM_GUEST_ASPACE_EVENT_RESET, Devemu_reset_context]\<rparr>)"

fun add_children :: "aspace_ops \<Rightarrow> nat list \<Rightarrow> guest_aspace \<Rightarrow> (int \<times> guest_aspace) option" where
  "add_children E [] g = Some (VMM_OK, g)"
| "add_children E (n # ns) g = do {
     (rc, reg, g') \<leftarrow> region_add E n True g;
     if rc \<noteq> 0 then Some (rc, g') else add_children E ns g' }"

text \<open>\<open>children\<close> are the nodes below the address-space node of the guest, \<^const>\<open>None\<close> when it has none.\<close>

definition vmm_guest_aspace_init :: "aspace_ops \<Rightarrow> nat list option \<Rightarrow> guest_aspace \<Rightarrow> (int \<times> guest_aspace) option" where
  "vmm_guest_aspace_init E children g =
     (if aspace_initialized g then Some (VMM_EINVALID, g)
      else let g0 = g\<lparr>reg_iotree := RB_NULL, reg_memtree := RB_NULL, reg_ioprobe_list := [], reg_memprobe_list := [],
                      aspace_node := (children \<noteq> None)\<rparr> in
        case children of
          None \<Rightarrow> Some (VMM_EFAIL, g0)
        | Some ns \<Rightarrow>
            let g1 = g0\<lparr>log := log g0 @ [Devemu_init_context]\<rparr> in
            if init_context E \<noteq> 0 then Some (init_context E, g1)
            else do {
              (rc, g2) \<leftarrow> add_children E ns g1;
              Some (if rc \<noteq> 0 then (rc, g2)
                else (VMM_OK, g2\<lparr>aspace_initialized := True, log := log g2 @ [Notify VMM_GUEST_ASPACE_EVENT_INIT]\<rparr>)) })"

text \<open>
  \<^verbatim>\<open>while (!list_empty(root_plist))\<close>: the regions of a probe list from the last to the first. The tree is emptied after
  the loop, whatever is left in it.
\<close>

fun del_probed :: "aspace_ops \<Rightarrow> nat list \<Rightarrow> guest_aspace \<Rightarrow> guest_aspace option" where
  "del_probed E [] g = Some g"
| "del_probed E (i # is) g = do {
     g1 \<leftarrow> unlink_tree i g;
     (rc, g2) \<leftarrow> region_del E i False False g1;
     del_probed E is g2 }"

definition vmm_guest_aspace_deinit :: "aspace_ops \<Rightarrow> guest_aspace \<Rightarrow> (int \<times> guest_aspace) option" where
  "vmm_guest_aspace_deinit E g = do {
     let g0 = g\<lparr>log := log g @ [Notify VMM_GUEST_ASPACE_EVENT_DEINIT], aspace_initialized := False\<rparr>;
     g1 \<leftarrow> del_probed E (rev (reg_ioprobe_list g0)) (g0\<lparr>reg_ioprobe_list := []\<rparr>);
     let g2 = g1\<lparr>reg_iotree := RB_NULL\<rparr>;
     g3 \<leftarrow> del_probed E (rev (reg_memprobe_list g2)) (g2\<lparr>reg_memprobe_list := []\<rparr>);
     let g4 = g3\<lparr>reg_memtree := RB_NULL, log := log g3 @ [Devemu_deinit_context]\<rparr>;
     Some (if deinit_context E \<noteq> 0 then (deinit_context E, g4) else (VMM_OK, g4\<lparr>aspace_node := False\<rparr>)) }"

section \<open>Frames\<close>

text \<open>The parts of the address space that a failed call must leave alone.\<close>

definition same_regions :: "guest_aspace \<Rightarrow> guest_aspace \<Rightarrow> bool" where
  "same_regions g g' \<longleftrightarrow> reg_iotree g' = reg_iotree g \<and> reg_memtree g' = reg_memtree g \<and>
     reg_ioprobe_list g' = reg_ioprobe_list g \<and> reg_memprobe_list g' = reg_memprobe_list g \<and>
     (\<forall>i < next_reg g. regs g' i = regs g i) \<and> next_reg g \<le> next_reg g'"

lemma same_regions_refl [simp]: "same_regions g g" by (simp add: same_regions_def)

lemma same_regions_trans: "same_regions g h \<Longrightarrow> same_regions h k \<Longrightarrow> same_regions g k"
  by (auto simp: same_regions_def)

lemma tree_ok_cong:
  assumes "tree_ok g io t" and "\<forall>i < next_reg g. regs g' i = regs g i" and "next_reg g \<le> next_reg g'"
  shows "tree_ok g' io t"
proof -
  have e: "regs g' i = regs g i \<and> i < next_reg g" if "i \<in> set (elems t)" for i using assms that by (auto simp: tree_ok_def)
  have "rb.ranges (reg_lo g) (reg_hi g) t = rb.ranges (reg_lo g') (reg_hi g') t"
    by (rule rb.ranges_cong) (simp add: e reg_lo_def reg_hi_def)
  then show ?thesis using assms e less_le_trans by (fastforce simp: tree_ok_def)
qed

lemma same_regions_inv: "aspace_inv g \<Longrightarrow> same_regions g g' \<Longrightarrow> aspace_inv g'"
  using tree_ok_cong by (auto simp: aspace_inv_def same_regions_def)

lemma fail_frame: "region_fail rc node g = (rc', reg, g') \<Longrightarrow> rc' = rc \<and> reg = None \<and> same_regions g g' \<and>
    node_ref g' = (node_ref g)(node := node_ref g node - 1)"
  by (auto simp: region_fail_def same_regions_def)

lemma undo_frame: "region_undo rc r g = Some (rc', reg, g') \<Longrightarrow> rc' = rc \<and> reg = None \<and> same_regions g g' \<and>
    node_ref g' = (node_ref g)(reg_node r := node_ref g (reg_node r) - 1)"
  by (auto simp: region_undo_def region_fail_def same_regions_def split: bind_splits)

lemma unprobe_frame [simp]: "same_regions g (region_unprobe i r h) = same_regions g h" "node_ref (region_unprobe i r h) = node_ref h"
  by (simp_all add: region_unprobe_def same_regions_def)

text \<open>Filling in the mappings changes nothing else of a region.\<close>

definition remapped :: "region \<Rightarrow> region \<Rightarrow> bool" where
  "remapped r r' \<longleftrightarrow> r' = r\<lparr>maps := maps r'\<rparr>"

lemma remapped_refl [simp]: "remapped r r" by (simp add: remapped_def)

lemma remapped_trans: "remapped r s \<Longrightarrow> remapped s u \<Longrightarrow> remapped r u"
  by (cases r; cases s; cases u) (simp add: remapped_def)

lemma remapped_set_map [simp]: "remapped r (set_map i h fl r)"
  by (simp add: remapped_def set_map_def)

lemma each_map_remapped:
  assumes "\<And>i r s rc r' s'. f i r s = Some (rc, r', s') \<Longrightarrow> remapped r r'"
  shows "each_map f is r s = Some (rc, r', s') \<Longrightarrow> remapped r r'"
proof (induction "is" arbitrary: r s)
  case (Cons i "is")
  then obtain rc1 r1 s1 where f: "f i r s = Some (rc1, r1, s1)" "(if rc1 \<noteq> 0 then Some (rc1, r1, s1) else each_map f is r1 s1) = Some (rc, r', s')"
    by (auto split: bind_splits)
  then show ?case using Cons.IH [of r1 s1] assms [OF f(1)] remapped_trans by (auto split: if_splits)
qed simp

lemma got_map_remapped: "got_map i r l x = (rc, r', s') \<Longrightarrow> remapped r r'"
  by (auto simp: got_map_def Let_def split: prod.splits if_splits)

lemma backing_remapped:
  assumes "region_backing r s = Some (rc, r', s')"
  shows "remapped r r'"
proof -
  have a: "reserve_map i r s = Some (rc, r', s') \<Longrightarrow> remapped r r'" for i r s rc r' s'
    by (auto simp: reserve_map_def Let_def split: prod.splits bind_splits if_splits)
  have b: "alloc_map i r s = Some (rc, r', s') \<Longrightarrow> remapped r r'" for i r s rc r' s'
    by (auto simp: alloc_map_def split: prod.splits dest: got_map_remapped)
  have c: "color_map i r s = Some (rc, r', s') \<Longrightarrow> remapped r r'" for i r s rc r' s'
    by (auto simp: color_map_def split: prod.splits if_splits dest: got_map_remapped)
  have d: "each_map f is r s = Some (rc, r', s') \<Longrightarrow> f \<in> {reserve_map, alloc_map, color_map} \<Longrightarrow> remapped r r'" for f "is" r s rc r' s'
    using each_map_remapped [of f] a b c by blast
  show ?thesis
    using assms unfolding region_backing_def
    by (auto split: bind_splits if_splits prod.splits dest!: d intro: remapped_trans)
qed

lemma map0_remapped: "region_map0 E r s = Inr r' \<Longrightarrow> remapped r r'"
  by (auto simp: region_map0_def Let_def remapped_def split: if_splits option.splits)

section \<open>Adding keeps the regions disjoint\<close>

lemma setup_maps_frame:
  assumes "region_setup_maps E n r = Some res"
  shows "case res of Inl rc \<Rightarrow> rc \<noteq> 0 | Inr r' \<Rightarrow> reg_node r' = reg_node r \<and> gphys_addr r' = gphys_addr r \<and>
    phys_size r' = phys_size r \<and> reg_flags r' = reg_flags r"
  using assms by (auto simp: region_setup_maps_def Let_def split: option.splits if_splits)

lemma fill_frame:
  assumes "region_fill E node s = Some (res, s')"
  shows "case res of Inl rc \<Rightarrow> rc \<noteq> 0 | Inr r \<Rightarrow> reg_node r = node \<and> guest_physical_addr (region_attrs E node) = Some (gphys_addr r) \<and>
    physical_size (region_attrs E node) = Some (phys_size r)"
  using assms unfolding region_fill_def Let_def
  by (auto split: option.splits prod.splits bind_splits if_splits sum.splits dest!: setup_maps_frame)

lemma valid_frame: "is_region_node_valid n s = Some (True, s') \<Longrightarrow> physical_size n \<noteq> None"
  by (auto simp: is_region_node_valid_def split: option.splits)

lemma map0_error: "region_map0 E r s = Inl rc \<Longrightarrow> rc \<noteq> 0"
  by (auto simp: region_map0_def Let_def split: if_splits option.splits)

lemma overlap_cmp_eq:
  "regs g i = r \<Longrightarrow> overlap_cmp g r = (\<lambda>y. if reg_hi g i \<le> reg_lo g y then Go_left else if reg_hi g y \<le> reg_lo g i then Go_right else Stop)"
  by (auto simp: fun_eq_iff overlap_cmp_def reg_lo_def reg_hi_def)

lemma no_overlap:
  assumes "aspace_inv g" and "is_region_overlapping g r = None" and "gphys_addr r < VMM_REGION_GPHYS_END r"
  shows "\<forall>y \<in> set (elems (reg_tree (reg_flags r) g)). VMM_REGION_GPHYS_END r \<le> reg_lo g y \<or> reg_hi g y \<le> gphys_addr r"
proof -
  have t: "rb_root_ok (reg_tree (reg_flags r) g)" "rb.ranges (reg_lo g) (reg_hi g) (reg_tree (reg_flags r) g)"
    using inv_tree [OF assms(1)] by (simp_all add: tree_ok_def)
  have "overlap_cmp g r = (\<lambda>y. if VMM_REGION_GPHYS_END r \<le> reg_lo g y then Go_left else if reg_hi g y \<le> gphys_addr r then Go_right else Stop)"
    by (auto simp: fun_eq_iff overlap_cmp_def reg_lo_def reg_hi_def)
  then show ?thesis
    using rb.search_range [OF t less_imp_le [OF assms(3)]] assms(2) by (auto simp: is_region_overlapping_def split: option.splits)
qed

lemma link_spec:
  assumes inv: "aspace_inv g" and i: "next_reg g = Suc i" "\<forall>y \<in> set (elems (reg_iotree g)) \<union> set (elems (reg_memtree g)). y < i"
    and r: "regs g i = r" "gphys_addr r < VMM_REGION_GPHYS_END r"
    and free: "\<forall>y \<in> set (elems (reg_tree (reg_flags r) g)). VMM_REGION_GPHYS_END r \<le> reg_lo g y \<or> reg_hi g y \<le> gphys_addr r"
  shows "\<exists>g'. region_link i r p g = Some (Some g') \<and> aspace_inv g' \<and> regs g' = regs g \<and> next_reg g' = next_reg g \<and> node_ref g' = node_ref g \<and>
    set (elems (reg_tree (reg_flags r) g')) = insert i (set (elems (reg_tree (reg_flags r) g)))"
proof -
  let ?t = "reg_tree (reg_flags r) g"
  have ok: "tree_ok g (has r VMM_REGION_IO) ?t" using inv_tree [OF inv, of "reg_flags r"] by (simp add: has_def)
  then have t: "rb_root_ok ?t" "rb.ranges (reg_lo g) (reg_hi g) ?t" by (simp_all add: tree_ok_def)
  have x: "reg_lo g i < reg_hi g i" using r by (simp add: reg_lo_def reg_hi_def)
  have f: "\<forall>y \<in> set (elems ?t). reg_hi g i \<le> reg_lo g y \<or> reg_hi g y \<le> reg_lo g i"
    using free r(1) by (simp add: reg_lo_def reg_hi_def)
  obtain t' where t': "rb_insert_by (overlap_cmp g r) i ?t = Some (Inr t')" "rb_root_ok t'" "rb.ranges (reg_lo g) (reg_hi g) t'"
    "set (elems t') = insert i (set (elems ?t))"
    using rb.ins_range [OF t x f] by (auto simp: overlap_cmp_eq [OF r(1)])
  have ok': "tree_ok g (has r VMM_REGION_IO) t'"
    using ok t' i(1) r(1) by (auto simp: tree_ok_def)
  let ?g' = "if has r VMM_REGION_IO
    then g\<lparr>reg_iotree := t', reg_ioprobe_list := (if p then reg_ioprobe_list g @ [i] else reg_ioprobe_list g)\<rparr>
    else g\<lparr>reg_memtree := t', reg_memprobe_list := (if p then reg_memprobe_list g @ [i] else reg_memprobe_list g)\<rparr>"
  have l: "region_link i r p g = Some (Some ?g')" using t'(1) by (simp add: region_link_def)
  have c: "tree_ok h io u = tree_ok g io u" if "regs h = regs g" "next_reg h = next_reg g" for h io u
    using that by (simp add: tree_ok_def reg_lo_def [abs_def] reg_hi_def [abs_def])
  have tr: "?t = (if has r VMM_REGION_IO then reg_iotree g else reg_memtree g)" by (simp add: reg_tree_def has_def)
  have "aspace_inv ?g'"
    using inv ok' c [of ?g'] t'(4) i(2) tr by (auto simp: aspace_inv_def split: if_splits)
  moreover have "reg_tree (reg_flags r) ?g' = t'" by (simp add: reg_tree_def has_def)
  ultimately show ?thesis using l t'(4) by (intro exI [of _ ?g']) simp
qed

text \<open>What a call of \<^verbatim>\<open>region_add\<close> for \<open>node\<close> may do to the address space.\<close>

definition added :: "guest_aspace \<Rightarrow> nat \<Rightarrow> int \<times> nat option \<times> guest_aspace \<Rightarrow> bool" where
  "added g node = (\<lambda>(rc, reg, g'). aspace_inv g' \<and>
     (case reg of
        None \<Rightarrow> rc \<noteq> 0 \<and> same_regions g g' \<and> node_ref g' = node_ref g
      | Some i \<Rightarrow> rc = 0 \<and> i = next_reg g \<and> reg_node (regs g' i) = node \<and> (\<forall>j < next_reg g. regs g' j = regs g j) \<and>
          (let fl = reg_flags (regs g' i) in
            set (elems (reg_tree fl g')) = insert i (set (elems (reg_tree fl g))) \<and>
            (\<forall>j \<in> set (elems (reg_tree fl g)). reg_hi g' i \<le> reg_lo g j \<or> reg_hi g j \<le> reg_lo g' i)) \<and>
          node_ref g' = (node_ref g)(node := node_ref g node + 1)))"

lemma added_None:
  assumes "aspace_inv g" and "rc \<noteq> 0" and "same_regions g g'" and "node_ref g' = node_ref g"
  shows "added g node (rc, None, g')"
  using assms same_regions_inv [OF assms(1,3)] by (simp add: added_def)

lemma fail_added:
  assumes "aspace_inv g" and "rc \<noteq> 0" and "same_regions g k" and "node_ref k = (node_ref g)(node := node_ref g node + 1)"
  shows "added g node (region_fail rc node k)"
proof -
  obtain g' where f: "region_fail rc node k = (rc, None, g')" "same_regions k g'" "node_ref g' = (node_ref k)(node := node_ref k node - 1)"
    using fail_frame [of rc node k] by (cases "region_fail rc node k") auto
  then show ?thesis using added_None [OF assms(1,2) same_regions_trans [OF assms(3) f(2)]] assms(4) by simp
qed

lemma undo_added:
  assumes "aspace_inv g" and "rc \<noteq> 0" and "same_regions g k" and "node_ref k = (node_ref g)(reg_node r := node_ref g (reg_node r) + 1)"
    and "region_undo rc r k = Some out"
  shows "added g (reg_node r) out"
proof -
  obtain g' where f: "out = (rc, None, g')" "same_regions k g'" "node_ref g' = (node_ref k)(reg_node r := node_ref k (reg_node r) - 1)"
    using undo_frame [of rc r k] assms(5) by (cases out) auto
  then show ?thesis using added_None [OF assms(1,2) same_regions_trans [OF assms(3) f(2)]] assms(4) by simp
qed

lemma attach_added:
  assumes inv: "aspace_inv g" and h: "same_regions g h" "next_reg g = i" "next_reg h = Suc i" "regs h i = r" "reg_node r = node"
    "node_ref h = (node_ref g)(node := node_ref g node + 1)"
    and r: "gphys_addr r < VMM_REGION_GPHYS_END r"
    and free: "\<forall>y \<in> set (elems (reg_tree (reg_flags r) g)). VMM_REGION_GPHYS_END r \<le> reg_lo g y \<or> reg_hi g y \<le> gphys_addr r"
    and res: "region_attach E i r p h = Some out"
  shows "added g node out"
proof -
  have failed: "added g node res"
    if "region_undo rc0 r k = Some res" "rc0 \<noteq> 0" "same_regions g k" "node_ref k = node_ref h" for rc0 k res
    using undo_added [OF inv that(2,3) _ that(1)] that(4) h(5,6) by simp
  let ?h1 = "if emulated r then h\<lparr>log := log h @ [Devemu_probe i]\<rparr> else h"
  let ?h2 = "?h1\<lparr>log := log ?h1 @ [Arch_add i]\<rparr>"
  have s: "same_regions g ?h1" "same_regions g ?h2" "node_ref ?h1 = node_ref h" "node_ref ?h2 = node_ref h" "regs ?h2 = regs h"
    "next_reg ?h2 = Suc i" "same_regions g (?h2\<lparr>log := l\<rparr>)" for l
    using h(1,3) by (simp_all add: same_regions_def)
  have lt: "\<forall>y \<in> set (elems (reg_iotree g)) \<union> set (elems (reg_memtree g)). y < i"
    using inv h(2) by (auto simp: aspace_inv_def tree_ok_def)
  have tr: "reg_tree fl ?h2 = reg_tree fl g" for fl using s(2) by (simp add: reg_tree_def same_regions_def)
  have lo: "reg_lo ?h2 y = reg_lo g y" "reg_hi ?h2 y = reg_hi g y" if "y \<in> set (elems (reg_tree fl g))" for y fl
    using lt that s(2) h(2) by (auto simp: reg_lo_def reg_hi_def same_regions_def reg_tree_def split: if_splits)
  obtain k where k: "region_link i r p ?h2 = Some (Some k)" "aspace_inv k" "regs k = regs h" "next_reg k = Suc i" "node_ref k = node_ref h"
    "set (elems (reg_tree (reg_flags r) k)) = insert i (set (elems (reg_tree (reg_flags r) g)))"
    using link_spec [OF same_regions_inv [OF inv s(2)] s(6) _ _ r, of p] lt s(2,4,5,6) h(4) free tr lo
    by (fastforce simp: same_regions_def)
  have ok: "added g node (0, Some i, k)"
    using k h free unfolding added_def
    by (auto simp: Let_def reg_lo_def [of k] reg_hi_def [of k] same_regions_def)
  show ?thesis
    using res k(1) ok failed s unfolding region_attach_def Let_def
    by (auto split: if_splits bind_splits dest!: failed)
qed

lemma remapped_fields:
  "remapped r r' \<Longrightarrow> reg_node r' = reg_node r \<and> gphys_addr r' = gphys_addr r \<and> phys_size r' = phys_size r \<and> reg_flags r' = reg_flags r \<and>
     map_order r' = map_order r \<and> maps_count r' = maps_count r"
  unfolding remapped_def by (metis region.select_convs region.surjective region.update_convs(12))

lemma install_added:
  assumes inv: "aspace_inv g" and h: "same_regions g h" "next_reg h = Suc (next_reg g)"
    "node_ref h = (node_ref g)(reg_node r := node_ref g (reg_node r) + 1)"
    and r: "gphys_addr r < VMM_REGION_GPHYS_END r" and res: "region_install E (next_reg g) r p h = Some out"
  shows "added g (reg_node r) out"
proof -
  have failed: "added g (reg_node r) out"
    if "map_option (\<lambda>s. region_fail rc (reg_node r) (h\<lparr>shm_ctrl := s\<rparr>)) m = Some out" "rc \<noteq> 0" for rc m
    using that h fail_added [OF inv that(2)] by (auto simp: same_regions_def)
  show ?thesis
  proof (cases "is_region_overlapping h r = None \<and> (\<exists>r1. region_map0 E r (shm_ctrl h) = Inr r1)")
    case False
    then show ?thesis
      using res failed map0_error [of E r "shm_ctrl h"]
      by (cases "region_map0 E r (shm_ctrl h)") (auto simp: region_install_def Let_def split: if_splits)
  next
    case True
    then obtain r1 rc r2 c l where m0: "region_map0 E r (shm_ctrl h) = Inr r1"
      and b: "region_backing r1 (ram (shm_ctrl h), log h) = Some (rc, r2, c, l)"
      and out: "(let g1 = h\<lparr>shm_ctrl := (shm_ctrl h)\<lparr>ram := c\<rparr>, log := l, regs := (regs h)(next_reg g := r2)\<rparr>
        in if rc \<noteq> 0 then region_undo rc r2 g1 else region_attach E (next_reg g) r2 p g1) = Some out"
      using res by (auto simp: region_install_def split: bind_splits)
    let ?k = "h\<lparr>shm_ctrl := (shm_ctrl h)\<lparr>ram := c\<rparr>, log := l, regs := (regs h)(next_reg g := r2)\<rparr>"
    note m = remapped_fields [OF remapped_trans [OF map0_remapped [OF m0] backing_remapped [OF b]]]
    have k: "same_regions g ?k" using h(1) by (simp add: same_regions_def)
    show ?thesis
    proof (cases "rc = 0")
      case False
      then show ?thesis using undo_added [OF inv False k, of r2 out] out h(3) m by (simp add: Let_def)
    next
      case rc: True
      have ov: "is_region_overlapping h r = None" using True by blast
      have "y < next_reg g" if "y \<in> set (elems (reg_tree (reg_flags r) g))" for y
        using inv that by (auto simp: aspace_inv_def tree_ok_def reg_tree_def split: if_splits)
      then have lo: "reg_lo h y = reg_lo g y" "reg_hi h y = reg_hi g y" if "y \<in> set (elems (reg_tree (reg_flags r) g))" for y
        using h(1) that by (simp_all add: reg_lo_def reg_hi_def same_regions_def)
      have "reg_tree (reg_flags r) h = reg_tree (reg_flags r) g" using h(1) by (simp add: reg_tree_def same_regions_def)
      then have "\<forall>y \<in> set (elems (reg_tree (reg_flags r) g)). VMM_REGION_GPHYS_END r \<le> reg_lo g y \<or> reg_hi g y \<le> gphys_addr r"
        using no_overlap [OF same_regions_inv [OF inv h(1)] ov r] lo by simp
      then have "\<forall>y \<in> set (elems (reg_tree (reg_flags r2) g)). VMM_REGION_GPHYS_END r2 \<le> reg_lo g y \<or> reg_hi g y \<le> gphys_addr r2"
        using m by (simp add: VMM_REGION_GPHYS_END_def)
      then show ?thesis
        using attach_added [OF inv k, of "next_reg g" r2 "reg_node r" E p out] m r h(2,3) out rc
        by (simp add: VMM_REGION_GPHYS_END_def Let_def)
    qed
  qed
qed

lemma region_add_added:
  assumes inv: "aspace_inv g" and n: "guest_physical_addr (region_attrs E node) = Some gp" "physical_size (region_attrs E node) = Some sz"
    "0 < sz" "unat gp + unat sz < 2 ^ 64" and res: "region_add E node p g = Some out"
  shows "added g node out"
proof -
  let ?g0 = "g\<lparr>node_ref := (node_ref g)(node := node_ref g node + 1)\<rparr>"
  obtain valid s1 where v: "is_region_node_valid (region_attrs E node) (shm_ctrl g) = Some (valid, s1)"
    using res by (auto simp: region_add_def Let_def split: bind_splits)
  show ?thesis
  proof (cases valid)
    case False
    then have "out = region_fail VMM_EINVALID node (?g0\<lparr>shm_ctrl := s1\<rparr>)" using res v by (simp add: region_add_def Let_def)
    then show ?thesis using fail_added [OF inv] by (simp add: same_regions_def)
  next
    case True
    then obtain fr s2 where f: "region_fill E node s1 = Some (fr, s2)"
      and tail: "(let g2 = ?g0\<lparr>shm_ctrl := s2, next_reg := Suc (next_reg g)\<rparr> in case fr of
          Inl rc \<Rightarrow> Some (region_fail rc node g2) | Inr r \<Rightarrow> region_install E (next_reg g) r p g2) = Some out"
      using res v by (auto simp: region_add_def Let_def split: bind_splits if_splits sum.splits)
    let ?g2 = "?g0\<lparr>shm_ctrl := s2, next_reg := Suc (next_reg g)\<rparr>"
    have s2: "same_regions g ?g2" by (simp add: same_regions_def)
    show ?thesis
    proof (cases fr)
      case (Inl rc)
      then show ?thesis using fail_added [OF inv _ s2, of rc node] tail fill_frame [OF f] by (auto simp: Let_def)
    next
      case (Inr r)
      have r: "reg_node r = node" "gphys_addr r = gp" "phys_size r = sz" using fill_frame [OF f] Inr n(1,2) by simp_all
      have u: "unat (gp + sz) = unat gp + unat sz" using n(4) by (subst unat_plus_if') simp
      have "gphys_addr r < VMM_REGION_GPHYS_END r"
        using n(3) u unfolding VMM_REGION_GPHYS_END_def r(2,3) by (simp add: word_less_nat_alt)
      then show ?thesis using install_added [OF inv s2, of r E p out] tail Inr r(1) by (simp add: Let_def)
    qed
  qed
qed

section \<open>Deletion\<close>

lemma remove_tree_ok:
  assumes ok: "tree_ok g io t" and i: "i \<in> set (elems t)"
  shows "\<exists>t'. rb_remove i t = Some t' \<and> tree_ok g io t' \<and> set (elems t') = set (elems t) - {i}"
proof -
  have r: "rb_root_ok t" "rb.ranges (reg_lo g) (reg_hi g) t" using ok by (simp_all add: tree_ok_def)
  note d = rb.ranges_distinct [OF r(2)]
  obtain t' where t': "rb_remove i t = Some t'" "rb_root_ok t'" "elems t' = remove1 i (elems t)"
    using rb.del_in [OF r(1) d i] by blast
  then have "set (elems t') = set (elems t) - {i}" using d by simp
  then show ?thesis using t' ok rb.ranges_remove1 [OF r(2) t'(3)] by (auto simp: tree_ok_def)
qed

lemma unlink_tree_spec:
  assumes inv: "aspace_inv g" and i: "i \<in> set (elems (reg_tree (reg_flags (regs g i)) g))"
    and np: "i \<notin> set (reg_ioprobe_list g)" "i \<notin> set (reg_memprobe_list g)"
  shows "\<exists>g'. unlink_tree i g = Some g' \<and> aspace_inv g' \<and> regs g' = regs g \<and> next_reg g' = next_reg g \<and> shm_ctrl g' = shm_ctrl g \<and>
    node_ref g' = node_ref g \<and> log g' = log g \<and> set (elems (reg_tree (reg_flags (regs g i)) g')) = set (elems (reg_tree (reg_flags (regs g i)) g)) - {i}"
proof -
  let ?io = "has (regs g i) VMM_REGION_IO"
  have tr: "reg_tree (reg_flags (regs g i)) k = (if ?io then reg_iotree k else reg_memtree k)" for k
    by (simp add: reg_tree_def has_def)
  have ok: "tree_ok g ?io (if ?io then reg_iotree g else reg_memtree g)" using inv by (cases ?io) (simp_all add: aspace_inv_def)
  obtain t' where t': "rb_remove i (if ?io then reg_iotree g else reg_memtree g) = Some t'" "tree_ok g ?io t'"
    "set (elems t') = set (elems (if ?io then reg_iotree g else reg_memtree g)) - {i}"
    using remove_tree_ok [OF ok i [unfolded tr]] by blast
  have c: "tree_ok h io u = tree_ok g io u" if "regs h = regs g" "next_reg h = next_reg g" for h io u
    using that by (simp add: tree_ok_def reg_lo_def [abs_def] reg_hi_def [abs_def])
  let ?g' = "if ?io then g\<lparr>reg_iotree := t'\<rparr> else g\<lparr>reg_memtree := t'\<rparr>"
  have "unlink_tree i g = Some ?g'" using t'(1) by (auto simp: unlink_tree_def split: if_splits)
  moreover have "aspace_inv ?g'" using inv t' np c [of ?g'] by (auto simp: aspace_inv_def split: if_splits)
  ultimately show ?thesis using t'(3) tr by (intro exI [of _ ?g']) simp
qed

text \<open>Deleting a dynamically added region takes exactly that region out of the address space.\<close>

lemma region_del_spec:
  assumes inv: "aspace_inv g" and i: "i \<in> set (elems (reg_tree (reg_flags (regs g i)) g))"
    and np: "i \<notin> set (reg_ioprobe_list g)" "i \<notin> set (reg_memprobe_list g)" and d: "region_del E i True False g = Some (rc, g')"
  shows "aspace_inv g' \<and> set (elems (reg_tree (reg_flags (regs g i)) g')) = set (elems (reg_tree (reg_flags (regs g i)) g)) - {i} \<and>
    node_ref g' = (node_ref g)(reg_node (regs g i) := node_ref g (reg_node (regs g i)) - 1)"
proof -
  obtain k where k: "unlink_tree i g = Some k" "aspace_inv k" "regs k = regs g" "node_ref k = node_ref g"
    "set (elems (reg_tree (reg_flags (regs g i)) k)) = set (elems (reg_tree (reg_flags (regs g i)) g)) - {i}"
    using unlink_tree_spec [OF inv i np] by blast
  have s: "same_regions k g'" "node_ref g' = (node_ref k)(reg_node (regs g i) := node_ref k (reg_node (regs g i)) - 1)"
    using d k(1) by (auto simp: region_del_def Let_def region_unprobe_def same_regions_def split: bind_splits)
  then have "reg_tree fl g' = reg_tree fl k" for fl by (simp add: reg_tree_def same_regions_def)
  then show ?thesis using s k same_regions_inv [OF k(2)] by simp
qed

section \<open>Properties\<close>

text \<open>
  Property C10: adding a region. For a node whose range is not empty and does not wrap around, every return of \<^verbatim>\<open>region_add\<close>
  keeps the invariant of the address space. On success exactly the new region is in the tree of its kind, and
  it overlaps none of the regions that were there. On failure the trees, the probe lists and all regions are as
  before, and the reference to the node is dropped again.
\<close>
theorem guest_region_add_disjoint:
  assumes "aspace_inv g" and "guest_physical_addr (region_attrs E node) = Some gp"
    and "physical_size (region_attrs E node) = Some sz" and "0 < sz" and "unat gp + unat sz < 2 ^ 64"
    and "region_add E node p g = Some (rc, reg, g')"
  shows "aspace_inv g' \<and> (case reg of
      None \<Rightarrow> rc \<noteq> 0 \<and> same_regions g g' \<and> node_ref g' = node_ref g
    | Some i \<Rightarrow> rc = 0 \<and> node_ref g' = (node_ref g)(node := node_ref g node + 1) \<and>
        set (elems (reg_tree (reg_flags (regs g' i)) g')) = insert i (set (elems (reg_tree (reg_flags (regs g' i)) g))) \<and>
        (\<forall>j \<in> set (elems (reg_tree (reg_flags (regs g' i)) g)). reg_hi g' i \<le> reg_lo g j \<or> reg_hi g j \<le> reg_lo g' i))"
  using region_add_added [OF assms] by (auto simp: added_def Let_def split: option.splits)

definition example_ops :: aspace_ops where
  "example_ops = \<lparr>region_attrs = (\<lambda>n. \<lparr>manifest_type = Some ''virtual'', address_type = Some ''memory'', device_type = Some ''serial'',
       guest_physical_addr = Some 0x8000, host_physical_addr = None, alias_physical_addr = None, physical_size = Some 0x1000,
       align_order_attr = None, map_order_attr = None, first_color_attr = None, num_colors_attr = None, shared_memory = None\<rparr>),
     region_mem = (\<lambda>n. True), maps_mem = (\<lambda>c. True), probe_region = (\<lambda>r. 0), arch_guest_add_region = (\<lambda>r. 0),
     arch_guest_del_region = (\<lambda>r. 0), init_context = 0, reset_context = 0, deinit_context = 0\<rparr>"

theorem guest_region_add_disjoint_witness:
  "\<exists>g'. region_add example_ops 12 False aspace_example = Some (0, Some 2, g') \<and> aspace_inv g'"
proof -
  let ?n = "region_attrs example_ops 12"
  have v: "is_region_node_valid ?n s = Some (True, s)" for s
    by (simp add: example_ops_def is_region_node_valid_def peek_shmem_def the_or_def is_alloced_def is_colored_def is_shared_def
        aligned_def order_mask_def order_size_def)
  define r where "r = \<lparr>reg_node = 12, reg_flags = 0x40A, gphys_addr = 0x8000, aphys_addr = 0x8000, phys_size = 0x1000,
     first_color = 0, num_colors = 0, reg_shm = None, align_order = 0, map_order = 12, maps_count = 1,
     maps = [\<lparr>map_hphys = 0x8000, map_flags = 0\<rparr>]\<rparr>"
  have mo: "default_map_order 0x1000 12 52 = Some 12"
    using default_map_order.simps(2) [of "0x1000" 12 51] by (simp add: numeral_eq_Suc)
  have f: "region_fill example_ops 12 s = Some (Inr r, s)" for s
    by (simp add: region_fill_def example_ops_def region_type_flags_def is_alloced_def is_colored_def is_shared_def the_or_def
        region_setup_maps_def region_map_order_def backed_def has_def region_flags r_def region_maps_def mapping_gphys_offset_def mo)
  have e: "region_mem example_ops 12" "probe_region example_ops r = 0" "arch_guest_add_region example_ops r = 0"
    by (simp_all add: example_ops_def)
  have "\<exists>g'. region_install example_ops 2 r False (aspace_example\<lparr>node_ref := n, next_reg := 3\<rparr>) = Some (0, Some 2, g')" for n
    using e(2,3)
    by (simp add: region_install_def is_region_overlapping_def rb_search_def overlap_cmp_def reg_tree_def region_map0_def region_backing_def
        backed_def has_def region_flags r_def region_attach_def emulated_def region_link_def rb_insert_by_def rb_insert_color_def
        rb_link_node_def VMM_REGION_GPHYS_END_def aspace_example_def Let_def)
  moreover have "next_reg aspace_example = 2" by (simp add: aspace_example_def)
  ultimately have "\<exists>g'. region_add example_ops 12 False aspace_example = Some (0, Some 2, g')"
    using v f e(1) by (simp add: region_add_def Let_def)
  then obtain g' where g: "region_add example_ops 12 False aspace_example = Some (0, Some 2, g')" by blast
  have "guest_physical_addr ?n = Some 0x8000" "physical_size ?n = Some 0x1000" by (simp_all add: example_ops_def)
  from guest_region_add_disjoint [OF aspace_example_inv this _ _ g] g show ?thesis by auto
qed

text \<open>
  Further fact: regions added at run time are lost when the address space is torn down. \<^verbatim>\<open>vmm_guest_add_region_from_node\<close> does
  not put its region on a probe list, and \<^verbatim>\<open>vmm_guest_aspace_deinit\<close> deletes only the regions on those lists before it
  empties the trees: with empty probe lists the host RAM stays as it was, whatever RAM regions are in the tree,
  no emulator or architecture hook is called for them, and their nodes stay referenced.
\<close>
theorem guest_aspace_deinit_leaks:
  assumes "reg_ioprobe_list g = []" and "reg_memprobe_list g = []" and "deinit_context E = 0"
  shows "\<exists>g'. vmm_guest_aspace_deinit E g = Some (VMM_OK, g') \<and> elems (reg_memtree g') = [] \<and> elems (reg_iotree g') = [] \<and>
    ram (shm_ctrl g') = ram (shm_ctrl g) \<and> node_ref g' = node_ref g \<and>
    log g' = log g @ [Notify VMM_GUEST_ASPACE_EVENT_DEINIT, Devemu_deinit_context]"
  using assms by (simp add: vmm_guest_aspace_deinit_def)

theorem guest_aspace_deinit_leaks_witness:
  "\<exists>g'. vmm_guest_aspace_deinit example_ops (aspace_example\<lparr>reg_memprobe_list := []\<rparr>) = Some (VMM_OK, g') \<and>
     elems (reg_memtree aspace_example) = [0, 1] \<and> elems (reg_memtree g') = [] \<and> node_ref g' 10 = 1"
proof -
  have "reg_ioprobe_list (aspace_example\<lparr>reg_memprobe_list := []\<rparr>) = []" "deinit_context example_ops = 0" "node_ref aspace_example 10 = 1"
    "elems (reg_memtree aspace_example) = [0, 1]"
    by (simp_all add: aspace_example_def example_ops_def)
  with guest_aspace_deinit_leaks [of "aspace_example\<lparr>reg_memprobe_list := []\<rparr>" example_ops] show ?thesis by auto
qed

end
