(* ===== verification/Host_mhash.thy ===== *)
theory Host_mhash
  imports Rbtree
begin

text \<open>
  The table of physical ranges that the host has mapped, the first part of \<^verbatim>\<open>core/vmm_host_aspace.c\<close>: entries with a
  reference count in an array, those in use also in a red-black tree by physical address. An entry is known by its index.
  A panic is \<^const>\<open>None\<close>. Every function runs with the lock of the table held; \<^verbatim>\<open>host_mhash_del\<close> releases it before it
  adds the residues, and is one step here.
\<close>

record host_mhash_entry =
  e_pa :: u64
  e_va :: u64
  e_sz :: u64
  e_flags :: u32
  e_ref :: u32

record host_mhash_ctrl =
  mh_root :: "nat rb_tree"
  mh_entry :: "host_mhash_entry list"

definition VMM_EBUSY :: int where [simp]: "VMM_EBUSY = -9"

definition no_entry :: host_mhash_entry where
  "no_entry = \<lparr>e_pa = 0, e_va = 0, e_sz = 0, e_flags = 0, e_ref = 0\<rparr>"

definition host_mhash_alloc :: "host_mhash_ctrl \<Rightarrow> nat option" where
  "host_mhash_alloc m = List.find (\<lambda>i. e_ref (mh_entry m ! i) = 0) [0..<length (mh_entry m)]"

definition host_mhash_total_count :: "host_mhash_ctrl \<Rightarrow> u32" where
  "host_mhash_total_count m = of_nat (length (mh_entry m))"

definition host_mhash_free_count :: "host_mhash_ctrl \<Rightarrow> u32" where
  "host_mhash_free_count m = of_nat (length (filter (\<lambda>e. e_ref e = 0) (mh_entry m)))"

text \<open>The last branch of the search, a panic, is reached by no address.\<close>

definition mhash_find_cmp :: "host_mhash_ctrl \<Rightarrow> u64 \<Rightarrow> nat \<Rightarrow> rb_dir" where
  "mhash_find_cmp m pa i =
     (let e = mh_entry m ! i in
      if e_pa e \<le> pa \<and> pa < e_pa e + e_sz e then Stop else if pa < e_pa e then Go_left else Go_right)"

definition host_mhash_find :: "u64 \<Rightarrow> host_mhash_ctrl \<Rightarrow> nat option" where
  "host_mhash_find pa m = rb_search (mhash_find_cmp m pa) (mh_root m)"

definition mhash_add_cmp :: "host_mhash_ctrl \<Rightarrow> nat \<Rightarrow> nat \<Rightarrow> rb_dir" where
  "mhash_add_cmp m i p =
     (let e = mh_entry m ! i; q = mh_entry m ! p in
      if e_pa e + e_sz e \<le> e_pa q then Go_left else if e_pa q + e_sz q \<le> e_pa e then Go_right else Stop)"

definition mhash_mismatch :: "u64 \<Rightarrow> u64 \<Rightarrow> u64 \<Rightarrow> host_mhash_entry \<Rightarrow> bool" where
  "mhash_mismatch pa va sz e \<longleftrightarrow> va < e_va e \<or> e_va e + e_sz e \<le> va \<or> va + sz < e_va e \<or> e_va e + e_sz e < va + sz \<or>
     e_pa e + e_sz e < pa + sz"

definition host_mhash_add :: "u64 \<Rightarrow> u64 \<Rightarrow> u64 \<Rightarrow> u32 \<Rightarrow> host_mhash_ctrl \<Rightarrow> (int \<times> host_mhash_ctrl) option" where
  "host_mhash_add pa va sz fl m =
     (case host_mhash_find pa m of
        Some i \<Rightarrow>
          let e = mh_entry m ! i in
          if mhash_mismatch pa va sz e \<or> e_flags e \<noteq> fl then Some (VMM_EINVALID, m)
          else Some (VMM_OK, m\<lparr>mh_entry := (mh_entry m)[i := e\<lparr>e_ref := e_ref e + 1\<rparr>]\<rparr>)
      | None \<Rightarrow>
          (case host_mhash_alloc m of
             None \<Rightarrow> Some (VMM_ENOMEM, m)
           | Some i \<Rightarrow>
               let m1 = m\<lparr>mh_entry := (mh_entry m)[i := \<lparr>e_pa = pa, e_va = va, e_sz = sz, e_flags = fl, e_ref = 1\<rparr>]\<rparr> in
               (case rb_insert_by (mhash_add_cmp m1 i) i (mh_root m1) of
                  Some (Inr t) \<Rightarrow> Some (VMM_OK, m1\<lparr>mh_root := t\<rparr>)
                | _ \<Rightarrow> None)))"

text \<open>A residue of a deleted range is added again; an error is a panic.\<close>

definition mhash_residue :: "u64 \<Rightarrow> u64 \<Rightarrow> u64 \<Rightarrow> u32 \<Rightarrow> host_mhash_ctrl \<Rightarrow> host_mhash_ctrl option" where
  "mhash_residue pa va sz fl m =
     (if sz = 0 then Some m
      else case host_mhash_add pa va sz fl m of Some (rc, m') \<Rightarrow> if rc = VMM_OK then Some m' else None | None \<Rightarrow> None)"

definition host_mhash_del :: "u64 \<Rightarrow> u64 \<Rightarrow> u64 \<Rightarrow> host_mhash_ctrl \<Rightarrow> (int \<times> host_mhash_ctrl) option" where
  "host_mhash_del pa va sz m =
     (case host_mhash_find pa m of
        None \<Rightarrow> Some (VMM_ENOTAVAIL, m)
      | Some i \<Rightarrow>
          let e = mh_entry m ! i in
          if mhash_mismatch pa va sz e then Some (VMM_EINVALID, m)
          else if e_ref e - 1 \<noteq> 0 then Some (VMM_EBUSY, m\<lparr>mh_entry := (mh_entry m)[i := e\<lparr>e_ref := e_ref e - 1\<rparr>]\<rparr>)
          else do {
            t \<leftarrow> rb_remove i (mh_root m);
            m1 \<leftarrow> mhash_residue (e_pa e) (e_va e) (va - e_va e) (e_flags e) (m\<lparr>mh_root := t, mh_entry := (mh_entry m)[i := no_entry]\<rparr>);
            m2 \<leftarrow> mhash_residue (pa + sz) (va + sz) (e_va e + e_sz e - (va + sz)) (e_flags e) m1;
            Some (VMM_OK, m2) })"

definition host_mhash_pa2va :: "u64 \<Rightarrow> host_mhash_ctrl \<Rightarrow> int + (u64 \<times> u64 \<times> u32)" where
  "host_mhash_pa2va pa m =
     (case host_mhash_find pa m of
        None \<Rightarrow> Inl VMM_ENOTAVAIL
      | Some i \<Rightarrow> let e = mh_entry m ! i in Inr (e_va e + (pa - e_pa e), e_sz e - (pa - e_pa e), e_flags e))"

definition sizeof_mhash_entry :: u64 where [simp]: "sizeof_mhash_entry = 56"

definition host_mhash_estimate_hksize :: "u64 \<Rightarrow> u64" where
  "host_mhash_estimate_hksize n = sizeof_mhash_entry * n"

definition host_mhash_init :: "u64 \<Rightarrow> int \<times> host_mhash_ctrl" where
  "host_mhash_init sz =
     (let n = (ucast (sz div sizeof_mhash_entry) :: u32)
      in (if n = 0 then VMM_EINVALID else VMM_OK, \<lparr>mh_root = RB_NULL, mh_entry = replicate (unat n) no_entry\<rparr>))"

section \<open>The table as a map\<close>

definition mhash_lookup :: "host_mhash_ctrl \<Rightarrow> u64 \<Rightarrow> (u64 \<times> u32) option" where
  "mhash_lookup m x = map_option (\<lambda>i. (e_va (mh_entry m ! i) + (x - e_pa (mh_entry m ! i)), e_flags (mh_entry m ! i))) (host_mhash_find x m)"

definition entry_lo :: "host_mhash_ctrl \<Rightarrow> nat \<Rightarrow> u64" where "entry_lo m i = e_pa (mh_entry m ! i)"
definition entry_hi :: "host_mhash_ctrl \<Rightarrow> nat \<Rightarrow> u64" where "entry_hi m i = e_pa (mh_entry m ! i) + e_sz (mh_entry m ! i)"

text \<open>The entries in use are those in the tree, and their ranges are disjoint and do not wrap around.\<close>

definition mhash_ok :: "host_mhash_ctrl \<Rightarrow> bool" where
  "mhash_ok m \<longleftrightarrow> rb_root_ok (mh_root m) \<and> rb.ranges (entry_lo m) (entry_hi m) (mh_root m) \<and>
     (\<forall>i. i \<in> set (elems (mh_root m)) \<longleftrightarrow> i < length (mh_entry m) \<and> e_ref (mh_entry m ! i) \<noteq> 0) \<and>
     (\<forall>i \<in> set (elems (mh_root m)). unat (e_pa (mh_entry m ! i)) + unat (e_sz (mh_entry m ! i)) < 2 ^ 64 \<and>
        unat (e_va (mh_entry m ! i)) + unat (e_sz (mh_entry m ! i)) < 2 ^ 64)"

lemma entry_ranges_cong:
  assumes "rb.ranges lo hi t" "\<And>i. i \<in> set (elems t) \<Longrightarrow> lo' i = lo i \<and> hi' i = hi i"
  shows "rb.ranges lo' hi' t"
proof -
  have "sorted_wrt (\<lambda>a b. hi' a \<le> lo' b) (elems t)"
    using sorted_wrt_mono_rel [of "elems t" "\<lambda>a b. hi a \<le> lo b" "\<lambda>a b. hi' a \<le> lo' b"] assms by (simp add: rb.ranges_def)
  then show ?thesis using assms by (simp add: rb.ranges_def)
qed

lemma mhash_find_spec:
  assumes "mhash_ok m"
  shows "host_mhash_find x m = Some i \<longleftrightarrow> i \<in> set (elems (mh_root m)) \<and> entry_lo m i \<le> x \<and> x < entry_hi m i"
proof -
  have t: "rb_root_ok (mh_root m)" "rb.ranges (entry_lo m) (entry_hi m) (mh_root m)" using assms by (simp_all add: mhash_ok_def)
  have lt: "entry_lo m j < entry_hi m j" if "j \<in> set (elems (mh_root m))" for j using t(2) that by (simp add: rb.ranges_def)
  have c: "rb_search (mhash_find_cmp m x) (mh_root m) = rb_search (\<lambda>y. if x < entry_lo m y then Go_left else if entry_hi m y \<le> x then Go_right else Stop) (mh_root m)"
    by (intro arg_cong2 [where f = rb_search] ext refl) (auto simp: mhash_find_cmp_def entry_lo_def entry_hi_def Let_def)
  note sp = rb.search_point [OF t, of x]
  have uniq: "i = j" if "i \<in> set (elems (mh_root m))" "j \<in> set (elems (mh_root m))" "entry_lo m i \<le> x" "x < entry_hi m i" "entry_lo m j \<le> x" "x < entry_hi m j" for i j
    using rb.ranges_apart [OF t(2) that(1,2)] that(3-6) by (meson leD order.trans)
  show ?thesis using sp uniq unfolding host_mhash_find_def c by (fastforce split: option.splits)
qed


text \<open>The ranges in use, and lookups as membership in one of them.\<close>

type_synonym segment = "u64 \<times> u64 \<times> u64 \<times> u32"

definition entry_seg :: "host_mhash_entry \<Rightarrow> segment" where
  "entry_seg e = (e_pa e, e_va e, e_sz e, e_flags e)"

definition segs :: "host_mhash_ctrl \<Rightarrow> segment set" where
  "segs m = (\<lambda>i. entry_seg (mh_entry m ! i)) ` set (elems (mh_root m))"

definition seg_at :: "segment \<Rightarrow> u64 \<Rightarrow> bool" where
  "seg_at g x \<longleftrightarrow> (case g of (p, v, s, f) \<Rightarrow> p \<le> x \<and> x < p + s)"

definition seg_val :: "segment \<Rightarrow> u64 \<Rightarrow> u64 \<times> u32" where
  "seg_val g x = (case g of (p, v, s, f) \<Rightarrow> (v + (x - p), f))"

lemma mhash_lookup_iff:
  assumes "mhash_ok m"
  shows "mhash_lookup m x = Some y \<longleftrightarrow> (\<exists>g \<in> segs m. seg_at g x \<and> y = seg_val g x)"
  unfolding mhash_lookup_def
  by (auto simp: mhash_find_spec [OF assms] segs_def seg_at_def seg_val_def entry_seg_def entry_lo_def entry_hi_def)

lemma lookup_insert:
  assumes "mhash_ok m" "mhash_ok m'" "segs m' = insert g (segs m)" "\<And>h. h \<in> segs m \<Longrightarrow> \<not> (seg_at g x \<and> seg_at h x)"
  shows "mhash_lookup m' x = (if seg_at g x then Some (seg_val g x) else mhash_lookup m x)"
proof (cases "seg_at g x")
  case True
  then show ?thesis using mhash_lookup_iff [OF assms(2), of x "seg_val g x"] assms(3) by auto
next
  case False
  then have "mhash_lookup m' x = Some y \<longleftrightarrow> mhash_lookup m x = Some y" for y
    using mhash_lookup_iff [OF assms(2), of x y] mhash_lookup_iff [OF assms(1), of x y] assms(3) by auto
  then show ?thesis using False by (metis not_Some_eq)
qed

lemma mhash_find_None:
  assumes "mhash_ok m"
  shows "host_mhash_find x m = None \<longleftrightarrow> (\<forall>i \<in> set (elems (mh_root m)). \<not> (entry_lo m i \<le> x \<and> x < entry_hi m i))"
  using mhash_find_spec [OF assms, of x] by (metis not_Some_eq)

lemma mhash_alloc_Some:
  assumes "host_mhash_alloc m = Some i"
  shows "i < length (mh_entry m)" "e_ref (mh_entry m ! i) = 0"
  using assms by (auto simp: host_mhash_alloc_def find_Some_iff)

definition free_slots :: "host_mhash_ctrl \<Rightarrow> nat set" where
  "free_slots m = {i. i < length (mh_entry m) \<and> e_ref (mh_entry m ! i) = 0}"

lemma mhash_alloc_free: "host_mhash_alloc m \<noteq> None \<longleftrightarrow> free_slots m \<noteq> {}"
  by (auto simp: host_mhash_alloc_def find_None_iff free_slots_def)

text \<open>A range is free when it meets no entry.\<close>

definition mhash_free_range :: "host_mhash_ctrl \<Rightarrow> u64 \<Rightarrow> u64 \<Rightarrow> bool" where
  "mhash_free_range m pa sz \<longleftrightarrow> (\<forall>i \<in> set (elems (mh_root m)). pa + sz \<le> entry_lo m i \<or> entry_hi m i \<le> pa)"

lemma mhash_add_fresh:
  assumes ok: "mhash_ok m" and sz: "sz \<noteq> 0" "unat pa + unat sz < 2 ^ 64" "unat va + unat sz < 2 ^ 64"
    and free: "mhash_free_range m pa sz" and slot: "free_slots m \<noteq> {}"
  obtains m' where "host_mhash_add pa va sz fl m = Some (VMM_OK, m')" "mhash_ok m'"
    "segs m' = insert (pa, va, sz, fl) (segs m)"
    "\<And>x. mhash_lookup m' x = (if pa \<le> x \<and> x < pa + sz then Some (va + (x - pa), fl) else mhash_lookup m x)"
    "\<exists>i \<in> free_slots m. free_slots m' = free_slots m - {i}"
    "\<exists>i. host_mhash_find pa m' = Some i \<and> mh_entry m' ! i = \<lparr>e_pa = pa, e_va = va, e_sz = sz, e_flags = fl, e_ref = 1\<rparr>"
proof -
  obtain i where i: "host_mhash_alloc m = Some i" using slot mhash_alloc_free by auto
  note a = mhash_alloc_Some [OF i]
  let ?e = "\<lparr>e_pa = pa, e_va = va, e_sz = sz, e_flags = fl, e_ref = 1\<rparr>"
  let ?m1 = "m\<lparr>mh_entry := (mh_entry m)[i := ?e]\<rparr>"
  have k: "rb_root_ok (mh_root m)" "rb.ranges (entry_lo m) (entry_hi m) (mh_root m)"
    and used: "\<And>j. j \<in> set (elems (mh_root m)) \<longleftrightarrow> j < length (mh_entry m) \<and> e_ref (mh_entry m ! j) \<noteq> 0" using ok by (simp_all add: mhash_ok_def)
  have ni: "i \<notin> set (elems (mh_root m))" using used a by simp
  have old: "entry_lo ?m1 j = entry_lo m j" "entry_hi ?m1 j = entry_hi m j" "mh_entry ?m1 ! j = mh_entry m ! j" if "j \<in> set (elems (mh_root m))" for j
  proof -
    have "j \<noteq> i" using that ni by blast
    then show "entry_lo ?m1 j = entry_lo m j" "entry_hi ?m1 j = entry_hi m j" "mh_entry ?m1 ! j = mh_entry m ! j" by (simp_all add: entry_lo_def entry_hi_def)
  qed
  have new: "entry_lo ?m1 i = pa" "entry_hi ?m1 i = pa + sz" "mh_entry ?m1 ! i = ?e" using a by (simp_all add: entry_lo_def entry_hi_def)
  have lt: "pa < pa + sz" using sz by (simp add: word_less_nat_alt unat_word_ariths unat_gt_0)
  have r1: "rb.ranges (entry_lo ?m1) (entry_hi ?m1) (mh_root m)" by (rule entry_ranges_cong [OF k(2)]) (use old in simp)
  have "\<forall>y \<in> set (elems (mh_root m)). entry_hi ?m1 i \<le> entry_lo ?m1 y \<or> entry_hi ?m1 y \<le> entry_lo ?m1 i"
    using free old new by (simp add: mhash_free_range_def)
  then obtain t where t: "rb_insert_by (\<lambda>y. if entry_hi ?m1 i \<le> entry_lo ?m1 y then Go_left else if entry_hi ?m1 y \<le> entry_lo ?m1 i then Go_right else Stop) i (mh_root m) = Some (Inr t)"
    "rb_root_ok t" "rb.ranges (entry_lo ?m1) (entry_hi ?m1) t" "set (elems t) = insert i (set (elems (mh_root m)))"
    using rb.ins_range [OF k(1) r1, of i] lt new by auto
  have cmp: "mhash_add_cmp ?m1 i = (\<lambda>y. if entry_hi ?m1 i \<le> entry_lo ?m1 y then Go_left else if entry_hi ?m1 y \<le> entry_lo ?m1 i then Go_right else Stop)"
    by (simp add: mhash_add_cmp_def fun_eq_iff entry_lo_def entry_hi_def Let_def)
  have "host_mhash_find pa m = None"
    unfolding mhash_find_None [OF ok] using free lt by (auto simp: mhash_free_range_def)
  then have add: "host_mhash_add pa va sz fl m = Some (VMM_OK, ?m1\<lparr>mh_root := t\<rparr>)"
    using i t(1) unfolding host_mhash_add_def cmp [symmetric] by (simp add: Let_def)
  let ?m' = "?m1\<lparr>mh_root := t\<rparr>"
  have same: "entry_lo ?m' = entry_lo ?m1" "entry_hi ?m' = entry_hi ?m1" by (simp_all add: entry_lo_def entry_hi_def fun_eq_iff)
  have in': "j \<in> set (elems (mh_root ?m')) \<longleftrightarrow> j < length (mh_entry ?m') \<and> e_ref (mh_entry ?m' ! j) \<noteq> 0" for j
    using t(4) used [of j] a by (auto simp: nth_list_update)
  have ok': "mhash_ok ?m'"
    using t(2,3,4) in' same sz(2,3) a ok unfolding mhash_ok_def by (auto simp: nth_list_update)
  have sg: "segs ?m' = insert (pa, va, sz, fl) (segs m)"
    unfolding segs_def using t(4) old(3) new(3) by (simp add: entry_seg_def)
  have dis: "\<not> (seg_at (pa, va, sz, fl) x \<and> seg_at h x)" if h: "h \<in> segs m" for h x
  proof -
    obtain j where j: "j \<in> set (elems (mh_root m))" "h = entry_seg (mh_entry m ! j)" using h by (auto simp: segs_def)
    then have "pa + sz \<le> entry_lo m j \<or> entry_hi m j \<le> pa" using free by (simp add: mhash_free_range_def)
    then show ?thesis using j(2) by (auto simp: seg_at_def entry_seg_def entry_lo_def entry_hi_def)
  qed
  have "mhash_lookup ?m' x = (if pa \<le> x \<and> x < pa + sz then Some (va + (x - pa), fl) else mhash_lookup m x)" for x
    using lookup_insert [OF ok ok' sg dis, of x] by (simp add: seg_at_def seg_val_def)
  moreover have "i \<in> free_slots m" "free_slots ?m' = free_slots m - {i}" using a by (auto simp: free_slots_def nth_list_update split: if_splits)
  moreover have "host_mhash_find pa ?m' = Some i" "mh_entry ?m' ! i = ?e"
    unfolding mhash_find_spec [OF ok'] using t(4) lt new same a by simp_all
  ultimately show ?thesis using that [OF add ok' sg] by blast
qed

lemma mhash_drop:
  assumes ok: "mhash_ok m" and i: "i \<in> set (elems (mh_root m))"
  obtains t where "rb_remove i (mh_root m) = Some t" "mhash_ok (m\<lparr>mh_root := t, mh_entry := (mh_entry m)[i := no_entry]\<rparr>)"
    "segs (m\<lparr>mh_root := t, mh_entry := (mh_entry m)[i := no_entry]\<rparr>) = segs m - {entry_seg (mh_entry m ! i)}"
    "free_slots (m\<lparr>mh_root := t, mh_entry := (mh_entry m)[i := no_entry]\<rparr>) = insert i (free_slots m)" "i \<notin> free_slots m"
proof -
  have k: "rb_root_ok (mh_root m)" "rb.ranges (entry_lo m) (entry_hi m) (mh_root m)"
    and used: "\<And>j. j \<in> set (elems (mh_root m)) \<longleftrightarrow> j < length (mh_entry m) \<and> e_ref (mh_entry m ! j) \<noteq> 0" using ok by (simp_all add: mhash_ok_def)
  note dist = rb.ranges_distinct [OF k(2)]
  obtain t where t: "rb_remove i (mh_root m) = Some t" "rb_root_ok t" "elems t = remove1 i (elems (mh_root m))" using rb.del_in [OF k(1) dist i] by blast
  let ?m = "m\<lparr>mh_root := t, mh_entry := (mh_entry m)[i := no_entry]\<rparr>"
  have el: "set (elems t) = set (elems (mh_root m)) - {i}" using t(3) dist by simp
  have same: "mh_entry ?m ! j = mh_entry m ! j" if "j \<in> set (elems t)" for j
  proof -
    have "j \<noteq> i" using that el by blast
    then show ?thesis by simp
  qed
  have "rb.ranges (entry_lo ?m) (entry_hi ?m) t"
    by (rule entry_ranges_cong [OF rb.ranges_remove1 [OF k(2) t(3)]]) (use same in \<open>simp add: entry_lo_def entry_hi_def\<close>)
  moreover have "j \<in> set (elems t) \<longleftrightarrow> j < length (mh_entry ?m) \<and> e_ref (mh_entry ?m ! j) \<noteq> 0" for j
    using used [of j] unfolding el by (cases "j = i") (auto simp: no_entry_def)
  moreover have "unat (e_pa (mh_entry ?m ! j)) + unat (e_sz (mh_entry ?m ! j)) < 2 ^ 64 \<and>
      unat (e_va (mh_entry ?m ! j)) + unat (e_sz (mh_entry ?m ! j)) < 2 ^ 64" if "j \<in> set (elems t)" for j
    using same [OF that] that el ok by (simp add: mhash_ok_def)
  ultimately have ok': "mhash_ok ?m" using t(2) by (simp add: mhash_ok_def)
  have u: "j = i" if "j \<in> set (elems (mh_root m))" "entry_seg (mh_entry m ! j) = entry_seg (mh_entry m ! i)" for j
  proof (rule ccontr)
    assume "j \<noteq> i"
    then have "entry_hi m j \<le> entry_lo m i \<or> entry_hi m i \<le> entry_lo m j" using rb.ranges_apart [OF k(2) that(1) i] by simp
    moreover have "entry_lo m i < entry_hi m i" using k(2) i by (simp add: rb.ranges_def)
    moreover have "entry_lo m j = entry_lo m i" "entry_hi m j = entry_hi m i" using that(2) by (simp_all add: entry_seg_def entry_lo_def entry_hi_def)
    ultimately show False by auto
  qed
  have "segs ?m = (\<lambda>j. entry_seg (mh_entry m ! j)) ` (set (elems (mh_root m)) - {i})" using same el by (simp add: segs_def)
  also have "\<dots> = segs m - {entry_seg (mh_entry m ! i)}" unfolding segs_def by (rule image_minus_unique [where f = "\<lambda>j. entry_seg (mh_entry m ! j)" and a = i, OF u])
  finally have "segs ?m = segs m - {entry_seg (mh_entry m ! i)}" .
  moreover have "free_slots ?m = insert i (free_slots m)" "i \<notin> free_slots m"
    using used [of i] i by (auto simp: free_slots_def nth_list_update no_entry_def)
  ultimately show ?thesis using that [OF t(1) ok'] by blast
qed


definition mhash_residue_ok :: "u64 \<Rightarrow> u64 \<Rightarrow> u64 \<Rightarrow> host_mhash_ctrl \<Rightarrow> bool" where
  "mhash_residue_ok pa va sz m \<longleftrightarrow> unat pa + unat sz < 2 ^ 64 \<and> unat va + unat sz < 2 ^ 64 \<and> (sz \<noteq> 0 \<longrightarrow> mhash_free_range m pa sz)"

lemma mhash_residue_spec:
  assumes "mhash_ok m" "mhash_residue_ok pa va sz m" "free_slots m \<noteq> {}"
  obtains m' where "mhash_residue pa va sz fl m = Some m'" "mhash_ok m'" "segs m' = (if sz = 0 then segs m else insert (pa, va, sz, fl) (segs m))"
    "\<And>x. mhash_lookup m' x = (if pa \<le> x \<and> x < pa + sz then Some (va + (x - pa), fl) else mhash_lookup m x)"
    "\<exists>i. free_slots m - {i} \<subseteq> free_slots m'"
proof (cases "sz = 0")
  case True
  show ?thesis by (rule that [of m]) (use True assms(1) in \<open>auto simp: mhash_residue_def\<close>)
next
  case False
  then obtain m' where "host_mhash_add pa va sz fl m = Some (VMM_OK, m')" "mhash_ok m'" "segs m' = insert (pa, va, sz, fl) (segs m)"
    "\<And>x. mhash_lookup m' x = (if pa \<le> x \<and> x < pa + sz then Some (va + (x - pa), fl) else mhash_lookup m x)"
    "\<exists>i \<in> free_slots m. free_slots m' = free_slots m - {i}"
    using mhash_add_fresh [OF assms(1) False, of pa va fl] assms(2,3) unfolding mhash_residue_ok_def by metis
  then show ?thesis using that [of m'] False by (auto simp: mhash_residue_def)
qed

lemma free_range_segs: "mhash_free_range m pa sz \<longleftrightarrow> (\<forall>(p, v, s, f) \<in> segs m. pa + sz \<le> p \<or> p + s \<le> pa)"
  by (auto simp: mhash_free_range_def segs_def entry_seg_def entry_lo_def entry_hi_def)

lemma cut_out:
  fixes A :: "'a::linorder"
  assumes "A \<le> B" "B \<le> C" "C \<le> D" "l2 = (if C \<le> x \<and> x < D then Some v else l1)" "l1 = (if A \<le> x \<and> x < B then Some v else l0)"
    "l = (if A \<le> x \<and> x < D then Some v else l0)" "A \<le> x \<and> x < D \<Longrightarrow> l0 = None"
  shows "l2 = (if B \<le> x \<and> x < C then None else l)"
  using assms by auto

text \<open>
  Deleting a range that lies in one entry with a single reference, at the virtual address the entry gives it.
\<close>

lemma mhash_del_range:
  assumes ok: "mhash_ok m" and f: "host_mhash_find pa m = Some i" and ref: "e_ref (mh_entry m ! i) = 1"
    and va: "va = e_va (mh_entry m ! i) + (pa - e_pa (mh_entry m ! i))" and sz: "sz \<noteq> 0"
    and inn: "unat pa + unat sz \<le> unat (e_pa (mh_entry m ! i)) + unat (e_sz (mh_entry m ! i))" and slot: "free_slots m \<noteq> {} \<or> pa = e_pa (mh_entry m ! i)"
  obtains m' where "host_mhash_del pa va sz m = Some (VMM_OK, m')" "mhash_ok m'"
    "\<And>x. mhash_lookup m' x = (if pa \<le> x \<and> x < pa + sz then None else mhash_lookup m x)"
proof -
  define e where "e = mh_entry m ! i"
  note va = va [folded e_def] and inn = inn [folded e_def] and ref = ref [folded e_def]
  have i: "i \<in> set (elems (mh_root m))" "e_pa e \<le> pa" using f mhash_find_spec [OF ok] by (simp_all add: entry_lo_def e_def)
  have nw: "unat (e_pa e) + unat (e_sz e) < 2 ^ 64" "unat (e_va e) + unat (e_sz e) < 2 ^ 64" using ok i(1) by (simp_all add: mhash_ok_def e_def)
  define d where "d = pa - e_pa e"
  have sz0: "0 < unat sz" using sz by (simp add: unat_gt_0)
  have d: "unat d = unat pa - unat (e_pa e)" "unat (e_pa e) \<le> unat pa" using i(2) by (simp_all add: d_def unat_sub word_le_nat_alt)
  have dl: "unat d + unat sz \<le> unat (e_sz e)" using d inn by linarith
  have pa: "pa = e_pa e + d" by (simp add: d_def)
  have uva: "unat va = unat (e_va e) + unat d" using unat_add_small [of "e_va e" d] nw dl va d_def by simp
  define r where "r = e_va e + e_sz e - (va + sz)"
  have s: "unat (va + sz) = unat va + unat sz" "unat (pa + sz) = unat pa + unat sz" "unat (e_va e + e_sz e) = unat (e_va e) + unat (e_sz e)"
    "unat (e_pa e + e_sz e) = unat (e_pa e) + unat (e_sz e)"
    by (rule unat_add_small, use nw dl uva inn in linarith)+
  have r: "unat r = unat (e_sz e) - unat d - unat sz" using s(1,3) uva dl by (simp add: r_def unat_sub word_le_nat_alt)
  have mm: "\<not> mhash_mismatch pa va sz e" unfolding mhash_mismatch_def word_less_nat_alt word_le_nat_alt s using uva dl sz0 inn by linarith
  obtain t where t: "rb_remove i (mh_root m) = Some t" "mhash_ok (m\<lparr>mh_root := t, mh_entry := (mh_entry m)[i := no_entry]\<rparr>)"
    "segs (m\<lparr>mh_root := t, mh_entry := (mh_entry m)[i := no_entry]\<rparr>) = segs m - {entry_seg e}"
    "free_slots (m\<lparr>mh_root := t, mh_entry := (mh_entry m)[i := no_entry]\<rparr>) = insert i (free_slots m)" "i \<notin> free_slots m"
    using mhash_drop [OF ok i(1)] unfolding e_def by metis
  let ?m0 = "m\<lparr>mh_root := t, mh_entry := (mh_entry m)[i := no_entry]\<rparr>"
  have vd: "va - e_va e = d" using va d_def by simp
  have apart: "e_pa e + e_sz e \<le> p \<or> p + q \<le> e_pa e" if g: "(p, v, q, g) \<in> segs ?m0" for p v q g
  proof -
    have "(p, v, q, g) \<in> segs m" and ne: "(p, v, q, g) \<noteq> entry_seg e" using g unfolding t(3) by simp_all
    then obtain j where j: "j \<in> set (elems (mh_root m))" "entry_seg (mh_entry m ! j) = (p, v, q, g)" unfolding segs_def by fastforce
    then have "j \<noteq> i" using ne by (auto simp: e_def)
    note j = j this
    have "rb.ranges (entry_lo m) (entry_hi m) (mh_root m)" using ok by (simp add: mhash_ok_def)
    from rb.ranges_apart [OF this j(1) i(1) j(3)] show ?thesis using j(2) by (auto simp: entry_seg_def entry_lo_def entry_hi_def e_def)
  qed
  have le: "e_pa e + d \<le> pa + sz" "pa + sz \<le> e_pa e + e_sz e" "pa + sz + r = e_pa e + e_sz e" "e_pa e \<le> pa + sz" "pa \<le> pa + sz"
  proof -
    show "pa + sz + r = e_pa e + e_sz e" by (simp add: r_def va)
  qed (use s pa d dl inn in \<open>simp_all add: word_le_nat_alt\<close>)
  have "e_pa e + d \<le> p \<or> p + q \<le> e_pa e" if "(p, v, q, g) \<in> segs ?m0" for p v q g
    using apart [OF that] le(1,2) by (meson order.trans)
  then have res0: "mhash_residue_ok (e_pa e) (e_va e) d ?m0"
    unfolding mhash_residue_ok_def free_range_segs using nw dl by (auto split: prod.splits)
  have ne0: "free_slots ?m0 \<noteq> {}" using t(4) by simp
  obtain m1 where m1: "mhash_residue (e_pa e) (e_va e) d (e_flags e) ?m0 = Some m1" "mhash_ok m1"
    "segs m1 = (if d = 0 then segs ?m0 else insert (e_pa e, e_va e, d, e_flags e) (segs ?m0))"
    "\<And>x. mhash_lookup m1 x = (if e_pa e \<le> x \<and> x < e_pa e + d then Some (e_va e + (x - e_pa e), e_flags e) else mhash_lookup ?m0 x)"
    "\<exists>i. free_slots ?m0 - {i} \<subseteq> free_slots m1"
    using mhash_residue_spec [OF t(2) res0 ne0, of "e_flags e"] by blast
  have ne1: "free_slots m1 \<noteq> {}"
  proof (cases "d = 0")
    case True
    then show ?thesis using m1(1) ne0 by (simp add: mhash_residue_def)
  next
    case False
    then show ?thesis using m1(5) t(4,5) slot by (auto simp: d_def e_def)
  qed
  have "pa + sz + r \<le> p \<or> p + q \<le> pa + sz" if g: "(p, v, q, g) \<in> segs m1" for p v q g
  proof (cases "(p, v, q, g) \<in> segs ?m0")
    case True
    then show ?thesis using apart [OF True] le(3,4) by (auto intro: order.trans)
  next
    case False
    then have "p = e_pa e" "q = d" using g m1(3) by (auto split: if_splits)
    then show ?thesis using le(1) by simp
  qed
  then have res1: "mhash_residue_ok (pa + sz) (va + sz) r m1"
    unfolding mhash_residue_ok_def free_range_segs s using nw dl uva r d by (auto split: prod.splits)
  obtain m2 where m2: "mhash_residue (pa + sz) (va + sz) r (e_flags e) m1 = Some m2" "mhash_ok m2"
    "\<And>x. mhash_lookup m2 x = (if pa + sz \<le> x \<and> x < pa + sz + r then Some (va + sz + (x - (pa + sz)), e_flags e) else mhash_lookup m1 x)"
    by (rule mhash_residue_spec [OF m1(2) res1 ne1, of "e_flags e"], rule that; assumption)
  have "host_mhash_del pa va sz m = Some (VMM_OK, m2)"
    using f mm ref t(1) m1(1) m2(1) vd by (simp add: host_mhash_del_def Let_def e_def [symmetric] r_def)
  moreover have "mhash_lookup m2 x = (if pa \<le> x \<and> x < pa + sz then None else mhash_lookup m x)" for x
  proof -
    have sg: "segs m = insert (entry_seg e) (segs ?m0)" using t(3) i(1) by (auto simp: segs_def e_def)
    have at: "seg_at (entry_seg e) x \<longleftrightarrow> e_pa e \<le> x \<and> x < e_pa e + e_sz e" by (simp add: seg_at_def entry_seg_def)
    have out: "\<not> (seg_at (entry_seg e) x \<and> seg_at h x)" if "h \<in> segs ?m0" for h
      using apart that unfolding at by (cases h) (fastforce simp: seg_at_def)
    have lm: "mhash_lookup m x = (if seg_at (entry_seg e) x then Some (e_va e + (x - e_pa e), e_flags e) else mhash_lookup ?m0 x)"
      using lookup_insert [OF t(2) ok sg out] by (simp add: seg_val_def entry_seg_def)
    have l0: "mhash_lookup ?m0 x = None" if "seg_at (entry_seg e) x"
      using mhash_lookup_iff [OF t(2), of x] out that by (metis not_Some_eq)
    have v: "va + sz + (x - (pa + sz)) = e_va e + (x - e_pa e)" by (simp add: va)
    show ?thesis
      by (rule cut_out [OF i(2) le(5,2) m2(3) [of x, unfolded le(3) v] m1(4) [of x, folded pa] lm [unfolded at]]) (use l0 at in simp)
  qed
  ultimately show ?thesis using that m2(2) by blast
qed

lemma mhash_init_ok: "mhash_ok (snd (host_mhash_init sz))" "mhash_lookup (snd (host_mhash_init sz)) x = None"
  by (simp_all add: host_mhash_init_def Let_def mhash_ok_def rb_root_ok_def rb.ranges_def no_entry_def mhash_lookup_def host_mhash_find_def rb_search_def)

text \<open>
  Property C21: deleting a range from the table of mapped ranges. If the range lies in one entry that has a single
  reference, is given at the virtual address the entry has for it, and leaves an entry for what remains on both sides, the call
  succeeds, keeps the invariant and removes exactly the addresses of the range from the table; what lay before and
  behind it in the entry keeps its virtual address.\<close>
theorem host_mhash_del_cuts_range:
  assumes "mhash_ok m" and "host_mhash_find pa m = Some i" and "e_ref (mh_entry m ! i) = 1"
    and "va = e_va (mh_entry m ! i) + (pa - e_pa (mh_entry m ! i))" and "sz \<noteq> 0"
    and "unat pa + unat sz \<le> unat (e_pa (mh_entry m ! i)) + unat (e_sz (mh_entry m ! i))"
    and "free_slots m \<noteq> {} \<or> pa = e_pa (mh_entry m ! i)"
  shows "\<exists>m'. host_mhash_del pa va sz m = Some (VMM_OK, m') \<and> mhash_ok m' \<and>
    (\<forall>x. mhash_lookup m' x = (if pa \<le> x \<and> x < pa + sz then None else mhash_lookup m x))"
  using mhash_del_range [OF assms] by metis

definition ex_mhash :: host_mhash_ctrl where
  "ex_mhash = \<lparr>mh_root = Rb_node RB_BLACK RB_NULL 0 RB_NULL,
     mh_entry = [\<lparr>e_pa = 0x80200000, e_va = 0x10000, e_sz = 0x4000, e_flags = 3, e_ref = 1\<rparr>, no_entry, no_entry]\<rparr>"

lemma ex_mhash_ok: "mhash_ok ex_mhash"
proof -
  have el: "set (elems (mh_root ex_mhash)) = {0}" by (simp add: ex_mhash_def)
  have "i \<in> {0} \<longleftrightarrow> i < length (mh_entry ex_mhash) \<and> e_ref (mh_entry ex_mhash ! i) \<noteq> 0" for i :: nat
    by (auto simp: ex_mhash_def no_entry_def nth_Cons')
  moreover have "rb_root_ok (mh_root ex_mhash)" "rb.ranges (entry_lo ex_mhash) (entry_hi ex_mhash) (mh_root ex_mhash)"
    by (auto simp: ex_mhash_def rb_root_ok_def rb.ranges_def entry_lo_def entry_hi_def)
  ultimately show ?thesis unfolding mhash_ok_def el by (simp add: ex_mhash_def)
qed

theorem host_mhash_del_cuts_range_witness:
  "\<exists>m'. host_mhash_del 0x80201000 0x11000 0x1000 ex_mhash = Some (VMM_OK, m') \<and> mhash_ok m' \<and>
     mhash_lookup m' 0x80200800 = Some (0x10800, 3) \<and> mhash_lookup m' 0x80201004 = None \<and> mhash_lookup m' 0x80203000 = Some (0x13000, 3)"
proof -
  have f: "host_mhash_find x ex_mhash = (if 0x80200000 \<le> x \<and> x < 0x80204000 then Some 0 else None)" for x
    using mhash_find_spec [OF ex_mhash_ok, of x 0] mhash_find_None [OF ex_mhash_ok, of x] by (auto simp: ex_mhash_def entry_lo_def entry_hi_def)
  have e: "mh_entry ex_mhash ! 0 = \<lparr>e_pa = 0x80200000, e_va = 0x10000, e_sz = 0x4000, e_flags = 3, e_ref = 1\<rparr>" by (simp add: ex_mhash_def)
  have "1 \<in> free_slots ex_mhash" by (simp add: free_slots_def ex_mhash_def no_entry_def)
  then obtain m' where m': "host_mhash_del 0x80201000 0x11000 0x1000 ex_mhash = Some (VMM_OK, m')" "mhash_ok m'"
    "\<And>x. mhash_lookup m' x = (if 0x80201000 \<le> x \<and> x < 0x80202000 then None else mhash_lookup ex_mhash x)"
    using host_mhash_del_cuts_range [OF ex_mhash_ok, of "0x80201000" 0 "0x11000" "0x1000"] e by (auto simp: f)
  have "mhash_lookup ex_mhash x = (if 0x80200000 \<le> x \<and> x < 0x80204000 then Some (0x10000 + (x - 0x80200000), 3) else None)" for x
    by (simp add: mhash_lookup_def f e)
  then show ?thesis using m'(1,2) m'(3) by simp
qed

end
