(* ===== verification/Buddy.thy ===== *)
theory Buddy
  imports Rbtree
begin

text \<open>
  The buddy allocator, \<^verbatim>\<open>libs/common/buddy.c\<close>: per bin a list of free areas of blocks of one size, and a red-black tree
  of the areas handed out. An area is a value; the house-keeping structures that hold areas are counted, since the list
  of unused ones is only popped and pushed. The operations run one after the other: the locks of the bins and of the
  tree protect the lists and are taken in ascending order. \<^const>\<open>None\<close> is \<^verbatim>\<open>BUG_ON(1)\<close>.

  Bins are naturals; the sizes, counts and addresses are \<^verbatim>\<open>unsigned long\<close> and wrap around.
\<close>

section \<open>Areas and bins\<close>

record buddy_area =
  area_map :: u64
  blk_count :: u64
  bin_num :: nat

record buddy_allocator =
  hk_total_count :: u64
  hk_free_count :: u64
  mem_start :: u64
  mem_size :: u64
  min_bin :: nat
  max_bin :: nat
  alloc_tree :: "buddy_area rb_tree"
  bins :: "nat \<Rightarrow> buddy_area list"

definition BLOCK_SIZE :: "nat \<Rightarrow> u64" where "BLOCK_SIZE b = push_bit b 1"
definition BLOCK_MASK :: "nat \<Rightarrow> u64" where "BLOCK_MASK b = BLOCK_SIZE b - 1"
definition BLOCK_COUNT :: "u64 \<Rightarrow> nat \<Rightarrow> u64" where "BLOCK_COUNT sz b = drop_bit b sz"
definition AREA_SIZE :: "buddy_area \<Rightarrow> u64" where "AREA_SIZE a = blk_count a * BLOCK_SIZE (bin_num a)"
definition AREA_START :: "buddy_area \<Rightarrow> u64" where "AREA_START a = area_map a"
definition AREA_END :: "buddy_area \<Rightarrow> u64" where "AREA_END a = area_map a + AREA_SIZE a"

definition buddy_estimate_bin :: "buddy_allocator \<Rightarrow> u64 \<Rightarrow> nat" where
  "buddy_estimate_bin ba sz =
     (if sz < BLOCK_SIZE (min_bin ba) then min_bin ba
      else case List.find (\<lambda>b. sz \<le> BLOCK_SIZE b) [min_bin ba..<max_bin ba] of Some b \<Rightarrow> b | None \<Rightarrow> max_bin ba)"

text \<open>The number of blocks of a bin that hold a size.\<close>

definition blocks_for :: "u64 \<Rightarrow> nat \<Rightarrow> u64" where
  "blocks_for sz b = (let n = BLOCK_COUNT sz b in if n * BLOCK_SIZE b < sz then n + 1 else n)"

definition buddy_hk_free :: "nat \<Rightarrow> buddy_allocator \<Rightarrow> buddy_allocator" where
  "buddy_hk_free k ba = ba\<lparr>hk_free_count := hk_free_count ba + of_nat k\<rparr>"

definition buddy_hk_alloc :: "u64 \<Rightarrow> nat \<Rightarrow> u64 \<Rightarrow> buddy_allocator \<Rightarrow> buddy_area option \<times> buddy_allocator" where
  "buddy_hk_alloc m b n ba =
     (if hk_free_count ba = 0 then (None, ba)
      else (Some \<lparr>area_map = m, blk_count = n, bin_num = b\<rparr>, ba\<lparr>hk_free_count := hk_free_count ba - 1\<rparr>))"

definition buddy_hk_area_free :: "buddy_allocator \<Rightarrow> u64" where "buddy_hk_area_free ba = hk_free_count ba"
definition buddy_hk_area_total :: "buddy_allocator \<Rightarrow> u64" where "buddy_hk_area_total ba = hk_total_count ba"

section \<open>The tree of allocated areas\<close>

definition area_find_cmp :: "u64 \<Rightarrow> buddy_area \<Rightarrow> rb_dir" where
  "area_find_cmp addr a = (if addr < AREA_START a then Go_left else if AREA_END a \<le> addr then Go_right else Stop)"

definition buddy_alloc_find :: "buddy_allocator \<Rightarrow> u64 \<Rightarrow> buddy_area option" where
  "buddy_alloc_find ba addr = rb_search (area_find_cmp addr) (alloc_tree ba)"

definition area_add_cmp :: "buddy_area \<Rightarrow> buddy_area \<Rightarrow> rb_dir" where
  "area_add_cmp a p =
     (if AREA_END a \<le> AREA_START p then Go_left else if AREA_END p \<le> AREA_START a then Go_right else Stop)"

definition buddy_alloc_add :: "buddy_area \<Rightarrow> buddy_allocator \<Rightarrow> buddy_allocator option" where
  "buddy_alloc_add a ba =
     (case rb_insert_by (area_add_cmp a) a (alloc_tree ba) of
        Some (Inr t) \<Rightarrow> Some (ba\<lparr>alloc_tree := t\<rparr>)
      | _ \<Rightarrow> None)"

definition buddy_alloc_del :: "buddy_area \<Rightarrow> buddy_allocator \<Rightarrow> buddy_allocator option" where
  "buddy_alloc_del a ba = map_option (\<lambda>t. ba\<lparr>alloc_tree := t\<rparr>) (rb_remove a (alloc_tree ba))"

section \<open>Putting an area into its bin\<close>

text \<open>
  The walk over the areas of a bin: \<open>pre\<close> are the areas already passed, the last one first. The result is the list
  before the area that was added or grown, that area, the list after it, and how many house-keeping structures are free
  again.
\<close>

definition grow :: "buddy_area \<Rightarrow> buddy_area \<Rightarrow> buddy_area" where
  "grow b a = b\<lparr>blk_count := blk_count b + blk_count a\<rparr>"

fun bin_place :: "buddy_area \<Rightarrow> buddy_area list \<Rightarrow> buddy_area list \<Rightarrow> buddy_area list \<times> buddy_area \<times> buddy_area list \<times> nat" where
  "bin_place a pre [] = (rev pre, a, [], 0)"
| "bin_place a pre (b # bs) =
     (if AREA_END a = AREA_START b then
        let b' = (grow b a)\<lparr>area_map := area_map a\<rparr> in
        case pre of
          [] \<Rightarrow> ([], b', bs, 1)
        | c # cs \<Rightarrow> if AREA_END c = AREA_START b' then (rev cs, grow c b', bs, 2) else (rev pre, b', bs, 1)
      else if AREA_END b = AREA_START a then
        let b' = grow b a in
        case bs of
          [] \<Rightarrow> (rev pre, b', [], 1)
        | c # cs \<Rightarrow> if AREA_END b' = AREA_START c then (rev pre, grow b' c, cs, 2) else (rev pre, b', bs, 1)
      else if AREA_END a < AREA_START b then (rev pre, a, b # bs, 0)
      else bin_place a (b # pre) bs)"

text \<open>The first block of an area whose start is not aligned to the next bin is split off when three or more remain.\<close>

definition split_first ::
  "nat \<Rightarrow> buddy_area list \<times> buddy_area \<times> buddy_allocator \<Rightarrow> (buddy_area list \<times> buddy_area \<times> buddy_allocator) option" where
  "split_first b x =
     (case x of (pre, m, ba) \<Rightarrow>
        if AREA_START m AND BLOCK_MASK (b + 1) \<noteq> 0 \<and> 3 \<le> blk_count m then
          (case buddy_hk_alloc (area_map m) b 1 ba of
             (None, ba1) \<Rightarrow> None
           | (Some a, ba1) \<Rightarrow>
               Some (pre @ [a], m\<lparr>area_map := area_map m + BLOCK_SIZE b, blk_count := blk_count m - 1\<rparr>, ba1))
        else Some x)"

text \<open>Pairs of blocks of an aligned area become blocks of the next bin; the area of these is returned.\<close>

definition take_pairs ::
  "nat \<Rightarrow> buddy_area list \<times> buddy_area \<times> buddy_area list \<times> buddy_allocator \<Rightarrow> buddy_area option \<times> buddy_area list \<times> buddy_allocator" where
  "take_pairs b x =
     (case x of (pre, m, post, ba) \<Rightarrow>
        if AREA_START m AND BLOCK_MASK (b + 1) = 0 \<and> 2 \<le> blk_count m then
          (case buddy_hk_alloc (area_map m) (b + 1) (drop_bit 1 (blk_count m)) ba of
             (None, ba1) \<Rightarrow> (None, pre @ m # post, ba1)
           | (Some r, ba1) \<Rightarrow>
               let m' = m\<lparr>area_map := area_map m + AREA_SIZE r, blk_count := blk_count m - push_bit 1 (blk_count r)\<rparr> in
               if blk_count m' = 0 then (Some r, pre @ post, buddy_hk_free 1 ba1) else (Some r, pre @ m' # post, ba1))
        else (None, pre @ m # post, ba))"

definition buddy_bins_put_raw :: "buddy_area \<Rightarrow> buddy_allocator \<Rightarrow> buddy_area option \<times> buddy_allocator" where
  "buddy_bins_put_raw a ba =
     (let b = bin_num a in
      if b < min_bin ba \<or> max_bin ba < b then (None, ba)
      else let (pre, m, post, k) = bin_place a [] (bins ba b); ba1 = buddy_hk_free k ba in
        if b = max_bin ba then (None, ba1\<lparr>bins := (bins ba1)(b := pre @ m # post)\<rparr>)
        else case split_first b (pre, m, ba1) of
          None \<Rightarrow> (None, ba1\<lparr>bins := (bins ba1)(b := pre @ m # post)\<rparr>)
        | Some (pre2, m2, ba2) \<Rightarrow>
            let (res, l, ba3) = take_pairs b (pre2, m2, post, ba2) in (res, ba3\<lparr>bins := (bins ba3)(b := l)\<rparr>))"

lemma put_raw_residue:
  "buddy_bins_put_raw a ba = (Some r, ba') \<Longrightarrow> bin_num r = Suc (bin_num a) \<and> bin_num a < max_bin ba \<and> max_bin ba' = max_bin ba"
  by (auto simp: buddy_bins_put_raw_def split_first_def take_pairs_def buddy_hk_alloc_def buddy_hk_free_def Let_def
      split: if_splits option.splits prod.splits)

text \<open>\<^verbatim>\<open>while (residue)\<close>: every residue belongs to the next bin.\<close>

function buddy_bins_put :: "buddy_area \<Rightarrow> buddy_allocator \<Rightarrow> buddy_allocator" where
  "buddy_bins_put a ba = (case buddy_bins_put_raw a ba of (None, ba') \<Rightarrow> ba' | (Some r, ba') \<Rightarrow> buddy_bins_put r ba')"
  by pat_completeness auto
termination
  by (relation "measure (\<lambda>(a, ba). Suc (max_bin ba) - bin_num a)") (auto dest: put_raw_residue [OF sym])

declare buddy_bins_put.simps [simp del]

section \<open>Taking areas out of the bins\<close>

text \<open>Taking \<open>n\<close> blocks from the first area of the bin that has as many.\<close>

fun bin_take :: "nat \<Rightarrow> u64 \<Rightarrow> buddy_area list \<Rightarrow> (buddy_area \<times> buddy_area list \<times> nat) option" where
  "bin_take b n [] = None"
| "bin_take b n (a # as) =
     (if n \<le> blk_count a then
        let a' = a\<lparr>area_map := area_map a + n * BLOCK_SIZE b, blk_count := blk_count a - n\<rparr> in
        Some (a, if blk_count a' = 0 then as else a' # as, if blk_count a' = 0 then 1 else 0)
      else map_option (\<lambda>(x, l, k). (x, a # l, k)) (bin_take b n as))"

function buddy_bins_get :: "nat \<Rightarrow> u64 \<Rightarrow> buddy_allocator \<Rightarrow> buddy_area option \<times> buddy_allocator" where
  "buddy_bins_get b n ba =
     (if n = 0 \<or> b < min_bin ba \<or> max_bin ba < b then (None, ba)
      else case bin_take b n (bins ba b) of
        Some (a, l, k) \<Rightarrow>
          (case buddy_hk_alloc (area_map a) b n ba of
             (None, ba1) \<Rightarrow> (None, ba1)
           | (Some r, ba1) \<Rightarrow> (Some r, buddy_hk_free k (ba1\<lparr>bins := (bins ba1)(b := l)\<rparr>)))
      | None \<Rightarrow>
          (case buddy_bins_get (Suc b) (drop_bit 1 (n + 1)) ba of
             (None, ba1) \<Rightarrow> (None, ba1)
           | (Some r, ba1) \<Rightarrow>
               let r1 = r\<lparr>bin_num := bin_num r - 1, blk_count := blk_count r * 2\<rparr> in
               if blk_count r1 = n then (Some r1, ba1)
               else case buddy_hk_alloc (area_map r1 + n * BLOCK_SIZE b) b (blk_count r1 - n) ba1 of
                 (None, ba2) \<Rightarrow> (Some r1, ba2)
               | (Some t, ba2) \<Rightarrow> (Some (r1\<lparr>blk_count := n\<rparr>), buddy_bins_put t ba2)))"
  by pat_completeness auto
termination
  by (relation "measure (\<lambda>(b, n, ba). Suc (max_bin ba) - b)") auto

declare buddy_bins_get.simps [simp del]

text \<open>Reserving a given range of a bin: the area that contains it is cut into up to three.\<close>

definition reserve_hit :: "u64 \<Rightarrow> u64 \<Rightarrow> buddy_area \<Rightarrow> bool" where
  "reserve_hit addr sz a \<longleftrightarrow> AREA_START a \<le> addr \<and> addr < AREA_END a \<and> AREA_START a \<le> addr + sz \<and> addr + sz \<le> AREA_END a"

fun bin_split :: "(buddy_area \<Rightarrow> bool) \<Rightarrow> buddy_area list \<Rightarrow> (buddy_area list \<times> buddy_area \<times> buddy_area list) option" where
  "bin_split P [] = None"
| "bin_split P (a # as) = (if P a then Some ([], a, as) else map_option (\<lambda>(p, x, q). (a # p, x, q)) (bin_split P as))"

definition keep_front :: "buddy_area \<Rightarrow> u64 \<Rightarrow> buddy_area" where
  "keep_front a n = a\<lparr>blk_count := n\<rparr>"

definition buddy_bins_reserve :: "nat \<Rightarrow> u64 \<Rightarrow> u64 \<Rightarrow> buddy_allocator \<Rightarrow> buddy_area option \<times> buddy_allocator" where
  "buddy_bins_reserve b addr0 size0 ba =
     (if size0 = 0 \<or> b < min_bin ba \<or> max_bin ba < b then (None, ba)
      else let addr = addr0 AND NOT (BLOCK_MASK b); size1 = size0 + (addr0 - addr); n = blocks_for size1 b; sz = n * BLOCK_SIZE b in
        case bin_split (reserve_hit addr sz) (bins ba b) of
          None \<Rightarrow> (None, ba)
        | Some (pre, a, post) \<Rightarrow>
            (case buddy_hk_alloc addr b n ba of
               (None, ba1) \<Rightarrow> (None, ba1)
             | (Some r, ba1) \<Rightarrow>
                 let tail = BLOCK_COUNT (AREA_END a - AREA_END r) b; front = BLOCK_COUNT (AREA_START r - AREA_START a) b;
                     keep = (\<lambda>q ba2. let ba3 = ba2\<lparr>bins := (bins ba2)(b := pre @ (if front = 0 then [] else [keep_front a front]) @ q)\<rparr>
                                     in if front = 0 then buddy_hk_free 1 ba3 else ba3) in
                 if tail \<noteq> 0 then
                   (case buddy_hk_alloc (AREA_END r) b tail ba1 of
                      (None, ba2) \<Rightarrow> (None, buddy_hk_free 1 ba2)
                    | (Some t, ba2) \<Rightarrow> (Some r, keep (t # post) ba2))
                 else (Some r, keep post ba1)))"

definition buddy_bins_area_count :: "buddy_allocator \<Rightarrow> nat \<Rightarrow> u64" where
  "buddy_bins_area_count ba b = (if b < min_bin ba \<or> max_bin ba < b then 0 else of_nat (length (bins ba b)))"

definition buddy_bins_block_count :: "buddy_allocator \<Rightarrow> nat \<Rightarrow> u64" where
  "buddy_bins_block_count ba b = (if b < min_bin ba \<or> max_bin ba < b then 0 else sum_list (map blk_count (bins ba b)))"

definition buddy_bins_free_space :: "buddy_allocator \<Rightarrow> u64" where
  "buddy_bins_free_space ba = sum_list (map (\<lambda>b. buddy_bins_block_count ba b * BLOCK_SIZE b) [min_bin ba..<Suc (max_bin ba)])"

section \<open>Allocating and freeing\<close>

definition to_min_bin :: "buddy_allocator \<Rightarrow> buddy_area \<Rightarrow> buddy_area" where
  "to_min_bin ba a = a\<lparr>blk_count := blk_count a * push_bit (bin_num a - min_bin ba) 1, bin_num := min_bin ba\<rparr>"

text \<open>Blocks behind the first \<open>n\<close> of an area go back to the bins, if a house-keeping structure is left.\<close>

definition trim_area :: "u64 \<Rightarrow> buddy_area \<Rightarrow> buddy_allocator \<Rightarrow> buddy_area \<times> buddy_allocator" where
  "trim_area n a ba =
     (if n < blk_count a then
        case buddy_hk_alloc (AREA_START a + n * BLOCK_SIZE (bin_num a)) (bin_num a) (blk_count a - n) ba of
          (None, ba1) \<Rightarrow> (a, ba1)
        | (Some t, ba1) \<Rightarrow> (a\<lparr>blk_count := n\<rparr>, buddy_bins_put t ba1)
      else (a, ba))"

text \<open>The common end of the allocation functions.\<close>

definition alloc_finish :: "u64 \<Rightarrow> buddy_area \<Rightarrow> buddy_allocator \<Rightarrow> ((int + u64) \<times> buddy_allocator) option" where
  "alloc_finish sz a0 ba0 =
     (let a1 = to_min_bin ba0 a0; (a, ba) = trim_area (blocks_for sz (min_bin ba0)) a1 ba0
      in map_option (\<lambda>ba'. (Inr (area_map a), ba')) (buddy_alloc_add a ba))"

definition buddy_mem_alloc :: "u64 \<Rightarrow> buddy_allocator \<Rightarrow> ((int + u64) \<times> buddy_allocator) option" where
  "buddy_mem_alloc sz ba =
     (if sz = 0 then Some (Inl VMM_EINVALID, ba)
      else let b = buddy_estimate_bin ba sz in
        case buddy_bins_get b (blocks_for sz b) ba of
          (None, ba1) \<Rightarrow> Some (Inl VMM_ENOMEM, ba1)
        | (Some a, ba1) \<Rightarrow> alloc_finish sz a ba1)"

text \<open>When the blocks behind the requested ones cannot be described, the area keeps the estimated bin and all its blocks.\<close>

definition buddy_mem_aligned_alloc :: "nat \<Rightarrow> u64 \<Rightarrow> buddy_allocator \<Rightarrow> ((int + u64) \<times> buddy_allocator) option" where
  "buddy_mem_aligned_alloc order sz ba =
     (if sz = 0 \<or> max_bin ba < order then Some (Inl VMM_EINVALID, ba)
      else let b = buddy_estimate_bin ba sz; n = blocks_for sz b in
        if order \<le> b then
          (case buddy_bins_get b n ba of
             (None, ba1) \<Rightarrow> Some (Inl VMM_ENOMEM, ba1)
           | (Some a, ba1) \<Rightarrow> alloc_finish sz a ba1)
        else
          (case buddy_bins_get order (blocks_for sz order) ba of
             (None, ba1) \<Rightarrow> Some (Inl VMM_ENOMEM, ba1)
           | (Some a, ba1) \<Rightarrow>
               let a1 = a\<lparr>blk_count := blk_count a * push_bit (order - b) 1, bin_num := b\<rparr> in
               if n < blk_count a1 then
                 (case buddy_hk_alloc (area_map a1 + n * BLOCK_SIZE b) b (blk_count a1 - n) ba1 of
                    (None, ba2) \<Rightarrow> map_option (\<lambda>ba'. (Inr (area_map a1), ba')) (buddy_alloc_add a1 ba2)
                  | (Some t, ba2) \<Rightarrow> alloc_finish sz (a1\<lparr>blk_count := n\<rparr>) (buddy_bins_put t ba2))
               else alloc_finish sz a1 ba1))"

definition outside :: "buddy_allocator \<Rightarrow> u64 \<Rightarrow> bool" where
  "outside ba addr \<longleftrightarrow> addr < mem_start ba \<or> mem_start ba + mem_size ba \<le> addr"

fun reserve_bins :: "u64 \<Rightarrow> u64 \<Rightarrow> nat list \<Rightarrow> buddy_allocator \<Rightarrow> buddy_area option \<times> buddy_allocator" where
  "reserve_bins addr sz [] ba = (None, ba)"
| "reserve_bins addr sz (b # bs) ba =
     (case buddy_bins_reserve b addr sz ba of
        (Some a, ba1) \<Rightarrow> (Some a, ba1)
      | (None, ba1) \<Rightarrow> reserve_bins addr sz bs ba1)"

text \<open>The two residues of a reserved area; a missing house-keeping structure ends the trimming.\<close>

definition reserve_tail :: "u64 \<Rightarrow> u64 \<Rightarrow> buddy_area \<Rightarrow> buddy_allocator \<Rightarrow> buddy_area \<times> buddy_allocator" where
  "reserve_tail addr sz a ba =
     (let m = bin_num a; r = (addr + sz) AND BLOCK_MASK m; tsz = (if r \<noteq> 0 then sz + (BLOCK_SIZE m - r) else sz);
          k = BLOCK_COUNT (AREA_END a - (addr + tsz)) m in
      if k \<noteq> 0 then
        (case buddy_hk_alloc (addr + tsz) m k ba of
           (None, ba1) \<Rightarrow> (a, ba1)
         | (Some t, ba1) \<Rightarrow> (a\<lparr>blk_count := blk_count a - k\<rparr>, buddy_bins_put t ba1))
      else (a, ba))"

definition reserve_trim :: "u64 \<Rightarrow> u64 \<Rightarrow> buddy_area \<Rightarrow> buddy_allocator \<Rightarrow> buddy_area \<times> buddy_allocator" where
  "reserve_trim addr sz a ba =
     (let m = bin_num a; k = BLOCK_COUNT (addr - AREA_START a) m in
      if k \<noteq> 0 then
        (case buddy_hk_alloc (AREA_START a) m k ba of
           (None, ba1) \<Rightarrow> (a, ba1)
         | (Some t, ba1) \<Rightarrow>
             reserve_tail addr sz (a\<lparr>area_map := area_map a + AREA_SIZE t, blk_count := blk_count a - k\<rparr>) (buddy_bins_put t ba1))
      else reserve_tail addr sz a ba)"

definition buddy_mem_reserve :: "u64 \<Rightarrow> u64 \<Rightarrow> buddy_allocator \<Rightarrow> (int \<times> buddy_allocator) option" where
  "buddy_mem_reserve addr sz ba =
     (if sz = 0 \<or> outside ba addr then Some (VMM_EINVALID, ba)
      else case reserve_bins addr sz [min_bin ba..<Suc (max_bin ba)] ba of
        (None, ba1) \<Rightarrow> Some (VMM_ENOTAVAIL, ba1)
      | (Some a0, ba1) \<Rightarrow>
          let (a, ba2) = reserve_trim addr sz (to_min_bin ba1 a0) ba1
          in map_option (\<lambda>ba'. (VMM_OK, ba')) (buddy_alloc_add a ba2))"

definition buddy_mem_find :: "buddy_allocator \<Rightarrow> u64 \<Rightarrow> int + (u64 \<times> nat \<times> u64)" where
  "buddy_mem_find ba addr =
     (if outside ba addr then Inl VMM_EINVALID
      else case buddy_alloc_find ba addr of
        None \<Rightarrow> Inl VMM_ENOTAVAIL
      | Some a \<Rightarrow> Inr (area_map a, bin_num a, BLOCK_SIZE (bin_num a) * blk_count a))"

definition buddy_mem_free :: "u64 \<Rightarrow> buddy_allocator \<Rightarrow> (int \<times> buddy_allocator) option" where
  "buddy_mem_free addr ba =
     (if outside ba addr then Some (VMM_EINVALID, ba)
      else case buddy_alloc_find ba addr of
        None \<Rightarrow> Some (VMM_ENOTAVAIL, ba)
      | Some a \<Rightarrow> map_option (\<lambda>ba1. (VMM_OK, buddy_bins_put a ba1)) (buddy_alloc_del a ba))"

text \<open>
  The parts of a partly freed area that stay allocated become areas of their own; a missing house-keeping structure ends
  this, and the part is freed too.
\<close>

definition partial_tail :: "u64 \<Rightarrow> u64 \<Rightarrow> buddy_area \<Rightarrow> buddy_allocator \<Rightarrow> (buddy_area \<times> buddy_allocator) option" where
  "partial_tail addr sz a ba =
     (let m = bin_num a; k = BLOCK_COUNT (AREA_END a - (addr + sz)) m in
      if k \<noteq> 0 \<and> (addr + sz) AND BLOCK_MASK m = 0 then
        (case buddy_hk_alloc (addr + sz) m k ba of
           (None, ba1) \<Rightarrow> Some (a, ba1)
         | (Some t, ba1) \<Rightarrow> map_option (\<lambda>ba2. (a\<lparr>blk_count := blk_count a - k\<rparr>, ba2)) (buddy_alloc_add t ba1))
      else Some (a, ba))"

definition partial_residues :: "u64 \<Rightarrow> u64 \<Rightarrow> buddy_area \<Rightarrow> buddy_allocator \<Rightarrow> (buddy_area \<times> buddy_allocator) option" where
  "partial_residues addr sz a ba =
     (let m = bin_num a; k = BLOCK_COUNT (addr - AREA_START a) m in
      if k \<noteq> 0 \<and> addr AND BLOCK_MASK m = 0 then
        (case buddy_hk_alloc (AREA_START a) m k ba of
           (None, ba1) \<Rightarrow> Some (a, ba1)
         | (Some t, ba1) \<Rightarrow> Option.bind (buddy_alloc_add t ba1)
             (partial_tail addr sz (a\<lparr>area_map := area_map a + AREA_SIZE t, blk_count := blk_count a - k\<rparr>)))
      else partial_tail addr sz a ba)"

definition buddy_mem_partial_free :: "u64 \<Rightarrow> u64 \<Rightarrow> buddy_allocator \<Rightarrow> (int \<times> buddy_allocator) option" where
  "buddy_mem_partial_free addr sz ba =
     (if outside ba addr then Some (VMM_EINVALID, ba)
      else case buddy_alloc_find ba addr of
        None \<Rightarrow> Some (VMM_ENOTAVAIL, ba)
      | Some a0 \<Rightarrow>
          let a = to_min_bin ba a0; m = min_bin ba in
          if BLOCK_COUNT (addr - AREA_START a) m \<noteq> 0 \<and> addr AND BLOCK_MASK m \<noteq> 0 then Some (VMM_EINVALID, ba)
          else if BLOCK_COUNT (AREA_END a - (addr + sz)) m \<noteq> 0 \<and> (addr + sz) AND BLOCK_MASK m \<noteq> 0 then Some (VMM_EINVALID, ba)
          else do {
            ba1 \<leftarrow> buddy_alloc_del a0 ba;
            (a', ba2) \<leftarrow> partial_residues addr sz a ba1;
            Some (VMM_OK, buddy_bins_put a' ba2) })"

section \<open>Initialisation\<close>

text \<open>\<^verbatim>\<open>while (mem_size)\<close>, with the start and size of the memory that is left.\<close>

partial_function (option) fill_bins :: "u64 \<Rightarrow> u64 \<Rightarrow> buddy_allocator \<Rightarrow> (int \<times> buddy_allocator) option" where
  "fill_bins start sz ba =
     (let b = buddy_estimate_bin ba sz; n = BLOCK_COUNT sz b; len = n * BLOCK_SIZE b in
      if sz = 0 \<or> sz < BLOCK_SIZE b then Some (VMM_OK, ba)
      else case buddy_hk_alloc start b n ba of
        (None, ba1) \<Rightarrow> Some (VMM_ENOMEM, ba1)
      | (Some a, ba1) \<Rightarrow> fill_bins (start + len) (sz - len) (buddy_bins_put a ba1))"

definition BUDDY_MAX_SUPPORTED_BIN :: nat where [simp]: "BUDDY_MAX_SUPPORTED_BIN = 32"

text \<open>The size of \<^verbatim>\<open>struct buddy_area\<close>, and \<^verbatim>\<open>1 << min_bin\<close> as an \<^verbatim>\<open>int\<close>, negative for 31.\<close>

definition sizeof_buddy_area :: u64 where [simp]: "sizeof_buddy_area = 64"

definition int_shift :: "nat \<Rightarrow> u64" where
  "int_shift b = (if b = 31 then NOT (0x7FFFFFFF) else BLOCK_SIZE b)"

definition buddy_allocator_init ::
  "u64 \<Rightarrow> u64 \<Rightarrow> u64 \<Rightarrow> u64 \<Rightarrow> nat \<Rightarrow> nat \<Rightarrow> buddy_allocator \<Rightarrow> (int \<times> buddy_allocator) option" where
  "buddy_allocator_init hk_area hk_area_size start sz mn mx ba =
     (if hk_area = 0 then Some (VMM_EFAIL, ba)
      else if mn > mx \<or> BUDDY_MAX_SUPPORTED_BIN \<le> mn \<or> BUDDY_MAX_SUPPORTED_BIN \<le> mx \<or> sz < int_shift mn \<or>
        start AND BLOCK_MASK mn \<noteq> 0 \<or> start + sz \<le> start \<or> hk_area_size < sizeof_buddy_area then Some (VMM_EINVALID, ba)
      else let cnt = hk_area_size div sizeof_buddy_area in
        fill_bins start sz \<lparr>hk_total_count = cnt, hk_free_count = cnt, mem_start = start, mem_size = sz, min_bin = mn, max_bin = mx,
          alloc_tree = RB_NULL, bins = (\<lambda>b. [])\<rparr>)"

end
