(* ===== verification/Buddy_inv.thy ===== *)
theory Buddy_inv
  imports Buddy
begin

text \<open>
  The buddy allocator neither loses nor duplicates memory. How often a byte is covered by the areas of the bins and of
  the tree is a sum over areas; cutting an area, joining two and moving to another bin keep it, so every operation is an
  equation between such sums. With the invariant that no byte is covered twice these are statements about sets of
  bytes.
\<close>

section \<open>Areas as ranges of bytes\<close>

lemma unat_block_size: "b < 64 \<Longrightarrow> unat (BLOCK_SIZE b) = 2 ^ b"
proof -
  assume b: "b < 64"
  then have "(2::nat) ^ b < 2 ^ 64" by (rule power_strict_increasing) simp
  moreover have "BLOCK_SIZE b = of_nat (2 ^ b)" by (simp add: BLOCK_SIZE_def push_bit_eq_mult)
  ultimately show ?thesis by (simp only: unat_of_nat) simp
qed

definition lo_byte :: "buddy_area \<Rightarrow> nat" where "lo_byte a = unat (area_map a)"
definition area_len :: "buddy_area \<Rightarrow> nat" where "area_len a = unat (blk_count a) * 2 ^ bin_num a"

definition inside :: "buddy_area \<Rightarrow> nat \<Rightarrow> nat" where
  "inside a x = (if lo_byte a \<le> x \<and> x < lo_byte a + area_len a then 1 else 0)"

definition covers :: "buddy_area list \<Rightarrow> nat \<Rightarrow> nat" where
  "covers as x = sum_list (map (\<lambda>a. inside a x) as)"

lemma covers_simps [simp]:
  "covers [] x = 0" "covers (a # as) x = inside a x + covers as x" "covers (as @ bs) x = covers as x + covers bs x"
  "covers (rev as) x = covers as x"
  by (simp_all add: covers_def rev_map [symmetric])

text \<open>
  An area between two bounds, of a bin that exists, not empty, and aligned to its blocks as far as the lower bound is.
\<close>

definition aligned_as :: "nat \<Rightarrow> buddy_area \<Rightarrow> bool" where
  "aligned_as lo a \<longleftrightarrow> (\<forall>j \<le> bin_num a. 2 ^ j dvd lo \<longrightarrow> 2 ^ j dvd lo_byte a)"

definition area_ok :: "nat \<Rightarrow> nat \<Rightarrow> nat \<Rightarrow> buddy_area \<Rightarrow> bool" where
  "area_ok lo hi m a \<longleftrightarrow> m \<le> bin_num a \<and> bin_num a < 32 \<and> 0 < unat (blk_count a) \<and> aligned_as lo a \<and>
     lo \<le> lo_byte a \<and> lo_byte a + area_len a \<le> hi"

lemma area_bounds:
  assumes "area_ok lo hi m a" "hi < 2 ^ 64"
  shows "unat (AREA_SIZE a) = area_len a" "unat (AREA_START a) = lo_byte a" "unat (AREA_END a) = lo_byte a + area_len a" "0 < area_len a"
proof -
  have b: "unat (BLOCK_SIZE (bin_num a)) = 2 ^ bin_num a" using assms(1) by (simp add: area_ok_def unat_block_size)
  have l: "lo_byte a + area_len a < 2 ^ 64" using assms by (simp add: area_ok_def)
  then show s: "unat (AREA_SIZE a) = area_len a" unfolding AREA_SIZE_def area_len_def by (subst unat_mult_small) (simp_all add: b area_len_def)
  show "unat (AREA_START a) = lo_byte a" by (simp add: AREA_START_def lo_byte_def)
  show "unat (AREA_END a) = lo_byte a + area_len a"
    unfolding AREA_END_def using l s by (subst unat_add_small) (simp_all add: lo_byte_def)
  show "0 < area_len a" using assms(1) by (simp add: area_ok_def area_len_def)
qed

text \<open>Joining: the second area starts where the first ends.\<close>

lemma join_areas:
  assumes ok: "area_ok lo hi m a" "area_ok lo hi m b" "hi < 2 ^ 64" and bin: "bin_num b = bin_num a" and adj: "AREA_END a = AREA_START b"
    and c: "area_map c = area_map a" "blk_count c = blk_count a + blk_count b" "bin_num c = bin_num a"
  shows "area_ok lo hi m c" "inside c x = inside a x + inside b x"
proof -
  have e: "lo_byte a + area_len a = lo_byte b"
    using adj area_bounds [OF ok(1,3)] area_bounds [OF ok(2,3)] by metis
  have h: "lo_byte b + area_len b \<le> hi" using ok(2) by (simp add: area_ok_def)
  have len: "area_len a + area_len b = (unat (blk_count a) + unat (blk_count b)) * 2 ^ bin_num a"
    by (simp add: area_len_def bin distrib_right)
  then have "unat (blk_count a) + unat (blk_count b) \<le> area_len a + area_len b" by simp
  then have "unat (blk_count a) + unat (blk_count b) < 2 ^ 64" using e h ok(3) by linarith
  then have cnt: "unat (blk_count c) = unat (blk_count a) + unat (blk_count b)" unfolding c(2) by (rule unat_add_small)
  then have lc: "area_len c = area_len a + area_len b" unfolding len by (simp add: area_len_def c(3))
  have ll: "lo_byte c = lo_byte a" by (simp add: lo_byte_def c(1))
  show "area_ok lo hi m c" using ok(1) e h lc ll cnt c(3) by (simp add: area_ok_def aligned_as_def)
  show "inside c x = inside a x + inside b x" unfolding inside_def lc ll using e by auto
qed

text \<open>Cutting off the first \<open>k\<close> blocks.\<close>

definition first_part :: "u64 \<Rightarrow> buddy_area \<Rightarrow> buddy_area" where
  "first_part k a = a\<lparr>blk_count := k\<rparr>"

definition rest_part :: "u64 \<Rightarrow> buddy_area \<Rightarrow> buddy_area" where
  "rest_part k a = a\<lparr>area_map := area_map a + k * BLOCK_SIZE (bin_num a), blk_count := blk_count a - k\<rparr>"

lemma cut_area:
  assumes ok: "area_ok lo hi m a" "hi < 2 ^ 64" and k: "0 < unat k" "k \<le> blk_count a"
  shows "area_ok lo hi m (first_part k a)" "k < blk_count a \<Longrightarrow> area_ok lo hi m (rest_part k a)"
    "inside a x = inside (first_part k a) x + inside (rest_part k a) x"
    "lo_byte (rest_part k a) = lo_byte a + unat k * 2 ^ bin_num a" "area_len (rest_part k a) = area_len a - unat k * 2 ^ bin_num a"
proof -
  have b: "unat (BLOCK_SIZE (bin_num a)) = 2 ^ bin_num a" "bin_num a < 32" "m \<le> bin_num a" "aligned_as lo a"
    using ok(1) by (simp_all add: area_ok_def unat_block_size)
  have kle: "unat k \<le> unat (blk_count a)" using k(2) by (simp add: word_le_nat_alt)
  then have kl: "unat k * 2 ^ bin_num a \<le> area_len a" by (simp add: area_len_def)
  have hi: "lo_byte a + area_len a \<le> hi" using ok(1) by (simp add: area_ok_def)
  have s: "unat (k * BLOCK_SIZE (bin_num a)) = unat k * 2 ^ bin_num a"
    by (subst unat_mult_small) (use kl hi ok(2) b(1) in simp_all)
  then show lr: "lo_byte (rest_part k a) = lo_byte a + unat k * 2 ^ bin_num a"
    unfolding lo_byte_def rest_part_def using kl hi ok(2) by (simp, subst unat_add_small) (simp_all add: lo_byte_def)
  have "unat (blk_count a - k) = unat (blk_count a) - unat k" using k(2) by (rule unat_sub)
  then show al: "area_len (rest_part k a) = area_len a - unat k * 2 ^ bin_num a"
    by (simp add: area_len_def rest_part_def diff_mult_distrib)
  have fp: "lo_byte (first_part k a) = lo_byte a" "area_len (first_part k a) = unat k * 2 ^ bin_num a"
    by (simp_all add: first_part_def lo_byte_def area_len_def)
  show "area_ok lo hi m (first_part k a)" using ok(1) fp kl k(1) by (simp add: area_ok_def aligned_as_def first_part_def)
  show "area_ok lo hi m (rest_part k a)" if "k < blk_count a"
  proof -
    have "0 < unat (blk_count (rest_part k a))"
      using that \<open>unat (blk_count a - k) = unat (blk_count a) - unat k\<close> by (simp add: rest_part_def word_less_nat_alt)
    moreover have "aligned_as lo (rest_part k a)"
      using b(4) lr by (simp add: aligned_as_def rest_part_def le_imp_power_dvd)
    ultimately show ?thesis using lr al kl hi ok(1) b by (simp add: area_ok_def rest_part_def)
  qed
  show "inside a x = inside (first_part k a) x + inside (rest_part k a) x"
    unfolding inside_def fp lr al using kl by auto
qed

text \<open>The same bytes as blocks of a smaller bin.\<close>

lemma rebin_area:
  assumes ok: "area_ok lo hi m a" "hi < 2 ^ 64" and c: "area_map c = area_map a" "blk_count c = blk_count a * BLOCK_SIZE j"
    "bin_num a = bin_num c + j" "m \<le> bin_num c"
  shows "area_ok lo hi m c" "inside c = inside a" "unat (blk_count c) = unat (blk_count a) * 2 ^ j" "area_len c = area_len a"
proof -
  have j: "j < 32" "bin_num a < 32" using ok(1) c(3) by (simp_all add: area_ok_def)
  have "unat (blk_count a) * 2 ^ j \<le> area_len a" unfolding area_len_def c(3) by (simp add: power_add)
  then have "unat (blk_count a) * 2 ^ j < 2 ^ 64" using ok by (simp add: area_ok_def)
  then show n: "unat (blk_count c) = unat (blk_count a) * 2 ^ j"
    unfolding c(2) using j(1) by (subst unat_mult_small) (simp_all add: unat_block_size)
  then show al: "area_len c = area_len a" by (simp add: area_len_def c(3) power_add)
  have ll: "lo_byte c = lo_byte a" by (simp add: lo_byte_def c(1))
  show "area_ok lo hi m c" using ok(1) n al ll c(3,4) by (simp add: area_ok_def aligned_as_def)
  show "inside c = inside a" by (simp add: fun_eq_iff inside_def al ll)
qed

section \<open>The bins\<close>

definition bins_ok :: "nat \<Rightarrow> nat \<Rightarrow> buddy_allocator \<Rightarrow> bool" where
  "bins_ok lo hi ba \<longleftrightarrow> min_bin ba \<le> max_bin ba \<and> max_bin ba < 32 \<and> hi < 2 ^ 64 \<and>
     (\<forall>b. \<forall>a \<in> set (bins ba b). area_ok lo hi (min_bin ba) a \<and> bin_num a = b \<and> b \<le> max_bin ba)"

definition free_cover :: "buddy_allocator \<Rightarrow> nat \<Rightarrow> nat" where
  "free_cover ba x = (\<Sum>b<32. covers (bins ba b) x)"

text \<open>What the operations on bins leave alone.\<close>

definition same_frame :: "buddy_allocator \<Rightarrow> buddy_allocator \<Rightarrow> bool" where
  "same_frame ba ba' \<longleftrightarrow> min_bin ba' = min_bin ba \<and> max_bin ba' = max_bin ba \<and> mem_start ba' = mem_start ba \<and>
     mem_size ba' = mem_size ba \<and> alloc_tree ba' = alloc_tree ba"

lemma same_frame_refl [simp]: "same_frame ba ba"
  by (simp add: same_frame_def)

lemma same_frame_trans: "same_frame a b \<Longrightarrow> same_frame b c \<Longrightarrow> same_frame a c"
  by (simp add: same_frame_def)

lemma hk_free_sel [simp]:
  "bins (buddy_hk_free k ba) = bins ba" "min_bin (buddy_hk_free k ba) = min_bin ba" "max_bin (buddy_hk_free k ba) = max_bin ba"
  "alloc_tree (buddy_hk_free k ba) = alloc_tree ba" "mem_start (buddy_hk_free k ba) = mem_start ba" "mem_size (buddy_hk_free k ba) = mem_size ba"
  by (simp_all add: buddy_hk_free_def)

lemma hk_alloc_Some:
  assumes "buddy_hk_alloc mp b n ba = (Some a, ba')"
  shows "a = \<lparr>area_map = mp, blk_count = n, bin_num = b\<rparr>" "bins ba' = bins ba" "same_frame ba ba'"
  using assms by (auto simp: buddy_hk_alloc_def same_frame_def split: if_splits)

lemma hk_alloc_None: "buddy_hk_alloc mp b n ba = (None, ba') \<Longrightarrow> ba' = ba"
  by (auto simp: buddy_hk_alloc_def split: if_splits)

lemma free_cover_cong: "bins ba' = bins ba \<Longrightarrow> free_cover ba' = free_cover ba"
  by (simp add: free_cover_def fun_eq_iff)

lemma free_cover_upd:
  assumes "b < 32" "bins ba' = (bins ba)(b := l)"
  shows "free_cover ba' x + covers (bins ba b) x = free_cover ba x + covers l x"
proof -
  have "(\<Sum>c\<in>{..<32} - {b}. covers (bins ba' c) x) = (\<Sum>c\<in>{..<32} - {b}. covers (bins ba c) x)" using assms(2) by (intro sum.cong) auto
  then show ?thesis
    unfolding free_cover_def using sum.remove [of "{..<32}" b "\<lambda>c. covers (bins ba' c) x"] sum.remove [of "{..<32}" b "\<lambda>c. covers (bins ba c) x"] assms
    by simp
qed

lemma bins_ok_upd:
  assumes "bins_ok lo hi ba" "same_frame ba ba'" "bins ba' = (bins ba)(b := l)" "b \<le> max_bin ba"
    "\<And>a. a \<in> set l \<Longrightarrow> area_ok lo hi (min_bin ba) a \<and> bin_num a = b"
  shows "bins_ok lo hi ba'"
  using assms unfolding bins_ok_def same_frame_def by simp

lemma bins_ok_area:
  "bins_ok lo hi ba \<Longrightarrow> a \<in> set (bins ba b) \<Longrightarrow> area_ok lo hi (min_bin ba) a \<and> bin_num a = b"
  by (simp add: bins_ok_def)

subsection \<open>Putting an area into its bin\<close>

definition bin_areas :: "nat \<Rightarrow> nat \<Rightarrow> nat \<Rightarrow> nat \<Rightarrow> buddy_area list \<Rightarrow> bool" where
  "bin_areas lo hi m b as \<longleftrightarrow> (\<forall>a \<in> set as. area_ok lo hi m a \<and> bin_num a = b)"

lemma bin_areas_simps [simp]:
  "bin_areas lo hi m b []" "bin_areas lo hi m b (a # as) \<longleftrightarrow> area_ok lo hi m a \<and> bin_num a = b \<and> bin_areas lo hi m b as"
  "bin_areas lo hi m b (as @ bs) \<longleftrightarrow> bin_areas lo hi m b as \<and> bin_areas lo hi m b bs" "bin_areas lo hi m b (rev as) = bin_areas lo hi m b as"
  by (auto simp: bin_areas_def)

lemma grow_join:
  assumes "area_ok lo hi m a" "area_ok lo hi m b" "hi < 2 ^ 64" "bin_num b = bin_num a" "AREA_END a = AREA_START b"
  shows "area_ok lo hi m (grow a b)" "inside (grow a b) x = inside a x + inside b x" "bin_num (grow a b) = bin_num a"
    "area_ok lo hi m ((grow b a)\<lparr>area_map := area_map a\<rparr>)" "inside ((grow b a)\<lparr>area_map := area_map a\<rparr>) x = inside a x + inside b x"
    "bin_num ((grow b a)\<lparr>area_map := area_map a\<rparr>) = bin_num a"
  using join_areas [OF assms(1-5), of "grow a b"] join_areas [OF assms(1-5), of "(grow b a)\<lparr>area_map := area_map a\<rparr>"] assms(4)
  by (simp_all add: grow_def add.commute)

lemma bin_place_spec:
  assumes hi: "hi < 2 ^ 64"
  shows "bin_place a pre bs = (p, q, r, k) \<Longrightarrow> area_ok lo hi m a \<Longrightarrow> bin_num a = b \<Longrightarrow> bin_areas lo hi m b pre \<Longrightarrow> bin_areas lo hi m b bs \<Longrightarrow>
    bin_areas lo hi m b (p @ q # r) \<and> covers (p @ q # r) x = inside a x + covers pre x + covers bs x"
proof (induction a pre bs arbitrary: p q r k rule: bin_place.induct)
  case (1 a pre)
  then show ?case by auto
next
  case (2 a pre c bs)
  have ok: "area_ok lo hi m a" "bin_num a = b" "area_ok lo hi m c" "bin_num c = b" "bin_areas lo hi m b bs" "bin_areas lo hi m b pre"
    using 2(3-6) by simp_all
  consider (left) "AREA_END a = AREA_START c" | (right) "AREA_END a \<noteq> AREA_START c" "AREA_END c = AREA_START a"
    | (between) "AREA_END a \<noteq> AREA_START c" "AREA_END c \<noteq> AREA_START a" "AREA_END a < AREA_START c"
    | (later) "AREA_END a \<noteq> AREA_START c" "AREA_END c \<noteq> AREA_START a" "\<not> AREA_END a < AREA_START c" by blast
  then show ?case
  proof cases
    case left
    note g = grow_join(4-6) [OF ok(1,3) hi _ left]
    show ?thesis
    proof (cases pre)
      case Nil
      then show ?thesis using 2(2) left g ok by auto
    next
      case (Cons d ds)
      then have d: "area_ok lo hi m d" "bin_num d = b" "bin_areas lo hi m b ds" using ok(6) by simp_all
      let ?c = "(grow c a)\<lparr>area_map := area_map a\<rparr>"
      show ?thesis
      proof (cases "AREA_END d = AREA_START ?c")
        case True
        then show ?thesis using 2(2) left Cons g ok d grow_join(1-3) [OF d(1) _ hi _ True] by auto
      next
        case False
        then show ?thesis using 2(2) left Cons g ok d by auto
      qed
    qed
  next
    case right
    note g = grow_join(1-3) [OF ok(3,1) hi _ right(2)]
    show ?thesis
    proof (cases bs)
      case Nil
      then show ?thesis using 2(2) right g ok by auto
    next
      case (Cons d ds)
      then have d: "area_ok lo hi m d" "bin_num d = b" "bin_areas lo hi m b ds" using ok(5) by simp_all
      show ?thesis
      proof (cases "AREA_END (grow c a) = AREA_START d")
        case True
        then show ?thesis using 2(2) right Cons g ok d grow_join(1-3) [OF _ d(1) hi _ True] by auto
      next
        case False
        then show ?thesis using 2(2) right Cons g ok d by auto
      qed
    qed
  next
    case between
    then show ?thesis using 2(2) ok by auto
  next
    case later
    then show ?thesis using 2(1) 2(2) ok by auto
  qed
qed

lemma upbin_area:
  assumes ok: "area_ok lo hi m c" and a: "area_map a = area_map c" "unat (blk_count c) = unat (blk_count a) * 2 ^ j" "bin_num a = bin_num c + j"
    "bin_num a < 32" "2 ^ bin_num a dvd lo_byte c"
  shows "area_ok lo hi m a" "inside a = inside c"
proof -
  have al: "area_len a = area_len c" by (simp add: area_len_def a(2,3) power_add)
  have ll: "lo_byte a = lo_byte c" by (simp add: lo_byte_def a(1))
  have "0 < unat (blk_count a)" using ok a(2) by (cases "unat (blk_count a)") (simp_all add: area_ok_def)
  moreover have "aligned_as lo a" using a(5) ll by (auto simp: aligned_as_def intro: dvd_trans le_imp_power_dvd)
  ultimately show "area_ok lo hi m a" using ok al ll a(3,4) by (simp add: area_ok_def)
  show "inside a = inside c" by (simp add: fun_eq_iff inside_def al ll)
qed

lemma block_mask_dvd:
  assumes "(x::u64) AND BLOCK_MASK b = 0"
  shows "2 ^ b dvd unat x"
proof -
  have "BLOCK_MASK b = mask b" by (simp add: BLOCK_MASK_def BLOCK_SIZE_def mask_eq_decr_exp push_bit_eq_mult)
  then have "take_bit b x = 0" using assms by (simp add: take_bit_eq_mask)
  then have "take_bit b (unat x) = 0" by (metis unsigned_0 unsigned_take_bit_eq)
  then show ?thesis by (simp add: take_bit_eq_0_iff)
qed

lemma pairs:
  fixes n :: u64
  shows "unat (push_bit 1 (drop_bit 1 n)) = 2 * (unat n div 2)" "unat (drop_bit 1 n) = unat n div 2"
    "push_bit 1 (drop_bit 1 n) \<le> n" "2 \<le> n \<Longrightarrow> 0 < unat n div 2"
proof -
  show d: "unat (drop_bit 1 n) = unat n div 2" by (simp only: unat_drop_bit_eq) (simp add: drop_bit_eq_div)
  have "unat n < 2 ^ 64" using unsigned_less [of n] by simp
  moreover have "2 * (unat n div 2) \<le> unat n" by simp
  ultimately have "2 * (unat n div 2) < 2 ^ 64" by linarith
  moreover have "push_bit 1 (drop_bit 1 n) = drop_bit 1 n * 2" by (simp add: push_bit_eq_mult)
  ultimately show p: "unat (push_bit 1 (drop_bit 1 n)) = 2 * (unat n div 2)"
    using unat_mult_small [of "drop_bit 1 n" 2] d by (simp add: mult.commute)
  show "push_bit 1 (drop_bit 1 n) \<le> n" unfolding word_le_nat_alt p by simp
  show "0 < unat n div 2" if "2 \<le> n" using that by (simp add: word_le_nat_alt)
qed

lemma split_first_spec:
  assumes s: "split_first b (pre, q, ba) = Some (pre2, q2, ba2)" and hi: "hi < 2 ^ 64"
    and ok: "bin_areas lo hi m b pre" "area_ok lo hi m q" "bin_num q = b"
  shows "bin_areas lo hi m b pre2" "area_ok lo hi m q2" "bin_num q2 = b" "covers pre2 x + inside q2 x = covers pre x + inside q x"
    "bins ba2 = bins ba" "same_frame ba ba2"
proof -
  have "bin_areas lo hi m b pre2 \<and> area_ok lo hi m q2 \<and> bin_num q2 = b \<and> covers pre2 x + inside q2 x = covers pre x + inside q x \<and>
    bins ba2 = bins ba \<and> same_frame ba ba2"
  proof (cases "AREA_START q AND BLOCK_MASK (b + 1) \<noteq> 0 \<and> 3 \<le> blk_count q")
    case False
    then show ?thesis using s ok by (simp add: split_first_def split: if_splits)
  next
    case True
    have n: "0 < unat (1::u64)" "1 < blk_count q" "1 \<le> blk_count q" using True by (simp_all add: word_le_nat_alt word_less_nat_alt)
    note c = cut_area [OF ok(2) hi n(1,3)]
    have f: "\<lparr>area_map = area_map q, blk_count = 1, bin_num = b\<rparr> = first_part 1 q" using ok(3) by (cases q) (simp add: first_part_def)
    have r: "q\<lparr>area_map := area_map q + BLOCK_SIZE b, blk_count := blk_count q - 1\<rparr> = rest_part 1 q" using ok(3) by (simp add: rest_part_def)
    obtain a ba1 where a: "buddy_hk_alloc (area_map q) b 1 ba = (Some a, ba1)" "pre2 = pre @ [a]" "q2 = rest_part 1 q" "ba2 = ba1"
      using s True unfolding split_first_def by (auto simp: r split: prod.splits option.splits)
    note h = hk_alloc_Some [OF a(1)]
    have "bin_num (first_part 1 q) = b" "bin_num (rest_part 1 q) = b" using ok(3) by (simp_all add: first_part_def rest_part_def)
    then show ?thesis using a h f c(1,2) c(3) [of x] n(2) ok by simp
  qed
  then show "bin_areas lo hi m b pre2" "area_ok lo hi m q2" "bin_num q2 = b" "covers pre2 x + inside q2 x = covers pre x + inside q x"
    "bins ba2 = bins ba" "same_frame ba ba2" by simp_all
qed

definition residue_cover :: "buddy_area option \<Rightarrow> nat \<Rightarrow> nat" where
  "residue_cover r x = (case r of None \<Rightarrow> 0 | Some a \<Rightarrow> inside a x)"

lemma take_pairs_spec:
  assumes s: "take_pairs b (pre, q, post, ba) = (res, l, ba2)" and hi: "hi < 2 ^ 64" and b: "Suc b < 32"
    and ok: "bin_areas lo hi m b pre" "area_ok lo hi m q" "bin_num q = b" "bin_areas lo hi m b post"
  shows "bin_areas lo hi m b l \<and> covers l x + residue_cover res x = covers pre x + inside q x + covers post x \<and>
    (\<forall>r. res = Some r \<longrightarrow> area_ok lo hi m r \<and> bin_num r = Suc b) \<and> bins ba2 = bins ba \<and> same_frame ba ba2"
proof (cases "\<exists>r ba1. AREA_START q AND BLOCK_MASK (b + 1) = 0 \<and> 2 \<le> blk_count q \<and>
    buddy_hk_alloc (area_map q) (b + 1) (drop_bit 1 (blk_count q)) ba = (Some r, ba1)")
  case False
  then have "(res, l) = (None, pre @ q # post)" "ba2 = ba"
    using s hk_alloc_None by (auto simp: take_pairs_def split: if_splits prod.splits option.splits)
  then show ?thesis using ok by (simp add: residue_cover_def)
next
  case True
  then obtain r ba1 where c: "AREA_START q AND BLOCK_MASK (b + 1) = 0" "2 \<le> blk_count q"
    "buddy_hk_alloc (area_map q) (b + 1) (drop_bit 1 (blk_count q)) ba = (Some r, ba1)" by blast
  note h = hk_alloc_Some [OF c(3)]
  let ?k = "push_bit 1 (drop_bit 1 (blk_count q))"
  have k: "0 < unat ?k" "?k \<le> blk_count q" using pairs [of "blk_count q"] c(2) by simp_all
  note cut = cut_area [OF ok(2) hi k]
  have "2 ^ (b + 1) dvd lo_byte (first_part ?k q)"
    using block_mask_dvd [OF c(1)] by (simp add: lo_byte_def AREA_START_def first_part_def)
  then have r: "area_ok lo hi m r" "inside r = inside (first_part ?k q)"
    using upbin_area [OF cut(1), of r 1] pairs [of "blk_count q"] ok(3) b h(1) by (simp_all add: first_part_def mult.commute)
  have "AREA_SIZE r = ?k * BLOCK_SIZE b" using h(1) by (simp add: AREA_SIZE_def BLOCK_SIZE_def push_bit_eq_mult)
  then have m': "q\<lparr>area_map := area_map q + AREA_SIZE r, blk_count := blk_count q - push_bit 1 (blk_count r)\<rparr> = rest_part ?k q"
    using h(1) ok(3) by (simp add: rest_part_def)
  have res: "res = Some r" "bins ba2 = bins ba" "same_frame ba ba2"
    "l = (if blk_count (rest_part ?k q) = 0 then pre @ post else pre @ rest_part ?k q # post)"
    using s c h m' by (auto simp: take_pairs_def Let_def same_frame_def split: if_splits)
  have bn: "bin_num (rest_part ?k q) = b" "bin_num r = Suc b" using ok(3) h(1) by (simp_all add: rest_part_def)
  show ?thesis
  proof (cases "blk_count (rest_part ?k q) = 0")
    case True
    then have "inside (rest_part ?k q) x = 0" by (simp add: inside_def area_len_def)
    then show ?thesis using True res r bn ok cut(3) [of x] by (simp add: residue_cover_def)
  next
    case False
    then have "blk_count q \<noteq> ?k" by (auto simp: rest_part_def)
    then have "?k < blk_count q" using k(2) by simp
    then show ?thesis using False res r bn ok cut(2) cut(3) [of x] by (simp add: residue_cover_def)
  qed
qed

lemma put_raw_spec:
  assumes s: "buddy_bins_put_raw a ba = (res, ba')" and ok: "bins_ok lo hi ba" "area_ok lo hi (min_bin ba) a" "bin_num a \<le> max_bin ba"
  shows "bins_ok lo hi ba'" "same_frame ba ba'" "free_cover ba' x + residue_cover res x = free_cover ba x + inside a x"
    "\<And>r. res = Some r \<Longrightarrow> area_ok lo hi (min_bin ba) r \<and> bin_num r \<le> max_bin ba"
proof -
  let ?b = "bin_num a" and ?m = "min_bin ba"
  have hi: "hi < 2 ^ 64" and bb: "?b < 32" "\<not> ?b < ?m" using ok by (simp_all add: bins_ok_def area_ok_def)
  have old: "bin_areas lo hi ?m ?b (bins ba ?b)" using bins_ok_area [OF ok(1)] by (simp add: bin_areas_def)
  obtain pre q post k where pl: "bin_place a [] (bins ba ?b) = (pre, q, post, k)" by (metis prod_cases4)
  have ps: "bin_areas lo hi ?m ?b (pre @ q # post)" "covers (pre @ q # post) x = inside a x + covers (bins ba ?b) x" for x
    using bin_place_spec [OF hi pl ok(2) refl _ old] by simp_all
  have main: "bins_ok lo hi ba' \<and> same_frame ba ba' \<and> (\<forall>x. free_cover ba' x + residue_cover res x = free_cover ba x + inside a x) \<and>
      (\<forall>r. res = Some r \<longrightarrow> area_ok lo hi ?m r \<and> bin_num r \<le> max_bin ba)"
    if b': "bins ba' = (bins ba)(?b := l)" "same_frame ba ba'" "bin_areas lo hi ?m ?b l"
      "\<And>x. covers l x + residue_cover res x = covers (pre @ q # post) x"
      "\<forall>r. res = Some r \<longrightarrow> area_ok lo hi ?m r \<and> bin_num r \<le> max_bin ba" for l
  proof (intro conjI allI)
    show "bins_ok lo hi ba'" using bins_ok_upd [OF ok(1) b'(2,1) ok(3)] b'(3) by (simp add: bin_areas_def)
    fix x
    show "free_cover ba' x + residue_cover res x = free_cover ba x + inside a x"
      using free_cover_upd [OF bb(1) b'(1), of x] b'(4) [of x] ps(2) [of x] by simp
  qed (use b' in auto)
  have "bins_ok lo hi ba' \<and> same_frame ba ba' \<and> (\<forall>x. free_cover ba' x + residue_cover res x = free_cover ba x + inside a x) \<and>
      (\<forall>r. res = Some r \<longrightarrow> area_ok lo hi ?m r \<and> bin_num r \<le> max_bin ba)"
  proof (cases "?b = max_bin ba \<or> split_first ?b (pre, q, buddy_hk_free k ba) = None")
    case True
    then have "res = None" "ba' = (buddy_hk_free k ba)\<lparr>bins := (bins ba)(?b := pre @ q # post)\<rparr>"
      using s bb ok(3) pl by (auto simp: buddy_bins_put_raw_def Let_def split: if_splits)
    then show ?thesis using main [of "pre @ q # post"] ps(1) by (simp add: same_frame_def residue_cover_def)
  next
    case False
    then obtain pre2 q2 ba2 where sf: "split_first ?b (pre, q, buddy_hk_free k ba) = Some (pre2, q2, ba2)" by auto
    have okq: "bin_areas lo hi ?m ?b pre" "area_ok lo hi ?m q" "bin_num q = ?b" "bin_areas lo hi ?m ?b post" using ps(1) by simp_all
    note sp = split_first_spec [OF sf hi okq(1-3)]
    obtain l ba3 where tp: "take_pairs ?b (pre2, q2, post, ba2) = (res, l, ba3)" "ba' = ba3\<lparr>bins := (bins ba3)(?b := l)\<rparr>"
      using s bb ok(3) pl sf False by (auto simp: buddy_bins_put_raw_def Let_def split: prod.splits)
    have b1: "Suc ?b < 32" "Suc ?b \<le> max_bin ba" using False ok by (auto simp: bins_ok_def)
    note t = take_pairs_spec [OF tp(1) hi b1(1) sp(1-3) okq(4)]
    show ?thesis
    proof (rule main [of l])
      show "bins ba' = (bins ba)(?b := l)" "same_frame ba ba'" using tp(2) t sp(5,6) by (simp_all add: same_frame_def)
      show "covers l x + residue_cover res x = covers (pre @ q # post) x" for x using t [of x] sp(4) [of x] by simp
    qed (use t b1 in auto)
  qed
  then show "bins_ok lo hi ba'" "same_frame ba ba'" "free_cover ba' x + residue_cover res x = free_cover ba x + inside a x"
    "\<And>r. res = Some r \<Longrightarrow> area_ok lo hi (min_bin ba) r \<and> bin_num r \<le> max_bin ba" by auto
qed

text \<open>Putting an area back adds exactly its bytes to the free ones.\<close>

lemma bins_put_spec:
  "bins_ok lo hi ba \<Longrightarrow> area_ok lo hi (min_bin ba) a \<Longrightarrow> bin_num a \<le> max_bin ba \<Longrightarrow>
    bins_ok lo hi (buddy_bins_put a ba) \<and> same_frame ba (buddy_bins_put a ba) \<and>
    free_cover (buddy_bins_put a ba) x = free_cover ba x + inside a x"
proof (induction a ba rule: buddy_bins_put.induct)
  case (1 a ba)
  obtain res ba' where r: "buddy_bins_put_raw a ba = (res, ba')" by fastforce
  note s = put_raw_spec [OF r 1(2-4)]
  show ?case
  proof (cases res)
    case None
    then have "buddy_bins_put a ba = ba'" using r by (simp add: buddy_bins_put.simps)
    then show ?thesis using s None by (simp add: residue_cover_def)
  next
    case (Some c)
    then have e: "buddy_bins_put a ba = buddy_bins_put c ba'" using r by (simp add: buddy_bins_put.simps [of a ba])
    have f: "min_bin ba' = min_bin ba" "max_bin ba' = max_bin ba" using s(2) by (simp_all add: same_frame_def)
    have "bins_ok lo hi (buddy_bins_put c ba') \<and> same_frame ba' (buddy_bins_put c ba') \<and>
        free_cover (buddy_bins_put c ba') x = free_cover ba' x + inside c x"
      using 1(1) [OF r [symmetric] Some] s(1) s(4) [OF Some] f by simp
    then show ?thesis using e s(3) [of x] Some same_frame_trans [OF s(2)] by (simp add: residue_cover_def)
  qed
qed

subsection \<open>Taking blocks\<close>

lemma bin_take_spec:
  assumes hi: "hi < 2 ^ 64" and n: "0 < unat n"
  shows "bin_take b n as = Some (a, l, k) \<Longrightarrow> bin_areas lo hi m b as \<Longrightarrow>
    bin_areas lo hi m b l \<and> area_ok lo hi m \<lparr>area_map = area_map a, blk_count = n, bin_num = b\<rparr> \<and>
    covers l x + inside \<lparr>area_map = area_map a, blk_count = n, bin_num = b\<rparr> x = covers as x"
proof (induction as arbitrary: l)
  case (Cons c as)
  have c: "area_ok lo hi m c" "bin_num c = b" "bin_areas lo hi m b as" using Cons.prems(2) by simp_all
  show ?case
  proof (cases "n \<le> blk_count c")
    case True
    note cut = cut_area [OF c(1) hi n True]
    have f: "\<lparr>area_map = area_map c, blk_count = n, bin_num = b\<rparr> = first_part n c" using c(2) by (cases c) (simp add: first_part_def)
    have r: "c\<lparr>area_map := area_map c + n * BLOCK_SIZE b, blk_count := blk_count c - n\<rparr> = rest_part n c"
      using c(2) by (simp add: rest_part_def)
    have a: "a = c" "l = (if blk_count (rest_part n c) = 0 then as else rest_part n c # as)"
      using Cons.prems(1) True by (auto simp: r Let_def rest_part_def)
    have bn: "bin_num (rest_part n c) = b" using c(2) by (simp add: rest_part_def)
    show ?thesis
    proof (cases "blk_count (rest_part n c) = 0")
      case True
      then have "inside (rest_part n c) x = 0" by (simp add: inside_def area_len_def)
      then show ?thesis using a f True cut(1) cut(3) [of x] c by simp
    next
      case False
      then have "n < blk_count c" using \<open>n \<le> blk_count c\<close> by (auto simp: rest_part_def order_less_le)
      then show ?thesis using a f False cut(1,2) cut(3) [of x] c bn by simp
    qed
  next
    case False
    then obtain l' where "bin_take b n as = Some (a, l', k)" "l = c # l'" using Cons.prems(1) by auto
    then show ?thesis using Cons.IH [of l'] c by auto
  qed
qed simp

end
