(* ===== verification/Buddy_prop.thy ===== *)
theory Buddy_prop
  imports Buddy_inv
begin

text \<open>
  The allocator's operations: the invariant, and for every operation which bytes become allocated and which become free.
\<close>

section \<open>Getting blocks from the bins\<close>

lemma half_enough:
  fixes n c r :: u64
  assumes "drop_bit 1 (n + 1) \<le> c" "unat r = unat c * 2" "drop_bit 1 (n + 1) \<noteq> 0"
  shows "n \<le> r"
proof -
  have "n + 1 \<noteq> 0" using assms(3) by auto
  then have s: "unat (n + 1) = Suc (unat n)" using unat_Suc_bounded [of n "- 1"] by (metis add.commute unatSuc)
  have "unat (n + 1) div 2 \<le> unat c" using assms(1) pairs(2) [of "n + 1"] by (simp only: word_le_nat_alt)
  then show ?thesis unfolding word_le_nat_alt assms(2) s by linarith
qed

lemma bins_get_spec:
  "buddy_bins_get b n ba = (res, ba') \<Longrightarrow> bins_ok lo hi ba \<Longrightarrow>
    (res = None \<longrightarrow> ba' = ba) \<and>
    (\<forall>r. res = Some r \<longrightarrow> bins_ok lo hi ba' \<and> same_frame ba ba' \<and> area_ok lo hi (min_bin ba) r \<and> bin_num r = b \<and> n \<le> blk_count r \<and>
       b \<le> max_bin ba \<and> (\<forall>x. free_cover ba x = free_cover ba' x + inside r x))"
proof (induction b n ba arbitrary: res ba' rule: buddy_bins_get.induct)
  case (1 b n ba)
  let ?m = "min_bin ba"
  note ok = 1(3) and get = 1(2) [unfolded buddy_bins_get.simps [of b n ba]]
  have hi: "hi < 2 ^ 64" using ok by (simp add: bins_ok_def)
  show ?case
  proof (cases "n = 0 \<or> b < min_bin ba \<or> max_bin ba < b")
    case True
    then show ?thesis using get by auto
  next
    case ran: False
    then have n: "0 < unat n" and b: "b \<le> max_bin ba" "?m \<le> b" by (simp_all add: unat_gt_0)
    have b32: "b < 32" using b ok by (simp add: bins_ok_def)
    have old: "bin_areas lo hi ?m b (bins ba b)" using bins_ok_area [OF ok] by (simp add: bin_areas_def)
    show ?thesis
    proof (cases "bin_take b n (bins ba b)")
      case (Some tk)
      obtain a l k where tk: "bin_take b n (bins ba b) = Some (a, l, k)" using Some by (cases tk) auto
      let ?r = "\<lparr>area_map = area_map a, blk_count = n, bin_num = b\<rparr>"
      note bt = bin_take_spec [OF hi n tk old]
      show ?thesis
      proof (cases "buddy_hk_alloc (area_map a) b n ba")
        case (Pair r ba1)
        show ?thesis
        proof (cases r)
          case None
          then show ?thesis using get ran tk Pair hk_alloc_None by auto
        next
          case r: (Some r')
          note h = hk_alloc_Some [OF Pair [unfolded r]]
          have res: "res = Some ?r" "ba' = buddy_hk_free k (ba1\<lparr>bins := (bins ba1)(b := l)\<rparr>)"
            using get ran tk Pair r h(1) by auto
          have fr: "same_frame ba ba'" "bins ba' = (bins ba)(b := l)" using res(2) h by (simp_all add: same_frame_def)
          have "bins_ok lo hi ba'" using bins_ok_upd [OF ok fr b(1)] bt by (simp add: bin_areas_def)
          moreover have "free_cover ba x = free_cover ba' x + inside ?r x" for x
            using free_cover_upd [OF b32 fr(2), of x] bt [of x] by simp
          ultimately show ?thesis using res(1) fr bt b by simp
        qed
      qed
    next
      case None
      obtain r0 ba1 where g: "buddy_bins_get (Suc b) (drop_bit 1 (n + 1)) ba = (r0, ba1)" by fastforce
      note ih = 1(1) [OF ran None g ok]
      show ?thesis
      proof (cases r0)
        case None
        then show ?thesis using get ran \<open>bin_take b n (bins ba b) = None\<close> g ih by auto
      next
        case (Some r)
        have r: "bins_ok lo hi ba1" "same_frame ba ba1" "area_ok lo hi ?m r" "bin_num r = Suc b" "drop_bit 1 (n + 1) \<le> blk_count r"
          "free_cover ba x = free_cover ba1 x + inside r x" for x using ih Some by simp_all
        let ?r1 = "r\<lparr>bin_num := bin_num r - 1, blk_count := blk_count r * 2\<rparr>"
        have B1: "BLOCK_SIZE (Suc 0) = 2" by (simp add: BLOCK_SIZE_def push_bit_eq_mult)
        note rb = rebin_area [OF r(3) hi, of ?r1 1]
        have r1: "area_ok lo hi ?m ?r1" "inside ?r1 = inside r" "unat (blk_count ?r1) = unat (blk_count r) * 2" "bin_num ?r1 = b"
          using rb r(4) b(2) by (simp_all add: B1)
        have nn: "n \<le> blk_count ?r1" by (rule half_enough [OF r(5) r1(3)]) (use g Some in \<open>auto simp: buddy_bins_get.simps\<close>)
        show ?thesis
        proof (cases "blk_count ?r1 = n")
          case True
          then have "res = Some ?r1" "ba' = ba1" using get ran None g Some by (auto simp: Let_def)
          then show ?thesis using r r1 nn b by simp
        next
          case False
          then have lt: "n < blk_count ?r1" using nn by simp
          note cut = cut_area [OF r1(1) hi n nn]
          obtain t0 ba2 where h0: "buddy_hk_alloc (area_map ?r1 + n * BLOCK_SIZE b) b (blk_count ?r1 - n) ba1 = (t0, ba2)" by fastforce
          show ?thesis
          proof (cases t0)
            case t: None
            then have "res = Some ?r1" "ba' = ba1" using get ran None g Some False h0 hk_alloc_None by (auto simp: Let_def)
            then show ?thesis using r r1 nn b by simp
          next
            case t: (Some t1)
            note h = hk_alloc_Some [OF h0 [unfolded t]]
            have t1: "t1 = rest_part n ?r1" using h(1) r1(4) by (cases r) (simp add: rest_part_def)
            have res: "res = Some (first_part n ?r1)" "ba' = buddy_bins_put t1 ba2"
              using get ran None g Some False h0 t by (auto simp: Let_def first_part_def)
            have mm: "min_bin ba2 = ?m" "max_bin ba2 = max_bin ba" using h(3) r(2) by (simp_all add: same_frame_def)
            have ok2: "bins_ok lo hi ba2" using r(1) h(2,3) by (simp add: bins_ok_def same_frame_def)
            have "bin_num t1 \<le> max_bin ba2" using t1 r1(4) b(1) mm by (simp add: rest_part_def)
            then have pu: "bins_ok lo hi ba' \<and> same_frame ba2 ba' \<and> free_cover ba' x = free_cover ba2 x + inside t1 x" for x
              using bins_put_spec [OF ok2, of t1 x] cut(2) [OF lt] t1 mm res(2) by simp
            have "free_cover ba x = free_cover ba' x + inside (first_part n ?r1) x" for x
              using pu [of x] r(6) [of x] r1(2) cut(3) [of x] t1 free_cover_cong [OF h(2)] by simp
            moreover have "bin_num (first_part n ?r1) = b" "n \<le> blk_count (first_part n ?r1)" using r1(4) by (simp_all add: first_part_def)
            ultimately show ?thesis using res(1) pu cut(1) b same_frame_trans [OF r(2) same_frame_trans [OF h(3)]] by simp
          qed
        qed
      qed
    qed
  qed
qed

section \<open>The invariant\<close>

definition mem_lo :: "buddy_allocator \<Rightarrow> nat" where "mem_lo ba = unat (mem_start ba)"
definition mem_hi :: "buddy_allocator \<Rightarrow> nat" where "mem_hi ba = unat (mem_start ba) + unat (mem_size ba)"

definition alloc_cover :: "buddy_allocator \<Rightarrow> nat \<Rightarrow> nat" where
  "alloc_cover ba x = covers (elems (alloc_tree ba)) x"

definition areas_ok :: "nat \<Rightarrow> nat \<Rightarrow> buddy_allocator \<Rightarrow> bool" where
  "areas_ok lo hi ba \<longleftrightarrow> rb_root_ok (alloc_tree ba) \<and> rb.ranges AREA_START AREA_END (alloc_tree ba) \<and>
     (\<forall>a \<in> set (elems (alloc_tree ba)). area_ok lo hi (min_bin ba) a \<and> bin_num a \<le> max_bin ba)"

definition buddy_wf :: "buddy_allocator \<Rightarrow> bool" where
  "buddy_wf ba \<longleftrightarrow> bins_ok (mem_lo ba) (mem_hi ba) ba \<and> areas_ok (mem_lo ba) (mem_hi ba) ba \<and> 2 ^ min_bin ba dvd mem_lo ba \<and>
     (\<forall>x. free_cover ba x + alloc_cover ba x \<le> 1)"

lemma frame_bounds: "same_frame ba ba' \<Longrightarrow> mem_lo ba' = mem_lo ba \<and> mem_hi ba' = mem_hi ba"
  by (simp add: same_frame_def mem_lo_def mem_hi_def)

lemma covers_distinct: "distinct as \<Longrightarrow> covers as x = (\<Sum>a\<in>set as. inside a x)"
  by (simp add: covers_def sum_list_distinct_conv_sum_set)

lemma inside_covers: "a \<in> set as \<Longrightarrow> inside a x \<le> covers as x"
  by (induction as) auto

subsection \<open>The tree of allocated areas\<close>

lemma alloc_add_spec:
  assumes ok: "areas_ok lo hi ba" "hi < 2 ^ 64" and a: "area_ok lo hi (min_bin ba) a" "bin_num a \<le> max_bin ba"
    and free: "\<And>x. alloc_cover ba x + inside a x \<le> 1"
  obtains ba' where "buddy_alloc_add a ba = Some ba'" "areas_ok lo hi ba'" "bins ba' = bins ba" "min_bin ba' = min_bin ba" "max_bin ba' = max_bin ba"
    "mem_start ba' = mem_start ba" "mem_size ba' = mem_size ba" "set (elems (alloc_tree ba')) = insert a (set (elems (alloc_tree ba)))"
    "\<And>x. alloc_cover ba' x = alloc_cover ba x + inside a x"
proof -
  let ?t = "alloc_tree ba"
  have t: "rb_root_ok ?t" "rb.ranges AREA_START AREA_END ?t" using ok(1) by (simp_all add: areas_ok_def)
  note ab = area_bounds [OF a(1) ok(2)]
  have "lo_byte a \<le> lo_byte a \<and> lo_byte a < lo_byte a + area_len a" using ab(4) by simp
  then have in_a: "inside a (lo_byte a) = 1" by (simp add: inside_def)
  have ne: "a \<notin> set (elems ?t)" using inside_covers [of a "elems ?t" "lo_byte a"] free [of "lo_byte a"] in_a by (auto simp: alloc_cover_def)
  have dis: "\<forall>y \<in> set (elems ?t). AREA_END a \<le> AREA_START y \<or> AREA_END y \<le> AREA_START a"
  proof
    fix y assume y: "y \<in> set (elems ?t)"
    then have yb: "area_ok lo hi (min_bin ba) y" using ok(1) by (simp add: areas_ok_def)
    note yb = area_bounds [OF yb ok(2)]
    have "\<not> (inside y x = 1 \<and> inside a x = 1)" for x using inside_covers [OF y, of x] free [of x] by (auto simp: alloc_cover_def)
    from this [of "max (lo_byte a) (lo_byte y)"] show "AREA_END a \<le> AREA_START y \<or> AREA_END y \<le> AREA_START a"
      unfolding word_le_nat_alt ab yb inside_def using ab(4) yb(4) by (auto split: if_splits simp: max_def)
  qed
  have "AREA_START a < AREA_END a" unfolding word_less_nat_alt ab using ab(4) by simp
  then obtain t' where t': "rb_insert_by (area_add_cmp a) a ?t = Some (Inr t')" "rb_root_ok t'" "rb.ranges AREA_START AREA_END t'"
    "set (elems t') = insert a (set (elems ?t))"
    using rb.ins_range [OF t _ dis] by (auto simp: area_add_cmp_def [abs_def])
  have "covers (elems t') x = covers (elems ?t) x + inside a x" for x
    unfolding covers_distinct [OF rb.ranges_distinct [OF t'(3)]] covers_distinct [OF rb.ranges_distinct [OF t(2)]] t'(4) using ne by simp
  then show ?thesis
    using that [of "ba\<lparr>alloc_tree := t'\<rparr>"] t' ok(1) a by (auto simp: buddy_alloc_add_def areas_ok_def alloc_cover_def)
qed

lemma alloc_del_spec:
  assumes ok: "areas_ok lo hi ba" and a: "a \<in> set (elems (alloc_tree ba))"
  obtains ba' where "buddy_alloc_del a ba = Some ba'" "areas_ok lo hi ba'" "bins ba' = bins ba" "min_bin ba' = min_bin ba" "max_bin ba' = max_bin ba"
    "mem_start ba' = mem_start ba" "mem_size ba' = mem_size ba" "set (elems (alloc_tree ba')) = set (elems (alloc_tree ba)) - {a}"
    "\<And>x. alloc_cover ba x = alloc_cover ba' x + inside a x"
proof -
  let ?t = "alloc_tree ba"
  have t: "rb_root_ok ?t" "rb.ranges AREA_START AREA_END ?t" using ok by (simp_all add: areas_ok_def)
  note dist = rb.ranges_distinct [OF t(2)]
  obtain t' where t': "rb_remove a ?t = Some t'" "rb_root_ok t'" "elems t' = remove1 a (elems ?t)" using rb.del_in [OF t(1) dist a] by blast
  have s: "set (elems t') = set (elems ?t) - {a}" using t'(3) dist by simp
  have r: "rb.ranges AREA_START AREA_END t'" using rb.ranges_remove1 [OF t(2) t'(3)] .
  have "covers (elems ?t) x = covers (elems t') x + inside a x" for x
    unfolding covers_distinct [OF dist] covers_distinct [OF rb.ranges_distinct [OF r]] s using a by (simp add: sum.remove)
  then show ?thesis
    using that [of "ba\<lparr>alloc_tree := t'\<rparr>"] t' r s ok by (auto simp: buddy_alloc_del_def areas_ok_def alloc_cover_def)
qed

lemma alloc_find_spec:
  assumes ok: "areas_ok lo hi ba" and hi: "hi < 2 ^ 64"
  shows "case buddy_alloc_find ba addr of
      None \<Rightarrow> alloc_cover ba (unat addr) = 0
    | Some a \<Rightarrow> a \<in> set (elems (alloc_tree ba)) \<and> inside a (unat addr) = 1"
proof -
  let ?t = "alloc_tree ba"
  have t: "rb_root_ok ?t" "rb.ranges AREA_START AREA_END ?t" using ok by (simp_all add: areas_ok_def)
  have ins: "inside y (unat addr) = 1 \<longleftrightarrow> \<not> (addr < AREA_START y \<or> AREA_END y \<le> addr)" if "y \<in> set (elems ?t)" for y
  proof -
    have "area_ok lo hi (min_bin ba) y" using ok that by (simp add: areas_ok_def)
    note yb = area_bounds [OF this hi]
    show ?thesis unfolding word_less_nat_alt word_le_nat_alt yb inside_def by auto
  qed
  note sp = rb.search_point [OF t, of addr]
  show ?thesis
  proof (cases "buddy_alloc_find ba addr")
    case None
    then have "\<forall>y \<in> set (elems ?t). addr < AREA_START y \<or> AREA_END y \<le> addr"
      using sp by (simp add: buddy_alloc_find_def area_find_cmp_def [abs_def])
    then have "inside y (unat addr) = 0" if "y \<in> set (elems ?t)" for y using ins [OF that] that by (auto simp: inside_def split: if_splits)
    then show ?thesis using None by (simp add: alloc_cover_def covers_distinct [OF rb.ranges_distinct [OF t(2)]])
  next
    case (Some a)
    then have "a \<in> set (elems ?t)" "\<not> (addr < AREA_START a \<or> AREA_END a \<le> addr)"
      using sp by (auto simp: buddy_alloc_find_def area_find_cmp_def [abs_def])
    then show ?thesis using Some ins by simp
  qed
qed

section \<open>Allocation\<close>

lemma blocks_for_spec:
  assumes "b < 64"
  shows "unat sz \<le> unat (blocks_for sz b) * 2 ^ b" "unat (blocks_for sz b) * 2 ^ b < unat sz + 2 ^ b" "sz \<noteq> 0 \<Longrightarrow> 0 < unat (blocks_for sz b)"
proof -
  let ?n = "BLOCK_COUNT sz b"
  have n: "unat ?n = unat sz div 2 ^ b" by (simp only: BLOCK_COUNT_def unat_drop_bit_eq) (simp add: drop_bit_eq_div)
  have le: "unat sz div 2 ^ b * 2 ^ b \<le> unat sz" by simp
  have "unat sz < 2 ^ 64" using unsigned_less [of sz] by simp
  with le have "unat sz div 2 ^ b * 2 ^ b < 2 ^ 64" by (rule le_less_trans)
  then have s: "unat (?n * BLOCK_SIZE b) = unat sz div 2 ^ b * 2 ^ b"
    by (subst unat_mult_small) (simp_all add: n unat_block_size assms)
  have md: "unat sz = unat sz div 2 ^ b * 2 ^ b + unat sz mod 2 ^ b" "unat sz mod 2 ^ b < 2 ^ b" by (simp_all only: div_mult_mod_eq) simp
  have v: "unat (blocks_for sz b) * 2 ^ b = (if unat sz mod 2 ^ b = 0 then unat sz else unat sz - unat sz mod 2 ^ b + 2 ^ b)"
  proof (cases "unat sz mod 2 ^ b = 0")
    case True
    then have "\<not> ?n * BLOCK_SIZE b < sz" unfolding word_less_nat_alt s using md by linarith
    then show ?thesis using True md n by (simp add: blocks_for_def)
  next
    case False
    then have lt: "?n * BLOCK_SIZE b < sz" unfolding word_less_nat_alt s using md by linarith
    have "unat sz div 2 ^ b \<le> unat sz" by (rule div_le_dividend)
    moreover have "b \<noteq> 0" using False by (cases b) auto
    then have "(1::nat) < 2 ^ b" by (intro one_less_power) simp_all
    then have "unat sz div 2 ^ b < unat sz" using False by (intro div_less_dividend) (auto intro!: gr0I)
    ultimately have "unat (?n + 1) = unat sz div 2 ^ b + 1"
      using unat_add_small [of ?n 1] n \<open>unat sz < 2 ^ 64\<close> by simp
    moreover have "blocks_for sz b = ?n + 1" using lt by (simp add: blocks_for_def Let_def)
    ultimately show ?thesis using False md(1) by (simp add: distrib_right)
  qed
  have "if unat sz mod 2 ^ b = 0 then True else unat sz \<le> unat sz - unat sz mod 2 ^ b + 2 ^ b \<and> unat sz - unat sz mod 2 ^ b + 2 ^ b < unat sz + 2 ^ b"
    using md(2) mod_less_eq_dividend [of "unat sz" "2 ^ b"] unfolding if_bool_eq_conj by (intro conjI impI TrueI; linarith)
  then show g: "unat sz \<le> unat (blocks_for sz b) * 2 ^ b" and "unat (blocks_for sz b) * 2 ^ b < unat sz + 2 ^ b"
    unfolding v by (simp_all split: if_splits)
  show "0 < unat (blocks_for sz b)" if "sz \<noteq> 0" using g that by (cases "unat (blocks_for sz b)") (auto simp: unat_eq_0)
qed

lemma trim_spec:
  assumes ok: "bins_ok lo hi ba" "area_ok lo hi (min_bin ba) a" "bin_num a \<le> max_bin ba" and n: "0 < unat n"
    and t: "trim_area n a ba = (a', ba')"
  shows "bins_ok lo hi ba'" "same_frame ba ba'" "area_ok lo hi (min_bin ba) a'" "bin_num a' = bin_num a" "area_map a' = area_map a"
    "free_cover ba x + inside a x = free_cover ba' x + inside a' x" "a' = a \<or> blk_count a' = n \<and> n < blk_count a"
proof -
  have hi: "hi < 2 ^ 64" using ok(1) by (simp add: bins_ok_def)
  let ?P = "bins_ok lo hi ba' \<and> same_frame ba ba' \<and> area_ok lo hi (min_bin ba) a' \<and> bin_num a' = bin_num a \<and> area_map a' = area_map a \<and>
    free_cover ba x + inside a x = free_cover ba' x + inside a' x \<and> (a' = a \<or> blk_count a' = n \<and> n < blk_count a)"
  have ?P
  proof (cases "n < blk_count a")
    case False
    then show ?thesis using t ok by (simp add: trim_area_def)
  next
    case lt: True
    obtain r ba1 where h0: "buddy_hk_alloc (AREA_START a + n * BLOCK_SIZE (bin_num a)) (bin_num a) (blk_count a - n) ba = (r, ba1)" by fastforce
    show ?thesis
    proof (cases r)
      case None
      then have "ba1 = ba" using hk_alloc_None h0 by blast
      then show ?thesis using t lt h0 ok None by (simp add: trim_area_def)
    next
      case (Some c)
      note h = hk_alloc_Some [OF h0 [unfolded Some]]
      note cut = cut_area [OF ok(2) hi n less_imp_le [OF lt]]
      have c: "c = rest_part n a" using h(1) by (cases a) (simp add: rest_part_def AREA_START_def)
      have r: "a' = first_part n a" "ba' = buddy_bins_put c ba1" using t lt h0 Some by (simp_all add: trim_area_def first_part_def)
      have mm: "min_bin ba1 = min_bin ba" "max_bin ba1 = max_bin ba" using h(3) by (simp_all add: same_frame_def)
      have "bins_ok lo hi ba1" using ok(1) h(2) mm by (simp add: bins_ok_def)
      moreover have "bin_num c = bin_num a" using c by (simp add: rest_part_def)
      ultimately have pu: "bins_ok lo hi ba' \<and> same_frame ba1 ba' \<and> free_cover ba' x = free_cover ba1 x + inside c x"
        using bins_put_spec [of lo hi ba1 c x] cut(2) [OF lt] c mm ok(3) r(2) by simp
      have "free_cover ba1 x = free_cover ba x" using free_cover_cong [OF h(2)] by simp
      moreover have "blk_count (first_part n a) = n" "bin_num (first_part n a) = bin_num a" "area_map (first_part n a) = area_map a"
        by (simp_all add: first_part_def)
      ultimately show ?thesis using pu r cut(1) cut(3) [of x] c lt same_frame_trans [OF h(3)] by simp
    qed
  qed
  then show "bins_ok lo hi ba'" "same_frame ba ba'" "area_ok lo hi (min_bin ba) a'" "bin_num a' = bin_num a" "area_map a' = area_map a"
    "free_cover ba x + inside a x = free_cover ba' x + inside a' x" "a' = a \<or> blk_count a' = n \<and> n < blk_count a" by simp_all
qed

text \<open>
  The outcome of taking an area \<open>a\<close> out of the free memory: it becomes allocated, and a byte is free exactly when it was
  free before and is not one of its bytes.
\<close>

definition takes_area :: "buddy_area \<Rightarrow> buddy_allocator \<Rightarrow> buddy_allocator \<Rightarrow> bool" where
  "takes_area a ba ba' \<longleftrightarrow> buddy_wf ba' \<and> mem_start ba' = mem_start ba \<and> mem_size ba' = mem_size ba \<and> min_bin ba' = min_bin ba \<and>
     set (elems (alloc_tree ba')) = insert a (set (elems (alloc_tree ba))) \<and>
     (\<forall>x. free_cover ba x = free_cover ba' x + inside a x)"

lemma alloc_add_wf:
  assumes wf: "buddy_wf ba" and b: "bins_ok (mem_lo ba) (mem_hi ba) ba1" "same_frame ba ba1"
    and a: "area_ok (mem_lo ba) (mem_hi ba) (min_bin ba) a" "bin_num a \<le> max_bin ba" "\<And>x. free_cover ba1 x + inside a x \<le> free_cover ba x"
  obtains ba' where "buddy_alloc_add a ba1 = Some ba'" "buddy_wf ba'" "mem_start ba' = mem_start ba" "mem_size ba' = mem_size ba"
    "min_bin ba' = min_bin ba" "set (elems (alloc_tree ba')) = insert a (set (elems (alloc_tree ba)))" "free_cover ba' = free_cover ba1"
proof -
  let ?lo = "mem_lo ba" and ?hi = "mem_hi ba"
  have w: "areas_ok ?lo ?hi ba" "?hi < 2 ^ 64" "free_cover ba x + alloc_cover ba x \<le> 1" for x using wf by (simp_all add: buddy_wf_def bins_ok_def)
  have f: "min_bin ba1 = min_bin ba" "max_bin ba1 = max_bin ba" "alloc_tree ba1 = alloc_tree ba" "mem_start ba1 = mem_start ba" "mem_size ba1 = mem_size ba"
    using b(2) by (simp_all add: same_frame_def)
  have w1: "areas_ok ?lo ?hi ba1" "alloc_cover ba1 x = alloc_cover ba x" for x using w(1) f by (simp_all add: areas_ok_def alloc_cover_def)
  have le: "free_cover ba1 x + (alloc_cover ba1 x + inside a x) \<le> 1" for x using w(3) [of x] a(3) [of x] w1(2) [of x] by linarith
  then have "alloc_cover ba1 x + inside a x \<le> 1" for x by (meson add_leD2)
  then obtain ba' where p: "buddy_alloc_add a ba1 = Some ba'" "areas_ok ?lo ?hi ba'" "bins ba' = bins ba1" "min_bin ba' = min_bin ba1"
    "max_bin ba' = max_bin ba1" "mem_start ba' = mem_start ba1" "mem_size ba' = mem_size ba1"
    "set (elems (alloc_tree ba')) = insert a (set (elems (alloc_tree ba1)))" "\<And>x. alloc_cover ba' x = alloc_cover ba1 x + inside a x"
    using alloc_add_spec [OF w1(1) w(2), of a] a(1,2) f by metis
  have fc: "free_cover ba' = free_cover ba1" using free_cover_cong [OF p(3)] .
  have "bins_ok ?lo ?hi ba'" using b(1) p by (simp add: bins_ok_def)
  then have "buddy_wf ba'" using wf p(2,4,6,7,9) f le fc by (simp add: buddy_wf_def mem_lo_def mem_hi_def)
  then show ?thesis using that [of ba'] p f fc by simp
qed

lemma alloc_add_takes:
  assumes "buddy_wf ba" "bins_ok (mem_lo ba) (mem_hi ba) ba1" "same_frame ba ba1"
    "area_ok (mem_lo ba) (mem_hi ba) (min_bin ba) a" "bin_num a \<le> max_bin ba" "\<And>x. free_cover ba x = free_cover ba1 x + inside a x"
  obtains ba' where "buddy_alloc_add a ba1 = Some ba'" "takes_area a ba ba'"
  using alloc_add_wf [OF assms(1-5)] assms(6) unfolding takes_area_def by (metis order_refl)

lemma alloc_finish_spec:
  assumes wf: "buddy_wf ba" and b: "bins_ok (mem_lo ba) (mem_hi ba) ba1" "same_frame ba ba1"
    and a: "area_ok (mem_lo ba) (mem_hi ba) (min_bin ba) a" "bin_num a \<le> max_bin ba" "\<And>x. free_cover ba x = free_cover ba1 x + inside a x"
    and sz: "sz \<noteq> 0" "unat sz \<le> area_len a"
  obtains c ba' where "alloc_finish sz a ba1 = Some (Inr (area_map a), ba')" "takes_area c ba ba'" "area_map c = area_map a"
    "bin_num c = min_bin ba" "unat sz \<le> area_len c"
proof -
  let ?lo = "mem_lo ba" and ?hi = "mem_hi ba"
  have f: "min_bin ba1 = min_bin ba" "max_bin ba1 = max_bin ba" using b(2) by (simp_all add: same_frame_def)
  have hi: "?hi < 2 ^ 64" and mb: "min_bin ba \<le> bin_num a" "min_bin ba \<le> max_bin ba" "min_bin ba < 64"
    using b(1) a(1) f by (simp_all add: bins_ok_def area_ok_def)
  let ?a1 = "to_min_bin ba1 a" and ?n = "blocks_for sz (min_bin ba)"
  have a1: "area_ok ?lo ?hi (min_bin ba) ?a1" "inside ?a1 = inside a" "area_len ?a1 = area_len a" "area_map ?a1 = area_map a" "bin_num ?a1 = min_bin ba"
    using rebin_area [OF a(1) hi, of ?a1 "bin_num a - min_bin ba"] mb f by (simp_all add: to_min_bin_def BLOCK_SIZE_def)
  note bf = blocks_for_spec [OF mb(3), of sz]
  obtain c ba2 where t: "trim_area ?n ?a1 ba1 = (c, ba2)" by fastforce
  have "area_ok ?lo ?hi (min_bin ba1) ?a1" "bin_num ?a1 \<le> max_bin ba1" using a1 f mb by simp_all
  note tr = trim_spec [OF b(1) this bf(3) [OF sz(1)] t]
  have c: "area_ok ?lo ?hi (min_bin ba) c" "bin_num c \<le> max_bin ba" using tr(3,4) a1(5) f mb by simp_all
  have "unat sz \<le> area_len c" using tr(7) tr(4) a1(3,5) sz(2) bf(1) by (auto simp: area_len_def)
  moreover have "free_cover ba x = free_cover ba2 x + inside c x" for x using a(3) [of x] tr(6) [of x] a1(2) by simp
  then obtain ba' where "buddy_alloc_add c ba2 = Some ba'" "takes_area c ba ba'"
    using alloc_add_takes [OF wf tr(1) same_frame_trans [OF b(2) tr(2)] c] by blast
  moreover have "area_map c = area_map a" "bin_num c = min_bin ba" using tr(4,5) a1 by simp_all
  ultimately show ?thesis using that [of ba' c] t f by (simp add: alloc_finish_def)
qed

text \<open>Whatever size is asked for, the call returns, and one that cannot be served leaves the allocator as it was.\<close>

lemma estimate_bin:
  assumes "bins_ok lo hi ba"
  shows "min_bin ba \<le> buddy_estimate_bin ba sz" "buddy_estimate_bin ba sz \<le> max_bin ba" "buddy_estimate_bin ba sz < 64"
proof -
  have "min_bin ba \<le> buddy_estimate_bin ba sz \<and> buddy_estimate_bin ba sz \<le> max_bin ba"
    using assms by (auto simp: buddy_estimate_bin_def bins_ok_def find_Some_iff split: option.splits)
  then show "min_bin ba \<le> buddy_estimate_bin ba sz" "buddy_estimate_bin ba sz \<le> max_bin ba" "buddy_estimate_bin ba sz < 64"
    using assms by (auto simp: bins_ok_def)
qed

lemma enough_blocks: "n \<le> blk_count a \<Longrightarrow> unat n * 2 ^ bin_num a \<le> area_len a"
  by (simp add: area_len_def word_le_nat_alt)

lemma get_blocks:
  assumes wf: "buddy_wf ba" and g: "buddy_bins_get b (blocks_for sz b) ba = (Some a, ba1)" and b: "b < 64"
  shows "bins_ok (mem_lo ba) (mem_hi ba) ba1" "same_frame ba ba1" "area_ok (mem_lo ba) (mem_hi ba) (min_bin ba) a" "bin_num a = b" "b \<le> max_bin ba"
    "free_cover ba x = free_cover ba1 x + inside a x" "unat sz \<le> area_len a"
proof -
  have "bins_ok (mem_lo ba) (mem_hi ba) ba" using wf by (simp add: buddy_wf_def)
  note s = bins_get_spec [OF g this]
  then show "bins_ok (mem_lo ba) (mem_hi ba) ba1" "same_frame ba ba1" "area_ok (mem_lo ba) (mem_hi ba) (min_bin ba) a" "bin_num a = b" "b \<le> max_bin ba"
    "free_cover ba x = free_cover ba1 x + inside a x" by simp_all
  show "unat sz \<le> area_len a"
    using s enough_blocks [of "blocks_for sz b" a] blocks_for_spec(1) [OF b, of sz] by auto
qed

lemma alloc_cases:
  assumes "buddy_wf ba"
  obtains (refused) "buddy_mem_alloc sz ba = Some (Inl (if sz = 0 then VMM_EINVALID else VMM_ENOMEM), ba)"
  | (taken) a ba' where "buddy_mem_alloc sz ba = Some (Inr (area_map a), ba')" "takes_area a ba ba'" "bin_num a = min_bin ba" "unat sz \<le> area_len a"
proof (cases "sz = 0")
  case True
  then show ?thesis using that(1) by (simp add: buddy_mem_alloc_def)
next
  case sz: False
  have ok: "bins_ok (mem_lo ba) (mem_hi ba) ba" using assms by (simp add: buddy_wf_def)
  let ?b = "buddy_estimate_bin ba sz"
  note eb = estimate_bin [OF ok, of sz]
  obtain r ba1 where g: "buddy_bins_get ?b (blocks_for sz ?b) ba = (r, ba1)" by fastforce
  show ?thesis
  proof (cases r)
    case None
    then have "ba1 = ba" using bins_get_spec [OF g ok] by simp
    then show ?thesis using that(1) sz g None by (simp add: buddy_mem_alloc_def Let_def)
  next
    case (Some a)
    note gb = get_blocks [OF assms g [unfolded Some] eb(3)]
    obtain c ba' where "alloc_finish sz a ba1 = Some (Inr (area_map a), ba')" "takes_area c ba ba'" "area_map c = area_map a"
      "bin_num c = min_bin ba" "unat sz \<le> area_len c"
      using alloc_finish_spec [OF assms gb(1-3) _ gb(6) sz gb(7)] gb(4,5) by metis
    then show ?thesis using that(2) [of c ba'] sz g Some by (simp add: buddy_mem_alloc_def Let_def)
  qed
qed

text \<open>The aligned allocation: what remains after cutting the surplus off the area of the desired bin.\<close>

lemma aligned_alloc_eq:
  assumes "sz \<noteq> 0" "order \<le> max_bin ba" "buddy_estimate_bin ba sz < order"
    "buddy_bins_get order (blocks_for sz order) ba = (Some a, ba1)"
  defines "b \<equiv> buddy_estimate_bin ba sz"
  defines "a1 \<equiv> a\<lparr>blk_count := blk_count a * push_bit (order - b) 1, bin_num := b\<rparr>"
  obtains c ba2 where "trim_area (blocks_for sz b) a1 ba1 = (c, ba2)"
    "buddy_mem_aligned_alloc order sz ba = alloc_finish sz c ba2 \<or>
     buddy_mem_aligned_alloc order sz ba = map_option (\<lambda>ba'. (Inr (area_map c), ba')) (buddy_alloc_add c ba2)"
proof -
  obtain r ba3 where h: "buddy_hk_alloc (area_map a1 + blocks_for sz b * BLOCK_SIZE b) b (blk_count a1 - blocks_for sz b) ba1 = (r, ba3)" by fastforce
  have s: "AREA_START a1 = area_map a1" "bin_num a1 = b" by (simp_all add: AREA_START_def a1_def)
  have e: "buddy_mem_aligned_alloc order sz ba =
      (if blocks_for sz b < blk_count a1 then
         (case r of None \<Rightarrow> map_option (\<lambda>ba'. (Inr (area_map a1), ba')) (buddy_alloc_add a1 ba3)
          | Some t \<Rightarrow> alloc_finish sz (a1\<lparr>blk_count := blocks_for sz b\<rparr>) (buddy_bins_put t ba3))
       else alloc_finish sz a1 ba1)"
    using assms(1-4) h by (simp add: buddy_mem_aligned_alloc_def Let_def a1_def b_def split: option.splits)
  show ?thesis
    using that [of "fst (trim_area (blocks_for sz b) a1 ba1)" "snd (trim_area (blocks_for sz b) a1 ba1)"] e h
    by (auto simp: trim_area_def s split: option.splits)
qed

text \<open>
  The aligned allocation of a well-formed buddy allocator always returns; it fails without a change, or takes
  an area of free bytes with at least the requested size. The address is a multiple of \<open>2 ^ order\<close> if the start of the
  memory is one.\<close>
theorem buddy_aligned_alloc_takes_free:
  assumes "buddy_wf ba"
  shows "case buddy_mem_aligned_alloc order sz ba of
      None \<Rightarrow> False
    | Some (Inl err, ba') \<Rightarrow> ba' = ba \<and> err = (if sz = 0 \<or> max_bin ba < order then VMM_EINVALID else VMM_ENOMEM)
    | Some (Inr addr, ba') \<Rightarrow> (\<exists>a. takes_area a ba ba' \<and> area_map a = addr \<and> unat sz \<le> area_len a) \<and>
        (2 ^ order dvd unat (mem_start ba) \<longrightarrow> 2 ^ order dvd unat addr)"
proof (cases "sz = 0 \<or> max_bin ba < order")
  case True
  then show ?thesis by (auto simp: buddy_mem_aligned_alloc_def)
next
  case sz: False
  let ?lo = "mem_lo ba" and ?hi = "mem_hi ba" and ?b = "buddy_estimate_bin ba sz"
  have ok: "bins_ok ?lo ?hi ba" using assms by (simp add: buddy_wf_def)
  note eb = estimate_bin [OF ok, of sz]
  define g where "g = (if order \<le> ?b then ?b else order)"
  have g: "order \<le> g" "g < 64" "?b \<le> g" using eb sz ok by (auto simp: g_def bins_ok_def)
  obtain r ba1 where get: "buddy_bins_get g (blocks_for sz g) ba = (r, ba1)" by fastforce
  show ?thesis
  proof (cases r)
    case None
    then have "ba1 = ba" using bins_get_spec [OF get ok] by simp
    then show ?thesis using sz get None by (simp add: buddy_mem_aligned_alloc_def Let_def g_def split: if_splits)
  next
    case (Some a)
    note gb = get_blocks [OF assms get [unfolded Some] g(2)]
    have al: "2 ^ order dvd unat (mem_start ba) \<longrightarrow> 2 ^ order dvd unat (area_map a)"
      using gb(3,4) g(1) by (auto simp: area_ok_def aligned_as_def mem_lo_def lo_byte_def)
    have "\<exists>ba' c. buddy_mem_aligned_alloc order sz ba = Some (Inr (area_map a), ba') \<and> takes_area c ba ba' \<and> area_map c = area_map a \<and> unat sz \<le> area_len c"
    proof (cases "order \<le> ?b")
      case True
      then have "buddy_mem_aligned_alloc order sz ba = alloc_finish sz a ba1" using sz get Some by (simp add: buddy_mem_aligned_alloc_def Let_def g_def)
      then show ?thesis using alloc_finish_spec [OF assms gb(1-3) _ gb(6) _ gb(7)] gb(4,5) sz by metis
    next
      case False
      let ?a1 = "a\<lparr>blk_count := blk_count a * push_bit (order - ?b) 1, bin_num := ?b\<rparr>"
      have go: "g = order" "?b < order" using False by (simp_all add: g_def)
      obtain c ba2 where c: "trim_area (blocks_for sz ?b) ?a1 ba1 = (c, ba2)"
        "buddy_mem_aligned_alloc order sz ba = alloc_finish sz c ba2 \<or>
         buddy_mem_aligned_alloc order sz ba = map_option (\<lambda>ba'. (Inr (area_map c), ba')) (buddy_alloc_add c ba2)"
        using aligned_alloc_eq [OF _ _ go(2) get [unfolded Some go(1)]] sz by (metis not_less)
      have f: "min_bin ba1 = min_bin ba" "max_bin ba1 = max_bin ba" and hi: "?hi < 2 ^ 64"
        using gb(1,2) by (simp_all add: same_frame_def bins_ok_def)
      have a1: "area_ok ?lo ?hi (min_bin ba1) ?a1" "inside ?a1 = inside a" "area_len ?a1 = area_len a" "bin_num ?a1 \<le> max_bin ba1"
        using rebin_area [OF gb(3) hi, of ?a1 "order - ?b"] gb(4) go eb f by (simp_all add: BLOCK_SIZE_def)
      note bf = blocks_for_spec [OF eb(3), of sz]
      note tr = trim_spec [OF gb(1) a1(1,4) bf(3) c(1)]
      have "sz \<noteq> 0" using sz by simp
      note tr = tr [OF this]
      have cv: "free_cover ba x = free_cover ba2 x + inside c x" for x using gb(6) [of x] tr(6) [of x] a1(2) by simp
      have len: "unat sz \<le> area_len c" using tr(7) tr(4) a1(3) gb(7) bf(1) by (auto simp: area_len_def)
      have cok: "area_ok ?lo ?hi (min_bin ba) c" "bin_num c \<le> max_bin ba" "area_map c = area_map a" using tr(3,4,5) a1(4) f by simp_all
      note fr = same_frame_trans [OF gb(2) tr(2)]
      show ?thesis
        using c(2) alloc_finish_spec [OF assms tr(1) fr cok(1,2) cv \<open>sz \<noteq> 0\<close> len] alloc_add_takes [OF assms tr(1) fr cok(1,2) cv] cok(3) len
        by (metis option.map(2))
    qed
    then show ?thesis using al by auto
  qed
qed

section \<open>Freeing\<close>

definition gives_area :: "buddy_area \<Rightarrow> buddy_allocator \<Rightarrow> buddy_allocator \<Rightarrow> bool" where
  "gives_area a ba ba' \<longleftrightarrow> buddy_wf ba' \<and> mem_start ba' = mem_start ba \<and> mem_size ba' = mem_size ba \<and>
     set (elems (alloc_tree ba')) = set (elems (alloc_tree ba)) - {a} \<and> (\<forall>x. free_cover ba' x = free_cover ba x + inside a x)"

lemma free_cases:
  assumes "buddy_wf ba"
  obtains (refused) "buddy_mem_free addr ba = Some (if outside ba addr then VMM_EINVALID else VMM_ENOTAVAIL, ba)" "alloc_cover ba (unat addr) = 0"
  | (freed) a ba' where "buddy_mem_free addr ba = Some (VMM_OK, ba')" "a \<in> set (elems (alloc_tree ba))" "inside a (unat addr) = 1" "gives_area a ba ba'"
proof -
  let ?lo = "mem_lo ba" and ?hi = "mem_hi ba"
  have w: "bins_ok ?lo ?hi ba" "areas_ok ?lo ?hi ba" "?hi < 2 ^ 64" "free_cover ba x + alloc_cover ba x \<le> 1" for x
    using assms by (simp_all add: buddy_wf_def bins_ok_def)
  note find = alloc_find_spec [OF w(2,3), of addr]
  show ?thesis
  proof (cases "outside ba addr \<or> buddy_alloc_find ba addr = None")
    case True
    have "unat (mem_start ba + mem_size ba) = ?hi" unfolding mem_hi_def using w(3) by (intro unat_add_small) (simp add: mem_hi_def)
    then have "inside a (unat addr) = 0" if "outside ba addr" "a \<in> set (elems (alloc_tree ba))" for a
      using w(2) that by (auto simp: areas_ok_def area_ok_def outside_def inside_def word_less_nat_alt word_le_nat_alt mem_lo_def dest!: bspec)
    then have "alloc_cover ba (unat addr) = 0"
      using True find by (cases "outside ba addr") (auto simp: alloc_cover_def covers_def)
    then show ?thesis using that(1) True by (cases "outside ba addr") (simp_all add: buddy_mem_free_def)
  next
    case False
    then obtain a where a: "buddy_alloc_find ba addr = Some a" "a \<in> set (elems (alloc_tree ba))" "inside a (unat addr) = 1" using find by auto
    have aok: "area_ok ?lo ?hi (min_bin ba) a" "bin_num a \<le> max_bin ba" using w(2) a(2) by (simp_all add: areas_ok_def)
    obtain ba1 where d: "buddy_alloc_del a ba = Some ba1" "areas_ok ?lo ?hi ba1" "bins ba1 = bins ba" "min_bin ba1 = min_bin ba"
      "max_bin ba1 = max_bin ba" "mem_start ba1 = mem_start ba" "mem_size ba1 = mem_size ba"
      "set (elems (alloc_tree ba1)) = set (elems (alloc_tree ba)) - {a}" "\<And>x. alloc_cover ba x = alloc_cover ba1 x + inside a x"
      using alloc_del_spec [OF w(2) a(2)] by metis
    have "bins_ok ?lo ?hi ba1" using w(1) d by (simp add: bins_ok_def)
    then have p: "bins_ok ?lo ?hi (buddy_bins_put a ba1) \<and> same_frame ba1 (buddy_bins_put a ba1) \<and>
        free_cover (buddy_bins_put a ba1) x = free_cover ba x + inside a x" for x
      using bins_put_spec [of ?lo ?hi ba1 a x] aok d(4,5) free_cover_cong [OF d(3)] by simp
    then have f: "alloc_tree (buddy_bins_put a ba1) = alloc_tree ba1" "mem_lo (buddy_bins_put a ba1) = ?lo" "mem_hi (buddy_bins_put a ba1) = ?hi"
      "areas_ok ?lo ?hi (buddy_bins_put a ba1)"
      using d by (simp_all add: same_frame_def mem_lo_def mem_hi_def areas_ok_def)
    have "free_cover (buddy_bins_put a ba1) x + alloc_cover (buddy_bins_put a ba1) x \<le> 1" for x
      using p [of x] d(9) [of x] w(4) [of x] f(1) by (simp add: alloc_cover_def)
    moreover have "min_bin (buddy_bins_put a ba1) = min_bin ba" using p d(4) by (simp add: same_frame_def)
    ultimately have "buddy_wf (buddy_bins_put a ba1)" using assms p f by (simp add: buddy_wf_def)
    then have "gives_area a ba (buddy_bins_put a ba1)" using d f(1) p by (simp add: gives_area_def same_frame_def)
    then show ?thesis using that(2) [OF _ a(2,3)] False a(1) d(1) by (auto simp: buddy_mem_free_def)
  qed
qed

section \<open>Clients of an allocator\<close>

text \<open>
  What a client of an allocator relies on: which bytes are handed out, that an allocation adds a range of bytes that were not,
  and that freeing its address takes away the same range.
\<close>

locale byte_allocator =
  fixes ready :: "'s \<Rightarrow> bool"
    and owned :: "'s \<Rightarrow> (nat \<times> nat) set"
    and used :: "'s \<Rightarrow> nat \<Rightarrow> bool"
    and alloc :: "u64 \<Rightarrow> 's \<Rightarrow> ((int + u64) \<times> 's) option"
    and free :: "u64 \<Rightarrow> 's \<Rightarrow> (int \<times> 's) option"
  assumes alloc_returns: "ready s \<Longrightarrow> \<exists>r s'. alloc n s = Some (r, s')"
    and alloc_fails: "ready s \<Longrightarrow> alloc n s = Some (Inl e, s') \<Longrightarrow> s' = s"
    and alloc_fresh: "ready s \<Longrightarrow> alloc n s = Some (Inr p, s') \<Longrightarrow>
      \<exists>l \<ge> unat n. ready s' \<and> 0 < l \<and> owned s' = insert (unat p, l) (owned s) \<and> (unat p, l) \<notin> owned s \<and>
        (\<forall>x. used s' x \<longleftrightarrow> used s x \<or> unat p \<le> x \<and> x < unat p + l) \<and> (\<forall>x. unat p \<le> x \<and> x < unat p + l \<longrightarrow> \<not> used s x)"
    and owned_used: "ready s \<Longrightarrow> (q, l) \<in> owned s \<Longrightarrow> q \<le> x \<Longrightarrow> x < q + l \<Longrightarrow> used s x"
    and free_owned: "ready s \<Longrightarrow> (unat p, l) \<in> owned s \<Longrightarrow> 0 < l \<Longrightarrow>
      \<exists>s'. free p s = Some (VMM_OK, s') \<and> ready s' \<and> owned s' = owned s - {(unat p, l)} \<and> (\<forall>x. used s' x \<longleftrightarrow> used s x \<and> \<not> (unat p \<le> x \<and> x < unat p + l))"
begin

lemma alloc_disjoint:
  assumes "ready s" "(q, k) \<in> owned s" "alloc n s = Some (Inr p, s')"
  shows "q + k \<le> unat p \<or> unat p + unat n \<le> q \<or> k = 0 \<or> n = 0"
proof (rule ccontr)
  assume no: "\<not> ?thesis"
  obtain l where l: "unat n \<le> l" "\<forall>x. unat p \<le> x \<and> x < unat p + l \<longrightarrow> \<not> used s x" using alloc_fresh [OF assms(1,3)] by blast
  have "0 < unat n" using no by (simp add: unat_gt_0)
  then have "unat p \<le> max q (unat p)" "max q (unat p) < unat p + l" "q \<le> max q (unat p)" "max q (unat p) < q + k" using no l(1) by (auto simp: max_def)
  then show False using l(2) owned_used [OF assms(1,2)] by blast
qed

lemma alloc_free:
  assumes "ready s" "alloc n s = Some (Inr p, s1)"
  shows "\<exists>s2. free p s1 = Some (VMM_OK, s2) \<and> ready s2 \<and> owned s2 = owned s \<and> used s2 = used s"
proof -
  obtain l where l: "ready s1" "0 < l" "owned s1 = insert (unat p, l) (owned s)" "(unat p, l) \<notin> owned s"
    "\<forall>x. used s1 x \<longleftrightarrow> used s x \<or> unat p \<le> x \<and> x < unat p + l" "\<forall>x. unat p \<le> x \<and> x < unat p + l \<longrightarrow> \<not> used s x"
    using alloc_fresh [OF assms] by blast
  then obtain s2 where "free p s1 = Some (VMM_OK, s2)" "ready s2" "owned s2 = owned s1 - {(unat p, l)}"
    "\<forall>x. used s2 x \<longleftrightarrow> used s1 x \<and> \<not> (unat p \<le> x \<and> x < unat p + l)"
    using free_owned [OF l(1), of p l] by blast
  then show ?thesis using l(3-6) by (auto simp: fun_eq_iff)
qed

end

lemma inside_unique: "covers as x \<le> 1 \<Longrightarrow> a \<in> set as \<Longrightarrow> b \<in> set as \<Longrightarrow> inside a x = 1 \<Longrightarrow> inside b x = 1 \<Longrightarrow> a = b"
proof (induction as)
  case (Cons c cs)
  then show ?case using inside_covers [of a cs x] inside_covers [of b cs x] by auto
qed simp

definition used_byte :: "buddy_allocator \<Rightarrow> nat \<Rightarrow> bool" where
  "used_byte ba x \<longleftrightarrow> (\<exists>a \<in> set (elems (alloc_tree ba)). inside a x = 1)"

definition owned_ranges :: "buddy_allocator \<Rightarrow> (nat \<times> nat) set" where
  "owned_ranges ba = (\<lambda>a. (lo_byte a, area_len a)) ` set (elems (alloc_tree ba))"

lemma used_not_free:
  assumes "buddy_wf ba" "free_cover ba x \<noteq> 0"
  shows "\<not> used_byte ba x"
proof
  assume "used_byte ba x"
  then obtain a where "a \<in> set (elems (alloc_tree ba))" "inside a x = 1" by (auto simp: used_byte_def)
  then have "1 \<le> alloc_cover ba x" using inside_covers [of a _ x] by (simp add: alloc_cover_def)
  moreover have "free_cover ba x + alloc_cover ba x \<le> 1" using assms(1) by (simp add: buddy_wf_def)
  ultimately show False using assms(2) by simp
qed

lemma inside_eq: "inside a x = 1 \<longleftrightarrow> lo_byte a \<le> x \<and> x < lo_byte a + area_len a"
  by (simp add: inside_def)

lemma area_in_tree:
  assumes "buddy_wf ba" "a \<in> set (elems (alloc_tree ba))" "b \<in> set (elems (alloc_tree ba))" "inside a x = 1" "inside b x = 1"
  shows "a = b"
proof (rule inside_unique [OF _ assms(2-5)])
  have "free_cover ba x + alloc_cover ba x \<le> 1" using assms(1) by (simp add: buddy_wf_def)
  then show "covers (elems (alloc_tree ba)) x \<le> 1" by (simp add: alloc_cover_def)
qed

interpretation buddy: byte_allocator buddy_wf owned_ranges used_byte buddy_mem_alloc buddy_mem_free
proof unfold_locales
  fix s :: buddy_allocator and n p e s' q l x
  assume wf: "buddy_wf s"
  show "\<exists>r s'. buddy_mem_alloc n s = Some (r, s')" by (rule alloc_cases [OF wf, of n]) auto
  show "s' = s" if "buddy_mem_alloc n s = Some (Inl e, s')" using that by (cases rule: alloc_cases [OF wf, of n]) auto
  show "used_byte s x" if "(q, l) \<in> owned_ranges s" "q \<le> x" "x < q + l"
    using that by (auto simp: owned_ranges_def used_byte_def inside_eq simp del: One_nat_def)
  show "\<exists>l \<ge> unat n. buddy_wf s' \<and> 0 < l \<and> owned_ranges s' = insert (unat p, l) (owned_ranges s) \<and> (unat p, l) \<notin> owned_ranges s \<and>
      (\<forall>x. used_byte s' x \<longleftrightarrow> used_byte s x \<or> unat p \<le> x \<and> x < unat p + l) \<and> (\<forall>x. unat p \<le> x \<and> x < unat p + l \<longrightarrow> \<not> used_byte s x)"
    if "buddy_mem_alloc n s = Some (Inr p, s')"
  proof (cases rule: alloc_cases [OF wf, of n])
    case 1
    then show ?thesis using that by simp
  next
    case (2 a ba')
    note taken = 2
    have p: "p = area_map a" "s' = ba'" using that taken(1) by simp_all
    have t: "buddy_wf s'" "set (elems (alloc_tree s')) = insert a (set (elems (alloc_tree s)))" "free_cover s x = free_cover s' x + inside a x" for x
      using taken(2) p by (simp_all add: takes_area_def)
    have "area_ok (mem_lo s') (mem_hi s') (min_bin s') a" "mem_hi s' < 2 ^ 64" using t(1,2) by (simp_all add: buddy_wf_def areas_ok_def bins_ok_def)
    then have pos: "0 < area_len a" by (rule area_bounds(4))
    have fresh: "\<not> used_byte s x" if "unat p \<le> x" "x < unat p + area_len a" for x
      using that used_not_free [OF wf, of x] t(3) [of x] p(1) inside_eq [of a x] by (simp add: lo_byte_def)
    moreover have "(unat p, area_len a) \<notin> owned_ranges s"
      using fresh [of "unat p"] pos by (auto simp: owned_ranges_def used_byte_def inside_def)
    ultimately show ?thesis
      using t(1,2) taken(4) pos p(1) by (intro exI [of _ "area_len a"]) (auto simp: owned_ranges_def used_byte_def inside_eq lo_byte_def simp del: One_nat_def)
  qed
  show "\<exists>s'. buddy_mem_free p s = Some (VMM_OK, s') \<and> buddy_wf s' \<and> owned_ranges s' = owned_ranges s - {(unat p, l)} \<and>
      (\<forall>x. used_byte s' x \<longleftrightarrow> used_byte s x \<and> \<not> (unat p \<le> x \<and> x < unat p + l))"
    if pl: "(unat p, l) \<in> owned_ranges s" "0 < l"
  proof -
    obtain a where a: "a \<in> set (elems (alloc_tree s))" "lo_byte a = unat p" "area_len a = l" using pl(1) by (auto simp: owned_ranges_def)
    then have ia: "inside a (unat p) = 1" using pl(2) by (simp add: inside_def)
    show ?thesis
    proof (cases rule: free_cases [OF wf, of p])
      case 1
      then show ?thesis using inside_covers [OF a(1), of "unat p"] ia by (simp add: alloc_cover_def)
    next
      case (2 b ba')
      note freed = 2
      have b: "b = a" using area_in_tree [OF wf freed(2) a(1) freed(3) ia] .
      have g: "buddy_wf ba'" "set (elems (alloc_tree ba')) = set (elems (alloc_tree s)) - {a}" using freed(4) b by (simp_all add: gives_area_def)
      have u: "c = a" if "c \<in> set (elems (alloc_tree s))" "(lo_byte c, area_len c) = (lo_byte a, area_len a)" for c
        using area_in_tree [OF wf that(1) a(1) _ ia] that(2) a(2,3) \<open>0 < l\<close> by (simp add: inside_def)
      have "owned_ranges ba' = owned_ranges s - {(unat p, l)}"
        unfolding owned_ranges_def g(2) a(2,3) [symmetric] by (rule image_minus_unique) (fact u)
      moreover have "used_byte ba' x \<longleftrightarrow> used_byte s x \<and> \<not> (unat p \<le> x \<and> x < unat p + l)" for x
      proof -
        have "inside c x \<noteq> 1" if "inside a x = 1" "c \<in> set (elems (alloc_tree ba'))" for c
          using area_in_tree [OF wf _ a(1) _ that(1), of c] that(2) g(2) by blast
        then show ?thesis unfolding used_byte_def a(2,3) [symmetric] inside_eq [symmetric] g(2) by blast
      qed
      ultimately show ?thesis using freed(1) g(1) by blast
    qed
  qed
qed

text \<open>
  Property C26: memory handed out by the buddy allocator is disjoint. Any allocated range, and the range of a later
  successful allocation, have no byte in common as long as neither is freed.\<close>
theorem buddy_allocations_disjoint:
  assumes "buddy_wf ba" "a \<in> set (elems (alloc_tree ba))" "buddy_mem_alloc sz ba = Some (Inr p, ba')"
  shows "lo_byte a + area_len a \<le> unat p \<or> unat p + unat sz \<le> lo_byte a"
proof -
  have "area_ok (mem_lo ba) (mem_hi ba) (min_bin ba) a" "mem_hi ba < 2 ^ 64" using assms(1,2) by (simp_all add: buddy_wf_def areas_ok_def bins_ok_def)
  then have "0 < area_len a" by (rule area_bounds(4))
  moreover have "sz \<noteq> 0" using assms(3) by (auto simp: buddy_mem_alloc_def)
  moreover have "(lo_byte a, area_len a) \<in> owned_ranges ba" using assms(2) by (simp add: owned_ranges_def)
  ultimately show ?thesis using buddy.alloc_disjoint [OF assms(1) _ assms(3)] by fastforce
qed

text \<open>
  Further fact: freeing the address of an allocation undoes it: the call succeeds, and afterwards the same areas are
  allocated and the same bytes are free as before the allocation.\<close>
theorem buddy_alloc_free_roundtrip:
  assumes "buddy_wf ba" "buddy_mem_alloc sz ba = Some (Inr p, ba1)"
  shows "\<exists>ba2. buddy_mem_free p ba1 = Some (VMM_OK, ba2) \<and> buddy_wf ba2 \<and> set (elems (alloc_tree ba2)) = set (elems (alloc_tree ba)) \<and>
    free_cover ba2 = free_cover ba"
proof (cases rule: alloc_cases [OF assms(1), of sz])
  case 1
  then show ?thesis using assms(2) by simp
next
  case (2 a ba')
  then have p: "p = area_map a" "ba' = ba1" using assms(2) by simp_all
  have t: "buddy_wf ba1" "set (elems (alloc_tree ba1)) = insert a (set (elems (alloc_tree ba)))" "free_cover ba x = free_cover ba1 x + inside a x" for x
    using 2(2) p by (simp_all add: takes_area_def)
  have "area_ok (mem_lo ba1) (mem_hi ba1) (min_bin ba1) a" "mem_hi ba1 < 2 ^ 64" using t(1,2) by (simp_all add: buddy_wf_def areas_ok_def bins_ok_def)
  then have "0 < area_len a" by (rule area_bounds(4))
  then have ia: "inside a (unat p) = 1" using p(1) by (simp add: inside_def lo_byte_def)
  then have new: "a \<notin> set (elems (alloc_tree ba))"
    using used_not_free [OF assms(1), of "unat p"] t(3) [of "unat p"] by (auto simp: used_byte_def)
  show ?thesis
  proof (cases rule: free_cases [OF t(1), of p])
    case 1
    then show ?thesis using inside_covers [of a "elems (alloc_tree ba1)" "unat p"] ia t(2) by (simp add: alloc_cover_def)
  next
    case (2 b ba2)
    then have "b = a" using area_in_tree [OF t(1) _ _ _ ia, of b] t(2) by simp
    then have "set (elems (alloc_tree ba2)) = set (elems (alloc_tree ba))" "free_cover ba2 = free_cover ba" "buddy_wf ba2"
      using 2(4) t(2,3) new by (auto simp: gives_area_def fun_eq_iff)
    then show ?thesis using 2(1) by blast
  qed
qed

end
