(* ===== verification/Buddy_more.thy ===== *)
theory Buddy_more
  imports Buddy_prop
begin

text \<open>
  Reserving a range of the memory, freeing a part of an area, and the initialisation of the allocator, with examples.
\<close>

section \<open>Rounding to blocks\<close>

lemma block_mask: "BLOCK_MASK b = mask b"
  by (simp add: BLOCK_MASK_def BLOCK_SIZE_def mask_eq_decr_exp push_bit_eq_mult)

lemma unat_block_count: "unat (BLOCK_COUNT x b) = unat x div 2 ^ b"
  by (simp only: BLOCK_COUNT_def unat_drop_bit_eq) (simp add: drop_bit_eq_div)

lemma unat_mask: "unat ((x::u64) AND BLOCK_MASK b) = unat x mod 2 ^ b"
  unfolding block_mask take_bit_eq_mask [symmetric] by (simp only: unsigned_take_bit_eq) (simp add: take_bit_eq_mod)

lemma block_aligned: "2 ^ m dvd unat (x::u64) \<Longrightarrow> x AND BLOCK_MASK m = 0"
  by (metis dvd_eq_mod_eq_0 unat_eq_0 unat_mask)

lemma unat_block_down: "unat ((x::u64) AND NOT (BLOCK_MASK b)) = unat x div 2 ^ b * 2 ^ b"
proof -
  have "x AND NOT (BLOCK_MASK b) = push_bit b (drop_bit b x)"
    unfolding block_mask by (rule bit_eqI) (auto simp: bit_simps)
  also have "\<dots> = x - (x AND BLOCK_MASK b)"
    unfolding block_mask take_bit_eq_mask [symmetric] using bits_ident [of b x] by (simp only: eq_diff_eq)
  moreover have "x AND BLOCK_MASK b \<le> x" by (simp add: word_le_nat_alt unat_mask)
  ultimately show ?thesis by (simp add: unat_sub unat_mask minus_mod_eq_div_mult)
qed

section \<open>Reserving a range\<close>

lemma bin_split_Some: "bin_split P as = Some (pre, a, post) \<Longrightarrow> as = pre @ a # post \<and> P a"
  by (induction as arbitrary: pre) (auto split: if_splits)

lemma sub_area_ok:
  "area_ok lo hi m a \<Longrightarrow> bin_num c = bin_num a \<Longrightarrow> 0 < unat (blk_count c) \<Longrightarrow> lo_byte a \<le> lo_byte c \<Longrightarrow>
    lo_byte c + area_len c \<le> lo_byte a + area_len a \<Longrightarrow> aligned_as lo c \<Longrightarrow> area_ok lo hi m c"
  by (simp add: area_ok_def)

text \<open>A range \<open>r\<close> of blocks of \<open>a\<close>: what is in front of it and behind it, in whole blocks, leaves at most some bytes out.\<close>

lemma three_parts:
  assumes r: "lo_byte a \<le> lo_byte r" "lo_byte r + area_len r \<le> lo_byte a + area_len a"
    and f: "lo_byte f = lo_byte a" "area_len f = (lo_byte r - lo_byte a) div 2 ^ b * 2 ^ b"
    and t: "lo_byte t = lo_byte r + area_len r" "area_len t = (lo_byte a + area_len a - lo_byte t) div 2 ^ b * 2 ^ b"
  shows "inside f x + inside r x + inside t x \<le> inside a x"
    "2 ^ b dvd lo_byte r - lo_byte a \<Longrightarrow> 2 ^ b dvd lo_byte a + area_len a - lo_byte t \<Longrightarrow> inside f x + inside r x + inside t x = inside a x"
proof -
  have "area_len f \<le> lo_byte r - lo_byte a" "area_len t \<le> lo_byte a + area_len a - lo_byte t" using f(2) t(2) by simp_all
  then have e: "lo_byte a + area_len f \<le> lo_byte r" "lo_byte r + area_len r + area_len t \<le> lo_byte a + area_len a" using r t(1) by linarith+
  then show "inside f x + inside r x + inside t x \<le> inside a x" unfolding inside_def f(1) t(1) using r by auto
  show "inside f x + inside r x + inside t x = inside a x"
    if "2 ^ b dvd lo_byte r - lo_byte a" "2 ^ b dvd lo_byte a + area_len a - lo_byte t"
  proof -
    have "area_len f = lo_byte r - lo_byte a" "area_len t = lo_byte a + area_len a - lo_byte t" unfolding f(2) t(2) using that by simp_all
    then show ?thesis unfolding inside_def f(1) t(1) using r t(1) by auto
  qed
qed

lemma reserve_None:
  assumes "buddy_bins_reserve b addr sz ba = (None, ba')"
  shows "ba' = ba"
proof -
  have "buddy_hk_free 1 ba2 = ba" if "buddy_hk_alloc x b n ba = (Some r, ba1)" "buddy_hk_alloc y b k ba1 = (None, ba2)" for x y n k r ba1 ba2
    using that by (auto simp: buddy_hk_alloc_def buddy_hk_free_def split: if_splits)
  then show ?thesis using assms
    by (auto simp: buddy_bins_reserve_def Let_def dest: hk_alloc_None split: if_splits option.splits prod.splits)
qed

lemma reserve_range:
  assumes b: "b < 64" and nw: "unat addr0 + unat sz0 + 2 ^ b \<le> 2 ^ 64"
  defines "addr \<equiv> addr0 AND NOT (BLOCK_MASK b)"
  defines "n \<equiv> blocks_for (sz0 + (addr0 - addr)) b"
  shows "unat addr = unat addr0 div 2 ^ b * 2 ^ b" "unat (n * BLOCK_SIZE b) = unat n * 2 ^ b" "unat (addr + n * BLOCK_SIZE b) = unat addr + unat n * 2 ^ b"
    "unat addr0 + unat sz0 \<le> unat addr + unat n * 2 ^ b" "sz0 \<noteq> 0 \<Longrightarrow> 0 < unat n"
proof -
  show A: "unat addr = unat addr0 div 2 ^ b * 2 ^ b" by (simp add: addr_def unat_block_down)
  have le: "unat addr \<le> unat addr0" by (simp add: A)
  then have d: "unat (addr0 - addr) = unat addr0 - unat addr" by (simp add: unat_sub word_le_nat_alt)
  have "0 < (2::nat) ^ b" by simp
  then have "unat sz0 + (unat addr0 - unat addr) < 2 ^ 64" using nw by linarith
  then have s: "unat (sz0 + (addr0 - addr)) = unat sz0 + (unat addr0 - unat addr)" using unat_add_small [of sz0 "addr0 - addr"] d by simp
  note bf = blocks_for_spec [OF b, of "sz0 + (addr0 - addr)", folded n_def]
  have tot: "unat addr + unat n * 2 ^ b < 2 ^ 64" using bf(2) s nw le by linarith
  then show z: "unat (n * BLOCK_SIZE b) = unat n * 2 ^ b" by (subst unat_mult_small) (simp_all add: unat_block_size b)
  show "unat (addr + n * BLOCK_SIZE b) = unat addr + unat n * 2 ^ b" using tot z by (subst unat_add_small) simp_all
  show "unat addr0 + unat sz0 \<le> unat addr + unat n * 2 ^ b" using bf(1) s le by linarith
  show "0 < unat n" if "sz0 \<noteq> 0"
  proof (rule bf(3))
    have "0 < unat sz0" using that by (simp add: unat_gt_0)
    then show "sz0 + (addr0 - addr) \<noteq> 0" using s by (metis add_is_0 less_not_refl unsigned_0)
  qed
qed

lemma bins_reserve_spec:
  assumes res: "buddy_bins_reserve b addr0 sz0 ba = (Some r, ba')" and ok: "bins_ok lo hi ba" and nw: "unat addr0 + unat sz0 + 2 ^ b \<le> 2 ^ 64"
  shows "bins_ok lo hi ba'" "same_frame ba ba'" "area_ok lo hi (min_bin ba) r" "bin_num r = b" "b \<le> max_bin ba"
    "lo_byte r = unat addr0 div 2 ^ b * 2 ^ b" "unat addr0 + unat sz0 \<le> lo_byte r + area_len r"
    "free_cover ba' x + inside r x \<le> free_cover ba x" "2 ^ b dvd lo \<Longrightarrow> free_cover ba' x + inside r x = free_cover ba x"
proof -
  let ?m = "min_bin ba"
  define addr where "addr = addr0 AND NOT (BLOCK_MASK b)"
  define n where "n = blocks_for (sz0 + (addr0 - addr)) b"
  have hi: "hi < 2 ^ 64" using ok by (simp add: bins_ok_def)
  have ran: "sz0 \<noteq> 0" "?m \<le> b" "b \<le> max_bin ba" using res by (auto simp: buddy_bins_reserve_def split: if_splits)
  then have b: "b < 64" "b < 32" using ok by (auto simp: bins_ok_def)
  note rr = reserve_range [OF b(1) nw, folded addr_def, folded n_def]
  obtain pre a post where sp: "bin_split (reserve_hit addr (n * BLOCK_SIZE b)) (bins ba b) = Some (pre, a, post)"
    using res ran by (auto simp: buddy_bins_reserve_def Let_def addr_def n_def split: option.splits)
  note sps = bin_split_Some [OF sp]
  have a: "area_ok lo hi ?m a" "bin_num a = b" using bins_ok_area [OF ok, of a b] sps by simp_all
  note ab = area_bounds [OF a(1) hi]
  let ?r = "\<lparr>area_map = addr, blk_count = n, bin_num = b\<rparr>"
  have hit: "lo_byte a \<le> unat addr" "unat addr + unat n * 2 ^ b \<le> lo_byte a + area_len a"
    using sps by (simp_all add: reserve_hit_def word_le_nat_alt ab rr(3))
  have rb: "lo_byte ?r = unat addr" "area_len ?r = unat n * 2 ^ b" "unat (AREA_START ?r) = unat addr" "unat (AREA_END ?r) = unat addr + unat n * 2 ^ b"
    using rr(3) by (simp_all add: lo_byte_def area_len_def AREA_START_def AREA_END_def AREA_SIZE_def)
  define F where "F = BLOCK_COUNT (AREA_START ?r - AREA_START a) b"
  define T where "T = BLOCK_COUNT (AREA_END a - AREA_END ?r) b"
  let ?f = "keep_front a F" and ?t = "\<lparr>area_map = AREA_END ?r, blk_count = T, bin_num = b\<rparr>"
  have nF: "unat F = (lo_byte ?r - lo_byte a) div 2 ^ b"
    unfolding F_def unat_block_count using hit(1) rb ab by (simp add: unat_sub word_le_nat_alt)
  have nT: "unat T = (lo_byte a + area_len a - (lo_byte ?r + area_len ?r)) div 2 ^ b"
    unfolding T_def unat_block_count using hit(2) rb ab by (simp add: unat_sub word_le_nat_alt)
  have f: "lo_byte ?f = lo_byte a" "area_len ?f = (lo_byte ?r - lo_byte a) div 2 ^ b * 2 ^ b" "bin_num ?f = b" "blk_count ?f = F"
    using a(2) nF by (simp_all add: keep_front_def lo_byte_def area_len_def)
  have t: "lo_byte ?t = lo_byte ?r + area_len ?r" "area_len ?t = (lo_byte a + area_len a - lo_byte ?t) div 2 ^ b * 2 ^ b"
    using rb nT by (simp_all add: lo_byte_def area_len_def)
  note three = three_parts [OF _ _ f(1,2) t, unfolded rb(1,2), OF hit]
  have dv: "2 ^ b dvd unat addr" "aligned_as lo ?r" "aligned_as lo ?t" "aligned_as lo ?f"
  proof -
    show d: "2 ^ b dvd unat addr" by (simp add: rr(1))
    show "aligned_as lo ?r" using d rb(1) by (auto simp: aligned_as_def intro: dvd_trans le_imp_power_dvd)
    have "2 ^ b dvd lo_byte ?t" using d t(1) rb(1,2) by simp
    then show "aligned_as lo ?t" by (auto simp: aligned_as_def intro: dvd_trans le_imp_power_dvd)
    show "aligned_as lo ?f" using a f(1,3) by (simp add: area_ok_def aligned_as_def)
  qed
  have okr: "area_ok lo hi ?m ?r" using sub_area_ok [OF a(1), of ?r] a(2) rr(5) ran(1) hit rb dv(2) by simp
  have okf: "area_ok lo hi ?m ?f" if "F \<noteq> 0"
  proof (rule sub_area_ok [OF a(1)])
    show "0 < unat (blk_count ?f)" using that f(4) by (simp add: unat_gt_0)
    have "area_len ?f \<le> lo_byte ?r - lo_byte a" unfolding f(2) by simp
    then show "lo_byte ?f + area_len ?f \<le> lo_byte a + area_len a" using f(1) hit rb(1) by linarith
  qed (use f a(2) dv in simp_all)
  have okt: "area_ok lo hi ?m ?t" if "T \<noteq> 0"
  proof (rule sub_area_ok [OF a(1)])
    show "0 < unat (blk_count ?t)" using that by (simp add: unat_gt_0)
    have "area_len ?t \<le> lo_byte a + area_len a - lo_byte ?t" unfolding t(2) by simp
    then show "lo_byte ?t + area_len ?t \<le> lo_byte a + area_len a" using t(1) hit rb(1,2) by linarith
    show "lo_byte a \<le> lo_byte ?t" using t(1) hit(1) rb(1) by linarith
  qed (use a(2) dv in simp_all)
  let ?l = "pre @ (if F = 0 then [] else [?f]) @ (if T = 0 then [] else [?t]) @ post"
  note e = res [unfolded buddy_bins_reserve_def Let_def, folded addr_def, folded n_def, unfolded sp]
  obtain ba1 where h1: "buddy_hk_alloc addr b n ba = (Some ?r, ba1)"
    using e ran by (cases "buddy_hk_alloc addr b n ba") (auto dest: hk_alloc_Some(1) split: option.splits if_splits)
  note f1 = hk_alloc_Some(2,3) [OF h1]
  have e: "(if T \<noteq> 0 then case buddy_hk_alloc (AREA_END ?r) b T ba1 of
        (None, ba2) \<Rightarrow> (None, buddy_hk_free 1 ba2)
      | (Some t, ba2) \<Rightarrow> (Some ?r, let ba3 = ba2\<lparr>bins := (bins ba2)(b := pre @ (if F = 0 then [] else [?f]) @ t # post)\<rparr>
          in if F = 0 then buddy_hk_free 1 ba3 else ba3)
      else (Some ?r, let ba3 = ba1\<lparr>bins := (bins ba1)(b := pre @ (if F = 0 then [] else [?f]) @ post)\<rparr>
          in if F = 0 then buddy_hk_free 1 ba3 else ba3)) = (Some r, ba')"
    using e ran unfolding h1 F_def T_def by (simp only: Let_def prod.case option.case if_False if_True) simp
  have out: "r = ?r" "bins ba' = (bins ba)(b := ?l)" "same_frame ba ba'"
  proof -
    have "r = ?r \<and> bins ba' = (bins ba)(b := ?l) \<and> same_frame ba ba'"
    proof (cases "T = 0")
      case True
      then show ?thesis using e f1 by (auto simp: same_frame_def Let_def split: if_splits)
    next
      case False
      obtain ba2 where h2: "buddy_hk_alloc (AREA_END ?r) b T ba1 = (Some ?t, ba2)"
        using e False by (cases "buddy_hk_alloc (AREA_END ?r) b T ba1") (auto dest: hk_alloc_Some(1) split: option.splits if_splits)
      show ?thesis using e False f1 h2 hk_alloc_Some(2,3) [OF h2] by (auto simp: same_frame_def Let_def split: if_splits)
    qed
    then show "r = ?r" "bins ba' = (bins ba)(b := ?l)" "same_frame ba ba'" by simp_all
  qed
  have old: "bin_areas lo hi ?m b (pre @ a # post)" using bins_ok_area [OF ok, of _ b] sps by (auto simp: bin_areas_def)
  have "bin_areas lo hi ?m b ?l" using old okf okt f(3) by simp
  then show "bins_ok lo hi ba'" using bins_ok_upd [OF ok out(3,2) ran(3)] unfolding bin_areas_def by blast
  show "same_frame ba ba'" "area_ok lo hi ?m r" "bin_num r = b" "b \<le> max_bin ba" using out okr ran by simp_all
  show "lo_byte r = unat addr0 div 2 ^ b * 2 ^ b" "unat addr0 + unat sz0 \<le> lo_byte r + area_len r" using out(1) rb rr(1,4) by simp_all
  have zf: "F = 0 \<Longrightarrow> inside ?f x = 0" "T = 0 \<Longrightarrow> inside ?t x = 0" by (simp_all add: inside_def area_len_def keep_front_def)
  have fc: "free_cover ba' x + inside a x = free_cover ba x + inside ?f x + inside ?t x"
    using free_cover_upd [OF b(2) out(2), of x] sps zf by (auto split: if_splits)
  show "free_cover ba' x + inside r x \<le> free_cover ba x" using fc three(1) [of x] out(1) by simp
  show "free_cover ba' x + inside r x = free_cover ba x" if "2 ^ b dvd lo"
  proof -
    have "2 ^ b dvd lo_byte a" using a that by (auto simp: area_ok_def aligned_as_def)
    moreover have "2 ^ b dvd area_len a" using a(2) by (simp add: area_len_def)
    ultimately have "inside ?f x + inside ?r x + inside ?t x = inside a x" using dv(1) t(1) rb(1,2) three(2) [of x] by (simp add: dvd_diff_nat)
    then show ?thesis using fc out(1) by simp
  qed
qed

text \<open>Cutting blocks off an area and giving them back to the bins.\<close>

lemma give_back:
  assumes h: "buddy_hk_alloc mp b n ba = (Some t, ba1)" and ok: "bins_ok lo hi ba" "b \<le> max_bin ba"
    and t: "area_ok lo hi (min_bin ba) \<lparr>area_map = mp, blk_count = n, bin_num = b\<rparr>"
  shows "bins_ok lo hi (buddy_bins_put t ba1)" "same_frame ba (buddy_bins_put t ba1)"
    "free_cover (buddy_bins_put t ba1) x = free_cover ba x + inside \<lparr>area_map = mp, blk_count = n, bin_num = b\<rparr> x"
proof -
  note hk = hk_alloc_Some [OF h]
  have mm: "min_bin ba1 = min_bin ba" "max_bin ba1 = max_bin ba" using hk(3) by (simp_all add: same_frame_def)
  have "bins_ok lo hi ba1" using ok(1) hk(2) mm by (simp add: bins_ok_def)
  note p = bins_put_spec [OF this, of t x] 
  then show "bins_ok lo hi (buddy_bins_put t ba1)" "same_frame ba (buddy_bins_put t ba1)"
    "free_cover (buddy_bins_put t ba1) x = free_cover ba x + inside \<lparr>area_map = mp, blk_count = n, bin_num = b\<rparr> x"
    using hk(1) t mm ok(2) free_cover_cong [OF hk(2)] same_frame_trans [OF hk(3)] by auto
qed

definition trimmed :: "nat \<Rightarrow> nat \<Rightarrow> buddy_area \<Rightarrow> buddy_allocator \<Rightarrow> buddy_area \<Rightarrow> buddy_allocator \<Rightarrow> bool" where
  "trimmed lo hi a ba a' ba' \<longleftrightarrow> bins_ok lo hi ba' \<and> same_frame ba ba' \<and> area_ok lo hi (min_bin ba) a' \<and> bin_num a' = bin_num a \<and>
     (\<forall>x. free_cover ba x + inside a x = free_cover ba' x + inside a' x)"

lemma trimmed_refl: "bins_ok lo hi ba \<Longrightarrow> area_ok lo hi (min_bin ba) a \<Longrightarrow> trimmed lo hi a ba a ba"
  by (simp add: trimmed_def)

lemma trimmed_trans: "trimmed lo hi a ba b bb \<Longrightarrow> trimmed lo hi b bb c bc \<Longrightarrow> trimmed lo hi a ba c bc"
  by (auto simp: trimmed_def same_frame_def)

lemma trim_back:
  assumes h: "buddy_hk_alloc mp (bin_num a) (blk_count a - k) ba = (Some t, ba1)" and ok: "bins_ok lo hi ba" "area_ok lo hi (min_bin ba) a" "bin_num a \<le> max_bin ba"
    and k: "0 < unat k" "k < blk_count a" "mp = area_map (rest_part k a)"
  shows "trimmed lo hi a ba (first_part k a) (buddy_bins_put t ba1)"
proof -
  have hi: "hi < 2 ^ 64" using ok(1) by (simp add: bins_ok_def)
  note c = cut_area [OF ok(2) hi k(1) less_imp_le [OF k(2)]]
  have r: "\<lparr>area_map = mp, blk_count = blk_count a - k, bin_num = bin_num a\<rparr> = rest_part k a" using k(3) by (cases a) (simp add: rest_part_def)
  note g = give_back [OF h ok(1,3), unfolded r, OF c(2) [OF k(2)]]
  show ?thesis using g c by (auto simp: trimmed_def first_part_def)
qed

lemma trim_front:
  assumes h: "buddy_hk_alloc (area_map a) (bin_num a) k ba = (Some t, ba1)" and ok: "bins_ok lo hi ba" "area_ok lo hi (min_bin ba) a" "bin_num a \<le> max_bin ba"
    and k: "0 < unat k" "k < blk_count a"
  shows "trimmed lo hi a ba (rest_part k a) (buddy_bins_put t ba1)"
proof -
  have hi: "hi < 2 ^ 64" using ok(1) by (simp add: bins_ok_def)
  note c = cut_area [OF ok(2) hi k(1) less_imp_le [OF k(2)]]
  have r: "\<lparr>area_map = area_map a, blk_count = k, bin_num = bin_num a\<rparr> = first_part k a" by (cases a) (simp add: first_part_def)
  note g = give_back [OF h ok(1,3), unfolded r, OF c(1)]
  show ?thesis using g c(2) [OF k(2)] c(3) by (auto simp: trimmed_def rest_part_def)
qed

text \<open>Rounding the end of the range up to a block.\<close>

lemma round_end:
  fixes addr sz :: u64
  assumes m: "m < 64" and e: "unat addr + unat sz \<le> e" "2 ^ m dvd e" "e < 2 ^ 64"
  defines "r \<equiv> (addr + sz) AND BLOCK_MASK m"
  defines "tsz \<equiv> (if r \<noteq> 0 then sz + (BLOCK_SIZE m - r) else sz)"
  shows "unat addr + unat sz \<le> unat (addr + tsz)" "unat (addr + tsz) \<le> e" "2 ^ m dvd unat (addr + tsz)"
proof -
  let ?s = "unat addr + unat sz" and ?B = "2 ^ m :: nat"
  have s: "unat (addr + sz) = ?s" using e by (intro unat_add_small) simp
  have ur: "unat r = ?s mod ?B" unfolding r_def unat_mask s ..
  have B: "unat (BLOCK_SIZE m) = ?B" using m by (rule unat_block_size)
  have "?s \<le> unat (addr + tsz) \<and> unat (addr + tsz) \<le> e \<and> ?B dvd unat (addr + tsz)"
  proof (cases "r = 0")
    case True
    then have "?B dvd ?s" using ur by (simp add: dvd_eq_mod_eq_0)
    then show ?thesis using True s e(1) by (simp add: tsz_def)
  next
    case False
    then have nz: "?s mod ?B \<noteq> 0" using ur by (metis unat_eq_0)
    have lt: "?s mod ?B < ?B" by simp
    have d: "unat (BLOCK_SIZE m - r) = ?B - ?s mod ?B" using lt ur B by (simp add: unat_sub word_le_nat_alt)
    obtain q where q: "e = ?B * q" using e(2) by blast
    have sm: "?s = ?B * (?s div ?B) + ?s mod ?B" by simp
    have "?s div ?B < q"
    proof (rule ccontr)
      assume "\<not> ?s div ?B < q"
      then have "?B * q \<le> ?B * (?s div ?B)" by simp
      then show False using sm nz e(1) q by linarith
    qed
    then have "?B * (?s div ?B + 1) \<le> ?B * q" by (intro mult_le_mono2) simp
    moreover have "?B * (?s div ?B + 1) = ?B * (?s div ?B) + ?B" by (simp add: distrib_left)
    ultimately have up: "?s + (?B - ?s mod ?B) = ?B * (?s div ?B + 1)" "?s + (?B - ?s mod ?B) \<le> e" using sm lt q by linarith+
    have at: "addr + tsz = (addr + sz) + (BLOCK_SIZE m - r)" using False by (simp add: tsz_def)
    have fin: "unat (addr + tsz) = ?s + (?B - ?s mod ?B)"
      unfolding at using unat_add_small [of "addr + sz" "BLOCK_SIZE m - r"] s d up(2) e(3) by linarith
    show ?thesis
    proof (intro conjI)
      show "?s \<le> unat (addr + tsz)" unfolding fin by (rule le_add1)
      show "unat (addr + tsz) \<le> e" unfolding fin by (rule up(2))
      show "?B dvd unat (addr + tsz)" unfolding fin up(1) by (rule dvd_triv_left)
    qed
  qed
  then show "?s \<le> unat (addr + tsz)" "unat (addr + tsz) \<le> e" "?B dvd unat (addr + tsz)" by simp_all
qed

lemma reserve_tail_spec:
  assumes ok: "bins_ok lo hi ba" "area_ok lo hi (min_bin ba) a" "bin_num a \<le> max_bin ba" "2 ^ bin_num a dvd lo_byte a"
    and r: "lo_byte a \<le> unat addr" "unat addr + unat sz \<le> lo_byte a + area_len a" "0 < unat sz"
    and t: "reserve_tail addr sz a ba = (a', ba')"
  shows "trimmed lo hi a ba a' ba'" "lo_byte a' = lo_byte a" "unat addr + unat sz \<le> lo_byte a' + area_len a'"
proof -
  let ?m = "bin_num a" and ?P = "trimmed lo hi a ba a' ba' \<and> lo_byte a' = lo_byte a \<and> unat addr + unat sz \<le> lo_byte a' + area_len a'"
  have hi: "hi < 2 ^ 64" "?m < 64" "lo_byte a + area_len a \<le> hi" using ok(1,2) by (simp_all add: bins_ok_def area_ok_def)
  note ab = area_bounds [OF ok(2) hi(1)]
  define w where "w = (addr + sz) AND BLOCK_MASK ?m"
  define tsz where "tsz = (if w \<noteq> 0 then sz + (BLOCK_SIZE ?m - w) else sz)"
  define k where "k = BLOCK_COUNT (AREA_END a - (addr + tsz)) ?m"
  have dl: "2 ^ ?m dvd lo_byte a + area_len a" using ok(4) by (simp add: area_len_def)
  have "lo_byte a + area_len a < 2 ^ 64" using hi by linarith
  note re = round_end [OF hi(2) r(2) dl this, folded w_def, folded tsz_def]
  have "unat (AREA_END a - (addr + tsz)) = lo_byte a + area_len a - unat (addr + tsz)" using re(2) ab(3) by (simp add: unat_sub word_le_nat_alt)
  then have k: "unat k * 2 ^ ?m = lo_byte a + area_len a - unat (addr + tsz)"
    using dl re(3) by (simp add: k_def unat_block_count dvd_diff_nat)
  have e: "reserve_tail addr sz a ba = (if k \<noteq> 0 then (case buddy_hk_alloc (addr + tsz) ?m k ba of
      (None, ba1) \<Rightarrow> (a, ba1) | (Some t, ba1) \<Rightarrow> (a\<lparr>blk_count := blk_count a - k\<rparr>, buddy_bins_put t ba1)) else (a, ba))"
    unfolding reserve_tail_def Let_def k_def tsz_def w_def by (rule refl)
  have ?P
  proof (cases "k \<noteq> 0 \<and> hk_free_count ba \<noteq> 0")
    case False
    then have "a' = a" "ba' = ba" using e [unfolded t] by (auto simp: buddy_hk_alloc_def split: if_splits)
    then show ?thesis using trimmed_refl ok r by simp
  next
    case True
    then obtain c ba1 where h: "buddy_hk_alloc (addr + tsz) ?m k ba = (Some c, ba1)" by (simp add: buddy_hk_alloc_def)
    let ?n = "blk_count a - k"
    have lt: "unat k * 2 ^ ?m < unat (blk_count a) * 2 ^ ?m" using k re(1) r by (simp add: area_len_def)
    then have "unat k < unat (blk_count a)" by simp
    then have n: "unat ?n = unat (blk_count a) - unat k" "0 < unat ?n" "blk_count a - ?n = k"
      by (simp_all add: unat_sub word_le_nat_alt)
    have "k \<noteq> 0" using True by simp
    then have "0 < unat k" by (simp add: unat_gt_0)
    then have nl: "?n < blk_count a" unfolding word_less_nat_alt n(1) using \<open>unat k < unat (blk_count a)\<close> by simp
    note c = cut_area [OF ok(2) hi(1) n(2) less_imp_le [OF nl]]
    have nb: "unat ?n * 2 ^ ?m = unat (addr + tsz) - lo_byte a"
      unfolding n(1) diff_mult_distrib k using re(2) by (simp add: area_len_def)
    have "unat (area_map (rest_part ?n a)) = unat (addr + tsz)" using c(4) nb re(1) r(1) by (simp add: lo_byte_def)
    then have mp: "addr + tsz = area_map (rest_part ?n a)" by (metis word_unat_eq_iff)
    have "trimmed lo hi a ba (first_part ?n a) (buddy_bins_put c ba1)" using trim_back [of "addr + tsz" a ?n] h n nl mp ok by simp
    moreover have "a' = first_part ?n a" "ba' = buddy_bins_put c ba1" using e t h True by (simp_all add: first_part_def)
    moreover have "lo_byte (first_part ?n a) = lo_byte a" "area_len (first_part ?n a) = unat (addr + tsz) - lo_byte a"
      using nb by (simp_all add: first_part_def lo_byte_def area_len_def)
    ultimately show ?thesis using re(1) r(1) by simp
  qed
  then show "trimmed lo hi a ba a' ba'" "lo_byte a' = lo_byte a" "unat addr + unat sz \<le> lo_byte a' + area_len a'" by simp_all
qed

lemma reserve_trim_spec:
  assumes ok: "bins_ok lo hi ba" "area_ok lo hi (min_bin ba) a" "bin_num a \<le> max_bin ba" "2 ^ bin_num a dvd lo_byte a"
    and r: "lo_byte a \<le> unat addr" "unat addr + unat sz \<le> lo_byte a + area_len a" "0 < unat sz"
    and t: "reserve_trim addr sz a ba = (a', ba')"
  shows "trimmed lo hi a ba a' ba'" "lo_byte a' \<le> unat addr" "unat addr + unat sz \<le> lo_byte a' + area_len a'"
proof -
  let ?m = "bin_num a" and ?P = "trimmed lo hi a ba a' ba' \<and> lo_byte a' \<le> unat addr \<and> unat addr + unat sz \<le> lo_byte a' + area_len a'"
  have hi: "hi < 2 ^ 64" using ok(1) by (simp add: bins_ok_def)
  note ab = area_bounds [OF ok(2) hi(1)]
  define k where "k = BLOCK_COUNT (addr - AREA_START a) ?m"
  have uk: "unat k = (unat addr - lo_byte a) div 2 ^ ?m" using r(1) ab(2) by (simp add: k_def unat_block_count unat_sub word_le_nat_alt)
  then have kl: "unat k * 2 ^ ?m \<le> unat addr - lo_byte a" by simp
  have e: "reserve_trim addr sz a ba = (if k \<noteq> 0 then (case buddy_hk_alloc (area_map a) ?m k ba of (None, ba1) \<Rightarrow> (a, ba1)
      | (Some t, ba1) \<Rightarrow> reserve_tail addr sz (a\<lparr>area_map := area_map a + AREA_SIZE t, blk_count := blk_count a - k\<rparr>) (buddy_bins_put t ba1))
      else reserve_tail addr sz a ba)"
    unfolding reserve_trim_def Let_def k_def AREA_START_def by (rule refl)
  consider "k = 0" | "k \<noteq> 0" "hk_free_count ba = 0" | "k \<noteq> 0" "hk_free_count ba \<noteq> 0" by blast
  then have ?P
  proof cases
    case 1
    then have "reserve_tail addr sz a ba = (a', ba')" using e t by simp
    then show ?thesis using reserve_tail_spec [OF ok r] r(1) by simp
  next
    case 2
    then have "a' = a" "ba' = ba" using e [unfolded t] by (auto simp: buddy_hk_alloc_def split: if_splits)
    then show ?thesis using trimmed_refl ok r by simp
  next
    case 3
    then obtain c ba1 where h: "buddy_hk_alloc (area_map a) ?m k ba = (Some c, ba1)" by (simp add: buddy_hk_alloc_def)
    have k0: "0 < unat k" using 3 by (simp add: unat_gt_0)
    have "unat k * 2 ^ ?m < area_len a" using kl r by linarith
    then have "k < blk_count a" by (simp add: area_len_def word_less_nat_alt)
    note c = cut_area [OF ok(2) hi k0 less_imp_le [OF this]] and tf = trim_front [OF h ok(1-3) k0 this]
    have rp: "a\<lparr>area_map := area_map a + AREA_SIZE c, blk_count := blk_count a - k\<rparr> = rest_part k a"
      using hk_alloc_Some(1) [OF h] by (simp add: rest_part_def AREA_SIZE_def)
    have t': "reserve_tail addr sz (rest_part k a) (buddy_bins_put c ba1) = (a', ba')" using e t h 3 rp by simp
    have mm: "min_bin (buddy_bins_put c ba1) = min_bin ba" "max_bin (buddy_bins_put c ba1) = max_bin ba" "bins_ok lo hi (buddy_bins_put c ba1)"
      "area_ok lo hi (min_bin ba) (rest_part k a)" "bin_num (rest_part k a) = ?m"
      using tf by (simp_all add: trimmed_def same_frame_def rest_part_def)
    have "2 ^ ?m dvd lo_byte (rest_part k a)" "lo_byte (rest_part k a) \<le> unat addr"
      "unat addr + unat sz \<le> lo_byte (rest_part k a) + area_len (rest_part k a)"
      using c(4,5) ok(4) kl r by simp_all
    then have "trimmed lo hi (rest_part k a) (buddy_bins_put c ba1) a' ba' \<and> lo_byte a' = lo_byte (rest_part k a) \<and>
        unat addr + unat sz \<le> lo_byte a' + area_len a'"
      using reserve_tail_spec [OF mm(3) _ _ _ _ _ r(3) t'] mm ok(3) by simp
    then show ?thesis using trimmed_trans [OF tf] \<open>lo_byte (rest_part k a) \<le> unat addr\<close> by simp
  qed
  then show "trimmed lo hi a ba a' ba'" "lo_byte a' \<le> unat addr" "unat addr + unat sz \<le> lo_byte a' + area_len a'" by simp_all
qed

lemma reserve_bins_spec:
  "reserve_bins addr sz bs ba = (res, ba') \<Longrightarrow> case res of None \<Rightarrow> ba' = ba | Some r \<Rightarrow> \<exists>b \<in> set bs. buddy_bins_reserve b addr sz ba = (Some r, ba')"
  by (induction bs) (auto dest: reserve_None split: prod.splits option.splits)

text \<open>
  Further fact: reserving a range always returns. A failure leaves the allocator as it was; a success makes an
  area that contains the whole range allocated, whose bytes were all free. No byte becomes free, and none but those of the
  area stop being free when the memory starts at a multiple of the largest block. The range must not reach to the
  last block of the address space, where its rounded end wraps around.\<close>
theorem buddy_reserve_takes_range:
  assumes wf: "buddy_wf ba" and nw: "unat addr + unat sz + 2 ^ max_bin ba \<le> 2 ^ 64"
  shows "case buddy_mem_reserve addr sz ba of
      None \<Rightarrow> False
    | Some (rc, ba') \<Rightarrow>
        if rc = VMM_OK then \<exists>a. buddy_wf ba' \<and> set (elems (alloc_tree ba')) = insert a (set (elems (alloc_tree ba))) \<and>
          (\<forall>x. unat addr \<le> x \<and> x < unat addr + unat sz \<longrightarrow> inside a x = 1) \<and>
          (\<forall>x. free_cover ba' x + inside a x \<le> free_cover ba x) \<and>
          (2 ^ max_bin ba dvd unat (mem_start ba) \<longrightarrow> (\<forall>x. free_cover ba' x + inside a x = free_cover ba x))
        else ba' = ba"
proof (cases "sz = 0 \<or> outside ba addr")
  case True
  then show ?thesis by (auto simp: buddy_mem_reserve_def VMM_OK_def VMM_EINVALID_def)
next
  case sz: False
  let ?lo = "mem_lo ba" and ?hi = "mem_hi ba" and ?bs = "[min_bin ba..<Suc (max_bin ba)]"
  have w: "bins_ok ?lo ?hi ba" "?hi < 2 ^ 64" using wf by (simp_all add: buddy_wf_def bins_ok_def)
  obtain r ba1 where rb: "reserve_bins addr sz ?bs ba = (r, ba1)" by fastforce
  note rs = reserve_bins_spec [OF rb]
  show ?thesis
  proof (cases r)
    case None
    then show ?thesis using sz rb rs by (simp add: buddy_mem_reserve_def VMM_OK_def VMM_ENOTAVAIL_def del: upt_Suc)
  next
    case (Some a0)
    then obtain b where b: "b \<le> max_bin ba" "min_bin ba \<le> b" "buddy_bins_reserve b addr sz ba = (Some a0, ba1)"
      using rs by (auto simp: less_Suc_eq_le simp del: upt_Suc)
    have "(2::nat) ^ b \<le> 2 ^ max_bin ba" using b(1) by simp
    then have nwb: "unat addr + unat sz + 2 ^ b \<le> 2 ^ 64" using nw by linarith
    note br = bins_reserve_spec [OF b(3) w(1) nwb]
    have f: "min_bin ba1 = min_bin ba" "max_bin ba1 = max_bin ba" using br(2) by (simp_all add: same_frame_def)
    let ?a = "to_min_bin ba1 a0"
    have a: "area_ok ?lo ?hi (min_bin ba1) ?a" "inside ?a = inside a0" "area_len ?a = area_len a0" "lo_byte ?a = lo_byte a0" "bin_num ?a = min_bin ba1"
      using rebin_area [OF br(3) w(2), of ?a "bin_num a0 - min_bin ba"] b(2) br(4) f by (simp_all add: to_min_bin_def BLOCK_SIZE_def lo_byte_def)
    have "2 ^ min_bin ba1 dvd (2::nat) ^ b" using b(2) f by (simp add: le_imp_power_dvd)
    then have dv: "2 ^ bin_num ?a dvd lo_byte ?a" unfolding a(4,5) br(6) by (rule dvd_mult)
    obtain c ba2 where t: "reserve_trim addr sz ?a ba1 = (c, ba2)" by fastforce
    have "lo_byte ?a \<le> unat addr" "bin_num ?a \<le> max_bin ba1" using br(6) a(4,5) f b by simp_all
    note rt = reserve_trim_spec [OF br(1) a(1) this(2) dv this(1) _ _ t]
    have rt: "trimmed ?lo ?hi ?a ba1 c ba2" "lo_byte c \<le> unat addr" "unat addr + unat sz \<le> lo_byte c + area_len c"
      using rt br(7) a(3,4) sz by (simp_all add: unat_gt_0)
    have tr: "bins_ok ?lo ?hi ba2" "same_frame ba1 ba2" "area_ok ?lo ?hi (min_bin ba) c" "bin_num c \<le> max_bin ba"
      "free_cover ba1 x + inside a0 x = free_cover ba2 x + inside c x" for x
      using rt(1) a(2,5) f b by (simp_all add: trimmed_def)
    have "free_cover ba2 x + inside c x \<le> free_cover ba x" for x using tr(5) [of x] br(8) [of x] by simp
    then obtain ba' where p: "buddy_alloc_add c ba2 = Some ba'" "buddy_wf ba'" "mem_start ba' = mem_start ba" "mem_size ba' = mem_size ba"
      "set (elems (alloc_tree ba')) = insert c (set (elems (alloc_tree ba)))" "free_cover ba' = free_cover ba2"
      using alloc_add_wf [OF wf tr(1) same_frame_trans [OF br(2) tr(2)] tr(3,4)] by metis
    have "\<forall>x. unat addr \<le> x \<and> x < unat addr + unat sz \<longrightarrow> inside c x = 1" using rt(2,3) by (auto simp: inside_def)
    moreover have "free_cover ba' x + inside c x = free_cover ba x" if "2 ^ max_bin ba dvd unat (mem_start ba)" for x
    proof -
      have "2 ^ b dvd mem_lo ba" using dvd_trans [OF le_imp_power_dvd [OF b(1)] that] by (simp add: mem_lo_def)
      then show ?thesis using br(9) [of x] tr(5) [of x] p(6) by simp
    qed
    moreover have "buddy_mem_reserve addr sz ba = Some (VMM_OK, ba')" using sz rb Some t p(1) by (simp add: buddy_mem_reserve_def Let_def del: upt_Suc)
    ultimately show ?thesis using p \<open>\<And>x. free_cover ba2 x + inside c x \<le> free_cover ba x\<close> by auto
  qed
qed

section \<open>Freeing a part of an area\<close>

text \<open>An area that is neither in the bins nor in the tree.\<close>

definition holding :: "nat \<Rightarrow> nat \<Rightarrow> buddy_area \<Rightarrow> buddy_allocator \<Rightarrow> bool" where
  "holding lo hi a ba \<longleftrightarrow> bins_ok lo hi ba \<and> areas_ok lo hi ba \<and> area_ok lo hi (min_bin ba) a \<and> bin_num a \<le> max_bin ba \<and>
     (\<forall>x. free_cover ba x + alloc_cover ba x + inside a x \<le> 1)"

lemma keep_part:
  assumes h: "holding lo hi a ba" and hk: "hk_free_count ba \<noteq> 0"
    and t: "area_ok lo hi (min_bin ba) t" "area_ok lo hi (min_bin ba) a'" "bin_num t = bin_num a" "bin_num a' = bin_num a"
      "\<And>x. inside a x = inside t x + inside a' x"
  obtains ba1 ba2 where "buddy_hk_alloc (area_map t) (bin_num t) (blk_count t) ba = (Some t, ba1)" "buddy_alloc_add t ba1 = Some ba2" "holding lo hi a' ba2"
    "\<And>x. alloc_cover ba2 x = alloc_cover ba x + inside t x" "free_cover ba2 = free_cover ba" "hk_free_count ba2 = hk_free_count ba - 1"
    "min_bin ba2 = min_bin ba" "max_bin ba2 = max_bin ba" "mem_start ba2 = mem_start ba" "mem_size ba2 = mem_size ba"
proof -
  let ?ba1 = "ba\<lparr>hk_free_count := hk_free_count ba - 1\<rparr>"
  have h1: "buddy_hk_alloc (area_map t) (bin_num t) (blk_count t) ba = (Some t, ?ba1)" using hk by (simp add: buddy_hk_alloc_def)
  have w: "bins_ok lo hi ba" "areas_ok lo hi ba" "hi < 2 ^ 64" "bin_num a \<le> max_bin ba" "free_cover ba x + alloc_cover ba x + inside a x \<le> 1" for x
    using h by (simp_all add: holding_def bins_ok_def)
  have ac: "alloc_cover ?ba1 = alloc_cover ba" by (simp add: alloc_cover_def fun_eq_iff)
  have le: "free_cover ba x + (alloc_cover ba x + inside t x) + inside a' x \<le> 1" for x using w(5) [of x] t(5) [of x] by simp
  have "alloc_cover ba x + inside t x \<le> 1" for x using le [of x] by linarith
  moreover have "areas_ok lo hi ?ba1" using w(2) by (simp add: areas_ok_def)
  ultimately obtain ba2 where p: "buddy_alloc_add t ?ba1 = Some ba2" "areas_ok lo hi ba2" "bins ba2 = bins ba" "min_bin ba2 = min_bin ba" "max_bin ba2 = max_bin ba"
    "mem_start ba2 = mem_start ba" "mem_size ba2 = mem_size ba" "\<And>x. alloc_cover ba2 x = alloc_cover ba x + inside t x"
    using alloc_add_spec [of lo hi ?ba1 t] w(3,4) t(1,3) ac by simp metis
  have fc: "free_cover ba2 = free_cover ba" using free_cover_cong [OF p(3)] .
  have "hk_free_count ba2 = hk_free_count ba - 1" using p(1) by (auto simp: buddy_alloc_add_def split: option.splits sum.splits)
  moreover have "bins_ok lo hi ba2" using w(1) p(3-5) by (simp add: bins_ok_def)
  then have "holding lo hi a' ba2" using p(2,4,5,8) t(2,4) w(4) fc le by (simp add: holding_def)
  ultimately show ?thesis using that [OF h1 p(1)] p fc by simp
qed

text \<open>The bytes of a range, and the outcome of keeping what is outside of it.\<close>

definition in_range :: "u64 \<Rightarrow> u64 \<Rightarrow> nat \<Rightarrow> nat" where
  "in_range addr sz x = (if unat addr \<le> x \<and> x < unat addr + unat sz then 1 else 0)"

lemma partial_tail_spec:
  assumes h: "holding lo hi a ba" "hk_free_count ba \<noteq> 0" and al: "2 ^ bin_num a dvd lo_byte a" "2 ^ bin_num a dvd unat addr + unat sz"
    and r: "lo_byte a = unat addr" "unat addr + unat sz \<le> lo_byte a + area_len a" "0 < unat sz"
  obtains a' ba' where "partial_tail addr sz a ba = Some (a', ba')" "holding lo hi a' ba'" "inside a' = in_range addr sz"
    "\<And>x. alloc_cover ba' x + inside a' x = alloc_cover ba x + inside a x" "free_cover ba' = free_cover ba"
    "min_bin ba' = min_bin ba" "mem_start ba' = mem_start ba" "mem_size ba' = mem_size ba"
proof -
  let ?m = "bin_num a"
  have ok: "area_ok lo hi (min_bin ba) a" and hi: "hi < 2 ^ 64" "lo_byte a + area_len a \<le> hi" using h by (simp_all add: holding_def bins_ok_def area_ok_def)
  note ab = area_bounds [OF ok hi(1)]
  have e: "unat (addr + sz) = unat addr + unat sz" using r hi by (intro unat_add_small) linarith
  define k where "k = BLOCK_COUNT (AREA_END a - (addr + sz)) ?m"
  have "unat (AREA_END a - (addr + sz)) = lo_byte a + area_len a - (unat addr + unat sz)" using r(2) e ab(3) by (simp add: unat_sub word_le_nat_alt)
  moreover have "2 ^ ?m dvd lo_byte a + area_len a" using al(1) by (simp add: area_len_def)
  ultimately have k: "unat k * 2 ^ ?m = lo_byte a + area_len a - (unat addr + unat sz)" using al(2) by (simp add: k_def unat_block_count dvd_diff_nat)
  have m0: "(addr + sz) AND BLOCK_MASK ?m = 0" using al(2) e by (intro block_aligned) simp
  show ?thesis
  proof (cases "k = 0")
    case True
    then have "inside a = in_range addr sz" using k r by (auto simp: inside_def in_range_def fun_eq_iff)
    moreover have "partial_tail addr sz a ba = Some (a, ba)" using True by (simp add: partial_tail_def Let_def k_def)
    ultimately show ?thesis using that [of a ba] h(1) by simp
  next
    case False
    let ?n = "blk_count a - k"
    have "unat k * 2 ^ ?m < unat (blk_count a) * 2 ^ ?m" using k r by (simp add: area_len_def)
    then have lt: "unat k < unat (blk_count a)" by simp
    then have n: "unat ?n = unat (blk_count a) - unat k" "0 < unat ?n" "blk_count a - ?n = k" by (simp_all add: unat_sub word_le_nat_alt)
    have "0 < unat k" using False by (simp add: unat_gt_0)
    then have nl: "?n < blk_count a" unfolding word_less_nat_alt n(1) using lt by simp
    note c = cut_area [OF ok hi(1) n(2) less_imp_le [OF nl]]
    have nb: "unat ?n * 2 ^ ?m = unat addr + unat sz - lo_byte a" unfolding n(1) diff_mult_distrib k using r(2) by (simp add: area_len_def)
    have "unat (area_map (rest_part ?n a)) = unat (addr + sz)" using c(4) nb r(1) e by (simp add: lo_byte_def)
    then have mp: "area_map (rest_part ?n a) = addr + sz" by (metis word_unat_eq_iff)
    obtain ba1 ba2 where kp: "buddy_hk_alloc (addr + sz) ?m k ba = (Some (rest_part ?n a), ba1)" "buddy_alloc_add (rest_part ?n a) ba1 = Some ba2"
      "holding lo hi (first_part ?n a) ba2" "\<And>x. alloc_cover ba2 x = alloc_cover ba x + inside (rest_part ?n a) x" "free_cover ba2 = free_cover ba"
      "min_bin ba2 = min_bin ba" "mem_start ba2 = mem_start ba" "mem_size ba2 = mem_size ba"
      using keep_part [OF h c(2) [OF nl] c(1)] c(3) mp n(3) by (simp add: rest_part_def first_part_def) metis
    have "partial_tail addr sz a ba = Some (first_part ?n a, ba2)" using False m0 kp(1,2) by (simp add: partial_tail_def Let_def k_def [symmetric] first_part_def)
    moreover have "lo_byte (first_part ?n a) = unat addr" "area_len (first_part ?n a) = unat sz"
      using nb r(1) by (simp_all add: first_part_def lo_byte_def area_len_def)
    then have "inside (first_part ?n a) = in_range addr sz" by (simp add: inside_def in_range_def fun_eq_iff)
    ultimately show ?thesis using that [of "first_part ?n a" ba2] kp c(3) by simp
  qed
qed

lemma partial_residues_spec:
  assumes h: "holding lo hi a ba" "2 \<le> unat (hk_free_count ba)"
    and al: "2 ^ bin_num a dvd lo_byte a" "2 ^ bin_num a dvd unat addr" "2 ^ bin_num a dvd unat sz"
    and r: "lo_byte a \<le> unat addr" "unat addr + unat sz \<le> lo_byte a + area_len a" "0 < unat sz"
  obtains a' ba' where "partial_residues addr sz a ba = Some (a', ba')" "holding lo hi a' ba'" "inside a' = in_range addr sz"
    "\<And>x. alloc_cover ba' x + inside a' x = alloc_cover ba x + inside a x" "free_cover ba' = free_cover ba"
    "min_bin ba' = min_bin ba" "mem_start ba' = mem_start ba" "mem_size ba' = mem_size ba"
proof -
  let ?m = "bin_num a"
  have ok: "area_ok lo hi (min_bin ba) a" and hi: "hi < 2 ^ 64" using h by (simp_all add: holding_def bins_ok_def)
  note ab = area_bounds [OF ok hi]
  have hk: "hk_free_count ba \<noteq> 0" "hk_free_count ba - 1 \<noteq> 0"
  proof -
    show n0: "hk_free_count ba \<noteq> 0" using h(2) by auto
    show "hk_free_count ba - 1 \<noteq> 0" using unat_minus_1 [OF n0] h(2) by auto
  qed
  define k where "k = BLOCK_COUNT (addr - AREA_START a) ?m"
  have "unat (addr - AREA_START a) = unat addr - lo_byte a" using r(1) ab(2) by (simp add: unat_sub word_le_nat_alt)
  then have k: "unat k * 2 ^ ?m = unat addr - lo_byte a" using al(1,2) by (simp add: k_def unat_block_count dvd_diff_nat)
  have m0: "addr AND BLOCK_MASK ?m = 0" using al(2) by (rule block_aligned)
  have dsum: "2 ^ ?m dvd unat addr + unat sz" using al(2,3) by simp
  show ?thesis
  proof (cases "k = 0")
    case True
    then have "partial_residues addr sz a ba = partial_tail addr sz a ba" by (simp add: partial_residues_def Let_def k_def)
    moreover have "lo_byte a = unat addr" using True k r(1) by simp
    ultimately show ?thesis using partial_tail_spec [OF h(1) hk(1) al(1) dsum _ r(2,3)] that by metis
  next
    case False
    then have k0: "0 < unat k" by (simp add: unat_gt_0)
    have "unat k * 2 ^ ?m < area_len a" using k r by linarith
    then have kl: "k < blk_count a" by (simp add: area_len_def word_less_nat_alt)
    note c = cut_area [OF ok hi k0 less_imp_le [OF kl]]
    obtain ba1 ba2 where kp: "buddy_hk_alloc (area_map a) ?m k ba = (Some (first_part k a), ba1)" "buddy_alloc_add (first_part k a) ba1 = Some ba2"
      "holding lo hi (rest_part k a) ba2" "\<And>x. alloc_cover ba2 x = alloc_cover ba x + inside (first_part k a) x" "free_cover ba2 = free_cover ba"
      "hk_free_count ba2 = hk_free_count ba - 1" "min_bin ba2 = min_bin ba" "mem_start ba2 = mem_start ba" "mem_size ba2 = mem_size ba"
      using keep_part [OF h(1) hk(1) c(1) c(2) [OF kl]] c(3) by (simp add: rest_part_def first_part_def) metis
    have rp: "a\<lparr>area_map := area_map a + AREA_SIZE (first_part k a), blk_count := blk_count a - k\<rparr> = rest_part k a"
      by (simp add: rest_part_def first_part_def AREA_SIZE_def)
    have e: "partial_residues addr sz a ba = partial_tail addr sz (rest_part k a) ba2"
      using False m0 kp(1,2) rp by (simp add: partial_residues_def Let_def k_def [symmetric] AREA_START_def [symmetric])
    have b: "bin_num (rest_part k a) = ?m" by (simp add: rest_part_def)
    have lr: "lo_byte (rest_part k a) = unat addr" "unat addr + unat sz \<le> lo_byte (rest_part k a) + area_len (rest_part k a)"
      using c(4,5) k r by simp_all
    obtain a' ba' where "partial_tail addr sz (rest_part k a) ba2 = Some (a', ba')" "holding lo hi a' ba'" "inside a' = in_range addr sz"
      "\<And>x. alloc_cover ba' x + inside a' x = alloc_cover ba2 x + inside (rest_part k a) x" "free_cover ba' = free_cover ba2"
      "min_bin ba' = min_bin ba2" "mem_start ba' = mem_start ba2" "mem_size ba' = mem_size ba2"
      using partial_tail_spec [OF kp(3) _ _ _ lr r(3), unfolded b lr(1) kp(6), OF hk(2) al(2) dsum] by metis
    then show ?thesis using that [of a' ba'] e kp c(3) by simp
  qed
qed

lemma alloc_find_in:
  assumes wf: "buddy_wf ba" and a: "a \<in> set (elems (alloc_tree ba))" "inside a (unat addr) = 1"
  shows "buddy_alloc_find ba addr = Some a"
proof -
  have w: "areas_ok (mem_lo ba) (mem_hi ba) ba" "mem_hi ba < 2 ^ 64" "free_cover ba x + alloc_cover ba x \<le> 1" for x
    using wf by (simp_all add: buddy_wf_def bins_ok_def)
  have le: "covers (elems (alloc_tree ba)) (unat addr) \<le> 1" using w(3) [of "unat addr"] by (simp add: alloc_cover_def)
  show ?thesis
    using alloc_find_spec [OF w(1,2), of addr] inside_unique [OF le a(1) _ a(2)] inside_covers [OF a(1), of "unat addr"] a(2)
    by (auto simp: alloc_cover_def split: option.splits)
qed

lemma partial_free_exact:
  assumes wf: "buddy_wf ba" and hk: "2 \<le> unat (hk_free_count ba)" and sz: "sz \<noteq> 0"
    and al: "2 ^ min_bin ba dvd unat addr" "2 ^ min_bin ba dvd unat sz"
    and a: "a \<in> set (elems (alloc_tree ba))" "lo_byte a \<le> unat addr" "unat addr + unat sz \<le> lo_byte a + area_len a"
  shows "\<exists>ba'. buddy_mem_partial_free addr sz ba = Some (VMM_OK, ba') \<and> buddy_wf ba' \<and>
    mem_start ba' = mem_start ba \<and> mem_size ba' = mem_size ba \<and> min_bin ba' = min_bin ba \<and>
    (\<forall>x. free_cover ba' x = free_cover ba x + in_range addr sz x) \<and> (\<forall>x. alloc_cover ba x = alloc_cover ba' x + in_range addr sz x)"
proof -
  let ?lo = "mem_lo ba" and ?hi = "mem_hi ba"
  have w: "bins_ok ?lo ?hi ba" "areas_ok ?lo ?hi ba" "?hi < 2 ^ 64" "2 ^ min_bin ba dvd ?lo" "free_cover ba x + alloc_cover ba x \<le> 1" for x
    using wf by (simp_all add: buddy_wf_def bins_ok_def)
  have aok: "area_ok ?lo ?hi (min_bin ba) a" "bin_num a \<le> max_bin ba" using w(2) a(1) by (simp_all add: areas_ok_def)
  note ab = area_bounds [OF aok(1) w(3)]
  have sz0: "0 < unat sz" using sz by (simp add: unat_gt_0)
  have "?lo \<le> unat addr" "unat addr < ?hi" using aok(1) a sz0 by (auto simp: area_ok_def)
  then have out: "\<not> outside ba addr"
    using unat_add_small [of "mem_start ba" "mem_size ba"] w(3) by (simp add: outside_def word_less_nat_alt word_le_nat_alt mem_lo_def mem_hi_def)
  have "unat addr + unat sz < 2 ^ 64" using aok(1) a(3) w(3) by (auto simp: area_ok_def)
  then have e: "unat (addr + sz) = unat addr + unat sz" by (rule unat_add_small)
  have found: "buddy_alloc_find ba addr = Some a"
    using alloc_find_in [OF wf a(1), of addr] a(2,3) sz0 by (simp add: inside_def)
  obtain ba1 where d: "buddy_alloc_del a ba = Some ba1" "areas_ok ?lo ?hi ba1" "bins ba1 = bins ba" "min_bin ba1 = min_bin ba"
    "max_bin ba1 = max_bin ba" "mem_start ba1 = mem_start ba" "mem_size ba1 = mem_size ba"
    "set (elems (alloc_tree ba1)) = set (elems (alloc_tree ba)) - {a}" "\<And>x. alloc_cover ba x = alloc_cover ba1 x + inside a x"
    using alloc_del_spec [OF w(2) a(1)] by metis
  let ?a = "to_min_bin ba a"
  have ta: "area_ok ?lo ?hi (min_bin ba) ?a" "inside ?a = inside a" "area_len ?a = area_len a" "lo_byte ?a = lo_byte a" "bin_num ?a = min_bin ba"
    using rebin_area [OF aok(1) w(3), of ?a "bin_num a - min_bin ba"] aok(1) by (simp_all add: to_min_bin_def BLOCK_SIZE_def lo_byte_def area_ok_def)
  have fc: "free_cover ba1 = free_cover ba" using free_cover_cong [OF d(3)] .
  have "free_cover ba1 x + alloc_cover ba1 x + inside a x \<le> 1" for x using w(5) [of x] d(9) [of x] fc by simp
  moreover have "bins_ok ?lo ?hi ba1" "min_bin ba \<le> max_bin ba" using w(1) d by (simp_all add: bins_ok_def)
  ultimately have hold: "holding ?lo ?hi ?a ba1" using d(2,4,5) ta by (simp add: holding_def)
  have hk1: "2 \<le> unat (hk_free_count ba1)" using d(1) hk by (auto simp: buddy_alloc_del_def)
  have dl: "2 ^ bin_num ?a dvd lo_byte ?a" using ta w(4) by (auto simp: area_ok_def aligned_as_def)
  obtain a' ba2 where p: "partial_residues addr sz ?a ba1 = Some (a', ba2)" "holding ?lo ?hi a' ba2" "inside a' = in_range addr sz"
    "\<And>x. alloc_cover ba2 x + inside a' x = alloc_cover ba1 x + inside ?a x" "free_cover ba2 = free_cover ba1"
    "min_bin ba2 = min_bin ba1" "mem_start ba2 = mem_start ba1" "mem_size ba2 = mem_size ba1"
    using partial_residues_spec [OF hold hk1 dl _ _ _ _ sz0, unfolded ta(3-5), OF al a(2,3)] by metis
  let ?ba3 = "buddy_bins_put a' ba2"
  have q: "bins_ok ?lo ?hi ?ba3 \<and> same_frame ba2 ?ba3 \<and> free_cover ?ba3 x = free_cover ba x + in_range addr sz x" for x
    using bins_put_spec [of ?lo ?hi ba2 a' x] p(2,3,5) fc by (simp add: holding_def)
  then have f: "alloc_tree ?ba3 = alloc_tree ba2" "min_bin ?ba3 = min_bin ba" "max_bin ?ba3 = max_bin ba2" "mem_lo ?ba3 = ?lo" "mem_hi ?ba3 = ?hi"
    "mem_start ?ba3 = mem_start ba" "mem_size ?ba3 = mem_size ba"
    using p d by (simp_all add: same_frame_def mem_lo_def mem_hi_def)
  have ac: "alloc_cover ba x = alloc_cover ?ba3 x + in_range addr sz x" for x
    using p(3) p(4) [of x] d(9) [of x] ta(2) f(1) by (simp add: alloc_cover_def)
  have "areas_ok ?lo ?hi ?ba3" using p(2) f p(6) d(4) by (simp add: holding_def areas_ok_def)
  moreover have "free_cover ?ba3 x + alloc_cover ?ba3 x \<le> 1" for x using q [of x] ac [of x] w(5) [of x] by simp
  ultimately have "buddy_wf ?ba3" using q f w(4) by (simp add: buddy_wf_def)
  moreover have "buddy_mem_partial_free addr sz ba = Some (VMM_OK, ?ba3)"
    using out found d(1) p(1) block_aligned [OF al(1)] block_aligned [of "min_bin ba" "addr + sz"] al e
    by (simp add: buddy_mem_partial_free_def Let_def)
  ultimately show ?thesis using q ac f by blast
qed

text \<open>
  Further fact: freeing a part of an allocated area. If the range lies in one area, both ends are block boundaries and two
  house-keeping structures are left, the call succeeds, exactly the bytes of the range become free, and the other
  bytes of the area stay allocated.\<close>
theorem buddy_partial_free_exact:
  assumes wf: "buddy_wf ba" and hk: "2 \<le> unat (hk_free_count ba)" and sz: "sz \<noteq> 0"
    and al: "2 ^ min_bin ba dvd unat addr" "2 ^ min_bin ba dvd unat sz"
    and a: "a \<in> set (elems (alloc_tree ba))" "lo_byte a \<le> unat addr" "unat addr + unat sz \<le> lo_byte a + area_len a"
  shows "\<exists>ba'. buddy_mem_partial_free addr sz ba = Some (VMM_OK, ba') \<and> buddy_wf ba' \<and>
    (\<forall>x. free_cover ba' x = free_cover ba x + in_range addr sz x) \<and> (\<forall>x. alloc_cover ba x = alloc_cover ba' x + in_range addr sz x)"
  using partial_free_exact [OF assms] by blast

section \<open>Initialisation\<close>

lemma estimate_bin_mono:
  assumes "s \<le> s'" "min_bin ba \<le> max_bin ba"
  shows "buddy_estimate_bin ba s \<le> buddy_estimate_bin ba s'"
proof (cases "s < BLOCK_SIZE (min_bin ba)")
  case True
  then show ?thesis using assms(2) by (auto simp: buddy_estimate_bin_def find_Some_iff split: option.splits)
next
  case False
  let ?P = "\<lambda>s b. s \<le> BLOCK_SIZE b" and ?l = "[min_bin ba..<max_bin ba]"
  have "\<not> s' < BLOCK_SIZE (min_bin ba)" using False assms(1) by simp
  moreover have "case List.find (?P s) ?l of Some b \<Rightarrow> b \<le> c | None \<Rightarrow> False" if fc: "List.find (?P s') ?l = Some c" for c
  proof -
    obtain i where i: "i < length ?l" "?P s' (?l ! i)" "c = ?l ! i" using fc unfolding find_Some_iff by blast
    then have ps: "?P s (?l ! i)" using assms(1) by simp
    then have "List.find (?P s) ?l \<noteq> None" using nth_mem [OF i(1)] unfolding find_None_iff by blast
    then obtain b where b: "List.find (?P s) ?l = Some b" by auto
    then obtain j where j: "j < length ?l" "b = ?l ! j" "\<forall>k<j. \<not> ?P s (?l ! k)" unfolding find_Some_iff by blast
    then have "j \<le> i" using ps by (meson not_le)
    then show ?thesis using b j(2) i(1,3) by simp
  qed
  moreover have "b \<le> max_bin ba" if "List.find (?P s) ?l = Some b" for b using that by (auto simp: find_Some_iff)
  ultimately show ?thesis using False by (fastforce simp: buddy_estimate_bin_def split: option.splits)
qed

lemma same_estimate: "same_frame ba ba' \<Longrightarrow> buddy_estimate_bin ba' = buddy_estimate_bin ba"
  by (auto simp: buddy_estimate_bin_def same_frame_def fun_eq_iff split: option.split)

text \<open>
  The loop that fills the bins ends, since the remaining size decreases. It stops early when the size that remains is
  below the block of its estimated bin.
\<close>

lemma fill_bins_spec:
  assumes "bins_ok lo hi ba" "lo \<le> unat start" "unat start + unat sz \<le> hi" "\<forall>j \<le> buddy_estimate_bin ba sz. 2 ^ j dvd lo \<longrightarrow> 2 ^ j dvd unat start"
  shows "\<exists>rc ba'. fill_bins start sz ba = Some (rc, ba') \<and> bins_ok lo hi ba' \<and> same_frame ba ba' \<and> (rc = VMM_OK \<or> rc = VMM_ENOMEM) \<and>
    (\<exists>L \<le> unat sz. (rc = VMM_OK \<longrightarrow> unat sz - L < 2 ^ max_bin ba) \<and>
       (\<forall>x. free_cover ba' x = free_cover ba x + (if unat start \<le> x \<and> x < unat start + L then 1 else 0)))"
  using assms
proof (induction "unat sz" arbitrary: start sz ba rule: less_induct)
  case less
  let ?b = "buddy_estimate_bin ba sz" and ?n = "BLOCK_COUNT sz (buddy_estimate_bin ba sz)"
  let ?len = "?n * BLOCK_SIZE ?b" and ?a = "\<lparr>area_map = start, blk_count = ?n, bin_num = ?b\<rparr>"
  note eb = estimate_bin [OF less(2), of sz]
  have hi: "hi < 2 ^ 64" and mm: "max_bin ba < 32" "min_bin ba \<le> max_bin ba" using less(2) by (simp_all add: bins_ok_def)
  have B: "unat (BLOCK_SIZE ?b) = 2 ^ ?b" by (rule unat_block_size [OF eb(3)])
  have n: "unat ?n = unat sz div 2 ^ ?b" by (rule unat_block_count)
  have "unat ?n * 2 ^ ?b \<le> unat sz" by (simp add: n)
  then have len: "unat ?len = unat ?n * 2 ^ ?b" "unat ?len \<le> unat sz" using B hi less(4) by (subst unat_mult_small; simp)+
  consider (stop) "sz = 0 \<or> sz < BLOCK_SIZE ?b" | (full) "\<not> (sz = 0 \<or> sz < BLOCK_SIZE ?b)" "hk_free_count ba = 0"
    | (go) "\<not> (sz = 0 \<or> sz < BLOCK_SIZE ?b)" "hk_free_count ba \<noteq> 0" by blast
  then show ?case
  proof cases
    case stop
    have "(2::nat) ^ ?b \<le> 2 ^ max_bin ba" using eb(2) by simp
    moreover have "unat sz < 2 ^ ?b" using stop B by (auto simp: word_less_nat_alt)
    ultimately have "unat sz < 2 ^ max_bin ba" by (rule less_le_trans [rotated])
    moreover have "fill_bins start sz ba = Some (VMM_OK, ba)" using stop by (subst fill_bins.simps) (auto simp: Let_def)
    ultimately show ?thesis using less(2) by (auto intro!: exI [of _ 0])
  next
    case full
    then have "fill_bins start sz ba = Some (VMM_ENOMEM, ba)" by (subst fill_bins.simps) (auto simp: Let_def buddy_hk_alloc_def)
    then show ?thesis using less(2) by (auto simp: VMM_OK_def VMM_ENOMEM_def intro!: exI [of _ 0])
  next
    case go
    then obtain c ba1 where h: "buddy_hk_alloc start ?b ?n ba = (Some c, ba1)" by (simp add: buddy_hk_alloc_def)
    have "2 ^ ?b \<le> unat sz" using go(1) B by (simp add: word_le_nat_alt not_less)
    then have n0: "0 < unat ?n" by (simp add: n div_greater_zero_iff)
    then have pos: "0 < unat ?len" using len(1) by simp
    have al: "lo_byte ?a = unat start" "area_len ?a = unat ?len" using len by (simp_all add: lo_byte_def area_len_def)
    have ok: "area_ok lo hi (min_bin ba) ?a"
      using n0 eb mm less(3-5) al len(2) by (simp add: area_ok_def aligned_as_def)
    note g = give_back [OF h less(2) eb(2) ok]
    let ?ba = "buddy_bins_put c ba1" and ?sz = "sz - ?len" and ?st = "start + ?len"
    have s: "unat ?sz = unat sz - unat ?len" using len(2) by (simp add: unat_sub word_le_nat_alt)
    have st: "unat ?st = unat start + unat ?len" using len(2) less(4) hi by (intro unat_add_small) linarith
    have fr: "max_bin ?ba = max_bin ba" "buddy_estimate_bin ?ba = buddy_estimate_bin ba" using g(2) by (simp_all add: same_estimate) (simp add: same_frame_def)
    have "?sz \<le> sz" by (simp add: word_le_nat_alt s)
    then have be: "buddy_estimate_bin ba ?sz \<le> ?b" by (rule estimate_bin_mono [OF _ mm(2)])
    have "2 ^ j dvd unat ?st" if "j \<le> buddy_estimate_bin ba ?sz" "2 ^ j dvd lo" for j
      using less(5) that be len(1) st by (simp add: le_imp_power_dvd)
    moreover have "unat ?sz < unat sz" "lo \<le> unat ?st" "unat ?st + unat ?sz \<le> hi" using s st pos len(2) less(3,4) by simp_all
    ultimately obtain rc ba' L where r: "fill_bins ?st ?sz ?ba = Some (rc, ba')" "bins_ok lo hi ba'" "same_frame ?ba ba'" "rc = VMM_OK \<or> rc = VMM_ENOMEM"
      "L \<le> unat ?sz" "rc = VMM_OK \<longrightarrow> unat ?sz - L < 2 ^ max_bin ba"
      "\<And>x. free_cover ba' x = free_cover ?ba x + (if unat ?st \<le> x \<and> x < unat ?st + L then 1 else 0)"
      using less(1) [of ?sz ?ba ?st] g(1) fr by metis
    have e: "fill_bins start sz ba = fill_bins ?st ?sz ?ba" using go h by (subst fill_bins.simps) (simp add: Let_def)
    have "free_cover ba' x = free_cover ba x + (if unat start \<le> x \<and> x < unat start + (unat ?len + L) then 1 else 0)" for x
      using r(7) [of x] g(3) [of x] al st by (auto simp: inside_def)
    moreover have "unat ?len + L \<le> unat sz" "rc = VMM_OK \<longrightarrow> unat sz - (unat ?len + L) < 2 ^ max_bin ba" using r(5,6) s len(2) by auto
    ultimately show ?thesis using e r(1,2,4) same_frame_trans [OF g(2) r(3)] by auto
  qed
qed

text \<open>
  Further fact: the initialisation always returns, and when it succeeds the allocator is well formed, nothing is
  allocated, and the free bytes are a prefix of the memory. The prefix may be shorter than the memory by anything
  up to the largest block.\<close>
theorem buddy_init_wf:
  "case buddy_allocator_init hk_area hk_size start sz mn mx ba of
     None \<Rightarrow> False
   | Some (rc, ba') \<Rightarrow> rc = VMM_OK \<longrightarrow> buddy_wf ba' \<and> alloc_tree ba' = RB_NULL \<and> mem_start ba' = start \<and> mem_size ba' = sz \<and>
       (\<exists>L \<le> unat sz. unat sz - L < 2 ^ mx \<and> (\<forall>x. free_cover ba' x = (if unat start \<le> x \<and> x < unat start + L then 1 else 0)))"
proof -
  let ?bad = "mn > mx \<or> BUDDY_MAX_SUPPORTED_BIN \<le> mn \<or> BUDDY_MAX_SUPPORTED_BIN \<le> mx \<or> sz < int_shift mn \<or>
    start AND BLOCK_MASK mn \<noteq> 0 \<or> start + sz \<le> start \<or> hk_size < sizeof_buddy_area"
  show ?thesis
  proof (cases "hk_area = 0 \<or> ?bad")
    case True
    then show ?thesis by (auto simp: buddy_allocator_init_def VMM_OK_def VMM_EFAIL_def VMM_EINVALID_def)
  next
    case False
    let ?cnt = "hk_size div sizeof_buddy_area" and ?hi = "unat start + unat sz"
    let ?ba = "\<lparr>hk_total_count = ?cnt, hk_free_count = ?cnt, mem_start = start, mem_size = sz, min_bin = mn, max_bin = mx,
      alloc_tree = RB_NULL, bins = (\<lambda>b. [])\<rparr>"
    have hi: "?hi < 2 ^ 64"
    proof (rule ccontr)
      assume no: "\<not> ?hi < 2 ^ 64"
      then have "unat (start + sz) = ?hi - 2 ^ 64" by (simp add: unat_plus_if_size word_size)
      moreover have "unat sz < 2 ^ 64" using unsigned_less [of sz] by simp
      ultimately have "start + sz \<le> start" unfolding word_le_nat_alt using no by linarith
      then show False using False by simp
    qed
    have ok: "bins_ok (unat start) ?hi ?ba" using False hi by (auto simp: bins_ok_def)
    obtain rc ba' L where r: "fill_bins start sz ?ba = Some (rc, ba')" "bins_ok (unat start) ?hi ba'" "same_frame ?ba ba'" "L \<le> unat sz"
      "rc = VMM_OK \<longrightarrow> unat sz - L < 2 ^ mx" "\<And>x. free_cover ba' x = (if unat start \<le> x \<and> x < unat start + L then 1 else 0)"
      using fill_bins_spec [OF ok, of start sz] by (auto simp: free_cover_def)
    have f: "alloc_tree ba' = RB_NULL" "mem_start ba' = start" "mem_size ba' = sz" "min_bin ba' = mn" using r(3) by (simp_all add: same_frame_def)
    have "areas_ok (unat start) ?hi ba'" using f(1) by (simp add: areas_ok_def rb.ranges_def rb_root_ok_def)
    moreover have "2 ^ mn dvd unat start" using False by (auto intro: block_mask_dvd)
    moreover have "free_cover ba' x + alloc_cover ba' x \<le> 1" for x using r(6) [of x] f(1) by (simp add: alloc_cover_def)
    ultimately have "buddy_wf ba'" using r(2) f by (simp add: buddy_wf_def mem_lo_def mem_hi_def)
    moreover have "buddy_allocator_init hk_area hk_size start sz mn mx ba = Some (rc, ba')" using False r(1) by (simp add: buddy_allocator_init_def Let_def)
    ultimately show ?thesis using f r(4-6) by auto
  qed
qed

section \<open>Examples\<close>

declare fill_bins.simps [code]

text \<open>Sixteen pages with blocks of one to four pages; the first two pages are allocated.\<close>

definition example_area :: buddy_area where
  "example_area = \<lparr>area_map = 0x10000, blk_count = 2, bin_num = 12\<rparr>"

definition example_buddy :: buddy_allocator where
  "example_buddy = \<lparr>hk_total_count = 8, hk_free_count = 4, mem_start = 0x10000, mem_size = 0x10000, min_bin = 12, max_bin = 14,
     alloc_tree = Rb_node RB_BLACK RB_NULL example_area RB_NULL, bins = (\<lambda>b. if b = 13 then [\<lparr>area_map = 0x12000, blk_count = 1, bin_num = 13\<rparr>]
       else if b = 14 then [\<lparr>area_map = 0x14000, blk_count = 3, bin_num = 14\<rparr>] else [])\<rparr>"

lemma example_free:
  "free_cover example_buddy x = (if 0x12000 \<le> x \<and> x < 0x20000 then 1 else 0)"
  "alloc_cover example_buddy x = (if 0x10000 \<le> x \<and> x < 0x12000 then 1 else 0)"
proof -
  have "covers (bins example_buddy b) x = (if b = 13 then if 0x12000 \<le> x \<and> x < 0x14000 then 1 else 0 else 0) +
      (if b = 14 then if 0x14000 \<le> x \<and> x < 0x20000 then 1 else 0 else 0)" for b
    by (simp add: example_buddy_def inside_def lo_byte_def area_len_def)
  then show "free_cover example_buddy x = (if 0x12000 \<le> x \<and> x < 0x20000 then 1 else 0)"
    unfolding free_cover_def by (simp only: sum.distrib sum.delta finite_lessThan) auto
  show "alloc_cover example_buddy x = (if 0x10000 \<le> x \<and> x < 0x12000 then 1 else 0)"
    by (simp add: alloc_cover_def example_buddy_def example_area_def inside_def lo_byte_def area_len_def)
qed

lemma example_wf: "buddy_wf example_buddy"
proof -
  have lh: "mem_lo example_buddy = 0x10000" "mem_hi example_buddy = 0x20000" by (simp_all add: mem_lo_def mem_hi_def example_buddy_def)
  have al: "aligned_as 0x10000 a" if "lo_byte a mod 0x4000 = 0" "bin_num a \<le> 14" for a
  proof -
    have "2 ^ j dvd lo_byte a" if "j \<le> bin_num a" for j
    proof -
      have "(2::nat) ^ j dvd 2 ^ 14" using that \<open>bin_num a \<le> 14\<close> by (intro le_imp_power_dvd) simp
      moreover have "2 ^ 14 dvd lo_byte a" using \<open>lo_byte a mod 0x4000 = 0\<close> by (simp add: dvd_eq_mod_eq_0)
      ultimately show ?thesis by (rule dvd_trans)
    qed
    then show ?thesis by (simp add: aligned_as_def)
  qed
  have al13: "aligned_as 0x10000 \<lparr>area_map = 0x12000, blk_count = 1, bin_num = 13\<rparr>"
  proof -
    have "(2::nat) ^ j dvd 0x12000" if "j \<le> 13" for j
    proof -
      have "(2::nat) ^ j dvd 2 ^ 13" using that by (rule le_imp_power_dvd)
      then show ?thesis by (rule dvd_trans) simp
    qed
    then show ?thesis by (simp add: aligned_as_def lo_byte_def)
  qed
  have "bins_ok 0x10000 0x20000 example_buddy"
    using al [of "\<lparr>area_map = 0x14000, blk_count = 3, bin_num = 14\<rparr>"] al13
    by (auto simp: bins_ok_def example_buddy_def area_ok_def lo_byte_def area_len_def)
  moreover have "areas_ok 0x10000 0x20000 example_buddy"
    using al [of example_area]
    by (auto simp: areas_ok_def example_buddy_def example_area_def area_ok_def lo_byte_def area_len_def rb_root_ok_def rb.ranges_def AREA_START_def
        AREA_END_def AREA_SIZE_def BLOCK_SIZE_def)
  moreover have "2 ^ min_bin example_buddy dvd (0x10000::nat)" by (simp add: example_buddy_def)
  ultimately show ?thesis unfolding buddy_wf_def lh by (simp add: example_free)
qed

lemma example_alloc: "\<exists>ba'. buddy_mem_alloc 0x1800 example_buddy = Some (Inr 0x12000, ba')"
proof -
  have "map_option fst (buddy_mem_alloc 0x1800 example_buddy) = Some (Inr 0x12000)" by code_simp
  then show ?thesis by auto
qed

theorem buddy_allocations_disjoint_witness:
  "\<exists>p ba'. buddy_mem_alloc 0x1800 example_buddy = Some (Inr p, ba') \<and> unat p = 0x12000 \<and>
     (lo_byte example_area + area_len example_area \<le> unat p \<or> unat p + 0x1800 \<le> lo_byte example_area)"
proof -
  obtain ba' where b: "buddy_mem_alloc 0x1800 example_buddy = Some (Inr 0x12000, ba')" using example_alloc by blast
  have "example_area \<in> set (elems (alloc_tree example_buddy))" by (simp add: example_buddy_def)
  from buddy_allocations_disjoint [OF example_wf this b] b show ?thesis by auto
qed

theorem buddy_alloc_free_roundtrip_witness:
  "\<exists>ba1 ba2. buddy_mem_alloc 0x1800 example_buddy = Some (Inr 0x12000, ba1) \<and> buddy_mem_free 0x12000 ba1 = Some (VMM_OK, ba2) \<and>
     set (elems (alloc_tree ba2)) = {example_area} \<and> free_cover ba2 = free_cover example_buddy"
proof -
  obtain ba1 where b: "buddy_mem_alloc 0x1800 example_buddy = Some (Inr 0x12000, ba1)" using example_alloc by blast
  have "set (elems (alloc_tree example_buddy)) = {example_area}" by (simp add: example_buddy_def)
  with buddy_alloc_free_roundtrip [OF example_wf b] b show ?thesis by auto
qed

theorem buddy_reserve_takes_range_witness:
  "\<exists>ba' a. buddy_mem_reserve 0x15000 0x1000 example_buddy = Some (VMM_OK, ba') \<and> buddy_wf ba' \<and> inside a 0x15abc = 1 \<and>
     free_cover ba' 0x15abc + inside a 0x15abc \<le> free_cover example_buddy 0x15abc"
proof -
  have "map_option fst (buddy_mem_reserve 0x15000 0x1000 example_buddy) = Some VMM_OK" by code_simp
  then obtain ba' where b: "buddy_mem_reserve 0x15000 0x1000 example_buddy = Some (VMM_OK, ba')" by auto
  have "unat (0x15000::u64) + unat (0x1000::u64) + 2 ^ max_bin example_buddy \<le> 2 ^ 64" by (simp add: example_buddy_def)
  from buddy_reserve_takes_range [OF example_wf this] b obtain a where a: "buddy_wf ba'"
    "\<forall>x. unat (0x15000::u64) \<le> x \<and> x < unat (0x15000::u64) + unat (0x1000::u64) \<longrightarrow> inside a x = 1"
    "\<forall>x. free_cover ba' x + inside a x \<le> free_cover example_buddy x" by (simp only: option.case prod.case if_True refl) blast
  have "inside a 0x15abc = 1" using a(2) by simp
  moreover have "free_cover ba' 0x15abc + inside a 0x15abc \<le> free_cover example_buddy 0x15abc" using a(3) by blast
  ultimately show ?thesis using a(1) b by blast
qed

theorem buddy_partial_free_exact_witness:
  "\<exists>ba'. buddy_mem_partial_free 0x11000 0x1000 example_buddy = Some (VMM_OK, ba') \<and> free_cover ba' 0x11000 = 1 \<and> alloc_cover ba' 0x10fff = 1"
proof -
  have e: "2 \<le> unat (hk_free_count example_buddy)" "2 ^ min_bin example_buddy dvd unat (0x11000::u64)" "2 ^ min_bin example_buddy dvd unat (0x1000::u64)"
    "example_area \<in> set (elems (alloc_tree example_buddy))" by (simp_all add: example_buddy_def)
  have a: "lo_byte example_area \<le> unat (0x11000::u64)" "unat (0x11000::u64) + unat (0x1000::u64) \<le> lo_byte example_area + area_len example_area"
    by (simp_all add: example_area_def lo_byte_def area_len_def)
  obtain ba' where b: "buddy_mem_partial_free 0x11000 0x1000 example_buddy = Some (VMM_OK, ba')"
    "\<forall>x. free_cover ba' x = free_cover example_buddy x + in_range 0x11000 0x1000 x" "\<forall>x. alloc_cover example_buddy x = alloc_cover ba' x + in_range 0x11000 0x1000 x"
    using buddy_partial_free_exact [OF example_wf e(1) _ e(2-4) a] by auto
  have "free_cover ba' 0x11000 = 1" using b(2) by (simp add: example_free in_range_def)
  moreover have "alloc_cover ba' 0x10fff = 1" using spec [OF b(3), of "0x10fff"] by (simp add: example_free in_range_def)
  ultimately show ?thesis using b(1) by blast
qed

theorem buddy_init_wf_witness:
  "\<exists>ba'. buddy_allocator_init 0x100 0x1000 0x10000 0x6000 12 13 example_buddy = Some (VMM_OK, ba') \<and> buddy_wf ba' \<and> free_cover ba' 0x10000 = 1"
proof -
  have "map_option fst (buddy_allocator_init 0x100 0x1000 0x10000 0x6000 12 13 example_buddy) = Some VMM_OK" by code_simp
  then obtain ba' where b: "buddy_allocator_init 0x100 0x1000 0x10000 0x6000 12 13 example_buddy = Some (VMM_OK, ba')" by auto
  with buddy_init_wf [where hk_area = "0x100" and hk_size = "0x1000" and start = "0x10000" and sz = "0x6000" and mn = 12 and mx = 13 and ba = example_buddy] obtain L where "buddy_wf ba'" "0x6000 - L < 2 ^ 13"
    "\<forall>x. free_cover ba' x = (if 0x10000 \<le> x \<and> x < 0x10000 + L then 1 else 0)" by auto
  then show ?thesis using b by auto
qed

text \<open>
  The memory behind the last block of a power of two is lost: twelve kilobytes with a largest block of sixteen give an allocator
  without free memory, and the initialisation succeeds.
\<close>

lemma buddy_init_loses_memory:
  "\<exists>ba'. buddy_allocator_init 0x100 0x1000 0x10000 0x3000 12 14 ba = Some (VMM_OK, ba') \<and> (\<forall>b. bins ba' b = [])"
proof -
  let ?ba = "\<lparr>hk_total_count = 64, hk_free_count = 64, mem_start = 0x10000, mem_size = 0x3000, min_bin = 12, max_bin = 14,
    alloc_tree = RB_NULL, bins = (\<lambda>b. [])\<rparr> :: buddy_allocator"
  have "buddy_estimate_bin ?ba 0x3000 = 14" by code_simp
  then have "fill_bins 0x10000 0x3000 ?ba = Some (VMM_OK, ?ba)" by (subst fill_bins.simps) (simp add: Let_def BLOCK_SIZE_def)
  moreover have "buddy_allocator_init 0x100 0x1000 0x10000 0x3000 12 14 ba = fill_bins 0x10000 0x3000 ?ba"
    by (simp add: buddy_allocator_init_def int_shift_def BLOCK_SIZE_def BLOCK_MASK_def Let_def)
  ultimately show ?thesis by auto
qed

end
