(* ===== verification/Host_vapool.thy ===== *)
theory Host_vapool
  imports Buddy_more Host_ram
begin

text \<open>
  The pool of virtual addresses of the host, \<^verbatim>\<open>core/vmm_host_vapool.c\<close>: a buddy allocator of pages with bound checks in
  front of it. The largest bin depends on the build (\<^verbatim>\<open>CONFIG_VAPOOL_ALIGN_MB\<close>) and is an argument of the initialisation.
\<close>

record vapool_ctrl =
  vapool_start :: u64
  vapool_size :: u64
  vapool_page_count :: u32
  vapool_ba :: buddy_allocator

definition VMM_PAGE_MASK :: u64 where "VMM_PAGE_MASK = order_mask VMM_PAGE_SHIFT"

definition VAPOOL_MIN_BIN :: nat where [simp]: "VAPOOL_MIN_BIN = VMM_PAGE_SHIFT"

definition vmm_host_vapool_alloc :: "u64 \<Rightarrow> vapool_ctrl \<Rightarrow> ((int + u64) \<times> vapool_ctrl) option" where
  "vmm_host_vapool_alloc sz vp = map_option (\<lambda>(r, ba). (r, vp\<lparr>vapool_ba := ba\<rparr>)) (buddy_mem_alloc sz (vapool_ba vp))"

text \<open>The bound check of the functions that take a range; the sum may wrap around.\<close>

definition vapool_refuses :: "vapool_ctrl \<Rightarrow> u64 \<Rightarrow> u64 \<Rightarrow> bool" where
  "vapool_refuses vp va sz \<longleftrightarrow> va < vapool_start vp \<or> vapool_start vp + vapool_size vp < va + sz"

definition vmm_host_vapool_reserve :: "u64 \<Rightarrow> u64 \<Rightarrow> vapool_ctrl \<Rightarrow> (int \<times> vapool_ctrl) option" where
  "vmm_host_vapool_reserve va sz vp =
     (if vapool_refuses vp va sz then Some (VMM_EFAIL, vp)
      else map_option (\<lambda>(rc, ba). (rc, vp\<lparr>vapool_ba := ba\<rparr>)) (buddy_mem_reserve va sz (vapool_ba vp)))"

definition vmm_host_vapool_find :: "u64 \<Rightarrow> vapool_ctrl \<Rightarrow> int + (u64 \<times> u64)" where
  "vmm_host_vapool_find va vp =
     (case buddy_mem_find (vapool_ba vp) va of Inl rc \<Rightarrow> Inl rc | Inr (ava, b, asz) \<Rightarrow> Inr (ava, asz))"

definition vmm_host_vapool_free :: "u64 \<Rightarrow> u64 \<Rightarrow> vapool_ctrl \<Rightarrow> (int \<times> vapool_ctrl) option" where
  "vmm_host_vapool_free va sz vp =
     (if vapool_refuses vp va sz then Some (VMM_EFAIL, vp)
      else map_option (\<lambda>(rc, ba). (rc, vp\<lparr>vapool_ba := ba\<rparr>)) (buddy_mem_partial_free va sz (vapool_ba vp)))"

definition vmm_host_vapool_isvalid :: "u64 \<Rightarrow> vapool_ctrl \<Rightarrow> bool" where
  "vmm_host_vapool_isvalid a vp \<longleftrightarrow> vapool_start vp \<le> a \<and> a < vapool_start vp + vapool_size vp"

definition vmm_host_vapool_page_isfree :: "u64 \<Rightarrow> vapool_ctrl \<Rightarrow> bool" where
  "vmm_host_vapool_page_isfree va vp \<longleftrightarrow>
     \<not> (va < vapool_start vp \<or> vapool_start vp + vapool_size vp \<le> va) \<and> (case buddy_mem_find (vapool_ba vp) va of Inl rc \<Rightarrow> True | Inr f \<Rightarrow> False)"

definition vmm_host_vapool_free_page_count :: "vapool_ctrl \<Rightarrow> u32" where
  "vmm_host_vapool_free_page_count vp = ucast (drop_bit VMM_PAGE_SHIFT (buddy_bins_free_space (vapool_ba vp)))"

definition vmm_host_vapool_total_page_count :: "vapool_ctrl \<Rightarrow> u32" where
  "vmm_host_vapool_total_page_count = vapool_page_count"

definition vmm_host_vapool_base :: "vapool_ctrl \<Rightarrow> u64" where "vmm_host_vapool_base = vapool_start"

definition vmm_host_vapool_size :: "vapool_ctrl \<Rightarrow> u64" where "vmm_host_vapool_size = vapool_size"

definition vmm_host_vapool_estimate_hksize :: "u64 \<Rightarrow> u64" where
  "vmm_host_vapool_estimate_hksize sz = drop_bit 8 sz"

definition vmm_host_vapool_init :: "nat \<Rightarrow> u64 \<Rightarrow> u64 \<Rightarrow> u64 \<Rightarrow> vapool_ctrl \<Rightarrow> (int \<times> vapool_ctrl) option" where
  "vmm_host_vapool_init mx base sz hkbase vp =
     (if hkbase < base \<or> base + sz \<le> hkbase then Some (VMM_EFAIL, vp)
      else let vp1 = vp\<lparr>vapool_start := base AND NOT VMM_PAGE_MASK, vapool_size := sz AND NOT VMM_PAGE_MASK,
             vapool_page_count := ucast (drop_bit VMM_PAGE_SHIFT (sz AND NOT VMM_PAGE_MASK))\<rparr> in
        map_option (\<lambda>(rc, ba). (rc, vp1\<lparr>vapool_ba := ba\<rparr>))
          (buddy_allocator_init hkbase (vmm_host_vapool_estimate_hksize sz) base sz VAPOOL_MIN_BIN mx (vapool_ba vp1)))"

section \<open>The pool as an allocator\<close>

definition vapool_ok :: "vapool_ctrl \<Rightarrow> bool" where
  "vapool_ok vp \<longleftrightarrow> buddy_wf (vapool_ba vp) \<and> min_bin (vapool_ba vp) = VAPOOL_MIN_BIN \<and> vapool_start vp = mem_start (vapool_ba vp) \<and>
     unat (vapool_size vp) = unat (mem_size (vapool_ba vp)) div 2 ^ VMM_PAGE_SHIFT * 2 ^ VMM_PAGE_SHIFT"

lemma vapool_area:
  assumes ok: "vapool_ok vp" and a: "a \<in> set (elems (alloc_tree (vapool_ba vp)))"
  shows "mem_lo (vapool_ba vp) \<le> lo_byte a" "lo_byte a + area_len a \<le> mem_hi (vapool_ba vp)" "0 < area_len a" "4096 dvd lo_byte a" "4096 dvd area_len a"
    "unat (AREA_SIZE a) = area_len a" "mem_hi (vapool_ba vp) < 2 ^ 64" "4096 dvd mem_lo (vapool_ba vp)"
proof -
  let ?ba = "vapool_ba vp"
  have m: "min_bin ?ba = 12" using ok by (simp add: vapool_ok_def)
  have w: "area_ok (mem_lo ?ba) (mem_hi ?ba) 12 a" "mem_hi ?ba < 2 ^ 64" "4096 dvd mem_lo ?ba"
    using ok a unfolding vapool_ok_def buddy_wf_def areas_ok_def bins_ok_def m by simp_all
  then show "mem_lo ?ba \<le> lo_byte a" "lo_byte a + area_len a \<le> mem_hi ?ba" "mem_hi ?ba < 2 ^ 64" "4096 dvd mem_lo ?ba" by (simp_all add: area_ok_def)
  show "0 < area_len a" "unat (AREA_SIZE a) = area_len a" using area_bounds [OF w(1,2)] by simp_all
  have b: "12 \<le> bin_num a" "aligned_as (mem_lo ?ba) a" using w(1) by (simp_all add: area_ok_def)
  then show "4096 dvd lo_byte a" using w(3) unfolding aligned_as_def by (auto dest!: spec [of _ 12])
  have "(2::nat) ^ 12 dvd 2 ^ bin_num a" using b(1) by (rule le_imp_power_dvd)
  then show "4096 dvd area_len a" unfolding area_len_def by simp
qed

lemma used_iff_covered: "used_byte ba x \<longleftrightarrow> alloc_cover ba x \<noteq> 0"
proof -
  have "covers as x \<noteq> 0 \<longleftrightarrow> (\<exists>a \<in> set as. inside a x = 1)" for as by (induction as) (auto simp: inside_def)
  then show ?thesis by (simp add: used_byte_def alloc_cover_def)
qed

definition pool_used :: "vapool_ctrl \<Rightarrow> u64 \<Rightarrow> bool" where
  "pool_used vp x \<longleftrightarrow> used_byte (vapool_ba vp) (unat x)"

definition same_pool :: "vapool_ctrl \<Rightarrow> vapool_ctrl \<Rightarrow> bool" where
  "same_pool vp vp' \<longleftrightarrow> vapool_ok vp' \<and> mem_lo (vapool_ba vp') = mem_lo (vapool_ba vp) \<and> mem_hi (vapool_ba vp') = mem_hi (vapool_ba vp)"

lemma vapool_alloc_spec:
  assumes ok: "vapool_ok vp" and al: "vmm_host_vapool_alloc sz vp = Some (Inr va, vp')"
  obtains l where "same_pool vp vp'" "unat sz \<le> l" "0 < l" "4096 dvd unat va" "mem_lo (vapool_ba vp) \<le> unat va" "unat va + l \<le> mem_hi (vapool_ba vp)"
    "\<And>x. pool_used vp' x \<longleftrightarrow> pool_used vp x \<or> unat va \<le> unat x \<and> unat x < unat va + l"
    "\<And>x. unat va \<le> unat x \<Longrightarrow> unat x < unat va + l \<Longrightarrow> \<not> pool_used vp x"
proof -
  let ?ba = "vapool_ba vp"
  obtain ba' where b: "buddy_mem_alloc sz ?ba = Some (Inr va, ba')" "vp' = vp\<lparr>vapool_ba := ba'\<rparr>"
    using al by (auto simp: vmm_host_vapool_alloc_def)
  have wf: "buddy_wf ?ba" using ok by (simp add: vapool_ok_def)
  obtain l where l: "unat sz \<le> l" "buddy_wf ba'" "0 < l" "owned_ranges ba' = insert (unat va, l) (owned_ranges ?ba)"
    "\<forall>x. used_byte ba' x \<longleftrightarrow> used_byte ?ba x \<or> unat va \<le> x \<and> x < unat va + l" "\<forall>x. unat va \<le> x \<and> x < unat va + l \<longrightarrow> \<not> used_byte ?ba x"
    using buddy.alloc_fresh [OF wf b(1)] by blast
  have "mem_start ba' = mem_start ?ba \<and> mem_size ba' = mem_size ?ba \<and> min_bin ba' = min_bin ?ba"
  proof (cases rule: alloc_cases [OF wf, of sz])
    case 1
    then show ?thesis using b(1) by simp
  next
    case (2 a ba2)
    then show ?thesis using b(1) by (simp add: takes_area_def)
  qed
  then have sp: "same_pool vp vp'" using ok l(2) b(2) by (simp add: same_pool_def vapool_ok_def mem_lo_def mem_hi_def)
  have "(unat va, l) \<in> owned_ranges ba'" using l(4) by simp
  then obtain c where c: "c \<in> set (elems (alloc_tree (vapool_ba vp')))" "lo_byte c = unat va" "area_len c = l" using b(2) by (auto simp: owned_ranges_def)
  have "vapool_ok vp'" using sp by (simp add: same_pool_def)
  note va = vapool_area [OF this c(1)]
  show ?thesis by (rule that [OF sp l(1,3)]) (use va c sp l b(2) in \<open>auto simp: same_pool_def pool_used_def\<close>)
qed

lemma vapool_find_area:
  assumes ok: "vapool_ok vp" and f: "vmm_host_vapool_find x vp = Inr (va, sz)"
  obtains a where "a \<in> set (elems (alloc_tree (vapool_ba vp)))" "area_map a = va" "AREA_SIZE a = sz" "lo_byte a = unat va" "area_len a = unat sz"
proof -
  let ?ba = "vapool_ba vp"
  obtain a where a: "buddy_alloc_find ?ba x = Some a" "area_map a = va" "AREA_SIZE a = sz"
    using f by (auto simp: vmm_host_vapool_find_def buddy_mem_find_def AREA_SIZE_def mult.commute split: if_splits option.splits)
  have "areas_ok (mem_lo ?ba) (mem_hi ?ba) ?ba" "mem_hi ?ba < 2 ^ 64" using ok by (simp_all add: vapool_ok_def buddy_wf_def bins_ok_def)
  from alloc_find_spec [OF this, of x] a(1) have at: "a \<in> set (elems (alloc_tree ?ba))" by simp
  then show ?thesis using that a(2,3) vapool_area(6) [OF ok at] by (simp add: lo_byte_def)
qed

lemma vapool_find_in:
  assumes ok: "vapool_ok vp" and f: "vmm_host_vapool_find x vp = Inr (va, sz)" and w: "unat va \<le> unat w" "unat w < unat va + unat sz"
  shows "vmm_host_vapool_find w vp = Inr (va, sz)"
proof -
  let ?ba = "vapool_ba vp"
  obtain a where a: "a \<in> set (elems (alloc_tree ?ba))" "area_map a = va" "AREA_SIZE a = sz" "lo_byte a = unat va" "area_len a = unat sz"
    by (rule vapool_find_area [OF ok f])
  note v = vapool_area [OF ok a(1)]
  have "\<not> outside ?ba w"
    using v(1,2,7) a w unat_add_small [of "mem_start ?ba" "mem_size ?ba"] by (simp add: outside_def word_less_nat_alt word_le_nat_alt mem_lo_def mem_hi_def)
  moreover have "buddy_alloc_find ?ba w = Some a"
    using alloc_find_in [OF _ a(1), of w] ok w a(4,5) by (simp add: vapool_ok_def inside_def)
  ultimately show ?thesis using a(2,3) by (simp add: vmm_host_vapool_find_def buddy_mem_find_def AREA_SIZE_def mult.commute)
qed

lemma vapool_free_spec:
  assumes ok: "vapool_ok vp" and f: "vmm_host_vapool_find va vp = Inr (va, sz)" and hk: "2 \<le> unat (hk_free_count (vapool_ba vp))"
  obtains vp' where "vmm_host_vapool_free va sz vp = Some (VMM_OK, vp')" "same_pool vp vp'"
    "\<And>x. pool_used vp' x \<longleftrightarrow> pool_used vp x \<and> \<not> (unat va \<le> unat x \<and> unat x < unat va + unat sz)"
proof -
  let ?ba = "vapool_ba vp"
  have wf: "buddy_wf ?ba" and m: "min_bin ?ba = 12" using ok by (simp_all add: vapool_ok_def)
  obtain a where at: "a \<in> set (elems (alloc_tree ?ba))" and e: "lo_byte a = unat va" "area_len a = unat sz"
    by (rule vapool_find_area [OF ok f])
  note v = vapool_area [OF ok at, unfolded e]
  have sz: "sz \<noteq> 0" using v(3) by auto
  have "\<exists>ba'. buddy_mem_partial_free va sz ?ba = Some (VMM_OK, ba') \<and> buddy_wf ba' \<and>
      mem_start ba' = mem_start ?ba \<and> mem_size ba' = mem_size ?ba \<and> min_bin ba' = min_bin ?ba \<and>
      (\<forall>x. free_cover ba' x = free_cover ?ba x + in_range va sz x) \<and> (\<forall>x. alloc_cover ?ba x = alloc_cover ba' x + in_range va sz x)"
    by (rule partial_free_exact [OF wf hk sz _ _ at]) (use v e m in simp_all)
  then obtain ba' where b: "buddy_mem_partial_free va sz ?ba = Some (VMM_OK, ba')" "buddy_wf ba'" "mem_start ba' = mem_start ?ba" "mem_size ba' = mem_size ?ba"
    "min_bin ba' = min_bin ?ba" "\<And>x. alloc_cover ?ba x = alloc_cover ba' x + in_range va sz x" by blast
  have st: "vapool_start vp = mem_start ?ba" "unat (vapool_size vp) = unat (mem_size ?ba) div 4096 * 4096" using ok by (simp_all add: vapool_ok_def)
  have "\<not> vapool_refuses vp va sz"
  proof -
    obtain i j k where i: "unat va = i * 4096" "unat sz = j * 4096" "mem_lo ?ba = k * 4096" using v(4,5,8) by (metis dvd_def mult.commute)
    have "i + j - k \<le> unat (mem_size ?ba) div 4096" using v(1,2) i by (simp add: mem_hi_def mem_lo_def less_eq_div_iff_mult_less_eq diff_mult_distrib)
    then have "unat va + unat sz \<le> mem_lo ?ba + unat (vapool_size vp)" using i st(2) by simp
    moreover have "unat (vapool_start vp + vapool_size vp) = mem_lo ?ba + unat (vapool_size vp)" "unat (va + sz) = unat va + unat sz"
      using unat_add_small [of va sz] unat_add_small [of "vapool_start vp" "vapool_size vp"] v(2,7) st div_times_less_eq_dividend [of "unat (mem_size ?ba)" 4096]
      by (simp_all add: mem_lo_def mem_hi_def)
    ultimately show ?thesis using v(1) st(1) by (simp add: vapool_refuses_def word_less_nat_alt mem_lo_def)
  qed
  then have "vmm_host_vapool_free va sz vp = Some (VMM_OK, vp\<lparr>vapool_ba := ba'\<rparr>)" using b(1) by (simp add: vmm_host_vapool_free_def)
  moreover have "same_pool vp (vp\<lparr>vapool_ba := ba'\<rparr>)" using ok b(2-5) by (simp add: same_pool_def vapool_ok_def mem_lo_def mem_hi_def)
  moreover have le: "alloc_cover ?ba x \<le> 1" for x
  proof -
    have "free_cover ?ba x + alloc_cover ?ba x \<le> 1" using wf by (simp add: buddy_wf_def)
    then show ?thesis by simp
  qed
  have "pool_used (vp\<lparr>vapool_ba := ba'\<rparr>) x \<longleftrightarrow> pool_used vp x \<and> \<not> (unat va \<le> unat x \<and> unat x < unat va + unat sz)" for x
    using b(6) [of "unat x"] le [of "unat x"] by (auto simp: pool_used_def used_iff_covered in_range_def split: if_splits)
  ultimately show ?thesis using that by blast
qed

end
