(* ===== verification/Riscv_mmu.thy ===== *)
theory Riscv_mmu
  imports Prelude Guest_aspace
begin

text \<open>
  The page-table formats of 64-bit RISC-V, \<^verbatim>\<open>arch/riscv/cpu/generic/cpu_mmu.c\<close> and its header \<^verbatim>\<open>arch_mmu.h\<close>:
  levels, block sizes and indices, and the fields of a page-table entry. The build is \<^verbatim>\<open>CONFIG_64BIT\<close>. The translation
  modes found at boot (\<^verbatim>\<open>riscv_stage1_mode\<close>, \<^verbatim>\<open>riscv_stage2_mode\<close>) are a record.

  The functions that execute fence instructions or probe the hardware (\<^verbatim>\<open>arch_mmu_stage1_tlbflush\<close>,
  \<^verbatim>\<open>arch_mmu_pte_sync\<close>, \<^verbatim>\<open>arch_mmu_test_nested_pgtbl\<close>) are not here.
\<close>

section \<open>Stages, modes and levels\<close>

datatype mmu_stage = MMU_STAGE_UNKNOWN | MMU_STAGE1 | MMU_STAGE2

record mmu_modes =
  stage1_mode :: nat
  stage2_mode :: nat

definition arch_mmu_start_level :: "mmu_modes \<Rightarrow> mmu_stage \<Rightarrow> nat" where
  "arch_mmu_start_level M st =
     (let m = (if st = MMU_STAGE1 then stage1_mode M else stage2_mode M)
      in if m = 1 then 1 else if m = 8 then 2 else if m = 9 then 3 else if m = 10 then 4 else 0)"

definition PGTBL_PAGE_SIZE_SHIFT :: nat where [simp]: "PGTBL_PAGE_SIZE_SHIFT = 12"

text \<open>\<^verbatim>\<open>PGTBL_L0_BLOCK_SHIFT\<close> to \<^verbatim>\<open>PGTBL_L4_BLOCK_SHIFT\<close>; the index shifts are the same numbers.\<close>

definition arch_mmu_level_block_shift :: "mmu_stage \<Rightarrow> nat \<Rightarrow> nat" where
  "arch_mmu_level_block_shift st level =
     (if level = 0 then 12 else if level = 1 then 21 else if level = 2 then 30 else if level = 3 then 39
      else if level = 4 then 48 else 12)"

definition arch_mmu_level_index_shift :: "mmu_stage \<Rightarrow> nat \<Rightarrow> nat" where
  "arch_mmu_level_index_shift st level =
     (if level = 0 then 12 else if level = 1 then 21 else if level = 2 then 30 else if level = 3 then 39
      else if level = 4 then 48 else 12)"

definition arch_mmu_level_block_size :: "mmu_stage \<Rightarrow> nat \<Rightarrow> u64" where
  "arch_mmu_level_block_size st level =
     (if level = 0 then 0x1000 else if level = 1 then 0x200000 else if level = 2 then 0x40000000
      else if level = 3 then 0x8000000000 else if level = 4 then 0x1000000000000 else 0x1000)"

definition arch_mmu_level_map_mask :: "mmu_stage \<Rightarrow> nat \<Rightarrow> u64" where
  "arch_mmu_level_map_mask st level =
     (if level = 0 then NOT (0x1000 - 1) else if level = 1 then NOT (0x200000 - 1)
      else if level = 2 then NOT (0x40000000 - 1) else if level = 3 then NOT (0x8000000000 - 1)
      else if level = 4 then NOT (0x1000000000000 - 1) else NOT (0x1000 - 1))"

definition arch_mmu_valid_block_size :: "u64 \<Rightarrow> bool" where
  "arch_mmu_valid_block_size sz \<longleftrightarrow> sz = 0x1000000000000 \<or> sz = 0x8000000000 \<or> sz = 0x40000000 \<or> sz = 0x200000 \<or> sz = 0x1000"

text \<open>The masks \<^verbatim>\<open>PGTBL_L0_INDEX_MASK\<close> to \<^verbatim>\<open>PGTBL_L4_INDEX_MASK\<close>; the root of stage 2 has two more index bits.\<close>

definition level_index_mask :: "nat \<Rightarrow> u64" where
  "level_index_mask level =
     (if level = 0 then 0x1FF000 else if level = 1 then 0x3FE00000 else if level = 2 then 0x7FC0000000
      else if level = 3 then 0xFF8000000000 else if level = 4 then 0x1FF000000000000 else 0x1FF000)"

definition arch_mmu_level_index :: "mmu_modes \<Rightarrow> u64 \<Rightarrow> mmu_stage \<Rightarrow> nat \<Rightarrow> nat" where
  "arch_mmu_level_index M ia st level =
     (let shift = arch_mmu_level_index_shift st level;
          mask = level_index_mask level;
          mask' = (if st \<noteq> MMU_STAGE1 \<and> level = arch_mmu_start_level M st
                   then push_bit 2 mask OR push_bit shift 3 else mask)
      in unat (drop_bit shift (ia AND mask')))"

definition arch_mmu_pgtbl_min_align_order :: "mmu_stage \<Rightarrow> nat" where
  "arch_mmu_pgtbl_min_align_order st = PGTBL_PAGE_SIZE_SHIFT"

definition arch_mmu_pgtbl_align_order :: "mmu_modes \<Rightarrow> mmu_stage \<Rightarrow> nat \<Rightarrow> nat" where
  "arch_mmu_pgtbl_align_order M st level =
     (if st \<noteq> MMU_STAGE1 \<and> level = arch_mmu_start_level M st then PGTBL_PAGE_SIZE_SHIFT + 2 else PGTBL_PAGE_SIZE_SHIFT)"

definition arch_mmu_pgtbl_size_order :: "mmu_modes \<Rightarrow> mmu_stage \<Rightarrow> nat \<Rightarrow> nat" where
  "arch_mmu_pgtbl_size_order M st level =
     (if st \<noteq> MMU_STAGE1 \<and> level = arch_mmu_start_level M st then PGTBL_PAGE_SIZE_SHIFT + 2 else PGTBL_PAGE_SIZE_SHIFT)"

section \<open>Page-table entries\<close>

text \<open>The bit fields of \<^verbatim>\<open>struct arch_pgflags\<close>; \<open>rsw\<close> has two bits, the others one.\<close>

record pgflags =
  pg_rsw :: "2 word"
  pg_dirty :: bool
  pg_accessed :: bool
  pg_global :: bool
  pg_user :: bool
  pg_execute :: bool
  pg_write :: bool
  pg_read :: bool
  pg_valid :: bool

definition PGTBL_PTE_ADDR_MASK :: u64 where "PGTBL_PTE_ADDR_MASK = 0x003FFFFFFFFFFC00"

definition arch_mmu_pte_is_valid :: "u64 \<Rightarrow> bool" where
  "arch_mmu_pte_is_valid pte \<longleftrightarrow> pte AND 1 \<noteq> 0"

definition arch_mmu_pte_addr :: "u64 \<Rightarrow> u64" where
  "arch_mmu_pte_addr pte = push_bit PGTBL_PAGE_SIZE_SHIFT (drop_bit 10 (pte AND PGTBL_PTE_ADDR_MASK))"

definition arch_mmu_pte_flags :: "u64 \<Rightarrow> pgflags" where
  "arch_mmu_pte_flags pte = \<lparr>pg_rsw = ucast (drop_bit 8 (pte AND 0x300)), pg_dirty = (pte AND 0x80 \<noteq> 0),
     pg_accessed = (pte AND 0x40 \<noteq> 0), pg_global = (pte AND 0x20 \<noteq> 0), pg_user = (pte AND 0x10 \<noteq> 0),
     pg_execute = (pte AND 0x8 \<noteq> 0), pg_write = (pte AND 0x4 \<noteq> 0), pg_read = (pte AND 0x2 \<noteq> 0),
     pg_valid = (pte AND 0x1 \<noteq> 0)\<rparr>"

definition arch_mmu_pte_set :: "mmu_stage \<Rightarrow> nat \<Rightarrow> u64 \<Rightarrow> pgflags \<Rightarrow> u64" where
  "arch_mmu_pte_set st level pa fl =
     push_bit 10 (drop_bit PGTBL_PAGE_SIZE_SHIFT (pa AND arch_mmu_level_map_mask st level))
     OR (push_bit 8 (ucast (pg_rsw fl)) AND 0x300)
     OR (if pg_dirty fl then 0x80 else 0) OR (if pg_accessed fl then 0x40 else 0)
     OR (if pg_global fl then 0x20 else 0) OR (if pg_user fl then 0x10 else 0)
     OR (if pg_execute fl then 0x8 else 0) OR (if pg_write fl then 0x4 else 0)
     OR (if pg_read fl then 0x2 else 0) OR 0x1"

definition arch_mmu_pte_is_table :: "u64 \<Rightarrow> bool" where
  "arch_mmu_pte_is_table pte \<longleftrightarrow> pte AND 0xE = 0"

definition arch_mmu_pte_table_addr :: "u64 \<Rightarrow> u64" where
  "arch_mmu_pte_table_addr pte = push_bit PGTBL_PAGE_SIZE_SHIFT (drop_bit 10 (pte AND PGTBL_PTE_ADDR_MASK))"

definition arch_mmu_pte_set_table :: "u64 \<Rightarrow> u64" where
  "arch_mmu_pte_set_table tbl_pa = push_bit 10 (drop_bit PGTBL_PAGE_SIZE_SHIFT tbl_pa) OR 1"

definition VMM_MEMORY_READABLE :: u32 where "VMM_MEMORY_READABLE = 0x1"
definition VMM_MEMORY_WRITEABLE :: u32 where "VMM_MEMORY_WRITEABLE = 0x2"
definition VMM_MEMORY_EXECUTABLE :: u32 where "VMM_MEMORY_EXECUTABLE = 0x4"

definition arch_mmu_pgflags_set :: "mmu_stage \<Rightarrow> u32 \<Rightarrow> pgflags" where
  "arch_mmu_pgflags_set st mflags =
     (if st = MMU_STAGE2 then
        \<lparr>pg_rsw = 0, pg_dirty = True, pg_accessed = True, pg_global = False, pg_user = True, pg_execute = True,
         pg_write = (mflags AND VMM_REGION_VIRTUAL = 0 \<and> mflags AND VMM_REGION_READONLY = 0),
         pg_read = (mflags AND VMM_REGION_VIRTUAL = 0), pg_valid = True\<rparr>
      else
        \<lparr>pg_rsw = 0, pg_dirty = True, pg_accessed = True, pg_global = True, pg_user = False,
         pg_execute = (mflags AND VMM_MEMORY_EXECUTABLE \<noteq> 0), pg_write = (mflags AND VMM_MEMORY_WRITEABLE \<noteq> 0),
         pg_read = (mflags AND VMM_MEMORY_READABLE \<noteq> 0), pg_valid = True\<rparr>)"

section \<open>Laws of the format\<close>

lemma block_size_pow: "arch_mmu_level_block_size st level = 2 ^ arch_mmu_level_block_shift st level"
  by (simp add: arch_mmu_level_block_size_def arch_mmu_level_block_shift_def)

lemma map_mask_shift:
  "arch_mmu_level_map_mask st level = NOT (mask (arch_mmu_level_block_shift st level))"
  by (simp add: arch_mmu_level_map_mask_def arch_mmu_level_block_shift_def mask_eq_exp_minus_1)

lemma block_shift_ge: "12 \<le> arch_mmu_level_block_shift st level" "arch_mmu_level_block_shift st level \<le> 48"
  by (simp_all add: arch_mmu_level_block_shift_def)

lemma map_mask_bit:
  "bit (x AND arch_mmu_level_map_mask st level) n \<longleftrightarrow> bit x n \<and> arch_mmu_level_block_shift st level \<le> n"
  by (auto simp: map_mask_shift bit_simps dest: bit_imp_le_length)

lemma addr_mask_bits: "PGTBL_PTE_ADDR_MASK = push_bit 10 (mask 44)"
  by (simp add: PGTBL_PTE_ADDR_MASK_def mask_eq_exp_minus_1)

lemma small_bit: "unat (x::u64) < 2 ^ k \<Longrightarrow> bit x n \<Longrightarrow> n < k"
proof (rule ccontr)
  assume "unat x < 2 ^ k" and b: "bit x n" and "\<not> n < k"
  then have "unat x < 2 ^ n" by (meson less_le_trans not_le power_increasing one_le_numeral)
  then have "unat (drop_bit n x) = 0" by (subst unat_drop_bit_eq) (simp only: drop_bit_eq_div div_less)
  then have "drop_bit n x = 0" by (simp only: unat_eq_0)
  then show False using b by (simp add: bit_iff_odd_drop_bit)
qed

lemma low_bits:
  "bit (1::u64) n \<longleftrightarrow> n = 0" "bit (0x2::u64) n \<longleftrightarrow> n = 1" "bit (0x4::u64) n \<longleftrightarrow> n = 2" "bit (0x8::u64) n \<longleftrightarrow> n = 3"
  "bit (0x10::u64) n \<longleftrightarrow> n = 4" "bit (0x20::u64) n \<longleftrightarrow> n = 5" "bit (0x40::u64) n \<longleftrightarrow> n = 6" "bit (0x80::u64) n \<longleftrightarrow> n = 7"
  "bit (0x300::u64) n \<longleftrightarrow> n = 8 \<or> n = 9" "bit (0xE::u64) n \<longleftrightarrow> n = 1 \<or> n = 2 \<or> n = 3"
proof -
  have p: "bit (2 ^ k :: u64) n \<longleftrightarrow> n = k" if "k < 64" for k using that by (auto simp: bit_simps)
  show "bit (1::u64) n \<longleftrightarrow> n = 0" using p [of 0] by simp
  show "bit (0x2::u64) n \<longleftrightarrow> n = 1" using p [of 1] by simp
  show "bit (0x4::u64) n \<longleftrightarrow> n = 2" using p [of 2] by simp
  show "bit (0x8::u64) n \<longleftrightarrow> n = 3" using p [of 3] by simp
  show "bit (0x10::u64) n \<longleftrightarrow> n = 4" using p [of 4] by simp
  show "bit (0x20::u64) n \<longleftrightarrow> n = 5" using p [of 5] by simp
  show "bit (0x40::u64) n \<longleftrightarrow> n = 6" using p [of 6] by simp
  show "bit (0x80::u64) n \<longleftrightarrow> n = 7" using p [of 7] by simp
  have "bit (2 ^ 8 OR 2 ^ 9 :: u64) n \<longleftrightarrow> n = 8 \<or> n = 9" by (simp only: bit_or_iff p)
  then show "bit (0x300::u64) n \<longleftrightarrow> n = 8 \<or> n = 9" by simp
  have "bit (2 ^ 1 OR 2 ^ 2 OR 2 ^ 3 :: u64) n \<longleftrightarrow> n = 1 \<or> n = 2 \<or> n = 3" using p [of 1] p [of 2] p [of 3] by (simp only: bit_or_iff)
  then show "bit (0xE::u64) n \<longleftrightarrow> n = 1 \<or> n = 2 \<or> n = 3" by simp
qed

lemma and_single: "(x AND 2 ^ k :: u64) \<noteq> 0 \<longleftrightarrow> bit x k"
  by (simp add: and_exp_eq_0_iff_not_bit)

lemma and_flags:
  "(x AND 0x1 :: u64) \<noteq> 0 \<longleftrightarrow> bit x 0" "(x AND 0x2 :: u64) \<noteq> 0 \<longleftrightarrow> bit x 1" "(x AND 0x4 :: u64) \<noteq> 0 \<longleftrightarrow> bit x 2"
  "(x AND 0x8 :: u64) \<noteq> 0 \<longleftrightarrow> bit x 3" "(x AND 0x10 :: u64) \<noteq> 0 \<longleftrightarrow> bit x 4" "(x AND 0x20 :: u64) \<noteq> 0 \<longleftrightarrow> bit x 5"
  "(x AND 0x40 :: u64) \<noteq> 0 \<longleftrightarrow> bit x 6" "(x AND 0x80 :: u64) \<noteq> 0 \<longleftrightarrow> bit x 7"
  using and_single [of x 0] and_single [of x 1] and_single [of x 2] and_single [of x 3] and_single [of x 4]
    and_single [of x 5] and_single [of x 6] and_single [of x 7] by simp_all

lemma pte_set_bit:
  "bit (arch_mmu_pte_set st level pa fl) n \<longleftrightarrow>
     (10 \<le> n \<and> n < 64 \<and> arch_mmu_level_block_shift st level \<le> n + 2 \<and> bit pa (n + 2)) \<or>
     (n = 8 \<and> bit (pg_rsw fl) 0) \<or> (n = 9 \<and> bit (pg_rsw fl) 1) \<or> (n = 7 \<and> pg_dirty fl) \<or> (n = 6 \<and> pg_accessed fl) \<or>
     (n = 5 \<and> pg_global fl) \<or> (n = 4 \<and> pg_user fl) \<or> (n = 3 \<and> pg_execute fl) \<or> (n = 2 \<and> pg_write fl) \<or>
     (n = 1 \<and> pg_read fl) \<or> n = 0"
proof -
  have i: "bit (if P then x else 0 :: u64) n \<longleftrightarrow> P \<and> bit x n" for P x by simp
  have a: "bit (push_bit 10 (drop_bit 12 (pa AND arch_mmu_level_map_mask st level))) n \<longleftrightarrow>
      10 \<le> n \<and> n < 64 \<and> arch_mmu_level_block_shift st level \<le> n + 2 \<and> bit pa (n + 2)"
    by (simp only: bit_push_bit_iff bit_drop_bit_eq o_apply map_mask_bit possible_bit_word)
      (auto simp: add.commute)
  have r: "bit (push_bit 8 (ucast (pg_rsw fl)) AND (0x300 :: u64)) n \<longleftrightarrow> (n = 8 \<and> bit (pg_rsw fl) 0) \<or> (n = 9 \<and> bit (pg_rsw fl) 1)"
    by (simp only: bit_and_iff low_bits bit_push_bit_iff unsigned_ucast_eq bit_unsigned_iff possible_bit_word) auto
  show ?thesis
    unfolding arch_mmu_pte_set_def PGTBL_PAGE_SIZE_SHIFT_def by (simp only: bit_or_iff a r i low_bits) blast
qed

lemma set_table_bit:
  "bit (arch_mmu_pte_set_table pa) n \<longleftrightarrow> (10 \<le> n \<and> n < 64 \<and> bit pa (n + 2)) \<or> n = 0"
  by (auto simp: arch_mmu_pte_set_table_def bit_simps)

text \<open>What a written entry reads back as: a page with its address and flags, a table with its address.\<close>

lemma addr_bit: "bit (arch_mmu_pte_addr pte) n \<longleftrightarrow> 12 \<le> n \<and> n < 56 \<and> bit pte (n - 2)"
  by (auto simp: arch_mmu_pte_addr_def addr_mask_bits bit_simps)

lemma table_addr_eq: "arch_mmu_pte_table_addr pte = arch_mmu_pte_addr pte"
  by (simp add: arch_mmu_pte_table_addr_def arch_mmu_pte_addr_def)

lemma is_table_bits: "arch_mmu_pte_is_table pte \<longleftrightarrow> \<not> bit pte 1 \<and> \<not> bit pte 2 \<and> \<not> bit pte 3"
proof -
  have "(0xE::u64) = 0x2 OR 0x4 OR 0x8" by simp
  then have "pte AND 0xE = (pte AND 0x2) OR (pte AND 0x4) OR (pte AND 0x8)" by (simp only: bit.conj_disj_distrib)
  then have "pte AND 0xE = 0 \<longleftrightarrow> pte AND 0x2 = 0 \<and> pte AND 0x4 = 0 \<and> pte AND 0x8 = 0" by (simp only: or_eq_0_iff)
  then show ?thesis unfolding arch_mmu_pte_is_table_def using and_flags(2-4) [of pte] by blast
qed

lemma is_valid_bit: "arch_mmu_pte_is_valid pte \<longleftrightarrow> bit pte 0"
  by (simp add: arch_mmu_pte_is_valid_def and_flags)

lemma pte_set_valid [simp]: "arch_mmu_pte_is_valid (arch_mmu_pte_set st level pa fl)"
  by (simp add: is_valid_bit pte_set_bit)

lemma pte_set_is_table [simp]:
  "arch_mmu_pte_is_table (arch_mmu_pte_set st level pa fl) \<longleftrightarrow> \<not> pg_read fl \<and> \<not> pg_write fl \<and> \<not> pg_execute fl"
  by (auto simp: is_table_bits pte_set_bit)

lemma pte_set_bit_high:
  "10 \<le> n \<Longrightarrow> bit (arch_mmu_pte_set st level pa fl) n \<longleftrightarrow>
     n < 64 \<and> arch_mmu_level_block_shift st level \<le> n + 2 \<and> bit pa (n + 2)"
  unfolding pte_set_bit by auto

lemma pte_set_addr:
  assumes "unat pa < 2 ^ 56"
  shows "arch_mmu_pte_addr (arch_mmu_pte_set st level pa fl) = pa AND arch_mmu_level_map_mask st level"
proof (rule bit_word_eqI)
  fix n assume n: "n < LENGTH(64)"
  show "bit (arch_mmu_pte_addr (arch_mmu_pte_set st level pa fl)) n = bit (pa AND arch_mmu_level_map_mask st level) n"
  proof (cases "12 \<le> n")
    case True
    then have "10 \<le> n - 2" "n - 2 + 2 = n" by simp_all
    then show ?thesis
      unfolding addr_bit map_mask_bit using pte_set_bit_high [of "n - 2" st level pa fl] small_bit [OF assms, of n] n True by auto
  next
    case False
    then show ?thesis unfolding addr_bit map_mask_bit using block_shift_ge(1) [of st level] by auto
  qed
qed

lemma pte_set_flags: "arch_mmu_pte_flags (arch_mmu_pte_set st level pa fl) = fl\<lparr>pg_valid := True\<rparr>"
proof -
  let ?e = "arch_mmu_pte_set st level pa fl"
  have b: "bit ?e 0" "bit ?e 1 = pg_read fl" "bit ?e 2 = pg_write fl" "bit ?e 3 = pg_execute fl" "bit ?e 4 = pg_user fl"
    "bit ?e 5 = pg_global fl" "bit ?e 6 = pg_accessed fl" "bit ?e 7 = pg_dirty fl" "bit ?e 8 = bit (pg_rsw fl) 0"
    "bit ?e 9 = bit (pg_rsw fl) 1"
    unfolding pte_set_bit by simp_all
  have r: "ucast (drop_bit 8 (?e AND 0x300)) = pg_rsw fl"
  proof (rule bit_word_eqI)
    fix n assume "n < LENGTH(2)"
    then have "n = 0 \<or> n = 1" by auto
    have "bit (ucast (drop_bit 8 (?e AND 0x300)) :: 2 word) n \<longleftrightarrow> n < 2 \<and> bit ?e (8 + n) \<and> (8 + n = 8 \<or> 8 + n = 9)"
      by (simp only: bit_unsigned_iff possible_bit_word bit_drop_bit_eq o_apply bit_and_iff low_bits) simp
    also have "\<dots> \<longleftrightarrow> bit (pg_rsw fl) n" using \<open>n = 0 \<or> n = 1\<close> b(9,10) by auto
    finally show "bit (ucast (drop_bit 8 (?e AND 0x300)) :: 2 word) n = bit (pg_rsw fl) n" .
  qed
  show ?thesis unfolding arch_mmu_pte_flags_def and_flags b(2-8) r using b(1) by (cases fl) simp
qed

lemma set_table_valid [simp]: "arch_mmu_pte_is_valid (arch_mmu_pte_set_table pa)"
  by (simp add: is_valid_bit set_table_bit)

lemma set_table_is_table [simp]: "arch_mmu_pte_is_table (arch_mmu_pte_set_table pa)"
  by (simp add: is_table_bits set_table_bit)

lemma set_table_addr:
  assumes "unat pa < 2 ^ 56" and "pa AND 0xFFF = 0"
  shows "arch_mmu_pte_table_addr (arch_mmu_pte_set_table pa) = pa"
  unfolding table_addr_eq
proof (rule bit_word_eqI)
  fix n assume "n < LENGTH(64)"
  have "(0xFFF::u64) = mask 12" by (simp add: mask_eq_exp_minus_1)
  then have "pa AND mask 12 = 0" using assms(2) by simp
  then have "\<not> bit (pa AND mask 12) n" by simp
  then have "\<not> bit pa n" if "n < 12" using that \<open>n < LENGTH(64)\<close> by (simp add: bit_simps)
  moreover have "n - 2 + 2 = n" if "12 \<le> n" using that by simp
  ultimately show "bit (arch_mmu_pte_addr (arch_mmu_pte_set_table pa)) n = bit pa n"
    unfolding addr_bit set_table_bit using small_bit [OF assms(1), of n] by (cases "12 \<le> n") auto
qed

lemma zero_invalid [simp]: "\<not> arch_mmu_pte_is_valid 0"
  by (simp add: arch_mmu_pte_is_valid_def)

section \<open>Indices\<close>

text \<open>The number of entries of a table, and the bound on every index into it.\<close>

definition table_entries :: "mmu_modes \<Rightarrow> mmu_stage \<Rightarrow> nat \<Rightarrow> nat" where
  "table_entries M st level = 2 ^ arch_mmu_pgtbl_size_order M st level div 8"

lemma index_mask_shift: "level \<le> 4 \<Longrightarrow> level_index_mask level = push_bit (arch_mmu_level_index_shift st level) (mask 9)"
  by (simp add: level_index_mask_def arch_mmu_level_index_shift_def mask_eq_exp_minus_1)

lemma level_index_bits:
  assumes "level \<le> 4"
  shows "arch_mmu_level_index M ia st level =
    unat (take_bit (if st \<noteq> MMU_STAGE1 \<and> level = arch_mmu_start_level M st then 11 else 9) (drop_bit (arch_mmu_level_block_shift st level) ia))"
proof -
  let ?s = "arch_mmu_level_block_shift st level" and ?r = "st \<noteq> MMU_STAGE1 \<and> level = arch_mmu_start_level M st"
  have sh: "arch_mmu_level_index_shift st level = ?s"
    by (simp add: arch_mmu_level_index_shift_def arch_mmu_level_block_shift_def)
  have t: "(3::u64) = mask 2" by (simp add: mask_eq_exp_minus_1)
  have m: "(if ?r then push_bit 2 (level_index_mask level) OR push_bit ?s 3 else level_index_mask level) =
      push_bit ?s (mask (if ?r then 11 else 9))"
  proof (cases ?r)
    case True
    have "push_bit 2 (mask 9) OR (mask 2 :: u64) = mask 11" by (simp add: mask_eq_exp_minus_1)
    then have "push_bit ?s (push_bit 2 (mask 9)) OR push_bit ?s (mask 2 :: u64) = push_bit ?s (mask 11)" by (simp only: push_bit_or [symmetric])
    moreover have "push_bit 2 (push_bit ?s (mask 9 :: u64)) = push_bit ?s (push_bit 2 (mask 9))" by (simp add: push_bit_push_bit add.commute)
    ultimately show ?thesis using True index_mask_shift [OF assms, of st] sh t by (simp only: if_True simp_thms)
  qed (use index_mask_shift [OF assms, of st] sh in \<open>simp only: if_False\<close>)
  have "drop_bit ?s (ia AND push_bit ?s (mask k)) = take_bit k (drop_bit ?s ia)" for k
    by (rule bit_word_eqI) (auto simp: bit_simps dest: bit_imp_le_length)
  then show ?thesis unfolding arch_mmu_level_index_def Let_def sh m by simp
qed

lemma level_index_bound: "level \<le> 4 \<Longrightarrow> arch_mmu_level_index M ia st level < table_entries M st level"
proof -
  assume l: "level \<le> 4"
  have "unat (take_bit k x) < 2 ^ k" for k and x :: u64
    by (simp add: unsigned_take_bit_eq take_bit_nat_less_exp)
  from this [of 11] this [of 9] show ?thesis
    unfolding level_index_bits [OF l] table_entries_def arch_mmu_pgtbl_size_order_def by simp
qed

end
