(* ===== verification/Mmu.thy ===== *)
theory Mmu
  imports Riscv_mmu
begin

text \<open>
  Page tables, \<^verbatim>\<open>arch/common/generic_mmu.c\<close>, on the RISC-V formats: allocation from the pool or from host pages,
  attaching a table to its parent, mapping, unmapping and looking up pages and blocks, walking the tables, and the
  hypervisor's own address space.

  A table is a number; its \<^verbatim>\<open>struct mmu_pgtbl\<close> and its entries are a record in a store. Numbers below
  \<open>init_count\<close> are the elements of \<^verbatim>\<open>ipgtbl_pool_array\<close>, the next \<open>pool_count\<close> those of \<^verbatim>\<open>pgtbl_pool_array\<close>, the next one is
  \<^verbatim>\<open>hyp_pgtbl\<close>, and larger ones are tables allocated from host pages. The radix tree that finds these is a map from
  keys to tables. Each function holds the lock of the table it works on; the flushes of the translation caches are
  entries of a log. A result \<^const>\<open>None\<close> is a recursion that does not end.
\<close>

section \<open>State\<close>

record pgtbl =
  parent :: "nat option"
  pt_stage :: mmu_stage
  pt_level :: nat
  pt_attr :: u32
  hw_tag :: u32
  map_ia :: u64
  tbl_pa :: u64
  tbl_sz :: u64
  pte_cnt :: u32
  child_cnt :: u32
  child_list :: "nat list"
  tbl :: "nat \<Rightarrow> u64"

record mmu_page =
  page_ia :: u64
  page_oa :: u64
  page_sz :: u64
  page_flags :: pgflags

text \<open>A flush: stage, remote or local, the hardware tag if the table has one, address and size.\<close>

type_synonym tlb_flush = "mmu_stage \<times> bool \<times> u32 option \<times> u64 \<times> u64"

record mmu_sys =
  pgtbls :: "nat \<Rightarrow> pgtbl"
  pool_free_list :: "nat list"
  pool_alloc_count :: u64
  nonpool_list :: "nat list"
  nonpool_tree :: "u64 \<Rightarrow> nat option"
  next_tbl :: nat
  host_allocs :: nat
  tlb_flushes :: "tlb_flush list"

text \<open>
  The build and the platform: sizes and addresses of the two pools, and the host allocator, which answers the \<open>k\<close>-th
  request for a table with its physical address (\<^const>\<open>None\<close> when no memory for it is left). \<open>tree_mem\<close> says whether the
  radix tree finds memory for a new key.
\<close>

record mmu_cfg =
  modes :: mmu_modes
  init_count :: nat
  pool_count :: nat
  ipgtbl_base_pa :: u64
  pgtbl_base_pa :: u64
  new_table :: "nat \<Rightarrow> u64 option"
  tree_mem :: "nat \<Rightarrow> bool"

definition hyp_pgtbl :: "mmu_cfg \<Rightarrow> nat" where
  "hyp_pgtbl C = init_count C + pool_count C"

definition upd_pgtbl :: "nat \<Rightarrow> (pgtbl \<Rightarrow> pgtbl) \<Rightarrow> mmu_sys \<Rightarrow> mmu_sys" where
  "upd_pgtbl t f s = s\<lparr>pgtbls := (pgtbls s)(t := f (pgtbls s t))\<rparr>"

section \<open>Pools\<close>

definition mmu_pgtbl_pool_alloc :: "mmu_sys \<Rightarrow> nat option \<times> mmu_sys" where
  "mmu_pgtbl_pool_alloc s =
     (case pool_free_list s of
        [] \<Rightarrow> (None, s)
      | t # ts \<Rightarrow> (Some t, s\<lparr>pool_free_list := ts, pool_alloc_count := pool_alloc_count s + 1\<rparr>))"

text \<open>When the first range contains the address but the index is too large, the second test sees the difference.\<close>

definition mmu_pgtbl_pool_find :: "mmu_cfg \<Rightarrow> u64 \<Rightarrow> nat option" where
  "mmu_pgtbl_pool_find C pa =
     (let p0 = pa AND NOT (0x1000 - 1);
          in1 = (ipgtbl_base_pa C \<le> p0 \<and> p0 \<le> ipgtbl_base_pa C + of_nat (init_count C) * 0x1000);
          p1 = (if in1 then p0 - ipgtbl_base_pa C else p0);
          i1 = unat (drop_bit 12 p1)
      in if in1 \<and> i1 < init_count C then Some i1
         else let in2 = (pgtbl_base_pa C \<le> p1 \<and> p1 \<le> pgtbl_base_pa C + of_nat (pool_count C) * 0x1000);
                  i2 = unat (drop_bit 12 (p1 - pgtbl_base_pa C))
              in if in2 \<and> i2 < pool_count C then Some (init_count C + i2) else None)"

definition count_tables :: "mmu_stage \<Rightarrow> nat \<Rightarrow> nat list \<Rightarrow> mmu_sys \<Rightarrow> u64" where
  "count_tables st level ts s =
     of_nat (length (filter (\<lambda>t. pt_stage (pgtbls s t) = st \<and> pt_level (pgtbls s t) = level) ts))"

definition mmu_pgtbl_pool_count :: "mmu_cfg \<Rightarrow> mmu_stage \<Rightarrow> nat \<Rightarrow> mmu_sys \<Rightarrow> u64" where
  "mmu_pgtbl_pool_count C st level s =
     count_tables st level [0..<init_count C] s + count_tables st level [init_count C..<init_count C + pool_count C] s"

definition mmu_pgtbl_pool_free :: "nat \<Rightarrow> mmu_sys \<Rightarrow> mmu_sys" where
  "mmu_pgtbl_pool_free t s = s\<lparr>pool_free_list := pool_free_list s @ [t], pool_alloc_count := pool_alloc_count s - 1\<rparr>"

definition nonpool_key :: "mmu_stage \<Rightarrow> u64 \<Rightarrow> u64" where
  "nonpool_key st pa = drop_bit (arch_mmu_pgtbl_min_align_order st) pa"

definition mmu_pgtbl_nonpool_alloc :: "mmu_cfg \<Rightarrow> mmu_stage \<Rightarrow> nat \<Rightarrow> mmu_sys \<Rightarrow> nat option \<times> mmu_sys" where
  "mmu_pgtbl_nonpool_alloc C st level s =
     (let k = host_allocs s; s1 = s\<lparr>host_allocs := Suc k\<rparr>; t = next_tbl s in
      case new_table C k of
        None \<Rightarrow> (None, s1)
      | Some pa \<Rightarrow>
          if nonpool_tree s (nonpool_key st pa) \<noteq> None \<or> \<not> tree_mem C k then (None, s1)
          else (Some t, upd_pgtbl t (\<lambda>x. x\<lparr>tbl_pa := pa, tbl_sz := push_bit (arch_mmu_pgtbl_size_order (modes C) st level) 1\<rparr>)
                  (s1\<lparr>next_tbl := Suc t, nonpool_list := nonpool_list s @ [t],
                      nonpool_tree := (nonpool_tree s)(nonpool_key st pa := Some t)\<rparr>)))"

definition mmu_pgtbl_nonpool_find :: "mmu_stage \<Rightarrow> u64 \<Rightarrow> mmu_sys \<Rightarrow> nat option" where
  "mmu_pgtbl_nonpool_find st pa s = nonpool_tree s (nonpool_key st pa)"

definition mmu_pgtbl_nonpool_count :: "mmu_stage \<Rightarrow> nat \<Rightarrow> mmu_sys \<Rightarrow> u64" where
  "mmu_pgtbl_nonpool_count st level s = count_tables st level (nonpool_list s) s"

definition mmu_pgtbl_nonpool_free :: "mmu_stage \<Rightarrow> nat \<Rightarrow> mmu_sys \<Rightarrow> mmu_sys" where
  "mmu_pgtbl_nonpool_free st t s =
     s\<lparr>nonpool_list := remove1 t (nonpool_list s),
       nonpool_tree := (nonpool_tree s)(nonpool_key st (tbl_pa (pgtbls s t)) := None)\<rparr>"

definition mmu_pgtbl_count :: "mmu_cfg \<Rightarrow> mmu_stage \<Rightarrow> nat \<Rightarrow> mmu_sys \<Rightarrow> u64" where
  "mmu_pgtbl_count C st level s =
     (if st = MMU_STAGE1
      then mmu_pgtbl_pool_count C st level s + (if level = arch_mmu_start_level (modes C) st then 1 else 0)
      else mmu_pgtbl_nonpool_count st level s)"

definition mmu_pgtbl_find :: "mmu_cfg \<Rightarrow> mmu_stage \<Rightarrow> u64 \<Rightarrow> mmu_sys \<Rightarrow> nat option" where
  "mmu_pgtbl_find C st pa s =
     (if st = MMU_STAGE1 then mmu_pgtbl_pool_find C pa else mmu_pgtbl_nonpool_find st pa s)"

section \<open>Attaching tables\<close>

definition mmu_pgtbl_isattached :: "nat \<Rightarrow> mmu_sys \<Rightarrow> bool" where
  "mmu_pgtbl_isattached c s \<longleftrightarrow> parent (pgtbls s c) \<noteq> None"

definition tbl_index :: "mmu_cfg \<Rightarrow> u64 \<Rightarrow> pgtbl \<Rightarrow> nat" where
  "tbl_index C ia x = arch_mmu_level_index (modes C) ia (pt_stage x) (pt_level x)"

definition mmu_pgtbl_attach :: "mmu_cfg \<Rightarrow> nat \<Rightarrow> u64 \<Rightarrow> nat \<Rightarrow> mmu_sys \<Rightarrow> int \<times> mmu_sys" where
  "mmu_pgtbl_attach C p ia c s =
     (let P = pgtbls s p; X = pgtbls s c; i = tbl_index C ia P in
      if mmu_pgtbl_isattached c s then (VMM_EFAIL, s)
      else if pt_level P = 0 \<or> pt_stage X \<noteq> pt_stage P then (VMM_EFAIL, s)
      else if arch_mmu_pte_is_valid (tbl P i) then (VMM_EEXIST, s)
      else (VMM_OK,
        upd_pgtbl p (\<lambda>x. x\<lparr>pte_cnt := pte_cnt x + 1, child_cnt := child_cnt x + 1, child_list := c # child_list x\<rparr>)
          (upd_pgtbl c (\<lambda>x. x\<lparr>parent := Some p, pt_level := pt_level P - 1,
                map_ia := ia AND arch_mmu_level_map_mask (pt_stage P) (pt_level P)\<rparr>)
            (upd_pgtbl p (\<lambda>x. x\<lparr>tbl := (tbl x)(i := arch_mmu_pte_set_table (tbl_pa X))\<rparr>) s))))"

definition mmu_pgtbl_deattach :: "mmu_cfg \<Rightarrow> nat \<Rightarrow> mmu_sys \<Rightarrow> int \<times> mmu_sys" where
  "mmu_pgtbl_deattach C c s =
     (case parent (pgtbls s c) of
        None \<Rightarrow> (VMM_EFAIL, s)
      | Some p \<Rightarrow>
          let P = pgtbls s p; i = tbl_index C (map_ia (pgtbls s c)) P in
          if \<not> arch_mmu_pte_is_valid (tbl P i) then (VMM_EFAIL, s)
          else (VMM_OK,
            upd_pgtbl p (\<lambda>x. x\<lparr>pte_cnt := pte_cnt x - 1, child_cnt := child_cnt x - 1, child_list := remove1 c (child_list x)\<rparr>)
              (upd_pgtbl c (\<lambda>x. x\<lparr>parent := None\<rparr>) (upd_pgtbl p (\<lambda>x. x\<lparr>tbl := (tbl x)(i := 0)\<rparr>) s))))"

text \<open>A negative level stands for the level of the root and is \<^const>\<open>None\<close> here.\<close>

definition mmu_pgtbl_alloc :: "mmu_cfg \<Rightarrow> mmu_stage \<Rightarrow> nat option \<Rightarrow> u32 \<Rightarrow> u32 \<Rightarrow> mmu_sys \<Rightarrow> nat option \<times> mmu_sys" where
  "mmu_pgtbl_alloc C st lvl attr tag s =
     (if st = MMU_STAGE_UNKNOWN then (None, s)
      else let level = (case lvl of None \<Rightarrow> arch_mmu_start_level (modes C) st | Some l \<Rightarrow> l);
               (r, s1) = (if st = MMU_STAGE1 then mmu_pgtbl_pool_alloc s else mmu_pgtbl_nonpool_alloc C st level s)
           in case r of
                None \<Rightarrow> (None, s1)
              | Some t \<Rightarrow> (Some t, upd_pgtbl t (\<lambda>x. x\<lparr>parent := None, pt_stage := st, pt_level := level, pt_attr := attr,
                    hw_tag := tag, map_ia := 0, pte_cnt := 0, child_cnt := 0, child_list := [], tbl := (\<lambda>i. 0)\<rparr>) s1))"

text \<open>
  The end of \<^verbatim>\<open>mmu_pgtbl_free\<close>. The loop over the children starts again at the top of the function: the table has no
  parent any more, so the check there does nothing.
\<close>

definition pgtbl_release :: "nat \<Rightarrow> mmu_sys \<Rightarrow> mmu_sys" where
  "pgtbl_release t s =
     (let st = pt_stage (pgtbls s t);
          s1 = upd_pgtbl t (\<lambda>x. x\<lparr>pte_cnt := 0, pt_stage := MMU_STAGE_UNKNOWN, pt_level := 0, pt_attr := 0, hw_tag := 0, map_ia := 0\<rparr>) s
      in if st = MMU_STAGE1 then mmu_pgtbl_pool_free t s1 else mmu_pgtbl_nonpool_free st t s1)"

partial_function (option) mmu_pgtbl_free :: "mmu_cfg \<Rightarrow> nat \<Rightarrow> mmu_sys \<Rightarrow> (int \<times> mmu_sys) option" where
  "mmu_pgtbl_free C t s =
     (let (rc, s1) = (if mmu_pgtbl_isattached t s then mmu_pgtbl_deattach C t s else (VMM_OK, s)) in
      if rc \<noteq> 0 then Some (rc, s1)
      else case child_list (pgtbls s1 t) of
        [] \<Rightarrow> Some (VMM_OK, pgtbl_release t s1)
      | c # cs \<Rightarrow>
          let (rc2, s2) = mmu_pgtbl_deattach C c s1 in
          if rc2 \<noteq> 0 then Some (rc2, s2)
          else Option.bind (mmu_pgtbl_free C c s2) (\<lambda>(rc3, s3).
            if rc3 \<noteq> 0 then Some (rc3, s3) else mmu_pgtbl_free C t s3))"

definition child_at :: "mmu_cfg \<Rightarrow> nat \<Rightarrow> u64 \<Rightarrow> mmu_sys \<Rightarrow> nat option" where
  "child_at C p ia s =
     (let P = pgtbls s p; e = tbl P (tbl_index C ia P) in
      if arch_mmu_pte_is_table e
      then (case mmu_pgtbl_find C (pt_stage P) (arch_mmu_pte_table_addr e) s of
          Some c \<Rightarrow> if parent (pgtbls s c) = Some p then Some c else None
        | None \<Rightarrow> None)
      else None)"

definition mmu_pgtbl_get_child :: "mmu_cfg \<Rightarrow> nat \<Rightarrow> u64 \<Rightarrow> bool \<Rightarrow> mmu_sys \<Rightarrow> (nat option \<times> mmu_sys) option" where
  "mmu_pgtbl_get_child C p ia create s =
     (let P = pgtbls s p in
      if pt_level P = 0 then Some (None, s)
      else if arch_mmu_pte_is_valid (tbl P (tbl_index C ia P)) then Some (child_at C p ia s, s)
      else if \<not> create then Some (None, s)
      else let (r, s1) = mmu_pgtbl_alloc C (pt_stage P) (Some (pt_level P - 1)) (pt_attr P) (hw_tag P) s in
        case r of
          None \<Rightarrow> Some (None, s1)
        | Some c \<Rightarrow>
            let (rc, s2) = mmu_pgtbl_attach C p ia c s1 in
            if rc \<noteq> 0 then map_option (\<lambda>(rc3, s3). (None, s3)) (mmu_pgtbl_free C c s2)
            else Some (Some c, s2))"

section \<open>Pages\<close>

definition entry_page :: "pgtbl \<Rightarrow> u64 \<Rightarrow> u64 \<Rightarrow> mmu_page" where
  "entry_page P ia e =
     \<lparr>page_ia = ia AND arch_mmu_level_map_mask (pt_stage P) (pt_level P), page_oa = arch_mmu_pte_addr e,
      page_sz = arch_mmu_level_block_size (pt_stage P) (pt_level P), page_flags = arch_mmu_pte_flags e\<rparr>"

partial_function (option) mmu_get_page :: "mmu_cfg \<Rightarrow> nat \<Rightarrow> u64 \<Rightarrow> mmu_sys \<Rightarrow> (int + mmu_page) option" where
  "mmu_get_page C t ia s =
     (let P = pgtbls s t; e = tbl P (tbl_index C ia P) in
      if \<not> arch_mmu_pte_is_valid e then Some (Inl VMM_EFAIL)
      else if pt_level P = 0 \<and> arch_mmu_pte_is_table e then Some (Inl VMM_EFAIL)
      else if pt_level P > 0 \<and> arch_mmu_pte_is_table e then
        (case child_at C t ia s of None \<Rightarrow> Some (Inl VMM_EFAIL) | Some c \<Rightarrow> mmu_get_page C c ia s)
      else Some (Inr (entry_page P ia e)))"

definition tlb_flush_page :: "pgtbl \<Rightarrow> u64 \<Rightarrow> u64 \<Rightarrow> mmu_sys \<Rightarrow> mmu_sys" where
  "tlb_flush_page P ia blksz s =
     s\<lparr>tlb_flushes := tlb_flushes s @ [(pt_stage P, pt_attr P AND 1 \<noteq> 0, if pt_attr P AND 2 \<noteq> 0 then Some (hw_tag P) else None, ia, blksz)]\<rparr>"

definition free_if_empty :: "mmu_cfg \<Rightarrow> nat \<Rightarrow> nat \<Rightarrow> int \<Rightarrow> mmu_sys \<Rightarrow> (int \<times> mmu_sys) option" where
  "free_if_empty C start_level t rc s =
     (if pte_cnt (pgtbls s t) = 0 \<and> pt_level (pgtbls s t) < start_level
      then map_option (\<lambda>(rc', s'). (rc, s')) (mmu_pgtbl_free C t s) else Some (rc, s))"

partial_function (option) mmu_unmap_page :: "mmu_cfg \<Rightarrow> nat \<Rightarrow> mmu_page \<Rightarrow> mmu_sys \<Rightarrow> (int \<times> mmu_sys) option" where
  "mmu_unmap_page C t pg s =
     (let P = pgtbls s t; blksz = arch_mmu_level_block_size (pt_stage P) (pt_level P);
          start_level = arch_mmu_start_level (modes C) (pt_stage P); i = tbl_index C (page_ia pg) P in
      if \<not> arch_mmu_valid_block_size (page_sz pg) then Some (VMM_EFAIL, s)
      else if page_sz pg > blksz then Some (VMM_EFAIL, s)
      else if page_sz pg < blksz then
        Option.bind (mmu_pgtbl_get_child C t (page_ia pg) False s) (\<lambda>(r, s1).
          case r of
            None \<Rightarrow> Some (VMM_EFAIL, s1)
          | Some c \<Rightarrow> Option.bind (mmu_unmap_page C c pg s1) (\<lambda>(rc, s2). free_if_empty C start_level t rc s2))
      else if \<not> arch_mmu_pte_is_valid (tbl P i) then Some (VMM_EFAIL, s)
      else if pt_level P = 0 \<and> arch_mmu_pte_is_table (tbl P i) then Some (VMM_EFAIL, s)
      else free_if_empty C start_level t VMM_OK
        (upd_pgtbl t (\<lambda>x. x\<lparr>pte_cnt := pte_cnt x - 1\<rparr>)
          (tlb_flush_page P (page_ia pg) blksz (upd_pgtbl t (\<lambda>x. x\<lparr>tbl := (tbl x)(i := 0)\<rparr>) s))))"

partial_function (option) mmu_map_page :: "mmu_cfg \<Rightarrow> nat \<Rightarrow> mmu_page \<Rightarrow> mmu_sys \<Rightarrow> (int \<times> mmu_sys) option" where
  "mmu_map_page C t pg s =
     (let P = pgtbls s t; blksz = arch_mmu_level_block_size (pt_stage P) (pt_level P); i = tbl_index C (page_ia pg) P in
      if \<not> arch_mmu_valid_block_size (page_sz pg) then Some (VMM_EINVALID, s)
      else if page_sz pg > blksz then Some (VMM_EFAIL, s)
      else if page_sz pg < blksz then
        Option.bind (mmu_pgtbl_get_child C t (page_ia pg) True s) (\<lambda>(r, s1).
          case r of None \<Rightarrow> Some (VMM_EFAIL, s1) | Some c \<Rightarrow> mmu_map_page C c pg s1)
      else if arch_mmu_pte_is_valid (tbl P i) then Some (VMM_EFAIL, s)
      else Some (VMM_OK, upd_pgtbl t (\<lambda>x. x\<lparr>pte_cnt := pte_cnt x + 1\<rparr>)
        (tlb_flush_page P (page_ia pg) blksz
          (upd_pgtbl t (\<lambda>x. x\<lparr>tbl := (tbl x)(i := arch_mmu_pte_set (pt_stage P) (pt_level P) (page_oa pg) (page_flags pg))\<rparr>) s))))"

section \<open>Tables of a guest\<close>

text \<open>
  The walk of tables in guest memory. \<open>gpa2hpa\<close> is the callback that translates the address of a table and \<open>rd\<close> the read
  of an entry from host memory; the faults set on the way are listed. Levels go down to 0, so the recursion is on them.
\<close>

definition VMM_EFAULT :: int where [simp]: "VMM_EFAULT = -23"

record guest_page_ops =
  gpa2hpa :: "mmu_stage \<Rightarrow> nat \<Rightarrow> u64 \<Rightarrow> int + u64"
  read_pte :: "u64 \<Rightarrow> u64 option"

type_synonym guest_fault = "mmu_stage \<times> nat \<times> u64"

fun guest_walk :: "mmu_cfg \<Rightarrow> guest_page_ops \<Rightarrow> mmu_stage \<Rightarrow> nat \<Rightarrow> u64 \<Rightarrow> u64 \<Rightarrow> (int + mmu_page) \<times> guest_fault list" where
  "guest_walk C ops st level pgtbl_guest_pa ia =
     (case gpa2hpa ops st level pgtbl_guest_pa of
        Inl rc \<Rightarrow> (Inl rc, if rc = VMM_EFAULT then [(st, level, ia)] else [])
      | Inr pte_pa \<Rightarrow>
          case read_pte ops (pte_pa + of_nat (arch_mmu_level_index (modes C) ia st level) * 8) of
            None \<Rightarrow> (Inl VMM_EFAULT, [(st, level, ia)])
          | Some e \<Rightarrow>
              if \<not> arch_mmu_pte_is_valid e then (Inl VMM_EFAULT, [(st, level, ia)])
              else if arch_mmu_pte_is_table e then
                (case level of
                   0 \<Rightarrow> (Inl VMM_EFAULT, [(st, level, ia)])
                 | Suc l \<Rightarrow> guest_walk C ops st l (arch_mmu_pte_table_addr e) ia)
              else (Inr \<lparr>page_ia = ia AND arch_mmu_level_map_mask st level, page_oa = arch_mmu_pte_addr e,
                  page_sz = arch_mmu_level_block_size st level, page_flags = arch_mmu_pte_flags e\<rparr>, []))"

text \<open>A negative level stands for the level of the root and is \<^const>\<open>None\<close> here.\<close>

definition mmu_get_guest_page ::
  "mmu_cfg \<Rightarrow> guest_page_ops \<Rightarrow> u64 \<Rightarrow> mmu_stage \<Rightarrow> nat option \<Rightarrow> u64 \<Rightarrow> (int + mmu_page) \<times> guest_fault list" where
  "mmu_get_guest_page C ops pgtbl_guest_pa st lvl ia =
     (let root = arch_mmu_start_level (modes C) st; level = (case lvl of None \<Rightarrow> root | Some l \<Rightarrow> l) in
      if st = MMU_STAGE_UNKNOWN \<or> root < level then (Inl VMM_EINVALID, [])
      else guest_walk C ops st level pgtbl_guest_pa ia)"

section \<open>Walks\<close>

text \<open>The range check that \<^verbatim>\<open>mmu_find_pte\<close> and \<^verbatim>\<open>mmu_walk_address\<close> share; a page-table entry has 8 bytes.\<close>

definition in_table_range :: "pgtbl \<Rightarrow> u64 \<Rightarrow> bool" where
  "in_table_range P ia \<longleftrightarrow>
     (let map_last = arch_mmu_level_block_size (pt_stage P) (pt_level P) * (tbl_sz P div 8) - 1
      in map_ia P \<le> ia \<and> ia \<le> map_ia P + map_last)"

text \<open>The table and the index of the entry.\<close>

partial_function (option) mmu_find_pte :: "mmu_cfg \<Rightarrow> nat \<Rightarrow> u64 \<Rightarrow> mmu_sys \<Rightarrow> (int + nat \<times> nat) option" where
  "mmu_find_pte C t ia s =
     (let P = pgtbls s t; i = tbl_index C ia P; e = tbl P i in
      if \<not> in_table_range P ia then Some (Inl VMM_EFAIL)
      else if \<not> arch_mmu_pte_is_valid e then Some (Inl VMM_EFAIL)
      else if pt_level P = 0 \<and> arch_mmu_pte_is_table e then Some (Inl VMM_EFAIL)
      else if pt_level P > 0 \<and> arch_mmu_pte_is_table e then
        (case child_at C t ia s of None \<Rightarrow> Some (Inl VMM_EFAIL) | Some c \<Rightarrow> mmu_find_pte C c ia s)
      else Some (Inr (t, i)))"

text \<open>\<open>fn\<close> is the callback; it may change the state the caller keeps.\<close>

partial_function (option) mmu_walk_address ::
  "mmu_cfg \<Rightarrow> (nat \<Rightarrow> nat \<Rightarrow> 'a \<Rightarrow> 'a) \<Rightarrow> mmu_sys \<Rightarrow> nat \<Rightarrow> u64 \<Rightarrow> 'a \<Rightarrow> 'a option" where
  "mmu_walk_address C fn s t ia a =
     (let P = pgtbls s t; i = tbl_index C ia P; e = tbl P i in
      if \<not> in_table_range P ia then Some a
      else let a1 = fn t i a in
        if \<not> arch_mmu_pte_is_valid e then Some a1
        else if pt_level P > 0 \<and> arch_mmu_pte_is_table e then
          (case child_at C t ia s of None \<Rightarrow> Some a1 | Some c \<Rightarrow> mmu_walk_address C fn s c ia a1)
        else Some a1)"

text \<open>
  The tables below a table, parents first. The callback gets and returns the state, since it may map pages in another
  table; a list of tables still to visit stands for the recursion.
\<close>

partial_function (option) walk_list ::
  "(nat \<Rightarrow> 'a \<Rightarrow> mmu_sys \<Rightarrow> ('a \<times> mmu_sys) option) \<Rightarrow> nat list \<Rightarrow> 'a \<Rightarrow> mmu_sys \<Rightarrow> ('a \<times> mmu_sys) option" where
  "walk_list fn ts a s =
     (case ts of
        [] \<Rightarrow> Some (a, s)
      | t # ts' \<Rightarrow> Option.bind (fn t a s) (\<lambda>(a1, s1). walk_list fn (child_list (pgtbls s1 t) @ ts') a1 s1))"

definition mmu_walk_tables ::
  "(nat \<Rightarrow> 'a \<Rightarrow> mmu_sys \<Rightarrow> ('a \<times> mmu_sys) option) \<Rightarrow> nat \<Rightarrow> 'a \<Rightarrow> mmu_sys \<Rightarrow> ('a \<times> mmu_sys) option" where
  "mmu_walk_tables fn t a s = walk_list fn [t] a s"

fun first_free :: "pgtbl \<Rightarrow> u64 \<Rightarrow> nat \<Rightarrow> nat \<Rightarrow> u64 option" where
  "first_free P min_addr i 0 = None"
| "first_free P min_addr i (Suc n) =
     (let ia = map_ia P + of_nat i * arch_mmu_level_block_size (pt_stage P) (pt_level P)
      in if \<not> arch_mmu_pte_is_valid (tbl P i) \<and> min_addr \<le> ia then Some ia else first_free P min_addr (Suc i) n)"

definition free_address_walk :: "u64 \<Rightarrow> nat \<Rightarrow> nat \<Rightarrow> u64 option \<Rightarrow> mmu_sys \<Rightarrow> (u64 option \<times> mmu_sys) option" where
  "free_address_walk min_addr level t found s =
     (let P = pgtbls s t in
      Some (if found \<noteq> None \<or> pt_level P \<noteq> level then found else first_free P min_addr 0 (unat (tbl_sz P div 8)), s))"

fun find_free_levels :: "nat \<Rightarrow> u64 \<Rightarrow> nat list \<Rightarrow> mmu_sys \<Rightarrow> (int + u64) option" where
  "find_free_levels t min_addr [] s = Some (Inl VMM_ENOTAVAIL)"
| "find_free_levels t min_addr (l # ls) s =
     Option.bind (mmu_walk_tables (free_address_walk min_addr l) t None s) (\<lambda>(found, s').
       case found of Some a \<Rightarrow> Some (Inr a) | None \<Rightarrow> find_free_levels t min_addr ls s)"

definition mmu_find_free_address :: "nat \<Rightarrow> u64 \<Rightarrow> nat \<Rightarrow> mmu_sys \<Rightarrow> (int + u64) option" where
  "mmu_find_free_address t min_addr page_order s =
     (let P = pgtbls s t;
          ls = dropWhile (\<lambda>l. arch_mmu_level_block_shift (pt_stage P) l < page_order) [0..<Suc (pt_level P)]
      in if ls = [] then Some (Inl VMM_EINVALID) else find_free_levels t min_addr ls s)"

section \<open>Nested tables\<close>

text \<open>\<open>offs\<close> are the offsets still to map.\<close>

fun idmap_pages :: "mmu_cfg \<Rightarrow> nat \<Rightarrow> nat \<Rightarrow> u64 \<Rightarrow> u32 \<Rightarrow> u64 \<Rightarrow> u64 list \<Rightarrow> mmu_sys \<Rightarrow> (int \<times> mmu_sys) option" where
  "idmap_pages C s2 level map_size rflags pa [] s = Some (VMM_OK, s)"
| "idmap_pages C s2 level map_size rflags pa (ta # tas) s =
     (let a = (pa + ta) AND arch_mmu_level_map_mask MMU_STAGE2 level;
          pg = \<lparr>page_ia = a, page_oa = a, page_sz = map_size, page_flags = arch_mmu_pgflags_set MMU_STAGE2 rflags\<rparr>
      in Option.bind (mmu_get_page C s2 a s) (\<lambda>r.
        case r of
          Inl _ \<Rightarrow> Option.bind (mmu_map_page C s2 pg s) (\<lambda>(rc, s1).
            if rc \<noteq> 0 then Some (rc, s1) else idmap_pages C s2 level map_size rflags pa tas s1)
        | Inr tpg \<Rightarrow>
            if a \<noteq> page_ia tpg \<or> a \<noteq> page_oa tpg \<or> map_size \<noteq> page_sz tpg then Some (VMM_EFAIL, s)
            else idmap_pages C s2 level map_size rflags pa tas s))"

text \<open>\<^verbatim>\<open>for (ta = 0; ta < pgtbl->tbl_sz; ta += iw->map_size)\<close>\<close>

definition table_offsets :: "u64 \<Rightarrow> u64 \<Rightarrow> u64 list" where
  "table_offsets sz map_size = map (\<lambda>k. of_nat k * map_size) [0..<(unat sz + unat map_size - 1) div unat map_size]"

definition idmap_nested_pgtbl_walk ::
  "mmu_cfg \<Rightarrow> nat \<Rightarrow> nat \<Rightarrow> u64 \<Rightarrow> u32 \<Rightarrow> nat \<Rightarrow> int \<Rightarrow> mmu_sys \<Rightarrow> (int \<times> mmu_sys) option" where
  "idmap_nested_pgtbl_walk C s2 level map_size rflags t err s =
     (if err \<noteq> 0 then Some (err, s)
      else idmap_pages C s2 level map_size rflags (tbl_pa (pgtbls s t)) (table_offsets (tbl_sz (pgtbls s t)) map_size) s)"

definition mmu_idmap_nested_pgtbl :: "mmu_cfg \<Rightarrow> nat \<Rightarrow> nat \<Rightarrow> u64 \<Rightarrow> u32 \<Rightarrow> mmu_sys \<Rightarrow> (int \<times> mmu_sys) option" where
  "mmu_idmap_nested_pgtbl C s2 s1 map_size rflags s =
     (if pt_stage (pgtbls s s2) \<noteq> MMU_STAGE2 \<or> pt_stage (pgtbls s s1) \<noteq> MMU_STAGE1 then Some (VMM_EINVALID, s)
      else case dropWhile (\<lambda>l. arch_mmu_level_block_size MMU_STAGE2 l \<noteq> map_size) [0..<Suc (pt_level (pgtbls s s2))] of
        [] \<Rightarrow> Some (VMM_EINVALID, s)
      | level # _ \<Rightarrow> mmu_walk_tables (idmap_nested_pgtbl_walk C s2 level map_size rflags) s1 VMM_OK s)"

section \<open>The hypervisor's address space\<close>

definition mmu_get_hypervisor_page :: "mmu_cfg \<Rightarrow> u64 \<Rightarrow> mmu_sys \<Rightarrow> (int + mmu_page) option" where
  "mmu_get_hypervisor_page C va s = mmu_get_page C (hyp_pgtbl C) va s"

definition mmu_unmap_hypervisor_page :: "mmu_cfg \<Rightarrow> mmu_page \<Rightarrow> mmu_sys \<Rightarrow> (int \<times> mmu_sys) option" where
  "mmu_unmap_hypervisor_page C pg s = mmu_unmap_page C (hyp_pgtbl C) pg s"

definition mmu_map_hypervisor_page :: "mmu_cfg \<Rightarrow> mmu_page \<Rightarrow> mmu_sys \<Rightarrow> (int \<times> mmu_sys) option" where
  "mmu_map_hypervisor_page C pg s = mmu_map_page C (hyp_pgtbl C) pg s"

definition arch_cpu_aspace_hugepage_log2size :: nat where
  "arch_cpu_aspace_hugepage_log2size = arch_mmu_level_block_shift MMU_STAGE1 1"

definition arch_cpu_aspace_map :: "mmu_cfg \<Rightarrow> u64 \<Rightarrow> u64 \<Rightarrow> u64 \<Rightarrow> u32 \<Rightarrow> mmu_sys \<Rightarrow> (int \<times> mmu_sys) option" where
  "arch_cpu_aspace_map C va sz pa mflags s =
     (if sz \<noteq> arch_mmu_level_block_size MMU_STAGE1 0 \<and> sz \<noteq> arch_mmu_level_block_size MMU_STAGE1 1 then Some (VMM_EINVALID, s)
      else mmu_map_hypervisor_page C
        \<lparr>page_ia = va, page_oa = pa, page_sz = sz, page_flags = arch_mmu_pgflags_set MMU_STAGE1 mflags\<rparr> s)"

definition arch_cpu_aspace_unmap :: "mmu_cfg \<Rightarrow> u64 \<Rightarrow> mmu_sys \<Rightarrow> (int \<times> mmu_sys) option" where
  "arch_cpu_aspace_unmap C va s = do {
     r \<leftarrow> mmu_get_hypervisor_page C va s;
     (case r of Inl rc \<Rightarrow> Some (rc, s) | Inr pg \<Rightarrow> mmu_unmap_hypervisor_page C pg s) }"

definition arch_cpu_aspace_va2pa :: "mmu_cfg \<Rightarrow> u64 \<Rightarrow> mmu_sys \<Rightarrow> (int + u64) option" where
  "arch_cpu_aspace_va2pa C va s = do {
     r \<leftarrow> mmu_get_hypervisor_page C va s;
     Some (case r of Inl rc \<Rightarrow> Inl rc | Inr pg \<Rightarrow> Inr (page_oa pg + (va AND (page_sz pg - 1)))) }"

end
