(* ===== verification/Mmu_wf.thy ===== *)
theory Mmu_wf
  imports Mmu
begin

text \<open>
  The invariant of the page tables and its consequences for lookups. A table is live while its stage is known. Parent
  pointers, child lists, table entries, counts and the two ways of finding a table by its address agree; one step of
  \<^verbatim>\<open>mmu_get_page\<close> then either answers or goes to the child that owns the entry.
\<close>

section \<open>The invariant\<close>

definition live :: "mmu_sys \<Rightarrow> nat \<Rightarrow> bool" where
  "live s t \<longleftrightarrow> pt_stage (pgtbls s t) \<noteq> MMU_STAGE_UNKNOWN"

definition valid_entries :: "pgtbl \<Rightarrow> nat set" where
  "valid_entries P = {i. arch_mmu_pte_is_valid (tbl P i)}"

definition pool_addr :: "mmu_cfg \<Rightarrow> nat \<Rightarrow> u64" where
  "pool_addr C t = (if t < init_count C then ipgtbl_base_pa C + of_nat t * 0x1000
                    else pgtbl_base_pa C + of_nat (t - init_count C) * 0x1000)"

definition table_address :: "u64 \<Rightarrow> bool" where
  "table_address pa \<longleftrightarrow> unat pa < 2 ^ 56 \<and> pa AND 0xFFF = 0"

text \<open>
  What the tables need of the platform: the two pools are page aligned, lie below the largest address an entry can
  hold and are apart from each other, and the host allocator returns page-aligned addresses below that bound.
\<close>

definition cfg_ok :: "mmu_cfg \<Rightarrow> bool" where
  "cfg_ok C \<longleftrightarrow>
     ipgtbl_base_pa C AND 0xFFF = 0 \<and> pgtbl_base_pa C AND 0xFFF = 0 \<and>
     unat (ipgtbl_base_pa C) + init_count C * 0x1000 < 2 ^ 56 \<and> unat (pgtbl_base_pa C) + pool_count C * 0x1000 < 2 ^ 56 \<and>
     (unat (ipgtbl_base_pa C) + init_count C * 0x1000 < unat (pgtbl_base_pa C) \<or>
      unat (pgtbl_base_pa C) + pool_count C * 0x1000 \<le> unat (ipgtbl_base_pa C)) \<and>
     (\<forall>k pa. new_table C k = Some pa \<longrightarrow> table_address pa)"

definition link_wf :: "mmu_cfg \<Rightarrow> mmu_sys \<Rightarrow> bool" where
  "link_wf C s \<longleftrightarrow> (\<forall>c p. parent (pgtbls s c) = Some p \<longrightarrow>
     live s c \<and> live s p \<and> pt_stage (pgtbls s c) = pt_stage (pgtbls s p) \<and> pt_level (pgtbls s p) = Suc (pt_level (pgtbls s c)) \<and>
     tbl (pgtbls s p) (tbl_index C (map_ia (pgtbls s c)) (pgtbls s p)) = arch_mmu_pte_set_table (tbl_pa (pgtbls s c)))"

definition entry_wf :: "mmu_cfg \<Rightarrow> mmu_sys \<Rightarrow> bool" where
  "entry_wf C s \<longleftrightarrow> (\<forall>p i. live s p \<longrightarrow> arch_mmu_pte_is_valid (tbl (pgtbls s p) i) \<longrightarrow> arch_mmu_pte_is_table (tbl (pgtbls s p) i) \<longrightarrow>
     (\<exists>c. parent (pgtbls s c) = Some p \<and> tbl_index C (map_ia (pgtbls s c)) (pgtbls s p) = i))"

definition count_wf :: "mmu_sys \<Rightarrow> bool" where
  "count_wf s \<longleftrightarrow> (\<forall>t. live s t \<longrightarrow>
     valid_entries (pgtbls s t) \<subseteq> {..<2048} \<and> pte_cnt (pgtbls s t) = of_nat (card (valid_entries (pgtbls s t))))"

definition child_wf :: "mmu_sys \<Rightarrow> bool" where
  "child_wf s \<longleftrightarrow> (\<forall>t. live s t \<longrightarrow> set (child_list (pgtbls s t)) = {c. parent (pgtbls s c) = Some t} \<and>
     distinct (child_list (pgtbls s t)) \<and> child_cnt (pgtbls s t) = of_nat (length (child_list (pgtbls s t))))"

definition stage_wf :: "mmu_cfg \<Rightarrow> mmu_sys \<Rightarrow> bool" where
  "stage_wf C s \<longleftrightarrow>
     (\<forall>t. live s t \<longrightarrow> pt_level (pgtbls s t) \<le> arch_mmu_start_level (modes C) (pt_stage (pgtbls s t))) \<and>
     (\<forall>t. pt_stage (pgtbls s t) = MMU_STAGE1 \<longrightarrow> t < hyp_pgtbl C \<or>
        t = hyp_pgtbl C \<and> parent (pgtbls s t) = None \<and> pt_level (pgtbls s t) = arch_mmu_start_level (modes C) MMU_STAGE1) \<and>
     (\<forall>t. pt_stage (pgtbls s t) = MMU_STAGE2 \<longrightarrow> hyp_pgtbl C < t \<and> table_address (tbl_pa (pgtbls s t)) \<and>
        nonpool_tree s (nonpool_key MMU_STAGE2 (tbl_pa (pgtbls s t))) = Some t)"

definition store_wf :: "mmu_cfg \<Rightarrow> mmu_sys \<Rightarrow> bool" where
  "store_wf C s \<longleftrightarrow>
     distinct (pool_free_list s) \<and> (\<forall>t\<in>set (pool_free_list s). t < hyp_pgtbl C \<and> \<not> live s t) \<and>
     (\<forall>t<hyp_pgtbl C. tbl_pa (pgtbls s t) = pool_addr C t) \<and>
     hyp_pgtbl C < next_tbl s \<and> (\<forall>t\<ge>next_tbl s. \<not> live s t)"

definition mmu_wf :: "mmu_cfg \<Rightarrow> mmu_sys \<Rightarrow> bool" where
  "mmu_wf C s \<longleftrightarrow> link_wf C s \<and> entry_wf C s \<and> count_wf s \<and> child_wf s \<and> stage_wf C s \<and> store_wf C s"

lemma mmu_wfD:
  assumes "mmu_wf C s"
  shows "link_wf C s" "entry_wf C s" "count_wf s" "child_wf s" "stage_wf C s" "store_wf C s"
  using assms by (simp_all add: mmu_wf_def)

section \<open>Store updates\<close>

lemma upd_pgtbl_sel [simp]:
  "pgtbls (upd_pgtbl t f s) = (pgtbls s)(t := f (pgtbls s t))"
  "pool_free_list (upd_pgtbl t f s) = pool_free_list s" "pool_alloc_count (upd_pgtbl t f s) = pool_alloc_count s"
  "nonpool_list (upd_pgtbl t f s) = nonpool_list s" "nonpool_tree (upd_pgtbl t f s) = nonpool_tree s"
  "next_tbl (upd_pgtbl t f s) = next_tbl s" "host_allocs (upd_pgtbl t f s) = host_allocs s"
  "tlb_flushes (upd_pgtbl t f s) = tlb_flushes s"
  by (simp_all add: upd_pgtbl_def)

lemma tlb_flush_sel [simp]:
  "pgtbls (tlb_flush_page P ia b s) = pgtbls s" "pool_free_list (tlb_flush_page P ia b s) = pool_free_list s"
  "nonpool_tree (tlb_flush_page P ia b s) = nonpool_tree s" "next_tbl (tlb_flush_page P ia b s) = next_tbl s"
  by (simp_all add: tlb_flush_page_def)

section \<open>Finding a table by its address\<close>

lemma aligned_addr: "table_address pa \<Longrightarrow> arch_mmu_pte_table_addr (arch_mmu_pte_set_table pa) = pa"
  by (simp add: table_address_def set_table_addr)

lemma page_mask: "(pa::u64) AND 0xFFF = 0 \<Longrightarrow> pa AND NOT (0x1000 - 1) = pa"
proof -
  assume a: "pa AND 0xFFF = 0"
  have "pa = (pa AND 0xFFF) OR (pa AND NOT 0xFFF)" by (simp add: bit_eq_iff bit_simps) blast
  then show ?thesis using a by simp
qed

lemma page_aligned_iff: "(pa::u64) AND 0xFFF = 0 \<longleftrightarrow> unat pa mod 4096 = 0"
proof -
  have "(0xFFF::u64) = mask 12" by (simp add: mask_eq_exp_minus_1)
  then have "pa AND 0xFFF = take_bit 12 pa" by (simp only: take_bit_eq_mask)
  then have "unat (pa AND 0xFFF) = take_bit 12 (unat pa)" by (simp only: unsigned_take_bit_eq)
  then have "unat (pa AND 0xFFF) = unat pa mod 4096" by (simp add: take_bit_eq_mod)
  then show ?thesis by (metis unat_eq_0)
qed

lemma unat_pool_addr:
  fixes base :: u64
  assumes "unat base + n * 4096 < 2 ^ 56" and "i \<le> n"
  shows "unat (base + of_nat i * 0x1000) = unat base + i * 4096"
proof -
  have "i * 4096 \<le> n * 4096" using assms(2) by simp
  then have b: "unat base + i * 4096 < 2 ^ 56" using assms(1) by linarith
  have "base + of_nat i * 0x1000 = of_nat (unat base + i * 4096)" by simp
  then show ?thesis using b by (simp only: unat_of_nat) simp
qed

lemma pool_index:
  fixes base :: u64
  assumes "unat base + n * 4096 < 2 ^ 56" and "i < n"
  shows "unat (drop_bit 12 (base + of_nat i * 0x1000 - base)) = i"
proof -
  have "i * 4096 < 2 ^ 56" using assms by linarith
  then have "i < 2 ^ 44" by simp
  then have "unat (of_nat i * 0x1000 :: u64) = i * 4096"
    using unat_pool_addr [of 0 n i] assms by simp
  then have "drop_bit 12 (unat (of_nat i * 0x1000 :: u64)) = i" by (simp add: drop_bit_eq_div)
  then show ?thesis by (simp only: unat_drop_bit_eq add_diff_cancel_left')
qed

lemma pool_addr_table:
  assumes "cfg_ok C" and "t < hyp_pgtbl C"
  shows "table_address (pool_addr C t)"
proof -
  have al: "unat (base + of_nat i * 0x1000 :: u64) mod 4096 = 0 \<and> unat (base + of_nat i * 0x1000 :: u64) < 2 ^ 56"
    if "base AND 0xFFF = 0" "unat base + n * 4096 < 2 ^ 56" "i < n" for base :: u64 and n i
  proof -
    have "i * 4096 < n * 4096" using that(3) by simp
    moreover have "unat base mod 4096 = 0" using that(1) by (simp only: page_aligned_iff)
    ultimately show ?thesis using unat_pool_addr [OF that(2), of i] that(2,3) by simp
  qed
  show ?thesis
    using assms al [of "ipgtbl_base_pa C" "init_count C" t] al [of "pgtbl_base_pa C" "pool_count C" "t - init_count C"]
    by (auto simp: cfg_ok_def table_address_def pool_addr_def hyp_pgtbl_def page_aligned_iff)
qed

lemma pool_find_addr:
  assumes "cfg_ok C" and "t < hyp_pgtbl C"
  shows "mmu_pgtbl_pool_find C (pool_addr C t) = Some t"
proof -
  let ?I = "ipgtbl_base_pa C" and ?B = "pgtbl_base_pa C" and ?n = "init_count C" and ?m = "pool_count C" and ?a = "pool_addr C t"
  have ok: "unat ?I + ?n * 4096 < 2 ^ 56" "unat ?B + ?m * 4096 < 2 ^ 56"
    "unat ?I + ?n * 4096 < unat ?B \<or> unat ?B + ?m * 4096 \<le> unat ?I"
    using assms(1) by (simp_all add: cfg_ok_def)
  have al: "?a AND NOT (0x1000 - 1) = ?a"
    using pool_addr_table [OF assms] by (intro page_mask) (simp add: table_address_def)
  note e = unat_pool_addr [OF ok(1) order_refl] unat_pool_addr [OF ok(2) order_refl]
  show ?thesis
  proof (cases "t < ?n")
    case True
    then have "?a = ?I + of_nat t * 0x1000" by (simp add: pool_addr_def)
    moreover have "unat ?a = unat ?I + t * 4096" using unat_pool_addr [OF ok(1), of t] True calculation by simp
    then have "?I \<le> ?a \<and> ?a \<le> ?I + of_nat ?n * 0x1000" unfolding word_le_nat_alt e(1) using True by simp
    moreover have "unat (drop_bit 12 (?a - ?I)) = t" using pool_index [OF ok(1) True] calculation(1) by simp
    ultimately show ?thesis unfolding mmu_pgtbl_pool_find_def al using True by (simp only: Let_def if_True simp_thms)
  next
    case False
    then have t: "t - ?n < ?m" using assms(2) by (simp add: hyp_pgtbl_def)
    have a: "?a = ?B + of_nat (t - ?n) * 0x1000" using False by (simp add: pool_addr_def)
    have ua: "unat ?a = unat ?B + (t - ?n) * 4096" using unat_pool_addr [OF ok(2), of "t - ?n"] t a by simp
    have "\<not> (?I \<le> ?a \<and> ?a \<le> ?I + of_nat ?n * 0x1000)" unfolding word_le_nat_alt e(1) ua using ok(3) t by auto
    moreover have "?B \<le> ?a \<and> ?a \<le> ?B + of_nat ?m * 0x1000" unfolding word_le_nat_alt e(2) ua using t by auto
    moreover have "unat (drop_bit 12 (?a - ?B)) = t - ?n" using pool_index [OF ok(2) t] a by simp
    ultimately show ?thesis
      unfolding mmu_pgtbl_pool_find_def al using False t by (simp only: Let_def if_True if_False simp_thms) simp
  qed
qed

text \<open>Every table that has a parent is found from the address in the entry of its parent.\<close>

lemma find_child:
  assumes C: "cfg_ok C" and wf: "stage_wf C s" "store_wf C s" and l: "live s c" and p: "parent (pgtbls s c) \<noteq> None"
  shows "mmu_pgtbl_find C (pt_stage (pgtbls s c)) (arch_mmu_pte_table_addr (arch_mmu_pte_set_table (tbl_pa (pgtbls s c)))) s = Some c"
proof (cases "pt_stage (pgtbls s c)")
  case MMU_STAGE_UNKNOWN
  then show ?thesis using l by (simp add: live_def)
next
  case MMU_STAGE1
  then have "c < hyp_pgtbl C" using wf(1) p by (auto simp: stage_wf_def)
  moreover then have "tbl_pa (pgtbls s c) = pool_addr C c" using wf(2) by (simp add: store_wf_def)
  ultimately show ?thesis
    using MMU_STAGE1 C by (simp add: mmu_pgtbl_find_def aligned_addr pool_addr_table pool_find_addr)
next
  case MMU_STAGE2
  then show ?thesis
    using wf(1) by (simp add: mmu_pgtbl_find_def mmu_pgtbl_nonpool_find_def stage_wf_def aligned_addr)
qed

end
