(* ===== verification/Mmu_map.thy ===== *)
theory Mmu_map
  imports Mmu_wf
begin

text \<open>
  Mapping a page. Under the invariant, finding or creating a child table leaves every translation as it was, and
  writing one entry changes exactly the addresses that reach it.
\<close>

section \<open>One step of a lookup\<close>

definition page_step :: "mmu_cfg \<Rightarrow> nat \<Rightarrow> u64 \<Rightarrow> mmu_sys \<Rightarrow> (int + mmu_page) + nat" where
  "page_step C t ia s =
     (let P = pgtbls s t; e = tbl P (tbl_index C ia P) in
      if \<not> arch_mmu_pte_is_valid e then Inl (Inl VMM_EFAIL)
      else if \<not> arch_mmu_pte_is_table e then Inl (Inr (entry_page P ia e))
      else if pt_level P = 0 then Inl (Inl VMM_EFAIL)
      else case child_at C t ia s of None \<Rightarrow> Inl (Inl VMM_EFAIL) | Some c \<Rightarrow> Inr c)"

lemma get_page_step:
  "mmu_get_page C t ia s = (case page_step C t ia s of Inl r \<Rightarrow> Some r | Inr c \<Rightarrow> mmu_get_page C c ia s)"
  by (subst mmu_get_page.simps) (simp add: page_step_def Let_def split: option.splits)

lemma linkD:
  assumes "mmu_wf C s" and "parent (pgtbls s c) = Some p"
  shows "live s c" "live s p" "pt_stage (pgtbls s c) = pt_stage (pgtbls s p)" "pt_level (pgtbls s p) = Suc (pt_level (pgtbls s c))"
    "tbl (pgtbls s p) (tbl_index C (map_ia (pgtbls s c)) (pgtbls s p)) = arch_mmu_pte_set_table (tbl_pa (pgtbls s c))"
  using mmu_wfD(1) [OF assms(1)] assms(2) by (simp_all add: link_wf_def)

lemma entryE:
  assumes "mmu_wf C s" "live s p" "arch_mmu_pte_is_valid (tbl (pgtbls s p) i)" "arch_mmu_pte_is_table (tbl (pgtbls s p) i)"
  obtains c where "parent (pgtbls s c) = Some p" "tbl_index C (map_ia (pgtbls s c)) (pgtbls s p) = i"
  using mmu_wfD(2) [OF assms(1)] assms(2-) unfolding entry_wf_def by blast

lemma child_at_child:
  assumes "cfg_ok C" "mmu_wf C s" "parent (pgtbls s c) = Some p" "tbl_index C ia (pgtbls s p) = tbl_index C (map_ia (pgtbls s c)) (pgtbls s p)"
  shows "child_at C p ia s = Some c"
  using find_child [OF assms(1) mmu_wfD(5,6) [OF assms(2)] linkD(1) [OF assms(2,3)]] assms linkD(3,5) [OF assms(2,3)]
  by (simp add: child_at_def Let_def)

lemma step_child:
  assumes "cfg_ok C" "mmu_wf C s" "parent (pgtbls s c) = Some p" "tbl_index C ia (pgtbls s p) = tbl_index C (map_ia (pgtbls s c)) (pgtbls s p)"
  shows "page_step C p ia s = Inr c"
  using child_at_child [OF assms] linkD(4,5) [OF assms(2,3)] assms(4) by (simp add: page_step_def Let_def)

text \<open>The three outcomes of a step.\<close>

lemma step_cases:
  assumes "cfg_ok C" "mmu_wf C s" "live s p"
  obtains (empty) "\<not> arch_mmu_pte_is_valid (tbl (pgtbls s p) (tbl_index C ia (pgtbls s p)))" "page_step C p ia s = Inl (Inl VMM_EFAIL)"
  | (page) e where "tbl (pgtbls s p) (tbl_index C ia (pgtbls s p)) = e" "arch_mmu_pte_is_valid e" "\<not> arch_mmu_pte_is_table e"
      "page_step C p ia s = Inl (Inr (entry_page (pgtbls s p) ia e))"
  | (table) c where "parent (pgtbls s c) = Some p" "tbl_index C ia (pgtbls s p) = tbl_index C (map_ia (pgtbls s c)) (pgtbls s p)"
      "page_step C p ia s = Inr c" "pt_level (pgtbls s p) = Suc (pt_level (pgtbls s c))"
proof (cases "arch_mmu_pte_is_valid (tbl (pgtbls s p) (tbl_index C ia (pgtbls s p)))")
  case False
  then show ?thesis using empty by (simp add: page_step_def Let_def)
next
  case v: True
  show ?thesis
  proof (cases "arch_mmu_pte_is_table (tbl (pgtbls s p) (tbl_index C ia (pgtbls s p)))")
    case False
    then show ?thesis using page v by (simp add: page_step_def Let_def)
  next
    case True
    obtain c where c: "parent (pgtbls s c) = Some p" "tbl_index C (map_ia (pgtbls s c)) (pgtbls s p) = tbl_index C ia (pgtbls s p)"
      using entryE [OF assms(2,3) v True] .
    show ?thesis using table [OF c(1) c(2) [symmetric] step_child [OF assms(1,2) c(1) c(2) [symmetric]] linkD(4) [OF assms(2) c(1)]] .
  qed
qed

lemma step_down:
  assumes "cfg_ok C" "mmu_wf C s" "live s p" "page_step C p ia s = Inr c"
  shows "parent (pgtbls s c) = Some p" "tbl_index C ia (pgtbls s p) = tbl_index C (map_ia (pgtbls s c)) (pgtbls s p)"
  using step_cases [OF assms(1-3), of ia] assms(4) by (metis Inl_Inr_False Inr_inject)+

lemma live_step: "cfg_ok C \<Longrightarrow> mmu_wf C s \<Longrightarrow> live s p \<Longrightarrow> page_step C p ia s = Inr c \<Longrightarrow> live s c"
  using linkD(1) step_down(1) by blast

text \<open>A lookup always answers.\<close>

lemma get_page_total:
  assumes "cfg_ok C" "mmu_wf C s"
  shows "live s t \<Longrightarrow> \<exists>r. mmu_get_page C t ia s = Some r"
proof (induction "pt_level (pgtbls s t)" arbitrary: t rule: less_induct)
  case less
  show ?case
  proof (cases rule: step_cases [OF assms less.prems, where ia = ia])
    case (3 c)
    then show ?thesis using less.hyps [of c] linkD(1) [OF assms(2)] by (subst get_page_step) simp
  qed (subst get_page_step, simp)+
qed

text \<open>
  Two states agree on a lookup when, table by table, either the answers are known to agree or the steps do. \<open>Q\<close> are
  the tables concerned.
\<close>

lemma get_page_sim:
  assumes "cfg_ok C" "mmu_wf C s"
    and live: "\<And>t. Q t \<Longrightarrow> live s t"
    and sim: "\<And>t. Q t \<Longrightarrow> mmu_get_page C t ia s' = mmu_get_page C t ia s \<or>
      page_step C t ia s' = page_step C t ia s \<and> (\<forall>c. page_step C t ia s = Inr c \<longrightarrow> Q c)"
  shows "Q t \<Longrightarrow> mmu_get_page C t ia s' = mmu_get_page C t ia s"
proof (induction "pt_level (pgtbls s t)" arbitrary: t rule: less_induct)
  case less
  from sim [OF less.prems] show ?case
  proof (elim disjE conjE)
    assume st: "page_step C t ia s' = page_step C t ia s" and cl: "\<forall>c. page_step C t ia s = Inr c \<longrightarrow> Q c"
    show ?case
    proof (cases "page_step C t ia s")
      case (Inr c)
      then have "pt_level (pgtbls s c) < pt_level (pgtbls s t)"
        using linkD(4) [OF assms(2)] step_down(1) [OF assms(1,2) live [OF less.prems]] by fastforce
      then show ?thesis using less.hyps [of c] cl Inr st by (simp add: get_page_step [of C t])
    qed (simp add: get_page_step [of C t] st)
  qed
qed

section \<open>Reaching a table\<close>

inductive reaches :: "mmu_cfg \<Rightarrow> mmu_sys \<Rightarrow> u64 \<Rightarrow> nat \<Rightarrow> nat \<Rightarrow> bool" for C s ia where
  here: "reaches C s ia t t"
| down: "page_step C t ia s = Inr c \<Longrightarrow> reaches C s ia c q \<Longrightarrow> reaches C s ia t q"

lemma reaches_get_page: "reaches C s ia t q \<Longrightarrow> mmu_get_page C t ia s = mmu_get_page C q ia s"
  by (induction rule: reaches.induct) (auto simp: get_page_step)

lemma reaches_props:
  assumes "cfg_ok C" "mmu_wf C s"
  shows "reaches C s ia t q \<Longrightarrow> live s t \<Longrightarrow>
    live s q \<and> pt_stage (pgtbls s q) = pt_stage (pgtbls s t) \<and> pt_level (pgtbls s q) \<le> pt_level (pgtbls s t)"
proof (induction rule: reaches.induct)
  case (down t c q)
  have p: "parent (pgtbls s c) = Some t" using step_down(1) [OF assms down.prems down.hyps(1)] .
  show ?case using down.IH linkD [OF assms(2) p] by simp
qed simp

lemma reaches_below:
  assumes "cfg_ok C" "mmu_wf C s" "live s t" "page_step C t ia s = Inr c" "reaches C s ia c q"
  shows "pt_level (pgtbls s q) < pt_level (pgtbls s t)"
  using linkD(1,4) [OF assms(2) step_down(1) [OF assms(1-4)]] reaches_props [OF assms(1,2,5)] by simp

text \<open>A path downwards is the chain of parents upwards, so the table it starts from is known from its length.\<close>

primrec ancestor :: "mmu_sys \<Rightarrow> nat \<Rightarrow> nat \<Rightarrow> nat option" where
  "ancestor s 0 q = Some q"
| "ancestor s (Suc n) q = Option.bind (ancestor s n q) (\<lambda>t. parent (pgtbls s t))"

lemma reaches_ancestor:
  assumes "cfg_ok C" "mmu_wf C s"
  shows "reaches C s ia t q \<Longrightarrow> live s t \<Longrightarrow> ancestor s (pt_level (pgtbls s t) - pt_level (pgtbls s q)) q = Some t"
proof (induction rule: reaches.induct)
  case (down t c q)
  have p: "parent (pgtbls s c) = Some t" using step_down(1) [OF assms down.prems down.hyps(1)] .
  have "pt_level (pgtbls s q) \<le> pt_level (pgtbls s c)"
    using reaches_props [OF assms down.hyps(2) linkD(1) [OF assms(2) p]] by simp
  then show ?case using down.IH [OF linkD(1) [OF assms(2) p]] linkD(4) [OF assms(2) p] p by (simp add: Suc_diff_le)
qed simp

text \<open>Addresses whose indices agree from a level up to the level of a table.\<close>

definition same_indices :: "mmu_cfg \<Rightarrow> mmu_stage \<Rightarrow> nat \<Rightarrow> nat \<Rightarrow> u64 \<Rightarrow> u64 \<Rightarrow> bool" where
  "same_indices C st l m ia ia' \<longleftrightarrow>
     (\<forall>k. l \<le> k \<and> k \<le> m \<longrightarrow> arch_mmu_level_index (modes C) ia st k = arch_mmu_level_index (modes C) ia' st k)"

lemma same_indices_Suc:
  assumes "l \<le> m"
  shows "same_indices C st l (Suc m) ia ia' \<longleftrightarrow>
    arch_mmu_level_index (modes C) ia st (Suc m) = arch_mmu_level_index (modes C) ia' st (Suc m) \<and> same_indices C st l m ia ia'"
  using assms unfolding same_indices_def by (auto simp: le_Suc_eq)

lemma reaches_iff:
  assumes "cfg_ok C" "mmu_wf C s" and "live s t" and "reaches C s ia t q"
  shows "reaches C s ia' t q \<and> tbl_index C ia' (pgtbls s q) = tbl_index C ia (pgtbls s q) \<longleftrightarrow>
    same_indices C (pt_stage (pgtbls s t)) (pt_level (pgtbls s q)) (pt_level (pgtbls s t)) ia ia'"
  using assms(4,3)
proof (induction rule: reaches.induct)
  case (here t)
  then show ?case by (auto simp: same_indices_def tbl_index_def intro: reaches.here)
next
  case (down t c q)
  note pc = step_down [OF assms(1,2) down.prems down.hyps(1)]
  note l = linkD [OF assms(2) pc(1)]
  have le: "pt_level (pgtbls s q) \<le> pt_level (pgtbls s c)" using reaches_props [OF assms(1,2) down.hyps(2) l(1)] by simp
  have "reaches C s ia' t q \<longleftrightarrow> tbl_index C ia' (pgtbls s t) = tbl_index C ia (pgtbls s t) \<and> reaches C s ia' c q"
  proof
    assume "reaches C s ia' t q"
    then show "tbl_index C ia' (pgtbls s t) = tbl_index C ia (pgtbls s t) \<and> reaches C s ia' c q"
    proof cases
      case here
      then show ?thesis using le l(4) by simp
    next
      case (down d)
      have d: "parent (pgtbls s d) = Some t" "tbl_index C ia' (pgtbls s t) = tbl_index C (map_ia (pgtbls s d)) (pgtbls s t)"
        using step_down [OF assms(1,2) \<open>live s t\<close> down(1)] .
      have "ancestor s (pt_level (pgtbls s d) - pt_level (pgtbls s q)) q = Some d"
        "ancestor s (pt_level (pgtbls s c) - pt_level (pgtbls s q)) q = Some c"
        using reaches_ancestor [OF assms(1,2)] down(2) \<open>reaches C s ia c q\<close> linkD(1) [OF assms(2) d(1)] l(1) by blast+
      then have "d = c" using linkD(4) [OF assms(2) d(1)] l(4) by simp
      then show ?thesis using d down(2) pc(2) by simp
    qed
  next
    assume a: "tbl_index C ia' (pgtbls s t) = tbl_index C ia (pgtbls s t) \<and> reaches C s ia' c q"
    then have "page_step C t ia' s = Inr c" using step_child [OF assms(1,2) pc(1)] pc(2) by simp
    then show "reaches C s ia' t q" using a reaches.down by blast
  qed
  then show ?case using down.IH [OF l(1)] l same_indices_Suc [OF le] by (auto simp: tbl_index_def)
qed

section \<open>Writing one entry\<close>

text \<open>The state after an entry of table \<open>q\<close> was written that held no table and holds none now.\<close>

definition entry_written :: "nat \<Rightarrow> nat \<Rightarrow> u64 \<Rightarrow> mmu_sys \<Rightarrow> mmu_sys \<Rightarrow> bool" where
  "entry_written q i e s s' \<longleftrightarrow>
     (\<forall>t. t \<noteq> q \<longrightarrow> pgtbls s' t = pgtbls s t) \<and>
     (\<exists>n. pgtbls s' q = (pgtbls s q)\<lparr>tbl := (tbl (pgtbls s q))(i := e), pte_cnt := n\<rparr>) \<and>
     pte_cnt (pgtbls s' q) = of_nat (card (valid_entries (pgtbls s' q))) \<and>
     nonpool_tree s' = nonpool_tree s \<and> pool_free_list s' = pool_free_list s \<and> next_tbl s' = next_tbl s \<and> i < 2048 \<and>
     \<not> (arch_mmu_pte_is_valid (tbl (pgtbls s q) i) \<and> arch_mmu_pte_is_table (tbl (pgtbls s q) i)) \<and>
     \<not> (arch_mmu_pte_is_valid e \<and> arch_mmu_pte_is_table e)"

lemma entry_written_sel:
  assumes "entry_written q i e s s'"
  shows "parent (pgtbls s' t) = parent (pgtbls s t)" "pt_stage (pgtbls s' t) = pt_stage (pgtbls s t)"
    "pt_level (pgtbls s' t) = pt_level (pgtbls s t)" "map_ia (pgtbls s' t) = map_ia (pgtbls s t)"
    "tbl_pa (pgtbls s' t) = tbl_pa (pgtbls s t)" "child_list (pgtbls s' t) = child_list (pgtbls s t)"
    "child_cnt (pgtbls s' t) = child_cnt (pgtbls s t)" "live s' t = live s t"
    "tbl_index C ia (pgtbls s' t) = tbl_index C ia (pgtbls s t)"
    "tbl (pgtbls s' t) j = (if t = q \<and> j = i then e else tbl (pgtbls s t) j)"
  using assms by (cases "t = q"; auto simp: entry_written_def live_def tbl_index_def)+

lemma entry_written_wf:
  assumes wf: "mmu_wf C s" and "live s q" and w: "entry_written q i e s s'"
  shows "mmu_wf C s'"
proof -
  note sel = entry_written_sel [OF w]
  have old: "\<not> (arch_mmu_pte_is_valid (tbl (pgtbls s q) i) \<and> arch_mmu_pte_is_table (tbl (pgtbls s q) i))"
    and new: "\<not> (arch_mmu_pte_is_valid e \<and> arch_mmu_pte_is_table e)" using w by (simp_all add: entry_written_def)
  have f: "nonpool_tree s' = nonpool_tree s" "pool_free_list s' = pool_free_list s" "next_tbl s' = next_tbl s"
    using w by (simp_all add: entry_written_def)
  have ne: "q \<noteq> p \<or> tbl_index C (map_ia (pgtbls s c)) (pgtbls s p) \<noteq> i" if "parent (pgtbls s c) = Some p" for c p
    using linkD(5) [OF wf that] old by (metis set_table_valid set_table_is_table)
  have "link_wf C s'" using mmu_wfD(1) [OF wf] ne unfolding link_wf_def sel by fastforce
  moreover have "entry_wf C s'" using mmu_wfD(2) [OF wf] new unfolding entry_wf_def sel by (auto split: if_splits)
  moreover have "child_wf s'" using mmu_wfD(4) [OF wf] unfolding child_wf_def sel .
  moreover have "stage_wf C s'" using mmu_wfD(5) [OF wf] unfolding stage_wf_def sel f .
  moreover have "store_wf C s'" using mmu_wfD(6) [OF wf] unfolding store_wf_def sel f .
  moreover have "count_wf s'" unfolding count_wf_def
  proof (intro allI impI)
    fix t assume t: "live s' t"
    show "valid_entries (pgtbls s' t) \<subseteq> {..<2048} \<and> pte_cnt (pgtbls s' t) = of_nat (card (valid_entries (pgtbls s' t)))"
    proof (cases "t = q")
      case False
      then have "pgtbls s' t = pgtbls s t" using w by (auto simp: entry_written_def)
      then show ?thesis using mmu_wfD(3) [OF wf] t sel(8) by (simp add: count_wf_def)
    next
      case True
      have "valid_entries (pgtbls s' q) \<subseteq> insert i (valid_entries (pgtbls s q))" by (auto simp: valid_entries_def sel(10) split: if_splits)
      moreover have "valid_entries (pgtbls s q) \<subseteq> {..<2048}" using mmu_wfD(3) [OF wf] assms(2) by (simp add: count_wf_def)
      moreover have "i < 2048" using w by (simp add: entry_written_def)
      moreover have "pte_cnt (pgtbls s' q) = of_nat (card (valid_entries (pgtbls s' q)))" using w by (auto simp: entry_written_def)
      ultimately show ?thesis using True by auto
    qed
  qed
  ultimately show ?thesis by (simp add: mmu_wf_def)
qed

lemma entry_written_step:
  assumes "entry_written q i e s s'" and "t \<noteq> q \<or> tbl_index C ia (pgtbls s q) \<noteq> i"
  shows "page_step C t ia s' = page_step C t ia s"
proof -
  note sel = entry_written_sel [OF assms(1)]
  have "nonpool_tree s' = nonpool_tree s" using assms(1) by (simp add: entry_written_def)
  moreover have "entry_page (pgtbls s' t) = entry_page (pgtbls s t)" by (simp add: fun_eq_iff entry_page_def sel)
  ultimately show ?thesis
    using assms(2) by (cases "t = q") (simp_all add: page_step_def child_at_def sel mmu_pgtbl_find_def mmu_pgtbl_nonpool_find_def
      Let_def cong: option.case_cong)
qed

text \<open>Exactly the addresses that reach the entry are concerned.\<close>

lemma entry_written_other:
  assumes "cfg_ok C" "mmu_wf C s" and w: "entry_written q i e s s'"
    and "live s t" "\<not> (reaches C s ia t q \<and> tbl_index C ia (pgtbls s q) = i)"
  shows "mmu_get_page C t ia s' = mmu_get_page C t ia s"
proof (rule get_page_sim [OF assms(1,2), where Q = "\<lambda>t. live s t \<and> \<not> (reaches C s ia t q \<and> tbl_index C ia (pgtbls s q) = i)"])
  fix t assume t: "live s t \<and> \<not> (reaches C s ia t q \<and> tbl_index C ia (pgtbls s q) = i)"
  then show "live s t" by simp
  have "t \<noteq> q \<or> tbl_index C ia (pgtbls s q) \<noteq> i" using t by (auto intro: reaches.here)
  then have "page_step C t ia s' = page_step C t ia s" by (rule entry_written_step [OF w])
  moreover have "live s c \<and> \<not> (reaches C s ia c q \<and> tbl_index C ia (pgtbls s q) = i)" if "page_step C t ia s = Inr c" for c
    using t live_step [OF assms(1,2) _ that] reaches.down [OF that] by blast
  ultimately show "mmu_get_page C t ia s' = mmu_get_page C t ia s \<or> page_step C t ia s' = page_step C t ia s \<and>
    (\<forall>c. page_step C t ia s = Inr c \<longrightarrow> live s c \<and> \<not> (reaches C s ia c q \<and> tbl_index C ia (pgtbls s q) = i))"
    by blast
qed (use assms in simp)

lemma entry_written_reaches:
  assumes "cfg_ok C" "mmu_wf C s" and w: "entry_written q i e s s'"
  shows "reaches C s ia t r \<Longrightarrow> live s t \<Longrightarrow> pt_level (pgtbls s q) \<le> pt_level (pgtbls s r) \<Longrightarrow> reaches C s' ia t r"
proof (induction rule: reaches.induct)
  case (down t c r)
  have "t \<noteq> q" using reaches_below [OF assms(1,2) down.prems(1) down.hyps] down.prems(2) by auto
  then have "page_step C t ia s' = Inr c" using entry_written_step [OF w, of t] down.hyps(1) by simp
  then show ?case using down.IH live_step [OF assms(1,2) down.prems(1) down.hyps(1)] down.prems(2) reaches.down by blast
qed (rule reaches.here)

lemma entry_written_hit:
  assumes "cfg_ok C" "mmu_wf C s" and w: "entry_written q i e s s'"
    and "live s t" "reaches C s ia t q" "tbl_index C ia (pgtbls s q) = i"
  shows "mmu_get_page C t ia s' =
    Some (if arch_mmu_pte_is_valid e then Inr (entry_page (pgtbls s q) ia e) else Inl VMM_EFAIL)"
proof -
  note sel = entry_written_sel [OF w]
  have "mmu_get_page C t ia s' = mmu_get_page C q ia s'"
    by (rule reaches_get_page [OF entry_written_reaches [OF assms(1-3) assms(5,4) order_refl]])
  moreover have "entry_page (pgtbls s' q) ia e = entry_page (pgtbls s q) ia e" by (simp add: entry_page_def sel)
  moreover have "\<not> (arch_mmu_pte_is_valid e \<and> arch_mmu_pte_is_table e)" using w by (simp add: entry_written_def)
  ultimately show ?thesis
    using assms(6) by (subst (asm) get_page_step [of C q]) (auto simp: page_step_def sel Let_def split: if_splits)
qed

section \<open>Creating a child table\<close>

lemma start_level_le: "arch_mmu_start_level M st \<le> 4"
  by (simp add: arch_mmu_start_level_def Let_def)

lemma live_level: "mmu_wf C s \<Longrightarrow> live s t \<Longrightarrow> pt_level (pgtbls s t) \<le> 4"
  using mmu_wfD(5) [of C s] start_level_le order_trans unfolding stage_wf_def by blast

lemma tbl_index_less: "mmu_wf C s \<Longrightarrow> live s t \<Longrightarrow> tbl_index C ia (pgtbls s t) < 2048"
  using level_index_bound [OF live_level, of C s t "modes C" ia "pt_stage (pgtbls s t)"]
  by (simp add: tbl_index_def table_entries_def arch_mmu_pgtbl_size_order_def split: if_splits)

lemma index_masked:
  "level \<le> 4 \<Longrightarrow> arch_mmu_level_index M (ia AND arch_mmu_level_map_mask st level) st level = arch_mmu_level_index M ia st level"
proof -
  assume l: "level \<le> 4"
  have "drop_bit (arch_mmu_level_block_shift st level) (ia AND arch_mmu_level_map_mask st level) =
      drop_bit (arch_mmu_level_block_shift st level) ia"
    by (rule bit_word_eqI) (simp only: bit_drop_bit_eq o_apply map_mask_bit, simp)
  then show ?thesis by (simp only: level_index_bits [OF l])
qed

text \<open>A step depends on the entry and on the children of the table.\<close>

lemma step_eq:
  assumes "cfg_ok C" "mmu_wf C s" "mmu_wf C s'" "live s t"
    and "pt_stage (pgtbls s' t) = pt_stage (pgtbls s t)" "pt_level (pgtbls s' t) = pt_level (pgtbls s t)"
    and "tbl (pgtbls s' t) (tbl_index C ia (pgtbls s t)) = tbl (pgtbls s t) (tbl_index C ia (pgtbls s t))"
    and "\<And>c. parent (pgtbls s c) = Some t \<Longrightarrow> tbl_index C (map_ia (pgtbls s c)) (pgtbls s t) = tbl_index C ia (pgtbls s t) \<Longrightarrow>
      parent (pgtbls s' c) = Some t \<and> map_ia (pgtbls s' c) = map_ia (pgtbls s c)"
  shows "page_step C t ia s' = page_step C t ia s"
proof -
  have i: "tbl_index C x (pgtbls s' t) = tbl_index C x (pgtbls s t)" for x using assms(5,6) by (simp add: tbl_index_def)
  show ?thesis
  proof (cases rule: step_cases [OF assms(1,2,4), where ia = ia])
    case 1
    then show ?thesis using assms(7) i by (simp add: page_step_def Let_def)
  next
    case (2 e)
    then show ?thesis using assms(5-7) i by (simp add: page_step_def Let_def entry_page_def)
  next
    case (3 c)
    then show ?thesis using assms(8) [of c] step_child [OF assms(1,3), of c t ia] i by simp
  qed
qed

text \<open>A fresh table: live, empty, without parent and children; every other table is as before.\<close>

definition fresh_table :: "nat \<Rightarrow> mmu_stage \<Rightarrow> nat \<Rightarrow> mmu_sys \<Rightarrow> mmu_sys \<Rightarrow> bool" where
  "fresh_table c st l s s' \<longleftrightarrow> \<not> live s c \<and> (\<forall>t. t \<noteq> c \<longrightarrow> pgtbls s' t = pgtbls s t) \<and>
     parent (pgtbls s' c) = None \<and> pt_stage (pgtbls s' c) = st \<and> pt_level (pgtbls s' c) = l \<and>
     pte_cnt (pgtbls s' c) = 0 \<and> child_cnt (pgtbls s' c) = 0 \<and> child_list (pgtbls s' c) = [] \<and> tbl (pgtbls s' c) = (\<lambda>i. 0)"

lemma alloc_fresh:
  assumes C: "cfg_ok C" and wf: "mmu_wf C s" and st: "st \<noteq> MMU_STAGE_UNKNOWN"
    and a: "mmu_pgtbl_alloc C st (Some l) attr tag s = (Some c, s')"
  shows "fresh_table c st l s s'"
    and "if st = MMU_STAGE1 then c < hyp_pgtbl C \<and> pool_free_list s = c # pool_free_list s' \<and>
            tbl_pa (pgtbls s' c) = tbl_pa (pgtbls s c) \<and> nonpool_tree s' = nonpool_tree s \<and> next_tbl s' = next_tbl s
         else c = next_tbl s \<and> next_tbl s' = Suc (next_tbl s) \<and> pool_free_list s' = pool_free_list s \<and>
            table_address (tbl_pa (pgtbls s' c)) \<and> nonpool_tree s (nonpool_key st (tbl_pa (pgtbls s' c))) = None \<and>
            nonpool_tree s' = (nonpool_tree s)(nonpool_key st (tbl_pa (pgtbls s' c)) := Some c)"
  using a st mmu_wfD(6) [OF wf] C
  by (auto simp: mmu_pgtbl_alloc_def mmu_pgtbl_pool_alloc_def mmu_pgtbl_nonpool_alloc_def fresh_table_def store_wf_def cfg_ok_def Let_def
      split: if_splits list.splits option.splits prod.splits)

lemma alloc_none:
  assumes "mmu_pgtbl_alloc C st lvl attr tag s = (None, s')"
  shows "pgtbls s' = pgtbls s" "pool_free_list s' = pool_free_list s" "nonpool_tree s' = nonpool_tree s" "next_tbl s' = next_tbl s"
  using assms by (auto simp: mmu_pgtbl_alloc_def mmu_pgtbl_pool_alloc_def mmu_pgtbl_nonpool_alloc_def Let_def
      split: if_splits list.splits option.splits prod.splits)

lemma fresh_sel:
  assumes "mmu_wf C s" "fresh_table c st l s s'" "st \<noteq> MMU_STAGE_UNKNOWN"
  shows "parent (pgtbls s' t) = parent (pgtbls s t)" "live s' t \<longleftrightarrow> live s t \<or> t = c"
    "\<not> (parent (pgtbls s d) = Some c)"
proof -
  have "parent (pgtbls s c) = None" using linkD(1) [OF assms(1), of c] assms(2) by (cases "parent (pgtbls s c)") (auto simp: fresh_table_def)
  then show "parent (pgtbls s' t) = parent (pgtbls s t)" using assms(2) by (cases "t = c") (simp_all add: fresh_table_def)
  show "live s' t \<longleftrightarrow> live s t \<or> t = c" using assms(2,3) by (cases "t = c") (simp_all add: fresh_table_def live_def)
  show "\<not> (parent (pgtbls s d) = Some c)" using linkD(2) [OF assms(1), of d c] assms(2) by (auto simp: fresh_table_def)
qed

lemma alloc_wf:
  assumes C: "cfg_ok C" and wf: "mmu_wf C s" and st: "st \<noteq> MMU_STAGE_UNKNOWN" and l: "l \<le> arch_mmu_start_level (modes C) st"
    and a: "mmu_pgtbl_alloc C st (Some l) attr tag s = (Some c, s')"
  shows "mmu_wf C s'"
proof -
  note f = alloc_fresh(1) [OF C wf st a] and store = alloc_fresh(2) [OF C wf st a]
  note sel = fresh_sel [OF wf f st]
  have oth: "pgtbls s' t = pgtbls s t" if "t \<noteq> c" for t using f that by (simp add: fresh_table_def)
  have new: "\<not> live s c" "pt_stage (pgtbls s' c) = st" "pt_level (pgtbls s' c) = l" "child_list (pgtbls s' c) = []"
    "child_cnt (pgtbls s' c) = 0" "pte_cnt (pgtbls s' c) = 0" "tbl (pgtbls s' c) = (\<lambda>i. 0)"
    using f by (simp_all add: fresh_table_def)
  have ne: "t \<noteq> c" if "live s t" for t using that new(1) by auto
  have "link_wf C s'" unfolding link_wf_def sel
  proof (intro allI impI)
    fix d p assume d: "parent (pgtbls s d) = Some p"
    note k = linkD [OF wf d]
    show "(live s d \<or> d = c) \<and> (live s p \<or> p = c) \<and> pt_stage (pgtbls s' d) = pt_stage (pgtbls s' p) \<and>
      pt_level (pgtbls s' p) = Suc (pt_level (pgtbls s' d)) \<and>
      tbl (pgtbls s' p) (tbl_index C (map_ia (pgtbls s' d)) (pgtbls s' p)) = arch_mmu_pte_set_table (tbl_pa (pgtbls s' d))"
      unfolding oth [OF ne [OF k(1)]] oth [OF ne [OF k(2)]] using k by simp
  qed
  moreover have "entry_wf C s'" unfolding entry_wf_def sel
  proof (intro allI impI)
    fix p i assume p: "live s p \<or> p = c" and v: "arch_mmu_pte_is_valid (tbl (pgtbls s' p) i)" "arch_mmu_pte_is_table (tbl (pgtbls s' p) i)"
    then have l: "live s p" and "p \<noteq> c" using new(1,7) by auto
    then have e: "pgtbls s' p = pgtbls s p" using oth by simp
    obtain d where d: "parent (pgtbls s d) = Some p" "tbl_index C (map_ia (pgtbls s d)) (pgtbls s p) = i"
      using entryE [OF wf l] v unfolding e by blast
    then show "\<exists>d. parent (pgtbls s d) = Some p \<and> tbl_index C (map_ia (pgtbls s' d)) (pgtbls s' p) = i"
      using oth [OF ne [OF linkD(1) [OF wf d(1)]]] e by auto
  qed
  moreover have "count_wf s'"
    using mmu_wfD(3) [OF wf] oth ne new unfolding count_wf_def sel by (auto simp: valid_entries_def)
  moreover have "child_wf s'" unfolding child_wf_def sel
  proof (intro allI impI)
    fix t assume "live s t \<or> t = c"
    then show "set (child_list (pgtbls s' t)) = {d. parent (pgtbls s d) = Some t} \<and> distinct (child_list (pgtbls s' t)) \<and>
      child_cnt (pgtbls s' t) = of_nat (length (child_list (pgtbls s' t)))"
      using mmu_wfD(4) [OF wf] oth [of t] new(4,5) sel(3) by (cases "t = c") (auto simp: child_wf_def)
  qed
  moreover have "stage_wf C s'" unfolding stage_wf_def
  proof (intro conjI allI impI)
    note w = mmu_wfD(5) [OF wf, unfolded stage_wf_def]
    fix t
    show "pt_level (pgtbls s' t) \<le> arch_mmu_start_level (modes C) (pt_stage (pgtbls s' t))" if "live s' t"
      using w oth [of t] new l that sel(2) [of t] by (cases "t = c") auto
    show "t < hyp_pgtbl C \<or> t = hyp_pgtbl C \<and> parent (pgtbls s' t) = None \<and>
        pt_level (pgtbls s' t) = arch_mmu_start_level (modes C) MMU_STAGE1" if "pt_stage (pgtbls s' t) = MMU_STAGE1"
      using w oth [of t] new store that by (cases "t = c") auto
    assume s2: "pt_stage (pgtbls s' t) = MMU_STAGE2"
    have "hyp_pgtbl C < next_tbl s" using mmu_wfD(6) [OF wf] by (simp add: store_wf_def)
    then show "hyp_pgtbl C < t" "table_address (tbl_pa (pgtbls s' t))"
      "nonpool_tree s' (nonpool_key MMU_STAGE2 (tbl_pa (pgtbls s' t))) = Some t"
      using w oth [of t] new store s2 by (cases "t = c"; auto split: if_splits)+
  qed
  moreover have "tbl_pa (pgtbls s' t) = tbl_pa (pgtbls s t)" if "t < hyp_pgtbl C" for t
    using that oth store mmu_wfD(6) [OF wf] by (cases "t = c") (auto simp: store_wf_def split: if_splits)
  then have "store_wf C s'"
    using mmu_wfD(6) [OF wf] store unfolding store_wf_def sel
    by (cases "st = MMU_STAGE1") (auto simp: Suc_le_eq)
  ultimately show ?thesis by (simp add: mmu_wf_def)
qed

lemma fresh_step:
  assumes "cfg_ok C" "mmu_wf C s" "mmu_wf C s'" "fresh_table c st l s s'" "st \<noteq> MMU_STAGE_UNKNOWN" "live s t"
  shows "page_step C t ia s' = page_step C t ia s"
proof -
  have oth: "pgtbls s' d = pgtbls s d" if "live s d" for d using assms(4) that by (auto simp: fresh_table_def)
  show ?thesis using linkD(1) [OF assms(2)] oth assms(6) by (intro step_eq [OF assms(1-3)]) simp_all
qed

lemma fresh_lookup:
  assumes "cfg_ok C" "mmu_wf C s" "mmu_wf C s'" "fresh_table c st l s s'" "st \<noteq> MMU_STAGE_UNKNOWN" "live s t"
  shows "mmu_get_page C t ia s' = mmu_get_page C t ia s"
  by (rule get_page_sim [OF assms(1,2), where Q = "live s"])
    (use fresh_step [OF assms(1-5)] live_step [OF assms(1,2)] assms(6) in blast)+

section \<open>Attaching a child table\<close>

text \<open>The state after the empty table \<open>c\<close> was attached to \<open>p\<close> at the address \<open>ia\<close>.\<close>

lemma attach_spec:
  assumes "mmu_pgtbl_attach C p ia c s = (rc, s')" "c \<noteq> p"
    and "parent (pgtbls s c) = None" "pt_level (pgtbls s p) \<noteq> 0" "pt_stage (pgtbls s c) = pt_stage (pgtbls s p)"
    and "\<not> arch_mmu_pte_is_valid (tbl (pgtbls s p) (tbl_index C ia (pgtbls s p)))"
  shows "rc = VMM_OK" "\<And>t. t \<noteq> c \<Longrightarrow> t \<noteq> p \<Longrightarrow> pgtbls s' t = pgtbls s t"
    "pgtbls s' c = (pgtbls s c)\<lparr>parent := Some p, pt_level := pt_level (pgtbls s p) - 1,
       map_ia := ia AND arch_mmu_level_map_mask (pt_stage (pgtbls s p)) (pt_level (pgtbls s p))\<rparr>"
    "pgtbls s' p = (pgtbls s p)\<lparr>pte_cnt := pte_cnt (pgtbls s p) + 1, child_cnt := child_cnt (pgtbls s p) + 1,
       child_list := c # child_list (pgtbls s p),
       tbl := (tbl (pgtbls s p))(tbl_index C ia (pgtbls s p) := arch_mmu_pte_set_table (tbl_pa (pgtbls s c)))\<rparr>"
    "pool_free_list s' = pool_free_list s" "nonpool_tree s' = nonpool_tree s" "next_tbl s' = next_tbl s"
  using assms by (auto simp: mmu_pgtbl_attach_def mmu_pgtbl_isattached_def Let_def)

lemma no_entry_no_child:
  assumes "mmu_wf C s" "valid_entries (pgtbls s p) = {}"
  shows "parent (pgtbls s d) \<noteq> Some p"
proof
  assume "parent (pgtbls s d) = Some p"
  from linkD(5) [OF assms(1) this] have "tbl_index C (map_ia (pgtbls s d)) (pgtbls s p) \<in> valid_entries (pgtbls s p)"
    by (simp add: valid_entries_def)
  then show False using assms(2) by simp
qed

definition attached :: "mmu_cfg \<Rightarrow> nat \<Rightarrow> u64 \<Rightarrow> nat \<Rightarrow> mmu_sys \<Rightarrow> mmu_sys \<Rightarrow> bool" where
  "attached C p ia c s s' \<longleftrightarrow> mmu_pgtbl_attach C p ia c s = (VMM_OK, s') \<and> mmu_wf C s \<and> live s p \<and> live s c \<and>
     parent (pgtbls s c) = None \<and> pt_level (pgtbls s p) = Suc (pt_level (pgtbls s c)) \<and> pt_stage (pgtbls s c) = pt_stage (pgtbls s p) \<and>
     \<not> arch_mmu_pte_is_valid (tbl (pgtbls s p) (tbl_index C ia (pgtbls s p)))"

lemma attachedD:
  assumes "attached C p ia c s s'"
  shows "mmu_wf C s" "live s p" "live s c" "c \<noteq> p" "parent (pgtbls s c) = None" "pt_level (pgtbls s p) = Suc (pt_level (pgtbls s c))"
    "pt_stage (pgtbls s c) = pt_stage (pgtbls s p)" "\<not> arch_mmu_pte_is_valid (tbl (pgtbls s p) (tbl_index C ia (pgtbls s p)))"
  using assms by (auto simp: attached_def)

lemma attached_spec:
  assumes "attached C p ia c s s'"
  shows "\<And>t. t \<noteq> c \<Longrightarrow> t \<noteq> p \<Longrightarrow> pgtbls s' t = pgtbls s t"
    "pgtbls s' c = (pgtbls s c)\<lparr>parent := Some p, pt_level := pt_level (pgtbls s p) - 1,
       map_ia := ia AND arch_mmu_level_map_mask (pt_stage (pgtbls s p)) (pt_level (pgtbls s p))\<rparr>"
    "pgtbls s' p = (pgtbls s p)\<lparr>pte_cnt := pte_cnt (pgtbls s p) + 1, child_cnt := child_cnt (pgtbls s p) + 1,
       child_list := c # child_list (pgtbls s p),
       tbl := (tbl (pgtbls s p))(tbl_index C ia (pgtbls s p) := arch_mmu_pte_set_table (tbl_pa (pgtbls s c)))\<rparr>"
    "pool_free_list s' = pool_free_list s" "nonpool_tree s' = nonpool_tree s" "next_tbl s' = next_tbl s"
  using attach_spec(2-) [of C p ia c s VMM_OK s'] attachedD [OF assms] assms by (simp_all add: attached_def)

lemma attached_sel:
  assumes "attached C p ia c s s'"
  shows "parent (pgtbls s' t) = (if t = c then Some p else parent (pgtbls s t))"
    "pt_stage (pgtbls s' t) = pt_stage (pgtbls s t)" "pt_level (pgtbls s' t) = pt_level (pgtbls s t)"
    "tbl_pa (pgtbls s' t) = tbl_pa (pgtbls s t)" "live s' t = live s t" "tbl_index C x (pgtbls s' t) = tbl_index C x (pgtbls s t)"
    "t \<noteq> c \<Longrightarrow> map_ia (pgtbls s' t) = map_ia (pgtbls s t)"
    "tbl (pgtbls s' t) j = (if t = p \<and> j = tbl_index C ia (pgtbls s p) then arch_mmu_pte_set_table (tbl_pa (pgtbls s c)) else tbl (pgtbls s t) j)"
proof -
  note as = attached_spec(1-3) [OF assms] and ad = attachedD(4,6) [OF assms]
  consider "t = c" | "t = p" "t \<noteq> c" | "t \<noteq> c" "t \<noteq> p" by blast
  note cs = this
  show "parent (pgtbls s' t) = (if t = c then Some p else parent (pgtbls s t))"
    and st: "pt_stage (pgtbls s' t) = pt_stage (pgtbls s t)" and lv: "pt_level (pgtbls s' t) = pt_level (pgtbls s t)"
    and "tbl_pa (pgtbls s' t) = tbl_pa (pgtbls s t)" and "t \<noteq> c \<Longrightarrow> map_ia (pgtbls s' t) = map_ia (pgtbls s t)"
    and "tbl (pgtbls s' t) j = (if t = p \<and> j = tbl_index C ia (pgtbls s p) then arch_mmu_pte_set_table (tbl_pa (pgtbls s c)) else tbl (pgtbls s t) j)"
    using cs by (cases; simp add: as ad)+
  show "live s' t = live s t" "tbl_index C x (pgtbls s' t) = tbl_index C x (pgtbls s t)"
    by (simp_all add: live_def tbl_index_def st lv)
qed

lemma attached_index:
  "attached C p ia c s s' \<Longrightarrow> tbl_index C (map_ia (pgtbls s' c)) (pgtbls s p) = tbl_index C ia (pgtbls s p)"
  using attached_spec(2) [of C p ia c s s'] index_masked [OF live_level, of C s p] attachedD(1,2) [of C p ia c s s']
  by (simp add: tbl_index_def)

lemma attached_link:
  assumes a: "attached C p ia c s s'"
  shows "link_wf C s'"
  unfolding link_wf_def attached_sel(2-6) [OF a]
proof (intro allI impI)
  note ad = attachedD [OF a] and sel = attached_sel [OF a]
  fix d q assume d: "parent (pgtbls s' d) = Some q"
  show "live s d \<and> live s q \<and> pt_stage (pgtbls s d) = pt_stage (pgtbls s q) \<and> pt_level (pgtbls s q) = Suc (pt_level (pgtbls s d)) \<and>
    tbl (pgtbls s' q) (tbl_index C (map_ia (pgtbls s' d)) (pgtbls s q)) = arch_mmu_pte_set_table (tbl_pa (pgtbls s d))"
  proof (cases "d = c")
    case True
    then have "q = p" using d sel(1) by simp
    then show ?thesis using True ad attached_index [OF a] sel(8) by simp
  next
    case False
    then have d0: "parent (pgtbls s d) = Some q" using d sel(1) by simp
    have "\<not> (q = p \<and> tbl_index C (map_ia (pgtbls s d)) (pgtbls s q) = tbl_index C ia (pgtbls s p))"
      using linkD(5) [OF ad(1) d0] ad(8) by (metis set_table_valid)
    then show ?thesis using linkD [OF ad(1) d0] sel(7) [OF False] sel(8) by auto
  qed
qed

lemma attached_entry:
  assumes a: "attached C p ia c s s'"
  shows "entry_wf C s'"
  unfolding entry_wf_def attached_sel(5,6) [OF a]
proof (intro allI impI)
  note ad = attachedD [OF a] and sel = attached_sel [OF a]
  fix q i assume q: "live s q" and v: "arch_mmu_pte_is_valid (tbl (pgtbls s' q) i)" "arch_mmu_pte_is_table (tbl (pgtbls s' q) i)"
  show "\<exists>d. parent (pgtbls s' d) = Some q \<and> tbl_index C (map_ia (pgtbls s' d)) (pgtbls s q) = i"
  proof (cases "q = p \<and> i = tbl_index C ia (pgtbls s p)")
    case True
    then show ?thesis using attached_index [OF a] sel(1) by (intro exI [of _ c]) simp
  next
    case False
    then have t0: "tbl (pgtbls s' q) i = tbl (pgtbls s q) i" using sel(8) by auto
    obtain d where d: "parent (pgtbls s d) = Some q" "tbl_index C (map_ia (pgtbls s d)) (pgtbls s q) = i"
      using entryE [OF ad(1) q] v unfolding t0 by blast
    then have "d \<noteq> c" using ad(5) by auto
    then show ?thesis using d sel(1,7) by (intro exI [of _ d]) simp
  qed
qed

lemma attached_child:
  assumes a: "attached C p ia c s s'"
  shows "child_wf s'"
  unfolding child_wf_def attached_sel(5) [OF a]
proof (intro allI impI)
  note ad = attachedD [OF a] and as = attached_spec [OF a]
  fix t assume t: "live s t"
  have w: "set (child_list (pgtbls s q)) = {c. parent (pgtbls s c) = Some q} \<and> distinct (child_list (pgtbls s q)) \<and>
      child_cnt (pgtbls s q) = of_nat (length (child_list (pgtbls s q)))" if "live s q" for q
    using mmu_wfD(4) [OF ad(1)] that by (simp add: child_wf_def)
  have new: "c \<notin> set (child_list (pgtbls s p))" using w [OF ad(2)] ad(5) by simp
  have par: "{d. parent (pgtbls s' d) = Some t} = {d. parent (pgtbls s d) = Some t} \<union> (if t = p then {c} else {})"
    using ad(5) by (auto simp: attached_sel(1) [OF a] split: if_splits)
  show "set (child_list (pgtbls s' t)) = {d. parent (pgtbls s' d) = Some t} \<and> distinct (child_list (pgtbls s' t)) \<and>
    child_cnt (pgtbls s' t) = of_nat (length (child_list (pgtbls s' t)))"
  proof (cases "t = p")
    case True
    then show ?thesis unfolding par using w [OF ad(2)] new as(3) by simp
  next
    case False
    then show ?thesis unfolding par using w [OF t] as by (cases "t = c") simp_all
  qed
qed

lemma attached_count:
  assumes a: "attached C p ia c s s'"
  shows "count_wf s'"
  unfolding count_wf_def attached_sel(5) [OF a]
proof (intro allI impI)
  let ?i = "tbl_index C ia (pgtbls s p)"
  note ad = attachedD [OF a] and as = attached_spec [OF a]
  fix t assume t: "live s t"
  have v: "valid_entries (pgtbls s' t) = valid_entries (pgtbls s t) \<union> (if t = p then {?i} else {})"
    by (auto simp: valid_entries_def attached_sel(8) [OF a] split: if_splits)
  have w: "valid_entries (pgtbls s t) \<subseteq> {..<2048} \<and> pte_cnt (pgtbls s t) = of_nat (card (valid_entries (pgtbls s t)))"
    using mmu_wfD(3) [OF ad(1)] t by (simp add: count_wf_def)
  have fin: "finite (valid_entries (pgtbls s t))" using w finite_subset by blast
  have new: "?i \<notin> valid_entries (pgtbls s p)" using ad(8) by (simp add: valid_entries_def)
  show "valid_entries (pgtbls s' t) \<subseteq> {..<2048} \<and> pte_cnt (pgtbls s' t) = of_nat (card (valid_entries (pgtbls s' t)))"
  proof (cases "t = p")
    case True
    then show ?thesis unfolding v using w fin new as(3) tbl_index_less [OF ad(1,2)] by simp
  next
    case False
    then have "pte_cnt (pgtbls s' t) = pte_cnt (pgtbls s t)" using as by (cases "t = c") simp_all
    then show ?thesis unfolding v using w False by simp
  qed
qed

lemma attached_wf:
  assumes a: "attached C p ia c s s'"
  shows "mmu_wf C s'"
proof -
  note ad = attachedD [OF a] and as = attached_spec [OF a] and sel = attached_sel [OF a]
  have "stage_wf C s'" unfolding stage_wf_def sel(2-6) as(5)
  proof (intro conjI allI impI)
    note w = mmu_wfD(5) [OF ad(1), unfolded stage_wf_def]
    fix t
    have "pt_level (pgtbls s c) < arch_mmu_start_level (modes C) (pt_stage (pgtbls s p))" using w ad(2,6) by auto
    then show "t < hyp_pgtbl C \<or> t = hyp_pgtbl C \<and> parent (pgtbls s' t) = None \<and> pt_level (pgtbls s t) = arch_mmu_start_level (modes C) MMU_STAGE1"
      if "pt_stage (pgtbls s t) = MMU_STAGE1"
      using w that sel(1) ad(7) by (cases "t = c") auto
  qed (use mmu_wfD(5) [OF ad(1)] in \<open>auto simp: stage_wf_def\<close>)
  moreover have "store_wf C s'" using mmu_wfD(6) [OF ad(1)] unfolding store_wf_def sel(2-6) as(4-6) .
  ultimately show ?thesis
    using attached_link [OF a] attached_entry [OF a] attached_child [OF a] attached_count [OF a] by (simp add: mmu_wf_def)
qed

lemma attached_step_child:
  assumes "cfg_ok C" and a: "attached C p ia c s s'" and "tbl_index C ia' (pgtbls s p) = tbl_index C ia (pgtbls s p)"
  shows "page_step C p ia' s' = Inr c"
  using step_child [OF assms(1) attached_wf [OF a], of c p ia'] attached_sel(1,6) [OF a] attached_index [OF a] assms(3) by simp

lemma attached_step:
  assumes C: "cfg_ok C" and a: "attached C p ia c s s'" and t: "live s t"
    and ne: "\<not> (t = p \<and> tbl_index C ia' (pgtbls s p) = tbl_index C ia (pgtbls s p))"
  shows "page_step C t ia' s' = page_step C t ia' s"
proof -
  note ad = attachedD [OF a]
  have "d \<noteq> c" if "parent (pgtbls s d) = Some t" for d using that ad(5) by auto
  then show ?thesis using ne attached_sel [OF a] by (intro step_eq [OF C ad(1) attached_wf [OF a] t]) auto
qed

lemma attached_old_step: "attached C p ia c s s' \<Longrightarrow> tbl_index C ia' (pgtbls s p) = tbl_index C ia (pgtbls s p) \<Longrightarrow>
    page_step C p ia' s = Inl (Inl VMM_EFAIL)"
  using attachedD(8) [of C p ia c s s'] by (simp add: page_step_def Let_def)

lemma attached_lookup:
  assumes C: "cfg_ok C" and a: "attached C p ia c s s'" and e: "valid_entries (pgtbls s c) = {}" and "live s t"
  shows "mmu_get_page C t ia' s' = mmu_get_page C t ia' s"
proof (rule get_page_sim [OF C attachedD(1) [OF a], where Q = "live s"])
  note ad = attachedD [OF a] and sel = attached_sel [OF a]
  have empty: "mmu_get_page C c ia' s' = Some (Inl VMM_EFAIL)"
    using e sel(8) [of c] ad(4) by (subst get_page_step) (simp add: page_step_def Let_def valid_entries_def)
  fix t assume t: "live s t"
  show "mmu_get_page C t ia' s' = mmu_get_page C t ia' s \<or>
      page_step C t ia' s' = page_step C t ia' s \<and> (\<forall>d. page_step C t ia' s = Inr d \<longrightarrow> live s d)"
  proof (cases "t = p \<and> tbl_index C ia' (pgtbls s p) = tbl_index C ia (pgtbls s p)")
    case True
    then show ?thesis
      using attached_step_child [OF C a] attached_old_step [OF a] empty by (simp add: get_page_step [of C p])
  next
    case False
    then show ?thesis using attached_step [OF C a t] live_step [OF C ad(1) t] by blast
  qed
qed (simp_all add: assms(4))

text \<open>What \<^verbatim>\<open>mmu_pgtbl_get_child\<close> does when asked to create the child: it always returns, keeps the invariant and every
  translation of every live table.\<close>

definition same_lookups :: "mmu_cfg \<Rightarrow> mmu_sys \<Rightarrow> mmu_sys \<Rightarrow> bool" where
  "same_lookups C s s' \<longleftrightarrow> (\<forall>t. live s t \<longrightarrow> live s' t \<and> pt_stage (pgtbls s' t) = pt_stage (pgtbls s t) \<and>
     pt_level (pgtbls s' t) = pt_level (pgtbls s t) \<and> (\<forall>ia c. page_step C t ia s = Inr c \<longrightarrow> page_step C t ia s' = Inr c) \<and>
     (\<forall>ia. mmu_get_page C t ia s' = mmu_get_page C t ia s))"

lemma same_lookups_trans: "same_lookups C s s1 \<Longrightarrow> same_lookups C s1 s2 \<Longrightarrow> same_lookups C s s2"
  by (simp add: same_lookups_def)

lemma wf_pgtbls_cong:
  assumes "pgtbls s' = pgtbls s" "pool_free_list s' = pool_free_list s" "nonpool_tree s' = nonpool_tree s" "next_tbl s' = next_tbl s"
  shows "mmu_wf C s' = mmu_wf C s" "live s' = live s" "page_step C t ia s' = page_step C t ia s"
  by (simp_all add: assms mmu_wf_def link_wf_def entry_wf_def count_wf_def child_wf_def stage_wf_def store_wf_def live_def
      page_step_def child_at_def mmu_pgtbl_find_def mmu_pgtbl_nonpool_find_def fun_eq_iff Let_def cong: option.case_cong)

lemma same_lookups_cong:
  assumes "cfg_ok C" "mmu_wf C s"
    and e: "pgtbls s' = pgtbls s" "pool_free_list s' = pool_free_list s" "nonpool_tree s' = nonpool_tree s" "next_tbl s' = next_tbl s"
  shows "same_lookups C s s'"
proof -
  have "mmu_get_page C t ia s' = mmu_get_page C t ia s" if "live s t" for t ia
    using that by (rule get_page_sim [OF assms(1,2), where Q = "live s", rotated -1])
      (auto simp: wf_pgtbls_cong(3) [OF e] dest: live_step [OF assms(1,2)])
  then show ?thesis by (simp add: same_lookups_def e wf_pgtbls_cong(2,3) [OF e])
qed

lemma get_child_create:
  assumes C: "cfg_ok C" and wf: "mmu_wf C s" and p: "live s p" and lv: "pt_level (pgtbls s p) \<noteq> 0"
  obtains r s' where "mmu_pgtbl_get_child C p ia True s = Some (r, s')" "mmu_wf C s'" "same_lookups C s s'"
    "\<And>c. r = Some c \<Longrightarrow> page_step C p ia s' = Inr c"
proof (cases "arch_mmu_pte_is_valid (tbl (pgtbls s p) (tbl_index C ia (pgtbls s p)))")
  case True
  have "page_step C p ia s = Inr c" if "child_at C p ia s = Some c" for c
    using that True lv by (auto simp: page_step_def Let_def child_at_def split: if_splits)
  then show ?thesis
    using that [of "child_at C p ia s" s] True lv wf by (simp add: mmu_pgtbl_get_child_def Let_def same_lookups_def)
next
  case False
  let ?P = "pgtbls s p" and ?l = "pt_level (pgtbls s p) - 1"
  have st: "pt_stage ?P \<noteq> MMU_STAGE_UNKNOWN" using p by (simp add: live_def)
  have le: "?l \<le> arch_mmu_start_level (modes C) (pt_stage ?P)" using mmu_wfD(5) [OF wf] p by (auto simp: stage_wf_def)
  obtain r s1 where al: "mmu_pgtbl_alloc C (pt_stage ?P) (Some ?l) (pt_attr ?P) (hw_tag ?P) s = (r, s1)" by fastforce
  show ?thesis
  proof (cases r)
    case None
    note e = alloc_none [OF al [unfolded None]]
    have "mmu_pgtbl_get_child C p ia True s = Some (None, s1)" using False lv al None by (simp add: mmu_pgtbl_get_child_def Let_def)
    then show ?thesis using that same_lookups_cong [OF C wf e] wf wf_pgtbls_cong(1) [OF e] by blast
  next
    case (Some c)
    note al = al [unfolded Some]
    note f = alloc_fresh(1) [OF C wf st al] and wf1 = alloc_wf [OF C wf st le al]
    note sel = fresh_sel [OF wf f st]
    have "p \<noteq> c" using f p by (auto simp: fresh_table_def)
    then have p1: "pgtbls s1 p = pgtbls s p" using f by (simp add: fresh_table_def)
    have c1: "parent (pgtbls s1 c) = None" "pt_stage (pgtbls s1 c) = pt_stage ?P" "pt_level (pgtbls s1 c) = ?l" "valid_entries (pgtbls s1 c) = {}"
      using f by (simp_all add: fresh_table_def valid_entries_def)
    have lc: "live s1 c" "live s1 p" using sel(2) p by simp_all
    obtain rc s2 where at: "mmu_pgtbl_attach C p ia c s1 = (rc, s2)" by fastforce
    have rc: "rc = VMM_OK" using attach_spec(1) [OF at] \<open>p \<noteq> c\<close> c1 lv False p1 by simp
    have a: "attached C p ia c s1 s2" unfolding attached_def using at rc wf1 lc c1 lv False p1 by simp
    have "mmu_pgtbl_get_child C p ia True s = Some (Some c, s2)"
      using False lv al at rc by (simp add: mmu_pgtbl_get_child_def Let_def)
    moreover have "same_lookups C s s1" "same_lookups C s1 s2"
      using fresh_step [OF C wf wf1 f st] fresh_lookup [OF C wf wf1 f st] sel(2) f
        attached_lookup [OF C a c1(4)] attached_step [OF C a] attached_old_step [OF a] attached_sel(2,3,5) [OF a]
      by (simp_all add: fresh_table_def same_lookups_def) (metis, metis Inl_Inr_False)
    moreover have "page_step C p ia s2 = Inr c" using attached_step_child [OF C a refl] .
    ultimately show ?thesis using that attached_wf [OF a] same_lookups_trans by blast
  qed
qed

section \<open>Mapping a page\<close>

definition accessible :: "pgflags \<Rightarrow> bool" where
  "accessible fl \<longleftrightarrow> pg_read fl \<or> pg_write fl \<or> pg_execute fl"

text \<open>The entry that a page gets in its table.\<close>

definition page_entry :: "pgtbl \<Rightarrow> mmu_page \<Rightarrow> u64" where
  "page_entry Q pg = arch_mmu_pte_set (pt_stage Q) (pt_level Q) (page_oa pg) (page_flags pg)"

lemma map_page_leaf:
  assumes wf: "mmu_wf C s" and t: "live s t" and fl: "accessible (page_flags pg)"
    and sz: "page_sz pg = arch_mmu_level_block_size (pt_stage (pgtbls s t)) (pt_level (pgtbls s t))"
    and inv: "\<not> arch_mmu_pte_is_valid (tbl (pgtbls s t) (tbl_index C (page_ia pg) (pgtbls s t)))"
  obtains s' where "mmu_map_page C t pg s = Some (VMM_OK, s')"
    "entry_written t (tbl_index C (page_ia pg) (pgtbls s t)) (page_entry (pgtbls s t) pg) s s'"
proof -
  let ?P = "pgtbls s t" and ?i = "tbl_index C (page_ia pg) (pgtbls s t)"
  let ?s' = "upd_pgtbl t (\<lambda>x. x\<lparr>pte_cnt := pte_cnt x + 1\<rparr>) (tlb_flush_page ?P (page_ia pg) (page_sz pg)
          (upd_pgtbl t (\<lambda>x. x\<lparr>tbl := (tbl x)(?i := page_entry ?P pg)\<rparr>) s))"
  have v: "arch_mmu_valid_block_size (page_sz pg)"
    by (simp add: sz arch_mmu_valid_block_size_def arch_mmu_level_block_size_def)
  have m: "mmu_map_page C t pg s = Some (VMM_OK, ?s')"
    using v sz inv by (subst mmu_map_page.simps) (simp add: page_entry_def Let_def)
  have e: "arch_mmu_pte_is_valid (page_entry ?P pg)" "\<not> arch_mmu_pte_is_table (page_entry ?P pg)"
    using fl by (auto simp: page_entry_def accessible_def)
  have ve: "valid_entries (pgtbls ?s' t) = insert ?i (valid_entries ?P)" using e(1) by (auto simp: valid_entries_def split: if_splits)
  have w: "valid_entries ?P \<subseteq> {..<2048}" "pte_cnt ?P = of_nat (card (valid_entries ?P))"
    using mmu_wfD(3) [OF wf] t by (simp_all add: count_wf_def)
  have "finite (valid_entries ?P)" using w(1) finite_subset by blast
  moreover have "?i \<notin> valid_entries ?P" using inv by (simp add: valid_entries_def)
  ultimately have "pte_cnt (pgtbls ?s' t) = of_nat (card (valid_entries (pgtbls ?s' t)))" unfolding ve by (simp add: w(2))
  then have "entry_written t ?i (page_entry ?P pg) s ?s'"
    unfolding entry_written_def using inv e tbl_index_less [OF wf t] by simp blast
  then show ?thesis using that m by blast
qed

text \<open>
  Mapping always returns. An error leaves every translation as it was; otherwise there is a table \<open>q\<close> that the address
  reaches, at the level of the page's size, and its entry is the only one written.
\<close>

definition mapped_at :: "mmu_cfg \<Rightarrow> nat \<Rightarrow> mmu_page \<Rightarrow> nat \<Rightarrow> mmu_sys \<Rightarrow> mmu_sys \<Rightarrow> mmu_sys \<Rightarrow> bool" where
  "mapped_at C t pg q s s1 s' \<longleftrightarrow> same_lookups C s s1 \<and> mmu_wf C s1 \<and> reaches C s1 (page_ia pg) t q \<and>
     page_sz pg = arch_mmu_level_block_size (pt_stage (pgtbls s1 q)) (pt_level (pgtbls s1 q)) \<and>
     \<not> arch_mmu_pte_is_valid (tbl (pgtbls s1 q) (tbl_index C (page_ia pg) (pgtbls s1 q))) \<and>
     entry_written q (tbl_index C (page_ia pg) (pgtbls s1 q)) (page_entry (pgtbls s1 q) pg) s1 s'"

definition map_outcome :: "mmu_cfg \<Rightarrow> nat \<Rightarrow> mmu_page \<Rightarrow> mmu_sys \<Rightarrow> bool" where
  "map_outcome C t pg s \<longleftrightarrow> (\<exists>rc s'. mmu_map_page C t pg s = Some (rc, s') \<and> mmu_wf C s' \<and>
     (if rc = VMM_OK then \<exists>q s1. mapped_at C t pg q s s1 s' else same_lookups C s s'))"

lemma same_lookups_refl [simp]: "same_lookups C s s"
  by (simp add: same_lookups_def)

lemma block_size_0: "\<not> arch_mmu_valid_block_size sz \<or> \<not> sz < arch_mmu_level_block_size st 0"
  by (auto simp: arch_mmu_valid_block_size_def arch_mmu_level_block_size_def)

lemma map_page_spec:
  assumes C: "cfg_ok C" and fl: "accessible (page_flags pg)"
  shows "mmu_wf C s \<Longrightarrow> live s t \<Longrightarrow> map_outcome C t pg s"
proof (induction "pt_level (pgtbls s t)" arbitrary: s t rule: less_induct)
  case less
  let ?P = "pgtbls s t" let ?b = "arch_mmu_level_block_size (pt_stage ?P) (pt_level ?P)" and ?v = "arch_mmu_valid_block_size (page_sz pg)"
  let ?i = "tbl_index C (page_ia pg) ?P"
  consider (bad) "\<not> ?v \<or> page_sz pg > ?b" | (down) "?v" "page_sz pg < ?b" | (exist) "?v" "page_sz pg = ?b" "arch_mmu_pte_is_valid (tbl ?P ?i)"
    | (leaf) "page_sz pg = ?b" "\<not> arch_mmu_pte_is_valid (tbl ?P ?i)" by fastforce
  then show ?case
  proof cases
    case bad
    then have "mmu_map_page C t pg s = Some (if \<not> ?v then VMM_EINVALID else VMM_EFAIL, s)"
      by (subst mmu_map_page.simps) (auto simp: Let_def)
    then show ?thesis using less.prems by (simp add: map_outcome_def VMM_EFAIL_def VMM_EINVALID_def VMM_OK_def)
  next
    case exist
    then have "mmu_map_page C t pg s = Some (VMM_EFAIL, s)" by (subst mmu_map_page.simps) (simp add: Let_def)
    then show ?thesis using less.prems by (simp add: map_outcome_def VMM_EFAIL_def VMM_OK_def)
  next
    case leaf
    then obtain s' where m: "mmu_map_page C t pg s = Some (VMM_OK, s')" "entry_written t ?i (page_entry ?P pg) s s'"
      using map_page_leaf [OF less.prems fl] by blast
    then have "mapped_at C t pg t s s s'" using leaf less.prems by (simp add: mapped_at_def reaches.here)
    then show ?thesis using m entry_written_wf [OF less.prems m(2)] unfolding map_outcome_def by auto
  next
    case down
    then have lv: "pt_level ?P \<noteq> 0" using block_size_0 by metis
    obtain r s1 where g: "mmu_pgtbl_get_child C t (page_ia pg) True s = Some (r, s1)" "mmu_wf C s1" "same_lookups C s s1"
      "\<And>c. r = Some c \<Longrightarrow> page_step C t (page_ia pg) s1 = Inr c"
      using get_child_create [OF C less.prems lv, of "page_ia pg"] by blast
    have m: "mmu_map_page C t pg s = (case r of None \<Rightarrow> Some (VMM_EFAIL, s1) | Some c \<Rightarrow> mmu_map_page C c pg s1)"
      using down g(1) by (subst mmu_map_page.simps) (simp add: Let_def less_not_sym)
    have t1: "live s1 t" "pt_level (pgtbls s1 t) = pt_level ?P" using g(3) less.prems(2) by (simp_all add: same_lookups_def)
    show ?thesis
    proof (cases r)
      case None
      then show ?thesis using m g by (simp add: map_outcome_def VMM_EFAIL_def VMM_OK_def)
    next
      case (Some c)
      note pc = step_down(1) [OF C g(2) t1(1) g(4) [OF Some]]
      have "map_outcome C c pg s1"
        using less.hyps [of s1 c] linkD(1,4) [OF g(2) pc] t1(2) g(2) by simp
      then obtain rc s' where s': "mmu_map_page C c pg s1 = Some (rc, s')" "mmu_wf C s'"
        "if rc = VMM_OK then \<exists>q s2. mapped_at C c pg q s1 s2 s' else same_lookups C s1 s'" by (auto simp: map_outcome_def)
      have "mapped_at C t pg q s s2 s'" if q: "mapped_at C c pg q s1 s2 s'" for q s2
      proof -
        have "page_step C t (page_ia pg) s2 = Inr c" using q g(4) [OF Some] t1(1) by (simp add: mapped_at_def same_lookups_def)
        then show ?thesis using q same_lookups_trans [OF g(3)] reaches.down unfolding mapped_at_def by blast
      qed
      then have "if rc = VMM_OK then \<exists>q s2. mapped_at C t pg q s s2 s' else same_lookups C s s'"
        using s'(3) same_lookups_trans [OF g(3)] by (cases "rc = VMM_OK") (simp_all, blast)
      then show ?thesis using m Some s' by (auto simp: map_outcome_def)
    qed
  qed
qed

end
