(* ===== verification/Mmu_unmap.thy ===== *)
theory Mmu_unmap
  imports Mmu_map
begin

text \<open>
  Unmapping a page: clearing the entry that a lookup finds changes exactly the addresses of that page, and freeing the
  tables that become empty changes no translation of the tables that stay.
\<close>

section \<open>Sizes and levels\<close>

definition size_level :: "u64 \<Rightarrow> nat" where
  "size_level sz = (if sz = 0x1000 then 0 else if sz = 0x200000 then 1 else if sz = 0x40000000 then 2
     else if sz = 0x8000000000 then 3 else 4)"

lemma size_level_block [simp]: "l \<le> 4 \<Longrightarrow> size_level (arch_mmu_level_block_size st l) = l"
  by (auto simp: size_level_def arch_mmu_level_block_size_def)

lemma block_size_less: "l < m \<Longrightarrow> m \<le> 4 \<Longrightarrow> arch_mmu_level_block_size st l < arch_mmu_level_block_size st' m"
proof -
  assume "l < m" "m \<le> 4"
  then have "l = 0 \<or> l = 1 \<or> l = 2 \<or> l = 3" "m = 1 \<or> m = 2 \<or> m = 3 \<or> m = 4" by linarith+
  then show ?thesis using \<open>l < m\<close> by (auto simp: arch_mmu_level_block_size_def)
qed

text \<open>The addresses of the page \<open>pg\<close> seen from table \<open>t\<close>, and what a lookup answers for them.\<close>

definition in_page :: "mmu_cfg \<Rightarrow> mmu_sys \<Rightarrow> nat \<Rightarrow> mmu_page \<Rightarrow> u64 \<Rightarrow> bool" where
  "in_page C s t pg ia \<longleftrightarrow>
     same_indices C (pt_stage (pgtbls s t)) (size_level (page_sz pg)) (pt_level (pgtbls s t)) (page_ia pg) ia"

definition page_seen :: "mmu_page \<Rightarrow> u64 \<Rightarrow> mmu_page" where
  "page_seen pg ia = \<lparr>page_ia = ia AND NOT (page_sz pg - 1), page_oa = page_oa pg AND NOT (page_sz pg - 1), page_sz = page_sz pg,
     page_flags = (page_flags pg)\<lparr>pg_valid := True\<rparr>\<rparr>"

lemma map_mask_size: "arch_mmu_level_map_mask st l = NOT (arch_mmu_level_block_size st l - 1)"
  by (simp add: arch_mmu_level_map_mask_def arch_mmu_level_block_size_def)

lemma entry_page_seen:
  assumes "unat (page_oa pg) < 2 ^ 56" "page_sz pg = arch_mmu_level_block_size (pt_stage Q) (pt_level Q)"
  shows "entry_page Q ia (page_entry Q pg) = page_seen pg ia"
  by (simp add: entry_page_def page_entry_def page_seen_def pte_set_addr [OF assms(1)] pte_set_flags map_mask_size assms(2))

lemma mapped_lookup:
  assumes C: "cfg_ok C" and wf: "mmu_wf C s" and t: "live s t" and fl: "accessible (page_flags pg)"
    and pa: "unat (page_oa pg) < 2 ^ 56" and m: "mapped_at C t pg q s s1 s'"
  shows "mmu_get_page C t ia s' = (if in_page C s t pg ia then Some (Inr (page_seen pg ia)) else mmu_get_page C t ia s)"
    and "in_page C s t pg ia \<Longrightarrow> mmu_get_page C t ia s = Some (Inl VMM_EFAIL)"
proof -
  let ?Q = "pgtbls s1 q" let ?i = "tbl_index C (page_ia pg) ?Q"
  have m': "same_lookups C s s1" "mmu_wf C s1" "reaches C s1 (page_ia pg) t q"
    "page_sz pg = arch_mmu_level_block_size (pt_stage ?Q) (pt_level ?Q)" "\<not> arch_mmu_pte_is_valid (tbl ?Q ?i)"
    "entry_written q ?i (page_entry ?Q pg) s1 s'" using m by (simp_all add: mapped_at_def)
  have t1: "live s1 t" "pt_stage (pgtbls s1 t) = pt_stage (pgtbls s t)" "pt_level (pgtbls s1 t) = pt_level (pgtbls s t)"
    "mmu_get_page C t x s1 = mmu_get_page C t x s" for x using m'(1) t by (simp_all add: same_lookups_def)
  note q = reaches_props [OF C m'(2,3) t1(1)]
  have sl: "size_level (page_sz pg) = pt_level ?Q" using m'(4) live_level [OF m'(2)] q by simp
  have hit: "reaches C s1 ia t q \<and> tbl_index C ia ?Q = ?i \<longleftrightarrow> in_page C s t pg ia"
    using reaches_iff [OF C m'(2) t1(1) m'(3)] by (simp add: in_page_def sl t1)
  show "mmu_get_page C t ia s' = (if in_page C s t pg ia then Some (Inr (page_seen pg ia)) else mmu_get_page C t ia s)"
  proof (cases "in_page C s t pg ia")
    case True
    then show ?thesis
      using entry_written_hit [OF C m'(2,6) t1(1)] hit entry_page_seen [OF pa m'(4)] by (simp add: page_entry_def)
  next
    case False
    then show ?thesis using entry_written_other [OF C m'(2,6) t1(1)] hit t1(4) by auto
  qed
  assume "in_page C s t pg ia"
  then have r: "reaches C s1 ia t q" "tbl_index C ia ?Q = ?i" using hit by simp_all
  have "mmu_get_page C q ia s1 = Some (Inl VMM_EFAIL)"
    using m'(5) r(2) by (subst get_page_step) (simp add: page_step_def Let_def)
  then show "mmu_get_page C t ia s = Some (Inl VMM_EFAIL)" using reaches_get_page [OF r(1)] t1(4) by simp
qed

section \<open>Detaching an empty table\<close>

definition detached :: "mmu_cfg \<Rightarrow> nat \<Rightarrow> nat \<Rightarrow> mmu_sys \<Rightarrow> mmu_sys \<Rightarrow> bool" where
  "detached C p c s s' \<longleftrightarrow> mmu_pgtbl_deattach C c s = (VMM_OK, s') \<and> mmu_wf C s \<and> parent (pgtbls s c) = Some p"

definition child_index :: "mmu_cfg \<Rightarrow> nat \<Rightarrow> nat \<Rightarrow> mmu_sys \<Rightarrow> nat" where
  "child_index C p c s = tbl_index C (map_ia (pgtbls s c)) (pgtbls s p)"

lemma deattach_ok:
  assumes "mmu_wf C s" "parent (pgtbls s c) = Some p"
  obtains s' where "mmu_pgtbl_deattach C c s = (VMM_OK, s')" "detached C p c s s'"
  using that linkD(5) [OF assms] assms by (simp add: mmu_pgtbl_deattach_def detached_def Let_def)

lemma detached_spec:
  assumes "detached C p c s s'"
  shows "mmu_wf C s" "parent (pgtbls s c) = Some p" "c \<noteq> p" "\<And>t. t \<noteq> c \<Longrightarrow> t \<noteq> p \<Longrightarrow> pgtbls s' t = pgtbls s t"
    "pgtbls s' c = (pgtbls s c)\<lparr>parent := None\<rparr>"
    "pgtbls s' p = (pgtbls s p)\<lparr>pte_cnt := pte_cnt (pgtbls s p) - 1, child_cnt := child_cnt (pgtbls s p) - 1,
       child_list := remove1 c (child_list (pgtbls s p)), tbl := (tbl (pgtbls s p))(child_index C p c s := 0)\<rparr>"
    "pool_free_list s' = pool_free_list s" "nonpool_tree s' = nonpool_tree s" "next_tbl s' = next_tbl s"
proof -
  show w: "mmu_wf C s" and p: "parent (pgtbls s c) = Some p" using assms by (simp_all add: detached_def)
  show "c \<noteq> p" using linkD(4) [OF w p] by auto
  then show "\<And>t. t \<noteq> c \<Longrightarrow> t \<noteq> p \<Longrightarrow> pgtbls s' t = pgtbls s t" "pgtbls s' c = (pgtbls s c)\<lparr>parent := None\<rparr>"
    "pgtbls s' p = (pgtbls s p)\<lparr>pte_cnt := pte_cnt (pgtbls s p) - 1, child_cnt := child_cnt (pgtbls s p) - 1,
       child_list := remove1 c (child_list (pgtbls s p)), tbl := (tbl (pgtbls s p))(child_index C p c s := 0)\<rparr>"
    "pool_free_list s' = pool_free_list s" "nonpool_tree s' = nonpool_tree s" "next_tbl s' = next_tbl s"
    using assms p by (auto simp: detached_def mmu_pgtbl_deattach_def child_index_def Let_def split: if_splits)
qed

lemma detached_sel:
  assumes "detached C p c s s'"
  shows "parent (pgtbls s' t) = (if t = c then None else parent (pgtbls s t))"
    "pt_stage (pgtbls s' t) = pt_stage (pgtbls s t)" "pt_level (pgtbls s' t) = pt_level (pgtbls s t)"
    "tbl_pa (pgtbls s' t) = tbl_pa (pgtbls s t)" "map_ia (pgtbls s' t) = map_ia (pgtbls s t)"
    "tbl (pgtbls s' t) j = (if t = p \<and> j = child_index C p c s then 0 else tbl (pgtbls s t) j)"
    "live s' t = live s t" "tbl_index C x (pgtbls s' t) = tbl_index C x (pgtbls s t)"
proof -
  note ds = detached_spec(3-6) [OF assms]
  consider "t = c" | "t = p" "t \<noteq> c" | "t \<noteq> c" "t \<noteq> p" by blast
  note cs = this
  show "parent (pgtbls s' t) = (if t = c then None else parent (pgtbls s t))"
    and st: "pt_stage (pgtbls s' t) = pt_stage (pgtbls s t)" and lv: "pt_level (pgtbls s' t) = pt_level (pgtbls s t)"
    and "tbl_pa (pgtbls s' t) = tbl_pa (pgtbls s t)" and "map_ia (pgtbls s' t) = map_ia (pgtbls s t)"
    and "tbl (pgtbls s' t) j = (if t = p \<and> j = child_index C p c s then 0 else tbl (pgtbls s t) j)"
    using cs by (cases; simp add: ds)+
  show "live s' t = live s t" "tbl_index C x (pgtbls s' t) = tbl_index C x (pgtbls s t)"
    by (simp_all add: live_def tbl_index_def st lv)
qed

text \<open>A slot belongs to one child only.\<close>

lemma child_index_inj:
  assumes "cfg_ok C" "mmu_wf C s" "parent (pgtbls s c) = Some p" "parent (pgtbls s d) = Some p" "child_index C p d s = child_index C p c s"
  shows "d = c"
  using child_at_child [OF assms(1-3), of "map_ia (pgtbls s d)"] child_at_child [OF assms(1,2,4), of "map_ia (pgtbls s d)"] assms(5)
  by (simp add: child_index_def)

lemma detached_link:
  assumes C: "cfg_ok C" and d: "detached C p c s s'"
  shows "link_wf C s'"
  unfolding link_wf_def detached_sel(2-5,7,8) [OF d]
proof (intro allI impI)
  note sel = detached_sel [OF d] and w = detached_spec(1,2) [OF d]
  fix x q assume "parent (pgtbls s' x) = Some q"
  then have x: "parent (pgtbls s x) = Some q" "x \<noteq> c" by (simp_all add: sel(1) split: if_splits)
  have "\<not> (q = p \<and> tbl_index C (map_ia (pgtbls s x)) (pgtbls s q) = child_index C p c s)"
    using child_index_inj [OF C w, of x] x by (auto simp: child_index_def)
  then show "live s x \<and> live s q \<and> pt_stage (pgtbls s x) = pt_stage (pgtbls s q) \<and> pt_level (pgtbls s q) = Suc (pt_level (pgtbls s x)) \<and>
    tbl (pgtbls s' q) (tbl_index C (map_ia (pgtbls s x)) (pgtbls s q)) = arch_mmu_pte_set_table (tbl_pa (pgtbls s x))"
    using linkD [OF w(1) x(1)] sel(6) by auto
qed

lemma detached_entry:
  assumes d: "detached C p c s s'"
  shows "entry_wf C s'"
  unfolding entry_wf_def detached_sel(5,7,8) [OF d]
proof (intro allI impI)
  note sel = detached_sel [OF d] and w = detached_spec(1,2) [OF d]
  fix q i assume q: "live s q" and v: "arch_mmu_pte_is_valid (tbl (pgtbls s' q) i)" "arch_mmu_pte_is_table (tbl (pgtbls s' q) i)"
  have ne: "\<not> (q = p \<and> i = child_index C p c s)" using v(1) by (auto simp: sel(6))
  then have t0: "tbl (pgtbls s' q) i = tbl (pgtbls s q) i" by (auto simp: sel(6))
  obtain x where x: "parent (pgtbls s x) = Some q" "tbl_index C (map_ia (pgtbls s x)) (pgtbls s q) = i"
    using entryE [OF w(1) q] v unfolding t0 by blast
  then have "x \<noteq> c" using ne w(2) by (auto simp: child_index_def)
  then show "\<exists>x. parent (pgtbls s' x) = Some q \<and> tbl_index C (map_ia (pgtbls s x)) (pgtbls s q) = i"
    using x sel(1) by (intro exI [of _ x]) simp
qed

lemma detached_child:
  assumes d: "detached C p c s s'"
  shows "child_wf s'"
  unfolding child_wf_def detached_sel(7) [OF d]
proof (intro allI impI)
  note ds = detached_spec [OF d]
  fix t assume t: "live s t"
  have w: "set (child_list (pgtbls s t)) = {c. parent (pgtbls s c) = Some t} \<and> distinct (child_list (pgtbls s t)) \<and>
      child_cnt (pgtbls s t) = of_nat (length (child_list (pgtbls s t)))"
    using mmu_wfD(4) [OF ds(1)] t by (simp add: child_wf_def)
  have par: "{x. parent (pgtbls s' x) = Some t} = {x. parent (pgtbls s x) = Some t} - {c}"
    by (auto simp: detached_sel(1) [OF d] split: if_splits)
  show "set (child_list (pgtbls s' t)) = {x. parent (pgtbls s' x) = Some t} \<and> distinct (child_list (pgtbls s' t)) \<and>
    child_cnt (pgtbls s' t) = of_nat (length (child_list (pgtbls s' t)))"
  proof (cases "t = p")
    case True
    then have "c \<in> set (child_list (pgtbls s p))" using w ds(2) by simp
    moreover from this have "length (child_list (pgtbls s p)) \<noteq> 0" by auto
    ultimately show ?thesis unfolding par using True w ds(6) by (auto simp: length_remove1 of_nat_diff Suc_le_eq)
  next
    case False
    then have "c \<notin> {x. parent (pgtbls s x) = Some t}" using ds(2) by simp
    then show ?thesis unfolding par using w False ds(4,5) by (cases "t = c") simp_all
  qed
qed

lemma detached_count:
  assumes d: "detached C p c s s'"
  shows "count_wf s'"
  unfolding count_wf_def detached_sel(7) [OF d]
proof (intro allI impI)
  note ds = detached_spec [OF d]
  let ?i = "child_index C p c s"
  fix t assume t: "live s t"
  have v: "valid_entries (pgtbls s' t) = valid_entries (pgtbls s t) - (if t = p then {?i} else {})"
    by (auto simp: valid_entries_def detached_sel(6) [OF d] split: if_splits)
  have w: "valid_entries (pgtbls s t) \<subseteq> {..<2048} \<and> pte_cnt (pgtbls s t) = of_nat (card (valid_entries (pgtbls s t)))"
    using mmu_wfD(3) [OF ds(1)] t by (simp add: count_wf_def)
  have fin: "finite (valid_entries (pgtbls s t))" using w finite_subset by blast
  show "valid_entries (pgtbls s' t) \<subseteq> {..<2048} \<and> pte_cnt (pgtbls s' t) = of_nat (card (valid_entries (pgtbls s' t)))"
  proof (cases "t = p")
    case True
    have "?i \<in> valid_entries (pgtbls s p)" using linkD(5) [OF ds(1,2)] by (simp add: valid_entries_def child_index_def)
    moreover from this have "card (valid_entries (pgtbls s p)) \<noteq> 0" using fin True by auto
    ultimately show ?thesis unfolding v using True w ds(6) fin by (auto simp: of_nat_diff Suc_le_eq)
  next
    case False
    then have "pte_cnt (pgtbls s' t) = pte_cnt (pgtbls s t)" using ds by (cases "t = c") simp_all
    then show ?thesis unfolding v using w False by simp
  qed
qed

lemma detached_wf:
  assumes C: "cfg_ok C" and d: "detached C p c s s'"
  shows "mmu_wf C s'"
proof -
  note sel = detached_sel [OF d] and ds = detached_spec [OF d]
  have "stage_wf C s'" using mmu_wfD(5) [OF ds(1)] unfolding stage_wf_def sel ds(8) by (auto split: if_splits)
  moreover have "store_wf C s'" using mmu_wfD(6) [OF ds(1)] unfolding store_wf_def sel ds(7-9) .
  ultimately show ?thesis
    using detached_link [OF C d] detached_entry [OF d] detached_child [OF d] detached_count [OF d] by (simp add: mmu_wf_def)
qed

text \<open>The tables that stay live answer as before.\<close>

definition kept_lookups :: "mmu_cfg \<Rightarrow> mmu_sys \<Rightarrow> mmu_sys \<Rightarrow> bool" where
  "kept_lookups C s s' \<longleftrightarrow> (\<forall>t. live s' t \<longrightarrow> live s t \<and> pt_stage (pgtbls s' t) = pt_stage (pgtbls s t) \<and>
     pt_level (pgtbls s' t) = pt_level (pgtbls s t) \<and> (\<forall>ia. mmu_get_page C t ia s' = mmu_get_page C t ia s))"

lemma kept_lookups_trans: "kept_lookups C s s1 \<Longrightarrow> kept_lookups C s1 s2 \<Longrightarrow> kept_lookups C s s2"
  by (simp add: kept_lookups_def)

lemma detached_lookup:
  assumes C: "cfg_ok C" and d: "detached C p c s s'" and e: "valid_entries (pgtbls s c) = {}"
  shows "kept_lookups C s s'"
proof -
  note sel = detached_sel [OF d] and ds = detached_spec [OF d]
  have empty: "mmu_get_page C c ia s = Some (Inl VMM_EFAIL)" for ia
    using e by (subst get_page_step) (simp add: page_step_def Let_def valid_entries_def)
  have "mmu_get_page C t ia s' = mmu_get_page C t ia s" if "live s t" for t ia
  proof (rule get_page_sim [OF C ds(1), where Q = "live s"])
    fix t assume t: "live s t"
    show "mmu_get_page C t ia s' = mmu_get_page C t ia s \<or>
        page_step C t ia s' = page_step C t ia s \<and> (\<forall>x. page_step C t ia s = Inr x \<longrightarrow> live s x)"
    proof (cases "t = p \<and> tbl_index C ia (pgtbls s p) = child_index C p c s")
      case True
      then have "page_step C t ia s = Inr c" using step_child [OF C ds(1,2)] by (simp add: child_index_def)
      moreover have "page_step C t ia s' = Inl (Inl VMM_EFAIL)" using True sel(6,8) by (simp add: page_step_def Let_def)
      ultimately show ?thesis using empty by (simp add: get_page_step [of C t])
    next
      case False
      then have "page_step C t ia s' = page_step C t ia s"
        using sel ds(2) by (intro step_eq [OF C ds(1) detached_wf [OF C d] t]) (auto simp: child_index_def)
      then show ?thesis using live_step [OF C ds(1) t] by blast
    qed
  qed (use that in simp_all)
  then show ?thesis using sel by (simp add: kept_lookups_def)
qed

section \<open>Releasing a table without children\<close>

definition releasable :: "mmu_cfg \<Rightarrow> nat \<Rightarrow> mmu_sys \<Rightarrow> bool" where
  "releasable C t s \<longleftrightarrow> mmu_wf C s \<and> live s t \<and> parent (pgtbls s t) = None \<and> t \<noteq> hyp_pgtbl C \<and>
     (\<forall>d. parent (pgtbls s d) \<noteq> Some t)"

lemma release_sel:
  assumes "releasable C t s"
  shows "\<And>x. x \<noteq> t \<Longrightarrow> pgtbls (pgtbl_release t s) x = pgtbls s x" "live (pgtbl_release t s) x \<longleftrightarrow> live s x \<and> x \<noteq> t"
    "parent (pgtbls (pgtbl_release t s) x) = parent (pgtbls s x)" "tbl_pa (pgtbls (pgtbl_release t s) x) = tbl_pa (pgtbls s x)"
    "next_tbl (pgtbl_release t s) = next_tbl s"
  using assms by (auto simp: pgtbl_release_def releasable_def mmu_pgtbl_pool_free_def mmu_pgtbl_nonpool_free_def live_def Let_def)

lemma release_store:
  assumes r: "releasable C t s"
  shows "stage_wf C (pgtbl_release t s)" "store_wf C (pgtbl_release t s)"
proof -
  let ?s' = "pgtbl_release t s"
  note sel = release_sel [OF r]
  have wf: "mmu_wf C s" and l: "live s t" and h: "t \<noteq> hyp_pgtbl C" using r by (simp_all add: releasable_def)
  note w = mmu_wfD(5) [OF wf, unfolded stage_wf_def]
  have t0: "pt_stage (pgtbls ?s' t) = MMU_STAGE_UNKNOWN" using sel(2) [of t] by (simp add: live_def)
  have "nonpool_tree ?s' (nonpool_key MMU_STAGE2 (tbl_pa (pgtbls s x))) = Some x"
    if "x \<noteq> t" "pt_stage (pgtbls s x) = MMU_STAGE2" for x
  proof -
    have x: "nonpool_tree s (nonpool_key MMU_STAGE2 (tbl_pa (pgtbls s x))) = Some x" using w that(2) by blast
    have "nonpool_key MMU_STAGE2 (tbl_pa (pgtbls s x)) \<noteq> nonpool_key MMU_STAGE2 (tbl_pa (pgtbls s t))"
      if "pt_stage (pgtbls s t) = MMU_STAGE2" using w that x \<open>x \<noteq> t\<close> by fastforce
    then show ?thesis
      using x l by (cases "pt_stage (pgtbls s t)")
        (auto simp: pgtbl_release_def mmu_pgtbl_pool_free_def mmu_pgtbl_nonpool_free_def Let_def live_def)
  qed
  then show "stage_wf C ?s'" unfolding stage_wf_def using w sel t0 by (metis live_def mmu_stage.distinct(1,3))
  have "t < hyp_pgtbl C" if "pt_stage (pgtbls s t) = MMU_STAGE1" using w that h by blast
  moreover have "pool_free_list ?s' = (if pt_stage (pgtbls s t) = MMU_STAGE1 then pool_free_list s @ [t] else pool_free_list s)"
    by (simp add: pgtbl_release_def mmu_pgtbl_pool_free_def mmu_pgtbl_nonpool_free_def Let_def)
  ultimately show "store_wf C ?s'"
    using mmu_wfD(6) [OF wf] l unfolding store_wf_def sel by auto
qed

lemma release_wf:
  assumes r: "releasable C t s"
  shows "mmu_wf C (pgtbl_release t s)"
proof -
  let ?s' = "pgtbl_release t s"
  note sel = release_sel [OF r]
  have wf: "mmu_wf C s" and p: "parent (pgtbls s t) = None" and nc: "parent (pgtbls s d) \<noteq> Some t" for d
    using r by (simp_all add: releasable_def)
  have ne: "d \<noteq> t \<and> q \<noteq> t" if "parent (pgtbls s d) = Some q" for d q using that p nc by auto
  have "link_wf C ?s'" unfolding link_wf_def sel(2,3)
  proof (intro allI impI)
    fix d q assume d: "parent (pgtbls s d) = Some q"
    show "(live s d \<and> d \<noteq> t) \<and> (live s q \<and> q \<noteq> t) \<and> pt_stage (pgtbls ?s' d) = pt_stage (pgtbls ?s' q) \<and>
      pt_level (pgtbls ?s' q) = Suc (pt_level (pgtbls ?s' d)) \<and>
      tbl (pgtbls ?s' q) (tbl_index C (map_ia (pgtbls ?s' d)) (pgtbls ?s' q)) = arch_mmu_pte_set_table (tbl_pa (pgtbls ?s' d))"
      using linkD [OF wf d] ne [OF d] sel(1) [of d] sel(1) [of q] by simp
  qed
  moreover have "entry_wf C ?s'" unfolding entry_wf_def sel(2,3)
  proof (intro allI impI)
    fix q i assume q: "live s q \<and> q \<noteq> t" and v: "arch_mmu_pte_is_valid (tbl (pgtbls ?s' q) i)" "arch_mmu_pte_is_table (tbl (pgtbls ?s' q) i)"
    then have e: "pgtbls ?s' q = pgtbls s q" using sel(1) by simp
    obtain d where "parent (pgtbls s d) = Some q" "tbl_index C (map_ia (pgtbls s d)) (pgtbls s q) = i"
      using entryE [OF wf _ v [unfolded e]] q by blast
    then show "\<exists>d. parent (pgtbls s d) = Some q \<and> tbl_index C (map_ia (pgtbls ?s' d)) (pgtbls ?s' q) = i"
      using ne sel(1) e by (intro exI [of _ d]) simp
  qed
  moreover have "count_wf ?s'" using mmu_wfD(3) [OF wf] sel(1) unfolding count_wf_def sel(2) by simp
  moreover have "child_wf ?s'" using mmu_wfD(4) [OF wf] sel(1) unfolding child_wf_def sel(2,3) by simp
  ultimately show ?thesis using release_store [OF r] by (simp add: mmu_wf_def)
qed

lemma release_lookup:
  assumes C: "cfg_ok C" and r: "releasable C t s"
  shows "kept_lookups C s (pgtbl_release t s)"
proof -
  let ?s' = "pgtbl_release t s"
  note sel = release_sel [OF r]
  have wf: "mmu_wf C s" and p: "parent (pgtbls s t) = None" using r by (simp_all add: releasable_def)
  have "mmu_get_page C x ia ?s' = mmu_get_page C x ia s" if "live s x \<and> x \<noteq> t" for x ia
  proof (rule get_page_sim [OF C wf, where Q = "\<lambda>x. live s x \<and> x \<noteq> t"])
    fix x assume x: "live s x \<and> x \<noteq> t"
    have "d \<noteq> t" if "parent (pgtbls s d) = Some x" for d using that p by auto
    then have "page_step C x ia ?s' = page_step C x ia s"
      using sel x by (intro step_eq [OF C wf release_wf [OF r]]) auto
    moreover have "d \<noteq> t" if "page_step C x ia s = Inr d" for d using step_down(1) [OF C wf _ that] x p by auto
    ultimately show "mmu_get_page C x ia ?s' = mmu_get_page C x ia s \<or>
        page_step C x ia ?s' = page_step C x ia s \<and> (\<forall>d. page_step C x ia s = Inr d \<longrightarrow> live s d \<and> d \<noteq> t)"
      using live_step [OF C wf] x by blast
  qed (use that in simp_all)
  then show ?thesis using sel by (simp add: kept_lookups_def)
qed

lemma free_empty:
  assumes C: "cfg_ok C" and wf: "mmu_wf C s" and l: "live s t" and e: "valid_entries (pgtbls s t) = {}" and h: "t \<noteq> hyp_pgtbl C"
  obtains s' where "mmu_pgtbl_free C t s = Some (VMM_OK, s')" "mmu_wf C s'" "kept_lookups C s s'" "\<And>x. live s' x \<longleftrightarrow> live s x \<and> x \<noteq> t"
proof -
  have free: "mmu_pgtbl_free C t s = Some (VMM_OK, pgtbl_release t s1)"
    if r: "releasable C t s1" and d: "(if mmu_pgtbl_isattached t s then mmu_pgtbl_deattach C t s else (VMM_OK, s)) = (VMM_OK, s1)" for s1
  proof -
    have "set (child_list (pgtbls s1 t)) = {}"
      using mmu_wfD(4) [of C s1] r by (simp add: child_wf_def releasable_def)
    then show ?thesis using d by (subst mmu_pgtbl_free.simps) (simp add: VMM_OK_def)
  qed
  show ?thesis
  proof (cases "parent (pgtbls s t)")
    case None
    then have r: "releasable C t s" using assms no_entry_no_child [OF wf e] by (simp add: releasable_def)
    show ?thesis
      using that [OF free [OF r] release_wf [OF r] release_lookup [OF C r] release_sel(2) [OF r]] None
      by (simp add: mmu_pgtbl_isattached_def)
  next
    case (Some p)
    obtain s1 where d: "mmu_pgtbl_deattach C t s = (VMM_OK, s1)" "detached C p t s s1" using deattach_ok [OF wf Some] .
    note sel = detached_sel [OF d(2)]
    have "t \<noteq> p" using detached_spec(3) [OF d(2)] .
    then have "valid_entries (pgtbls s1 t) = {}" using e sel(6) by (simp add: valid_entries_def)
    then have r: "releasable C t s1"
      using detached_wf [OF C d(2)] no_entry_no_child sel(1,7) [of t] l h by (simp add: releasable_def)
    show ?thesis
      using that [OF free [OF r] release_wf [OF r] kept_lookups_trans [OF detached_lookup [OF C d(2) e] release_lookup [OF C r]]]
        release_sel(2) [OF r] sel(7) d(1) Some by (simp add: mmu_pgtbl_isattached_def)
  qed
qed

lemma pte_cnt_zero:
  assumes "mmu_wf C s" "live s t"
  shows "pte_cnt (pgtbls s t) = 0 \<longleftrightarrow> valid_entries (pgtbls s t) = {}"
proof -
  have w: "valid_entries (pgtbls s t) \<subseteq> {..<2048}" "pte_cnt (pgtbls s t) = of_nat (card (valid_entries (pgtbls s t)))"
    using mmu_wfD(3) [OF assms(1)] assms(2) by (simp_all add: count_wf_def)
  have "finite (valid_entries (pgtbls s t))" using w(1) finite_subset by blast
  moreover have "card (valid_entries (pgtbls s t)) \<le> 2048" using card_mono [OF _ w(1)] by simp
  moreover from this have "2 ^ 32 dvd card (valid_entries (pgtbls s t)) \<longleftrightarrow> card (valid_entries (pgtbls s t)) = 0"
    by (auto dest: dvd_imp_le)
  ultimately show ?thesis unfolding w(2) by (simp add: word_of_nat_eq_0_iff)
qed

text \<open>A table at a smaller level than the root is freed when its last entry is gone.\<close>

definition root_level :: "mmu_cfg \<Rightarrow> mmu_sys \<Rightarrow> nat \<Rightarrow> bool" where
  "root_level C s t \<longleftrightarrow> pt_level (pgtbls s t) = arch_mmu_start_level (modes C) (pt_stage (pgtbls s t))"

lemma free_if_empty_spec:
  assumes C: "cfg_ok C" and wf: "mmu_wf C s" and l: "live s t"
  obtains s' where "free_if_empty C (arch_mmu_start_level (modes C) (pt_stage (pgtbls s t))) t rc s = Some (rc, s')" "mmu_wf C s'"
    "kept_lookups C s s'" "\<And>x. live s x \<Longrightarrow> pt_level (pgtbls s x) > pt_level (pgtbls s t) \<or> root_level C s x \<Longrightarrow> live s' x"
proof (cases "pte_cnt (pgtbls s t) = 0 \<and> pt_level (pgtbls s t) < arch_mmu_start_level (modes C) (pt_stage (pgtbls s t))")
  case False
  then have "free_if_empty C (arch_mmu_start_level (modes C) (pt_stage (pgtbls s t))) t rc s = Some (rc, s)"
    by (simp only: free_if_empty_def if_False)
  then show ?thesis using that wf by (simp add: kept_lookups_def)
next
  case True
  have "t \<noteq> hyp_pgtbl C" using mmu_wfD(5) [OF wf] True l unfolding stage_wf_def live_def
    by (metis (full_types) less_irrefl mmu_stage.exhaust)
  then obtain s' where "mmu_pgtbl_free C t s = Some (VMM_OK, s')" "mmu_wf C s'" "kept_lookups C s s'" "\<And>x. live s' x \<longleftrightarrow> live s x \<and> x \<noteq> t"
    using free_empty [OF C wf l] True pte_cnt_zero [OF wf l] by blast
  moreover have "x \<noteq> t" if "pt_level (pgtbls s x) > pt_level (pgtbls s t) \<or> root_level C s x" for x
    using that True by (auto simp: root_level_def)
  ultimately show ?thesis using that [of s'] True by (simp add: free_if_empty_def)
qed

section \<open>Unmapping a page\<close>

text \<open>
  \<open>q\<close> is the table whose entry for the address maps the page. The entry is cleared, and the tables that stay answer as
  they do in the state \<open>s1\<close> where only that happened.
\<close>

definition unmap_outcome :: "mmu_cfg \<Rightarrow> nat \<Rightarrow> mmu_page \<Rightarrow> nat \<Rightarrow> mmu_sys \<Rightarrow> mmu_sys \<Rightarrow> bool" where
  "unmap_outcome C t pg q s s' \<longleftrightarrow> mmu_wf C s' \<and>
     (\<exists>s1. entry_written q (tbl_index C (page_ia pg) (pgtbls s q)) 0 s s1 \<and> kept_lookups C s1 s') \<and>
     (\<forall>x. live s x \<and> (pt_level (pgtbls s x) > pt_level (pgtbls s t) \<or> root_level C s x) \<longrightarrow> live s' x)"

lemma unmap_clear:
  assumes wf: "mmu_wf C s" and t: "live s t" and v: "arch_mmu_pte_is_valid (tbl (pgtbls s t) i)" "\<not> arch_mmu_pte_is_table (tbl (pgtbls s t) i)"
  shows "entry_written t i 0 s (upd_pgtbl t (\<lambda>x. x\<lparr>pte_cnt := pte_cnt x - 1\<rparr>)
      (tlb_flush_page P ia b (upd_pgtbl t (\<lambda>x. x\<lparr>tbl := (tbl x)(i := 0)\<rparr>) s)))"
proof -
  let ?P = "pgtbls s t"
  have ve: "valid_entries (?P\<lparr>tbl := (tbl ?P)(i := 0), pte_cnt := n\<rparr>) = valid_entries ?P - {i}" for n by (auto simp: valid_entries_def)
  have i: "i \<in> valid_entries ?P" using v(1) by (simp add: valid_entries_def)
  have w: "valid_entries ?P \<subseteq> {..<2048}" "pte_cnt ?P = of_nat (card (valid_entries ?P))"
    using mmu_wfD(3) [OF wf] t by (simp_all add: count_wf_def)
  have "finite (valid_entries ?P)" using w(1) finite_subset by blast
  then have "card (valid_entries ?P) = Suc (card (valid_entries ?P - {i}))" using i by (rule card.remove)
  then have "pte_cnt ?P - 1 = of_nat (card (valid_entries ?P - {i}))" by (simp add: w(2))
  then show ?thesis unfolding entry_written_def using v w(1) i by (simp add: ve) blast
qed

lemma unmap_page_spec:
  assumes C: "cfg_ok C" and wf: "mmu_wf C s"
  shows "reaches C s (page_ia pg) t q \<Longrightarrow> live s t \<Longrightarrow>
    page_sz pg = arch_mmu_level_block_size (pt_stage (pgtbls s q)) (pt_level (pgtbls s q)) \<Longrightarrow>
    arch_mmu_pte_is_valid (tbl (pgtbls s q) (tbl_index C (page_ia pg) (pgtbls s q))) \<Longrightarrow>
    \<not> arch_mmu_pte_is_table (tbl (pgtbls s q) (tbl_index C (page_ia pg) (pgtbls s q))) \<Longrightarrow>
    \<exists>s'. mmu_unmap_page C t pg s = Some (VMM_OK, s') \<and> unmap_outcome C t pg q s s'"
proof (induction rule: reaches.induct)
  case (here t)
  let ?P = "pgtbls s t" and ?i = "tbl_index C (page_ia pg) (pgtbls s t)"
  obtain s1 where s1: "upd_pgtbl t (\<lambda>x. x\<lparr>pte_cnt := pte_cnt x - 1\<rparr>)
      (tlb_flush_page ?P (page_ia pg) (page_sz pg) (upd_pgtbl t (\<lambda>x. x\<lparr>tbl := (tbl x)(?i := 0)\<rparr>) s)) = s1" by simp
  note ew = unmap_clear [OF wf here.prems(1,3,4), of ?P "page_ia pg" "page_sz pg", unfolded s1]
  note sel = entry_written_sel [OF ew]
  have v: "arch_mmu_valid_block_size (page_sz pg)"
    by (simp add: here.prems(2) arch_mmu_valid_block_size_def arch_mmu_level_block_size_def)
  obtain s' where f: "free_if_empty C (arch_mmu_start_level (modes C) (pt_stage ?P)) t VMM_OK s1 = Some (VMM_OK, s')" "mmu_wf C s'"
    "kept_lookups C s1 s'" "\<And>x. live s x \<Longrightarrow> pt_level (pgtbls s x) > pt_level (pgtbls s t) \<or> root_level C s x \<Longrightarrow> live s' x"
    using free_if_empty_spec [OF C entry_written_wf [OF wf here.prems(1) ew], of t VMM_OK] here.prems(1)
    unfolding sel root_level_def by blast
  have "mmu_unmap_page C t pg s = Some (VMM_OK, s')"
    using v here.prems f(1) s1 by (subst mmu_unmap_page.simps) (simp add: Let_def)
  moreover have "unmap_outcome C t pg t s s'"
    unfolding unmap_outcome_def using f ew by blast
  ultimately show ?case by blast
next
  case (down t c q)
  let ?P = "pgtbls s t"
  have p: "parent (pgtbls s c) = Some t" "tbl_index C (page_ia pg) ?P = tbl_index C (map_ia (pgtbls s c)) ?P"
    using step_down [OF C wf down.prems(1) down.hyps(1)] .
  note l = linkD [OF wf p(1)]
  have g: "mmu_pgtbl_get_child C t (page_ia pg) False s = Some (Some c, s)"
    using child_at_child [OF C wf p] l(4,5) p(2) by (simp add: mmu_pgtbl_get_child_def Let_def)
  have "pt_level (pgtbls s q) < pt_level ?P" "pt_stage (pgtbls s q) = pt_stage ?P"
    using reaches_below [OF C wf down.prems(1) down.hyps] reaches_props [OF C wf down.hyps(2) l(1)] l(3) by simp_all
  then have sz: "page_sz pg < arch_mmu_level_block_size (pt_stage ?P) (pt_level ?P)" "arch_mmu_valid_block_size (page_sz pg)"
    using block_size_less live_level [OF wf down.prems(1)] down.prems(2)
    by (simp_all add: arch_mmu_valid_block_size_def arch_mmu_level_block_size_def)
  obtain s2 where s2: "mmu_unmap_page C c pg s = Some (VMM_OK, s2)" "unmap_outcome C c pg q s s2"
    using down.IH [OF l(1) down.prems(2-4)] by blast
  then obtain s1 where s1: "entry_written q (tbl_index C (page_ia pg) (pgtbls s q)) 0 s s1" "kept_lookups C s1 s2" "mmu_wf C s2"
    "\<And>x. live s x \<Longrightarrow> pt_level (pgtbls s x) > pt_level (pgtbls s c) \<or> root_level C s x \<Longrightarrow> live s2 x"
    by (auto simp: unmap_outcome_def)
  note sel = entry_written_sel [OF s1(1)]
  have t2: "live s2 t" using s1(4) down.prems(1) l(4) by simp
  have k: "pt_stage (pgtbls s2 x) = pt_stage (pgtbls s x)" "pt_level (pgtbls s2 x) = pt_level (pgtbls s x)" if "live s2 x" for x
    using s1(2) that sel by (simp_all add: kept_lookups_def)
  obtain s' where f: "free_if_empty C (arch_mmu_start_level (modes C) (pt_stage ?P)) t VMM_OK s2 = Some (VMM_OK, s')" "mmu_wf C s'"
    "kept_lookups C s2 s'" "\<And>x. live s2 x \<Longrightarrow> pt_level (pgtbls s2 x) > pt_level (pgtbls s2 t) \<or> root_level C s2 x \<Longrightarrow> live s' x"
    using free_if_empty_spec [OF C s1(3) t2, of VMM_OK] unfolding k(1) [OF t2] by blast
  have "mmu_unmap_page C t pg s = Some (VMM_OK, s')"
    using sz g s2(1) f(1) by (subst mmu_unmap_page.simps) (simp add: Let_def less_not_sym)
  moreover have "live s' x" if "live s x" "pt_level (pgtbls s x) > pt_level ?P \<or> root_level C s x" for x
  proof -
    have "live s2 x" using s1(4) [OF that(1)] that(2) l(4) by auto
    then show ?thesis using f(4) [of x] that(2) k k(2) [OF t2] by (simp add: root_level_def)
  qed
  then have "unmap_outcome C t pg q s s'" unfolding unmap_outcome_def using f(2) s1(1) kept_lookups_trans [OF s1(2) f(3)] by blast
  ultimately show ?case by blast
qed

end
