(* ===== verification/Mmu_free.thy ===== *)
theory Mmu_free
  imports Mmu_unmap
begin

text \<open>
  Freeing a table frees the tables below it and nothing else, and always returns.
\<close>

definition below :: "mmu_sys \<Rightarrow> nat \<Rightarrow> nat \<Rightarrow> bool" where
  "below s t x \<longleftrightarrow> (\<lambda>y p. parent (pgtbls s y) = Some p)\<^sup>*\<^sup>* x t"

lemma below_refl [simp]: "below s t t"
  by (simp add: below_def)

lemma below_step: "below s c x \<Longrightarrow> parent (pgtbls s c) = Some t \<Longrightarrow> below s t x"
  unfolding below_def by (rule rtranclp.rtrancl_into_rtrancl)

lemma below_top: "below s c t \<Longrightarrow> parent (pgtbls s t) = None \<Longrightarrow> t = c"
  unfolding below_def by (erule converse_rtranclpE) simp_all

lemma below_mono:
  assumes "\<And>y p. parent (pgtbls s1 y) = Some p \<Longrightarrow> parent (pgtbls s y) = Some p"
  shows "below s1 t x \<Longrightarrow> below s t x"
  unfolding below_def by (erule rtranclp_mono [THEN predicate2D, rotated]) (use assms in auto)

text \<open>The tables that stay are as before, and they are closed under parents; so no table below a freed one stays.\<close>

definition freed :: "mmu_cfg \<Rightarrow> nat \<Rightarrow> mmu_sys \<Rightarrow> mmu_sys \<Rightarrow> bool" where
  "freed C t s s' \<longleftrightarrow> mmu_wf C s' \<and> \<not> live s' t \<and>
     (\<forall>x. live s' x \<longrightarrow> live s x \<and> pgtbls s' x = pgtbls s x) \<and> (\<forall>x. live s x \<and> \<not> live s' x \<longrightarrow> below s t x)"

lemma freed_parent: "freed C t s s' \<Longrightarrow> parent (pgtbls s' y) = Some p \<Longrightarrow> parent (pgtbls s y) = Some p"
  using linkD(1) [of C s' y p] by (auto simp: freed_def)

lemma freed_live:
  assumes f: "freed C t s s'"
  shows "live s' x \<longleftrightarrow> live s x \<and> \<not> below s t x"
proof -
  have "\<not> live s' x" if "below s t x"
    using that unfolding below_def
  proof (induction rule: converse_rtranclp_induct)
    case base
    then show ?case using f by (simp add: freed_def)
  next
    case (step y z)
    have "live s' z" if y: "live s' y"
    proof -
      have "mmu_wf C s'" "pgtbls s' y = pgtbls s y" using f y by (simp_all add: freed_def)
      then show ?thesis using linkD(2) step.hyps(1) by metis
    qed
    then show ?case using step.IH by blast
  qed
  then show ?thesis using f unfolding freed_def by blast
qed

lemma release_freed: "releasable C t s \<Longrightarrow> freed C t s (pgtbl_release t s)"
  using release_wf [of C t s] release_sel(1,2) [of C t s] by (auto simp: freed_def)

lemma free_unattached:
  assumes "mmu_pgtbl_isattached t s" "mmu_pgtbl_deattach C t s = (VMM_OK, s1)" "parent (pgtbls s1 t) = None"
  shows "mmu_pgtbl_free C t s = mmu_pgtbl_free C t s1"
  using assms by (subst (1 2) mmu_pgtbl_free.simps) (simp add: mmu_pgtbl_isattached_def VMM_OK_def)

lemma free_child_step:
  assumes "parent (pgtbls s t) = None" "child_list (pgtbls s t) = c # cs" "mmu_pgtbl_deattach C c s = (VMM_OK, s1)"
    "mmu_pgtbl_free C c s1 = Some (VMM_OK, s2)"
  shows "mmu_pgtbl_free C t s = mmu_pgtbl_free C t s2"
  using assms by (subst mmu_pgtbl_free.simps) (simp add: mmu_pgtbl_isattached_def VMM_OK_def)

lemma child_not_hyp:
  assumes "mmu_wf C s" "parent (pgtbls s c) = Some p"
  shows "c \<noteq> hyp_pgtbl C"
proof
  assume c: "c = hyp_pgtbl C"
  note w = mmu_wfD(5) [OF assms(1), unfolded stage_wf_def]
  have "pt_stage (pgtbls s c) \<noteq> MMU_STAGE1" using w assms(2) c by fastforce
  moreover have "pt_stage (pgtbls s c) \<noteq> MMU_STAGE2" using w c by fastforce
  ultimately show False using linkD(1) [OF assms] mmu_stage.exhaust unfolding live_def by blast
qed

text \<open>Induction on the level, and on the number of children that are left.\<close>

lemma free_root:
  assumes C: "cfg_ok C"
  shows "mmu_wf C s \<Longrightarrow> live s t \<Longrightarrow> parent (pgtbls s t) = None \<Longrightarrow> t \<noteq> hyp_pgtbl C \<Longrightarrow>
    \<exists>s'. mmu_pgtbl_free C t s = Some (VMM_OK, s') \<and> freed C t s s'"
proof (induction "(pt_level (pgtbls s t), length (child_list (pgtbls s t)))" arbitrary: s t rule: wf_induct_rule [OF wf_lex_prod [OF wf_less wf_less]])
  case 1
  note wf = 1(2) and t = 1(3) and par = 1(4) and h = 1(5)
  have ch: "set (child_list (pgtbls s t)) = {c. parent (pgtbls s c) = Some t}" using mmu_wfD(4) [OF wf] t by (simp add: child_wf_def)
  show ?case
  proof (cases "child_list (pgtbls s t)")
    case Nil
    then have r: "releasable C t s" using ch wf t par h by (auto simp: releasable_def)
    have "mmu_pgtbl_free C t s = Some (VMM_OK, pgtbl_release t s)"
      using Nil par by (subst mmu_pgtbl_free.simps) (simp add: mmu_pgtbl_isattached_def VMM_OK_def)
    then show ?thesis using release_freed [OF r] by blast
  next
    case (Cons c cs)
    then have pc: "parent (pgtbls s c) = Some t" using ch by auto
    note l = linkD [OF wf pc]
    obtain s1 where d: "mmu_pgtbl_deattach C c s = (VMM_OK, s1)" "detached C t c s s1" using deattach_ok [OF wf pc] .
    note sel = detached_sel [OF d(2)] and ds = detached_spec [OF d(2)]
    note hc = child_not_hyp [OF wf pc]
    obtain s2 where s2: "mmu_pgtbl_free C c s1 = Some (VMM_OK, s2)" "freed C c s1 s2"
      using 1(1) [of s1 c] detached_wf [OF C d(2)] sel l hc by auto
    have "parent (pgtbls s1 t) = None" using sel(1) par by simp
    then have cl: "\<not> below s1 c t" using below_top ds(3) by blast
    have t2: "live s2 t" using freed_live [OF s2(2)] cl sel(7) t by simp
    then have e2: "pgtbls s2 t = pgtbls s1 t" using s2(2) by (simp add: freed_def)
    have "length (child_list (pgtbls s2 t)) < length (child_list (pgtbls s t))" "pt_level (pgtbls s2 t) = pt_level (pgtbls s t)"
      "parent (pgtbls s2 t) = None"
      using e2 ds(6) Cons par sel by simp_all
    then obtain s3 where s3: "mmu_pgtbl_free C t s2 = Some (VMM_OK, s3)" "freed C t s2 s3"
      using 1(1) [of s2 t] t2 h s2(2) by (auto simp: freed_def)
    have "mmu_pgtbl_free C t s = Some (VMM_OK, s3)" using free_child_step [OF par Cons d(1) s2(1)] s3(1) by simp
    moreover have "freed C t s s3"
      unfolding freed_def
    proof (intro conjI allI impI)
      have up: "parent (pgtbls s y) = Some p" if "parent (pgtbls s1 y) = Some p" for y p using that sel(1) by (simp split: if_splits)
      show "mmu_wf C s3" "\<not> live s3 t" using s3(2) by (simp_all add: freed_def)
      fix x
      show "live s x" "pgtbls s3 x = pgtbls s x" if x: "live s3 x"
      proof -
        have "x \<noteq> t" "x \<noteq> c" using x s3(2) s2(2) by (auto simp: freed_def)
        then show "live s x" "pgtbls s3 x = pgtbls s x" using x s3(2) s2(2) sel(7) ds(4) by (auto simp: freed_def)
      qed
      show "below s t x" if x: "live s x \<and> \<not> live s3 x"
      proof (cases "live s2 x")
        case True
        then have "below s2 t x" using s3(2) x by (simp add: freed_def)
        then show ?thesis using below_mono freed_parent [OF s2(2)] up by metis
      next
        case False
        then have "below s1 c x" using s2(2) x sel(7) by (simp add: freed_def)
        then have "below s c x" using below_mono up by metis
        then show ?thesis using below_step pc by blast
      qed
    qed
    ultimately show ?thesis by blast
  qed
qed

section \<open>Lookups after freeing\<close>

lemma freed_lookup:
  assumes C: "cfg_ok C" and wf: "mmu_wf C s" and par: "parent (pgtbls s t) = None" and f: "freed C t s s'" and x: "live s' x"
  shows "mmu_get_page C x ia s' = mmu_get_page C x ia s"
proof (rule get_page_sim [OF C wf, where Q = "live s'"])
  have wf': "mmu_wf C s'" using f by (simp add: freed_def)
  fix x assume x: "live s' x"
  then have e: "live s x" "pgtbls s' x = pgtbls s x" using f by (simp_all add: freed_def)
  then show "live s x" by simp
  have child: "live s' c \<and> pgtbls s' c = pgtbls s c" if c: "parent (pgtbls s c) = Some x" for c
  proof -
    have "\<not> below s t c"
    proof
      assume "below s t c"
      then have "c = t \<or> below s t x" using c unfolding below_def by (auto elim: converse_rtranclpE)
      then show False using c par x freed_live [OF f] by auto
    qed
    then have "live s' c" using freed_live [OF f] linkD(1) [OF wf c] by simp
    then show ?thesis using f by (simp add: freed_def)
  qed
  have "page_step C x ia s' = page_step C x ia s"
    using e child by (intro step_eq [OF C wf wf' e(1)]) simp_all
  then show "mmu_get_page C x ia s' = mmu_get_page C x ia s \<or>
      page_step C x ia s' = page_step C x ia s \<and> (\<forall>c. page_step C x ia s = Inr c \<longrightarrow> live s' c)"
    using child step_down(1) [OF C wf e(1)] by blast
qed (fact x)

lemma detached_step:
  assumes C: "cfg_ok C" and d: "detached C p c s s'" and x: "live s x" and ne: "page_step C x ia s \<noteq> Inr c"
  shows "page_step C x ia s' = page_step C x ia s"
proof -
  note sel = detached_sel [OF d] and ds = detached_spec [OF d]
  have "\<not> (x = p \<and> tbl_index C ia (pgtbls s p) = child_index C p c s)"
    using ne step_child [OF C ds(1,2), of ia] by (auto simp: child_index_def)
  then show ?thesis
    using sel ds(2) by (intro step_eq [OF C ds(1) detached_wf [OF C d] x]) (auto simp: child_index_def)
qed

lemma detached_other:
  assumes C: "cfg_ok C" and d: "detached C p c s s'" and "live s x" "\<not> reaches C s ia x c"
  shows "mmu_get_page C x ia s' = mmu_get_page C x ia s"
proof (rule get_page_sim [OF C detached_spec(1) [OF d], where Q = "\<lambda>x. live s x \<and> \<not> reaches C s ia x c"])
  fix x assume x: "live s x \<and> \<not> reaches C s ia x c"
  then have "page_step C x ia s \<noteq> Inr c" using reaches.down reaches.here by blast
  then have "page_step C x ia s' = page_step C x ia s" using detached_step [OF C d] x by blast
  then show "mmu_get_page C x ia s' = mmu_get_page C x ia s \<or> page_step C x ia s' = page_step C x ia s \<and>
      (\<forall>y. page_step C x ia s = Inr y \<longrightarrow> live s y \<and> \<not> reaches C s ia y c)"
    using x live_step [OF C detached_spec(1) [OF d]] reaches.down by blast
qed (use assms in simp_all)

lemma detached_hit:
  assumes C: "cfg_ok C" and d: "detached C p c s s'"
  shows "reaches C s ia x r \<Longrightarrow> r = c \<Longrightarrow> live s x \<Longrightarrow> x \<noteq> c \<Longrightarrow> mmu_get_page C x ia s' = Some (Inl VMM_EFAIL)"
proof (induction rule: reaches.induct)
  case (down x y r)
  note ds = detached_spec [OF d] and sel = detached_sel [OF d]
  show ?case
  proof (cases "y = c")
    case True
    then have "parent (pgtbls s c) = Some x" "tbl_index C ia (pgtbls s x) = tbl_index C (map_ia (pgtbls s c)) (pgtbls s x)"
      using step_down [OF C ds(1) down.prems(2)] down.hyps(1) by simp_all
    then have "x = p" "tbl_index C ia (pgtbls s p) = child_index C p c s" using ds(2) by (simp_all add: child_index_def)
    then show ?thesis using sel(6,8) by (subst get_page_step) (simp add: page_step_def Let_def)
  next
    case False
    then have "page_step C x ia s' = Inr y" using detached_step [OF C d down.prems(2), of ia] down.hyps(1) by simp
    then show ?thesis
      using down.IH [OF down.prems(1) live_step [OF C ds(1) down.prems(2) down.hyps(1)] False] by (subst get_page_step) simp
  qed
qed simp

lemma detached_below:
  assumes d: "detached C p t s s1"
  shows "below s1 t x = below s t x"
proof
  show "below s t x" if "below s1 t x" using that by (rule below_mono [rotated]) (simp add: detached_sel(1) [OF d] split: if_splits)
  show "below s1 t x" if "below s t x"
    using that unfolding below_def
  proof (induction rule: converse_rtranclp_induct)
    case (step y z)
    then show ?case
      by (cases "y = t") (simp_all add: detached_sel(1) [OF d] converse_rtranclp_into_rtranclp)
  qed simp
qed

lemma reaches_below_root:
  assumes "cfg_ok C" "mmu_wf C s"
  shows "reaches C s ia x q \<Longrightarrow> live s x \<Longrightarrow> below s x q"
proof (induction rule: reaches.induct)
  case (down x y q)
  then show ?case using step_down(1) [OF assms down.prems] live_step [OF assms down.prems] below_step by blast
qed simp


end
