(* ===== verification/Mmu_aspace.thy ===== *)
theory Mmu_aspace
  imports Mmu_free
begin

text \<open>
  Page tables as a translation: what mapping, unmapping and both together do to every lookup, and the hypervisor's
  address space on top of them.
\<close>

section \<open>A translation as an interface\<close>

text \<open>
  What clients of an address space rely on: a successful map changes the lookups of the addresses that its page covers,
  which had none, and no others; a page found by a lookup can be unmapped, and then the addresses it covers have none.
\<close>

locale translation =
  fixes ok :: "'s \<Rightarrow> bool"
    and lookup :: "'s \<Rightarrow> 'a \<Rightarrow> 'e + 'p"
    and maps_to :: "'p \<Rightarrow> 's \<Rightarrow> 's \<Rightarrow> bool"
    and unmaps_to :: "'p \<Rightarrow> 's \<Rightarrow> 's \<Rightarrow> bool"
    and covers :: "'p \<Rightarrow> 'a \<Rightarrow> bool"
    and seen :: "'p \<Rightarrow> 'a \<Rightarrow> 'p"
    and none :: "'e"
  assumes maps_ok: "ok s \<Longrightarrow> maps_to p s s' \<Longrightarrow> ok s'"
    and maps_lookup: "ok s \<Longrightarrow> maps_to p s s' \<Longrightarrow> lookup s' a = (if covers p a then Inr (seen p a) else lookup s a)"
    and maps_new: "ok s \<Longrightarrow> maps_to p s s' \<Longrightarrow> covers p a \<Longrightarrow> lookup s a = Inl none"
    and seen_covers: "ok s \<Longrightarrow> maps_to p s s' \<Longrightarrow> covers p a \<Longrightarrow> covers (seen p a) = covers p"
    and unmaps: "ok s \<Longrightarrow> lookup s a = Inr p \<Longrightarrow>
      \<exists>s'. unmaps_to p s s' \<and> ok s' \<and> (\<forall>b. lookup s' b = (if covers p b then Inl none else lookup s b))"
begin

lemma roundtrip:
  assumes "ok s" "maps_to p s s1" "covers p a"
  shows "\<exists>s2. lookup s1 a = Inr (seen p a) \<and> unmaps_to (seen p a) s1 s2 \<and> ok s2 \<and> lookup s2 = lookup s"
proof -
  have g: "lookup s1 a = Inr (seen p a)" using maps_lookup [OF assms(1,2)] assms(3) by simp
  obtain s2 where u: "unmaps_to (seen p a) s1 s2" "ok s2" "\<And>b. lookup s2 b = (if covers (seen p a) b then Inl none else lookup s1 b)"
    using unmaps [OF maps_ok [OF assms(1,2)] g] by blast
  have "lookup s2 b = lookup s b" for b
    using u(3) [of b] maps_lookup [OF assms(1,2), of b] maps_new [OF assms(1,2), of b] seen_covers [OF assms] by simp
  then show ?thesis using g u(1,2) by blast
qed

lemma pages_disjoint:
  assumes "ok s" "maps_to p s s1" "maps_to q s1 s2"
  shows "\<not> (covers p a \<and> covers q a)"
  using maps_lookup [OF assms(1,2), of a] maps_new [OF maps_ok [OF assms(1,2)] assms(3), of a] by auto

lemma maps_commute:
  assumes "ok s" "maps_to p s s1" "maps_to q s1 s2" "maps_to q s t1" "maps_to p t1 t2"
  shows "lookup s2 = lookup t2"
proof
  fix a
  show "lookup s2 a = lookup t2 a"
    using maps_lookup [OF assms(1,2), of a] maps_lookup [OF maps_ok [OF assms(1,2)] assms(3), of a] maps_lookup [OF assms(1,4), of a]
      maps_lookup [OF maps_ok [OF assms(1,4)] assms(5), of a] pages_disjoint [OF assms(1-3), of a] by auto
qed

end

section \<open>Looking up and unmapping\<close>

lemma page_reached:
  assumes C: "cfg_ok C" and wf: "mmu_wf C s"
  shows "live s t \<Longrightarrow> mmu_get_page C t ia s = Some (Inr pg) \<Longrightarrow>
    \<exists>q e. reaches C s ia t q \<and> tbl (pgtbls s q) (tbl_index C ia (pgtbls s q)) = e \<and> arch_mmu_pte_is_valid e \<and>
      \<not> arch_mmu_pte_is_table e \<and> pg = entry_page (pgtbls s q) ia e"
proof (induction "pt_level (pgtbls s t)" arbitrary: t rule: less_induct)
  case less
  show ?case
  proof (cases rule: step_cases [OF C wf less.prems(1), where ia = ia])
    case 1
    then show ?thesis using less.prems(2) by (simp add: get_page_step [of C t])
  next
    case (2 e)
    then show ?thesis using less.prems(2) reaches.here by (force simp: get_page_step [of C t])
  next
    case (3 c)
    then have "mmu_get_page C c ia s = Some (Inr pg)" using less.prems(2) by (simp add: get_page_step [of C t])
    then show ?thesis using less.hyps [of c] 3 linkD(1) [OF wf 3(1)] reaches.down [OF 3(3)] by fastforce
  qed
qed

lemma index_masked_ge:
  assumes "l \<le> k" "k \<le> 4"
  shows "arch_mmu_level_index M (ia AND arch_mmu_level_map_mask st l) st k = arch_mmu_level_index M ia st k"
proof -
  have "arch_mmu_level_block_shift st l \<le> arch_mmu_level_block_shift st k" using assms by (simp add: arch_mmu_level_block_shift_def)
  then have "drop_bit (arch_mmu_level_block_shift st k) (ia AND arch_mmu_level_map_mask st l) = drop_bit (arch_mmu_level_block_shift st k) ia"
    by (intro bit_word_eqI) (simp only: bit_drop_bit_eq o_apply map_mask_bit, auto)
  then show ?thesis by (simp only: level_index_bits [OF assms(2)])
qed

lemma masked_same_indices: "m \<le> 4 \<Longrightarrow> same_indices C st l m (ia AND arch_mmu_level_map_mask st l) ia' = same_indices C st l m ia ia'"
  by (auto simp: same_indices_def index_masked_ge)

lemma unmap_lookup:
  assumes C: "cfg_ok C" and wf: "mmu_wf C s" and t: "live s t" and root: "root_level C s t" and g: "mmu_get_page C t ia s = Some (Inr pg)"
  obtains s' where "mmu_unmap_page C t pg s = Some (VMM_OK, s')" "mmu_wf C s'" "live s' t"
    "pt_stage (pgtbls s' t) = pt_stage (pgtbls s t)" "pt_level (pgtbls s' t) = pt_level (pgtbls s t)" "in_page C s t pg ia"
    "\<And>ia'. mmu_get_page C t ia' s' = (if in_page C s t pg ia' then Some (Inl VMM_EFAIL) else mmu_get_page C t ia' s)"
proof -
  obtain q e where q: "reaches C s ia t q" "tbl (pgtbls s q) (tbl_index C ia (pgtbls s q)) = e" "arch_mmu_pte_is_valid e"
    "\<not> arch_mmu_pte_is_table e" "pg = entry_page (pgtbls s q) ia e" using page_reached [OF C wf t g] by blast
  let ?Q = "pgtbls s q" and ?P = "pgtbls s t"
  note qp = reaches_props [OF C wf q(1) t]
  have lq: "pt_level ?Q \<le> 4" "pt_level ?P \<le> 4" using live_level [OF wf] qp t by simp_all
  have pg: "page_ia pg = ia AND arch_mmu_level_map_mask (pt_stage ?Q) (pt_level ?Q)"
    "page_sz pg = arch_mmu_level_block_size (pt_stage ?Q) (pt_level ?Q)" using q(5) by (simp_all add: entry_page_def)
  have same: "same_indices C (pt_stage ?P) (pt_level ?Q) (pt_level ?P) ia (page_ia pg)"
    unfolding pg same_indices_def using qp lq by (auto simp: index_masked_ge)
  then have r: "reaches C s (page_ia pg) t q" "tbl_index C (page_ia pg) ?Q = tbl_index C ia ?Q"
    using reaches_iff [OF C wf t q(1), of "page_ia pg"] by simp_all
  obtain s' s1 where s': "mmu_unmap_page C t pg s = Some (VMM_OK, s')" "mmu_wf C s'" "live s' t" "kept_lookups C s1 s'"
    "entry_written q (tbl_index C (page_ia pg) ?Q) 0 s s1"
    using unmap_page_spec [OF C wf r(1) t pg(2)] q r(2) t root by (auto simp: unmap_outcome_def)
  note sel = entry_written_sel [OF s'(5)]
  have k: "pt_stage (pgtbls s' t) = pt_stage ?P" "pt_level (pgtbls s' t) = pt_level ?P" "mmu_get_page C t x s' = mmu_get_page C t x s1" for x
    using s'(3,4) sel by (simp_all add: kept_lookups_def)
  have hit: "reaches C s ia' t q \<and> tbl_index C ia' ?Q = tbl_index C (page_ia pg) ?Q \<longleftrightarrow> in_page C s t pg ia'" for ia'
    using reaches_iff [OF C wf t r(1)] lq(1) by (simp add: in_page_def pg(2))
  have "in_page C s t pg ia" using hit [of ia] q(1) r(2) by simp
  moreover have "mmu_get_page C t ia' s' = (if in_page C s t pg ia' then Some (Inl VMM_EFAIL) else mmu_get_page C t ia' s)" for ia'
    using entry_written_hit [OF C wf s'(5) t, of ia'] entry_written_other [OF C wf s'(5) t, of ia'] hit [of ia'] k(3) by auto
  ultimately show ?thesis using that s' k by blast
qed

section \<open>Mapping succeeds while the pool lasts\<close>

lemma get_child_pool:
  assumes C: "cfg_ok C" and wf: "mmu_wf C s" and p: "live s p" and lv: "pt_level (pgtbls s p) \<noteq> 0"
    and st: "pt_stage (pgtbls s p) = MMU_STAGE1" and free: "pool_free_list s \<noteq> []"
    and none: "mmu_get_page C p ia s = Some (Inl VMM_EFAIL)" and g: "mmu_pgtbl_get_child C p ia True s = Some (r, s')"
  shows "r \<noteq> None \<and> length (pool_free_list s) \<le> Suc (length (pool_free_list s'))"
proof (cases rule: step_cases [OF C wf p, where ia = ia])
  case (2 e)
  then show ?thesis using none by (simp add: get_page_step [of C p])
next
  case (3 c)
  then have "mmu_pgtbl_get_child C p ia True s = Some (Some c, s)"
    using child_at_child [OF C wf 3(1,2)] linkD(4,5) [OF wf 3(1)] by (simp add: mmu_pgtbl_get_child_def Let_def)
  then show ?thesis using g by simp
next
  case 1
  let ?P = "pgtbls s p"
  obtain c cs where f: "pool_free_list s = c # cs" using free by (cases "pool_free_list s") simp_all
  obtain s1 where al: "mmu_pgtbl_alloc C (pt_stage ?P) (Some (pt_level ?P - 1)) (pt_attr ?P) (hw_tag ?P) s = (Some c, s1)"
    using f st by (simp add: mmu_pgtbl_alloc_def mmu_pgtbl_pool_alloc_def)
  note fr = alloc_fresh [OF C wf _ al]
  have "p \<noteq> c" using fr(1) st p by (auto simp: fresh_table_def)
  then have p1: "pgtbls s1 p = ?P" and c1: "parent (pgtbls s1 c) = None" "pt_stage (pgtbls s1 c) = MMU_STAGE1" using fr(1) st by (simp_all add: fresh_table_def)
  obtain rc s2 where at: "mmu_pgtbl_attach C p ia c s1 = (rc, s2)" by fastforce
  note as = attach_spec [OF at] 
  have "mmu_pgtbl_get_child C p ia True s = Some (Some c, s2)" "pool_free_list s2 = pool_free_list s1"
    using as(1,5) \<open>p \<noteq> c\<close> p1 c1 st lv 1 al at by (simp_all add: mmu_pgtbl_get_child_def Let_def)
  then show ?thesis using g fr(2) st by simp
qed

lemma map_4k_ok:
  assumes C: "cfg_ok C" and fl: "accessible (page_flags pg)" and sz: "page_sz pg = 0x1000"
  shows "mmu_wf C s \<Longrightarrow> live s t \<Longrightarrow> pt_stage (pgtbls s t) = MMU_STAGE1 \<Longrightarrow> pt_level (pgtbls s t) \<le> length (pool_free_list s) \<Longrightarrow>
    mmu_get_page C t (page_ia pg) s = Some (Inl VMM_EFAIL) \<Longrightarrow>
    \<exists>s'. mmu_map_page C t pg s = Some (VMM_OK, s') \<and> length (pool_free_list s) \<le> pt_level (pgtbls s t) + length (pool_free_list s')"
proof (induction "pt_level (pgtbls s t)" arbitrary: s t)
  case 0
  have "\<not> arch_mmu_pte_is_valid (tbl (pgtbls s t) (tbl_index C (page_ia pg) (pgtbls s t)))"
  proof (cases rule: step_cases [OF C 0(2,3), where ia = "page_ia pg"])
    case (2 e)
    then show ?thesis using 0(6) by (simp add: get_page_step [of C t])
  next
    case (3 c)
    then show ?thesis using 0(1) by simp
  qed
  moreover have "page_sz pg = arch_mmu_level_block_size (pt_stage (pgtbls s t)) (pt_level (pgtbls s t))"
    using 0(1) sz by (simp add: arch_mmu_level_block_size_def)
  ultimately obtain s' where "mmu_map_page C t pg s = Some (VMM_OK, s')"
    "entry_written t (tbl_index C (page_ia pg) (pgtbls s t)) (page_entry (pgtbls s t) pg) s s'"
    using map_page_leaf [OF 0(2,3) fl] by metis
  then show ?case by (auto simp: entry_written_def)
next
  case (Suc n)
  let ?P = "pgtbls s t"
  have lt: "page_sz pg < arch_mmu_level_block_size (pt_stage ?P) (pt_level ?P)" "arch_mmu_valid_block_size (page_sz pg)"
    using block_size_less [of 0 "pt_level ?P" "pt_stage ?P" "pt_stage ?P"] Suc.hyps(2) live_level [OF Suc.prems(1,2)] sz
    by (simp_all add: arch_mmu_valid_block_size_def arch_mmu_level_block_size_def [of _ 0])
  have lv: "pt_level ?P \<noteq> 0" and free: "pool_free_list s \<noteq> []" using Suc.hyps(2) Suc.prems(4) by auto
  obtain r s1 where g: "mmu_pgtbl_get_child C t (page_ia pg) True s = Some (r, s1)" "mmu_wf C s1" "same_lookups C s s1"
    "\<And>c. r = Some c \<Longrightarrow> page_step C t (page_ia pg) s1 = Inr c"
    using get_child_create [OF C Suc.prems(1,2) lv, of "page_ia pg"] by blast
  note pool = get_child_pool [OF C Suc.prems(1,2) lv Suc.prems(3) free Suc.prems(5) g(1)]
  then obtain c where c: "r = Some c" by auto
  have t1: "live s1 t" "pt_level (pgtbls s1 t) = pt_level ?P" "pt_stage (pgtbls s1 t) = MMU_STAGE1"
    "mmu_get_page C t (page_ia pg) s1 = Some (Inl VMM_EFAIL)"
    using g(3) Suc.prems(2,3,5) by (simp_all add: same_lookups_def)
  note l = linkD [OF g(2) step_down(1) [OF C g(2) t1(1) g(4) [OF c]]]
  have "mmu_get_page C c (page_ia pg) s1 = Some (Inl VMM_EFAIL)" using t1(4) g(4) [OF c] by (simp add: get_page_step [of C t])
  then obtain s' where "mmu_map_page C c pg s1 = Some (VMM_OK, s')" "length (pool_free_list s1) \<le> pt_level (pgtbls s1 c) + length (pool_free_list s')"
    using Suc.hyps(1) [of s1 c] l t1 Suc.hyps(2) Suc.prems(4) pool g(2) by auto
  moreover have "Suc (pt_level (pgtbls s1 c)) = pt_level ?P" using l t1(2) Suc.hyps(2) by simp
  ultimately show ?case using lt g(1) c pool by (subst mmu_map_page.simps) (auto simp: Let_def less_not_sym)
qed

section \<open>Properties of the page tables\<close>

text \<open>A small platform and its tables at the start, for the examples.\<close>

definition ex_cfg :: mmu_cfg where
  "ex_cfg = \<lparr>modes = \<lparr>stage1_mode = 8, stage2_mode = 8\<rparr>, init_count = 2, pool_count = 3, ipgtbl_base_pa = 0x80001000,
     pgtbl_base_pa = 0x80010000, new_table = (\<lambda>k. None), tree_mem = (\<lambda>k. True)\<rparr>"

definition ex_table :: "mmu_stage \<Rightarrow> nat \<Rightarrow> u64 \<Rightarrow> pgtbl" where
  "ex_table st l pa = \<lparr>parent = None, pt_stage = st, pt_level = l, pt_attr = 1, hw_tag = 0, map_ia = 0, tbl_pa = pa, tbl_sz = 0x1000,
     pte_cnt = 0, child_cnt = 0, child_list = [], tbl = (\<lambda>i. 0)\<rparr>"

definition ex_sys :: mmu_sys where
  "ex_sys = \<lparr>pgtbls = (\<lambda>t. if t = 5 then ex_table MMU_STAGE1 2 0x80000000 else ex_table MMU_STAGE_UNKNOWN 0 (pool_addr ex_cfg t)),
     pool_free_list = [2, 3, 4, 0, 1], pool_alloc_count = 0, nonpool_list = [], nonpool_tree = (\<lambda>k. None), next_tbl = 6,
     host_allocs = 0, tlb_flushes = []\<rparr>"

lemma ex_cfg_ok: "cfg_ok ex_cfg"
  by (simp add: cfg_ok_def ex_cfg_def)

lemma ex_hyp [simp]: "hyp_pgtbl ex_cfg = 5"
  by (simp add: hyp_pgtbl_def ex_cfg_def)

lemma ex_live: "live ex_sys t \<longleftrightarrow> t = 5"
  by (simp add: live_def ex_sys_def ex_table_def)

lemma ex_wf: "mmu_wf ex_cfg ex_sys"
proof -
  have e: "parent (pgtbls ex_sys t) = None" "valid_entries (pgtbls ex_sys t) = {}" "tbl (pgtbls ex_sys t) i = 0" for t i
    by (simp_all add: ex_sys_def ex_table_def valid_entries_def)
  have "link_wf ex_cfg ex_sys" "entry_wf ex_cfg ex_sys" by (simp_all add: link_wf_def entry_wf_def e)
  moreover have "count_wf ex_sys" "child_wf ex_sys" unfolding count_wf_def child_wf_def e by (simp_all add: ex_sys_def ex_table_def)
  moreover have "stage_wf ex_cfg ex_sys"
    unfolding stage_wf_def ex_live by (simp add: ex_sys_def ex_table_def arch_mmu_start_level_def) (simp add: ex_cfg_def)
  moreover have "store_wf ex_cfg ex_sys" unfolding store_wf_def ex_live by (auto simp: ex_sys_def ex_table_def)
  ultimately show ?thesis by (simp add: mmu_wf_def)
qed

lemma hyp_props:
  assumes "mmu_wf C s" "pt_stage (pgtbls s (hyp_pgtbl C)) = MMU_STAGE1"
  shows "live s (hyp_pgtbl C)" "root_level C s (hyp_pgtbl C)"
  using assms mmu_wfD(5) [OF assms(1)] unfolding stage_wf_def root_level_def live_def by auto

lemma map_lookup:
  assumes C: "cfg_ok C" and wf: "mmu_wf C s" and t: "live s t" and fl: "accessible (page_flags pg)" and pa: "unat (page_oa pg) < 2 ^ 56"
    and m: "mmu_map_page C t pg s = Some (VMM_OK, s')"
  shows "mmu_wf C s'" "live s' t" "pt_stage (pgtbls s' t) = pt_stage (pgtbls s t)" "pt_level (pgtbls s' t) = pt_level (pgtbls s t)"
    "mmu_get_page C t ia s' = (if in_page C s t pg ia then Some (Inr (page_seen pg ia)) else mmu_get_page C t ia s)"
    "in_page C s t pg ia \<Longrightarrow> mmu_get_page C t ia s = Some (Inl VMM_EFAIL)" "size_level (page_sz pg) \<le> pt_level (pgtbls s t)"
    "page_sz pg = arch_mmu_level_block_size (pt_stage (pgtbls s t)) (size_level (page_sz pg))"
proof -
  obtain q s1 where q: "mapped_at C t pg q s s1 s'" and w: "mmu_wf C s'" using map_page_spec [OF C fl wf t] m by (auto simp: map_outcome_def)
  then show "mmu_wf C s'" by simp
  have s1: "same_lookups C s s1" "mmu_wf C s1" "reaches C s1 (page_ia pg) t q"
    and szq: "page_sz pg = arch_mmu_level_block_size (pt_stage (pgtbls s1 q)) (pt_level (pgtbls s1 q))"
    and ew: "entry_written q (tbl_index C (page_ia pg) (pgtbls s1 q)) (page_entry (pgtbls s1 q) pg) s1 s'"
    using q by (simp_all add: mapped_at_def)
  note k = s1(1) [unfolded same_lookups_def, rule_format, OF t] and sel = entry_written_sel [OF ew]
  show "live s' t" "pt_stage (pgtbls s' t) = pt_stage (pgtbls s t)" "pt_level (pgtbls s' t) = pt_level (pgtbls s t)"
    using k sel by simp_all
  have "live s1 t" using k by simp
  note qp = reaches_props [OF C s1(2,3) this]
  then have sl: "size_level (page_sz pg) = pt_level (pgtbls s1 q)" using szq live_level [OF s1(2)] by simp
  then show "size_level (page_sz pg) \<le> pt_level (pgtbls s t)" "page_sz pg = arch_mmu_level_block_size (pt_stage (pgtbls s t)) (size_level (page_sz pg))"
    using qp k szq by simp_all
  show "mmu_get_page C t ia s' = (if in_page C s t pg ia then Some (Inr (page_seen pg ia)) else mmu_get_page C t ia s)"
    "in_page C s t pg ia \<Longrightarrow> mmu_get_page C t ia s = Some (Inl VMM_EFAIL)"
    using mapped_lookup [OF C wf t fl pa q] by simp_all
qed

text \<open>
  Property C12: mapping a page in any live page table always returns and keeps the invariant of the tables. When it
  reports success, the addresses whose indices agree with the page's now look up the page, with its output address
  aligned to its size and its flags, they had no translation before, and every other address looks up what it did.
  When it reports an error, every address looks up what it did.\<close>
theorem mmu_map_page_translation:
  assumes "cfg_ok C" and "mmu_wf C s" and "live s t" and "accessible (page_flags pg)" and "unat (page_oa pg) < 2 ^ 56"
  shows "\<exists>rc s'. mmu_map_page C t pg s = Some (rc, s') \<and> mmu_wf C s' \<and>
    (\<forall>ia. mmu_get_page C t ia s' =
       (if rc = VMM_OK \<and> in_page C s t pg ia then Some (Inr (page_seen pg ia)) else mmu_get_page C t ia s)) \<and>
    (\<forall>ia. rc = VMM_OK \<and> in_page C s t pg ia \<longrightarrow> mmu_get_page C t ia s = Some (Inl VMM_EFAIL))"
proof -
  obtain rc s' where m: "mmu_map_page C t pg s = Some (rc, s')" "mmu_wf C s'" "rc \<noteq> VMM_OK \<longrightarrow> same_lookups C s s'"
    using map_page_spec [OF assms(1,4,2,3)] by (auto simp: map_outcome_def split: if_splits)
  show ?thesis
  proof (cases "rc = VMM_OK")
    case True
    then show ?thesis using m map_lookup(5,6) [OF assms m(1) [unfolded True]] by auto
  next
    case False
    then show ?thesis using m assms(3) by (auto simp: same_lookups_def)
  qed
qed

text \<open>
  Further fact: unmapping, from a root table, a page that a lookup of some address returned always succeeds and keeps
  the invariant. The address is one of the page's; afterwards the addresses of the page have no translation, and every
  other address looks up what it did, although the tables that became empty on the way were freed.\<close>
theorem mmu_unmap_page_translation:
  assumes "cfg_ok C" and "mmu_wf C s" and "live s t" and "root_level C s t" and "mmu_get_page C t ia s = Some (Inr pg)"
  shows "\<exists>s'. mmu_unmap_page C t pg s = Some (VMM_OK, s') \<and> mmu_wf C s' \<and> live s' t \<and> in_page C s t pg ia \<and>
    (\<forall>ia'. mmu_get_page C t ia' s' = (if in_page C s t pg ia' then Some (Inl VMM_EFAIL) else mmu_get_page C t ia' s))"
  using unmap_lookup [OF assms] by metis

lemma page_seen_in_page:
  assumes "size_level (page_sz pg) \<le> 4" "page_sz pg = arch_mmu_level_block_size (pt_stage (pgtbls s t)) (size_level (page_sz pg))"
    "pt_level (pgtbls s t) \<le> 4" "in_page C s t pg ia" "pt_stage (pgtbls s' t) = pt_stage (pgtbls s t)" "pt_level (pgtbls s' t) = pt_level (pgtbls s t)"
  shows "in_page C s' t (page_seen pg ia) = in_page C s t pg"
proof -
  have sz: "page_sz (page_seen pg ia) = page_sz pg" by (simp add: page_seen_def)
  have ia: "page_ia (page_seen pg ia) = ia AND arch_mmu_level_map_mask (pt_stage (pgtbls s t)) (size_level (page_sz pg))"
    using assms(2) by (simp add: page_seen_def map_mask_size)
  show ?thesis unfolding in_page_def fun_eq_iff sz ia assms(5,6) masked_same_indices [OF assms(3)]
    using assms(4) by (auto simp: in_page_def same_indices_def)
qed

text \<open>
  Further fact: with one free table of the pool for every level below the root, mapping a 4 KiB page at an address that
  has no translation in a stage-1 table succeeds; the address then looks up the page.\<close>
theorem mmu_map_page_succeeds:
  assumes "cfg_ok C" and "mmu_wf C s" and "live s t" and "pt_stage (pgtbls s t) = MMU_STAGE1"
    and "accessible (page_flags pg)" and "page_sz pg = 0x1000" and "unat (page_oa pg) < 2 ^ 56"
    and "pt_level (pgtbls s t) \<le> length (pool_free_list s)" and "mmu_get_page C t (page_ia pg) s = Some (Inl VMM_EFAIL)"
  shows "\<exists>s'. mmu_map_page C t pg s = Some (VMM_OK, s') \<and> mmu_get_page C t (page_ia pg) s' = Some (Inr (page_seen pg (page_ia pg)))"
proof -
  obtain s' where m: "mmu_map_page C t pg s = Some (VMM_OK, s')" using map_4k_ok [OF assms(1,5,6,2,3,4,8,9)] by blast
  have "in_page C s t pg (page_ia pg)" by (simp add: in_page_def same_indices_def)
  then show ?thesis using m map_lookup(5) [OF assms(1-3,5,7) m] by auto
qed

section \<open>The hypervisor's address space\<close>

lemma aligned_mask: "(pa::u64) AND m = 0 \<Longrightarrow> pa AND NOT m = pa"
proof -
  assume a: "pa AND m = 0"
  have "pa = (pa AND m) OR (pa AND NOT m)" by (simp add: bit_eq_iff bit_simps) blast
  then show ?thesis using a by simp
qed

lemma pgflags_accessible:
  "mflags AND (VMM_MEMORY_READABLE OR VMM_MEMORY_WRITEABLE OR VMM_MEMORY_EXECUTABLE) \<noteq> 0 \<Longrightarrow>
    accessible (arch_mmu_pgflags_set MMU_STAGE1 mflags)"
  by (auto simp: arch_mmu_pgflags_set_def accessible_def bit.conj_disj_distrib)

lemma same_block_in_page:
  assumes "pt_level (pgtbls s t) \<le> 4" "page_sz pg = arch_mmu_level_block_size (pt_stage (pgtbls s t)) (size_level (page_sz pg))"
    and "ia AND NOT (page_sz pg - 1) = page_ia pg AND NOT (page_sz pg - 1)"
  shows "in_page C s t pg ia"
proof -
  let ?st = "pt_stage (pgtbls s t)" and ?l = "size_level (page_sz pg)"
  have "ia AND arch_mmu_level_map_mask ?st ?l = page_ia pg AND arch_mmu_level_map_mask ?st ?l"
    using assms(2,3) by (simp add: map_mask_size)
  then show ?thesis
    unfolding in_page_def using masked_same_indices [OF assms(1), of C ?st ?l "page_ia pg" ia] masked_same_indices [OF assms(1), of C ?st ?l ia ia]
    by (simp add: same_indices_def)
qed

text \<open>The hypervisor's root table provides this interface.\<close>

definition hyp_ok :: "mmu_cfg \<Rightarrow> mmu_sys \<Rightarrow> bool" where
  "hyp_ok C s \<longleftrightarrow> cfg_ok C \<and> mmu_wf C s \<and> pt_stage (pgtbls s (hyp_pgtbl C)) = MMU_STAGE1"

definition hyp_covers :: "mmu_cfg \<Rightarrow> mmu_page \<Rightarrow> u64 \<Rightarrow> bool" where
  "hyp_covers C pg ia \<longleftrightarrow> same_indices C MMU_STAGE1 (size_level (page_sz pg)) (arch_mmu_start_level (modes C) MMU_STAGE1) (page_ia pg) ia"

lemma hyp_ok_props:
  assumes "hyp_ok C s"
  shows "cfg_ok C" "mmu_wf C s" "live s (hyp_pgtbl C)" "root_level C s (hyp_pgtbl C)" "in_page C s (hyp_pgtbl C) = hyp_covers C"
  using assms hyp_props [of C s] by (auto simp: hyp_ok_def in_page_def hyp_covers_def root_level_def fun_eq_iff)

definition hyp_maps :: "mmu_cfg \<Rightarrow> mmu_page \<Rightarrow> mmu_sys \<Rightarrow> mmu_sys \<Rightarrow> bool" where
  "hyp_maps C pg s s' \<longleftrightarrow> accessible (page_flags pg) \<and> unat (page_oa pg) < 2 ^ 56 \<and> mmu_map_hypervisor_page C pg s = Some (VMM_OK, s')"

interpretation hyp: translation "hyp_ok C" "\<lambda>s ia. the (mmu_get_hypervisor_page C ia s)" "hyp_maps C"
    "\<lambda>pg s s'. mmu_unmap_hypervisor_page C pg s = Some (VMM_OK, s')" "hyp_covers C" page_seen VMM_EFAIL for C
proof
  fix s p s' a
  assume ok: "hyp_ok C s" and m: "hyp_maps C p s s'"
  note h = hyp_ok_props [OF ok]
  have m': "accessible (page_flags p)" "unat (page_oa p) < 2 ^ 56" "mmu_map_page C (hyp_pgtbl C) p s = Some (VMM_OK, s')"
    using m by (simp_all add: hyp_maps_def mmu_map_hypervisor_page_def)
  note ml = map_lookup [OF h(1-3) m']
  show "hyp_ok C s'" using ok ml(1,3) by (simp add: hyp_ok_def)
  show "the (mmu_get_hypervisor_page C a s') = (if hyp_covers C p a then Inr (page_seen p a) else the (mmu_get_hypervisor_page C a s))"
    using ml(5) [of a] h(5) by (simp add: mmu_get_hypervisor_page_def)
  assume c: "hyp_covers C p a"
  show "the (mmu_get_hypervisor_page C a s) = Inl VMM_EFAIL" using ml(6) [of a] h(5) c by (simp add: mmu_get_hypervisor_page_def)
  have "in_page C s' (hyp_pgtbl C) (page_seen p a) = in_page C s (hyp_pgtbl C) p"
    using page_seen_in_page [OF _ ml(8) live_level [OF h(2,3)] _ ml(3,4)] ml(7) live_level [OF h(2,3)] h(5) c by simp
  moreover have "in_page C s' (hyp_pgtbl C) = hyp_covers C" using hyp_ok_props(5) [of C s'] ok ml(1,3) by (simp add: hyp_ok_def)
  ultimately show "hyp_covers C (page_seen p a) = hyp_covers C p" using h(5) by simp
next
  fix s a p
  assume ok: "hyp_ok C s" and g: "the (mmu_get_hypervisor_page C a s) = Inr p"
  note h = hyp_ok_props [OF ok]
  have g': "mmu_get_page C (hyp_pgtbl C) a s = Some (Inr p)"
    using g get_page_total [OF h(1-3), of a] by (auto simp: mmu_get_hypervisor_page_def)
  show "\<exists>s'. mmu_unmap_hypervisor_page C p s = Some (VMM_OK, s') \<and> hyp_ok C s' \<and>
      (\<forall>b. the (mmu_get_hypervisor_page C b s') = (if hyp_covers C p b then Inl VMM_EFAIL else the (mmu_get_hypervisor_page C b s)))"
  proof -
    obtain s' where "mmu_unmap_page C (hyp_pgtbl C) p s = Some (VMM_OK, s')" "mmu_wf C s'"
      "pt_stage (pgtbls s' (hyp_pgtbl C)) = pt_stage (pgtbls s (hyp_pgtbl C))"
      "\<And>b. mmu_get_page C (hyp_pgtbl C) b s' = (if hyp_covers C p b then Some (Inl VMM_EFAIL) else mmu_get_page C (hyp_pgtbl C) b s)"
      using unmap_lookup [OF h(1-4) g'] h(5) by metis
    then show ?thesis
      using ok by (intro exI [of _ s']) (simp add: mmu_unmap_hypervisor_page_def mmu_get_hypervisor_page_def hyp_ok_def)
  qed
qed

text \<open>
  Property C13: after mapping a 4 KiB or 2 MiB page of the hypervisor at \<open>va\<close> onto an aligned physical address, with
  some access allowed, every address of the page translates to the physical address plus its offset; unmapping \<open>va\<close>
  then succeeds, and every address translates as it did before the page was mapped.\<close>
theorem arch_cpu_aspace_map_unmap:
  assumes "cfg_ok C" and "mmu_wf C s" and "pt_stage (pgtbls s (hyp_pgtbl C)) = MMU_STAGE1"
    and "mflags AND (VMM_MEMORY_READABLE OR VMM_MEMORY_WRITEABLE OR VMM_MEMORY_EXECUTABLE) \<noteq> 0"
    and "pa AND (sz - 1) = 0" and "unat pa < 2 ^ 56" and "arch_cpu_aspace_map C va sz pa mflags s = Some (VMM_OK, s1)"
  shows "(\<forall>va'. va' AND NOT (sz - 1) = va AND NOT (sz - 1) \<longrightarrow>
      arch_cpu_aspace_va2pa C va' s1 = Some (Inr (pa + (va' AND (sz - 1))))) \<and>
    (\<exists>s2. arch_cpu_aspace_unmap C va s1 = Some (VMM_OK, s2) \<and> mmu_wf C s2 \<and>
      (\<forall>va'. arch_cpu_aspace_va2pa C va' s2 = arch_cpu_aspace_va2pa C va' s))"
proof -
  let ?pg = "\<lparr>page_ia = va, page_oa = pa, page_sz = sz, page_flags = arch_mmu_pgflags_set MMU_STAGE1 mflags\<rparr>"
  have ok: "hyp_ok C s" using assms(1-3) by (simp add: hyp_ok_def)
  note h = hyp_ok_props [OF ok]
  have m: "hyp_maps C ?pg s s1"
    using assms(7) pgflags_accessible [OF assms(4)] assms(6)
    by (auto simp: arch_cpu_aspace_map_def hyp_maps_def VMM_EINVALID_def VMM_OK_def split: if_splits)
  have lk: "mmu_get_hypervisor_page C ia x = Some (the (mmu_get_hypervisor_page C ia x))" if "hyp_ok C x" for x ia
    using get_page_total [OF hyp_ok_props(1-3) [OF that], of ia] by (auto simp: mmu_get_hypervisor_page_def)
  have m': "accessible (page_flags ?pg)" "unat (page_oa ?pg) < 2 ^ 56" "mmu_map_page C (hyp_pgtbl C) ?pg s = Some (VMM_OK, s1)"
    using m by (simp_all add: hyp_maps_def mmu_map_hypervisor_page_def)
  have cov: "hyp_covers C ?pg va'" if "va' AND NOT (sz - 1) = va AND NOT (sz - 1)" for va'
    using same_block_in_page [OF live_level [OF h(2,3)] map_lookup(8) [OF h(1-3) m'], of va' C] that h(5) by simp
  have "arch_cpu_aspace_va2pa C va' s1 = Some (Inr (pa + (va' AND (sz - 1))))" if "va' AND NOT (sz - 1) = va AND NOT (sz - 1)" for va'
    using hyp.maps_lookup [OF ok m, of va'] cov [OF that] aligned_mask [OF assms(5)] lk [OF hyp.maps_ok [OF ok m], of va']
    by (simp add: arch_cpu_aspace_va2pa_def page_seen_def)
  moreover obtain s2 where s2: "the (mmu_get_hypervisor_page C va s1) = Inr (page_seen ?pg va)" "hyp_ok C s2"
    "mmu_unmap_hypervisor_page C (page_seen ?pg va) s1 = Some (VMM_OK, s2)"
    "(\<lambda>ia. the (mmu_get_hypervisor_page C ia s2)) = (\<lambda>ia. the (mmu_get_hypervisor_page C ia s))"
    using hyp.roundtrip [OF ok m cov [OF refl]] by blast
  have "arch_cpu_aspace_unmap C va s1 = Some (VMM_OK, s2)"
    using s2(1,3) lk [OF hyp.maps_ok [OF ok m], of va] by (simp add: arch_cpu_aspace_unmap_def)
  moreover have "arch_cpu_aspace_va2pa C va' s2 = arch_cpu_aspace_va2pa C va' s" for va'
    using fun_cong [OF s2(4), of va'] lk [OF s2(2), of va'] lk [OF ok, of va'] by (simp add: arch_cpu_aspace_va2pa_def)
  ultimately show ?thesis using hyp_ok_props(2) [OF s2(2)] by blast
qed

section \<open>Tables of a guest\<close>

lemma child_address:
  assumes C: "cfg_ok C" and wf: "mmu_wf C s" and p: "parent (pgtbls s c) = Some p"
  shows "arch_mmu_pte_table_addr (arch_mmu_pte_set_table (tbl_pa (pgtbls s c))) = tbl_pa (pgtbls s c)"
proof (rule aligned_addr)
  note w = mmu_wfD(5) [OF wf, unfolded stage_wf_def]
  show "table_address (tbl_pa (pgtbls s c))"
  proof (cases "pt_stage (pgtbls s c)")
    case MMU_STAGE1
    then have "c < hyp_pgtbl C" using w p by fastforce
    then show ?thesis using pool_addr_table [OF C] mmu_wfD(6) [OF wf] by (simp add: store_wf_def)
  qed (use w linkD(1) [OF wf p] in \<open>auto simp: live_def\<close>)
qed

definition holds_tables :: "guest_page_ops \<Rightarrow> mmu_sys \<Rightarrow> bool" where
  "holds_tables ops s \<longleftrightarrow> (\<forall>st l a. gpa2hpa ops st l a = Inr a) \<and>
     (\<forall>t i. live s t \<and> i < 2048 \<longrightarrow> read_pte ops (tbl_pa (pgtbls s t) + of_nat i * 8) = Some (tbl (pgtbls s t) i))"

lemma guest_walk_agrees:
  assumes C: "cfg_ok C" and wf: "mmu_wf C s" and h: "holds_tables ops s"
  shows "live s t \<Longrightarrow> (case the (mmu_get_page C t ia s) of
      Inr pg \<Rightarrow> guest_walk C ops (pt_stage (pgtbls s t)) (pt_level (pgtbls s t)) (tbl_pa (pgtbls s t)) ia = (Inr pg, [])
    | Inl rc \<Rightarrow> \<exists>l\<le>pt_level (pgtbls s t). guest_walk C ops (pt_stage (pgtbls s t)) (pt_level (pgtbls s t)) (tbl_pa (pgtbls s t)) ia =
        (Inl VMM_EFAULT, [(pt_stage (pgtbls s t), l, ia)]))"
proof (induction "pt_level (pgtbls s t)" arbitrary: t rule: less_induct)
  case less
  let ?P = "pgtbls s t"
  have rd: "gpa2hpa ops (pt_stage ?P) (pt_level ?P) (tbl_pa ?P) = Inr (tbl_pa ?P)"
    "read_pte ops (tbl_pa ?P + of_nat (arch_mmu_level_index (modes C) ia (pt_stage ?P) (pt_level ?P)) * 8) = Some (tbl ?P (tbl_index C ia ?P))"
    using h less.prems tbl_index_less [OF wf less.prems, of ia] by (simp_all add: holds_tables_def tbl_index_def)
  show ?case
  proof (cases rule: step_cases [OF C wf less.prems, where ia = ia])
    case 1
    then show ?thesis using rd by (simp add: get_page_step [of C t])
  next
    case (2 e)
    then show ?thesis using rd by (simp add: get_page_step [of C t] entry_page_def)
  next
    case (3 c)
    note l = linkD [OF wf 3(1)]
    have "guest_walk C ops (pt_stage ?P) (pt_level ?P) (tbl_pa ?P) ia =
        guest_walk C ops (pt_stage (pgtbls s c)) (pt_level (pgtbls s c)) (tbl_pa (pgtbls s c)) ia"
      using rd l 3(2) child_address [OF C wf 3(1)] by (subst guest_walk.simps) simp
    moreover have "mmu_get_page C t ia s = mmu_get_page C c ia s" using 3(3) by (simp add: get_page_step [of C t])
    ultimately show ?thesis using less.hyps [of c] l by (auto split: sum.splits intro: le_SucI)
  qed
qed


section \<open>Examples\<close>

definition ex_page :: mmu_page where
  "ex_page = \<lparr>page_ia = 0x10000000, page_oa = 0x80200000, page_sz = 0x1000, page_flags = arch_mmu_pgflags_set MMU_STAGE1 3\<rparr>"

lemma ex_page_sel [simp]:
  "page_ia ex_page = 0x10000000" "page_oa ex_page = 0x80200000" "page_sz ex_page = 0x1000" "accessible (page_flags ex_page)"
  by (simp_all add: ex_page_def accessible_def arch_mmu_pgflags_set_def VMM_MEMORY_READABLE_def)

lemma ex_root:
  "live ex_sys 5" "pt_stage (pgtbls ex_sys 5) = MMU_STAGE1" "pt_level (pgtbls ex_sys 5) = 2" "length (pool_free_list ex_sys) = 5"
  by (simp_all add: ex_live) (simp_all add: ex_sys_def ex_table_def)

lemma ex_unmapped: "mmu_get_page ex_cfg 5 ia ex_sys = Some (Inl VMM_EFAIL)"
  by (subst mmu_get_page.simps) (simp add: ex_sys_def ex_table_def Let_def)

theorem mmu_map_page_translation_witness:
  "\<exists>rc s'. mmu_map_page ex_cfg 5 ex_page ex_sys = Some (rc, s') \<and> mmu_wf ex_cfg s' \<and>
    (\<forall>ia. mmu_get_page ex_cfg 5 ia s' =
       (if rc = VMM_OK \<and> in_page ex_cfg ex_sys 5 ex_page ia then Some (Inr (page_seen ex_page ia)) else Some (Inl VMM_EFAIL)))"
  using mmu_map_page_translation [OF ex_cfg_ok ex_wf ex_root(1), of ex_page] unfolding ex_unmapped by auto

theorem mmu_map_page_succeeds_witness:
  "\<exists>s'. mmu_map_page ex_cfg 5 ex_page ex_sys = Some (VMM_OK, s') \<and>
    mmu_get_page ex_cfg 5 0x10000000 s' = Some (Inr (page_seen ex_page 0x10000000))"
  using mmu_map_page_succeeds [OF ex_cfg_ok ex_wf ex_root(1,2), of ex_page] by (simp add: ex_unmapped ex_root)

text \<open>The root with one block of 1 GiB mapped.\<close>

definition ex_block :: u64 where
  "ex_block = arch_mmu_pte_set MMU_STAGE1 2 0x80000000 (arch_mmu_pgflags_set MMU_STAGE1 7)"

definition ex_sys_block :: mmu_sys where
  "ex_sys_block = upd_pgtbl 5 (\<lambda>x. x\<lparr>tbl := (tbl x)(1 := ex_block), pte_cnt := 1\<rparr>) ex_sys"

lemma ex_block_wf: "mmu_wf ex_cfg ex_sys_block"
proof -
  have f: "pg_read (arch_mmu_pgflags_set MMU_STAGE1 7)" by (simp add: arch_mmu_pgflags_set_def VMM_MEMORY_READABLE_def)
  have "valid_entries (pgtbls ex_sys_block 5) = {1}"
    by (auto simp: valid_entries_def ex_sys_block_def ex_sys_def ex_table_def ex_block_def split: if_splits)
  then have "entry_written 5 1 ex_block ex_sys ex_sys_block"
    unfolding entry_written_def by (auto simp: ex_sys_block_def ex_sys_def ex_table_def ex_block_def f)
  then show ?thesis by (rule entry_written_wf [OF ex_wf ex_root(1)])
qed

lemma ex_block_get:
  "mmu_get_page ex_cfg 5 0x40001000 ex_sys_block = Some (Inr \<lparr>page_ia = 0x40000000, page_oa = 0x80000000, page_sz = 0x40000000,
     page_flags = arch_mmu_pgflags_set MMU_STAGE1 7\<rparr>)"
proof -
  have i: "tbl_index ex_cfg 0x40001000 (pgtbls ex_sys_block 5) = 1"
    by (simp add: tbl_index_def ex_sys_block_def ex_sys_def ex_table_def arch_mmu_level_index_def arch_mmu_level_index_shift_def level_index_mask_def)
  have e: "tbl (pgtbls ex_sys_block 5) (Suc 0) = ex_block" "pt_stage (pgtbls ex_sys_block 5) = MMU_STAGE1" "pt_level (pgtbls ex_sys_block 5) = 2"
    by (simp_all add: ex_sys_block_def ex_sys_def ex_table_def)
  have f: "pg_read (arch_mmu_pgflags_set MMU_STAGE1 7)" "(arch_mmu_pgflags_set MMU_STAGE1 7)\<lparr>pg_valid := True\<rparr> = arch_mmu_pgflags_set MMU_STAGE1 7"
    by (simp_all add: arch_mmu_pgflags_set_def VMM_MEMORY_READABLE_def)
  have a: "arch_mmu_pte_addr ex_block = 0x80000000" unfolding ex_block_def by (subst pte_set_addr) (simp_all add: arch_mmu_level_map_mask_def)
  show ?thesis
    by (subst mmu_get_page.simps) (simp add: i e Let_def entry_page_def a, simp add: ex_block_def f pte_set_flags arch_mmu_level_map_mask_def
        arch_mmu_level_block_size_def)
qed

theorem mmu_unmap_page_translation_witness:
  "\<exists>s'. mmu_unmap_page ex_cfg 5 \<lparr>page_ia = 0x40000000, page_oa = 0x80000000, page_sz = 0x40000000,
     page_flags = arch_mmu_pgflags_set MMU_STAGE1 7\<rparr> ex_sys_block = Some (VMM_OK, s') \<and>
    mmu_get_page ex_cfg 5 0x40001000 s' = Some (Inl VMM_EFAIL)"
proof -
  have "live ex_sys_block 5" "root_level ex_cfg ex_sys_block 5"
    by (simp_all add: live_def root_level_def ex_sys_block_def ex_sys_def ex_table_def arch_mmu_start_level_def ex_cfg_def)
  then show ?thesis using mmu_unmap_page_translation [OF ex_cfg_ok ex_block_wf _ _ ex_block_get] by auto
qed

theorem arch_cpu_aspace_map_unmap_witness:
  "\<exists>s1 s2. arch_cpu_aspace_map ex_cfg 0x10000000 0x1000 0x80200000 3 ex_sys = Some (VMM_OK, s1) \<and>
    arch_cpu_aspace_va2pa ex_cfg 0x10000123 s1 = Some (Inr 0x80200123) \<and> arch_cpu_aspace_unmap ex_cfg 0x10000000 s1 = Some (VMM_OK, s2)"
proof -
  have "\<exists>s1. mmu_map_page ex_cfg 5 ex_page ex_sys = Some (VMM_OK, s1)"
    using map_4k_ok [OF ex_cfg_ok _ _ ex_wf, of ex_page 5] by (simp add: ex_root ex_unmapped) blast
  then obtain s1 where s1: "arch_cpu_aspace_map ex_cfg 0x10000000 0x1000 0x80200000 3 ex_sys = Some (VMM_OK, s1)"
    by (auto simp: arch_cpu_aspace_map_def mmu_map_hypervisor_page_def arch_mmu_level_block_size_def ex_page_def)
  have f: "(3::u32) AND (VMM_MEMORY_READABLE OR VMM_MEMORY_WRITEABLE OR VMM_MEMORY_EXECUTABLE) \<noteq> 0"
    by (simp add: VMM_MEMORY_READABLE_def VMM_MEMORY_WRITEABLE_def VMM_MEMORY_EXECUTABLE_def)
  have u: "unat (0x80200000 :: u64) < 2 ^ 56" "(0x80200000 :: u64) AND (0x1000 - 1) = 0" by simp_all
  note t = arch_cpu_aspace_map_unmap [OF ex_cfg_ok ex_wf _ f u(2,1) s1]
  have "pt_stage (pgtbls ex_sys (hyp_pgtbl ex_cfg)) = MMU_STAGE1" by (simp add: ex_root)
  then show ?thesis using t s1 by (force dest!: spec [of _ "0x10000123"])
qed

definition ex_ops :: guest_page_ops where
  "ex_ops = \<lparr>gpa2hpa = (\<lambda>st l a. Inr a), read_pte = (\<lambda>a. Some (tbl (pgtbls ex_sys_block 5) (unat (a - 0x80000000) div 8)))\<rparr>"


definition ex_sys_alloc :: mmu_sys where
  "ex_sys_alloc = snd (mmu_pgtbl_alloc ex_cfg MMU_STAGE1 (Some 1) 0 0 ex_sys)"

lemma ex_alloc: "mmu_pgtbl_alloc ex_cfg MMU_STAGE1 (Some 1) 0 0 ex_sys = (Some 2, ex_sys_alloc)"
  by (simp add: ex_sys_alloc_def mmu_pgtbl_alloc_def mmu_pgtbl_pool_alloc_def ex_sys_def)

lemma ex_alloc_wf: "mmu_wf ex_cfg ex_sys_alloc"
  by (rule alloc_wf [OF ex_cfg_ok ex_wf _ _ ex_alloc]) (simp_all add: arch_mmu_start_level_def ex_cfg_def)


section \<open>Sequences of operations\<close>

text \<open>The states that the interface of the page tables leads to: roots are allocated, pages with some access allowed are
  mapped in any live table, pages found by a lookup are unmapped, tables are freed; each may fail.\<close>

inductive mmu_run :: "mmu_cfg \<Rightarrow> mmu_sys \<Rightarrow> mmu_sys \<Rightarrow> bool" for C s0 where
  start: "mmu_run C s0 s0"
| alloc: "mmu_run C s0 s \<Longrightarrow> mmu_pgtbl_alloc C st None attr tag s = (r, s') \<Longrightarrow> mmu_run C s0 s'"
| map: "mmu_run C s0 s \<Longrightarrow> live s t \<Longrightarrow> accessible (page_flags pg) \<Longrightarrow> mmu_map_page C t pg s = Some (rc, s') \<Longrightarrow> mmu_run C s0 s'"
| unmap: "mmu_run C s0 s \<Longrightarrow> live s t \<Longrightarrow> root_level C s t \<Longrightarrow> mmu_get_page C t ia s = Some (Inr pg) \<Longrightarrow>
    mmu_unmap_page C t pg s = Some (rc, s') \<Longrightarrow> mmu_run C s0 s'"
| free: "mmu_run C s0 s \<Longrightarrow> live s t \<Longrightarrow> t \<noteq> hyp_pgtbl C \<Longrightarrow> mmu_pgtbl_free C t s = Some (rc, s') \<Longrightarrow> mmu_run C s0 s'"

lemma alloc_root_wf:
  assumes C: "cfg_ok C" and wf: "mmu_wf C s" and a: "mmu_pgtbl_alloc C st None attr tag s = (r, s')"
  shows "mmu_wf C s'"
proof (cases r)
  case None
  then show ?thesis using a alloc_none [of C st None attr tag s s'] wf wf_pgtbls_cong(1) by blast
next
  case (Some c)
  then have st: "st \<noteq> MMU_STAGE_UNKNOWN" using a by (auto simp: mmu_pgtbl_alloc_def)
  have "mmu_pgtbl_alloc C st None = mmu_pgtbl_alloc C st (Some (arch_mmu_start_level (modes C) st))"
    by (simp only: mmu_pgtbl_alloc_def option.case fun_eq_iff simp_thms)
  then have "mmu_pgtbl_alloc C st (Some (arch_mmu_start_level (modes C) st)) attr tag s = (Some c, s')"
    using a Some by simp
  then show ?thesis using alloc_wf [OF C wf st] by blast
qed

lemma free_wf: "cfg_ok C \<Longrightarrow> mmu_wf C s \<Longrightarrow> live s t \<Longrightarrow> t \<noteq> hyp_pgtbl C \<Longrightarrow> mmu_pgtbl_free C t s = Some (rc, s') \<Longrightarrow> mmu_wf C s'"
proof -
  assume C: "cfg_ok C" and wf: "mmu_wf C s" and t: "live s t" "t \<noteq> hyp_pgtbl C" and f: "mmu_pgtbl_free C t s = Some (rc, s')"
  show ?thesis
  proof (cases "parent (pgtbls s t)")
    case None
    then show ?thesis using free_root [OF C wf t(1) None t(2)] f by (auto simp: freed_def)
  next
    case (Some p)
    obtain s1 where d: "mmu_pgtbl_deattach C t s = (VMM_OK, s1)" "detached C p t s s1" using deattach_ok [OF wf Some] .
    have p1: "parent (pgtbls s1 t) = None" "live s1 t" using detached_sel(1,7) [OF d(2)] t by simp_all
    have "mmu_pgtbl_free C t s1 = Some (rc, s')"
      using free_unattached [OF _ d(1) p1(1)] Some f by (simp add: mmu_pgtbl_isattached_def)
    then show ?thesis using free_root [OF C detached_wf [OF C d(2)] p1(2,1) t(2)] by (auto simp: freed_def)
  qed
qed

lemma mmu_run_keeps_wf:
  assumes C: "cfg_ok C"
  shows "mmu_run C s0 s \<Longrightarrow> mmu_wf C s0 \<Longrightarrow> mmu_wf C s"
proof (induction rule: mmu_run.induct)
  case start
  then show ?case by simp
next
  case (alloc s st attr tag r s')
  then show ?case using alloc_root_wf [OF C] by blast
next
  case (map s t pg rc s')
  then show ?case using map_page_spec [OF C map.hyps(3) _ map.hyps(2)] by (auto simp: map_outcome_def)
next
  case (unmap s t ia pg rc s')
  then show ?case using unmap_lookup [OF C _ unmap.hyps(2-4)] by fastforce
next
  case (free s t rc s')
  then show ?case using free_wf [OF C] by blast
qed



end
