(* ===== verification/Host_aspace.thy ===== *)
theory Host_aspace
  imports Host_mhash Host_vapool Mmu_aspace
begin

text \<open>
  The virtual address space of the host, \<^verbatim>\<open>core/vmm_host_aspace.c\<close>: mappings of physical ranges at addresses of the pool,
  with the page tables, the table of mapped ranges and the RAM allocator below them. A panic is \<^const>\<open>None\<close>.
\<close>

section \<open>State and operations\<close>

record host_sys =
  hs_vapool :: vapool_ctrl
  hs_mhash :: host_mhash_ctrl
  hs_mmu :: mmu_sys
  hs_ram :: host_ram_ctrl

definition host_page_shift :: "bool \<Rightarrow> nat" where
  "host_page_shift hp = (if hp then arch_cpu_aspace_hugepage_log2size else VMM_PAGE_SHIFT)"

text \<open>The loops over the pages of a range; an error while mapping is a panic.\<close>

fun map_pages :: "mmu_cfg \<Rightarrow> u64 \<Rightarrow> u32 \<Rightarrow> u64 \<Rightarrow> u64 \<Rightarrow> nat \<Rightarrow> mmu_sys \<Rightarrow> mmu_sys option" where
  "map_pages C psz fl va pa 0 s = Some s"
| "map_pages C psz fl va pa (Suc n) s =
     (case arch_cpu_aspace_map C va psz pa fl s of
        Some (rc, s') \<Rightarrow> if rc \<noteq> VMM_OK then None else map_pages C psz fl (va + psz) (pa + psz) n s'
      | None \<Rightarrow> None)"

fun unmap_pages :: "mmu_cfg \<Rightarrow> u64 \<Rightarrow> u64 \<Rightarrow> nat \<Rightarrow> mmu_sys \<Rightarrow> (int \<times> mmu_sys) option" where
  "unmap_pages C psz va 0 s = Some (VMM_OK, s)"
| "unmap_pages C psz va (Suc n) s =
     (case arch_cpu_aspace_unmap C va s of
        Some (rc, s') \<Rightarrow> if rc \<noteq> VMM_OK then Some (rc, s') else unmap_pages C psz (va + psz) n s'
      | None \<Rightarrow> None)"

text \<open>A new mapping: addresses from the pool, aligned to the page size, and the pages.\<close>

definition memmap_new :: "mmu_cfg \<Rightarrow> nat \<Rightarrow> u64 \<Rightarrow> u64 \<Rightarrow> u32 \<Rightarrow> host_sys \<Rightarrow> (u64 \<times> host_sys) option" where
  "memmap_new C shift tpa sz fl s =
     (case vmm_host_vapool_alloc sz (hs_vapool s) of
        Some (Inr va, vp) \<Rightarrow>
          if va AND order_mask shift \<noteq> 0 then None
          else map_option (\<lambda>mmu. (va, s\<lparr>hs_vapool := vp, hs_mmu := mmu\<rparr>))
            (map_pages C (order_size shift) fl va tpa (unat (drop_bit shift sz)) (hs_mmu s))
      | _ \<Rightarrow> None)"

definition host_memmap :: "mmu_cfg \<Rightarrow> u64 \<Rightarrow> u64 \<Rightarrow> u32 \<Rightarrow> bool \<Rightarrow> host_sys \<Rightarrow> (u64 \<times> host_sys) option" where
  "host_memmap C pa sz0 fl hp s =
     (let shift = host_page_shift hp; sz = roundup2_order_size sz0 shift; tpa = pa AND NOT (order_mask shift) in do {
      (va, s1) \<leftarrow> (case host_mhash_pa2va tpa (hs_mhash s) of
         Inr (va, tsz, tfl) \<Rightarrow> if fl \<noteq> tfl \<or> tsz < sz then None else Some (va AND NOT (order_mask shift), s)
       | Inl rc \<Rightarrow> if rc \<noteq> VMM_ENOTAVAIL then None else memmap_new C shift tpa sz fl s);
      (rc, mh) \<leftarrow> host_mhash_add tpa va sz fl (hs_mhash s1);
      if rc \<noteq> VMM_OK then None else Some (va + (pa AND order_mask shift), s1\<lparr>hs_mhash := mh\<rparr>) })"

definition host_memunmap :: "mmu_cfg \<Rightarrow> u64 \<Rightarrow> u64 \<Rightarrow> bool \<Rightarrow> host_sys \<Rightarrow> (int \<times> host_sys) option" where
  "host_memunmap C va0 sz0 hp s =
     (let shift = host_page_shift hp; sz = roundup2_order_size sz0 shift; va = va0 AND NOT (order_mask shift) in do {
      r \<leftarrow> arch_cpu_aspace_va2pa C va (hs_mmu s);
      (case r of
         Inl rc \<Rightarrow> Some (rc, s)
       | Inr pa \<Rightarrow> do {
           (rc, mh) \<leftarrow> host_mhash_del pa va sz (hs_mhash s);
           let s1 = s\<lparr>hs_mhash := mh\<rparr>;
           if rc = VMM_EBUSY then Some (VMM_OK, s1)
           else if rc \<noteq> VMM_OK then None
           else do {
             (rc, mmu) \<leftarrow> unmap_pages C (order_size shift) va (unat (drop_bit shift sz)) (hs_mmu s1);
             let s2 = s1\<lparr>hs_mmu := mmu\<rparr>;
             if rc \<noteq> VMM_OK then Some (rc, s2)
             else do {
               (rc, vp) \<leftarrow> vmm_host_vapool_free va sz (hs_vapool s2);
               if rc \<noteq> VMM_OK then None else Some (VMM_OK, s2\<lparr>hs_vapool := vp\<rparr>) } } }) })"

text \<open>Pages of RAM; the address \<open>0\<close> is the failure of the RAM allocator.\<close>

definition host_alloc_aligned_pages :: "mmu_cfg \<Rightarrow> u32 \<Rightarrow> u32 \<Rightarrow> u32 \<Rightarrow> bool \<Rightarrow> host_sys \<Rightarrow> (u64 \<times> host_sys) option" where
  "host_alloc_aligned_pages C page_count align fl hp s =
     (let shift = host_page_shift hp; bytes = ucast page_count * order_size shift;
          order = (if align < of_nat shift then of_nat shift else align) in do {
      (len, pa, ram) \<leftarrow> vmm_host_ram_alloc (hs_ram s) bytes order;
      if len = 0 then Some (0, s\<lparr>hs_ram := ram\<rparr>)
      else host_memmap C (case pa of None \<Rightarrow> 0 | Some a \<Rightarrow> a) bytes fl hp (s\<lparr>hs_ram := ram\<rparr>) })"

definition host_free_pages :: "mmu_cfg \<Rightarrow> u64 \<Rightarrow> u32 \<Rightarrow> bool \<Rightarrow> host_sys \<Rightarrow> (int \<times> host_sys) option" where
  "host_free_pages C page_va page_count hp s =
     (let shift = host_page_shift hp; bytes = ucast page_count * order_size shift; va = page_va AND NOT (order_mask shift) in do {
      r \<leftarrow> arch_cpu_aspace_va2pa C va (hs_mmu s);
      (case r of
         Inl rc \<Rightarrow> Some (rc, s)
       | Inr pa \<Rightarrow> do {
           (rc, s1) \<leftarrow> host_memunmap C va bytes hp s;
           if rc \<noteq> VMM_OK then Some (rc, s1)
           else do {
             (rc, ram) \<leftarrow> vmm_host_ram_free (hs_ram s1) pa bytes;
             Some (rc, s1\<lparr>hs_ram := ram\<rparr>) } }) })"

definition vmm_host_memmap_hash_total_count :: "host_sys \<Rightarrow> u32" where
  "vmm_host_memmap_hash_total_count s = host_mhash_total_count (hs_mhash s)"

definition vmm_host_memmap_hash_free_count :: "host_sys \<Rightarrow> u32" where
  "vmm_host_memmap_hash_free_count s = host_mhash_free_count (hs_mhash s)"

definition vmm_host_memmap :: "mmu_cfg \<Rightarrow> u64 \<Rightarrow> u64 \<Rightarrow> u32 \<Rightarrow> host_sys \<Rightarrow> (u64 \<times> host_sys) option" where
  "vmm_host_memmap C pa sz fl s = host_memmap C pa sz fl False s"

definition vmm_host_memunmap :: "mmu_cfg \<Rightarrow> u64 \<Rightarrow> host_sys \<Rightarrow> (int \<times> host_sys) option" where
  "vmm_host_memunmap C va s =
     (case vmm_host_vapool_find va (hs_vapool s) of
        Inl rc \<Rightarrow> Some (rc, s)
      | Inr (alloc_va, alloc_sz) \<Rightarrow> host_memunmap C alloc_va alloc_sz False s)"

definition vmm_host_hugepage_shift :: u32 where
  "vmm_host_hugepage_shift = of_nat arch_cpu_aspace_hugepage_log2size"

definition vmm_host_hugepage_size :: u64 where
  "vmm_host_hugepage_size = push_bit arch_cpu_aspace_hugepage_log2size 1"

definition vmm_host_alloc_hugepages :: "mmu_cfg \<Rightarrow> u32 \<Rightarrow> u32 \<Rightarrow> host_sys \<Rightarrow> (u64 \<times> host_sys) option" where
  "vmm_host_alloc_hugepages C n fl s = host_alloc_aligned_pages C n (of_nat arch_cpu_aspace_hugepage_log2size) fl True s"

definition vmm_host_free_hugepages :: "mmu_cfg \<Rightarrow> u64 \<Rightarrow> u32 \<Rightarrow> host_sys \<Rightarrow> (int \<times> host_sys) option" where
  "vmm_host_free_hugepages C va n s = host_free_pages C va n True s"

definition vmm_host_alloc_aligned_pages :: "mmu_cfg \<Rightarrow> u32 \<Rightarrow> u32 \<Rightarrow> u32 \<Rightarrow> host_sys \<Rightarrow> (u64 \<times> host_sys) option" where
  "vmm_host_alloc_aligned_pages C n align fl s = host_alloc_aligned_pages C n align fl False s"

definition vmm_host_alloc_pages :: "mmu_cfg \<Rightarrow> u32 \<Rightarrow> u32 \<Rightarrow> host_sys \<Rightarrow> (u64 \<times> host_sys) option" where
  "vmm_host_alloc_pages C n fl s = host_alloc_aligned_pages C n (of_nat VMM_PAGE_SHIFT) fl False s"

definition vmm_host_free_pages :: "mmu_cfg \<Rightarrow> u64 \<Rightarrow> u32 \<Rightarrow> host_sys \<Rightarrow> (int \<times> host_sys) option" where
  "vmm_host_free_pages C va n s = host_free_pages C va n False s"

definition vmm_host_va2pa :: "mmu_cfg \<Rightarrow> u64 \<Rightarrow> host_sys \<Rightarrow> (int + u64) option" where
  "vmm_host_va2pa C va s = arch_cpu_aspace_va2pa C va (hs_mmu s)"

definition vmm_host_pa2va :: "u64 \<Rightarrow> host_sys \<Rightarrow> int + u64" where
  "vmm_host_pa2va pa s = (case host_mhash_pa2va pa (hs_mhash s) of Inl rc \<Rightarrow> Inl rc | Inr (va, sz, fl) \<Rightarrow> Inr va)"

text \<open>The pages of the initialisation code, given by their address and size; a failure is a panic.\<close>

definition vmm_host_free_initmem :: "mmu_cfg \<Rightarrow> u64 \<Rightarrow> u64 \<Rightarrow> host_sys \<Rightarrow> (u32 \<times> host_sys) option" where
  "vmm_host_free_initmem C init_start init_size s =
     (let sz = roundup2_order_size init_size VMM_PAGE_SHIFT; n = drop_bit VMM_PAGE_SHIFT sz in do {
      (rc, s') \<leftarrow> vmm_host_free_pages C init_start (ucast n) s;
      if rc \<noteq> VMM_OK then None else Some (ucast (n * order_size VMM_PAGE_SHIFT div 1024), s') })"

end
