(* ===== verification/Host_memmap.thy ===== *)
theory Host_memmap
  imports Host_aspace
begin

text \<open>
  Mapping and unmapping ranges of the host: what the loops over the pages do to the translations, and what a mapping made
  by \<^verbatim>\<open>vmm_host_memmap\<close> gives and \<^verbatim>\<open>vmm_host_memunmap\<close> takes away.
\<close>

section \<open>Pages of 4 KiB below the limit of the root table\<close>

text \<open>The root translates addresses of 12 bits and 9 for every level.\<close>

definition va_limit :: "mmu_cfg \<Rightarrow> nat" where
  "va_limit C = 2 ^ (12 + 9 * Suc (arch_mmu_start_level (modes C) MMU_STAGE1))"

definition page_no :: "u64 \<Rightarrow> nat" where "page_no a = unat a div 4096"

lemma level_bits: "k \<le> 4 \<Longrightarrow> arch_mmu_level_block_shift st k = 12 + 9 * k"
  by (auto simp: arch_mmu_level_block_shift_def)

lemma high_bit: "unat (a::u64) < 2 ^ n \<Longrightarrow> n \<le> j \<Longrightarrow> \<not> bit a j"
proof -
  assume a: "unat a < 2 ^ n" "n \<le> j"
  then have "unat (take_bit n a) = unat a" by (simp add: unsigned_take_bit_eq take_bit_nat_eq_self)
  then have "take_bit n a = a" by (simp only: word_unat_eq_iff)
  then have "bit a j = bit (take_bit n a) j" by simp
  then show ?thesis using a(2) by (simp add: bit_take_bit_iff)
qed

lemma page_no_eq: "page_no a = page_no b \<longleftrightarrow> drop_bit 12 a = drop_bit 12 b"
proof -
  have "unat (drop_bit 12 x) = page_no x" for x :: u64 by (simp only: unat_drop_bit_eq page_no_def) (simp add: drop_bit_eq_div)
  then show ?thesis by (metis word_unat_eq_iff)
qed

lemma same_indices_page:
  assumes m: "m \<le> 4" and lt: "unat a < 2 ^ (12 + 9 * Suc m)" "unat b < 2 ^ (12 + 9 * Suc m)"
  shows "same_indices C MMU_STAGE1 0 m a b \<longleftrightarrow> page_no a = page_no b"
proof -
  have ix: "arch_mmu_level_index (modes C) a MMU_STAGE1 k = arch_mmu_level_index (modes C) b MMU_STAGE1 k \<longleftrightarrow>
      (\<forall>j < 9. bit a (12 + 9 * k + j) = bit b (12 + 9 * k + j))" if "k \<le> m" for k
  proof -
    have "take_bit 9 (drop_bit (12 + 9 * k) a) = take_bit 9 (drop_bit (12 + 9 * k) b) \<longleftrightarrow>
        (\<forall>j < 9. bit a (12 + 9 * k + j) = bit b (12 + 9 * k + j))"
    proof -
      have lt: "j < 9 \<Longrightarrow> j < 64" for j :: nat by linarith
      show ?thesis by (simp add: bit_eq_iff bit_take_bit_iff bit_drop_bit_eq) (use lt in blast)
    qed
    then show ?thesis using that m by (simp add: level_index_bits level_bits word_unat_eq_iff [symmetric])
  qed
  have sp: "(\<forall>k \<le> m. \<forall>j < 9. P (12 + 9 * k + j)) \<longleftrightarrow> (\<forall>n. 12 \<le> n \<and> n < 12 + 9 * Suc m \<longrightarrow> P n)" for P :: "nat \<Rightarrow> bool"
  proof
    assume h: "\<forall>k \<le> m. \<forall>j < 9. P (12 + 9 * k + j)"
    show "\<forall>n. 12 \<le> n \<and> n < 12 + 9 * Suc m \<longrightarrow> P n"
    proof (intro allI impI)
      fix n assume n: "12 \<le> n \<and> n < 12 + 9 * Suc m"
      then have "n - 12 < Suc m * 9" by linarith
      then have "(n - 12) div 9 < Suc m" by (rule less_mult_imp_div_less)
      then have "(n - 12) div 9 \<le> m" "(n - 12) mod 9 < 9" "n = 12 + 9 * ((n - 12) div 9) + (n - 12) mod 9" using n by simp_all
      then show "P n" using h by metis
    qed
  qed auto
  have "same_indices C MMU_STAGE1 0 m a b \<longleftrightarrow> (\<forall>n. 12 \<le> n \<and> n < 12 + 9 * Suc m \<longrightarrow> bit a n = bit b n)"
    using ix sp [of "\<lambda>n. bit a n = bit b n"] by (simp add: same_indices_def)
  also have "\<dots> \<longleftrightarrow> (\<forall>n. 12 \<le> n \<longrightarrow> bit a n = bit b n)"
    using high_bit [OF lt(1)] high_bit [OF lt(2)] by (metis not_less)
  also have "\<dots> \<longleftrightarrow> drop_bit 12 a = drop_bit 12 b"
  proof -
    have "(\<forall>n. 12 \<le> n \<longrightarrow> bit a n = bit b n) \<longleftrightarrow> (\<forall>n. bit a (12 + n) = bit b (12 + n))" by (metis le_add1 le_iff_add)
    moreover have "drop_bit 12 a = drop_bit 12 b \<longleftrightarrow> (\<forall>n. bit (drop_bit 12 a) n = bit (drop_bit 12 b) n)" by (metis bit_eqI)
    ultimately show ?thesis by (simp add: bit_drop_bit_eq)
  qed
  finally show ?thesis by (simp add: page_no_eq)
qed

lemma covers_4k:
  assumes "page_sz pg = 0x1000" "unat (page_ia pg) < va_limit C" "unat b < va_limit C"
  shows "hyp_covers C pg b \<longleftrightarrow> page_no (page_ia pg) = page_no b"
  using same_indices_page [OF start_level_le, of "page_ia pg" "modes C" MMU_STAGE1 b C] assms by (simp add: hyp_covers_def va_limit_def size_level_def)

lemma va_limit_le: "va_limit C \<le> 2 ^ 57"
proof -
  have "12 + 9 * Suc (arch_mmu_start_level (modes C) MMU_STAGE1) \<le> 57" using start_level_le [of "modes C" MMU_STAGE1] by simp
  then show ?thesis unfolding va_limit_def by (rule power_increasing) simp
qed

lemma va_limit_small: "va_limit C < 2 ^ 64"
  by (rule le_less_trans [OF va_limit_le]) simp

definition hyp_page :: "mmu_cfg \<Rightarrow> mmu_sys \<Rightarrow> u64 \<Rightarrow> int + mmu_page" where
  "hyp_page C s x = the (mmu_get_hypervisor_page C x s)"

lemma get_hyp_page: "hyp_ok C s \<Longrightarrow> mmu_get_hypervisor_page C x s = Some (hyp_page C s x)"
  using get_page_total [of C s "hyp_pgtbl C" x] hyp_ok_props(1-3) [of C s] by (auto simp: mmu_get_hypervisor_page_def hyp_page_def)

definition in_pages :: "u64 \<Rightarrow> nat \<Rightarrow> u64 \<Rightarrow> bool" where
  "in_pages va n x \<longleftrightarrow> page_no va \<le> page_no x \<and> page_no x < page_no va + n"

definition seen_4k :: "u64 \<Rightarrow> u64 \<Rightarrow> u32 \<Rightarrow> u64 \<Rightarrow> mmu_page" where
  "seen_4k va pa fl x = \<lparr>page_ia = x AND NOT 0xfff, page_oa = pa + of_nat ((page_no x - page_no va) * 4096), page_sz = 0x1000,
     page_flags = (arch_mmu_pgflags_set MMU_STAGE1 fl)\<lparr>pg_valid := True\<rparr>\<rparr>"

lemma page_no_next: "unat va + 4096 < 2 ^ 64 \<Longrightarrow> unat (va + 0x1000) = unat va + 4096 \<and> page_no (va + 0x1000) = Suc (page_no va)"
  using unat_add_small [of va "0x1000"] by (simp add: page_no_def)

lemma aligned_4k: "4096 dvd unat (a::u64) \<longleftrightarrow> a AND 0xfff = 0"
proof -
  have "a AND 0xfff = take_bit 12 a" by (simp add: take_bit_eq_mask mask_eq_exp_minus_1)
  then show ?thesis using take_bit_u64_zero [of 12 a] by simp
qed

lemma map_one_page:
  assumes ok: "hyp_ok C s" and fl: "fl AND (VMM_MEMORY_READABLE OR VMM_MEMORY_WRITEABLE OR VMM_MEMORY_EXECUTABLE) \<noteq> 0"
    and al: "4096 dvd unat pa" and lt: "unat va < va_limit C" "unat pa < 2 ^ 56"
    and pool: "arch_mmu_start_level (modes C) MMU_STAGE1 \<le> length (pool_free_list s)" and none: "hyp_page C s va = Inl VMM_EFAIL"
  obtains s' where "arch_cpu_aspace_map C va 0x1000 pa fl s = Some (VMM_OK, s')" "hyp_ok C s'"
    "length (pool_free_list s) \<le> arch_mmu_start_level (modes C) MMU_STAGE1 + length (pool_free_list s')"
    "\<And>x. unat x < va_limit C \<Longrightarrow> hyp_page C s' x = (if page_no x = page_no va then Inr (seen_4k va pa fl x) else hyp_page C s x)"
proof -
  let ?pg = "\<lparr>page_ia = va, page_oa = pa, page_sz = 0x1000, page_flags = arch_mmu_pgflags_set MMU_STAGE1 fl\<rparr>"
  note h = hyp_ok_props [OF ok]
  have st: "pt_stage (pgtbls s (hyp_pgtbl C)) = MMU_STAGE1" using ok by (simp add: hyp_ok_def)
  then have lv: "pt_level (pgtbls s (hyp_pgtbl C)) = arch_mmu_start_level (modes C) MMU_STAGE1" using h(4) by (simp add: root_level_def)
  have ac: "accessible (page_flags ?pg)" using pgflags_accessible [OF fl] by simp
  have "mmu_get_page C (hyp_pgtbl C) (page_ia ?pg) s = Some (Inl VMM_EFAIL)"
    using get_hyp_page [OF ok, of va] none by (simp add: mmu_get_hypervisor_page_def)
  then obtain s' where m: "mmu_map_page C (hyp_pgtbl C) ?pg s = Some (VMM_OK, s')"
    "length (pool_free_list s) \<le> arch_mmu_start_level (modes C) MMU_STAGE1 + length (pool_free_list s')"
    using map_4k_ok [OF h(1) ac _ h(2,3) st] pool lv by auto
  then have hm: "hyp_maps C ?pg s s'" using ac lt(2) by (simp add: hyp_maps_def mmu_map_hypervisor_page_def)
  have "arch_cpu_aspace_map C va 0x1000 pa fl s = Some (VMM_OK, s')"
    using m(1) by (simp add: arch_cpu_aspace_map_def mmu_map_hypervisor_page_def arch_mmu_level_block_size_def)
  moreover have "pa AND NOT 0xfff = pa" using aligned_mask [of pa "0xfff"] al aligned_4k by simp
  then have "hyp_page C s' x = (if page_no x = page_no va then Inr (seen_4k va pa fl x) else hyp_page C s x)" if "unat x < va_limit C" for x
    using hyp.maps_lookup [OF ok hm, of x] covers_4k [of ?pg C x] lt(1) that by (auto simp: hyp_page_def page_seen_def seen_4k_def)
  ultimately show ?thesis using that m(2) hyp.maps_ok [OF ok hm] by blast
qed

lemma map_pages_spec:
  assumes fl: "fl AND (VMM_MEMORY_READABLE OR VMM_MEMORY_WRITEABLE OR VMM_MEMORY_EXECUTABLE) \<noteq> 0"
  shows "hyp_ok C s \<Longrightarrow> 4096 dvd unat pa \<Longrightarrow> unat va + n * 4096 \<le> va_limit C \<Longrightarrow> unat pa + n * 4096 \<le> 2 ^ 56 \<Longrightarrow>
    n * arch_mmu_start_level (modes C) MMU_STAGE1 \<le> length (pool_free_list s) \<Longrightarrow>
    (\<And>x. unat x < va_limit C \<Longrightarrow> in_pages va n x \<Longrightarrow> hyp_page C s x = Inl VMM_EFAIL) \<Longrightarrow>
    \<exists>s'. map_pages C 0x1000 fl va pa n s = Some s' \<and> hyp_ok C s' \<and>
      (\<forall>x. unat x < va_limit C \<longrightarrow> hyp_page C s' x = (if in_pages va n x then Inr (seen_4k va pa fl x) else hyp_page C s x))"
proof (induction n arbitrary: va pa s)
  case 0
  then show ?case by (simp add: in_pages_def)
next
  case (Suc n)
  have b: "unat va < va_limit C" "unat pa < 2 ^ 56" "unat va + 4096 < 2 ^ 64" "unat pa + 4096 < 2 ^ 64"
    using Suc.prems(3,4) va_limit_le [of C] unfolding mult_Suc by simp_all
  note nx = page_no_next [OF b(3)] page_no_next [OF b(4)]
  obtain s1 where s1: "arch_cpu_aspace_map C va 0x1000 pa fl s = Some (VMM_OK, s1)" "hyp_ok C s1"
    "length (pool_free_list s) \<le> arch_mmu_start_level (modes C) MMU_STAGE1 + length (pool_free_list s1)"
    "\<And>x. unat x < va_limit C \<Longrightarrow> hyp_page C s1 x = (if page_no x = page_no va then Inr (seen_4k va pa fl x) else hyp_page C s x)"
  proof (rule map_one_page [OF Suc.prems(1) fl Suc.prems(2) b(1,2)])
    show "arch_mmu_start_level (modes C) MMU_STAGE1 \<le> length (pool_free_list s)" using Suc.prems(5) by simp
    show "hyp_page C s va = Inl VMM_EFAIL" using Suc.prems(6) [OF b(1)] by (simp add: in_pages_def)
  qed blast
  have ip: "in_pages va (Suc n) x \<longleftrightarrow> page_no x = page_no va \<or> in_pages (va + 0x1000) n x" "\<not> (page_no x = page_no va \<and> in_pages (va + 0x1000) n x)" for x
    using nx(1) by (auto simp: in_pages_def)
  have none1: "hyp_page C s1 x = Inl VMM_EFAIL" if "unat x < va_limit C" "in_pages (va + 0x1000) n x" for x
    using s1(4) [OF that(1)] Suc.prems(6) [OF that(1)] ip [of x] that(2) by simp
  have "4096 dvd unat (pa + 0x1000)" "unat (va + 0x1000) + n * 4096 \<le> va_limit C" "unat (pa + 0x1000) + n * 4096 \<le> 2 ^ 56"
    "n * arch_mmu_start_level (modes C) MMU_STAGE1 \<le> length (pool_free_list s1)"
    using Suc.prems(2-5) s1(3) nx by simp_all
  then obtain s2 where s2: "map_pages C 0x1000 fl (va + 0x1000) (pa + 0x1000) n s1 = Some s2" "hyp_ok C s2"
    "\<forall>x. unat x < va_limit C \<longrightarrow> hyp_page C s2 x = (if in_pages (va + 0x1000) n x then Inr (seen_4k (va + 0x1000) (pa + 0x1000) fl x) else hyp_page C s1 x)"
    using Suc.IH [OF s1(2) _ _ _ _ none1] by blast
  have "seen_4k (va + 0x1000) (pa + 0x1000) fl x = seen_4k va pa fl x" if "in_pages (va + 0x1000) n x" for x
  proof -
    have "page_no x - page_no va = Suc (page_no x - page_no (va + 0x1000))" using that nx(1) by (simp add: in_pages_def Suc_diff_Suc)
    then show ?thesis by (simp add: seen_4k_def)
  qed
  then show ?case using s1(1,4) s2 ip by auto
qed

definition mapped_4k :: "mmu_cfg \<Rightarrow> mmu_sys \<Rightarrow> u64 \<Rightarrow> bool" where
  "mapped_4k C s x \<longleftrightarrow> (\<exists>p. hyp_page C s x = Inr p \<and> page_sz p = 0x1000 \<and> page_no (page_ia p) = page_no x \<and> unat (page_ia p) < va_limit C)"

lemma unmap_pages_spec:
  "hyp_ok C s \<Longrightarrow> unat va + n * 4096 \<le> va_limit C \<Longrightarrow>
    (\<And>x. unat x < va_limit C \<Longrightarrow> in_pages va n x \<Longrightarrow> mapped_4k C s x) \<Longrightarrow>
    \<exists>s'. unmap_pages C 0x1000 va n s = Some (VMM_OK, s') \<and> hyp_ok C s' \<and>
      (\<forall>x. unat x < va_limit C \<longrightarrow> hyp_page C s' x = (if in_pages va n x then Inl VMM_EFAIL else hyp_page C s x))"
proof (induction n arbitrary: va s)
  case 0
  then show ?case by (auto simp: in_pages_def)
next
  case (Suc n)
  have b: "unat va < va_limit C" "unat va + 4096 < 2 ^ 64" using Suc.prems(2) va_limit_le [of C] unfolding mult_Suc by simp_all
  note nx = page_no_next [OF b(2)]
  have ip: "in_pages va (Suc n) x \<longleftrightarrow> page_no x = page_no va \<or> in_pages (va + 0x1000) n x" "\<not> (page_no x = page_no va \<and> in_pages (va + 0x1000) n x)" for x
    using nx by (auto simp: in_pages_def)
  obtain p where p: "hyp_page C s va = Inr p" "page_sz p = 0x1000" "page_no (page_ia p) = page_no va" "unat (page_ia p) < va_limit C"
    using Suc.prems(3) [OF b(1)] ip(1) [of va] by (auto simp: mapped_4k_def)
  obtain s1 where s1: "mmu_unmap_hypervisor_page C p s = Some (VMM_OK, s1)" "hyp_ok C s1"
    "\<forall>x. hyp_page C s1 x = (if hyp_covers C p x then Inl VMM_EFAIL else hyp_page C s x)"
    using hyp.unmaps [OF Suc.prems(1), of va p] p(1) by (auto simp: hyp_page_def)
  have l1: "hyp_page C s1 x = (if page_no x = page_no va then Inl VMM_EFAIL else hyp_page C s x)" if "unat x < va_limit C" for x
    using s1(3) covers_4k [OF p(2,4) that] p(3) by auto
  have un: "arch_cpu_aspace_unmap C va s = Some (VMM_OK, s1)"
    using get_hyp_page [OF Suc.prems(1), of va] p(1) s1(1) by (simp add: arch_cpu_aspace_unmap_def)
  have m1: "mapped_4k C s1 x" if "unat x < va_limit C" "in_pages (va + 0x1000) n x" for x
    using l1 [OF that(1)] Suc.prems(3) [OF that(1)] ip [of x] that(2) by (simp add: mapped_4k_def)
  have "unat (va + 0x1000) + n * 4096 \<le> va_limit C" using Suc.prems(2) nx by simp
  then obtain s2 where s2: "unmap_pages C 0x1000 (va + 0x1000) n s1 = Some (VMM_OK, s2)" "hyp_ok C s2"
    "\<forall>x. unat x < va_limit C \<longrightarrow> hyp_page C s2 x = (if in_pages (va + 0x1000) n x then Inl VMM_EFAIL else hyp_page C s1 x)"
    using Suc.IH [OF s1(2) _ m1] by blast
  then show ?case using un l1 ip by auto
qed

lemma low_12_bits: "x AND 0xfff = of_nat (unat (x::u64) mod 4096)"
proof -
  have "x AND 0xfff = take_bit 12 x" by (simp add: take_bit_eq_mask mask_eq_exp_minus_1)
  then have "unat (x AND 0xfff) = unat x mod 4096" by (simp only: unsigned_take_bit_eq) (simp add: take_bit_eq_mod)
  then show ?thesis by (metis of_nat_unat ucast_id)
qed

lemma seen_4k_addr:
  assumes "page_no va \<le> page_no x" "4096 dvd unat va"
  shows "page_oa (seen_4k va pa fl x) + (x AND (page_sz (seen_4k va pa fl x) - 1)) = pa + (x - va)"
proof -
  have "(page_no x - page_no va) * 4096 + unat x mod 4096 = unat x - unat va" "unat va \<le> unat x"
    using assms by (auto simp: page_no_def diff_mult_distrib)
  then have "of_nat ((page_no x - page_no va) * 4096) + of_nat (unat x mod 4096) = (x - va :: u64)"
    by (metis of_nat_add of_nat_diff of_nat_unat ucast_id)
  then show ?thesis by (simp add: seen_4k_def low_12_bits)
qed

lemma in_pages_range:
  assumes "4096 dvd unat va" "unat len = n * 4096" "unat va + unat len < 2 ^ 64"
  shows "in_pages va n x \<longleftrightarrow> va \<le> x \<and> x < va + len"
proof -
  obtain k where k: "unat va = k * 4096" using assms(1) by (metis dvd_def mult.commute)
  have "unat (va + len) = (k + n) * 4096" using unat_add_small [OF assms(3)] k assms(2) by (simp add: add_mult_distrib)
  moreover have "unat x div 4096 < k + n \<longleftrightarrow> unat x < (k + n) * 4096" by (rule div_less_iff_less_mult) simp
  moreover have "k \<le> unat x div 4096 \<longleftrightarrow> k * 4096 \<le> unat x" by (rule less_eq_div_iff_mult_less_eq) simp
  ultimately show ?thesis using k by (simp add: in_pages_def page_no_def word_le_nat_alt word_less_nat_alt)
qed

lemma roundup_page: "4096 dvd unat (roundup2_order_size sz VMM_PAGE_SHIFT)"
proof -
  have z: "take_bit 12 (order_align sz 12) = 0"
    by (simp add: bit_eq_iff bit_simps order_align_def order_mask_def order_size_def mask_eq_exp_minus_1 [symmetric])
  have "4096 dvd unat (order_align sz 12) + unat (0x1000 :: u64)" using take_bit_u64_zero [of 12 "order_align sz 12"] z by simp
  then have "4096 dvd unat (order_align sz 12 + 0x1000)" unfolding unat_word_ariths(1) by (rule dvd_mod) simp
  then show ?thesis using take_bit_u64_zero [of 12 sz] by (simp add: roundup2_order_size_def and_order_mask)
qed

section \<open>The invariant of the host address space\<close>

text \<open>
  The parts are well-formed; addresses of the pool that are not in use have no translation; the table of mapped ranges
  names addresses of the pool in use, and they translate back.
\<close>

definition host_ok :: "mmu_cfg \<Rightarrow> host_sys \<Rightarrow> bool" where
  "host_ok C s \<longleftrightarrow> vapool_ok (hs_vapool s) \<and> hyp_ok C (hs_mmu s) \<and> mhash_ok (hs_mhash s) \<and> mem_hi (vapool_ba (hs_vapool s)) \<le> va_limit C \<and>
     (\<forall>x. mem_lo (vapool_ba (hs_vapool s)) \<le> unat x \<and> unat x < mem_hi (vapool_ba (hs_vapool s)) \<and> \<not> pool_used (hs_vapool s) x \<longrightarrow>
        hyp_page C (hs_mmu s) x = Inl VMM_EFAIL) \<and>
     (\<forall>p v f. mhash_lookup (hs_mhash s) p = Some (v, f) \<longrightarrow> pool_used (hs_vapool s) v \<and> unat v < va_limit C \<and> vmm_host_va2pa C v s = Some (Inr p))"

lemma host_ok_lookup:
  assumes "host_ok C s" "mhash_lookup (hs_mhash s) p = Some (v, f)"
  shows "pool_used (hs_vapool s) v" "unat v < va_limit C" "vmm_host_va2pa C v s = Some (Inr p)"
  using assms unfolding host_ok_def by blast+

lemma va2pa_page:
  assumes "hyp_ok C m"
  shows "arch_cpu_aspace_va2pa C x m = Some (case hyp_page C m x of Inl rc \<Rightarrow> Inl rc | Inr pg \<Rightarrow> Inr (page_oa pg + (x AND (page_sz pg - 1))))"
  using get_hyp_page [OF assms, of x] by (simp add: arch_cpu_aspace_va2pa_def)

lemma pa2va_lookup: "vmm_host_pa2va p s = (case mhash_lookup (hs_mhash s) p of None \<Rightarrow> Inl VMM_ENOTAVAIL | Some (v, f) \<Rightarrow> Inr v)"
  by (simp add: vmm_host_pa2va_def host_mhash_pa2va_def mhash_lookup_def Let_def split: option.splits)

text \<open>A new mapping of \<open>len\<close> bytes at \<open>tpa\<close>, both multiples of the page size.\<close>

definition can_map :: "mmu_cfg \<Rightarrow> u64 \<Rightarrow> u64 \<Rightarrow> u32 \<Rightarrow> host_sys \<Rightarrow> bool" where
  "can_map C tpa len fl s \<longleftrightarrow> fl AND (VMM_MEMORY_READABLE OR VMM_MEMORY_WRITEABLE OR VMM_MEMORY_EXECUTABLE) \<noteq> 0 \<and>
     mhash_free_range (hs_mhash s) tpa len \<and> free_slots (hs_mhash s) \<noteq> {} \<and> unat tpa + unat len \<le> 2 ^ 56 \<and>
     unat len div 4096 * arch_mmu_start_level (modes C) MMU_STAGE1 \<le> length (pool_free_list (hs_mmu s))"

lemma memmap_new_spec:
  assumes ok: "host_ok C s" and al: "vmm_host_vapool_alloc len (hs_vapool s) = Some (Inr va, vp)" and c: "can_map C tpa len fl s"
    and dv: "4096 dvd unat len" "4096 dvd unat tpa"
  obtains l mmu where "memmap_new C VMM_PAGE_SHIFT tpa len fl s = Some (va, s\<lparr>hs_vapool := vp, hs_mmu := mmu\<rparr>)" "hyp_ok C mmu"
    "same_pool (hs_vapool s) vp" "unat len \<le> l" "4096 dvd unat va" "mem_lo (vapool_ba (hs_vapool s)) \<le> unat va"
    "unat va + l \<le> mem_hi (vapool_ba (hs_vapool s))"
    "\<And>x. pool_used vp x \<longleftrightarrow> pool_used (hs_vapool s) x \<or> unat va \<le> unat x \<and> unat x < unat va + l"
    "\<And>x. unat va \<le> unat x \<Longrightarrow> unat x < unat va + l \<Longrightarrow> \<not> pool_used (hs_vapool s) x"
    "\<And>x. unat x < va_limit C \<Longrightarrow> hyp_page C mmu x = (if va \<le> x \<and> x < va + len then Inr (seen_4k va tpa fl x) else hyp_page C (hs_mmu s) x)"
proof -
  have k: "vapool_ok (hs_vapool s)" "hyp_ok C (hs_mmu s)" "mem_hi (vapool_ba (hs_vapool s)) \<le> va_limit C" using ok by (simp_all add: host_ok_def)
  obtain l where l: "same_pool (hs_vapool s) vp" "unat len \<le> l" "0 < l" "4096 dvd unat va" "mem_lo (vapool_ba (hs_vapool s)) \<le> unat va"
    "unat va + l \<le> mem_hi (vapool_ba (hs_vapool s))"
    "\<And>x. pool_used vp x \<longleftrightarrow> pool_used (hs_vapool s) x \<or> unat va \<le> unat x \<and> unat x < unat va + l"
    "\<And>x. unat va \<le> unat x \<Longrightarrow> unat x < unat va + l \<Longrightarrow> \<not> pool_used (hs_vapool s) x"
    using vapool_alloc_spec [OF k(1) al] by blast
  define n where "n = unat len div 4096"
  have n: "unat len = n * 4096" using dv(1) by (simp add: n_def)
  have lim: "unat va + n * 4096 \<le> va_limit C" "unat va + unat len < 2 ^ 64" using l(2,6) k(3) va_limit_small [of C] n by linarith+
  note ir = in_pages_range [OF l(4) n lim(2)]
  have fl: "fl AND (VMM_MEMORY_READABLE OR VMM_MEMORY_WRITEABLE OR VMM_MEMORY_EXECUTABLE) \<noteq> 0" and pa: "unat tpa + n * 4096 \<le> 2 ^ 56"
    and pool: "n * arch_mmu_start_level (modes C) MMU_STAGE1 \<le> length (pool_free_list (hs_mmu s))"
    using c n unfolding can_map_def n_def [symmetric] by simp_all
  have none: "hyp_page C (hs_mmu s) x = Inl VMM_EFAIL" if "unat x < va_limit C" "in_pages va n x" for x
  proof -
    have "unat va \<le> unat x" "unat x < unat va + unat len"
      using that(2) unat_add_small [OF lim(2)] unfolding ir by (simp_all add: word_le_nat_alt word_less_nat_alt)
    then show ?thesis using ok l(2,5,6) l(8) [of x] by (simp add: host_ok_def)
  qed
  obtain mmu where m: "map_pages C 0x1000 fl va tpa n (hs_mmu s) = Some mmu" "hyp_ok C mmu"
    "\<And>x. unat x < va_limit C \<Longrightarrow> hyp_page C mmu x = (if in_pages va n x then Inr (seen_4k va tpa fl x) else hyp_page C (hs_mmu s) x)"
    using map_pages_spec [OF fl k(2) dv(2) lim(1) pa pool none] by blast
  have "va AND 0xfff = 0" "unat (drop_bit 12 len) = n" using l(4) aligned_4k by (simp, simp only: unat_drop_bit_eq n_def) (simp add: drop_bit_eq_div)
  then have "memmap_new C VMM_PAGE_SHIFT tpa len fl s = Some (va, s\<lparr>hs_vapool := vp, hs_mmu := mmu\<rparr>)"
    using al m(1) by (simp add: memmap_new_def order_mask_def)
  then show ?thesis using that m(2,3) l unfolding ir by blast
qed

text \<open>What a mapping at \<open>va\<close> changes: the translations of its range and the names of its physical addresses.\<close>

definition maps_range :: "mmu_cfg \<Rightarrow> u64 \<Rightarrow> u64 \<Rightarrow> u64 \<Rightarrow> u32 \<Rightarrow> host_sys \<Rightarrow> host_sys \<Rightarrow> bool" where
  "maps_range C va tpa len fl s s' \<longleftrightarrow>
     (\<forall>x. unat x < va_limit C \<longrightarrow> vmm_host_va2pa C x s' = (if va \<le> x \<and> x < va + len then Some (Inr (tpa + (x - va))) else vmm_host_va2pa C x s)) \<and>
     (\<forall>p. mhash_lookup (hs_mhash s') p = (if tpa \<le> p \<and> p < tpa + len then Some (va + (p - tpa), fl) else mhash_lookup (hs_mhash s) p))"

lemma maps_range_ok:
  assumes ok: "host_ok C s" and m: "maps_range C va tpa len fl s s'"
    and p: "vapool_ok (hs_vapool s')" "hyp_ok C (hs_mmu s')" "mhash_ok (hs_mhash s')" "same_pool (hs_vapool s) (hs_vapool s')"
    and l: "unat len \<le> l" "unat va + l \<le> mem_hi (vapool_ba (hs_vapool s))" "unat tpa + unat len < 2 ^ 64"
    and used: "\<And>x. pool_used (hs_vapool s') x \<longleftrightarrow> pool_used (hs_vapool s) x \<or> unat va \<le> unat x \<and> unat x < unat va + l"
    and new: "\<And>x. unat va \<le> unat x \<Longrightarrow> unat x < unat va + l \<Longrightarrow> \<not> pool_used (hs_vapool s) x"
    and pg: "\<And>x. unat x < va_limit C \<Longrightarrow> \<not> (va \<le> x \<and> x < va + len) \<Longrightarrow> hyp_page C (hs_mmu s') x = hyp_page C (hs_mmu s) x"
  shows "host_ok C s'"
proof -
  have hi: "mem_hi (vapool_ba (hs_vapool s)) \<le> va_limit C" using ok by (simp add: host_ok_def)
  have e: "mem_lo (vapool_ba (hs_vapool s')) = mem_lo (vapool_ba (hs_vapool s))" "mem_hi (vapool_ba (hs_vapool s')) = mem_hi (vapool_ba (hs_vapool s))"
    using p(4) by (simp_all add: same_pool_def)
  have u: "unat (va + len) = unat va + unat len" "unat (tpa + len) = unat tpa + unat len"
    using unat_add_small [of va len] unat_add_small [OF l(3)] l(1,2) hi va_limit_small [of C] by simp_all
  have rng: "va \<le> x \<and> x < va + len \<longleftrightarrow> unat va \<le> unat x \<and> unat x < unat va + unat len" for x
    using u(1) by (simp add: word_le_nat_alt word_less_nat_alt)
  have "hyp_page C (hs_mmu s') x = Inl VMM_EFAIL"
    if x: "mem_lo (vapool_ba (hs_vapool s)) \<le> unat x" "unat x < mem_hi (vapool_ba (hs_vapool s))" "\<not> pool_used (hs_vapool s') x" for x
  proof -
    have "hyp_page C (hs_mmu s) x = Inl VMM_EFAIL" using ok x used [of x] by (simp add: host_ok_def)
    moreover have "\<not> (va \<le> x \<and> x < va + len)" using x(3) used [of x] l(1) unfolding rng by linarith
    ultimately show ?thesis using pg [of x] x(2) hi by simp
  qed
  moreover have "pool_used (hs_vapool s') v \<and> unat v < va_limit C \<and> vmm_host_va2pa C v s' = Some (Inr q)"
    if v: "mhash_lookup (hs_mhash s') q = Some (v, f)" for q v f
  proof (cases "tpa \<le> q \<and> q < tpa + len")
    case True
    then have "v = va + (q - tpa)" using v m by (simp add: maps_range_def)
    moreover have "unat (q - tpa) < unat len" using True u(2) by (simp add: unat_sub word_le_nat_alt word_less_nat_alt less_diff_conv2)
    moreover from this have "unat (va + (q - tpa)) = unat va + unat (q - tpa)"
      using unat_add_small [of va "q - tpa"] l(1,2) hi va_limit_small [of C] by simp
    ultimately have in_r: "unat va \<le> unat v" "unat v < unat va + unat len" "v - va = q - tpa" by simp_all
    then have "unat v < va_limit C" using l hi by linarith
    then show ?thesis using m in_r used [of v] l(1) rng [of v] by (simp add: maps_range_def)
  next
    case False
    then have "mhash_lookup (hs_mhash s) q = Some (v, f)" using v m unfolding maps_range_def by (simp only: if_False)
    note o = host_ok_lookup [OF ok this]
    then have "\<not> (va \<le> v \<and> v < va + len)" using new [of v] rng [of v] l(1) by auto
    then show ?thesis using o m used [of v] by (auto simp: maps_range_def)
  qed
  ultimately show ?thesis using p(1-3) hi unfolding host_ok_def e by blast
qed

lemma memmap_fresh:
  assumes ok: "host_ok C s" and al: "vmm_host_vapool_alloc len (hs_vapool s) = Some (Inr va, vp)" and c: "can_map C tpa len fl s"
    and len: "len = roundup2_order_size sz VMM_PAGE_SHIFT" and tpa: "tpa = pa AND NOT (order_mask VMM_PAGE_SHIFT)"
  obtains mmu mh s' where "vmm_host_memmap C pa sz fl s = Some (va + (pa AND order_mask VMM_PAGE_SHIFT), s')"
    "s' = s\<lparr>hs_vapool := vp, hs_mmu := mmu, hs_mhash := mh\<rparr>" "host_ok C s'" "maps_range C va tpa len fl s s'" "len \<noteq> 0"
    "4096 dvd unat va" "unat va + unat len \<le> va_limit C" "\<And>x. va \<le> x \<Longrightarrow> x < va + len \<Longrightarrow> hyp_page C (hs_mmu s) x = Inl VMM_EFAIL"
    "\<And>p. tpa \<le> p \<Longrightarrow> p < tpa + len \<Longrightarrow> mhash_lookup (hs_mhash s) p = None"
    "\<And>x. unat x < va_limit C \<Longrightarrow> va \<le> x \<Longrightarrow> x < va + len \<Longrightarrow> mapped_4k C mmu x"
    "\<exists>i. host_mhash_find tpa mh = Some i \<and> mh_entry mh ! i = \<lparr>e_pa = tpa, e_va = va, e_sz = len, e_flags = fl, e_ref = 1\<rparr>"
proof -
  have dv: "4096 dvd unat len" "4096 dvd unat tpa"
  proof -
    show "4096 dvd unat len" unfolding len by (rule roundup_page)
    have "tpa AND 0xfff = 0" unfolding tpa by (simp add: order_mask_def bit_eq_iff bit_simps)
    then show "4096 dvd unat tpa" by (simp only: aligned_4k)
  qed
  have mk: "mhash_ok (hs_mhash s)" "hyp_ok C (hs_mmu s)" "mem_hi (vapool_ba (hs_vapool s)) \<le> va_limit C" using ok by (simp_all add: host_ok_def)
  have len0: "len \<noteq> 0" using al by (auto simp: vmm_host_vapool_alloc_def buddy_mem_alloc_def)
  obtain l mmu where n: "memmap_new C VMM_PAGE_SHIFT tpa len fl s = Some (va, s\<lparr>hs_vapool := vp, hs_mmu := mmu\<rparr>)" "hyp_ok C mmu"
    "same_pool (hs_vapool s) vp" "unat len \<le> l" "4096 dvd unat va" "mem_lo (vapool_ba (hs_vapool s)) \<le> unat va"
    "unat va + l \<le> mem_hi (vapool_ba (hs_vapool s))"
    "\<And>x. pool_used vp x \<longleftrightarrow> pool_used (hs_vapool s) x \<or> unat va \<le> unat x \<and> unat x < unat va + l"
    "\<And>x. unat va \<le> unat x \<Longrightarrow> unat x < unat va + l \<Longrightarrow> \<not> pool_used (hs_vapool s) x"
    "\<And>x. unat x < va_limit C \<Longrightarrow> hyp_page C mmu x = (if va \<le> x \<and> x < va + len then Inr (seen_4k va tpa fl x) else hyp_page C (hs_mmu s) x)"
    by (rule memmap_new_spec [OF ok al c dv], rule that; assumption)
  have sm: "unat tpa + unat len < 2 ^ 64" "unat va + unat len < 2 ^ 64" "unat va + unat len \<le> va_limit C"
    using c n(4,7) mk(3) va_limit_small [of C] by (simp_all add: can_map_def)
  have fr: "mhash_free_range (hs_mhash s) tpa len" "free_slots (hs_mhash s) \<noteq> {}" using c by (simp_all add: can_map_def)
  obtain mh where h: "host_mhash_add tpa va len fl (hs_mhash s) = Some (VMM_OK, mh)" "mhash_ok mh"
    "\<And>x. mhash_lookup mh x = (if tpa \<le> x \<and> x < tpa + len then Some (va + (x - tpa), fl) else mhash_lookup (hs_mhash s) x)"
    "\<exists>i. host_mhash_find tpa mh = Some i \<and> mh_entry mh ! i = \<lparr>e_pa = tpa, e_va = va, e_sz = len, e_flags = fl, e_ref = 1\<rparr>"
    by (rule mhash_add_fresh [OF mk(1) len0 sm(1,2) fr, of fl], rule that; assumption)
  define s' where "s' = s\<lparr>hs_vapool := vp, hs_mmu := mmu, hs_mhash := mh\<rparr>"
  have "tpa < tpa + len" using unat_add_small [OF sm(1)] len0 by (simp add: word_less_nat_alt unat_gt_0)
  then have "host_mhash_find tpa (hs_mhash s) = None" unfolding mhash_find_None [OF mk(1)] using fr(1) by (auto simp: mhash_free_range_def)
  then have run: "vmm_host_memmap C pa sz fl s = Some (va + (pa AND order_mask VMM_PAGE_SHIFT), s')"
    using n(1) h(1) unfolding vmm_host_memmap_def host_memmap_def host_page_shift_def Let_def if_False len [symmetric] tpa [symmetric]
    by (simp add: host_mhash_pa2va_def s'_def)
  have le: "page_no va \<le> page_no x" if "va \<le> x" for x using that by (simp add: page_no_def word_le_nat_alt div_le_mono)
  have mr: "maps_range C va tpa len fl s s'"
    unfolding maps_range_def using n(10) h(3) va2pa_page [OF n(2)] va2pa_page [OF mk(2)] seen_4k_addr [OF le n(5)]
    by (simp add: vmm_host_va2pa_def s'_def)
  have "hyp_page C mmu x = hyp_page C (hs_mmu s) x" if "unat x < va_limit C" "\<not> (va \<le> x \<and> x < va + len)" for x
    using n(10) [OF that(1)] that(2) by simp
  then have "host_ok C s'" by (intro maps_range_ok [OF ok mr _ _ _ _ n(4,7) sm(1)]) (use n(2,3,8,9) h(2) in \<open>simp_all add: s'_def same_pool_def\<close>)
  moreover have "mapped_4k C mmu x" if "unat x < va_limit C" "va \<le> x" "x < va + len" for x
  proof -
    have "page_ia (seen_4k va tpa fl x) = x AND NOT 0xfff" "page_sz (seen_4k va tpa fl x) = 0x1000" by (simp_all add: seen_4k_def)
    moreover have "drop_bit 12 (x AND NOT 0xfff) = drop_bit 12 x"
    proof -
      have "drop_bit 12 (x AND NOT (mask 12)) = drop_bit 12 x" by (rule bit_word_eqI) (auto simp: bit_simps dest: bit_imp_le_length)
      then show ?thesis by (simp add: mask_eq_exp_minus_1)
    qed
    moreover have "x AND NOT 0xfff \<le> x" by (rule word_and_le2)
    ultimately show ?thesis using n(10) [OF that(1)] that by (auto simp: mapped_4k_def page_no_eq word_le_nat_alt)
  qed
  moreover have "hyp_page C (hs_mmu s) x = Inl VMM_EFAIL" if "va \<le> x" "x < va + len" for x
  proof -
    have "unat va \<le> unat x" "unat x < unat va + unat len" using that unat_add_small [OF sm(2)] by (simp_all add: word_le_nat_alt word_less_nat_alt)
    then show ?thesis using n(4,6,7) n(9) [of x] ok by (simp add: host_ok_def)
  qed
  moreover have "mhash_lookup (hs_mhash s) p = None" if "tpa \<le> p" "p < tpa + len" for p
    using fr(1) that mhash_find_None [OF mk(1), of p] by (force simp: mhash_lookup_def mhash_free_range_def)
  ultimately show ?thesis using that [OF run s'_def _ mr len0 n(5) sm(3)] h(4) by blast
qed

lemma memunmap_range:
  assumes ok: "host_ok C s" and f: "vmm_host_vapool_find w (hs_vapool s) = Inr (va, len)" "vmm_host_vapool_find va (hs_vapool s) = Inr (va, len)"
    and hk: "2 \<le> unat (hk_free_count (vapool_ba (hs_vapool s)))"
    and e: "host_mhash_find tpa (hs_mhash s) = Some i" "mh_entry (hs_mhash s) ! i = \<lparr>e_pa = tpa, e_va = va, e_sz = len, e_flags = fl, e_ref = 1\<rparr>"
    and m4: "\<And>x. unat x < va_limit C \<Longrightarrow> va \<le> x \<Longrightarrow> x < va + len \<Longrightarrow> mapped_4k C (hs_mmu s) x"
    and dv: "4096 dvd unat va" "4096 dvd unat len" and len: "len \<noteq> 0" and lim: "unat va + unat len \<le> va_limit C"
  obtains s' where "vmm_host_memunmap C w s = Some (VMM_OK, s')" "host_ok C s'"
    "\<And>x. unat x < va_limit C \<Longrightarrow> vmm_host_va2pa C x s' = (if va \<le> x \<and> x < va + len then Some (Inl VMM_EFAIL) else vmm_host_va2pa C x s)"
    "\<And>p. mhash_lookup (hs_mhash s') p = (if tpa \<le> p \<and> p < tpa + len then None else mhash_lookup (hs_mhash s) p)"
proof -
  have k: "vapool_ok (hs_vapool s)" "hyp_ok C (hs_mmu s)" "mhash_ok (hs_mhash s)" "mem_hi (vapool_ba (hs_vapool s)) \<le> va_limit C"
    using ok by (simp_all add: host_ok_def)
  have at: "entry_lo (hs_mhash s) i = tpa" "entry_hi (hs_mhash s) i = tpa + len" using e(2) by (simp_all add: entry_lo_def entry_hi_def)
  have "i \<in> set (elems (mh_root (hs_mhash s)))" using e(1) mhash_find_spec [OF k(3)] by blast
  then have nw: "unat tpa + unat len < 2 ^ 64" "unat va + unat len < 2 ^ 64"
    using k(3) e(2) unfolding mhash_ok_def by (metis host_mhash_entry.select_convs)+
  note u = unat_add_small [OF nw(1)] unat_add_small [OF nw(2)]
  have lk: "mhash_lookup (hs_mhash s) p = Some (va + (p - tpa), fl)" if "tpa \<le> p" "p < tpa + len" for p
  proof -
    have "host_mhash_find p (hs_mhash s) = Some i" using that e(1) at unfolding mhash_find_spec [OF k(3)] by simp
    then show ?thesis using e(2) by (simp add: mhash_lookup_def)
  qed
  have "tpa < tpa + len" using u(1) len by (simp add: word_less_nat_alt unat_gt_0)
  then have v: "arch_cpu_aspace_va2pa C va (hs_mmu s) = Some (Inr tpa)" using host_ok_lookup(3) [OF ok lk [of tpa]] by (simp add: vmm_host_va2pa_def)
  obtain mh where h: "host_mhash_del tpa va len (hs_mhash s) = Some (VMM_OK, mh)" "mhash_ok mh"
    "\<And>x. mhash_lookup mh x = (if tpa \<le> x \<and> x < tpa + len then None else mhash_lookup (hs_mhash s) x)"
    by (rule mhash_del_range [OF k(3) e(1), of va len]) (use e(2) len in simp_all)
  define n where "n = unat len div 4096"
  have n: "unat len = n * 4096" "unat (drop_bit 12 len) = n"
    using dv(2) by (simp add: n_def, simp only: unat_drop_bit_eq n_def) (simp add: drop_bit_eq_div)
  note ir = in_pages_range [OF dv(1) n(1) nw(2)]
  have l4: "unat va + n * 4096 \<le> va_limit C" using lim n(1) by simp
  obtain mmu where m: "unmap_pages C 0x1000 va n (hs_mmu s) = Some (VMM_OK, mmu)" "hyp_ok C mmu"
    "\<And>x. unat x < va_limit C \<Longrightarrow> hyp_page C mmu x = (if va \<le> x \<and> x < va + len then Inl VMM_EFAIL else hyp_page C (hs_mmu s) x)"
    using unmap_pages_spec [OF k(2) l4] m4 unfolding ir by blast
  obtain vp where p: "vmm_host_vapool_free va len (hs_vapool s) = Some (VMM_OK, vp)" "same_pool (hs_vapool s) vp"
    "\<And>x. pool_used vp x \<longleftrightarrow> pool_used (hs_vapool s) x \<and> \<not> (unat va \<le> unat x \<and> unat x < unat va + unat len)"
    by (rule vapool_free_spec [OF k(1) f(2) hk], rule that; assumption)
  define s' where "s' = s\<lparr>hs_mhash := mh, hs_mmu := mmu, hs_vapool := vp\<rparr>"
  have z: "va AND NOT 0xfff = va" "len AND 0xfff = 0" using aligned_mask [of va "0xfff"] dv aligned_4k by simp_all
  then have "roundup2_order_size len 12 = len" by (simp add: roundup2_order_size_def order_mask_def)
  then have run: "vmm_host_memunmap C w s = Some (VMM_OK, s')"
    using f(1) v h(1) m(1) p(1) z n(2) by (simp add: vmm_host_memunmap_def host_memunmap_def host_page_shift_def order_mask_def s'_def)
  have tr: "vmm_host_va2pa C x s' = (if va \<le> x \<and> x < va + len then Some (Inl VMM_EFAIL) else vmm_host_va2pa C x s)" if "unat x < va_limit C" for x
    using m(3) [OF that] va2pa_page [OF m(2)] va2pa_page [OF k(2)] by (simp add: vmm_host_va2pa_def s'_def)
  have rng: "va \<le> x \<and> x < va + len \<longleftrightarrow> unat va \<le> unat x \<and> unat x < unat va + unat len" for x
    using u(2) by (simp add: word_le_nat_alt word_less_nat_alt)
  have un: "hyp_page C mmu x = Inl VMM_EFAIL"
    if x: "mem_lo (vapool_ba (hs_vapool s)) \<le> unat x" "unat x < mem_hi (vapool_ba (hs_vapool s))" "\<not> pool_used vp x" for x
    using m(3) [of x] p(3) [of x] rng [of x] x ok k(4) by (auto simp: host_ok_def)
  have mp: "pool_used vp y \<and> unat y < va_limit C \<and> vmm_host_va2pa C y s' = Some (Inr q)" if y: "mhash_lookup mh q = Some (y, g)" for q y g
  proof -
    have q: "\<not> (tpa \<le> q \<and> q < tpa + len)" "mhash_lookup (hs_mhash s) q = Some (y, g)" using y h(3) [of q] by (auto split: if_splits)
    note o = host_ok_lookup [OF ok q(2)]
    have "\<not> (va \<le> y \<and> y < va + len)"
    proof
      assume r: "va \<le> y \<and> y < va + len"
      let ?p = "tpa + (y - va)"
      have "unat (y - va) < unat len" using r u(2) by (simp add: unat_sub word_le_nat_alt word_less_nat_alt less_diff_conv2)
      moreover from this have "unat ?p = unat tpa + unat (y - va)" using unat_add_small [of tpa "y - va"] nw(1) by simp
      ultimately have p': "tpa \<le> ?p" "?p < tpa + len" using u(1) by (simp_all add: word_le_nat_alt word_less_nat_alt)
      have "vmm_host_va2pa C y s = Some (Inr ?p)" using host_ok_lookup(3) [OF ok lk [OF p']] by simp
      then show False using o(3) q(1) p' by simp
    qed
    then show ?thesis using o tr [OF o(2)] p(3) [of y] rng [of y] by auto
  qed
  have "host_ok C s'"
    using un mp k(4) m(2) h(2) p(2) unfolding host_ok_def same_pool_def by (auto simp: s'_def)
  then show ?thesis using that [OF run] tr h(3) by (simp add: s'_def)
qed

section \<open>Mapping and unmapping\<close>

text \<open>
  Property C17: mapping physical memory of the host. If the pool has addresses for the rounded size, the physical pages are
  not mapped yet, the table of mapped ranges has a free entry, and the pool of page tables lasts for the pages, the call
  succeeds and keeps the invariant. The address it returns has the offset of the physical address in its page; the pages
  translate to the physical pages in order, \<^verbatim>\<open>vmm_host_pa2va\<close> answers for them, and no other address translates
  differently.\<close>
theorem vmm_host_memmap_maps:
  assumes "host_ok C s" and "can_map C tpa len fl s" and "vmm_host_vapool_alloc len (hs_vapool s) = Some (Inr va, vp)"
    and "len = roundup2_order_size sz VMM_PAGE_SHIFT" and "tpa = pa AND NOT (order_mask VMM_PAGE_SHIFT)"
  shows "\<exists>s'. vmm_host_memmap C pa sz fl s = Some (va + (pa AND order_mask VMM_PAGE_SHIFT), s') \<and> host_ok C s' \<and>
    (\<forall>x. unat x < va_limit C \<longrightarrow> vmm_host_va2pa C x s' = (if va \<le> x \<and> x < va + len then Some (Inr (tpa + (x - va))) else vmm_host_va2pa C x s)) \<and>
    (\<forall>p. vmm_host_pa2va p s' = (if tpa \<le> p \<and> p < tpa + len then Inr (va + (p - tpa)) else vmm_host_pa2va p s))"
proof -
  obtain s' where "vmm_host_memmap C pa sz fl s = Some (va + (pa AND order_mask VMM_PAGE_SHIFT), s')" "host_ok C s'" "maps_range C va tpa len fl s s'"
    by (rule memmap_fresh [OF assms(1,3,2,4,5)], rule that; assumption)
  then show ?thesis by (intro exI [of _ s']) (simp add: maps_range_def pa2va_lookup)
qed

text \<open>
  Property C18: unmapping what was mapped. If the area that the pool gave is exactly the mapped range and two house-keeping
  structures are left, unmapping the address that \<^verbatim>\<open>vmm_host_memmap\<close> returned succeeds and keeps the invariant, and
  every address translates, in both directions, as it did before the mapping.\<close>
theorem vmm_host_memunmap_undoes:
  assumes "host_ok C s" and "can_map C tpa len fl s" and "vmm_host_vapool_alloc len (hs_vapool s) = Some (Inr va, vp)"
    and "len = roundup2_order_size sz VMM_PAGE_SHIFT" and "tpa = pa AND NOT (order_mask VMM_PAGE_SHIFT)"
    and "vmm_host_vapool_find va vp = Inr (va, len)" and "2 \<le> unat (hk_free_count (vapool_ba vp))"
  shows "\<exists>w s1 s2. vmm_host_memmap C pa sz fl s = Some (w, s1) \<and> vmm_host_memunmap C w s1 = Some (VMM_OK, s2) \<and> host_ok C s2 \<and>
    (\<forall>x. unat x < va_limit C \<longrightarrow> vmm_host_va2pa C x s2 = vmm_host_va2pa C x s) \<and> (\<forall>p. vmm_host_pa2va p s2 = vmm_host_pa2va p s)"
proof -
  let ?w = "va + (pa AND order_mask VMM_PAGE_SHIFT)"
  obtain mmu mh s1 where m: "vmm_host_memmap C pa sz fl s = Some (?w, s1)"
    "s1 = s\<lparr>hs_vapool := vp, hs_mmu := mmu, hs_mhash := mh\<rparr>" "host_ok C s1" "maps_range C va tpa len fl s s1" "len \<noteq> 0"
    "4096 dvd unat va" "unat va + unat len \<le> va_limit C" "\<And>x. va \<le> x \<Longrightarrow> x < va + len \<Longrightarrow> hyp_page C (hs_mmu s) x = Inl VMM_EFAIL"
    "\<And>p. tpa \<le> p \<Longrightarrow> p < tpa + len \<Longrightarrow> mhash_lookup (hs_mhash s) p = None"
    "\<And>x. unat x < va_limit C \<Longrightarrow> va \<le> x \<Longrightarrow> x < va + len \<Longrightarrow> mapped_4k C mmu x"
    "\<exists>i. host_mhash_find tpa mh = Some i \<and> mh_entry mh ! i = \<lparr>e_pa = tpa, e_va = va, e_sz = len, e_flags = fl, e_ref = 1\<rparr>"
    by (rule memmap_fresh [OF assms(1,3,2,4,5)], rule that; assumption)
  have dl: "4096 dvd unat len" unfolding assms(4) by (rule roundup_page)
  have off: "unat (pa AND 0xfff) < 4096" by (simp add: low_12_bits unat_of_nat)
  have "4096 \<le> unat len" using dl m(5) by (metis dvd_imp_le unat_gt_0)
  moreover have "unat ?w = unat va + unat (pa AND 0xfff)"
    using unat_add_small [of va "pa AND 0xfff"] off m(7) \<open>4096 \<le> unat len\<close> va_limit_small [of C] by (simp add: order_mask_def)
  ultimately have fw: "vmm_host_vapool_find ?w vp = Inr (va, len)"
    using vapool_find_in [OF _ assms(6), of ?w] m(2,3) off by (simp add: host_ok_def)
  obtain i where i: "host_mhash_find tpa mh = Some i" "mh_entry mh ! i = \<lparr>e_pa = tpa, e_va = va, e_sz = len, e_flags = fl, e_ref = 1\<rparr>"
    using m(11) by blast
  have s1: "hs_vapool s1 = vp" "hs_mmu s1 = mmu" "hs_mhash s1 = mh" using m(2) by simp_all
  obtain s2 where u: "vmm_host_memunmap C ?w s1 = Some (VMM_OK, s2)" "host_ok C s2"
    "\<And>x. unat x < va_limit C \<Longrightarrow> vmm_host_va2pa C x s2 = (if va \<le> x \<and> x < va + len then Some (Inl VMM_EFAIL) else vmm_host_va2pa C x s1)"
    "\<And>p. mhash_lookup (hs_mhash s2) p = (if tpa \<le> p \<and> p < tpa + len then None else mhash_lookup (hs_mhash s1) p)"
    by (rule memunmap_range [OF m(3) fw [folded s1] assms(6,7) [folded s1] i [folded s1] m(10) [folded s1] m(6) dl m(5,7)],
        assumption+, rule that; assumption)
  have hy: "hyp_ok C (hs_mmu s)" using assms(1) by (simp add: host_ok_def)
  have "vmm_host_va2pa C x s2 = vmm_host_va2pa C x s" if "unat x < va_limit C" for x
    using u(3) [OF that] m(4) m(8) [of x] that va2pa_page [OF hy, of x] by (auto simp: maps_range_def vmm_host_va2pa_def)
  moreover have "vmm_host_pa2va p s2 = vmm_host_pa2va p s" for p
    using u(4) [of p] m(4) m(9) [of p] by (auto simp: maps_range_def pa2va_lookup)
  ultimately show ?thesis using m(1) u(1,2) by blast
qed

section \<open>Examples\<close>

text \<open>A pool of sixteen pages, two of them in use, no mappings, and a table with four entries.\<close>

definition ex_host :: host_sys where
  "ex_host = \<lparr>hs_vapool = \<lparr>vapool_start = 0x10000, vapool_size = 0x10000, vapool_page_count = 16, vapool_ba = example_buddy\<rparr>,
     hs_mhash = snd (host_mhash_init 224), hs_mmu = ex_sys, hs_ram = example_ram 0 3\<rparr>"

lemma ex_host_sel [simp]:
  "vapool_ba (hs_vapool ex_host) = example_buddy" "hs_mhash ex_host = snd (host_mhash_init 224)" "hs_mmu ex_host = ex_sys"
  by (simp_all add: ex_host_def)

lemma ex_limit: "va_limit ex_cfg = 0x8000000000" "arch_mmu_start_level (modes ex_cfg) MMU_STAGE1 = 2"
  by (simp_all add: va_limit_def arch_mmu_start_level_def ex_cfg_def)

lemma ex_host_ok: "host_ok ex_cfg ex_host"
proof -
  have "vapool_ok (hs_vapool ex_host)" unfolding vapool_ok_def ex_host_sel by (simp add: example_wf, simp add: example_buddy_def ex_host_def)
  moreover have "hyp_ok ex_cfg ex_sys" using ex_cfg_ok ex_wf ex_root(2) by (simp add: hyp_ok_def)
  moreover have "mem_hi example_buddy \<le> va_limit ex_cfg" by (simp add: ex_limit mem_hi_def example_buddy_def)
  moreover have "hyp_page ex_cfg ex_sys x = Inl VMM_EFAIL" for x by (simp add: hyp_page_def mmu_get_hypervisor_page_def ex_unmapped)
  ultimately show ?thesis by (simp add: host_ok_def mhash_init_ok)
qed

lemma ex_can_map: "can_map ex_cfg 0x80200000 0x2000 3 ex_host"
proof -
  have "mh_root (snd (host_mhash_init 224)) = RB_NULL" "0 \<in> free_slots (snd (host_mhash_init 224))"
    by (simp_all add: host_mhash_init_def Let_def free_slots_def no_entry_def)
  then show ?thesis
    by (auto simp: can_map_def mhash_free_range_def ex_limit ex_root VMM_MEMORY_READABLE_def VMM_MEMORY_WRITEABLE_def VMM_MEMORY_EXECUTABLE_def)
qed

lemma ex_pool:
  obtains vp where "vmm_host_vapool_alloc 0x2000 (hs_vapool ex_host) = Some (Inr 0x12000, vp)" "vmm_host_vapool_find 0x12000 vp = Inr (0x12000, 0x2000)"
    "2 \<le> unat (hk_free_count (vapool_ba vp))"
proof -
  have "map_option (\<lambda>(r, vp). (r, vmm_host_vapool_find 0x12000 vp, 2 \<le> unat (hk_free_count (vapool_ba vp))))
      (vmm_host_vapool_alloc 0x2000 \<lparr>vapool_start = 0x10000, vapool_size = 0x10000, vapool_page_count = 16, vapool_ba = example_buddy\<rparr>) =
      Some (Inr 0x12000, Inr (0x12000, 0x2000), True)" by code_simp
  then show ?thesis using that by (auto simp: ex_host_def)
qed

lemma ex_round: "0x2000 = roundup2_order_size 0x1800 VMM_PAGE_SHIFT" "0x80200000 = (0x80200010 :: u64) AND NOT (order_mask VMM_PAGE_SHIFT)"
  "(0x80200010 :: u64) AND order_mask VMM_PAGE_SHIFT = 0x10"
  by (simp_all add: roundup2_order_size_def order_align_def order_mask_def)

theorem vmm_host_memmap_maps_witness:
  "\<exists>s'. vmm_host_memmap ex_cfg 0x80200010 0x1800 3 ex_host = Some (0x12010, s') \<and> host_ok ex_cfg s' \<and>
     vmm_host_va2pa ex_cfg 0x13004 s' = Some (Inr 0x80201004) \<and> vmm_host_pa2va 0x80201004 s' = Inr 0x13004"
proof -
  obtain vp where "vmm_host_vapool_alloc 0x2000 (hs_vapool ex_host) = Some (Inr 0x12000, vp)" by (rule ex_pool)
  then obtain s' where s': "vmm_host_memmap ex_cfg 0x80200010 0x1800 3 ex_host = Some (0x12000 + (0x80200010 AND order_mask VMM_PAGE_SHIFT), s')" "host_ok ex_cfg s'"
    "\<forall>x. unat x < va_limit ex_cfg \<longrightarrow> vmm_host_va2pa ex_cfg x s' =
      (if 0x12000 \<le> x \<and> x < 0x12000 + 0x2000 then Some (Inr (0x80200000 + (x - 0x12000))) else vmm_host_va2pa ex_cfg x ex_host)"
    "\<forall>p. vmm_host_pa2va p s' = (if 0x80200000 \<le> p \<and> p < 0x80200000 + 0x2000 then Inr (0x12000 + (p - 0x80200000)) else vmm_host_pa2va p ex_host)"
    using vmm_host_memmap_maps [OF ex_host_ok ex_can_map _ ex_round(1,2)] by blast
  have "vmm_host_va2pa ex_cfg 0x13004 s' = Some (Inr 0x80201004)" using s'(3) by (simp add: ex_limit)
  moreover have "vmm_host_pa2va 0x80201004 s' = Inr 0x13004" using s'(4) by simp
  moreover have "0x12000 + ((0x80200010::u64) AND order_mask VMM_PAGE_SHIFT) = 0x12010" by (simp only: ex_round(3)) simp
  ultimately show ?thesis using s'(1,2) by (simp only: simp_thms) blast
qed

theorem vmm_host_memunmap_undoes_witness:
  "\<exists>w s1 s2. vmm_host_memmap ex_cfg 0x80200010 0x1800 3 ex_host = Some (w, s1) \<and> vmm_host_memunmap ex_cfg w s1 = Some (VMM_OK, s2) \<and>
     vmm_host_pa2va 0x80201004 s2 = Inl VMM_ENOTAVAIL"
proof -
  obtain vp where vp: "vmm_host_vapool_alloc 0x2000 (hs_vapool ex_host) = Some (Inr 0x12000, vp)" "vmm_host_vapool_find 0x12000 vp = Inr (0x12000, 0x2000)"
    "2 \<le> unat (hk_free_count (vapool_ba vp))" by (rule ex_pool)
  have "vmm_host_pa2va 0x80201004 ex_host = Inl VMM_ENOTAVAIL" by (simp add: pa2va_lookup mhash_init_ok)
  then show ?thesis using vmm_host_memunmap_undoes [OF ex_host_ok ex_can_map vp(1) ex_round(1,2) vp(2,3)] by auto
qed

end
