(* ===== verification/Host_memory.thy ===== *)
theory Host_memory
  imports Host_memmap
begin

text \<open>
  Reading and writing physical memory of the host: \<^verbatim>\<open>arch_cpu_aspace_memory_read\<close> and \<^verbatim>\<open>arch_cpu_aspace_memory_write\<close> of
  \<^verbatim>\<open>arch/common/generic_mmu.c\<close>, which put the page into a page-table entry kept for this, and \<^verbatim>\<open>vmm_host_memory_read\<close>,
  \<^verbatim>\<open>vmm_host_memory_write\<close> and \<^verbatim>\<open>vmm_host_memory_set\<close> of \<^verbatim>\<open>core/vmm_host_aspace.c\<close> on top of them. The processor
  translates an access through the page tables, the entry just written included, since its translation has been flushed; an
  access that does not translate is \<^const>\<open>None\<close>. A word access of the code is the access to its bytes.
\<close>

section \<open>Model\<close>

type_synonym pmem = "u64 \<Rightarrow> u8"

text \<open>The entry of a host CPU: its address, its table and index, and the flags of cacheable and other pages.\<close>

record mem_rw =
  rw_va :: u64
  rw_tbl :: nat
  rw_idx :: nat
  rw_cache :: pgflags
  rw_nocache :: pgflags

definition VMM_MEMORY_CACHEABLE :: u32 where "VMM_MEMORY_CACHEABLE = 0x8"
definition VMM_MEMORY_BUFFERABLE :: u32 where "VMM_MEMORY_BUFFERABLE = 0x10"

definition VMM_MEMORY_FLAGS_NORMAL :: u32 where
  "VMM_MEMORY_FLAGS_NORMAL =
     VMM_MEMORY_READABLE OR VMM_MEMORY_WRITEABLE OR VMM_MEMORY_EXECUTABLE OR VMM_MEMORY_CACHEABLE OR VMM_MEMORY_BUFFERABLE"

definition VMM_MEMORY_FLAGS_NORMAL_NOCACHE :: u32 where
  "VMM_MEMORY_FLAGS_NORMAL_NOCACHE = VMM_MEMORY_READABLE OR VMM_MEMORY_WRITEABLE OR VMM_MEMORY_EXECUTABLE"

text \<open>Loads and stores of the processor, byte by byte.\<close>

fun load_bytes :: "mmu_cfg \<Rightarrow> mmu_sys \<Rightarrow> pmem \<Rightarrow> u64 \<Rightarrow> nat \<Rightarrow> u8 list option" where
  "load_bytes C s mem a 0 = Some []"
| "load_bytes C s mem a (Suc n) =
     (case arch_cpu_aspace_va2pa C a s of Some (Inr p) \<Rightarrow> map_option ((#) (mem p)) (load_bytes C s mem (a + 1) n) | _ \<Rightarrow> None)"

fun store_bytes :: "mmu_cfg \<Rightarrow> mmu_sys \<Rightarrow> u64 \<Rightarrow> u8 list \<Rightarrow> pmem \<Rightarrow> pmem option" where
  "store_bytes C s a [] mem = Some mem"
| "store_bytes C s a (b # bs) mem =
     (case arch_cpu_aspace_va2pa C a s of Some (Inr p) \<Rightarrow> store_bytes C s (a + 1) bs (mem(p := b)) | _ \<Rightarrow> None)"

definition set_pte :: "nat \<Rightarrow> nat \<Rightarrow> u64 \<Rightarrow> mmu_sys \<Rightarrow> mmu_sys" where
  "set_pte t i e s = upd_pgtbl t (\<lambda>x. x\<lparr>tbl := (tbl x)(i := e)\<rparr>) s"

definition VMM_PAGE_SIZE :: u64 where "VMM_PAGE_SIZE = order_size VMM_PAGE_SHIFT"

text \<open>The entry set to the page of \<open>pa\<close>, and its translation flushed.\<close>

definition open_window :: "mem_rw \<Rightarrow> u64 \<Rightarrow> bool \<Rightarrow> mmu_sys \<Rightarrow> mmu_sys" where
  "open_window w pa cacheable s =
     (let s1 = set_pte (rw_tbl w) (rw_idx w)
            (arch_mmu_pte_set MMU_STAGE1 (pt_level (pgtbls s (rw_tbl w))) pa (if cacheable then rw_cache w else rw_nocache w)) s
      in s1\<lparr>tlb_flushes := tlb_flushes s1 @ [(MMU_STAGE1, False, None, rw_va w, VMM_PAGE_SIZE)]\<rparr>)"

definition arch_cpu_aspace_memory_read ::
  "mmu_cfg \<Rightarrow> mem_rw \<Rightarrow> u64 \<Rightarrow> u32 \<Rightarrow> bool \<Rightarrow> pmem \<Rightarrow> mmu_sys \<Rightarrow> (int \<times> u8 list \<times> mmu_sys) option" where
  "arch_cpu_aspace_memory_read C w src len cacheable mem s =
     (let old = tbl (pgtbls s (rw_tbl w)) (rw_idx w); s1 = open_window w src cacheable s in
      map_option (\<lambda>bs. (VMM_OK, bs, set_pte (rw_tbl w) (rw_idx w) old s1))
        (load_bytes C s1 mem (rw_va w + (src AND VMM_PAGE_MASK)) (unat len)))"

definition arch_cpu_aspace_memory_write ::
  "mmu_cfg \<Rightarrow> mem_rw \<Rightarrow> u64 \<Rightarrow> u8 list \<Rightarrow> bool \<Rightarrow> pmem \<Rightarrow> mmu_sys \<Rightarrow> (int \<times> pmem \<times> mmu_sys) option" where
  "arch_cpu_aspace_memory_write C w dst bs cacheable mem s =
     (let old = tbl (pgtbls s (rw_tbl w)) (rw_idx w); s1 = open_window w dst cacheable s in
      map_option (\<lambda>mem'. (VMM_OK, mem', set_pte (rw_tbl w) (rw_idx w) old s1))
        (store_bytes C s1 (rw_va w + (dst AND VMM_PAGE_MASK)) bs mem))"

definition arch_cpu_aspace_memory_rwinit :: "mmu_cfg \<Rightarrow> u64 \<Rightarrow> mmu_sys \<Rightarrow> ((int + mem_rw) \<times> mmu_sys) option" where
  "arch_cpu_aspace_memory_rwinit C tmp_va s = do {
     (rc, s1) \<leftarrow> mmu_map_hypervisor_page C
       \<lparr>page_ia = tmp_va, page_oa = 0, page_sz = VMM_PAGE_SIZE, page_flags = arch_mmu_pgflags_set MMU_STAGE1 VMM_MEMORY_FLAGS_NORMAL\<rparr> s;
     if rc \<noteq> VMM_OK then Some (Inl rc, s1)
     else do {
       r \<leftarrow> mmu_find_pte C (hyp_pgtbl C) tmp_va s1;
       (case r of
          Inl rc \<Rightarrow> Some (Inl rc, s1)
        | Inr (t, i) \<Rightarrow> Some (Inr \<lparr>rw_va = tmp_va, rw_tbl = t, rw_idx = i, rw_cache = arch_mmu_pgflags_set MMU_STAGE1 VMM_MEMORY_FLAGS_NORMAL,
            rw_nocache = arch_mmu_pgflags_set MMU_STAGE1 VMM_MEMORY_FLAGS_NORMAL_NOCACHE\<rparr>, s1)) } }"

text \<open>The bytes of the page of \<open>hpa\<close> that the next round of a loop copies.\<close>

definition page_part :: "u64 \<Rightarrow> u32 \<Rightarrow> u32" where
  "page_part hpa left =
     (let n = ucast VMM_PAGE_SIZE - ucast (hpa AND VMM_PAGE_MASK) in if n < left then n else left)"

partial_function (option) memory_read_loop ::
  "mmu_cfg \<Rightarrow> mem_rw \<Rightarrow> u64 \<Rightarrow> u32 \<Rightarrow> u32 \<Rightarrow> bool \<Rightarrow> pmem \<Rightarrow> mmu_sys \<Rightarrow> (u32 \<times> u8 list \<times> mmu_sys) option" where
  "memory_read_loop C w hpa bytes_read len cacheable mem s =
     (if \<not> bytes_read < len then Some (bytes_read, [], s)
      else let n = page_part hpa (len - bytes_read) in
        case arch_cpu_aspace_memory_read C w hpa n cacheable mem s of
          None \<Rightarrow> None
        | Some (rc, bs, s1) \<Rightarrow>
            if rc \<noteq> VMM_OK then Some (bytes_read, [], s1)
            else Option.bind (memory_read_loop C w (hpa + ucast n) (bytes_read + n) len cacheable mem s1) (\<lambda>(r, rest, s2). Some (r, bs @ rest, s2)))"

definition vmm_host_memory_read :: "mmu_cfg \<Rightarrow> mem_rw \<Rightarrow> u64 \<Rightarrow> u32 \<Rightarrow> bool \<Rightarrow> pmem \<Rightarrow> mmu_sys \<Rightarrow> (u32 \<times> u8 list \<times> mmu_sys) option" where
  "vmm_host_memory_read C w hpa len cacheable mem s = memory_read_loop C w hpa 0 len cacheable mem s"

text \<open>\<open>src\<close> holds what is still to be written.\<close>

partial_function (option) memory_write_loop ::
  "mmu_cfg \<Rightarrow> mem_rw \<Rightarrow> u64 \<Rightarrow> u8 list \<Rightarrow> u32 \<Rightarrow> u32 \<Rightarrow> bool \<Rightarrow> pmem \<Rightarrow> mmu_sys \<Rightarrow> (u32 \<times> pmem \<times> mmu_sys) option" where
  "memory_write_loop C w hpa src bytes_written len cacheable mem s =
     (if \<not> bytes_written < len then Some (bytes_written, mem, s)
      else let n = page_part hpa (len - bytes_written) in
        case arch_cpu_aspace_memory_write C w hpa (take (unat n) src) cacheable mem s of
          None \<Rightarrow> None
        | Some (rc, mem1, s1) \<Rightarrow>
            if rc \<noteq> VMM_OK then Some (bytes_written, mem1, s1)
            else memory_write_loop C w (hpa + ucast n) (drop (unat n) src) (bytes_written + n) len cacheable mem1 s1)"

definition vmm_host_memory_write ::
  "mmu_cfg \<Rightarrow> mem_rw \<Rightarrow> u64 \<Rightarrow> u8 list \<Rightarrow> u32 \<Rightarrow> bool \<Rightarrow> pmem \<Rightarrow> mmu_sys \<Rightarrow> (u32 \<times> pmem \<times> mmu_sys) option" where
  "vmm_host_memory_write C w hpa src len cacheable mem s = memory_write_loop C w hpa src 0 len cacheable mem s"

partial_function (option) memory_set_loop ::
  "mmu_cfg \<Rightarrow> mem_rw \<Rightarrow> u64 \<Rightarrow> u64 \<Rightarrow> u8 \<Rightarrow> u32 \<Rightarrow> bool \<Rightarrow> pmem \<Rightarrow> mmu_sys \<Rightarrow> (u32 \<times> pmem \<times> mmu_sys) option" where
  "memory_set_loop C w pos end_pos byte total_written cacheable mem s =
     (if \<not> pos < end_pos then Some (total_written, mem, s)
      else let to_wr = (if 256 < end_pos - pos then 256 else ucast (end_pos - pos)) in
        case vmm_host_memory_write C w pos (replicate 256 byte) to_wr cacheable mem s of
          None \<Rightarrow> None
        | Some (wr, mem1, s1) \<Rightarrow>
            if wr < to_wr then Some (total_written + to_wr, mem1, s1)
            else memory_set_loop C w (pos + ucast to_wr) end_pos byte (total_written + to_wr) cacheable mem1 s1)"

definition vmm_host_memory_set ::
  "mmu_cfg \<Rightarrow> mem_rw \<Rightarrow> u64 \<Rightarrow> u8 \<Rightarrow> u32 \<Rightarrow> bool \<Rightarrow> pmem \<Rightarrow> mmu_sys \<Rightarrow> (u32 \<times> pmem \<times> mmu_sys) option" where
  "vmm_host_memory_set C w hpa byte len cacheable mem s = memory_set_loop C w hpa (hpa + ucast len) byte 0 cacheable mem s"

section \<open>The window\<close>

text \<open>The entry is the one of the window's address in a table of 4 KiB pages, and holds a page.\<close>

definition rw_ok :: "mmu_cfg \<Rightarrow> mem_rw \<Rightarrow> mmu_sys \<Rightarrow> bool" where
  "rw_ok C w s \<longleftrightarrow> hyp_ok C s \<and> reaches C s (rw_va w) (hyp_pgtbl C) (rw_tbl w) \<and> pt_level (pgtbls s (rw_tbl w)) = 0 \<and>
     rw_idx w = tbl_index C (rw_va w) (pgtbls s (rw_tbl w)) \<and> 4096 dvd unat (rw_va w) \<and>
     arch_mmu_pte_is_valid (tbl (pgtbls s (rw_tbl w)) (rw_idx w)) \<and> \<not> arch_mmu_pte_is_table (tbl (pgtbls s (rw_tbl w)) (rw_idx w)) \<and>
     accessible (rw_cache w) \<and> accessible (rw_nocache w)"

lemma split_4k: "(x::u64) = (x AND NOT 0xfff) + (x AND 0xfff)"
proof -
  have "(x AND NOT 0xfff) + (x AND 0xfff) = (x AND NOT 0xfff) OR (x AND 0xfff)"
    by (rule disjunctive_add_eq_or) (simp add: bit_eq_iff bit_simps)
  also have "\<dots> = x" by (simp add: bit_eq_iff bit_simps) blast
  finally show ?thesis by simp
qed

lemma page_offset:
  assumes "4096 dvd unat (v::u64)" "k < 4096"
  shows "(v + of_nat k) AND 0xfff = of_nat k" "(v + of_nat k) AND NOT 0xfff = v" "unat (v + of_nat k) = unat v + k"
proof -
  obtain j where j: "unat v = j * 4096" using assms(1) by (metis dvd_def mult.commute)
  have "unat v < 2 ^ 64" using unsigned_less [of v] by simp
  then have "j * 4096 < 2 ^ 64" by (simp only: j)
  then have "j < 2 ^ 52" by simp
  then have lt: "unat v + k < 2 ^ 64" using j assms(2) by simp
  then show u: "unat (v + of_nat k) = unat v + k" using unat_add_small [of v "of_nat k"] assms(2) by (simp add: unat_of_nat)
  then show o: "(v + of_nat k) AND 0xfff = of_nat k" using low_12_bits [of "v + of_nat k"] j assms(2) by simp
  show "(v + of_nat k) AND NOT 0xfff = v" using split_4k [of "v + of_nat k"] o by (metis add_right_cancel)
qed

lemma window_entry:
  assumes rw: "rw_ok C w s"
  defines "fl \<equiv> (\<lambda>cacheable. if cacheable then rw_cache w else rw_nocache w)"
  shows "entry_written (rw_tbl w) (rw_idx w) (arch_mmu_pte_set MMU_STAGE1 0 pa (fl c)) s (open_window w pa c s)"
    "arch_mmu_pte_is_valid (arch_mmu_pte_set MMU_STAGE1 0 pa (fl c))"
proof -
  let ?q = "rw_tbl w" and ?i = "rw_idx w" and ?e = "arch_mmu_pte_set MMU_STAGE1 0 pa (fl c)"
  have k: "hyp_ok C s" "reaches C s (rw_va w) (hyp_pgtbl C) ?q" "pt_level (pgtbls s ?q) = 0" "?i = tbl_index C (rw_va w) (pgtbls s ?q)"
    "arch_mmu_pte_is_valid (tbl (pgtbls s ?q) ?i)" "\<not> arch_mmu_pte_is_table (tbl (pgtbls s ?q) ?i)" "accessible (fl c)"
    using rw unfolding rw_ok_def fl_def by (blast, blast, blast, blast, blast, blast, simp)
  note h = hyp_ok_props [OF k(1)]
  have q: "live s ?q" using reaches_props [OF h(1,2) k(2) h(3)] by simp
  show v: "arch_mmu_pte_is_valid ?e" using k(7) by (auto simp: accessible_def)
  have nt: "\<not> arch_mmu_pte_is_table ?e" using k(7) by (auto simp: accessible_def)
  have w: "pte_cnt (pgtbls s ?q) = of_nat (card (valid_entries (pgtbls s ?q)))" using mmu_wfD(3) [OF h(2)] q by (simp add: count_wf_def)
  have "valid_entries (pgtbls (open_window w pa c s) ?q) = valid_entries (pgtbls s ?q)"
    using v k(5) k(3) by (auto simp: open_window_def set_pte_def upd_pgtbl_def valid_entries_def Let_def fl_def split: if_splits)
  moreover have o: "pgtbls (open_window w pa c s) = (pgtbls s)(?q := (pgtbls s ?q)\<lparr>tbl := (tbl (pgtbls s ?q))(?i := ?e)\<rparr>)"
    using k(3) by (simp add: open_window_def set_pte_def upd_pgtbl_def Let_def fl_def)
  moreover have "\<exists>n. (pgtbls s ?q)\<lparr>tbl := x\<rparr> = (pgtbls s ?q)\<lparr>tbl := x, pte_cnt := n\<rparr>" for x
    by (rule exI [of _ "pte_cnt (pgtbls s ?q)"]) simp
  moreover have "nonpool_tree (open_window w pa c s) = nonpool_tree s" "pool_free_list (open_window w pa c s) = pool_free_list s"
    "next_tbl (open_window w pa c s) = next_tbl s" by (simp_all add: open_window_def set_pte_def upd_pgtbl_def Let_def)
  moreover have "?i < 2048" using tbl_index_less [OF h(2) q, of "rw_va w"] k(4) by simp
  ultimately show "entry_written ?q ?i ?e s (open_window w pa c s)" unfolding entry_written_def using w k(6) nt by simp
qed

lemma window_translates:
  assumes rw: "rw_ok C w s" and pa: "unat pa < 2 ^ 56" and k: "n < 4096"
  shows "arch_cpu_aspace_va2pa C (rw_va w + of_nat n) (open_window w pa c s) = Some (Inr ((pa AND NOT 0xfff) + of_nat n))"
proof -
  let ?q = "rw_tbl w" and ?a = "rw_va w + of_nat n" and ?f = "if c then rw_cache w else rw_nocache w"
  have r: "hyp_ok C s" "reaches C s (rw_va w) (hyp_pgtbl C) ?q" "pt_level (pgtbls s ?q) = 0" "rw_idx w = tbl_index C (rw_va w) (pgtbls s ?q)"
    "4096 dvd unat (rw_va w)" using rw by (simp_all add: rw_ok_def)
  note h = hyp_ok_props [OF r(1)] and off = page_offset [OF r(5) k]
  note qp = reaches_props [OF h(1,2) r(2) h(3)]
  have st: "pt_stage (pgtbls s (hyp_pgtbl C)) = MMU_STAGE1" using r(1) by (simp add: hyp_ok_def)
  have m: "?a AND arch_mmu_level_map_mask MMU_STAGE1 0 = rw_va w" using off(2) by (simp add: arch_mmu_level_map_mask_def)
  have "same_indices C MMU_STAGE1 0 (pt_level (pgtbls s (hyp_pgtbl C))) (rw_va w) ?a"
    using masked_same_indices [OF live_level [OF h(2,3)], of C MMU_STAGE1 0 ?a ?a] unfolding m by (simp add: same_indices_def)
  then have hit: "reaches C s ?a (hyp_pgtbl C) ?q" "tbl_index C ?a (pgtbls s ?q) = rw_idx w"
    using reaches_iff [OF h(1-3) r(2), of ?a] r(3,4) st by simp_all
  note ew = window_entry [OF rw, of pa c]
  let ?pg = "\<lparr>page_ia = rw_va w, page_oa = pa, page_sz = 0x1000, page_flags = ?f\<rparr>"
  have pe: "arch_mmu_pte_set MMU_STAGE1 0 pa ?f = page_entry (pgtbls s ?q) ?pg" using qp st r(3) by (simp add: page_entry_def)
  have "entry_page (pgtbls s ?q) ?a (page_entry (pgtbls s ?q) ?pg) = page_seen ?pg ?a"
    by (rule entry_page_seen) (use pa r(3) in \<open>simp_all add: arch_mmu_level_block_size_def\<close>)
  then have "mmu_get_page C (hyp_pgtbl C) ?a (open_window w pa c s) = Some (Inr (page_seen ?pg ?a))"
    using entry_written_hit [OF h(1,2) ew(1) h(3) hit] ew(2) pe by simp
  then show ?thesis using off(1) by (simp add: arch_cpu_aspace_va2pa_def mmu_get_hypervisor_page_def page_seen_def)
qed

lemma close_window:
  "set_pte (rw_tbl w) (rw_idx w) (tbl (pgtbls s (rw_tbl w)) (rw_idx w)) (open_window w pa c s) =
    s\<lparr>tlb_flushes := tlb_flushes s @ [(MMU_STAGE1, False, None, rw_va w, VMM_PAGE_SIZE)]\<rparr>"
  by (cases s) (simp add: open_window_def set_pte_def upd_pgtbl_def Let_def)

section \<open>One page\<close>

definition get_bytes :: "u64 \<Rightarrow> nat \<Rightarrow> pmem \<Rightarrow> u8 list" where
  "get_bytes a n mem = map (\<lambda>j. mem (a + of_nat j)) [0..<n]"

fun put_bytes :: "u64 \<Rightarrow> u8 list \<Rightarrow> pmem \<Rightarrow> pmem" where
  "put_bytes a [] mem = mem"
| "put_bytes a (b # bs) mem = put_bytes (a + 1) bs (mem(a := b))"

lemma get_bytes_Suc: "get_bytes a (Suc n) mem = mem a # get_bytes (a + 1) n mem"
  unfolding get_bytes_def upt_conv_Cons [of 0 "Suc n", OF zero_less_Suc] by (simp add: map_Suc_upt [symmetric] comp_def add.assoc del: upt_Suc)

lemma get_bytes_add: "get_bytes a (m + n) mem = get_bytes a m mem @ get_bytes (a + of_nat m) n mem"
  by (induction m arbitrary: a) (simp_all add: get_bytes_Suc add.assoc, simp add: get_bytes_def)

lemma put_bytes_append: "put_bytes a (bs @ cs) mem = put_bytes (a + of_nat (length bs)) cs (put_bytes a bs mem)"
  by (induction bs arbitrary: a mem) (simp_all add: add.assoc)

lemma load_window:
  assumes "rw_ok C w s" "unat pa < 2 ^ 56"
  shows "k + n \<le> 4096 \<Longrightarrow>
    load_bytes C (open_window w pa c s) mem (rw_va w + of_nat k) n = Some (get_bytes ((pa AND NOT 0xfff) + of_nat k) n mem)"
proof (induction n arbitrary: k)
  case 0
  then show ?case by (simp add: get_bytes_def)
next
  case (Suc n)
  show ?case using Suc.IH [of "Suc k"] Suc.prems window_translates [OF assms, of k c] by (simp add: get_bytes_Suc add_ac)
qed

lemma store_window:
  assumes "rw_ok C w s" "unat pa < 2 ^ 56"
  shows "k + length bs \<le> 4096 \<Longrightarrow>
    store_bytes C (open_window w pa c s) (rw_va w + of_nat k) bs mem = Some (put_bytes ((pa AND NOT 0xfff) + of_nat k) bs mem)"
proof (induction bs arbitrary: k mem)
  case (Cons b bs)
  show ?case using Cons.IH [of "Suc k"] Cons.prems window_translates [OF assms, of k c] by (simp add: add_ac)
qed simp

definition flushed :: "mem_rw \<Rightarrow> mmu_sys \<Rightarrow> mmu_sys" where
  "flushed w s = s\<lparr>tlb_flushes := tlb_flushes s @ [(MMU_STAGE1, False, None, rw_va w, VMM_PAGE_SIZE)]\<rparr>"

lemma reaches_cong:
  assumes "\<And>t. page_step C t ia s' = page_step C t ia s"
  shows "reaches C s ia t q \<Longrightarrow> reaches C s' ia t q"
  by (induction rule: reaches.induct) (auto simp: assms intro: reaches.intros)

lemma flushed_ok: "rw_ok C w s \<Longrightarrow> rw_ok C w (flushed w' s)"
proof -
  assume rw: "rw_ok C w s"
  have e: "pgtbls (flushed w' s) = pgtbls s" by (simp add: flushed_def)
  note c = wf_pgtbls_cong [of "flushed w' s" s, OF e, unfolded flushed_def, simplified, folded flushed_def]
  have "reaches C (flushed w' s) ia t q" if "reaches C s ia t q" for ia t q by (rule reaches_cong [OF _ that]) (simp add: c)
  then show ?thesis using rw unfolding rw_ok_def hyp_ok_def e c(1) by blast
qed

lemma offset_part: "unat (hpa AND VMM_PAGE_MASK) = unat hpa mod 4096" "hpa AND VMM_PAGE_MASK = of_nat (unat hpa mod 4096)"
  "(hpa AND NOT 0xfff) + of_nat (unat hpa mod 4096) = hpa"
proof -
  show e: "hpa AND VMM_PAGE_MASK = of_nat (unat hpa mod 4096)" using low_12_bits [of hpa] by (simp add: VMM_PAGE_MASK_def order_mask_def)
  show "unat (hpa AND VMM_PAGE_MASK) = unat hpa mod 4096" unfolding e by (simp add: unat_of_nat)
  show "(hpa AND NOT 0xfff) + of_nat (unat hpa mod 4096) = hpa" using split_4k [of hpa] low_12_bits [of hpa] by simp
qed

lemma page_read:
  assumes "rw_ok C w s" "unat hpa < 2 ^ 56" "unat hpa mod 4096 + unat n \<le> 4096"
  shows "arch_cpu_aspace_memory_read C w hpa n c mem s = Some (VMM_OK, get_bytes hpa (unat n) mem, flushed w s)"
  using load_window [OF assms, of c mem] close_window [of w s hpa c]
  unfolding arch_cpu_aspace_memory_read_def Let_def offset_part by (simp add: flushed_def)

lemma page_write:
  assumes "rw_ok C w s" "unat hpa < 2 ^ 56" "unat hpa mod 4096 + length bs \<le> 4096"
  shows "arch_cpu_aspace_memory_write C w hpa bs c mem s = Some (VMM_OK, put_bytes hpa bs mem, flushed w s)"
  using store_window [OF assms, of c mem] close_window [of w s hpa c]
  unfolding arch_cpu_aspace_memory_write_def Let_def offset_part by (simp add: flushed_def)

lemma page_part_bounds:
  assumes "0 < unat left"
  shows "unat (page_part hpa left) \<le> unat left" "0 < unat (page_part hpa left)" "unat hpa mod 4096 + unat (page_part hpa left) \<le> 4096"
proof -
  let ?o = "unat hpa mod 4096"
  have o: "unat (ucast (hpa AND VMM_PAGE_MASK) :: u32) = ?o" using offset_part(1) [of hpa] by (simp add: unsigned_ucast_eq take_bit_nat_eq_self)
  have s: "unat (ucast VMM_PAGE_SIZE :: u32) = 4096" by (simp add: VMM_PAGE_SIZE_def)
  have "unat (ucast VMM_PAGE_SIZE - ucast (hpa AND VMM_PAGE_MASK) :: u32) = 4096 - ?o"
    using o s by (simp add: unat_sub word_le_nat_alt)
  then show "unat (page_part hpa left) \<le> unat left" "0 < unat (page_part hpa left)" "?o + unat (page_part hpa left) \<le> 4096"
    using assms by (auto simp: page_part_def Let_def word_less_nat_alt)
qed

section \<open>Ranges\<close>

text \<open>The page tables are as before; only flushes are recorded.\<close>

definition same_tables :: "mmu_sys \<Rightarrow> mmu_sys \<Rightarrow> bool" where
  "same_tables s s' \<longleftrightarrow> (\<exists>f. s' = s\<lparr>tlb_flushes := f\<rparr>)"

lemma same_tables_refl: "same_tables s s"
  by (simp add: same_tables_def) (metis mmu_sys.surjective mmu_sys.update_convs)

lemma same_tables_flushed: "same_tables (flushed w s) s' \<Longrightarrow> same_tables s s'"
  by (auto simp: same_tables_def flushed_def)

lemma next_part:
  fixes hpa :: u64 and d len n :: u32
  assumes "d < len" "unat n \<le> unat (len - d)" "unat hpa + unat (len - d) \<le> 2 ^ 56"
  shows "d + n \<le> len" "unat (len - (d + n)) = unat (len - d) - unat n" "unat (hpa + ucast n) = unat hpa + unat n"
    "unat (hpa + ucast n) + unat (len - (d + n)) \<le> 2 ^ 56"
proof -
  have le: "unat d \<le> unat len" "unat (len - d) = unat len - unat d" using assms(1) by (simp_all add: word_less_nat_alt unat_sub word_le_nat_alt)
  have "unat len < 2 ^ 32" using unsigned_less [of len] by simp
  then have "unat d + unat n < 2 ^ 32" using assms(2) le by linarith
  then have s: "unat (d + n) = unat d + unat n" by (simp add: unat_word_ariths(1))
  show i: "d + n \<le> len" using s assms(2) le by (simp add: word_le_nat_alt)
  then show e: "unat (len - (d + n)) = unat (len - d) - unat n" using s le by (simp add: unat_sub word_le_nat_alt)
  have "unat (ucast n :: u64) = unat n" by (simp add: unsigned_ucast_eq take_bit_nat_eq_self)
  then show h: "unat (hpa + ucast n) = unat hpa + unat n" using unat_add_small [of hpa "ucast n"] assms(2,3) by simp
  show "unat (hpa + ucast n) + unat (len - (d + n)) \<le> 2 ^ 56" using h e assms(2,3) by simp
qed

lemma memory_read_all:
  "rw_ok C w s \<Longrightarrow> d \<le> len \<Longrightarrow> unat hpa + unat (len - d) \<le> 2 ^ 56 \<Longrightarrow>
    \<exists>s'. memory_read_loop C w hpa d len c mem s = Some (len, get_bytes hpa (unat (len - d)) mem, s') \<and> rw_ok C w s' \<and> same_tables s s'"
proof (induction "unat (len - d)" arbitrary: d hpa s rule: less_induct)
  case less
  show ?case
  proof (cases "d < len")
    case False
    then have "d = len" using less.prems(2) by simp
    then show ?thesis using less.prems(1) same_tables_refl by (subst memory_read_loop.simps) (simp add: get_bytes_def)
  next
    case True
    let ?n = "page_part hpa (len - d)"
    have l: "0 < unat (len - d)" using True by (simp add: unat_sub word_less_nat_alt word_le_nat_alt)
    note pp = page_part_bounds [OF l, of hpa]
    note nx = next_part [OF True pp(1) less.prems(3)]
    have sm: "unat (len - (d + ?n)) < unat (len - d)" using nx(2) pp(2) l by simp
    have lt: "unat hpa < 2 ^ 56" using l less.prems(3) by linarith
    note pr = page_read [OF less.prems(1) lt pp(3), of c mem]
    obtain s' where s': "memory_read_loop C w (hpa + ucast ?n) (d + ?n) len c mem (flushed w s) =
        Some (len, get_bytes (hpa + ucast ?n) (unat (len - (d + ?n))) mem, s')" "rw_ok C w s'" "same_tables (flushed w s) s'"
      using less.hyps [OF sm flushed_ok [OF less.prems(1)] nx(1,4)] by blast
    have "get_bytes hpa (unat (len - d)) mem = get_bytes hpa (unat ?n) mem @ get_bytes (hpa + ucast ?n) (unat (len - (d + ?n))) mem"
      using get_bytes_add [of hpa "unat ?n" "unat (len - (d + ?n))" mem] nx(2) pp(1) by simp
    then show ?thesis using True pr s' same_tables_flushed by (subst memory_read_loop.simps) (auto simp: Let_def)
  qed
qed

lemma memory_write_all:
  "rw_ok C w s \<Longrightarrow> d \<le> len \<Longrightarrow> unat hpa + unat (len - d) \<le> 2 ^ 56 \<Longrightarrow> unat (len - d) \<le> length src \<Longrightarrow>
    \<exists>s'. memory_write_loop C w hpa src d len c mem s = Some (len, put_bytes hpa (take (unat (len - d)) src) mem, s') \<and> rw_ok C w s' \<and> same_tables s s'"
proof (induction "unat (len - d)" arbitrary: d hpa s src mem rule: less_induct)
  case less
  show ?case
  proof (cases "d < len")
    case False
    then have "d = len" using less.prems(2) by simp
    then show ?thesis using less.prems(1) same_tables_refl by (subst memory_write_loop.simps) simp
  next
    case True
    let ?n = "page_part hpa (len - d)"
    have l: "0 < unat (len - d)" using True by (simp add: unat_sub word_less_nat_alt word_le_nat_alt)
    note pp = page_part_bounds [OF l, of hpa]
    note nx = next_part [OF True pp(1) less.prems(3)]
    have sm: "unat (len - (d + ?n)) < unat (len - d)" using nx(2) pp(2) l by simp
    have lt: "unat hpa < 2 ^ 56" using l less.prems(3) by linarith
    have tl: "length (take (unat ?n) src) = unat ?n" using pp(1) less.prems(4) by simp
    have pw: "arch_cpu_aspace_memory_write C w hpa (take (unat ?n) src) c mem s = Some (VMM_OK, put_bytes hpa (take (unat ?n) src) mem, flushed w s)"
      by (rule page_write [OF less.prems(1) lt]) (use tl pp(3) in simp)
    obtain s' where s': "memory_write_loop C w (hpa + ucast ?n) (drop (unat ?n) src) (d + ?n) len c (put_bytes hpa (take (unat ?n) src) mem) (flushed w s) =
        Some (len, put_bytes (hpa + ucast ?n) (take (unat (len - (d + ?n))) (drop (unat ?n) src)) (put_bytes hpa (take (unat ?n) src) mem), s')"
        "rw_ok C w s'" "same_tables (flushed w s) s'"
      using less.hyps [OF sm flushed_ok [OF less.prems(1)] nx(1,4), of "drop (unat ?n) src"] nx(2) less.prems(4) by fastforce
    have "take (unat (len - d)) src = take (unat ?n) src @ take (unat (len - (d + ?n))) (drop (unat ?n) src)"
      using nx(2) pp(1) take_add [of "unat ?n" "unat (len - d) - unat ?n" src] by simp
    then have "put_bytes hpa (take (unat (len - d)) src) mem =
        put_bytes (hpa + ucast ?n) (take (unat (len - (d + ?n))) (drop (unat ?n) src)) (put_bytes hpa (take (unat ?n) src) mem)"
      using tl by (simp add: put_bytes_append)
    then show ?thesis using True pw s' same_tables_flushed by (subst memory_write_loop.simps) (auto simp: Let_def)
  qed
qed

lemma put_bytes_at:
  "unat a + length bs \<le> 2 ^ 64 \<Longrightarrow> put_bytes a bs mem x = (if unat a \<le> unat x \<and> unat x < unat a + length bs then bs ! (unat x - unat a) else mem x)"
proof (induction bs arbitrary: a mem)
  case (Cons b bs)
  show ?case
  proof (cases "bs = []")
    case True
    then show ?thesis by (auto simp: word_unat_eq_iff)
  next
    case False
    then have n: "unat (a + 1) = Suc (unat a)" using Cons.prems unat_add_small [of a 1] by (cases bs) simp_all
    have u: "x = a \<longleftrightarrow> unat x = unat a" by (rule word_unat_eq_iff)
    have le: "unat (a + 1) + length bs \<le> 2 ^ 64" using Cons.prems n by simp
    show ?thesis unfolding put_bytes.simps Cons.IH [OF le] using u n by (auto simp: nth_Cons')
  qed
qed auto

lemma memory_set_all:
  "rw_ok C w s \<Longrightarrow> pos \<le> fin \<Longrightarrow> unat fin \<le> 2 ^ 56 \<Longrightarrow>
    \<exists>s'. memory_set_loop C w pos fin byte tot c mem s = Some (tot + of_nat (unat (fin - pos)), put_bytes pos (replicate (unat (fin - pos)) byte) mem, s') \<and>
      rw_ok C w s' \<and> same_tables s s'"
proof (induction "unat (fin - pos)" arbitrary: pos tot mem s rule: less_induct)
  case less
  show ?case
  proof (cases "pos < fin")
    case False
    then have "pos = fin" using less.prems(2) by simp
    then show ?thesis using less.prems(1) same_tables_refl by (subst memory_set_loop.simps) simp
  next
    case True
    let ?n = "if 256 < fin - pos then 256 else ucast (fin - pos) :: u32"
    have d: "unat (fin - pos) = unat fin - unat pos" "unat pos < unat fin" using True by (simp_all add: unat_sub word_less_nat_alt word_le_nat_alt)
    have n: "unat ?n = min 256 (unat (fin - pos))" by (auto simp: word_less_nat_alt unsigned_ucast_eq take_bit_nat_eq_self)
    have w: "unat (pos + ucast ?n) = unat pos + unat ?n"
    proof -
      have "unat (ucast ?n :: u64) = unat ?n" by (simp only: unsigned_ucast_eq) (simp add: take_bit_nat_eq_self n)
      then show ?thesis using unat_add_small [of pos "ucast ?n"] n d less.prems(3) by simp
    qed
    have dn: "unat (fin - (pos + ucast ?n)) = unat (fin - pos) - unat ?n" "pos + ucast ?n \<le> fin"
      using w n d by (simp_all add: unat_sub word_le_nat_alt)
    have "unat pos + unat (?n - 0) \<le> 2 ^ 56" "unat (?n - 0) \<le> length (replicate 256 byte)" using n d less.prems(3) by simp_all
    from memory_write_all [OF less.prems(1) word_zero_le this, of c mem] obtain s1 where s1:
      "memory_write_loop C w pos (replicate 256 byte) 0 ?n c mem s = Some (?n, put_bytes pos (replicate (unat ?n) byte) mem, s1)"
      "rw_ok C w s1" "same_tables s s1" using n by (auto simp: min_def)
    have "0 < unat ?n" "0 < unat (fin - pos)" using n d by simp_all
    then have lt: "unat (fin - (pos + ucast ?n)) < unat (fin - pos)" using dn(1) by linarith
    obtain s' where s': "memory_set_loop C w (pos + ucast ?n) fin byte (tot + ?n) c (put_bytes pos (replicate (unat ?n) byte) mem) s1 =
        Some (tot + ?n + of_nat (unat (fin - (pos + ucast ?n))), put_bytes (pos + ucast ?n) (replicate (unat (fin - (pos + ucast ?n))) byte)
          (put_bytes pos (replicate (unat ?n) byte) mem), s')" "rw_ok C w s'" "same_tables s1 s'"
      using less.hyps [OF lt s1(2) dn(2) less.prems(3)] by blast
    have e: "unat (fin - pos) = unat ?n + unat (fin - (pos + ucast ?n))" using dn(1) n by simp
    have "tot + ?n + of_nat (unat (fin - (pos + ucast ?n))) = tot + of_nat (unat (fin - pos))"
      unfolding e by (simp add: add.assoc)
    moreover have "put_bytes pos (replicate (unat (fin - pos)) byte) mem = put_bytes (pos + ucast ?n) (replicate (unat (fin - (pos + ucast ?n))) byte)
          (put_bytes pos (replicate (unat ?n) byte) mem)"
      unfolding e replicate_add put_bytes_append by simp
    moreover have "same_tables s s'" using s1(3) s'(3) by (auto simp: same_tables_def)
    ultimately show ?thesis using True s1(1) s'(1,2) by (subst memory_set_loop.simps) (simp add: Let_def vmm_host_memory_write_def)
  qed
qed

section \<open>Initialisation\<close>

lemma find_pte_spec:
  assumes C: "cfg_ok C" and wf: "mmu_wf C s"
  shows "live s t \<Longrightarrow> mmu_find_pte C t ia s = Some (Inr (q, i)) \<Longrightarrow>
    reaches C s ia t q \<and> i = tbl_index C ia (pgtbls s q) \<and> arch_mmu_pte_is_valid (tbl (pgtbls s q) i) \<and> \<not> arch_mmu_pte_is_table (tbl (pgtbls s q) i)"
proof (induction "pt_level (pgtbls s t)" arbitrary: t rule: less_induct)
  case less
  show ?case
  proof (cases rule: step_cases [OF C wf less.prems(1), where ia = ia])
    case 1
    then show ?thesis using less.prems(2) by (subst (asm) mmu_find_pte.simps) (simp add: Let_def split: if_splits)
  next
    case (2 e)
    then show ?thesis using less.prems(2) reaches.here by (subst (asm) mmu_find_pte.simps) (auto simp: Let_def split: if_splits)
  next
    case (3 c)
    then have "child_at C t ia s = Some c" "arch_mmu_pte_is_table (tbl (pgtbls s t) (tbl_index C ia (pgtbls s t)))"
      using 3(3) by (auto simp: page_step_def Let_def split: if_splits option.splits)
    then have "mmu_find_pte C c ia s = Some (Inr (q, i))"
      using less.prems(2) 3(4) by (subst (asm) mmu_find_pte.simps) (auto simp: Let_def split: if_splits)
    moreover have "live s c" using live_step [OF C wf less.prems(1) 3(3)] .
    ultimately show ?thesis using less.hyps [of c] 3(4) reaches.down [OF 3(3)] by auto
  qed
qed

text \<open>The entry of an address that has a page of 4 KiB serves as a window.\<close>

lemma entry_rw_ok:
  assumes ok: "hyp_ok C s" and al: "4096 dvd unat va" and pg: "hyp_page C s va = Inr p" "page_sz p = 0x1000"
    and r: "reaches C s va (hyp_pgtbl C) q" "i = tbl_index C va (pgtbls s q)" "arch_mmu_pte_is_valid (tbl (pgtbls s q) i)"
      "\<not> arch_mmu_pte_is_table (tbl (pgtbls s q) i)" and ac: "accessible fl" "accessible nc"
  shows "rw_ok C \<lparr>rw_va = va, rw_tbl = q, rw_idx = i, rw_cache = fl, rw_nocache = nc\<rparr> s"
proof -
  note h = hyp_ok_props [OF ok]
  note qp = reaches_props [OF h(1,2) r(1) h(3)]
  have "mmu_get_page C q va s = Some (Inr p)"
    using get_hyp_page [OF ok, of va] pg(1) reaches_get_page [OF r(1)] by (simp add: mmu_get_hypervisor_page_def)
  moreover have "mmu_get_page C q va s = Some (Inr (entry_page (pgtbls s q) va (tbl (pgtbls s q) i)))"
    using r(2-4) by (subst mmu_get_page.simps) (auto simp: Let_def)
  ultimately have "arch_mmu_level_block_size (pt_stage (pgtbls s q)) (pt_level (pgtbls s q)) = 0x1000"
    using pg(2) by (auto simp: entry_page_def)
  then have "size_level 0x1000 = pt_level (pgtbls s q)" using size_level_block [OF live_level [OF h(2)]] qp by metis
  then have "pt_level (pgtbls s q) = 0" by (simp add: size_level_def)
  then show ?thesis unfolding rw_ok_def using ok r al ac by auto
qed

lemma normal_accessible:
  "accessible (arch_mmu_pgflags_set MMU_STAGE1 VMM_MEMORY_FLAGS_NORMAL)" "accessible (arch_mmu_pgflags_set MMU_STAGE1 VMM_MEMORY_FLAGS_NORMAL_NOCACHE)"
  by (simp_all add: accessible_def arch_mmu_pgflags_set_def VMM_MEMORY_FLAGS_NORMAL_def VMM_MEMORY_FLAGS_NORMAL_NOCACHE_def VMM_MEMORY_READABLE_def
      VMM_MEMORY_WRITEABLE_def VMM_MEMORY_EXECUTABLE_def VMM_MEMORY_CACHEABLE_def VMM_MEMORY_BUFFERABLE_def)

lemma rwinit_ok:
  assumes ok: "hyp_ok C s" and al: "4096 dvd unat va" and i: "arch_cpu_aspace_memory_rwinit C va s = Some (Inr w, s')"
  shows "rw_ok C w s'"
proof -
  let ?fl = "arch_mmu_pgflags_set MMU_STAGE1 VMM_MEMORY_FLAGS_NORMAL" and ?nc = "arch_mmu_pgflags_set MMU_STAGE1 VMM_MEMORY_FLAGS_NORMAL_NOCACHE"
  let ?pg = "\<lparr>page_ia = va, page_oa = 0, page_sz = 0x1000, page_flags = ?fl\<rparr>"
  obtain q j where m: "mmu_map_hypervisor_page C ?pg s = Some (VMM_OK, s')" and f: "mmu_find_pte C (hyp_pgtbl C) va s' = Some (Inr (q, j))"
    and w: "w = \<lparr>rw_va = va, rw_tbl = q, rw_idx = j, rw_cache = ?fl, rw_nocache = ?nc\<rparr>"
    using i by (auto simp: arch_cpu_aspace_memory_rwinit_def VMM_PAGE_SIZE_def split: Option.bind_splits if_splits sum.splits prod.splits)
  have hm: "hyp_maps C ?pg s s'" using m normal_accessible(1) by (simp add: hyp_maps_def)
  have ok': "hyp_ok C s'" by (rule hyp.maps_ok [OF ok hm])
  note r = find_pte_spec [OF hyp_ok_props(1-3) [OF ok'] f]
  have "hyp_covers C ?pg va" by (simp add: hyp_covers_def same_indices_def)
  then have "hyp_page C s' va = Inr (page_seen ?pg va)" using hyp.maps_lookup [OF ok hm, of va] by (simp add: hyp_page_def)
  then show ?thesis unfolding w by (rule entry_rw_ok [OF ok' al]) (use r normal_accessible in \<open>auto simp: page_seen_def\<close>)
qed

section \<open>Properties\<close>

text \<open>
  Property C19: with the window of a host CPU set up, reading physical memory through it returns. It reads as many bytes as
  asked for, they are the bytes of the physical range in order, whatever page boundaries it crosses, and the page tables are
  left as they were.\<close>
theorem vmm_host_memory_read_exact:
  assumes "rw_ok C w s" and "unat hpa + unat len \<le> 2 ^ 56"
  shows "\<exists>f. vmm_host_memory_read C w hpa len cacheable mem s = Some (len, map (\<lambda>j. mem (hpa + of_nat j)) [0..<unat len], s\<lparr>tlb_flushes := f\<rparr>)"
proof -
  from memory_read_all [OF assms(1) word_zero_le, of hpa len cacheable mem] show ?thesis
    using assms(2) by (auto simp: vmm_host_memory_read_def get_bytes_def same_tables_def)
qed

text \<open>
  Property C20: with the window of a host CPU set up, writing physical memory through it returns. It writes as many bytes
  as asked for to the physical range, in order, changes no other byte, and leaves the page tables as they were. Setting a
  range does the same with one byte for all.\<close>
theorem vmm_host_memory_write_exact:
  assumes "rw_ok C w s" and "unat hpa + unat len \<le> 2 ^ 56" and "length src = unat len"
  shows "(\<exists>f. vmm_host_memory_write C w hpa src len cacheable mem s =
      Some (len, \<lambda>x. if unat hpa \<le> unat x \<and> unat x < unat hpa + unat len then src ! (unat x - unat hpa) else mem x, s\<lparr>tlb_flushes := f\<rparr>)) \<and>
    (\<exists>f. vmm_host_memory_set C w hpa byte len cacheable mem s =
      Some (len, \<lambda>x. if unat hpa \<le> unat x \<and> unat x < unat hpa + unat len then byte else mem x, s\<lparr>tlb_flushes := f\<rparr>))"
proof -
  note rw = assms(1)
  have pb: "put_bytes hpa bs mem = (\<lambda>x. if unat hpa \<le> unat x \<and> unat x < unat hpa + unat len then bs ! (unat x - unat hpa) else mem x)"
    if "length bs = unat len" for bs
    using put_bytes_at [of hpa bs mem] assms(2) that by (simp add: fun_eq_iff)
  have "\<exists>f. vmm_host_memory_write C w hpa src len cacheable mem s = Some (len, put_bytes hpa src mem, s\<lparr>tlb_flushes := f\<rparr>)"
    using memory_write_all [OF rw word_zero_le, of hpa len src cacheable mem] assms(2,3) by (auto simp: vmm_host_memory_write_def same_tables_def)
  moreover have u: "unat (ucast len :: u64) = unat len" by (simp add: unsigned_ucast_eq take_bit_nat_eq_self)
  have e: "unat (hpa + ucast len) = unat hpa + unat len" using unat_add_small [of hpa "ucast len"] u assms(2) by simp
  have "\<exists>f. vmm_host_memory_set C w hpa byte len cacheable mem s = Some (len, put_bytes hpa (replicate (unat len) byte) mem, s\<lparr>tlb_flushes := f\<rparr>)"
    using memory_set_all [OF rw, of hpa "hpa + ucast len" byte 0 cacheable mem] assms(2) e u
    by (auto simp: vmm_host_memory_set_def same_tables_def word_le_nat_alt)
  moreover have "put_bytes hpa (replicate (unat len) byte) mem = (\<lambda>x. if unat hpa \<le> unat x \<and> unat x < unat hpa + unat len then byte else mem x)"
    using pb [of "replicate (unat len) byte"] by (auto simp: fun_eq_iff)
  ultimately show ?thesis using pb [OF assms(3)] by simp
qed

lemma ex_window: "\<exists>w s. rw_ok ex_cfg w s"
proof -
  have ok: "hyp_ok ex_cfg ex_sys" using ex_cfg_ok ex_wf ex_root(2) by (simp add: hyp_ok_def)
  have "\<exists>s1. mmu_map_page ex_cfg 5 ex_page ex_sys = Some (VMM_OK, s1)"
    using map_4k_ok [OF ex_cfg_ok _ _ ex_wf, of ex_page 5] by (simp add: ex_root ex_unmapped) blast
  then obtain s1 where m: "hyp_maps ex_cfg ex_page ex_sys s1" by (auto simp: hyp_maps_def mmu_map_hypervisor_page_def)
  have ok1: "hyp_ok ex_cfg s1" by (rule hyp.maps_ok [OF ok m])
  have "hyp_covers ex_cfg ex_page (page_ia ex_page)" by (simp add: hyp_covers_def same_indices_def)
  then have pg: "hyp_page ex_cfg s1 0x10000000 = Inr (page_seen ex_page 0x10000000)" using hyp.maps_lookup [OF ok m, of "0x10000000"] by (simp add: hyp_page_def)
  have "mmu_get_page ex_cfg (hyp_pgtbl ex_cfg) 0x10000000 s1 = Some (Inr (page_seen ex_page 0x10000000))"
    using get_hyp_page [OF ok1, of "0x10000000"] pg by (simp add: mmu_get_hypervisor_page_def)
  then obtain q e where q: "reaches ex_cfg s1 0x10000000 (hyp_pgtbl ex_cfg) q" "tbl (pgtbls s1 q) (tbl_index ex_cfg 0x10000000 (pgtbls s1 q)) = e"
    "arch_mmu_pte_is_valid e" "\<not> arch_mmu_pte_is_table e" using page_reached [OF hyp_ok_props(1-3) [OF ok1]] by blast
  have "4096 dvd unat (0x10000000 :: u64)" by simp
  from entry_rw_ok [OF ok1 this pg _ q(1) refl _ _ normal_accessible] q(2-4) show ?thesis by (force simp: page_seen_def)
qed

theorem vmm_host_memory_read_exact_witness:
  "\<exists>w s f. rw_ok ex_cfg w s \<and>
     vmm_host_memory_read ex_cfg w 0x80000ffe 4 True (\<lambda>a. ucast a) s = Some (4, [0xfe, 0xff, 0, 1], s\<lparr>tlb_flushes := f\<rparr>)"
proof -
  obtain w s where i: "rw_ok ex_cfg w s" using ex_window by blast
  then obtain f where "vmm_host_memory_read ex_cfg w 0x80000ffe 4 True (\<lambda>a. ucast a) s =
      Some (4, map (\<lambda>j. ucast (0x80000ffe + of_nat j :: u64)) [0..<unat (4 :: u32)], s\<lparr>tlb_flushes := f\<rparr>)"
    using vmm_host_memory_read_exact [OF i, of "0x80000ffe" 4 True "\<lambda>a. ucast a"] by auto
  moreover have "map (\<lambda>j. ucast (0x80000ffe + of_nat j :: u64)) [0..<unat (4 :: u32)] = [0xfe, 0xff, 0, 1 :: u8]" by (simp add: upt_rec)
  ultimately show ?thesis using i by auto
qed

theorem vmm_host_memory_write_exact_witness:
  "\<exists>w s mem f. rw_ok ex_cfg w s \<and>
     vmm_host_memory_write ex_cfg w 0x80000ffe [1, 2, 3, 4] 4 False (\<lambda>a. 0) s = Some (4, mem, s\<lparr>tlb_flushes := f\<rparr>) \<and>
     mem 0x80000ffd = 0 \<and> mem 0x80000fff = 2 \<and> mem 0x80001001 = 4"
proof -
  obtain w s where i: "rw_ok ex_cfg w s" using ex_window by blast
  obtain f where f: "vmm_host_memory_write ex_cfg w 0x80000ffe [1, 2, 3, 4] 4 False (\<lambda>a. 0) s = Some (4, \<lambda>x. if unat (0x80000ffe :: u64) \<le> unat x \<and>
      unat x < unat (0x80000ffe :: u64) + unat (4 :: u32) then [1, 2, 3, 4] ! (unat x - unat (0x80000ffe :: u64)) else 0, s\<lparr>tlb_flushes := f\<rparr>)"
    using vmm_host_memory_write_exact [OF i, of "0x80000ffe" 4 "[1, 2, 3, 4]" False "\<lambda>a. 0"] by auto
  show ?thesis by (rule exI [of _ w], rule exI [of _ s], rule exI, rule exI [of _ f], rule conjI [OF i], rule conjI [OF f]) simp
qed

end
