(* ===== verification/Heap.thy ===== *)
theory Heap
  imports Host_memory
begin

text \<open>
  The heaps of the hypervisor, \<^verbatim>\<open>core/vmm_heap.c\<close>: buddy allocators on pages of the host, one for normal and one for DMA memory. A
  pointer is its address, \<^verbatim>\<open>NULL\<close> is \<open>0\<close>, a failed \<^verbatim>\<open>BUG_ON\<close> is \<^const>\<open>None\<close>. The bytes of the address space are part of
  the state, and cache maintenance is recorded.
\<close>

section \<open>One heap\<close>

record heap_control =
  h_ba :: buddy_allocator
  h_hk_start :: u64
  h_hk_size :: u64
  h_mem_start :: u64
  h_mem_size :: u64
  h_heap_start :: u64
  h_heap_start_pa :: u64
  h_heap_size :: u64

definition HEAP_MIN_BIN :: nat where "HEAP_MIN_BIN = 6"
definition HEAP_MAX_BIN :: nat where "HEAP_MAX_BIN = VMM_PAGE_SHIFT"

definition heap_malloc :: "u64 \<Rightarrow> heap_control \<Rightarrow> (u64 \<times> heap_control) option" where
  "heap_malloc sz h =
     (if sz = 0 then Some (0, h)
      else case buddy_mem_alloc sz (h_ba h) of
        None \<Rightarrow> None
      | Some (Inl rc, ba) \<Rightarrow> Some (0, h\<lparr>h_ba := ba\<rparr>)
      | Some (Inr addr, ba) \<Rightarrow> Some (addr, h\<lparr>h_ba := ba\<rparr>))"

definition not_in_heap :: "heap_control \<Rightarrow> u64 \<Rightarrow> bool" where
  "not_in_heap h ptr \<longleftrightarrow> ptr = 0 \<or> ptr < h_mem_start h \<or> h_mem_start h + h_mem_size h \<le> ptr"

definition heap_alloc_size :: "heap_control \<Rightarrow> u64 \<Rightarrow> u64 option" where
  "heap_alloc_size h ptr =
     (if not_in_heap h ptr then None
      else Some (case buddy_mem_find (h_ba h) ptr of Inl rc \<Rightarrow> 0 | Inr (aaddr, b, asize) \<Rightarrow> asize - (ptr - aaddr)))"

definition heap_free :: "u64 \<Rightarrow> heap_control \<Rightarrow> heap_control option" where
  "heap_free ptr h =
     (if not_in_heap h ptr then None
      else map_option (\<lambda>(rc, ba). h\<lparr>h_ba := ba\<rparr>) (buddy_mem_free ptr (h_ba h)))"

definition heap_pa2va :: "heap_control \<Rightarrow> u64 \<Rightarrow> host_sys \<Rightarrow> int + u64" where
  "heap_pa2va h pa s =
     (if h_heap_start_pa h \<le> pa \<and> pa < h_heap_start_pa h + h_heap_size h then Inr (h_heap_start h + (pa - h_heap_start_pa h))
      else vmm_host_pa2va pa s)"

definition heap_va2pa :: "mmu_cfg \<Rightarrow> heap_control \<Rightarrow> u64 \<Rightarrow> host_sys \<Rightarrow> (int + u64) option" where
  "heap_va2pa C h va s =
     (if h_heap_start h \<le> va \<and> va < h_heap_start h + h_heap_size h then Some (Inr (va - h_heap_start h + h_heap_start_pa h))
      else vmm_host_va2pa C va s)"

section \<open>The two heaps\<close>

datatype cache_op = Inv_dcache u64 u64 | Inv_outer u64 u64 | Clean_dcache u64 u64 | Clean_outer u64 u64

datatype dma_direction = DMA_BIDIRECTIONAL | DMA_TO_DEVICE | DMA_FROM_DEVICE | DMA_NONE

record heap_sys =
  normal_heap :: heap_control
  dma_heap :: heap_control
  hp_host :: host_sys
  hp_bytes :: "u64 \<Rightarrow> u8"
  cache_ops :: "cache_op list"

definition vmm_malloc :: "u64 \<Rightarrow> heap_sys \<Rightarrow> (u64 \<times> heap_sys) option" where
  "vmm_malloc sz s = map_option (\<lambda>(p, h). (p, s\<lparr>normal_heap := h\<rparr>)) (heap_malloc sz (normal_heap s))"

definition memset_bytes :: "u64 \<Rightarrow> u8 \<Rightarrow> u64 \<Rightarrow> heap_sys \<Rightarrow> heap_sys" where
  "memset_bytes p b n s = s\<lparr>hp_bytes := put_bytes p (replicate (unat n) b) (hp_bytes s)\<rparr>"

definition vmm_zalloc :: "u64 \<Rightarrow> heap_sys \<Rightarrow> (u64 \<times> heap_sys) option" where
  "vmm_zalloc sz s = map_option (\<lambda>(p, s'). (p, if p \<noteq> 0 then memset_bytes p 0 sz s' else s')) (vmm_malloc sz s)"

definition vmm_calloc :: "u64 \<Rightarrow> u64 \<Rightarrow> heap_sys \<Rightarrow> (u64 \<times> heap_sys) option" where
  "vmm_calloc element_count element_size s =
     vmm_zalloc ((if element_count = 0 then 1 else element_count) * element_size) s"

text \<open>The string is given by its characters before the terminating zero.\<close>

definition vmm_strdup :: "u8 list option \<Rightarrow> heap_sys \<Rightarrow> (u64 \<times> heap_sys) option" where
  "vmm_strdup str s =
     (case str of
        None \<Rightarrow> Some (0, s)
      | Some cs \<Rightarrow> map_option (\<lambda>(p, s'). if p = 0 then (0, s')
            else (p, s'\<lparr>hp_bytes := (put_bytes p (cs @ [0]) (hp_bytes s'))(p + of_nat (length cs) := 0)\<rparr>))
          (vmm_zalloc (of_nat (length cs) + 1) s))"

definition vmm_alloc_size :: "u64 \<Rightarrow> heap_sys \<Rightarrow> u64 option" where
  "vmm_alloc_size ptr s = heap_alloc_size (normal_heap s) ptr"

definition vmm_free :: "u64 \<Rightarrow> heap_sys \<Rightarrow> heap_sys option" where
  "vmm_free ptr s = map_option (\<lambda>h. s\<lparr>normal_heap := h\<rparr>) (heap_free ptr (normal_heap s))"

definition vmm_normal_heap_start_va :: "heap_sys \<Rightarrow> u64" where "vmm_normal_heap_start_va s = h_heap_start (normal_heap s)"
definition vmm_normal_heap_size :: "heap_sys \<Rightarrow> u64" where "vmm_normal_heap_size s = h_heap_size (normal_heap s)"
definition vmm_normal_heap_hksize :: "heap_sys \<Rightarrow> u64" where "vmm_normal_heap_hksize s = h_hk_size (normal_heap s)"
definition vmm_normal_heap_free_size :: "heap_sys \<Rightarrow> u64" where "vmm_normal_heap_free_size s = buddy_bins_free_space (h_ba (normal_heap s))"

definition vmm_dma_malloc :: "u64 \<Rightarrow> heap_sys \<Rightarrow> (u64 \<times> heap_sys) option" where
  "vmm_dma_malloc sz s = map_option (\<lambda>(p, h). (p, s\<lparr>dma_heap := h\<rparr>)) (heap_malloc sz (dma_heap s))"

definition vmm_dma_zalloc :: "u64 \<Rightarrow> heap_sys \<Rightarrow> (u64 \<times> heap_sys) option" where
  "vmm_dma_zalloc sz s = map_option (\<lambda>(p, s'). (p, if p \<noteq> 0 then memset_bytes p 0 sz s' else s')) (vmm_dma_malloc sz s)"

text \<open>Without an IOMMU; the second result is the physical address, if it was stored.\<close>

definition vmm_dma_zalloc_phy :: "mmu_cfg \<Rightarrow> u64 \<Rightarrow> heap_sys \<Rightarrow> (u64 \<times> u64 option \<times> heap_sys) option" where
  "vmm_dma_zalloc_phy C sz s = do {
     (p, s') \<leftarrow> vmm_dma_zalloc sz s;
     if p = 0 then Some (p, None, s')
     else do {
       r \<leftarrow> vmm_host_va2pa C p (hp_host s');
       Some (p, case r of Inl rc \<Rightarrow> None | Inr pa \<Rightarrow> Some pa, s') } }"

definition vmm_dma_pa2va :: "u64 \<Rightarrow> heap_sys \<Rightarrow> u64 option" where
  "vmm_dma_pa2va pa s = (case heap_pa2va (dma_heap s) pa (hp_host s) of Inl rc \<Rightarrow> None | Inr va \<Rightarrow> Some va)"

definition vmm_dma_va2pa :: "mmu_cfg \<Rightarrow> u64 \<Rightarrow> heap_sys \<Rightarrow> u64 option" where
  "vmm_dma_va2pa C va s = (case heap_va2pa C (dma_heap s) va (hp_host s) of Some (Inr pa) \<Rightarrow> Some pa | _ \<Rightarrow> None)"

definition vmm_is_dma :: "u64 \<Rightarrow> heap_sys \<Rightarrow> bool" where
  "vmm_is_dma va s \<longleftrightarrow> h_heap_start (dma_heap s) < va \<and> va < h_heap_start (dma_heap s) + h_heap_size (dma_heap s)"

definition vmm_dma_sync_for_device :: "u64 \<Rightarrow> u64 \<Rightarrow> dma_direction \<Rightarrow> heap_sys \<Rightarrow> heap_sys" where
  "vmm_dma_sync_for_device a e dir s =
     s\<lparr>cache_ops := cache_ops s @ (if dir = DMA_FROM_DEVICE then [Inv_dcache a e, Inv_outer a e] else [Clean_dcache a e, Clean_outer a e])\<rparr>"

definition vmm_dma_sync_for_cpu :: "u64 \<Rightarrow> u64 \<Rightarrow> dma_direction \<Rightarrow> heap_sys \<Rightarrow> heap_sys" where
  "vmm_dma_sync_for_cpu a e dir s =
     (if dir = DMA_FROM_DEVICE \<or> dir = DMA_BIDIRECTIONAL then s\<lparr>cache_ops := cache_ops s @ [Inv_dcache a e, Inv_outer a e]\<rparr> else s)"

definition vmm_dma_map :: "mmu_cfg \<Rightarrow> u64 \<Rightarrow> u64 \<Rightarrow> dma_direction \<Rightarrow> heap_sys \<Rightarrow> (u64 \<times> heap_sys) option" where
  "vmm_dma_map C va sz dir s =
     (let s' = vmm_dma_sync_for_device va (va + sz) dir s in map_option (\<lambda>pa. (pa, s')) (vmm_dma_va2pa C va s'))"

definition vmm_dma_unmap :: "u64 \<Rightarrow> u64 \<Rightarrow> dma_direction \<Rightarrow> heap_sys \<Rightarrow> heap_sys option" where
  "vmm_dma_unmap dma_addr sz dir s =
     map_option (\<lambda>va. vmm_dma_sync_for_cpu va (va + sz) dir s) (vmm_dma_pa2va dma_addr s)"

definition vmm_dma_alloc_size :: "u64 \<Rightarrow> heap_sys \<Rightarrow> u64 option" where
  "vmm_dma_alloc_size ptr s = heap_alloc_size (dma_heap s) ptr"

definition vmm_dma_free :: "u64 \<Rightarrow> heap_sys \<Rightarrow> heap_sys option" where
  "vmm_dma_free ptr s = map_option (\<lambda>h. s\<lparr>dma_heap := h\<rparr>) (heap_free ptr (dma_heap s))"

definition vmm_dma_heap_start_va :: "heap_sys \<Rightarrow> u64" where "vmm_dma_heap_start_va s = h_heap_start (dma_heap s)"
definition vmm_dma_heap_size :: "heap_sys \<Rightarrow> u64" where "vmm_dma_heap_size s = h_heap_size (dma_heap s)"
definition vmm_dma_heap_hksize :: "heap_sys \<Rightarrow> u64" where "vmm_dma_heap_hksize s = h_hk_size (dma_heap s)"
definition vmm_dma_heap_free_size :: "heap_sys \<Rightarrow> u64" where "vmm_dma_heap_free_size s = buddy_bins_free_space (h_ba (dma_heap s))"

section \<open>Initialisation\<close>

text \<open>\<open>dma\<close> selects the heap that a call is given a pointer to.\<close>

definition get_heap :: "bool \<Rightarrow> heap_sys \<Rightarrow> heap_control" where
  "get_heap dma s = (if dma then dma_heap s else normal_heap s)"

definition put_heap :: "bool \<Rightarrow> heap_control \<Rightarrow> heap_sys \<Rightarrow> heap_sys" where
  "put_heap dma h s = (if dma then s\<lparr>dma_heap := h\<rparr> else s\<lparr>normal_heap := h\<rparr>)"

definition heap_zero :: heap_control where
  "heap_zero = \<lparr>h_ba = \<lparr>hk_total_count = 0, hk_free_count = 0, mem_start = 0, mem_size = 0, min_bin = 0, max_bin = 0, alloc_tree = RB_NULL, bins = (\<lambda>b. [])\<rparr>,
     h_hk_start = 0, h_hk_size = 0, h_mem_start = 0, h_mem_size = 0, h_heap_start = 0, h_heap_start_pa = 0, h_heap_size = 0\<rparr>"

text \<open>The label \<^verbatim>\<open>fail_free_pages\<close>; the result of the call is not looked at.\<close>

definition heap_fail :: "mmu_cfg \<Rightarrow> bool \<Rightarrow> int \<Rightarrow> heap_sys \<Rightarrow> (int \<times> heap_sys) option" where
  "heap_fail C dma rc s = do {
     (rc', hs) \<leftarrow> vmm_host_free_pages C (h_heap_start (get_heap dma s)) (ucast (VMM_SIZE_TO_PAGE (h_heap_size (get_heap dma s)))) (hp_host s);
     Some (rc, s\<lparr>hp_host := hs\<rparr>) }"

definition heap_setup :: "mmu_cfg \<Rightarrow> bool \<Rightarrow> heap_control \<Rightarrow> heap_sys \<Rightarrow> (int \<times> heap_sys) option" where
  "heap_setup C dma h s = do {
     (rc, ba) \<leftarrow> buddy_allocator_init (h_hk_start h) (h_hk_size h) (h_mem_start h) (h_mem_size h) HEAP_MIN_BIN HEAP_MAX_BIN (h_ba h);
     let s1 = put_heap dma (h\<lparr>h_ba := ba\<rparr>) s;
     if rc \<noteq> VMM_OK then heap_fail C dma rc s1 else Some (VMM_OK, s1) }"

definition heap_init :: "mmu_cfg \<Rightarrow> bool \<Rightarrow> bool \<Rightarrow> bool \<Rightarrow> u64 \<Rightarrow> u32 \<Rightarrow> heap_sys \<Rightarrow> (int \<times> heap_sys) option" where
  "heap_init C dma use_hugepage is_normal sz0 fl s =
     (if sz0 = 0 then Some (VMM_EINVALID, s)
      else let shift = (if use_hugepage then arch_cpu_aspace_hugepage_log2size else VMM_PAGE_SHIFT);
               sz = roundup2_order_size sz0 shift; hk = sz div 8 in do {
        (start, hs) \<leftarrow> (if use_hugepage then vmm_host_alloc_hugepages C (ucast (drop_bit shift sz)) fl (hp_host s)
                       else vmm_host_alloc_pages C (ucast (VMM_SIZE_TO_PAGE sz)) fl (hp_host s));
        let h1 = heap_zero\<lparr>h_heap_size := sz, h_heap_start := start\<rparr>;
        let s1 = put_heap dma h1 (s\<lparr>hp_host := hs\<rparr>);
        if start = 0 then Some (VMM_ENOMEM, s1)
        else do {
          r \<leftarrow> vmm_host_va2pa C start hs;
          (case r of
             Inl rc \<Rightarrow> heap_fail C dma rc s1
           | Inr pa \<Rightarrow>
               let h2 = h1\<lparr>h_heap_start_pa := pa, h_hk_size := hk\<rparr> in
               if is_normal then heap_setup C dma (h2\<lparr>h_hk_start := start, h_mem_start := start + hk, h_mem_size := sz - hk\<rparr>) s1
               else do {
                 (p, s2) \<leftarrow> vmm_malloc hk (put_heap dma h2 s1);
                 let h3 = (get_heap dma s2)\<lparr>h_hk_start := p\<rparr>;
                 if p = 0 then heap_fail C dma VMM_ENOMEM (put_heap dma h3 s2)
                 else heap_setup C dma (h3\<lparr>h_mem_start := start, h_mem_size := sz\<rparr>) s2 }) } })"

definition VMM_MEMORY_FLAGS_DMA_NONCOHERENT :: u32 where
  "VMM_MEMORY_FLAGS_DMA_NONCOHERENT = VMM_MEMORY_READABLE OR VMM_MEMORY_WRITEABLE OR VMM_MEMORY_EXECUTABLE OR 0x80"

text \<open>\<open>factor\<close> is a constant of the build.\<close>

definition vmm_heap_init :: "mmu_cfg \<Rightarrow> u64 \<Rightarrow> heap_sys \<Rightarrow> (int \<times> heap_sys) option" where
  "vmm_heap_init C factor s =
     heap_init C False True True (vmm_host_vapool_size (hs_vapool (hp_host s)) div factor) VMM_MEMORY_FLAGS_NORMAL s"

definition vmm_dma_heap_init :: "mmu_cfg \<Rightarrow> u64 \<Rightarrow> heap_sys \<Rightarrow> (int \<times> heap_sys) option" where
  "vmm_dma_heap_init C factor s =
     heap_init C True False False (vmm_host_vapool_size (hs_vapool (hp_host s)) div factor) VMM_MEMORY_FLAGS_DMA_NONCOHERENT s"

section \<open>A heap as an allocator\<close>

text \<open>The heap manages the memory of its allocator, which does not begin at \<^verbatim>\<open>NULL\<close>.\<close>

definition heap_ok :: "heap_control \<Rightarrow> bool" where
  "heap_ok h \<longleftrightarrow> buddy_wf (h_ba h) \<and> h_mem_start h = mem_start (h_ba h) \<and> h_mem_size h = mem_size (h_ba h) \<and> h_mem_start h \<noteq> 0"

text \<open>A null pointer as an error, and a call without result as a success.\<close>

definition heap_alloc_result :: "u64 \<Rightarrow> heap_control \<Rightarrow> ((int + u64) \<times> heap_control) option" where
  "heap_alloc_result n h = map_option (\<lambda>(p, h'). (if p = 0 then Inl VMM_ENOMEM else Inr p, h')) (heap_malloc n h)"

definition heap_free_result :: "u64 \<Rightarrow> heap_control \<Rightarrow> (int \<times> heap_control) option" where
  "heap_free_result p h = map_option (Pair VMM_OK) (heap_free p h)"

lemma heap_area:
  assumes "heap_ok h" "(q, l) \<in> owned_ranges (h_ba h)"
  shows "unat (h_mem_start h) \<le> q" "q + l \<le> unat (h_mem_start h) + unat (h_mem_size h)" "unat (h_mem_start h) + unat (h_mem_size h) < 2 ^ 64" "0 < l"
proof -
  let ?ba = "h_ba h"
  obtain a where a: "a \<in> set (elems (alloc_tree ?ba))" "q = lo_byte a" "l = area_len a" using assms(2) by (auto simp: owned_ranges_def)
  have w: "areas_ok (mem_lo ?ba) (mem_hi ?ba) ?ba" "mem_hi ?ba < 2 ^ 64" using assms(1) by (simp_all add: heap_ok_def buddy_wf_def bins_ok_def)
  have "area_ok (mem_lo ?ba) (mem_hi ?ba) (min_bin ?ba) a" using w(1) a(1) by (simp add: areas_ok_def)
  then show "unat (h_mem_start h) \<le> q" "q + l \<le> unat (h_mem_start h) + unat (h_mem_size h)" "unat (h_mem_start h) + unat (h_mem_size h) < 2 ^ 64" "0 < l"
    using a w(2) assms(1) area_bounds(4) by (auto simp: area_ok_def heap_ok_def mem_lo_def mem_hi_def)
qed

lemma heap_malloc_eq:
  assumes "heap_ok h"
  obtains (none) "heap_malloc n h = Some (0, h)"
  | (some) p ba where "heap_malloc n h = Some (p, h\<lparr>h_ba := ba\<rparr>)" "buddy_mem_alloc n (h_ba h) = Some (Inr p, ba)" "p \<noteq> 0" "heap_ok (h\<lparr>h_ba := ba\<rparr>)"
proof (cases "n = 0")
  case True
  then show ?thesis using none by (simp add: heap_malloc_def)
next
  case False
  have wf: "buddy_wf (h_ba h)" using assms by (simp add: heap_ok_def)
  show ?thesis
  proof (cases rule: alloc_cases [OF wf, of n])
    case 1
    then show ?thesis using none False by (simp add: heap_malloc_def)
  next
    case (2 a ba)
    then have ok: "heap_ok (h\<lparr>h_ba := ba\<rparr>)" using assms by (auto simp: heap_ok_def takes_area_def)
    have "(unat (area_map a), area_len a) \<in> owned_ranges (h_ba (h\<lparr>h_ba := ba\<rparr>))"
      using 2(2) by (auto simp: owned_ranges_def takes_area_def lo_byte_def intro!: image_eqI [of _ _ a])
    from heap_area(1) [OF ok this] have "area_map a \<noteq> 0" using assms by (auto simp: heap_ok_def unat_eq_0)
    then show ?thesis using some [of "area_map a" ba] 2(1) ok False by (simp add: heap_malloc_def)
  qed
qed

interpretation heap: byte_allocator heap_ok "\<lambda>h. owned_ranges (h_ba h)" "\<lambda>h. used_byte (h_ba h)" heap_alloc_result heap_free_result
proof unfold_locales
  fix h n e h' p q l x
  assume ok: "heap_ok h"
  have wf: "buddy_wf (h_ba h)" using ok by (simp add: heap_ok_def)
  show "\<exists>r s'. heap_alloc_result n h = Some (r, s')" by (rule heap_malloc_eq [OF ok, of n]) (simp_all add: heap_alloc_result_def)
  show "h' = h" if "heap_alloc_result n h = Some (Inl e, h')"
    using that by (cases rule: heap_malloc_eq [OF ok, of n]) (auto simp: heap_alloc_result_def)
  show "\<exists>l\<ge>unat n. heap_ok h' \<and> 0 < l \<and> owned_ranges (h_ba h') = insert (unat p, l) (owned_ranges (h_ba h)) \<and> (unat p, l) \<notin> owned_ranges (h_ba h) \<and>
      (\<forall>x. used_byte (h_ba h') x = (used_byte (h_ba h) x \<or> unat p \<le> x \<and> x < unat p + l)) \<and>
      (\<forall>x. unat p \<le> x \<and> x < unat p + l \<longrightarrow> \<not> used_byte (h_ba h) x)" if a: "heap_alloc_result n h = Some (Inr p, h')"
  proof (cases rule: heap_malloc_eq [OF ok, of n])
    case 1
    then show ?thesis using a by (simp add: heap_alloc_result_def)
  next
    case (2 p' ba)
    then have "p' = p" "h' = h\<lparr>h_ba := ba\<rparr>" using a by (simp_all add: heap_alloc_result_def)
    then show ?thesis using buddy.alloc_fresh [OF wf, of n p ba] 2(2,4) by auto
  qed
  show "used_byte (h_ba h) x" if "(q, l) \<in> owned_ranges (h_ba h)" "q \<le> x" "x < q + l" using buddy.owned_used [OF wf that] .
  show "\<exists>s'. heap_free_result p h = Some (VMM_OK, s') \<and> heap_ok s' \<and> owned_ranges (h_ba s') = owned_ranges (h_ba h) - {(unat p, l)} \<and>
      (\<forall>x. used_byte (h_ba s') x = (used_byte (h_ba h) x \<and> \<not> (unat p \<le> x \<and> x < unat p + l)))"
    if o: "(unat p, l) \<in> owned_ranges (h_ba h)" "0 < l"
  proof -
    obtain ba where b: "buddy_mem_free p (h_ba h) = Some (VMM_OK, ba)" "buddy_wf ba" "owned_ranges ba = owned_ranges (h_ba h) - {(unat p, l)}"
      "\<forall>x. used_byte ba x = (used_byte (h_ba h) x \<and> \<not> (unat p \<le> x \<and> x < unat p + l))" using buddy.free_owned [OF wf o] by blast
    have "mem_start ba = mem_start (h_ba h) \<and> mem_size ba = mem_size (h_ba h)"
      using b(1) by (cases rule: free_cases [OF wf, of p]) (auto simp: gives_area_def split: if_splits)
    then have "heap_ok (h\<lparr>h_ba := ba\<rparr>)" using ok b(2) by (auto simp: heap_ok_def)
    moreover have "\<not> not_in_heap h p"
      using heap_area [OF ok o(1)] ok unat_add_small [of "h_mem_start h" "h_mem_size h"]
      by (auto simp: not_in_heap_def word_less_nat_alt word_le_nat_alt heap_ok_def unat_eq_0)
    ultimately show ?thesis using b by (simp add: heap_free_result_def heap_free_def)
  qed
qed

section \<open>A heap that was initialised\<close>

lemma get_page_error: "mmu_get_page C t ia m = Some r \<Longrightarrow> \<forall>rc. r = Inl rc \<longrightarrow> rc = VMM_EFAIL"
  by (rule mmu_get_page.raw_induct [where P = "\<lambda>C t ia m r. \<forall>rc. r = Inl rc \<longrightarrow> rc = VMM_EFAIL"])
    (auto simp: Let_def split: if_splits option.splits)

lemma va2pa_error:
  assumes "arch_cpu_aspace_va2pa C va m = Some (Inl rc)"
  shows "rc \<noteq> VMM_OK"
proof -
  obtain r where r: "mmu_get_page C (hyp_pgtbl C) va m = Some r" "(case r of Inl rc \<Rightarrow> Inl rc | Inr pg \<Rightarrow> Inr (page_oa pg + (va AND (page_sz pg - 1)))) = Inl rc"
    using assms unfolding arch_cpu_aspace_va2pa_def mmu_get_hypervisor_page_def by (auto simp: bind_eq_Some_conv)
  then have "r = Inl rc" by (cases r) simp_all
  then show ?thesis using get_page_error [OF r(1)] by simp
qed

lemma malloc_keeps:
  assumes "vmm_malloc n s = Some (p, s')"
  shows "h_heap_size (get_heap dma s') = h_heap_size (get_heap dma s)" "h_heap_start (get_heap dma s') = h_heap_start (get_heap dma s)"
  using assms by (auto simp: vmm_malloc_def heap_malloc_def get_heap_def split: if_splits option.splits sum.splits)

lemma heap_fail_error: "heap_fail C dma rc s = Some (rc', s') \<Longrightarrow> rc' = rc"
  by (auto simp: heap_fail_def bind_eq_Some_conv)

lemma get_put_heap [simp]: "get_heap dma (put_heap dma h s) = h"
  by (simp add: get_heap_def put_heap_def)

lemma heap_setup_ok:
  assumes "heap_setup C dma h s = Some (VMM_OK, s')"
  obtains ba where "get_heap dma s' = h\<lparr>h_ba := ba\<rparr>" "h_mem_start h \<noteq> 0 \<Longrightarrow> heap_ok (h\<lparr>h_ba := ba\<rparr>)" "owned_ranges ba = {}"
proof -
  obtain ba where b: "buddy_allocator_init (h_hk_start h) (h_hk_size h) (h_mem_start h) (h_mem_size h) HEAP_MIN_BIN HEAP_MAX_BIN (h_ba h) = Some (VMM_OK, ba)"
    "s' = put_heap dma (h\<lparr>h_ba := ba\<rparr>) s"
    using assms(1) heap_fail_error by (fastforce simp: heap_setup_def bind_eq_Some_conv Let_def split: if_splits)
  then have "buddy_wf ba" "alloc_tree ba = RB_NULL" "mem_start ba = h_mem_start h" "mem_size ba = h_mem_size h"
    using buddy_init_wf [where hk_area = "h_hk_start h" and hk_size = "h_hk_size h" and start = "h_mem_start h" and sz = "h_mem_size h" and mn = HEAP_MIN_BIN and mx = HEAP_MAX_BIN and ba = "h_ba h"] by simp_all
  then show ?thesis using that [of ba] b(2) by (simp add: heap_ok_def owned_ranges_def)
qed

text \<open>What a successful initialisation went through.\<close>

lemma heap_init_run:
  assumes "heap_init C dma hp nrm sz fl s = Some (VMM_OK, s')"
    and z: "z = roundup2_order_size sz (if hp then arch_cpu_aspace_hugepage_log2size else VMM_PAGE_SHIFT)"
  obtains (normal) st pa s1 where "nrm" "st \<noteq> 0" "heap_setup C dma (heap_zero\<lparr>h_heap_size := z, h_heap_start := st, h_heap_start_pa := pa, h_hk_size := z div 8,
      h_hk_start := st, h_mem_start := st + z div 8, h_mem_size := z - z div 8\<rparr>) s1 = Some (VMM_OK, s')"
  | (other) st g p s1 where "\<not> nrm" "st \<noteq> 0" "h_heap_size g = z" "h_heap_start g = st"
      "heap_setup C dma (g\<lparr>h_hk_start := p, h_mem_start := st, h_mem_size := z\<rparr>) s1 = Some (VMM_OK, s')"
proof -
  let ?h = "\<lambda>st. heap_zero\<lparr>h_heap_size := z, h_heap_start := st\<rparr>"
  let ?h2 = "\<lambda>st pa. (?h st)\<lparr>h_heap_start_pa := pa, h_hk_size := z div 8\<rparr>"
  have nf: "heap_fail C dma rc s2 = Some (VMM_OK, s') \<Longrightarrow> rc = VMM_OK" for rc s2 using heap_fail_error by metis
  have ne: "heap_fail C dma (- 7) s2 \<noteq> Some (0, s')" for s2 using heap_fail_error [of C dma "- 7" s2 0 s'] by auto
  from assms(1) obtain st hs r where r: "st \<noteq> 0" "arch_cpu_aspace_va2pa C st (hs_mmu hs) = Some r"
    "(case r of Inl rc \<Rightarrow> heap_fail C dma rc (put_heap dma (?h st) (s\<lparr>hp_host := hs\<rparr>))
      | Inr pa \<Rightarrow> if nrm then heap_setup C dma ((?h2 st pa)\<lparr>h_hk_start := st, h_mem_start := st + z div 8, h_mem_size := z - z div 8\<rparr>) (put_heap dma (?h st) (s\<lparr>hp_host := hs\<rparr>))
         else do {
           (p, s2) \<leftarrow> vmm_malloc (z div 8) (put_heap dma (?h2 st pa) (put_heap dma (?h st) (s\<lparr>hp_host := hs\<rparr>)));
           let h3 = (get_heap dma s2)\<lparr>h_hk_start := p\<rparr>;
           if p = 0 then heap_fail C dma VMM_ENOMEM (put_heap dma h3 s2)
           else heap_setup C dma (h3\<lparr>h_mem_start := st, h_mem_size := z\<rparr>) s2 }) = Some (VMM_OK, s')"
    unfolding heap_init_def Let_def z [symmetric] vmm_host_va2pa_def
    by (auto simp: bind_eq_Some_conv split: if_split_asm)
  obtain pa where pa: "r = Inr pa"
  proof (cases r)
    case (Inl rc)
    then show ?thesis using nf [of rc] r(3) va2pa_error [of C st "hs_mmu hs" rc] r(2) by simp
  qed
  show ?thesis
  proof (cases nrm)
    case True
    then show ?thesis using normal r(1,3) pa by simp
  next
    case False
    then obtain p s2 where m: "vmm_malloc (z div 8) (put_heap dma (?h2 st pa) (put_heap dma (?h st) (s\<lparr>hp_host := hs\<rparr>))) = Some (p, s2)"
      "heap_setup C dma ((get_heap dma s2)\<lparr>h_hk_start := p, h_mem_start := st, h_mem_size := z\<rparr>) s2 = Some (VMM_OK, s')"
      using r(3) pa ne by (auto simp: bind_eq_Some_conv Let_def split: if_split_asm)
    show ?thesis using other [OF False r(1) _ _ m(2)] malloc_keeps [OF m(1), of dma] by simp
  qed
qed

section \<open>Properties\<close>



lemma memset_bytes_at:
  assumes "unat p + unat n \<le> 2 ^ 64"
  shows "hp_bytes (memset_bytes p b n s) x = (if unat p \<le> unat x \<and> unat x < unat p + unat n then b else hp_bytes s x)"
  using put_bytes_at [of p "replicate (unat n) b" "hp_bytes s" x] assms by (auto simp: memset_bytes_def)

text \<open>
  Property C22: an allocation with \<^verbatim>\<open>vmm_zalloc\<close> that returns a pointer keeps the invariant of the heap. All its bytes are
  zero, it shares no byte with any area that was allocated before, and no byte of those areas is changed. Freeing the pointer
  returns and gives back the allocated areas as they were before, without touching a byte.\<close>
theorem vmm_zalloc_fresh:
  assumes "heap_ok (normal_heap s)" and "vmm_zalloc sz s = Some (p, s')" and "p \<noteq> 0"
  shows "heap_ok (normal_heap s') \<and>
    (\<forall>x. unat p \<le> unat x \<and> unat x < unat p + unat sz \<longrightarrow> hp_bytes s' x = 0) \<and>
    (\<forall>q l x. (q, l) \<in> owned_ranges (h_ba (normal_heap s)) \<and> q \<le> unat x \<and> unat x < q + l \<longrightarrow>
       hp_bytes s' x = hp_bytes s x \<and> \<not> (unat p \<le> unat x \<and> unat x < unat p + unat sz)) \<and>
    (\<exists>s2. vmm_free p s' = Some s2 \<and> owned_ranges (h_ba (normal_heap s2)) = owned_ranges (h_ba (normal_heap s)) \<and> hp_bytes s2 = hp_bytes s')"
proof -
  obtain h where h: "heap_malloc sz (normal_heap s) = Some (p, h)" "s' = memset_bytes p 0 sz (s\<lparr>normal_heap := h\<rparr>)"
    using assms(2,3) by (auto simp: vmm_zalloc_def vmm_malloc_def)
  have ar: "heap_alloc_result sz (normal_heap s) = Some (Inr p, h)" using h(1) assms(3) by (simp add: heap_alloc_result_def)
  obtain l where l: "unat sz \<le> l" "heap_ok h" "owned_ranges (h_ba h) = insert (unat p, l) (owned_ranges (h_ba (normal_heap s)))"
    "\<forall>x. unat p \<le> x \<and> x < unat p + l \<longrightarrow> \<not> used_byte (h_ba (normal_heap s)) x" using heap.alloc_fresh [OF assms(1) ar] by blast
  have "(unat p, l) \<in> owned_ranges (h_ba h)" using l(3) by simp
  from heap_area [OF l(2) this] have "unat p + unat sz \<le> 2 ^ 64" using l(1) by linarith
  then have b: "hp_bytes s' x = (if unat p \<le> unat x \<and> unat x < unat p + unat sz then 0 else hp_bytes s x)" for x
    using memset_bytes_at [of p sz 0 "s\<lparr>normal_heap := h\<rparr>" x] h(2) by simp
  have nh: "normal_heap s' = h" using h(2) by (simp add: memset_bytes_def)
  have "\<not> (unat p \<le> unat x \<and> unat x < unat p + unat sz)" if "(q, k) \<in> owned_ranges (h_ba (normal_heap s))" "q \<le> unat x" "unat x < q + k" for q k x
    using heap.owned_used [OF assms(1) that] l(1,4) by auto
  moreover obtain h2 where "heap_free_result p h = Some (VMM_OK, h2)" "owned_ranges (h_ba h2) = owned_ranges (h_ba (normal_heap s))"
    using heap.alloc_free [OF assms(1) ar] by blast
  then have "vmm_free p s' = Some (s'\<lparr>normal_heap := h2\<rparr>)" "owned_ranges (h_ba h2) = owned_ranges (h_ba (normal_heap s))"
    using nh by (auto simp: heap_free_result_def vmm_free_def)
  ultimately show ?thesis using b nh l(2) by auto
qed

definition ex_heap :: heap_sys where
  "ex_heap = \<lparr>normal_heap = heap_zero\<lparr>h_ba := example_buddy, h_mem_start := 0x10000, h_mem_size := 0x10000\<rparr>, dma_heap = heap_zero, hp_host = ex_host,
     hp_bytes = (\<lambda>x. 0xaa), cache_ops = []\<rparr>"

theorem vmm_zalloc_fresh_witness:
  "\<exists>s'. vmm_zalloc 0x1800 ex_heap = Some (0x12000, s') \<and> heap_ok (normal_heap s') \<and> hp_bytes s' 0x12abc = 0 \<and> hp_bytes s' 0x11fff = 0xaa"
proof -
  have n: "normal_heap ex_heap = heap_zero\<lparr>h_ba := example_buddy, h_mem_start := 0x10000, h_mem_size := 0x10000\<rparr>" by (simp add: ex_heap_def)
  have ok: "heap_ok (normal_heap ex_heap)" unfolding n heap_ok_def by (simp add: example_wf) (simp add: example_buddy_def)
  obtain ba where "buddy_mem_alloc 0x1800 example_buddy = Some (Inr 0x12000, ba)" using example_alloc by blast
  then obtain s' where z: "vmm_zalloc 0x1800 ex_heap = Some (0x12000, s')" by (simp add: vmm_zalloc_def vmm_malloc_def heap_malloc_def n)
  note f = vmm_zalloc_fresh [OF ok z]
  have "(0x10000, 0x2000) \<in> owned_ranges (h_ba (normal_heap ex_heap))"
    by (simp add: n owned_ranges_def example_buddy_def example_area_def lo_byte_def area_len_def)
  then have "hp_bytes s' 0x11fff = hp_bytes ex_heap 0x11fff"
    using f [THEN conjunct2, THEN conjunct2, THEN conjunct1, rule_format, of "0x10000" "0x2000" "0x11fff"] by simp
  moreover have "hp_bytes s' 0x12abc = 0" using f by simp
  ultimately show ?thesis using z f by (simp add: ex_heap_def)
qed

lemma ex_heap_pages:
  obtains hs where "vmm_host_alloc_pages ex_cfg 1 7 ex_host = Some (0x12000, hs)" "vmm_host_va2pa ex_cfg 0x12000 hs = Some (Inr 0x80000000)"
proof -
  obtain c where c: "vmm_host_ram_alloc (example_ram 0 3) 0x1000 12 = Some (0x1000, Some 0x80000000, c)"
    by (simp add: vmm_host_ram_alloc_def host_ram_alloc_raw_def example_ram_def roundup2_order_size_def order_mask_def order_size_def VMM_SIZE_TO_PAGE_def
      size_to_order_def bank_at_def first_bpos_def alloc_search.simps count_free.simps bitmap_isset_def BIT_WORD_def BIT_WORD_OFFSET_def
      mark_used_def set_bank_def int_arg_def bitmap_setbit_def)
  let ?hs = "ex_host\<lparr>hs_ram := c\<rparr>"
  have ok: "host_ok ex_cfg ?hs" using ex_host_ok by (simp add: host_ok_def vmm_host_va2pa_def)
  have "mh_root (snd (host_mhash_init 224)) = RB_NULL" "0 \<in> free_slots (snd (host_mhash_init 224))"
    by (simp_all add: host_mhash_init_def Let_def free_slots_def no_entry_def)
  then have cm: "can_map ex_cfg 0x80000000 0x1000 7 ?hs"
    by (auto simp: can_map_def mhash_free_range_def ex_limit ex_root VMM_MEMORY_READABLE_def VMM_MEMORY_WRITEABLE_def VMM_MEMORY_EXECUTABLE_def)
  have "map_option fst (vmm_host_vapool_alloc 0x1000 \<lparr>vapool_start = 0x10000, vapool_size = 0x10000, vapool_page_count = 16, vapool_ba = example_buddy\<rparr>) =
      Some (Inr 0x12000)" by code_simp
  then obtain vp where "vmm_host_vapool_alloc 0x1000 (hs_vapool ?hs) = Some (Inr 0x12000, vp)" by (auto simp: ex_host_def)
  then obtain hs where "vmm_host_memmap ex_cfg 0x80000000 0x1000 7 ?hs = Some (0x12000 + (0x80000000 AND order_mask VMM_PAGE_SHIFT), hs)"
    "maps_range ex_cfg 0x12000 0x80000000 0x1000 7 ?hs hs"
    by (rule memmap_fresh [OF ok _ cm, of "0x12000" vp "0x1000" "0x80000000"]; (rule that)?) (simp_all add: roundup2_order_size_def order_mask_def)
  then show ?thesis using that [of hs] c
    by (simp add: vmm_host_alloc_pages_def host_alloc_aligned_pages_def host_page_shift_def ex_host_def vmm_host_memmap_def order_size_def order_mask_def maps_range_def ex_limit)
qed


end
