(* ===== verification/Pagepool.thy ===== *)
theory Pagepool
  imports Heap
begin

text \<open>
  The page pools, \<^verbatim>\<open>core/vmm_pagepool.c\<close>: pages cut from huge pages of the host. Each huge mapping is an entry with a bitmap of
  its pages, kept in a red-black tree by address and in a list by the number of available pages. An entry is known by its
  address in the heap. A panic, an access outside a bitmap and a position or count above \<^verbatim>\<open>INT_MAX\<close> are \<^const>\<open>None\<close>. Each call runs with the lock of its pool held.
\<close>

section \<open>Entries and pools\<close>

record pagepool_entry =
  pe_base :: u64
  pe_size :: u64
  pe_hugepage_count :: u32
  pe_page_count :: u32
  pe_page_avail_count :: u32
  pe_bmap :: bitmap
  pe_bmap_ptr :: u64

record pagepool_ctrl =
  pp_type :: nat
  pp_root :: "u64 rb_tree"
  entry_list :: "u64 list"
  pp_entry :: "u64 \<Rightarrow> pagepool_entry"

definition VMM_PAGEPOOL_MAX :: nat where [simp]: "VMM_PAGEPOOL_MAX = 6"

definition VMM_MEMORY_FLAGS_NORMAL_WT :: u32 where
  "VMM_MEMORY_FLAGS_NORMAL_WT = VMM_MEMORY_READABLE OR VMM_MEMORY_WRITEABLE OR VMM_MEMORY_EXECUTABLE OR VMM_MEMORY_CACHEABLE"

definition VMM_MEMORY_FLAGS_DMA_COHERENT :: u32 where
  "VMM_MEMORY_FLAGS_DMA_COHERENT = VMM_MEMORY_READABLE OR VMM_MEMORY_WRITEABLE OR VMM_MEMORY_EXECUTABLE OR 0x40"

definition VMM_MEMORY_FLAGS_IO :: u32 where
  "VMM_MEMORY_FLAGS_IO = VMM_MEMORY_READABLE OR VMM_MEMORY_WRITEABLE OR VMM_MEMORY_EXECUTABLE OR 0x20"

definition pagepool_type2flags :: "nat \<Rightarrow> u32" where
  "pagepool_type2flags ty =
     (if ty < 6 then [VMM_MEMORY_FLAGS_NORMAL, VMM_MEMORY_FLAGS_NORMAL_NOCACHE, VMM_MEMORY_FLAGS_NORMAL_WT, VMM_MEMORY_FLAGS_DMA_COHERENT,
        VMM_MEMORY_FLAGS_DMA_NONCOHERENT, VMM_MEMORY_FLAGS_IO] ! ty
      else VMM_MEMORY_FLAGS_NORMAL)"

text \<open>The first run of \<open>n\<close> pages that are not in use; \<open>run\<close> is \<^verbatim>\<open>free\<close>.\<close>

function find_bmap_from :: "bitmap \<Rightarrow> u32 \<Rightarrow> u32 \<Rightarrow> u32 \<Rightarrow> u32 \<Rightarrow> u32 \<Rightarrow> int option" where
  "find_bmap_from bm n lim i pos run =
     (if i < lim then do {
        k \<leftarrow> int_arg i;
        used \<leftarrow> bitmap_isset bm k;
        let pos' = (if used then i + 1 else pos);
        let run' = (if used then 0 else run + 1);
        if n = run' then Some (sint pos') else find_bmap_from bm n lim (i + 1) pos' run' }
      else Some (-1))"
  by pat_completeness auto
termination
proof (relation "measure (\<lambda>(bm, n, lim, i, pos, run). unat lim - unat i)", simp, simp)
  fix i lim :: u32
  assume "i < lim"
  then have l: "unat i < unat lim" by (simp add: word_less_nat_alt)
  from unat_Suc_bounded [OF this] l show "unat lim - unat (i + 1) < unat lim - unat i" by simp
qed

declare find_bmap_from.simps [simp del]

definition pagepool_find_bmap :: "pagepool_entry \<Rightarrow> u32 \<Rightarrow> int option" where
  "pagepool_find_bmap e n = (if n = 0 then Some (-1) else find_bmap_from (pe_bmap e) n (pe_page_count e) 0 0 0)"

text \<open>The last branch of the search, a panic, is reached by no address.\<close>

definition find_va_cmp :: "pagepool_ctrl \<Rightarrow> u64 \<Rightarrow> u64 \<Rightarrow> rb_dir" where
  "find_va_cmp pp va a =
     (let e = pp_entry pp a in
      if pe_base e \<le> va \<and> va < pe_base e + pe_size e then Stop else if va < pe_base e then Go_left else Go_right)"

definition pagepool_find_by_va :: "pagepool_ctrl \<Rightarrow> u64 \<Rightarrow> u64 option" where
  "pagepool_find_by_va pp va = rb_search (find_va_cmp pp va) (pp_root pp)"

definition pagepool_adjust :: "u64 \<Rightarrow> pagepool_ctrl \<Rightarrow> pagepool_ctrl" where
  "pagepool_adjust a pp =
     (let l = remove1 a (entry_list pp);
          before = (\<lambda>b. \<not> pe_page_avail_count (pp_entry pp a) < pe_page_avail_count (pp_entry pp b))
      in pp\<lparr>entry_list := takeWhile before l @ a # dropWhile before l\<rparr>)"

fun find_alloc_in :: "(u64 \<Rightarrow> pagepool_entry) \<Rightarrow> u32 \<Rightarrow> u64 list \<Rightarrow> u64 option option" where
  "find_alloc_in ent n [] = Some None"
| "find_alloc_in ent n (a # as) =
     (if n < pe_page_avail_count (ent a) then do {
        pos \<leftarrow> pagepool_find_bmap (ent a) n;
        if pos > 0 then Some (Some a) else find_alloc_in ent n as }
      else find_alloc_in ent n as)"

definition pagepool_find_alloc_entry :: "pagepool_ctrl \<Rightarrow> u32 \<Rightarrow> u64 option option" where
  "pagepool_find_alloc_entry pp n = find_alloc_in (pp_entry pp) n (entry_list pp)"

definition sizeof_pagepool_entry :: u64 where [simp]: "sizeof_pagepool_entry = 80"

definition add_entry_cmp :: "(u64 \<Rightarrow> pagepool_entry) \<Rightarrow> u64 \<Rightarrow> u64 \<Rightarrow> rb_dir" where
  "add_entry_cmp ent a p =
     (let e = ent a; q = ent p in
      if pe_base e + pe_size e \<le> pe_base q then Go_left else if pe_base q + pe_size q \<le> pe_base e then Go_right else Stop)"

text \<open>The insertion of an entry whose memory has been allocated; an overlap is a panic.\<close>

definition pagepool_link :: "u64 \<Rightarrow> pagepool_entry \<Rightarrow> pagepool_ctrl \<Rightarrow> pagepool_ctrl option" where
  "pagepool_link a e pp =
     (let ent = (pp_entry pp)(a := e) in
      case rb_insert_by (add_entry_cmp ent a) a (pp_root pp) of
        Some (Inr t) \<Rightarrow> Some (pagepool_adjust a (pp\<lparr>pp_entry := ent, pp_root := t, entry_list := entry_list pp @ [a]\<rparr>))
      | _ \<Rightarrow> None)"

definition drop_hugepages :: "mmu_cfg \<Rightarrow> u64 \<Rightarrow> u32 \<Rightarrow> heap_sys \<Rightarrow> heap_sys option" where
  "drop_hugepages C base n s = map_option (\<lambda>(rc, hs). s\<lparr>hp_host := hs\<rparr>) (vmm_host_free_hugepages C base n (hp_host s))"

definition pagepool_add_new_entry :: "mmu_cfg \<Rightarrow> u32 \<Rightarrow> pagepool_ctrl \<times> heap_sys \<Rightarrow> (u64 option \<times> pagepool_ctrl \<times> heap_sys) option" where
  "pagepool_add_new_entry C n0 = (\<lambda>(pp, s).
     let sz = roundup2_order_size (ucast n0 * VMM_PAGE_SIZE) arch_cpu_aspace_hugepage_log2size;
         n = ucast (drop_bit VMM_PAGE_SHIFT sz); hn = ucast (drop_bit arch_cpu_aspace_hugepage_log2size sz) in do {
     (base, hs) \<leftarrow> vmm_host_alloc_hugepages C hn (pagepool_type2flags (pp_type pp)) (hp_host s);
     (a, s1) \<leftarrow> vmm_zalloc sizeof_pagepool_entry (s\<lparr>hp_host := hs\<rparr>);
     if a = 0 then do { s2 \<leftarrow> drop_hugepages C base hn s1; Some (None, pp, s2) }
     else do {
       let longs = ((n + 63) div 64 :: u32);
       (b, s2) \<leftarrow> vmm_zalloc (ucast longs * 8) s1;
       if b = 0 then do { s3 \<leftarrow> vmm_free a s2; s4 \<leftarrow> drop_hugepages C base hn s3; Some (None, pp, s4) }
       else do {
         pp' \<leftarrow> pagepool_link a \<lparr>pe_base = base, pe_size = sz, pe_hugepage_count = hn, pe_page_count = n, pe_page_avail_count = n,
             pe_bmap = replicate (unat longs) 0, pe_bmap_ptr = b\<rparr> pp;
         Some (Some a, pp', s2) } } })"

definition pagepool_del_entry :: "mmu_cfg \<Rightarrow> u64 \<Rightarrow> pagepool_ctrl \<times> heap_sys \<Rightarrow> (pagepool_ctrl \<times> heap_sys) option" where
  "pagepool_del_entry C a = (\<lambda>(pp, s). do {
     t \<leftarrow> rb_remove a (pp_root pp);
     let pp' = pp\<lparr>pp_root := t, entry_list := remove1 a (entry_list pp)\<rparr>;
     let e = pp_entry pp a;
     s1 \<leftarrow> drop_hugepages C (pe_base e) (pe_hugepage_count e) s;
     s2 \<leftarrow> vmm_free (pe_bmap_ptr e) s1;
     s3 \<leftarrow> vmm_free a s2;
     Some (pp', s3) })"

text \<open>A negative position is not handled by the code; setting bits there is outside the bitmap.\<close>

definition pagepool_take :: "u64 \<Rightarrow> u32 \<Rightarrow> pagepool_ctrl \<Rightarrow> (u64 \<times> pagepool_ctrl) option" where
  "pagepool_take a n pp =
     (let e = pp_entry pp a in do {
      pos \<leftarrow> pagepool_find_bmap e n;
      len \<leftarrow> int_arg n;
      bm \<leftarrow> (if pos < 0 then None else bitmap_set (pe_bmap e) (nat pos) len);
      let pp' = pp\<lparr>pp_entry := (pp_entry pp)(a := e\<lparr>pe_bmap := bm, pe_page_avail_count := pe_page_avail_count e - n\<rparr>)\<rparr>;
      Some (pe_base e + of_int pos * VMM_PAGE_SIZE, pagepool_adjust a pp') })"

definition pagepool_alloc :: "mmu_cfg \<Rightarrow> u32 \<Rightarrow> pagepool_ctrl \<times> heap_sys \<Rightarrow> (u64 \<times> pagepool_ctrl \<times> heap_sys) option" where
  "pagepool_alloc C n = (\<lambda>(pp, s). do {
     found \<leftarrow> pagepool_find_alloc_entry pp n;
     (new, pp1, s1) \<leftarrow> (case found of None \<Rightarrow> pagepool_add_new_entry C n (pp, s) | Some a \<Rightarrow> Some (Some a, pp, s));
     a \<leftarrow> new;
     (va, pp2) \<leftarrow> pagepool_take a n pp1;
     Some (va, pp2, s1) })"

definition pagepool_free :: "mmu_cfg \<Rightarrow> u64 \<Rightarrow> u32 \<Rightarrow> pagepool_ctrl \<times> heap_sys \<Rightarrow> (int \<times> pagepool_ctrl \<times> heap_sys) option" where
  "pagepool_free C page_va n = (\<lambda>(pp, s).
     case pagepool_find_by_va pp page_va of
       None \<Rightarrow> Some (VMM_ENOTAVAIL, pp, s)
     | Some a \<Rightarrow>
         let e = pp_entry pp a in
         if pe_page_count e - pe_page_avail_count e < n then Some (VMM_ENOTAVAIL, pp, s)
         else do {
           pos \<leftarrow> int_arg (ucast (drop_bit VMM_PAGE_SHIFT (page_va - pe_base e)));
           len \<leftarrow> int_arg n;
           bm \<leftarrow> bitmap_clear (pe_bmap e) pos len;
           let av = pe_page_avail_count e + n;
           let pp' = pp\<lparr>pp_entry := (pp_entry pp)(a := e\<lparr>pe_bmap := bm, pe_page_avail_count := av\<rparr>)\<rparr>;
           if pe_page_count e = av then map_option (Pair VMM_OK) (pagepool_del_entry C a (pp', s))
           else Some (VMM_OK, pagepool_adjust a pp', s) })"

section \<open>The array of pools\<close>

definition vmm_pagepool_name :: "nat \<Rightarrow> string option" where
  "vmm_pagepool_name ty =
     (if ty < 6 then Some ([''NORMAL'', ''NORMAL_NOCACHE'', ''NORMAL_WT'', ''DMA_COHERENT'', ''DMA_NONCOHERENT'', ''IO''] ! ty) else None)"

record pagepool_sys =
  pparr :: "pagepool_ctrl list"
  pp_heap :: heap_sys

text \<open>The sum of a field over the entries of a pool; \<open>0\<close> for a type that does not exist.\<close>

definition pool_sum :: "(pagepool_entry \<Rightarrow> 'a::comm_monoid_add) \<Rightarrow> nat \<Rightarrow> pagepool_sys \<Rightarrow> 'a" where
  "pool_sum f ty s =
     (if VMM_PAGEPOOL_MAX \<le> ty then 0
      else let pp = pparr s ! ty in foldl (\<lambda>r a. r + f (pp_entry pp a)) 0 (entry_list pp))"

definition vmm_pagepool_space :: "nat \<Rightarrow> pagepool_sys \<Rightarrow> u64" where
  "vmm_pagepool_space ty s = pool_sum pe_size ty s"

definition vmm_pagepool_entry_count :: "nat \<Rightarrow> pagepool_sys \<Rightarrow> u32" where
  "vmm_pagepool_entry_count ty s = pool_sum (\<lambda>e. 1) ty s"

definition vmm_pagepool_hugepage_count :: "nat \<Rightarrow> pagepool_sys \<Rightarrow> u32" where
  "vmm_pagepool_hugepage_count ty s = pool_sum pe_hugepage_count ty s"

definition vmm_pagepool_page_count :: "nat \<Rightarrow> pagepool_sys \<Rightarrow> u32" where
  "vmm_pagepool_page_count ty s = pool_sum pe_page_count ty s"

definition vmm_pagepool_page_avail_count :: "nat \<Rightarrow> pagepool_sys \<Rightarrow> u32" where
  "vmm_pagepool_page_avail_count ty s = pool_sum pe_page_avail_count ty s"

definition vmm_pagepool_alloc :: "mmu_cfg \<Rightarrow> nat \<Rightarrow> u32 \<Rightarrow> pagepool_sys \<Rightarrow> (u64 \<times> pagepool_sys) option" where
  "vmm_pagepool_alloc C ty n s =
     (if VMM_PAGEPOOL_MAX \<le> ty then None
      else map_option (\<lambda>(va, pp, h). (va, \<lparr>pparr = (pparr s)[ty := pp], pp_heap = h\<rparr>)) (pagepool_alloc C n (pparr s ! ty, pp_heap s)))"

definition vmm_pagepool_free :: "mmu_cfg \<Rightarrow> nat \<Rightarrow> u64 \<Rightarrow> u32 \<Rightarrow> pagepool_sys \<Rightarrow> (int \<times> pagepool_sys) option" where
  "vmm_pagepool_free C ty page_va n s =
     (if VMM_PAGEPOOL_MAX \<le> ty then None
      else map_option (\<lambda>(rc, pp, h). (rc, \<lparr>pparr = (pparr s)[ty := pp], pp_heap = h\<rparr>)) (pagepool_free C page_va n (pparr s ! ty, pp_heap s)))"

text \<open>The entries of an empty pool are never read.\<close>

definition no_pool_entry :: pagepool_entry where
  "no_pool_entry = \<lparr>pe_base = 0, pe_size = 0, pe_hugepage_count = 0, pe_page_count = 0, pe_page_avail_count = 0, pe_bmap = [], pe_bmap_ptr = 0\<rparr>"

definition vmm_pagepool_init :: "heap_sys \<Rightarrow> int \<times> pagepool_sys" where
  "vmm_pagepool_init h =
     (VMM_OK, \<lparr>pparr = map (\<lambda>i. \<lparr>pp_type = i, pp_root = RB_NULL, entry_list = [], pp_entry = (\<lambda>a. no_pool_entry)\<rparr>) [0..<VMM_PAGEPOOL_MAX], pp_heap = h\<rparr>)"

section \<open>The search for a run of free pages\<close>

definition run_at :: "bitmap \<Rightarrow> nat \<Rightarrow> nat \<Rightarrow> bool" where
  "run_at bm p n \<longleftrightarrow> (\<forall>k. p \<le> k \<and> k < p + n \<longrightarrow> \<not> bm_bit bm k)"

text \<open>A result of the search: a run of \<open>n\<close> free pages, or \<open>-1\<close> and there is none.\<close>

definition fits :: "bitmap \<Rightarrow> nat \<Rightarrow> nat \<Rightarrow> int \<Rightarrow> bool" where
  "fits bm n lim r \<longleftrightarrow>
     (if r < 0 then r = -1 \<and> (\<forall>p. p + n \<le> lim \<longrightarrow> \<not> run_at bm p n) else nat r + n \<le> lim \<and> run_at bm (nat r) n)"

text \<open>The invariant of its loop.\<close>

definition searching :: "bitmap \<Rightarrow> nat \<Rightarrow> nat \<Rightarrow> nat \<Rightarrow> nat \<Rightarrow> nat \<Rightarrow> bool" where
  "searching bm n lim i pos run \<longleftrightarrow> i \<le> lim \<and> pos + run = i \<and> run_at bm pos run \<and> run < n \<and> (\<forall>p < pos. \<not> run_at bm p n)"

lemma searching_used:
  assumes "searching bm n lim i pos run" "i < lim" "bm_bit bm i"
  shows "searching bm n lim (Suc i) (Suc i) 0"
proof -
  have "\<not> run_at bm p n" if "p < Suc i" for p
  proof (cases "p < pos")
    case True
    then show ?thesis using assms(1) by (simp add: searching_def)
  next
    case False
    then have "p \<le> i" "i < p + n" using that assms(1) by (auto simp: searching_def)
    then show ?thesis using assms(3) by (auto simp: run_at_def)
  qed
  then show ?thesis using assms(1,2) by (simp add: searching_def run_at_def)
qed

lemma searching_free:
  assumes "searching bm n lim i pos run" "i < lim" "\<not> bm_bit bm i"
  shows "run_at bm pos (Suc run)" "Suc run \<noteq> n \<Longrightarrow> searching bm n lim (Suc i) pos (Suc run)"
  using assms by (auto simp: searching_def run_at_def less_Suc_eq)

lemma searching_end: "searching bm n lim lim pos run \<Longrightarrow> fits bm n lim (-1)"
  by (auto simp: searching_def fits_def not_less)

lemma sint_small: "unat (w :: u32) < 2 ^ 31 \<Longrightarrow> sint w = int (unat w)"
proof -
  assume "unat w < 2 ^ 31"
  then have "uint w < 2 ^ 31" by (metis int_ops(3) of_nat_less_iff of_nat_numeral of_nat_power uint_nat)
  then have "signed_take_bit 31 (uint w) = uint w" using uint_ge_0 [of w] by (intro signed_take_bit_int_eq_self) linarith+
  then show ?thesis by (simp only: sint_uint) simp
qed

lemma find_bmap_from_fits:
  assumes "unat lim \<le> 64 * length bm" "unat lim < 2 ^ 31" "searching bm (unat n) (unat lim) (unat i) (unat pos) (unat run)"
  shows "\<exists>r. find_bmap_from bm n lim i pos run = Some r \<and> fits bm (unat n) (unat lim) r"
  using assms
proof (induction bm n lim i pos run rule: find_bmap_from.induct)
  case (1 bm n lim i pos run)
  note IH = 1(1) and len = 1(2,3) and s = 1(4)
  show ?case
  proof (cases "i < lim")
    case False
    then have "unat i = unat lim" using s by (simp add: word_less_nat_alt searching_def)
    then show ?thesis using False searching_end s by (simp add: find_bmap_from.simps)
  next
    case True
    then have l: "unat i < unat lim" by (simp add: word_less_nat_alt)
    have r: "unat run < unat n" "unat pos + unat run = unat i" "n \<noteq> 0" using s by (auto simp: searching_def)
    note up = unat_Suc_bounded [OF l] unat_Suc_bounded [OF r(1)]
    have b: "int_arg i = Some (unat i)" "bitmap_isset bm (unat i) = Some (bm_bit bm (unat i))" using l len by (simp_all add: int_arg_def)
    show ?thesis
    proof (cases "bm_bit bm (unat i)")
      case u: True
      have "\<exists>r. find_bmap_from bm n lim (i + 1) (i + 1) 0 = Some r \<and> fits bm (unat n) (unat lim) r"
        using IH [OF True b refl refl] len searching_used [OF s l u] up r(3) u by simp
      then show ?thesis using True b u r(3) by (subst find_bmap_from.simps) (simp add: Let_def)
    next
      case u: False
      note sf = searching_free [OF s l u]
      have "sint pos = int (unat pos)" using r(2) l len(2) by (simp add: sint_small)
      then have "fits bm (unat n) (unat lim) (sint pos)" if "n = run + 1" using that sf(1) up(2) r(2) l by (simp add: fits_def)
      moreover have "\<exists>r. find_bmap_from bm n lim (i + 1) pos (run + 1) = Some r \<and> fits bm (unat n) (unat lim) r" if "n \<noteq> run + 1"
      proof -
        have "Suc (unat run) \<noteq> unat n" using that up(2) by (metis unsigned_word_eqI)
        then show ?thesis using IH [OF True b refl refl] len sf(2) up that u by simp
      qed
      ultimately show ?thesis using True b u by (subst find_bmap_from.simps) (auto simp: Let_def)
    qed
  qed
qed

section \<open>The invariant of a pool\<close>

definition entry_ok :: "pagepool_entry \<Rightarrow> bool" where
  "entry_ok e \<longleftrightarrow> unat (pe_base e) + unat (pe_size e) < 2 ^ 64 \<and> unat (pe_size e) = 4096 * unat (pe_page_count e) \<and> 0 < pe_page_count e \<and>
     unat (pe_page_count e) < 2 ^ 31 \<and> unat (pe_page_count e) \<le> 64 * length (pe_bmap e) \<and>
     unat (pe_page_avail_count e) = card {i. i < unat (pe_page_count e) \<and> \<not> bm_bit (pe_bmap e) i}"

definition pe_end :: "pagepool_entry \<Rightarrow> u64" where "pe_end e = pe_base e + pe_size e"

definition pool_ok :: "pagepool_ctrl \<Rightarrow> bool" where
  "pool_ok pp \<longleftrightarrow> rb_root_ok (pp_root pp) \<and> rb.ranges (\<lambda>a. pe_base (pp_entry pp a)) (\<lambda>a. pe_end (pp_entry pp a)) (pp_root pp) \<and>
     distinct (entry_list pp) \<and> set (entry_list pp) = set (elems (pp_root pp)) \<and> (\<forall>a \<in> set (entry_list pp). entry_ok (pp_entry pp a))"

text \<open>The page of an entry that an address lies in, and the addresses whose page is in use.\<close>

definition page_in :: "pagepool_entry \<Rightarrow> u64 \<Rightarrow> nat \<Rightarrow> bool" where
  "page_in e x k \<longleftrightarrow> pe_base e \<le> x \<and> x < pe_end e \<and> k = (unat x - unat (pe_base e)) div 4096"

definition pages_used :: "pagepool_ctrl \<Rightarrow> u64 \<Rightarrow> bool" where
  "pages_used pp x \<longleftrightarrow> (\<exists>a \<in> set (entry_list pp). \<exists>k. page_in (pp_entry pp a) x k \<and> bm_bit (pe_bmap (pp_entry pp a)) k)"

definition in_pages_at :: "u64 \<Rightarrow> nat \<Rightarrow> u64 \<Rightarrow> bool" where
  "in_pages_at va n x \<longleftrightarrow> unat va \<le> unat x \<and> unat x < unat va + 4096 * n"

lemma pe_end_unat: "entry_ok e \<Longrightarrow> unat (pe_end e) = unat (pe_base e) + 4096 * unat (pe_page_count e)"
  unfolding entry_ok_def pe_end_def using unat_add_small by metis

lemma page_below: "entry_ok e \<Longrightarrow> page_in e x k \<Longrightarrow> k < unat (pe_page_count e)"
  using pe_end_unat [of e] by (auto simp: page_in_def word_less_nat_alt word_le_nat_alt div_less_iff_less_mult)

lemma page_addr:
  assumes "entry_ok e" "p + n \<le> unat (pe_page_count e)" "0 < n"
  shows "unat (pe_base e + of_nat p * VMM_PAGE_SIZE) = unat (pe_base e) + 4096 * p"
    "in_pages_at (pe_base e + of_nat p * VMM_PAGE_SIZE) n x \<longleftrightarrow> (\<exists>k. page_in e x k \<and> p \<le> k \<and> k < p + n)"
proof -
  have lim: "unat (pe_base e) + 4096 * unat (pe_page_count e) < 2 ^ 64" using assms(1) by (simp add: entry_ok_def)
  have p: "p < unat (pe_page_count e)" using assms(2,3) by linarith
  then have "4096 * p < 2 ^ 64" "p < 2 ^ 64" "unat (pe_base e) + 4096 * p < 2 ^ 64" using lim by linarith+
  then have m: "unat (of_nat p * VMM_PAGE_SIZE :: u64) = 4096 * p" by (simp add: unat_word_ariths unat_of_nat VMM_PAGE_SIZE_def order_size_def)
  show a: "unat (pe_base e + of_nat p * VMM_PAGE_SIZE) = unat (pe_base e) + 4096 * p"
    using unat_add_small [of "pe_base e" "of_nat p * VMM_PAGE_SIZE"] m \<open>unat (pe_base e) + 4096 * p < 2 ^ 64\<close> by simp
  have "unat (pe_base e) + 4096 * p \<le> unat x \<and> unat x < unat (pe_base e) + 4096 * p + 4096 * n \<longleftrightarrow>
    unat (pe_base e) \<le> unat x \<and> unat x < unat (pe_base e) + 4096 * unat (pe_page_count e) \<and>
      p \<le> (unat x - unat (pe_base e)) div 4096 \<and> (unat x - unat (pe_base e)) div 4096 < p + n"
    using assms(2) by (auto simp: less_eq_div_iff_mult_less_eq div_less_iff_less_mult)
  then show "in_pages_at (pe_base e + of_nat p * VMM_PAGE_SIZE) n x \<longleftrightarrow> (\<exists>k. page_in e x k \<and> p \<le> k \<and> k < p + n)"
    unfolding in_pages_at_def a page_in_def word_le_nat_alt word_less_nat_alt pe_end_unat [OF assms(1)] by auto
qed

lemma adjust_same:
  assumes "a \<in> set (entry_list pp)" "distinct (entry_list pp)"
  shows "pp_root (pagepool_adjust a pp) = pp_root pp" "pp_entry (pagepool_adjust a pp) = pp_entry pp" "pp_type (pagepool_adjust a pp) = pp_type pp"
    "set (entry_list (pagepool_adjust a pp)) = set (entry_list pp)" "distinct (entry_list (pagepool_adjust a pp))"
proof -
  have in_between: "set (us @ a # vs) = set l \<and> distinct (us @ a # vs)" if "us @ vs = remove1 a l" "a \<in> set l" "distinct l" for us vs l
  proof -
    have "set us \<union> set vs = set l - {a}" "distinct (us @ vs)" using that by (metis set_append set_remove1_eq, metis distinct_remove1)
    then show ?thesis using that(2) by auto
  qed
  show "set (entry_list (pagepool_adjust a pp)) = set (entry_list pp)" "distinct (entry_list (pagepool_adjust a pp))"
    using in_between [OF takeWhile_dropWhile_id assms] by (simp_all add: pagepool_adjust_def Let_def)
qed (simp_all add: pagepool_adjust_def Let_def)

text \<open>Replacing an entry by one with other pages in use.\<close>

lemma pool_update:
  assumes ok: "pool_ok pp" and a: "a \<in> set (entry_list pp)" and e: "entry_ok e'" "pe_base e' = pe_base (pp_entry pp a)" "pe_size e' = pe_size (pp_entry pp a)"
    and pp': "pp' = pagepool_adjust a (pp\<lparr>pp_entry := (pp_entry pp)(a := e')\<rparr>)"
  shows "pool_ok pp'" "set (entry_list pp') = set (entry_list pp)" "pp_entry pp' = (pp_entry pp)(a := e')"
    "pages_used pp' x \<longleftrightarrow> (\<exists>b \<in> set (entry_list pp) - {a}. \<exists>k. page_in (pp_entry pp b) x k \<and> bm_bit (pe_bmap (pp_entry pp b)) k) \<or>
       (\<exists>k. page_in (pp_entry pp a) x k \<and> bm_bit (pe_bmap e') k)"
proof -
  let ?p = "pp\<lparr>pp_entry := (pp_entry pp)(a := e')\<rparr>"
  have al: "a \<in> set (entry_list ?p)" "distinct (entry_list ?p)" using a ok by (simp_all add: pool_ok_def)
  note adj = adjust_same [OF al, folded pp', simplified]
  have "rb.ranges (\<lambda>b. pe_base (pp_entry pp' b)) (\<lambda>b. pe_end (pp_entry pp' b)) (pp_root pp)"
    using rb.ranges_cong [of "pp_root pp" "\<lambda>b. pe_base (pp_entry pp b)" "\<lambda>b. pe_base (pp_entry pp' b)" "\<lambda>b. pe_end (pp_entry pp b)" "\<lambda>b. pe_end (pp_entry pp' b)"]
      ok e adj(2) by (simp add: pool_ok_def pe_end_def)
  then show "pool_ok pp'" using ok e(1) adj by (auto simp: pool_ok_def)
  show "set (entry_list pp') = set (entry_list pp)" "pp_entry pp' = (pp_entry pp)(a := e')" using adj by simp_all
  have "page_in e' x k = page_in (pp_entry pp a) x k" for k using e by (simp add: page_in_def pe_end_def)
  moreover have "(\<exists>b \<in> set (entry_list pp). P b) \<longleftrightarrow> (\<exists>b \<in> set (entry_list pp) - {a}. P b) \<or> P a" for P using a by blast
  moreover have "(\<exists>b \<in> set (entry_list pp) - {a}. P (((pp_entry pp)(a := e')) b)) \<longleftrightarrow> (\<exists>b \<in> set (entry_list pp) - {a}. P (pp_entry pp b))" for P by auto
  ultimately show "pages_used pp' x \<longleftrightarrow> (\<exists>b \<in> set (entry_list pp) - {a}. \<exists>k. page_in (pp_entry pp b) x k \<and> bm_bit (pe_bmap (pp_entry pp b)) k) \<or>
       (\<exists>k. page_in (pp_entry pp a) x k \<and> bm_bit (pe_bmap e') k)"
    unfolding pages_used_def adj(2,4) by simp
qed

lemma page_in_unique:
  assumes "pool_ok pp" "a \<in> set (entry_list pp)" "b \<in> set (entry_list pp)" "page_in (pp_entry pp a) x k" "page_in (pp_entry pp b) x j"
  shows "a = b" "k = j"
proof -
  show "a = b" using rb.range_unique [of "\<lambda>a. pe_base (pp_entry pp a)" "\<lambda>a. pe_end (pp_entry pp a)" "pp_root pp" a x b] assms
    by (auto simp: pool_ok_def page_in_def)
  then show "k = j" using assms(4,5) by (simp add: page_in_def)
qed

lemma pages_used_entry:
  assumes "pool_ok pp" "a \<in> set (entry_list pp)" "page_in (pp_entry pp a) x k"
  shows "pages_used pp x \<longleftrightarrow> bm_bit (pe_bmap (pp_entry pp a)) k"
  using assms page_in_unique [OF assms(1)] unfolding pages_used_def by metis

text \<open>Setting and clearing a run of pages of an entry.\<close>

definition set_pages :: "pagepool_entry \<Rightarrow> bitmap \<Rightarrow> u32 \<Rightarrow> pagepool_entry" where
  "set_pages e bm av = e\<lparr>pe_bmap := bm, pe_page_avail_count := av\<rparr>"

lemma take_run:
  assumes ok: "entry_ok e" and r: "p + unat n \<le> unat (pe_page_count e)" "run_at (pe_bmap e) p (unat n)"
  obtains bm where "bitmap_set (pe_bmap e) p (unat n) = Some bm" "entry_ok (set_pages e bm (pe_page_avail_count e - n))"
    "\<And>k. bm_bit bm k \<longleftrightarrow> p \<le> k \<and> k < p + unat n \<or> bm_bit (pe_bmap e) k"
proof -
  let ?c = "unat (pe_page_count e)" and ?F = "\<lambda>bm. {i. i < unat (pe_page_count e) \<and> \<not> bm_bit bm i}"
  have "p + unat n \<le> 64 * length (pe_bmap e)" using ok r(1) by (simp add: entry_ok_def)
  then obtain bm where bm: "bitmap_set (pe_bmap e) p (unat n) = Some bm" "length bm = length (pe_bmap e)"
    "\<And>k. bm_bit bm k \<longleftrightarrow> p \<le> k \<and> k < p + unat n \<or> bm_bit (pe_bmap e) k" using bitmap_set_bits by blast
  have "{p..<p + unat n} \<subseteq> ?F (pe_bmap e)" using r by (auto simp: run_at_def)
  moreover have "?F bm = ?F (pe_bmap e) - {p..<p + unat n}" unfolding bm(3) by fastforce
  ultimately have "card (?F bm) = card (?F (pe_bmap e)) - card {p..<p + unat n}" "card {p..<p + unat n} \<le> card (?F (pe_bmap e))"
    by (simp only: card_Diff_subset finite_atLeastLessThan, intro card_mono) simp_all
  then have "card (?F bm) = card (?F (pe_bmap e)) - unat n" "unat n \<le> card (?F (pe_bmap e))" by (simp_all only: card_atLeastLessThan add_diff_cancel_left')
  moreover have "unat (pe_page_avail_count e) = card (?F (pe_bmap e))" using ok unfolding entry_ok_def by blast
  ultimately have "unat (pe_page_avail_count e - n) = card (?F bm)" using unat_sub [of n "pe_page_avail_count e"] unfolding word_le_nat_alt by metis
  then have "entry_ok (set_pages e bm (pe_page_avail_count e - n))" using ok bm(2) by (simp add: entry_ok_def set_pages_def)
  then show ?thesis using that bm by blast
qed

lemma clear_run:
  assumes ok: "entry_ok e" and r: "p + unat n \<le> unat (pe_page_count e)" "\<And>k. p \<le> k \<Longrightarrow> k < p + unat n \<Longrightarrow> bm_bit (pe_bmap e) k"
  obtains bm where "bitmap_clear (pe_bmap e) p (unat n) = Some bm" "entry_ok (set_pages e bm (pe_page_avail_count e + n))"
    "\<And>k. bm_bit bm k \<longleftrightarrow> \<not> (p \<le> k \<and> k < p + unat n) \<and> bm_bit (pe_bmap e) k" "n \<le> pe_page_count e - pe_page_avail_count e"
proof -
  let ?F = "\<lambda>bm. {i. i < unat (pe_page_count e) \<and> \<not> bm_bit bm i}"
  have "p + unat n \<le> 64 * length (pe_bmap e)" using ok r(1) by (simp add: entry_ok_def)
  then obtain bm where bm: "bitmap_clear (pe_bmap e) p (unat n) = Some bm" "length bm = length (pe_bmap e)"
    "\<And>k. bm_bit bm k \<longleftrightarrow> \<not> (p \<le> k \<and> k < p + unat n) \<and> bm_bit (pe_bmap e) k" using bitmap_clear_bits by blast
  have "?F bm = ?F (pe_bmap e) \<union> {p..<p + unat n}" "?F (pe_bmap e) \<inter> {p..<p + unat n} = {}" unfolding bm(3) using r by fastforce+
  then have c: "card (?F bm) = card (?F (pe_bmap e)) + unat n" by (simp add: card_Un_disjoint)
  have "?F bm \<subseteq> {..<unat (pe_page_count e)}" by auto
  then have le: "card (?F bm) \<le> unat (pe_page_count e)" using card_mono [of "{..<unat (pe_page_count e)}"] by fastforce
  have av: "unat (pe_page_avail_count e) = card (?F (pe_bmap e))" "unat (pe_page_count e) < 2 ^ 31" using ok by (simp_all add: entry_ok_def)
  have "unat (pe_page_avail_count e + n) = card (?F bm)" using av c le by (simp add: unat_word_ariths)
  then have "entry_ok (set_pages e bm (pe_page_avail_count e + n))" using ok bm(2) by (simp add: entry_ok_def set_pages_def)
  moreover have "n \<le> pe_page_count e - pe_page_avail_count e" using av(1) c le by (simp add: word_le_nat_alt unat_sub)
  ultimately show ?thesis using that bm by blast
qed

lemma take_spec:
  assumes ok: "pool_ok pp" and a: "a \<in> set (entry_list pp)" and t: "pagepool_take a n pp = Some (va, pp')"
  shows "pool_ok pp'" "set (entry_list pp') = set (entry_list pp)" "n \<noteq> 0"
    "pe_bmap_ptr (pp_entry pp' b) = pe_bmap_ptr (pp_entry pp b)" "pe_base (pp_entry pp' b) = pe_base (pp_entry pp b)" "pe_size (pp_entry pp' b) = pe_size (pp_entry pp b)"
    "pages_used pp' x \<longleftrightarrow> pages_used pp x \<or> in_pages_at va (unat n) x" "in_pages_at va (unat n) x \<Longrightarrow> \<not> pages_used pp x"
proof -
  let ?e = "pp_entry pp a"
  have e: "entry_ok ?e" using ok a by (simp add: pool_ok_def)
  obtain pos bm where t1: "pagepool_find_bmap ?e n = Some pos" "0 \<le> pos" "unat n < 2 ^ 31" "bitmap_set (pe_bmap ?e) (nat pos) (unat n) = Some bm"
    "va = pe_base ?e + of_int pos * VMM_PAGE_SIZE"
    "pp' = pagepool_adjust a (pp\<lparr>pp_entry := (pp_entry pp)(a := set_pages ?e bm (pe_page_avail_count ?e - n))\<rparr>)"
    using t by (auto simp: pagepool_take_def Let_def bind_eq_Some_conv int_arg_def set_pages_def split: if_splits)
  show n: "n \<noteq> 0" using t1(1,2) by (auto simp: pagepool_find_bmap_def)
  have "searching (pe_bmap ?e) (unat n) (unat (pe_page_count ?e)) (unat (0 :: u32)) (unat (0 :: u32)) (unat (0 :: u32))"
    using n by (simp add: searching_def run_at_def unat_gt_0)
  then have f: "nat pos + unat n \<le> unat (pe_page_count ?e)" "run_at (pe_bmap ?e) (nat pos) (unat n)"
    using find_bmap_from_fits [of "pe_page_count ?e" "pe_bmap ?e" n 0 0 0] e t1(1,2) n by (auto simp: entry_ok_def fits_def pagepool_find_bmap_def)
  have b: "entry_ok (set_pages ?e bm (pe_page_avail_count ?e - n))" "bm_bit bm k \<longleftrightarrow> nat pos \<le> k \<and> k < nat pos + unat n \<or> bm_bit (pe_bmap ?e) k" for k
    using take_run [OF e f] t1(4) by auto
  note pu = pool_update [OF ok a b(1) _ _ t1(6)]
  show "pool_ok pp'" "set (entry_list pp') = set (entry_list pp)" "pe_bmap_ptr (pp_entry pp' b) = pe_bmap_ptr (pp_entry pp b)"
    "pe_base (pp_entry pp' b) = pe_base (pp_entry pp b)" "pe_size (pp_entry pp' b) = pe_size (pp_entry pp b)"
    using pu(1-3) by (simp_all add: set_pages_def)
  have "va = pe_base ?e + of_nat (nat pos) * VMM_PAGE_SIZE" using t1(2,5) by simp
  then have ip: "in_pages_at va (unat n) x \<longleftrightarrow> (\<exists>k. page_in ?e x k \<and> nat pos \<le> k \<and> k < nat pos + unat n)"
    using page_addr(2) [OF e f(1)] n by (simp add: unat_gt_0)
  show "pages_used pp' x \<longleftrightarrow> pages_used pp x \<or> in_pages_at va (unat n) x"
    using pu(4) [of x] b(2) a unfolding ip by (auto simp: set_pages_def pages_used_def)
  show "\<not> pages_used pp x" if "in_pages_at va (unat n) x"
    using that f(2) pages_used_entry [OF ok a] unfolding ip run_at_def by auto
qed

section \<open>The memory of the entries\<close>

definition heap_owns :: "heap_sys \<Rightarrow> u64 \<Rightarrow> bool" where
  "heap_owns s p \<longleftrightarrow> (\<exists>l > 0. (unat p, l) \<in> owned_ranges (h_ba (normal_heap s)))"

lemma zalloc_owns:
  assumes ok: "heap_ok (normal_heap s)" and z: "vmm_zalloc n s = Some (p, s')" and p: "p \<noteq> 0"
  shows "heap_ok (normal_heap s')" "heap_owns s' p" "heap_owns s q \<Longrightarrow> heap_owns s' q \<and> q \<noteq> p"
proof -
  obtain h where h: "heap_malloc n (normal_heap s) = Some (p, h)" "normal_heap s' = h"
    using z p by (auto simp: vmm_zalloc_def vmm_malloc_def memset_bytes_def)
  have "heap_alloc_result n (normal_heap s) = Some (Inr p, h)" using h(1) p by (simp add: heap_alloc_result_def)
  then obtain l where l: "heap_ok h" "0 < l" "owned_ranges (h_ba h) = insert (unat p, l) (owned_ranges (h_ba (normal_heap s)))"
    "\<forall>x. unat p \<le> x \<and> x < unat p + l \<longrightarrow> \<not> used_byte (h_ba (normal_heap s)) x" using heap.alloc_fresh [OF ok] by blast
  show "heap_ok (normal_heap s')" "heap_owns s' p" using l h(2) by (auto simp: heap_owns_def)
  show "heap_owns s' q \<and> q \<noteq> p" if o: "heap_owns s q"
  proof -
    obtain k where k: "0 < k" "(unat q, k) \<in> owned_ranges (h_ba (normal_heap s))" using o by (auto simp: heap_owns_def)
    then have "used_byte (h_ba (normal_heap s)) (unat q)" using heap.owned_used [OF ok k(2)] by simp
    then show ?thesis using k l h(2) by (auto simp: heap_owns_def)
  qed
qed

lemma zalloc_fails: "heap_ok (normal_heap s) \<Longrightarrow> vmm_zalloc n s = Some (0, s') \<Longrightarrow> s' = s"
  using heap.alloc_fails [of "normal_heap s" n VMM_ENOMEM] by (auto simp: vmm_zalloc_def vmm_malloc_def heap_alloc_result_def)

lemma free_owns:
  assumes ok: "heap_ok (normal_heap s)" and p: "heap_owns s p"
  obtains s' where "vmm_free p s = Some s'" "heap_ok (normal_heap s')" "hp_host s' = hp_host s" "\<And>q. heap_owns s q \<Longrightarrow> q \<noteq> p \<Longrightarrow> heap_owns s' q"
proof -
  obtain l where l: "0 < l" "(unat p, l) \<in> owned_ranges (h_ba (normal_heap s))" using p by (auto simp: heap_owns_def)
  obtain h where h: "heap_free_result p (normal_heap s) = Some (VMM_OK, h)" "heap_ok h" "owned_ranges (h_ba h) = owned_ranges (h_ba (normal_heap s)) - {(unat p, l)}"
    using heap.free_owned [OF ok l(2,1)] by blast
  have "vmm_free p s = Some (s\<lparr>normal_heap := h\<rparr>)" using h(1) by (auto simp: vmm_free_def heap_free_result_def)
  moreover have "unat q \<noteq> unat p" if "q \<noteq> p" for q using that unsigned_word_eqI by blast
  ultimately show ?thesis using that [of "s\<lparr>normal_heap := h\<rparr>"] h(2,3) by (auto simp: heap_owns_def)
qed

text \<open>The heap holds every entry and every bitmap at an address of its own.\<close>

definition pool_mem_ok :: "pagepool_ctrl \<Rightarrow> heap_sys \<Rightarrow> bool" where
  "pool_mem_ok pp s \<longleftrightarrow> heap_ok (normal_heap s) \<and> (\<forall>a \<in> set (entry_list pp). heap_owns s a \<and> heap_owns s (pe_bmap_ptr (pp_entry pp a))) \<and>
     (\<forall>a \<in> set (entry_list pp). \<forall>b \<in> set (entry_list pp). a \<noteq> pe_bmap_ptr (pp_entry pp b)) \<and>
     inj_on (\<lambda>a. pe_bmap_ptr (pp_entry pp a)) (set (entry_list pp))"

section \<open>A new entry\<close>

lemma unat_take_bit_mod: "unat (take_bit k x) = unat x mod 2 ^ k"
  by (simp only: unsigned_take_bit_eq) (simp only: take_bit_eq_mod)

lemma unat_order_align: "unat (order_align x k) = unat x - unat x mod 2 ^ k" if "k < 64"
proof -
  have "order_align x k = push_bit k (drop_bit k x)"
    by (simp add: order_align_def order_mask_def order_size_def mask_eq_exp_minus_1 [symmetric] bit_eq_iff bit_simps) auto
  then have e: "order_align x k = x - take_bit k x" using bits_ident [of k x] by (metis add_diff_cancel_right')
  note t = unat_take_bit_mod [of k x]
  then have "take_bit k x \<le> x" by (simp add: word_le_nat_alt)
  then show ?thesis using t by (simp add: e unat_sub)
qed

lemma roundup_bounds:
  assumes "unat x + 2 ^ k < 2 ^ 64" "k < 64"
  shows "2 ^ k dvd unat (roundup2_order_size x k)" "unat x \<le> unat (roundup2_order_size x k)" "unat (roundup2_order_size x k) < unat x + 2 ^ k"
proof -
  have t: "x AND order_mask k = 0 \<longleftrightarrow> unat x mod 2 ^ k = 0"
    using unat_take_bit_mod [of k x] by (simp add: and_order_mask flip: unat_eq_0)
  have al: "unat (order_align x k) = unat x - unat x mod 2 ^ k" "unat (order_size k) = 2 ^ k"
    using unat_order_align [OF assms(2)] assms(2) by (simp_all add: unat_order_size)
  define q where "q = unat x div 2 ^ k * 2 ^ k"
  have x: "unat x = q + unat x mod 2 ^ k" "unat x mod 2 ^ k < 2 ^ k" unfolding q_def by (rule div_mult_mod_eq [symmetric], simp)
  have "unat (order_align x k + order_size k) = q + 2 ^ k" using unat_add_small [of "order_align x k" "order_size k"] al x(1) assms(1) by linarith
  then have v: "unat (roundup2_order_size x k) = (if unat x mod 2 ^ k = 0 then q else q + 2 ^ k)" using t x(1) by (simp add: roundup2_order_size_def)
  then show "2 ^ k dvd unat (roundup2_order_size x k)" by (simp add: q_def)
  have "unat (roundup2_order_size x k) = q \<and> unat x mod 2 ^ k = 0 \<or> unat (roundup2_order_size x k) = q + 2 ^ k \<and> unat x mod 2 ^ k \<noteq> 0" by (simp add: v)
  then show "unat x \<le> unat (roundup2_order_size x k)" "unat (roundup2_order_size x k) < unat x + 2 ^ k" using x by linarith+
qed

lemma new_entry_ok:
  assumes n: "n0 \<noteq> 0" "unat n0 < 2 ^ 30" and sz: "sz = roundup2_order_size (ucast n0 * VMM_PAGE_SIZE) arch_cpu_aspace_hugepage_log2size"
    and c: "c = ucast (drop_bit VMM_PAGE_SHIFT sz)" and lg: "lg = ((c + 63) div 64 :: u32)" and w: "unat base + unat sz < 2 ^ 64"
  shows "entry_ok \<lparr>pe_base = base, pe_size = sz, pe_hugepage_count = hn, pe_page_count = c, pe_page_avail_count = c, pe_bmap = replicate (unat lg) 0, pe_bmap_ptr = b\<rparr>"
    "k < unat c \<Longrightarrow> \<not> bm_bit (replicate (unat lg) 0) k" "unat n0 \<le> unat c"
proof -
  have s: "arch_cpu_aspace_hugepage_log2size = 21" by (simp add: arch_cpu_aspace_hugepage_log2size_def arch_mmu_level_block_shift_def)
  have x: "unat (ucast n0 * VMM_PAGE_SIZE :: u64) = 4096 * unat n0"
    using n(2) by (simp add: unat_word_ariths unsigned_ucast_eq take_bit_eq_mod VMM_PAGE_SIZE_def order_size_def)
  have z: "2 ^ 21 dvd unat sz" "4096 * unat n0 \<le> unat sz" "unat sz < 4096 * unat n0 + 2 ^ 21"
    using roundup_bounds [of "ucast n0 * VMM_PAGE_SIZE" 21] x n(2) unfolding sz s by simp_all
  have "(4096 :: nat) dvd 2 ^ 21" by simp
  then obtain m where m: "unat sz = 4096 * m" using z(1) dvd_trans by blast
  have mm: "unat n0 \<le> m" "m < 2 ^ 31" using z m n(2) by simp_all
  then have cm: "unat c = m" 
  proof -
    have "unat (drop_bit VMM_PAGE_SHIFT sz) = m" by (simp only: unat_drop_bit_eq) (simp add: drop_bit_eq_div m)
    then show ?thesis unfolding c using mm(2) by (simp only: unsigned_ucast_eq) (simp add: take_bit_eq_mod)
  qed
  then show "unat n0 \<le> unat c" using mm by simp
  have l: "unat lg = (m + 63) div 64" unfolding lg using cm mm(2) by (simp add: unat_div unat_word_ariths)
  have m64: "m \<le> 64 * unat lg" unfolding l by linarith
  show nb: "\<not> bm_bit (replicate (unat lg) 0) k" if "k < unat c" for k
    using that m64 cm by (simp add: bm_bit_def less_mult_imp_div_less mult.commute)
  then have "{i. i < unat c \<and> \<not> bm_bit (replicate (unat lg) 0) i} = {..<unat c}" by auto
  moreover have "0 < c" using mm(1) n(1) cm unat_gt_0 [of n0] by (simp add: word_less_nat_alt)
  ultimately show "entry_ok \<lparr>pe_base = base, pe_size = sz, pe_hugepage_count = hn, pe_page_count = c, pe_page_avail_count = c, pe_bmap = replicate (unat lg) 0, pe_bmap_ptr = b\<rparr>"
    using w m m64 cm mm(2) by (simp add: entry_ok_def)
qed

lemma pool_link_spec:
  assumes ok: "pool_ok pp" and a: "a \<notin> set (entry_list pp)" and e: "entry_ok e" "\<And>k. k < unat (pe_page_count e) \<Longrightarrow> \<not> bm_bit (pe_bmap e) k"
    and l: "pagepool_link a e pp = Some pp'"
  shows "pool_ok pp'" "set (entry_list pp') = insert a (set (entry_list pp))" "pp_entry pp' = (pp_entry pp)(a := e)" "pages_used pp' x = pages_used pp x"
proof -
  let ?ent = "(pp_entry pp)(a := e)"
  let ?lo = "\<lambda>b. pe_base (?ent b)" and ?hi = "\<lambda>b. pe_end (?ent b)"
  have cmp: "add_entry_cmp ?ent a = (\<lambda>y. if ?hi a \<le> ?lo y then Go_left else if ?hi y \<le> ?lo a then Go_right else Stop)"
    by (simp add: add_entry_cmp_def pe_end_def Let_def fun_eq_iff)
  have r: "rb_root_ok (pp_root pp)" "set (entry_list pp) = set (elems (pp_root pp))" "distinct (entry_list pp)" using ok by (simp_all add: pool_ok_def)
  have "rb.ranges ?lo ?hi (pp_root pp) = rb.ranges (\<lambda>b. pe_base (pp_entry pp b)) (\<lambda>b. pe_end (pp_entry pp b)) (pp_root pp)"
    by (rule rb.ranges_cong) (use a r(2) in auto)
  then have rg: "rb.ranges ?lo ?hi (pp_root pp)" using ok by (simp add: pool_ok_def)
  have lt: "?lo a < ?hi a" using pe_end_unat [OF e(1)] e(1) by (simp add: word_less_nat_alt entry_ok_def)
  obtain t where t: "rb_insert_by (add_entry_cmp ?ent a) a (pp_root pp) = Some (Inr t)"
    "pp' = pagepool_adjust a (pp\<lparr>pp_entry := ?ent, pp_root := t, entry_list := entry_list pp @ [a]\<rparr>)"
    using l by (auto simp: pagepool_link_def Let_def split: option.splits sum.splits)
  have "?hi a \<le> ?lo y \<or> ?hi y \<le> ?lo a" if "y \<in> set (elems (pp_root pp))" for y
  proof (rule ccontr)
    assume "\<not> (?hi a \<le> ?lo y \<or> ?hi y \<le> ?lo a)"
    then have "?lo y < ?hi a" "?lo a < ?hi y" by (simp_all only: not_le de_Morgan_disj)
    from rb.ins_range_taken [OF r(1) rg lt that this, folded cmp] show False using t(1) by auto
  qed
  then have "\<forall>y \<in> set (elems (pp_root pp)). ?hi a \<le> ?lo y \<or> ?hi y \<le> ?lo a" by blast
  then obtain t' where t': "rb_insert_by (add_entry_cmp ?ent a) a (pp_root pp) = Some (Inr t')" "rb_root_ok t'" "rb.ranges ?lo ?hi t'"
    "set (elems t') = insert a (set (elems (pp_root pp)))" using rb.ins_range [OF r(1) rg lt, folded cmp] by blast
  have tt: "t' = t" using t(1) t'(1) by simp
  have al: "a \<in> set (entry_list (pp\<lparr>pp_entry := ?ent, pp_root := t, entry_list := entry_list pp @ [a]\<rparr>))"
    "distinct (entry_list (pp\<lparr>pp_entry := ?ent, pp_root := t, entry_list := entry_list pp @ [a]\<rparr>))" using a r(3) by simp_all
  note adj = adjust_same [OF al, folded t(2), simplified]
  show "set (entry_list pp') = insert a (set (entry_list pp))" "pp_entry pp' = ?ent" using adj by simp_all
  show "pool_ok pp'" using adj t' e(1) r(2) ok unfolding pool_ok_def tt by simp
  have "\<not> (page_in e x k \<and> bm_bit (pe_bmap e) k)" for k
  proof
    assume p: "page_in e x k \<and> bm_bit (pe_bmap e) k"
    then have "k < unat (pe_page_count e)" using page_below [OF e(1)] by blast
    then show False using e(2) p by simp
  qed
  moreover have "(\<exists>b \<in> set (entry_list pp). \<exists>k. page_in (?ent b) x k \<and> bm_bit (pe_bmap (?ent b)) k) \<longleftrightarrow>
      (\<exists>b \<in> set (entry_list pp). \<exists>k. page_in (pp_entry pp b) x k \<and> bm_bit (pe_bmap (pp_entry pp b)) k)" using a by (metis fun_upd_other)
  ultimately show "pages_used pp' x = pages_used pp x" unfolding pages_used_def adj(2,4) bex_simps fun_upd_same by blast
qed

lemma add_new_spec:
  assumes ok: "pool_ok pp" "pool_mem_ok pp s" and n: "n \<noteq> 0" "unat n < 2 ^ 30"
    and r: "pagepool_add_new_entry C n (pp, s) = Some (Some a, pp', s')" and w: "unat (pe_base (pp_entry pp' a)) + unat (pe_size (pp_entry pp' a)) < 2 ^ 64"
  shows "pool_ok pp'" "pool_mem_ok pp' s'" "a \<in> set (entry_list pp')" "pages_used pp' x = pages_used pp x"
proof -
  define sz where "sz = roundup2_order_size (ucast n * VMM_PAGE_SIZE) arch_cpu_aspace_hugepage_log2size"
  define c where "c = (ucast (drop_bit VMM_PAGE_SHIFT sz) :: u32)"
  define lg where "lg = (c + 63) div 64"
  obtain base hn hs s1 b where r1: "vmm_zalloc sizeof_pagepool_entry (s\<lparr>hp_host := hs\<rparr>) = Some (a, s1)" "a \<noteq> 0"
    "vmm_zalloc (ucast lg * 8) s1 = Some (b, s')" "b \<noteq> 0"
    "pagepool_link a \<lparr>pe_base = base, pe_size = sz, pe_hugepage_count = hn, pe_page_count = c, pe_page_avail_count = c, pe_bmap = replicate (unat lg) 0, pe_bmap_ptr = b\<rparr> pp = Some pp'"
    using r unfolding pagepool_add_new_entry_def Let_def sz_def [symmetric] c_def [symmetric] lg_def [symmetric] prod.case
    by (auto simp: bind_eq_Some_conv split: if_split_asm)
  let ?e = "\<lparr>pe_base = base, pe_size = sz, pe_hugepage_count = hn, pe_page_count = c, pe_page_avail_count = c, pe_bmap = replicate (unat lg) 0, pe_bmap_ptr = b\<rparr>"
  have h: "heap_ok (normal_heap (s\<lparr>hp_host := hs\<rparr>))" and ow: "heap_owns (s\<lparr>hp_host := hs\<rparr>) q = heap_owns s q" for q
    using ok(2) by (simp_all add: pool_mem_ok_def heap_owns_def)
  note z1 = zalloc_owns [OF h r1(1,2)]
  note z2 = zalloc_owns [OF z1(1) r1(3,4)]
  have an: "a \<notin> set (entry_list pp)" using z1(3) ow ok(2) by (auto simp: pool_mem_ok_def)
  have "unat base + unat sz < 2 ^ 64" using w r1(5) by (auto simp: pagepool_link_def pagepool_adjust_def Let_def split: option.splits sum.splits)
  note ne = new_entry_ok [OF n sz_def c_def lg_def this]
  have e: "entry_ok ?e" "\<And>k. k < unat (pe_page_count ?e) \<Longrightarrow> \<not> bm_bit (pe_bmap ?e) k" using ne(1,2) by simp_all
  note l = pool_link_spec [OF ok(1) an e r1(5)]
  show "pool_ok pp'" "a \<in> set (entry_list pp')" "pages_used pp' x = pages_used pp x" using l by simp_all
  have old: "heap_owns s' q \<and> q \<noteq> a \<and> q \<noteq> b" if "heap_owns s q" for q using z1(3) [of q] z2(3) [of q] ow [of q] that by auto
  have new: "heap_owns s' a" "heap_owns s' b" "a \<noteq> b" using z1(2) z2(2) z2(3) [of a] by auto
  have ptr: "pe_bmap_ptr (pp_entry pp' q) = (if q = a then b else pe_bmap_ptr (pp_entry pp q))" for q using l(3) by simp
  have "\<forall>q \<in> set (entry_list pp). (heap_owns s' q \<and> q \<noteq> a \<and> q \<noteq> b) \<and>
      heap_owns s' (pe_bmap_ptr (pp_entry pp q)) \<and> pe_bmap_ptr (pp_entry pp q) \<noteq> a \<and> pe_bmap_ptr (pp_entry pp q) \<noteq> b"
    using old ok(2) unfolding pool_mem_ok_def by blast
  then show "pool_mem_ok pp' s'" using ok(2) new z2(1) unfolding pool_mem_ok_def inj_on_def by (simp only: l(2) ptr) auto
qed

text \<open>
  Property C24: whatever \<^verbatim>\<open>pagepool_alloc\<close> returns, from an entry of the pool or from one added for the request, is a range of pages that
  were not in use, and afterwards exactly these pages are in use in addition. The invariant of the pool and of its memory in the
  heap is kept. The request is for fewer than \<open>2\<^sup>3\<^sup>0\<close> pages, and no entry reaches the end of the address space.\<close>
theorem pagepool_alloc_fresh:
  assumes "pool_ok pp" and "pool_mem_ok pp s" and "unat n < 2 ^ 30" and "pagepool_alloc C n (pp, s) = Some (va, pp', s')"
    and "\<forall>a \<in> set (entry_list pp'). unat (pe_base (pp_entry pp' a)) + unat (pe_size (pp_entry pp' a)) < 2 ^ 64"
  shows "pool_ok pp' \<and> pool_mem_ok pp' s' \<and> (\<forall>x. pages_used pp' x \<longleftrightarrow> pages_used pp x \<or> in_pages_at va (unat n) x) \<and>
    (\<forall>x. in_pages_at va (unat n) x \<longrightarrow> \<not> pages_used pp x)"
proof -
  obtain found a pp1 where r: "pagepool_find_alloc_entry pp n = Some found"
    "(case found of None \<Rightarrow> pagepool_add_new_entry C n (pp, s) | Some a \<Rightarrow> Some (Some a, pp, s)) = Some (Some a, pp1, s')"
    "pagepool_take a n pp1 = Some (va, pp')"
    using assms(4) by (auto simp: pagepool_alloc_def bind_eq_Some_conv)
  have found_in: "find_alloc_in ent n as = Some (Some a) \<Longrightarrow> a \<in> set as" for ent as
    by (induction as) (auto simp: bind_eq_Some_conv split: if_split_asm)
  have n: "n \<noteq> 0" using r(3) by (auto simp: pagepool_take_def pagepool_find_bmap_def Let_def bind_eq_Some_conv)
  have "pool_ok pp1 \<and> pool_mem_ok pp1 s' \<and> a \<in> set (entry_list pp1) \<and> pages_used pp1 = pages_used pp"
  proof (cases found)
    case None
    have "a \<in> set (entry_list pp')" "pe_base (pp_entry pp' a) = pe_base (pp_entry pp1 a)" "pe_size (pp_entry pp' a) = pe_size (pp_entry pp1 a)"
      using r(3) by (auto simp: pagepool_take_def pagepool_adjust_def Let_def bind_eq_Some_conv)
    then have "unat (pe_base (pp_entry pp1 a)) + unat (pe_size (pp_entry pp1 a)) < 2 ^ 64" using assms(5) by metis
    then show ?thesis using add_new_spec [OF assms(1,2) n assms(3)] r(2) None by (auto simp: fun_eq_iff)
  next
    case (Some b)
    then show ?thesis using r(1,2) assms(1,2) found_in by (auto simp: pagepool_find_alloc_entry_def)
  qed
  then have p1: "pool_ok pp1" "pool_mem_ok pp1 s'" "a \<in> set (entry_list pp1)" "pages_used pp1 = pages_used pp" by simp_all
  note t = take_spec [OF p1(1,3) r(3)]
  have "pool_mem_ok pp' s'" using p1(2) t(2,4) by (simp add: pool_mem_ok_def)
  then show ?thesis using t p1(4) by simp
qed

lemma adjust_iff:
  assumes "a \<in> set (entry_list pp)" "distinct (entry_list pp)"
  shows "pool_ok (pagepool_adjust a pp) = pool_ok pp" "pages_used (pagepool_adjust a pp) = pages_used pp" "pool_mem_ok (pagepool_adjust a pp) s = pool_mem_ok pp s"
  using adjust_same [OF assms] assms(2) by (simp_all add: pool_ok_def pages_used_def pool_mem_ok_def fun_eq_iff)

lemma no_page_used:
  assumes "entry_ok e" "pe_page_avail_count e = pe_page_count e" "k < unat (pe_page_count e)"
  shows "\<not> bm_bit (pe_bmap e) k"
proof -
  let ?F = "{i. i < unat (pe_page_count e) \<and> \<not> bm_bit (pe_bmap e) i}"
  have "card ?F = card {..<unat (pe_page_count e)}" "?F \<subseteq> {..<unat (pe_page_count e)}" using assms(1,2) by (auto simp: entry_ok_def)
  then have "?F = {..<unat (pe_page_count e)}" by (intro card_subset_eq) simp_all
  then show ?thesis using assms(3) by blast
qed

lemma del_spec:
  assumes ok: "pool_ok pp" "pool_mem_ok pp s" and a: "a \<in> set (entry_list pp)" and e: "pe_page_avail_count (pp_entry pp a) = pe_page_count (pp_entry pp a)"
    and h: "vmm_host_free_hugepages C (pe_base (pp_entry pp a)) (pe_hugepage_count (pp_entry pp a)) (hp_host s) \<noteq> None"
  obtains pp' s' where "pagepool_del_entry C a (pp, s) = Some (pp', s')" "pool_ok pp'" "pool_mem_ok pp' s'" "pages_used pp' = pages_used pp"
proof -
  let ?p = "pe_bmap_ptr (pp_entry pp a)"
  have r: "rb_root_ok (pp_root pp)" "rb.ranges (\<lambda>a. pe_base (pp_entry pp a)) (\<lambda>a. pe_end (pp_entry pp a)) (pp_root pp)" "set (entry_list pp) = set (elems (pp_root pp))"
    "distinct (entry_list pp)" "entry_ok (pp_entry pp a)" using ok(1) a by (simp_all add: pool_ok_def)
  obtain t where t: "rb_remove a (pp_root pp) = Some t" "rb_root_ok t" "elems t = remove1 a (elems (pp_root pp))"
    using rb.del_in [OF r(1) rb.ranges_distinct [OF r(2)]] a r(3) by blast
  define pp' where "pp' = pp\<lparr>pp_root := t, entry_list := remove1 a (entry_list pp)\<rparr>"
  obtain rc hs where hs: "vmm_host_free_hugepages C (pe_base (pp_entry pp a)) (pe_hugepage_count (pp_entry pp a)) (hp_host s) = Some (rc, hs)" using h by auto
  let ?s1 = "s\<lparr>hp_host := hs\<rparr>"
  have m: "heap_ok (normal_heap ?s1)" "heap_owns ?s1 q = heap_owns s q" "heap_owns s ?p" "heap_owns s a" "a \<noteq> ?p" for q
    using ok(2) a by (simp_all add: pool_mem_ok_def heap_owns_def)
  obtain s2 where s2: "vmm_free ?p ?s1 = Some s2" "heap_ok (normal_heap s2)" "\<And>q. heap_owns ?s1 q \<Longrightarrow> q \<noteq> ?p \<Longrightarrow> heap_owns s2 q"
    by (rule free_owns [OF m(1), of ?p], simp only: m(2,3), rule that; assumption)
  have oa: "heap_owns s2 a" using s2(3) m by simp
  obtain s3 where s3: "vmm_free a s2 = Some s3" "heap_ok (normal_heap s3)" "\<And>q. heap_owns s2 q \<Longrightarrow> q \<noteq> a \<Longrightarrow> heap_owns s3 q"
    by (rule free_owns [OF s2(2) oa], rule that; assumption)
  have S: "set (entry_list pp') = set (entry_list pp) - {a}" "pp_entry pp' = pp_entry pp" "pp_root pp' = t" using r(4) by (simp_all add: pp'_def)
  have keep: "heap_owns s3 q" if "heap_owns s q" "q \<noteq> a" "q \<noteq> ?p" for q using that s2(3) s3(3) m(2) by simp
  have "heap_owns s3 q \<and> heap_owns s3 (pe_bmap_ptr (pp_entry pp q))" if "q \<in> set (entry_list pp)" "q \<noteq> a" for q
    using ok(2) keep [of q] keep [of "pe_bmap_ptr (pp_entry pp q)"] that a unfolding pool_mem_ok_def inj_on_def by metis
  then have "pool_mem_ok pp' s3" using ok(2) s3(2) unfolding pool_mem_ok_def S by (simp add: inj_on_def)
  moreover have "pool_ok pp'"
    using ok(1) t(2,3) rb.ranges_remove1 [OF r(2) t(3)] rb.ranges_distinct [OF r(2)] r(3,4) unfolding pool_ok_def S by (simp add: pp'_def)
  moreover have "\<not> bm_bit (pe_bmap (pp_entry pp a)) k" if "page_in (pp_entry pp a) x k" for x k
    using no_page_used [OF r(5) e page_below [OF r(5) that]] .
  then have "pages_used pp' = pages_used pp" unfolding fun_eq_iff pages_used_def S by blast
  moreover have "pagepool_del_entry C a (pp, s) = Some (pp', s3)" using t(1) hs s2(1) s3(1) by (simp add: pagepool_del_entry_def drop_hugepages_def pp'_def)
  ultimately show ?thesis using that by blast
qed

lemma find_by_va_spec:
  assumes "pool_ok pp" "a \<in> set (entry_list pp)" "page_in (pp_entry pp a) va k"
  shows "pagepool_find_by_va pp va = Some a"
proof -
  let ?lo = "\<lambda>a. pe_base (pp_entry pp a)" and ?hi = "\<lambda>a. pe_end (pp_entry pp a)"
  have r: "rb_root_ok (pp_root pp)" "rb.ranges ?lo ?hi (pp_root pp)" "a \<in> set (elems (pp_root pp))" using assms(1,2) by (simp_all add: pool_ok_def)
  have v: "?lo a \<le> va" "va < ?hi a" using assms(3) by (simp_all add: page_in_def)
  have "find_va_cmp pp va = (\<lambda>y. if va < ?lo y then Go_left else if ?hi y \<le> va then Go_right else Stop)"
    by (simp add: find_va_cmp_def pe_end_def Let_def fun_eq_iff not_less) (simp add: not_le)
  then have s: "(case pagepool_find_by_va pp va of None \<Rightarrow> \<forall>y \<in> set (elems (pp_root pp)). va < ?lo y \<or> ?hi y \<le> va
    | Some y \<Rightarrow> y \<in> set (elems (pp_root pp)) \<and> ?lo y \<le> va \<and> va < ?hi y)"
    using rb.search_point [OF r(1,2), of va] unfolding pagepool_find_by_va_def by simp
  show ?thesis
  proof (cases "pagepool_find_by_va pp va")
    case None
    then have "va < ?lo a \<or> ?hi a \<le> va" using s r(3) by simp
    then show ?thesis using v by (meson not_le)
  next
    case (Some y)
    then show ?thesis using s rb.range_unique [OF r(2,3) v, of y] by simp
  qed
qed

text \<open>The address of a page, and the position that is computed back from it.\<close>

lemma page_index:
  assumes "entry_ok e" "p < unat (pe_page_count e)" and va: "va = pe_base e + of_nat p * VMM_PAGE_SIZE"
  shows "page_in e va p" "int_arg (ucast (drop_bit VMM_PAGE_SHIFT (va - pe_base e))) = Some p"
proof -
  have lim: "unat (pe_base e) + 4096 * unat (pe_page_count e) < 2 ^ 64" "unat (pe_page_count e) < 2 ^ 31" using assms(1) by (simp_all add: entry_ok_def)
  have u: "unat va = unat (pe_base e) + 4096 * p" unfolding va using page_addr(1) [OF assms(1), of p 1] assms(2) by simp
  then show "page_in e va p" using pe_end_unat [OF assms(1)] assms(2) by (simp add: page_in_def word_le_nat_alt word_less_nat_alt)
  have "unat (va - pe_base e) = 4096 * p" using u by (simp add: unat_sub word_le_nat_alt)
  then have "unat (drop_bit VMM_PAGE_SHIFT (va - pe_base e)) = p" by (simp only: unat_drop_bit_eq) (simp add: drop_bit_eq_div)
  then have "unat (ucast (drop_bit VMM_PAGE_SHIFT (va - pe_base e)) :: u32) = p" using assms(2) lim(2) by (simp only: unsigned_ucast_eq) (simp add: take_bit_eq_mod)
  then show "int_arg (ucast (drop_bit VMM_PAGE_SHIFT (va - pe_base e))) = Some p" using assms(2) lim(2) by (simp add: int_arg_def)
qed

lemma used_bits:
  assumes "pool_ok pp" "a \<in> set (entry_list pp)" "p + n \<le> unat (pe_page_count (pp_entry pp a))"
    "\<forall>x. in_pages_at (pe_base (pp_entry pp a) + of_nat p * VMM_PAGE_SIZE) n x \<longrightarrow> pages_used pp x" "p \<le> k" "k < p + n"
  shows "bm_bit (pe_bmap (pp_entry pp a)) k"
proof -
  have e: "entry_ok (pp_entry pp a)" "k < unat (pe_page_count (pp_entry pp a))" "0 < n" using assms by (simp_all add: pool_ok_def)
  note k = page_index(1) [OF e(1,2) refl]
  then have "pages_used pp (pe_base (pp_entry pp a) + of_nat k * VMM_PAGE_SIZE)" using assms(4-6) page_addr(2) [OF e(1) assms(3) e(3)] by blast
  then show ?thesis using pages_used_entry [OF assms(1,2) k] by simp
qed

text \<open>Clearing a run of pages of an entry.\<close>

lemma cleared_pages:
  assumes ok: "pool_ok pp" "a \<in> set (entry_list pp)" "e = pp_entry pp a" and b: "entry_ok (set_pages e bm av)"
    "\<And>k. bm_bit bm k \<longleftrightarrow> \<not> (p \<le> k \<and> k < p + n) \<and> bm_bit (pe_bmap e) k"
    and ip: "\<And>x. in_pages_at va n x \<longleftrightarrow> (\<exists>k. page_in e x k \<and> p \<le> k \<and> k < p + n)"
    and q: "q = pp\<lparr>pp_entry := (pp_entry pp)(a := set_pages e bm av)\<rparr>"
  shows "pool_ok q" "pool_mem_ok q s = pool_mem_ok pp s" "pages_used q x \<longleftrightarrow> pages_used pp x \<and> \<not> in_pages_at va n x"
proof -
  have al: "a \<in> set (entry_list q)" "distinct (entry_list q)" using ok by (simp_all add: q pool_ok_def)
  have pu: "pool_ok q" "pages_used q x \<longleftrightarrow> (\<exists>c \<in> set (entry_list pp) - {a}. \<exists>k. page_in (pp_entry pp c) x k \<and> bm_bit (pe_bmap (pp_entry pp c)) k) \<or> (\<exists>k. page_in e x k \<and> bm_bit bm k)"
    using pool_update [OF ok(1,2) b(1), of "pagepool_adjust a q"] adjust_iff [OF al] ok(3) by (simp_all add: q set_pages_def)
  show "pool_ok q" by (rule pu)
  have "pe_bmap_ptr (pp_entry q c) = pe_bmap_ptr (pp_entry pp c)" "entry_list q = entry_list pp" for c using ok(3) by (simp_all add: q set_pages_def)
  then show "pool_mem_ok q s = pool_mem_ok pp s" unfolding pool_mem_ok_def by simp
  show "pages_used q x \<longleftrightarrow> pages_used pp x \<and> \<not> in_pages_at va n x"
  proof (cases "\<exists>k. page_in e x k")
    case True
    then obtain k where k: "page_in e x k" "\<And>j. page_in e x j \<longleftrightarrow> j = k" by (auto simp: page_in_def)
    have "\<not> page_in (pp_entry pp c) x j" if "c \<in> set (entry_list pp) - {a}" for c j
      using page_in_unique(1) [OF ok(1,2), of c x k j] that ok(3) k(1) by blast
    then have "pages_used q x \<longleftrightarrow> (\<exists>k. page_in e x k \<and> bm_bit bm k)" using pu(2) by blast
    then have "pages_used q x \<longleftrightarrow> bm_bit bm k" using k(2) by simp
    then show ?thesis using pages_used_entry [OF ok(1,2)] k ok(3) b(2) [of k] ip [of x] by auto
  next
    case False
    then show ?thesis using pu(2) ip [of x] ok(2,3) unfolding pages_used_def by blast
  qed
qed

text \<open>
  Property C25: \<^verbatim>\<open>pagepool_free\<close> of pages of one entry that are all in use returns \<^verbatim>\<open>VMM_OK\<close>, and afterwards exactly these pages are
  no longer in use. The invariants are kept, also when the entry has no page in use left and is given back; for that case
  the host has to return from freeing the huge pages.\<close>
theorem pagepool_free_exact:
  assumes "pool_ok pp" and "pool_mem_ok pp s" and "a \<in> set (entry_list pp)" and "e = pp_entry pp a" and "n \<noteq> 0"
    and "p + unat n \<le> unat (pe_page_count e)" and "va = pe_base e + of_nat p * VMM_PAGE_SIZE" and "\<forall>x. in_pages_at va (unat n) x \<longrightarrow> pages_used pp x"
    and "vmm_host_free_hugepages C (pe_base e) (pe_hugepage_count e) (hp_host s) \<noteq> None"
  shows "\<exists>pp' s'. pagepool_free C va n (pp, s) = Some (VMM_OK, pp', s') \<and> pool_ok pp' \<and> pool_mem_ok pp' s' \<and>
    (\<forall>x. pages_used pp' x \<longleftrightarrow> pages_used pp x \<and> \<not> in_pages_at va (unat n) x)"
proof -
  have e0: "entry_ok e" "0 < unat n" using assms(1,3-5) by (simp_all add: pool_ok_def unat_gt_0)
  then have "unat (pe_page_count e) < 2 ^ 31" by (simp add: entry_ok_def)
  then have e: "entry_ok e" "0 < unat n" "p < unat (pe_page_count e)" "unat n < 2 ^ 31" using e0 assms(6) by linarith+
  have ip: "in_pages_at va (unat n) x \<longleftrightarrow> (\<exists>k. page_in e x k \<and> p \<le> k \<and> k < p + unat n)" for x using page_addr(2) [OF e(1) assms(6) e(2)] assms(7) by simp
  have bits: "bm_bit (pe_bmap e) k" if "p \<le> k" "k < p + unat n" for k using used_bits [OF assms(1,3)] assms(4,6-8) that by blast
  obtain bm where b: "bitmap_clear (pe_bmap e) p (unat n) = Some bm" "entry_ok (set_pages e bm (pe_page_avail_count e + n))"
    "\<And>k. bm_bit bm k \<longleftrightarrow> \<not> (p \<le> k \<and> k < p + unat n) \<and> bm_bit (pe_bmap e) k" "n \<le> pe_page_count e - pe_page_avail_count e"
    by (rule clear_run [OF e(1) assms(6) bits], assumption, assumption, rule that; assumption)
  define q where "q = pp\<lparr>pp_entry := (pp_entry pp)(a := set_pages e bm (pe_page_avail_count e + n))\<rparr>"
  note cl = cleared_pages [OF assms(1,3,4) b(2,3) ip q_def]
  have al: "a \<in> set (entry_list q)" "distinct (entry_list q)" using assms(1,3) by (simp_all add: q_def pool_ok_def)
  have run: "pagepool_free C va n (pp, s) = (if pe_page_count e = pe_page_avail_count e + n then map_option (Pair VMM_OK) (pagepool_del_entry C a (q, s))
      else Some (VMM_OK, pagepool_adjust a q, s))"
  proof -
    have "\<not> pe_page_count e - pe_page_avail_count e < n" "int_arg n = Some (unat n)" using b(4) e(4) by (simp_all only: not_less) (simp add: int_arg_def)
    moreover have "pagepool_find_by_va pp va = Some a" using find_by_va_spec [OF assms(1,3)] page_index(1) [OF e(1,3) assms(7)] assms(4) by blast
    ultimately show ?thesis using page_index(2) [OF e(1,3) assms(7)] b(1) assms(4) by (simp add: pagepool_free_def Let_def q_def set_pages_def)
  qed
  have ent: "pp_entry q a = set_pages e bm (pe_page_avail_count e + n)" by (simp add: q_def)
  show ?thesis
  proof (cases "pe_page_count e = pe_page_avail_count e + n")
    case True
    then have av: "pe_page_avail_count (pp_entry q a) = pe_page_count (pp_entry q a)"
      and h: "vmm_host_free_hugepages C (pe_base (pp_entry q a)) (pe_hugepage_count (pp_entry q a)) (hp_host s) \<noteq> None"
      using assms(9) by (simp_all only: ent) (simp_all add: set_pages_def)
    obtain pp' s' where "pagepool_del_entry C a (q, s) = Some (pp', s')" "pool_ok pp'" "pool_mem_ok pp' s'" "pages_used pp' = pages_used q"
      by (rule del_spec [OF cl(1) cl(2) [THEN iffD2, OF assms(2)] al(1) av h], rule that; assumption)
    then show ?thesis using run True cl(3) by simp
  next
    case False
    then show ?thesis using run adjust_iff [OF al] cl assms(2) by simp
  qed
qed

section \<open>Witnesses\<close>

text \<open>An entry of four pages, the first two in use.\<close>

definition ex_pool_entry :: pagepool_entry where
  "ex_pool_entry = \<lparr>pe_base = 0x40000000, pe_size = 0x4000, pe_hugepage_count = 1, pe_page_count = 4, pe_page_avail_count = 2, pe_bmap = [3], pe_bmap_ptr = 0x13000\<rparr>"

definition ex_page_pool :: pagepool_ctrl where
  "ex_page_pool = \<lparr>pp_type = 0, pp_root = Rb_node RB_BLACK RB_NULL 0x12000 RB_NULL, entry_list = [0x12000], pp_entry = (\<lambda>a. ex_pool_entry)\<rparr>"

lemma ex_pool_bit:
  assumes "k < 4"
  shows "bm_bit [3] k \<longleftrightarrow> k < 2"
proof -
  have "k = 0 \<or> k = 1 \<or> k = 2 \<or> k = 3" using assms by arith
  then show ?thesis by (elim disjE) (simp_all add: bm_bit_def)
qed

lemma ex_pool_ok: "pool_ok ex_page_pool"
proof -
  have "{i. i < 4 \<and> \<not> bm_bit [3] i} = {2, 3}" by (auto simp: ex_pool_bit)
  then have "entry_ok ex_pool_entry" by (simp add: entry_ok_def ex_pool_entry_def)
  then show ?thesis by (simp add: pool_ok_def ex_page_pool_def rb_root_ok_def rb.ranges_def pe_end_def ex_pool_entry_def exI [of _ 1])
qed

lemma ex_pool_mem:
  obtains s where "pool_mem_ok ex_page_pool s" "hp_host s = ex_host"
proof -
  have n: "normal_heap ex_heap = heap_zero\<lparr>h_ba := example_buddy, h_mem_start := 0x10000, h_mem_size := 0x10000\<rparr>" by (simp add: ex_heap_def)
  have ok: "heap_ok (normal_heap ex_heap)" unfolding n heap_ok_def by (simp add: example_wf) (simp add: example_buddy_def)
  have "map_option (\<lambda>(p, h). (p, map_option fst (heap_malloc 8 h))) (heap_malloc 80 (heap_zero\<lparr>h_ba := example_buddy, h_mem_start := 0x10000, h_mem_size := 0x10000\<rparr>)) =
      Some (0x12000, Some 0x13000)" by code_simp
  then obtain h1 h2 where "heap_malloc 80 (normal_heap ex_heap) = Some (0x12000, h1)" "heap_malloc 8 h1 = Some (0x13000, h2)" unfolding n by auto
  then obtain s1 s2 where z: "vmm_zalloc 80 ex_heap = Some (0x12000, s1)" "vmm_zalloc 8 s1 = Some (0x13000, s2)" "hp_host s2 = hp_host ex_heap"
    by (simp add: vmm_zalloc_def vmm_malloc_def memset_bytes_def)
  note o1 = zalloc_owns [OF ok z(1)] and o2 = zalloc_owns [OF zalloc_owns(1) [OF ok z(1)] z(2)]
  have "pool_mem_ok ex_page_pool s2" using o1 o2 by (simp add: pool_mem_ok_def ex_page_pool_def ex_pool_entry_def)
  then show ?thesis using that z(3) by (simp add: ex_heap_def)
qed

theorem pagepool_alloc_fresh_witness:
  "\<exists>s pp' s'. pagepool_alloc ex_cfg 1 (ex_page_pool, s) = Some (0x40002000, pp', s') \<and> pool_ok pp' \<and> pages_used pp' 0x40002abc \<and> \<not> pages_used ex_page_pool 0x40002abc"
proof -
  obtain s where s: "pool_mem_ok ex_page_pool s" by (rule ex_pool_mem)
  have b: "pagepool_find_bmap ex_pool_entry 1 = Some 2"
    by (simp add: pagepool_find_bmap_def ex_pool_entry_def find_bmap_from.simps int_arg_def ex_pool_bit)
  then have f: "pagepool_find_alloc_entry ex_page_pool 1 = Some (Some 0x12000)" by (simp add: pagepool_find_alloc_entry_def ex_page_pool_def, simp add: ex_pool_entry_def)
  obtain bm where "bitmap_set (pe_bmap ex_pool_entry) 2 1 = Some bm" using bitmap_set_bits [of 2 1 "pe_bmap ex_pool_entry"] by (auto simp: ex_pool_entry_def)
  then obtain pp' where t: "pagepool_take 0x12000 1 ex_page_pool = Some (0x40002000, pp')" and l: "entry_list pp' = [0x12000]"
    "pe_base (pp_entry pp' 0x12000) = 0x40000000" "pe_size (pp_entry pp' 0x12000) = 0x4000"
    using b by (simp add: pagepool_take_def ex_page_pool_def int_arg_def pagepool_adjust_def Let_def VMM_PAGE_SIZE_def order_size_def) (simp add: ex_pool_entry_def)
  have r: "pagepool_alloc ex_cfg 1 (ex_page_pool, s) = Some (0x40002000, pp', s)" using f t by (simp add: pagepool_alloc_def)
  have "pool_ok pp' \<and> pool_mem_ok pp' s \<and> (\<forall>x. pages_used pp' x \<longleftrightarrow> pages_used ex_page_pool x \<or> in_pages_at 0x40002000 (unat (1 :: u32)) x) \<and>
    (\<forall>x. in_pages_at 0x40002000 (unat (1 :: u32)) x \<longrightarrow> \<not> pages_used ex_page_pool x)"
    by (rule pagepool_alloc_fresh [OF ex_pool_ok s _ r]) (simp_all add: l)
  moreover have "in_pages_at 0x40002000 (unat (1 :: u32)) 0x40002abc" by (simp add: in_pages_at_def)
  ultimately show ?thesis using r by blast
qed

theorem pagepool_free_exact_witness:
  "\<exists>s pp' s'. pagepool_free ex_cfg 0x40001000 1 (ex_page_pool, s) = Some (VMM_OK, pp', s') \<and> pool_ok pp' \<and> \<not> pages_used pp' 0x40001abc"
proof -
  obtain s where s: "pool_mem_ok ex_page_pool s" "hp_host s = ex_host" by (rule ex_pool_mem)
  have a: "0x12000 \<in> set (entry_list ex_page_pool)" "pp_entry ex_page_pool 0x12000 = ex_pool_entry" by (simp_all add: ex_page_pool_def)
  have va: "(0x40001000 :: u64) = pe_base ex_pool_entry + of_nat 1 * VMM_PAGE_SIZE" by (simp add: ex_pool_entry_def VMM_PAGE_SIZE_def order_size_def)
  have e: "entry_ok ex_pool_entry" using ex_pool_ok by (simp add: pool_ok_def ex_page_pool_def)
  have "pages_used ex_page_pool x" if x: "in_pages_at 0x40001000 (unat (1 :: u32)) x" for x
  proof -
    have "1 + 1 \<le> unat (pe_page_count ex_pool_entry)" by (simp add: ex_pool_entry_def)
    then obtain k where k: "page_in ex_pool_entry x k" "1 \<le> k" "k < 1 + 1" using x page_addr(2) [OF e, of 1 1 x] unfolding va by auto
    then have "k = 1" by linarith
    then have "page_in ex_pool_entry x 1" using k(1) by simp
    then show ?thesis using pages_used_entry [OF ex_pool_ok a(1)] a(2) ex_pool_bit [of 1] by (simp add: ex_pool_entry_def)
  qed
  moreover have "vmm_host_free_hugepages ex_cfg (pe_base ex_pool_entry) (pe_hugepage_count ex_pool_entry) (hp_host s) \<noteq> None"
  proof -
    have "hyp_ok ex_cfg ex_sys" using ex_host_ok by (simp add: host_ok_def)
    then have "arch_cpu_aspace_va2pa ex_cfg va (hs_mmu ex_host) = Some (Inl VMM_EFAIL)" for va
      using va2pa_page [of ex_cfg ex_sys va] by (simp add: hyp_page_def mmu_get_hypervisor_page_def ex_unmapped)
    then show ?thesis using s(2) by (simp add: vmm_host_free_hugepages_def host_free_pages_def Let_def)
  qed
  ultimately obtain pp' s' where r: "pagepool_free ex_cfg 0x40001000 1 (ex_page_pool, s) = Some (VMM_OK, pp', s')" "pool_ok pp'"
    "\<forall>x. pages_used pp' x \<longleftrightarrow> pages_used ex_page_pool x \<and> \<not> in_pages_at 0x40001000 (unat (1 :: u32)) x"
    using pagepool_free_exact [OF ex_pool_ok s(1) a(1) a(2) [symmetric] _ _ va, of 1 ex_cfg] by (auto simp: ex_pool_entry_def)
  have "in_pages_at 0x40001000 (unat (1 :: u32)) 0x40001abc" by (simp add: in_pages_at_def)
  then show ?thesis using r by blast
qed

text \<open>
  A free run at the first page of an entry is not taken for a request: position \<open>0\<close> is treated like \<open>-1\<close>. The same holds
  when the request is for all the available pages.
\<close>

lemma pagepool_skips_first_page:
  "pagepool_find_bmap (set_pages ex_pool_entry [2] 3) 1 = Some 0 \<and>
   pagepool_find_alloc_entry (ex_page_pool\<lparr>pp_entry := (\<lambda>a. set_pages ex_pool_entry [2] 3)\<rparr>) 1 = Some None \<and>
   pagepool_find_bmap ex_pool_entry 2 = Some 2 \<and> pagepool_find_alloc_entry ex_page_pool 2 = Some None"
proof -
  have b: "\<not> bm_bit [2] 0" by (simp add: bm_bit_def)
  have f: "pagepool_find_bmap (set_pages ex_pool_entry [2] 3) 1 = Some 0"
    by (simp add: pagepool_find_bmap_def set_pages_def ex_pool_entry_def find_bmap_from.simps int_arg_def b)
  then have "pagepool_find_alloc_entry (ex_page_pool\<lparr>pp_entry := (\<lambda>a. set_pages ex_pool_entry [2] 3)\<rparr>) 1 = Some None"
    by (simp add: pagepool_find_alloc_entry_def ex_page_pool_def)
  moreover have "pagepool_find_bmap ex_pool_entry 2 = Some 2"
    by (simp add: pagepool_find_bmap_def ex_pool_entry_def find_bmap_from.simps int_arg_def ex_pool_bit)
  moreover have "pagepool_find_alloc_entry ex_page_pool 2 = Some None" by (simp add: pagepool_find_alloc_entry_def ex_page_pool_def ex_pool_entry_def)
  ultimately show ?thesis using f by blast
qed

end
