(* ===== verification/Spec2Isabelle.thy ===== *)
theory Spec2Isabelle
  imports Fifo Timer Sync Vcpu_wfi Schedalgo_prm Guest_region Pagepool
begin

text \<open>
  Verification of the core of the Xvisor hypervisor: the code that schedules virtual CPUs, keeps time, hands out memory
  and builds the address spaces of guests and host.

  \<^bold>\<open>The program.\<close> Xvisor is a type-1 hypervisor in C. A host CPU runs one VCPU at a time; a VCPU belongs to a guest, or is an
  \<^emph>\<open>orphan\<close> VCPU, a thread of the hypervisor. The scheduler (\<^verbatim>\<open>core/vmm_scheduler.c\<close>) switches VCPUs on a per-CPU timer
  event, keeps the READY ones in a ready queue of a scheduling algorithm (\<^verbatim>\<open>core/schedalgo\<close>), and changes their
  states for the manager. Timer events (\<^verbatim>\<open>core/vmm_timer.c\<close>) are driven by clockchips and clocksources. Wait queues
  (\<^verbatim>\<open>core/vmm_waitqueue.c\<close>) put orphan VCPUs to sleep through the scheduler, and semaphores, mutexes and completions are
  built on them. Virtual interrupts (\<^verbatim>\<open>core/vmm_vcpu_irq.c\<close>) wake guest VCPUs that wait for them. Guest memory is a set of
  regions (\<^verbatim>\<open>core/vmm_guest_aspace.c\<close>) in red-black trees, backed by frames of the host RAM allocator
  (\<^verbatim>\<open>core/vmm_host_ram.c\<close>, on bitmaps) or by shared memory. Translations are page tables
  (\<^verbatim>\<open>arch/common/generic_mmu.c\<close>), here with the RISC-V formats. Virtual addresses of the host come from a buddy allocator
  (\<^verbatim>\<open>libs/common/buddy.c\<close>).

  \<^bold>\<open>Conventions.\<close> Machine integers are words of their C width and wrap around; where the C code reads an \<^verbatim>\<open>int\<close> it is an
  \<^typ>\<open>int\<close> within range. A struct is a record, an enumeration a datatype. Pointers to objects with identity (VCPUs, regions,
  page tables, timer events) are numbers into a store held by the state; structures whose identity is never observed are
  values. An operation is a function of the state that returns the result and the new state. Error codes are values. The
  result is an option where the code can fail to return: \<^const>\<open>None\<close> is a panic, a failed \<^verbatim>\<open>BUG_ON\<close>, a null
  pointer or an access outside an array. Loops whose end is not structural are functions with a measure or
  \<^theory_text>\<open>partial_function\<close> in the option monad, where \<^const>\<open>None\<close> is also not returning; the properties about
  them prove that they return. No fuel is used. Code outside the repository and code of the repository below the modelled
  layer (device tree, device emulators, architecture callbacks, instructions) is a parameter: a field of a record of
  operations, or a function argument.

  A function that holds a lock with interrupts disabled is one step; a function that drops the lock to sleep or to call the
  scheduler is split there. Interleavings are sequences of such steps, in the step relations of \<open>Sched_Reach\<close>, \<open>Waitqueue\<close> and
  \<open>Sync\<close>.

  \<^bold>\<open>The theories.\<close>

  \<open>Prelude\<close>: integer types, error codes, byte memory, lemmas on words and options.

  \<open>Fifo\<close> (\<^verbatim>\<open>libs/common/fifo.c\<close>): the ring buffer. The locale \<open>bounded_queue\<close> is what its clients use; the ring buffer is an
  instance, so it delivers what was enqueued, in order.

  \<open>Bitmap\<close> (\<^verbatim>\<open>libs/common/bitmap.c\<close>), \<open>Host_ram\<close> (\<^verbatim>\<open>core/vmm_host_ram.c\<close>), \<open>Shmem\<close> (\<^verbatim>\<open>core/vmm_shmem.c\<close>): the region search of
  bitmaps is a first-fit search over bits; allocation of a chunk marks exactly its frames inside one bank, and reserve and free undo
  each other, with exact counters.

  \<open>Rbtree\<close> (\<^verbatim>\<open>libs/common/rbtree.c\<close>): insertion, erasure, iteration on a tree with a path to the root. The red-black rules and the
  order of the elements are kept. The locale \<open>ordered_store\<close> is the view of the clients that order their
  elements by a comparison or as disjoint ranges.

  \<open>Clock\<close> (\<^verbatim>\<open>core/vmm_clocksource.c\<close>, \<^verbatim>\<open>core/vmm_clockchip.c\<close>) and \<open>Timer\<close> (\<^verbatim>\<open>core/vmm_timer.c\<close>): conversion of masked cycle
  counters, the sorted lists of timer events, and the handler that runs expired events and programs the clockchip.

  \<open>Vcpu\<close>, \<open>Schedalgo\<close>, \<open>Schedalgo_prm\<close>: the VCPU and the two ready queues. The locale \<open>ready_queue\<close> states priority and first-in
  first-out order; the round-robin queue is its instance.

  \<open>Sched_State\<close>, \<open>Vcpu_irq\<close>, \<open>Scheduler\<close>, \<open>Sched_Inv\<close>, \<open>Sched_Reach\<close> (\<^verbatim>\<open>core/vmm_scheduler.c\<close>, \<^verbatim>\<open>core/vmm_vcpu_irq.c\<close>): the state the
  scheduler shares with timers and interrupts, its operations, the invariant that relates VCPU states, ready queues and current VCPUs,
  and the step relation of all CPUs with its reachable states.

  \<open>Waitqueue\<close>, \<open>Sync\<close>, \<open>Vcpu_wfi\<close> (\<^verbatim>\<open>core/vmm_waitqueue.c\<close>, \<^verbatim>\<open>core/vmm_semaphore.c\<close>, \<^verbatim>\<open>core/vmm_mutex.c\<close>, \<^verbatim>\<open>core/vmm_completion.c\<close> and
  the waiting half of \<^verbatim>\<open>core/vmm_vcpu_irq.c\<close>): sleeping and waking over the scheduler. The mutex refines a recursive mutex; the units of a
  semaphore are bounded in every run; an interrupt wakes a waiting VCPU.

  \<open>Guest_aspace\<close>, \<open>Guest_region\<close> (\<^verbatim>\<open>core/vmm_guest_aspace.c\<close>): lookup, access and physical mapping of regions; adding and deleting
  regions with all error exits. Regions never overlap, lookups are exact, and reads return the bytes of the mapped frames.

  \<open>Riscv_mmu\<close> (\<^verbatim>\<open>arch/riscv/cpu/generic/cpu_mmu.c\<close>), \<open>Mmu\<close>, \<open>Mmu_wf\<close>, \<open>Mmu_map\<close>, \<open>Mmu_unmap\<close>, \<open>Mmu_free\<close>, \<open>Mmu_aspace\<close>
  (\<^verbatim>\<open>arch/common/generic_mmu.c\<close>): page tables in pools with parents and children, the invariant, and what mapping, unmapping and
  freeing do to every lookup. The locale \<open>translation\<close> is the view of an address space; the hypervisor's is its instance.

  \<open>Buddy\<close>, \<open>Buddy_inv\<close>, \<open>Buddy_prop\<close>, \<open>Buddy_more\<close> (\<^verbatim>\<open>libs/common/buddy.c\<close>): bins of free areas and a tree of allocated ones. Every
  operation is an equation between the number of areas that cover a byte, so no byte is lost or handed out twice. The locale
  \<open>byte_allocator\<close> is the contract of an allocator for its clients.

  \<open>Host_vapool\<close> (\<^verbatim>\<open>core/vmm_host_vapool.c\<close>), \<open>Host_mhash\<close>, \<open>Host_aspace\<close>, \<open>Host_memmap\<close> (\<^verbatim>\<open>core/vmm_host_aspace.c\<close>): the address space of
  the host, which composes the buddy allocator, the page tables, a red-black tree of mapped ranges with reference counts and the RAM
  allocator. The table of ranges is shown to be a map from physical to virtual addresses. The invariant \<open>host_ok\<close> ties the parts
  together: unused addresses of the pool have no translation, and what the table names translates back. Mapping a range and
  unmapping it are shown on it, for pages of 4 KiB; huge pages are modelled. \<open>va_limit\<close> is the number of addresses that the root table
  distinguishes, since its walk ignores higher bits.

  \<open>Host_memory\<close> (\<^verbatim>\<open>core/vmm_host_aspace.c\<close>, \<^verbatim>\<open>arch/common/generic_mmu.c\<close>): reads and writes of physical memory through a page-table
  entry that each host CPU keeps for it. The processor is a walk of the page tables; what is read and written is the physical range, and
  the tables are as before.

  \<open>Heap\<close> (\<^verbatim>\<open>core/vmm_heap.c\<close>): the normal and the DMA heap, each a buddy allocator on pages of the host. A heap is an instance
  of the same contract for allocators as the buddy allocator. What is allocated is fresh and, for \<^verbatim>\<open>vmm_zalloc\<close>, zero; freeing it restores
  the allocated areas. A successful initialisation gives such a heap.

  \<open>Pagepool\<close> (\<^verbatim>\<open>core/vmm_pagepool.c\<close>): pools of pages cut from huge pages, with entries in the heap, in a red-black tree and in a list by
  the number of available pages. Pages handed out are fresh and freeing them is exact; the search for a run of free pages is shown
  to find one whenever there is one. That entries do not overlap rests on the check at their insertion, a panic otherwise; that they do not reach the
  end of the address space is a hypothesis on the huge pages of the host.

  \<^bold>\<open>Properties.\<close> Each property of the development is a theorem after a text that states it; a theorem with hypotheses is followed by
  a witness that applies it to a concrete state. Several facts show where the code does not do what it means to: a run of
  host frames past the end of its bank, a region at the top of the address space that is never found, memory that the
  initialisation of the buddy allocator loses.

  \<^bold>\<open>Not modelled.\<close> The creation and destruction of guests and VCPUs in \<^verbatim>\<open>core/vmm_manager.c\<close> beyond the parts that the modelled
  components call; the device tree, device driver and device emulation frameworks, which mostly move strings and call callbacks; the
  network, block and video layers; host interrupts, MSI and the IOMMU; threads, work queues, load balancing and CPU hotplug; the
  architecture ports other than the page tables of RISC-V, whose behaviour is that of instructions and control
  registers; drivers, emulators, commands and daemons; the remaining libraries, several of which are imported code.
  Within the modelled files, printing, statistics, the scan of the boot page tables and cache and TLB
  instructions are left out. Concurrency is modelled at the granularity of critical sections, not of memory accesses.
\<close>

end
